(* ===== verification/Prelude.thy ===== *)
theory Prelude
  imports Main "HOL-Library.Word" "HOL-Library.List_Lexorder"
begin

text \<open>
  Vocabulary shared by every component of the development.

  \<^item> the machine types of \<^verbatim>\<open>catapult/types.h\<close>: every \<^verbatim>\<open>BaseValue<uint64_t, ...>\<close> (amounts,
    mosaic ids, heights, durations, importances) is a \<^typ>\<open>64 word\<close>, so that its \<open>+\<close> and \<open>-\<close> wrap
    exactly as the C++ operators do; byte arrays (addresses, hashes, keys) are lists of bytes,
    compared lexicographically as \<^verbatim>\<open>ByteArray::operator<\<close> does;
  \<^item> the result of code that may throw (\<open>result\<close>), with its bind;
  \<^item> the notify mode of the observers and the outcome of the validators;
  \<^item> the ordered containers of the standard library (\<^verbatim>\<open>std::map\<close>, \<^verbatim>\<open>std::set\<close>) as sorted lists, with
    the laws every client of them uses.
\<close>

section \<open>Collections of facts\<close>

named_theorems inv_intros \<open>an operation keeps the invariant of its component\<close>
named_theorems abs_simps \<open>what an operation does to the abstract value of its component\<close>

section \<open>Machine types\<close>

type_synonym u8 = "8 word"
type_synonym u16 = "16 word"
type_synonym u32 = "32 word"
type_synonym u64 = "64 word"

type_synonym Amount = u64
type_synonym MosaicId = u64
type_synonym Height = u64
type_synonym BlockDuration = u64
type_synonym Importance = u64
type_synonym Timestamp = u64

type_synonym bytes = "u8 list"
type_synonym Address = bytes
type_synonym Hash256 = bytes
type_synonym Key = bytes

type_synonym HeightHashPair = "Height \<times> Hash256"

text \<open>
  Facts that move a comparison or a sum of words to the naturals, where the arithmetic
  methods work. \<open>no_wrap a b\<close> says that a sum of two words does not leave the width.
\<close>

definition no_wrap :: "u64 \<Rightarrow> u64 \<Rightarrow> bool" where
  "no_wrap a b \<longleftrightarrow> unat a + unat b < 2 ^ 64"

lemma unat_add_no_wrap: "no_wrap a b \<Longrightarrow> unat (a + b) = unat a + unat b"
  by (simp add: no_wrap_def unat_word_ariths)

lemma unat_sub_le: "b \<le> a \<Longrightarrow> unat (a - b) = unat a - unat b" for a b :: u64
  by (simp add: unat_sub)

lemma no_wrap_le: "no_wrap a b \<Longrightarrow> a \<le> a + b"
  by (simp add: word_le_nat_alt unat_add_no_wrap)

lemma no_wrap_le2: "no_wrap a b \<Longrightarrow> b \<le> a + b"
  by (simp add: word_le_nat_alt unat_add_no_wrap)

lemma no_wrap_commute: "no_wrap a b \<longleftrightarrow> no_wrap b a"
  by (simp add: no_wrap_def add.commute)

lemma no_wrap_0: "no_wrap a 0"
proof -
  have "unat a < 2 ^ 64" using unsigned_less [of a] by simp
  then show ?thesis by (simp add: no_wrap_def)
qed

lemma no_wrap_sub: "b \<le> a \<Longrightarrow> no_wrap (a - b) b"
proof -
  assume "b \<le> a"
  then have "unat (a - b) + unat b = unat a"
    by (simp add: unat_sub_le word_le_nat_alt)
  then show ?thesis
    using unsigned_less [of a] by (simp add: no_wrap_def)
qed

text \<open>The overflow test of the code: a wrapped sum is smaller than its first summand.\<close>

lemma wrap_less: "a + b < a \<longleftrightarrow> \<not> no_wrap a b"
proof (cases "no_wrap a b")
  case True
  then show ?thesis by (simp add: word_less_nat_alt unat_add_no_wrap)
next
  case False
  define n where "n = (2 :: nat) ^ 64"
  have lt: "unat a < n" "unat b < n" "n \<le> unat a + unat b"
    using False unsigned_less [of a] unsigned_less [of b] by (simp_all add: no_wrap_def n_def)
  have "unat (a + b) = (unat a + unat b) mod n" by (simp add: unat_word_ariths n_def)
  also have "\<dots> = unat a + unat b - n" using lt by (simp add: le_mod_geq)
  finally show ?thesis using lt False by (simp add: word_less_nat_alt)
qed

section \<open>Code that throws\<close>

text \<open>
  The exception classes of \<^verbatim>\<open>catapult/exceptions.h\<close> that the modelled code raises, and a value for
  behaviour that C++ leaves undefined (a null dereference, an invalid iterator).
\<close>

datatype catapult_error =
    runtime_error
  | invalid_argument
  | out_of_range
  | undefined_behaviour

type_synonym 'a result = "catapult_error + 'a"

fun bind_result :: "'a result \<Rightarrow> ('a \<Rightarrow> 'b result) \<Rightarrow> 'b result" where
  "bind_result (Inl e) f = Inl e"
| "bind_result (Inr x) f = f x"

lemma bind_result_Inr_iff [simp]:
  "bind_result r f = Inr y \<longleftrightarrow> (\<exists>x. r = Inr x \<and> f x = Inr y)"
  by (cases r) auto

lemma bind_result_Inl_iff:
  "bind_result r f = Inl e \<longleftrightarrow> r = Inl e \<or> (\<exists>x. r = Inr x \<and> f x = Inl e)"
  by (cases r) auto

text \<open>A loop over a list whose body may throw: the first exception leaves the loop.\<close>

fun foldM :: "('a \<Rightarrow> 's \<Rightarrow> 's result) \<Rightarrow> 'a list \<Rightarrow> 's \<Rightarrow> 's result" where
  "foldM f [] s = Inr s"
| "foldM f (x # xs) s = bind_result (f x s) (foldM f xs)"

lemma foldM_append [simp]: "foldM f (xs @ ys) s = bind_result (foldM f xs s) (foldM f ys)"
proof (induction xs arbitrary: s)
  case (Cons x xs)
  then show ?case by (cases "f x s") auto
qed simp

text \<open>A property every iteration keeps holds for the result of the loop.\<close>

lemma foldM_invariant:
  assumes "foldM f xs s = Inr s'" and "P s"
    and "\<And>x t t'. x \<in> set xs \<Longrightarrow> P t \<Longrightarrow> f x t = Inr t' \<Longrightarrow> P t'"
  shows "P s'"
  using assms by (induction xs arbitrary: s) auto

section \<open>Observers and validators\<close>

text \<open>\<^verbatim>\<open>observers::NotifyMode\<close>: a block is being applied or undone.\<close>

datatype NotifyMode = Commit | Rollback

text \<open>
  \<^verbatim>\<open>validators::ValidationResult\<close>: success, neutral, or one of the failures the component declares.
\<close>

datatype 'f ValidationResult = Success | Neutral | Failure 'f

fun IsValidationResultSuccess :: "'f ValidationResult \<Rightarrow> bool" where
  "IsValidationResultSuccess Success = True"
| "IsValidationResultSuccess _ = False"

section \<open>Ordered containers\<close>

text \<open>
  \<^verbatim>\<open>std::map<K, V>\<close> is the list of its nodes in iteration order: strictly ascending keys.
  \<open>omap_insert\<close> is \<^verbatim>\<open>insert\<close>/\<^verbatim>\<open>emplace\<close> (an existing key keeps its value), \<open>omap_put\<close> is
  \<^verbatim>\<open>operator[]\<close> followed by an assignment, \<open>omap_erase\<close> is \<^verbatim>\<open>erase(key)\<close>; \<^verbatim>\<open>find\<close> is \<^const>\<open>map_of\<close>.
\<close>

type_synonym ('k, 'v) omap = "('k \<times> 'v) list"

abbreviation keys :: "('k \<times> 'v) list \<Rightarrow> 'k list" where
  "keys m \<equiv> map fst m"

definition omap_ok :: "('k :: linorder, 'v) omap \<Rightarrow> bool" where
  "omap_ok m \<longleftrightarrow> sorted_wrt (<) (keys m)"

fun omap_insert :: "'k :: linorder \<Rightarrow> 'v \<Rightarrow> ('k, 'v) omap \<Rightarrow> ('k, 'v) omap" where
  "omap_insert k v [] = [(k, v)]"
| "omap_insert k v ((k', v') # m) =
     (if k < k' then (k, v) # (k', v') # m
      else if k = k' then (k', v') # m
      else (k', v') # omap_insert k v m)"

fun omap_put :: "'k :: linorder \<Rightarrow> 'v \<Rightarrow> ('k, 'v) omap \<Rightarrow> ('k, 'v) omap" where
  "omap_put k v [] = [(k, v)]"
| "omap_put k v ((k', v') # m) =
     (if k < k' then (k, v) # (k', v') # m
      else if k = k' then (k, v) # m
      else (k', v') # omap_put k v m)"

definition omap_erase :: "'k \<Rightarrow> ('k, 'v) omap \<Rightarrow> ('k, 'v) omap" where
  "omap_erase k m = filter (\<lambda>kv. fst kv \<noteq> k) m"

lemma set_keys_omap_insert [simp]: "fst ` set (omap_insert k v m) = insert k (fst ` set m)"
  by (induction k v m rule: omap_insert.induct) (simp_all add: insert_commute)

lemma set_keys_omap_put [simp]: "fst ` set (omap_put k v m) = insert k (fst ` set m)"
  by (induction k v m rule: omap_put.induct) (simp_all add: insert_commute)

lemma set_keys_omap_erase [simp]: "fst ` set (omap_erase k m) = fst ` set m - {k}"
  by (auto simp: omap_erase_def)

lemma omap_ok_Nil [simp, intro]: "omap_ok []"
  by (simp add: omap_ok_def)

lemma omap_ok_Cons: "omap_ok (kv # m) \<longleftrightarrow> omap_ok m \<and> (\<forall>k \<in> fst ` set m. fst kv < k)"
  by (auto simp: omap_ok_def)

lemma omap_ok_insert [inv_intros]: "omap_ok m \<Longrightarrow> omap_ok (omap_insert k v m)"
proof (induction m)
  case (Cons kv m)
  then show ?case
    by (cases kv) (auto simp: omap_ok_Cons simp del: ball_simps dest: order.strict_trans)
qed (simp add: omap_ok_def)

lemma omap_ok_put [inv_intros]: "omap_ok m \<Longrightarrow> omap_ok (omap_put k v m)"
proof (induction m)
  case (Cons kv m)
  then show ?case
    by (cases kv) (auto simp: omap_ok_Cons simp del: ball_simps dest: order.strict_trans)
qed (simp add: omap_ok_def)

lemma omap_ok_erase [inv_intros]: "omap_ok m \<Longrightarrow> omap_ok (omap_erase k m)"
  by (induction m) (auto simp: omap_erase_def omap_ok_Cons)

lemma omap_ok_distinct: "omap_ok m \<Longrightarrow> distinct (keys m)"
  by (simp add: omap_ok_def strict_sorted_iff)

lemma map_of_omap_insert [abs_simps]:
  "omap_ok m \<Longrightarrow> map_of (omap_insert k v m) =
     (case map_of m k of None \<Rightarrow> (map_of m)(k \<mapsto> v) | Some _ \<Rightarrow> map_of m)"
proof (induction m)
  case (Cons kv m)
  obtain a b where kv: "kv = (a, b)" by (cases kv)
  have "k < a \<Longrightarrow> map_of m k = None"
    using Cons.prems kv by (auto simp: omap_ok_Cons map_of_eq_None_iff)
  with Cons kv show ?case
    by (auto simp: omap_ok_Cons fun_eq_iff split: option.splits)
qed auto

lemma map_of_omap_put [abs_simps]:
  "map_of (omap_put k v m) = (map_of m)(k \<mapsto> v)"
  by (induction m) (auto simp: fun_eq_iff)

lemma map_of_omap_erase [abs_simps]: "map_of (omap_erase k m) = (map_of m)(k := None)"
  by (induction m) (auto simp: omap_erase_def)

lemma omap_erase_absent: "map_of m k = None \<Longrightarrow> omap_erase k m = m"
  by (auto simp: omap_erase_def map_of_eq_None_iff filter_id_conv image_iff)

lemma omap_insert_not_Nil [simp]: "omap_insert k v m \<noteq> []"
  by (cases m) (auto split: if_splits)

lemma omap_insert_append:
  "\<forall>x \<in> fst ` set as. x < k \<Longrightarrow> omap_insert k v (as @ bs) = as @ omap_insert k v bs"
  by (induction as) auto

lemma omap_insert_front: "\<forall>x \<in> fst ` set m. k < x \<Longrightarrow> omap_insert k v m = (k, v) # m"
  by (cases m) auto

lemma omap_ok_append:
  "omap_ok (as @ bs) \<longleftrightarrow> omap_ok as \<and> omap_ok bs \<and> (\<forall>x \<in> fst ` set as. \<forall>y \<in> fst ` set bs. x < y)"
  by (auto simp: omap_ok_def sorted_wrt_append)

lemma filter_keys_absent: "k \<notin> fst ` set m \<Longrightarrow> filter (\<lambda>p. fst p \<noteq> k) m = m"
  by (induction m) auto

lemma filter_keys_distinct:
  "distinct (keys (as @ p # bs)) \<Longrightarrow> filter (\<lambda>q. fst q \<noteq> fst p) (as @ p # bs) = as @ bs"
  by (simp add: filter_keys_absent)

lemma set_omap_insert_absent:
  "k \<notin> fst ` set m \<Longrightarrow> set (omap_insert k v m) = insert (k, v) (set m)"
  by (induction k v m rule: omap_insert.induct) auto

lemma set_filter_keys:
  assumes "distinct (keys m)" and "(k, v) \<in> set m"
  shows "insert (k, v) (set (filter (\<lambda>p. fst p \<noteq> k) m)) = set m"
proof -
  have "p = (k, v)" if "p \<in> set m" "fst p = k" for p
    using that assms eq_key_imp_eq_value [OF assms(1)] by (metis prod.collapse)
  then show ?thesis using assms(2) by (fastforce simp del: split_paired_All)
qed

text \<open>\<^verbatim>\<open>std::set<K>\<close>: the strictly ascending list of its elements.\<close>

type_synonym 'k oset = "'k list"

definition oset_ok :: "'k :: linorder oset \<Rightarrow> bool" where
  "oset_ok s \<longleftrightarrow> sorted_wrt (<) s"

fun oset_insert :: "'k :: linorder \<Rightarrow> 'k oset \<Rightarrow> 'k oset" where
  "oset_insert k [] = [k]"
| "oset_insert k (x # s) =
     (if k < x then k # x # s else if k = x then x # s else x # oset_insert k s)"

definition oset_erase :: "'k \<Rightarrow> 'k oset \<Rightarrow> 'k oset" where
  "oset_erase k s = filter (\<lambda>x. x \<noteq> k) s"

lemma set_oset_insert [simp]: "set (oset_insert k s) = insert k (set s)"
  by (induction s) auto

lemma set_oset_erase [simp]: "set (oset_erase k s) = set s - {k}"
  by (auto simp: oset_erase_def)

lemma oset_ok_Nil [simp, intro]: "oset_ok []"
  by (simp add: oset_ok_def)

lemma oset_ok_insert [inv_intros]: "oset_ok s \<Longrightarrow> oset_ok (oset_insert k s)"
  by (induction s) (auto simp: oset_ok_def dest: order.strict_trans)

lemma oset_ok_erase [inv_intros]: "oset_ok s \<Longrightarrow> oset_ok (oset_erase k s)"
  by (simp add: oset_ok_def oset_erase_def sorted_wrt_filter)

lemma oset_ok_distinct: "oset_ok s \<Longrightarrow> distinct s"
  by (simp add: oset_ok_def strict_sorted_iff)

text \<open>A strictly ascending list is determined by its elements: the containers are canonical.\<close>

lemma oset_ext: "oset_ok s \<Longrightarrow> oset_ok t \<Longrightarrow> set s = set t \<Longrightarrow> s = t"
  by (simp add: oset_ok_def strict_sorted_equal)

lemma omap_ext:
  assumes "omap_ok m" and "omap_ok n" and "map_of m = map_of n"
  shows "m = n"
proof (rule map_sorted_distinct_set_unique [where f = fst])
  have mem: "p \<in> set l \<longleftrightarrow> map_of l (fst p) = Some (snd p)"
    if "omap_ok l" for l :: "('a, 'b) omap" and p
    using map_of_eq_Some_iff [OF omap_ok_distinct [OF that], of "fst p" "snd p"] by simp
  show set_eq: "set m = set n"
    by (rule set_eqI) (simp only: mem [OF assms(1)] mem [OF assms(2)] assms(3))
  show "inj_on fst (set m \<union> set n)"
    using omap_ok_distinct [OF assms(1)] by (simp add: set_eq [symmetric] distinct_map)
qed (use assms in \<open>simp_all add: omap_ok_def strict_sorted_iff\<close>)

end
