(* ===== verification/Compact_Mosaic_Map.thy ===== *)
theory Compact_Mosaic_Map
  imports Prelude
begin

text \<open>
  \<^verbatim>\<open>catapult/state/CompactMosaicMap.{h,cpp}\<close>: the mosaic map of an account, optimised for few elements.
  The first mosaic lives in the object, the next five in an array with stale slots past its size,
  the rest in a \<^verbatim>\<open>std::map\<close>; one mosaic id (the optimised one, usually the currency) is kept first
  whatever its numeric order. The theory translates every operation on that three-level storage
  and shows that the whole is a finite map: the operations are map update and map deletion,
  iteration is in ascending order with the optimised id first, and the storage stays in its
  normal form (the map level exists only when the array is full).
\<close>

section \<open>Storage\<close>

type_synonym Mosaic = "MosaicId \<times> Amount"

abbreviation Array_Size :: nat where
  "Array_Size \<equiv> 5"

record SecondLevelStorage =
  ArrayStorage :: "Mosaic list"
  ArraySize :: nat
  pMapStorage :: "(MosaicId, Amount) omap option"

record CompactMosaicMap =
  Value :: Mosaic
  pNextStorage :: "SecondLevelStorage option"
  m_optimizedMosaicId :: MosaicId

definition empty_second_level :: SecondLevelStorage where
  "empty_second_level = \<lparr>ArrayStorage = replicate Array_Size (0, 0), ArraySize = 0, pMapStorage = None\<rparr>"

definition empty_mosaic_map :: CompactMosaicMap where
  "empty_mosaic_map = \<lparr>Value = (0, 0), pNextStorage = None, m_optimizedMosaicId = 0\<rparr>"

definition hasValue :: "CompactMosaicMap \<Rightarrow> bool" where
  "hasValue m \<longleftrightarrow> 0 \<noteq> fst (Value m)"

definition mosaics_empty :: "CompactMosaicMap \<Rightarrow> bool" where
  "mosaics_empty m \<longleftrightarrow> \<not> hasValue m"

definition mosaics_size :: "CompactMosaicMap \<Rightarrow> nat" where
  "mosaics_size m =
     (if mosaics_empty m then 0
      else 1 + (case pNextStorage m of None \<Rightarrow> 0
                | Some s \<Rightarrow> ArraySize s + (case pMapStorage s of None \<Rightarrow> 0 | Some mp \<Rightarrow> length mp)))"

section \<open>Lookup\<close>

text \<open>\<^verbatim>\<open>MosaicLocation\<close>: which level holds a mosaic, and where in it.\<close>

datatype MosaicLocation = ValueSource | ArraySource nat | MapSource MosaicId

text \<open>The loop over the array slots from \<open>i\<close> up to the array size.\<close>

function find_array :: "MosaicId \<Rightarrow> Mosaic list \<Rightarrow> nat \<Rightarrow> nat \<Rightarrow> nat option" where
  "find_array mid arr n i =
     (if i < n then (if mid = fst (arr ! i) then Some i else find_array mid arr n (Suc i)) else None)"
  by pat_completeness auto
termination
  by (relation "measure (\<lambda>(mid, arr, n, i). n - i)") auto

declare find_array.simps [simp del]

definition find_location :: "CompactMosaicMap \<Rightarrow> MosaicId \<Rightarrow> MosaicLocation option" where
  "find_location m mid =
     (if mosaics_empty m then None
      else if mid = fst (Value m) then Some ValueSource
      else case pNextStorage m of
        None \<Rightarrow> None
      | Some s \<Rightarrow>
          (case find_array mid (ArrayStorage s) (ArraySize s) 0 of
             Some i \<Rightarrow> Some (ArraySource i)
           | None \<Rightarrow>
               (case pMapStorage s of
                  None \<Rightarrow> None
                | Some mp \<Rightarrow> (case map_of mp mid of None \<Rightarrow> None | Some _ \<Rightarrow> Some (MapSource mid)))))"

text \<open>
  The value an iterator at a location points to, and the assignment \<^verbatim>\<open>iter->second = v\<close>. Locations
  come from \<^const>\<open>find_location\<close>, so the level they name exists.
\<close>

fun iter_value :: "CompactMosaicMap \<Rightarrow> MosaicLocation \<Rightarrow> Amount" where
  "iter_value m ValueSource = snd (Value m)"
| "iter_value m (ArraySource i) =
     (case pNextStorage m of None \<Rightarrow> 0 | Some s \<Rightarrow> snd (ArrayStorage s ! i))"
| "iter_value m (MapSource mid) =
     (case pNextStorage m of None \<Rightarrow> 0
      | Some s \<Rightarrow> (case pMapStorage s of None \<Rightarrow> 0 | Some mp \<Rightarrow> the (map_of mp mid)))"

fun iter_assign :: "CompactMosaicMap \<Rightarrow> MosaicLocation \<Rightarrow> Amount \<Rightarrow> CompactMosaicMap" where
  "iter_assign m ValueSource v = m\<lparr>Value := (fst (Value m), v)\<rparr>"
| "iter_assign m (ArraySource i) v =
     m\<lparr>pNextStorage := map_option (\<lambda>s. s\<lparr>ArrayStorage :=
         (ArrayStorage s)[i := (fst (ArrayStorage s ! i), v)]\<rparr>) (pNextStorage m)\<rparr>"
| "iter_assign m (MapSource mid) v =
     m\<lparr>pNextStorage := map_option (\<lambda>s. s\<lparr>pMapStorage :=
         map_option (omap_put mid v) (pMapStorage s)\<rparr>) (pNextStorage m)\<rparr>"

definition mosaics_find :: "CompactMosaicMap \<Rightarrow> MosaicId \<Rightarrow> Amount option" where
  "mosaics_find m mid = map_option (iter_value m) (find_location m mid)"

section \<open>Insertion\<close>

definition IsLessThan :: "MosaicId \<Rightarrow> MosaicId \<Rightarrow> MosaicId \<Rightarrow> bool" where
  "IsLessThan optimizedMosaicId lhs rhs =
     (if lhs = rhs then False
      else if optimizedMosaicId = lhs \<or> optimizedMosaicId = rhs then optimizedMosaicId = lhs
      else lhs < rhs)"

definition insertIntoMap :: "Mosaic \<Rightarrow> SecondLevelStorage \<Rightarrow> SecondLevelStorage" where
  "insertIntoMap p s =
     s\<lparr>pMapStorage := Some (omap_insert (fst p) (snd p)
         (case pMapStorage s of None \<Rightarrow> [] | Some mp \<Rightarrow> mp))\<rparr>"

text \<open>\<^verbatim>\<open>for (auto i = arraySize; i > index + 1; --i) array[i - 1] = array[i - 2];\<close>\<close>

fun shift_up :: "Mosaic list \<Rightarrow> nat \<Rightarrow> nat \<Rightarrow> Mosaic list" where
  "shift_up arr i index =
     (if i > index + 1 then shift_up (arr[i - 1 := arr ! (i - 2)]) (i - 1) index else arr)"

declare shift_up.simps [simp del]

definition insertIntoArray :: "nat \<Rightarrow> Mosaic \<Rightarrow> SecondLevelStorage \<Rightarrow> SecondLevelStorage" where
  "insertIntoArray index p s =
     (let s1 = (if Array_Size = ArraySize s then insertIntoMap (last (ArrayStorage s)) s
                else s\<lparr>ArraySize := ArraySize s + 1\<rparr>)
      in s1\<lparr>ArrayStorage := (shift_up (ArrayStorage s1) (ArraySize s1) index)[index := p]\<rparr>)"

text \<open>The search for the first array slot with a larger id.\<close>

function insert_position :: "MosaicId \<Rightarrow> Mosaic list \<Rightarrow> nat \<Rightarrow> nat \<Rightarrow> nat" where
  "insert_position mid arr n i =
     (if i < n then (if mid < fst (arr ! i) then i else insert_position mid arr n (Suc i)) else i)"
  by pat_completeness auto
termination
  by (relation "measure (\<lambda>(mid, arr, n, i). n - i)") auto

declare insert_position.simps [simp del]

definition mosaics_insert :: "Mosaic \<Rightarrow> CompactMosaicMap \<Rightarrow> CompactMosaicMap result" where
  "mosaics_insert p m =
     (if 0 = fst p then Inl invalid_argument
      else if mosaics_find m (fst p) \<noteq> None then Inl invalid_argument
      else if mosaics_empty m then Inr (m\<lparr>Value := p\<rparr>)
      else
        let s = (case pNextStorage m of None \<Rightarrow> empty_second_level | Some s \<Rightarrow> s)
        in if IsLessThan (m_optimizedMosaicId m) (fst p) (fst (Value m))
           then Inr (m\<lparr>pNextStorage := Some (insertIntoArray 0 (Value m) s), Value := p\<rparr>)
           else
             let arrayIndex = insert_position (fst p) (ArrayStorage s) (ArraySize s) 0
             in if arrayIndex < Array_Size
                then Inr (m\<lparr>pNextStorage := Some (insertIntoArray arrayIndex p s)\<rparr>)
                else Inr (m\<lparr>pNextStorage := Some (insertIntoMap p s)\<rparr>))"

section \<open>Removal\<close>

text \<open>\<^verbatim>\<open>for (auto i = index; i < arraySize - 1; ++i) array[i] = array[i + 1];\<close>\<close>

function shift_down :: "Mosaic list \<Rightarrow> nat \<Rightarrow> nat \<Rightarrow> Mosaic list" where
  "shift_down arr n i =
     (if i < n - 1 then shift_down (arr[i := arr ! (i + 1)]) n (Suc i) else arr)"
  by pat_completeness auto
termination
  by (relation "measure (\<lambda>(arr, n, i). n - i)") auto

declare shift_down.simps [simp del]

definition eraseFromArray :: "nat \<Rightarrow> SecondLevelStorage \<Rightarrow> SecondLevelStorage" where
  "eraseFromArray index s =
     s\<lparr>ArrayStorage := shift_down (ArrayStorage s) (ArraySize s) index, ArraySize := ArraySize s - 1\<rparr>"

text \<open>The loop of \<^verbatim>\<open>compact\<close>: refill the array from the front of the map.\<close>

fun compact_loop ::
    "Mosaic list \<Rightarrow> nat \<Rightarrow> (MosaicId, Amount) omap \<Rightarrow> Mosaic list \<times> nat \<times> (MosaicId, Amount) omap" where
  "compact_loop arr n [] = (arr, n, [])"
| "compact_loop arr n (p # mp) =
     (if n < Array_Size then compact_loop (arr[n := p]) (Suc n) mp else (arr, n, p # mp))"

definition compact_second_level :: "SecondLevelStorage \<Rightarrow> SecondLevelStorage" where
  "compact_second_level s =
     (case pMapStorage s of
        None \<Rightarrow> s
      | Some mp \<Rightarrow>
          (case compact_loop (ArrayStorage s) (ArraySize s) mp of
             (arr, n, mp') \<Rightarrow>
               s\<lparr>ArrayStorage := arr, ArraySize := n,
                 pMapStorage := (if mp' = [] then None else Some mp')\<rparr>))"

definition compact :: "CompactMosaicMap \<Rightarrow> CompactMosaicMap" where
  "compact m =
     (case pNextStorage m of
        None \<Rightarrow> m
      | Some s \<Rightarrow>
          (let s' = compact_second_level s
           in m\<lparr>pNextStorage := (if ArraySize s' = 0 then None else Some s')\<rparr>))"

definition mosaics_erase :: "MosaicId \<Rightarrow> CompactMosaicMap \<Rightarrow> CompactMosaicMap" where
  "mosaics_erase mid m =
     (case find_location m mid of
        None \<Rightarrow> m
      | Some ValueSource \<Rightarrow>
          compact (case pNextStorage m of
            Some s \<Rightarrow> m\<lparr>Value := ArrayStorage s ! 0, pNextStorage := Some (eraseFromArray 0 s)\<rparr>
          | None \<Rightarrow> m\<lparr>Value := (0, 0)\<rparr>)
      | Some (ArraySource i) \<Rightarrow>
          compact (m\<lparr>pNextStorage := map_option (eraseFromArray i) (pNextStorage m)\<rparr>)
      | Some (MapSource k) \<Rightarrow>
          compact (m\<lparr>pNextStorage := map_option (\<lambda>s. s\<lparr>pMapStorage :=
              map_option (omap_erase mid) (pMapStorage s)\<rparr>) (pNextStorage m)\<rparr>))"

section \<open>Changing the optimised id\<close>

definition reinsert :: "MosaicId \<Rightarrow> CompactMosaicMap \<Rightarrow> CompactMosaicMap result" where
  "reinsert mid m =
     (case mosaics_find m mid of
        None \<Rightarrow> Inr m
      | Some v \<Rightarrow> mosaics_insert (mid, v) (mosaics_erase mid m))"

definition mosaics_optimize :: "MosaicId \<Rightarrow> CompactMosaicMap \<Rightarrow> CompactMosaicMap result" where
  "mosaics_optimize mid m =
     (if mid = m_optimizedMosaicId m then Inr m
      else bind_result (reinsert (m_optimizedMosaicId m) (m\<lparr>m_optimizedMosaicId := mid\<rparr>))
             (reinsert mid))"

section \<open>Iteration\<close>

text \<open>
  \<^verbatim>\<open>basic_iterator\<close>: a stage and a position in the level it is in. The map position is the
  list of nodes from the current one on.
\<close>

datatype iterator = ItStart | ItValue | ItArray nat | ItMap "(MosaicId, Amount) omap" | ItEnd

fun advance :: "CompactMosaicMap \<Rightarrow> iterator \<Rightarrow> iterator" where
  "advance m ItStart = (if hasValue m then ItValue else ItEnd)"
| "advance m ItValue = (case pNextStorage m of None \<Rightarrow> ItEnd | Some s \<Rightarrow> ItArray 0)"
| "advance m (ItArray i) =
     (case pNextStorage m of None \<Rightarrow> ItEnd
      | Some s \<Rightarrow>
          (if i + 1 \<noteq> ArraySize s then ItArray (i + 1)
           else (case pMapStorage s of None \<Rightarrow> ItEnd | Some mp \<Rightarrow> ItMap mp)))"
| "advance m (ItMap mp) = (if tl mp \<noteq> [] then ItMap (tl mp) else ItEnd)"
| "advance m ItEnd = ItEnd"

definition iter_begin :: "CompactMosaicMap \<Rightarrow> iterator" where
  "iter_begin m = advance m ItStart"

fun iter_current :: "CompactMosaicMap \<Rightarrow> iterator \<Rightarrow> Mosaic result" where
  "iter_current m ItValue = Inr (Value m)"
| "iter_current m (ItArray i) =
     (case pNextStorage m of None \<Rightarrow> Inl undefined_behaviour | Some s \<Rightarrow> Inr (ArrayStorage s ! i))"
| "iter_current m (ItMap mp) = (if mp = [] then Inl undefined_behaviour else Inr (hd mp))"
| "iter_current m ItStart = Inl undefined_behaviour"
| "iter_current m ItEnd = Inl out_of_range"

text \<open>The elements visited by a loop from \<open>it\<close> that runs at most \<open>fuel\<close> times; \<open>None\<close> when it does not end.\<close>

fun iterate :: "nat \<Rightarrow> CompactMosaicMap \<Rightarrow> iterator \<Rightarrow> Mosaic list option" where
  "iterate 0 m it = (if it = ItEnd then Some [] else None)"
| "iterate (Suc fuel) m it =
     (if it = ItEnd then Some []
      else case iter_current m it of
        Inl e \<Rightarrow> None
      | Inr p \<Rightarrow> map_option (Cons p) (iterate fuel m (advance m it)))"


section \<open>The list of mosaics, and the invariant\<close>

text \<open>The content of the second level and of the whole map, in iteration order.\<close>

definition level2 :: "SecondLevelStorage \<Rightarrow> Mosaic list" where
  "level2 s = take (ArraySize s) (ArrayStorage s) @ (case pMapStorage s of None \<Rightarrow> [] | Some mp \<Rightarrow> mp)"

definition others :: "CompactMosaicMap \<Rightarrow> Mosaic list" where
  "others m = (case pNextStorage m of None \<Rightarrow> [] | Some s \<Rightarrow> level2 s)"

definition entries :: "CompactMosaicMap \<Rightarrow> Mosaic list" where
  "entries m = (if hasValue m then Value m # others m else [])"

text \<open>
  Layout of the storage. \<open>filled\<close> holds between a removal and \<^verbatim>\<open>compact\<close>; \<open>compacted\<close> is the normal
  form: no empty levels, and a map level only behind a full array.
\<close>

definition filled :: "SecondLevelStorage \<Rightarrow> bool" where
  "filled s \<longleftrightarrow> length (ArrayStorage s) = Array_Size \<and> ArraySize s \<le> Array_Size \<and> omap_ok (level2 s)"

definition compacted :: "SecondLevelStorage \<Rightarrow> bool" where
  "compacted s \<longleftrightarrow> filled s \<and> 0 < ArraySize s \<and>
     (\<forall>mp. pMapStorage s = Some mp \<longrightarrow> mp \<noteq> [] \<and> ArraySize s = Array_Size)"

text \<open>
  The order of the whole: the second level is ascending, and the first mosaic precedes it
  either numerically or because it is the optimised one. \<open>optimised_first\<close> adds that the
  optimised mosaic is not further back; it fails only inside \<^verbatim>\<open>optimize\<close>.
\<close>

definition ordered_for :: "MosaicId \<Rightarrow> CompactMosaicMap \<Rightarrow> bool" where
  "ordered_for opt m \<longleftrightarrow>
     (hasValue m \<longrightarrow> fst (Value m) \<notin> fst ` set (others m) \<and>
        (fst (Value m) = opt \<or> (\<forall>k \<in> fst ` set (others m). fst (Value m) < k)))"

definition map_struct :: "CompactMosaicMap \<Rightarrow> bool" where
  "map_struct m \<longleftrightarrow>
     (pNextStorage m = None \<or> hasValue m \<and> (\<exists>s. pNextStorage m = Some s \<and> compacted s)) \<and>
     0 \<notin> fst ` set (others m)"

definition mosaics_ok :: "CompactMosaicMap \<Rightarrow> bool" where
  "mosaics_ok m \<longleftrightarrow> map_struct m \<and> ordered_for (m_optimizedMosaicId m) m \<and>
     m_optimizedMosaicId m \<notin> fst ` set (others m)"

lemma compacted_filled: "compacted s \<Longrightarrow> filled s"
  by (simp add: compacted_def)

lemma omap_ok_others: "map_struct m \<Longrightarrow> omap_ok (others m)"
  by (auto simp: map_struct_def others_def compacted_def filled_def split: option.splits)

subsection \<open>Array loops\<close>

lemma all_from_Suc:
  "(\<forall>j. i \<le> j \<and> j < n \<longrightarrow> Q j) \<longleftrightarrow> (i < n \<longrightarrow> Q i) \<and> (\<forall>j. Suc i \<le> j \<and> j < n \<longrightarrow> Q j)"
  for i n :: nat
  by (metis Suc_leD Suc_leI le_neq_implies_less order_refl)

lemma find_array_None:
  "find_array mid arr n i = None \<longleftrightarrow> (\<forall>j. i \<le> j \<and> j < n \<longrightarrow> fst (arr ! j) \<noteq> mid)"
proof (induction mid arr n i rule: find_array.induct)
  case (1 mid arr n i)
  show ?case
  proof (cases "i < n \<and> mid \<noteq> fst (arr ! i)")
    case True
    then have "find_array mid arr n i = find_array mid arr n (Suc i)"
      by (subst find_array.simps) simp
    then show ?thesis
      using 1 True all_from_Suc [of i n "\<lambda>j. fst (arr ! j) \<noteq> mid"] by metis
  next
    case False
    then show ?thesis
      by (subst find_array.simps) auto
  qed
qed

lemma find_array_Some:
  "find_array mid arr n i = Some j \<Longrightarrow> i \<le> j \<and> j < n \<and> fst (arr ! j) = mid"
proof (induction mid arr n i rule: find_array.induct)
  case (1 mid arr n i)
  then show ?case
    by (auto simp: find_array.simps [of mid arr n i] split: if_splits)
qed

lemma length_shift_up [simp]: "length (shift_up arr i index) = length arr"
  by (induction arr i index rule: shift_up.induct) (subst shift_up.simps, simp)

lemma nth_shift_up:
  "i \<le> length arr \<Longrightarrow> j < length arr \<Longrightarrow>
     shift_up arr i index ! j = (if index < j \<and> j < i then arr ! (j - 1) else arr ! j)"
proof (induction arr i index rule: shift_up.induct)
  case (1 arr i index)
  show ?case
  proof (cases "i > index + 1")
    case True
    have "shift_up arr i index ! j = shift_up (arr[i - 1 := arr ! (i - 2)]) (i - 1) index ! j"
      using True by (subst shift_up.simps) simp
    also have "\<dots> = (if index < j \<and> j < i - 1 then arr[i - 1 := arr ! (i - 2)] ! (j - 1)
                   else arr[i - 1 := arr ! (i - 2)] ! j)"
      using True "1.prems" by (subst "1.IH") auto
    also have "\<dots> = (if index < j \<and> j < i then arr ! (j - 1) else arr ! j)"
    proof (cases "j = i - 1")
      case True
      then have "j - 1 = i - 2" and "index < j" and "j < i"
        using \<open>i > index + 1\<close> by arith+
      then show ?thesis
        using "1.prems" True by (simp add: nth_list_update)
    next
      case False
      then show ?thesis
        using "1.prems" \<open>i > index + 1\<close> by (auto simp: nth_list_update)
    qed
    finally show ?thesis .
  next
    case False
    then show ?thesis
      by (subst shift_up.simps) auto
  qed
qed

lemma take_shift_up:
  assumes "index < n" and "n \<le> length arr"
  shows "take n ((shift_up arr n index)[index := p]) = take index arr @ p # take (n - 1 - index) (drop index arr)"
proof (rule nth_equalityI)
  show "length (take n ((shift_up arr n index)[index := p])) =
      length (take index arr @ p # take (n - 1 - index) (drop index arr))"
    using assms by simp
next
  fix j
  assume "j < length (take n ((shift_up arr n index)[index := p]))"
  then have j: "j < n" using assms by simp
  consider "j < index" | "j = index" | "index < j" by arith
  then show "take n ((shift_up arr n index)[index := p]) ! j =
      (take index arr @ p # take (n - 1 - index) (drop index arr)) ! j"
  proof cases
    case 3
    then have "j - index = Suc (j - 1 - index)" and "index + (j - 1 - index) = j - 1" by arith+
    with 3 j assms show ?thesis
      by (simp add: nth_append nth_shift_up nth_list_update)
  qed (use j assms in \<open>simp_all add: nth_append nth_shift_up nth_list_update\<close>)
qed

lemma length_shift_down [simp]: "length (shift_down arr n i) = length arr"
  by (induction arr n i rule: shift_down.induct) (subst shift_down.simps, simp)

lemma nth_shift_down:
  "n \<le> length arr \<Longrightarrow> j < length arr \<Longrightarrow>
     shift_down arr n i ! j = (if i \<le> j \<and> j < n - 1 then arr ! (j + 1) else arr ! j)"
proof (induction arr n i rule: shift_down.induct)
  case (1 arr n i)
  show ?case
  proof (cases "i < n - 1")
    case True
    have "shift_down arr n i ! j = shift_down (arr[i := arr ! (i + 1)]) n (Suc i) ! j"
      using True by (subst shift_down.simps) simp
    also have "\<dots> = (if Suc i \<le> j \<and> j < n - 1 then arr[i := arr ! (i + 1)] ! (j + 1)
                   else arr[i := arr ! (i + 1)] ! j)"
      using True "1.prems" by (subst "1.IH") auto
    also have "\<dots> = (if i \<le> j \<and> j < n - 1 then arr ! (j + 1) else arr ! j)"
      using True "1.prems" by (cases "j = i") (auto simp: nth_list_update)
    finally show ?thesis .
  next
    case False
    then show ?thesis
      by (subst shift_down.simps) auto
  qed
qed

lemma take_shift_down:
  assumes "i < n" and "n \<le> length arr"
  shows "take (n - 1) (shift_down arr n i) = take i arr @ drop (Suc i) (take n arr)"
proof (rule nth_equalityI)
  show "length (take (n - 1) (shift_down arr n i)) = length (take i arr @ drop (Suc i) (take n arr))"
    using assms by simp
next
  fix j
  assume "j < length (take (n - 1) (shift_down arr n i))"
  then have j: "j < n - 1" using assms by simp
  show "take (n - 1) (shift_down arr n i) ! j = (take i arr @ drop (Suc i) (take n arr)) ! j"
    using j assms by (cases "j < i") (auto simp: nth_append nth_shift_down)
qed

lemma insert_position_bounds:
  "i \<le> n \<Longrightarrow> i \<le> insert_position mid arr n i \<and> insert_position mid arr n i \<le> n"
proof (induction mid arr n i rule: insert_position.induct)
  case (1 mid arr n i)
  then show ?case
    by (auto simp: insert_position.simps [of mid arr n i])
qed

lemma insert_position_split:
  "i \<le> n \<Longrightarrow> (\<forall>j. i \<le> j \<and> j < insert_position mid arr n i \<longrightarrow> \<not> mid < fst (arr ! j)) \<and>
     (insert_position mid arr n i < n \<longrightarrow> mid < fst (arr ! insert_position mid arr n i))"
proof (induction mid arr n i rule: insert_position.induct)
  case (1 mid arr n i)
  show ?case
  proof (cases "i < n \<and> \<not> mid < fst (arr ! i)")
    case True
    then have eq: "insert_position mid arr n i = insert_position mid arr n (Suc i)"
      by (subst insert_position.simps) simp
    show ?thesis
      unfolding eq using 1 True by (metis Suc_leI le_neq_implies_less)
  next
    case False
    then show ?thesis
      by (auto simp: insert_position.simps [of mid arr n i])
  qed
qed

subsection \<open>The second level as an ordered list\<close>

definition layout :: "SecondLevelStorage \<Rightarrow> bool" where
  "layout s \<longleftrightarrow> length (ArrayStorage s) = Array_Size \<and> ArraySize s \<le> Array_Size \<and>
     (pMapStorage s \<noteq> None \<longrightarrow> ArraySize s = Array_Size)"

lemma compacted_layout: "compacted s \<Longrightarrow> layout s"
  by (auto simp: compacted_def filled_def layout_def)

lemma layout_empty: "layout empty_second_level" "level2 empty_second_level = []"
  by (simp_all add: layout_def empty_second_level_def level2_def)

lemma level2_insertIntoArray:
  assumes "layout s" and "omap_ok (level2 s)" and "i \<le> ArraySize s" and "i < Array_Size"
  shows "level2 (insertIntoArray i p s) = take i (level2 s) @ p # drop i (level2 s)"
proof (cases "ArraySize s = Array_Size")
  case True
  let ?mp = "case pMapStorage s of None \<Rightarrow> [] | Some mp \<Rightarrow> mp"
  let ?arr = "ArrayStorage s"
  have len: "length ?arr = Array_Size" using assms(1) by (simp add: layout_def)
  then have arr: "?arr = butlast ?arr @ [last ?arr]" by (metis append_butlast_last_id list.size(3) zero_neq_numeral)
  have l2: "level2 s = ?arr @ ?mp" using True len by (simp add: level2_def)
  have "\<forall>x \<in> fst ` set ?mp. fst (last ?arr) < x"
    using assms(2) len unfolding l2 omap_ok_append by (metis arr image_eqI last_in_set snoc_eq_iff_butlast)
  then have ins: "omap_insert (fst (last ?arr)) (snd (last ?arr)) ?mp = last ?arr # ?mp"
    by (simp add: omap_insert_front)
  have "drop i ?arr = drop i (butlast ?arr) @ [last ?arr]"
    using assms(4) len by (subst arr) (simp del: append_butlast_last_id)
  moreover have "take (4 - i) (drop i ?arr) = drop i (butlast ?arr)"
    using len by (simp add: butlast_conv_take drop_take)
  moreover have "take 5 ((shift_up ?arr 5 i)[i := p]) = take i ?arr @ p # take (4 - i) (drop i ?arr)"
    using take_shift_up [of i 5 ?arr p] assms(4) len by simp
  ultimately show ?thesis
    using True assms(4) len l2 ins
    by (simp add: insertIntoArray_def insertIntoMap_def level2_def Let_def)
next
  case False
  let ?n = "ArraySize s"
  have len: "length (ArrayStorage s) = Array_Size" and n: "?n < Array_Size" and "pMapStorage s = None"
    using assms(1) False by (auto simp: layout_def)
  then show ?thesis
    using take_shift_up [of i "?n + 1" "ArrayStorage s" p] assms(3) False
    by (auto simp: insertIntoArray_def level2_def Let_def drop_take min_def)
qed

lemma compacted_insertIntoArray:
  assumes "layout s" and "omap_ok (level2 (insertIntoArray i p s))"
  shows "compacted (insertIntoArray i p s)"
  using assms
  by (auto simp: insertIntoArray_def insertIntoMap_def compacted_def filled_def layout_def Let_def split: if_splits)

text \<open>Inserting behind the first mosaic is insertion into the ascending list of the others.\<close>

lemma level2_insert:
  assumes lay: "layout s" and ok: "omap_ok (level2 s)" and new: "fst p \<notin> fst ` set (level2 s)"
  defines "i \<equiv> insert_position (fst p) (ArrayStorage s) (ArraySize s) 0"
  shows "level2 (if i < Array_Size then insertIntoArray i p s else insertIntoMap p s) =
     omap_insert (fst p) (snd p) (level2 s)"
proof -
  let ?n = "ArraySize s" and ?l = "level2 s" and ?arr = "ArrayStorage s"
  have len: "?n \<le> length ?arr" "?n \<le> Array_Size" using lay by (simp_all add: layout_def)
  have i: "i \<le> ?n" using insert_position_bounds [of 0 ?n] by (simp add: i_def)
  have arr_l: "j < ?n \<Longrightarrow> ?l ! j = ?arr ! j \<and> j < length ?l" for j
    using len by (simp add: level2_def nth_append)
  have below: "x < fst p" if x: "x \<in> fst ` set (take i ?l)" for x
  proof -
    obtain j where j: "j < i" "j < length ?l" "x = fst (?l ! j)"
      using x by (auto simp: in_set_conv_nth)
    then have "\<not> fst p < x"
      using insert_position_split [of 0 ?n "fst p" ?arr] arr_l [of j] i by (auto simp: i_def)
    moreover have "x \<noteq> fst p"
      using new x by (metis image_mono set_take_subset subsetD)
    ultimately show ?thesis by simp
  qed
  show ?thesis
  proof (cases "i < Array_Size")
    case True
    have "fst p < x" if x: "x \<in> fst ` set (drop i ?l)" for x
    proof (cases "i < ?n")
      case True
      then have "fst p < fst (?l ! i)"
        using insert_position_split [of 0 ?n "fst p" ?arr] arr_l [of i] by (simp add: i_def)
      moreover have "drop i ?l = ?l ! i # drop (Suc i) ?l"
        using arr_l [OF True] Cons_nth_drop_Suc [of i ?l] by metis
      moreover have "omap_ok (drop i ?l)"
        using ok omap_ok_append [of "take i ?l" "drop i ?l"] by simp
      ultimately show ?thesis
        using x by (auto simp: omap_ok_Cons)
    next
      case False
      with i \<open>i < Array_Size\<close> lay have "pMapStorage s = None" by (auto simp: layout_def)
      then have "drop i ?l = []" using False len by (simp add: level2_def)
      with x show ?thesis by simp
    qed
    then have "omap_insert (fst p) (snd p) (take i ?l @ drop i ?l) = take i ?l @ p # drop i ?l"
      using below by (subst omap_insert_append) (auto simp: omap_insert_front)
    then show ?thesis
      using True level2_insertIntoArray [OF lay ok i True] by simp
  next
    case False
    then have n: "i = Array_Size" "?n = Array_Size" using i len by simp_all
    let ?mp = "case pMapStorage s of None \<Rightarrow> [] | Some mp \<Rightarrow> mp"
    have l: "?l = ?arr @ ?mp" and take_l: "take i ?l = ?arr"
      using n lay by (simp_all add: level2_def layout_def)
    have "\<forall>x \<in> fst ` set ?arr. x < fst p" using below unfolding take_l by blast
    then have "omap_insert (fst p) (snd p) ?l = ?arr @ omap_insert (fst p) (snd p) ?mp"
      unfolding l by (rule omap_insert_append)
    then show ?thesis
      using False n lay by (simp add: insertIntoMap_def level2_def layout_def)
  qed
qed

lemma compacted_insertIntoMap:
  assumes "layout s" and "ArraySize s = Array_Size" and "omap_ok (level2 (insertIntoMap p s))"
  shows "compacted (insertIntoMap p s)"
  using assms by (auto simp: insertIntoMap_def compacted_def filled_def layout_def)

subsection \<open>Lookup is lookup in the list of mosaics\<close>

lemma map_of_level2:
  assumes "filled s"
  shows "map_of (level2 s) k =
     (case find_array k (ArrayStorage s) (ArraySize s) 0 of
        Some i \<Rightarrow> Some (snd (ArrayStorage s ! i))
      | None \<Rightarrow> (case pMapStorage s of None \<Rightarrow> None | Some mp \<Rightarrow> map_of mp k))"
proof -
  let ?a = "take (ArraySize s) (ArrayStorage s)"
  have dist: "distinct (keys ?a)"
    using assms by (auto simp: filled_def level2_def omap_ok_append intro!: omap_ok_distinct)
  have nth: "j < ArraySize s \<Longrightarrow> j < length ?a \<and> ?a ! j = ArrayStorage s ! j" for j
    using assms by (simp add: filled_def)
  show ?thesis
  proof (cases "find_array k (ArrayStorage s) (ArraySize s) 0")
    case None
    then have "map_of ?a k = None"
      using nth by (force simp: find_array_None in_set_conv_nth map_of_eq_None_iff)
    with None show ?thesis
      by (simp add: level2_def map_add_def split: option.splits)
  next
    case (Some i)
    then have i: "i < ArraySize s" "fst (ArrayStorage s ! i) = k"
      using find_array_Some by fastforce+
    then have "(k, snd (ArrayStorage s ! i)) \<in> set ?a"
      using nth [of i] by (metis nth_mem prod.collapse)
    then have "map_of ?a k = Some (snd (ArrayStorage s ! i))"
      using dist by simp
    with Some show ?thesis
      by (simp add: level2_def map_add_def)
  qed
qed

lemma entries_filled:
  "map_struct m \<Longrightarrow> pNextStorage m = Some s \<Longrightarrow> filled s"
  by (auto simp: map_struct_def compacted_def)

lemma mosaics_find_entries:
  assumes "map_struct m"
  shows "mosaics_find m k = map_of (entries m) k"
proof (cases "pNextStorage m")
  case None
  then show ?thesis
    by (auto simp: mosaics_find_def find_location_def entries_def others_def mosaics_empty_def)
next
  case (Some s)
  then have "filled s" using assms entries_filled by blast
  then show ?thesis
    using Some map_of_level2 [of s k]
    by (auto simp: mosaics_find_def find_location_def entries_def others_def mosaics_empty_def
        split: option.splits)
qed

lemma mosaics_size_entries: "map_struct m \<Longrightarrow> mosaics_size m = length (entries m)"
  by (auto simp: mosaics_size_def mosaics_empty_def entries_def others_def level2_def map_struct_def
      compacted_def filled_def split: option.splits)

lemma distinct_entries:
  assumes "map_struct m" and "ordered_for opt m"
  shows "distinct (keys (entries m))"
  using omap_ok_distinct [OF omap_ok_others [OF assms(1)]] assms(2)
  by (auto simp: entries_def ordered_for_def)

text \<open>Assigning through an iterator changes one value and nothing else.\<close>

lemma find_location_cases:
  assumes "map_struct m" and "find_location m k = Some loc"
  obtains (Val) "loc = ValueSource" "hasValue m" "fst (Value m) = k"
  | (Arr) s i where "loc = ArraySource i" "pNextStorage m = Some s" "i < ArraySize s"
      "fst (ArrayStorage s ! i) = k" "fst (Value m) \<noteq> k" "hasValue m"
  | (Map) s mp where "loc = MapSource k" "pNextStorage m = Some s" "pMapStorage s = Some mp"
      "map_of mp k \<noteq> None" "fst (Value m) \<noteq> k" "hasValue m" "find_array k (ArrayStorage s) (ArraySize s) 0 = None"
  using assms(2)
  by (auto simp: find_location_def mosaics_empty_def split: if_splits option.splits dest!: find_array_Some)

lemma keys_omap_put_present: "k \<in> fst ` set mp \<Longrightarrow> omap_ok mp \<Longrightarrow> keys (omap_put k v mp) = keys mp"
  by (induction k v mp rule: omap_put.induct) (auto simp: omap_ok_Cons)

lemma keys_entries_iter_assign:
  assumes "map_struct m" and "find_location m k = Some loc"
  shows "fst (Value (iter_assign m loc v)) = fst (Value m) \<and> keys (others (iter_assign m loc v)) = keys (others m)"
  using assms
proof (cases rule: find_location_cases)
  case (Arr s i)
  then show ?thesis
    by (auto simp: others_def level2_def map_update take_map [symmetric] take_update_swap split: option.splits)
      (metis (no_types, lifting) fst_conv list_update_id map_update take_update_swap nth_map nth_take length_take list_update_beyond linorder_not_le)
next
  case (Map s mp)
  have "omap_ok mp" using assms(1) Map by (auto simp: map_struct_def compacted_def filled_def level2_def omap_ok_append)
  with Map show ?thesis by (auto simp: others_def level2_def map_of_eq_None_iff keys_omap_put_present)
qed (auto simp: others_def)

lemma optimized_iter_assign [simp]: "m_optimizedMosaicId (iter_assign m loc v) = m_optimizedMosaicId m"
  by (cases loc) simp_all

lemma omap_ok_keys: "keys m = keys n \<Longrightarrow> omap_ok m = omap_ok n"
  by (simp add: omap_ok_def)

lemma omap_put_not_Nil [simp]: "omap_put k v m \<noteq> []"
  by (cases m) (auto split: if_splits)

lemma map_struct_iter_assign:
  assumes "map_struct m" and "find_location m k = Some loc"
  shows "map_struct (iter_assign m loc v)"
proof -
  note keys = keys_entries_iter_assign [OF assms, of v]
  have zero: "0 \<notin> fst ` set (others (iter_assign m loc v))"
    using keys assms(1) by (metis map_struct_def list.set_map)
  have ok: "omap_ok (others (iter_assign m loc v))"
    using keys omap_ok_others [OF assms(1)] omap_ok_keys by blast
  have val: "hasValue (iter_assign m loc v) = hasValue m"
    using keys by (simp add: hasValue_def)
  from assms show ?thesis
  proof (cases rule: find_location_cases)
    case Val
    then show ?thesis using assms(1) zero val by (auto simp: map_struct_def)
  next
    case (Arr s i)
    then show ?thesis using assms(1) zero val ok
      by (auto simp: map_struct_def compacted_def filled_def others_def)
  next
    case (Map s mp)
    then show ?thesis using assms(1) zero val ok
      by (auto simp: map_struct_def compacted_def filled_def others_def)
  qed
qed

lemma find_location_same_keys:
  assumes "map_struct m" and "map_struct m'" and "fst (Value m') = fst (Value m)"
    and "keys (others m') = keys (others m)"
  shows "keys (entries m') = keys (entries m)"
  using assms by (simp add: entries_def hasValue_def)

lemma map_of_replace:
  "fst p = k \<Longrightarrow> k' \<noteq> k \<Longrightarrow> map_of (as @ (k, v) # bs) k' = map_of (as @ p # bs) k'"
  by (cases p) (simp add: map_add_def split: option.splits)

lemma map_of_iter_assign:
  assumes "map_struct m" and "ordered_for opt m" and "find_location m k = Some loc"
  shows "map_of (entries (iter_assign m loc v)) = (map_of (entries m))(k \<mapsto> v)"
proof -
  let ?m = "iter_assign m loc v"
  have ks: "keys (entries ?m) = keys (entries m)"
    using keys_entries_iter_assign [OF assms(1,3), of v] by (simp add: entries_def hasValue_def)
  have dist: "distinct (keys (entries m))" "distinct (keys (entries ?m))"
    using distinct_entries [OF assms(1,2)] ks by simp_all
  have others: "map_of (entries ?m) k' = map_of (entries m) k'" if "k' \<noteq> k" for k'
    using assms(1,3)
  proof (cases rule: find_location_cases)
    case Val
    then show ?thesis using that by (simp add: entries_def others_def hasValue_def)
  next
    case (Arr s i)
    have "map_of (take n (arr[i := (k, v)])) k' = map_of (take n arr) k'"
      if "i < n" "n \<le> length arr" "fst (arr ! i) = k" for n and arr :: "Mosaic list"
    proof -
      have "take n arr = take i arr @ arr ! i # drop (Suc i) (take n arr)"
        using that id_take_nth_drop [of i "take n arr"] by simp
      moreover have "take n (arr[i := (k, v)]) = take i arr @ (k, v) # drop (Suc i) (take n arr)"
        using that upd_conv_take_nth_drop [of i "take n arr"] by (simp add: take_update_swap)
      ultimately show ?thesis
        using \<open>k' \<noteq> k\<close> that(3) map_of_replace by metis
    qed
    note upd = this
    have "ArraySize s \<le> length (ArrayStorage s)"
      using assms(1) Arr by (auto simp: map_struct_def compacted_def filled_def)
    then show ?thesis
      using Arr that upd [of "ArraySize s" "ArrayStorage s"]
      by (simp add: entries_def others_def hasValue_def level2_def map_add_def split: option.splits)
  next
    case (Map s mp)
    then show ?thesis using that
      by (simp add: entries_def others_def hasValue_def level2_def map_add_def map_of_omap_put split: option.splits)
  qed
  have "map_of (entries ?m) k = Some v"
  proof -
    have "mosaics_find ?m k = Some v"
      using assms(1,3)
    proof (cases rule: find_location_cases)
      case Val
      then show ?thesis by (simp add: mosaics_find_def find_location_def mosaics_empty_def hasValue_def)
    next
      case (Arr s i)
      have len: "i < length (ArrayStorage s)"
        using assms(1) Arr by (auto simp: map_struct_def compacted_def filled_def)
      have "(k, v) \<in> set (entries ?m)"
        using Arr len by (auto simp: entries_def others_def hasValue_def level2_def in_set_conv_nth intro!: exI [of _ i])
      then have "map_of (entries ?m) k = Some v" using dist by simp
      then show ?thesis
        by (simp add: mosaics_find_entries map_struct_iter_assign [OF assms(1,3)])
    next
      case (Map s mp)
      then show ?thesis
        by (auto simp: mosaics_find_def find_location_def mosaics_empty_def hasValue_def map_of_omap_put)
    qed
    then show ?thesis
      by (simp add: mosaics_find_entries map_struct_iter_assign [OF assms(1,3)])
  qed
  with others show ?thesis by auto
qed

subsection \<open>Insertion\<close>

lemma others_update [simp]:
  "others (m\<lparr>pNextStorage := Some s\<rparr>) = level2 s"
  "others (m\<lparr>pNextStorage := Some s, Value := p\<rparr>) = level2 s"
  "others (m\<lparr>Value := p\<rparr>) = others m"
  "others (m\<lparr>m_optimizedMosaicId := k\<rparr>) = others m"
  by (simp_all add: others_def)

lemma mosaics_insert_spec:
  assumes struct: "map_struct m" and ord: "ordered_for (m_optimizedMosaicId m) m"
    and p: "fst p \<noteq> 0" "fst p \<notin> fst ` set (entries m)"
  obtains m' where "mosaics_insert p m = Inr m'" and "map_struct m'"
    and "ordered_for (m_optimizedMosaicId m) m'" and "m_optimizedMosaicId m' = m_optimizedMosaicId m"
    and "set (entries m') = insert p (set (entries m))"
    and "m_optimizedMosaicId m \<notin> fst ` set (others m) \<or> fst p = m_optimizedMosaicId m \<Longrightarrow>
         m_optimizedMosaicId m \<notin> fst ` set (others m')"
proof (cases "hasValue m")
  case False
  then have "pNextStorage m = None" using struct by (auto simp: map_struct_def)
  then have e: "others m = []" by (simp add: others_def)
  show thesis
  proof (rule that [of "m\<lparr>Value := p\<rparr>"])
    show "mosaics_insert p m = Inr (m\<lparr>Value := p\<rparr>)"
      using p False mosaics_find_entries [OF struct, of "fst p"]
      by (simp add: mosaics_insert_def mosaics_empty_def entries_def)
  qed (use e p False struct in \<open>auto simp: map_struct_def ordered_for_def entries_def hasValue_def others_def split: option.splits\<close>)
next
  case True
  let ?o = "m_optimizedMosaicId m"
  let ?s = "case pNextStorage m of None \<Rightarrow> empty_second_level | Some s \<Rightarrow> s"
  have lay: "layout ?s" and l2: "level2 ?s = others m"
    using struct by (auto simp: map_struct_def others_def layout_empty compacted_layout split: option.splits)
  have ok: "omap_ok (level2 ?s)" using omap_ok_others [OF struct] l2 by simp
  have find: "mosaics_find m (fst p) = None"
    using p mosaics_find_entries [OF struct] by (simp add: map_of_eq_None_iff)
  have pnew: "fst p \<noteq> fst (Value m)" "fst p \<notin> fst ` set (others m)"
    using p True by (auto simp: entries_def)
  have vnew: "fst (Value m) \<notin> fst ` set (others m)" using ord True by (simp add: ordered_for_def)
  show thesis
  proof (cases "IsLessThan ?o (fst p) (fst (Value m))")
    case less: True
    let ?s' = "insertIntoArray 0 (Value m) ?s"
    let ?m = "m\<lparr>pNextStorage := Some ?s', Value := p\<rparr>"
    have nopt: "fst (Value m) \<noteq> ?o" using less by (auto simp: IsLessThan_def split: if_splits)
    then have below: "\<forall>k \<in> fst ` set (others m). fst (Value m) < k"
      using ord True by (simp add: ordered_for_def)
    have l: "level2 ?s' = Value m # others m"
      using level2_insertIntoArray [OF lay ok, of 0 "Value m"] l2 by simp
    have "omap_ok (level2 ?s')" using l below ok l2 by (simp add: omap_ok_Cons)
    then have comp: "compacted ?s'" using lay by (rule compacted_insertIntoArray [rotated])
    have first: "fst p = ?o \<or> fst p < fst (Value m)"
      using less by (auto simp: IsLessThan_def split: if_splits)
    show thesis
    proof (rule that [of ?m])
      show "mosaics_insert p m = Inr ?m"
        using p True find less by (simp add: mosaics_insert_def mosaics_empty_def Let_def)
      show "map_struct ?m"
        using comp l struct True p(1) by (auto simp: map_struct_def hasValue_def)
      show "ordered_for ?o ?m"
        using first pnew below by (fastforce simp: ordered_for_def l)
      show "set (entries ?m) = insert p (set (entries m))"
        using p True l by (simp add: entries_def hasValue_def)
      show "?o \<notin> fst ` set (others ?m)" if "?o \<notin> fst ` set (others m) \<or> fst p = ?o"
        using that pnew(2) nopt by (simp add: l) metis
    qed simp
  next
    case nless: False
    let ?i = "insert_position (fst p) (ArrayStorage ?s) (ArraySize ?s) 0"
    let ?s' = "if ?i < Array_Size then insertIntoArray ?i p ?s else insertIntoMap p ?s"
    let ?m = "m\<lparr>pNextStorage := Some ?s'\<rparr>"
    have l: "level2 ?s' = omap_insert (fst p) (snd p) (others m)"
      using level2_insert [OF lay ok, of p] pnew l2 by simp
    have ok': "omap_ok (level2 ?s')"
      using ok l2 by (simp only: l omap_ok_insert)
    have "?i \<le> ArraySize ?s" using insert_position_bounds [of 0 "ArraySize ?s"] by simp
    moreover have "ArraySize ?s \<le> Array_Size" using lay by (simp add: layout_def)
    ultimately have "\<not> ?i < Array_Size \<Longrightarrow> ArraySize ?s = Array_Size" by simp
    then have comp: "compacted ?s'"
      using lay ok' by (cases "?i < Array_Size") (simp_all add: compacted_insertIntoArray compacted_insertIntoMap)
    have nopt: "fst p \<noteq> ?o" using nless pnew by (auto simp: IsLessThan_def split: if_splits)
    have first: "fst (Value m) = ?o \<or> fst (Value m) < fst p"
      using nless pnew nopt by (auto simp: IsLessThan_def split: if_splits)
    have set_l: "set (omap_insert (fst p) (snd p) (others m)) = insert p (set (others m))"
      using pnew by (simp add: set_omap_insert_absent)
    show thesis
    proof (rule that [of ?m])
      show "mosaics_insert p m = Inr ?m"
        using p True find nless by (simp add: mosaics_insert_def mosaics_empty_def Let_def)
      show "map_struct ?m"
        using comp l struct True p(1) by (auto simp: map_struct_def hasValue_def)
      show "ordered_for ?o ?m"
        using first pnew ord True vnew by (auto simp: ordered_for_def l hasValue_def)
      show "set (entries ?m) = insert p (set (entries m))"
        using p True l set_l by (auto simp: entries_def hasValue_def)
      show "?o \<notin> fst ` set (others ?m)" if "?o \<notin> fst ` set (others m) \<or> fst p = ?o"
        using that nopt by (auto simp: l)
    qed simp
  qed
qed

subsection \<open>Removal\<close>

lemma compact_loop_spec:
  "compact_loop arr n mp = (arr', n', mp') \<Longrightarrow> n \<le> Array_Size \<Longrightarrow> length arr = Array_Size \<Longrightarrow>
     take n' arr' @ mp' = take n arr @ mp \<and> length arr' = Array_Size \<and> n' \<le> Array_Size \<and>
     (mp' \<noteq> [] \<longrightarrow> n' = Array_Size) \<and> (n' = 0 \<longrightarrow> n = 0 \<and> mp = [])"
proof (induction arr n mp rule: compact_loop.induct)
  case (2 arr n p mp)
  show ?case
  proof (cases "n < Array_Size")
    case True
    have "take (Suc n) (arr[n := p]) @ mp = take n arr @ p # mp"
      using True "2.prems" by (simp add: take_Suc_conv_app_nth)
    then show ?thesis
      using "2.IH" [OF True] "2.prems" True by simp
  qed (use "2.prems" in auto)
qed auto

lemma compact_second_level_spec:
  assumes "filled s"
  shows "level2 (compact_second_level s) = level2 s" and "filled (compact_second_level s)"
    and "ArraySize (compact_second_level s) \<noteq> 0 \<Longrightarrow> compacted (compact_second_level s)"
    and "ArraySize (compact_second_level s) = 0 \<Longrightarrow> level2 s = []"
proof -
  have "level2 (compact_second_level s) = level2 s \<and> filled (compact_second_level s) \<and>
      (ArraySize (compact_second_level s) \<noteq> 0 \<longrightarrow> compacted (compact_second_level s)) \<and>
      (ArraySize (compact_second_level s) = 0 \<longrightarrow> level2 s = [])"
  proof (cases "pMapStorage s")
    case None
    then show ?thesis
      using assms by (auto simp: compact_second_level_def compacted_def level2_def)
  next
    case (Some mp)
    obtain arr n mp' where loop: "compact_loop (ArrayStorage s) (ArraySize s) mp = (arr, n, mp')"
      by (cases "compact_loop (ArrayStorage s) (ArraySize s) mp") auto
    have "take n arr @ mp' = level2 s" "length arr = Array_Size" "n \<le> Array_Size"
      "mp' \<noteq> [] \<longrightarrow> n = Array_Size" "n = 0 \<longrightarrow> level2 s = []"
      using compact_loop_spec [OF loop] assms Some by (auto simp: filled_def level2_def)
    then show ?thesis
      using assms Some loop
      by (auto simp: compact_second_level_def compacted_def filled_def level2_def)
  qed
  then show "level2 (compact_second_level s) = level2 s" and "filled (compact_second_level s)"
    and "ArraySize (compact_second_level s) \<noteq> 0 \<Longrightarrow> compacted (compact_second_level s)"
    and "ArraySize (compact_second_level s) = 0 \<Longrightarrow> level2 s = []"
    by blast+
qed

lemma compact_spec:
  assumes "pNextStorage m = Some s" and "filled s" and "hasValue m" and "0 \<notin> fst ` set (others m)"
  shows "map_struct (compact m)" and "others (compact m) = others m" and "Value (compact m) = Value m"
    and "m_optimizedMosaicId (compact m) = m_optimizedMosaicId m"
  using assms compact_second_level_spec [OF assms(2)]
  by (auto simp: compact_def map_struct_def others_def Let_def hasValue_def)

lemma level2_split_at:
  assumes "filled s" and "i < ArraySize s"
  obtains rest where "level2 s = take i (ArrayStorage s) @ ArrayStorage s ! i # rest"
    and "level2 (eraseFromArray i s) = take i (ArrayStorage s) @ rest"
proof
  let ?arr = "ArrayStorage s" and ?n = "ArraySize s"
  let ?rest = "drop (Suc i) (take ?n ?arr) @ (case pMapStorage s of None \<Rightarrow> [] | Some mp \<Rightarrow> mp)"
  have len: "?n \<le> length ?arr" using assms by (simp add: filled_def)
  show "level2 s = take i ?arr @ ?arr ! i # ?rest"
    using assms(2) len id_take_nth_drop [of i "take ?n ?arr"] by (simp add: level2_def)
  show "level2 (eraseFromArray i s) = take i ?arr @ ?rest"
    using take_shift_down [OF assms(2) len] by (simp add: level2_def eraseFromArray_def)
qed

lemma level2_eraseFromArray:
  assumes "filled s" and "i < ArraySize s"
  shows "level2 (eraseFromArray i s) = filter (\<lambda>p. fst p \<noteq> fst (ArrayStorage s ! i)) (level2 s)"
    and "filled (eraseFromArray i s)"
proof -
  obtain rest where l: "level2 s = take i (ArrayStorage s) @ ArrayStorage s ! i # rest"
    and er: "level2 (eraseFromArray i s) = take i (ArrayStorage s) @ rest"
    using level2_split_at [OF assms] .
  have "distinct (keys (level2 s))"
    using assms(1) by (auto simp: filled_def intro!: omap_ok_distinct)
  then show eq: "level2 (eraseFromArray i s) = filter (\<lambda>p. fst p \<noteq> fst (ArrayStorage s ! i)) (level2 s)"
    unfolding l er by (rule filter_keys_distinct [symmetric])
  have "omap_ok (level2 (eraseFromArray i s))"
    unfolding eq using assms(1) omap_ok_erase by (auto simp: filled_def omap_erase_def)
  then show "filled (eraseFromArray i s)"
    using assms by (auto simp: filled_def eraseFromArray_def)
qed

lemma mosaics_erase_spec:
  assumes struct: "map_struct m" and ord: "ordered_for opt m"
  shows "map_struct (mosaics_erase k m)"
    and "entries (mosaics_erase k m) = filter (\<lambda>p. fst p \<noteq> k) (entries m)"
    and "m_optimizedMosaicId (mosaics_erase k m) = m_optimizedMosaicId m"
proof -
  have "map_struct (mosaics_erase k m) \<and> entries (mosaics_erase k m) = filter (\<lambda>p. fst p \<noteq> k) (entries m) \<and>
      m_optimizedMosaicId (mosaics_erase k m) = m_optimizedMosaicId m"
  proof (cases "find_location m k")
    case None
    then have "map_of (entries m) k = None"
      using mosaics_find_entries [OF struct, of k] by (simp add: mosaics_find_def)
    then have "filter (\<lambda>p. fst p \<noteq> k) (entries m) = entries m"
      using omap_erase_absent by (simp add: omap_erase_def)
    then show ?thesis using None struct by (simp add: mosaics_erase_def)
  next
    case (Some loc)
    with struct show ?thesis
    proof (cases rule: find_location_cases)
      case Val
      have keep: "filter (\<lambda>p. fst p \<noteq> k) (others m) = others m"
        using ord Val by (simp add: ordered_for_def filter_keys_absent)
      show ?thesis
      proof (cases "pNextStorage m")
        case None
        then show ?thesis
          using Some Val struct by (simp add: mosaics_erase_def compact_def map_struct_def entries_def hasValue_def others_def)
      next
        case s: (Some s)
        then have comp: "compacted s" using struct by (auto simp: map_struct_def)
        then have n: "0 < ArraySize s" and fil: "filled s" by (auto simp: compacted_def)
        let ?v = "ArrayStorage s ! 0" and ?s = "eraseFromArray 0 s"
        have l: "level2 s = ?v # level2 ?s"
          using level2_split_at [OF fil n] by (metis append_Nil take_0)
        have z: "fst ?v \<noteq> 0" "0 \<notin> fst ` set (level2 ?s)"
          using struct s l by (auto simp: map_struct_def others_def)
        let ?m = "m\<lparr>Value := ?v, pNextStorage := Some ?s\<rparr>"
        have "pNextStorage ?m = Some ?s" "hasValue ?m" "0 \<notin> fst ` set (others ?m)"
          using z by (simp_all add: hasValue_def others_def)
        note c = compact_spec [OF this(1) level2_eraseFromArray(2) [OF fil n] this(2,3)]
        have "entries (compact ?m) = others m"
          using c z l s by (simp add: entries_def hasValue_def others_def)
        then show ?thesis
          using Some Val s c keep by (simp add: mosaics_erase_def entries_def)
      qed
    next
      case (Arr s i)
      have fil: "filled s" using struct Arr entries_filled by blast
      let ?m = "m\<lparr>pNextStorage := Some (eraseFromArray i s)\<rparr>"
      note er = level2_eraseFromArray [OF fil Arr(3)]
      have "hasValue ?m" "0 \<notin> fst ` set (others ?m)"
        using Arr struct er by (auto simp: hasValue_def map_struct_def others_def)
      note c = compact_spec [OF _ er(2) this, simplified]
      show ?thesis
        using Some Arr c er by (simp add: mosaics_erase_def entries_def hasValue_def others_def)
    next
      case (Map s mp)
      have fil: "filled s" using struct Map entries_filled by blast
      let ?s = "s\<lparr>pMapStorage := Some (omap_erase k mp)\<rparr>"
      let ?m = "m\<lparr>pNextStorage := Some ?s\<rparr>"
      have "fst p \<noteq> k" if "p \<in> set (take (ArraySize s) (ArrayStorage s))" for p
        using that Map(7) fil by (auto simp: find_array_None in_set_conv_nth filled_def)
      then have l: "level2 ?s = filter (\<lambda>p. fst p \<noteq> k) (level2 s)"
        using Map by (auto simp: level2_def omap_erase_def filter_id_conv)
      have fil': "filled ?s"
        using fil l by (simp add: filled_def) (simp flip: omap_erase_def add: omap_ok_erase)
      have "hasValue ?m" "0 \<notin> fst ` set (others ?m)"
        using Map struct l by (auto simp: hasValue_def map_struct_def others_def)
      note c = compact_spec [OF _ fil' this, simplified]
      show ?thesis
        using Some Map c l by (simp add: mosaics_erase_def entries_def hasValue_def others_def)
    qed
  qed
  then show "map_struct (mosaics_erase k m)"
    and "entries (mosaics_erase k m) = filter (\<lambda>p. fst p \<noteq> k) (entries m)"
    and "m_optimizedMosaicId (mosaics_erase k m) = m_optimizedMosaicId m"
    by blast+
qed

subsection \<open>Changing the optimised id\<close>

lemma omap_ok_filter_ordered:
  assumes "map_struct m" and "ordered_for k m"
  shows "omap_ok (filter (\<lambda>p. fst p \<noteq> k) (entries m))"
proof -
  have "omap_ok (filter (\<lambda>p. fst p \<noteq> k) (others m))"
    using omap_ok_others [OF assms(1)] omap_ok_erase by (auto simp: omap_erase_def)
  then show ?thesis
    using assms(2) by (auto simp: entries_def ordered_for_def omap_ok_Cons)
qed

lemma zero_notin_entries: "map_struct m \<Longrightarrow> 0 \<notin> fst ` set (entries m)"
  by (auto simp: entries_def map_struct_def hasValue_def)

lemma ordered_for_omap_ok: "omap_ok (entries m) \<Longrightarrow> ordered_for k m"
  by (auto simp: ordered_for_def entries_def omap_ok_Cons split: if_splits)

lemma reinsert_spec:
  assumes "map_struct m" and "ordered_for k m"
  obtains m' where "reinsert k m = Inr m'" and "map_struct m'"
    and "ordered_for (m_optimizedMosaicId m) m'" and "m_optimizedMosaicId m' = m_optimizedMosaicId m"
    and "set (entries m') = set (entries m)"
    and "k = m_optimizedMosaicId m \<Longrightarrow> k \<notin> fst ` set (others m')"
proof (cases "mosaics_find m k")
  case None
  then have k: "k \<notin> fst ` set (entries m)"
    using mosaics_find_entries [OF assms(1)] by (simp add: map_of_eq_None_iff)
  then have "filter (\<lambda>p. fst p \<noteq> k) (entries m) = entries m" by (rule filter_keys_absent)
  then have "omap_ok (entries m)" using omap_ok_filter_ordered [OF assms] by simp
  moreover have "k \<notin> fst ` set (others m)"
    using k assms(1) by (auto simp: entries_def map_struct_def others_def split: if_splits)
  ultimately show thesis
    using None assms(1) by (intro that [of m]) (simp_all add: reinsert_def ordered_for_omap_ok)
next
  case (Some v)
  let ?e = "mosaics_erase k m"
  note e = mosaics_erase_spec [OF assms, of k]
  have "omap_ok (entries ?e)" using omap_ok_filter_ordered [OF assms] e(2) by simp
  then have ord: "ordered_for (m_optimizedMosaicId ?e) ?e" by (rule ordered_for_omap_ok)
  have kv: "(k, v) \<in> set (entries m)"
    using Some mosaics_find_entries [OF assms(1), of k] by (simp add: map_of_SomeD)
  have "k \<noteq> 0"
    using kv zero_notin_entries [OF assms(1)] by force
  moreover have "k \<notin> fst ` set (entries ?e)" using e(2) by auto
  ultimately obtain m' where m': "mosaics_insert (k, v) ?e = Inr m'" "map_struct m'"
      "ordered_for (m_optimizedMosaicId m) m'" "m_optimizedMosaicId m' = m_optimizedMosaicId m"
      "set (entries m') = insert (k, v) (set (entries ?e))"
      "k = m_optimizedMosaicId m \<Longrightarrow> k \<notin> fst ` set (others m')"
    using mosaics_insert_spec [OF e(1) ord, of "(k, v)"] e(3) by (metis fst_conv)
  have "set (entries m') = set (entries m)"
    unfolding m'(5) e(2) using distinct_entries [OF assms] kv by (rule set_filter_keys)
  then show thesis
    using Some m' by (intro that [of m']) (simp_all add: reinsert_def)
qed

section \<open>The map contract\<close>

text \<open>
  What the rest of the program relies on: a finite map from mosaic ids other than zero to
  amounts, whose iterators can be assigned through.
\<close>

definition mosaics_assign :: "CompactMosaicMap \<Rightarrow> MosaicId \<Rightarrow> Amount \<Rightarrow> CompactMosaicMap" where
  "mosaics_assign m k v = (case find_location m k of None \<Rightarrow> m | Some loc \<Rightarrow> iter_assign m loc v)"

locale mosaic_map =
  fixes invar :: "'m \<Rightarrow> bool"
    and lookup :: "'m \<Rightarrow> MosaicId \<Rightarrow> Amount option"
    and insert_mosaic :: "Mosaic \<Rightarrow> 'm \<Rightarrow> 'm result"
    and erase_mosaic :: "MosaicId \<Rightarrow> 'm \<Rightarrow> 'm"
    and assign_mosaic :: "'m \<Rightarrow> MosaicId \<Rightarrow> Amount \<Rightarrow> 'm"
    and optimize_mosaic :: "MosaicId \<Rightarrow> 'm \<Rightarrow> 'm result"
  assumes lookup_zero: "invar m \<Longrightarrow> lookup m 0 = None"
    and insert_new: "invar m \<Longrightarrow> k \<noteq> 0 \<Longrightarrow> lookup m k = None \<Longrightarrow>
      \<exists>m'. insert_mosaic (k, v) m = Inr m' \<and> invar m' \<and> lookup m' = (lookup m)(k \<mapsto> v)"
    and insert_refused: "invar m \<Longrightarrow> k = 0 \<or> lookup m k \<noteq> None \<Longrightarrow>
      insert_mosaic (k, v) m = Inl invalid_argument"
    and erase_lookup: "invar m \<Longrightarrow> invar (erase_mosaic k m) \<and> lookup (erase_mosaic k m) = (lookup m)(k := None)"
    and assign_lookup: "invar m \<Longrightarrow> lookup m k \<noteq> None \<Longrightarrow>
      invar (assign_mosaic m k v) \<and> lookup (assign_mosaic m k v) = (lookup m)(k \<mapsto> v)"
    and optimize_lookup: "invar m \<Longrightarrow>
      \<exists>m'. optimize_mosaic k m = Inr m' \<and> invar m' \<and> lookup m' = lookup m"
begin

text \<open>Copying a list of mosaics with distinct ids into a map that holds none of them.\<close>

lemma insert_all:
  assumes "invar m" and "distinct (keys ps)" and "0 \<notin> fst ` set ps"
    and "\<forall>k \<in> fst ` set ps. lookup m k = None"
  shows "\<exists>m'. foldM insert_mosaic ps m = Inr m' \<and> invar m' \<and> lookup m' = lookup m ++ map_of ps"
  using assms
proof (induction ps arbitrary: m)
  case Nil
  then show ?case by simp
next
  case (Cons p ps)
  obtain k v where p: "p = (k, v)" by (cases p)
  obtain m1 where m1: "insert_mosaic (k, v) m = Inr m1" "invar m1" "lookup m1 = (lookup m)(k \<mapsto> v)"
    using insert_new [of m k v] Cons.prems p by auto
  have "\<forall>k' \<in> fst ` set ps. lookup m1 k' = None"
    using Cons.prems m1(3) p by auto
  then obtain m2 where m2: "foldM insert_mosaic ps m1 = Inr m2" "invar m2" "lookup m2 = lookup m1 ++ map_of ps"
    using Cons.IH [OF m1(2)] Cons.prems by auto
  have eq: "lookup m1 ++ map_of ps = lookup m ++ map_of (p # ps)"
    using Cons.prems(2) m1(3) p
    by (auto simp: fun_eq_iff map_add_def map_of_eq_None_iff split: option.splits dest: map_of_SomeD) force+
  show ?case
  proof (intro exI conjI)
    show "foldM insert_mosaic (p # ps) m = Inr m2" by (simp add: p m1(1) m2(1))
    show "lookup m2 = lookup m ++ map_of (p # ps)" using m2(3) eq by (rule trans)
  qed (rule m2(2))
qed

text \<open>Copying a list that shares an id with the map is refused, whatever its other elements are.\<close>

lemma insert_overlap:
  assumes "invar m" and "lookup m k \<noteq> None" and "k \<in> fst ` set ps"
  shows "foldM insert_mosaic ps m = Inl invalid_argument"
  using assms
proof (induction ps arbitrary: m)
  case (Cons p ps)
  obtain k' v where p: "p = (k', v)" by (cases p)
  show ?case
  proof (cases "k' = 0 \<or> lookup m k' \<noteq> None")
    case True
    then show ?thesis using insert_refused [OF Cons.prems(1)] p by auto
  next
    case False
    then obtain m1 where m1: "insert_mosaic (k', v) m = Inr m1" "invar m1" "lookup m1 = (lookup m)(k' \<mapsto> v)"
      using insert_new [OF Cons.prems(1)] by blast
    moreover have "k \<noteq> k'" using False Cons.prems(2) by auto
    ultimately show ?thesis
      using Cons.IH [OF m1(2)] Cons.prems(2,3) p by auto
  qed
qed simp

end

lemma mosaics_okD:
  assumes "mosaics_ok m"
  shows "map_struct m" and "ordered_for (m_optimizedMosaicId m) m"
    and "m_optimizedMosaicId m \<notin> fst ` set (others m)"
  using assms by (simp_all add: mosaics_ok_def)

lemma mosaics_erase_ok:
  assumes ok: "mosaics_ok m"
  shows "mosaics_ok (mosaics_erase k m)"
proof -
  note st = mosaics_okD [OF ok]
  let ?e = "mosaics_erase k m"
  note e = mosaics_erase_spec [OF st(1,2), of k]
  show ?thesis
  proof (cases "hasValue ?e")
    case False
    then have "others ?e = []" using e(1) by (auto simp: map_struct_def others_def)
    then show ?thesis using e False by (simp add: mosaics_ok_def ordered_for_def)
  next
    case True
    then have cons: "Value ?e # others ?e = filter (\<lambda>p. fst p \<noteq> k) (entries m)"
      using e(2) by (simp add: entries_def)
    show ?thesis
    proof (cases "fst (Value m) = k")
      case True
      then have l: "entries ?e = filter (\<lambda>p. fst p \<noteq> k) (others m)"
        using e(2) by (simp add: entries_def) (metis cons filter.simps(1) entries_def list.distinct(1))
      then have "omap_ok (entries ?e)"
        using omap_ok_erase [OF omap_ok_others [OF st(1)]] by (simp add: omap_erase_def)
      moreover have "set (others ?e) \<subseteq> set (others m)"
        using l \<open>hasValue ?e\<close> by (metis (no_types, lifting) entries_def filter_is_subset set_subset_Cons subset_trans)
      ultimately show ?thesis
        using e st(3) by (auto simp: mosaics_ok_def intro: ordered_for_omap_ok)
    next
      case False
      then have "Value ?e = Value m" "others ?e = filter (\<lambda>p. fst p \<noteq> k) (others m)" "hasValue m"
        using cons by (auto simp: entries_def split: if_splits)
      then show ?thesis
        using e st \<open>hasValue ?e\<close> by (auto simp: mosaics_ok_def ordered_for_def)
    qed
  qed
qed

lemma map_of_entries_eqI:
  assumes "map_struct m" "ordered_for o1 m" and "distinct (keys ps)" and "set (entries m) = set ps"
  shows "mosaics_find m = map_of ps"
proof -
  have "map_of (entries m) = map_of ps"
    using map_of_inject_set [OF distinct_entries [OF assms(1,2)] assms(3)] assms(4) by blast
  then show ?thesis using mosaics_find_entries [OF assms(1)] by auto
qed

interpretation cmm: mosaic_map mosaics_ok mosaics_find mosaics_insert mosaics_erase mosaics_assign mosaics_optimize
proof
  fix m :: CompactMosaicMap
  assume ok: "mosaics_ok m"
  note st = mosaics_okD [OF ok]
  note dist = distinct_entries [OF st(1,2)]
  show zero: "mosaics_find m 0 = None"
    using st(1) by (auto simp: mosaics_find_entries map_of_eq_None_iff entries_def map_struct_def hasValue_def)
  fix k v
  show "\<exists>m'. mosaics_insert (k, v) m = Inr m' \<and> mosaics_ok m' \<and> mosaics_find m' = (mosaics_find m)(k \<mapsto> v)"
    if h: "k \<noteq> 0" "mosaics_find m k = None"
  proof -
    have k: "k \<notin> fst ` set (entries m)"
      using h mosaics_find_entries [OF st(1)] by (simp add: map_of_eq_None_iff)
    then obtain m' where m': "mosaics_insert (k, v) m = Inr m'" "map_struct m'"
        "ordered_for (m_optimizedMosaicId m) m'" "m_optimizedMosaicId m' = m_optimizedMosaicId m"
        "set (entries m') = set ((k, v) # entries m)" "m_optimizedMosaicId m \<notin> fst ` set (others m')"
      using mosaics_insert_spec [OF st(1,2), of "(k, v)"] st(3) h by auto
    have "mosaics_find m' = map_of ((k, v) # entries m)"
      using map_of_entries_eqI [OF m'(2,3) _ m'(5)] dist k by simp
    then show ?thesis
      using m' mosaics_find_entries [OF st(1)] by (auto simp: mosaics_ok_def fun_eq_iff)
  qed
  show "mosaics_insert (k, v) m = Inl invalid_argument" if "k = 0 \<or> mosaics_find m k \<noteq> None"
    using that by (auto simp: mosaics_insert_def)
  show "mosaics_ok (mosaics_erase k m) \<and> mosaics_find (mosaics_erase k m) = (mosaics_find m)(k := None)"
    using mosaics_erase_ok [OF ok] mosaics_erase_spec [OF st(1,2), of k] mosaics_find_entries [OF st(1)]
      mosaics_find_entries [of "mosaics_erase k m"] map_of_omap_erase [of k "entries m"]
    by (auto simp: omap_erase_def fun_eq_iff)
  show "mosaics_ok (mosaics_assign m k v) \<and> mosaics_find (mosaics_assign m k v) = (mosaics_find m)(k \<mapsto> v)"
    if found: "mosaics_find m k \<noteq> None"
  proof -
    obtain loc where loc: "find_location m k = Some loc" using found by (auto simp: mosaics_find_def)
    note ks = keys_entries_iter_assign [OF st(1) loc, of v]
    have "mosaics_ok (iter_assign m loc v)"
      using ks st map_struct_iter_assign [OF st(1) loc]
      by (simp add: mosaics_ok_def ordered_for_def hasValue_def flip: set_map)
    moreover have "mosaics_find (iter_assign m loc v) = map_of (entries (iter_assign m loc v))"
      using mosaics_find_entries [OF map_struct_iter_assign [OF st(1) loc]] by blast
    ultimately show ?thesis
      using loc map_of_iter_assign [OF st(1,2) loc] mosaics_find_entries [OF st(1)]
      by (auto simp: mosaics_assign_def fun_eq_iff)
  qed
  show "\<exists>m'. mosaics_optimize k m = Inr m' \<and> mosaics_ok m' \<and> mosaics_find m' = mosaics_find m"
  proof (cases "k = m_optimizedMosaicId m")
    case True
    then show ?thesis using ok by (simp add: mosaics_optimize_def)
  next
    case False
    let ?p = "m_optimizedMosaicId m" and ?m = "m\<lparr>m_optimizedMosaicId := k\<rparr>"
    have e: "entries ?m = entries m" by (simp add: entries_def hasValue_def)
    have "map_struct ?m" "ordered_for ?p ?m"
      using st by (simp_all add: map_struct_def ordered_for_def hasValue_def)
    then obtain m1 where m1: "reinsert ?p ?m = Inr m1" "map_struct m1" "ordered_for k m1"
        "m_optimizedMosaicId m1 = k" "set (entries m1) = set (entries m)"
      using reinsert_spec [of ?m ?p] e by auto
    then obtain m2 where m2: "reinsert k m1 = Inr m2" "map_struct m2" "ordered_for k m2"
        "m_optimizedMosaicId m2 = k" "set (entries m2) = set (entries m1)" "k \<notin> fst ` set (others m2)"
      using reinsert_spec [of m1 k] by auto
    have "mosaics_find m2 = map_of (entries m)"
      using map_of_entries_eqI [OF m2(2,3) dist] m2 m1 by simp
    then show ?thesis
      using False m1 m2 mosaics_find_entries [OF st(1)]
      by (auto simp: mosaics_optimize_def mosaics_ok_def fun_eq_iff)
  qed
qed

section \<open>Iteration visits every mosaic once, in order\<close>

lemma iterate_map:
  "mp \<noteq> [] \<Longrightarrow> iterate (length mp) m (ItMap mp) = Some mp"
proof (induction mp)
  case (Cons p mp)
  then show ?case by (cases "mp = []") simp_all
qed simp

lemma iterate_array:
  assumes "pNextStorage m = Some s" and "compacted s" and "i < ArraySize s"
  shows "iterate (length (drop i (level2 s))) m (ItArray i) = Some (drop i (level2 s))"
  using assms(3)
proof (induction "ArraySize s - i" arbitrary: i)
  case 0
  then show ?case by simp
next
  case (Suc x)
  let ?l = "level2 s"
  have len: "ArraySize s \<le> length (ArrayStorage s)" using assms(2) by (simp add: compacted_def filled_def)
  then have nth: "?l ! i = ArrayStorage s ! i" "i < length ?l"
    using Suc.prems by (simp_all add: level2_def nth_append)
  then have cons: "drop i ?l = ArrayStorage s ! i # drop (Suc i) ?l"
    using Cons_nth_drop_Suc [of i ?l] by metis
  have rest: "iterate (length (drop (Suc i) ?l)) m (advance m (ItArray i)) = Some (drop (Suc i) ?l)"
  proof (cases "Suc i = ArraySize s")
    case False
    then show ?thesis using Suc.hyps(1) [of "Suc i"] Suc.hyps(2) Suc.prems assms(1) by simp
  next
    case True
    then have "drop (Suc i) ?l = (case pMapStorage s of None \<Rightarrow> [] | Some mp \<Rightarrow> mp)"
      using len by (simp add: level2_def)
    then show ?thesis
      using True assms(1,2) iterate_map [of _ m] by (auto simp: compacted_def split: option.splits)
  qed
  then show ?case unfolding cons using assms(1) by simp
qed

lemma iterate_entries: "map_struct m \<Longrightarrow> iterate (mosaics_size m) m (iter_begin m) = Some (entries m)"
proof -
  assume st: "map_struct m"
  show ?thesis
  proof (cases "pNextStorage m")
    case None
    then show ?thesis
      using st by (simp add: mosaics_size_entries entries_def others_def iter_begin_def)
  next
    case (Some s)
    then have s: "compacted s" "hasValue m" using st by (auto simp: map_struct_def)
    then show ?thesis
      using Some iterate_array [OF Some s(1), of 0]
      by (simp add: mosaics_size_entries [OF st] entries_def others_def iter_begin_def compacted_def)
  qed
qed

lemma sorted_entries:
  assumes "mosaics_ok m"
  shows "sorted_wrt (IsLessThan (m_optimizedMosaicId m)) (keys (entries m))"
proof -
  note st = mosaics_okD [OF assms]
  have "sorted_wrt (<) (keys (others m))"
    using omap_ok_others [OF st(1)] by (simp add: omap_ok_def)
  moreover have "IsLessThan (m_optimizedMosaicId m) x y"
    if "x \<in> set (keys (others m))" "y \<in> set (keys (others m))" "x < y" for x y
  proof -
    have "x \<noteq> m_optimizedMosaicId m" "y \<noteq> m_optimizedMosaicId m"
      using that st(3) by (metis list.set_map)+
    with that(3) show ?thesis by (simp add: IsLessThan_def)
  qed
  ultimately have "sorted_wrt (IsLessThan (m_optimizedMosaicId m)) (keys (others m))"
    by (rule sorted_wrt_mono_rel [rotated])
  moreover have "IsLessThan (m_optimizedMosaicId m) (fst (Value m)) k"
    if "hasValue m" "k \<in> fst ` set (others m)" for k
  proof -
    have "k \<noteq> m_optimizedMosaicId m" "k \<noteq> fst (Value m)"
      using that st(2,3) unfolding ordered_for_def by metis+
    with that st(2) show ?thesis by (auto simp: ordered_for_def IsLessThan_def)
  qed
  ultimately show ?thesis by (simp add: entries_def)
qed

section \<open>Properties\<close>

text \<open>
  insertion into a well-formed compact map succeeds exactly for a non-zero id that is not in
  the map yet; the map stays well-formed (sorted three-level storage in normal form, optimised id
  first) and lookup afterwards is the old lookup updated at the new id.
\<close>

theorem mosaics_insert_correct:
  assumes "mosaics_ok m"
  shows "k \<noteq> 0 \<and> mosaics_find m k = None \<longleftrightarrow>
      (\<exists>m'. mosaics_insert (k, v) m = Inr m' \<and> mosaics_ok m' \<and> mosaics_find m' = (mosaics_find m)(k \<mapsto> v))"
    (is "?new \<longleftrightarrow> ?done")
proof
  show ?done if ?new using that cmm.insert_new [OF assms] by blast
  show ?new if ?done using that cmm.insert_refused [OF assms, of k v] by (metis Inl_Inr_False)
qed

definition sample_map :: CompactMosaicMap where
  "sample_map = \<lparr>Value = (7, 10), pNextStorage = Some \<lparr>ArrayStorage =
     [(2, 1), (3, 1), (4, 1), (5, 1), (6, 1)], ArraySize = 5, pMapStorage = Some [(9, 4)]\<rparr>,
     m_optimizedMosaicId = 7\<rparr>"

lemma sample_map_ok: "mosaics_ok sample_map"
  by (simp add: sample_map_def mosaics_ok_def map_struct_def ordered_for_def others_def level2_def
      compacted_def filled_def omap_ok_def hasValue_def)

theorem mosaics_insert_correct_witness:
  "\<exists>m'. mosaics_insert (8, 3) sample_map = Inr m' \<and> mosaics_ok m' \<and>
     mosaics_find m' = (mosaics_find sample_map)(8 \<mapsto> 3)"
proof -
  have "(8 :: MosaicId) \<noteq> 0 \<and> mosaics_find sample_map 8 = None" by code_simp
  then show ?thesis using mosaics_insert_correct [OF sample_map_ok, of 8 3] by blast
qed

text \<open>
  erasing an id from a well-formed compact map removes exactly that id, and changing the
  optimised id never fails and leaves the content untouched; both keep the map well-formed.
\<close>

theorem mosaics_erase_optimize_correct:
  assumes "mosaics_ok m"
  shows "mosaics_ok (mosaics_erase k m) \<and> mosaics_find (mosaics_erase k m) = (mosaics_find m)(k := None) \<and>
    (\<exists>m'. mosaics_optimize k m = Inr m' \<and> mosaics_ok m' \<and> mosaics_find m' = mosaics_find m)"
  using cmm.erase_lookup [OF assms] cmm.optimize_lookup [OF assms] by blast

theorem mosaics_erase_optimize_correct_witness:
  "mosaics_ok (mosaics_erase 3 sample_map) \<and>
     mosaics_find (mosaics_erase 3 sample_map) = (mosaics_find sample_map)(3 := None)"
  using mosaics_erase_optimize_correct [OF sample_map_ok, of 3] by blast

text \<open>
  a loop over the iterator of a well-formed map ends after \<^verbatim>\<open>size()\<close> steps, visits every mosaic
  exactly once, and in the order of \<^verbatim>\<open>IsLessThan\<close> (the optimised id first, the rest ascending).
\<close>

theorem mosaics_iteration:
  assumes "mosaics_ok m"
  shows "\<exists>ps. iterate (mosaics_size m) m (iter_begin m) = Some ps \<and> map_of ps = mosaics_find m \<and>
    distinct (keys ps) \<and> length ps = mosaics_size m \<and>
    sorted_wrt (IsLessThan (m_optimizedMosaicId m)) (keys ps)"
proof (intro exI conjI)
  note st = mosaics_okD [OF assms]
  show "iterate (mosaics_size m) m (iter_begin m) = Some (entries m)" by (rule iterate_entries [OF st(1)])
  show "map_of (entries m) = mosaics_find m" using mosaics_find_entries [OF st(1)] by auto
  show "distinct (keys (entries m))" by (rule distinct_entries [OF st(1,2)])
  show "length (entries m) = mosaics_size m" using mosaics_size_entries [OF st(1)] by simp
  show "sorted_wrt (IsLessThan (m_optimizedMosaicId m)) (keys (entries m))" by (rule sorted_entries [OF assms])
qed

theorem mosaics_iteration_witness:
  "\<exists>ps. iterate 7 sample_map (iter_begin sample_map) = Some ps \<and> length ps = 7"
proof -
  have "mosaics_size sample_map = 7" by code_simp
  then show ?thesis using mosaics_iteration [OF sample_map_ok] by metis
qed

end
