(* ===== verification/Account_Balances.thy ===== *)
theory Account_Balances
  imports Compact_Mosaic_Map
begin

text \<open>
  \<^verbatim>\<open>catapult/state/AccountBalances.{h,cpp}\<close>: the mosaic balances of an account, stored in a compact
  mosaic map. The theory translates \<^verbatim>\<open>get\<close>, \<^verbatim>\<open>credit\<close>, \<^verbatim>\<open>debit\<close>, \<^verbatim>\<open>optimize\<close> and the copy assignment, and
  states the contract \<open>balance_store\<close> through which the observers of every plugin move funds.
\<close>

section \<open>State and operations\<close>

record AccountBalances =
  m_balances :: CompactMosaicMap
  ab_optimizedMosaicId :: MosaicId

definition empty_balances :: AccountBalances where
  "empty_balances = \<lparr>m_balances = empty_mosaic_map, ab_optimizedMosaicId = 0\<rparr>"

definition balance_get :: "AccountBalances \<Rightarrow> MosaicId \<Rightarrow> Amount" where
  "balance_get b mosaicId =
     (case find_location (m_balances b) mosaicId of
        None \<Rightarrow> 0
      | Some iter \<Rightarrow> iter_value (m_balances b) iter)"

definition credit :: "AccountBalances \<Rightarrow> MosaicId \<Rightarrow> Amount \<Rightarrow> AccountBalances result" where
  "credit b mosaicId amount =
     (if amount = 0 then Inr b
      else case find_location (m_balances b) mosaicId of
        None \<Rightarrow>
          bind_result (mosaics_insert (mosaicId, amount) (m_balances b))
            (\<lambda>m. Inr (b\<lparr>m_balances := m\<rparr>))
      | Some iter \<Rightarrow>
          Inr (b\<lparr>m_balances := iter_assign (m_balances b) iter (iter_value (m_balances b) iter + amount)\<rparr>))"

definition debit :: "AccountBalances \<Rightarrow> MosaicId \<Rightarrow> Amount \<Rightarrow> AccountBalances result" where
  "debit b mosaicId amount =
     (if amount = 0 then Inr b
      else case find_location (m_balances b) mosaicId of
        None \<Rightarrow> Inl runtime_error
      | Some iter \<Rightarrow>
          (let balance = iter_value (m_balances b) iter
           in if amount > balance then Inl runtime_error
              else
                let m = iter_assign (m_balances b) iter (balance - amount)
                in Inr (b\<lparr>m_balances := if balance - amount = 0 then mosaics_erase mosaicId m else m\<rparr>)))"

definition balances_optimize :: "AccountBalances \<Rightarrow> MosaicId \<Rightarrow> AccountBalances result" where
  "balances_optimize b mid =
     bind_result (mosaics_optimize mid (m_balances b))
       (\<lambda>m. Inr (b\<lparr>m_balances := m, ab_optimizedMosaicId := mid\<rparr>))"

text \<open>
  \<^verbatim>\<open>operator=(const AccountBalances&)\<close> on an existing object \<open>dst\<close>; the copy constructor is the same
  on an empty object. The loop iterates over the source with its iterator.
\<close>

definition copy_assign :: "AccountBalances \<Rightarrow> AccountBalances \<Rightarrow> AccountBalances result" where
  "copy_assign dst src =
     bind_result (mosaics_optimize (ab_optimizedMosaicId src) (m_balances dst))
       (\<lambda>m. case iterate (mosaics_size (m_balances src)) (m_balances src) (iter_begin (m_balances src)) of
          None \<Rightarrow> Inl undefined_behaviour
        | Some pairs \<Rightarrow>
            bind_result (foldM mosaics_insert pairs m)
              (\<lambda>m'. Inr (dst\<lparr>m_balances := m', ab_optimizedMosaicId := ab_optimizedMosaicId src\<rparr>)))"

definition balances_size :: "AccountBalances \<Rightarrow> nat" where
  "balances_size b = mosaics_size (m_balances b)"

section \<open>Invariant\<close>

text \<open>The map is well-formed, no zero balance is stored, and both objects agree on the optimised id.\<close>

definition balances_ok :: "AccountBalances \<Rightarrow> bool" where
  "balances_ok b \<longleftrightarrow> mosaics_ok (m_balances b) \<and>
     (\<forall>k. mosaics_find (m_balances b) k \<noteq> Some 0) \<and>
     ab_optimizedMosaicId b = m_optimizedMosaicId (m_balances b)"

lemma balance_get_find:
  "balance_get b k = (case mosaics_find (m_balances b) k of None \<Rightarrow> 0 | Some v \<Rightarrow> v)"
  by (simp add: balance_get_def mosaics_find_def split: option.splits)

lemma mosaics_ok_empty: "mosaics_ok empty_mosaic_map" "mosaics_find empty_mosaic_map = Map.empty"
  by (simp_all add: mosaics_ok_def map_struct_def ordered_for_def others_def hasValue_def empty_mosaic_map_def
      mosaics_find_def find_location_def mosaics_empty_def fun_eq_iff)

lemma balances_ok_empty: "balances_ok empty_balances" "balance_get empty_balances k = 0"
  using mosaics_ok_empty
  by (auto simp: balances_ok_def empty_balances_def balance_get_find) (simp add: empty_mosaic_map_def)

lemma optimized_unchanged:
  "mosaics_insert p m = Inr m' \<Longrightarrow> m_optimizedMosaicId m' = m_optimizedMosaicId m"
  "m_optimizedMosaicId (mosaics_assign m k v) = m_optimizedMosaicId m"
  "mosaics_ok m \<Longrightarrow> m_optimizedMosaicId (mosaics_erase k m) = m_optimizedMosaicId m"
  by (auto simp: mosaics_insert_def mosaics_assign_def Let_def mosaics_erase_spec(3) [OF mosaics_okD(1,2)]
      split: if_splits option.splits)

section \<open>The balance contract\<close>

text \<open>
  What the observers rely on. A credit that does not overflow and a debit that is covered
  succeed and change one balance; a debit that is not covered throws and changes nothing.
\<close>

locale balance_store =
  fixes ok :: "'b \<Rightarrow> bool"
    and get :: "'b \<Rightarrow> MosaicId \<Rightarrow> Amount"
    and add :: "'b \<Rightarrow> MosaicId \<Rightarrow> Amount \<Rightarrow> 'b result"
    and sub :: "'b \<Rightarrow> MosaicId \<Rightarrow> Amount \<Rightarrow> 'b result"
  assumes add_ok: "ok b \<Longrightarrow> k \<noteq> 0 \<Longrightarrow> no_wrap (get b k) a \<Longrightarrow>
      \<exists>b'. add b k a = Inr b' \<and> ok b' \<and> get b' = (get b)(k := get b k + a)"
    and sub_ok: "ok b \<Longrightarrow> a \<le> get b k \<Longrightarrow>
      \<exists>b'. sub b k a = Inr b' \<and> ok b' \<and> get b' = (get b)(k := get b k - a)"
    and sub_uncovered: "ok b \<Longrightarrow> get b k < a \<Longrightarrow> sub b k a = Inl runtime_error"
    and add_zero: "add b k 0 = Inr b"
    and get_zero: "ok b \<Longrightarrow> get b 0 = 0"
begin

lemma add_then_sub:
  assumes "ok b" and "k \<noteq> 0" and "no_wrap (get b k) a"
  shows "\<exists>b1 b2. add b k a = Inr b1 \<and> sub b1 k a = Inr b2 \<and> ok b2 \<and> get b2 = get b"
proof -
  obtain b1 where b1: "add b k a = Inr b1" "ok b1" "get b1 = (get b)(k := get b k + a)"
    using add_ok [OF assms] by blast
  have "a \<le> get b1 k" using b1(3) no_wrap_le2 [OF assms(3)] by simp
  then obtain b2 where "sub b1 k a = Inr b2" "ok b2" "get b2 = (get b1)(k := get b1 k - a)"
    using sub_ok [OF b1(2)] by blast
  with b1 show ?thesis by (auto simp: fun_eq_iff)
qed

lemma sub_then_add:
  assumes "ok b" and "a \<le> get b k"
  shows "\<exists>b1 b2. sub b k a = Inr b1 \<and> add b1 k a = Inr b2 \<and> ok b2 \<and> get b2 = get b"
proof (cases "k = 0")
  case True
  then have "a = 0" using assms get_zero by simp
  moreover obtain b1 where "sub b k a = Inr b1" "ok b1" "get b1 = (get b)(k := get b k - a)"
    using sub_ok [OF assms] by blast
  ultimately show ?thesis using add_zero by auto
next
  case False
  obtain b1 where b1: "sub b k a = Inr b1" "ok b1" "get b1 = (get b)(k := get b k - a)"
    using sub_ok [OF assms] by blast
  have "no_wrap (get b1 k) a" using b1(3) no_wrap_sub [OF assms(2)] by simp
  then obtain b2 where "add b1 k a = Inr b2" "ok b2" "get b2 = (get b1)(k := get b1 k + a)"
    using add_ok [OF b1(2) False] by blast
  with b1 show ?thesis by (auto simp: fun_eq_iff)
qed

end


lemma credit_map:
  "credit b k a = (if a = 0 then Inr b
     else if mosaics_find (m_balances b) k = None
     then bind_result (mosaics_insert (k, a) (m_balances b)) (\<lambda>m. Inr (b\<lparr>m_balances := m\<rparr>))
     else Inr (b\<lparr>m_balances := mosaics_assign (m_balances b) k (balance_get b k + a)\<rparr>))"
  by (auto simp: credit_def mosaics_find_def mosaics_assign_def balance_get_def split: option.splits)

lemma debit_map:
  "debit b k a = (if a = 0 then Inr b
     else if mosaics_find (m_balances b) k = None \<or> balance_get b k < a then Inl runtime_error
     else let m = mosaics_assign (m_balances b) k (balance_get b k - a)
          in Inr (b\<lparr>m_balances := if balance_get b k - a = 0 then mosaics_erase k m else m\<rparr>))"
  by (auto simp: debit_def mosaics_find_def mosaics_assign_def balance_get_def Let_def split: option.splits)

interpretation balances: balance_store balances_ok balance_get credit debit
proof
  fix b :: AccountBalances and k a
  let ?m = "m_balances b"
  show "credit b k 0 = Inr b" by (simp add: credit_def)
  assume ok: "balances_ok b"
  then have m: "mosaics_ok ?m" and nz: "\<forall>k. mosaics_find ?m k \<noteq> Some 0"
    and opt: "ab_optimizedMosaicId b = m_optimizedMosaicId ?m" by (simp_all add: balances_ok_def)
  show "balance_get b 0 = 0" using cmm.lookup_zero [OF m] by (simp add: balance_get_find)
  show "debit b k a = Inl runtime_error" if "balance_get b k < a"
    using that by (auto simp: debit_map)
  show "\<exists>b'. credit b k a = Inr b' \<and> balances_ok b' \<and> balance_get b' = (balance_get b)(k := balance_get b k + a)"
    if k: "k \<noteq> 0" and nw: "no_wrap (balance_get b k) a"
  proof (cases "a = 0 \<or> mosaics_find ?m k \<noteq> None")
    case True
    have "balance_get b k + a \<noteq> 0" if "a \<noteq> 0"
      using that no_wrap_le2 [OF nw] by auto
    with True ok m nz opt show ?thesis
      using cmm.assign_lookup [OF m, of k "balance_get b k + a"]
      by (auto simp: credit_map balances_ok_def balance_get_find optimized_unchanged fun_eq_iff)
  next
    case False
    then obtain m' where "mosaics_insert (k, a) ?m = Inr m'" "mosaics_ok m'"
        "mosaics_find m' = (mosaics_find ?m)(k \<mapsto> a)"
      using cmm.insert_new [OF m k] by blast
    with False ok nz opt show ?thesis
      by (auto simp: credit_map balances_ok_def balance_get_find optimized_unchanged fun_eq_iff)
  qed
  show "\<exists>b'. debit b k a = Inr b' \<and> balances_ok b' \<and> balance_get b' = (balance_get b)(k := balance_get b k - a)"
    if cov: "a \<le> balance_get b k"
  proof (cases "a = 0")
    case True
    then show ?thesis using ok by (auto simp: debit_map)
  next
    case False
    then have found: "mosaics_find ?m k \<noteq> None" using cov by (auto simp: balance_get_find split: option.splits)
    define v where "v = balance_get b k - a"
    note as = cmm.assign_lookup [OF m found, of v]
    note er = cmm.erase_lookup [OF as [THEN conjunct1], of k]
    let ?m1 = "mosaics_assign ?m k v"
    let ?m2 = "if v = 0 then mosaics_erase k ?m1 else ?m1"
    have m2: "mosaics_ok ?m2" "mosaics_find ?m2 = (mosaics_find ?m)(k := if v = 0 then None else Some v)"
      "m_optimizedMosaicId ?m2 = m_optimizedMosaicId ?m"
      using as er by (auto simp: optimized_unchanged)
    have "debit b k a = Inr (b\<lparr>m_balances := ?m2\<rparr>)"
      using False found cov by (simp add: debit_map Let_def v_def)
    moreover have "balances_ok (b\<lparr>m_balances := ?m2\<rparr>)"
      using m2 nz opt unfolding balances_ok_def by simp
    moreover have "balance_get (b\<lparr>m_balances := ?m2\<rparr>) = (balance_get b)(k := v)"
      using m2(2) by (simp add: balance_get_find fun_eq_iff)
    ultimately show ?thesis unfolding v_def by blast
  qed
qed

section \<open>Properties\<close>

text \<open>
  on well-formed balances a credit that does not overflow 64 bits adds exactly the amount to
  one balance; a covered debit subtracts exactly the amount; an uncovered debit throws. Both keep
  the balances well-formed (no zero balance is ever stored).
\<close>

theorem credit_debit_exact:
  assumes "balances_ok b" and "k \<noteq> 0" and "no_wrap (balance_get b k) a"
  shows "(\<exists>b'. credit b k a = Inr b' \<and> balances_ok b' \<and> balance_get b' = (balance_get b)(k := balance_get b k + a)) \<and>
    (if a \<le> balance_get b k
     then \<exists>b'. debit b k a = Inr b' \<and> balances_ok b' \<and> balance_get b' = (balance_get b)(k := balance_get b k - a)
     else debit b k a = Inl runtime_error)"
  using balances.add_ok [OF assms] balances.sub_ok [OF assms(1)] balances.sub_uncovered [OF assms(1)]
  by auto

definition sample_balances :: AccountBalances where
  "sample_balances = \<lparr>m_balances = sample_map, ab_optimizedMosaicId = 7\<rparr>"

lemma find_in_entries: "map_struct m \<Longrightarrow> mosaics_find m k = Some v \<Longrightarrow> (k, v) \<in> set (entries m)"
  by (simp add: mosaics_find_entries map_of_SomeD)

lemma sample_balances_ok: "balances_ok sample_balances"
proof -
  have "mosaics_find sample_map k \<noteq> Some 0" for k
    using find_in_entries [OF mosaics_okD(1) [OF sample_map_ok], of k 0]
    by (auto simp: sample_map_def entries_def others_def level2_def hasValue_def)
  then show ?thesis
    using sample_map_ok by (simp add: balances_ok_def sample_balances_def) (simp add: sample_map_def)
qed

theorem credit_debit_exact_witness:
  "(\<exists>b'. credit sample_balances 9 4 = Inr b' \<and> balance_get b' 9 = 8) \<and>
   (\<exists>b'. debit sample_balances 9 4 = Inr b' \<and> balance_get b' 9 = 0)"
proof -
  have g: "balance_get sample_balances 9 = 4" by code_simp
  then have "no_wrap (balance_get sample_balances 9) 4" by (simp add: no_wrap_def)
  with g credit_debit_exact [OF sample_balances_ok, of 9 4] show ?thesis by auto
qed

text \<open>
  a credit followed by a debit of the same amount, and a covered debit followed by a credit,
  restore every balance: this is how the observers undo a block.
\<close>

theorem credit_debit_inverse:
  assumes "balances_ok b" and "k \<noteq> 0" and "no_wrap (balance_get b k) a"
  shows "(\<exists>b1 b2. credit b k a = Inr b1 \<and> debit b1 k a = Inr b2 \<and> balance_get b2 = balance_get b) \<and>
    (a \<le> balance_get b k \<longrightarrow>
      (\<exists>b1 b2. debit b k a = Inr b1 \<and> credit b1 k a = Inr b2 \<and> balance_get b2 = balance_get b))"
  using balances.add_then_sub [OF assms] balances.sub_then_add [OF assms(1)] by blast

theorem credit_debit_inverse_witness:
  "\<exists>b1 b2. debit sample_balances 7 10 = Inr b1 \<and> credit b1 7 10 = Inr b2 \<and>
     balance_get b2 = balance_get sample_balances"
proof -
  have g: "balance_get sample_balances 7 = 10" by code_simp
  then have "no_wrap (balance_get sample_balances 7) 10" by (simp add: no_wrap_def)
  with g credit_debit_inverse [OF sample_balances_ok, of 7 10] show ?thesis by auto
qed

lemma iterate_source:
  assumes "mosaics_ok m"
  shows "iterate (mosaics_size m) m (iter_begin m) = Some (entries m)"
    and "distinct (keys (entries m))" and "0 \<notin> fst ` set (entries m)" and "map_of (entries m) = mosaics_find m"
  using mosaics_okD(1,2) [OF assms]
  by (auto simp: iterate_entries zero_notin_entries mosaics_find_entries simp del: image_iff
      intro!: distinct_entries)

lemma optimized_reinsert: "reinsert k m = Inr m' \<Longrightarrow> m_optimizedMosaicId m' = m_optimizedMosaicId m"
  by (auto simp: reinsert_def mosaics_erase_def compact_def Let_def dest!: optimized_unchanged(1)
      split: option.splits MosaicLocation.splits)

lemma optimize_sets_id: "mosaics_optimize k m = Inr m' \<Longrightarrow> m_optimizedMosaicId m' = k"
  by (auto simp: mosaics_optimize_def split: if_splits dest!: optimized_reinsert)

lemma optimized_insert_all: "foldM mosaics_insert ps m = Inr m' \<Longrightarrow> m_optimizedMosaicId m' = m_optimizedMosaicId m"
  by (rule foldM_invariant [where P = "\<lambda>x. m_optimizedMosaicId x = m_optimizedMosaicId m"])
    (auto dest: optimized_unchanged(1))

text \<open>
  copying well-formed balances into a fresh object (the copy constructor) yields well-formed
  balances with the same amounts and the same optimised mosaic.
\<close>

theorem copy_construct_correct:
  assumes "balances_ok src"
  shows "\<exists>dst. copy_assign empty_balances src = Inr dst \<and> balances_ok dst \<and>
    balance_get dst = balance_get src \<and> ab_optimizedMosaicId dst = ab_optimizedMosaicId src"
proof -
  let ?o = "ab_optimizedMosaicId src" and ?m = "m_balances src"
  have src: "mosaics_ok ?m" using assms by (simp add: balances_ok_def)
  note it = iterate_source [OF src]
  obtain m0 where m0: "mosaics_optimize ?o empty_mosaic_map = Inr m0" "mosaics_ok m0" "mosaics_find m0 = Map.empty"
    using cmm.optimize_lookup [OF mosaics_ok_empty(1)] mosaics_ok_empty(2) by auto
  obtain m' where m': "foldM mosaics_insert (entries ?m) m0 = Inr m'" "mosaics_ok m'" "mosaics_find m' = mosaics_find ?m"
    using cmm.insert_all [OF m0(2) it(2,3)] m0(3) it(4) by auto
  have "m_optimizedMosaicId m' = ?o"
    using optimized_insert_all [OF m'(1)] optimize_sets_id [OF m0(1)] by simp
  then have "balances_ok \<lparr>m_balances = m', ab_optimizedMosaicId = ?o\<rparr>"
    using m' assms by (simp add: balances_ok_def)
  moreover have "copy_assign empty_balances src = Inr \<lparr>m_balances = m', ab_optimizedMosaicId = ?o\<rparr>"
    using m0 m' it by (simp add: copy_assign_def empty_balances_def)
  ultimately show ?thesis
    using m'(3) by (auto simp: balance_get_find fun_eq_iff)
qed

theorem copy_construct_correct_witness:
  "\<exists>dst. copy_assign empty_balances sample_balances = Inr dst \<and> balance_get dst = balance_get sample_balances"
  using copy_construct_correct [OF sample_balances_ok] by blast

text \<open>
  assigning to an object that already holds one of the mosaics of the source throws instead of
  replacing the content: the assignment never clears its target.
\<close>

theorem copy_assign_overlap_throws:
  assumes "balances_ok dst" and "balances_ok src" and "balance_get dst k \<noteq> 0" and "balance_get src k \<noteq> 0"
  shows "copy_assign dst src = Inl invalid_argument"
proof -
  let ?m = "m_balances src"
  have dst: "mosaics_ok (m_balances dst)" and src: "mosaics_ok ?m"
    using assms(1,2) by (simp_all add: balances_ok_def)
  note it = iterate_source [OF src]
  have k: "mosaics_find (m_balances dst) k \<noteq> None" "k \<in> fst ` set (entries ?m)"
    using assms(3,4) it(4) map_of_eq_None_iff [of "entries ?m" k]
    by (auto simp: balance_get_find split: option.splits)
  obtain m0 where "mosaics_optimize (ab_optimizedMosaicId src) (m_balances dst) = Inr m0" "mosaics_ok m0"
      "mosaics_find m0 = mosaics_find (m_balances dst)"
    using cmm.optimize_lookup [OF dst] by blast
  then show ?thesis
    using cmm.insert_overlap [of m0 k "entries ?m"] k it(1) by (simp add: copy_assign_def)
qed

theorem copy_assign_overlap_throws_witness:
  "copy_assign sample_balances sample_balances = Inl invalid_argument"
proof -
  have "balance_get sample_balances 7 \<noteq> 0" by code_simp
  then show ?thesis
    using copy_assign_overlap_throws [OF sample_balances_ok sample_balances_ok] by blast
qed

end
