(* ===== verification/Array_Stack.thy ===== *)
theory Array_Stack
  imports Prelude
begin

text \<open>
  \<^verbatim>\<open>catapult/state/CompactArrayStack.h\<close> and its two users \<^verbatim>\<open>AccountImportanceSnapshots\<close> and
  \<^verbatim>\<open>AccountActivityBuckets\<close>: bounded histories that keep the last values pushed, hand out default
  values for the missing ones, and are unwound by \<^verbatim>\<open>pop\<close> when a block is rolled back.
\<close>

section \<open>Compact array stack\<close>

text \<open>
  The template parameters are arguments: the capacity \<open>N\<close> and the default value \<open>d\<close> of the
  element type. The array is allocated only while the stack is not empty.
\<close>

record 'a CompactArrayStack =
  m_pArray :: "'a list option"
  m_size :: nat

definition empty_stack :: "'a CompactArrayStack" where
  "empty_stack = \<lparr>m_pArray = None, m_size = 0\<rparr>"

text \<open>The \<open>N\<close> values the iterator yields: the array, or defaults when there is none.\<close>

definition stack_values :: "nat \<Rightarrow> 'a \<Rightarrow> 'a CompactArrayStack \<Rightarrow> 'a list" where
  "stack_values N d s = (case m_pArray s of None \<Rightarrow> replicate N d | Some array \<Rightarrow> array)"

definition peek :: "'a CompactArrayStack \<Rightarrow> 'a result" where
  "peek s =
     (if 0 = m_size s then Inl out_of_range
      else case m_pArray s of None \<Rightarrow> Inl undefined_behaviour | Some array \<Rightarrow> Inr (array ! 0))"

text \<open>\<^verbatim>\<open>for (auto i = 0u; i < array.size() - 1; ++i) array[i] = array[i + 1];\<close>\<close>

function shiftLeft :: "'a list \<Rightarrow> nat \<Rightarrow> 'a list" where
  "shiftLeft array i =
     (if i < length array - 1 then shiftLeft (array[i := array ! (i + 1)]) (Suc i) else array)"
  by pat_completeness auto
termination
  by (relation "measure (\<lambda>(array, i). length array - i)") auto

text \<open>\<^verbatim>\<open>for (auto i = array.size() - 1; i > 0; --i) array[i] = array[i - 1];\<close>\<close>

fun shiftRight :: "'a list \<Rightarrow> nat \<Rightarrow> 'a list" where
  "shiftRight array i = (if i > 0 then shiftRight (array[i := array ! (i - 1)]) (i - 1) else array)"

declare shiftLeft.simps [simp del] shiftRight.simps [simp del]

definition push :: "nat \<Rightarrow> 'a \<Rightarrow> 'a \<Rightarrow> 'a CompactArrayStack \<Rightarrow> 'a CompactArrayStack" where
  "push N d v s =
     (let array = (case m_pArray s of
                     None \<Rightarrow> replicate N d
                   | Some array \<Rightarrow> shiftRight array (length array - 1))
      in \<lparr>m_pArray = Some (array[0 := v]), m_size = (if m_size s < N then m_size s + 1 else m_size s)\<rparr>)"

definition pop :: "'a \<Rightarrow> 'a CompactArrayStack \<Rightarrow> 'a CompactArrayStack result" where
  "pop d s =
     (case m_pArray s of
        None \<Rightarrow> Inl out_of_range
      | Some array \<Rightarrow>
          (let array' = (shiftLeft array 0)[length array - 1 := d];
               size' = m_size s - 1
           in Inr \<lparr>m_pArray = (if 0 = size' then None else Some array'), m_size = size'\<rparr>))"

text \<open>\<^verbatim>\<open>operator=(const CompactArrayStack&)\<close>: the array is copied only when the source has one.\<close>

definition stack_copy_assign :: "'a CompactArrayStack \<Rightarrow> 'a CompactArrayStack \<Rightarrow> 'a CompactArrayStack" where
  "stack_copy_assign dst src =
     \<lparr>m_pArray = (case m_pArray src of None \<Rightarrow> m_pArray dst | Some array \<Rightarrow> Some array), m_size = m_size src\<rparr>"

subsection \<open>Invariant and abstraction\<close>

definition stack_ok :: "nat \<Rightarrow> 'a \<Rightarrow> 'a CompactArrayStack \<Rightarrow> bool" where
  "stack_ok N d s \<longleftrightarrow>
     (case m_pArray s of
        None \<Rightarrow> m_size s = 0
      | Some array \<Rightarrow> length array = N \<and> 0 < m_size s \<and> m_size s \<le> N \<and>
          (\<forall>i. m_size s \<le> i \<and> i < N \<longrightarrow> array ! i = d))"

lemma length_shiftLeft [simp]: "length (shiftLeft array i) = length array"
  by (induction array i rule: shiftLeft.induct) (subst shiftLeft.simps, simp)

lemma length_shiftRight [simp]: "length (shiftRight array i) = length array"
  by (induction array i rule: shiftRight.induct) (subst shiftRight.simps, simp)

lemma nth_shiftLeft:
  "j < length array \<Longrightarrow>
     shiftLeft array i ! j = (if i \<le> j \<and> j < length array - 1 then array ! (j + 1) else array ! j)"
proof (induction array i rule: shiftLeft.induct)
  case (1 array i)
  show ?case
  proof (cases "i < length array - 1")
    case True
    then have "shiftLeft array i ! j = shiftLeft (array[i := array ! (i + 1)]) (Suc i) ! j"
      by (subst shiftLeft.simps) simp
    also have "\<dots> = (if i \<le> j \<and> j < length array - 1 then array ! (j + 1) else array ! j)"
      using 1 True by (cases "j = i") (auto simp: nth_list_update)
    finally show ?thesis .
  qed (subst shiftLeft.simps, auto)
qed

lemma nth_shiftRight:
  "i < length array \<Longrightarrow> j < length array \<Longrightarrow>
     shiftRight array i ! j = (if 0 < j \<and> j \<le> i then array ! (j - 1) else array ! j)"
proof (induction array i rule: shiftRight.induct)
  case (1 array i)
  show ?case
  proof (cases "i > 0")
    case True
    then have "shiftRight array i ! j = shiftRight (array[i := array ! (i - 1)]) (i - 1) ! j"
      by (subst shiftRight.simps) simp
    also have "\<dots> = (if 0 < j \<and> j \<le> i then array ! (j - 1) else array ! j)"
      using 1 True by (cases "j = i") (auto simp: nth_list_update)
    finally show ?thesis .
  qed (subst shiftRight.simps, simp)
qed

lemma shift_push: "0 < length array \<Longrightarrow> (shiftRight array (length array - 1))[0 := v] = v # butlast array"
  by (rule nth_equalityI) (auto simp: nth_list_update nth_shiftRight nth_Cons' nth_butlast)

lemma shift_pop: "0 < length array \<Longrightarrow> (shiftLeft array 0)[length array - 1 := d] = tl array @ [d]"
  by (rule nth_equalityI) (auto simp: nth_list_update nth_shiftLeft nth_append nth_tl)

lemma stack_values_length: "stack_ok N d s \<Longrightarrow> length (stack_values N d s) = N"
  by (auto simp: stack_ok_def stack_values_def split: option.splits)

subsection \<open>The history contract\<close>

text \<open>
  A history of capacity \<open>N\<close>: pushing drops the oldest value, popping brings a default in at
  the far end, and an empty history cannot be popped.
\<close>

locale history =
  fixes N :: nat
    and d :: 'a
    and ok :: "'s \<Rightarrow> bool"
    and vals :: "'s \<Rightarrow> 'a list"
    and depth :: "'s \<Rightarrow> nat"
    and hpush :: "'a \<Rightarrow> 's \<Rightarrow> 's"
    and hpop :: "'s \<Rightarrow> 's result"
  assumes capacity: "0 < N"
    and vals_length: "ok s \<Longrightarrow> length (vals s) = N"
    and beyond_depth: "ok s \<Longrightarrow> depth s \<le> i \<Longrightarrow> i < N \<Longrightarrow> vals s ! i = d"
    and push_values: "ok s \<Longrightarrow> ok (hpush v s) \<and> vals (hpush v s) = v # butlast (vals s) \<and>
      depth (hpush v s) = min N (depth s + 1)"
    and pop_values: "ok s \<Longrightarrow> 0 < depth s \<Longrightarrow>
      \<exists>s'. hpop s = Inr s' \<and> ok s' \<and> vals s' = tl (vals s) @ [d] \<and> depth s' = depth s - 1"
    and pop_empty: "ok s \<Longrightarrow> depth s = 0 \<Longrightarrow> hpop s = Inl out_of_range"
begin

text \<open>Popping undoes a push, unless the history was full: then the oldest value is lost.\<close>

lemma pop_push:
  assumes "ok s"
  shows "\<exists>s'. hpop (hpush v s) = Inr s' \<and> ok s' \<and> vals s' = butlast (vals s) @ [d] \<and>
    (depth s < N \<longrightarrow> vals s' = vals s \<and> depth s' = depth s)"
proof -
  note p = push_values [OF assms, of v]
  then have "0 < depth (hpush v s)" using capacity by simp
  then obtain s' where s': "hpop (hpush v s) = Inr s'" "ok s'"
      "vals s' = tl (vals (hpush v s)) @ [d]" "depth s' = depth (hpush v s) - 1"
    using pop_values p by blast
  have "butlast (vals s) @ [d] = vals s" if "depth s < N"
  proof -
    have "vals s \<noteq> []" using vals_length [OF assms] capacity by auto
    moreover have "last (vals s) = d"
      using beyond_depth [OF assms, of "N - 1"] vals_length [OF assms] that capacity
      by (simp add: last_conv_nth calculation)
    ultimately show ?thesis by (metis append_butlast_last_id)
  qed
  then show ?thesis using p s' by auto
qed

end

lemma stack_ok_empty: "stack_ok N d empty_stack" "stack_values N d empty_stack = replicate N d"
  by (simp_all add: stack_ok_def stack_values_def empty_stack_def)

lemma push_correct:
  assumes "0 < N" and "stack_ok N d s"
  shows "stack_ok N d (push N d v s) \<and> stack_values N d (push N d v s) = v # butlast (stack_values N d s) \<and>
    m_size (push N d v s) = min N (m_size s + 1)"
proof (cases "m_pArray s")
  case None
  have "(replicate N d)[0 := v] = v # replicate (N - 1) d"
    using assms(1) by (cases N) auto
  moreover have "butlast (replicate N d) = replicate (N - 1) d"
    by (simp add: butlast_conv_take)
  ultimately show ?thesis
    using None assms by (auto simp: push_def stack_ok_def stack_values_def nth_Cons')
next
  case (Some array)
  then have len: "length array = N" "0 < length array" using assms by (auto simp: stack_ok_def)
  have "\<forall>i. m_size s \<le> i \<and> i < N \<longrightarrow> array ! i = d" using assms(2) Some by (simp add: stack_ok_def)
  then have "array ! (i - Suc 0) = d" if "Suc (m_size s) \<le> i" "i < length array" for i
    using that len by (auto dest!: spec [of _ "i - Suc 0"])
  then show ?thesis
    using Some assms(2) len shift_push [OF len(2), of v]
    by (auto simp: push_def stack_ok_def stack_values_def nth_Cons' nth_butlast Let_def)
qed

lemma pop_correct:
  assumes "stack_ok N d s" and "0 < m_size s"
  shows "\<exists>s'. pop d s = Inr s' \<and> stack_ok N d s' \<and> stack_values N d s' = tl (stack_values N d s) @ [d] \<and>
    m_size s' = m_size s - 1"
proof -
  obtain array where array: "m_pArray s = Some array" "length array = N" "m_size s \<le> N"
      "\<forall>i. m_size s \<le> i \<and> i < N \<longrightarrow> array ! i = d"
    using assms by (auto simp: stack_ok_def split: option.splits)
  have len: "0 < length array" using array assms by simp
  have tl: "tl array @ [d] = replicate N d" if "m_size s = 1"
    using that array by (intro nth_equalityI) (auto simp: nth_append nth_tl)
  have "array ! Suc i = d" if "m_size s - Suc 0 \<le> i" "i < length array - Suc 0" for i
    using that array by (auto dest!: spec [of _ "Suc i"])
  then show ?thesis
    using array assms shift_pop [OF len, of d] tl
    by (auto simp: pop_def stack_ok_def stack_values_def nth_append nth_tl Let_def)
qed

lemma pop_empty_stack: "stack_ok N d s \<Longrightarrow> m_size s = 0 \<Longrightarrow> pop d s = Inl out_of_range"
  by (auto simp: pop_def stack_ok_def split: option.splits)

lemma stack_beyond_size: "stack_ok N d s \<Longrightarrow> m_size s \<le> i \<Longrightarrow> i < N \<Longrightarrow> stack_values N d s ! i = d"
  by (auto simp: stack_ok_def stack_values_def split: option.splits)

lemma history_stack:
  "0 < N \<Longrightarrow> history N d (stack_ok N d) (stack_values N d) m_size (push N d) (pop d)"
  by (intro history.intro push_correct pop_correct pop_empty_stack stack_values_length stack_beyond_size)

section \<open>Importance snapshots\<close>

text \<open>\<^verbatim>\<open>AccountImportanceSnapshots\<close>: the last three importances of an account and the heights they were set at.\<close>

record ImportanceSnapshot =
  snapshot_Importance :: Importance
  snapshot_Height :: u64

definition default_snapshot :: ImportanceSnapshot where
  "default_snapshot = \<lparr>snapshot_Importance = 0, snapshot_Height = 0\<rparr>"

abbreviation Importance_History_Size :: nat where
  "Importance_History_Size \<equiv> 3"

type_synonym AccountImportanceSnapshots = "ImportanceSnapshot CompactArrayStack"

abbreviation snapshot_values :: "AccountImportanceSnapshots \<Rightarrow> ImportanceSnapshot list" where
  "snapshot_values s \<equiv> stack_values Importance_History_Size default_snapshot s"

definition snapshots_empty :: "AccountImportanceSnapshots \<Rightarrow> bool" where
  "snapshots_empty s \<longleftrightarrow> list_all (\<lambda>b. 0 = snapshot_Height b) (snapshot_values s)"

definition snapshots_current :: "AccountImportanceSnapshots \<Rightarrow> Importance" where
  "snapshots_current s = snapshot_Importance (snapshot_values s ! 0)"

definition snapshots_height :: "AccountImportanceSnapshots \<Rightarrow> u64" where
  "snapshots_height s = snapshot_Height (snapshot_values s ! 0)"

definition snapshots_active :: "AccountImportanceSnapshots \<Rightarrow> bool" where
  "snapshots_active s \<longleftrightarrow> 0 \<noteq> snapshots_height s"

definition snapshots_get :: "AccountImportanceSnapshots \<Rightarrow> u64 \<Rightarrow> Importance" where
  "snapshots_get s height =
     (case find (\<lambda>b. snapshot_Height b = height) (snapshot_values s) of
        None \<Rightarrow> 0
      | Some b \<Rightarrow> snapshot_Importance b)"

definition snapshots_set ::
    "Importance \<Rightarrow> u64 \<Rightarrow> AccountImportanceSnapshots \<Rightarrow> AccountImportanceSnapshots result" where
  "snapshots_set importance height s =
     (let lastHeight = snapshots_height s
      in if 0 \<noteq> lastHeight \<and> lastHeight \<ge> height then Inl runtime_error
         else Inr (push Importance_History_Size default_snapshot
                \<lparr>snapshot_Importance = importance, snapshot_Height = height\<rparr> s))"

definition snapshots_push :: "AccountImportanceSnapshots \<Rightarrow> AccountImportanceSnapshots" where
  "snapshots_push s = push Importance_History_Size default_snapshot default_snapshot s"

definition snapshots_pop :: "AccountImportanceSnapshots \<Rightarrow> AccountImportanceSnapshots result" where
  "snapshots_pop s = pop default_snapshot s"

abbreviation snapshots_ok :: "AccountImportanceSnapshots \<Rightarrow> bool" where
  "snapshots_ok s \<equiv> stack_ok Importance_History_Size default_snapshot s"

interpretation snapshots: history Importance_History_Size default_snapshot snapshots_ok snapshot_values m_size
    "push Importance_History_Size default_snapshot" "pop default_snapshot"
  by (rule history_stack) simp

section \<open>Activity buckets\<close>

text \<open>\<^verbatim>\<open>AccountActivityBuckets\<close>: fees, beneficiary count and raw score per importance grouping.\<close>

record HeightDetachedActivityBucket =
  TotalFeesPaid :: Amount
  BeneficiaryCount :: u32
  RawScore :: u64

record ActivityBucket = HeightDetachedActivityBucket +
  StartHeight :: u64

definition default_bucket :: ActivityBucket where
  "default_bucket = \<lparr>TotalFeesPaid = 0, BeneficiaryCount = 0, RawScore = 0, StartHeight = 0\<rparr>"

abbreviation Activity_Bucket_History_Size :: nat where
  "Activity_Bucket_History_Size \<equiv> 7"

type_synonym AccountActivityBuckets = "ActivityBucket CompactArrayStack"

abbreviation bucket_values :: "AccountActivityBuckets \<Rightarrow> ActivityBucket list" where
  "bucket_values s \<equiv> stack_values Activity_Bucket_History_Size default_bucket s"

abbreviation buckets_ok :: "AccountActivityBuckets \<Rightarrow> bool" where
  "buckets_ok s \<equiv> stack_ok Activity_Bucket_History_Size default_bucket s"

definition buckets_get :: "AccountActivityBuckets \<Rightarrow> u64 \<Rightarrow> ActivityBucket" where
  "buckets_get s height =
     (case find (\<lambda>b. StartHeight b = height) (bucket_values s) of None \<Rightarrow> default_bucket | Some b \<Rightarrow> b)"

text \<open>
  The consumer updates the height independent part of a bucket in place; the assignment to the
  front of the array is \<open>poke\<close>.
\<close>

definition detached :: "ActivityBucket \<Rightarrow> HeightDetachedActivityBucket" where
  "detached b = \<lparr>TotalFeesPaid = TotalFeesPaid b, BeneficiaryCount = BeneficiaryCount b, RawScore = RawScore b\<rparr>"

definition poke ::
    "(HeightDetachedActivityBucket \<Rightarrow> HeightDetachedActivityBucket) \<Rightarrow> AccountActivityBuckets \<Rightarrow> AccountActivityBuckets" where
  "poke consumer s =
     s\<lparr>m_pArray := map_option (\<lambda>array.
         array[0 := (let c = consumer (detached (array ! 0))
                     in (array ! 0)\<lparr>TotalFeesPaid := TotalFeesPaid c,
                          BeneficiaryCount := BeneficiaryCount c, RawScore := RawScore c\<rparr>)]) (m_pArray s)\<rparr>"

definition tryUpdate ::
    "u64 \<Rightarrow> (HeightDetachedActivityBucket \<Rightarrow> HeightDetachedActivityBucket) \<Rightarrow> bool \<Rightarrow>
     AccountActivityBuckets \<Rightarrow> (bool \<times> AccountActivityBuckets) result" where
  "tryUpdate height consumer shouldCreateNewBucket s =
     (let lastHeight = StartHeight (bucket_values s ! 0)
      in if 0 \<noteq> lastHeight \<and> lastHeight > height then Inl runtime_error
         else if lastHeight < height \<and> \<not> shouldCreateNewBucket then Inr (False, s)
         else
           let s1 = (if lastHeight < height
                     then push Activity_Bucket_History_Size default_bucket (default_bucket\<lparr>StartHeight := height\<rparr>) s
                     else s)
           in bind_result (peek s1) (\<lambda>_. Inr (True, poke consumer s1)))"

definition buckets_update ::
    "u64 \<Rightarrow> (HeightDetachedActivityBucket \<Rightarrow> HeightDetachedActivityBucket) \<Rightarrow>
     AccountActivityBuckets \<Rightarrow> AccountActivityBuckets result" where
  "buckets_update height consumer s =
     bind_result (tryUpdate height consumer True s) (\<lambda>(_, s'). Inr s')"

definition buckets_empty :: "AccountActivityBuckets \<Rightarrow> bool" where
  "buckets_empty s \<longleftrightarrow> list_all (\<lambda>b. 0 = StartHeight b) (bucket_values s)"

definition buckets_push :: "AccountActivityBuckets \<Rightarrow> AccountActivityBuckets" where
  "buckets_push s = push Activity_Bucket_History_Size default_bucket default_bucket s"

definition buckets_pop :: "AccountActivityBuckets \<Rightarrow> AccountActivityBuckets result" where
  "buckets_pop s = pop default_bucket s"

interpretation buckets: history Activity_Bucket_History_Size default_bucket buckets_ok bucket_values m_size
    "push Activity_Bucket_History_Size default_bucket" "pop default_bucket"
  by (rule history_stack) simp

section \<open>Properties\<close>

text \<open>
  an importance can be set exactly when its height exceeds the last one (or none is set); it
  becomes the current importance and the importance at that height, and the pop that rolls the
  block back restores all snapshots but the oldest, and that one too unless the history was full.
\<close>

theorem snapshots_set_pop:
  assumes "snapshots_ok s"
  shows "if snapshots_active s \<and> height \<le> snapshots_height s
    then snapshots_set importance height s = Inl runtime_error
    else \<exists>s1 s2. snapshots_set importance height s = Inr s1 \<and> snapshots_ok s1 \<and>
      snapshots_current s1 = importance \<and> snapshots_height s1 = height \<and> snapshots_get s1 height = importance \<and>
      snapshots_pop s1 = Inr s2 \<and> snapshots_ok s2 \<and>
      snapshot_values s2 = butlast (snapshot_values s) @ [default_snapshot] \<and>
      (m_size s < Importance_History_Size \<longrightarrow> snapshot_values s2 = snapshot_values s)"
proof (cases "snapshots_active s \<and> height \<le> snapshots_height s")
  case True
  then show ?thesis by (simp add: snapshots_set_def snapshots_active_def Let_def)
next
  case False
  let ?b = "\<lparr>snapshot_Importance = importance, snapshot_Height = height\<rparr>"
  let ?s1 = "push Importance_History_Size default_snapshot ?b s"
  have "snapshots_set importance height s = Inr ?s1"
    using False by (auto simp: snapshots_set_def snapshots_active_def Let_def)
  moreover note snapshots.push_values [OF assms, of ?b]
  moreover obtain s2 where "pop default_snapshot ?s1 = Inr s2" "snapshots_ok s2"
      "snapshot_values s2 = butlast (snapshot_values s) @ [default_snapshot]"
      "m_size s < Importance_History_Size \<longrightarrow> snapshot_values s2 = snapshot_values s"
    using snapshots.pop_push [OF assms, of ?b] by blast
  ultimately show ?thesis
    using False by (auto simp: snapshots_current_def snapshots_height_def snapshots_get_def snapshots_pop_def)
qed

definition sample_snapshots :: AccountImportanceSnapshots where
  "sample_snapshots = \<lparr>m_pArray = Some [\<lparr>snapshot_Importance = 5, snapshot_Height = 100\<rparr>,
     default_snapshot, default_snapshot], m_size = 1\<rparr>"

lemma sample_snapshots_ok: "snapshots_ok sample_snapshots"
  by (auto simp: sample_snapshots_def stack_ok_def nth_Cons')

theorem snapshots_set_pop_witness:
  "\<exists>s1 s2. snapshots_set 9 200 sample_snapshots = Inr s1 \<and> snapshots_get s1 200 = 9 \<and>
     snapshots_pop s1 = Inr s2 \<and> snapshot_values s2 = snapshot_values sample_snapshots"
proof -
  have "\<not> (snapshots_active sample_snapshots \<and> 200 \<le> snapshots_height sample_snapshots)" by code_simp
  moreover have "m_size sample_snapshots < Importance_History_Size" by code_simp
  ultimately show ?thesis
    using snapshots_set_pop [OF sample_snapshots_ok, of 200 9] by auto
qed

lemma peek_front:
  "stack_ok N d s \<Longrightarrow> 0 < N \<Longrightarrow> peek s = (if m_size s = 0 then Inl out_of_range else Inr (stack_values N d s ! 0))"
  by (auto simp: peek_def stack_ok_def stack_values_def split: option.splits)

lemma poke_values:
  assumes "buckets_ok s" and "0 < m_size s"
  shows "buckets_ok (poke consumer s) \<and> bucket_values (poke consumer s) =
    (bucket_values s)[0 := (let c = consumer (detached (bucket_values s ! 0))
      in (bucket_values s ! 0)\<lparr>TotalFeesPaid := TotalFeesPaid c, BeneficiaryCount := BeneficiaryCount c,
           RawScore := RawScore c\<rparr>)]"
  using assms by (auto simp: poke_def stack_ok_def stack_values_def nth_list_update Let_def split: option.splits)

lemma front_empty: "buckets_ok s \<Longrightarrow> m_size s = 0 \<Longrightarrow> StartHeight (bucket_values s ! 0) = 0"
  by (auto simp: stack_ok_def stack_values_def default_bucket_def split: option.splits)

text \<open>
  updating the activity at a positive height fails exactly when a newer bucket exists;
  otherwise the bucket at that height is created on demand, the consumer is applied to it and to
  no other bucket, and at most the oldest bucket is dropped.
\<close>

theorem buckets_update_correct:
  assumes "buckets_ok s" and "0 < height"
  shows "if StartHeight (bucket_values s ! 0) > height
    then buckets_update height consumer s = Inl runtime_error
    else \<exists>s'. buckets_update height consumer s = Inr s' \<and> buckets_ok s' \<and>
      (let rest = (if StartHeight (bucket_values s ! 0) = height then tl (bucket_values s) else butlast (bucket_values s));
           old = (if StartHeight (bucket_values s ! 0) = height then bucket_values s ! 0
                  else default_bucket\<lparr>StartHeight := height\<rparr>);
           c = consumer (detached old)
       in bucket_values s' = old\<lparr>TotalFeesPaid := TotalFeesPaid c, BeneficiaryCount := BeneficiaryCount c,
            RawScore := RawScore c\<rparr> # rest)"
proof -
  let ?last = "StartHeight (bucket_values s ! 0)"
  have ne: "bucket_values s \<noteq> []" using stack_values_length [OF assms(1)] by auto
  consider "?last > height" | "?last = height" | "?last < height" by fastforce
  then show ?thesis
  proof cases
    case 1
    then show ?thesis using assms(2) by (auto simp: buckets_update_def tryUpdate_def Let_def)
  next
    case 2
    then have size: "0 < m_size s" using front_empty [OF assms(1)] assms(2) by (cases "m_size s = 0") auto
    have "(bucket_values s)[0 := x] = x # tl (bucket_values s)" for x using ne by (cases "bucket_values s") auto
    then show ?thesis
      using 2 size peek_front [OF assms(1)] poke_values [OF assms(1) size, of consumer]
      by (auto simp: buckets_update_def tryUpdate_def Let_def)
  next
    case 3
    let ?new = "default_bucket\<lparr>StartHeight := height\<rparr>"
    let ?s1 = "push Activity_Bucket_History_Size default_bucket ?new s"
    note p = buckets.push_values [OF assms(1), of ?new]
    then have size: "0 < m_size ?s1" by simp
    show ?thesis
      using 3 p size peek_front [of Activity_Bucket_History_Size default_bucket ?s1]
        poke_values [of ?s1 consumer]
      by (auto simp: buckets_update_def tryUpdate_def Let_def)
  qed
qed

theorem buckets_update_correct_witness:
  "\<exists>s'. buckets_update 10 (\<lambda>b. b\<lparr>BeneficiaryCount := 3\<rparr>) empty_stack = Inr s' \<and>
     BeneficiaryCount (bucket_values s' ! 0) = 3"
proof -
  have "\<not> StartHeight (bucket_values empty_stack ! 0) > 10" by code_simp
  moreover have "(0 :: u64) < 10" by simp
  ultimately show ?thesis
    using buckets_update_correct [OF stack_ok_empty(1), of 10 "\<lambda>b. b\<lparr>BeneficiaryCount := 3\<rparr>"]
    by (auto simp: Let_def)
qed

text \<open>
  copy-assigning an empty stack to a non-empty one does not empty it: iteration still yields
  every old value, while the size is zero and the representation invariant is broken.
\<close>

theorem stack_copy_assign_keeps_stale_values:
  assumes "stack_ok N d dst" and "0 < m_size dst"
  shows "stack_values N d (stack_copy_assign dst empty_stack) = stack_values N d dst \<and>
    m_size (stack_copy_assign dst empty_stack) = 0 \<and> \<not> stack_ok N d (stack_copy_assign dst empty_stack)"
  using assms by (auto simp: stack_copy_assign_def empty_stack_def stack_values_def stack_ok_def split: option.splits)

theorem stack_copy_assign_keeps_stale_values_witness:
  "stack_values 3 default_snapshot (stack_copy_assign sample_snapshots empty_stack) ! 0 \<noteq> default_snapshot"
proof -
  have "stack_values 3 default_snapshot sample_snapshots ! 0 \<noteq> default_snapshot" by code_simp
  moreover have "0 < m_size sample_snapshots" by code_simp
  ultimately show ?thesis
    using stack_copy_assign_keeps_stale_values [OF sample_snapshots_ok] by simp
qed

end
