(* ===== verification/Namespaces.thy ===== *)
theory Namespaces
  imports Prelude
begin

text \<open>
  The namespace state of \<^verbatim>\<open>plugins/txes/namespace/src/state\<close>: namespaces and their paths, lifetimes,
  aliases, root namespaces and root namespace histories.

  Consecutive root namespaces of one owner share their children through a \<^verbatim>\<open>std::shared_ptr\<close>, so that
  a child added to the active root is also a child of the earlier ones. The model keeps this
  aliasing: a history has a store of children containers, and a root holds the address of its own.
  \<open>history_ok\<close> says that two roots share their children exactly when all roots between them extend
  each other; under it, an addition changes exactly the last \<open>activeOwnerHistoryDepth\<close> roots, and
  the copy constructor, which rebuilds the sharing, is faithful.
\<close>

section \<open>Namespaces and lifetimes\<close>

type_synonym NamespaceId = u64
type_synonym Path = "NamespaceId list"

abbreviation (input) Namespace_Base_Id :: NamespaceId where
  "Namespace_Base_Id \<equiv> 0"

record Namespace =
  m_path :: Path

definition make_Namespace :: "Path \<Rightarrow> Namespace result" where
  "make_Namespace path = (if path = [] then Inl out_of_range else Inr \<lparr>m_path = path\<rparr>)"

definition ns_id :: "Namespace \<Rightarrow> NamespaceId" where
  "ns_id ns = m_path ns ! (length (m_path ns) - 1)"

definition parentId :: "Namespace \<Rightarrow> NamespaceId" where
  "parentId ns =
     (if 1 = length (m_path ns) then Namespace_Base_Id else m_path ns ! (length (m_path ns) - 2))"

definition rootId :: "Namespace \<Rightarrow> NamespaceId" where
  "rootId ns = m_path ns ! 0"

definition isRoot :: "Namespace \<Rightarrow> bool" where
  "isRoot ns = (1 = length (m_path ns))"

definition createChild :: "Namespace \<Rightarrow> NamespaceId \<Rightarrow> Namespace result" where
  "createChild ns i = make_Namespace (m_path ns @ [i])"

record NamespaceLifetime =
  Start :: Height
  End :: Height

abbreviation max_Height :: Height where
  "max_Height \<equiv> - 1"

definition make_NamespaceLifetime :: "Height \<Rightarrow> Height \<Rightarrow> BlockDuration \<Rightarrow> NamespaceLifetime result" where
  "make_NamespaceLifetime start e gracePeriodDuration =
     (if start \<ge> e then Inl invalid_argument
      else
        let e' = (if e \<noteq> max_Height then e + gracePeriodDuration else e) in
        if e' < e then Inl invalid_argument else Inr \<lparr>Start = start, End = e'\<rparr>)"

definition lifetime_isActive :: "NamespaceLifetime \<Rightarrow> Height \<Rightarrow> bool" where
  "lifetime_isActive l height = (height \<ge> Start l \<and> height < End l)"

definition isActiveExcludingGracePeriod :: "NamespaceLifetime \<Rightarrow> Height \<Rightarrow> BlockDuration \<Rightarrow> bool result" where
  "isActiveExcludingGracePeriod l height gracePeriodDuration =
     (if gracePeriodDuration \<ge> End l - Start l then Inl invalid_argument
      else Inr (height \<ge> Start l \<and> height < End l - gracePeriodDuration))"

text \<open>\<^verbatim>\<open>NamespaceAlias\<close> is a union tagged with \<^verbatim>\<open>AliasType\<close>.\<close>

datatype AliasType = AliasType_None | AliasType_Mosaic | AliasType_Address

datatype NamespaceAlias = NoAlias | MosaicAlias MosaicId | AddressAlias Address

fun alias_type :: "NamespaceAlias \<Rightarrow> AliasType" where
  "alias_type NoAlias = AliasType_None"
| "alias_type (MosaicAlias _) = AliasType_Mosaic"
| "alias_type (AddressAlias _) = AliasType_Address"

fun alias_mosaicId :: "NamespaceAlias \<Rightarrow> MosaicId result" where
  "alias_mosaicId (MosaicAlias i) = Inr i"
| "alias_mosaicId _ = Inl runtime_error"

fun alias_address :: "NamespaceAlias \<Rightarrow> Address result" where
  "alias_address (AddressAlias a) = Inr a"
| "alias_address _ = Inl runtime_error"

section \<open>Root namespaces\<close>

record ChildNamespaceData =
  c_Path :: Path
  c_Alias :: NamespaceAlias

type_synonym Children = "(NamespaceId, ChildNamespaceData) omap"

text \<open>The children containers that \<^verbatim>\<open>shared_ptr\<close>s of a history point to, by address.\<close>

type_synonym store = "Children list"

definition deref :: "store \<Rightarrow> nat \<Rightarrow> Children" where
  "deref st p = (if p < length st then st ! p else [])"

record RootNamespace =
  m_id :: NamespaceId
  m_alias :: NamespaceAlias
  m_ownerAddress :: Address
  m_lifetime :: NamespaceLifetime
  m_pChildren :: nat

definition make_RootNamespace :: "NamespaceId \<Rightarrow> Address \<Rightarrow> NamespaceLifetime \<Rightarrow> nat \<Rightarrow> RootNamespace" where
  "make_RootNamespace i ownerAddress lifetime pChildren =
     \<lparr>m_id = i, m_alias = NoAlias, m_ownerAddress = ownerAddress, m_lifetime = lifetime,
      m_pChildren = pChildren\<rparr>"

definition root_children :: "store \<Rightarrow> RootNamespace \<Rightarrow> Children" where
  "root_children st r = deref st (m_pChildren r)"

definition root_empty :: "store \<Rightarrow> RootNamespace \<Rightarrow> bool" where
  "root_empty st r = (root_children st r = [])"

definition root_size :: "store \<Rightarrow> RootNamespace \<Rightarrow> nat" where
  "root_size st r = length (root_children st r)"

definition root_child :: "store \<Rightarrow> RootNamespace \<Rightarrow> NamespaceId \<Rightarrow> Namespace result" where
  "root_child st r i =
     (case map_of (root_children st r) i of
        None \<Rightarrow> Inl invalid_argument
      | Some data \<Rightarrow> make_Namespace (c_Path data))"

definition root_alias :: "store \<Rightarrow> RootNamespace \<Rightarrow> NamespaceId \<Rightarrow> NamespaceAlias result" where
  "root_alias st r i =
     (if m_id r = i then Inr (m_alias r)
      else case map_of (root_children st r) i of
          None \<Rightarrow> Inl invalid_argument
        | Some data \<Rightarrow> Inr (c_Alias data))"

definition root_add :: "store \<Rightarrow> RootNamespace \<Rightarrow> Namespace \<Rightarrow> store result" where
  "root_add st r ns =
     (let children = root_children st r in
      if map_of children (ns_id ns) \<noteq> None then Inl invalid_argument
      else if m_id r \<noteq> parentId ns \<and> map_of children (parentId ns) = None then Inl invalid_argument
      else if m_id r \<noteq> parentId ns
        \<and> length (c_Path (the (map_of children (parentId ns)))) \<noteq> length (m_path ns) - 1
        then Inl invalid_argument
      else if m_id r \<noteq> rootId ns then Inl invalid_argument
      else Inr (st[m_pChildren r :=
        omap_insert (ns_id ns) \<lparr>c_Path = m_path ns, c_Alias = NoAlias\<rparr> children]))"

definition root_remove :: "store \<Rightarrow> RootNamespace \<Rightarrow> NamespaceId \<Rightarrow> store result" where
  "root_remove st r i =
     (let children = root_children st r in
      case map_of children i of
        None \<Rightarrow> Inl invalid_argument
      | Some data \<Rightarrow>
          let level = length (c_Path data) in
          if list_ex (\<lambda>(_, d). level < length (c_Path d) \<and> i = c_Path d ! (level - 1)) children
          then Inl invalid_argument
          else Inr (st[m_pChildren r := omap_erase i children]))"

definition root_setAlias ::
  "store \<Rightarrow> RootNamespace \<Rightarrow> NamespaceId \<Rightarrow> NamespaceAlias \<Rightarrow> (store \<times> RootNamespace) result" where
  "root_setAlias st r i alias =
     (if m_id r = i then Inr (st, r\<lparr>m_alias := alias\<rparr>)
      else case map_of (root_children st r) i of
          None \<Rightarrow> Inl invalid_argument
        | Some data \<Rightarrow>
            Inr (st[m_pChildren r := omap_put i (data\<lparr>c_Alias := alias\<rparr>) (root_children st r)], r))"

definition root_eq :: "RootNamespace \<Rightarrow> RootNamespace \<Rightarrow> bool" where
  "root_eq r rhs = (m_id r = m_id rhs \<and> m_ownerAddress r = m_ownerAddress rhs)"

definition canExtend :: "RootNamespace \<Rightarrow> RootNamespace \<Rightarrow> bool" where
  "canExtend r previous =
     (m_id r = m_id previous \<and> m_ownerAddress r = m_ownerAddress previous
      \<and> lifetime_isActive (m_lifetime previous) (Start (m_lifetime r)))"

definition renew :: "RootNamespace \<Rightarrow> NamespaceLifetime \<Rightarrow> RootNamespace" where
  "renew r newLifetime = make_RootNamespace (m_id r) (m_ownerAddress r) newLifetime (m_pChildren r)"

definition sortedChildPaths :: "store \<Rightarrow> RootNamespace \<Rightarrow> Path oset" where
  "sortedChildPaths st r = foldl (\<lambda>paths (_, d). oset_insert (c_Path d) paths) [] (root_children st r)"

section \<open>Root namespace histories\<close>

record RootNamespaceHistory =
  h_id :: NamespaceId
  h_store :: store
  m_rootHistory :: "RootNamespace list"

definition make_history :: "NamespaceId \<Rightarrow> RootNamespaceHistory" where
  "make_history i = \<lparr>h_id = i, h_store = [], m_rootHistory = []\<rparr>"

text \<open>
  The copy constructor: a new children container is allocated when a root does not extend the
  previous one, otherwise the last one is shared.
\<close>

fun copy_roots ::
  "store \<Rightarrow> RootNamespace option \<Rightarrow> RootNamespace list \<Rightarrow> RootNamespaceHistory \<Rightarrow> RootNamespaceHistory" where
  "copy_roots st pPreviousRoot [] h = h"
| "copy_roots st pPreviousRoot (root # roots) h =
     (let allocate = (case pPreviousRoot of None \<Rightarrow> True | Some previous \<Rightarrow> \<not> canExtend root previous);
          heap = (if allocate then h_store h @ [root_children st root] else h_store h);
          r = (make_RootNamespace (m_id root) (m_ownerAddress root) (m_lifetime root) (length heap - 1))
                \<lparr>m_alias := m_alias root\<rparr>
      in copy_roots st (Some root) roots
           (h\<lparr>h_store := heap, m_rootHistory := m_rootHistory h @ [r]\<rparr>))"

definition copy_history :: "RootNamespaceHistory \<Rightarrow> RootNamespaceHistory" where
  "copy_history history =
     copy_roots (h_store history) None (m_rootHistory history) (make_history (h_id history))"

definition history_empty :: "RootNamespaceHistory \<Rightarrow> bool" where
  "history_empty h = (m_rootHistory h = [])"

definition historyDepth :: "RootNamespaceHistory \<Rightarrow> nat" where
  "historyDepth h = length (m_rootHistory h)"

definition history_back :: "RootNamespaceHistory \<Rightarrow> RootNamespace" where
  "history_back h = last (m_rootHistory h)"

fun depth_loop :: "RootNamespace \<Rightarrow> RootNamespace list \<Rightarrow> nat" where
  "depth_loop pNextRoot [] = 0"
| "depth_loop pNextRoot (r # rs) = (if canExtend pNextRoot r then Suc (depth_loop r rs) else 0)"

definition activeOwnerHistoryDepth :: "RootNamespaceHistory \<Rightarrow> nat" where
  "activeOwnerHistoryDepth h =
     (if m_rootHistory h = [] then 0 else depth_loop (history_back h) (rev (m_rootHistory h)))"

definition numActiveRootChildren :: "RootNamespaceHistory \<Rightarrow> nat" where
  "numActiveRootChildren h = (if m_rootHistory h = [] then 0 else root_size (h_store h) (history_back h))"

definition numAllHistoricalChildren :: "RootNamespaceHistory \<Rightarrow> nat" where
  "numAllHistoricalChildren h = sum_list (map (root_size (h_store h)) (m_rootHistory h))"

definition history_push_back ::
  "Address \<Rightarrow> NamespaceLifetime \<Rightarrow> RootNamespaceHistory \<Rightarrow> RootNamespaceHistory" where
  "history_push_back owner lifetime h =
     (let newRoot = make_RootNamespace (h_id h) owner lifetime (length (h_store h)) in
      if \<not> history_empty h \<and> canExtend newRoot (history_back h) then
        h\<lparr>m_rootHistory := m_rootHistory h @ [(renew (history_back h) lifetime)\<lparr>m_alias := m_alias (history_back h)\<rparr>]\<rparr>
      else
        h\<lparr>h_store := h_store h @ [[]], m_rootHistory := m_rootHistory h @ [newRoot]\<rparr>)"

definition history_pop_back :: "RootNamespaceHistory \<Rightarrow> RootNamespaceHistory" where
  "history_pop_back h = h\<lparr>m_rootHistory := butlast (m_rootHistory h)\<rparr>"

definition AddAllIds :: "NamespaceId oset \<Rightarrow> Children \<Rightarrow> NamespaceId oset" where
  "AddAllIds ids children = foldl (\<lambda>ids pair. oset_insert (fst pair) ids) ids children"

definition RemoveAllIds :: "NamespaceId oset \<Rightarrow> Children \<Rightarrow> NamespaceId oset" where
  "RemoveAllIds ids children = foldl (\<lambda>ids pair. oset_erase (fst pair) ids) ids children"

fun prune_roots ::
  "store \<Rightarrow> Height \<Rightarrow> NamespaceId oset \<Rightarrow> RootNamespace list \<Rightarrow> NamespaceId oset \<times> RootNamespace list" where
  "prune_roots st height ids [] = (ids, [])"
| "prune_roots st height ids (r # rs) =
     (if End (m_lifetime r) \<le> height
      then prune_roots st height (AddAllIds ids (root_children st r)) rs
      else
        let (ids', rs') = prune_roots st height (RemoveAllIds ids (root_children st r)) rs
        in (ids', r # rs'))"

definition history_prune ::
  "Height \<Rightarrow> RootNamespaceHistory \<Rightarrow> NamespaceId oset \<times> RootNamespaceHistory" where
  "history_prune height h =
     (let (ids, roots) = prune_roots (h_store h) height [] (m_rootHistory h);
          h' = h\<lparr>m_rootHistory := roots\<rparr>
      in (if roots = [] then oset_insert (h_id h) ids else ids, h'))"

definition history_isActive :: "RootNamespaceHistory \<Rightarrow> Height \<Rightarrow> bool" where
  "history_isActive h height =
     (\<not> history_empty h \<and> lifetime_isActive (m_lifetime (history_back h)) height)"

text \<open>The root a caller of the non-const \<^verbatim>\<open>back()\<close> modified in place, with its children.\<close>

definition set_back :: "store \<Rightarrow> RootNamespace \<Rightarrow> RootNamespaceHistory \<Rightarrow> RootNamespaceHistory" where
  "set_back st r h = h\<lparr>h_store := st, m_rootHistory := butlast (m_rootHistory h) @ [r]\<rparr>"


section \<open>Well-formed histories\<close>

text \<open>
  Children of a root: the key of a child is the last identifier of its path, the path starts at the
  root and has at least two levels, and the parent of a child is the root or another child whose
  path is the path of the child without its last identifier.
\<close>

definition child_ok :: "NamespaceId \<Rightarrow> Children \<Rightarrow> NamespaceId \<times> ChildNamespaceData \<Rightarrow> bool" where
  "child_ok i children kd \<longleftrightarrow>
     (let p = c_Path (snd kd) in
      2 \<le> length p \<and> last p = fst kd \<and> hd p = i \<and> fst kd \<noteq> i
      \<and> (2 < length p \<longrightarrow>
           (\<exists>d. map_of children (last (butlast p)) = Some d \<and> c_Path d = butlast p)))"

definition children_ok :: "NamespaceId \<Rightarrow> Children \<Rightarrow> bool" where
  "children_ok i children \<longleftrightarrow> omap_ok children \<and> (\<forall>kd \<in> set children. child_ok i children kd)"

text \<open>Adjacent roots share their children exactly when the later one extends the earlier one.\<close>

definition shares :: "RootNamespace \<Rightarrow> RootNamespace \<Rightarrow> bool" where
  "shares r r' \<longleftrightarrow>
     (if canExtend r' r then m_pChildren r' = m_pChildren r else m_pChildren r < m_pChildren r')"

definition root_ok :: "RootNamespaceHistory \<Rightarrow> RootNamespace \<Rightarrow> bool" where
  "root_ok h r \<longleftrightarrow>
     m_id r = h_id h \<and> Start (m_lifetime r) < End (m_lifetime r) \<and> m_pChildren r < length (h_store h)
     \<and> children_ok (h_id h) (root_children (h_store h) r)"

definition history_ok :: "RootNamespaceHistory \<Rightarrow> bool" where
  "history_ok h \<longleftrightarrow>
     (\<forall>r \<in> set (m_rootHistory h). root_ok h r) \<and> successively shares (m_rootHistory h)"

text \<open>What a history shows: its roots with the children each of them refers to.\<close>

type_synonym root_view = "NamespaceId \<times> Address \<times> NamespaceLifetime \<times> NamespaceAlias \<times> Children"

definition root_view :: "store \<Rightarrow> RootNamespace \<Rightarrow> root_view" where
  "root_view st r = (m_id r, m_ownerAddress r, m_lifetime r, m_alias r, root_children st r)"

definition history_view :: "RootNamespaceHistory \<Rightarrow> root_view list" where
  "history_view h = map (root_view (h_store h)) (m_rootHistory h)"

lemma children_ok_Nil [simp]: "children_ok i []"
  by (simp add: children_ok_def)

lemma history_ok_Nil [simp]: "m_rootHistory h = [] \<Longrightarrow> history_ok h"
  by (simp add: history_ok_def)

lemma root_children_append [simp]:
  "m_pChildren r < length st \<Longrightarrow> root_children (st @ xs) r = root_children st r"
  by (simp add: root_children_def deref_def nth_append)

lemma root_view_append [simp]: "m_pChildren r < length st \<Longrightarrow> root_view (st @ xs) r = root_view st r"
  by (simp add: root_view_def)

lemma back_ok: "history_ok h \<Longrightarrow> m_rootHistory h \<noteq> [] \<Longrightarrow> root_ok h (history_back h)"
  by (simp add: history_ok_def history_back_def)

lemma shares_le: "shares r r' \<Longrightarrow> m_pChildren r \<le> m_pChildren r'"
  by (auto simp: shares_def split: if_splits)

lemma pointers_sorted: "successively shares rs \<Longrightarrow> sorted (map m_pChildren rs)"
proof (induction rs rule: induct_list012)
  case (3 x y zs)
  then show ?case using shares_le [of x y] by auto
qed simp_all

lemma canExtend_self: "root_ok h r \<Longrightarrow> canExtend r r"
  by (simp add: canExtend_def lifetime_isActive_def root_ok_def)

lemma canExtend_make: "canExtend (make_RootNamespace i o' l p) r \<longleftrightarrow>
   i = m_id r \<and> o' = m_ownerAddress r \<and> lifetime_isActive (m_lifetime r) (Start l)"
  by (simp add: canExtend_def make_RootNamespace_def)

section \<open>Pushing and popping roots\<close>

lemma history_push_back_ok [inv_intros]:
  assumes "history_ok h" and "Start l < End l"
  shows "history_ok (history_push_back owner l h)"
proof (cases "m_rootHistory h = []")
  case True
  then show ?thesis using assms(2)
    by (simp add: history_push_back_def history_ok_def history_empty_def root_ok_def
        make_RootNamespace_def root_children_def deref_def)
next
  case False
  note b = back_ok [OF assms(1) False]
  show ?thesis
  proof (cases "canExtend (make_RootNamespace (h_id h) owner l (length (h_store h))) (history_back h)")
    case True
    define r where "r = (renew (history_back h) l)\<lparr>m_alias := m_alias (history_back h)\<rparr>"
    have p: "history_push_back owner l h = h\<lparr>m_rootHistory := m_rootHistory h @ [r]\<rparr>"
      using True False by (simp add: history_push_back_def history_empty_def r_def)
    have r: "root_ok h r"
      using b assms(2) by (simp add: root_ok_def r_def renew_def make_RootNamespace_def root_children_def)
    have "shares (history_back h) r"
      using True by (simp add: shares_def canExtend_def r_def renew_def make_RootNamespace_def)
    with r show ?thesis
      using assms(1) False by (auto simp: p history_ok_def successively_append_iff history_back_def root_ok_def)
  next
    case ext: False
    then have "history_push_back owner l h =
        h\<lparr>h_store := h_store h @ [[]],
          m_rootHistory := m_rootHistory h @ [make_RootNamespace (h_id h) owner l (length (h_store h))]\<rparr>"
      using False by (simp add: history_push_back_def history_empty_def)
    with ext False b assms show ?thesis
      by (auto simp: history_ok_def root_ok_def make_RootNamespace_def root_children_def
          successively_append_iff shares_def history_back_def deref_def nth_append)
  qed
qed

definition extends_back :: "Address \<Rightarrow> NamespaceLifetime \<Rightarrow> RootNamespaceHistory \<Rightarrow> bool" where
  "extends_back owner l h \<longleftrightarrow>
     m_rootHistory h \<noteq> [] \<and> m_ownerAddress (history_back h) = owner
     \<and> lifetime_isActive (m_lifetime (history_back h)) (Start l)"

lemma history_push_back_view [abs_simps]:
  assumes "history_ok h"
  shows "history_view (history_push_back owner l h) = history_view h @
    [(h_id h, owner, l,
      if extends_back owner l h then (m_alias (history_back h), root_children (h_store h) (history_back h))
      else (NoAlias, []))]"
proof (cases "m_rootHistory h = []")
  case True
  then show ?thesis
    by (simp add: history_push_back_def history_empty_def history_view_def extends_back_def root_view_def
        make_RootNamespace_def root_children_def deref_def)
next
  case False
  have p: "m_pChildren r < length (h_store h)" if "r \<in> set (m_rootHistory h)" for r
    using assms that by (simp add: history_ok_def root_ok_def)
  show ?thesis using False p back_ok [OF assms False]
    by (auto simp: history_push_back_def history_empty_def history_view_def extends_back_def root_view_def
        renew_def canExtend_make root_ok_def history_back_def)
      (auto simp: make_RootNamespace_def root_children_def deref_def)
qed

lemma history_pop_back_ok [inv_intros]: "history_ok h \<Longrightarrow> history_ok (history_pop_back h)"
proof -
  assume h: "history_ok h"
  have "successively shares (butlast (m_rootHistory h))"
    using h by (cases "m_rootHistory h" rule: rev_cases)
      (auto simp: history_ok_def successively_append_iff)
  with h show ?thesis
    by (auto simp: history_ok_def history_pop_back_def root_ok_def dest: in_set_butlastD)
qed

lemma history_pop_back_view [abs_simps]: "history_view (history_pop_back h) = butlast (history_view h)"
  by (simp add: history_view_def history_pop_back_def map_butlast)

section \<open>Modifying the active root\<close>

text \<open>
  The roots whose children a modification of the active root changes are exactly the last
  \<open>activeOwnerHistoryDepth\<close> ones.
\<close>

lemma depth_loop_shared:
  assumes "successively (\<lambda>r r'. shares r' r) (next # rs)"
  shows "map (\<lambda>r. m_pChildren r = m_pChildren next) rs =
    replicate (depth_loop next rs) True @ replicate (length rs - depth_loop next rs) False"
  using assms
proof (induction rs arbitrary: "next")
  case (Cons r rs)
  from Cons.prems have rs: "successively (\<lambda>r r'. shares r' r) (r # rs)" and rn: "shares r next"
    by simp_all
  show ?case
  proof (cases "canExtend next r")
    case True
    then have "m_pChildren next = m_pChildren r" using rn by (simp add: shares_def)
    with True Cons.IH [OF rs] show ?thesis by simp
  next
    case False
    then have lt: "m_pChildren r < m_pChildren next" using rn by (simp add: shares_def)
    have "sorted (map m_pChildren (rev (r # rs)))"
      using rs by (intro pointers_sorted) (simp only: successively_rev)
    then have "\<forall>x \<in> set rs. m_pChildren x \<le> m_pChildren r"
      by (auto simp: sorted_append)
    with lt False show ?thesis
      by (auto simp: replicate_length_same map_replicate_const intro!: map_idI nth_equalityI)
        (metis leD nth_mem)
  qed
qed simp


lemma activeOwnerHistoryDepth_shared:
  assumes "history_ok h" and "m_rootHistory h \<noteq> []"
  shows "map (\<lambda>r. m_pChildren r = m_pChildren (history_back h)) (m_rootHistory h) =
      replicate (historyDepth h - activeOwnerHistoryDepth h) False
      @ replicate (activeOwnerHistoryDepth h) True"
    and "0 < activeOwnerHistoryDepth h" and "activeOwnerHistoryDepth h \<le> historyDepth h"
proof -
  obtain rs where rs: "m_rootHistory h = rs @ [history_back h]"
    using assms(2) by (metis append_butlast_last_id history_back_def)
  let ?b = "history_back h"
  have depth: "activeOwnerHistoryDepth h = Suc (depth_loop ?b (rev rs))"
    using canExtend_self [OF back_ok [OF assms]] rs by (simp add: activeOwnerHistoryDepth_def)
  have "successively (\<lambda>r r'. shares r' r) (rev (rs @ [?b]))"
    using assms(1) rs by (simp only: successively_rev history_ok_def)
  then have m: "map (\<lambda>r. m_pChildren r = m_pChildren ?b) (rev rs) =
      replicate (depth_loop ?b (rev rs)) True
      @ replicate (length (rev rs) - depth_loop ?b (rev rs)) False"
    by (intro depth_loop_shared) simp
  have le: "depth_loop ?b (rev rs) \<le> length rs"
    using arg_cong [OF m, of length] by simp
  have "map (\<lambda>r. m_pChildren r = m_pChildren ?b) rs =
      rev (map (\<lambda>r. m_pChildren r = m_pChildren ?b) (rev rs))"
    by (simp add: rev_map)
  also have "\<dots> = replicate (length rs - depth_loop ?b (rev rs)) False
      @ replicate (depth_loop ?b (rev rs)) True"
    by (simp add: m)
  finally show "map (\<lambda>r. m_pChildren r = m_pChildren ?b) (m_rootHistory h) =
      replicate (historyDepth h - activeOwnerHistoryDepth h) False
      @ replicate (activeOwnerHistoryDepth h) True"
    using arg_cong [OF rs, of length] arg_cong [OF rs, of "map (\<lambda>r. m_pChildren r = m_pChildren ?b)"]
    by (simp add: depth historyDepth_def replicate_append_same)
  show "0 < activeOwnerHistoryDepth h" by (simp add: depth)
  show "activeOwnerHistoryDepth h \<le> historyDepth h"
    using le arg_cong [OF rs, of length] by (simp add: depth historyDepth_def)
qed

definition with_children :: "Children \<Rightarrow> root_view \<Rightarrow> root_view" where
  "with_children ch v = (case v of (i, o', l, a, _) \<Rightarrow> (i, o', l, a, ch))"

text \<open>The last \<open>k\<close> elements of a list changed by a function.\<close>

definition map_last :: "nat \<Rightarrow> ('a \<Rightarrow> 'a) \<Rightarrow> 'a list \<Rightarrow> 'a list" where
  "map_last k f xs = take (length xs - k) xs @ map f (drop (length xs - k) xs)"

lemma map_if_flags:
  assumes "map P xs = replicate (length xs - k) False @ replicate k True" and "k \<le> length xs"
  shows "map (\<lambda>x. if P x then f (g x) else g x) xs = map_last k f (map g xs)"
proof -
  let ?n = "length xs - k"
  have "map P (take ?n xs) = replicate ?n False" "map P (drop ?n xs) = replicate k True"
    using assms by (simp_all flip: take_map drop_map)
  then have "\<forall>x \<in> set (take ?n xs). \<not> P x" "\<forall>x \<in> set (drop ?n xs). P x"
    by (metis (full_types) in_set_replicate list.set_map image_eqI)+
  then have "map (\<lambda>x. if P x then f (g x) else g x) (take ?n xs) = map g (take ?n xs)"
    "map (\<lambda>x. if P x then f (g x) else g x) (drop ?n xs) = map f (map g (drop ?n xs))"
    by (auto intro: map_cong)
  then show ?thesis
    unfolding map_last_def by (metis append_take_drop_id drop_map length_map map_append take_map)
qed

lemma root_children_update:
  "m_pChildren r < length st \<Longrightarrow>
   root_children (st[p := ch]) r = (if m_pChildren r = p then ch else root_children st r)"
  by (simp add: root_children_def deref_def)

definition modify_children :: "Children \<Rightarrow> RootNamespaceHistory \<Rightarrow> RootNamespaceHistory" where
  "modify_children ch h = h\<lparr>h_store := (h_store h)[m_pChildren (history_back h) := ch]\<rparr>"

lemma set_back_id: "m_rootHistory h \<noteq> [] \<Longrightarrow> set_back st (history_back h) h = h\<lparr>h_store := st\<rparr>"
  by (simp add: set_back_def history_back_def)

lemma modify_children_simps [simp]:
  "m_rootHistory (modify_children ch h) = m_rootHistory h"
  "h_id (modify_children ch h) = h_id h"
  "history_back (modify_children ch h) = history_back h"
  "historyDepth (modify_children ch h) = historyDepth h"
  "activeOwnerHistoryDepth (modify_children ch h) = activeOwnerHistoryDepth h"
  by (simp_all add: modify_children_def history_back_def activeOwnerHistoryDepth_def historyDepth_def)

lemma modify_children_ok [inv_intros]:
  assumes "history_ok h" and "children_ok (h_id h) ch"
  shows "history_ok (modify_children ch h)"
  using assms
  by (auto simp: history_ok_def root_ok_def modify_children_def root_children_update)

lemma modify_children_view [abs_simps]:
  assumes "history_ok h" and "m_rootHistory h \<noteq> []"
  shows "history_view (modify_children ch h) =
    map_last (activeOwnerHistoryDepth h) (with_children ch) (history_view h)"
proof -
  let ?p = "m_pChildren (history_back h)"
  have "history_view (modify_children ch h) =
      map (\<lambda>r. if m_pChildren r = ?p then with_children ch (root_view (h_store h) r)
               else root_view (h_store h) r) (m_rootHistory h)"
    using assms(1) by (auto simp: history_view_def history_ok_def root_ok_def modify_children_def
        root_view_def with_children_def root_children_update)
  then show ?thesis
    using map_if_flags [OF activeOwnerHistoryDepth_shared(1) [OF assms, unfolded historyDepth_def]
        activeOwnerHistoryDepth_shared(3) [OF assms, unfolded historyDepth_def],
        of "with_children ch" "root_view (h_store h)"]
    by (simp add: history_view_def)
qed

section \<open>Children of a root\<close>

lemma ns_id_last: "m_path ns \<noteq> [] \<Longrightarrow> ns_id ns = last (m_path ns)"
  by (simp add: ns_id_def last_conv_nth)

lemma rootId_hd: "m_path ns \<noteq> [] \<Longrightarrow> rootId ns = hd (m_path ns)"
  by (simp add: rootId_def hd_conv_nth)

lemma last_butlast: "2 \<le> length xs \<Longrightarrow> last (butlast xs) = xs ! (length xs - 2)"
proof -
  assume len: "2 \<le> length xs"
  then have "butlast xs \<noteq> []" by (cases xs) auto
  then show ?thesis using len by (simp add: last_conv_nth nth_butlast numeral_2_eq_2)
qed

lemma parentId_last: "2 \<le> length (m_path ns) \<Longrightarrow> parentId ns = last (butlast (m_path ns))"
  by (simp add: parentId_def last_butlast)

lemma children_ok_map_of:
  "children_ok i ch \<Longrightarrow> map_of ch k = Some d \<Longrightarrow> child_ok i ch (k, d)"
  by (auto simp: children_ok_def dest: map_of_SomeD)

text \<open>A path of the right shape whose parent is known.\<close>

definition path_ok :: "NamespaceId \<Rightarrow> Children \<Rightarrow> Path \<Rightarrow> bool" where
  "path_ok i ch p \<longleftrightarrow>
     2 \<le> length p \<and> hd p = i \<and> last p \<noteq> i
     \<and> (2 < length p \<longrightarrow> (\<exists>d. map_of ch (last (butlast p)) = Some d \<and> c_Path d = butlast p))"

lemma child_ok_path: "child_ok i ch (k, d) \<longleftrightarrow> last (c_Path d) = k \<and> path_ok i ch (c_Path d)"
  by (auto simp: child_ok_def path_ok_def Let_def)

lemma path_ok_insert:
  "omap_ok ch \<Longrightarrow> map_of ch k = None \<Longrightarrow> path_ok i ch p \<Longrightarrow> path_ok i (omap_insert k d ch) p"
  by (auto simp: path_ok_def map_of_omap_insert)

lemma children_ok_insert:
  assumes "children_ok i ch" and "map_of ch (last p) = None" and "path_ok i ch p"
  shows "children_ok i (omap_insert (last p) \<lparr>c_Path = p, c_Alias = a\<rparr> ch)"
proof -
  have "last p \<notin> fst ` set ch" using assms(2) by (simp add: map_of_eq_None_iff)
  with assms show ?thesis
    by (auto simp: children_ok_def omap_ok_insert set_omap_insert_absent child_ok_path path_ok_insert)
qed

lemma child_prefix:
  assumes "children_ok i ch" and "map_of ch k = Some d" and "2 \<le> j" and "j < length (c_Path d)"
  shows "map_of ch (c_Path d ! (j - 1)) \<noteq> None"
  using assms
proof (induction "length (c_Path d)" arbitrary: k d)
  case (Suc n)
  then have p: "path_ok i ch (c_Path d)" using children_ok_map_of child_ok_path by blast
  with Suc.prems Suc.hyps obtain d' where d': "map_of ch (last (butlast (c_Path d))) = Some d'"
      "c_Path d' = butlast (c_Path d)"
    by (auto simp: path_ok_def)
  show ?case
  proof (cases "j < n")
    case True
    then show ?thesis
      using Suc.hyps(1) [OF _ Suc.prems(1) d'(1)] Suc.hyps(2) Suc.prems d'(2) by (simp add: nth_butlast)
  next
    case False
    with Suc.prems Suc.hyps(2) have "j = length (c_Path d) - 1" by simp
    then have "c_Path d ! (j - 1) = last (butlast (c_Path d))"
      using Suc.prems(3,4) by (simp add: last_butlast numeral_2_eq_2)
    with d'(1) show ?thesis by simp
  qed
qed simp

lemma root_add_Inr:
  assumes "2 \<le> length p" and "map_of (root_children st r) (last p) = None"
    and "path_ok (m_id r) (root_children st r) p"
  shows "root_add st r \<lparr>m_path = p\<rparr> = Inr (st[m_pChildren r :=
    omap_insert (last p) \<lparr>c_Path = p, c_Alias = NoAlias\<rparr> (root_children st r)])"
proof -
  let ?ns = "\<lparr>m_path = p\<rparr>"
  have i: "ns_id ?ns = last p" "rootId ?ns = m_id r" "parentId ?ns = last (butlast p)"
    using assms ns_id_last [of ?ns] rootId_hd [of ?ns] parentId_last [of ?ns]
    by (fastforce simp: path_ok_def)+
  show ?thesis
  proof (cases "2 < length p")
    case True
    with assms(3) show ?thesis using assms(2) by (auto simp: root_add_def i path_ok_def Let_def)
  next
    case False
    with assms(1) have "length p = 2" by simp
    then have "last (butlast p) = hd p" using last_butlast [of p] by (cases p) auto
    then have "m_id r = parentId ?ns" using assms(3) by (simp add: i path_ok_def)
    with assms(2) show ?thesis by (simp add: root_add_def i(1,2) Let_def)
  qed
qed

lemma omap_erase_insert:
  assumes "omap_ok m" and "map_of m k = None"
  shows "omap_erase k (omap_insert k v m) = m"
proof (rule omap_ext)
  show "map_of (omap_erase k (omap_insert k v m)) = map_of m"
    using assms by (simp add: map_of_omap_erase map_of_omap_insert fun_upd_idem)
qed (use assms in \<open>simp_all add: omap_ok_erase omap_ok_insert\<close>)

text \<open>Removing a child that was just added succeeds and restores the children.\<close>

lemma root_remove_added:
  assumes ch: "root_children st r = omap_insert (last p) \<lparr>c_Path = p, c_Alias = a\<rparr> ch"
    and "children_ok i ch" and "map_of ch (last p) = None" and "path_ok i ch p"
  shows "root_remove st r (last p) = Inr (st[m_pChildren r := ch])"
proof -
  let ?ch = "omap_insert (last p) \<lparr>c_Path = p, c_Alias = a\<rparr> ch"
  have ok: "omap_ok ch" using assms(2) by (simp add: children_ok_def)
  have m: "map_of ?ch (last p) = Some \<lparr>c_Path = p, c_Alias = a\<rparr>"
    using assms(3) ok by (simp add: map_of_omap_insert)
  have set: "set ?ch = insert (last p, \<lparr>c_Path = p, c_Alias = a\<rparr>) (set ch)"
    using assms(3) by (intro set_omap_insert_absent) (simp add: map_of_eq_None_iff)
  have "\<not> (length p < length (c_Path d) \<and> last p = c_Path d ! (length p - 1))"
    if kd: "(k, d) \<in> set ch" for k d
  proof
    assume h: "length p < length (c_Path d) \<and> last p = c_Path d ! (length p - 1)"
    have "map_of ch k = Some d" using kd ok by (simp add: map_of_eq_Some_iff omap_ok_distinct)
    from child_prefix [OF assms(2) this, of "length p"] h assms(3,4) show False
      by (simp add: path_ok_def)
  qed
  then have "\<not> list_ex (\<lambda>(_, d). length p < length (c_Path d) \<and> last p = c_Path d ! (length p - 1)) ?ch"
    by (auto simp: list_ex_iff set)
  then show ?thesis
    using ok assms(3) by (simp add: root_remove_def ch m Let_def omap_erase_insert)
qed

lemma root_remove_children_ok:
  assumes "children_ok i (root_children st r)" and "root_remove st r k = Inr st'"
  shows "children_ok i (omap_erase k (root_children st r))
    \<and> st' = st[m_pChildren r := omap_erase k (root_children st r)]
    \<and> map_of (root_children st r) k \<noteq> None"
proof -
  let ?ch = "root_children st r"
  obtain data where data: "map_of ?ch k = Some data" using assms(2)
    by (auto simp: root_remove_def Let_def split: option.splits)
  with assms(2) have none: "\<not> list_ex (\<lambda>(_, d). length (c_Path data) < length (c_Path d)
        \<and> k = c_Path d ! (length (c_Path data) - 1)) ?ch"
    and st': "st' = st[m_pChildren r := omap_erase k ?ch]"
    by (auto simp: root_remove_def Let_def split: if_splits)
  have "path_ok i (omap_erase k ?ch) (c_Path d)" if "(x, d) \<in> set ?ch" "x \<noteq> k" for x d
  proof -
    have p: "path_ok i ?ch (c_Path d)"
      using that assms(1) by (auto simp: children_ok_def child_ok_path)
    have "last (butlast (c_Path d)) \<noteq> k" if long: "2 < length (c_Path d)"
    proof
      assume k: "last (butlast (c_Path d)) = k"
      with p long data have bl: "c_Path data = butlast (c_Path d)" by (auto simp: path_ok_def)
      then have "k = c_Path d ! (length (c_Path data) - 1)"
        using k long by (simp add: last_butlast numeral_2_eq_2)
      with none \<open>(x, d) \<in> set ?ch\<close> bl long show False by (auto simp: list_ex_iff)
    qed
    with p show ?thesis by (auto simp: path_ok_def map_of_omap_erase)
  qed
  moreover have "last (c_Path d) = x" if "(x, d) \<in> set ?ch" for x d
    using that assms(1) by (auto simp: children_ok_def child_ok_path)
  ultimately have "child_ok i (omap_erase k ?ch) kd" if "kd \<in> set (omap_erase k ?ch)" for kd
    using that by (cases kd) (auto simp: omap_erase_def child_ok_path)
  then have "children_ok i (omap_erase k ?ch)"
    using assms(1) by (simp add: children_ok_def omap_ok_erase)
  with st' data show ?thesis by simp
qed


section \<open>Copying a history\<close>

text \<open>\<open>copied h' r\<close>: the last root that was copied into \<open>h'\<close> is a copy of \<open>r\<close>.\<close>

definition copied :: "RootNamespaceHistory \<Rightarrow> RootNamespaceHistory \<Rightarrow> RootNamespace \<Rightarrow> bool" where
  "copied h h' r \<longleftrightarrow>
     m_rootHistory h' \<noteq> [] \<and> h_id h' = h_id h \<and> m_id (history_back h') = m_id r
     \<and> m_ownerAddress (history_back h') = m_ownerAddress r \<and> m_lifetime (history_back h') = m_lifetime r
     \<and> m_pChildren (history_back h') = length (h_store h') - 1
     \<and> root_children (h_store h') (history_back h') = root_children (h_store h) r"

definition copy_step :: "RootNamespaceHistory \<Rightarrow> bool \<Rightarrow> RootNamespace \<Rightarrow> RootNamespaceHistory \<Rightarrow> RootNamespaceHistory" where
  "copy_step h allocate root h' =
     (let heap = (if allocate then h_store h' @ [root_children (h_store h) root] else h_store h') in
      h'\<lparr>h_store := heap,
         m_rootHistory := m_rootHistory h' @
           [(make_RootNamespace (m_id root) (m_ownerAddress root) (m_lifetime root) (length heap - 1))
              \<lparr>m_alias := m_alias root\<rparr>]\<rparr>)"

lemma copy_roots_step:
  "copy_roots (h_store h) prev (root # roots) h' =
     copy_roots (h_store h) (Some root) roots
       (copy_step h (case prev of None \<Rightarrow> True | Some p \<Rightarrow> \<not> canExtend root p) root h')"
  by (simp add: copy_step_def Let_def split: option.splits)

lemma copy_step_allocate:
  assumes h: "history_ok h'" "h_id h' = h_id h" and r: "root_ok h root"
    and ext: "m_rootHistory h' = [] \<or> copied h h' prev \<and> \<not> canExtend root prev"
  shows "history_ok (copy_step h True root h') \<and> copied h (copy_step h True root h') root
    \<and> history_view (copy_step h True root h') = history_view h' @ [root_view (h_store h) root]"
proof -
  let ?r = "(make_RootNamespace (m_id root) (m_ownerAddress root) (m_lifetime root) (length (h_store h')))
    \<lparr>m_alias := m_alias root\<rparr>"
  have e: "copy_step h True root h' = h'\<lparr>h_store := h_store h' @ [root_children (h_store h) root],
      m_rootHistory := m_rootHistory h' @ [?r]\<rparr>"
    by (simp add: copy_step_def)
  have p: "m_pChildren x < length (h_store h')" if "x \<in> set (m_rootHistory h')" for x
    using h(1) that by (simp add: history_ok_def root_ok_def)
  then have p': "m_pChildren x < Suc (length (h_store h'))" if "x \<in> set (m_rootHistory h')" for x
    using that less_Suc_eq by blast
  have ch: "root_children (h_store h' @ [root_children (h_store h) root]) ?r = root_children (h_store h) root"
    by (simp add: root_children_def deref_def make_RootNamespace_def)
  have "shares (history_back h') ?r" if "m_rootHistory h' \<noteq> []"
  proof -
    have "history_back h' \<in> set (m_rootHistory h')" using that by (simp add: history_back_def)
    moreover have "\<not> canExtend ?r (history_back h')"
      using ext that by (auto simp: copied_def canExtend_def make_RootNamespace_def)
    ultimately show ?thesis using p by (simp add: shares_def make_RootNamespace_def)
  qed
  then have "successively shares (m_rootHistory h' @ [?r])"
    using h(1) by (auto simp: history_ok_def successively_append_iff history_back_def)
  moreover have "root_ok (copy_step h True root h') x" if "x \<in> set (m_rootHistory h' @ [?r])" for x
    using that h r p p' ch by (auto simp: e root_ok_def history_ok_def make_RootNamespace_def)
  moreover have "history_view (copy_step h True root h') = history_view h' @ [root_view (h_store h) root]"
    using p ch by (auto simp: e history_view_def root_view_def) (simp_all add: make_RootNamespace_def)
  ultimately show ?thesis
    using h(2) ch by (auto simp: history_ok_def e copied_def history_back_def)
      (simp_all add: make_RootNamespace_def)
qed

lemma copy_step_share:
  assumes h: "history_ok h'" and r: "root_ok h root" and c: "copied h h' prev"
    and ext: "canExtend root prev" "shares prev root"
  shows "history_ok (copy_step h False root h') \<and> copied h (copy_step h False root h') root
    \<and> history_view (copy_step h False root h') = history_view h' @ [root_view (h_store h) root]"
proof -
  let ?r = "(make_RootNamespace (m_id root) (m_ownerAddress root) (m_lifetime root) (length (h_store h') - 1))
    \<lparr>m_alias := m_alias root\<rparr>"
  have e: "copy_step h False root h' = h'\<lparr>m_rootHistory := m_rootHistory h' @ [?r]\<rparr>"
    by (simp add: copy_step_def)
  have b: "root_ok h' (history_back h')" using h c by (intro back_ok) (auto simp: copied_def)
  have ch: "root_children (h_store h') ?r = root_children (h_store h) root"
    using c ext by (auto simp: copied_def root_children_def make_RootNamespace_def shares_def)
  have "shares (history_back h') ?r"
    using c ext by (auto simp: shares_def copied_def canExtend_def make_RootNamespace_def)
  then have "successively shares (m_rootHistory h' @ [?r])"
    using h c by (auto simp: history_ok_def successively_append_iff history_back_def copied_def)
  moreover have "root_ok (copy_step h False root h') x" if "x \<in> set (m_rootHistory h' @ [?r])" for x
    using that h r c b ch by (auto simp: e root_ok_def history_ok_def make_RootNamespace_def copied_def)
  moreover have "history_view (copy_step h False root h') = history_view h' @ [root_view (h_store h) root]"
    using ch by (auto simp: e history_view_def root_view_def) (simp_all add: make_RootNamespace_def)
  ultimately show ?thesis
    using c ch by (auto simp: history_ok_def e copied_def history_back_def)
      (simp_all add: make_RootNamespace_def)
qed

lemma copy_roots_correct:
  assumes "history_ok h'" "h_id h' = h_id h"
    and "case prev of None \<Rightarrow> m_rootHistory h' = [] | Some p \<Rightarrow> copied h h' p"
    and "\<forall>r \<in> set roots. root_ok h r"
    and "case prev of None \<Rightarrow> successively shares roots | Some p \<Rightarrow> successively shares (p # roots)"
  shows "history_ok (copy_roots (h_store h) prev roots h')
    \<and> h_id (copy_roots (h_store h) prev roots h') = h_id h
    \<and> history_view (copy_roots (h_store h) prev roots h') = history_view h' @ map (root_view (h_store h)) roots"
  using assms
proof (induction roots arbitrary: prev h')
  case (Cons root roots)
  define b where "b = (case prev of None \<Rightarrow> True | Some p \<Rightarrow> \<not> canExtend root p)"
  have "history_ok (copy_step h b root h') \<and> copied h (copy_step h b root h') root
      \<and> history_view (copy_step h b root h') = history_view h' @ [root_view (h_store h) root]"
  proof (cases b)
    case True
    then show ?thesis
      using copy_step_allocate [OF Cons.prems(1,2)] Cons.prems(3,4)
      by (cases prev) (auto simp: b_def)
  next
    case False
    then obtain p where "prev = Some p" "canExtend root p" by (auto simp: b_def split: option.splits)
    then show ?thesis
      using copy_step_share [OF Cons.prems(1)] Cons.prems(3-5) False by simp
  qed
  moreover have "successively shares (root # roots)"
    using Cons.prems(5) by (auto split: option.splits)
  ultimately show ?case
    using Cons.IH [of "copy_step h b root h'" "Some root"] Cons.prems(4)
    by (simp only: copy_roots_step b_def [symmetric]) (simp add: copied_def)
qed simp

lemma copy_history_correct:
  assumes "history_ok h"
  shows "history_ok (copy_history h)" and "h_id (copy_history h) = h_id h"
    and "history_view (copy_history h) = history_view h"
  using copy_roots_correct [of "make_history (h_id h)" h None "m_rootHistory h"] assms
  by (simp_all add: copy_history_def make_history_def history_ok_def history_view_def)

section \<open>Pruning\<close>

lemma set_AddAllIds [simp]: "set (AddAllIds ids ch) = set ids \<union> fst ` set ch"
  unfolding AddAllIds_def by (induction ch arbitrary: ids) auto

lemma set_RemoveAllIds [simp]: "set (RemoveAllIds ids ch) = set ids - fst ` set ch"
  unfolding RemoveAllIds_def by (induction ch arbitrary: ids) auto

lemma AddAllIds_ok: "oset_ok ids \<Longrightarrow> oset_ok (AddAllIds ids ch)"
  unfolding AddAllIds_def by (induction ch arbitrary: ids) (auto simp: oset_ok_insert)

lemma RemoveAllIds_ok: "oset_ok ids \<Longrightarrow> oset_ok (RemoveAllIds ids ch)"
  unfolding RemoveAllIds_def by (induction ch arbitrary: ids) (auto simp: oset_ok_erase)

abbreviation expired :: "Height \<Rightarrow> RootNamespace \<Rightarrow> bool" where
  "expired height r \<equiv> End (m_lifetime r) \<le> height"

lemma prune_roots_snd: "snd (prune_roots st height ids rs) = filter (\<lambda>r. \<not> expired height r) rs"
  by (induction rs arbitrary: ids) (auto split: prod.splits simp: case_prod_unfold)

lemma prune_roots_fst_Cons:
  "\<not> expired height r \<Longrightarrow> fst (prune_roots st height ids (r # rs)) =
     fst (prune_roots st height (RemoveAllIds ids (root_children st r)) rs)"
  by (simp add: case_prod_unfold Let_def)

lemma prune_roots_kept:
  "\<forall>r \<in> set rs. \<not> expired height r \<Longrightarrow>
   set (fst (prune_roots st height ids rs)) = set ids - (\<Union>r \<in> set rs. fst ` set (root_children st r))"
proof (induction rs arbitrary: ids)
  case (Cons r rs)
  then show ?case
    using Cons.IH [of "RemoveAllIds ids (root_children st r)"]
    by (simp add: prune_roots_fst_Cons Diff_eq Int_assoc del: prune_roots.simps)
qed simp

text \<open>When roots expire in the order of the history, the roots that stay follow those that go.\<close>

lemma prune_roots_ids:
  assumes "sorted (map (\<lambda>r. End (m_lifetime r)) rs)"
  shows "set (fst (prune_roots st height ids rs)) =
    (set ids \<union> (\<Union>r \<in> set (filter (expired height) rs). fst ` set (root_children st r)))
      - (\<Union>r \<in> set (filter (\<lambda>r. \<not> expired height r) rs). fst ` set (root_children st r))"
  using assms
proof (induction rs arbitrary: ids)
  case (Cons r rs)
  show ?case
  proof (cases "expired height r")
    case True
    with Cons show ?thesis by (simp add: Un_assoc)
  next
    case False
    with Cons.prems have late: "\<forall>x \<in> set (r # rs). \<not> expired height x" by force
    then have "filter (expired height) (r # rs) = []" "filter (\<lambda>r. \<not> expired height r) (r # rs) = r # rs"
      by (simp_all add: filter_empty_conv filter_id_conv)
    with prune_roots_kept [OF late, of st ids] show ?thesis by simp
  qed
qed simp

lemma prune_roots_ok: "oset_ok ids \<Longrightarrow> oset_ok (fst (prune_roots st height ids rs))"
proof (induction rs arbitrary: ids)
  case (Cons r rs)
  then show ?case
    by (cases "expired height r") (simp_all add: AddAllIds_ok RemoveAllIds_ok case_prod_unfold Let_def)
qed simp

lemma filter_sorted_suffix:
  "sorted (map f xs) \<Longrightarrow> filter (\<lambda>x. \<not> f x \<le> b) xs = dropWhile (\<lambda>x. f x \<le> b) xs"
proof (induction xs)
  case (Cons x xs)
  show ?case
  proof (cases "f x \<le> b")
    case False
    with Cons.prems have "\<forall>y \<in> set xs. \<not> f y \<le> b" by force
    with False show ?thesis by (simp add: filter_id_conv)
  qed (use Cons in simp)
qed simp

lemma successively_dropWhile: "successively P xs \<Longrightarrow> successively P (dropWhile Q xs)"
  by (metis dropWhile_eq_drop append_take_drop_id successively_append_iff)

lemma history_prune_ok:
  assumes "history_ok h" and "sorted (map (\<lambda>r. End (m_lifetime r)) (m_rootHistory h))"
  shows "history_ok (snd (history_prune height h))"
proof -
  have "m_rootHistory (snd (history_prune height h))
      = dropWhile (\<lambda>r. End (m_lifetime r) \<le> height) (m_rootHistory h)"
    using filter_sorted_suffix [OF assms(2), of height]
    by (simp add: history_prune_def Let_def case_prod_unfold prune_roots_snd)
  moreover have "h_store (snd (history_prune height h)) = h_store h"
    "h_id (snd (history_prune height h)) = h_id h"
    by (simp_all add: history_prune_def Let_def case_prod_unfold)
  ultimately show ?thesis
    using assms(1) by (auto simp: history_ok_def root_ok_def successively_dropWhile dest: set_dropWhileD)
qed


lemma sortedChildPaths_correct:
  "oset_ok (sortedChildPaths st r) \<and> set (sortedChildPaths st r) = c_Path ` snd ` set (root_children st r)"
proof -
  have "oset_ok (foldl (\<lambda>paths (_, d). oset_insert (c_Path d) paths) acc ch)
      \<and> set (foldl (\<lambda>paths (_, d). oset_insert (c_Path d) paths) acc ch) = set acc \<union> c_Path ` snd ` set ch"
    if "oset_ok acc" for acc and ch :: Children
    using that
  proof (induction ch arbitrary: acc)
    case (Cons kd ch)
    then show ?case
      by (cases kd) (simp add: oset_ok_insert)
  qed simp
  from this [of "[]" "root_children st r"] show ?thesis by (simp add: sortedChildPaths_def)
qed

section \<open>Properties\<close>

text \<open>
  The lifetime constructor throws exactly when the start is not before the end or when adding the
  grace period to a finite end overflows; otherwise the namespace is active from the start until the
  end plus the grace period, and active without the grace period exactly until the end.
\<close>

theorem lifetime_correct:
  "make_NamespaceLifetime s e g =
     (if s < e \<and> (e = max_Height \<or> no_wrap e g)
      then Inr \<lparr>Start = s, End = (if e = max_Height then e else e + g)\<rparr> else Inl invalid_argument)
   \<and> (s < e \<and> e \<noteq> max_Height \<and> no_wrap e g \<longrightarrow>
        (\<forall>h. isActiveExcludingGracePeriod \<lparr>Start = s, End = e + g\<rparr> h g = Inr (s \<le> h \<and> h < e)
             \<and> (lifetime_isActive \<lparr>Start = s, End = e + g\<rparr> h
                  \<longleftrightarrow> s \<le> h \<and> unat h < unat e + unat g)))"
proof (intro conjI impI allI)
  show "make_NamespaceLifetime s e g =
     (if s < e \<and> (e = max_Height \<or> no_wrap e g)
      then Inr \<lparr>Start = s, End = (if e = max_Height then e else e + g)\<rparr> else Inl invalid_argument)"
    by (auto simp: make_NamespaceLifetime_def Let_def wrap_less)
next
  fix h assume a: "s < e \<and> e \<noteq> max_Height \<and> no_wrap e g"
  then have "\<not> g \<ge> e + g - s"
    by (auto simp: word_le_nat_alt word_less_nat_alt unat_add_no_wrap unat_sub_le no_wrap_le
        order.trans [OF less_imp_le no_wrap_le])
  then show "isActiveExcludingGracePeriod \<lparr>Start = s, End = e + g\<rparr> h g = Inr (s \<le> h \<and> h < e)"
    by (simp add: isActiveExcludingGracePeriod_def)
  show "lifetime_isActive \<lparr>Start = s, End = e + g\<rparr> h \<longleftrightarrow> s \<le> h \<and> unat h < unat e + unat g"
    using a by (simp add: lifetime_isActive_def word_less_nat_alt unat_add_no_wrap)
qed

theorem lifetime_correct_witness:
  "isActiveExcludingGracePeriod \<lparr>Start = 10, End = 25\<rparr> 19 5 = Inr True
   \<and> isActiveExcludingGracePeriod \<lparr>Start = 10, End = 25\<rparr> 20 5 = Inr False"
  using lifetime_correct [of 10 20 5] by (simp add: no_wrap_def)

text \<open>
  A well-formed history behaves as a stack of roots in which a new root of the active owner
  inherits the alias and the children of the active root and any other root starts without; removing
  the last root again restores the history, and so does the copy constructor, which shares the
  children of consecutive roots anew.
\<close>

theorem history_push_pop:
  assumes "history_ok h" and "Start l < End l"
  shows "history_ok (history_push_back owner l h)
    \<and> history_view (history_push_back owner l h) = history_view h @
        [(h_id h, owner, l,
          if extends_back owner l h then (m_alias (history_back h), root_children (h_store h) (history_back h))
          else (NoAlias, []))]
    \<and> history_view (history_pop_back (history_push_back owner l h)) = history_view h
    \<and> history_ok (copy_history (history_push_back owner l h))
    \<and> history_view (copy_history (history_push_back owner l h)) = history_view (history_push_back owner l h)"
  using history_push_back_ok [OF assms, of owner] history_push_back_view [OF assms(1), of owner l]
    copy_history_correct [OF history_push_back_ok [OF assms, of owner]]
  by (simp add: history_pop_back_view)

definition sample_history :: RootNamespaceHistory where
  "sample_history = history_push_back [1] \<lparr>Start = 10, End = 40\<rparr>
     (history_push_back [1] \<lparr>Start = 10, End = 20\<rparr> (history_push_back [2] \<lparr>Start = 1, End = 5\<rparr> (make_history 7)))"

lemma sample_history_ok: "history_ok sample_history"
  unfolding sample_history_def by (intro history_push_back_ok) (simp_all add: make_history_def)

theorem history_push_pop_witness:
  "history_view (history_pop_back (history_push_back [1] \<lparr>Start = 10, End = 60\<rparr> sample_history))
     = history_view sample_history"
  using history_push_pop [OF sample_history_ok, of "\<lparr>Start = 10, End = 60\<rparr>" "[1]"] by simp

text \<open>
  Adding a child to the active root adds it, because children are shared, to exactly the last
  \<^verbatim>\<open>activeOwnerHistoryDepth()\<close> roots of the history and to no other; removing the child again succeeds
  and restores the history.
\<close>

theorem add_child_shared:
  assumes "history_ok h" and "m_rootHistory h \<noteq> []"
    and "path_ok (h_id h) (root_children (h_store h) (history_back h)) p"
    and "map_of (root_children (h_store h) (history_back h)) (last p) = None"
  shows "\<exists>st. root_add (h_store h) (history_back h) \<lparr>m_path = p\<rparr> = Inr st
    \<and> history_ok (h\<lparr>h_store := st\<rparr>)
    \<and> history_view (h\<lparr>h_store := st\<rparr>) = map_last (activeOwnerHistoryDepth h)
        (with_children (omap_insert (last p) \<lparr>c_Path = p, c_Alias = NoAlias\<rparr>
          (root_children (h_store h) (history_back h)))) (history_view h)
    \<and> 0 < activeOwnerHistoryDepth h \<and> activeOwnerHistoryDepth h \<le> historyDepth h
    \<and> (\<exists>st'. root_remove st (history_back h) (last p) = Inr st'
         \<and> history_view (h\<lparr>h_store := st'\<rparr>) = history_view h)"
proof -
  let ?b = "history_back h" and ?ch = "root_children (h_store h) (history_back h)"
  let ?ch' = "omap_insert (last p) \<lparr>c_Path = p, c_Alias = NoAlias\<rparr> ?ch"
  have b: "m_id ?b = h_id h" "children_ok (h_id h) ?ch" "m_pChildren ?b < length (h_store h)"
    using back_ok [OF assms(1,2)] by (simp_all add: root_ok_def)
  let ?st = "(h_store h)[m_pChildren ?b := ?ch']"
  have add: "root_add (h_store h) ?b \<lparr>m_path = p\<rparr> = Inr ?st"
    using assms(3,4) b by (intro root_add_Inr) (auto simp: path_ok_def)
  have h': "h\<lparr>h_store := ?st\<rparr> = modify_children ?ch' h" by (simp add: modify_children_def)
  have "children_ok (h_id h) ?ch'" using children_ok_insert [OF b(2) assms(4,3)] .
  then have ok: "history_ok (h\<lparr>h_store := ?st\<rparr>)" unfolding h' by (rule modify_children_ok [OF assms(1)])
  have view: "history_view (h\<lparr>h_store := ?st\<rparr>) =
      map_last (activeOwnerHistoryDepth h) (with_children ?ch') (history_view h)"
    unfolding h' by (rule modify_children_view [OF assms(1,2)])
  have ch': "root_children ?st ?b = ?ch'" using b(3) by (simp add: root_children_update)
  have "(?st)[m_pChildren ?b := ?ch] = h_store h"
    using b(3) by (simp add: root_children_def deref_def)
  then have rem: "root_remove ?st ?b (last p) = Inr (h_store h)"
    using root_remove_added [OF ch' b(2) assms(4,3)] by simp
  show ?thesis
    using add ok view rem activeOwnerHistoryDepth_shared(2,3) [OF assms(1,2)] by auto
qed

theorem add_child_shared_witness:
  "\<exists>st. root_add (h_store sample_history) (history_back sample_history) \<lparr>m_path = [7, 70]\<rparr> = Inr st
    \<and> activeOwnerHistoryDepth sample_history = 2
    \<and> history_view (sample_history\<lparr>h_store := st\<rparr>) = map_last 2
        (with_children [(70, \<lparr>c_Path = [7, 70], c_Alias = NoAlias\<rparr>)]) (history_view sample_history)"
proof -
  have "path_ok (h_id sample_history) (root_children (h_store sample_history) (history_back sample_history)) [7, 70]"
    by (simp add: path_ok_def sample_history_def history_push_back_def make_history_def Let_def)
  moreover have "m_rootHistory sample_history \<noteq> []" by code_simp
  moreover have "root_children (h_store sample_history) (history_back sample_history) = []" by code_simp
  moreover have "activeOwnerHistoryDepth sample_history = 2" by code_simp
  ultimately show ?thesis using add_child_shared [OF sample_history_ok, of "[7, 70]"] by auto
qed

text \<open>
  Pruning a history at a height, whose roots expire in order, keeps exactly the roots that end
  later. The returned identifiers, in ascending order, are the children of removed roots that no
  remaining root has, with the root identifier itself when no root remains.
\<close>

theorem history_prune_correct:
  assumes "history_ok h" and "sorted (map (\<lambda>r. End (m_lifetime r)) (m_rootHistory h))"
  shows "let (ids, h') = history_prune height h;
             gone = filter (\<lambda>r. End (m_lifetime r) \<le> height) (m_rootHistory h);
             kept = filter (\<lambda>r. \<not> End (m_lifetime r) \<le> height) (m_rootHistory h);
             children = (\<lambda>rs. \<Union>r \<in> set rs. fst ` set (root_children (h_store h) r))
         in history_ok h' \<and> history_view h' = map (root_view (h_store h)) kept
            \<and> oset_ok ids
            \<and> set ids = (children gone - children kept) \<union> (if kept = [] then {h_id h} else {})"
  using history_prune_ok [OF assms, of height] prune_roots_ids [OF assms(2), of "h_store h" height "[]"]
    prune_roots_ok [of "[]" "h_store h" height "m_rootHistory h"]
  by (auto simp: history_prune_def Let_def case_prod_unfold prune_roots_snd history_view_def oset_ok_insert)

theorem history_prune_correct_witness:
  "history_view (snd (history_prune 20 sample_history)) =
     [(7, [1], \<lparr>Start = 10, End = 40\<rparr>, NoAlias, [])]
   \<and> fst (history_prune 20 sample_history) = [] \<and> fst (history_prune 40 sample_history) = [7]"
proof -
  have s: "sorted (map (\<lambda>r. End (m_lifetime r)) (m_rootHistory sample_history))" by code_simp
  have v: "map (root_view (h_store sample_history))
      (filter (\<lambda>r. \<not> End (m_lifetime r) \<le> 20) (m_rootHistory sample_history))
      = [(7, [1], \<lparr>Start = 10, End = 40\<rparr>, NoAlias, [])]" by code_simp
  have "fst (history_prune 20 sample_history) = [] \<and> fst (history_prune 40 sample_history) = [7]"
    by code_simp
  with history_prune_correct [OF sample_history_ok s, of 20] v show ?thesis
    by (simp add: Let_def case_prod_unfold)
qed

end
