(* ===== verification/Delta_Set.thy ===== *)
theory Delta_Set
  imports Prelude
begin

text \<open>
  The copy-on-write sets every cache of the node is built on: \<^verbatim>\<open>deltaset/BaseSet.h\<close>,
  \<^verbatim>\<open>BaseSetDelta.h\<close>, \<^verbatim>\<open>BaseSetCommitPolicy.h\<close>, \<^verbatim>\<open>BaseSetDeltaIterationView.h\<close>, \<^verbatim>\<open>BaseSetUtils.h\<close> and
  \<^verbatim>\<open>OrderedSet.h\<close>.

  The four containers of a delta (original, added, removed and copied elements) are ordered maps
  from the key of an element to the element. For the hashed containers of the source this fixes one
  of the iteration orders they may have. A set (\<^verbatim>\<open>SetStorageTraits\<close>) is a map to \<^typ>\<open>unit\<close>.

  The locale \<open>set_view\<close> is the interface the caches rely on: a delta behaves as one finite map, of
  which \<^verbatim>\<open>size\<close> is the number of keys. It is interpreted on the mutable and on the immutable variant
  of \<^verbatim>\<open>BaseSetDelta\<close>.
\<close>

section \<open>Data\<close>

datatype InsertResult = InsertResult_Unremoved | InsertResult_Updated | InsertResult_Redundant
  | InsertResult_Inserted

datatype RemoveResult = RemoveResult_None | RemoveResult_Unmodified_And_Removed
  | RemoveResult_Uninserted | RemoveResult_Redundant | RemoveResult_Removed

datatype MutabilityTag = MutableTypeTag | ImmutableTypeTag

record ('k, 'v) BaseSetDelta =
  m_originalElements :: "('k, 'v) omap"
  m_addedElements :: "('k, 'v) omap"
  m_removedElements :: "('k, 'v) omap"
  m_copiedElements :: "('k, 'v) omap"
  m_generationId :: u32
  m_keyGenerationIdMap :: "('k, u32) omap"

definition make_delta :: "('k, 'v) omap \<Rightarrow> ('k, 'v) BaseSetDelta" where
  "make_delta originalElements =
     \<lparr>m_originalElements = originalElements, m_addedElements = [], m_removedElements = [],
      m_copiedElements = [], m_generationId = 1, m_keyGenerationIdMap = []\<rparr>"

definition Contains :: "('k, 'v) omap \<Rightarrow> 'k \<Rightarrow> bool" where
  "Contains elements key = (map_of elements key \<noteq> None)"

section \<open>Lookups\<close>

text \<open>\<^verbatim>\<open>size_t\<close> arithmetic: the intermediate difference may wrap.\<close>

definition delta_size :: "('k, 'v) BaseSetDelta \<Rightarrow> u64" where
  "delta_size d = of_nat (length (m_originalElements d)) - of_nat (length (m_removedElements d))
     + of_nat (length (m_addedElements d))"

definition delta_empty :: "('k, 'v) BaseSetDelta \<Rightarrow> bool" where
  "delta_empty d = (0 = delta_size d)"

fun find_original :: "MutabilityTag \<Rightarrow> 'k \<Rightarrow> ('k, 'v) BaseSetDelta \<Rightarrow> 'v option" where
  "find_original MutableTypeTag key d =
     (case map_of (m_copiedElements d) key of
        Some v \<Rightarrow> Some v
      | None \<Rightarrow> map_of (m_originalElements d) key)"
| "find_original ImmutableTypeTag key d = map_of (m_originalElements d) key"

text \<open>The const overload of \<^verbatim>\<open>find\<close>.\<close>

definition delta_find :: "MutabilityTag \<Rightarrow> ('k, 'v) BaseSetDelta \<Rightarrow> 'k \<Rightarrow> 'v option" where
  "delta_find tag d key =
     (if Contains (m_removedElements d) key then None
      else case find_original tag key d of
          Some v \<Rightarrow> Some v
        | None \<Rightarrow> map_of (m_addedElements d) key)"

definition delta_contains :: "('k, 'v) BaseSetDelta \<Rightarrow> 'k \<Rightarrow> bool" where
  "delta_contains d key =
     (\<not> Contains (m_removedElements d) key
      \<and> (Contains (m_addedElements d) key \<or> Contains (m_originalElements d) key))"

definition markKey :: "'k :: linorder \<Rightarrow> ('k, 'v) BaseSetDelta \<Rightarrow> ('k, 'v) BaseSetDelta" where
  "markKey key d = d\<lparr>m_keyGenerationIdMap := omap_put key (m_generationId d) (m_keyGenerationIdMap d)\<rparr>"

definition clearKey :: "'k :: linorder \<Rightarrow> ('k, 'v) BaseSetDelta \<Rightarrow> ('k, 'v) BaseSetDelta" where
  "clearKey key d = d\<lparr>m_keyGenerationIdMap := omap_erase key (m_keyGenerationIdMap d)\<rparr>"

text \<open>
  The non-const overload of \<^verbatim>\<open>find\<close> on mutable elements: an original element is first copied, so
  that the caller may write through the returned pointer, and the key is marked.
\<close>

definition copy_on_find :: "'k :: linorder \<Rightarrow> ('k, 'v) BaseSetDelta \<Rightarrow> ('k, 'v) BaseSetDelta" where
  "copy_on_find key d =
     (if Contains (m_removedElements d) key then d
      else if Contains (m_copiedElements d) key then d
      else case map_of (m_originalElements d) key of
          None \<Rightarrow> d
        | Some v \<Rightarrow> d\<lparr>m_copiedElements := omap_insert key v (m_copiedElements d)\<rparr>)"

definition find_mutable ::
  "'k :: linorder \<Rightarrow> ('k, 'v) BaseSetDelta \<Rightarrow> 'v option \<times> ('k, 'v) BaseSetDelta" where
  "find_mutable key d =
     (let d' = copy_on_find key d; r = delta_find MutableTypeTag d' key in
      case r of None \<Rightarrow> (None, d') | Some v \<Rightarrow> (Some v, markKey key d'))"

text \<open>
  A write through the pointer that the non-const \<^verbatim>\<open>find\<close> returned: the pointer goes into the copied
  elements when the key is there, and into the added elements otherwise.
\<close>

definition write_found :: "'k :: linorder \<Rightarrow> 'v \<Rightarrow> ('k, 'v) BaseSetDelta \<Rightarrow> ('k, 'v) BaseSetDelta" where
  "write_found key v d =
     (if Contains (m_copiedElements d) key
      then d\<lparr>m_copiedElements := omap_put key v (m_copiedElements d)\<rparr>
      else d\<lparr>m_addedElements := omap_put key v (m_addedElements d)\<rparr>)"

section \<open>Modifications\<close>

text \<open>\<^verbatim>\<open>pTargetElements->erase(key); pTargetElements->insert(storage)\<close>\<close>

definition replace :: "'k :: linorder \<Rightarrow> 'v \<Rightarrow> ('k, 'v) omap \<Rightarrow> ('k, 'v) omap" where
  "replace key v elements = omap_insert key v (omap_erase key elements)"

definition insert_mutable ::
  "'k :: linorder \<Rightarrow> 'v \<Rightarrow> ('k, 'v) BaseSetDelta \<Rightarrow> InsertResult \<times> ('k, 'v) BaseSetDelta" where
  "insert_mutable key v d0 =
     (let d = markKey key d0 in
      if Contains (m_removedElements d) key then
        let d = d\<lparr>m_removedElements := omap_erase key (m_removedElements d)\<rparr> in
        (InsertResult_Unremoved,
         if Contains (m_addedElements d) key
         then d\<lparr>m_addedElements := replace key v (m_addedElements d)\<rparr>
         else d\<lparr>m_copiedElements := replace key v (m_copiedElements d)\<rparr>)
      else if Contains (m_originalElements d) key then
        (InsertResult_Updated, d\<lparr>m_copiedElements := replace key v (m_copiedElements d)\<rparr>)
      else
        (if Contains (m_addedElements d) key then InsertResult_Updated else InsertResult_Inserted,
         d\<lparr>m_addedElements := replace key v (m_addedElements d)\<rparr>))"

definition insert_immutable ::
  "'k :: linorder \<Rightarrow> 'v \<Rightarrow> ('k, 'v) BaseSetDelta \<Rightarrow> InsertResult \<times> ('k, 'v) BaseSetDelta" where
  "insert_immutable key v d =
     (if Contains (m_removedElements d) key then
        let d = (if Contains (m_addedElements d) key then markKey key d else clearKey key d) in
        (InsertResult_Unremoved, d\<lparr>m_removedElements := omap_erase key (m_removedElements d)\<rparr>)
      else if Contains (m_originalElements d) key \<or> Contains (m_addedElements d) key then
        (InsertResult_Redundant, d)
      else
        let d = markKey key d in
        (InsertResult_Inserted, d\<lparr>m_addedElements := omap_insert key v (m_addedElements d)\<rparr>))"

fun delta_insert ::
  "MutabilityTag \<Rightarrow> 'k :: linorder \<Rightarrow> 'v \<Rightarrow> ('k, 'v) BaseSetDelta
     \<Rightarrow> InsertResult \<times> ('k, 'v) BaseSetDelta" where
  "delta_insert MutableTypeTag = insert_mutable"
| "delta_insert ImmutableTypeTag = insert_immutable"

definition remove_immutable ::
  "'k :: linorder \<Rightarrow> ('k, 'v) BaseSetDelta \<Rightarrow> RemoveResult \<times> ('k, 'v) BaseSetDelta" where
  "remove_immutable key d0 =
     (case map_of (m_addedElements d0) key of
        Some v \<Rightarrow>
          let d = markKey key d0 in
          (RemoveResult_Uninserted, d\<lparr>m_removedElements := omap_insert key v (m_removedElements d)\<rparr>)
      | None \<Rightarrow>
          (case map_of (m_originalElements d0) key of
             Some v \<Rightarrow>
               let d = markKey key d0 in
               (RemoveResult_Removed, d\<lparr>m_removedElements := omap_insert key v (m_removedElements d)\<rparr>)
           | None \<Rightarrow> (RemoveResult_None, d0)))"

definition remove_mutable ::
  "'k :: linorder \<Rightarrow> ('k, 'v) BaseSetDelta \<Rightarrow> RemoveResult \<times> ('k, 'v) BaseSetDelta" where
  "remove_mutable key d0 =
     (case map_of (m_copiedElements d0) key of
        Some v \<Rightarrow>
          let d = markKey key d0 in
          (RemoveResult_Unmodified_And_Removed,
           d\<lparr>m_removedElements := omap_insert key v (m_removedElements d),
             m_copiedElements := omap_erase key (m_copiedElements d)\<rparr>)
      | None \<Rightarrow> remove_immutable key d0)"

definition delta_remove ::
  "MutabilityTag \<Rightarrow> 'k :: linorder \<Rightarrow> ('k, 'v) BaseSetDelta \<Rightarrow> RemoveResult \<times> ('k, 'v) BaseSetDelta" where
  "delta_remove tag key d =
     (if Contains (m_removedElements d) key then (RemoveResult_Redundant, d)
      else case tag of
          MutableTypeTag \<Rightarrow> remove_mutable key d
        | ImmutableTypeTag \<Rightarrow> remove_immutable key d)"

definition reset :: "('k, 'v) BaseSetDelta \<Rightarrow> ('k, 'v) BaseSetDelta" where
  "reset d = d\<lparr>m_addedElements := [], m_removedElements := [], m_copiedElements := [],
     m_generationId := 1, m_keyGenerationIdMap := []\<rparr>"

definition key_generationId :: "('k, 'v) BaseSetDelta \<Rightarrow> 'k \<Rightarrow> u32" where
  "key_generationId d key =
     (case map_of (m_keyGenerationIdMap d) key of None \<Rightarrow> 0 | Some g \<Rightarrow> g)"

definition incrementGenerationId :: "('k, 'v) BaseSetDelta \<Rightarrow> ('k, 'v) BaseSetDelta" where
  "incrementGenerationId d = d\<lparr>m_generationId := m_generationId d + 1\<rparr>"

text \<open>\<^verbatim>\<open>BaseSetUtils.h\<close>: bulk operations on any container with the insert and remove of a delta.\<close>

definition ContainsAny :: "('c \<Rightarrow> 'k \<Rightarrow> bool) \<Rightarrow> 'c \<Rightarrow> 'k list \<Rightarrow> bool" where
  "ContainsAny contains container elements = list_ex (contains container) elements"

definition InsertAll :: "('k \<Rightarrow> 'v \<Rightarrow> 'c \<Rightarrow> 'r \<times> 'c) \<Rightarrow> 'c \<Rightarrow> ('k \<times> 'v) list \<Rightarrow> 'c" where
  "InsertAll ins container elements =
     foldl (\<lambda>c (k, v). snd (ins k v c)) container elements"

definition RemoveAll :: "('k \<Rightarrow> 'c \<Rightarrow> 'r \<times> 'c) \<Rightarrow> 'c \<Rightarrow> 'k list \<Rightarrow> 'c" where
  "RemoveAll remove container elements = foldl (\<lambda>c k. snd (remove k c)) container elements"

section \<open>Base set and commit\<close>

text \<open>
  \<^verbatim>\<open>UpdateSet\<close>: all added elements are inserted (an existing key keeps its element), then every
  copied element replaces its original, then the removed keys are erased.
\<close>

definition update_copied :: "'k :: linorder \<times> 'v \<Rightarrow> ('k, 'v) omap \<Rightarrow> ('k, 'v) omap result" where
  "update_copied element elements =
     (if Contains elements (fst element)
      then Inr (omap_insert (fst element) (snd element) (omap_erase (fst element) elements))
      else Inl invalid_argument)"

definition UpdateSet ::
  "('k :: linorder, 'v) omap \<Rightarrow> ('k, 'v) BaseSetDelta \<Rightarrow> ('k, 'v) omap result" where
  "UpdateSet elements d =
     (let elements = foldl (\<lambda>m (k, v). omap_insert k v m) elements (m_addedElements d) in
      bind_result (foldM update_copied (m_copiedElements d) elements)
        (\<lambda>elements. Inr (foldl (\<lambda>m (k, v). omap_erase k m) elements (m_removedElements d))))"

text \<open>
  A base set and the delta attached to it, if that is still alive: \<^verbatim>\<open>m_pWeakDelta.lock()\<close>. The delta
  refers to the elements of the set, so \<open>commit\<close> also changes the original elements it sees.
\<close>

record ('k, 'v) BaseSet =
  m_elements :: "('k, 'v) omap"
  m_pWeakDelta :: "('k, 'v) BaseSetDelta option"

definition rebase :: "('k, 'v) BaseSet \<Rightarrow> ('k, 'v) BaseSet result" where
  "rebase s =
     (if m_pWeakDelta s \<noteq> None then Inl runtime_error
      else Inr (s\<lparr>m_pWeakDelta := Some (make_delta (m_elements s))\<rparr>))"

definition rebaseDetached :: "('k, 'v) BaseSet \<Rightarrow> ('k, 'v) BaseSetDelta" where
  "rebaseDetached s = make_delta (m_elements s)"

definition base_commit ::
  "(('k :: linorder, 'v) omap \<Rightarrow> ('k, 'v) BaseSetDelta \<Rightarrow> ('k, 'v) omap result)
     \<Rightarrow> ('k, 'v) BaseSet \<Rightarrow> ('k, 'v) BaseSet result" where
  "base_commit update s =
     (case m_pWeakDelta s of
        None \<Rightarrow> Inl runtime_error
      | Some d \<Rightarrow>
          bind_result (update (m_elements s) d)
            (\<lambda>elements. Inr (s\<lparr>m_elements := elements,
               m_pWeakDelta := Some ((reset d)\<lparr>m_originalElements := elements\<rparr>)\<rparr>)))"

text \<open>\<^verbatim>\<open>OrderedSetCommitPolicy\<close>: after the update, elements below the pruning boundary are dropped.\<close>

definition PruneBaseSet :: "('k :: linorder, 'v) omap \<Rightarrow> 'k \<Rightarrow> ('k, 'v) omap" where
  "PruneBaseSet elements boundary = dropWhile (\<lambda>kv. fst kv < boundary) elements"

definition OrderedSet_Update ::
  "'k option \<Rightarrow> ('k :: linorder, 'v) omap \<Rightarrow> ('k, 'v) BaseSetDelta \<Rightarrow> ('k, 'v) omap result" where
  "OrderedSet_Update pruningBoundary elements d =
     bind_result (UpdateSet elements d)
       (\<lambda>elements. Inr (case pruningBoundary of
            None \<Rightarrow> elements
          | Some boundary \<Rightarrow> PruneBaseSet elements boundary))"


section \<open>Iteration\<close>

text \<open>
  \<^verbatim>\<open>BaseSetDeltaIterationView::iterator\<close>: its two underlying iterators are the lists of the nodes
  still ahead of them (\<open>i_original\<close> in the original elements and \<open>i_added\<close> in the added ones), and
  \<open>i_current\<close> is what \<open>m_iter\<close> points to in the original stage. A dereference reads \<open>i_current\<close> in
  that stage and the head of \<open>i_added\<close> in the other one.
\<close>

datatype IterationStage = Stage_Original | Stage_Added

record ('k, 'v) delta_iterator =
  i_position :: u64
  i_stage :: IterationStage
  i_current :: "('k \<times> 'v) option"
  i_original :: "('k, 'v) omap"
  i_added :: "('k, 'v) omap"

fun handleOriginalStage ::
  "('k, 'v) BaseSetDelta \<Rightarrow> ('k, 'v) omap \<Rightarrow> (('k \<times> 'v) \<times> ('k, 'v) omap) option" where
  "handleOriginalStage d [] = None"
| "handleOriginalStage d (e # es) =
     (if Contains (m_removedElements d) (fst e) then handleOriginalStage d es
      else case map_of (m_copiedElements d) (fst e) of
          None \<Rightarrow> Some (e, e # es)
        | Some v \<Rightarrow> Some ((fst e, v), e # es))"

fun handleAddedStage :: "('k, 'v) BaseSetDelta \<Rightarrow> ('k, 'v) omap \<Rightarrow> ('k, 'v) omap" where
  "handleAddedStage d [] = []"
| "handleAddedStage d (e # es) =
     (if Contains (m_removedElements d) (fst e) then handleAddedStage d es else e # es)"

definition moveToValidElement ::
  "('k, 'v) BaseSetDelta \<Rightarrow> ('k, 'v) delta_iterator \<Rightarrow> ('k, 'v) delta_iterator" where
  "moveToValidElement d it =
     (if i_stage it = Stage_Original then
        (case handleOriginalStage d (i_original it) of
           Some (e, rest) \<Rightarrow> it\<lparr>i_current := Some e, i_original := rest\<rparr>
         | None \<Rightarrow> it\<lparr>i_original := [], i_stage := Stage_Added, i_current := None,
                     i_added := handleAddedStage d (m_addedElements d)\<rparr>)
      else it\<lparr>i_added := handleAddedStage d (i_added it)\<rparr>)"

definition view_begin :: "('k, 'v) BaseSetDelta \<Rightarrow> ('k, 'v) delta_iterator" where
  "view_begin d =
     (let it = \<lparr>i_position = 0, i_stage = Stage_Original, i_current = None,
                i_original = m_originalElements d, i_added = []\<rparr> in
      if i_position it = delta_size d then it else moveToValidElement d it)"

definition incrementIterator :: "('k, 'v) delta_iterator \<Rightarrow> ('k, 'v) delta_iterator" where
  "incrementIterator it =
     (if i_stage it = Stage_Original then it\<lparr>i_original := tl (i_original it)\<rparr>
      else it\<lparr>i_added := tl (i_added it)\<rparr>)"

definition view_advance ::
  "('k, 'v) BaseSetDelta \<Rightarrow> ('k, 'v) delta_iterator \<Rightarrow> ('k, 'v) delta_iterator result" where
  "view_advance d it =
     (if i_position it = delta_size d then Inl out_of_range
      else Inr (moveToValidElement d (incrementIterator (it\<lparr>i_position := i_position it + 1\<rparr>))))"

definition view_deref ::
  "('k, 'v) BaseSetDelta \<Rightarrow> ('k, 'v) delta_iterator \<Rightarrow> ('k \<times> 'v) result" where
  "view_deref d it =
     (if i_position it = delta_size d then Inl out_of_range
      else case i_stage it of
          Stage_Original \<Rightarrow> (case i_current it of Some e \<Rightarrow> Inr e | None \<Rightarrow> Inl undefined_behaviour)
        | Stage_Added \<Rightarrow> (case i_added it of e # _ \<Rightarrow> Inr e | [] \<Rightarrow> Inl undefined_behaviour))"

text \<open>
  The loop \<^verbatim>\<open>for (const auto& element : MakeIterableView(delta))\<close>, from an iterator to the end. The
  fuel bounds the number of iterations; \<open>size()\<close> iterations are shown to be enough.
\<close>

fun view_loop ::
  "nat \<Rightarrow> ('k, 'v) BaseSetDelta \<Rightarrow> ('k, 'v) delta_iterator \<Rightarrow> ('k \<times> 'v) list result" where
  "view_loop fuel d it =
     (if i_position it = delta_size d then Inr []
      else case fuel of
          0 \<Rightarrow> Inl runtime_error
        | Suc n \<Rightarrow>
            bind_result (view_deref d it) (\<lambda>e.
              bind_result (view_advance d it) (\<lambda>it'.
                bind_result (view_loop n d it') (\<lambda>es. Inr (e # es)))))"

definition view_elements :: "('k, 'v) BaseSetDelta \<Rightarrow> ('k \<times> 'v) list result" where
  "view_elements d = view_loop (unat (delta_size d)) d (view_begin d)"


section \<open>Well-formed deltas\<close>

text \<open>
  Every container is a map; an added key is not an original one, only original keys are copied,
  only original or added keys are removed, and a removed key has no copy.
\<close>

definition delta_ok :: "('k :: linorder, 'v) BaseSetDelta \<Rightarrow> bool" where
  "delta_ok d \<longleftrightarrow>
     omap_ok (m_originalElements d) \<and> omap_ok (m_addedElements d)
     \<and> omap_ok (m_removedElements d) \<and> omap_ok (m_copiedElements d)
     \<and> dom (map_of (m_addedElements d)) \<inter> dom (map_of (m_originalElements d)) = {}
     \<and> dom (map_of (m_copiedElements d)) \<subseteq> dom (map_of (m_originalElements d))
     \<and> dom (map_of (m_removedElements d))
         \<subseteq> dom (map_of (m_originalElements d)) \<union> dom (map_of (m_addedElements d))
     \<and> dom (map_of (m_copiedElements d)) \<inter> dom (map_of (m_removedElements d)) = {}"

abbreviation delta_view :: "('k, 'v) BaseSetDelta \<Rightarrow> 'k \<rightharpoonup> 'v" where
  "delta_view d \<equiv> delta_find MutableTypeTag d"

lemma Contains_iff: "Contains m k \<longleftrightarrow> k \<in> dom (map_of m)"
  by (simp add: Contains_def domIff)

lemma markKey_simps [simp]:
  "m_originalElements (markKey k d) = m_originalElements d"
  "m_addedElements (markKey k d) = m_addedElements d"
  "m_removedElements (markKey k d) = m_removedElements d"
  "m_copiedElements (markKey k d) = m_copiedElements d"
  "delta_ok (markKey k d) = delta_ok d"
  "delta_size (markKey k d) = delta_size d"
  by (simp_all add: markKey_def delta_ok_def delta_size_def)

lemma find_markKey [simp]: "delta_find tag (markKey k d) = delta_find tag d"
  by (cases tag) (auto simp: delta_find_def fun_eq_iff split: option.splits)

lemma clearKey_simps [simp]:
  "m_originalElements (clearKey k d) = m_originalElements d"
  "m_addedElements (clearKey k d) = m_addedElements d"
  "m_removedElements (clearKey k d) = m_removedElements d"
  "m_copiedElements (clearKey k d) = m_copiedElements d"
  by (simp_all add: clearKey_def)

lemma replace_ok [inv_intros]: "omap_ok m \<Longrightarrow> omap_ok (replace k v m)"
  by (simp add: replace_def omap_ok_insert omap_ok_erase)

lemma map_of_replaced [abs_simps]: "omap_ok m \<Longrightarrow> map_of (replace k v m) = (map_of m)(k \<mapsto> v)"
  by (simp add: replace_def map_of_omap_insert map_of_omap_erase omap_ok_erase)

lemma dom_map_of_omap_insert [simp]:
  "omap_ok m \<Longrightarrow> dom (map_of (omap_insert k v m)) = insert k (dom (map_of m))"
  by (auto simp: map_of_omap_insert split: option.splits if_splits)

lemma view_eq:
  "delta_view d k =
     (if k \<in> dom (map_of (m_removedElements d)) then None
      else (map_of (m_addedElements d) ++ map_of (m_originalElements d) ++ map_of (m_copiedElements d)) k)"
  by (auto simp: delta_find_def Contains_iff map_add_def split: option.splits)

lemma dom_view:
  "delta_ok d \<Longrightarrow> dom (delta_view d) =
     (dom (map_of (m_originalElements d)) \<union> dom (map_of (m_addedElements d)))
       - dom (map_of (m_removedElements d))"
  by (auto simp: view_eq dom_def map_add_def delta_ok_def split: option.splits)

lemma finite_view: "delta_ok d \<Longrightarrow> finite (dom (delta_view d))"
  by (simp add: dom_view finite_dom_map_of)

lemma length_eq_card: "omap_ok m \<Longrightarrow> length m = card (dom (map_of m))"
  using omap_ok_distinct [of m] by (simp add: dom_map_of_conv_image_fst distinct_card flip: set_map)

lemma size_eq_card:
  assumes "delta_ok d"
  shows "delta_size d = of_nat (card (dom (delta_view d)))"
proof -
  let ?O = "dom (map_of (m_originalElements d))" and ?A = "dom (map_of (m_addedElements d))"
    and ?R = "dom (map_of (m_removedElements d))"
  have fin: "finite ?O" "finite ?A" "finite ?R" by (simp_all add: finite_dom_map_of)
  have sub: "?R \<subseteq> ?O \<union> ?A" and disj: "?O \<inter> ?A = {}" using assms by (auto simp: delta_ok_def)
  have "card ((?O \<union> ?A) - ?R) + card ?R = card ?O + card ?A"
    using card_Diff_subset [OF fin(3) sub] card_mono [OF _ sub] fin card_Un_disjoint [OF fin(1,2) disj]
    by simp
  then have "(of_nat (card (dom (delta_view d))) :: u64) + of_nat (card ?R)
      = of_nat (card ?O) + of_nat (card ?A)"
    unfolding dom_view [OF assms] by (metis of_nat_add)
  moreover have "length (m_originalElements d) = card ?O" "length (m_addedElements d) = card ?A"
    "length (m_removedElements d) = card ?R"
    using assms by (auto simp: delta_ok_def length_eq_card)
  ultimately show ?thesis by (simp add: delta_size_def algebra_simps)
qed

lemma card_view_le:
  assumes "delta_ok d"
  shows "card (dom (delta_view d)) \<le> length (m_originalElements d) + length (m_addedElements d)"
proof -
  have "card (dom (delta_view d)) \<le> card (dom (map_of (m_originalElements d)) \<union> dom (map_of (m_addedElements d)))"
    unfolding dom_view [OF assms] by (rule card_mono) (auto simp: finite_dom_map_of)
  also have "\<dots> \<le> length (m_originalElements d) + length (m_addedElements d)"
    using card_Un_le [of "dom (map_of (m_originalElements d))"] assms
    by (simp add: delta_ok_def length_eq_card)
  finally show ?thesis .
qed

section \<open>Operations on the view\<close>

lemma make_delta_ok [inv_intros]: "omap_ok m \<Longrightarrow> delta_ok (make_delta m)"
  by (simp add: make_delta_def delta_ok_def)

lemma make_delta_view [abs_simps]: "delta_view (make_delta m) = map_of m"
  by (auto simp: view_eq make_delta_def fun_eq_iff)

lemma contains_iff: "delta_ok d \<Longrightarrow> delta_contains d k \<longleftrightarrow> k \<in> dom (delta_view d)"
  by (auto simp: delta_contains_def Contains_iff dom_view)

lemma insert_mutable_ok [inv_intros]: "delta_ok d \<Longrightarrow> delta_ok (snd (insert_mutable k v d))"
  by (auto simp: insert_mutable_def Let_def delta_ok_def Contains_iff inv_intros abs_simps
      split: if_splits)

lemma insert_mutable_view [abs_simps]:
  "delta_ok d \<Longrightarrow> delta_view (snd (insert_mutable k v d)) = (delta_view d)(k \<mapsto> v)"
  by (auto simp: insert_mutable_def Let_def delta_ok_def Contains_iff fun_eq_iff view_eq abs_simps
      map_add_def split: if_splits option.splits)

lemma remove_ok [inv_intros]: "delta_ok d \<Longrightarrow> delta_ok (snd (delta_remove MutableTypeTag k d))"
  by (auto simp: delta_remove_def remove_mutable_def remove_immutable_def Let_def delta_ok_def
      Contains_iff inv_intros abs_simps split: option.splits)

lemma remove_view [abs_simps]:
  "delta_ok d \<Longrightarrow> delta_view (snd (delta_remove MutableTypeTag k d)) = (delta_view d)(k := None)"
  by (auto simp: delta_remove_def remove_mutable_def remove_immutable_def Let_def delta_ok_def
      Contains_iff fun_eq_iff view_eq abs_simps map_add_def split: option.splits)


text \<open>The non-const lookup returns what the const one does and leaves the view as it is.\<close>

lemma copy_on_find_ok [inv_intros]: "delta_ok d \<Longrightarrow> delta_ok (copy_on_find k d)"
  by (auto simp: copy_on_find_def delta_ok_def Contains_iff inv_intros split: option.splits)

lemma copy_on_find_view [abs_simps]: "delta_ok d \<Longrightarrow> delta_view (copy_on_find k d) = delta_view d"
  by (auto simp: copy_on_find_def delta_ok_def Contains_iff fun_eq_iff view_eq abs_simps map_add_def
      split: option.splits)

lemma find_mutable_fst [abs_simps]: "delta_ok d \<Longrightarrow> fst (find_mutable k d) = delta_view d k"
  by (simp add: find_mutable_def Let_def copy_on_find_view split: option.splits)

lemma find_mutable_view [abs_simps]: "delta_ok d \<Longrightarrow> delta_view (snd (find_mutable k d)) = delta_view d"
  by (simp add: find_mutable_def Let_def copy_on_find_view split: option.splits)

lemma find_mutable_ok [inv_intros]: "delta_ok d \<Longrightarrow> delta_ok (snd (find_mutable k d))"
  by (simp add: find_mutable_def Let_def copy_on_find_ok split: option.splits)

text \<open>
  After a successful non-const lookup of a key, the pointer goes into the copied or the added
  elements, and never into the original ones: the key has a copy or is not original.
\<close>

definition writable :: "'k \<Rightarrow> ('k :: linorder, 'v) BaseSetDelta \<Rightarrow> bool" where
  "writable k d \<longleftrightarrow>
     k \<in> dom (delta_view d)
     \<and> (k \<in> dom (map_of (m_copiedElements d)) \<or> k \<notin> dom (map_of (m_originalElements d)))"

lemma find_mutable_writable:
  assumes "delta_ok d" and "find_mutable k d = (Some v, d')"
  shows "writable k d'"
proof -
  have "k \<in> dom (delta_view d')"
    using find_mutable_fst [OF assms(1), of k] find_mutable_view [OF assms(1), of k] assms(2)
    by (simp add: domIff) (metis option.distinct(1))
  moreover have "k \<in> dom (map_of (m_copiedElements d')) \<or> k \<notin> dom (map_of (m_originalElements d'))"
    using assms by (auto simp: find_mutable_def Let_def copy_on_find_def delta_ok_def Contains_iff
        delta_find_def map_of_omap_insert split: option.splits if_splits)
  ultimately show ?thesis by (simp add: writable_def)
qed

lemma write_found_ok [inv_intros]: "delta_ok d \<Longrightarrow> writable k d \<Longrightarrow> delta_ok (write_found k v d)"
  by (auto simp: write_found_def delta_ok_def Contains_iff writable_def view_eq inv_intros abs_simps
      split: if_splits)

lemma write_found_view [abs_simps]:
  "delta_ok d \<Longrightarrow> writable k d \<Longrightarrow> delta_view (write_found k v d) = (delta_view d)(k \<mapsto> v)"
  by (auto simp: write_found_def delta_ok_def Contains_iff fun_eq_iff writable_def view_eq abs_simps
      map_add_def split: option.splits if_splits)

text \<open>
  The immutable variant keeps the first element it saw under a key. Sets hold \<^typ>\<open>unit\<close> values, so
  this is the same as inserting the element again.
\<close>

definition immutable_ok :: "('k :: linorder, 'v) BaseSetDelta \<Rightarrow> bool" where
  "immutable_ok d \<longleftrightarrow> delta_ok d \<and> m_copiedElements d = []"

lemma immutable_find: "immutable_ok d \<Longrightarrow> delta_find ImmutableTypeTag d = delta_view d"
  by (auto simp: immutable_ok_def delta_find_def fun_eq_iff)

lemma insert_immutable_ok [inv_intros]: "immutable_ok d \<Longrightarrow> immutable_ok (snd (insert_immutable k v d))"
  by (auto simp: insert_immutable_def Let_def immutable_ok_def delta_ok_def Contains_iff inv_intros
      map_of_omap_erase)

lemma insert_immutable_view:
  fixes d :: "('k :: linorder, unit) BaseSetDelta"
  shows "immutable_ok d \<Longrightarrow> delta_view (snd (insert_immutable k v d)) = (delta_view d)(k \<mapsto> v)"
  by (auto simp: insert_immutable_def Let_def immutable_ok_def delta_ok_def Contains_iff fun_eq_iff
      view_eq abs_simps map_add_def split: option.splits if_splits)

lemma remove_immutable_ok [inv_intros]:
  "immutable_ok d \<Longrightarrow> immutable_ok (snd (delta_remove ImmutableTypeTag k d))"
  by (auto simp: delta_remove_def remove_immutable_def Let_def immutable_ok_def delta_ok_def
      Contains_iff inv_intros abs_simps split: option.splits)

lemma remove_immutable_view:
  "immutable_ok d \<Longrightarrow> delta_view (snd (delta_remove ImmutableTypeTag k d)) = (delta_view d)(k := None)"
  by (auto simp: delta_remove_def remove_immutable_def Let_def immutable_ok_def delta_ok_def
      Contains_iff fun_eq_iff view_eq abs_simps map_add_def split: option.splits)

section \<open>The interface of a delta\<close>

locale set_view =
  fixes ok :: "'s \<Rightarrow> bool"
    and view :: "'s \<Rightarrow> 'k \<rightharpoonup> 'v"
    and ins :: "'k \<Rightarrow> 'v \<Rightarrow> 's \<Rightarrow> 'ri \<times> 's"
    and rem :: "'k \<Rightarrow> 's \<Rightarrow> 'rr \<times> 's"
    and size :: "'s \<Rightarrow> u64"
  assumes ok_ins: "ok s \<Longrightarrow> ok (snd (ins k v s))"
    and ok_rem: "ok s \<Longrightarrow> ok (snd (rem k s))"
    and view_ins: "ok s \<Longrightarrow> view (snd (ins k v s)) = (view s)(k \<mapsto> v)"
    and view_rem: "ok s \<Longrightarrow> view (snd (rem k s)) = (view s)(k := None)"
    and size_view: "ok s \<Longrightarrow> size s = of_nat (card (dom (view s)))"
    and finite_dom: "ok s \<Longrightarrow> finite (dom (view s))"
begin

lemma ins_rem_absent:
  assumes "ok s" and "view s k = None"
  shows "view (snd (rem k (snd (ins k v s)))) = view s"
  using assms by (simp add: ok_ins view_ins view_rem fun_upd_idem)

lemma rem_ins_present:
  assumes "ok s" and "view s k = Some v"
  shows "view (snd (ins k v (snd (rem k s)))) = view s"
  using assms by (simp add: ok_rem view_ins view_rem fun_upd_idem)

lemma size_ins: "ok s \<Longrightarrow> size (snd (ins k v s)) = size s + (if view s k = None then 1 else 0)"
  using finite_dom by (auto simp: size_view ok_ins view_ins card_insert_if domIff)

lemma size_rem: "ok s \<Longrightarrow> size (snd (rem k s)) = size s - (if view s k = None then 0 else 1)"
proof -
  assume s: "ok s"
  show ?thesis
  proof (cases "view s k")
    case None
    with s show ?thesis by (simp add: size_view ok_rem view_rem fun_upd_idem)
  next
    case (Some v)
    then have "k \<in> dom (view s)" by auto
    then have "card (dom (view s)) = Suc (card (dom (view s) - {k}))"
      using finite_dom [OF s] by (metis card.remove)
    with s Some show ?thesis by (simp add: size_view ok_rem view_rem)
  qed
qed

lemma InsertAll_ok: "ok s \<Longrightarrow> ok (InsertAll ins s es)"
  unfolding InsertAll_def by (induction es arbitrary: s) (auto simp: ok_ins)

lemma InsertAll_view: "ok s \<Longrightarrow> view (InsertAll ins s es) = view s ++ map_of (rev es)"
  unfolding InsertAll_def
proof (induction es arbitrary: s)
  case (Cons e es)
  obtain k v where e: "e = (k, v)" by (cases e)
  have "(\<lambda>c (k, v). snd (ins k v c)) s e = snd (ins k v s)" by (simp add: e)
  then show ?case using Cons by (simp add: e ok_ins view_ins fun_upd_def [symmetric] del: fun_upd_apply)
qed simp

lemma RemoveAll_ok: "ok s \<Longrightarrow> ok (RemoveAll rem s ks)"
  unfolding RemoveAll_def by (induction ks arbitrary: s) (auto simp: ok_rem)

lemma RemoveAll_view: "ok s \<Longrightarrow> view (RemoveAll rem s ks) = (view s) |` (- set ks)"
  unfolding RemoveAll_def
proof (induction ks arbitrary: s)
  case (Cons k ks)
  then show ?case by (auto simp: ok_rem view_rem restrict_map_def fun_eq_iff)
qed (simp add: restrict_map_def)

text \<open>Bulk insertion of new elements is undone by bulk removal of their keys.\<close>

lemma InsertAll_RemoveAll:
  assumes "ok s" and "\<forall>k \<in> fst ` set es. view s k = None"
  shows "view (RemoveAll rem (InsertAll ins s es) (map fst es)) = view s"
proof
  fix k
  show "view (RemoveAll rem (InsertAll ins s es) (map fst es)) k = view s k"
  proof (cases "k \<in> fst ` set es")
    case True
    then have "view s k = None" using assms(2) by (rule bspec [rotated])
    with True show ?thesis using assms(1)
      by (simp add: RemoveAll_view InsertAll_ok restrict_map_def)
  next
    case False
    then have "map_of (rev es) k = None" by (simp add: map_of_eq_None_iff)
    with False show ?thesis using assms
      by (simp add: RemoveAll_view InsertAll_ok InsertAll_view restrict_map_def map_add_def)
  qed
qed

end

interpretation mutable_set: set_view delta_ok "delta_find MutableTypeTag" "delta_insert MutableTypeTag"
  "delta_remove MutableTypeTag" delta_size
  by unfold_locales (simp_all add: inv_intros abs_simps size_eq_card finite_view)

interpretation immutable_set: set_view
  "immutable_ok :: ('k :: linorder, unit) BaseSetDelta \<Rightarrow> bool" delta_view
  "delta_insert ImmutableTypeTag" "delta_remove ImmutableTypeTag" delta_size
  by unfold_locales
    (simp_all add: inv_intros insert_immutable_view remove_immutable_view
      size_eq_card finite_view immutable_ok_def [THEN iffD1, THEN conjunct1])


section \<open>Commit\<close>

lemma foldl_omap_insert:
  assumes "omap_ok m" and "omap_ok a" and "dom (map_of a) \<inter> dom (map_of m) = {}"
  shows "omap_ok (foldl (\<lambda>m (k, v). omap_insert k v m) m a)
    \<and> map_of (foldl (\<lambda>m (k, v). omap_insert k v m) m a) = map_of m ++ map_of a"
  using assms
proof (induction a arbitrary: m)
  case (Cons kv a)
  obtain k v where kv: "kv = (k, v)" by (cases kv)
  have "k \<in> dom (map_of (kv # a))" using kv by simp
  then have "k \<notin> dom (map_of m)" using Cons.prems(3) by (metis IntI empty_iff)
  then have k: "k \<notin> dom (map_of a)" "map_of m k = None" "omap_ok a"
    using Cons.prems kv by (auto simp: omap_ok_Cons dom_map_of_conv_image_fst map_of_eq_None_iff)
  have "map_of (omap_insert k v m) = (map_of m)(k \<mapsto> v)"
    using Cons.prems k by (simp add: map_of_omap_insert)
  moreover have "(map_of m)(k \<mapsto> v) ++ map_of a = map_of m ++ (map_of a)(k \<mapsto> v)"
    using k(1) by (auto simp: map_add_def fun_eq_iff domIff split: option.splits)
  moreover have "omap_ok (omap_insert k v m)" using Cons.prems(1) by (rule omap_ok_insert)
  moreover have "dom (map_of a) \<inter> dom ((map_of m)(k \<mapsto> v)) = {}"
  proof -
    have "dom (map_of (kv # a)) = insert k (dom (map_of a))" using kv by simp
    with Cons.prems(3) k(1) show ?thesis by (simp del: map_of.simps)
  qed
  ultimately show ?case
    using Cons.IH [of "omap_insert k v m"] k(3) kv by (simp del: fun_upd_apply)
qed simp

lemma foldM_update_copied:
  assumes "omap_ok m" and "omap_ok c" and "dom (map_of c) \<subseteq> dom (map_of m)"
  shows "\<exists>m'. foldM update_copied c m = Inr m' \<and> omap_ok m' \<and> map_of m' = map_of m ++ map_of c"
  using assms
proof (induction c arbitrary: m)
  case (Cons kv c)
  obtain k v where kv: "kv = (k, v)" by (cases kv)
  let ?m = "replace k v m"
  have k: "k \<notin> dom (map_of c)" "omap_ok c"
    using Cons.prems kv by (auto simp: omap_ok_Cons dom_map_of_conv_image_fst)
  have m: "omap_ok ?m" "map_of ?m = (map_of m)(k \<mapsto> v)"
    using Cons.prems by (simp_all add: replace_ok map_of_replaced)
  obtain m' where m': "foldM update_copied c ?m = Inr m'" "omap_ok m'"
      "map_of m' = map_of ?m ++ map_of c"
    using Cons.IH [OF m(1) k(2)] Cons.prems(3) kv m(2) by (auto simp del: fun_upd_apply)
  have step: "update_copied kv m = Inr ?m"
    using Cons.prems kv by (auto simp: update_copied_def Contains_iff replace_def)
  have "map_of m' = map_of m ++ map_of (kv # c)"
    using m'(3) m(2) k(1) kv by (auto simp: map_add_def fun_eq_iff domIff split: option.splits)
  moreover have "foldM update_copied (kv # c) m = Inr m'" using m'(1) by (simp add: step)
  ultimately show ?case using m'(2) by (intro exI conjI)
qed simp

lemma foldl_omap_erase:
  "omap_ok m \<Longrightarrow> omap_ok (foldl (\<lambda>m (k, v). omap_erase k m) m r)
     \<and> map_of (foldl (\<lambda>m (k, v). omap_erase k m) m r) = map_of m |` (- dom (map_of r))"
proof (induction r arbitrary: m)
  case (Cons kv r)
  then show ?case
    by (cases kv) (auto simp: omap_ok_erase map_of_omap_erase restrict_map_def fun_eq_iff domIff)
qed (simp add: restrict_map_def)

lemma UpdateSet_correct:
  assumes "delta_ok d"
  obtains e where "UpdateSet (m_originalElements d) d = Inr e" "omap_ok e" "map_of e = delta_view d"
proof -
  let ?a = "foldl (\<lambda>m (k, v). omap_insert k v m) (m_originalElements d) (m_addedElements d)"
  have a: "omap_ok ?a" "map_of ?a = map_of (m_originalElements d) ++ map_of (m_addedElements d)"
    using foldl_omap_insert [of "m_originalElements d" "m_addedElements d"] assms
    by (simp_all add: delta_ok_def)
  obtain c where c: "foldM update_copied (m_copiedElements d) ?a = Inr c" "omap_ok c"
      "map_of c = map_of ?a ++ map_of (m_copiedElements d)"
    using foldM_update_copied [OF a(1), of "m_copiedElements d"] a(2) assms
    by (auto simp: delta_ok_def le_supI2)
  let ?e = "foldl (\<lambda>m (k, v). omap_erase k m) c (m_removedElements d)"
  have e: "omap_ok ?e" "map_of ?e = map_of c |` (- dom (map_of (m_removedElements d)))"
    using foldl_omap_erase [OF c(2)] by blast+
  have "map_of ?e = delta_view d"
    using assms by (auto simp: e(2) c(3) a(2) view_eq fun_eq_iff restrict_map_def map_add_def
        delta_ok_def split: option.splits)
  with e(1) c(1) show ?thesis by (intro that [of ?e]) (simp_all add: UpdateSet_def Let_def)
qed

lemma PruneBaseSet_correct:
  "omap_ok m \<Longrightarrow> omap_ok (PruneBaseSet m b) \<and> map_of (PruneBaseSet m b) = map_of m |` {k. b \<le> k}"
proof (induction m)
  case (Cons kv m)
  obtain k v where kv: "kv = (k, v)" by (cases kv)
  show ?case
  proof (cases "k < b")
    case True
    have "map_of (kv # m) |` {k. b \<le> k} = map_of m |` {k. b \<le> k}"
      using True kv by (auto simp: restrict_map_def fun_eq_iff)
    moreover have "PruneBaseSet (kv # m) b = PruneBaseSet m b" using True kv by (simp add: PruneBaseSet_def)
    moreover have "omap_ok m" using Cons.prems by (simp add: omap_ok_Cons)
    ultimately show ?thesis using Cons.IH by (simp only:)
  next
    case False
    have "map_of (kv # m) |` {k. b \<le> k} = map_of (kv # m)"
    proof
      fix x
      have "map_of (kv # m) x = None" if "\<not> b \<le> x"
      proof (rule map_of_eq_None_iff [THEN iffD2], rule notI)
        assume "x \<in> fst ` set (kv # m)"
        then have "k \<le> x" using Cons.prems kv by (auto simp: omap_ok_Cons order.strict_iff_not)
        with False that show False by simp
      qed
      then show "(map_of (kv # m) |` {k. b \<le> k}) x = map_of (kv # m) x"
        by (cases "b \<le> x") (simp_all add: restrict_map_def)
    qed
    moreover have "PruneBaseSet (kv # m) b = kv # m" using False kv by (simp add: PruneBaseSet_def)
    ultimately show ?thesis using Cons.prems by (simp only:)
  qed
qed (simp add: PruneBaseSet_def)

text \<open>An ordered set drops, with the commit, exactly the keys below the pruning boundary.\<close>

lemma OrderedSet_Update_correct:
  assumes "delta_ok d"
  obtains e where "OrderedSet_Update (Some b) (m_originalElements d) d = Inr e" "omap_ok e"
    "map_of e = delta_view d |` {k. b \<le> k}"
proof -
  obtain e where e: "UpdateSet (m_originalElements d) d = Inr e" "omap_ok e" "map_of e = delta_view d"
    using UpdateSet_correct [OF assms] .
  with PruneBaseSet_correct [OF e(2), of b] show ?thesis
    by (intro that [of "PruneBaseSet e b"]) (simp_all add: OrderedSet_Update_def)
qed

lemma reset_ok: "delta_ok ((reset d)\<lparr>m_originalElements := e\<rparr>) \<longleftrightarrow> omap_ok e"
  by (simp add: reset_def delta_ok_def)

lemma reset_view: "delta_view ((reset d)\<lparr>m_originalElements := e\<rparr>) = map_of e"
  by (simp add: reset_def view_eq fun_eq_iff)

section \<open>Iteration visits every element once\<close>

definition visible :: "('k, 'v) BaseSetDelta \<Rightarrow> 'k \<times> 'v \<Rightarrow> 'k \<times> 'v" where
  "visible d e = (fst e, case map_of (m_copiedElements d) (fst e) of None \<Rightarrow> snd e | Some v \<Rightarrow> v)"

definition original_rest :: "('k, 'v) BaseSetDelta \<Rightarrow> ('k, 'v) omap \<Rightarrow> ('k \<times> 'v) list" where
  "original_rest d es = map (visible d) (filter (\<lambda>e. \<not> Contains (m_removedElements d) (fst e)) es)"

definition added_rest :: "('k, 'v) BaseSetDelta \<Rightarrow> ('k, 'v) omap \<Rightarrow> ('k \<times> 'v) list" where
  "added_rest d es = filter (\<lambda>e. \<not> Contains (m_removedElements d) (fst e)) es"

lemma handleOriginalStage_eq:
  "handleOriginalStage d es =
     (case dropWhile (\<lambda>e. Contains (m_removedElements d) (fst e)) es of
        [] \<Rightarrow> None
      | e # rest \<Rightarrow> Some (visible d e, e # rest))"
  by (induction es) (auto simp: visible_def split: option.splits)

lemma handleAddedStage_eq:
  "handleAddedStage d es = dropWhile (\<lambda>e. Contains (m_removedElements d) (fst e)) es"
  by (induction es) auto

lemma filter_dropWhile: "filter (\<lambda>x. \<not> P x) (dropWhile P xs) = filter (\<lambda>x. \<not> P x) xs"
  by (induction xs) auto

text \<open>\<open>ahead d it es\<close>: the iterator points to the first element of \<open>es\<close>, the elements still to visit.\<close>

definition ahead :: "('k, 'v) BaseSetDelta \<Rightarrow> ('k, 'v) delta_iterator \<Rightarrow> ('k \<times> 'v) list \<Rightarrow> bool" where
  "ahead d it es \<longleftrightarrow>
     (case i_stage it of
        Stage_Original \<Rightarrow>
          (\<exists>e rest. i_original it = e # rest \<and> i_current it = Some (visible d e)
             \<and> es = visible d e # original_rest d rest @ added_rest d (m_addedElements d))
      | Stage_Added \<Rightarrow>
          (i_added it = [] \<or> \<not> Contains (m_removedElements d) (fst (hd (i_added it))))
          \<and> es = added_rest d (i_added it))"

lemma ahead_added:
  "i_stage it = Stage_Added \<Longrightarrow>
   ahead d (it\<lparr>i_added := handleAddedStage d xs\<rparr>) (added_rest d xs)"
  using hd_dropWhile [of "\<lambda>e. Contains (m_removedElements d) (fst e)" xs]
  by (auto simp: ahead_def handleAddedStage_eq added_rest_def filter_dropWhile)

lemma ahead_moveToValidElement:
  assumes "i_stage it = Stage_Original"
  shows "ahead d (moveToValidElement d it)
    (original_rest d (i_original it) @ added_rest d (m_addedElements d))"
proof (cases "dropWhile (\<lambda>e. Contains (m_removedElements d) (fst e)) (i_original it)")
  case Nil
  then have "original_rest d (i_original it) = []"
    by (simp add: original_rest_def dropWhile_eq_Nil_conv)
  with assms show ?thesis
    using Nil ahead_added [of "it\<lparr>i_original := [], i_stage := Stage_Added, i_current := None\<rparr>" d
        "m_addedElements d"]
    by (simp add: moveToValidElement_def handleOriginalStage_eq del: dropWhile_eq_Nil_conv)
next
  case (Cons e rest)
  then have "\<not> Contains (m_removedElements d) (fst e)"
    by (metis dropWhile_eq_Cons_conv)
  moreover have "filter (\<lambda>e. \<not> Contains (m_removedElements d) (fst e)) (i_original it)
      = filter (\<lambda>e. \<not> Contains (m_removedElements d) (fst e)) (e # rest)"
    using filter_dropWhile [of "\<lambda>e. Contains (m_removedElements d) (fst e)" "i_original it"]
    by (simp only: Cons)
  ultimately have "original_rest d (i_original it) = visible d e # original_rest d rest"
    by (simp add: original_rest_def)
  with Cons assms show ?thesis
    by (simp add: moveToValidElement_def handleOriginalStage_eq ahead_def)
qed

lemma ahead_deref: "ahead d it (e # es) \<Longrightarrow> i_position it \<noteq> delta_size d \<Longrightarrow> view_deref d it = Inr e"
  by (auto simp: ahead_def view_deref_def added_rest_def split: IterationStage.splits list.splits)

lemma ahead_advance:
  assumes "ahead d it (e # es)" and "i_position it \<noteq> delta_size d"
  obtains it' where "view_advance d it = Inr it'" "ahead d it' es" "i_position it' = i_position it + 1"
proof (rule that)
  let ?it = "moveToValidElement d (incrementIterator (it\<lparr>i_position := i_position it + 1\<rparr>))"
  show "view_advance d it = Inr ?it" using assms(2) by (simp add: view_advance_def)
  show "i_position ?it = i_position it + 1"
    by (simp add: moveToValidElement_def incrementIterator_def split: option.splits)
  show "ahead d ?it es"
  proof (cases "i_stage it")
    case Stage_Original
    then have "es = original_rest d (tl (i_original it)) @ added_rest d (m_addedElements d)"
      using assms(1) by (auto simp: ahead_def)
    with Stage_Original show ?thesis
      using ahead_moveToValidElement
          [of "incrementIterator (it\<lparr>i_position := i_position it + 1\<rparr>)" d]
      by (simp add: incrementIterator_def)
  next
    case Stage_Added
    then obtain xs where "i_added it = e # xs" "es = added_rest d xs"
      using assms(1) by (cases "i_added it") (auto simp: ahead_def added_rest_def split: if_splits)
    with Stage_Added show ?thesis
      using ahead_added [of "it\<lparr>i_position := i_position it + 1, i_added := xs\<rparr>" d xs]
      by (simp add: moveToValidElement_def incrementIterator_def)
  qed
qed

lemma view_loop_ahead:
  assumes "ahead d it es" and "i_position it + of_nat (length es) = delta_size d"
    and "length es < 2 ^ 64"
  shows "view_loop (length es) d it = Inr es"
  using assms
proof (induction es arbitrary: it)
  case (Cons e es)
  have "(of_nat (Suc (length es)) :: u64) \<noteq> 0"
    using Cons.prems(3) by (simp add: word_of_nat_eq_0_iff nat_dvd_not_less del: of_nat_Suc)
  then have ne: "i_position it \<noteq> delta_size d" using Cons.prems(2) by auto
  obtain it' where it': "view_advance d it = Inr it'" "ahead d it' es"
      "i_position it' = i_position it + 1"
    using ahead_advance [OF Cons.prems(1) ne] .
  have "view_loop (length es) d it' = Inr es"
    using Cons.IH [OF it'(2)] Cons.prems(2,3) it'(3) by (simp add: algebra_simps)
  then show ?case
    using ne ahead_deref [OF Cons.prems(1) ne] it'(1) by (simp add: algebra_simps)
qed simp


lemma ahead_begin:
  assumes "delta_size d \<noteq> 0"
  shows "ahead d (view_begin d)
    (original_rest d (m_originalElements d) @ added_rest d (m_addedElements d))"
proof -
  let ?it = "\<lparr>i_position = 0, i_stage = Stage_Original, i_current = None,
    i_original = m_originalElements d, i_added = []\<rparr>"
  have "view_begin d = moveToValidElement d ?it" using assms by (simp add: view_begin_def)
  then show ?thesis using ahead_moveToValidElement [of ?it d] by simp
qed

lemma position_begin: "i_position (view_begin d) = 0"
  by (simp add: view_begin_def moveToValidElement_def Let_def split: option.splits)

lemma keys_original_rest:
  "keys (original_rest d es) = filter (\<lambda>k. \<not> Contains (m_removedElements d) k) (keys es)"
  by (induction es) (auto simp: original_rest_def visible_def)

lemma keys_added_rest:
  "keys (added_rest d es) = filter (\<lambda>k. \<not> Contains (m_removedElements d) k) (keys es)"
  by (induction es) (auto simp: added_rest_def)

lemma distinct_rest:
  assumes "delta_ok d"
  shows "distinct (keys (original_rest d (m_originalElements d) @ added_rest d (m_addedElements d)))"
proof -
  have "set (keys (m_addedElements d)) \<inter> set (keys (m_originalElements d)) = {}"
    using assms by (simp add: delta_ok_def dom_map_of_conv_image_fst)
  then show ?thesis
    using assms omap_ok_distinct [of "m_originalElements d"] omap_ok_distinct [of "m_addedElements d"]
    by (auto simp: keys_original_rest keys_added_rest delta_ok_def simp del: set_map)
qed

lemma map_of_original_rest:
  "map_of (original_rest d es) k =
     (if Contains (m_removedElements d) k then None
      else case map_of es k of
          None \<Rightarrow> None
        | Some v \<Rightarrow> Some (case map_of (m_copiedElements d) k of None \<Rightarrow> v | Some v \<Rightarrow> v))"
  by (induction es) (auto simp: original_rest_def visible_def split: option.splits)

lemma map_of_added_rest:
  "map_of (added_rest d es) k = (if Contains (m_removedElements d) k then None else map_of es k)"
  by (induction es) (auto simp: added_rest_def)

lemma map_of_rest:
  assumes "delta_ok d"
  shows "map_of (original_rest d (m_originalElements d) @ added_rest d (m_addedElements d)) = delta_view d"
proof
  fix k
  have "map_of (m_copiedElements d) k \<noteq> None \<Longrightarrow> map_of (m_originalElements d) k \<noteq> None"
    "map_of (m_addedElements d) k \<noteq> None \<Longrightarrow> map_of (m_originalElements d) k = None"
    using assms by (auto simp: delta_ok_def)
  then show "map_of (original_rest d (m_originalElements d) @ added_rest d (m_addedElements d)) k
      = delta_view d k"
    by (auto simp: map_add_def map_of_original_rest map_of_added_rest delta_find_def
        split: option.splits)
qed

section \<open>Properties\<close>

text \<open>
  C10 A delta refines a finite map. On a well-formed delta with mutable elements, every operation keeps
  the delta well-formed; \<^verbatim>\<open>insert\<close> maps the key to the element whatever happened to the key before,
  \<^verbatim>\<open>remove\<close> unmaps it, writing through the pointer a non-const \<^verbatim>\<open>find\<close> returned updates the element,
  \<^verbatim>\<open>contains\<close> agrees with \<^verbatim>\<open>find\<close>, and \<^verbatim>\<open>size\<close>, which subtracts and adds the sizes of three containers,
  is the number of keys.
\<close>

theorem delta_refines_map:
  assumes "delta_ok d"
  shows "delta_ok (snd (delta_insert MutableTypeTag k v d))
    \<and> delta_find MutableTypeTag (snd (delta_insert MutableTypeTag k v d))
         = (delta_find MutableTypeTag d)(k \<mapsto> v)
    \<and> delta_ok (snd (delta_remove MutableTypeTag k d))
    \<and> delta_find MutableTypeTag (snd (delta_remove MutableTypeTag k d))
         = (delta_find MutableTypeTag d)(k := None)
    \<and> fst (find_mutable k d) = delta_find MutableTypeTag d k
    \<and> (\<forall>w d'. find_mutable k d = (Some w, d') \<longrightarrow>
         delta_ok (write_found k v d')
         \<and> delta_find MutableTypeTag (write_found k v d') = (delta_find MutableTypeTag d)(k \<mapsto> v))
    \<and> (delta_contains d k \<longleftrightarrow> delta_find MutableTypeTag d k \<noteq> None)
    \<and> delta_size d = of_nat (card (dom (delta_find MutableTypeTag d)))"
proof (intro conjI allI impI)
  fix w d' assume f: "find_mutable k d = (Some w, d')"
  note facts = find_mutable_writable [OF assms f] find_mutable_ok [OF assms, of k]
    find_mutable_view [OF assms, of k] f
  show "delta_ok (write_found k v d')" using facts by (simp add: write_found_ok)
  show "delta_view (write_found k v d') = (delta_view d)(k \<mapsto> v)"
    using facts by (simp add: write_found_view)
qed (simp_all add: assms mutable_set.ok_ins mutable_set.ok_rem mutable_set.view_ins
    mutable_set.view_rem find_mutable_fst contains_iff mutable_set.size_view domIff
    del: delta_insert.simps)

definition sample_delta :: "(u64, nat) BaseSetDelta" where
  "sample_delta = snd (delta_remove MutableTypeTag 5
     (snd (delta_insert MutableTypeTag 9 90
       (snd (delta_insert MutableTypeTag 7 71 (make_delta [(5, 50), (7, 70), (8, 80)]))))))"

lemma sample_delta_ok: "delta_ok sample_delta"
proof -
  have "delta_ok (make_delta [(5 :: u64, 50 :: nat), (7, 70), (8, 80)])"
    by (rule make_delta_ok) code_simp
  then show ?thesis
    unfolding sample_delta_def by (intro mutable_set.ok_ins mutable_set.ok_rem)
qed

theorem delta_refines_map_witness:
  "delta_ok sample_delta
   \<and> delta_find MutableTypeTag (snd (delta_insert MutableTypeTag 5 55 sample_delta))
       = (delta_find MutableTypeTag sample_delta)(5 \<mapsto> 55)
   \<and> fst (find_mutable 8 sample_delta) = Some 80
   \<and> delta_find MutableTypeTag (write_found 8 81 (snd (find_mutable 8 sample_delta)))
       = (delta_find MutableTypeTag sample_delta)(8 \<mapsto> 81)
   \<and> delta_size sample_delta = 3"
proof -
  have f: "fst (find_mutable 8 sample_delta) = Some 80" by code_simp
  then have p: "find_mutable 8 sample_delta = (Some 80, snd (find_mutable 8 sample_delta))"
    by (metis prod.collapse)
  have "delta_size sample_delta = 3" by code_simp
  with f p delta_refines_map [OF sample_delta_ok, of 8 81]
    delta_refines_map [OF sample_delta_ok, of 5 55] sample_delta_ok
  show ?thesis by blast
qed

text \<open>
  Committing a base set never throws while the attached delta is well-formed: afterwards the base
  set holds exactly what the delta showed, and the delta, emptied, still shows it.
\<close>

theorem base_commit_correct:
  assumes "m_pWeakDelta s = Some d" and "m_originalElements d = m_elements s" and "delta_ok d"
  shows "\<exists>s' d'. base_commit UpdateSet s = Inr s'
    \<and> omap_ok (m_elements s') \<and> map_of (m_elements s') = delta_find MutableTypeTag d
    \<and> m_pWeakDelta s' = Some d' \<and> delta_ok d'
    \<and> delta_find MutableTypeTag d' = delta_find MutableTypeTag d
    \<and> m_originalElements d' = m_elements s'
    \<and> m_addedElements d' = [] \<and> m_removedElements d' = [] \<and> m_copiedElements d' = []"
proof -
  obtain e where e: "UpdateSet (m_elements s) d = Inr e" "omap_ok e" "map_of e = delta_view d"
    using UpdateSet_correct [OF assms(3)] assms(2) by metis
  let ?d = "(reset d)\<lparr>m_originalElements := e\<rparr>"
  have "base_commit UpdateSet s = Inr (s\<lparr>m_elements := e, m_pWeakDelta := Some ?d\<rparr>)"
    using assms(1) e(1) by (simp add: base_commit_def)
  moreover have "delta_ok ?d" "delta_view ?d = delta_view d"
    using e(2,3) by (simp_all only: reset_ok reset_view)
  moreover have "m_addedElements ?d = [] \<and> m_removedElements ?d = [] \<and> m_copiedElements ?d = []"
    by (simp add: reset_def)
  ultimately show ?thesis using e(2,3) by auto
qed

theorem base_commit_correct_witness:
  "\<exists>s'. base_commit UpdateSet \<lparr>m_elements = [(5, 50), (7, 70), (8, 80)], m_pWeakDelta = Some sample_delta\<rparr>
     = Inr s' \<and> map_of (m_elements s') = delta_find MutableTypeTag sample_delta"
proof -
  have "m_originalElements sample_delta = [(5, 50), (7, 70), (8, 80)]" by code_simp
  with base_commit_correct
      [of "\<lparr>m_elements = [(5, 50), (7, 70), (8, 80)], m_pWeakDelta = Some sample_delta\<rparr>" sample_delta]
    sample_delta_ok
  show ?thesis by auto
qed

text \<open>
  Iterating a delta ends after \<^verbatim>\<open>size()\<close> steps without an out-of-range access, visits every key of
  the delta exactly once, with the element that \<^verbatim>\<open>find\<close> returns for it.
\<close>

theorem view_elements_correct:
  assumes "delta_ok d" and "card (dom (delta_find MutableTypeTag d)) < 2 ^ 64"
  shows "\<exists>es. view_elements d = Inr es \<and> distinct (keys es)
    \<and> map_of es = delta_find MutableTypeTag d \<and> length es = unat (delta_size d)"
proof -
  let ?es = "original_rest d (m_originalElements d) @ added_rest d (m_addedElements d)"
  have m: "map_of ?es = delta_view d" and dist: "distinct (keys ?es)"
    using assms(1) by (rule map_of_rest, rule distinct_rest)
  then have len: "length ?es = card (dom (delta_view d))"
    by (metis dom_map_of_conv_image_fst distinct_card length_map set_map)
  then have size: "delta_size d = of_nat (length ?es)" "unat (delta_size d) = length ?es"
    using assms by (simp_all add: size_eq_card unsigned_of_nat take_bit_nat_eq_self del: length_append)
  have "view_loop (length ?es) d (view_begin d) = Inr ?es"
  proof (cases "delta_size d = 0")
    case True
    with size(2) have "?es = []" by simp
    with True show ?thesis by (simp add: position_begin)
  next
    case False
    then show ?thesis
      using view_loop_ahead [OF ahead_begin [OF False]] len assms(2) size(1) position_begin [of d]
      by (simp del: length_append)
  qed
  then show ?thesis
    using m dist size(2) unfolding view_elements_def by metis
qed

theorem view_elements_correct_witness:
  "\<exists>es. view_elements sample_delta = Inr es \<and> distinct (keys es)
    \<and> map_of es = delta_find MutableTypeTag sample_delta \<and> length es = 3"
proof -
  have s: "delta_size sample_delta = 3" by code_simp
  have "length (m_originalElements sample_delta) + length (m_addedElements sample_delta) = 4"
    by code_simp
  with card_view_le [OF sample_delta_ok] have "card (dom (delta_view sample_delta)) < 2 ^ 64" by simp
  with view_elements_correct [OF sample_delta_ok] s show ?thesis by auto
qed

end
