(* ===== verification/Identifier_Groups.thy ===== *)
theory Identifier_Groups
  imports Delta_Set
begin

text \<open>
  Identifiers grouped by a key, usually the height at which they expire:
  \<^verbatim>\<open>utils/IdentifierGroup.h\<close>, \<^verbatim>\<open>cache/IdentifierGroupCacheUtils.h\<close> and the touch mixin of
  \<^verbatim>\<open>cache/CacheMixins.h\<close>. A grouped set is a delta of mutable groups.
\<close>

section \<open>Groups\<close>

record ('k, 'i) IdentifierGroup =
  g_key :: 'k
  g_identifiers :: "'i oset"

definition make_group :: "'k \<Rightarrow> ('k, 'i) IdentifierGroup" where
  "make_group key = \<lparr>g_key = key, g_identifiers = []\<rparr>"

definition group_empty :: "('k, 'i) IdentifierGroup \<Rightarrow> bool" where
  "group_empty g = (g_identifiers g = [])"

definition group_size :: "('k, 'i) IdentifierGroup \<Rightarrow> nat" where
  "group_size g = length (g_identifiers g)"

definition group_add :: "'i :: linorder \<Rightarrow> ('k, 'i) IdentifierGroup \<Rightarrow> ('k, 'i) IdentifierGroup" where
  "group_add i g = g\<lparr>g_identifiers := oset_insert i (g_identifiers g)\<rparr>"

definition group_remove :: "'i :: linorder \<Rightarrow> ('k, 'i) IdentifierGroup \<Rightarrow> ('k, 'i) IdentifierGroup" where
  "group_remove i g = g\<lparr>g_identifiers := oset_erase i (g_identifiers g)\<rparr>"

type_synonym ('k, 'i) GroupedSet = "('k, ('k, 'i) IdentifierGroup) BaseSetDelta"

section \<open>Operations on a grouped set\<close>

definition AddIdentifierWithGroup ::
  "'k :: linorder \<Rightarrow> 'i :: linorder \<Rightarrow> ('k, 'i) GroupedSet \<Rightarrow> ('k, 'i) GroupedSet result" where
  "AddIdentifierWithGroup key identifier groupedSet =
     (let groupedSet =
            (if \<not> delta_contains groupedSet key
             then snd (delta_insert MutableTypeTag key (make_group key) groupedSet) else groupedSet);
          (pGroup, groupedSet) = find_mutable key groupedSet
      in case pGroup of
           None \<Rightarrow> Inl undefined_behaviour
         | Some g \<Rightarrow> Inr (write_found key (group_add identifier g) groupedSet))"

text \<open>
  The action looks the identifier up in the set that is traversed, and does nothing when it is
  not found there.
\<close>

definition ForEachIdentifierWithGroup ::
  "('k :: linorder, 'i) GroupedSet \<Rightarrow> 'k \<Rightarrow> ('i \<Rightarrow> 's \<Rightarrow> 's) \<Rightarrow> 's \<Rightarrow> 's" where
  "ForEachIdentifierWithGroup groupedSet key action s =
     (case delta_find MutableTypeTag groupedSet key of
        None \<Rightarrow> s
      | Some g \<Rightarrow> foldl (\<lambda>s identifier. action identifier s) s (g_identifiers g))"

definition RemoveIdentifierWithGroup ::
  "'k :: linorder \<Rightarrow> 'i :: linorder \<Rightarrow> ('k, 'i) GroupedSet \<Rightarrow> ('k, 'i) GroupedSet" where
  "RemoveIdentifierWithGroup key identifier groupedSet =
     (let (pGroup, groupedSet) = find_mutable key groupedSet
      in case pGroup of
           None \<Rightarrow> groupedSet
         | Some g \<Rightarrow>
             let g = group_remove identifier g;
                 groupedSet = write_found key g groupedSet
             in if group_empty g then snd (delta_remove MutableTypeTag key groupedSet) else groupedSet)"

definition FindDeactivatingIdentifiersAtHeight ::
  "('v \<Rightarrow> Height \<Rightarrow> bool) \<Rightarrow> ('i :: linorder, 'v) BaseSetDelta \<Rightarrow> (Height, 'i) GroupedSet \<Rightarrow> Height
     \<Rightarrow> 'i oset" where
  "FindDeactivatingIdentifiersAtHeight isActive elements groupedSet height =
     (case delta_find MutableTypeTag groupedSet height of
        None \<Rightarrow> []
      | Some g \<Rightarrow>
          foldl (\<lambda>identifiers identifier.
            case delta_find MutableTypeTag elements identifier of
              None \<Rightarrow> identifiers
            | Some v \<Rightarrow>
                if \<not> isActive v height \<and> isActive v (height - 1)
                then oset_insert identifier identifiers else identifiers) [] (g_identifiers g))"

text \<open>\<^verbatim>\<open>HeightBasedTouchMixin::touch\<close>: a non-const lookup marks every element that expires at the height.\<close>

definition touch ::
  "('v \<Rightarrow> Height \<Rightarrow> bool) \<Rightarrow> ('i :: linorder, 'v) BaseSetDelta \<Rightarrow> (Height, 'i) GroupedSet \<Rightarrow> Height
     \<Rightarrow> 'i oset \<times> ('i, 'v) BaseSetDelta" where
  "touch isActive elements groupedSet height =
     (let elements = ForEachIdentifierWithGroup groupedSet height
            (\<lambda>identifier elements. snd (find_mutable identifier elements)) elements
      in (FindDeactivatingIdentifiersAtHeight isActive elements groupedSet height, elements))"

section \<open>Well-formed grouped sets\<close>

definition groups_ok :: "('k :: linorder, 'i :: linorder) GroupedSet \<Rightarrow> bool" where
  "groups_ok gs \<longleftrightarrow>
     delta_ok gs
     \<and> (\<forall>key g. delta_view gs key = Some g \<longrightarrow>
          g_key g = key \<and> oset_ok (g_identifiers g) \<and> g_identifiers g \<noteq> [])"

definition group_ids :: "('k :: linorder, 'i) GroupedSet \<Rightarrow> 'k \<Rightarrow> 'i oset" where
  "group_ids gs key = (case delta_view gs key of None \<Rightarrow> [] | Some g \<Rightarrow> g_identifiers g)"

lemma oset_insert_not_Nil [simp]: "oset_insert k s \<noteq> []"
  by (cases s) auto

lemma find_mutable_write:
  assumes "delta_ok d" and "delta_view d k = Some w"
  shows "delta_ok (write_found k v (snd (find_mutable k d)))
    \<and> delta_view (write_found k v (snd (find_mutable k d))) = (delta_view d)(k \<mapsto> v)"
proof -
  have "find_mutable k d = (Some w, snd (find_mutable k d))"
    using find_mutable_fst [OF assms(1), of k] assms(2) by (metis prod.collapse)
  from find_mutable_writable [OF assms(1) this] show ?thesis
    using find_mutable_ok [OF assms(1), of k] find_mutable_view [OF assms(1), of k]
    by (simp add: write_found_ok write_found_view)
qed

lemma AddIdentifierWithGroup_correct:
  assumes "groups_ok gs"
  obtains gs' where "AddIdentifierWithGroup key i gs = Inr gs'" "groups_ok gs'"
    "delta_view gs' = (delta_view gs)(key \<mapsto> \<lparr>g_key = key, g_identifiers = oset_insert i (group_ids gs key)\<rparr>)"
proof -
  define gs1 where "gs1 = (if \<not> delta_contains gs key
    then snd (delta_insert MutableTypeTag key (make_group key) gs) else gs)"
  have ok: "delta_ok gs" using assms by (simp add: groups_ok_def)
  then have ok1: "delta_ok gs1" by (simp add: gs1_def insert_mutable_ok)
  obtain g where g: "delta_view gs1 key = Some g" "g_key g = key" "g_identifiers g = group_ids gs key"
  proof (cases "delta_view gs key")
    case None
    then show ?thesis using ok that [of "make_group key"]
      by (simp add: gs1_def contains_iff insert_mutable_view domIff make_group_def group_ids_def)
  next
    case (Some g)
    then show ?thesis using ok assms that [of g]
      by (simp add: gs1_def contains_iff domIff group_ids_def groups_ok_def)
  qed
  have others: "(delta_view gs1)(key \<mapsto> x) = (delta_view gs)(key \<mapsto> x)" for x
    using ok by (simp add: gs1_def insert_mutable_view)
  let ?gs = "write_found key (group_add i g) (snd (find_mutable key gs1))"
  have gs': "delta_ok ?gs" "delta_view ?gs = (delta_view gs)(key \<mapsto> group_add i g)"
    using find_mutable_write [OF ok1 g(1)] others by simp_all
  have gi: "group_add i g = \<lparr>g_key = key, g_identifiers = oset_insert i (group_ids gs key)\<rparr>"
    using g by (simp add: group_add_def)
  have "AddIdentifierWithGroup key i gs = Inr ?gs"
    using find_mutable_fst [OF ok1, of key] g(1)
    by (simp add: AddIdentifierWithGroup_def gs1_def [symmetric] Let_def case_prod_unfold)
  moreover have "oset_ok (group_ids gs key)"
    using assms by (auto simp: groups_ok_def group_ids_def split: option.splits)
  then have "groups_ok ?gs"
    using assms gs' by (auto simp: groups_ok_def gi oset_ok_insert split: if_splits)
  ultimately show ?thesis using that gs'(2) gi by metis
qed

lemma RemoveIdentifierWithGroup_correct:
  assumes "groups_ok gs"
  shows "groups_ok (RemoveIdentifierWithGroup key i gs)
    \<and> delta_view (RemoveIdentifierWithGroup key i gs) =
        (if delta_view gs key = None then delta_view gs
         else if oset_erase i (group_ids gs key) = [] then (delta_view gs)(key := None)
         else (delta_view gs)(key \<mapsto> \<lparr>g_key = key, g_identifiers = oset_erase i (group_ids gs key)\<rparr>))"
proof (cases "delta_view gs key")
  case None
  have ok: "delta_ok gs" using assms by (simp add: groups_ok_def)
  with None have "RemoveIdentifierWithGroup key i gs = snd (find_mutable key gs)"
    using find_mutable_fst [OF ok, of key]
    by (simp add: RemoveIdentifierWithGroup_def case_prod_unfold)
  with None assms ok show ?thesis by (auto simp: groups_ok_def find_mutable_ok find_mutable_view)
next
  case (Some g)
  have ok: "delta_ok gs" using assms by (simp add: groups_ok_def)
  have g: "g_key g = key" "oset_ok (g_identifiers g)" "group_ids gs key = g_identifiers g"
    using assms Some by (simp_all add: groups_ok_def group_ids_def)
  let ?g = "group_remove i g"
  have gi: "?g = \<lparr>g_key = key, g_identifiers = oset_erase i (group_ids gs key)\<rparr>"
    using g by (simp add: group_remove_def)
  let ?gs = "write_found key ?g (snd (find_mutable key gs))"
  have gs: "delta_ok ?gs" "delta_view ?gs = (delta_view gs)(key \<mapsto> ?g)"
    using find_mutable_write [OF ok Some] by simp_all
  have "RemoveIdentifierWithGroup key i gs =
      (if group_empty ?g then snd (delta_remove MutableTypeTag key ?gs) else ?gs)"
    using find_mutable_fst [OF ok, of key] Some
    by (simp add: RemoveIdentifierWithGroup_def case_prod_unfold Let_def)
  moreover have "oset_ok (oset_erase i (group_ids gs key))" using g by (simp add: oset_ok_erase)
  ultimately show ?thesis
    using gs assms Some by (auto simp: groups_ok_def group_empty_def gi remove_ok remove_view split: if_splits)
qed

lemma oset_erase_insert: "oset_ok s \<Longrightarrow> i \<notin> set s \<Longrightarrow> oset_erase i (oset_insert i s) = s"
  by (rule oset_ext) (auto simp: oset_ok_insert oset_ok_erase)

text \<open>Removing an identifier that was just added to a group restores the grouped set.\<close>

lemma add_remove_group:
  assumes "groups_ok gs" and "i \<notin> set (group_ids gs key)" and "AddIdentifierWithGroup key i gs = Inr gs'"
  shows "delta_view (RemoveIdentifierWithGroup key i gs') = delta_view gs"
proof -
  obtain gs'' where "AddIdentifierWithGroup key i gs = Inr gs''" and ok: "groups_ok gs''"
    and v: "delta_view gs'' = (delta_view gs)(key \<mapsto> \<lparr>g_key = key, g_identifiers = oset_insert i (group_ids gs key)\<rparr>)"
    using AddIdentifierWithGroup_correct [OF assms(1)] .
  with assms(3) have gs': "gs'' = gs'" by simp
  have "oset_ok (group_ids gs key)"
    using assms(1) by (auto simp: groups_ok_def group_ids_def split: option.splits)
  then have e: "oset_erase i (group_ids gs' key) = group_ids gs key"
    using v assms(2) by (simp add: gs' group_ids_def oset_erase_insert)
  note r = RemoveIdentifierWithGroup_correct [OF ok, of key i, unfolded gs' e, THEN conjunct2]
  show ?thesis
  proof (cases "delta_view gs key")
    case None
    then have "group_ids gs key = []" by (simp add: group_ids_def)
    with r v None show ?thesis by (simp add: gs' fun_upd_idem)
  next
    case (Some g)
    then have "group_ids gs key = g_identifiers g" "g_identifiers g \<noteq> []" "g_key g = key"
      using assms(1) by (simp_all add: group_ids_def groups_ok_def)
    with r v Some show ?thesis by (simp add: gs' fun_upd_idem)
  qed
qed

lemma ForEach_invariant:
  assumes "P s" and "\<And>i s. i \<in> set (group_ids gs key) \<Longrightarrow> P s \<Longrightarrow> P (action i s)"
  shows "P (ForEachIdentifierWithGroup gs key action s)"
proof -
  have "P (foldl (\<lambda>s i. action i s) s is)" if "P s" "set is \<subseteq> set (group_ids gs key)" for s "is"
    using that by (induction "is" arbitrary: s) (auto intro: assms(2))
  then show ?thesis
    using assms(1) by (auto simp: ForEachIdentifierWithGroup_def group_ids_def split: option.splits)
qed

section \<open>Properties\<close>

text \<open>
  Touching a cache at a height does not change what it shows, and returns exactly the identifiers
  registered at that height whose element was active one block before and is no longer active.
\<close>

theorem touch_correct:
  assumes "delta_ok elements" and "groups_ok gs"
  shows "let (ids, elements') = touch isActive elements gs height in
    delta_ok elements'
    \<and> delta_find MutableTypeTag elements' = delta_find MutableTypeTag elements
    \<and> oset_ok ids
    \<and> set ids = {i \<in> set (group_ids gs height). \<exists>v. delta_find MutableTypeTag elements i = Some v
         \<and> \<not> isActive v height \<and> isActive v (height - 1)}"
proof -
  define es where "es = ForEachIdentifierWithGroup gs height
    (\<lambda>identifier elements. snd (find_mutable identifier elements)) elements"
  have es: "delta_ok es \<and> delta_view es = delta_view elements"
    unfolding es_def
    by (rule ForEach_invariant) (simp_all add: assms(1) find_mutable_ok find_mutable_view)
  let ?P = "\<lambda>i. \<exists>v. delta_view es i = Some v \<and> \<not> isActive v height \<and> isActive v (height - 1)"
  let ?f = "\<lambda>identifiers identifier. case delta_view es identifier of
      None \<Rightarrow> identifiers
    | Some v \<Rightarrow> if \<not> isActive v height \<and> isActive v (height - 1)
        then oset_insert identifier identifiers else identifiers"
  have step: "oset_ok acc \<Longrightarrow> oset_ok (?f acc i)"
    "set (?f acc i) = set acc \<union> (if ?P i then {i} else {})" for acc i
    by (simp_all add: oset_ok_insert split: option.splits)
  have fold: "oset_ok (foldl ?f acc is) \<and> set (foldl ?f acc is) = set acc \<union> {i \<in> set is. ?P i}"
    if "oset_ok acc" for acc "is"
    using that
  proof (induction "is" arbitrary: acc)
    case (Cons i "is")
    then show ?case using step [of acc i] Cons.IH [of "?f acc i"] by (simp only: foldl.simps) auto
  qed simp
  have "oset_ok (FindDeactivatingIdentifiersAtHeight isActive es gs height)
      \<and> set (FindDeactivatingIdentifiersAtHeight isActive es gs height) = {i \<in> set (group_ids gs height). ?P i}"
    using fold [of "[]"]
    by (simp add: FindDeactivatingIdentifiersAtHeight_def group_ids_def split: option.splits)
  with es show ?thesis by (simp add: touch_def es_def [symmetric] Let_def)
qed

theorem touch_correct_witness:
  "fst (touch (\<lambda>v h. h < v) (make_delta [(1 :: u64, 5 :: u64), (2, 9), (3, 5)])
     (make_delta [(5, \<lparr>g_key = 5, g_identifiers = [1, 2]\<rparr>)]) 5) = [1]
   \<and> delta_find MutableTypeTag (snd (touch (\<lambda>v h. h < v) (make_delta [(1 :: u64, 5 :: u64), (2, 9), (3, 5)])
     (make_delta [(5, \<lparr>g_key = 5, g_identifiers = [1, 2]\<rparr>)]) 5))
       = map_of [(1, 5), (2, 9), (3, 5)]"
proof -
  let ?e = "make_delta [(1 :: u64, 5 :: u64), (2, 9), (3, 5)]"
  let ?g = "make_delta [(5, \<lparr>g_key = 5, g_identifiers = [1, 2]\<rparr>)] :: (Height, u64) GroupedSet"
  have e: "delta_ok ?e" by (rule make_delta_ok) code_simp
  have "delta_ok ?g" by (rule make_delta_ok) code_simp
  then have g: "groups_ok ?g" by (auto simp: groups_ok_def make_delta_view oset_ok_def split: if_splits)
  have "fst (touch (\<lambda>v h. h < v) ?e ?g 5) = [1]" by code_simp
  with touch_correct [OF e g, of "\<lambda>v h. h < v" 5] show ?thesis
    by (simp add: case_prod_unfold Let_def make_delta_view)
qed

end
