(* ===== verification/Namespace_Validators.thy ===== *)
theory Namespace_Validators
  imports Namespace_Cache
begin

text \<open>
  The validators of \<^verbatim>\<open>plugins/txes/namespace/src/validators\<close>, the name checker and the identifier
  generator of \<^verbatim>\<open>model/\<close>, and the alias resolvers of \<^verbatim>\<open>plugins/NamespacePlugin.cpp\<close>.

  A validator reads the cache through \<^verbatim>\<open>find\<close>, which throws for an inconsistent cache, so a stateful
  validator returns a \<open>result\<close>. SHA3-256 is an argument of the definitions that hash.
\<close>

datatype namespace_failure =
    Failure_Namespace_Invalid_Duration
  | Failure_Namespace_Invalid_Name
  | Failure_Namespace_Name_Id_Mismatch
  | Failure_Namespace_Expired
  | Failure_Namespace_Owner_Conflict
  | Failure_Namespace_Id_Mismatch
  | Failure_Namespace_Invalid_Registration_Type
  | Failure_Namespace_Root_Name_Reserved
  | Failure_Namespace_Too_Deep
  | Failure_Namespace_Unknown_Parent
  | Failure_Namespace_Already_Exists
  | Failure_Namespace_Already_Active
  | Failure_Namespace_Eternal_After_Nemesis_Block
  | Failure_Namespace_Max_Children_Exceeded
  | Failure_Namespace_Alias_Invalid_Action
  | Failure_Namespace_Unknown
  | Failure_Namespace_Alias_Already_Exists
  | Failure_Namespace_Unknown_Alias
  | Failure_Namespace_Alias_Inconsistent_Unlink_Type
  | Failure_Namespace_Alias_Inconsistent_Unlink_Data
  | Failure_Namespace_Alias_Invalid_Address

type_synonym namespace_validation = "namespace_failure ValidationResult result"

section \<open>Stateless validators\<close>

definition ValidateLessThanOrEqual :: "'a :: ord \<Rightarrow> 'a \<Rightarrow> 'f \<Rightarrow> 'f ValidationResult" where
  "ValidateLessThanOrEqual value maxValue failureResult =
     (if value \<le> maxValue then Success else Failure failureResult)"

text \<open>Actions and registration types arrive as raw bytes.\<close>

definition AliasActionValidator :: "u8 \<Rightarrow> namespace_failure ValidationResult" where
  "AliasActionValidator aliasAction =
     ValidateLessThanOrEqual aliasAction 1 Failure_Namespace_Alias_Invalid_Action"

definition NamespaceRegistrationTypeValidator :: "u8 \<Rightarrow> namespace_failure ValidationResult" where
  "NamespaceRegistrationTypeValidator registrationType =
     ValidateLessThanOrEqual registrationType 1 Failure_Namespace_Invalid_Registration_Type"

definition RootNamespaceValidator ::
  "BlockDuration \<Rightarrow> BlockDuration \<Rightarrow> RootNamespaceNotification \<Rightarrow> namespace_failure ValidationResult" where
  "RootNamespaceValidator minDuration maxDuration notification =
     (let isInRange = (minDuration \<le> rn_Duration notification \<and> rn_Duration notification \<le> maxDuration)
      in if Eternal_Artifact_Duration \<noteq> rn_Duration notification \<and> \<not> isInRange
         then Failure Failure_Namespace_Invalid_Duration else Success)"

definition IsAlphaNumeric :: "u8 \<Rightarrow> bool" where
  "IsAlphaNumeric ch \<longleftrightarrow> (ch \<ge> 97 \<and> ch \<le> 122) \<or> (ch \<ge> 48 \<and> ch \<le> 57)"

definition IsValidChar :: "u8 \<Rightarrow> bool" where
  "IsValidChar ch \<longleftrightarrow> IsAlphaNumeric ch \<or> 45 = ch \<or> 95 = ch"

definition IsValidName :: "bytes \<Rightarrow> bool" where
  "IsValidName name =
     (if length name = 0 then False else IsAlphaNumeric (name ! 0) \<and> list_all IsValidChar (drop 1 name))"

text \<open>The eight bytes of an identifier in memory (little endian), and back.\<close>

definition to_bytes :: "u64 \<Rightarrow> bytes" where
  "to_bytes w = map (\<lambda>i. ucast (drop_bit (8 * i) w)) [0..<8]"

definition from_bytes :: "bytes \<Rightarrow> u64" where
  "from_bytes bs = foldr (\<lambda>b w. push_bit 8 w + ucast b) bs 0"

definition Namespace_Flag :: u64 where
  "Namespace_Flag = push_bit 63 1"

definition GenerateNamespaceId :: "(bytes \<Rightarrow> Hash256) \<Rightarrow> NamespaceId \<Rightarrow> bytes \<Rightarrow> NamespaceId" where
  "GenerateNamespaceId sha3 parent name =
     or (from_bytes (take 8 (sha3 (to_bytes parent @ name)))) Namespace_Flag"

definition GenerateRootNamespaceId :: "(bytes \<Rightarrow> Hash256) \<Rightarrow> bytes \<Rightarrow> NamespaceId" where
  "GenerateRootNamespaceId sha3 name = GenerateNamespaceId sha3 Namespace_Base_Id name"

record NamespaceNameNotification =
  nn_NamespaceId :: NamespaceId
  nn_ParentId :: NamespaceId
  nn_Name :: bytes

definition NamespaceNameValidator ::
  "(bytes \<Rightarrow> Hash256) \<Rightarrow> u8 \<Rightarrow> NamespaceNameNotification \<Rightarrow> namespace_failure ValidationResult" where
  "NamespaceNameValidator sha3 maxNameSize notification =
     (if unat maxNameSize < length (nn_Name notification) \<or> \<not> IsValidName (nn_Name notification)
      then Failure Failure_Namespace_Invalid_Name
      else if nn_NamespaceId notification
        \<noteq> GenerateNamespaceId sha3 (nn_ParentId notification) (nn_Name notification)
      then Failure Failure_Namespace_Name_Id_Mismatch
      else Success)"

definition NamespaceReservedNameValidator ::
  "(bytes \<Rightarrow> Hash256) \<Rightarrow> bytes list \<Rightarrow> Height \<Rightarrow> NamespaceNameNotification \<Rightarrow> namespace_failure ValidationResult" where
  "NamespaceReservedNameValidator sha3 reservedRootNamespaceNames height notification =
     (let reservedRootIds = map (GenerateNamespaceId sha3 Namespace_Base_Id) reservedRootNamespaceNames in
      if 1 = height then Success
      else
        let namespaceId = (if Namespace_Base_Id = nn_ParentId notification
                           then nn_NamespaceId notification else nn_ParentId notification)
        in if namespaceId \<notin> set reservedRootIds then Success
           else Failure Failure_Namespace_Root_Name_Reserved)"

section \<open>Stateful validators\<close>

definition IsEternal :: "NamespaceLifetime \<Rightarrow> bool" where
  "IsEternal lifetime = (max_Height = End lifetime)"

definition RootNamespaceAvailabilityValidator ::
  "Height \<Rightarrow> RootNamespaceNotification \<Rightarrow> NamespaceCacheDelta \<Rightarrow> namespace_validation" where
  "RootNamespaceAvailabilityValidator height notification c =
     (if 1 \<noteq> height \<and> Eternal_Artifact_Duration = rn_Duration notification
      then Inr (Failure Failure_Namespace_Eternal_After_Nemesis_Block)
      else bind_result (namespace_find c (rn_NamespaceId notification)) (\<lambda>e. case e of
          None \<Rightarrow> Inr Success
        | Some entry \<Rightarrow>
            let root = e_root entry in
            if IsEternal (m_lifetime root) \<or> Eternal_Artifact_Duration = rn_Duration notification
            then Inr (Failure Failure_Namespace_Invalid_Duration)
            else if \<not> lifetime_isActive (m_lifetime root) height then Inr Success
            else if m_ownerAddress root = rn_Owner notification then Inr Success
            else Inr (Failure Failure_Namespace_Owner_Conflict)))"

definition AddOverflows :: "Height \<Rightarrow> BlockDuration \<Rightarrow> bool" where
  "AddOverflows height duration = (height + duration < height)"

definition CalculateMaxLifetimeEnd :: "Height \<Rightarrow> BlockDuration \<Rightarrow> Height" where
  "CalculateMaxLifetimeEnd height duration =
     (if AddOverflows height duration then max_Height else height + duration)"

definition MaxNamespaceDuration :: "BlockDuration \<Rightarrow> BlockDuration \<Rightarrow> BlockDuration" where
  "MaxNamespaceDuration maxDuration gracePeriodDuration = maxDuration + gracePeriodDuration"

definition NamespaceDurationOverflowValidator ::
  "BlockDuration \<Rightarrow> Height \<Rightarrow> RootNamespaceNotification \<Rightarrow> NamespaceCacheDelta \<Rightarrow> namespace_validation" where
  "NamespaceDurationOverflowValidator maxNamespaceDuration height notification c =
     (if AddOverflows height (rn_Duration notification) then Inr (Failure Failure_Namespace_Invalid_Duration)
      else bind_result (namespace_find c (rn_NamespaceId notification)) (\<lambda>e. case e of
          None \<Rightarrow> Inr Success
        | Some entry \<Rightarrow>
            let root = e_root entry in
            if \<not> lifetime_isActive (m_lifetime root) height then Inr Success
            else if AddOverflows (End (m_lifetime root)) (rn_Duration notification)
            then Inr (Failure Failure_Namespace_Invalid_Duration)
            else
              let newLifetimeEnd = End (m_lifetime root) + rn_Duration notification;
                  maxLifetimeEnd = CalculateMaxLifetimeEnd height maxNamespaceDuration
              in if newLifetimeEnd > maxLifetimeEnd then Inr (Failure Failure_Namespace_Invalid_Duration)
                 else Inr Success))"

definition ChildNamespaceAvailabilityValidator ::
  "u8 \<Rightarrow> Height \<Rightarrow> ChildNamespaceNotification \<Rightarrow> NamespaceCacheDelta \<Rightarrow> namespace_validation" where
  "ChildNamespaceAvailabilityValidator maxNamespaceDepth height notification c =
     (if delta_contains (m_pNamespaceById c) (cn_NamespaceId notification)
      then Inr (Failure Failure_Namespace_Already_Exists)
      else bind_result (namespace_find c (cn_ParentId notification)) (\<lambda>e. case e of
          None \<Rightarrow> Inr (Failure Failure_Namespace_Unknown_Parent)
        | Some parentEntry \<Rightarrow>
            if unat maxNamespaceDepth = length (m_path (e_ns parentEntry))
            then Inr (Failure Failure_Namespace_Too_Deep)
            else
              let root = e_root parentEntry in
              bind_result (isActiveExcludingGracePeriod (m_lifetime root) height (m_gracePeriodDuration c))
                (\<lambda>active.
                  if \<not> active then Inr (Failure Failure_Namespace_Expired)
                  else if m_ownerAddress root \<noteq> cn_Owner notification
                  then Inr (Failure Failure_Namespace_Owner_Conflict)
                  else Inr Success)))"

definition RootNamespaceMaxChildrenValidator ::
  "u16 \<Rightarrow> ChildNamespaceNotification \<Rightarrow> NamespaceCacheDelta \<Rightarrow> namespace_validation" where
  "RootNamespaceMaxChildrenValidator maxChildren notification c =
     bind_result (namespace_get c (cn_ParentId notification)) (\<lambda>parentEntry.
       if unat maxChildren \<le> root_size (e_store parentEntry) (e_root parentEntry)
       then Inr (Failure Failure_Namespace_Max_Children_Exceeded) else Inr Success)"

text \<open>The owner of the notification is already resolved.\<close>

definition RequiredNamespaceValidator ::
  "Height \<Rightarrow> Address \<Rightarrow> NamespaceId \<Rightarrow> NamespaceCacheDelta \<Rightarrow> namespace_validation" where
  "RequiredNamespaceValidator height owner namespaceId c =
     bind_result (namespace_find c namespaceId) (\<lambda>e. case e of
         None \<Rightarrow> Inr (Failure Failure_Namespace_Unknown)
       | Some entry \<Rightarrow>
           let root = e_root entry in
           bind_result (isActiveExcludingGracePeriod (m_lifetime root) height (m_gracePeriodDuration c))
             (\<lambda>active.
               if \<not> active then Inr (Failure Failure_Namespace_Expired)
               else if m_ownerAddress root = owner then Inr Success
               else Inr (Failure Failure_Namespace_Owner_Conflict)))"

definition AliasAvailabilityValidator ::
  "NamespaceId \<Rightarrow> AliasAction \<Rightarrow> NamespaceCacheDelta \<Rightarrow> namespace_validation" where
  "AliasAvailabilityValidator namespaceId aliasAction c =
     bind_result (namespace_find c namespaceId) (\<lambda>e. case e of
         None \<Rightarrow> Inr (Failure Failure_Namespace_Unknown)
       | Some entry \<Rightarrow>
           bind_result (root_alias (e_store entry) (e_root entry) namespaceId) (\<lambda>alias.
             let aliasType = alias_type alias in
             if Link = aliasAction \<and> AliasType_None \<noteq> aliasType
             then Inr (Failure Failure_Namespace_Alias_Already_Exists)
             else if Unlink = aliasAction \<and> AliasType_None = aliasType
             then Inr (Failure Failure_Namespace_Unknown_Alias)
             else Inr Success))"

text \<open>
  \<^verbatim>\<open>UnlinkAliasedDataConsistencyValidator\<close> for both traits: the alias type and the accessor that reads
  the aliased data from an alias are arguments.
\<close>

definition UnlinkAliasedDataConsistencyValidator ::
  "AliasType \<Rightarrow> (NamespaceAlias \<Rightarrow> 'd result) \<Rightarrow> NamespaceId \<Rightarrow> AliasAction \<Rightarrow> 'd \<Rightarrow> NamespaceCacheDelta
     \<Rightarrow> namespace_validation" where
  "UnlinkAliasedDataConsistencyValidator aliasedType getAliased namespaceId aliasAction aliasedData c =
     (if Unlink \<noteq> aliasAction then Inr Success
      else bind_result (namespace_find c namespaceId) (\<lambda>e. case e of
          None \<Rightarrow> Inr (Failure Failure_Namespace_Unknown)
        | Some entry \<Rightarrow>
            bind_result (root_alias (e_store entry) (e_root entry) namespaceId) (\<lambda>alias.
              if aliasedType \<noteq> alias_type alias
              then Inr (Failure Failure_Namespace_Alias_Inconsistent_Unlink_Type)
              else bind_result (getAliased alias) (\<lambda>aliased.
                if aliased \<noteq> aliasedData then Inr (Failure Failure_Namespace_Alias_Inconsistent_Unlink_Data)
                else Inr Success))))"

text \<open>The account state cache is represented by the set of addresses it finds.\<close>

definition AddressAliasValidator :: "(Address \<Rightarrow> bool) \<Rightarrow> Address \<Rightarrow> namespace_failure ValidationResult" where
  "AddressAliasValidator account_found aliasedData =
     (if account_found aliasedData then Success else Failure Failure_Namespace_Alias_Invalid_Address)"

section \<open>Alias resolvers\<close>

text \<open>\<^verbatim>\<open>RunNamespaceResolver\<close>: \<open>None\<close> when it returns false.\<close>

definition RunNamespaceResolver ::
  "NamespaceCacheDelta \<Rightarrow> NamespaceId \<Rightarrow> AliasType \<Rightarrow> (NamespaceAlias \<Rightarrow> 'd result) \<Rightarrow> 'd option result" where
  "RunNamespaceResolver c namespaceId aliasType aliasValueAccessor =
     bind_result (namespace_find c namespaceId) (\<lambda>e. case e of
         None \<Rightarrow> Inr None
       | Some entry \<Rightarrow>
           bind_result (root_alias (e_store entry) (e_root entry) namespaceId) (\<lambda>alias.
             if aliasType \<noteq> alias_type alias then Inr None
             else bind_result (aliasValueAccessor alias) (\<lambda>v. Inr (Some v))))"

text \<open>The two mosaic resolvers in the order they are registered; the first that succeeds wins.\<close>

definition ResolveMosaicId :: "NamespaceCacheDelta \<Rightarrow> u64 \<Rightarrow> MosaicId option result" where
  "ResolveMosaicId c unresolved =
     (if 0 = and Namespace_Flag unresolved then Inr (Some unresolved)
      else RunNamespaceResolver c unresolved AliasType_Mosaic alias_mosaicId)"

text \<open>
  An unresolved address is 24 bytes; the lowest bit of its first byte marks an alias, whose namespace
  identifier is in the following eight bytes.
\<close>

definition ResolveAddress :: "NamespaceCacheDelta \<Rightarrow> bytes \<Rightarrow> Address option result" where
  "ResolveAddress c unresolved =
     (if 0 = and 1 (unresolved ! 0) then Inr (Some unresolved)
      else RunNamespaceResolver c (from_bytes (take 8 (drop 1 unresolved))) AliasType_Address alias_address)"

end
