(* ===== verification/Namespace_Invariant.thy ===== *)
theory Namespace_Invariant
  imports Namespace_Validators
begin

text \<open>
  Correctness of the namespace cache. What the cache shows is a map from root identifiers to the
  views of their histories (\<open>cache_view\<close>) and the expiry groups. The flat map and the two size
  counters are redundant: \<open>ncache_ok\<close> says that they are functions of the view. Every operation is
  shown to keep \<open>ncache_ok\<close> and to have its effect on the view, from which the rollback theorems
  follow.

  Namespace identifiers are hashes of the parent identifier and the name. The invariant is relative
  to a function \<open>P\<close> from identifiers to paths: an identifier has one path only.
\<close>

section \<open>Views of histories\<close>

definition v_owner :: "root_view \<Rightarrow> Address" where "v_owner v = fst (snd v)"
definition v_lifetime :: "root_view \<Rightarrow> NamespaceLifetime" where "v_lifetime v = fst (snd (snd v))"
definition v_alias :: "root_view \<Rightarrow> NamespaceAlias" where "v_alias v = fst (snd (snd (snd v)))"
definition v_children :: "root_view \<Rightarrow> Children" where "v_children v = snd (snd (snd (snd v)))"

lemmas v_defs = v_owner_def v_lifetime_def v_alias_def v_children_def

lemma v_root_view [simp]:
  "v_owner (root_view st r) = m_ownerAddress r" "v_lifetime (root_view st r) = m_lifetime r"
  "v_alias (root_view st r) = m_alias r" "v_children (root_view st r) = root_children st r"
  by (simp_all add: v_defs root_view_def)

lemma v_with_children [simp]:
  "v_owner (with_children ch v) = v_owner v" "v_lifetime (with_children ch v) = v_lifetime v"
  "v_alias (with_children ch v) = v_alias v" "v_children (with_children ch v) = ch"
  by (simp_all add: v_defs with_children_def case_prod_unfold)

definition active_size :: "root_view list \<Rightarrow> nat" where
  "active_size vs = (if vs = [] then 0 else Suc (length (v_children (last vs))))"

definition deep_size :: "root_view list \<Rightarrow> nat" where
  "deep_size vs = length vs + sum_list (map (\<lambda>v. length (v_children v)) vs)"

lemma history_view_Nil [simp]: "history_view h = [] \<longleftrightarrow> m_rootHistory h = []"
  by (simp add: history_view_def)

lemma length_history_view [simp]: "length (history_view h) = historyDepth h"
  by (simp add: history_view_def historyDepth_def)

lemma last_history_view:
  "m_rootHistory h \<noteq> [] \<Longrightarrow> last (history_view h) = root_view (h_store h) (history_back h)"
  by (simp add: history_view_def history_back_def last_map)

lemma GetNamespaceSizes_view:
  "GetNamespaceSizes h = (active_size (history_view h), deep_size (history_view h))"
  by (auto simp: GetNamespaceSizes_def active_size_def deep_size_def numActiveRootChildren_def
      numAllHistoricalChildren_def history_empty_def root_size_def last_history_view)
    (simp_all add: history_view_def comp_def root_size_def [abs_def])

lemma sizes_Nil [simp]: "active_size [] = 0" "deep_size [] = 0"
  by (simp_all add: active_size_def deep_size_def)

definition views_ok :: "(NamespaceId \<Rightarrow> Path) \<Rightarrow> NamespaceId \<Rightarrow> root_view list \<Rightarrow> bool" where
  "views_ok P i vs \<longleftrightarrow>
     vs \<noteq> [] \<and> P i = [i]
     \<and> (\<forall>v \<in> set vs. \<forall>kd \<in> set (v_children v). c_Path (snd kd) = P (fst kd))
     \<and> sorted (map (\<lambda>v. End (v_lifetime v)) vs)"

definition hist_ok :: "(NamespaceId \<Rightarrow> Path) \<Rightarrow> NamespaceId \<Rightarrow> RootNamespaceHistory \<Rightarrow> bool" where
  "hist_ok P i h \<longleftrightarrow> history_ok h \<and> h_id h = i \<and> views_ok P i (history_view h)"

abbreviation active_children :: "RootNamespaceHistory \<Rightarrow> Children" where
  "active_children h \<equiv> root_children (h_store h) (history_back h)"

lemma hist_okD:
  assumes "hist_ok P i h"
  shows "history_ok h" "h_id h = i" "m_rootHistory h \<noteq> []" "P i = [i]" "m_id (history_back h) = i"
    "children_ok i (active_children h)" "\<not> history_empty h"
    "m_pChildren (history_back h) < length (h_store h)"
    "v_children (last (history_view h)) = active_children h"
    "active_size (history_view h) = Suc (length (active_children h))"
proof -
  show h: "history_ok h" "h_id h = i" "m_rootHistory h \<noteq> []" "P i = [i]"
    using assms by (auto simp: hist_ok_def views_ok_def)
  show "m_id (history_back h) = i" "children_ok i (active_children h)"
    "m_pChildren (history_back h) < length (h_store h)"
    using back_ok [OF h(1,3)] h(2) by (simp_all add: root_ok_def)
  show "\<not> history_empty h" using h(3) by (simp add: history_empty_def)
  show "v_children (last (history_view h)) = active_children h"
    "active_size (history_view h) = Suc (length (active_children h))"
    using h(3) by (simp_all add: last_history_view active_size_def)
qed

text \<open>An identifier shown by a history: its root identifier or an active child, with its path.\<close>

definition shown :: "NamespaceId \<Rightarrow> root_view list \<Rightarrow> NamespaceId \<Rightarrow> bool" where
  "shown i vs k \<longleftrightarrow> k = i \<or> map_of (v_children (last vs)) k \<noteq> None"

definition flat_of ::
  "(NamespaceId \<Rightarrow> Path) \<Rightarrow> (NamespaceId \<rightharpoonup> root_view list) \<Rightarrow> NamespaceId \<rightharpoonup> Namespace" where
  "flat_of P vm k =
     (case vm (hd (P k)) of
        None \<Rightarrow> None
      | Some vs \<Rightarrow> if shown (hd (P k)) vs k then Some \<lparr>m_path = P k\<rparr> else None)"

definition total :: "(root_view list \<Rightarrow> nat) \<Rightarrow> (NamespaceId \<rightharpoonup> root_view list) \<Rightarrow> nat" where
  "total f vm = (\<Sum>i \<in> dom vm. f (the (vm i)))"

definition cache_view :: "NamespaceCacheDelta \<Rightarrow> NamespaceId \<rightharpoonup> root_view list" where
  "cache_view c i = map_option history_view (delta_view (m_pHistoryById c) i)"

definition ncache_ok :: "(NamespaceId \<Rightarrow> Path) \<Rightarrow> NamespaceCacheDelta \<Rightarrow> bool" where
  "ncache_ok P c \<longleftrightarrow>
     delta_ok (m_pHistoryById c) \<and> delta_ok (m_pNamespaceById c)
     \<and> groups_ok (m_pRootNamespaceIdsByExpiryHeight c)
     \<and> (\<forall>i h. delta_view (m_pHistoryById c) i = Some h \<longrightarrow> hist_ok P i h)
     \<and> delta_view (m_pNamespaceById c) = flat_of P (cache_view c)
     \<and> m_activeSize c = of_nat (total active_size (cache_view c))
     \<and> m_deepSize c = of_nat (total deep_size (cache_view c))"

lemma ncache_okD:
  assumes "ncache_ok P c"
  shows "delta_ok (m_pHistoryById c)" "delta_ok (m_pNamespaceById c)"
    "groups_ok (m_pRootNamespaceIdsByExpiryHeight c)"
    "\<And>i h. delta_view (m_pHistoryById c) i = Some h \<Longrightarrow> hist_ok P i h"
    "delta_view (m_pNamespaceById c) = flat_of P (cache_view c)"
    "m_activeSize c = of_nat (total active_size (cache_view c))"
    "m_deepSize c = of_nat (total deep_size (cache_view c))"
  using assms by (simp_all add: ncache_ok_def)

section \<open>Updating the view at one root\<close>

lemma total_upd:
  assumes "finite (dom vm)"
  shows "(of_nat (total f (vm(i \<mapsto> vs))) :: u64) =
    of_nat (total f vm) - of_nat (case vm i of None \<Rightarrow> 0 | Some ws \<Rightarrow> f ws) + of_nat (f vs)"
proof -
  let ?D = "dom vm - {i}"
  have "total f (vm(i \<mapsto> vs)) = f vs + (\<Sum>j \<in> ?D. f (the (vm j)))"
    unfolding total_def using assms by (auto simp: sum.insert_remove intro: sum.cong)
  moreover have "total f vm = (case vm i of None \<Rightarrow> 0 | Some ws \<Rightarrow> f ws) + (\<Sum>j \<in> ?D. f (the (vm j)))"
  proof (cases "vm i")
    case None
    then have "?D = dom vm" by auto
    with None show ?thesis by (simp add: total_def)
  next
    case (Some ws)
    then have "i \<in> dom vm" by auto
    with Some show ?thesis using sum.remove [OF assms, of i "\<lambda>j. f (the (vm j))"] by (simp add: total_def)
  qed
  ultimately show ?thesis by simp
qed

lemma total_del:
  assumes "finite (dom vm)" and "vm i = Some ws"
  shows "(of_nat (total f (vm(i := None))) :: u64) = of_nat (total f vm) - of_nat (f ws)"
proof -
  have "i \<in> dom vm" using assms(2) by auto
  then have "total f vm = f ws + (\<Sum>j \<in> dom vm - {i}. f (the (vm j)))"
    using assms(2) sum.remove [OF assms(1), of i "\<lambda>j. f (the (vm j))"] by (simp add: total_def)
  moreover have "total f (vm(i := None)) = (\<Sum>j \<in> dom vm - {i}. f (the (vm j)))"
    unfolding total_def by (auto intro: sum.cong)
  ultimately show ?thesis by simp
qed

lemma flat_of_upd:
  "flat_of P (vm(i \<mapsto> vs)) k =
     (if hd (P k) = i then (if shown i vs k then Some \<lparr>m_path = P k\<rparr> else None) else flat_of P vm k)"
  by (simp add: flat_of_def)

lemma flat_of_del: "flat_of P (vm(i := None)) k = (if hd (P k) = i then None else flat_of P vm k)"
  by (simp add: flat_of_def)

lemma finite_cache_view: "delta_ok (m_pHistoryById c) \<Longrightarrow> finite (dom (cache_view c))"
proof -
  assume "delta_ok (m_pHistoryById c)"
  moreover have "dom (cache_view c) = dom (delta_view (m_pHistoryById c))"
    by (auto simp: cache_view_def)
  ultimately show ?thesis by (simp add: finite_view)
qed

text \<open>The keys of active children belong to their root.\<close>

lemma active_child_path:
  assumes "hist_ok P i h" and "map_of (active_children h) k = Some d"
  shows "hd (P k) = i" "c_Path d = P k" "k \<noteq> i" "last (P k) = k" "2 \<le> length (P k)"
proof -
  note h = hist_okD [OF assms(1)]
  have "root_view (h_store h) (history_back h) \<in> set (history_view h)"
    using h(3) last_in_set [of "history_view h"] by (simp add: last_history_view)
  then show p: "c_Path d = P k"
    using assms by (force simp: hist_ok_def views_ok_def dest: map_of_SomeD)
  have "child_ok i (active_children h) (k, d)" using h(6) assms(2) by (rule children_ok_map_of)
  then show "hd (P k) = i" "k \<noteq> i" "last (P k) = k" "2 \<le> length (P k)"
    by (auto simp: child_ok_def Let_def p)
qed


lemma update_ok:
  assumes ok: "ncache_ok P c"
    and hist: "delta_ok (m_pHistoryById c')" "hist_ok P i h'"
      "delta_view (m_pHistoryById c') = (delta_view (m_pHistoryById c))(i \<mapsto> h')"
    and groups: "groups_ok (m_pRootNamespaceIdsByExpiryHeight c')"
    and flat: "delta_ok (m_pNamespaceById c')"
      "\<And>k. delta_view (m_pNamespaceById c') k =
        (if hd (P k) = i then (if shown i (history_view h') k then Some \<lparr>m_path = P k\<rparr> else None)
         else delta_view (m_pNamespaceById c) k)"
    and size: "m_activeSize c' = m_activeSize c
        - of_nat (case cache_view c i of None \<Rightarrow> 0 | Some ws \<Rightarrow> active_size ws) + of_nat (active_size (history_view h'))"
      "m_deepSize c' = m_deepSize c
        - of_nat (case cache_view c i of None \<Rightarrow> 0 | Some ws \<Rightarrow> deep_size ws) + of_nat (deep_size (history_view h'))"
  shows "ncache_ok P c' \<and> cache_view c' = (cache_view c)(i \<mapsto> history_view h')"
proof -
  note c = ncache_okD [OF ok]
  have v: "cache_view c' = (cache_view c)(i \<mapsto> history_view h')"
    by (simp add: cache_view_def hist(3) fun_eq_iff)
  have "hist_ok P j h" if "delta_view (m_pHistoryById c') j = Some h" for j h
    using that hist c(4) by (auto simp: hist(3) split: if_splits)
  moreover have "delta_view (m_pNamespaceById c') = flat_of P (cache_view c')"
    by (simp add: fun_eq_iff flat(2) v flat_of_upd c(5))
  moreover note total_upd [OF finite_cache_view [OF c(1)], of _ i "history_view h'"]
  ultimately show ?thesis
    using v hist(1) groups flat(1) size c(6,7) by (simp add: ncache_ok_def)
qed

lemma delete_ok:
  assumes ok: "ncache_ok P c" and i: "delta_view (m_pHistoryById c) i = Some h"
    and hist: "delta_ok (m_pHistoryById c')"
      "delta_view (m_pHistoryById c') = (delta_view (m_pHistoryById c))(i := None)"
    and groups: "groups_ok (m_pRootNamespaceIdsByExpiryHeight c')"
    and flat: "delta_ok (m_pNamespaceById c')"
      "\<And>k. delta_view (m_pNamespaceById c') k =
        (if hd (P k) = i then None else delta_view (m_pNamespaceById c) k)"
    and size: "m_activeSize c' = m_activeSize c - of_nat (active_size (history_view h))"
      "m_deepSize c' = m_deepSize c - of_nat (deep_size (history_view h))"
  shows "ncache_ok P c' \<and> cache_view c' = (cache_view c)(i := None)"
proof -
  note c = ncache_okD [OF ok]
  have v: "cache_view c' = (cache_view c)(i := None)"
    by (simp add: cache_view_def hist(2) fun_eq_iff)
  have vi: "cache_view c i = Some (history_view h)" using i by (simp add: cache_view_def)
  have "hist_ok P j h" if "delta_view (m_pHistoryById c') j = Some h" for j h
    using that c(4) by (auto simp: hist(2) split: if_splits)
  moreover have "delta_view (m_pNamespaceById c') = flat_of P (cache_view c')"
    by (simp add: fun_eq_iff flat(2) v flat_of_del c(5))
  moreover note total_del [OF finite_cache_view [OF c(1)] vi]
  ultimately show ?thesis
    using v hist(1) groups flat(1) size c(6,7) by (simp add: ncache_ok_def)
qed

text \<open>What the flat map shows of one root.\<close>

lemma flat_at:
  assumes "ncache_ok P c" and "delta_view (m_pHistoryById c) i = Some h" and "hd (P k) = i"
  shows "delta_view (m_pNamespaceById c) k =
    (if k = i \<or> map_of (active_children h) k \<noteq> None then Some \<lparr>m_path = P k\<rparr> else None)"
  using assms hist_okD(9) [OF ncache_okD(4) [OF assms(1,2)]]
  by (simp add: ncache_okD(5) [OF assms(1)] flat_of_def cache_view_def shown_def)

lemma flat_absent:
  assumes "ncache_ok P c" and "delta_view (m_pHistoryById c) i = None" and "hd (P k) = i"
  shows "delta_view (m_pNamespaceById c) k = None"
  using assms by (simp add: ncache_okD(5) [OF assms(1)] flat_of_def cache_view_def)

lemma flat_root:
  assumes "ncache_ok P c" and "delta_view (m_pNamespaceById c) k = Some ns"
  obtains h where "delta_view (m_pHistoryById c) (hd (P k)) = Some h" "hist_ok P (hd (P k)) h"
    "ns = \<lparr>m_path = P k\<rparr>" "k = hd (P k) \<or> map_of (active_children h) k \<noteq> None"
    "rootId ns = hd (P k)" "ns_id ns = k" "P k \<noteq> []"
proof -
  obtain h where h: "delta_view (m_pHistoryById c) (hd (P k)) = Some h"
    using assms flat_absent by (metis option.exhaust option.distinct(1))
  note ok = ncache_okD(4) [OF assms(1) h]
  have k: "k = hd (P k) \<or> map_of (active_children h) k \<noteq> None" and ns: "ns = \<lparr>m_path = P k\<rparr>"
    using flat_at [OF assms(1) h refl] assms(2) by (auto split: if_splits)
  from k have "last (P k) = k \<and> P k \<noteq> []"
  proof
    assume kk: "k = hd (P k)"
    have "P (hd (P k)) = [hd (P k)]" using hist_okD(4) [OF ok] .
    with kk have "P k = [k]" by metis
    then show ?thesis by simp
  next
    assume "map_of (active_children h) k \<noteq> None"
    then obtain d where d: "map_of (active_children h) k = Some d" by auto
    have "P k \<noteq> []" using active_child_path(5) [OF ok d] by (cases "P k") simp_all
    with active_child_path(4) [OF ok d] show ?thesis by blast
  qed
  with ns have "rootId ns = hd (P k)" "ns_id ns = k" "P k \<noteq> []"
    by (simp_all add: rootId_hd ns_id_last)
  with that h ok ns k show ?thesis by blast
qed

section \<open>Registering a root\<close>

definition push_view :: "NamespaceId \<Rightarrow> Address \<Rightarrow> NamespaceLifetime \<Rightarrow> root_view list \<Rightarrow> root_view list" where
  "push_view i owner l vs = vs @
     [(i, owner, l,
       if vs \<noteq> [] \<and> v_owner (last vs) = owner \<and> lifetime_isActive (v_lifetime (last vs)) (Start l)
       then (v_alias (last vs), v_children (last vs)) else (NoAlias, []))]"

lemma history_push_back_push_view:
  "history_ok h \<Longrightarrow> history_view (history_push_back owner l h) = push_view (h_id h) owner l (history_view h)"
  by (cases "m_rootHistory h = []")
    (auto simp: history_push_back_view push_view_def extends_back_def last_history_view)

lemma h_id_push_back [simp]: "h_id (history_push_back owner l h) = h_id h"
  by (simp add: history_push_back_def Let_def)

lemma push_view_ok:
  assumes "vs = [] \<and> P i = [i] \<or> views_ok P i vs \<and> End (v_lifetime (last vs)) \<le> End l"
  shows "views_ok P i (push_view i owner l vs)"
proof -
  have "End (v_lifetime v) \<le> End l" if "v \<in> set vs" for v
  proof -
    have "vs \<noteq> []" using that by auto
    with assms have s: "sorted (map (\<lambda>v. End (v_lifetime v)) (butlast vs @ [last vs]))"
        "End (v_lifetime (last vs)) \<le> End l" by (auto simp: views_ok_def)
    have "v \<in> set (butlast vs) \<or> v = last vs" using that \<open>vs \<noteq> []\<close>
      by (metis append_butlast_last_id in_set_conv_decomp set_ConsD Un_iff set_append empty_iff list.set(1))
    with s show ?thesis by (auto simp: sorted_append intro: order.trans)
  qed
  with assms show ?thesis
    by (auto simp: views_ok_def push_view_def sorted_append v_children_def v_lifetime_def)
qed

lemma v_children_push_view:
  "v_children (last (push_view i owner l vs)) =
     (if vs \<noteq> [] \<and> v_owner (last vs) = owner \<and> lifetime_isActive (v_lifetime (last vs)) (Start l)
      then v_children (last vs) else [])"
  by (simp add: push_view_def v_children_def)

lemma active_size_push_view:
  "active_size (push_view i owner l vs) = Suc (length (v_children (last (push_view i owner l vs))))"
  by (simp add: active_size_def push_view_def)

lemma deep_size_push_view:
  "deep_size (push_view i owner l vs) =
     deep_size vs + Suc (length (v_children (last (push_view i owner l vs))))"
  by (simp add: deep_size_def push_view_def)

lemma RemoveAllChildren_correct:
  "delta_ok d \<Longrightarrow> delta_ok (RemoveAllChildren d ch)
     \<and> delta_view (RemoveAllChildren d ch) = (\<lambda>k. if map_of ch k \<noteq> None then None else delta_view d k)"
  using mutable_set.RemoveAll_ok [of d "keys ch"] mutable_set.RemoveAll_view [of d "keys ch"]
  by (auto simp: RemoveAllChildren_def restrict_map_def fun_eq_iff map_of_eq_None_iff)


lemma make_history_simps [simp]:
  "h_id (make_history i) = i" "history_view (make_history i) = []" "history_ok (make_history i)"
  by (simp_all add: make_history_def history_view_def)

lemma hist_ok_push:
  assumes "hist_ok P i h" and "Start l < End l" and "End (m_lifetime (history_back h)) \<le> End l"
  shows "hist_ok P i (history_push_back owner l h)"
proof -
  note h = hist_okD [OF assms(1)]
  have "views_ok P i (push_view i owner l (history_view h))"
    using assms h(3) by (intro push_view_ok) (simp add: hist_ok_def last_history_view)
  then show ?thesis
    using h assms(2) by (simp add: hist_ok_def history_push_back_ok history_push_back_push_view)
qed

lemma hist_ok_new:
  assumes "P i = [i]" and "Start l < End l"
  shows "hist_ok P i (history_push_back owner l (make_history i))"
  using assms push_view_ok [of "[]" P i l owner]
  by (simp add: hist_ok_def history_push_back_ok history_push_back_push_view)

text \<open>The lifetime of a new root is not empty and does not end before the active root's.\<close>

definition fits :: "RootNamespace \<Rightarrow> NamespaceCacheDelta \<Rightarrow> bool" where
  "fits ns c \<longleftrightarrow>
     Start (m_lifetime ns) < End (m_lifetime ns)
     \<and> (case cache_view c (m_id ns) of
          None \<Rightarrow> True
        | Some vs \<Rightarrow> End (v_lifetime (last vs)) \<le> End (m_lifetime ns))"

text \<open>The effect of registering a root: a new version on top of the history of the root.\<close>

definition root_inserted :: "(NamespaceId \<Rightarrow> Path) \<Rightarrow> RootNamespace \<Rightarrow> NamespaceCacheDelta \<Rightarrow> NamespaceCacheDelta \<Rightarrow> bool" where
  "root_inserted P ns c c' \<longleftrightarrow>
     ncache_ok P c'
     \<and> cache_view c' = (cache_view c)(m_id ns \<mapsto> push_view (m_id ns) (m_ownerAddress ns) (m_lifetime ns)
         (case cache_view c (m_id ns) of None \<Rightarrow> [] | Some vs \<Rightarrow> vs))
     \<and> AddIdentifierWithGroup (End (m_lifetime ns)) (m_id ns) (m_pRootNamespaceIdsByExpiryHeight c)
         = Inr (m_pRootNamespaceIdsByExpiryHeight c')"

lemma insert_root_new:
  assumes ok: "ncache_ok P c" and P: "P (m_id ns) = [m_id ns]" and fits: "fits ns c"
    and gs: "AddIdentifierWithGroup (End (m_lifetime ns)) (m_id ns) (m_pRootNamespaceIdsByExpiryHeight c) = Inr gs"
      "groups_ok gs"
    and None: "delta_view (m_pHistoryById c) (m_id ns) = None"
  shows "\<exists>c'. insert_root ns c = Inr c' \<and> root_inserted P ns c c'"
proof -
  note c = ncache_okD [OF ok]
  let ?i = "m_id ns" and ?l = "m_lifetime ns" and ?o = "m_ownerAddress ns"
  let ?fm = "find_mutable ?i (m_pHistoryById c)"
  have fm: "fst ?fm = delta_view (m_pHistoryById c) ?i" by (rule find_mutable_fst [OF c(1)])
  have hid: "hd (P ?i) = ?i" using P by simp
  let ?h = "history_push_back ?o ?l (make_history ?i)"
  let ?ns = "\<lparr>m_path = [?i]\<rparr>"
  define c' where "c' = c\<lparr>m_pRootNamespaceIdsByExpiryHeight := gs,
      m_pHistoryById := snd (delta_insert MutableTypeTag ?i ?h (snd ?fm)),
      m_pNamespaceById := snd (delta_insert MutableTypeTag ?i ?ns (m_pNamespaceById c)),
      m_activeSize := m_activeSize c + 1, m_deepSize := m_deepSize c + 1\<rparr>"
  have nid: "ns_id ?ns = ?i" by (simp add: ns_id_def)
  have e: "insert_root ns c = Inr c'"
    using None fm by (simp add: insert_root_def gs(1) case_prod_unfold Let_def c'_def size_ops
        make_Namespace_def nid)
  have hv: "history_view ?h = push_view ?i ?o ?l []" by (simp add: history_push_back_push_view)
  have vi: "cache_view c ?i = None" using None by (simp add: cache_view_def)
  have "ncache_ok P c' \<and> cache_view c' = (cache_view c)(?i \<mapsto> history_view ?h)"
  proof (rule update_ok [OF ok])
    show "hist_ok P ?i ?h" using P fits by (intro hist_ok_new) (simp_all add: fits_def)
    show "delta_view (m_pNamespaceById c') k =
        (if hd (P k) = ?i then (if shown ?i (history_view ?h) k then Some \<lparr>m_path = P k\<rparr> else None)
         else delta_view (m_pNamespaceById c) k)" for k
      using flat_absent [OF ok None, of k] c(2) P hid
      by (auto simp: c'_def insert_mutable_view hv shown_def v_children_push_view)
  qed (use c gs vi in \<open>simp_all add: c'_def find_mutable_ok find_mutable_view insert_mutable_ok
      insert_mutable_view hv active_size_push_view deep_size_push_view v_children_push_view\<close>)
  then show ?thesis using e vi hv gs(1) by (simp add: root_inserted_def) (simp add: c'_def)
qed

lemma insert_root_again:
  assumes ok: "ncache_ok P c" and fits: "fits ns c"
    and gs: "AddIdentifierWithGroup (End (m_lifetime ns)) (m_id ns) (m_pRootNamespaceIdsByExpiryHeight c) = Inr gs"
      "groups_ok gs"
    and Some: "delta_view (m_pHistoryById c) (m_id ns) = Some h"
  shows "\<exists>c'. insert_root ns c = Inr c' \<and> root_inserted P ns c c'"
proof -
  note c = ncache_okD [OF ok]
  let ?i = "m_id ns" and ?l = "m_lifetime ns" and ?o = "m_ownerAddress ns"
  let ?fm = "find_mutable ?i (m_pHistoryById c)"
  have fm: "fst ?fm = delta_view (m_pHistoryById c) ?i" by (rule find_mutable_fst [OF c(1)])
  note hok = c(4) [OF Some]
  note h = hist_okD [OF hok]
  let ?h = "history_push_back ?o ?l h" and ?ch = "active_children h" and ?ext = "canExtend ns (history_back h)"
  have vi: "cache_view c ?i = Some (history_view h)" using Some by (simp add: cache_view_def)
  have hv: "history_view ?h = push_view ?i ?o ?l (history_view h)"
    using h(1,2) by (simp add: history_push_back_push_view)
  have vch: "v_children (last (push_view ?i ?o ?l (history_view h))) = (if ?ext then ?ch else [])"
    using h(3,5,9) by (auto simp: v_children_push_view canExtend_def last_history_view)
  define c' where "c' = c\<lparr>m_pRootNamespaceIdsByExpiryHeight := gs,
      m_pHistoryById := write_found ?i ?h (snd ?fm),
      m_pNamespaceById := (if ?ext then m_pNamespaceById c else RemoveAllChildren (m_pNamespaceById c) ?ch),
      m_activeSize := m_activeSize c - (if ?ext then 0 else of_nat (length ?ch)),
      m_deepSize := m_deepSize c + (if ?ext then of_nat (length ?ch) else 0) + 1\<rparr>"
  have e: "insert_root ns c = Inr c'"
    using Some fm h(7) by (simp add: insert_root_def gs(1) case_prod_unfold Let_def c'_def size_ops)
  have "ncache_ok P c' \<and> cache_view c' = (cache_view c)(?i \<mapsto> history_view ?h)"
  proof (rule update_ok [OF ok])
    show "hist_ok P ?i ?h"
      using fits vi h(3) by (intro hist_ok_push hok) (simp_all add: fits_def last_history_view)
    show "delta_view (m_pNamespaceById c') k =
        (if hd (P k) = ?i then (if shown ?i (history_view ?h) k then Some \<lparr>m_path = P k\<rparr> else None)
         else delta_view (m_pNamespaceById c) k)" for k
      using flat_at [OF ok Some, of k] active_child_path [OF hok, of k] RemoveAllChildren_correct [OF c(2), of ?ch]
      by (auto simp: c'_def hv shown_def vch split: option.splits)
  qed (use c gs vi h(10) find_mutable_write [OF c(1) Some] RemoveAllChildren_correct [OF c(2), of ?ch]
      in \<open>simp_all add: c'_def hv active_size_push_view deep_size_push_view vch\<close>)
  then show ?thesis using e vi hv gs(1) by (simp add: root_inserted_def) (simp add: c'_def)
qed

lemma insert_root_correct:
  assumes ok: "ncache_ok P c" and P: "P (m_id ns) = [m_id ns]" and fits: "fits ns c"
  obtains c' where "insert_root ns c = Inr c'" "root_inserted P ns c c'"
proof -
  obtain gs where gs: "AddIdentifierWithGroup (End (m_lifetime ns)) (m_id ns) (m_pRootNamespaceIdsByExpiryHeight c)
      = Inr gs" "groups_ok gs"
    using AddIdentifierWithGroup_correct [OF ncache_okD(3) [OF ok]] by blast
  show ?thesis
    using insert_root_new [OF ok P fits gs] insert_root_again [OF ok fits gs] that
    by (cases "delta_view (m_pHistoryById c) (m_id ns)") blast+
qed


section \<open>Removing a root\<close>

lemma AddAll_correct:
  assumes "delta_ok d" and "\<forall>kd \<in> set ch. c_Path (snd kd) = P (fst kd) \<and> P (fst kd) \<noteq> [] \<and> last (P (fst kd)) = fst kd"
  shows "\<exists>d'. AddAll d ch = Inr d' \<and> delta_ok d'
    \<and> delta_view d' = (\<lambda>k. if map_of ch k \<noteq> None then Some \<lparr>m_path = P k\<rparr> else delta_view d k)"
  using assms unfolding AddAll_def
proof (induction ch arbitrary: d)
  case (Cons kd ch)
  let ?k = "fst kd"
  let ?d = "snd (delta_insert MutableTypeTag ?k \<lparr>m_path = P ?k\<rparr> d)"
  have p: "c_Path (snd kd) = P ?k" "P ?k \<noteq> []" "last (P ?k) = ?k" using Cons.prems(2) by simp_all
  then have step: "bind_result (make_Namespace (c_Path (snd kd)))
      (\<lambda>ns. Inr (snd (delta_insert MutableTypeTag (ns_id ns) ns d))) = Inr ?d"
    by (simp add: make_Namespace_def ns_id_last)
  have d: "delta_ok ?d" "delta_view ?d = (delta_view d)(?k \<mapsto> \<lparr>m_path = P ?k\<rparr>)"
    using Cons.prems(1) by (simp_all add: insert_mutable_ok insert_mutable_view)
  from Cons.IH [OF d(1)] Cons.prems(2) obtain d' where d':
    "foldM (\<lambda>pair m. bind_result (make_Namespace (c_Path (snd pair)))
       (\<lambda>ns. Inr (snd (delta_insert MutableTypeTag (ns_id ns) ns m)))) ch ?d = Inr d'" "delta_ok d'"
    "delta_view d' = (\<lambda>k. if map_of ch k \<noteq> None then Some \<lparr>m_path = P k\<rparr> else delta_view ?d k)"
    by auto
  have "delta_view d' = (\<lambda>k. if map_of (kd # ch) k \<noteq> None then Some \<lparr>m_path = P k\<rparr> else delta_view d k)"
    unfolding d'(3) d(2) by (auto simp: fun_eq_iff)
  with d'(1,2) show ?case
    by (intro exI [of _ d']) (simp add: step del: delta_insert.simps)
qed simp

lemma hist_ok_pop:
  assumes "hist_ok P i h" and "historyDepth h \<noteq> 1"
  shows "hist_ok P i (history_pop_back h)" "history_view (history_pop_back h) = butlast (history_view h)"
    "active_children (history_pop_back h) = root_children (h_store h) (history_back (history_pop_back h))"
    "canExtend (history_back h) (history_back (history_pop_back h)) \<Longrightarrow>
       active_children (history_pop_back h) = active_children h"
proof -
  note h = hist_okD [OF assms(1)]
  show v: "history_view (history_pop_back h) = butlast (history_view h)" by (rule history_pop_back_view)
  have ne: "butlast (m_rootHistory h) \<noteq> []"
    using h(3) assms(2) by (cases "m_rootHistory h" rule: rev_cases) (auto simp: historyDepth_def)
  then have "butlast (history_view h) \<noteq> []" by (simp add: history_view_def map_butlast [symmetric])
  moreover have "sorted (map (\<lambda>v. End (v_lifetime v)) (butlast (history_view h)))"
    using assms(1) sorted_butlast [of "map (\<lambda>v. End (v_lifetime v)) (history_view h)"]
    by (simp add: hist_ok_def views_ok_def map_butlast)
  ultimately have "views_ok P i (history_view (history_pop_back h))"
    using assms(1) by (auto simp: hist_ok_def views_ok_def v dest: in_set_butlastD)
  with h show "hist_ok P i (history_pop_back h)"
    by (simp add: hist_ok_def history_pop_back_ok) (simp add: history_pop_back_def)
  show "active_children (history_pop_back h) = root_children (h_store h) (history_back (history_pop_back h))"
    by (simp add: history_pop_back_def)
  have "successively shares (butlast (m_rootHistory h) @ [history_back h])"
    using h(1,3) by (simp add: history_back_def history_ok_def)
  then have "shares (history_back (history_pop_back h)) (history_back h)"
    using ne by (simp add: successively_append_iff history_pop_back_def history_back_def)
  then show "active_children (history_pop_back h) = active_children h"
    if "canExtend (history_back h) (history_back (history_pop_back h))"
    using that by (simp add: shares_def root_children_def history_pop_back_def)
qed


text \<open>The effect of removing the last version of a root.\<close>

definition root_removed :: "(NamespaceId \<Rightarrow> Path) \<Rightarrow> NamespaceId \<Rightarrow> NamespaceCacheDelta \<Rightarrow> NamespaceCacheDelta \<Rightarrow> bool" where
  "root_removed P i c c' \<longleftrightarrow>
     ncache_ok P c'
     \<and> (\<exists>vs. cache_view c i = Some vs
          \<and> cache_view c' = (cache_view c)(i := if butlast vs = [] then None else Some (butlast vs))
          \<and> m_pRootNamespaceIdsByExpiryHeight c' =
              RemoveIdentifierWithGroup (End (v_lifetime (last vs))) i (m_pRootNamespaceIdsByExpiryHeight c))"

lemma removeRoot_last:
  assumes ok: "ncache_ok P c" and Some: "delta_view (m_pHistoryById c) i = Some h"
    and "historyDepth h = 1" and "active_children h = []"
  shows "\<exists>c'. removeRoot i c = Inr c' \<and> root_removed P i c c'"
proof -
  note c = ncache_okD [OF ok]
  note hok = c(4) [OF Some]
  note h = hist_okD [OF hok]
  let ?fm = "find_mutable i (m_pHistoryById c)"
  have fm: "fst ?fm = delta_view (m_pHistoryById c) i" by (rule find_mutable_fst [OF c(1)])
  let ?gs = "RemoveIdentifierWithGroup (End (m_lifetime (history_back h))) i (m_pRootNamespaceIdsByExpiryHeight c)"
  define c' where "c' = c\<lparr>m_pRootNamespaceIdsByExpiryHeight := ?gs,
      m_pHistoryById := snd (delta_remove MutableTypeTag i (write_found i (history_pop_back h) (snd ?fm))),
      m_pNamespaceById := snd (delta_remove MutableTypeTag i (m_pNamespaceById c)),
      m_activeSize := m_activeSize c - 1, m_deepSize := m_deepSize c - 1\<rparr>"
  have "length (history_view h) = Suc 0" using assms(3) by simp
  then obtain v where v: "history_view h = [v]" by (auto simp: length_Suc_conv simp del: length_history_view)
  then have lv: "v = root_view (h_store h) (history_back h)" using last_history_view [OF h(3)] by simp
  have "history_empty (history_pop_back h)"
    using history_pop_back_view [of h] v by (simp add: history_empty_def flip: history_view_Nil)
  then have e: "removeRoot i c = Inr c'"
    using Some fm h(7) assms(3,4)
    by (simp add: removeRoot_def case_prod_unfold Let_def c'_def size_ops root_empty_def)
  have "ncache_ok P c' \<and> cache_view c' = (cache_view c)(i := None)"
  proof (rule delete_ok [OF ok Some])
    show "delta_view (m_pNamespaceById c') k =
        (if hd (P k) = i then None else delta_view (m_pNamespaceById c) k)" for k
      using flat_at [OF ok Some, of k] c(2) h(4) assms(4) by (auto simp: c'_def remove_view)
  qed (use c find_mutable_write [OF c(1) Some, of "history_pop_back h"] assms(4) lv
      RemoveIdentifierWithGroup_correct [OF c(3), of "End (m_lifetime (history_back h))" i]
      in \<open>simp_all add: c'_def remove_ok remove_view v active_size_def deep_size_def\<close>)
  then show ?thesis
    using e v lv Some by (intro exI [of _ c']) (simp add: root_removed_def cache_view_def c'_def)
qed

lemma removeRoot_version:
  assumes ok: "ncache_ok P c" and Some: "delta_view (m_pHistoryById c) i = Some h"
    and "historyDepth h \<noteq> 1"
  shows "\<exists>c'. removeRoot i c = Inr c' \<and> root_removed P i c c'"
proof -
  note c = ncache_okD [OF ok]
  note hok = c(4) [OF Some]
  note h = hist_okD [OF hok]
  note pop = hist_ok_pop [OF hok assms(3)]
  note h' = hist_okD [OF pop(1)]
  let ?fm = "find_mutable i (m_pHistoryById c)" and ?h = "history_pop_back h"
  let ?ext = "canExtend (history_back h) (history_back ?h)"
  have fm: "fst ?fm = delta_view (m_pHistoryById c) i" by (rule find_mutable_fst [OF c(1)])
  let ?gs = "RemoveIdentifierWithGroup (End (m_lifetime (history_back h))) i (m_pRootNamespaceIdsByExpiryHeight c)"
  let ?m = "RemoveAllChildren (m_pNamespaceById c) (active_children h)"
  have path: "\<forall>kd \<in> set (active_children ?h). c_Path (snd kd) = P (fst kd) \<and> P (fst kd) \<noteq> []
      \<and> last (P (fst kd)) = fst kd"
  proof
    fix kd assume kd: "kd \<in> set (active_children ?h)"
    then have "map_of (active_children ?h) (fst kd) = Some (snd kd)"
      using h'(6) by (simp add: children_ok_def omap_ok_distinct)
    from active_child_path [OF pop(1) this]
    show "c_Path (snd kd) = P (fst kd) \<and> P (fst kd) \<noteq> [] \<and> last (P (fst kd)) = fst kd" by auto
  qed
  have m: "delta_ok ?m" using RemoveAllChildren_correct [OF c(2)] by blast
  obtain ns where ns: "AddAll ?m (active_children ?h) = Inr ns" "delta_ok ns"
    "delta_view ns = (\<lambda>k. if map_of (active_children ?h) k \<noteq> None then Some \<lparr>m_path = P k\<rparr> else delta_view ?m k)"
    using AddAll_correct [OF m path] by blast
  define c' where "c' = c\<lparr>m_pRootNamespaceIdsByExpiryHeight := ?gs,
      m_pHistoryById := write_found i ?h (snd ?fm),
      m_pNamespaceById := (if ?ext then m_pNamespaceById c else ns),
      m_activeSize := (if ?ext then m_activeSize c
        else m_activeSize c - of_nat (length (active_children h)) + of_nat (length (active_children ?h))),
      m_deepSize := m_deepSize c - of_nat (1 + length (active_children h))\<rparr>"
  have e: "removeRoot i c = Inr c'"
    using Some fm h(7) h'(7) assms(3) ns(1) pop(3)
    by (simp add: removeRoot_def case_prod_unfold Let_def c'_def size_ops)
      (simp add: history_pop_back_def)
  have deep: "deep_size (history_view h) = deep_size (butlast (history_view h)) + (1 + length (active_children h))"
    using h(3,9) by (cases "history_view h" rule: rev_cases) (simp_all add: deep_size_def)
  have vi: "cache_view c i = Some (history_view h)" using Some by (simp add: cache_view_def)
  have "ncache_ok P c' \<and> cache_view c' = (cache_view c)(i \<mapsto> history_view ?h)"
  proof (rule update_ok [OF ok])
    show "hist_ok P i ?h" by (rule pop(1))
    show "delta_view (m_pNamespaceById c') k =
        (if hd (P k) = i then (if shown i (history_view ?h) k then Some \<lparr>m_path = P k\<rparr> else None)
         else delta_view (m_pNamespaceById c) k)" for k
      using flat_at [OF ok Some, of k] active_child_path [OF hok, of k] active_child_path [OF pop(1), of k]
        RemoveAllChildren_correct [OF c(2), of "active_children h"] pop(4) h'(9)
      by (auto simp: c'_def ns(3) shown_def split: option.splits)
  qed (use c ns(2) vi h(10) h'(10) pop(2,4) deep find_mutable_write [OF c(1) Some, of ?h]
      RemoveIdentifierWithGroup_correct [OF c(3), of "End (m_lifetime (history_back h))" i]
      in \<open>simp_all add: c'_def\<close>)
  moreover have "butlast (history_view h) \<noteq> []" using pop(2) h'(3) by (metis history_view_Nil)
  ultimately show ?thesis
    using e vi h(3) pop(2)
    by (intro exI [of _ c']) (simp add: root_removed_def last_history_view, simp add: c'_def)
qed


section \<open>Changing the children of the active root\<close>

lemma map_map_last: "(\<And>x. f (g x) = f x) \<Longrightarrow> map f (map_last k g xs) = map f xs"
  by (simp add: map_last_def comp_def) (simp flip: map_append)

lemma set_map_last: "x \<in> set (map_last k g xs) \<Longrightarrow> x \<in> set xs \<or> (\<exists>y \<in> set xs. x = g y)"
  by (auto simp: map_last_def dest: in_set_takeD in_set_dropD)

lemma map_last_Nil [simp]: "map_last k g xs = [] \<longleftrightarrow> xs = []"
  by (auto simp: map_last_def)

lemma last_map_last: "0 < k \<Longrightarrow> xs \<noteq> [] \<Longrightarrow> last (map_last k g xs) = g (last xs)"
  by (cases xs) (auto simp: map_last_def last_append last_map)

lemma deep_size_map_last:
  assumes "k \<le> length vs"
  shows "deep_size (map_last k (with_children ch) vs) =
    length vs + sum_list (map (\<lambda>v. length (v_children v)) (take (length vs - k) vs)) + k * length ch"
  using assms by (simp add: deep_size_def map_last_def comp_def sum_list_triv)

lemma modify_children_id:
  "m_pChildren (history_back h) < length (h_store h) \<Longrightarrow> modify_children (active_children h) h = h"
  by (simp add: modify_children_def root_children_def deref_def)

lemma modify_children_twice: "modify_children ch (modify_children ch' h) = modify_children ch h"
  by (simp add: modify_children_def history_back_def)

lemma active_children_modify:
  "m_pChildren (history_back h) < length (h_store h) \<Longrightarrow> active_children (modify_children ch h) = ch"
  by (simp add: modify_children_def history_back_def root_children_def deref_def)

lemma deep_size_modify:
  assumes "hist_ok P i h"
  shows "deep_size (history_view (modify_children ch h)) + activeOwnerHistoryDepth h * length (active_children h)
    = deep_size (history_view h) + activeOwnerHistoryDepth h * length ch"
proof -
  note h = hist_okD [OF assms]
  let ?k = "activeOwnerHistoryDepth h"
  have k: "?k \<le> length (history_view h)"
    using activeOwnerHistoryDepth_shared(3) [OF h(1,3)] by simp
  have "map_last ?k (with_children (active_children h)) (history_view h) = history_view h"
    using modify_children_view [OF h(1,3), of "active_children h"] modify_children_id [OF h(8)] by simp
  with deep_size_map_last [OF k, of "active_children h"] deep_size_map_last [OF k, of ch]
  show ?thesis by (simp add: modify_children_view [OF h(1,3)])
qed

lemma hist_ok_modify:
  assumes "hist_ok P i h" and "children_ok i ch" and "\<forall>kd \<in> set ch. c_Path (snd kd) = P (fst kd)"
  shows "hist_ok P i (modify_children ch h)"
proof -
  note h = hist_okD [OF assms(1)]
  have v: "history_view (modify_children ch h) =
      map_last (activeOwnerHistoryDepth h) (with_children ch) (history_view h)"
    by (rule modify_children_view [OF h(1,3)])
  have "map (\<lambda>v. End (v_lifetime v)) (history_view (modify_children ch h))
      = map (\<lambda>v. End (v_lifetime v)) (history_view h)"
    unfolding v by (rule map_map_last) simp
  moreover have "c_Path (snd kd) = P (fst kd)"
    if "u \<in> set (history_view (modify_children ch h))" "kd \<in> set (v_children u)" for u kd
    using that assms(1,3) unfolding v by (auto simp: hist_ok_def views_ok_def dest!: set_map_last)
  ultimately have "views_ok P i (history_view (modify_children ch h))"
    using assms(1) by (simp add: hist_ok_def views_ok_def)
  then show ?thesis
    using h assms(2) by (simp add: hist_ok_def modify_children_ok)
qed

text \<open>
  A cache whose history at one root got new active children, with the flat map and the sizes
  adapted, is again consistent.
\<close>

lemma modify_ok:
  assumes ok: "ncache_ok P c" and Some: "delta_view (m_pHistoryById c) i = Some h"
    and ch: "children_ok i ch" "\<forall>kd \<in> set ch. c_Path (snd kd) = P (fst kd)"
    and c': "m_pHistoryById c' = write_found i (modify_children ch h) (snd (find_mutable i (m_pHistoryById c)))"
      "m_pRootNamespaceIdsByExpiryHeight c' = m_pRootNamespaceIdsByExpiryHeight c"
    and flat: "delta_ok (m_pNamespaceById c')"
      "\<And>k. delta_view (m_pNamespaceById c') k =
        (if hd (P k) = i then (if k = i \<or> map_of ch k \<noteq> None then Some \<lparr>m_path = P k\<rparr> else None)
         else delta_view (m_pNamespaceById c) k)"
    and size: "m_activeSize c' = m_activeSize c - of_nat (length (active_children h)) + of_nat (length ch)"
      "m_deepSize c' = m_deepSize c - of_nat (activeOwnerHistoryDepth h * length (active_children h))
         + of_nat (activeOwnerHistoryDepth h * length ch)"
  shows "ncache_ok P c' \<and> delta_view (m_pHistoryById c') = (delta_view (m_pHistoryById c))(i \<mapsto> modify_children ch h)
    \<and> cache_view c' = (cache_view c)(i \<mapsto> history_view (modify_children ch h))"
proof -
  note c = ncache_okD [OF ok]
  note hok = c(4) [OF Some]
  note h = hist_okD [OF hok]
  let ?h = "modify_children ch h" and ?k = "activeOwnerHistoryDepth h"
  have hok': "hist_ok P i ?h" using hok ch by (rule hist_ok_modify)
  note h' = hist_okD [OF hok'] and a = active_children_modify [OF h(8), of ch]
  have vi: "cache_view c i = Some (history_view h)" using Some by (simp add: cache_view_def)
  have hist: "delta_ok (m_pHistoryById c')"
    "delta_view (m_pHistoryById c') = (delta_view (m_pHistoryById c))(i \<mapsto> ?h)"
    using find_mutable_write [OF c(1) Some, of ?h] by (simp_all add: c'(1))
  have deep: "(of_nat (deep_size (history_view ?h)) :: u64) =
      of_nat (deep_size (history_view h)) - of_nat (?k * length (active_children h)) + of_nat (?k * length ch)"
    using deep_size_modify [OF hok, of ch, THEN arg_cong [of _ _ "of_nat :: nat \<Rightarrow> u64"]]
    by (simp add: algebra_simps)
  have "ncache_ok P c' \<and> cache_view c' = (cache_view c)(i \<mapsto> history_view ?h)"
  proof (rule update_ok [OF ok hist(1) hok' hist(2)])
    show "delta_view (m_pNamespaceById c') k =
        (if hd (P k) = i then (if shown i (history_view ?h) k then Some \<lparr>m_path = P k\<rparr> else None)
         else delta_view (m_pNamespaceById c) k)" for k
      using flat(2) [of k] h'(9) a by (simp add: shown_def)
    show "m_deepSize c' = m_deepSize c
        - of_nat (case cache_view c i of None \<Rightarrow> 0 | Some ws \<Rightarrow> deep_size ws) + of_nat (deep_size (history_view ?h))"
      unfolding size(2) vi deep by simp
  qed (use c(3) c'(2) flat(1) vi size(1) h(10) h'(10) a in simp_all)
  with hist(2) show ?thesis by blast
qed

lemma child_paths:
  assumes "hist_ok P i h"
  shows "\<forall>kd \<in> set (active_children h). c_Path (snd kd) = P (fst kd)"
proof
  fix kd assume "kd \<in> set (active_children h)"
  then have "map_of (active_children h) (fst kd) = Some (snd kd)"
    using hist_okD(6) [OF assms] by (simp add: children_ok_def omap_ok_distinct)
  then show "c_Path (snd kd) = P (fst kd)" by (rule active_child_path(2) [OF assms])
qed

lemma length_omap_insert: "map_of m k = None \<Longrightarrow> length (omap_insert k v m) = Suc (length m)"
  by (induction k v m rule: omap_insert.induct) (auto split: if_splits)

lemma length_omap_erase:
  "omap_ok m \<Longrightarrow> map_of m k \<noteq> None \<Longrightarrow> Suc (length (omap_erase k m)) = length m"
proof (induction m)
  case (Cons kv m)
  show ?case
  proof (cases "fst kv = k")
    case True
    then have "map_of m k = None"
      using Cons.prems by (auto simp: omap_ok_Cons map_of_eq_None_iff)
    with True show ?thesis using omap_erase_absent [of m k] by (simp add: omap_erase_def)
  qed (use Cons in \<open>auto simp: omap_ok_Cons omap_erase_def split: if_splits\<close>)
qed simp


section \<open>Registering and removing a child\<close>

lemma insert_namespace_correct:
  assumes ok: "ncache_ok P c" and Some: "delta_view (m_pHistoryById c) (hd p) = Some h"
    and p: "path_ok (hd p) (active_children h) p" "P (last p) = p"
    and new: "delta_view (m_pNamespaceById c) (last p) = None"
  shows "\<exists>c'. insert_namespace \<lparr>m_path = p\<rparr> c = Inr c' \<and> ncache_ok P c'
    \<and> delta_view (m_pHistoryById c') = (delta_view (m_pHistoryById c))(hd p \<mapsto>
        modify_children (omap_insert (last p) \<lparr>c_Path = p, c_Alias = NoAlias\<rparr> (active_children h)) h)
    \<and> m_pRootNamespaceIdsByExpiryHeight c' = m_pRootNamespaceIdsByExpiryHeight c"
proof -
  note c = ncache_okD [OF ok]
  note hok = c(4) [OF Some]
  note h = hist_okD [OF hok]
  let ?i = "hd p" and ?k = "last p" and ?ns = "\<lparr>m_path = p\<rparr>"
  let ?fm = "find_mutable ?i (m_pHistoryById c)"
  let ?ch = "omap_insert ?k \<lparr>c_Path = p, c_Alias = NoAlias\<rparr> (active_children h)"
  have fm: "fst ?fm = delta_view (m_pHistoryById c) ?i" by (rule find_mutable_fst [OF c(1)])
  have len: "2 \<le> length p" using p(1) by (simp add: path_ok_def)
  then have ids: "rootId ?ns = ?i" "ns_id ?ns = ?k"
    by (auto simp: rootId_def ns_id_def hd_conv_nth last_conv_nth simp flip: length_0_conv)
  have absent: "map_of (active_children h) ?k = None"
    using flat_at [OF ok Some, of ?k] new p(2) by (auto split: if_splits)
  have add: "root_add (h_store h) (history_back h) ?ns = Inr ((h_store h)[m_pChildren (history_back h) := ?ch])"
    using len absent p(1) h(5) by (intro root_add_Inr) simp_all
  define c' where "c' = c\<lparr>m_pHistoryById := write_found ?i (modify_children ?ch h) (snd ?fm),
      m_pNamespaceById := snd (delta_insert MutableTypeTag ?k ?ns (m_pNamespaceById c)),
      m_activeSize := m_activeSize c + 1, m_deepSize := m_deepSize c + of_nat (activeOwnerHistoryDepth h)\<rparr>"
  have mh: "h\<lparr>h_store := (h_store h)[m_pChildren (history_back h) := ?ch]\<rparr> = modify_children ?ch h"
    by (simp add: modify_children_def)
  have e: "insert_namespace ?ns c = Inr c'"
    using Some fm h(7) by (simp add: insert_namespace_def case_prod_unfold Let_def ids add mh c'_def size_ops)
  have "ncache_ok P c' \<and> delta_view (m_pHistoryById c') = (delta_view (m_pHistoryById c))(?i \<mapsto> modify_children ?ch h)
      \<and> cache_view c' = (cache_view c)(?i \<mapsto> history_view (modify_children ?ch h))"
  proof (rule modify_ok [OF ok Some])
    show "children_ok ?i ?ch" using h(6) absent p(1) by (rule children_ok_insert)
    show "\<forall>kd \<in> set ?ch. c_Path (snd kd) = P (fst kd)"
      using child_paths [OF hok] absent p(2)
      by (subst set_omap_insert_absent) (auto simp: map_of_eq_None_iff)
    show "delta_view (m_pNamespaceById c') k =
        (if hd (P k) = ?i then (if k = ?i \<or> map_of ?ch k \<noteq> None then Some \<lparr>m_path = P k\<rparr> else None)
         else delta_view (m_pNamespaceById c) k)" for k
      using flat_at [OF ok Some, of k] c(2) p(2) absent h(6)
      by (auto simp: c'_def insert_mutable_view map_of_omap_insert children_ok_def)
  qed (use c(2) absent in \<open>simp_all add: c'_def insert_mutable_ok length_omap_insert\<close>)
  then show ?thesis using e by (intro exI [of _ c']) (simp add: c'_def)
qed

lemma removeChild_correct:
  assumes ok: "ncache_ok P c" and Some: "delta_view (m_pHistoryById c) (hd (P k)) = Some h"
    and k: "map_of (active_children h) k \<noteq> None"
    and st: "root_remove (h_store h) (history_back h) k = Inr st"
  shows "\<exists>c'. removeChild \<lparr>m_path = P k\<rparr> c = Inr c' \<and> ncache_ok P c'
    \<and> delta_view (m_pHistoryById c') = (delta_view (m_pHistoryById c))(hd (P k) \<mapsto>
        modify_children (omap_erase k (active_children h)) h)
    \<and> m_pRootNamespaceIdsByExpiryHeight c' = m_pRootNamespaceIdsByExpiryHeight c"
proof -
  note c = ncache_okD [OF ok]
  note hok = c(4) [OF Some]
  note h = hist_okD [OF hok]
  let ?i = "hd (P k)" and ?ns = "\<lparr>m_path = P k\<rparr>" and ?ch = "omap_erase k (active_children h)"
  let ?fm = "find_mutable ?i (m_pHistoryById c)"
  have fm: "fst ?fm = delta_view (m_pHistoryById c) ?i" by (rule find_mutable_fst [OF c(1)])
  obtain d where d: "map_of (active_children h) k = Some d" using k by auto
  note path = active_child_path [OF hok d]
  have ids: "rootId ?ns = ?i" "ns_id ?ns = k"
    using path(4,5) by (auto simp: rootId_def ns_id_def hd_conv_nth last_conv_nth simp flip: length_0_conv)
  have ch: "children_ok ?i ?ch" and st': "st = (h_store h)[m_pChildren (history_back h) := ?ch]"
    using root_remove_children_ok [OF h(6) st] by simp_all
  define c' where "c' = c\<lparr>m_pHistoryById := write_found ?i (modify_children ?ch h) (snd ?fm),
      m_pNamespaceById := snd (delta_remove MutableTypeTag k (m_pNamespaceById c)),
      m_activeSize := m_activeSize c - 1, m_deepSize := m_deepSize c - of_nat (activeOwnerHistoryDepth h)\<rparr>"
  have mh: "h\<lparr>h_store := st\<rparr> = modify_children ?ch h" by (simp add: modify_children_def st')
  have e: "removeChild ?ns c = Inr c'"
    using Some fm h(7) by (simp add: removeChild_def case_prod_unfold Let_def ids st mh c'_def size_ops)
  have len: "length (active_children h) = Suc (length ?ch)"
    using h(6) k by (simp add: length_omap_erase children_ok_def)
  have "ncache_ok P c' \<and> delta_view (m_pHistoryById c') = (delta_view (m_pHistoryById c))(?i \<mapsto> modify_children ?ch h)
      \<and> cache_view c' = (cache_view c)(?i \<mapsto> history_view (modify_children ?ch h))"
  proof (rule modify_ok [OF ok Some ch])
    show "\<forall>kd \<in> set ?ch. c_Path (snd kd) = P (fst kd)"
      using child_paths [OF hok] by (simp add: omap_erase_def)
    show "delta_view (m_pNamespaceById c') x =
        (if hd (P x) = ?i then (if x = ?i \<or> map_of ?ch x \<noteq> None then Some \<lparr>m_path = P x\<rparr> else None)
         else delta_view (m_pNamespaceById c) x)" for x
      using flat_at [OF ok Some, of x] c(2) path(3)
      by (auto simp: c'_def remove_view map_of_omap_erase)
  qed (use c(2) in \<open>simp_all add: c'_def remove_ok len algebra_simps\<close>)
  then show ?thesis using e by (intro exI [of _ c']) (simp add: c'_def)
qed

lemma root_remove_absent_descendents:
  assumes "hist_ok P i h" and "path_ok i (active_children h) p" "map_of (active_children h) (last p) = None"
  shows "root_remove (h_store (modify_children
      (omap_insert (last p) \<lparr>c_Path = p, c_Alias = a\<rparr> (active_children h)) h)) (history_back h) (last p)
    = Inr (h_store h)"
proof -
  note h = hist_okD [OF assms(1)]
  let ?h = "modify_children (omap_insert (last p) \<lparr>c_Path = p, c_Alias = a\<rparr> (active_children h)) h"
  have ch: "root_children (h_store ?h) (history_back h)
      = omap_insert (last p) \<lparr>c_Path = p, c_Alias = a\<rparr> (active_children h)"
    using active_children_modify [OF h(8)] by simp
  have "(h_store ?h)[m_pChildren (history_back h) := active_children h] = h_store h"
    using h(8) by (simp add: modify_children_def root_children_def deref_def)
  then show ?thesis using root_remove_added [OF ch h(6) assms(3,2)] by simp
qed

section \<open>Dispatch of removals\<close>

lemma cache_view_cong: "delta_view (m_pHistoryById c') = delta_view (m_pHistoryById c) \<Longrightarrow> cache_view c' = cache_view c"
  by (simp add: cache_view_def fun_eq_iff)

lemma ncache_ok_touch:
  assumes "ncache_ok P c"
  shows "ncache_ok P (c\<lparr>m_pNamespaceById := snd (find_mutable i (m_pNamespaceById c))\<rparr>)"
    "cache_view (c\<lparr>m_pNamespaceById := snd (find_mutable i (m_pNamespaceById c))\<rparr>) = cache_view c"
proof -
  show v: "cache_view (c\<lparr>m_pNamespaceById := snd (find_mutable i (m_pNamespaceById c))\<rparr>) = cache_view c"
    by (rule cache_view_cong) simp
  show "ncache_ok P (c\<lparr>m_pNamespaceById := snd (find_mutable i (m_pNamespaceById c))\<rparr>)"
    using ncache_okD [OF assms] by (simp add: ncache_ok_def v find_mutable_ok find_mutable_view)
qed

lemma cache_remove_dispatch:
  assumes ok: "ncache_ok P c" and ns: "delta_view (m_pNamespaceById c) k = Some ns"
  shows "cache_remove k c =
    (if hd (P k) = k then removeRoot k (c\<lparr>m_pNamespaceById := snd (find_mutable k (m_pNamespaceById c))\<rparr>)
     else removeChild \<lparr>m_path = P k\<rparr> (c\<lparr>m_pNamespaceById := snd (find_mutable k (m_pNamespaceById c))\<rparr>))"
proof -
  have "fst (find_mutable k (m_pNamespaceById c)) = Some ns"
    using find_mutable_fst [OF ncache_okD(2) [OF ok]] ns by simp
  moreover obtain h where "ns = \<lparr>m_path = P k\<rparr>" "rootId ns = hd (P k)"
    using flat_root [OF ok ns] by metis
  ultimately show ?thesis by (simp add: cache_remove_def case_prod_unfold Let_def)
qed


section \<open>Lookups and lifetimes\<close>

lemma namespace_find_None:
  "delta_view (m_pNamespaceById c) k = None \<Longrightarrow> namespace_find c k = Inr None"
  by (simp add: namespace_find_def)

lemma namespace_find_Some:
  assumes "ncache_ok P c" and "delta_view (m_pNamespaceById c) k = Some ns"
  obtains h where "delta_view (m_pHistoryById c) (hd (P k)) = Some h" "hist_ok P (hd (P k)) h"
    "k = hd (P k) \<or> map_of (active_children h) k \<noteq> None" "P k \<noteq> []"
    "namespace_find c k = Inr (Some \<lparr>e_ns = \<lparr>m_path = P k\<rparr>, e_root = history_back h, e_store = h_store h\<rparr>)"
proof -
  obtain h where h: "delta_view (m_pHistoryById c) (hd (P k)) = Some h" "hist_ok P (hd (P k)) h"
    "ns = \<lparr>m_path = P k\<rparr>" "k = hd (P k) \<or> map_of (active_children h) k \<noteq> None"
    "rootId ns = hd (P k)" "P k \<noteq> []"
    using flat_root [OF assms] by metis
  have "namespace_find c k = Inr (Some \<lparr>e_ns = \<lparr>m_path = P k\<rparr>, e_root = history_back h, e_store = h_store h\<rparr>)"
    using assms(2) h hist_okD(5,7) [OF h(2)] by (simp add: namespace_find_def)
  with that h show ?thesis by blast
qed

lemma root_in_flat:
  assumes "ncache_ok P c" and "P i = [i]"
  shows "delta_view (m_pNamespaceById c) i = None \<longleftrightarrow> delta_view (m_pHistoryById c) i = None"
  using flat_absent [OF assms(1), of i i] flat_at [OF assms(1), of i _ i] assms(2)
  by (cases "delta_view (m_pHistoryById c) i") auto

text \<open>What a validated registration of a root can rely on.\<close>

definition root_valid :: "Height \<Rightarrow> BlockDuration \<Rightarrow> RootNamespaceNotification \<Rightarrow> NamespaceCacheDelta \<Rightarrow> bool" where
  "root_valid height maxDuration n c \<longleftrightarrow>
     RootNamespaceAvailabilityValidator height n c = Inr Success
     \<and> NamespaceDurationOverflowValidator maxDuration height n c = Inr Success
     \<and> unat height + unat (rn_Duration n) + unat (m_gracePeriodDuration c) < 2 ^ 64
     \<and> (\<forall>vs. cache_view c (rn_NamespaceId n) = Some vs \<longrightarrow> Start (v_lifetime (last vs)) \<le> height)"

lemma make_lifetime_Inr:
  "s < e \<Longrightarrow> e = max_Height \<or> no_wrap e g \<Longrightarrow>
   make_NamespaceLifetime s e g = Inr \<lparr>Start = s, End = if e = max_Height then e else e + g\<rparr>"
  by (auto simp: make_NamespaceLifetime_def Let_def wrap_less)

lemma new_lifetime:
  assumes "unat height + unat (rn_Duration n) + unat g < 2 ^ 64" and "rn_Duration n \<noteq> 0 \<or> height = 1"
  obtains l where "CalculateNewLifetime n height g = Inr l" "Start l = height" "height < End l"
proof (cases "rn_Duration n = 0")
  case True
  with assms(2) have "height = 1" by simp
  moreover have "(1 :: u64) < max_Height" by code_simp
  ultimately show ?thesis using True
    by (intro that [of "\<lparr>Start = 1, End = max_Height\<rparr>"])
      (simp_all add: CalculateNewLifetime_def make_lifetime_Inr)
next
  case False
  let ?d = "rn_Duration n"
  have d: "0 < unat ?d" using False by (simp add: unat_gt_0)
  have nw: "no_wrap height ?d" using assms(1) by (simp add: no_wrap_def)
  then have nw2: "no_wrap (height + ?d) g" using assms(1) by (simp add: no_wrap_def unat_add_no_wrap)
  have lt: "height < height + ?d" using d nw by (simp add: word_less_nat_alt unat_add_no_wrap)
  have "height + ?d \<le> height + ?d + g" using nw2 by (rule no_wrap_le)
  with lt have "height < (if height + ?d = max_Height then height + ?d else height + ?d + g)"
    by (auto intro: order.strict_trans2)
  with False show ?thesis
    using make_lifetime_Inr [OF lt disjI2 [OF nw2]]
    by (intro that [of "\<lparr>Start = height, End = if height + ?d = max_Height then height + ?d else height + ?d + g\<rparr>"])
      (simp_all add: CalculateNewLifetime_def)
qed

lemma root_valid_lifetime:
  assumes ok: "ncache_ok P c" and P: "P (rn_NamespaceId n) = [rn_NamespaceId n]"
    and valid: "root_valid height maxDuration n c"
  obtains l where "CalculateLifetime c n height = Inr l"
    "fits (make_RootNamespace (rn_NamespaceId n) (rn_Owner n) l 0) c"
proof -
  let ?i = "rn_NamespaceId n" and ?d = "rn_Duration n" and ?g = "m_gracePeriodDuration c"
  have dur: "?d \<noteq> 0 \<or> height = 1"
    using valid by (auto simp: root_valid_def RootNamespaceAvailabilityValidator_def split: if_splits)
  have "unat height + unat ?d + unat ?g < 2 ^ 64" using valid by (simp add: root_valid_def)
  then obtain l where l: "CalculateNewLifetime n height ?g = Inr l" "Start l = height" "height < End l"
    using new_lifetime [OF _ dur, of ?g] by metis
  show ?thesis
  proof (cases "delta_view (m_pNamespaceById c) ?i")
    case None
    then have "cache_view c ?i = None" using root_in_flat [OF ok P] by (simp add: cache_view_def)
    with None l that [of l] show ?thesis
      by (simp add: CalculateLifetime_def namespace_find_None fits_def make_RootNamespace_def)
  next
    case (Some ns)
    obtain h where h: "delta_view (m_pHistoryById c) (hd (P ?i)) = Some h" "hist_ok P (hd (P ?i)) h"
      "namespace_find c ?i = Inr (Some \<lparr>e_ns = \<lparr>m_path = P ?i\<rparr>, e_root = history_back h, e_store = h_store h\<rparr>)"
      using namespace_find_Some [OF ok Some] by metis
    let ?r = "m_lifetime (history_back h)"
    have v: "cache_view c ?i = Some (history_view h)" using h(1) P by (simp add: cache_view_def)
    have lv: "v_lifetime (last (history_view h)) = ?r"
      using hist_okD(3) [OF h(2)] by (simp add: last_history_view)
    show ?thesis
    proof (cases "lifetime_isActive ?r height")
      case False
      moreover have "Start ?r \<le> height" using valid v lv by (auto simp: root_valid_def)
      ultimately have "End ?r \<le> height" by (auto simp: lifetime_isActive_def)
      with False l h(3) v lv that [of l] show ?thesis
        by (auto simp: CalculateLifetime_def IsRenewal_def fits_def make_RootNamespace_def)
    next
      case True
      then have own: "m_ownerAddress (history_back h) = rn_Owner n" and nw: "no_wrap (End ?r) ?d"
        using valid h(3)
        by (auto simp: root_valid_def RootNamespaceAvailabilityValidator_def
            NamespaceDurationOverflowValidator_def AddOverflows_def wrap_less Let_def split: if_splits)
      have "Start ?r < End ?r"
        using back_ok [OF hist_okD(1,3) [OF h(2)]] by (simp add: root_ok_def)
      then have lt: "Start ?r < End ?r + ?d" using no_wrap_le [OF nw] by simp
      have "make_NamespaceLifetime (Start ?r) (End ?r + ?d) 0 = Inr \<lparr>Start = Start ?r, End = End ?r + ?d\<rparr>"
        using make_lifetime_Inr [OF lt disjI2, of 0] no_wrap_0 by simp
      with True own l h(3) v lv lt no_wrap_le [OF nw] show ?thesis
        by (intro that [of "\<lparr>Start = Start ?r, End = End ?r + ?d\<rparr>"])
          (simp_all add: CalculateLifetime_def IsRenewal_def fits_def make_RootNamespace_def Let_def)
    qed
  qed
qed

section \<open>Properties\<close>

text \<open>Two caches show the same histories, namespaces, expiry groups and sizes.\<close>

definition same_content :: "NamespaceCacheDelta \<Rightarrow> NamespaceCacheDelta \<Rightarrow> bool" where
  "same_content c c' \<longleftrightarrow>
     cache_view c = cache_view c'
     \<and> delta_view (m_pNamespaceById c) = delta_view (m_pNamespaceById c')
     \<and> delta_view (m_pRootNamespaceIdsByExpiryHeight c) = delta_view (m_pRootNamespaceIdsByExpiryHeight c')
     \<and> m_activeSize c = m_activeSize c' \<and> m_deepSize c = m_deepSize c'"

lemma same_contentI:
  assumes "ncache_ok P c" and "ncache_ok P c'" and "cache_view c = cache_view c'"
    and "delta_view (m_pRootNamespaceIdsByExpiryHeight c) = delta_view (m_pRootNamespaceIdsByExpiryHeight c')"
  shows "same_content c c'"
  using ncache_okD(5-7) [OF assms(1)] ncache_okD(5-7) [OF assms(2)] assms(3,4)
  by (simp add: same_content_def)

lemma butlast_push_view: "butlast (push_view i owner l vs) = vs"
  and last_lifetime_push_view: "v_lifetime (last (push_view i owner l vs)) = l"
  by (simp_all add: push_view_def v_lifetime_def)

lemma insert_remove_root:
  assumes ok: "ncache_ok P c" and P: "P (m_id ns) = [m_id ns]" and fits: "fits ns c"
    and new: "m_id ns \<notin> set (group_ids (m_pRootNamespaceIdsByExpiryHeight c) (End (m_lifetime ns)))"
  shows "\<exists>c1 c2. insert_root ns c = Inr c1 \<and> ncache_ok P c1
    \<and> cache_view c1 = (cache_view c)(m_id ns \<mapsto> push_view (m_id ns) (m_ownerAddress ns) (m_lifetime ns)
        (case cache_view c (m_id ns) of None \<Rightarrow> [] | Some vs \<Rightarrow> vs))
    \<and> cache_remove (m_id ns) c1 = Inr c2 \<and> ncache_ok P c2 \<and> same_content c2 c"
proof -
  let ?i = "m_id ns"
  let ?vs = "case cache_view c ?i of None \<Rightarrow> [] | Some vs \<Rightarrow> vs"
  obtain c1 where c1: "insert_root ns c = Inr c1" "root_inserted P ns c c1"
    using insert_root_correct [OF ok P fits] .
  then have ok1: "ncache_ok P c1"
    and v1: "cache_view c1 = (cache_view c)(?i \<mapsto> push_view ?i (m_ownerAddress ns) (m_lifetime ns) ?vs)"
    and g1: "AddIdentifierWithGroup (End (m_lifetime ns)) ?i (m_pRootNamespaceIdsByExpiryHeight c)
      = Inr (m_pRootNamespaceIdsByExpiryHeight c1)"
    by (simp_all add: root_inserted_def)
  define c1' where "c1' = c1\<lparr>m_pNamespaceById := snd (find_mutable ?i (m_pNamespaceById c1))\<rparr>"
  have ok1': "ncache_ok P c1'" and v1': "cache_view c1' = cache_view c1"
    unfolding c1'_def using ncache_ok_touch [OF ok1] by simp_all
  obtain h where h: "delta_view (m_pHistoryById c1') ?i = Some h"
      "history_view h = push_view ?i (m_ownerAddress ns) (m_lifetime ns) ?vs"
    using v1 v1' by (auto simp: cache_view_def fun_eq_iff split: if_splits)
  have "historyDepth h = Suc (length ?vs)"
    using h(2) by (simp add: push_view_def flip: length_history_view)
  then have "historyDepth h \<noteq> 1 \<or> historyDepth h = 1 \<and> active_children h = []"
    using h(2) hist_okD(9) [OF ncache_okD(4) [OF ok1' h(1)]]
    by (auto simp: v_children_push_view)
  then obtain c2 where c2: "removeRoot ?i c1' = Inr c2" "root_removed P ?i c1' c2"
    using removeRoot_last [OF ok1' h(1)] removeRoot_version [OF ok1' h(1)] by blast
  have "delta_view (m_pNamespaceById c1) ?i \<noteq> None"
    using root_in_flat [OF ok1 P] v1 by (auto simp: cache_view_def fun_eq_iff split: if_splits)
  then have rem: "cache_remove ?i c1 = Inr c2"
    using cache_remove_dispatch [OF ok1, of ?i] P c2(1) by (auto simp: c1'_def)
  have "cache_view c2 = (cache_view c)(?i := if ?vs = [] then None else Some ?vs)"
    using c2(2) v1 v1' by (auto simp: root_removed_def butlast_push_view)
  moreover have "(if ?vs = [] then None else Some ?vs) = cache_view c ?i"
    using ncache_okD(4) [OF ok, of ?i] hist_okD(3) by (auto simp: cache_view_def split: option.splits)
  ultimately have "cache_view c2 = cache_view c" by (simp add: fun_upd_idem)
  moreover have "delta_view (m_pRootNamespaceIdsByExpiryHeight c2) = delta_view (m_pRootNamespaceIdsByExpiryHeight c)"
    using add_remove_group [OF ncache_okD(3) [OF ok] new g1] c2(2) v1 v1'
    by (simp add: root_removed_def last_lifetime_push_view) (simp add: c1'_def)
  ultimately have "same_content c2 c"
    using c2(2) ok by (intro same_contentI) (simp_all add: root_removed_def)
  then show ?thesis using c1(1) ok1 v1 rem c2(2) by (auto simp: root_removed_def)
qed

text \<open>
  C20 A root registration that passes the availability and the duration overflow validators never throws
  when it is committed: a new version is put on top of the history of the root, which inherits alias
  and children exactly when the owner renews an active namespace. Rolling the registration back
  restores the histories, the flat map, the expiry groups and both size counters, and the cache is
  consistent throughout.
\<close>

theorem root_registration_rollback:
  assumes "ncache_ok P c" and "P (rn_NamespaceId n) = [rn_NamespaceId n]"
    and "root_valid height maxDuration n c"
    and "\<forall>l. CalculateLifetime c n height = Inr l \<longrightarrow>
      rn_NamespaceId n \<notin> set (group_ids (m_pRootNamespaceIdsByExpiryHeight c) (End l))"
  shows "\<exists>l c1 c2. CalculateLifetime c n height = Inr l
    \<and> RootNamespaceObserver Commit height n c = Inr c1 \<and> ncache_ok P c1
    \<and> cache_view c1 = (cache_view c)(rn_NamespaceId n \<mapsto> push_view (rn_NamespaceId n) (rn_Owner n) l
        (case cache_view c (rn_NamespaceId n) of None \<Rightarrow> [] | Some vs \<Rightarrow> vs))
    \<and> RootNamespaceObserver Rollback height n c1 = Inr c2 \<and> ncache_ok P c2 \<and> same_content c2 c"
proof -
  obtain l where l: "CalculateLifetime c n height = Inr l"
    "fits (make_RootNamespace (rn_NamespaceId n) (rn_Owner n) l 0) c"
    using root_valid_lifetime [OF assms(1-3)] .
  define ns where "ns = make_RootNamespace (rn_NamespaceId n) (rn_Owner n) l 0"
  have ns: "m_id ns = rn_NamespaceId n" "m_ownerAddress ns = rn_Owner n" "m_lifetime ns = l"
    by (simp_all add: ns_def make_RootNamespace_def)
  have "m_id ns \<notin> set (group_ids (m_pRootNamespaceIdsByExpiryHeight c) (End (m_lifetime ns)))"
    using assms(4) l(1) ns by simp
  from insert_remove_root [OF assms(1) _ _ this] assms(2) l show ?thesis
    by (fastforce simp: RootNamespaceObserver_def ns ns_def [symmetric])
qed


text \<open>A cache with a root namespace 7 (owner 1, active from 10 to 40) and a child 70 of it.\<close>

definition empty_ncache :: "BlockDuration \<Rightarrow> NamespaceCacheDelta" where
  "empty_ncache g = \<lparr>m_pHistoryById = make_delta [], m_pNamespaceById = make_delta [],
     m_pRootNamespaceIdsByExpiryHeight = make_delta [], m_gracePeriodDuration = g,
     m_activeSize = 0, m_deepSize = 0\<rparr>"

definition sample_P :: "NamespaceId \<Rightarrow> Path" where
  "sample_P k = (if k = 70 then [7, 70] else if k = 71 then [7, 70, 71] else [k])"

lemma empty_ncache_ok: "ncache_ok P (empty_ncache g)"
proof -
  have v: "cache_view (empty_ncache g) = Map.empty"
    by (simp add: cache_view_def empty_ncache_def make_delta_view fun_eq_iff)
  show ?thesis
    unfolding ncache_ok_def v
    by (simp add: empty_ncache_def make_delta_ok make_delta_view groups_ok_def
        total_def flat_of_def fun_eq_iff)
qed

abbreviation get_right :: "'a result \<Rightarrow> 'a" where
  "get_right r \<equiv> (case r of Inr x \<Rightarrow> x)"

definition sample_ncache :: NamespaceCacheDelta where
  "sample_ncache = get_right (RootNamespaceObserver Commit 10
     \<lparr>rn_Owner = [1], rn_NamespaceId = 7, rn_Duration = 30\<rparr> (empty_ncache 5))"

lemma sample_ncache_ok: "ncache_ok sample_P sample_ncache"
proof -
  let ?n = "\<lparr>rn_Owner = [1], rn_NamespaceId = 7, rn_Duration = 30\<rparr>"
  have e: "delta_view (m_pHistoryById (empty_ncache 5)) = Map.empty"
    "delta_view (m_pNamespaceById (empty_ncache 5)) = Map.empty"
    "delta_view (m_pRootNamespaceIdsByExpiryHeight (empty_ncache 5)) = Map.empty"
    by (simp_all add: empty_ncache_def make_delta_view)
  have l: "CalculateLifetime (empty_ncache 5) ?n 10 = Inr \<lparr>Start = 10, End = 45\<rparr>" by code_simp
  have "fits (make_RootNamespace 7 [1] \<lparr>Start = 10, End = 45\<rparr> 0) (empty_ncache 5)"
    by (simp add: fits_def make_RootNamespace_def cache_view_def e)
  then obtain c1 where c1: "insert_root (make_RootNamespace 7 [1] \<lparr>Start = 10, End = 45\<rparr> 0) (empty_ncache 5) = Inr c1"
    "ncache_ok sample_P c1"
    using insert_root_correct [OF empty_ncache_ok, of sample_P "make_RootNamespace 7 [1] \<lparr>Start = 10, End = 45\<rparr> 0" 5]
    by (auto simp: sample_P_def make_RootNamespace_def root_inserted_def)
  then show ?thesis by (simp add: sample_ncache_def RootNamespaceObserver_def l)
qed

theorem root_registration_rollback_witness:
  "\<exists>c1 c2. RootNamespaceObserver Commit 20 \<lparr>rn_Owner = [1], rn_NamespaceId = 7, rn_Duration = 30\<rparr> sample_ncache
       = Inr c1 \<and> ncache_ok sample_P c1
     \<and> RootNamespaceObserver Rollback 20 \<lparr>rn_Owner = [1], rn_NamespaceId = 7, rn_Duration = 30\<rparr> c1 = Inr c2
     \<and> same_content c2 sample_ncache"
proof -
  let ?n = "\<lparr>rn_Owner = [1], rn_NamespaceId = 7, rn_Duration = 30\<rparr>"
  have "RootNamespaceAvailabilityValidator 20 ?n sample_ncache = Inr Success" by code_simp
  moreover have "NamespaceDurationOverflowValidator 1000 20 ?n sample_ncache = Inr Success" by code_simp
  moreover have "m_gracePeriodDuration sample_ncache = 5" by code_simp
  moreover have "delta_find MutableTypeTag (m_pHistoryById sample_ncache) 7 =
      Some (history_push_back [1] \<lparr>Start = 10, End = 45\<rparr> (make_history 7))" by code_simp
  then have "cache_view sample_ncache 7 = Some [(7, [1], \<lparr>Start = 10, End = 45\<rparr>, NoAlias, [])]"
    by (simp add: cache_view_def history_push_back_push_view push_view_def)
  ultimately have v: "root_valid 20 1000 ?n sample_ncache"
    by (simp add: root_valid_def v_lifetime_def)
  have "CalculateLifetime sample_ncache ?n 20 = Inr \<lparr>Start = 10, End = 75\<rparr>"
    "group_ids (m_pRootNamespaceIdsByExpiryHeight sample_ncache) 75 = []" by code_simp+
  with root_registration_rollback [OF sample_ncache_ok _ v] show ?thesis
    by (fastforce simp: sample_P_def)
qed


lemma child_path_ok:
  assumes ok: "ncache_ok P c" and parent: "delta_view (m_pNamespaceById c) parent = Some ns"
    and new: "delta_view (m_pNamespaceById c) i = None" and P: "P i = P parent @ [i]"
  obtains h where "delta_view (m_pHistoryById c) (hd (P i)) = Some h" "hist_ok P (hd (P i)) h"
    "path_ok (hd (P i)) (active_children h) (P i)" "last (P i) = i"
    "map_of (active_children h) i = None"
    "namespace_find c parent = Inr (Some \<lparr>e_ns = \<lparr>m_path = P parent\<rparr>, e_root = history_back h, e_store = h_store h\<rparr>)"
proof -
  obtain h where h: "delta_view (m_pHistoryById c) (hd (P parent)) = Some h" "hist_ok P (hd (P parent)) h"
    "parent = hd (P parent) \<or> map_of (active_children h) parent \<noteq> None" "P parent \<noteq> []"
    "namespace_find c parent = Inr (Some \<lparr>e_ns = \<lparr>m_path = P parent\<rparr>, e_root = history_back h, e_store = h_store h\<rparr>)"
    using namespace_find_Some [OF ok parent] .
  have hd: "hd (P i) = hd (P parent)" using h(4) P by simp
  have none: "i \<noteq> hd (P i)" "map_of (active_children h) i = None"
    using flat_at [OF ok h(1), of i] new hd by (auto split: if_splits)
  from h(3) have "path_ok (hd (P i)) (active_children h) (P i)"
  proof
    assume par: "parent = hd (P parent)"
    have "P (hd (P parent)) = [hd (P parent)]" using hist_okD(4) [OF h(2)] .
    then have "P parent = [parent]" using par by metis
    with P none(1) hd show ?thesis by (simp add: path_ok_def)
  next
    assume "map_of (active_children h) parent \<noteq> None"
    then obtain d where d: "map_of (active_children h) parent = Some d" by auto
    note p = active_child_path [OF h(2) d]
    have "last (butlast (P i)) = parent" "butlast (P i) = P parent" using P p(4) by simp_all
    with P p d none(1) hd h(4) show ?thesis by (simp add: path_ok_def)
  qed
  with that h hd none(2) P show ?thesis by simp
qed

text \<open>The cache with a child inserted into the active root \<open>h\<close>, seen through the flat map.\<close>

abbreviation with_child :: "(NamespaceId \<Rightarrow> Path) \<Rightarrow> NamespaceId \<Rightarrow> RootNamespaceHistory \<Rightarrow> RootNamespaceHistory" where
  "with_child P i h \<equiv>
     modify_children (omap_insert i \<lparr>c_Path = P i, c_Alias = NoAlias\<rparr> (active_children h)) h"

lemma inserted_child_flat:
  assumes ok: "ncache_ok P c" "ncache_ok P c1" and h: "delta_view (m_pHistoryById c) (hd (P i)) = Some h"
    and c1: "delta_view (m_pHistoryById c1) = (delta_view (m_pHistoryById c))(hd (P i) \<mapsto> with_child P i h)"
    and new: "map_of (active_children h) i = None"
  shows "delta_view (m_pNamespaceById c1) = (delta_view (m_pNamespaceById c))(i \<mapsto> \<lparr>m_path = P i\<rparr>)"
proof
  fix k
  note hok = ncache_okD(4) [OF ok(1) h]
  have h1: "delta_view (m_pHistoryById c1) (hd (P i)) = Some (with_child P i h)" using c1 by simp
  show "delta_view (m_pNamespaceById c1) k = ((delta_view (m_pNamespaceById c))(i \<mapsto> \<lparr>m_path = P i\<rparr>)) k"
  proof (cases "hd (P k) = hd (P i)")
    case True
    then show ?thesis
      using flat_at [OF ok(2) h1 True] flat_at [OF ok(1) h True] new hist_okD(6) [OF hok]
        active_children_modify [OF hist_okD(8) [OF hok]]
      by (auto simp: map_of_omap_insert children_ok_def)
  next
    case False
    then have "k \<noteq> i" by auto
    with False show ?thesis
      using c1 ncache_okD(5) [OF ok(2)] ncache_okD(5) [OF ok(1)]
      by (simp add: flat_of_def cache_view_def)
  qed
qed

lemma remove_inserted_child:
  assumes ok: "ncache_ok P c" "ncache_ok P c1" and h: "delta_view (m_pHistoryById c) (hd (P i)) = Some h"
    and c1: "delta_view (m_pHistoryById c1) = (delta_view (m_pHistoryById c))(hd (P i) \<mapsto> with_child P i h)"
    and p: "path_ok (hd (P i)) (active_children h) (P i)" "last (P i) = i" "map_of (active_children h) i = None"
    and g: "m_pRootNamespaceIdsByExpiryHeight c1 = m_pRootNamespaceIdsByExpiryHeight c"
  shows "\<exists>c2. cache_remove i c1 = Inr c2 \<and> ncache_ok P c2 \<and> same_content c2 c"
proof -
  note hok = ncache_okD(4) [OF ok(1) h]
  let ?h = "with_child P i h"
  have a1: "active_children ?h = omap_insert i \<lparr>c_Path = P i, c_Alias = NoAlias\<rparr> (active_children h)"
    using active_children_modify [OF hist_okD(8) [OF hok]] .
  have m1: "map_of (active_children ?h) i \<noteq> None"
    using a1 hist_okD(6) [OF hok] p(3) by (simp add: map_of_omap_insert children_ok_def)
  define c1' where "c1' = c1\<lparr>m_pNamespaceById := snd (find_mutable i (m_pNamespaceById c1))\<rparr>"
  have ok1: "ncache_ok P c1'" unfolding c1'_def by (rule ncache_ok_touch [OF ok(2)])
  have h1: "delta_view (m_pHistoryById c1') (hd (P i)) = Some ?h" using c1 by (simp add: c1'_def)
  have "root_remove (h_store ?h) (history_back ?h) i = Inr (h_store h)"
    using root_remove_absent_descendents [OF hok p(1)] p(2,3) by simp
  then obtain c2 where c2: "removeChild \<lparr>m_path = P i\<rparr> c1' = Inr c2" "ncache_ok P c2"
    "delta_view (m_pHistoryById c2) =
      (delta_view (m_pHistoryById c1'))(hd (P i) \<mapsto> modify_children (omap_erase i (active_children ?h)) ?h)"
    "m_pRootNamespaceIdsByExpiryHeight c2 = m_pRootNamespaceIdsByExpiryHeight c1'"
    using removeChild_correct [OF ok1 h1 m1] by blast
  have "hd (P i) \<noteq> i" using p(1,2) by (auto simp: path_ok_def)
  then have rollback: "cache_remove i c1 = Inr c2"
    using cache_remove_dispatch [OF ok(2), of i] inserted_child_flat [OF ok h c1 p(3)] c2(1)
    by (simp add: c1'_def)
  have "modify_children (omap_erase i (active_children ?h)) ?h = h"
    using hist_okD(6,8) [OF hok] p(3) modify_children_id
    by (simp add: a1 [simplified] omap_erase_insert children_ok_def modify_children_twice)
  then have "delta_view (m_pHistoryById c2) = delta_view (m_pHistoryById c)"
    using c2(3) c1 h by (simp add: c1'_def fun_upd_idem)
  then have "same_content c2 c"
    using c2(2,4) ok(1) g by (intro same_contentI cache_view_cong) (simp_all add: c1'_def)
  with rollback c2(2) show ?thesis by blast
qed

text \<open>
  C21 A child registration that passes the child availability validator never throws when it is
  committed: the child is shown with the path of its parent extended by its identifier, and it is added
  to the roots of the active owner. Rolling the registration back restores the cache, sizes included.
\<close>

theorem child_registration_rollback:
  assumes ok: "ncache_ok P c" and P: "P (cn_NamespaceId n) = P (cn_ParentId n) @ [cn_NamespaceId n]"
    and valid: "ChildNamespaceAvailabilityValidator maxDepth height n c = Inr Success"
  shows "\<exists>c1 c2. ChildNamespaceObserver Commit n c = Inr c1 \<and> ncache_ok P c1
    \<and> delta_find MutableTypeTag (m_pNamespaceById c1)
        = (delta_find MutableTypeTag (m_pNamespaceById c))(cn_NamespaceId n \<mapsto> \<lparr>m_path = P (cn_NamespaceId n)\<rparr>)
    \<and> ChildNamespaceObserver Rollback n c1 = Inr c2 \<and> ncache_ok P c2 \<and> same_content c2 c"
proof -
  let ?i = "cn_NamespaceId n" and ?par = "cn_ParentId n"
  have new: "delta_view (m_pNamespaceById c) ?i = None"
    using valid contains_iff [OF ncache_okD(2) [OF ok], of ?i]
    by (auto simp: ChildNamespaceAvailabilityValidator_def split: if_splits)
  obtain ns where par: "delta_view (m_pNamespaceById c) ?par = Some ns"
    using valid by (cases "delta_view (m_pNamespaceById c) ?par")
      (auto simp: ChildNamespaceAvailabilityValidator_def namespace_find_None split: if_splits)
  obtain h where h: "delta_view (m_pHistoryById c) (hd (P ?i)) = Some h" "hist_ok P (hd (P ?i)) h"
    "path_ok (hd (P ?i)) (active_children h) (P ?i)" "last (P ?i) = ?i" "map_of (active_children h) ?i = None"
    "namespace_find c ?par = Inr (Some \<lparr>e_ns = \<lparr>m_path = P ?par\<rparr>, e_root = history_back h, e_store = h_store h\<rparr>)"
    using child_path_ok [OF ok par new P] .
  let ?ch = "omap_insert ?i \<lparr>c_Path = P ?i, c_Alias = NoAlias\<rparr> (active_children h)"
  let ?h = "modify_children ?ch h"
  obtain c1 where c1: "insert_namespace \<lparr>m_path = P ?i\<rparr> c = Inr c1" "ncache_ok P c1"
    "delta_view (m_pHistoryById c1) = (delta_view (m_pHistoryById c))(hd (P ?i) \<mapsto> ?h)"
    "m_pRootNamespaceIdsByExpiryHeight c1 = m_pRootNamespaceIdsByExpiryHeight c"
    using insert_namespace_correct [OF ok h(1,3)] h(4) new by auto
  have commit: "ChildNamespaceObserver Commit n c = Inr c1"
    using h(6) c1(1) P by (simp add: ChildNamespaceObserver_def namespace_get_def make_Namespace_def)
  show ?thesis
    using commit c1(2) inserted_child_flat [OF ok c1(2) h(1) c1(3) h(5)]
      remove_inserted_child [OF ok c1(2) h(1) c1(3) h(3,4,5)] c1(4)
    by (auto simp: ChildNamespaceObserver_def)
qed

theorem child_registration_rollback_witness:
  "\<exists>c1 c2. ChildNamespaceObserver Commit \<lparr>cn_Owner = [1], cn_NamespaceId = 70, cn_ParentId = 7\<rparr> sample_ncache = Inr c1
     \<and> delta_find MutableTypeTag (m_pNamespaceById c1) 70 = Some \<lparr>m_path = [7, 70]\<rparr>
     \<and> ChildNamespaceObserver Rollback \<lparr>cn_Owner = [1], cn_NamespaceId = 70, cn_ParentId = 7\<rparr> c1 = Inr c2
     \<and> same_content c2 sample_ncache"
proof -
  let ?n = "\<lparr>cn_Owner = [1], cn_NamespaceId = 70, cn_ParentId = 7\<rparr>"
  have "ChildNamespaceAvailabilityValidator 3 20 ?n sample_ncache = Inr Success" by code_simp
  from child_registration_rollback [OF sample_ncache_ok _ this] show ?thesis
    by (fastforce simp: sample_P_def)
qed


section \<open>Aliases\<close>

text \<open>The history with the alias of the root or of an active child replaced.\<close>

definition with_alias :: "NamespaceId \<Rightarrow> NamespaceAlias \<Rightarrow> RootNamespaceHistory \<Rightarrow> RootNamespaceHistory" where
  "with_alias k a h =
     (if k = h_id h then h\<lparr>m_rootHistory := butlast (m_rootHistory h) @ [(history_back h)\<lparr>m_alias := a\<rparr>]\<rparr>
      else modify_children
        (omap_put k ((the (map_of (active_children h) k))\<lparr>c_Alias := a\<rparr>) (active_children h)) h)"

definition alias_of :: "NamespaceId \<Rightarrow> RootNamespaceHistory \<Rightarrow> NamespaceAlias" where
  "alias_of k h = (if k = h_id h then m_alias (history_back h) else c_Alias (the (map_of (active_children h) k)))"

lemma omap_put_same: "omap_ok m \<Longrightarrow> map_of m k = Some v \<Longrightarrow> omap_put k v m = m"
  by (rule omap_ext) (auto simp: omap_ok_put map_of_omap_put fun_upd_idem)

lemma omap_put_twice: "omap_ok m \<Longrightarrow> omap_put k v (omap_put k w m) = omap_put k v m"
  by (rule omap_ext) (auto simp: omap_ok_put map_of_omap_put)

lemma set_omap_put: "set (omap_put k v m) \<subseteq> insert (k, v) (set m)"
  by (induction k v m rule: omap_put.induct) auto

lemma length_omap_put:
  assumes "omap_ok m" and "map_of m k \<noteq> None"
  shows "length (omap_put k v m) = length m"
proof -
  have "dom (map_of (omap_put k v m)) = dom (map_of m)"
    using assms(2) by (auto simp: map_of_omap_put)
  then show ?thesis using assms(1) by (simp add: length_eq_card omap_ok_put)
qed

lemma children_ok_put:
  assumes "children_ok i ch" and "map_of ch k = Some d"
  shows "children_ok i (omap_put k (d\<lparr>c_Alias := a\<rparr>) ch)"
proof -
  have p: "path_ok i (omap_put k (d\<lparr>c_Alias := a\<rparr>) ch) q" if "path_ok i ch q" for q
    using that assms(2) by (auto simp: path_ok_def map_of_omap_put)
  have "child_ok i ch (x, e)" if "(x, e) \<in> set ch" for x e
    using assms(1) that by (simp add: children_ok_def)
  moreover have "child_ok i ch (k, d)" using assms by (rule children_ok_map_of)
  ultimately have "child_ok i (omap_put k (d\<lparr>c_Alias := a\<rparr>) ch) kd"
    if "kd \<in> set (omap_put k (d\<lparr>c_Alias := a\<rparr>) ch)" for kd
    using that set_omap_put [of k "d\<lparr>c_Alias := a\<rparr>" ch] p
    by (cases kd) (auto simp: child_ok_path)
  then show ?thesis using assms(1) by (simp add: children_ok_def omap_ok_put)
qed

lemma hist_ok_root_alias:
  assumes "hist_ok P i h"
  shows "hist_ok P i (with_alias i a h)" "v_children (last (history_view (with_alias i a h))) = active_children h"
    "deep_size (history_view (with_alias i a h)) = deep_size (history_view h)"
proof -
  note h = hist_okD [OF assms]
  obtain rs r where rs: "m_rootHistory h = rs @ [r]" using h(3) by (metis rev_exhaust)
  then have b: "history_back h = r" by (simp add: history_back_def)
  have w: "with_alias i a h = h\<lparr>m_rootHistory := rs @ [r\<lparr>m_alias := a\<rparr>]\<rparr>"
    using h(2) rs b by (simp add: with_alias_def)
  have v: "history_view (with_alias i a h) = map (root_view (h_store h)) rs @ [root_view (h_store h) (r\<lparr>m_alias := a\<rparr>)]"
    "history_view h = map (root_view (h_store h)) rs @ [root_view (h_store h) r]"
    using rs by (simp_all add: w history_view_def)
  have ch: "root_children (h_store h) (r\<lparr>m_alias := a\<rparr>) = root_children (h_store h) r"
    by (simp add: root_children_def)
  have "shares x (r\<lparr>m_alias := a\<rparr>) = shares x r" for x
    by (simp add: shares_def canExtend_def)
  then have "history_ok (with_alias i a h)"
    using h(1) rs ch by (auto simp: w history_ok_def successively_append_iff root_ok_def)
  moreover have "views_ok P i (history_view (with_alias i a h))"
    using assms ch unfolding hist_ok_def views_ok_def v by (auto simp: comp_def)
  ultimately show "hist_ok P i (with_alias i a h)" using h(2) by (simp add: hist_ok_def w)
  show "v_children (last (history_view (with_alias i a h))) = active_children h"
    "deep_size (history_view (with_alias i a h)) = deep_size (history_view h)"
    using ch b unfolding v by (simp_all add: deep_size_def)
qed

text \<open>The cache after the alias of \<open>k\<close> was set, where \<open>i\<close> is the root of \<open>k\<close> and \<open>h\<close> its history.\<close>

definition aliased_cache ::
  "NamespaceId \<Rightarrow> NamespaceId \<Rightarrow> NamespaceAlias \<Rightarrow> RootNamespaceHistory \<Rightarrow> NamespaceCacheDelta \<Rightarrow> NamespaceCacheDelta" where
  "aliased_cache i k a h c = c\<lparr>m_pNamespaceById := snd (find_mutable k (m_pNamespaceById c)),
     m_pHistoryById := write_found i (with_alias k a h) (snd (find_mutable i (m_pHistoryById c)))\<rparr>"

lemma cache_setAlias_eq:
  assumes ok: "ncache_ok P c" and ns: "delta_view (m_pNamespaceById c) k = Some ns"
    and h: "delta_view (m_pHistoryById c) (hd (P k)) = Some h"
  shows "cache_setAlias k a c = Inr (aliased_cache (hd (P k)) k a h c)"
    and "k = hd (P k) \<or> map_of (active_children h) k \<noteq> None"
proof -
  note c = ncache_okD [OF ok]
  note hd = hist_okD [OF c(4) [OF h]]
  let ?i = "hd (P k)"
  have fm: "fst (find_mutable ?i (m_pHistoryById c)) = Some h" using find_mutable_fst [OF c(1)] h by simp
  have fn: "fst (find_mutable k (m_pNamespaceById c)) = Some ns"
    using find_mutable_fst [OF c(2)] ns by simp
  have r: "rootId ns = ?i" using flat_root [OF ok ns] by metis
  show k: "k = ?i \<or> map_of (active_children h) k \<noteq> None"
    using flat_root [OF ok ns] h by (metis option.inject)
  show "cache_setAlias k a c = Inr (aliased_cache ?i k a h c)"
  proof (cases "k = ?i")
    case True
    then have "k = h_id h" "m_id (history_back h) = k" using hd(2,5) by metis+
    then show ?thesis
      using fm fn r hd(7) True
      by (simp add: cache_setAlias_def case_prod_unfold Let_def root_setAlias_def set_back_def with_alias_def
          aliased_cache_def)
  next
    case False
    then have ki: "k \<noteq> h_id h" "m_id (history_back h) \<noteq> k" using hd(2,5) by metis+
    obtain d where d: "map_of (active_children h) k = Some d" using False k by auto
    have "set_back ((h_store h)[m_pChildren (history_back h) := omap_put k (d\<lparr>c_Alias := a\<rparr>) (active_children h)])
        (history_back h) h = with_alias k a h"
      using ki(1) d hd(3) by (simp add: set_back_id with_alias_def modify_children_def)
    then show ?thesis
      using fm fn r hd(7) ki(2) d
      by (simp add: cache_setAlias_def case_prod_unfold Let_def root_setAlias_def aliased_cache_def)
  qed
qed

lemma aliased_root_ok:
  assumes ok: "ncache_ok P c" and h: "delta_view (m_pHistoryById c) i = Some h"
  shows "ncache_ok P (aliased_cache i i a h c)"
proof -
  note c = ncache_okD [OF ok]
  note hok = c(4) [OF h]
  note w = hist_ok_root_alias [OF hok, of a]
  let ?h = "with_alias i a h"
  have vi: "cache_view c i = Some (history_view h)" using h by (simp add: cache_view_def)
  have act: "active_size (history_view ?h) = active_size (history_view h)"
    using w(2) hist_okD(3) [OF w(1)] hist_okD(10) [OF hok] by (simp add: active_size_def)
  have "ncache_ok P (aliased_cache i i a h c)
      \<and> cache_view (aliased_cache i i a h c) = (cache_view c)(i \<mapsto> history_view ?h)"
  proof (rule update_ok [OF ok _ w(1)])
    show "delta_view (m_pNamespaceById (aliased_cache i i a h c)) x =
        (if hd (P x) = i then (if shown i (history_view ?h) x then Some \<lparr>m_path = P x\<rparr> else None)
         else delta_view (m_pNamespaceById c) x)" for x
      using flat_at [OF ok h, of x] c(2) w(2) by (simp add: shown_def aliased_cache_def find_mutable_view)
  qed (use c vi act w(3) find_mutable_write [OF c(1) h, of ?h]
      in \<open>simp_all add: aliased_cache_def find_mutable_ok\<close>)
  then show ?thesis by blast
qed

lemma aliased_child_ok:
  assumes ok: "ncache_ok P c" and h: "delta_view (m_pHistoryById c) i = Some h"
    and d: "map_of (active_children h) k = Some d"
  shows "ncache_ok P (aliased_cache i k a h c)"
proof -
  note c = ncache_okD [OF ok]
  note hok = c(4) [OF h]
  note hd = hist_okD [OF hok]
  let ?ch = "omap_put k (d\<lparr>c_Alias := a\<rparr>) (active_children h)"
  have w: "with_alias k a h = modify_children ?ch h"
    using active_child_path(3) [OF hok d] hd(2) d by (simp add: with_alias_def)
  have len: "length ?ch = length (active_children h)"
    using hd(6) d by (simp add: length_omap_put children_ok_def)
  have ch: "children_ok i ?ch" using hd(6) d by (rule children_ok_put)
  have "ncache_ok P (aliased_cache i k a h c)
      \<and> delta_view (m_pHistoryById (aliased_cache i k a h c)) = (delta_view (m_pHistoryById c))(i \<mapsto> modify_children ?ch h)
      \<and> cache_view (aliased_cache i k a h c) = (cache_view c)(i \<mapsto> history_view (modify_children ?ch h))"
  proof (rule modify_ok [OF ok h ch])
    show "\<forall>kd \<in> set ?ch. c_Path (snd kd) = P (fst kd)"
      using child_paths [OF hok] set_omap_put [of k "d\<lparr>c_Alias := a\<rparr>" "active_children h"]
        active_child_path(2) [OF hok d] by auto
    show "delta_view (m_pNamespaceById (aliased_cache i k a h c)) x =
        (if hd (P x) = i then (if x = i \<or> map_of ?ch x \<noteq> None then Some \<lparr>m_path = P x\<rparr> else None)
         else delta_view (m_pNamespaceById c) x)" for x
      using flat_at [OF ok h, of x] c(2) d
      by (auto simp: map_of_omap_put aliased_cache_def find_mutable_view)
  qed (use c(2) len in \<open>simp_all add: aliased_cache_def w find_mutable_ok\<close>)
  then show ?thesis by blast
qed

lemma cache_setAlias_correct:
  assumes ok: "ncache_ok P c" and ns: "delta_view (m_pNamespaceById c) k = Some ns"
    and h: "delta_view (m_pHistoryById c) (hd (P k)) = Some h"
  shows "\<exists>c'. cache_setAlias k a c = Inr c' \<and> ncache_ok P c'
    \<and> delta_view (m_pHistoryById c') = (delta_view (m_pHistoryById c))(hd (P k) \<mapsto> with_alias k a h)
    \<and> delta_view (m_pNamespaceById c') = delta_view (m_pNamespaceById c)
    \<and> m_pRootNamespaceIdsByExpiryHeight c' = m_pRootNamespaceIdsByExpiryHeight c"
proof -
  note c = ncache_okD [OF ok] and e = cache_setAlias_eq [OF ok ns h]
  let ?i = "hd (P k)"
  have "ncache_ok P (aliased_cache ?i k a h c)"
  proof (cases "k = ?i")
    case True
    then show ?thesis using aliased_root_ok [OF ok h, of a] by metis
  next
    case False
    then show ?thesis using e(2) aliased_child_ok [OF ok h] by blast
  qed
  with e(1) show ?thesis
    using find_mutable_write [OF c(1) h, of "with_alias k a h"] c(2)
    by (intro exI [of _ "aliased_cache ?i k a h c"]) (simp add: aliased_cache_def find_mutable_view)
qed

lemma with_alias_simps:
  assumes "hist_ok P i h" and "k = i \<or> map_of (active_children h) k \<noteq> None"
  shows "alias_of k (with_alias k a h) = a" "with_alias k b (with_alias k a h) = with_alias k b h"
    "with_alias k (alias_of k h) h = h"
proof -
  note h = hist_okD [OF assms(1)]
  have okm: "omap_ok (active_children h)" using h(6) by (simp add: children_ok_def)
  obtain rs r where rs: "m_rootHistory h = rs @ [r]" using h(3) by (metis rev_exhaust)
  show "alias_of k (with_alias k a h) = a"
    using h(8) by (auto simp: alias_of_def with_alias_def history_back_def active_children_modify map_of_omap_put)
      (simp_all add: modify_children_def root_children_def deref_def history_back_def map_of_omap_put)
  show "with_alias k b (with_alias k a h) = with_alias k b h"
    using h(8) okm by (auto simp: with_alias_def modify_children_twice active_children_modify [simplified]
        map_of_omap_put omap_put_twice history_back_def)
      (simp_all add: modify_children_def root_children_def deref_def history_back_def map_of_omap_put omap_put_twice)
  show "with_alias k (alias_of k h) h = h"
    using rs h(2,8) okm assms(2)
    by (auto simp: with_alias_def alias_of_def history_back_def omap_put_same)
      (auto simp: modify_children_def root_children_def deref_def history_back_def)
qed


lemma root_alias_of:
  assumes "hist_ok P i h" and "k = i \<or> map_of (active_children h) k \<noteq> None"
  shows "root_alias (h_store h) (history_back h) k = Inr (alias_of k h)"
  using assms hist_okD(2,5) [OF assms(1)] by (auto simp: root_alias_def alias_of_def)

lemma set_alias_back:
  assumes ok: "ncache_ok P c" and ns: "delta_view (m_pNamespaceById c) k = Some ns"
    and h: "delta_view (m_pHistoryById c) (hd (P k)) = Some h" and a: "alias_of k h = a"
  shows "\<exists>c1 c2. cache_setAlias k b c = Inr c1 \<and> ncache_ok P c1
    \<and> delta_view (m_pHistoryById c1) (hd (P k)) = Some (with_alias k b h)
    \<and> delta_view (m_pNamespaceById c1) = delta_view (m_pNamespaceById c)
    \<and> cache_setAlias k a c1 = Inr c2 \<and> ncache_ok P c2 \<and> same_content c2 c"
proof -
  note hok = ncache_okD(4) [OF ok h] and k = cache_setAlias_eq(2) [OF ok ns h]
  obtain c1 where c1: "cache_setAlias k b c = Inr c1" "ncache_ok P c1"
    "delta_view (m_pHistoryById c1) = (delta_view (m_pHistoryById c))(hd (P k) \<mapsto> with_alias k b h)"
    "delta_view (m_pNamespaceById c1) = delta_view (m_pNamespaceById c)"
    "m_pRootNamespaceIdsByExpiryHeight c1 = m_pRootNamespaceIdsByExpiryHeight c"
    using cache_setAlias_correct [OF ok ns h] by blast
  have h1: "delta_view (m_pHistoryById c1) (hd (P k)) = Some (with_alias k b h)" using c1(3) by simp
  have ns1: "delta_view (m_pNamespaceById c1) k = Some ns" using c1(4) ns by simp
  obtain c2 where c2: "cache_setAlias k a c1 = Inr c2" "ncache_ok P c2"
    "delta_view (m_pHistoryById c2) = (delta_view (m_pHistoryById c1))(hd (P k) \<mapsto> with_alias k a (with_alias k b h))"
    "m_pRootNamespaceIdsByExpiryHeight c2 = m_pRootNamespaceIdsByExpiryHeight c1"
    using cache_setAlias_correct [OF c1(2) ns1 h1] by blast
  have "with_alias k a (with_alias k b h) = h"
    using with_alias_simps(2,3) [OF hok k] a by metis
  then have "delta_view (m_pHistoryById c2) = delta_view (m_pHistoryById c)"
    using c2(3) c1(3) h by (simp add: fun_upd_idem)
  then have "same_content c2 c"
    using c2(2,4) ok c1(5) by (intro same_contentI cache_view_cong) simp_all
  with c1 h1 c2 show ?thesis by blast
qed

lemma resolve_alias:
  assumes ok: "ncache_ok P c" and ns: "delta_view (m_pNamespaceById c) k = Some ns"
    and h: "delta_view (m_pHistoryById c) (hd (P k)) = Some h"
  shows "namespace_find c k = Inr (Some \<lparr>e_ns = \<lparr>m_path = P k\<rparr>, e_root = history_back h, e_store = h_store h\<rparr>)"
    and "root_alias (h_store h) (history_back h) k = Inr (alias_of k h)"
proof -
  show "namespace_find c k = Inr (Some \<lparr>e_ns = \<lparr>m_path = P k\<rparr>, e_root = history_back h, e_store = h_store h\<rparr>)"
    using namespace_find_Some [OF ok ns] h by (metis option.inject)
  show "root_alias (h_store h) (history_back h) k = Inr (alias_of k h)"
    by (rule root_alias_of [OF ncache_okD(4) [OF ok h] cache_setAlias_eq(2) [OF ok ns h]])
qed

text \<open>
  Linking or unlinking a mosaic alias that passed both alias validators never throws: afterwards the
  namespace resolves to the mosaic when it was linked and to nothing when it was unlinked, and rolling
  the change back restores the cache.
\<close>

theorem mosaic_alias_rollback:
  assumes ok: "ncache_ok P c"
    and avail: "AliasAvailabilityValidator k action c = Inr Success"
    and cons: "UnlinkAliasedDataConsistencyValidator AliasType_Mosaic alias_mosaicId k action m c = Inr Success"
  shows "\<exists>c1 c2. AliasedObserverHandler Commit k action (MosaicAlias m) c = Inr c1 \<and> ncache_ok P c1
    \<and> RunNamespaceResolver c1 k AliasType_Mosaic alias_mosaicId = Inr (if action = Link then Some m else None)
    \<and> AliasedObserverHandler Rollback k action (MosaicAlias m) c1 = Inr c2 \<and> ncache_ok P c2
    \<and> same_content c2 c"
proof -
  obtain ns where ns: "delta_view (m_pNamespaceById c) k = Some ns"
    using avail by (cases "delta_view (m_pNamespaceById c) k")
      (auto simp: AliasAvailabilityValidator_def namespace_find_None)
  obtain h where h: "delta_view (m_pHistoryById c) (hd (P k)) = Some h"
    using flat_root [OF ok ns] by metis
  note r = resolve_alias [OF ok ns h] and hok = ncache_okD(4) [OF ok h]
    and k = cache_setAlias_eq(2) [OF ok ns h]
  let ?old = "if action = Link then NoAlias else MosaicAlias m"
  let ?new = "if action = Link then MosaicAlias m else NoAlias"
  have old: "alias_of k h = ?old"
  proof (cases action)
    case Link
    then show ?thesis using avail r
      by (cases "alias_of k h") (simp_all add: AliasAvailabilityValidator_def)
  next
    case Unlink
    then show ?thesis using cons r
      by (cases "alias_of k h") (auto simp: UnlinkAliasedDataConsistencyValidator_def split: if_splits)
  qed
  obtain c1 c2 where c: "cache_setAlias k ?new c = Inr c1" "ncache_ok P c1"
    "delta_view (m_pHistoryById c1) (hd (P k)) = Some (with_alias k ?new h)"
    "delta_view (m_pNamespaceById c1) = delta_view (m_pNamespaceById c)"
    "cache_setAlias k ?old c1 = Inr c2" "ncache_ok P c2" "same_content c2 c"
    using set_alias_back [OF ok ns h old] by metis
  have "RunNamespaceResolver c1 k AliasType_Mosaic alias_mosaicId = Inr (if action = Link then Some m else None)"
    using resolve_alias [OF c(2) _ c(3)] ns c(4) with_alias_simps(1) [OF hok k]
    by (cases action) (simp_all add: RunNamespaceResolver_def)
  then show ?thesis
    using c by (cases action) (auto simp: AliasedObserverHandler_def ShouldLink_def)
qed

theorem mosaic_alias_rollback_witness:
  "\<exists>c1 c2. AliasedObserverHandler Commit 7 Link (MosaicAlias 123) sample_ncache = Inr c1
     \<and> RunNamespaceResolver c1 7 AliasType_Mosaic alias_mosaicId = Inr (Some 123)
     \<and> AliasedObserverHandler Rollback 7 Link (MosaicAlias 123) c1 = Inr c2 \<and> same_content c2 sample_ncache"
proof -
  have "AliasAvailabilityValidator 7 Link sample_ncache = Inr Success" by code_simp
  moreover have "UnlinkAliasedDataConsistencyValidator AliasType_Mosaic alias_mosaicId 7 Link 123 sample_ncache
      = Inr Success" by code_simp
  ultimately show ?thesis using mosaic_alias_rollback [OF sample_ncache_ok] by fastforce
qed

section \<open>Pruning the cache\<close>

definition pruned_view :: "Height \<Rightarrow> root_view list \<Rightarrow> root_view list option" where
  "pruned_view height vs =
     (let kept = filter (\<lambda>v. \<not> End (v_lifetime v) \<le> height) vs in if kept = [] then None else Some kept)"

lemma hist_ok_prune:
  assumes "hist_ok P i h"
  shows "history_view (snd (history_prune height h)) = filter (\<lambda>v. \<not> End (v_lifetime v) \<le> height) (history_view h)"
    and "m_rootHistory (snd (history_prune height h)) \<noteq> [] \<Longrightarrow> hist_ok P i (snd (history_prune height h))
       \<and> active_children (snd (history_prune height h)) = active_children h"
    and "set (fst (history_prune height h)) =
       ((\<Union>r \<in> set (filter (expired height) (m_rootHistory h)). fst ` set (root_children (h_store h) r))
         - (\<Union>r \<in> set (filter (\<lambda>r. \<not> expired height r) (m_rootHistory h)). fst ` set (root_children (h_store h) r)))
       \<union> (if m_rootHistory (snd (history_prune height h)) = [] then {i} else {})"
proof -
  note h = hist_okD [OF assms]
  let ?h = "snd (history_prune height h)"
  have roots: "m_rootHistory ?h = filter (\<lambda>r. \<not> expired height r) (m_rootHistory h)"
    and st: "h_store ?h = h_store h" "h_id ?h = h_id h"
    by (simp_all add: history_prune_def Let_def case_prod_unfold prune_roots_snd)
  show v: "history_view ?h = filter (\<lambda>v. \<not> End (v_lifetime v) \<le> height) (history_view h)"
    by (simp add: history_view_def roots st filter_map comp_def)
  have sorted: "sorted (map (\<lambda>r. End (m_lifetime r)) (m_rootHistory h))"
    using assms by (simp add: hist_ok_def views_ok_def history_view_def comp_def)
  show "hist_ok P i ?h \<and> active_children ?h = active_children h" if ne: "m_rootHistory ?h \<noteq> []"
  proof
    have "views_ok P i (history_view ?h)"
      using assms ne by (auto simp: hist_ok_def views_ok_def v sorted_wrt_filter sorted_filter
          simp flip: history_view_Nil)
    then show "hist_ok P i ?h"
      using history_prune_ok [OF h(1) sorted] h(2) st by (simp add: hist_ok_def)
    have "m_rootHistory ?h = dropWhile (expired height) (m_rootHistory h)"
      unfolding roots by (rule filter_sorted_suffix [OF sorted])
    then have "history_back ?h = history_back h"
      using ne by (metis history_back_def append_Nil2 last_append takeWhile_dropWhile_id)
    then show "active_children ?h = active_children h" by (simp add: st)
  qed
  show "set (fst (history_prune height h)) =
       ((\<Union>r \<in> set (filter (expired height) (m_rootHistory h)). fst ` set (root_children (h_store h) r))
         - (\<Union>r \<in> set (filter (\<lambda>r. \<not> expired height r) (m_rootHistory h)). fst ` set (root_children (h_store h) r)))
       \<union> (if m_rootHistory ?h = [] then {i} else {})"
    using prune_roots_ids [OF sorted, of "h_store h" height "[]"] h(2)
    by (auto simp: history_prune_def Let_def case_prod_unfold)
qed


lemma root_child_path:
  assumes "hist_ok P i h" and "r \<in> set (m_rootHistory h)" and "k \<in> fst ` set (root_children (h_store h) r)"
  shows "hd (P k) = i \<and> k \<noteq> i"
proof -
  obtain d where d: "(k, d) \<in> set (root_children (h_store h) r)" using assms(3) by auto
  have "root_view (h_store h) r \<in> set (history_view h)" using assms(2) by (simp add: history_view_def)
  then have "c_Path d = P k" using assms(1) d by (force simp: hist_ok_def views_ok_def)
  moreover have "children_ok i (root_children (h_store h) r)"
    using assms(1,2) by (auto simp: hist_ok_def history_ok_def root_ok_def)
  then have "child_ok i (root_children (h_store h) r) (k, d)" using d by (simp add: children_ok_def)
  ultimately show ?thesis by (auto simp: child_ok_def Let_def)
qed

text \<open>
  The identifiers a pruned history returns are no longer shown, and the ones that are no longer
  shown are returned.
\<close>

lemma prune_removed:
  assumes hok: "hist_ok P i h" and "hd (P k) = i"
  shows "k \<in> set (fst (history_prune height h)) \<Longrightarrow>
      m_rootHistory (snd (history_prune height h)) \<noteq> [] \<Longrightarrow>
      \<not> (k = i \<or> map_of (active_children h) k \<noteq> None)"
    and "m_rootHistory (snd (history_prune height h)) = [] \<Longrightarrow>
      k = i \<or> map_of (active_children h) k \<noteq> None \<Longrightarrow> k \<in> set (fst (history_prune height h))"
proof -
  note ids = hist_ok_prune(3) [OF hok, of height] and h = hist_okD [OF hok]
  let ?roots = "m_rootHistory (snd (history_prune height h))"
  have roots: "?roots = filter (\<lambda>r. \<not> expired height r) (m_rootHistory h)"
    by (simp add: history_prune_def Let_def case_prod_unfold prune_roots_snd)
  have mem: "map_of (active_children h) k \<noteq> None \<longleftrightarrow> k \<in> fst ` set (active_children h)"
    by (simp add: map_of_eq_None_iff)
  show "\<not> (k = i \<or> map_of (active_children h) k \<noteq> None)"
    if k: "k \<in> set (fst (history_prune height h))" and ne: "?roots \<noteq> []"
  proof -
    have "history_back h \<in> set ?roots"
    proof -
      have "history_back (snd (history_prune height h)) \<in> set ?roots" using ne by (simp add: history_back_def)
      moreover have "sorted (map (\<lambda>r. End (m_lifetime r)) (m_rootHistory h))"
        using hok by (simp add: hist_ok_def views_ok_def history_view_def comp_def)
      then have "?roots = dropWhile (expired height) (m_rootHistory h)"
        unfolding roots by (rule filter_sorted_suffix)
      then have "history_back (snd (history_prune height h)) = history_back h"
        using ne by (metis history_back_def append_Nil2 last_append takeWhile_dropWhile_id)
      ultimately show ?thesis by simp
    qed
    then have "k \<notin> fst ` set (active_children h)" using k ne ids roots by auto
    moreover have "k \<noteq> i"
    proof -
      obtain r where "r \<in> set (m_rootHistory h)" "k \<in> fst ` set (root_children (h_store h) r)"
        using k ne ids by auto
      then show ?thesis using root_child_path [OF hok] by blast
    qed
    ultimately show ?thesis using mem by blast
  qed
  show "k \<in> set (fst (history_prune height h))"
    if e: "?roots = []" and k: "k = i \<or> map_of (active_children h) k \<noteq> None"
  proof -
    have kept: "filter (\<lambda>r. \<not> expired height r) (m_rootHistory h) = []" using e roots by simp
    then have all: "filter (expired height) (m_rootHistory h) = m_rootHistory h"
      by (simp add: filter_empty_conv filter_id_conv)
    have "history_back h \<in> set (m_rootHistory h)" using h(3) by (simp add: history_back_def)
    then show ?thesis using k mem unfolding ids kept all e by auto
  qed
qed

lemma removed_path:
  assumes "hist_ok P i h" and "k \<in> set (fst (history_prune height h))"
  shows "hd (P k) = i"
  using assms(2) root_child_path [OF assms(1)] hist_okD(4) [OF assms(1)]
  unfolding hist_ok_prune(3) [OF assms(1)] by (auto split: if_splits)

lemma RemoveAll_ids_view:
  "delta_ok d \<Longrightarrow> delta_ok (RemoveAll (delta_remove MutableTypeTag) d ids)
     \<and> delta_view (RemoveAll (delta_remove MutableTypeTag) d ids) = (\<lambda>k. if k \<in> set ids then None else delta_view d k)"
  using mutable_set.RemoveAll_ok [of d ids] mutable_set.RemoveAll_view [of d ids]
  by (auto simp: restrict_map_def)

lemma prune_history_correct:
  assumes ok: "ncache_ok P c"
  shows "ncache_ok P (snd (prune_history height i (ids, c)))
    \<and> cache_view (snd (prune_history height i (ids, c))) =
        (cache_view c)(i := Option.bind (cache_view c i) (pruned_view height))
    \<and> m_pRootNamespaceIdsByExpiryHeight (snd (prune_history height i (ids, c))) = m_pRootNamespaceIdsByExpiryHeight c"
proof (cases "delta_view (m_pHistoryById c) i")
  case None
  have v: "cache_view (c\<lparr>m_pHistoryById := snd (find_mutable i (m_pHistoryById c))\<rparr>) = cache_view c"
    using ncache_okD(1) [OF ok] by (intro cache_view_cong) (simp add: find_mutable_view)
  have "snd (prune_history height i (ids, c)) = c\<lparr>m_pHistoryById := snd (find_mutable i (m_pHistoryById c))\<rparr>"
    using None find_mutable_fst [OF ncache_okD(1) [OF ok], of i]
    by (simp add: prune_history_def case_prod_unfold Let_def)
  moreover have "cache_view c i = None" using None by (simp add: cache_view_def)
  ultimately show ?thesis
    using ncache_okD [OF ok] v by (simp add: ncache_ok_def find_mutable_ok find_mutable_view fun_upd_idem)
next
  case (Some h)
  note c = ncache_okD [OF ok]
  note hok = c(4) [OF Some]
  note h = hist_okD [OF hok]
  define h' where "h' = snd (history_prune height h)"
  define c' where "c' = snd (prune_history height i (ids, c))"
  let ?m = "RemoveAll (delta_remove MutableTypeTag) (m_pNamespaceById c) (fst (history_prune height h))"
  let ?hs = "write_found i h' (snd (find_mutable i (m_pHistoryById c)))"
  have vi: "cache_view c i = Some (history_view h)" using Some by (simp add: cache_view_def)
  have hid: "h_id h' = i" using h(2) by (simp add: h'_def history_prune_def Let_def case_prod_unfold)
  have c': "c' = c\<lparr>m_pHistoryById := (if m_rootHistory h' = [] then snd (delta_remove MutableTypeTag i ?hs) else ?hs),
      m_pNamespaceById := ?m,
      m_activeSize := m_activeSize c - (of_nat (active_size (history_view h)) - of_nat (active_size (history_view h'))),
      m_deepSize := m_deepSize c - (of_nat (deep_size (history_view h)) - of_nat (deep_size (history_view h')))\<rparr>"
    using Some find_mutable_fst [OF c(1), of i] hid
    by (simp add: c'_def prune_history_def case_prod_unfold Let_def GetNamespaceSizes_view h'_def history_empty_def)
  have hs: "delta_ok ?hs" "delta_view ?hs = (delta_view (m_pHistoryById c))(i \<mapsto> h')"
    using find_mutable_write [OF c(1) Some, of h'] by simp_all
  have m: "delta_ok ?m"
    "delta_view ?m k = (if k \<in> set (fst (history_prune height h)) then None else delta_view (m_pNamespaceById c) k)" for k
    using RemoveAll_ids_view [OF c(2)] by simp_all
  have pv: "pruned_view height (history_view h) = (if m_rootHistory h' = [] then None else Some (history_view h'))"
    using hist_ok_prune(1) [OF hok, of height] by (simp add: pruned_view_def h'_def Let_def flip: history_view_Nil)
  have "ncache_ok P c' \<and> cache_view c' = (cache_view c)(i := pruned_view height (history_view h))"
  proof (cases "m_rootHistory h' = []")
    case True
    have "ncache_ok P c' \<and> cache_view c' = (cache_view c)(i := None)"
    proof (rule delete_ok [OF ok Some])
      show "delta_view (m_pNamespaceById c') k =
          (if hd (P k) = i then None else delta_view (m_pNamespaceById c) k)" for k
        using flat_at [OF ok Some, of k] prune_removed(2) [OF hok, of k height] removed_path [OF hok, of k height]
          m(2) True by (auto simp: c' h'_def)
    qed (use c True hs m(1) in \<open>simp_all add: c' remove_ok remove_view history_view_Nil [THEN iffD2]\<close>)
    with True pv show ?thesis by simp
  next
    case False
    note hok' = hist_ok_prune(2) [OF hok, of height, folded h'_def, OF False]
    have "ncache_ok P c' \<and> cache_view c' = (cache_view c)(i \<mapsto> history_view h')"
    proof (rule update_ok [OF ok _ conjunct1 [OF hok']])
      show "delta_view (m_pNamespaceById c') k =
          (if hd (P k) = i then (if shown i (history_view h') k then Some \<lparr>m_path = P k\<rparr> else None)
           else delta_view (m_pNamespaceById c) k)" for k
        using flat_at [OF ok Some, of k] prune_removed(1) [OF hok, of k height] removed_path [OF hok, of k height]
          m(2) False hok' hist_okD(9) [OF conjunct1 [OF hok']]
        by (auto simp: c' h'_def shown_def)
    qed (use c False hs m(1) vi in \<open>simp_all add: c'\<close>)
    with False pv show ?thesis by simp
  qed
  then show ?thesis using vi by (simp add: c'_def [symmetric]) (simp add: c')
qed

text \<open>
  C22 Pruning the cache at a height keeps it consistent, flat map and size counters included: every root
  registered to expire at that height loses exactly the versions that ended, and is dropped from the
  cache when none is left; other roots are unchanged.
\<close>

theorem cache_prune_correct:
  assumes "ncache_ok P c"
  shows "ncache_ok P (snd (cache_prune height c))
    \<and> (\<forall>i. cache_view (snd (cache_prune height c)) i =
          (if i \<in> set (group_ids (m_pRootNamespaceIdsByExpiryHeight c) height)
           then Option.bind (cache_view c i) (pruned_view height) else cache_view c i))"
proof -
  define step where "step = prune_history height"
  have pruned: "Option.bind (pruned_view height vs) (pruned_view height) = pruned_view height vs" for vs
    by (auto simp: pruned_view_def Let_def)
  have fold: "ncache_ok P (snd (foldl (\<lambda>s i. step i s) s is))
      \<and> (\<forall>i. cache_view (snd (foldl (\<lambda>s i. step i s) s is)) i =
           (if i \<in> set is then Option.bind (cache_view (snd s) i) (pruned_view height) else cache_view (snd s) i))"
    if "ncache_ok P (snd s)" for s "is"
    using that
  proof (induction "is" arbitrary: s)
    case (Cons i "is")
    have "ncache_ok P (snd (step i s))
        \<and> cache_view (snd (step i s)) = (cache_view (snd s))(i := Option.bind (cache_view (snd s) i) (pruned_view height))"
      using prune_history_correct [OF Cons.prems, of height i "fst s"] by (simp add: step_def)
    with Cons.IH [of "step i s"] show ?case by (auto simp: pruned)
  qed simp
  show ?thesis
    using fold [of "([], c)"] assms
    by (simp add: cache_prune_def ForEachIdentifierWithGroup_def group_ids_def step_def split: option.splits)
qed

theorem cache_prune_correct_witness:
  "ncache_ok sample_P (snd (cache_prune 45 sample_ncache)) \<and> cache_view (snd (cache_prune 45 sample_ncache)) 7 = None
   \<and> fst (cache_prune 45 sample_ncache) = [7]"
proof -
  have "group_ids (m_pRootNamespaceIdsByExpiryHeight sample_ncache) 45 = [7]" by code_simp
  moreover have "delta_find MutableTypeTag (m_pHistoryById sample_ncache) 7 =
      Some (history_push_back [1] \<lparr>Start = 10, End = 45\<rparr> (make_history 7))" by code_simp
  then have "cache_view sample_ncache 7 = Some [(7, [1], \<lparr>Start = 10, End = 45\<rparr>, NoAlias, [])]"
    by (simp add: cache_view_def history_push_back_push_view push_view_def)
  moreover have "fst (cache_prune 45 sample_ncache) = [7]" by code_simp
  ultimately show ?thesis
    using cache_prune_correct [OF sample_ncache_ok, of 45] by (simp add: pruned_view_def v_lifetime_def)
qed

end
