(* ===== verification/Basic_Caches.thy ===== *)
theory Basic_Caches
  imports Identifier_Groups
begin

text \<open>
  The accessor mixins that the plugin caches are assembled from (\<^verbatim>\<open>cache/CacheMixins.h\<close>): checked
  insertion and removal, lookup, and lookup for modification, on a delta of \<open>Delta_Set\<close>.

  The locale \<open>basic_cache\<close> is the interface the plugins rely on: an operation of the cache is the
  operation of the finite map it stands for, exceptions included. \<open>mutable_cache\<close> extends it by the
  modification of a found element. They are interpreted on the immutable and on the mutable delta.
  The client lemma \<open>run_refines\<close> carries this to any sequence of operations, which is why the plugin
  theories take a cache to be a map and use \<open>kv_insert\<close>, \<open>kv_remove\<close>, \<open>kv_get\<close> and \<open>kv_update\<close>.
\<close>

section \<open>The mixins\<close>

definition mixin_contains :: "('k, 'v) BaseSetDelta \<Rightarrow> 'k \<Rightarrow> bool" where
  "mixin_contains d key = delta_contains d key"

text \<open>\<^verbatim>\<open>BasicInsertRemoveMixin\<close>\<close>

definition mixin_insert ::
  "MutabilityTag \<Rightarrow> 'k :: linorder \<Rightarrow> 'v \<Rightarrow> ('k, 'v) BaseSetDelta \<Rightarrow> ('k, 'v) BaseSetDelta result" where
  "mixin_insert tag key v d =
     (let (r, d) = delta_insert tag key v d in
      if InsertResult_Inserted = r \<or> InsertResult_Unremoved = r then Inr d
      else Inl invalid_argument)"

definition mixin_remove ::
  "MutabilityTag \<Rightarrow> 'k :: linorder \<Rightarrow> ('k, 'v) BaseSetDelta \<Rightarrow> ('k, 'v) BaseSetDelta result" where
  "mixin_remove tag key d =
     (let (r, d) = delta_remove tag key d in
      if RemoveResult_None \<noteq> r \<and> RemoveResult_Redundant \<noteq> r then Inr d
      else Inl invalid_argument)"

text \<open>\<^verbatim>\<open>ConstAccessorMixin::find\<close> followed by \<^verbatim>\<open>CacheFindIterator::get\<close>\<close>

definition mixin_get :: "MutabilityTag \<Rightarrow> ('k, 'v) BaseSetDelta \<Rightarrow> 'k \<Rightarrow> 'v result" where
  "mixin_get tag d key =
     (case delta_find tag d key of None \<Rightarrow> Inl invalid_argument | Some v \<Rightarrow> Inr v)"

text \<open>\<^verbatim>\<open>MutableAccessorMixin::find\<close>, \<^verbatim>\<open>get\<close>, and a modification \<open>f\<close> of the element it refers to.\<close>

definition mixin_update ::
  "'k :: linorder \<Rightarrow> ('v \<Rightarrow> 'v) \<Rightarrow> ('k, 'v) BaseSetDelta \<Rightarrow> ('k, 'v) BaseSetDelta result" where
  "mixin_update key f d =
     (let (r, d) = find_mutable key d in
      case r of None \<Rightarrow> Inl invalid_argument | Some v \<Rightarrow> Inr (write_found key (f v) d))"

definition isActive :: "('v \<Rightarrow> Height \<Rightarrow> bool) \<Rightarrow> MutabilityTag \<Rightarrow> ('k, 'v) BaseSetDelta \<Rightarrow> 'k \<Rightarrow> Height \<Rightarrow> bool" where
  "isActive active tag d key height =
     (case delta_find tag d key of None \<Rightarrow> False | Some v \<Rightarrow> active v height)"

section \<open>The same operations on the map a cache stands for\<close>

definition kv_insert :: "'k \<Rightarrow> 'v \<Rightarrow> ('k \<rightharpoonup> 'v) \<Rightarrow> ('k \<rightharpoonup> 'v) result" where
  "kv_insert key v c = (if c key = None then Inr (c(key \<mapsto> v)) else Inl invalid_argument)"

definition kv_remove :: "'k \<Rightarrow> ('k \<rightharpoonup> 'v) \<Rightarrow> ('k \<rightharpoonup> 'v) result" where
  "kv_remove key c = (if c key = None then Inl invalid_argument else Inr (c(key := None)))"

definition kv_get :: "('k \<rightharpoonup> 'v) \<Rightarrow> 'k \<Rightarrow> 'v result" where
  "kv_get c key = (case c key of None \<Rightarrow> Inl invalid_argument | Some v \<Rightarrow> Inr v)"

definition kv_update :: "'k \<Rightarrow> ('v \<Rightarrow> 'v) \<Rightarrow> ('k \<rightharpoonup> 'v) \<Rightarrow> ('k \<rightharpoonup> 'v) result" where
  "kv_update key f c =
     (case c key of None \<Rightarrow> Inl invalid_argument | Some v \<Rightarrow> Inr (c(key \<mapsto> f v)))"

section \<open>The interface\<close>

datatype ('k, 'v) cache_op = Op_insert 'k 'v | Op_remove 'k | Op_update 'k "'v \<Rightarrow> 'v"

fun run_op ::
  "('k \<Rightarrow> 'v \<Rightarrow> 'c \<Rightarrow> 'c result) \<Rightarrow> ('k \<Rightarrow> 'c \<Rightarrow> 'c result) \<Rightarrow> ('k \<Rightarrow> ('v \<Rightarrow> 'v) \<Rightarrow> 'c \<Rightarrow> 'c result)
     \<Rightarrow> ('k, 'v) cache_op \<Rightarrow> 'c \<Rightarrow> 'c result" where
  "run_op ins rem upd (Op_insert k v) c = ins k v c"
| "run_op ins rem upd (Op_remove k) c = rem k c"
| "run_op ins rem upd (Op_update k f) c = upd k f c"

fun map_result :: "('a \<Rightarrow> 'b) \<Rightarrow> 'a result \<Rightarrow> 'b result" where
  "map_result f (Inl e) = Inl e"
| "map_result f (Inr x) = Inr (f x)"

lemma map_result_Inr [simp]: "map_result f r = Inr y \<longleftrightarrow> (\<exists>x. r = Inr x \<and> f x = y)"
  by (cases r) auto

locale basic_cache =
  fixes ok :: "'c \<Rightarrow> bool"
    and view :: "'c \<Rightarrow> 'k \<rightharpoonup> 'v"
    and ins :: "'k \<Rightarrow> 'v \<Rightarrow> 'c \<Rightarrow> 'c result"
    and rem :: "'k \<Rightarrow> 'c \<Rightarrow> 'c result"
  assumes ok_ins: "ok c \<Longrightarrow> ins k v c = Inr c' \<Longrightarrow> ok c'"
    and ok_rem: "ok c \<Longrightarrow> rem k c = Inr c' \<Longrightarrow> ok c'"
    and view_ins: "ok c \<Longrightarrow> map_result view (ins k v c) = kv_insert k v (view c)"
    and view_rem: "ok c \<Longrightarrow> map_result view (rem k c) = kv_remove k (view c)"
begin

lemma insert_remove:
  assumes "ok c" and "ins k v c = Inr c'"
  shows "map_result view (rem k c') = Inr (view c)"
proof -
  have "view c k = None \<and> view c' = (view c)(k \<mapsto> v)"
    using view_ins [OF assms(1), of k v] assms(2) by (auto simp: kv_insert_def split: if_splits)
  then show ?thesis
    using view_rem [OF ok_ins [OF assms], of k] by (simp add: kv_remove_def fun_upd_idem)
qed

end

locale mutable_cache = basic_cache ok view ins rem
  for ok :: "'c \<Rightarrow> bool" and view :: "'c \<Rightarrow> 'k \<rightharpoonup> 'v"
    and ins :: "'k \<Rightarrow> 'v \<Rightarrow> 'c \<Rightarrow> 'c result" and rem :: "'k \<Rightarrow> 'c \<Rightarrow> 'c result" +
  fixes upd :: "'k \<Rightarrow> ('v \<Rightarrow> 'v) \<Rightarrow> 'c \<Rightarrow> 'c result"
  assumes ok_upd: "ok c \<Longrightarrow> upd k f c = Inr c' \<Longrightarrow> ok c'"
    and view_upd: "ok c \<Longrightarrow> map_result view (upd k f c) = kv_update k f (view c)"
begin

lemma run_op_ok: "ok c \<Longrightarrow> run_op ins rem upd cmd c = Inr c' \<Longrightarrow> ok c'"
  by (cases cmd) (auto intro: ok_ins ok_rem ok_upd)

lemma run_op_view:
  "ok c \<Longrightarrow> map_result view (run_op ins rem upd cmd c) = run_op kv_insert kv_remove kv_update cmd (view c)"
  by (cases cmd) (simp_all add: view_ins view_rem view_upd)

lemma run_ok:
  assumes "ok c" and "foldM (run_op ins rem upd) ops c = Inr c'"
  shows "ok c'"
  using foldM_invariant [where P = ok, OF assms(2,1)] run_op_ok by blast

lemma run_refines:
  assumes "ok c"
  shows "map_result view (foldM (run_op ins rem upd) ops c)
    = foldM (run_op kv_insert kv_remove kv_update) ops (view c)"
  using assms
proof (induction ops arbitrary: c)
  case (Cons cmd ops)
  show ?case
  proof (cases "run_op ins rem upd cmd c")
    case (Inl e)
    with run_op_view [OF Cons.prems, of cmd] show ?thesis by (metis map_result.simps(1) bind_result.simps(1) foldM.simps(2))
  next
    case (Inr c')
    with run_op_view [OF Cons.prems, of cmd] have "run_op kv_insert kv_remove kv_update cmd (view c) = Inr (view c')"
      by (metis map_result.simps(2))
    with Inr Cons.IH [OF run_op_ok [OF Cons.prems Inr]] show ?thesis by simp
  qed
qed simp

end

section \<open>The deltas implement it\<close>

lemma copied_original: "delta_ok d \<Longrightarrow> map_of (m_copiedElements d) k = Some v
    \<Longrightarrow> \<exists>w. map_of (m_originalElements d) k = Some w"
  by (auto simp: delta_ok_def)

lemma mixin_insert_mutable:
  assumes "delta_ok d"
  shows "mixin_insert MutableTypeTag k v d =
    (if delta_view d k = None then Inr (snd (insert_mutable k v d)) else Inl invalid_argument)"
  using copied_original [OF assms, of k]
  by (auto simp: mixin_insert_def insert_mutable_def Let_def case_prod_unfold delta_find_def
      Contains_def split: option.splits if_splits)

lemma mixin_remove_mutable:
  assumes "delta_ok d"
  shows "mixin_remove MutableTypeTag k d =
    (if delta_view d k = None then Inl invalid_argument else Inr (snd (delta_remove MutableTypeTag k d)))"
  using copied_original [OF assms, of k]
  by (auto simp: mixin_remove_def delta_remove_def remove_mutable_def remove_immutable_def Let_def
      case_prod_unfold delta_find_def Contains_def split: option.splits if_splits)

lemma mixin_update_mutable:
  assumes "delta_ok d"
  shows "mixin_update k f d = (case delta_view d k of None \<Rightarrow> Inl invalid_argument
    | Some v \<Rightarrow> Inr (write_found k (f v) (snd (find_mutable k d))))"
  using find_mutable_fst [OF assms, of k]
  by (simp add: mixin_update_def case_prod_unfold Let_def split: option.splits)

lemma mixin_insert_immutable:
  assumes "immutable_ok d"
  shows "mixin_insert ImmutableTypeTag k v d =
    (if delta_view d k = None then Inr (snd (insert_immutable k v d)) else Inl invalid_argument)"
  using assms
  by (auto simp: mixin_insert_def insert_immutable_def Let_def case_prod_unfold delta_find_def
      Contains_def immutable_ok_def split: option.splits if_splits)

lemma mixin_remove_immutable:
  assumes "immutable_ok d"
  shows "mixin_remove ImmutableTypeTag k d =
    (if delta_view d k = None then Inl invalid_argument
     else Inr (snd (delta_remove ImmutableTypeTag k d)))"
  using assms
  by (auto simp: mixin_remove_def delta_remove_def remove_immutable_def Let_def
      case_prod_unfold delta_find_def Contains_def immutable_ok_def split: option.splits if_splits)

interpretation hash_delta: basic_cache "immutable_ok :: ('k :: linorder, unit) BaseSetDelta \<Rightarrow> bool"
  "\<lambda>d. delta_view d" "mixin_insert ImmutableTypeTag" "mixin_remove ImmutableTypeTag"
  by unfold_locales
    (auto simp: mixin_insert_immutable mixin_remove_immutable kv_insert_def kv_remove_def
      insert_immutable_ok remove_immutable_ok insert_immutable_view remove_immutable_view split: if_splits)

interpretation entry_delta: mutable_cache delta_ok "\<lambda>d. delta_view d"
  "mixin_insert MutableTypeTag" "mixin_remove MutableTypeTag" mixin_update
proof
  fix d :: "('a, 'b) BaseSetDelta" and k f
  assume ok: "delta_ok d"
  show "map_result (\<lambda>d. delta_view d) (mixin_update k f d) = kv_update k f (delta_view d)"
    using find_mutable_write [OF ok] by (simp add: mixin_update_mutable [OF ok] kv_update_def split: option.splits)
  show "delta_ok d'" if "mixin_update k f d = Inr d'" for d'
    using that find_mutable_write [OF ok] by (auto simp: mixin_update_mutable [OF ok] split: option.splits)
qed (auto simp: mixin_insert_mutable mixin_remove_mutable kv_insert_def kv_remove_def
    insert_mutable_ok remove_ok insert_mutable_view remove_view split: if_splits)

section \<open>Properties\<close>

text \<open>
  Any sequence of insertions, removals and modifications through the mixins has on a delta the
  effect it has on the map the delta stands for: it throws exactly when an insertion meets a key
  that is present or a removal or a modification meets one that is absent, and otherwise the
  resulting delta stands for the resulting map and is well formed again.
\<close>

theorem cache_ops_refine:
  assumes "delta_ok d"
  shows "map_result (\<lambda>d. delta_view d)
      (foldM (run_op (mixin_insert MutableTypeTag) (mixin_remove MutableTypeTag) mixin_update) ops d)
    = foldM (run_op kv_insert kv_remove kv_update) ops (delta_view d)
    \<and> (\<forall>d'. foldM (run_op (mixin_insert MutableTypeTag) (mixin_remove MutableTypeTag) mixin_update) ops d
          = Inr d' \<longrightarrow> delta_ok d')"
  using entry_delta.run_refines [OF assms] entry_delta.run_ok [OF assms] by blast

theorem cache_ops_refine_witness:
  "map_result (\<lambda>d. delta_view d 3)
      (foldM (run_op (mixin_insert MutableTypeTag) (mixin_remove MutableTypeTag) mixin_update)
        [Op_update (3 :: nat) (\<lambda>v. v + 1), Op_insert 4 7, Op_remove 5]
        (make_delta [(3, 10 :: nat), (5, 1)])) = Inr (Some 11)"
proof -
  have "delta_ok (make_delta [(3 :: nat, 10 :: nat), (5, 1)])"
    by (rule make_delta_ok) (simp add: omap_ok_def)
  from cache_ops_refine [OF this, of "[Op_update (3 :: nat) (\<lambda>v. v + 1), Op_insert 4 7, Op_remove 5]"]
  show ?thesis
    by (auto simp: make_delta_view kv_update_def kv_insert_def kv_remove_def)
qed

end
