(* ===== verification/Entity_Processing.thy ===== *)
theory Entity_Processing
  imports Prelude
begin

text \<open>
  How the node applies and undoes entities (blocks and transactions): an entity is published as a
  sequence of notifications, and every notification is first validated and then observed.

  \<^item> \<^verbatim>\<open>model/NotificationType.h\<close>: the packed notification type;
  \<^item> \<^verbatim>\<open>validators/AggregateValidationResult.cpp\<close>, \<^verbatim>\<open>AggregateValidatorBuilder.h\<close> and
    \<^verbatim>\<open>ValidatingNotificationSubscriber.h\<close>;
  \<^item> \<^verbatim>\<open>observers/AggregateObserverBuilder.h\<close>, \<^verbatim>\<open>DemuxObserverBuilder.h\<close>, \<^verbatim>\<open>NotificationObserverAdapter.cpp\<close>
    and \<^verbatim>\<open>ReverseNotificationObserverAdapter.cpp\<close>;
  \<^item> \<^verbatim>\<open>chain/ProcessingNotificationSubscriber.cpp\<close>, \<^verbatim>\<open>ProcessingUndoNotificationSubscriber.cpp\<close>,
    \<^verbatim>\<open>BatchEntityProcessor.cpp\<close> and \<^verbatim>\<open>BlockExecutor.cpp\<close>.

  The state \<open>'s\<close> is what the observers change (the cache delta); a validator reads it, an observer
  maps it to its successor, and both may throw. The contexts of the source (height, resolvers,
  network) are arguments of the concrete validators and observers.

  The locale \<open>reversible_entities\<close> is the contract between the plugins and the block executor: for
  every entity that was accepted, the notifications observed in reverse order and in rollback mode
  restore the state. Its client lemma extends that to whole blocks.
\<close>

unbundle bit_operations_syntax

section \<open>Notification types\<close>

datatype NotificationChannel = Channel_None | Channel_Validator | Channel_Observer | Channel_All

fun channel_value :: "NotificationChannel \<Rightarrow> u32" where
  "channel_value Channel_None = 0x00"
| "channel_value Channel_Validator = 0x01"
| "channel_value Channel_Observer = 0x02"
| "channel_value Channel_All = 0xFF"

definition MakeNotificationType :: "NotificationChannel \<Rightarrow> u8 \<Rightarrow> u16 \<Rightarrow> u32" where
  "MakeNotificationType channel facility code =
     push_bit 24 (channel_value channel) OR push_bit 16 (ucast facility) OR ucast code"

definition IsSet :: "u32 \<Rightarrow> NotificationChannel \<Rightarrow> bool" where
  "IsSet type channel = (channel_value channel = (channel_value channel AND drop_bit 24 type))"

definition AreEqualExcludingChannel :: "u32 \<Rightarrow> u32 \<Rightarrow> bool" where
  "AreEqualExcludingChannel lhs rhs = ((0x00FFFFFF AND lhs) = (0x00FFFFFF AND rhs))"

text \<open>
  A notification: the two fields of the base structure and the fields of the derived one. The
  undo subscribers copy \<^verbatim>\<open>Size\<close> bytes, that is the whole derived structure.
\<close>

record 'p Notification =
  n_Type :: u32
  n_Size :: u64
  n_payload :: 'p

definition sizeof_Notification :: u64 where
  "sizeof_Notification = 16"

section \<open>Validators\<close>

text \<open>The severity that \<^verbatim>\<open>GetSeverity\<close> extracts from a validation result.\<close>

fun GetSeverity :: "'f ValidationResult \<Rightarrow> nat" where
  "GetSeverity Success = 0"
| "GetSeverity Neutral = 1"
| "GetSeverity (Failure _) = 2"

definition IsValidationResultFailure :: "'f ValidationResult \<Rightarrow> bool" where
  "IsValidationResultFailure r = (2 = GetSeverity r)"

definition AggregateValidationResult ::
  "'f ValidationResult \<Rightarrow> 'f ValidationResult \<Rightarrow> 'f ValidationResult" where
  "AggregateValidationResult aggregate value =
     (if GetSeverity aggregate \<ge> GetSeverity value then aggregate else value)"

type_synonym ('p, 'f, 's) validator = "'p Notification \<Rightarrow> 's \<Rightarrow> 'f ValidationResult result"
type_synonym ('p, 's) observer = "NotifyMode \<Rightarrow> 'p Notification \<Rightarrow> 's \<Rightarrow> 's result"

text \<open>\<^verbatim>\<open>DefaultAggregateNotificationValidator::validate\<close>\<close>

fun aggregate_validate_loop ::
  "('f ValidationResult \<Rightarrow> bool) \<Rightarrow> ('p, 'f, 's) validator list \<Rightarrow> 'p Notification \<Rightarrow> 's
     \<Rightarrow> 'f ValidationResult \<Rightarrow> 'f ValidationResult result" where
  "aggregate_validate_loop isSuppressedFailure [] notification s aggregateResult = Inr aggregateResult"
| "aggregate_validate_loop isSuppressedFailure (v # validators) notification s aggregateResult =
     bind_result (v notification s) (\<lambda>r.
       if isSuppressedFailure r
       then aggregate_validate_loop isSuppressedFailure validators notification s aggregateResult
       else if IsValidationResultFailure r then Inr r
       else aggregate_validate_loop isSuppressedFailure validators notification s
              (AggregateValidationResult aggregateResult r))"

definition aggregate_validate ::
  "('f ValidationResult \<Rightarrow> bool) \<Rightarrow> ('p, 'f, 's) validator list \<Rightarrow> ('p, 'f, 's) validator" where
  "aggregate_validate isSuppressedFailure validators notification s =
     aggregate_validate_loop isSuppressedFailure validators notification s Success"

text \<open>\<^verbatim>\<open>ValidatingNotificationSubscriber\<close>: the stateless counterpart, which stops at a failure only.\<close>

definition validating_notify ::
  "('p Notification \<Rightarrow> 'f ValidationResult) \<Rightarrow> (u32 \<Rightarrow> bool) option \<Rightarrow> 'p Notification
     \<Rightarrow> 'f ValidationResult \<Rightarrow> 'f ValidationResult" where
  "validating_notify validate exclusionFilter notification r =
     (if \<not> IsSet (n_Type notification) Channel_Validator then r
      else if IsValidationResultFailure r then r
      else if (case exclusionFilter of None \<Rightarrow> False | Some filt \<Rightarrow> filt (n_Type notification)) then r
      else AggregateValidationResult r (validate notification))"

section \<open>Observers\<close>

definition aggregate_notify :: "('p, 's) observer list \<Rightarrow> ('p, 's) observer" where
  "aggregate_notify observers mode notification s =
     (if mode = Commit then foldM (\<lambda>obs s. obs mode notification s) observers s
      else foldM (\<lambda>obs s. obs mode notification s) (rev observers) s)"

text \<open>\<^verbatim>\<open>ConditionalObserver::notify\<close> with the predicate that \<^verbatim>\<open>add\<close> builds from the notification type.\<close>

definition conditional_notify :: "u32 \<Rightarrow> ('p, 's) observer \<Rightarrow> ('p, 's) observer" where
  "conditional_notify type obs mode notification s =
     (if \<not> AreEqualExcludingChannel type (n_Type notification) then Inr s
      else obs mode notification s)"

text \<open>The two adapters from a notification observer to an observer of entities.\<close>

definition adapter_notify ::
  "('e \<Rightarrow> 'p Notification list) \<Rightarrow> ('p, 's) observer \<Rightarrow> NotifyMode \<Rightarrow> 'e \<Rightarrow> 's \<Rightarrow> 's result" where
  "adapter_notify publish obs mode entity s =
     foldM (\<lambda>n s. if \<not> IsSet (n_Type n) Channel_Observer then Inr s else obs mode n s)
       (publish entity) s"

definition captured :: "'p Notification list \<Rightarrow> 'p Notification list" where
  "captured notifications = filter (\<lambda>n. IsSet (n_Type n) Channel_Observer) notifications"

definition reverse_adapter_notify ::
  "('e \<Rightarrow> 'p Notification list) \<Rightarrow> ('p, 's) observer \<Rightarrow> NotifyMode \<Rightarrow> 'e \<Rightarrow> 's \<Rightarrow> 's result" where
  "reverse_adapter_notify publish obs mode entity s =
     foldM (obs mode) (rev (captured (publish entity))) s"

section \<open>Processing with undo\<close>

text \<open>
  \<^verbatim>\<open>ProcessingNotificationSubscriber\<close>; \<open>m_state\<close> is the cache its observer context refers to and
  \<open>m_notificationBuffers\<close> belongs to the nested undo subscriber.
\<close>

record ('p, 'f, 's) subscriber =
  m_state :: 's
  m_mode :: NotifyMode
  m_notificationBuffers :: "'p Notification list"
  m_aggregateResult :: "'f ValidationResult"
  m_isUndoEnabled :: bool

definition make_subscriber :: "NotifyMode \<Rightarrow> 's \<Rightarrow> ('p, 'f, 's) subscriber" where
  "make_subscriber mode s =
     \<lparr>m_state = s, m_mode = mode, m_notificationBuffers = [], m_aggregateResult = Success,
      m_isUndoEnabled = False\<rparr>"

definition enableUndo :: "('p, 'f, 's) subscriber \<Rightarrow> ('p, 'f, 's) subscriber" where
  "enableUndo sub = sub\<lparr>m_isUndoEnabled := True\<rparr>"

definition sub_validate ::
  "('p, 'f, 's) validator \<Rightarrow> 'p Notification \<Rightarrow> ('p, 'f, 's) subscriber
     \<Rightarrow> ('p, 'f, 's) subscriber result" where
  "sub_validate validator notification sub =
     (if \<not> IsSet (n_Type notification) Channel_Validator then Inr sub
      else bind_result (validator notification (m_state sub)) (\<lambda>r.
        Inr (sub\<lparr>m_aggregateResult := AggregateValidationResult (m_aggregateResult sub) r\<rparr>)))"

definition undo_notify ::
  "'p Notification \<Rightarrow> ('p, 'f, 's) subscriber \<Rightarrow> ('p, 'f, 's) subscriber result" where
  "undo_notify notification sub =
     (if n_Size notification < sizeof_Notification then Inl invalid_argument
      else if \<not> IsSet (n_Type notification) Channel_Observer then Inr sub
      else Inr (sub\<lparr>m_notificationBuffers := m_notificationBuffers sub @ [notification]\<rparr>))"

definition sub_observe ::
  "('p, 's) observer \<Rightarrow> 'p Notification \<Rightarrow> ('p, 'f, 's) subscriber
     \<Rightarrow> ('p, 'f, 's) subscriber result" where
  "sub_observe obs notification sub =
     (if \<not> IsSet (n_Type notification) Channel_Observer then Inr sub
      else bind_result (obs (m_mode sub) notification (m_state sub)) (\<lambda>s.
        let sub = sub\<lparr>m_state := s\<rparr> in
        if \<not> m_isUndoEnabled sub then Inr sub else undo_notify notification sub))"

definition sub_notify ::
  "('p, 'f, 's) validator \<Rightarrow> ('p, 's) observer \<Rightarrow> 'p Notification \<Rightarrow> ('p, 'f, 's) subscriber
     \<Rightarrow> ('p, 'f, 's) subscriber result" where
  "sub_notify validator obs notification sub =
     (if n_Size notification < sizeof_Notification then Inl invalid_argument
      else if \<not> IsValidationResultSuccess (m_aggregateResult sub) then Inr sub
      else bind_result (sub_validate validator notification sub) (\<lambda>sub.
        if \<not> IsValidationResultSuccess (m_aggregateResult sub) then Inr sub
        else sub_observe obs notification sub))"

definition undo ::
  "('p, 's) observer \<Rightarrow> ('p, 'f, 's) subscriber \<Rightarrow> ('p, 'f, 's) subscriber result" where
  "undo obs sub =
     (if \<not> m_isUndoEnabled sub then Inl runtime_error
      else
        let undoMode = (if m_mode sub = Commit then Rollback else Commit) in
        bind_result (foldM (obs undoMode) (rev (m_notificationBuffers sub)) (m_state sub)) (\<lambda>s.
          Inr (sub\<lparr>m_state := s, m_notificationBuffers := []\<rparr>)))"

section \<open>Blocks\<close>

text \<open>\<^verbatim>\<open>DefaultBatchEntityProcessor::operator()\<close>, on the entities of a block in order.\<close>

fun process_entities ::
  "('e \<Rightarrow> 'p Notification list) \<Rightarrow> ('p, 'f, 's) validator \<Rightarrow> ('p, 's) observer \<Rightarrow> 'e list
     \<Rightarrow> ('p, 'f, 's) subscriber \<Rightarrow> ('f ValidationResult \<times> 's) result" where
  "process_entities publish validator obs [] sub = Inr (Success, m_state sub)"
| "process_entities publish validator obs (entity # entities) sub =
     bind_result (foldM (sub_notify validator obs) (publish entity) sub) (\<lambda>sub.
       if \<not> IsValidationResultSuccess (m_aggregateResult sub)
       then Inr (m_aggregateResult sub, m_state sub)
       else process_entities publish validator obs entities sub)"

definition BatchEntityProcessor ::
  "('e \<Rightarrow> 'p Notification list) \<Rightarrow> ('p, 'f, 's) validator \<Rightarrow> ('p, 's) observer \<Rightarrow> 'e list \<Rightarrow> 's
     \<Rightarrow> ('f ValidationResult \<times> 's) result" where
  "BatchEntityProcessor publish validator obs entityInfos s =
     (if entityInfos = [] then Inr (Neutral, s)
      else process_entities publish validator obs entityInfos (make_subscriber Commit s))"

text \<open>
  \<^verbatim>\<open>ExecuteBlock\<close> and \<^verbatim>\<open>RollbackBlock\<close> with the entities that \<^verbatim>\<open>ExtractEntityInfos\<close> yields; their
  entity observer is one of the adapters. \<open>commitRemovals\<close> is the operation of the account state
  cache that ends a rollback.
\<close>

definition ObserveAll :: "('e \<Rightarrow> 's \<Rightarrow> 's result) \<Rightarrow> 'e list \<Rightarrow> 's \<Rightarrow> 's result" where
  "ObserveAll obs entityInfos s = foldM obs entityInfos s"

definition ExecuteBlock :: "(NotifyMode \<Rightarrow> 'e \<Rightarrow> 's \<Rightarrow> 's result) \<Rightarrow> 'e list \<Rightarrow> 's \<Rightarrow> 's result" where
  "ExecuteBlock obs entityInfos s = ObserveAll (obs Commit) entityInfos s"

definition RollbackBlock ::
  "(NotifyMode \<Rightarrow> 'e \<Rightarrow> 's \<Rightarrow> 's result) \<Rightarrow> ('s \<Rightarrow> 's) \<Rightarrow> 'e list \<Rightarrow> 's \<Rightarrow> 's result" where
  "RollbackBlock obs commitRemovals entityInfos s =
     bind_result (ObserveAll (obs Rollback) (rev entityInfos) s) (\<lambda>s. Inr (commitRemovals s))"

section \<open>Lemmas\<close>

lemma channel_bits: "drop_bit 24 (MakeNotificationType c f n) = channel_value c"
proof -
  have "drop_bit 24 (push_bit 24 (channel_value c)) = channel_value c" by (cases c) simp_all
  moreover have "drop_bit 24 (push_bit 16 (ucast f :: u32)) = 0"
    by (rule bit_eqI) (auto simp: bit_simps dest: bit_imp_le_length)
  moreover have "drop_bit 24 (ucast n :: u32) = 0"
    by (rule bit_eqI) (auto simp: bit_simps dest: bit_imp_le_length)
  ultimately show ?thesis by (simp add: MakeNotificationType_def drop_bit_or)
qed

lemma source_bits:
  "0x00FFFFFF AND MakeNotificationType c f n = push_bit 16 (ucast f) OR ucast n"
proof -
  have mask: "(0x00FFFFFF :: u32) = mask 24" by (simp add: mask_eq_exp_minus_1)
  show ?thesis unfolding mask MakeNotificationType_def
    by (rule bit_eqI) (auto simp: bit_simps dest: bit_imp_le_length)
qed

lemma source_bits_inject:
  "push_bit 16 (ucast f) OR ucast n = (push_bit 16 (ucast f') OR ucast n' :: u32)
    \<longleftrightarrow> f = f' \<and> n = n'" for f f' :: u8 and n n' :: u16
proof
  assume eq: "push_bit 16 (ucast f) OR ucast n = (push_bit 16 (ucast f') OR ucast n' :: u32)"
  have bits: "bit (push_bit 16 (ucast f) OR ucast n :: u32) i
      \<longleftrightarrow> i < 32 \<and> (16 \<le> i \<and> bit f (i - 16) \<or> bit n i)" for f :: u8 and n :: u16 and i
    by (auto simp: bit_simps dest: bit_imp_le_length)
  have "bit f i = bit f' i" for i
    using arg_cong [OF eq, of "\<lambda>w. bit w (i + 16)"] unfolding bits
    by (auto dest: bit_imp_le_length)
  moreover have "bit n i = bit n' i" for i
    using arg_cong [OF eq, of "\<lambda>w. bit w i"] unfolding bits
    by (auto dest: bit_imp_le_length)
  ultimately show "f = f' \<and> n = n'" by (simp add: bit_eq_iff)
qed simp

lemma IsSet_Make [simp]:
  "IsSet (MakeNotificationType c f n) Channel_Validator \<longleftrightarrow> c = Channel_Validator \<or> c = Channel_All"
  "IsSet (MakeNotificationType c f n) Channel_Observer \<longleftrightarrow> c = Channel_Observer \<or> c = Channel_All"
  by (cases c; simp add: IsSet_def channel_bits)+

lemma AreEqual_Make [simp]:
  "AreEqualExcludingChannel (MakeNotificationType c f n) (MakeNotificationType c' f' n')
    \<longleftrightarrow> f = f' \<and> n = n'"
  unfolding AreEqualExcludingChannel_def source_bits source_bits_inject ..

lemma GetSeverity_0 [simp]: "GetSeverity r = 0 \<longleftrightarrow> r = Success"
  by (cases r) auto

lemma success_iff [simp]: "IsValidationResultSuccess r \<longleftrightarrow> r = Success"
  by (cases r) auto

lemma failure_iff [simp]: "IsValidationResultFailure r \<longleftrightarrow> (\<exists>f. r = Failure f)"
  by (cases r) (auto simp: IsValidationResultFailure_def)

lemma aggregate_Success [simp]: "AggregateValidationResult a r = Success \<longleftrightarrow> a = Success \<and> r = Success"
  by (cases a; cases r) (auto simp: AggregateValidationResult_def)

lemma aggregate_Success_left [simp]: "AggregateValidationResult Success r = r"
  by (cases r) (auto simp: AggregateValidationResult_def)

lemma aggregate_validate_loop_Success:
  "aggregate_validate_loop ignored vs n s a = Inr Success \<longleftrightarrow>
     a = Success \<and> (\<forall>v \<in> set vs. \<exists>r. v n s = Inr r \<and> (ignored r \<or> r = Success))"
  if "\<not> ignored Success"
proof (induction vs arbitrary: a)
  case (Cons v vs)
  show ?case
  proof (cases "v n s")
    case (Inr r)
    with Cons.IH that show ?thesis by (cases r) auto
  qed simp
qed simp

text \<open>What one notification does when the result so far is a success and stays one.\<close>

lemma sub_notify_Success:
  assumes "sub_notify validator obs n sub = Inr sub'" and "m_aggregateResult sub' = Success"
  shows "m_aggregateResult sub = Success
    \<and> (IsSet (n_Type n) Channel_Validator \<longrightarrow> validator n (m_state sub) = Inr Success)
    \<and> (if IsSet (n_Type n) Channel_Observer
       then obs (m_mode sub) n (m_state sub) = Inr (m_state sub') else m_state sub' = m_state sub)
    \<and> m_mode sub' = m_mode sub \<and> m_isUndoEnabled sub' = m_isUndoEnabled sub
    \<and> m_notificationBuffers sub' = m_notificationBuffers sub
        @ (if m_isUndoEnabled sub then captured [n] else [])"
  using assms
  by (cases sub) (auto simp: sub_notify_def sub_validate_def sub_observe_def undo_notify_def captured_def Let_def
      split: if_splits)

lemma sub_notify_failed:
  assumes "sub_notify validator obs n sub = Inr sub'" and "m_aggregateResult sub' \<noteq> Success"
  shows "sub' = sub\<lparr>m_aggregateResult := m_aggregateResult sub'\<rparr>"
  using assms
  by (cases sub) (auto simp: sub_notify_def sub_validate_def sub_observe_def undo_notify_def Let_def
      split: if_splits)

lemma sub_notify_stopped:
  assumes "foldM (sub_notify validator obs) ns sub = Inr sub'" and "m_aggregateResult sub \<noteq> Success"
  shows "sub' = sub"
  using assms by (induction ns arbitrary: sub) (auto simp: sub_notify_def split: if_splits)

lemma process_Success:
  assumes "foldM (sub_notify validator obs) ns sub = Inr sub'" and "m_aggregateResult sub' = Success"
  shows "m_aggregateResult sub = Success
    \<and> foldM (obs (m_mode sub)) (captured ns) (m_state sub) = Inr (m_state sub')
    \<and> m_mode sub' = m_mode sub \<and> m_isUndoEnabled sub' = m_isUndoEnabled sub
    \<and> m_notificationBuffers sub' = m_notificationBuffers sub
        @ (if m_isUndoEnabled sub then captured ns else [])"
  using assms
proof (induction ns arbitrary: sub)
  case (Cons n ns)
  then obtain sub1 where n: "sub_notify validator obs n sub = Inr sub1"
    and ns: "foldM (sub_notify validator obs) ns sub1 = Inr sub'" by auto
  from Cons.IH [OF ns] sub_notify_Success [OF n] Cons.prems(2) show ?case
    by (auto simp: captured_def split: if_splits)
qed (simp add: captured_def)

text \<open>Without undo, a subscriber that has seen no failure is the fresh one on its current state.\<close>

lemma process_fresh:
  assumes "foldM (sub_notify validator obs) ns (make_subscriber Commit s) = Inr sub'"
    and "m_aggregateResult sub' = Success"
  shows "sub' = make_subscriber Commit (m_state sub')"
  using process_Success [OF assms] assms(2) by (simp add: make_subscriber_def)

text \<open>An accepted sequence, one notification at a time.\<close>

lemma process_Cons:
  assumes "foldM (sub_notify validator obs) (n # ns) (make_subscriber Commit s) = Inr sub"
    and "m_aggregateResult sub = Success"
  obtains s1 where "IsSet (n_Type n) Channel_Validator \<Longrightarrow> validator n s = Inr Success"
    "if IsSet (n_Type n) Channel_Observer then obs Commit n s = Inr s1 else s1 = s"
    "foldM (sub_notify validator obs) ns (make_subscriber Commit s1) = Inr sub"
proof -
  obtain sub1 where n: "sub_notify validator obs n (make_subscriber Commit s) = Inr sub1"
    and ns: "foldM (sub_notify validator obs) ns sub1 = Inr sub" using assms(1) by auto
  have ok: "m_aggregateResult sub1 = Success" using process_Success [OF ns assms(2)] by simp
  have "sub1 = make_subscriber Commit (m_state sub1)"
    using process_fresh [of validator obs "[n]" s sub1] n ok by simp
  with ns have "foldM (sub_notify validator obs) ns (make_subscriber Commit (m_state sub1)) = Inr sub"
    by simp
  with sub_notify_Success [OF n ok] show ?thesis
    by (intro that [of "m_state sub1"]) (simp_all add: make_subscriber_def split: if_splits)
qed

lemma adapter_captured:
  "adapter_notify publish obs mode e s = foldM (obs mode) (captured (publish e)) s"
proof -
  have "foldM (\<lambda>n s. if \<not> IsSet (n_Type n) Channel_Observer then Inr s else obs mode n s) ns s
      = foldM (obs mode) (captured ns) s" for ns
  proof (induction ns arbitrary: s)
    case (Cons n ns)
    then show ?case by (cases "obs mode n s") (auto simp: captured_def)
  qed (simp add: captured_def)
  then show ?thesis by (simp add: adapter_notify_def)
qed

section \<open>The contract of the plugins\<close>

locale reversible_entities =
  fixes publish :: "'e \<Rightarrow> 'p Notification list"
    and validator :: "('p, 'f, 's) validator"
    and obs :: "('p, 's) observer"
    and ok :: "'s \<Rightarrow> bool"
    and wf :: "'e \<Rightarrow> bool"
  assumes entity_reversible:
    "ok s \<Longrightarrow> wf e
      \<Longrightarrow> foldM (sub_notify validator obs) (publish e) (make_subscriber Commit s) = Inr sub
      \<Longrightarrow> m_aggregateResult sub = Success
      \<Longrightarrow> ok (m_state sub) \<and> reverse_adapter_notify publish obs Rollback e (m_state sub) = Inr s"
begin

lemma process_reversible:
  assumes "process_entities publish validator obs es (make_subscriber Commit s) = Inr (Success, s')"
    and "ok s" and "\<forall>e \<in> set es. wf e"
  shows "ok s' \<and> foldM (adapter_notify publish obs Commit) es s = Inr s'
    \<and> foldM (reverse_adapter_notify publish obs Rollback) (rev es) s' = Inr s"
  using assms
proof (induction es arbitrary: s)
  case Nil
  then show ?case by (simp add: make_subscriber_def)
next
  case (Cons e es)
  then obtain sub
    where e: "foldM (sub_notify validator obs) (publish e) (make_subscriber Commit s) = Inr sub"
      and ok: "m_aggregateResult sub = Success"
      and rest: "process_entities publish validator obs es sub = Inr (Success, s')"
    by (auto split: if_splits)
  have "adapter_notify publish obs Commit e s = Inr (m_state sub)"
    using process_Success [OF e ok] by (simp add: adapter_captured make_subscriber_def)
  moreover have "ok (m_state sub) \<and> reverse_adapter_notify publish obs Rollback e (m_state sub) = Inr s"
    using entity_reversible [OF Cons.prems(2) _ e ok] Cons.prems(3) by simp
  moreover note Cons.IH [of "m_state sub"] process_fresh [OF e ok] rest Cons.prems(3)
  ultimately show ?case by auto
qed

lemma block_reversible:
  assumes "BatchEntityProcessor publish validator obs es s = Inr (Success, s')" and "ok s"
    and "\<forall>e \<in> set es. wf e"
  shows "ok s' \<and> ExecuteBlock (adapter_notify publish obs) es s = Inr s'
    \<and> RollbackBlock (reverse_adapter_notify publish obs) commitRemovals es s' = Inr (commitRemovals s)"
  using assms process_reversible [of es s s']
  by (auto simp: BatchEntityProcessor_def ExecuteBlock_def RollbackBlock_def ObserveAll_def split: if_splits)

end

text \<open>
  A stronger contract, which not every plugin meets: already a single accepted notification is
  undone by its rollback. Then a transaction that is rejected half way can be undone too.
\<close>

locale reversible_notifications =
  fixes validator :: "('p, 'f, 's) validator"
    and obs :: "('p, 's) observer"
    and ok :: "'s \<Rightarrow> bool"
  assumes notification_reversible:
    "ok s \<Longrightarrow> (IsSet (n_Type n) Channel_Validator \<Longrightarrow> validator n s = Inr Success)
      \<Longrightarrow> obs Commit n s = Inr s' \<Longrightarrow> ok s' \<and> obs Rollback n s' = Inr s"
begin

lemma step_reversible:
  assumes "sub_notify validator obs n sub = Inr sub'" and "m_aggregateResult sub' = Success"
    and "ok (m_state sub)" and "m_mode sub = Commit"
  shows "ok (m_state sub')
    \<and> foldM (obs Rollback) (rev (captured [n])) (m_state sub') = Inr (m_state sub)"
proof -
  note n = sub_notify_Success [OF assms(1,2)]
  show ?thesis
  proof (cases "IsSet (n_Type n) Channel_Observer")
    case True
    with n assms(4) have "obs Commit n (m_state sub) = Inr (m_state sub')" by simp
    from notification_reversible [OF assms(3) _ this] n True show ?thesis by (simp add: captured_def)
  next
    case False
    with n assms(3) show ?thesis by (simp add: captured_def)
  qed
qed

definition undoable :: "'s \<Rightarrow> ('p, 'f, 's) subscriber \<Rightarrow> bool" where
  "undoable s sub \<longleftrightarrow> m_mode sub = Commit \<and> m_isUndoEnabled sub \<and> ok (m_state sub)
     \<and> foldM (obs Rollback) (rev (m_notificationBuffers sub)) (m_state sub) = Inr s"

lemma notify_undoable:
  assumes "sub_notify validator obs n sub = Inr sub'" and "undoable s sub"
  shows "undoable s sub'"
proof (cases "m_aggregateResult sub' = Success")
  case True
  from step_reversible [OF assms(1) True] sub_notify_Success [OF assms(1) True] assms(2)
  show ?thesis by (auto simp: undoable_def)
next
  case False
  then have "sub' = sub\<lparr>m_aggregateResult := m_aggregateResult sub'\<rparr>"
    by (rule sub_notify_failed [OF assms(1)])
  then obtain r where "sub' = sub\<lparr>m_aggregateResult := r\<rparr>" by blast
  with assms(2) show ?thesis by (simp add: undoable_def)
qed

lemma undo_restores:
  assumes "ok s"
    and "foldM (sub_notify validator obs) ns (enableUndo (make_subscriber Commit s)) = Inr sub"
  shows "\<exists>sub'. undo obs sub = Inr sub' \<and> m_state sub' = s"
proof -
  have "undoable s (enableUndo (make_subscriber Commit s))"
    using assms(1) by (simp add: undoable_def enableUndo_def make_subscriber_def)
  from foldM_invariant [where P = "undoable s", OF assms(2) this] have "undoable s sub"
    using notify_undoable by blast
  then show ?thesis by (simp add: undo_def undoable_def)
qed

lemma list_reversible:
  assumes "foldM (sub_notify validator obs) ns sub = Inr sub'"
    and "m_aggregateResult sub' = Success" and "ok (m_state sub)" and "m_mode sub = Commit"
  shows "ok (m_state sub') \<and> foldM (obs Rollback) (rev (captured ns)) (m_state sub') = Inr (m_state sub)"
  using assms
proof (induction ns arbitrary: sub)
  case (Cons n ns)
  then obtain sub1 where n: "sub_notify validator obs n sub = Inr sub1"
    and ns: "foldM (sub_notify validator obs) ns sub1 = Inr sub'" by auto
  have s1: "m_aggregateResult sub1 = Success" using process_Success [OF ns Cons.prems(2)] by simp
  note step = step_reversible [OF n s1 Cons.prems(3,4)]
  have "m_mode sub1 = Commit" using sub_notify_Success [OF n s1] Cons.prems(4) by simp
  with Cons.IH [OF ns Cons.prems(2)] step
  have "ok (m_state sub')" "foldM (obs Rollback) (rev (captured ns)) (m_state sub') = Inr (m_state sub1)"
    by simp_all
  moreover have "captured (n # ns) = captured [n] @ captured ns" by (simp add: captured_def)
  ultimately show ?case using step by simp
qed (simp add: captured_def)

end

sublocale reversible_notifications < by_entity: reversible_entities publish validator obs ok "\<lambda>_. True" for publish
  by unfold_locales
    (use list_reversible in \<open>auto simp: reverse_adapter_notify_def make_subscriber_def\<close>)

end
