(* ===== verification/Hash_Cache.thy ===== *)
theory Hash_Cache
  imports Basic_Caches Entity_Processing
begin

text \<open>
  Replay protection, \<^verbatim>\<open>plugins/services/hashcache\<close> with \<^verbatim>\<open>state/TimestampedHash.h\<close>: the hash of every
  transaction that was included is remembered until its deadline has passed by the retention time.

  The plugin meets the stronger contract of \<open>Entity_Processing\<close>: a single accepted notification is
  undone by its rollback (\<open>hash_plugin\<close>).
\<close>

section \<open>Timestamped hashes\<close>

datatype TimestampedHash = TimestampedHash (th_Time: Timestamp) (th_Hash: bytes)

definition Cached_Hash_Size :: nat where
  "Cached_Hash_Size = 32"

definition TimestampedHash_less :: "TimestampedHash \<Rightarrow> TimestampedHash \<Rightarrow> bool" where
  "TimestampedHash_less lhs rhs \<longleftrightarrow>
    th_Time lhs < th_Time rhs \<or> (th_Time lhs = th_Time rhs \<and> th_Hash lhs < th_Hash rhs)"

instantiation TimestampedHash :: linorder
begin

definition less_TimestampedHash :: "TimestampedHash \<Rightarrow> TimestampedHash \<Rightarrow> bool" where
  "lhs < rhs \<longleftrightarrow> TimestampedHash_less lhs rhs"

definition less_eq_TimestampedHash :: "TimestampedHash \<Rightarrow> TimestampedHash \<Rightarrow> bool" where
  "lhs \<le> (rhs :: TimestampedHash) \<longleftrightarrow> lhs < rhs \<or> lhs = rhs"

instance
proof
  fix x y z :: TimestampedHash
  show "x \<le> y \<or> y \<le> x"
    by (cases x; cases y) (auto simp: less_TimestampedHash_def TimestampedHash_less_def less_eq_TimestampedHash_def)
qed (auto simp: less_TimestampedHash_def TimestampedHash_less_def less_eq_TimestampedHash_def)

end

text \<open>The three constructors of the structure: the last one copies the leading bytes of a hash.\<close>

definition make_timestamped :: "Timestamp \<Rightarrow> TimestampedHash" where
  "make_timestamped timestamp = TimestampedHash timestamp (replicate Cached_Hash_Size 0)"

definition make_timestamped_hash :: "Timestamp \<Rightarrow> Hash256 \<Rightarrow> TimestampedHash" where
  "make_timestamped_hash timestamp hash = TimestampedHash timestamp (take Cached_Hash_Size hash)"

section \<open>The cache\<close>

definition SubtractNonNegative :: "Timestamp \<Rightarrow> u64 \<Rightarrow> Timestamp" where
  "SubtractNonNegative timestamp millis = (if timestamp < millis then 0 else timestamp - millis)"

record HashCacheDelta =
  m_pOrderedDelta :: "(TimestampedHash, unit) BaseSetDelta"
  m_retentionTime :: u64
  m_pruningBoundary :: "TimestampedHash option"

definition hash_prune :: "Timestamp \<Rightarrow> HashCacheDelta \<Rightarrow> HashCacheDelta" where
  "hash_prune timestamp c =
     (let pruneTime = SubtractNonNegative timestamp (m_retentionTime c) in
      c\<lparr>m_pruningBoundary := Some (make_timestamped pruneTime)\<rparr>)"

text \<open>The commit of the cache to its base set, with the pruning boundary of the delta.\<close>

definition hash_commit ::
  "(TimestampedHash, unit) BaseSet \<Rightarrow> HashCacheDelta \<Rightarrow> (TimestampedHash, unit) BaseSet result" where
  "hash_commit s c = base_commit (OrderedSet_Update (m_pruningBoundary c)) s"

section \<open>Validator and observer\<close>

record TransactionNotification =
  tn_Sender :: Address
  tn_TransactionHash :: Hash256
  tn_TransactionType :: u16
  tn_Deadline :: Timestamp

definition Core_Transaction_Notification :: u32 where
  "Core_Transaction_Notification = MakeNotificationType Channel_All 0x43 0x0006"

datatype hash_failure = Failure_Hash_Already_Exists

type_synonym hash_cache = "TimestampedHash \<rightharpoonup> unit"

definition UniqueTransactionHash ::
  "TransactionNotification \<Rightarrow> hash_cache \<Rightarrow> hash_failure ValidationResult" where
  "UniqueTransactionHash notification c =
     (if c (make_timestamped_hash (tn_Deadline notification) (tn_TransactionHash notification)) \<noteq> None
      then Failure Failure_Hash_Already_Exists
      else Success)"

definition TransactionHash_observer ::
  "NotifyMode \<Rightarrow> TransactionNotification \<Rightarrow> hash_cache \<Rightarrow> hash_cache result" where
  "TransactionHash_observer mode notification c =
     (let timestampedHash = make_timestamped_hash (tn_Deadline notification) (tn_TransactionHash notification) in
      if mode = Commit then kv_insert timestampedHash () c else kv_remove timestampedHash c)"

text \<open>The plugin as it is registered: one stateful validator and one observer of transactions.\<close>

definition hash_validator :: "(TransactionNotification, hash_failure, hash_cache) validator" where
  "hash_validator = aggregate_validate (\<lambda>_. False)
     [\<lambda>n s. if AreEqualExcludingChannel Core_Transaction_Notification (n_Type n)
            then Inr (UniqueTransactionHash (n_payload n) s) else Inr Success]"

definition hash_observer :: "(TransactionNotification, hash_cache) observer" where
  "hash_observer = aggregate_notify
     [conditional_notify Core_Transaction_Notification
        (\<lambda>mode n s. TransactionHash_observer mode (n_payload n) s)]"

section \<open>Lemmas\<close>

lemma less_make_timestamped:
  assumes "length (th_Hash h) = Cached_Hash_Size"
  shows "make_timestamped t \<le> h \<longleftrightarrow> t \<le> th_Time h"
proof -
  have "replicate n 0 \<le> b" if "length b = n" for b :: bytes and n
    using that by (induction n arbitrary: b) (auto simp: length_Suc_conv word_neq_0_conv)
  from this [OF assms] have "\<not> th_Hash h < replicate Cached_Hash_Size 0" by (simp add: not_less)
  then show ?thesis
    by (auto simp: not_less [symmetric] less_TimestampedHash_def TimestampedHash_less_def make_timestamped_def)
qed

lemma hash_observer_eq:
  "hash_observer mode n s = (if AreEqualExcludingChannel Core_Transaction_Notification (n_Type n)
    then TransactionHash_observer mode (n_payload n) s else Inr s)"
  by (cases "TransactionHash_observer mode (n_payload n) s"; cases mode)
    (simp_all add: hash_observer_def aggregate_notify_def conditional_notify_def)

lemma hash_observe_reversible:
  "TransactionHash_observer Commit n c = Inr c' \<Longrightarrow> TransactionHash_observer Rollback n c' = Inr c"
  by (auto simp: TransactionHash_observer_def kv_insert_def kv_remove_def Let_def split: if_splits)

interpretation hash_plugin: reversible_notifications hash_validator hash_observer "\<lambda>_. True"
  by unfold_locales (auto simp: hash_observer_eq hash_observe_reversible split: if_splits)

text \<open>The hashes a sequence of notifications brings to the plugin.\<close>

definition hashes_of :: "TransactionNotification Notification list \<Rightarrow> TimestampedHash list" where
  "hashes_of ns =
     map (\<lambda>n. make_timestamped_hash (tn_Deadline (n_payload n)) (tn_TransactionHash (n_payload n)))
       (filter (\<lambda>n. AreEqualExcludingChannel Core_Transaction_Notification (n_Type n)) (captured ns))"

lemma hashes_of_Cons: "hashes_of (n # ns) = hashes_of [n] @ hashes_of ns"
  by (simp add: hashes_of_def captured_def)

text \<open>
  One notification for a subscriber that has not failed yet: a transaction whose hash is in the cache is refused by the validator, a new one is accepted and its
  hash is observed; other notifications do nothing.
\<close>

abbreviation hash_of :: "TransactionNotification Notification \<Rightarrow> TimestampedHash" where
  "hash_of n \<equiv> make_timestamped_hash (tn_Deadline (n_payload n)) (tn_TransactionHash (n_payload n))"

definition proper_notification :: "TransactionNotification Notification \<Rightarrow> bool" where
  "proper_notification n \<longleftrightarrow> sizeof_Notification \<le> n_Size n
    \<and> (AreEqualExcludingChannel Core_Transaction_Notification (n_Type n) \<longrightarrow> n_Type n = Core_Transaction_Notification)"

lemma transaction_channels:
  "IsSet Core_Transaction_Notification Channel_Validator" "IsSet Core_Transaction_Notification Channel_Observer"
  "AreEqualExcludingChannel Core_Transaction_Notification Core_Transaction_Notification"
  by code_simp+

lemma hash_notify:
  assumes "proper_notification n"
  shows "sub_notify hash_validator hash_observer n (make_subscriber Commit s)
    = Inr (if \<not> AreEqualExcludingChannel Core_Transaction_Notification (n_Type n) then make_subscriber Commit s
        else if hash_of n \<in> dom s then (make_subscriber Commit s)\<lparr>m_aggregateResult := Failure Failure_Hash_Already_Exists\<rparr>
        else make_subscriber Commit (s(hash_of n \<mapsto> ())))"
  using assms transaction_channels
  by (auto simp: proper_notification_def sub_notify_def sub_validate_def sub_observe_def make_subscriber_def hash_validator_def aggregate_validate_def
      UniqueTransactionHash_def hash_observer_eq TransactionHash_observer_def kv_insert_def Let_def AggregateValidationResult_def not_less
      simp del: bind_result_Inr_iff)

section \<open>Properties\<close>

definition sample_transaction :: "Timestamp \<Rightarrow> u8 \<Rightarrow> TransactionNotification Notification" where
  "sample_transaction deadline byte =
     \<lparr>n_Type = Core_Transaction_Notification, n_Size = 72,
      n_payload = \<lparr>tn_Sender = [], tn_TransactionHash = replicate 32 byte, tn_TransactionType = 0x4154,
                   tn_Deadline = deadline\<rparr>\<rparr>"

text \<open>
  C11. No transaction is included twice. For any sequence of notifications, those of transactions being of the type that the code gives them, processing never throws. If the timestamped hashes of
  the transactions are pairwise different and none is in the cache, all are accepted and afterwards the cache holds exactly the
  old hashes and these; otherwise the validator refuses the sequence with the failure for a hash that already exists.
\<close>

theorem no_replay:
  assumes "list_all proper_notification ns"
  shows "\<exists>sub. foldM (sub_notify hash_validator hash_observer) ns (make_subscriber Commit s) = Inr sub
    \<and> (if distinct (hashes_of ns) \<and> set (hashes_of ns) \<inter> dom s = {}
       then m_aggregateResult sub = Success \<and> dom (m_state sub) = dom s \<union> set (hashes_of ns)
       else m_aggregateResult sub = Failure Failure_Hash_Already_Exists)"
  using assms
proof (induction ns arbitrary: s)
  case (Cons n ns)
  then have n: "proper_notification n" and ns: "list_all proper_notification ns" by simp_all
  note step = hash_notify [OF n, of s]
  consider (other) "\<not> AreEqualExcludingChannel Core_Transaction_Notification (n_Type n)"
    | (known) "n_Type n = Core_Transaction_Notification" "hash_of n \<in> dom s" | (fresh) "n_Type n = Core_Transaction_Notification" "hash_of n \<notin> dom s"
    using n by (auto simp: proper_notification_def)
  then show ?case
  proof cases
    case other
    then have "hashes_of (n # ns) = hashes_of ns" by (simp add: hashes_of_def captured_def)
    moreover have "foldM (sub_notify hash_validator hash_observer) (n # ns) (make_subscriber Commit s)
        = foldM (sub_notify hash_validator hash_observer) ns (make_subscriber Commit s)" using step other by simp
    ultimately show ?thesis using Cons.IH [OF ns, of s] by (simp only:)
  next
    case known
    let ?sub = "(make_subscriber Commit s)\<lparr>m_aggregateResult := Failure Failure_Hash_Already_Exists\<rparr> :: (TransactionNotification, hash_failure, hash_cache) subscriber"
    have "foldM (sub_notify hash_validator hash_observer) ns ?sub = Inr ?sub" using ns
      by (induction ns) (auto simp: sub_notify_def proper_notification_def not_less simp del: bind_result_Inr_iff)
    moreover have "hash_of n \<in> set (hashes_of (n # ns))" using known(1) transaction_channels by (simp add: hashes_of_def captured_def)
    ultimately show ?thesis using step known transaction_channels by (auto simp del: bind_result_Inr_iff)
  next
    case fresh
    let ?s = "s(hash_of n \<mapsto> ())"
    have d: "dom ?s = insert (hash_of n) (dom s)" by simp
    have hs: "hashes_of (n # ns) = hash_of n # hashes_of ns" using fresh(1) transaction_channels by (simp add: hashes_of_def captured_def)
    have "foldM (sub_notify hash_validator hash_observer) (n # ns) (make_subscriber Commit s)
        = foldM (sub_notify hash_validator hash_observer) ns (make_subscriber Commit ?s)" using step fresh transaction_channels by simp
    moreover have "distinct (hashes_of (n # ns)) \<and> set (hashes_of (n # ns)) \<inter> dom s = {} \<longleftrightarrow> distinct (hashes_of ns) \<and> set (hashes_of ns) \<inter> dom ?s = {}"
      "dom s \<union> set (hashes_of (n # ns)) = dom ?s \<union> set (hashes_of ns)"
      unfolding hs d using fresh(2) by auto
    ultimately show ?thesis using Cons.IH [OF ns, of ?s] by (simp only:)
  qed
qed (simp add: hashes_of_def captured_def make_subscriber_def)

theorem no_replay_witness:
  "\<exists>sub. foldM (sub_notify hash_validator hash_observer) [sample_transaction 5 1, sample_transaction 5 2, sample_transaction 5 1]
      (make_subscriber Commit (\<lambda>_. None)) = Inr sub \<and> m_aggregateResult sub = Failure Failure_Hash_Already_Exists"
proof -
  let ?ns = "[sample_transaction 5 1, sample_transaction 5 2, sample_transaction 5 1]"
  have "list_all proper_notification ?ns" "\<not> distinct (hashes_of ?ns)" by code_simp+
  with no_replay [OF this(1), of "\<lambda>_. None"] show ?thesis by auto
qed

text \<open>
  A transaction that is rejected half way leaves no trace: whatever part of its notifications was
  observed, undoing them restores the cache.
\<close>

theorem hash_undo_restores:
  assumes "foldM (sub_notify hash_validator hash_observer) ns (enableUndo (make_subscriber Commit s)) = Inr sub"
  shows "\<exists>sub'. undo hash_observer sub = Inr sub' \<and> m_state sub' = s"
  using hash_plugin.undo_restores [OF _ assms] by simp

theorem hash_undo_restores_witness:
  "\<exists>sub sub'. foldM (sub_notify hash_validator hash_observer) [sample_transaction 5 1, sample_transaction 5 1]
       (enableUndo (make_subscriber Commit (\<lambda>_. None))) = Inr sub
     \<and> m_aggregateResult sub \<noteq> Success \<and> undo hash_observer sub = Inr sub' \<and> m_state sub' = (\<lambda>_. None)"
proof -
  let ?r = "foldM (sub_notify hash_validator hash_observer) [sample_transaction 5 1, sample_transaction 5 1]
    (enableUndo (make_subscriber Commit (\<lambda>_. None)))"
  have "case ?r of Inl e \<Rightarrow> False | Inr sub \<Rightarrow> \<not> IsValidationResultSuccess (m_aggregateResult sub)"
    by code_simp
  then obtain sub where "?r = Inr sub" "m_aggregateResult sub \<noteq> Success" by (auto split: sum.splits)
  with hash_undo_restores [OF this(1)] show ?thesis by blast
qed

text \<open>
  Committing the cache after it was pruned at a time keeps exactly the hashes whose deadline is
  not earlier than that time less the retention time, with the difference taken to be zero when it
  would be negative.
\<close>

theorem hash_prune_correct:
  assumes "m_pWeakDelta s = Some d" and "m_pOrderedDelta c = d"
    and "m_originalElements d = m_elements s" and "immutable_ok d"
    and "\<forall>h \<in> dom (delta_find ImmutableTypeTag d). length (th_Hash h) = Cached_Hash_Size"
  shows "\<exists>s'. hash_commit s (hash_prune timestamp c) = Inr s' \<and> omap_ok (m_elements s')
    \<and> dom (map_of (m_elements s')) =
       {h \<in> dom (delta_find ImmutableTypeTag d). unat timestamp - unat (m_retentionTime c) \<le> unat (th_Time h)}"
proof -
  have view: "delta_find ImmutableTypeTag d = delta_view d"
    using assms(4) by (rule immutable_find)
  let ?t = "SubtractNonNegative timestamp (m_retentionTime c)"
  obtain e where e: "OrderedSet_Update (Some (make_timestamped ?t)) (m_originalElements d) d = Inr e"
    "omap_ok e" "map_of e = delta_view d |` {h. make_timestamped ?t \<le> h}"
    using OrderedSet_Update_correct assms(4) unfolding immutable_ok_def by blast
  have t: "unat ?t = unat timestamp - unat (m_retentionTime c)"
    by (auto simp: SubtractNonNegative_def word_less_nat_alt unat_sub_le not_less word_le_nat_alt)
  have "dom (map_of e) = {h \<in> dom (delta_view d). ?t \<le> th_Time h}"
    using less_make_timestamped assms(5) unfolding e(3) view by auto
  then show ?thesis
    using assms(1,3) e(1,2) t
    by (simp add: hash_commit_def hash_prune_def Let_def base_commit_def view word_le_nat_alt)
qed

definition sample_hash :: "Timestamp \<Rightarrow> TimestampedHash" where
  "sample_hash t = TimestampedHash t (replicate 32 7)"

theorem hash_prune_correct_witness:
  "\<exists>s'. hash_commit \<lparr>m_elements = [(sample_hash 3, ()), (sample_hash 8, ())],
       m_pWeakDelta = Some (make_delta [(sample_hash 3, ()), (sample_hash 8, ())])\<rparr>
     (hash_prune 10 \<lparr>m_pOrderedDelta = make_delta [(sample_hash 3, ()), (sample_hash 8, ())],
       m_retentionTime = 5, m_pruningBoundary = None\<rparr>) = Inr s'
   \<and> dom (map_of (m_elements s')) = {sample_hash 8}"
proof -
  let ?m = "[(sample_hash 3, ()), (sample_hash 8, ())]"
  have ok: "immutable_ok (make_delta ?m)"
    by (auto simp: immutable_ok_def make_delta_def delta_ok_def omap_ok_def less_TimestampedHash_def TimestampedHash_less_def
        sample_hash_def)
  have dom: "dom (delta_find ImmutableTypeTag (make_delta ?m)) = {sample_hash 3, sample_hash 8}"
    unfolding immutable_find [OF ok] make_delta_view by auto
  have "\<exists>s'. hash_commit \<lparr>m_elements = ?m, m_pWeakDelta = Some (make_delta ?m)\<rparr>
     (hash_prune 10 \<lparr>m_pOrderedDelta = make_delta ?m, m_retentionTime = 5, m_pruningBoundary = None\<rparr>) = Inr s'
   \<and> omap_ok (m_elements s') \<and> dom (map_of (m_elements s')) = {h \<in> {sample_hash 3, sample_hash 8}. 5 \<le> unat (th_Time h)}"
    using hash_prune_correct [of "\<lparr>m_elements = ?m, m_pWeakDelta = Some (make_delta ?m)\<rparr>" "make_delta ?m"
        "\<lparr>m_pOrderedDelta = make_delta ?m, m_retentionTime = 5, m_pruningBoundary = None\<rparr>" 10]
    by (simp add: ok dom) (simp add: make_delta_def sample_hash_def Cached_Hash_Size_def)
  moreover have "{h \<in> {sample_hash 3, sample_hash 8}. 5 \<le> unat (th_Time h)} = {sample_hash 8}"
    by (auto simp: sample_hash_def)
  ultimately show ?thesis by auto
qed

end
