(* ===== verification/Multisig.thy ===== *)
theory Multisig
  imports Basic_Caches Entity_Processing
begin

text \<open>
  Multisig accounts, \<^verbatim>\<open>plugins/txes/multisig\<close>: the entry of an account, the observers that change the
  graph of cosignatories and the thresholds, every validator, and the notifications that a
  modification transaction publishes.

  The cache is the map from an address to its entry (see \<open>Basic_Caches\<close>). The resolver of aliases
  is an argument. A recursion over the graph need not end on every graph, so it carries fuel; a run
  without fuel left stands for the overflow of the stack, which is undefined behaviour. That the
  maximum multisig depth is enough fuel on the graphs the validators admit is shown in
  \<open>Multisig_Graph\<close>.
\<close>

section \<open>State\<close>

record MultisigEntry =
  me_address :: Address
  cosignatoryAddresses :: "Address oset"
  minApproval :: u32
  minRemoval :: u32
  multisigAddresses :: "Address oset"

definition make_multisig_entry :: "Address \<Rightarrow> MultisigEntry" where
  "make_multisig_entry address =
     \<lparr>me_address = address, cosignatoryAddresses = [], minApproval = 0, minRemoval = 0,
      multisigAddresses = []\<rparr>"

definition hasCosignatory :: "MultisigEntry \<Rightarrow> Address \<Rightarrow> bool" where
  "hasCosignatory entry address = (address \<in> set (cosignatoryAddresses entry))"

type_synonym multisig_cache = "Address \<rightharpoonup> MultisigEntry"

section \<open>Graph traversal\<close>

text \<open>
  \<^verbatim>\<open>FindAll<TTraits>\<close> returns the number of levels and extends the set of addresses. The traits are
  the accessor of the linked addresses.
\<close>

fun FindAll ::
  "nat \<Rightarrow> (MultisigEntry \<Rightarrow> Address oset) \<Rightarrow> multisig_cache \<Rightarrow> Address \<Rightarrow> Address set
     \<Rightarrow> (nat \<times> Address set) result" where
  "FindAll 0 GetAddresses multisigCache address addresses = Inl undefined_behaviour"
| "FindAll (Suc fuel) GetAddresses multisigCache address addresses =
     (case multisigCache address of
        None \<Rightarrow> Inr (0, addresses)
      | Some multisigEntry \<Rightarrow>
          foldM (\<lambda>linkedAddress (numLevels, addresses).
              bind_result
                (FindAll fuel GetAddresses multisigCache linkedAddress (insert linkedAddress addresses))
                (\<lambda>(levels, addresses). Inr (max numLevels (levels + 1), addresses)))
            (GetAddresses multisigEntry) (0, addresses))"

definition FindAncestors ::
  "nat \<Rightarrow> multisig_cache \<Rightarrow> Address \<Rightarrow> Address set \<Rightarrow> (nat \<times> Address set) result" where
  "FindAncestors fuel c address ancestors = FindAll fuel multisigAddresses c address ancestors"

definition FindDescendants ::
  "nat \<Rightarrow> multisig_cache \<Rightarrow> Address \<Rightarrow> Address set \<Rightarrow> (nat \<times> Address set) result" where
  "FindDescendants fuel c address descendants =
     FindAll fuel cosignatoryAddresses c address descendants"

section \<open>Notifications\<close>

text \<open>
  The payload of the notifications the plugin raises. The addresses to add and to delete are as in
  the transaction, unresolved; their counts are the lengths of the lists.
\<close>

type_synonym UnresolvedAddress = bytes

datatype multisig_payload =
    NewCosignatory Address UnresolvedAddress
  | Cosignatories Address "UnresolvedAddress list" "UnresolvedAddress list"
  | Settings Address (MinRemovalDelta: u8) (MinApprovalDelta: u8)

definition Multisig_facility :: u8 where
  "Multisig_facility = 0x55"

fun multisig_notification_type :: "multisig_payload \<Rightarrow> u32" where
  "multisig_notification_type (Cosignatories _ _ _) = MakeNotificationType Channel_All Multisig_facility 0x0001"
| "multisig_notification_type (NewCosignatory _ _) = MakeNotificationType Channel_Validator Multisig_facility 0x0002"
| "multisig_notification_type (Settings _ _ _) = MakeNotificationType Channel_All Multisig_facility 0x0003"

fun multisig_notification_size :: "multisig_payload \<Rightarrow> u64" where
  "multisig_notification_size (Cosignatories _ _ _) = 72"
| "multisig_notification_size (NewCosignatory _ _) = 64"
| "multisig_notification_size (Settings _ _ _) = 48"

definition multisig_notification :: "multisig_payload \<Rightarrow> multisig_payload Notification" where
  "multisig_notification p =
     \<lparr>n_Type = multisig_notification_type p, n_Size = multisig_notification_size p, n_payload = p\<rparr>"

record MultisigAccountModification =
  tx_Signer :: Address
  tx_MinRemovalDelta :: u8
  tx_MinApprovalDelta :: u8
  tx_AddressAdditions :: "UnresolvedAddress list"
  tx_AddressDeletions :: "UnresolvedAddress list"

text \<open>
  \<^verbatim>\<open>Publish\<close>: the notifications for this plugin, in order. Those for other plugins (padding, account
  registration, address interaction) carry no state of this one.
\<close>

definition multisig_publish :: "MultisigAccountModification \<Rightarrow> multisig_payload Notification list" where
  "multisig_publish tx =
     map multisig_notification
       ((if tx_AddressAdditions tx \<noteq> [] \<or> tx_AddressDeletions tx \<noteq> []
         then map (NewCosignatory (tx_Signer tx)) (tx_AddressAdditions tx)
              @ [Cosignatories (tx_Signer tx) (tx_AddressAdditions tx) (tx_AddressDeletions tx)]
         else [])
        @ [Settings (tx_Signer tx) (tx_MinRemovalDelta tx) (tx_MinApprovalDelta tx)])"

section \<open>Observers\<close>

definition GetMultisigEntry :: "multisig_cache \<Rightarrow> Address \<Rightarrow> multisig_cache result" where
  "GetMultisigEntry c address =
     (if c address = None then kv_insert address (make_multisig_entry address) c else Inr c)"

definition removeIfEmpty :: "MultisigEntry \<Rightarrow> Address \<Rightarrow> multisig_cache \<Rightarrow> multisig_cache result" where
  "removeIfEmpty entry address c =
     (if cosignatoryAddresses entry = [] \<and> multisigAddresses entry = [] then kv_remove address c
      else Inr c)"

text \<open>
  A modification through \<^verbatim>\<open>m_multisigEntry\<close>, the reference that the facade holds into the cache. It
  dangles once that entry has been removed.
\<close>

definition modify_held ::
  "Address \<Rightarrow> (MultisigEntry \<Rightarrow> MultisigEntry) \<Rightarrow> multisig_cache \<Rightarrow> multisig_cache result" where
  "modify_held multisig f c =
     (case c multisig of None \<Rightarrow> Inl undefined_behaviour | Some entry \<Rightarrow> Inr (c(multisig \<mapsto> f entry)))"

definition addCosignatory :: "Address \<Rightarrow> Address \<Rightarrow> multisig_cache \<Rightarrow> multisig_cache result" where
  "addCosignatory multisig cosignatory c =
     bind_result (GetMultisigEntry c cosignatory) (\<lambda>c.
     bind_result (kv_update cosignatory
         (\<lambda>e. e\<lparr>multisigAddresses := oset_insert multisig (multisigAddresses e)\<rparr>) c) (\<lambda>c.
     modify_held multisig
       (\<lambda>e. e\<lparr>cosignatoryAddresses := oset_insert cosignatory (cosignatoryAddresses e)\<rparr>) c))"

definition removeCosignatory :: "Address \<Rightarrow> Address \<Rightarrow> multisig_cache \<Rightarrow> multisig_cache result" where
  "removeCosignatory multisig cosignatory c =
     bind_result (modify_held multisig
         (\<lambda>e. e\<lparr>cosignatoryAddresses := oset_erase cosignatory (cosignatoryAddresses e)\<rparr>) c) (\<lambda>c.
     bind_result (kv_update cosignatory
         (\<lambda>e. e\<lparr>multisigAddresses := oset_erase multisig (multisigAddresses e)\<rparr>) c) (\<lambda>c.
     bind_result (kv_get c cosignatory) (\<lambda>cosignatoryEntry.
     removeIfEmpty cosignatoryEntry cosignatory c)))"

definition AddAll_cosignatories ::
  "(UnresolvedAddress \<Rightarrow> Address) \<Rightarrow> Address \<Rightarrow> UnresolvedAddress list \<Rightarrow> bool \<Rightarrow> multisig_cache
     \<Rightarrow> multisig_cache result" where
  "AddAll_cosignatories resolve multisig addresses shouldAdd c =
     foldM (\<lambda>cosignatory c.
         if shouldAdd then addCosignatory multisig (resolve cosignatory) c
         else removeCosignatory multisig (resolve cosignatory) c) addresses c"

text \<open>The facade lives for the body of the observer; its destructor drops an empty entry.\<close>

definition destroy_facade :: "Address \<Rightarrow> multisig_cache \<Rightarrow> multisig_cache result" where
  "destroy_facade multisig c =
     (case c multisig of
        None \<Rightarrow> Inl undefined_behaviour
      | Some entry \<Rightarrow> removeIfEmpty entry multisig c)"

definition MultisigCosignatories_observer ::
  "(UnresolvedAddress \<Rightarrow> Address) \<Rightarrow> NotifyMode \<Rightarrow> Address \<Rightarrow> UnresolvedAddress list
     \<Rightarrow> UnresolvedAddress list \<Rightarrow> multisig_cache \<Rightarrow> multisig_cache result" where
  "MultisigCosignatories_observer resolve mode multisig additions deletions c =
     (let isCommitMode = (mode = Commit) in
      bind_result (GetMultisigEntry c multisig) (\<lambda>c.
      bind_result (AddAll_cosignatories resolve multisig additions isCommitMode c) (\<lambda>c.
      bind_result (AddAll_cosignatories resolve multisig deletions (\<not> isCommitMode) c) (\<lambda>c.
      destroy_facade multisig c))))"

text \<open>
  \<^verbatim>\<open>AddDelta\<close>: both operands of the product and the threshold are read as signed numbers; the sum
  is converted back to 32 bits.
\<close>

definition AddDelta :: "u32 \<Rightarrow> int \<Rightarrow> u8 \<Rightarrow> u32" where
  "AddDelta v direction delta = word_of_int (sint v + direction * sint delta)"

definition MultisigSettings_observer ::
  "NotifyMode \<Rightarrow> Address \<Rightarrow> u8 \<Rightarrow> u8 \<Rightarrow> multisig_cache \<Rightarrow> multisig_cache result" where
  "MultisigSettings_observer mode multisig minRemovalDelta minApprovalDelta c =
     (let isNotContained = (c multisig = None) in
      if isNotContained \<and> mode = Commit then Inr c
      else
        bind_result
          (if isNotContained then kv_insert multisig (make_multisig_entry multisig) c else Inr c) (\<lambda>c.
        let direction = (if mode = Commit then 1 else - 1) in
        kv_update multisig (\<lambda>e. e\<lparr>
            minApproval := AddDelta (minApproval e) direction minApprovalDelta,
            minRemoval := AddDelta (minRemoval e) direction minRemovalDelta\<rparr>) c))"

section \<open>Validators\<close>

datatype multisig_failure =
    Failure_Multisig_Multiple_Deletes
  | Failure_Multisig_Redundant_Modification
  | Failure_Multisig_Account_In_Both_Sets
  | Failure_Multisig_Unknown_Multisig_Account
  | Failure_Multisig_Already_A_Cosignatory
  | Failure_Multisig_Not_A_Cosignatory
  | Failure_Multisig_Min_Setting_Out_Of_Range
  | Failure_Multisig_Min_Setting_Larger_Than_Num_Cosignatories
  | Failure_Multisig_Invalid_Modification_Action
  | Failure_Multisig_Max_Multisig_Depth
  | Failure_Multisig_Loop
  | Failure_Multisig_Max_Cosignatories
  | Failure_Multisig_Max_Cosigned_Accounts
  | Failure_Multisig_Operation_Prohibited_By_Account
  | Failure_Aggregate_Ineligible_Cosignatories
  | Failure_Aggregate_Missing_Cosignatures

type_synonym multisig_result = "multisig_failure ValidationResult"

text \<open>Stateless: \<^verbatim>\<open>ToSet\<close> keeps one pointer per address.\<close>

definition MultisigCosignatories ::
  "UnresolvedAddress list \<Rightarrow> UnresolvedAddress list \<Rightarrow> multisig_result" where
  "MultisigCosignatories additions deletions =
     (if 1 < length deletions then Failure Failure_Multisig_Multiple_Deletes
      else if length additions \<noteq> card (set additions) then Failure Failure_Multisig_Redundant_Modification
      else if list_ex (\<lambda>a. a \<in> set deletions) additions then Failure Failure_Multisig_Account_In_Both_Sets
      else Success)"

definition MultisigInvalidCosignatories ::
  "(UnresolvedAddress \<Rightarrow> Address) \<Rightarrow> Address \<Rightarrow> UnresolvedAddress list \<Rightarrow> UnresolvedAddress list
     \<Rightarrow> multisig_cache \<Rightarrow> multisig_result" where
  "MultisigInvalidCosignatories resolve multisig additions deletions c =
     (case c multisig of
        None \<Rightarrow> if length deletions = 0 then Success else Failure Failure_Multisig_Unknown_Multisig_Account
      | Some multisigEntry \<Rightarrow>
          if list_ex (\<lambda>a. hasCosignatory multisigEntry (resolve a)) additions
          then Failure Failure_Multisig_Already_A_Cosignatory
          else if list_ex (\<lambda>a. \<not> hasCosignatory multisigEntry (resolve a)) deletions
          then Failure Failure_Multisig_Not_A_Cosignatory
          else Success)"

definition MultisigInvalidSettings :: "Address \<Rightarrow> u8 \<Rightarrow> u8 \<Rightarrow> multisig_cache \<Rightarrow> multisig_result" where
  "MultisigInvalidSettings multisig minRemovalDelta minApprovalDelta c =
     (case c multisig of
        None \<Rightarrow>
          if - 1 \<noteq> sint minRemovalDelta \<or> - 1 \<noteq> sint minApprovalDelta
          then Failure Failure_Multisig_Min_Setting_Out_Of_Range
          else Success
      | Some multisigEntry \<Rightarrow>
          let newMinRemoval = uint (minRemoval multisigEntry) + sint minRemovalDelta;
              newMinApproval = uint (minApproval multisigEntry) + sint minApprovalDelta;
              maxValue = int (length (cosignatoryAddresses multisigEntry)) in
          if 1 > newMinRemoval \<or> 1 > newMinApproval
          then Failure Failure_Multisig_Min_Setting_Out_Of_Range
          else if newMinRemoval > maxValue \<or> newMinApproval > maxValue
          then Failure Failure_Multisig_Min_Setting_Larger_Than_Num_Cosignatories
          else Success)"

definition LoopAndLevelChecker_validate ::
  "nat \<Rightarrow> u8 \<Rightarrow> multisig_cache \<Rightarrow> Address \<Rightarrow> Address \<Rightarrow> multisig_result result" where
  "LoopAndLevelChecker_validate fuel maxMultisigDepth c topAddress bottomAddress =
     bind_result (FindAncestors fuel c topAddress {topAddress}) (\<lambda>(numTopLevels, ancestors).
     bind_result (FindDescendants fuel c bottomAddress {bottomAddress}) (\<lambda>(numBottomLevels, descendants).
     Inr (if numTopLevels + numBottomLevels + 1 > unat maxMultisigDepth
          then Failure Failure_Multisig_Max_Multisig_Depth
          else if ancestors \<inter> descendants \<noteq> {} then Failure Failure_Multisig_Loop
          else Success)))"

definition MultisigMaxCosignatories ::
  "u32 \<Rightarrow> Address \<Rightarrow> UnresolvedAddress list \<Rightarrow> UnresolvedAddress list \<Rightarrow> multisig_cache
     \<Rightarrow> multisig_result" where
  "MultisigMaxCosignatories maxCosignatoriesPerAccount multisig additions deletions c =
     (let numCosignatories = (case c multisig of
            None \<Rightarrow> 0 | Some entry \<Rightarrow> of_nat (length (cosignatoryAddresses entry)));
          numCosignatories = numCosignatories
            + (word_of_int (int (length additions) - int (length deletions)) :: u64) in
      if numCosignatories > ucast maxCosignatoriesPerAccount
      then Failure Failure_Multisig_Max_Cosignatories else Success)"

definition MultisigMaxCosignedAccounts ::
  "(UnresolvedAddress \<Rightarrow> Address) \<Rightarrow> u32 \<Rightarrow> UnresolvedAddress \<Rightarrow> multisig_cache \<Rightarrow> multisig_result" where
  "MultisigMaxCosignedAccounts resolve maxCosignedAccountsPerAccount cosignatory c =
     (case c (resolve cosignatory) of
        None \<Rightarrow> Success
      | Some cosignatoryEntry \<Rightarrow>
          if length (multisigAddresses cosignatoryEntry) \<ge> unat maxCosignedAccountsPerAccount
          then Failure Failure_Multisig_Max_Cosigned_Accounts else Success)"

definition MultisigPermittedOperation :: "Address \<Rightarrow> multisig_cache \<Rightarrow> multisig_result" where
  "MultisigPermittedOperation sender c =
     (case c sender of
        None \<Rightarrow> Success
      | Some entry \<Rightarrow>
          if cosignatoryAddresses entry = [] then Success
          else Failure Failure_Multisig_Operation_Prohibited_By_Account)"

section \<open>Aggregate validators\<close>

datatype OperationType = Operation_Normal | Operation_Removal | Operation_Max

record EmbeddedTransaction =
  et_SignerPublicKey :: Key
  et_Type :: u16
  et_AddressAdditionsCount :: u8
  et_AddressDeletionsCount :: u8

definition Entity_Type_Multisig_Account_Modification :: u16 where
  "Entity_Type_Multisig_Account_Modification = 0x4155"

definition GetOperationType :: "EmbeddedTransaction \<Rightarrow> OperationType" where
  "GetOperationType transaction =
     (if Entity_Type_Multisig_Account_Modification \<noteq> et_Type transaction then Operation_Normal
      else
        let hasAdds = (0 \<noteq> et_AddressAdditionsCount transaction);
            hasDeletes = (0 \<noteq> et_AddressDeletionsCount transaction) in
        if hasDeletes then if hasAdds then Operation_Max else Operation_Removal
        else Operation_Normal)"

definition GetMinRequiredCosignatories :: "MultisigEntry \<Rightarrow> OperationType \<Rightarrow> u32" where
  "GetMinRequiredCosignatories entry operationType =
     (if Operation_Max = operationType then max (minRemoval entry) (minApproval entry)
      else if Operation_Removal = operationType then minRemoval entry
      else minApproval entry)"

fun isSatisfied ::
  "nat \<Rightarrow> multisig_cache \<Rightarrow> Address set \<Rightarrow> OperationType \<Rightarrow> Address \<Rightarrow> bool result" where
  "isSatisfied 0 c cosignatories operationType address = Inl undefined_behaviour"
| "isSatisfied (Suc fuel) c cosignatories operationType address =
     (case c address of
        None \<Rightarrow> Inr (address \<in> cosignatories)
      | Some multisigEntry \<Rightarrow>
          if cosignatoryAddresses multisigEntry = [] then Inr (address \<in> cosignatories)
          else bind_result
            (foldM (\<lambda>cosignatoryAddress numApprovers.
                 bind_result (isSatisfied fuel c cosignatories operationType cosignatoryAddress)
                   (\<lambda>b. Inr (numApprovers + (if b then 1 else 0))))
               (cosignatoryAddresses multisigEntry) (0 :: nat))
            (\<lambda>numApprovers.
               Inr (numApprovers \<ge> unat (GetMinRequiredCosignatories multisigEntry operationType))))"

text \<open>
  The public keys are turned into addresses by an argument of the model, and the cosignatories that
  the plugin of the embedded transaction requires in addition are an argument too.
\<close>

fun all_satisfied ::
  "nat \<Rightarrow> multisig_cache \<Rightarrow> Address set \<Rightarrow> OperationType \<Rightarrow> Address list \<Rightarrow> bool result" where
  "all_satisfied fuel c cosignatories operationType [] = Inr True"
| "all_satisfied fuel c cosignatories operationType (a # addresses) =
     bind_result (isSatisfied fuel c cosignatories operationType a) (\<lambda>b.
       if b then all_satisfied fuel c cosignatories operationType addresses else Inr False)"

definition MultisigAggregateSufficientCosignatories ::
  "nat \<Rightarrow> (UnresolvedAddress \<Rightarrow> Address) \<Rightarrow> (Key \<Rightarrow> Address) \<Rightarrow> EmbeddedTransaction
     \<Rightarrow> UnresolvedAddress list \<Rightarrow> Key \<Rightarrow> Key list \<Rightarrow> multisig_cache \<Rightarrow> multisig_result result" where
  "MultisigAggregateSufficientCosignatories fuel resolve toAddress transaction additionalRequired
       signerPublicKey cosignatures c =
     (let cosignatories = set (toAddress signerPublicKey # map toAddress cosignatures);
          requiredAddresses = toAddress (et_SignerPublicKey transaction) # map resolve additionalRequired in
      bind_result (all_satisfied fuel c cosignatories (GetOperationType transaction) requiredAddresses)
        (\<lambda>b. Inr (if b then Success else Failure Failure_Aggregate_Missing_Cosignatures)))"

definition markEligible :: "Address \<Rightarrow> (Address, bool) omap \<Rightarrow> (Address, bool) omap" where
  "markEligible address m = (if map_of m address = None then m else omap_put address True m)"

fun findEligibleCosignatories ::
  "nat \<Rightarrow> multisig_cache \<Rightarrow> Address \<Rightarrow> (Address, bool) omap \<Rightarrow> (Address, bool) omap result" where
  "findEligibleCosignatories 0 c address m = Inl undefined_behaviour"
| "findEligibleCosignatories (Suc fuel) c address m =
     (case c address of
        None \<Rightarrow> Inr (markEligible address m)
      | Some multisigEntry \<Rightarrow>
          if cosignatoryAddresses multisigEntry = [] then Inr (markEligible address m)
          else foldM (findEligibleCosignatories fuel c) (cosignatoryAddresses multisigEntry) m)"

definition MultisigAggregateEligibleCosignatories ::
  "nat \<Rightarrow> (UnresolvedAddress \<Rightarrow> Address) \<Rightarrow> (Key \<Rightarrow> Address)
     \<Rightarrow> (EmbeddedTransaction \<times> UnresolvedAddress list) list \<Rightarrow> Key \<Rightarrow> Key list \<Rightarrow> multisig_cache
     \<Rightarrow> multisig_result result" where
  "MultisigAggregateEligibleCosignatories fuel resolve toAddress transactions signerPublicKey cosignatures c =
     (let m = foldl (\<lambda>m key. omap_insert (toAddress key) False m) [] (signerPublicKey # cosignatures) in
      bind_result
        (foldM (\<lambda>(transaction, additionalRequired).
             foldM (findEligibleCosignatories fuel c)
               (toAddress (et_SignerPublicKey transaction) # map resolve additionalRequired))
           transactions m)
        (\<lambda>m. Inr (if list_ex (\<lambda>kv. \<not> snd kv) m
                  then Failure Failure_Aggregate_Ineligible_Cosignatories else Success)))"

section \<open>The plugin\<close>

text \<open>
  The stateful validators and the observers in the order in which the plugin registers them. The
  limits of the network configuration are collected in a record. The stateless validator has run
  before, on the transaction alone.
\<close>

record MultisigConfiguration =
  MaxMultisigDepth :: u8
  MaxCosignatoriesPerAccount :: u32
  MaxCosignedAccountsPerAccount :: u32

fun multisig_validate ::
  "MultisigConfiguration \<Rightarrow> nat \<Rightarrow> (UnresolvedAddress \<Rightarrow> Address) \<Rightarrow> multisig_payload
     \<Rightarrow> (multisig_payload Notification \<Rightarrow> multisig_cache \<Rightarrow> multisig_result result) list" where
  "multisig_validate config fuel resolve (NewCosignatory multisig cosignatory) =
     [\<lambda>_ c. Inr (MultisigMaxCosignedAccounts resolve (MaxCosignedAccountsPerAccount config) cosignatory c),
      \<lambda>_ c. LoopAndLevelChecker_validate fuel (MaxMultisigDepth config) c multisig (resolve cosignatory)]"
| "multisig_validate config fuel resolve (Cosignatories multisig additions deletions) =
     [\<lambda>_ c. Inr (MultisigMaxCosignatories (MaxCosignatoriesPerAccount config) multisig additions deletions c),
      \<lambda>_ c. Inr (MultisigInvalidCosignatories resolve multisig additions deletions c)]"
| "multisig_validate config fuel resolve (Settings multisig minRemovalDelta minApprovalDelta) =
     [\<lambda>_ c. Inr (MultisigInvalidSettings multisig minRemovalDelta minApprovalDelta c)]"

definition multisig_validator ::
  "MultisigConfiguration \<Rightarrow> nat \<Rightarrow> (UnresolvedAddress \<Rightarrow> Address)
     \<Rightarrow> (multisig_payload, multisig_failure, multisig_cache) validator" where
  "multisig_validator config fuel resolve n c =
     aggregate_validate (\<lambda>_. False) (multisig_validate config fuel resolve (n_payload n)) n c"

fun multisig_observe ::
  "(UnresolvedAddress \<Rightarrow> Address) \<Rightarrow> NotifyMode \<Rightarrow> multisig_payload \<Rightarrow> multisig_cache
     \<Rightarrow> multisig_cache result" where
  "multisig_observe resolve mode (NewCosignatory _ _) c = Inr c"
| "multisig_observe resolve mode (Cosignatories multisig additions deletions) c =
     MultisigCosignatories_observer resolve mode multisig additions deletions c"
| "multisig_observe resolve mode (Settings multisig minRemovalDelta minApprovalDelta) c =
     MultisigSettings_observer mode multisig minRemovalDelta minApprovalDelta c"

definition multisig_observer ::
  "(UnresolvedAddress \<Rightarrow> Address) \<Rightarrow> (multisig_payload, multisig_cache) observer" where
  "multisig_observer resolve mode n c = multisig_observe resolve mode (n_payload n) c"

end
