(* ===== verification/Multisig_Graph.thy ===== *)
theory Multisig_Graph
  imports Multisig
begin

text \<open>
  The graph of multisig accounts (\<open>Multisig\<close>): its traversals end and find what they should, the
  loop and level validator keeps it acyclic and its depth bounded, and the approval of an aggregate
  is decided as specified.
\<close>

section \<open>Paths\<close>

text \<open>No chain of \<open>n\<close> edges starts at \<open>a\<close>.\<close>

definition no_path :: "('a \<times> 'a) set \<Rightarrow> nat \<Rightarrow> 'a \<Rightarrow> bool" where
  "no_path R n a \<longleftrightarrow> (\<forall>b. (a, b) \<notin> R ^^ n)"

definition is_height :: "('a \<times> 'a) set \<Rightarrow> 'a \<Rightarrow> nat \<Rightarrow> bool" where
  "is_height R a l \<longleftrightarrow> (\<exists>b. (a, b) \<in> R ^^ l) \<and> no_path R (Suc l) a"

lemma no_path_0 [simp]: "\<not> no_path R 0 a"
  by (simp add: no_path_def)

lemma no_path_Suc: "no_path R (Suc n) a \<longleftrightarrow> (\<forall>x. (a, x) \<in> R \<longrightarrow> no_path R n x)"
  unfolding no_path_def by (metis relpow_Suc_D2 relpow_Suc_I2)

lemma no_path_mono: "no_path R n a \<Longrightarrow> n \<le> m \<Longrightarrow> no_path R m a"
proof (induction n arbitrary: m a)
  case (Suc n)
  then obtain m' where "m = Suc m'" "n \<le> m'" by (cases m) auto
  with Suc show ?case by (simp add: no_path_Suc)
qed simp

lemma is_height_bound: "is_height R a l \<Longrightarrow> (a, b) \<in> R ^^ n \<Longrightarrow> n \<le> l"
  using no_path_mono [of R "Suc l" a n] unfolding is_height_def no_path_def
  by (metis not_less_eq_eq)

lemma no_path_is_height:
  assumes "no_path R n a"
  obtains l where "is_height R a l" "l < n"
proof -
  define k where "k = (LEAST k. no_path R k a)"
  have k: "no_path R k a" unfolding k_def using assms by (rule LeastI)
  then obtain l where l: "k = Suc l" by (cases k) simp_all
  then have "\<not> no_path R l a" using not_less_Least [of l "\<lambda>k. no_path R k a"] k_def by simp
  then have "\<exists>b. (a, b) \<in> R ^^ l" by (simp add: no_path_def)
  moreover have "k \<le> n" unfolding k_def using assms by (rule Least_le)
  ultimately show ?thesis using that [of l] k l unfolding is_height_def by simp
qed

text \<open>The height of a node with successors is one more than the greatest height of a successor.\<close>

lemma is_height_successors:
  assumes succ: "\<And>x. (a, x) \<in> R \<longleftrightarrow> x \<in> set xs" and h: "\<And>x. x \<in> set xs \<Longrightarrow> is_height R x (h x)"
  shows "is_height R a (fold max (map (\<lambda>x. h x + 1) xs) 0)"
proof (cases "xs = []")
  case True
  then show ?thesis using succ by (simp add: is_height_def no_path_def)
next
  case False
  let ?M = "Max (set (map (\<lambda>x. h x + 1) xs))"
  have M: "fold max (map (\<lambda>x. h x + 1) xs) 0 = ?M"
    using False by (subst Max.set_eq_fold [symmetric]) (simp_all add: max_def)
  have "?M \<in> set (map (\<lambda>x. h x + 1) xs)" using False by (intro Max_in) auto
  then obtain x where x: "x \<in> set xs" "?M = Suc (h x)" by auto
  then obtain b where "(x, b) \<in> R ^^ h x" using h by (auto simp: is_height_def)
  with x succ have "(a, b) \<in> R ^^ ?M" using relpow_Suc_I2 [of a x R b "h x"] by simp
  moreover have "no_path R (Suc ?M) a"
  proof (unfold no_path_Suc, intro allI impI)
    fix y assume "(a, y) \<in> R"
    then have y: "y \<in> set xs" using succ by simp
    then have "h y + 1 \<le> ?M" by (intro Max_ge) auto
    with h [OF y] show "no_path R ?M y" by (auto simp: is_height_def intro: no_path_mono)
  qed
  ultimately show ?thesis unfolding M is_height_def by blast
qed

section \<open>Traversals\<close>

lemma foldM_levels:
  fixes h :: "'a \<Rightarrow> nat"
  assumes "\<And>x S. x \<in> set xs \<Longrightarrow> F x (insert x S) = Inr (h x, insert x S \<union> D x)"
  shows "foldM (\<lambda>x (n, S). bind_result (F x (insert x S)) (\<lambda>(l, S). Inr (max n (l + 1), S))) xs (n, S)
    = Inr (fold max (map (\<lambda>x. h x + 1) xs) n, S \<union> (\<Union>x \<in> set xs. insert x (D x)))"
  using assms
proof (induction xs arbitrary: n S)
  case (Cons x xs)
  have "F x (insert x S) = Inr (h x, insert x S \<union> D x)" by (simp add: Cons.prems)
  with Cons.IH [OF Cons.prems] show ?case by (simp add: Un_ac max.commute)
qed simp

lemma trancl_successors: "R\<^sup>+ `` {a} = (\<Union>x \<in> R `` {a}. insert x (R\<^sup>+ `` {x}))"
  by (auto intro: trancl_into_trancl2 elim: converse_tranclE)

text \<open>On a graph without long chains the traversal returns the height and all reachable nodes.\<close>

lemma FindAll_correct:
  assumes link: "\<And>a x. (a, x) \<in> R \<longleftrightarrow> (\<exists>e. c a = Some e \<and> x \<in> set (GetAddresses e))"
    and "no_path R fuel a"
  shows "\<exists>l. is_height R a l \<and> (\<forall>S. FindAll fuel GetAddresses c a S = Inr (l, S \<union> R\<^sup>+ `` {a}))"
  using assms(2)
proof (induction fuel arbitrary: a)
  case (Suc fuel)
  show ?case
  proof (cases "c a")
    case None
    then have "R `` {a} = {}" using link by auto
    then have "is_height R a 0" "R\<^sup>+ `` {a} = {}"
      using trancl_successors [of R a] by (auto simp: is_height_def no_path_def)
    with None show ?thesis by auto
  next
    case (Some e)
    have succ: "(a, x) \<in> R \<longleftrightarrow> x \<in> set (GetAddresses e)" for x using link Some by simp
    have "\<forall>x \<in> set (GetAddresses e). \<exists>l. is_height R x l
        \<and> (\<forall>S. FindAll fuel GetAddresses c x S = Inr (l, S \<union> R\<^sup>+ `` {x}))"
      using Suc succ by (simp add: no_path_Suc)
    then obtain h where h: "\<And>x. x \<in> set (GetAddresses e) \<Longrightarrow> is_height R x (h x)"
      "\<And>x S. x \<in> set (GetAddresses e) \<Longrightarrow> FindAll fuel GetAddresses c x S = Inr (h x, S \<union> R\<^sup>+ `` {x})"
      by metis
    have "R `` {a} = set (GetAddresses e)" using succ by auto
    then have "R\<^sup>+ `` {a} = (\<Union>x \<in> set (GetAddresses e). insert x (R\<^sup>+ `` {x}))"
      using trancl_successors [of R a] by simp
    then have "FindAll (Suc fuel) GetAddresses c a S
        = Inr (fold max (map (\<lambda>x. h x + 1) (GetAddresses e)) 0, S \<union> R\<^sup>+ `` {a})" for S
      using foldM_levels [of "GetAddresses e" "FindAll fuel GetAddresses c" h "\<lambda>x. R\<^sup>+ `` {x}" 0 S]
        h(2) Some by simp
    with is_height_successors [OF succ h(1)] show ?thesis by blast
  qed
qed simp

section \<open>The loop and level validator\<close>

definition edges :: "multisig_cache \<Rightarrow> (Address \<times> Address) set" where
  "edges c = {(a, b). \<exists>e. c a = Some e \<and> b \<in> set (cosignatoryAddresses e)}"

text \<open>Both ends of a link know each other.\<close>

definition symmetric :: "multisig_cache \<Rightarrow> bool" where
  "symmetric c \<longleftrightarrow> (\<forall>a b. (a, b) \<in> edges c \<longleftrightarrow> (\<exists>e. c b = Some e \<and> a \<in> set (multisigAddresses e)))"

text \<open>No chain of accounts, each a cosignatory of the one before, has more than \<open>n\<close> links.\<close>

definition depth_le :: "nat \<Rightarrow> (Address \<times> Address) set \<Rightarrow> bool" where
  "depth_le n R \<longleftrightarrow> R ^^ Suc n = {}"

lemma depth_le_no_path: "depth_le n R \<longleftrightarrow> (\<forall>a. no_path R (Suc n) a)"
  by (auto simp: depth_le_def no_path_def simp del: relpow.simps)

lemma relpow_converse: "(R\<inverse>) ^^ n = (R ^^ n)\<inverse>" for R :: "('a \<times> 'a) set"
proof (induction n)
  case (Suc n)
  then show ?case using relpow_commute [of "R\<inverse>" n] by (simp add: converse_relcomp)
qed simp

lemma depth_le_converse: "depth_le n (R\<inverse>) \<longleftrightarrow> depth_le n R"
proof -
  have "X\<inverse> = {} \<longleftrightarrow> X = {}" for X :: "(Address \<times> Address) set" by auto
  then show ?thesis unfolding depth_le_def relpow_converse .
qed

lemma depth_le_mono: "depth_le n R \<Longrightarrow> S \<subseteq> R \<Longrightarrow> depth_le n S"
proof -
  assume n: "depth_le n R" and sub: "S \<subseteq> R"
  have "S ^^ k \<subseteq> R ^^ k" for k using sub by (induction k) auto
  with n show ?thesis unfolding depth_le_def by blast
qed

text \<open>A closed walk can be repeated, so a bounded graph has none.\<close>

lemma relpow_repeat: "(a, a) \<in> R ^^ k \<Longrightarrow> (a, a) \<in> R ^^ (k * m)"
proof (induction m)
  case (Suc m)
  then have "(a, a) \<in> R ^^ k O R ^^ (k * m)" by auto
  then show ?case by (simp add: relpow_add [symmetric])
qed simp

lemma depth_le_acyclic: "depth_le n R \<Longrightarrow> acyclic R"
proof (rule acyclicI, intro allI notI)
  fix a assume n: "depth_le n R" and "(a, a) \<in> R\<^sup>+"
  then obtain k where "0 < k" "(a, a) \<in> R ^^ k" by (auto simp: trancl_power)
  then have "(a, a) \<in> R ^^ (k * Suc n)" "Suc n \<le> k * Suc n"
    by (simp_all only: relpow_repeat) (cases k; simp)
  with n show False using no_path_mono [of R "Suc n" a "k * Suc n"]
    by (auto simp: depth_le_no_path no_path_def simp del: relpow.simps)
qed

text \<open>
  Links from one account to new cosignatories, none of which leads back to it: a chain of the new
  graph passes a new link at most once.
\<close>

lemma new_links_path:
  assumes "\<And>x. x \<in> X \<Longrightarrow> (x, m) \<notin> R\<^sup>*" and "(a, b) \<in> (R \<union> {m} \<times> X) ^^ n"
  shows "(a, b) \<in> R ^^ n
    \<or> (\<exists>i j x. n = i + 1 + j \<and> (a, m) \<in> R ^^ i \<and> x \<in> X \<and> (x, b) \<in> R ^^ j)"
  using assms(2)
proof (induction n arbitrary: b)
  case (Suc n)
  then obtain y where y: "(a, y) \<in> (R \<union> {m} \<times> X) ^^ n" "(y, b) \<in> R \<or> y = m \<and> b \<in> X" by auto
  from Suc.IH [OF y(1)] show ?case
  proof (elim disjE exE conjE)
    assume "(a, y) \<in> R ^^ n"
    moreover have "(a, m) \<in> R ^^ n \<Longrightarrow> b \<in> X \<Longrightarrow> ?case"
      by (intro disjI2 exI [of _ n] exI [of _ 0] exI [of _ b]) simp
    ultimately show ?case using y(2) by auto
  next
    fix i j x assume p: "n = i + 1 + j" "(a, m) \<in> R ^^ i" "x \<in> X" "(x, y) \<in> R ^^ j"
    have "y \<noteq> m" using assms(1) [OF p(3)] p(4) by (auto dest: relpow_imp_rtrancl)
    with y(2) p have "(x, b) \<in> R ^^ Suc j" by auto
    with p show ?case by (intro disjI2 exI [of _ i] exI [of _ "Suc j"] exI [of _ x]) auto
  qed
qed simp

text \<open>
  Adding each link alone keeps the bound exactly when it closes no loop and the levels above and
  below fit; and links that are fine one by one are fine together.
\<close>

lemma new_link_depth:
  assumes "depth_le n R" and top: "is_height (R\<inverse>) m t" and bottom: "is_height R x b"
  shows "depth_le n (insert (m, x) R) \<longleftrightarrow> t + b + 1 \<le> n \<and> (x, m) \<notin> R\<^sup>*"
proof
  assume d: "depth_le n (insert (m, x) R)"
  let ?R = "insert (m, x) R"
  have mono: "R ^^ k \<subseteq> ?R ^^ k" for k by (induction k) auto
  obtain a where a: "(a, m) \<in> R ^^ t" using top by (auto simp: is_height_def relpow_converse)
  obtain y where y: "(x, y) \<in> R ^^ b" using bottom by (auto simp: is_height_def)
  have "(a, x) \<in> ?R ^^ Suc t" using a mono by (auto intro: relpow_Suc_I)
  with y mono have "(a, y) \<in> ?R ^^ (Suc t + b)" unfolding relpow_add by blast
  then have "Suc t + b \<le> n" using d no_path_mono [of ?R "Suc n" a "Suc t + b"]
    unfolding depth_le_no_path no_path_def by (metis not_less_eq_eq)
  moreover have "(x, m) \<notin> R\<^sup>*"
  proof
    assume "(x, m) \<in> R\<^sup>*"
    then have "(x, m) \<in> ?R\<^sup>*" by (metis insert_is_Un rtrancl_Un_subset sup.coboundedI2 in_mono Un_iff)
    then have "(x, x) \<in> ?R\<^sup>+" by (metis insertI1 rtrancl_into_trancl1)
    then show False using depth_le_acyclic [OF d] by (auto simp: acyclic_def)
  qed
  ultimately show "t + b + 1 \<le> n \<and> (x, m) \<notin> R\<^sup>*" by simp
next
  assume ok: "t + b + 1 \<le> n \<and> (x, m) \<notin> R\<^sup>*"
  have R: "insert (m, x) R = R \<union> {m} \<times> {x}" by auto
  show "depth_le n (insert (m, x) R)"
  proof (rule ccontr)
    assume "\<not> depth_le n (insert (m, x) R)"
    then obtain p q where "(p, q) \<in> (R \<union> {m} \<times> {x}) ^^ Suc n" unfolding depth_le_def R by auto
    from new_links_path [OF _ this] ok assms(1)
    obtain i j where "Suc n = i + 1 + j" "(p, m) \<in> R ^^ i" "(x, q) \<in> R ^^ j"
      unfolding depth_le_def by blast
    moreover have "i \<le> t" using is_height_bound [OF top, of p i] calculation(2) by (simp add: relpow_converse)
    moreover have "j \<le> b" using is_height_bound [OF bottom] calculation(3) by blast
    ultimately show False using ok by simp
  qed
qed

lemma new_links_depth:
  assumes "depth_le n R" and "\<And>x. x \<in> X \<Longrightarrow> depth_le n (insert (m, x) R)"
  shows "depth_le n (R \<union> {m} \<times> X)"
proof -
  have top: "no_path (R\<inverse>) (Suc n) m" and bottom: "no_path R (Suc n) x" for x
    using assms(1) depth_le_converse [of n R] by (simp_all add: depth_le_no_path)
  obtain t where t: "is_height (R\<inverse>) m t" using no_path_is_height [OF top] .
  have link: "b + t + 1 \<le> n \<and> (x, m) \<notin> R\<^sup>*" if "x \<in> X" "is_height R x b" for x b
    using new_link_depth [OF assms(1) t that(2)] assms(2) [OF that(1)] by simp
  have "(p, q) \<notin> (R \<union> {m} \<times> X) ^^ Suc n" for p q
  proof
    have noloop: "(x, m) \<notin> R\<^sup>*" if "x \<in> X" for x
      using link [OF that] no_path_is_height [OF bottom [of x]] by blast
    assume "(p, q) \<in> (R \<union> {m} \<times> X) ^^ Suc n"
    from new_links_path [OF noloop this] assms(1)
    obtain i j x where p: "Suc n = i + 1 + j" "(p, m) \<in> R ^^ i" "x \<in> X" "(x, q) \<in> R ^^ j"
      unfolding depth_le_def by blast
    obtain b where b: "is_height R x b" using no_path_is_height [OF bottom [of x]] .
    have "i \<le> t" using is_height_bound [OF t, of p i] p(2) by (simp add: relpow_converse)
    moreover have "j \<le> b" using is_height_bound [OF b p(4)] .
    ultimately show False using link [OF p(3) b] p(1) by simp
  qed
  then show ?thesis unfolding depth_le_def by auto
qed

lemma ancestors_meet_descendants:
  "insert m ((R\<inverse>)\<^sup>+ `` {m}) \<inter> insert x (R\<^sup>+ `` {x}) \<noteq> {} \<longleftrightarrow> (x, m) \<in> R\<^sup>*"
proof -
  have anc: "insert m ((R\<inverse>)\<^sup>+ `` {m}) = {y. (y, m) \<in> R\<^sup>*}"
    by (auto simp: trancl_converse rtrancl_eq_or_trancl)
  have desc: "insert x (R\<^sup>+ `` {x}) = {y. (x, y) \<in> R\<^sup>*}"
    by (auto simp: rtrancl_eq_or_trancl)
  show ?thesis unfolding anc desc by (auto intro: rtrancl_trans)
qed

lemma FindDescendants_correct:
  assumes "no_path (edges c) fuel a"
  shows "\<exists>l. is_height (edges c) a l
    \<and> (\<forall>S. FindDescendants fuel c a S = Inr (l, S \<union> (edges c)\<^sup>+ `` {a}))"
  unfolding FindDescendants_def using assms by (intro FindAll_correct) (auto simp: edges_def)

lemma FindAncestors_correct:
  assumes "symmetric c" and "no_path ((edges c)\<inverse>) fuel a"
  shows "\<exists>l. is_height ((edges c)\<inverse>) a l
    \<and> (\<forall>S. FindAncestors fuel c a S = Inr (l, S \<union> ((edges c)\<inverse>)\<^sup>+ `` {a}))"
  unfolding FindAncestors_def using assms by (intro FindAll_correct) (auto simp: symmetric_def)

lemma depth_le_fuel: "depth_le n R \<Longrightarrow> n < fuel \<Longrightarrow> no_path R fuel a"
  using no_path_mono [of R "Suc n" a fuel] by (simp add: depth_le_no_path Suc_le_eq)

lemma loop_and_level:
  assumes "symmetric c" and "depth_le (unat maxDepth) (edges c)" and "unat maxDepth < fuel"
  shows "\<exists>r. LoopAndLevelChecker_validate fuel maxDepth c m x = Inr r
    \<and> (r = Success \<longleftrightarrow> depth_le (unat maxDepth) (insert (m, x) (edges c)))
    \<and> (r = Success \<longrightarrow> acyclic (insert (m, x) (edges c)))"
proof -
  have "no_path ((edges c)\<inverse>) fuel m" "no_path (edges c) fuel x"
    using assms(2,3) depth_le_converse [of "unat maxDepth" "edges c"] by (auto intro: depth_le_fuel)
  then obtain t b where t: "is_height ((edges c)\<inverse>) m t"
      "\<And>S. FindAncestors fuel c m S = Inr (t, S \<union> ((edges c)\<inverse>)\<^sup>+ `` {m})"
    and b: "is_height (edges c) x b"
      "\<And>S. FindDescendants fuel c x S = Inr (b, S \<union> (edges c)\<^sup>+ `` {x})"
    using FindAncestors_correct [OF assms(1)] FindDescendants_correct by blast
  note depth = new_link_depth [OF assms(2) t(1) b(1)]
  have "LoopAndLevelChecker_validate fuel maxDepth c m x = Inr
      (if t + b + 1 > unat maxDepth then Failure Failure_Multisig_Max_Multisig_Depth
       else if (x, m) \<in> (edges c)\<^sup>* then Failure Failure_Multisig_Loop else Success)"
    using ancestors_meet_descendants [of m "edges c" x]
    by (simp add: LoopAndLevelChecker_validate_def t(2) b(2))
  then show ?thesis using depth depth_le_acyclic by auto
qed

section \<open>Approval\<close>

definition cosignatories_of :: "multisig_cache \<Rightarrow> Address \<Rightarrow> Address oset" where
  "cosignatories_of c a = (case c a of None \<Rightarrow> [] | Some e \<Rightarrow> cosignatoryAddresses e)"

text \<open>
  What it means that an operation of an account is approved by a set of signers: an account without
  cosignatories has signed itself, a multisig account has enough cosignatories that approve. An operation that
  needs the approval of the cosignatories, one that removes some of them, or one that does both, has to reach the stored threshold for each of the two that
  applies.
\<close>

definition required_approvals :: "multisig_cache \<Rightarrow> bool \<Rightarrow> bool \<Rightarrow> Address \<Rightarrow> nat" where
  "required_approvals c approving removing a =
     (case c a of None \<Rightarrow> 0
      | Some e \<Rightarrow> max (if approving then unat (minApproval e) else 0) (if removing then unat (minRemoval e) else 0))"

inductive approved :: "multisig_cache \<Rightarrow> Address set \<Rightarrow> bool \<Rightarrow> bool \<Rightarrow> Address \<Rightarrow> bool"
  for c S approving removing where
  own: "cosignatories_of c a = [] \<Longrightarrow> a \<in> S \<Longrightarrow> approved c S approving removing a"
| by_cosignatories:
    "cosignatories_of c a \<noteq> [] \<Longrightarrow> A \<subseteq> set (cosignatories_of c a)
      \<Longrightarrow> (\<And>x. x \<in> A \<Longrightarrow> approved c S approving removing x) \<Longrightarrow> required_approvals c approving removing a \<le> card A
      \<Longrightarrow> approved c S approving removing a"

text \<open>A modification that deletes cosignatories is a removal; it is nothing else unless it also adds some.\<close>

definition removes_cosignatories :: "EmbeddedTransaction \<Rightarrow> bool" where
  "removes_cosignatories tx \<longleftrightarrow> et_Type tx = 0x4155 \<and> 0 < et_AddressDeletionsCount tx"

definition needs_approval :: "EmbeddedTransaction \<Rightarrow> bool" where
  "needs_approval tx \<longleftrightarrow> \<not> removes_cosignatories tx \<or> 0 < et_AddressAdditionsCount tx"

inductive_cases approvedE: "approved c S approving removing a"

lemma edges_iff: "(a, b) \<in> edges c \<longleftrightarrow> b \<in> set (cosignatories_of c a)"
  by (cases "c a") (auto simp: edges_def cosignatories_of_def)

lemma approved_leaf: "cosignatories_of c a = [] \<Longrightarrow> approved c S approving removing a \<longleftrightarrow> a \<in> S"
  by (auto intro: own elim: approvedE)

lemma approved_node:
  assumes "cosignatories_of c a \<noteq> []"
  shows "approved c S approving removing a \<longleftrightarrow>
    required_approvals c approving removing a \<le> card {x \<in> set (cosignatories_of c a). approved c S approving removing x}"
proof
  let ?A = "{x \<in> set (cosignatories_of c a). approved c S approving removing x}"
  show "required_approvals c approving removing a \<le> card ?A" if "approved c S approving removing a"
    using that
  proof cases
    case own
    then show ?thesis using assms by simp
  next
    case (by_cosignatories A)
    then have "A \<subseteq> ?A" by auto
    then have "card A \<le> card ?A" by (intro card_mono) auto
    with by_cosignatories show ?thesis by simp
  qed
  show "approved c S approving removing a" if "required_approvals c approving removing a \<le> card ?A"
    using that by (intro by_cosignatories [OF assms, of ?A]) auto
qed

lemma foldM_count:
  fixes n :: nat
  assumes "\<And>x. x \<in> set xs \<Longrightarrow> F x = Inr (P x)"
  shows "foldM (\<lambda>x n. bind_result (F x) (\<lambda>b. Inr (n + (if b then 1 else 0)))) xs n
    = Inr (n + length (filter P xs))"
  using assms by (induction xs arbitrary: n) auto

lemma min_required:
  "unat (GetMinRequiredCosignatories e op) = max (if op \<noteq> Operation_Removal then unat (minApproval e) else 0) (if op \<noteq> Operation_Normal then unat (minRemoval e) else 0)"
  by (cases op) (simp_all add: GetMinRequiredCosignatories_def max_def word_le_nat_alt)

lemma operation_of_transaction:
  "GetOperationType tx \<noteq> Operation_Removal \<longleftrightarrow> needs_approval tx" "GetOperationType tx \<noteq> Operation_Normal \<longleftrightarrow> removes_cosignatories tx"
  by (auto simp: GetOperationType_def needs_approval_def removes_cosignatories_def Entity_Type_Multisig_Account_Modification_def Let_def word_gt_0)

definition entries_distinct :: "multisig_cache \<Rightarrow> bool" where
  "entries_distinct c \<longleftrightarrow> (\<forall>a. distinct (cosignatories_of c a))"

lemma isSatisfied_correct:
  assumes "entries_distinct c" and "no_path (edges c) fuel a"
  shows "isSatisfied fuel c S op a = Inr (approved c S (op \<noteq> Operation_Removal) (op \<noteq> Operation_Normal) a)"
  using assms(2)
proof (induction fuel arbitrary: a)
  case (Suc fuel)
  show ?case
  proof (cases "cosignatories_of c a = []")
    case True
    then show ?thesis
      by (auto simp: approved_leaf cosignatories_of_def split: option.splits)
  next
    case False
    then obtain e where e: "c a = Some e" "cosignatories_of c a = cosignatoryAddresses e"
      by (auto simp: cosignatories_of_def split: option.splits)
    have "isSatisfied fuel c S op x = Inr (approved c S (op \<noteq> Operation_Removal) (op \<noteq> Operation_Normal) x)" if "x \<in> set (cosignatoryAddresses e)" for x
      using Suc that e by (simp add: no_path_Suc edges_iff)
    note count = foldM_count [of "cosignatoryAddresses e" "isSatisfied fuel c S op", OF this]
    have "distinct (cosignatoryAddresses e)" using assms(1) e by (metis entries_distinct_def)
    then have "length (filter (approved c S (op \<noteq> Operation_Removal) (op \<noteq> Operation_Normal)) (cosignatoryAddresses e))
        = card {x \<in> set (cosignatoryAddresses e). approved c S (op \<noteq> Operation_Removal) (op \<noteq> Operation_Normal) x}"
      by (metis distinct_card distinct_filter set_filter)
    with count e False show ?thesis
      by (simp add: approved_node required_approvals_def min_required)
  qed
qed simp

text \<open>With positive thresholds every approval rests on a signature.\<close>

lemma approved_signature:
  assumes "approved c S approving removing a"
    and "\<And>b. cosignatories_of c b \<noteq> [] \<Longrightarrow> 0 < required_approvals c approving removing b"
  shows "\<exists>b \<in> S. (a, b) \<in> (edges c)\<^sup>* \<and> cosignatories_of c b = []"
  using assms(1)
proof induction
  case (by_cosignatories a A)
  then have "0 < card A" using assms(2) by (metis less_le_trans)
  then obtain x where "x \<in> A" by (metis card_gt_0_iff ex_in_conv)
  with by_cosignatories show ?case
    by (meson converse_rtrancl_into_rtrancl edges_iff subsetD)
qed auto

section \<open>Eligible cosignatories\<close>

text \<open>The accounts below \<open>a\<close> that sign for themselves.\<close>

definition leaves :: "multisig_cache \<Rightarrow> Address \<Rightarrow> Address set" where
  "leaves c a = {b. (a, b) \<in> (edges c)\<^sup>* \<and> cosignatories_of c b = []}"

lemma leaves_leaf: "cosignatories_of c a = [] \<Longrightarrow> leaves c a = {a}"
  by (auto simp: leaves_def edges_iff elim: converse_rtranclE)

lemma leaves_node:
  "cosignatories_of c a \<noteq> [] \<Longrightarrow> leaves c a = (\<Union>x \<in> set (cosignatories_of c a). leaves c x)"
proof (rule set_eqI)
  fix b assume a: "cosignatories_of c a \<noteq> []"
  have "(a, b) \<in> (edges c)\<^sup>* \<longleftrightarrow> a = b \<or> (\<exists>x. (a, x) \<in> edges c \<and> (x, b) \<in> (edges c)\<^sup>*)"
    using converse_rtranclE [of a b "edges c"] converse_rtrancl_into_rtrancl [of a _ "edges c" b] by blast
  with a show "b \<in> leaves c a \<longleftrightarrow> b \<in> (\<Union>x \<in> set (cosignatories_of c a). leaves c x)"
    by (auto simp: leaves_def edges_iff)
qed

text \<open>The checker's table after the addresses \<open>L\<close> were marked.\<close>

definition marked :: "Address set \<Rightarrow> (Address, bool) omap \<Rightarrow> (Address, bool) omap" where
  "marked L m = map (\<lambda>(k, v). (k, v \<or> k \<in> L)) m"

lemma keys_marked [simp]: "keys (marked L m) = keys m"
  by (induction m) (auto simp: marked_def)

lemma omap_ok_marked [simp]: "omap_ok (marked L m) \<longleftrightarrow> omap_ok m"
  by (simp add: omap_ok_def)

lemma marked_marked [simp]: "marked L' (marked L m) = marked (L \<union> L') m"
  by (auto simp: marked_def)

lemma map_of_marked: "map_of (marked L m) k = map_option (\<lambda>v. v \<or> k \<in> L) (map_of m k)"
  by (induction m) (auto simp: marked_def)

lemma markEligible_marked: "omap_ok m \<Longrightarrow> markEligible a m = marked {a} m"
proof (rule omap_ext)
  assume ok: "omap_ok m"
  show "map_of (markEligible a m) = map_of (marked {a} m)"
    by (rule ext) (auto simp: markEligible_def map_of_marked map_of_omap_put option.map_ident)
qed (auto simp: markEligible_def omap_ok_put)

lemma foldM_marked:
  assumes "\<And>x m. x \<in> set xs \<Longrightarrow> omap_ok m \<Longrightarrow> F x m = Inr (marked (L x) m)" and "omap_ok m"
  shows "foldM F xs m = Inr (marked (\<Union>x \<in> set xs. L x) m)"
  using assms
proof (induction xs arbitrary: m)
  case (Cons x xs)
  have "F x m = Inr (marked (L x) m)" using Cons.prems by simp
  with Cons.IH [of "marked (L x) m"] Cons.prems show ?case by simp
qed (simp add: marked_def)

lemma findEligible_correct:
  assumes "no_path (edges c) fuel a" and "omap_ok m"
  shows "findEligibleCosignatories fuel c a m = Inr (marked (leaves c a) m)"
  using assms
proof (induction fuel arbitrary: a m)
  case (Suc fuel)
  show ?case
  proof (cases "cosignatories_of c a = []")
    case True
    with Suc.prems show ?thesis
      by (auto simp: leaves_leaf markEligible_marked cosignatories_of_def split: option.splits)
  next
    case False
    then obtain e where e: "c a = Some e" "cosignatories_of c a = cosignatoryAddresses e"
      by (auto simp: cosignatories_of_def split: option.splits)
    have "findEligibleCosignatories fuel c x m' = Inr (marked (leaves c x) m')"
      if "x \<in> set (cosignatoryAddresses e)" "omap_ok m'" for x m'
      using Suc that e by (simp add: no_path_Suc edges_iff)
    from foldM_marked [of _ "findEligibleCosignatories fuel c", OF this Suc.prems(2)] e False
    show ?thesis by (simp add: leaves_node)
  qed
qed simp

text \<open>The table the checker starts with, and its verdict.\<close>

lemma cosigner_table:
  "omap_ok (foldl (\<lambda>m key. omap_insert (f key) False m) m ks) \<and>
   map_of (foldl (\<lambda>m key. omap_insert (f key) False m) m ks) =
     (\<lambda>k. if map_of m k \<noteq> None then map_of m k else if k \<in> f ` set ks then Some False else None)"
  if "omap_ok m" for m :: "(Address, bool) omap"
  using that
proof (induction ks arbitrary: m)
  case (Cons x ks)
  have "omap_ok (omap_insert (f x) False m)" using Cons.prems by (rule omap_ok_insert)
  from Cons.IH [OF this] show ?case
    by (auto simp: fun_eq_iff map_of_omap_insert [OF Cons.prems] split: option.splits)
qed auto

lemma list_ex_marked:
  assumes "omap_ok m" and "\<And>k v. map_of m k = Some v \<Longrightarrow> \<not> v"
  shows "list_ex (\<lambda>kv. \<not> snd kv) (marked L m) \<longleftrightarrow> \<not> dom (map_of m) \<subseteq> L"
proof -
  have "(k, v) \<in> set m \<longleftrightarrow> map_of m k = Some v" for k v
    using omap_ok_distinct [OF assms(1)] by simp
  then have "list_ex (\<lambda>kv. \<not> snd kv) (marked L m) \<longleftrightarrow> (\<exists>k v. map_of m k = Some v \<and> \<not> (v \<or> k \<in> L))"
    by (force simp: list_ex_iff marked_def)
  also have "\<dots> \<longleftrightarrow> \<not> dom (map_of m) \<subseteq> L" using assms(2) by auto
  finally show ?thesis .
qed

lemma foldM_foldM_marked:
  assumes "\<And>x m. omap_ok m \<Longrightarrow> F x m = Inr (marked (L x) m)" and "omap_ok m"
  shows "foldM (\<lambda>(t, r). foldM F (f t # map g r)) ts m
    = Inr (marked (\<Union>(t, r) \<in> set ts. L (f t) \<union> (\<Union>x \<in> set r. L (g x))) m)"
proof -
  define M where "M = (\<lambda>(t, r). L (f t) \<union> (\<Union>x \<in> set r. L (g x)))"
  have "(\<lambda>(t, r). foldM F (f t # map g r)) p m = Inr (marked (M p) m)" if "omap_ok m" for p m
    using that assms(1) foldM_marked [of "f (fst p) # map g (snd p)" F L m]
    by (simp add: M_def case_prod_unfold del: foldM.simps)
  from foldM_marked [of ts "\<lambda>(t, r). foldM F (f t # map g r)", OF this assms(2)] show ?thesis
    by (simp only: M_def)
qed

section \<open>Properties\<close>

lemma depth_le_weaken: "depth_le n R \<Longrightarrow> n \<le> m \<Longrightarrow> depth_le m R"
  unfolding depth_le_no_path using no_path_mono [of R "Suc n" _ "Suc m"] by (metis Suc_le_mono)

text \<open>
  A sample graph: the account 1 has the cosignatories 2 and 3, and 2 has the cosignatory 4. Both
  multisig accounts need all of their cosignatories.
\<close>

definition sample_entry :: "Address \<Rightarrow> Address oset \<Rightarrow> Address oset \<Rightarrow> MultisigEntry" where
  "sample_entry a cosignatories multisigs =
     \<lparr>me_address = a, cosignatoryAddresses = cosignatories, minApproval = of_nat (length cosignatories),
      minRemoval = of_nat (length cosignatories), multisigAddresses = multisigs\<rparr>"

definition sample_cache :: multisig_cache where
  "sample_cache = map_of
     [([1], sample_entry [1] [[2], [3]] []), ([2], sample_entry [2] [[4]] [[1]]),
      ([3], sample_entry [3] [] [[1]]), ([4], sample_entry [4] [] [[2]])]"

lemma sample_edges: "edges sample_cache = {([1], [2]), ([1], [3]), ([2], [4])}"
  by (auto simp: edges_def sample_cache_def sample_entry_def split: if_splits)

lemma sample_symmetric: "symmetric sample_cache"
  unfolding symmetric_def sample_edges
  by (auto simp: sample_cache_def sample_entry_def split: if_splits)

lemma sample_depth: "depth_le 2 (edges sample_cache)"
  unfolding sample_edges depth_le_def numeral_2_eq_2 by auto

lemma sample_distinct: "entries_distinct sample_cache"
  by (auto simp: entries_distinct_def cosignatories_of_def sample_cache_def sample_entry_def)

text \<open>
  C18 The loop and level validator ends on every graph whose chains of cosignatories respect the
  maximum depth, and it accepts a new cosignatory exactly when the graph with the new link respects
  the maximum depth as well; in particular such a graph has no loop.
\<close>

theorem loop_and_level_correct:
  assumes "symmetric c" and "depth_le (unat maxDepth) (edges c)" and "unat maxDepth < fuel"
  shows "\<exists>r. LoopAndLevelChecker_validate fuel maxDepth c m x = Inr r
    \<and> (r = Success \<longleftrightarrow> depth_le (unat maxDepth) (insert (m, x) (edges c)))
    \<and> (r = Success \<longrightarrow> acyclic (insert (m, x) (edges c)))"
  by (rule loop_and_level [OF assms])

theorem loop_and_level_correct_witness:
  "LoopAndLevelChecker_validate 4 3 sample_cache [4] [1] = Inr (Failure Failure_Multisig_Max_Multisig_Depth)
   \<and> \<not> depth_le 3 (insert ([4], [1]) (edges sample_cache))
   \<and> LoopAndLevelChecker_validate 4 3 sample_cache [4] [5] = Inr Success
   \<and> depth_le 3 (insert ([4], [5]) (edges sample_cache))"
proof -
  have d: "depth_le 3 (edges sample_cache)"
    using sample_depth by (rule depth_le_weaken) simp
  have r: "LoopAndLevelChecker_validate 4 3 sample_cache [4] [1] = Inr (Failure Failure_Multisig_Max_Multisig_Depth)"
    "LoopAndLevelChecker_validate 4 3 sample_cache [4] [5] = Inr Success"
    by code_simp+
  show ?thesis
    using loop_and_level_correct [OF sample_symmetric, of 3 4 "[4]" "[1]"]
      loop_and_level_correct [OF sample_symmetric, of 3 4 "[4]" "[5]"] d r by auto
qed

lemma sufficient_cosignatories_aux:
  assumes "entries_distinct c" and "depth_le n (edges c)" and "n < fuel"
  shows "MultisigAggregateSufficientCosignatories fuel resolve toAddress tx required signer cosignatures c
    = Inr (if \<forall>a \<in> insert (toAddress (et_SignerPublicKey tx)) (resolve ` set required).
              approved c (toAddress ` insert signer (set cosignatures)) (needs_approval tx) (removes_cosignatories tx) a
           then Success else Failure Failure_Aggregate_Missing_Cosignatures)"
proof -
  have "all_satisfied fuel c S op as = Inr (\<forall>a \<in> set as. approved c S (op \<noteq> Operation_Removal) (op \<noteq> Operation_Normal) a)" for S op as
    using isSatisfied_correct [OF assms(1) depth_le_fuel [OF assms(2,3)]] by (induction as) auto
  then show ?thesis by (simp add: MultisigAggregateSufficientCosignatories_def operation_of_transaction Let_def)
qed

text \<open>
  C17. An aggregate has sufficient cosignatures exactly when every account its embedded transaction
  needs approves it: an account without cosignatories is among the signers; a multisig account has at least as many approving cosignatories as its stored
  threshold for approvals, or, for a modification that deletes cosignatories, as its stored threshold for removals, or as both for one that also adds some. On every graph that
  respects a depth below the fuel the checker ends with that answer.
\<close>

theorem sufficient_cosignatories_correct:
  assumes "entries_distinct c" and "depth_le n (edges c)" and "n < fuel"
  shows "MultisigAggregateSufficientCosignatories fuel resolve toAddress tx required signer cosignatures c
    = Inr (if \<forall>a \<in> insert (toAddress (et_SignerPublicKey tx)) (resolve ` set required).
              approved c (toAddress ` insert signer (set cosignatures)) (needs_approval tx) (removes_cosignatories tx) a
           then Success else Failure Failure_Aggregate_Missing_Cosignatures)"
  by (rule sufficient_cosignatories_aux [OF assms])

definition sample_embedded :: EmbeddedTransaction where
  "sample_embedded = \<lparr>et_SignerPublicKey = [1], et_Type = 0x4155, et_AddressAdditionsCount = 0, et_AddressDeletionsCount = 1\<rparr>"

theorem sufficient_cosignatories_correct_witness:
  "approved sample_cache {[4], [3]} False True [1] \<and> \<not> approved sample_cache {[2]} False True [1]"
proof -
  have tx: "\<not> needs_approval sample_embedded" "removes_cosignatories sample_embedded" "et_SignerPublicKey sample_embedded = [1]"
    by (simp_all add: sample_embedded_def needs_approval_def removes_cosignatories_def)
  have "MultisigAggregateSufficientCosignatories 3 id id sample_embedded [] [4] [[3]] sample_cache = Inr Success"
    "MultisigAggregateSufficientCosignatories 3 id id sample_embedded [] [2] [] sample_cache
      = Inr (Failure Failure_Aggregate_Missing_Cosignatures)"
    by code_simp+
  with sufficient_cosignatories_correct [OF sample_distinct sample_depth, of 3 id id sample_embedded "[]"]
  show ?thesis by (simp add: tx split: if_splits)
qed

text \<open>
  C16. No signature, no approval: when the stored thresholds of all multisig accounts, for approvals and for removals, are positive, an aggregate
  only ever has sufficient cosignatures if for every account that its embedded transaction needs some account below it that signs for itself is
  among the signers.
\<close>

theorem approval_needs_signature:
  assumes "entries_distinct c" and "depth_le n (edges c)" and "n < fuel"
    and "\<forall>b e. c b = Some e \<and> cosignatoryAddresses e \<noteq> [] \<longrightarrow> 0 < minApproval e \<and> 0 < minRemoval e"
    and "MultisigAggregateSufficientCosignatories fuel resolve toAddress tx required signer cosignatures c = Inr Success"
    and "a \<in> insert (toAddress (et_SignerPublicKey tx)) (resolve ` set required)"
  shows "\<exists>b \<in> toAddress ` insert signer (set cosignatures). b \<in> leaves c a"
proof -
  have positive: "0 < required_approvals c (needs_approval tx) (removes_cosignatories tx) b" if "cosignatories_of c b \<noteq> []" for b
    using that assms(4)
    by (auto simp: required_approvals_def cosignatories_of_def needs_approval_def less_max_iff_disj unat_gt_0 word_gt_0 split: option.splits)
  have "approved c (toAddress ` insert signer (set cosignatures)) (needs_approval tx) (removes_cosignatories tx) a"
    using assms(5,6) unfolding sufficient_cosignatories_aux [OF assms(1-3)] by (simp only: sum.inject ValidationResult.distinct split: if_splits)
  from approved_signature [OF this positive] show ?thesis by (simp add: leaves_def)
qed

theorem approval_needs_signature_witness:
  "\<exists>b \<in> {[4], [3]}. b \<in> leaves sample_cache [1]"
proof -
  have "MultisigAggregateSufficientCosignatories 3 id id sample_embedded [] [4] [[3]] sample_cache = Inr Success" by code_simp
  moreover have "\<forall>b e. sample_cache b = Some e \<and> cosignatoryAddresses e \<noteq> [] \<longrightarrow> 0 < minApproval e \<and> 0 < minRemoval e"
    by (auto simp: sample_cache_def sample_entry_def split: if_splits)
  ultimately show ?thesis
    using approval_needs_signature [OF sample_distinct sample_depth, of 3 id id sample_embedded "[]" "[4]" "[[3]]" "[1]"]
    by (simp add: sample_embedded_def)
qed

text \<open>
  C19 The eligibility check accepts an aggregate exactly when every signer is an account that signs
  for itself and lies below some account the embedded transactions need.
\<close>

theorem eligible_cosignatories_correct:
  assumes "depth_le n (edges c)" and "n < fuel"
  shows "MultisigAggregateEligibleCosignatories fuel resolve toAddress txs signer cosignatures c
    = Inr (if toAddress ` insert signer (set cosignatures)
              \<subseteq> (\<Union>(t, r) \<in> set txs. leaves c (toAddress (et_SignerPublicKey t)) \<union> (\<Union>x \<in> set r. leaves c (resolve x)))
           then Success else Failure Failure_Aggregate_Ineligible_Cosignatories)"
proof -
  define m where "m = foldl (\<lambda>m key. omap_insert (toAddress key) False m) [] (signer # cosignatures)"
  have m: "omap_ok m" "map_of m = (\<lambda>k. if k \<in> toAddress ` set (signer # cosignatures) then Some False else None)"
    using cosigner_table [of "[]" toAddress "signer # cosignatures"] by (auto simp: m_def)
  have dom: "dom (map_of m) = toAddress ` insert signer (set cosignatures)"
    unfolding m(2) by (auto split: if_splits)
  have "findEligibleCosignatories fuel c a m = Inr (marked (leaves c a) m)" if "omap_ok m" for a m
    using findEligible_correct [OF depth_le_fuel [OF assms] that] .
  then have run: "foldM (\<lambda>(transaction, additionalRequired).
        foldM (findEligibleCosignatories fuel c)
          (toAddress (et_SignerPublicKey transaction) # map resolve additionalRequired)) txs m
      = Inr (marked (\<Union>(t, r) \<in> set txs.
          leaves c (toAddress (et_SignerPublicKey t)) \<union> (\<Union>x \<in> set r. leaves c (resolve x))) m)"
    using m(1) by (rule foldM_foldM_marked)
  have "list_ex (\<lambda>kv. \<not> snd kv) (marked L m) \<longleftrightarrow> \<not> toAddress ` insert signer (set cosignatures) \<subseteq> L" for L
    by (subst list_ex_marked [OF m(1)]) (simp_all add: dom, simp add: m(2) split: if_splits)
  then show ?thesis
    unfolding MultisigAggregateEligibleCosignatories_def Let_def m_def [symmetric] run bind_result.simps
    by simp
qed

theorem eligible_cosignatories_correct_witness:
  "leaves sample_cache [1] \<supseteq> {[3], [4]} \<and> [2] \<notin> leaves sample_cache [1]"
proof -
  define tx where "tx = \<lparr>et_SignerPublicKey = [1], et_Type = 0x4154, et_AddressAdditionsCount = 0,
    et_AddressDeletionsCount = 0\<rparr>"
  have signer: "et_SignerPublicKey tx = [1]" by (simp add: tx_def)
  have "MultisigAggregateEligibleCosignatories 3 id id [(tx, [])] [3] [[4]] sample_cache = Inr Success"
    "MultisigAggregateEligibleCosignatories 3 id id [(tx, [])] [2] [] sample_cache
      = Inr (Failure Failure_Aggregate_Ineligible_Cosignatories)"
    unfolding tx_def by code_simp+
  with eligible_cosignatories_correct [OF sample_depth, of 3 id id "[(tx, [])]"]
  show ?thesis by (simp add: signer split: if_splits)
qed

end
