(* ===== verification/Multisig_Invariant.thy ===== *)
theory Multisig_Invariant
  imports Multisig_Graph
begin

text \<open>
  What modification transactions do to the multisig cache (\<open>Multisig\<close>): they keep its invariant,
  and undoing an accepted one restores the cache. The cases in which the code does not undo what it
  did are shown as theorems of their own.

  A cache is described by the cosignatories, the multisig accounts and the thresholds of every
  address and by its domain; under the invariant this determines it (\<open>cache_ext\<close>).
\<close>

section \<open>Abstraction and invariant\<close>

definition multisigs_of :: "multisig_cache \<Rightarrow> Address \<Rightarrow> Address oset" where
  "multisigs_of c a = (case c a of None \<Rightarrow> [] | Some e \<Rightarrow> multisigAddresses e)"

definition thresholds_of :: "multisig_cache \<Rightarrow> Address \<Rightarrow> u32 \<times> u32" where
  "thresholds_of c a = (case c a of None \<Rightarrow> (0, 0) | Some e \<Rightarrow> (minApproval e, minRemoval e))"

text \<open>
  The invariant while the observer works on \<open>m\<close>: links are mutual, no account is its own
  cosignatory, and every entry but that of \<open>m\<close> has a link, and thresholds only with cosignatories.
\<close>

definition links_ok :: "Address \<Rightarrow> multisig_cache \<Rightarrow> bool" where
  "links_ok m c \<longleftrightarrow>
     (\<forall>a e. c a = Some e \<longrightarrow> me_address e = a)
     \<and> (\<forall>a. oset_ok (cosignatories_of c a) \<and> oset_ok (multisigs_of c a))
     \<and> (\<forall>a b. b \<in> set (cosignatories_of c a) \<longleftrightarrow> a \<in> set (multisigs_of c b))
     \<and> (\<forall>a. a \<notin> set (cosignatories_of c a))
     \<and> (\<forall>a. a \<noteq> m \<longrightarrow> (a \<in> dom c \<longleftrightarrow> cosignatories_of c a \<noteq> [] \<or> multisigs_of c a \<noteq> []))
     \<and> (\<forall>a. a \<noteq> m \<longrightarrow> cosignatories_of c a = [] \<longrightarrow> thresholds_of c a = (0, 0))"

definition in_range :: "u32 \<Rightarrow> nat \<Rightarrow> bool" where
  "in_range v n \<longleftrightarrow> 1 \<le> unat v \<and> unat v \<le> n \<and> n < 2 ^ 32"

definition thresholds_ok :: "multisig_cache \<Rightarrow> Address \<Rightarrow> bool" where
  "thresholds_ok c a \<longleftrightarrow>
     (if cosignatories_of c a = [] then thresholds_of c a = (0, 0)
      else in_range (fst (thresholds_of c a)) (length (cosignatories_of c a))
           \<and> in_range (snd (thresholds_of c a)) (length (cosignatories_of c a)))"

definition multisig_ok :: "multisig_cache \<Rightarrow> bool" where
  "multisig_ok c \<longleftrightarrow> (\<forall>m. links_ok m c) \<and> (\<forall>a. thresholds_ok c a)"

lemma links_okI:
  assumes "\<And>a e. c a = Some e \<Longrightarrow> me_address e = a"
    and "\<And>a. oset_ok (cosignatories_of c a)" and "\<And>a. oset_ok (multisigs_of c a)"
    and "\<And>a b. b \<in> set (cosignatories_of c a) \<longleftrightarrow> a \<in> set (multisigs_of c b)"
    and "\<And>a. a \<notin> set (cosignatories_of c a)"
    and "\<And>a. a \<noteq> m \<Longrightarrow> a \<in> dom c \<longleftrightarrow> cosignatories_of c a \<noteq> [] \<or> multisigs_of c a \<noteq> []"
    and "\<And>a. a \<noteq> m \<Longrightarrow> cosignatories_of c a = [] \<Longrightarrow> thresholds_of c a = (0, 0)"
  shows "links_ok m c"
  unfolding links_ok_def by (intro conjI allI impI assms)

lemma links_okD:
  assumes "links_ok m c"
  shows "c a = Some e \<Longrightarrow> me_address e = a"
    and "oset_ok (cosignatories_of c a)" and "oset_ok (multisigs_of c a)"
    and "b \<in> set (cosignatories_of c a) \<longleftrightarrow> a \<in> set (multisigs_of c b)"
    and "a \<notin> set (cosignatories_of c a)"
    and "a \<noteq> m \<Longrightarrow> a \<in> dom c \<longleftrightarrow> cosignatories_of c a \<noteq> [] \<or> multisigs_of c a \<noteq> []"
    and "a \<noteq> m \<Longrightarrow> cosignatories_of c a = [] \<Longrightarrow> thresholds_of c a = (0, 0)"
  using assms by (simp_all only: links_ok_def) blast+

lemma multisigs_of_iff: "a \<in> set (multisigs_of c b) \<longleftrightarrow> (\<exists>e. c b = Some e \<and> a \<in> set (multisigAddresses e))"
  by (cases "c b") (auto simp: multisigs_of_def)

lemma links_ok_symmetric: "links_ok m c \<Longrightarrow> symmetric c"
  by (simp add: symmetric_def edges_iff links_okD(4) multisigs_of_iff [symmetric])

lemma links_ok_distinct: "links_ok m c \<Longrightarrow> entries_distinct c"
  by (simp add: entries_distinct_def links_okD oset_ok_distinct)

lemma of_absent:
  "c a = None \<Longrightarrow> cosignatories_of c a = [] \<and> multisigs_of c a = [] \<and> thresholds_of c a = (0, 0)"
  by (simp add: cosignatories_of_def multisigs_of_def thresholds_of_def)

text \<open>Another address has an entry exactly when it has links, so the whole invariant is local to \<open>m\<close>.\<close>

lemma multisig_okI:
  assumes "links_ok m c" and "\<And>a. thresholds_ok c a"
    and "m \<in> dom c \<longleftrightarrow> cosignatories_of c m \<noteq> [] \<or> multisigs_of c m \<noteq> []"
  shows "multisig_ok c"
proof -
  have "links_ok m' c" for m'
  proof (rule links_okI)
    show "a \<in> dom c \<longleftrightarrow> cosignatories_of c a \<noteq> [] \<or> multisigs_of c a \<noteq> []" for a
      using links_okD(6) [OF assms(1), of a] assms(3) by (cases "a = m") auto
    show "thresholds_of c a = (0, 0)" if "cosignatories_of c a = []" for a
      using assms(2) [of a] that by (simp add: thresholds_ok_def)
  qed (use links_okD [OF assms(1)] in auto)
  with assms(2) show ?thesis by (simp add: multisig_ok_def)
qed

lemma multisig_ok_dom:
  "multisig_ok c \<Longrightarrow> a \<in> dom c \<longleftrightarrow> cosignatories_of c a \<noteq> [] \<or> multisigs_of c a \<noteq> []"
proof -
  assume ok: "multisig_ok c"
  obtain m :: Address where "m \<noteq> a" by (metis list.distinct(1))
  with ok have "links_ok m c" "a \<noteq> m" by (auto simp: multisig_ok_def)
  then show ?thesis by (rule links_okD(6))
qed

lemma multisig_ok_length:
  assumes "multisig_ok c"
  shows "length (cosignatories_of c a) < 2 ^ 32"
proof -
  have "thresholds_ok c a" using assms by (simp add: multisig_ok_def)
  then show ?thesis by (simp add: thresholds_ok_def in_range_def split: if_splits)
qed

lemma cache_ext:
  assumes "links_ok m c" and "links_ok m c'" and "cosignatories_of c = cosignatories_of c'"
    and "thresholds_of c = thresholds_of c'" and "m \<in> dom c \<longleftrightarrow> m \<in> dom c'"
  shows "c = c'"
proof
  fix a
  have U: "multisigs_of c b = multisigs_of c' b" for b
  proof (rule oset_ext)
    show "set (multisigs_of c b) = set (multisigs_of c' b)"
      using links_okD(4) [OF assms(1), of b] links_okD(4) [OF assms(2), of b] assms(3) by auto
  qed (rule links_okD(3) [OF assms(1)] links_okD(3) [OF assms(2)])+
  have dom: "a \<in> dom c \<longleftrightarrow> a \<in> dom c'"
    using links_okD(6) [OF assms(1), of a] links_okD(6) [OF assms(2), of a] assms(3,5) U [of a]
    by (cases "a = m") simp_all
  show "c a = c' a"
  proof (cases "c a")
    case None
    then show ?thesis using dom by auto
  next
    case (Some e)
    then obtain e' where e': "c' a = Some e'" using dom by auto
    have "me_address e = a" "me_address e' = a"
      using links_okD(1) [OF assms(1) Some] links_okD(1) [OF assms(2) e'] by simp_all
    moreover have "cosignatoryAddresses e = cosignatoryAddresses e'"
        "minApproval e = minApproval e' \<and> minRemoval e = minRemoval e'"
        "multisigAddresses e = multisigAddresses e'"
      using fun_cong [OF assms(3), of a] fun_cong [OF assms(4), of a] U [of a] Some e'
      by (simp_all add: cosignatories_of_def thresholds_of_def multisigs_of_def)
    ultimately have "e = e'" by (cases e; cases e') simp
    with Some e' show ?thesis by simp
  qed
qed

section \<open>Steps of the cosignatories observer\<close>

lemma GetMultisigEntry_ok:
  assumes "links_ok m c"
  obtains c' where "GetMultisigEntry c m = Inr c'" "links_ok m c'" "m \<in> dom c'"
    "cosignatories_of c' = cosignatories_of c" "multisigs_of c' = multisigs_of c"
    "thresholds_of c' = thresholds_of c" "\<And>a. a \<noteq> m \<Longrightarrow> c' a = c a"
proof (cases "c m")
  case (Some e)
  with assms show ?thesis by (intro that [of c]) (auto simp: GetMultisigEntry_def)
next
  case None
  let ?c = "c(m \<mapsto> make_multisig_entry m)"
  have eq: "cosignatories_of ?c = cosignatories_of c" "multisigs_of ?c = multisigs_of c"
    "thresholds_of ?c = thresholds_of c"
    using None by (auto simp: fun_eq_iff cosignatories_of_def multisigs_of_def thresholds_of_def
        make_multisig_entry_def)
  have "links_ok m ?c"
  proof (rule links_okI)
    show "me_address e = a" if "?c a = Some e" for a e
      using that links_okD(1) [OF assms] by (auto simp: make_multisig_entry_def split: if_splits)
  qed (use links_okD [OF assms] in \<open>auto simp: eq\<close>)
  with None eq show ?thesis
    by (intro that [of ?c]) (auto simp: GetMultisigEntry_def kv_insert_def)
qed

text \<open>The invariant, from the components of the abstraction alone.\<close>

lemma links_ok_step:
  assumes "links_ok m c"
    and C: "cosignatories_of c' = (cosignatories_of c)(m := ms)"
    and U: "multisigs_of c' = (multisigs_of c)(x := xs)"
    and T: "thresholds_of c' = thresholds_of c"
    and "oset_ok ms" and "oset_ok xs" and "x \<noteq> m"
    and ms: "\<And>b. b \<noteq> x \<Longrightarrow> b \<in> set ms \<longleftrightarrow> b \<in> set (cosignatories_of c m)"
    and xs: "\<And>a. a \<noteq> m \<Longrightarrow> a \<in> set xs \<longleftrightarrow> a \<in> set (multisigs_of c x)"
    and link: "x \<in> set ms \<longleftrightarrow> m \<in> set xs"
    and addr: "\<And>a e. c' a = Some e \<Longrightarrow> me_address e = a"
    and dom: "\<And>a. a \<noteq> m \<Longrightarrow> a \<noteq> x \<Longrightarrow> a \<in> dom c' \<longleftrightarrow> a \<in> dom c"
    and domx: "x \<in> dom c' \<longleftrightarrow> cosignatories_of c x \<noteq> [] \<or> xs \<noteq> []"
  shows "links_ok m c'"
proof (rule links_okI)
  note ok = links_okD [OF assms(1)]
  show "b \<in> set (cosignatories_of c' a) \<longleftrightarrow> a \<in> set (multisigs_of c' b)" for a b
    using ok(4) [of b a] ms [of b] xs [of a] link by (cases "a = m"; cases "b = x") (auto simp: C U)
  show "a \<notin> set (cosignatories_of c' a)" for a
    using ok(5) [of a] ms [of m] assms(7) by (auto simp: C)
  show "a \<in> dom c' \<longleftrightarrow> cosignatories_of c' a \<noteq> [] \<or> multisigs_of c' a \<noteq> []" if "a \<noteq> m" for a
    using ok(6) [OF that] that dom [of a] domx by (cases "a = x") (simp_all add: C U)
  show "thresholds_of c' a = (0, 0)" if "a \<noteq> m" "cosignatories_of c' a = []" for a
    using ok(7) [OF that(1)] that by (simp add: C T)
qed (use links_okD(2,3) [OF assms(1)] assms(5,6) addr in \<open>auto simp: C U\<close>)

lemma addCosignatory_ok:
  assumes "links_ok m c" and "m \<in> dom c" and "x \<noteq> m"
  obtains c' where "addCosignatory m x c = Inr c'" "links_ok m c'" "m \<in> dom c'"
    "cosignatories_of c' = (cosignatories_of c)(m := oset_insert x (cosignatories_of c m))"
    "thresholds_of c' = thresholds_of c"
proof -
  obtain em where em: "c m = Some em" using assms(2) by auto
  define ex where "ex = (case c x of None \<Rightarrow> make_multisig_entry x | Some e \<Rightarrow> e)"
  let ?c = "c(x \<mapsto> ex\<lparr>multisigAddresses := oset_insert m (multisigAddresses ex)\<rparr>,
              m \<mapsto> em\<lparr>cosignatoryAddresses := oset_insert x (cosignatoryAddresses em)\<rparr>)"
  have C: "cosignatories_of ?c = (cosignatories_of c)(m := oset_insert x (cosignatories_of c m))"
    and U: "multisigs_of ?c = (multisigs_of c)(x := oset_insert m (multisigs_of c x))"
    and T: "thresholds_of ?c = thresholds_of c"
    using assms(3) em
    by (auto simp: fun_eq_iff cosignatories_of_def multisigs_of_def thresholds_of_def ex_def
        make_multisig_entry_def split: option.splits)
  have run: "addCosignatory m x c = Inr ?c"
    using em assms(3)
    by (cases "c x") (simp_all add: addCosignatory_def GetMultisigEntry_def kv_insert_def kv_update_def
        modify_held_def ex_def)
  have addr: "me_address e = a" if "?c a = Some e" for a e
    using that links_okD(1) [OF assms(1)] em
    by (auto simp: ex_def make_multisig_entry_def split: if_splits option.splits)
  have nonempty: "oset_insert m xs \<noteq> []" for xs
    using set_oset_insert [of m xs] by (metis empty_iff insertI1 list.set(1))
  have "links_ok m ?c"
    by (rule links_ok_step [OF assms(1) C U T _ _ assms(3) _ _ _ addr])
      (use links_okD [OF assms(1)] in \<open>auto simp: oset_ok_insert nonempty\<close>)
  with run C T show ?thesis by (intro that [of ?c]) auto
qed

lemma removeCosignatory_ok:
  assumes "links_ok m c" and "x \<in> set (cosignatories_of c m)"
  obtains c' where "removeCosignatory m x c = Inr c'" "links_ok m c'" "m \<in> dom c'"
    "cosignatories_of c' = (cosignatories_of c)(m := oset_erase x (cosignatories_of c m))"
    "thresholds_of c' = thresholds_of c"
proof -
  note ok = links_okD [OF assms(1)]
  have x: "x \<noteq> m" "m \<in> set (multisigs_of c x)"
    using ok(5) [of m] ok(4) [of x m] assms(2) by auto
  then obtain ex em where e: "c x = Some ex" "c m = Some em"
    using assms(2) by (cases "c x"; cases "c m") (auto simp: multisigs_of_def cosignatories_of_def)
  let ?ex = "ex\<lparr>multisigAddresses := oset_erase m (multisigAddresses ex)\<rparr>"
  let ?c1 = "c(m \<mapsto> em\<lparr>cosignatoryAddresses := oset_erase x (cosignatoryAddresses em)\<rparr>, x \<mapsto> ?ex)"
  let ?drop = "cosignatoryAddresses ex = [] \<and> oset_erase m (multisigAddresses ex) = []"
  let ?c = "if ?drop then ?c1(x := None) else ?c1"
  have run: "removeCosignatory m x c = Inr ?c"
    using e x(1) by (simp add: removeCosignatory_def modify_held_def kv_update_def kv_get_def
        removeIfEmpty_def kv_remove_def)
  have Tx: "cosignatoryAddresses ex = [] \<Longrightarrow> minApproval ex = 0 \<and> minRemoval ex = 0"
    using ok(7) [OF x(1)] e by (simp add: cosignatories_of_def thresholds_of_def)
  have C: "cosignatories_of ?c = (cosignatories_of c)(m := oset_erase x (cosignatories_of c m))"
    and U: "multisigs_of ?c = (multisigs_of c)(x := oset_erase m (multisigs_of c x))"
    and T: "thresholds_of ?c = thresholds_of c"
    using x(1) e Tx by (auto simp: fun_eq_iff cosignatories_of_def multisigs_of_def thresholds_of_def)
  have addr: "me_address f = a" if "?c a = Some f" for a f
    using that ok(1) e by (auto split: if_splits)
  have domx: "x \<in> dom ?c \<longleftrightarrow> cosignatories_of c x \<noteq> [] \<or> oset_erase m (multisigs_of c x) \<noteq> []"
    using e x(1) by (auto simp: cosignatories_of_def multisigs_of_def)
  have "links_ok m ?c"
    by (rule links_ok_step [OF assms(1) C U T _ _ x(1) _ _ _ addr _ domx])
      (use ok(2) [of m] ok(3) [of x] in \<open>auto simp: oset_ok_erase\<close>)
  with run C T e x(1) show ?thesis by (intro that [of ?c]) auto
qed

text \<open>What the facade's operations leave alone: everything but the cosignatories of its account.\<close>

definition same_but :: "Address \<Rightarrow> multisig_cache \<Rightarrow> multisig_cache \<Rightarrow> bool" where
  "same_but m c c' \<longleftrightarrow> (\<forall>a. a \<noteq> m \<longrightarrow> cosignatories_of c' a = cosignatories_of c a)
     \<and> thresholds_of c' = thresholds_of c"

lemma same_but_trans: "same_but m c c' \<Longrightarrow> same_but m c' c'' \<Longrightarrow> same_but m c c''"
  by (simp add: same_but_def)

lemma AddAll_add_ok:
  assumes "links_ok m c" and "m \<in> dom c" and "m \<notin> resolve ` set xs"
  shows "\<exists>c'. AddAll_cosignatories resolve m xs True c = Inr c' \<and> links_ok m c' \<and> m \<in> dom c' \<and> same_but m c c'
    \<and> set (cosignatories_of c' m) = set (cosignatories_of c m) \<union> resolve ` set xs"
  using assms
proof (induction xs arbitrary: c)
  case (Cons x xs)
  then obtain c1 where c1: "addCosignatory m (resolve x) c = Inr c1" "links_ok m c1" "m \<in> dom c1"
    "cosignatories_of c1 = (cosignatories_of c)(m := oset_insert (resolve x) (cosignatories_of c m))"
    "thresholds_of c1 = thresholds_of c"
    using addCosignatory_ok [of m c "resolve x"] by (metis image_insert insert_iff list.simps(15))
  with Cons.IH [of c1] Cons.prems show ?case by (auto simp: AddAll_cosignatories_def same_but_def)
qed (simp add: AddAll_cosignatories_def same_but_def)

lemma AddAll_remove_ok:
  assumes "links_ok m c" and "m \<in> dom c" and "resolve ` set xs \<subseteq> set (cosignatories_of c m)"
    and "distinct (map resolve xs)"
  shows "\<exists>c'. AddAll_cosignatories resolve m xs False c = Inr c' \<and> links_ok m c' \<and> m \<in> dom c' \<and> same_but m c c'
    \<and> set (cosignatories_of c' m) = set (cosignatories_of c m) - resolve ` set xs"
  using assms
proof (induction xs arbitrary: c)
  case (Cons x xs)
  then have "resolve x \<in> set (cosignatories_of c m)" by simp
  then obtain c1 where c1: "removeCosignatory m (resolve x) c = Inr c1" "links_ok m c1" "m \<in> dom c1"
    "cosignatories_of c1 = (cosignatories_of c)(m := oset_erase (resolve x) (cosignatories_of c m))"
    "thresholds_of c1 = thresholds_of c"
    using removeCosignatory_ok [OF Cons.prems(1)] by metis
  have "resolve y \<noteq> resolve x" if "y \<in> set xs" for y using Cons.prems(4) that by (auto simp: image_iff)
  then have "resolve ` set xs \<subseteq> set (cosignatories_of c1 m)" using Cons.prems(3) c1(4) by auto
  with Cons.IH [of c1] Cons.prems c1 show ?case by (auto simp: AddAll_cosignatories_def same_but_def)
qed (simp add: AddAll_cosignatories_def same_but_def)

text \<open>The accounts \<open>m\<close> cosigns do not change with its own cosignatories.\<close>

lemma same_but_multisigs:
  assumes "links_ok m c" and "links_ok m c'" and "same_but m c c'"
  shows "multisigs_of c' m = multisigs_of c m"
proof (rule oset_ext)
  have "a \<in> set (multisigs_of c' m) \<longleftrightarrow> a \<in> set (multisigs_of c m)" for a
    using links_okD(4) [OF assms(1), of m a] links_okD(4) [OF assms(2), of m a]
      links_okD(5) [OF assms(1), of m] links_okD(5) [OF assms(2), of m] assms(3)
    by (cases "a = m") (auto simp: same_but_def)
  then show "set (multisigs_of c' m) = set (multisigs_of c m)" by blast
qed (rule links_okD(3) [OF assms(1)] links_okD(3) [OF assms(2)])+

lemma destroy_facade_ok:
  assumes "links_ok m c" and "m \<in> dom c"
  obtains c' where "destroy_facade m c = Inr c'" "links_ok m c'"
    "cosignatories_of c' = cosignatories_of c" "multisigs_of c' = multisigs_of c"
    "m \<in> dom c' \<longleftrightarrow> cosignatories_of c m \<noteq> [] \<or> multisigs_of c m \<noteq> []"
    "thresholds_of c' = (if m \<in> dom c' then thresholds_of c else (thresholds_of c)(m := (0, 0)))"
proof -
  obtain e where e: "c m = Some e" using assms(2) by auto
  show ?thesis
  proof (cases "cosignatoryAddresses e = [] \<and> multisigAddresses e = []")
    case True
    let ?c = "c(m := None)"
    have eq: "cosignatories_of ?c = cosignatories_of c" "multisigs_of ?c = multisigs_of c"
      "thresholds_of ?c = (thresholds_of c)(m := (0, 0))"
      using True e by (auto simp: fun_eq_iff cosignatories_of_def multisigs_of_def thresholds_of_def)
    have "links_ok m ?c"
    proof (rule links_okI)
      show "me_address f = a" if "?c a = Some f" for a f
        using that links_okD(1) [OF assms(1)] by (auto split: if_splits)
    qed (use links_okD [OF assms(1)] in \<open>auto simp: eq\<close>)
    with True e eq show ?thesis
      by (intro that [of ?c]) (auto simp: destroy_facade_def removeIfEmpty_def kv_remove_def
          cosignatories_of_def multisigs_of_def)
  next
    case False
    with assms e show ?thesis
      by (intro that [of c]) (auto simp: destroy_facade_def removeIfEmpty_def cosignatories_of_def multisigs_of_def)
  qed
qed

text \<open>
  The whole observer: \<open>adds\<close> are added and \<open>dels\<close> removed, in the order that the mode gives.
\<close>

definition cosignatories_changed ::
  "Address \<Rightarrow> multisig_cache \<Rightarrow> Address set \<Rightarrow> multisig_cache \<Rightarrow> bool" where
  "cosignatories_changed m c X c' \<longleftrightarrow> links_ok m c'
     \<and> (\<forall>a. a \<noteq> m \<longrightarrow> cosignatories_of c' a = cosignatories_of c a)
     \<and> set (cosignatories_of c' m) = X \<and> multisigs_of c' m = multisigs_of c m
     \<and> (m \<in> dom c' \<longleftrightarrow> X \<noteq> {} \<or> multisigs_of c m \<noteq> [])
     \<and> thresholds_of c' = (if m \<in> dom c' then thresholds_of c else (thresholds_of c)(m := (0, 0)))"

lemma finish_observer:
  assumes "links_ok m c" and "links_ok m c2" and "m \<in> dom c2" and "same_but m c c2"
  shows "\<exists>c'. destroy_facade m c2 = Inr c'
    \<and> cosignatories_changed m c (set (cosignatories_of c2 m)) c'"
proof -
  obtain c' where "destroy_facade m c2 = Inr c'" "links_ok m c'"
    "cosignatories_of c' = cosignatories_of c2" "multisigs_of c' = multisigs_of c2"
    "m \<in> dom c' \<longleftrightarrow> cosignatories_of c2 m \<noteq> [] \<or> multisigs_of c2 m \<noteq> []"
    "thresholds_of c' = (if m \<in> dom c' then thresholds_of c2 else (thresholds_of c2)(m := (0, 0)))"
    using destroy_facade_ok [OF assms(2,3)] .
  with same_but_multisigs [OF assms(1,2,4)] assms(4) show ?thesis
    by (auto simp: cosignatories_changed_def same_but_def)
qed

lemma observer_commit:
  assumes "links_ok m c" and "m \<notin> resolve ` set adds"
    and "resolve ` set dels \<subseteq> set (cosignatories_of c m)" and "distinct (map resolve dels)"
  shows "\<exists>c'. MultisigCosignatories_observer resolve Commit m adds dels c = Inr c'
    \<and> cosignatories_changed m c
        ((set (cosignatories_of c m) \<union> resolve ` set adds) - resolve ` set dels) c'"
proof -
  obtain c0 where c0: "GetMultisigEntry c m = Inr c0" "links_ok m c0" "m \<in> dom c0"
    "cosignatories_of c0 = cosignatories_of c" "thresholds_of c0 = thresholds_of c"
    using GetMultisigEntry_ok [OF assms(1)] by metis
  obtain c1 where c1: "AddAll_cosignatories resolve m adds True c0 = Inr c1" "links_ok m c1" "m \<in> dom c1"
    "same_but m c0 c1" "set (cosignatories_of c1 m) = set (cosignatories_of c m) \<union> resolve ` set adds"
    using AddAll_add_ok [OF c0(2,3) assms(2)] c0(4) by auto
  obtain c2 where c2: "AddAll_cosignatories resolve m dels False c1 = Inr c2" "links_ok m c2" "m \<in> dom c2"
    "same_but m c1 c2" "set (cosignatories_of c2 m) = set (cosignatories_of c1 m) - resolve ` set dels"
    using AddAll_remove_ok [OF c1(2,3) _ assms(4)] c1(5) assms(3) by blast
  have "same_but m c c2" using c0(4,5) c1(4) c2(4) by (simp add: same_but_def)
  from finish_observer [OF assms(1) c2(2,3) this] c0(1) c1(1,5) c2(1,5) show ?thesis
    by (simp add: MultisigCosignatories_observer_def Let_def)
qed

lemma observer_rollback:
  assumes "links_ok m c" and "m \<notin> resolve ` set dels"
    and "resolve ` set adds \<subseteq> set (cosignatories_of c m)" and "distinct (map resolve adds)"
  shows "\<exists>c'. MultisigCosignatories_observer resolve Rollback m adds dels c = Inr c'
    \<and> cosignatories_changed m c
        ((set (cosignatories_of c m) - resolve ` set adds) \<union> resolve ` set dels) c'"
proof -
  obtain c0 where c0: "GetMultisigEntry c m = Inr c0" "links_ok m c0" "m \<in> dom c0"
    "cosignatories_of c0 = cosignatories_of c" "thresholds_of c0 = thresholds_of c"
    using GetMultisigEntry_ok [OF assms(1)] by metis
  obtain c1 where c1: "AddAll_cosignatories resolve m adds False c0 = Inr c1" "links_ok m c1" "m \<in> dom c1"
    "same_but m c0 c1" "set (cosignatories_of c1 m) = set (cosignatories_of c m) - resolve ` set adds"
    using AddAll_remove_ok [OF c0(2,3) _ assms(4)] assms(3) unfolding c0(4) by blast
  obtain c2 where c2: "AddAll_cosignatories resolve m dels True c1 = Inr c2" "links_ok m c2" "m \<in> dom c2"
    "same_but m c1 c2" "set (cosignatories_of c2 m) = set (cosignatories_of c1 m) \<union> resolve ` set dels"
    using AddAll_add_ok [OF c1(2,3) assms(2)] by auto
  have "same_but m c c2" using c0(4,5) c1(4) c2(4) by (simp add: same_but_def)
  from finish_observer [OF assms(1) c2(2,3) this] c0(1) c1(1,5) c2(1,5) show ?thesis
    by (simp add: MultisigCosignatories_observer_def Let_def)
qed

section \<open>The settings observer\<close>

lemma AddDelta_eq: "AddDelta v k d = v + word_of_int (k * sint d)"
  by (simp add: AddDelta_def wi_hom_add [symmetric])

lemma AddDelta_inverse [simp]: "AddDelta (AddDelta v 1 d) (- 1) d = v"
  by (simp add: AddDelta_eq)

lemma AddDelta_in_range:
  assumes "1 \<le> uint v + sint d" and "uint v + sint d \<le> int n" and "n < 2 ^ 32"
  shows "in_range (AddDelta v 1 d) n"
proof -
  have "AddDelta v 1 d = word_of_int (uint v + sint d)"
    by (simp add: AddDelta_eq wi_hom_add [symmetric])
  then have "uint (AddDelta v 1 d) = (uint v + sint d) mod 2 ^ 32"
    by (simp only: uint_word_of_int) simp
  also have "\<dots> = uint v + sint d"
    using assms by (intro mod_pos_pos_trivial) simp_all
  finally have "int (unat (AddDelta v 1 d)) = uint v + sint d" by simp
  then have "1 \<le> int (unat (AddDelta v 1 d))" "int (unat (AddDelta v 1 d)) \<le> int n"
    using assms by simp_all
  then show ?thesis using assms(3) unfolding in_range_def by linarith
qed

definition with_deltas :: "int \<Rightarrow> u8 \<Rightarrow> u8 \<Rightarrow> MultisigEntry \<Rightarrow> MultisigEntry" where
  "with_deltas k removalDelta approvalDelta e =
     e\<lparr>minApproval := AddDelta (minApproval e) k approvalDelta,
       minRemoval := AddDelta (minRemoval e) k removalDelta\<rparr>"

lemma settings_present:
  assumes "c m = Some e"
  shows "MultisigSettings_observer Commit m r a c = Inr (c(m \<mapsto> with_deltas 1 r a e))"
    and "MultisigSettings_observer Rollback m r a (c(m \<mapsto> with_deltas 1 r a e)) = Inr c"
  using assms
  by (simp_all add: MultisigSettings_observer_def kv_update_def with_deltas_def Let_def fun_upd_idem)

text \<open>Settings that were accepted make the thresholds of the account fit again.\<close>

lemma settings_ok:
  assumes "links_ok m c" and e: "c m = Some e" and "length (cosignatories_of c m) < 2 ^ 32"
    and "MultisigInvalidSettings m r a c = Success" and "\<And>b. b \<noteq> m \<Longrightarrow> thresholds_ok c b"
  shows "multisig_ok (c(m \<mapsto> with_deltas 1 r a e))
    \<and> cosignatories_of (c(m \<mapsto> with_deltas 1 r a e)) = cosignatories_of c"
proof -
  let ?c = "c(m \<mapsto> with_deltas 1 r a e)"
  have eq: "cosignatories_of ?c = cosignatories_of c" "multisigs_of ?c = multisigs_of c"
    "\<And>b. b \<noteq> m \<Longrightarrow> thresholds_of ?c b = thresholds_of c b"
    using e by (auto simp: fun_eq_iff cosignatories_of_def multisigs_of_def thresholds_of_def with_deltas_def)
  have C: "cosignatories_of c m = cosignatoryAddresses e" using e by (simp add: cosignatories_of_def)
  have range: "in_range (AddDelta (minApproval e) 1 a) (length (cosignatoryAddresses e))"
      "in_range (AddDelta (minRemoval e) 1 r) (length (cosignatoryAddresses e))"
    and nonempty: "cosignatoryAddresses e \<noteq> []"
    using assms(3,4) e C
    by (auto simp: MultisigInvalidSettings_def Let_def not_less split: if_splits intro!: AddDelta_in_range)
  have "thresholds_ok ?c b" for b
  proof (cases "b = m")
    case True
    have "thresholds_of ?c m = (AddDelta (minApproval e) 1 a, AddDelta (minRemoval e) 1 r)"
      by (simp add: thresholds_of_def with_deltas_def)
    with True range nonempty C show ?thesis unfolding thresholds_ok_def eq(1) by simp
  next
    case False
    with assms(5) show ?thesis unfolding thresholds_ok_def eq(1) eq(3) [OF False] by blast
  qed
  moreover have "links_ok m ?c"
  proof (rule links_okI)
    show "me_address f = b" if "?c b = Some f" for b f
      using that links_okD(1) [OF assms(1)] e by (auto simp: with_deltas_def split: if_splits)
  qed (use links_okD [OF assms(1)] eq in \<open>auto simp del: fun_upd_apply simp: domIff fun_upd_apply\<close>)
  ultimately have "multisig_ok ?c" using nonempty C eq by (intro multisig_okI [of m]) auto
  with eq show ?thesis by simp
qed

text \<open>An account without entry: the rollback makes one, with both thresholds at one.\<close>

lemma settings_absent:
  assumes "c m = None" and "MultisigInvalidSettings m r a c = Success"
  shows "MultisigSettings_observer Commit m r a c = Inr c"
    and "MultisigSettings_observer Rollback m r a c
      = Inr (c(m \<mapsto> (make_multisig_entry m)\<lparr>minApproval := 1, minRemoval := 1\<rparr>))"
proof -
  have "AddDelta 0 (- 1) d = 1" if "sint d = - 1" for d
    using that by (simp add: AddDelta_def)
  with assms show "MultisigSettings_observer Commit m r a c = Inr c"
    "MultisigSettings_observer Rollback m r a c
      = Inr (c(m \<mapsto> (make_multisig_entry m)\<lparr>minApproval := 1, minRemoval := 1\<rparr>))"
    by (simp_all add: MultisigSettings_observer_def MultisigInvalidSettings_def kv_insert_def
        kv_update_def Let_def make_multisig_entry_def split: if_splits)
qed

section \<open>A modification transaction\<close>

definition tx_wf :: "(UnresolvedAddress \<Rightarrow> Address) \<Rightarrow> MultisigAccountModification \<Rightarrow> bool" where
  "tx_wf resolve tx \<longleftrightarrow>
     MultisigCosignatories (tx_AddressAdditions tx) (tx_AddressDeletions tx) = Success
     \<and> distinct (map resolve (tx_AddressAdditions tx))
     \<and> length (tx_AddressAdditions tx) < 256"

lemma InvalidCosignatories_Success:
  "MultisigInvalidCosignatories resolve m adds dels c = Success \<Longrightarrow>
     resolve ` set adds \<inter> set (cosignatories_of c m) = {}
     \<and> resolve ` set dels \<subseteq> set (cosignatories_of c m)"
  by (cases "c m")
    (auto simp: MultisigInvalidCosignatories_def cosignatories_of_def hasCosignatory_def list_ex_iff
      split: if_splits)

lemma unat_widen: "unat (ucast w :: u64) = unat w" for w :: u32
proof -
  have "unat w < 2 ^ 32" using unsigned_less [of w] by simp
  then have "unat w < 2 ^ 64" by simp
  then show ?thesis by (simp add: unsigned_ucast_eq take_bit_nat_eq_self)
qed

lemma MaxCosignatories_Success:
  assumes "MultisigMaxCosignatories limit m adds dels c = Success"
    and "length (cosignatories_of c m) < 2 ^ 32" and "length adds < 256"
    and "length dels \<le> length (cosignatories_of c m)"
  shows "length (cosignatories_of c m) + length adds - length dels < 2 ^ 32"
proof -
  let ?n = "length (cosignatories_of c m)"
  have num: "(case c m of None \<Rightarrow> 0 | Some entry \<Rightarrow> (of_nat (length (cosignatoryAddresses entry)) :: u64)) = of_nat ?n"
    by (simp add: cosignatories_of_def split: option.splits)
  have "(of_nat ?n + word_of_int (int (length adds) - int (length dels)) :: u64)
      = word_of_int (int (?n + length adds - length dels))"
    using assms(4) by (simp add: wi_hom_add [symmetric] wi_hom_sub [symmetric] of_nat_diff)
  then have sum: "(of_nat ?n + word_of_int (int (length adds) - int (length dels)) :: u64)
      = of_nat (?n + length adds - length dels)" by simp
  have "of_nat (?n + length adds - length dels) \<le> (ucast limit :: u64)"
    using assms(1) unfolding MultisigMaxCosignatories_def Let_def num sum by (simp split: if_splits)
  then have "unat (of_nat (?n + length adds - length dels) :: u64) \<le> unat limit"
    by (simp add: word_le_nat_alt unat_widen)
  moreover have "?n + length adds - length dels < 2 ^ 64" using assms(2,3) by simp
  then have "unat (of_nat (?n + length adds - length dels) :: u64) = ?n + length adds - length dels"
    by (simp add: unat_of_nat)
  moreover have "unat limit < 2 ^ 32" using unsigned_less [of limit] by simp
  ultimately show ?thesis by simp
qed

text \<open>What the validators of the cosignatories notification and the loop validator establish.\<close>

definition accepted_change :: "Address \<Rightarrow> multisig_cache \<Rightarrow> Address set \<Rightarrow> Address set \<Rightarrow> bool" where
  "accepted_change m c A D \<longleftrightarrow> multisig_ok c
     \<and> A \<inter> set (cosignatories_of c m) = {} \<and> D \<subseteq> set (cosignatories_of c m)
     \<and> card D \<le> 1 \<and> m \<notin> A \<and> finite A
     \<and> length (cosignatories_of c m) + card A - card D < 2 ^ 32"

definition changed_set :: "Address \<Rightarrow> multisig_cache \<Rightarrow> Address set \<Rightarrow> Address set \<Rightarrow> Address set" where
  "changed_set m c A D = (set (cosignatories_of c m) \<union> A) - D"

lemma accepted_links: "accepted_change m c A D \<Longrightarrow> links_ok m' c"
  by (simp add: accepted_change_def multisig_ok_def)

lemma changed_back:
  "accepted_change m c A D \<Longrightarrow> (changed_set m c A D - A) \<union> D = set (cosignatories_of c m)"
  unfolding changed_set_def accepted_change_def by blast

lemma other_thresholds:
  assumes "accepted_change m c A D" and "cosignatories_changed m c (changed_set m c A D) c1" and "b \<noteq> m"
  shows "thresholds_ok c1 b"
proof -
  have "cosignatories_of c1 b = cosignatories_of c b" "thresholds_of c1 b = thresholds_of c b"
    using assms(2,3) by (simp_all add: cosignatories_changed_def)
  with assms(1) show ?thesis by (simp add: accepted_change_def multisig_ok_def thresholds_ok_def)
qed

lemma changed_length:
  assumes "accepted_change m c A D" and "cosignatories_changed m c (changed_set m c A D) c1"
  shows "length (cosignatories_of c1 m) < 2 ^ 32"
proof -
  let ?X = "changed_set m c A D" and ?C = "set (cosignatories_of c m)"
  have ok: "links_ok m c1" and X: "set (cosignatories_of c1 m) = ?X"
    using assms(2) by (simp_all add: cosignatories_changed_def)
  have len: "length (cosignatories_of c m) = card ?C" "length (cosignatories_of c1 m) = card ?X"
    using oset_ok_distinct [OF links_okD(2) [OF accepted_links [OF assms(1)]]]
      oset_ok_distinct [OF links_okD(2) [OF ok]] X
    by (metis distinct_card)+
  have D: "D \<subseteq> ?C" "finite A" "length (cosignatories_of c m) + card A - card D < 2 ^ 32"
    using assms(1) by (simp_all add: accepted_change_def)
  have "card ?X = card (?C \<union> A) - card D"
    unfolding changed_set_def using D(1,2) by (intro card_Diff_subset) (auto intro: finite_subset)
  also have "\<dots> \<le> card ?C + card A - card D"
    by (intro diff_le_mono card_Un_le)
  finally show ?thesis using D(3) len by simp
qed

text \<open>The cosignatories are back after the rollback, whatever the settings were in between.\<close>

lemma cosignatories_back:
  assumes ok: "accepted_change m c A D" and c1: "cosignatories_changed m c (changed_set m c A D) c1"
    and c2: "cosignatories_of c2 = cosignatories_of c1"
    and c3: "cosignatories_changed m c2 ((changed_set m c A D - A) \<union> D) c3"
  shows "links_ok m c3 \<and> cosignatories_of c3 = cosignatories_of c"
proof -
  have l3: "links_ok m c3" using c3 by (simp add: cosignatories_changed_def)
  have "cosignatories_of c3 b = cosignatories_of c b" for b
  proof (cases "b = m")
    case True
    have "set (cosignatories_of c3 m) = set (cosignatories_of c m)"
      using c3 changed_back [OF ok] by (simp add: cosignatories_changed_def)
    then show ?thesis
      using True links_okD(2) [OF l3] links_okD(2) [OF accepted_links [OF ok]] by (simp add: oset_ext)
  next
    case False
    with c1 c2 c3 show ?thesis by (simp add: cosignatories_changed_def)
  qed
  with l3 show ?thesis by blast
qed

text \<open>The account keeps its entry.\<close>

lemma kept:
  assumes ok: "accepted_change m c A D" and c1: "cosignatories_changed m c (changed_set m c A D) c1"
    and e: "c1 m = Some e"
    and settings: "MultisigInvalidSettings m r a c1 = Success"
    and c3: "cosignatories_changed m c1 ((changed_set m c A D - A) \<union> D) c3"
  shows "multisig_ok (c1(m \<mapsto> with_deltas 1 r a e))
    \<and> cosignatories_of (c1(m \<mapsto> with_deltas 1 r a e)) = cosignatories_of c1 \<and> c3 = c"
proof -
  have inv: "multisig_ok c" using ok by (simp add: accepted_change_def)
  have l1: "links_ok m c1" using c1 by (simp add: cosignatories_changed_def)
  note restored = cosignatories_back [OF ok c1 refl c3]
  have "m \<in> dom c3 \<longleftrightarrow> set (cosignatories_of c m) \<noteq> {} \<or> multisigs_of c1 m \<noteq> []"
    "multisigs_of c1 m = multisigs_of c m"
    using c1 c3 unfolding changed_back [OF ok] by (simp_all add: cosignatories_changed_def)
  then have dom: "m \<in> dom c3 \<longleftrightarrow> m \<in> dom c" using multisig_ok_dom [OF inv, of m] by simp
  have T1: "thresholds_of c1 = thresholds_of c" using c1 e by (auto simp: cosignatories_changed_def)
  have "thresholds_of c m = (0, 0)" if "m \<notin> dom c" using of_absent [of c m] that by (simp add: domIff)
  then have "thresholds_of c3 = thresholds_of c"
    using c3 T1 dom by (auto simp: cosignatories_changed_def fun_upd_idem)
  with restored dom cache_ext [OF _ accepted_links [OF ok]] have "c3 = c" by blast
  with settings_ok [OF l1 e changed_length [OF ok c1] settings other_thresholds [OF ok c1]]
  show ?thesis by blast
qed

text \<open>The account loses its entry: it had one cosignatory, hence both thresholds at one.\<close>

lemma dropped:
  assumes ok: "accepted_change m c A D" and c1: "cosignatories_changed m c (changed_set m c A D) c1"
    and absent: "c1 m = None" and "A \<noteq> {} \<or> D \<noteq> {}"
  shows "multisig_ok c1 \<and> A = {} \<and> D \<noteq> {} \<and> thresholds_of c m = (1, 1)"
proof -
  have X: "changed_set m c A D = {}" and l1: "links_ok m c1"
    using c1 absent by (auto simp: cosignatories_changed_def)
  have A: "A = {}" and C: "set (cosignatories_of c m) = D"
    using X ok by (auto simp: changed_set_def accepted_change_def)
  then have D: "D \<noteq> {}" using assms(4) by simp
  have "length (cosignatories_of c m) = card D"
    using oset_ok_distinct [OF links_okD(2) [OF accepted_links [OF ok]]] C by (metis distinct_card)
  moreover have "card D \<le> 1" using ok by (simp add: accepted_change_def)
  moreover have nonempty: "cosignatories_of c m \<noteq> []" using C D by auto
  then have "1 \<le> length (cosignatories_of c m)" by (simp add: Suc_le_eq)
  ultimately have one: "length (cosignatories_of c m) = 1" by linarith
  have "thresholds_ok c m" using ok by (simp add: accepted_change_def multisig_ok_def)
  then have "unat (fst (thresholds_of c m)) = 1" "unat (snd (thresholds_of c m)) = 1"
    using one nonempty by (auto simp: thresholds_ok_def in_range_def)
  then have "thresholds_of c m = (1, 1)"
    by (metis prod.collapse unat_1 word_unat_eq_iff)
  moreover have "thresholds_ok c1 b" for b
    using other_thresholds [OF ok c1, of b] of_absent [where c = c1 and a = m] absent
    by (cases "b = m") (auto simp: thresholds_ok_def)
  then have "multisig_ok c1"
    using l1 of_absent [where c = c1 and a = m] absent by (intro multisig_okI [of m]) auto
  ultimately show ?thesis using A D by blast
qed

lemma dropped_back:
  assumes ok: "accepted_change m c A D" and c1: "cosignatories_changed m c (changed_set m c A D) c1"
    and absent: "c1 m = None" and "A \<noteq> {} \<or> D \<noteq> {}"
    and c2: "c2 = c1(m \<mapsto> (make_multisig_entry m)\<lparr>minApproval := 1, minRemoval := 1\<rparr>)"
    and c3: "cosignatories_changed m c2 ((changed_set m c A D - A) \<union> D) c3"
  shows "c3 = c"
proof -
  have C2: "cosignatories_of c2 = cosignatories_of c1"
    and T2: "thresholds_of c2 = (thresholds_of c1)(m := (1, 1))"
    using absent by (auto simp: c2 fun_eq_iff cosignatories_of_def thresholds_of_def make_multisig_entry_def)
  note restored = cosignatories_back [OF ok c1 C2 c3]
  note old = dropped [OF ok c1 absent assms(4)]
  have dom3: "m \<in> dom c3" using c3 old by (simp add: cosignatories_changed_def)
  have "D \<subseteq> set (cosignatories_of c m)" "multisig_ok c" using ok by (simp_all add: accepted_change_def)
  then have dom: "m \<in> dom c" using old multisig_ok_dom [of c m] by auto
  have "thresholds_of c3 = (thresholds_of c)(m := (1, 1))"
    using c1 c3 absent dom3 T2 by (simp add: cosignatories_changed_def domIff)
  also have "\<dots> = thresholds_of c" using old by (simp add: fun_upd_idem)
  finally show ?thesis using cache_ext [OF _ accepted_links [OF ok]] restored dom dom3 by blast
qed

section \<open>Processing a transaction\<close>

lemma notification_channels [simp]:
  "IsSet (n_Type (multisig_notification p)) Channel_Validator"
  "IsSet (n_Type (multisig_notification p)) Channel_Observer \<longleftrightarrow> (\<forall>m x. p \<noteq> NewCosignatory m x)"
  "n_payload (multisig_notification p) = p"
  by (cases p; simp add: multisig_notification_def)+

lemma multisig_validator_Success:
  "multisig_validator config fuel resolve (multisig_notification p) c = Inr Success \<longleftrightarrow>
     (\<forall>v \<in> set (multisig_validate config fuel resolve p). v (multisig_notification p) c = Inr Success)"
  by (simp add: multisig_validator_def aggregate_validate_def aggregate_validate_loop_Success)

abbreviation multisig_process ::
  "MultisigConfiguration \<Rightarrow> nat \<Rightarrow> (UnresolvedAddress \<Rightarrow> Address) \<Rightarrow> multisig_payload Notification list
     \<Rightarrow> multisig_cache \<Rightarrow> (multisig_payload, multisig_failure, multisig_cache) subscriber result" where
  "multisig_process config fuel resolve ns c \<equiv>
     foldM (sub_notify (multisig_validator config fuel resolve) (multisig_observer resolve)) ns
       (make_subscriber Commit c)"

lemma process_new_cosignatories:
  assumes "multisig_process config fuel resolve (map (\<lambda>x. multisig_notification (NewCosignatory m x)) xs @ ns) c = Inr sub"
    and "m_aggregateResult sub = Success"
  shows "(\<forall>x \<in> set xs. LoopAndLevelChecker_validate fuel (MaxMultisigDepth config) c m (resolve x) = Inr Success)
    \<and> multisig_process config fuel resolve ns c = Inr sub"
  using assms
proof (induction xs)
  case (Cons x xs)
  from Cons.prems(1) have "multisig_process config fuel resolve (multisig_notification (NewCosignatory m x)
      # (map (\<lambda>x. multisig_notification (NewCosignatory m x)) xs @ ns)) c = Inr sub"
    by simp
  from process_Cons [OF this Cons.prems(2)] obtain c1 where
    v: "multisig_validator config fuel resolve (multisig_notification (NewCosignatory m x)) c = Inr Success"
    and c1: "c1 = c" and rest: "multisig_process config fuel resolve
      (map (\<lambda>x. multisig_notification (NewCosignatory m x)) xs @ ns) c1 = Inr sub"
    by (metis notification_channels)
  with Cons.IH Cons.prems(2) show ?case by (simp add: multisig_validator_Success)
qed simp

lemma process_cosignatories:
  assumes "multisig_process config fuel resolve (multisig_notification (Cosignatories m adds dels) # ns) c = Inr sub"
    and "m_aggregateResult sub = Success"
  obtains c1 where "MultisigMaxCosignatories (MaxCosignatoriesPerAccount config) m adds dels c = Success"
    "MultisigInvalidCosignatories resolve m adds dels c = Success"
    "MultisigCosignatories_observer resolve Commit m adds dels c = Inr c1"
    "multisig_process config fuel resolve ns c1 = Inr sub"
  by (rule process_Cons [OF assms])
    (simp add: that multisig_validator_Success multisig_observer_def)

lemma process_settings:
  assumes "multisig_process config fuel resolve [multisig_notification (Settings m r a)] c = Inr sub"
    and "m_aggregateResult sub = Success"
  shows "MultisigInvalidSettings m r a c = Success
    \<and> MultisigSettings_observer Commit m r a c = Inr (m_state sub)"
  by (rule process_Cons [OF assms])
    (auto simp: multisig_validator_Success multisig_observer_def make_subscriber_def)

lemma captured_publish:
  "captured (multisig_publish tx) = map multisig_notification
     ((if tx_AddressAdditions tx \<noteq> [] \<or> tx_AddressDeletions tx \<noteq> []
       then [Cosignatories (tx_Signer tx) (tx_AddressAdditions tx) (tx_AddressDeletions tx)] else [])
      @ [Settings (tx_Signer tx) (tx_MinRemovalDelta tx) (tx_MinApprovalDelta tx)])"
proof -
  have "captured (map multisig_notification (map (NewCosignatory m) xs)) = []" for m xs
    by (induction xs) (auto simp: captured_def)
  moreover have "captured (xs @ ys) = captured xs @ captured ys" for xs ys :: "multisig_payload Notification list"
    by (simp add: captured_def)
  ultimately show ?thesis by (simp add: multisig_publish_def) (simp add: captured_def)
qed

lemma tx_rollback:
  "reverse_adapter_notify multisig_publish (multisig_observer resolve) Rollback tx c =
     bind_result
       (MultisigSettings_observer Rollback (tx_Signer tx) (tx_MinRemovalDelta tx) (tx_MinApprovalDelta tx) c)
       (\<lambda>c. if tx_AddressAdditions tx \<noteq> [] \<or> tx_AddressDeletions tx \<noteq> []
         then MultisigCosignatories_observer resolve Rollback (tx_Signer tx) (tx_AddressAdditions tx)
                (tx_AddressDeletions tx) c
         else Inr c)"
proof -
  have last: "bind_result r (foldM f []) = r" for r :: "multisig_cache result" and f
    by (cases r) simp_all
  show ?thesis
    unfolding reverse_adapter_notify_def captured_publish
    by (cases "MultisigSettings_observer Rollback (tx_Signer tx) (tx_MinRemovalDelta tx) (tx_MinApprovalDelta tx) c")
      (simp_all add: multisig_observer_def last)
qed

text \<open>The notifications of a transaction that was accepted in full.\<close>

lemma accepted_steps:
  assumes "multisig_process config fuel resolve (multisig_publish tx) c = Inr sub"
    and "m_aggregateResult sub = Success"
    and "tx_AddressAdditions tx \<noteq> [] \<or> tx_AddressDeletions tx \<noteq> []"
  obtains c1 where
    "\<forall>x \<in> set (tx_AddressAdditions tx).
       LoopAndLevelChecker_validate fuel (MaxMultisigDepth config) c (tx_Signer tx) (resolve x) = Inr Success"
    "MultisigMaxCosignatories (MaxCosignatoriesPerAccount config) (tx_Signer tx) (tx_AddressAdditions tx)
       (tx_AddressDeletions tx) c = Success"
    "MultisigInvalidCosignatories resolve (tx_Signer tx) (tx_AddressAdditions tx) (tx_AddressDeletions tx) c = Success"
    "MultisigCosignatories_observer resolve Commit (tx_Signer tx) (tx_AddressAdditions tx)
       (tx_AddressDeletions tx) c = Inr c1"
    "MultisigInvalidSettings (tx_Signer tx) (tx_MinRemovalDelta tx) (tx_MinApprovalDelta tx) c1 = Success"
    "MultisigSettings_observer Commit (tx_Signer tx) (tx_MinRemovalDelta tx) (tx_MinApprovalDelta tx) c1
       = Inr (m_state sub)"
proof -
  have "multisig_publish tx = map (\<lambda>x. multisig_notification (NewCosignatory (tx_Signer tx) x)) (tx_AddressAdditions tx)
      @ multisig_notification (Cosignatories (tx_Signer tx) (tx_AddressAdditions tx) (tx_AddressDeletions tx))
      # [multisig_notification (Settings (tx_Signer tx) (tx_MinRemovalDelta tx) (tx_MinApprovalDelta tx))]"
    using assms(3) by (simp add: multisig_publish_def)
  note loops = process_new_cosignatories [OF assms(1) [unfolded this] assms(2)]
  obtain c1 where c1: "MultisigMaxCosignatories (MaxCosignatoriesPerAccount config) (tx_Signer tx)
      (tx_AddressAdditions tx) (tx_AddressDeletions tx) c = Success"
    "MultisigInvalidCosignatories resolve (tx_Signer tx) (tx_AddressAdditions tx) (tx_AddressDeletions tx) c = Success"
    "MultisigCosignatories_observer resolve Commit (tx_Signer tx) (tx_AddressAdditions tx)
       (tx_AddressDeletions tx) c = Inr c1"
    "multisig_process config fuel resolve
       [multisig_notification (Settings (tx_Signer tx) (tx_MinRemovalDelta tx) (tx_MinApprovalDelta tx))] c1 = Inr sub"
    using process_cosignatories [OF conjunct2 [OF loops] assms(2)] .
  with loops process_settings [OF c1(4) assms(2)] that show ?thesis by blast
qed

definition multisig_inv :: "nat \<Rightarrow> multisig_cache \<Rightarrow> bool" where
  "multisig_inv n c \<longleftrightarrow> multisig_ok c \<and> depth_le n (edges c)"

text \<open>The validators establish what the case analysis needs.\<close>

lemma accepted_changeI:
  assumes inv: "multisig_inv (unat (MaxMultisigDepth config)) c" and fuel: "unat (MaxMultisigDepth config) < fuel"
    and wf: "MultisigCosignatories adds dels = Success" "distinct (map resolve adds)" "length adds < 256"
    and loops: "\<forall>x \<in> set adds.
      LoopAndLevelChecker_validate fuel (MaxMultisigDepth config) c m (resolve x) = Inr Success"
    and size: "MultisigMaxCosignatories limit m adds dels c = Success"
    and members: "MultisigInvalidCosignatories resolve m adds dels c = Success"
  shows "accepted_change m c (resolve ` set adds) (resolve ` set dels)
    \<and> distinct (map resolve dels)
    \<and> depth_le (unat (MaxMultisigDepth config)) (edges c \<union> {m} \<times> resolve ` set adds)"
proof -
  let ?n = "unat (MaxMultisigDepth config)"
  have ok: "multisig_ok c" "depth_le ?n (edges c)" using inv by (simp_all add: multisig_inv_def)
  have sym: "symmetric c" using ok(1) links_ok_symmetric [of m c] by (simp add: multisig_ok_def)
  have link: "depth_le ?n (insert (m, resolve x) (edges c))" if "x \<in> set adds" for x
    using loop_and_level [OF sym ok(2) fuel, of m "resolve x"] loops that by auto
  then have depth: "depth_le ?n (edges c \<union> {m} \<times> resolve ` set adds)"
    using ok(2) by (intro new_links_depth) auto
  have self: "m \<notin> resolve ` set adds"
  proof
    assume "m \<in> resolve ` set adds"
    then have "acyclic (insert (m, m) (edges c))" using link depth_le_acyclic by force
    then show False by (auto simp: acyclic_def)
  qed
  note sets = InvalidCosignatories_Success [OF members]
  have dels: "length dels \<le> 1" using wf(1) by (simp add: MultisigCosignatories_def split: if_splits)
  then have dist: "distinct (map resolve dels)" by (cases dels) auto
  then have cardD: "card (resolve ` set dels) = length dels"
    by (metis distinct_card length_map list.set_map)
  have cardA: "card (resolve ` set adds) = length adds"
    using wf(2) by (metis distinct_card length_map list.set_map)
  have "length dels \<le> length (cosignatories_of c m)"
    using cardD sets card_mono [of "set (cosignatories_of c m)" "resolve ` set dels"]
      card_length [of "cosignatories_of c m"] by simp
  moreover have "length (cosignatories_of c m) < 2 ^ 32"
    using multisig_ok_length [OF ok(1)] .
  ultimately have "length (cosignatories_of c m) + length adds - length dels < 2 ^ 32"
    using MaxCosignatories_Success [OF size] wf(3) by blast
  then show ?thesis using ok(1) sets self dels dist depth cardA cardD by (simp add: accepted_change_def)
qed

lemma links_ok_fresh:
  assumes "links_ok m c" and "c m = None"
  shows "links_ok m (c(m \<mapsto> (make_multisig_entry m)\<lparr>minApproval := v, minRemoval := w\<rparr>))
    \<and> cosignatories_of (c(m \<mapsto> (make_multisig_entry m)\<lparr>minApproval := v, minRemoval := w\<rparr>)) = cosignatories_of c"
proof -
  let ?c = "c(m \<mapsto> (make_multisig_entry m)\<lparr>minApproval := v, minRemoval := w\<rparr>)"
  have eq: "cosignatories_of ?c = cosignatories_of c" "multisigs_of ?c = multisigs_of c"
    "\<And>b. b \<noteq> m \<Longrightarrow> thresholds_of ?c b = thresholds_of c b"
    using assms(2) by (auto simp: fun_eq_iff cosignatories_of_def multisigs_of_def thresholds_of_def
        make_multisig_entry_def)
  have "links_ok m ?c"
  proof (rule links_okI)
    show "me_address f = b" if "?c b = Some f" for b f
      using that links_okD(1) [OF assms(1)] by (auto simp: make_multisig_entry_def split: if_splits)
  qed (use links_okD [OF assms(1)] in \<open>auto simp: eq\<close>)
  with eq show ?thesis by simp
qed

lemma edges_cong: "cosignatories_of c = cosignatories_of c' \<Longrightarrow> edges c = edges c'"
  by (auto simp: edges_iff)

lemma edges_changed:
  assumes "cosignatories_changed m c (changed_set m c A D) c1"
  shows "edges c1 \<subseteq> edges c \<union> {m} \<times> A"
proof (rule subrelI)
  fix a b assume "(a, b) \<in> edges c1"
  with assms show "(a, b) \<in> edges c \<union> {m} \<times> A"
    by (cases "a = m") (auto simp: edges_iff cosignatories_changed_def changed_set_def)
qed

text \<open>A change of cosignatories and of settings that was accepted, and its rollback.\<close>

lemma change_reversible:
  assumes ok: "accepted_change m c (resolve ` set adds) (resolve ` set dels)"
    and distinct: "distinct (map resolve adds)" "distinct (map resolve dels)"
    and nontrivial: "adds \<noteq> [] \<or> dels \<noteq> []"
    and commit: "MultisigCosignatories_observer resolve Commit m adds dels c = Inr c1"
    and valid: "MultisigInvalidSettings m r a c1 = Success"
    and settings: "MultisigSettings_observer Commit m r a c1 = Inr s"
  shows "multisig_ok s \<and> edges s \<subseteq> edges c \<union> {m} \<times> resolve ` set adds
    \<and> bind_result (MultisigSettings_observer Rollback m r a s)
         (MultisigCosignatories_observer resolve Rollback m adds dels) = Inr c"
proof -
  let ?A = "resolve ` set adds" and ?D = "resolve ` set dels"
  note sets = ok [unfolded accepted_change_def]
  have c1: "cosignatories_changed m c (changed_set m c ?A ?D) c1"
    using observer_commit [of m c resolve adds dels] accepted_links [OF ok, of m] sets distinct commit
    by (auto simp: changed_set_def)
  then have l1: "links_ok m c1" and C1: "set (cosignatories_of c1 m) = changed_set m c ?A ?D"
    by (simp_all add: cosignatories_changed_def)
  have D: "m \<notin> ?D" using sets links_okD(5) [OF accepted_links [OF ok, of m], of m] by blast
  have restore: "\<exists>c3. MultisigCosignatories_observer resolve Rollback m adds dels c2 = Inr c3
      \<and> cosignatories_changed m c2 ((changed_set m c ?A ?D - ?A) \<union> ?D) c3"
    if "links_ok m c2" "cosignatories_of c2 = cosignatories_of c1" for c2
  proof -
    have "?A \<subseteq> set (cosignatories_of c2 m)" using sets unfolding that(2) C1 changed_set_def by blast
    from observer_rollback [OF that(1) D this distinct(1)] show ?thesis unfolding that(2) C1 .
  qed
  show ?thesis
  proof (cases "c1 m")
    case None
    note absent = settings_absent [where c = c1 and m = m, OF None valid]
    have s: "s = c1" using settings absent(1) by simp
    let ?c2 = "c1(m \<mapsto> (make_multisig_entry m)\<lparr>minApproval := 1, minRemoval := 1\<rparr>)"
    obtain c3 where c3: "MultisigCosignatories_observer resolve Rollback m adds dels ?c2 = Inr c3"
      "cosignatories_changed m ?c2 ((changed_set m c ?A ?D - ?A) \<union> ?D) c3"
      using restore links_ok_fresh [OF l1 None] by blast
    have nt: "?A \<noteq> {} \<or> ?D \<noteq> {}" using nontrivial by simp
    from dropped [OF ok c1 None nt] dropped_back [OF ok c1 None nt refl c3(2)]
    show ?thesis using s absent(2) c3(1) edges_changed [OF c1] by simp
  next
    case (Some e)
    have s: "s = c1(m \<mapsto> with_deltas 1 r a e)"
      "MultisigSettings_observer Rollback m r a s = Inr c1"
      using settings_present [where c = c1 and m = m, OF Some, of r a] settings by auto
    obtain c3 where c3: "MultisigCosignatories_observer resolve Rollback m adds dels c1 = Inr c3"
      "cosignatories_changed m c1 ((changed_set m c ?A ?D - ?A) \<union> ?D) c3"
      using restore [OF l1 refl] by blast
    from kept [OF ok c1 Some valid c3(2)] have "multisig_ok s" "cosignatories_of s = cosignatories_of c1" "c3 = c"
      by (simp_all add: s(1))
    then show ?thesis using s(2) c3(1) edges_changed [OF c1] edges_cong [of s c1] by simp
  qed
qed

lemma modification_reversible:
  assumes inv: "multisig_inv (unat (MaxMultisigDepth config)) c"
    and fuel: "unat (MaxMultisigDepth config) < fuel" and wf: "tx_wf resolve tx"
    and nontrivial: "tx_AddressAdditions tx \<noteq> [] \<or> tx_AddressDeletions tx \<noteq> [] \<or> tx_Signer tx \<in> dom c"
    and run: "multisig_process config fuel resolve (multisig_publish tx) c = Inr sub"
      "m_aggregateResult sub = Success"
  shows "multisig_inv (unat (MaxMultisigDepth config)) (m_state sub)
    \<and> reverse_adapter_notify multisig_publish (multisig_observer resolve) Rollback tx (m_state sub) = Inr c"
proof (cases "tx_AddressAdditions tx \<noteq> [] \<or> tx_AddressDeletions tx \<noteq> []")
  case True
  note wf' = wf [unfolded tx_wf_def]
  from run True show ?thesis
  proof (rule accepted_steps)
    fix c1
    assume loops: "\<forall>x \<in> set (tx_AddressAdditions tx). LoopAndLevelChecker_validate fuel
        (MaxMultisigDepth config) c (tx_Signer tx) (resolve x) = Inr Success"
      and limits: "MultisigMaxCosignatories (MaxCosignatoriesPerAccount config) (tx_Signer tx)
        (tx_AddressAdditions tx) (tx_AddressDeletions tx) c = Success"
        "MultisigInvalidCosignatories resolve (tx_Signer tx) (tx_AddressAdditions tx) (tx_AddressDeletions tx) c = Success"
      and c1: "MultisigCosignatories_observer resolve Commit (tx_Signer tx) (tx_AddressAdditions tx)
        (tx_AddressDeletions tx) c = Inr c1"
        "MultisigInvalidSettings (tx_Signer tx) (tx_MinRemovalDelta tx) (tx_MinApprovalDelta tx) c1 = Success"
        "MultisigSettings_observer Commit (tx_Signer tx) (tx_MinRemovalDelta tx) (tx_MinApprovalDelta tx) c1
           = Inr (m_state sub)"
    have ok: "accepted_change (tx_Signer tx) c (resolve ` set (tx_AddressAdditions tx)) (resolve ` set (tx_AddressDeletions tx))"
      "distinct (map resolve (tx_AddressDeletions tx))"
      "depth_le (unat (MaxMultisigDepth config)) (edges c \<union> {tx_Signer tx} \<times> resolve ` set (tx_AddressAdditions tx))"
      using accepted_changeI [OF inv fuel _ _ _ loops limits] wf' by blast+
    from change_reversible [OF ok(1) _ ok(2) True c1] wf' ok(3) depth_le_mono show ?thesis
      using True by (auto simp: tx_rollback multisig_inv_def)
  qed
next
  case False
  have ok: "multisig_ok c" using inv by (simp add: multisig_inv_def)
  obtain e where e: "c (tx_Signer tx) = Some e" using nontrivial False by auto
  let ?s = "c(tx_Signer tx \<mapsto> with_deltas 1 (tx_MinRemovalDelta tx) (tx_MinApprovalDelta tx) e)"
  have "multisig_publish tx = [multisig_notification (Settings (tx_Signer tx) (tx_MinRemovalDelta tx) (tx_MinApprovalDelta tx))]"
    using False by (simp add: multisig_publish_def)
  note set = process_settings [OF run(1) [unfolded this] run(2)]
  note present = settings_present [where c = c and m = "tx_Signer tx", OF e,
      of "tx_MinRemovalDelta tx" "tx_MinApprovalDelta tx"]
  have s: "m_state sub = ?s" using set present(1) by simp
  have rollback: "reverse_adapter_notify multisig_publish (multisig_observer resolve) Rollback tx ?s = Inr c"
    using present(2) False by (simp add: tx_rollback)
  have "links_ok (tx_Signer tx) c" "\<And>b. thresholds_ok c b" using ok by (simp_all add: multisig_ok_def)
  from settings_ok [OF this(1) e multisig_ok_length [OF ok] _ this(2)] set
  have "multisig_ok ?s" "edges ?s = edges c" using edges_cong [of ?s c] by blast+
  with s rollback inv show ?thesis by (simp add: multisig_inv_def)
qed

section \<open>The plugin meets the contract\<close>

text \<open>
  The rollback of settings cannot tell a transaction that changed nothing from one that dropped the
  last cosignatory, so a transaction that asks for neither additions nor deletions must not lower
  both thresholds by one.
\<close>

definition tx_reversible :: "(UnresolvedAddress \<Rightarrow> Address) \<Rightarrow> MultisigAccountModification \<Rightarrow> bool" where
  "tx_reversible resolve tx \<longleftrightarrow> tx_wf resolve tx
     \<and> (tx_AddressAdditions tx \<noteq> [] \<or> tx_AddressDeletions tx \<noteq> []
        \<or> sint (tx_MinRemovalDelta tx) \<noteq> - 1 \<or> sint (tx_MinApprovalDelta tx) \<noteq> - 1)"

definition plugin_ok :: "MultisigConfiguration \<Rightarrow> nat \<Rightarrow> multisig_cache \<Rightarrow> bool" where
  "plugin_ok config fuel c \<longleftrightarrow>
     unat (MaxMultisigDepth config) < fuel \<and> multisig_inv (unat (MaxMultisigDepth config)) c"

lemma accepted_signer_known:
  assumes "tx_reversible resolve tx" and "multisig_process config fuel resolve (multisig_publish tx) c = Inr sub"
    and "m_aggregateResult sub = Success"
  shows "tx_AddressAdditions tx \<noteq> [] \<or> tx_AddressDeletions tx \<noteq> [] \<or> tx_Signer tx \<in> dom c"
proof (rule ccontr)
  assume none: "\<not> ?thesis"
  then have "multisig_publish tx = [multisig_notification (Settings (tx_Signer tx) (tx_MinRemovalDelta tx) (tx_MinApprovalDelta tx))]"
    by (simp add: multisig_publish_def)
  from process_settings [OF assms(2) [unfolded this] assms(3)] none assms(1) show False
    by (auto simp: MultisigInvalidSettings_def tx_reversible_def split: option.splits if_splits)
qed

interpretation multisig_plugin: reversible_entities multisig_publish "multisig_validator config fuel resolve"
  "multisig_observer resolve" "plugin_ok config fuel" "tx_reversible resolve" for config fuel resolve
proof
  fix c e sub
  assume ok: "plugin_ok config fuel c" and wf: "tx_reversible resolve e"
    and run: "multisig_process config fuel resolve (multisig_publish e) c = Inr sub" "m_aggregateResult sub = Success"
  from modification_reversible [OF _ _ _ accepted_signer_known [OF wf run] run] ok wf
  show "plugin_ok config fuel (m_state sub)
      \<and> reverse_adapter_notify multisig_publish (multisig_observer resolve) Rollback e (m_state sub) = Inr c"
    by (simp add: plugin_ok_def tx_reversible_def)
qed

section \<open>Properties\<close>

definition sample_config :: MultisigConfiguration where
  "sample_config = \<lparr>MaxMultisigDepth = 3, MaxCosignatoriesPerAccount = 25, MaxCosignedAccountsPerAccount = 25\<rparr>"

definition sample_modification :: "u8 \<Rightarrow> u8 \<Rightarrow> UnresolvedAddress list \<Rightarrow> UnresolvedAddress list \<Rightarrow> MultisigAccountModification" where
  "sample_modification r a adds dels =
     \<lparr>tx_Signer = [1], tx_MinRemovalDelta = r, tx_MinApprovalDelta = a, tx_AddressAdditions = adds,
      tx_AddressDeletions = dels\<rparr>"

lemma empty_ok: "multisig_inv n Map.empty"
proof -
  have "cosignatories_of Map.empty a = [] \<and> multisigs_of Map.empty a = [] \<and> thresholds_of Map.empty a = (0, 0)" for a
    by (rule of_absent) simp
  then have "links_ok m Map.empty" "thresholds_ok Map.empty a" for m a
    by (auto simp: thresholds_ok_def intro!: links_okI)
  moreover have "edges Map.empty = {}" by (auto simp: edges_def)
  ultimately show ?thesis by (simp add: multisig_inv_def multisig_ok_def depth_le_def)
qed

text \<open>
  C8. Consider a block of modification transactions that all validators accept, in which no transaction is one of those that the code cannot roll back: its additions resolve to
  different accounts and are fewer than 256, and a transaction without additions and deletions does not lower both thresholds by one. Such a block keeps the multisig invariant:
  links are mutual and acyclic, no chain exceeds the maximum depth, every entry has a link, and the
  thresholds of a multisig account lie between one and the number of its cosignatories. Executing the
  block without validation leads to the same cache, and rolling it back restores the old one exactly.
\<close>

theorem multisig_block_rollback:
  assumes "multisig_inv (unat (MaxMultisigDepth config)) c" and "unat (MaxMultisigDepth config) < fuel"
    and "\<forall>tx \<in> set txs. tx_reversible resolve tx"
    and "BatchEntityProcessor multisig_publish (multisig_validator config fuel resolve) (multisig_observer resolve)
           txs c = Inr (Success, c')"
  shows "multisig_inv (unat (MaxMultisigDepth config)) c'
    \<and> ExecuteBlock (adapter_notify multisig_publish (multisig_observer resolve)) txs c = Inr c'
    \<and> RollbackBlock (reverse_adapter_notify multisig_publish (multisig_observer resolve)) id txs c' = Inr c"
  using multisig_plugin.block_reversible [OF assms(4), where commitRemovals = id] assms(1-3)
  by (simp add: plugin_ok_def)

theorem multisig_block_rollback_witness:
  "\<exists>c'. BatchEntityProcessor multisig_publish (multisig_validator sample_config 4 id) (multisig_observer id)
       [sample_modification 2 2 [[2], [3]] [], sample_modification (- 1) (- 1) [] [[3]], sample_modification (- 1) (- 1) [] [[2]]] Map.empty
     = Inr (Success, c')
   \<and> RollbackBlock (reverse_adapter_notify multisig_publish (multisig_observer id)) id
       [sample_modification 2 2 [[2], [3]] [], sample_modification (- 1) (- 1) [] [[3]], sample_modification (- 1) (- 1) [] [[2]]] c' = Inr Map.empty"
proof -
  let ?txs = "[sample_modification 2 2 [[2], [3]] [], sample_modification (- 1) (- 1) [] [[3]], sample_modification (- 1) (- 1) [] [[2]]]"
  let ?r = "BatchEntityProcessor multisig_publish (multisig_validator sample_config 4 id) (multisig_observer id) ?txs Map.empty"
  have "case ?r of Inl e \<Rightarrow> False | Inr (v, c') \<Rightarrow> IsValidationResultSuccess v" by code_simp
  then obtain c' where run: "?r = Inr (Success, c')" by (auto split: sum.splits prod.splits)
  have "\<forall>tx \<in> set ?txs. tx_reversible id tx"
    by (simp add: tx_reversible_def tx_wf_def sample_modification_def MultisigCosignatories_def)
  with run multisig_block_rollback [OF empty_ok _ _ run] show ?thesis by (auto simp: sample_config_def)
qed

section \<open>Where the code does not undo what it did\<close>

definition alias_resolver :: "UnresolvedAddress \<Rightarrow> Address" where
  "alias_resolver a = (if a = [9] then [2] else a)"

definition one_of_one :: multisig_cache where
  "one_of_one = map_of [([1], sample_entry [1] [[2]] []), ([2], sample_entry [2] [] [[1]])]"



text \<open>
  Two additions that differ as unresolved addresses but resolve to the same account pass every
  validator. The rollback removes the account twice and throws at the second removal.
\<close>

theorem duplicate_addition_rollback_throws:
  "MultisigCosignatories [[2], [9]] [] = Success
   \<and> (case BatchEntityProcessor multisig_publish (multisig_validator sample_config 4 alias_resolver)
              (multisig_observer alias_resolver) [sample_modification 1 1 [[2], [9]] []] Map.empty of
        Inl e \<Rightarrow> False
      | Inr (v, c') \<Rightarrow> IsValidationResultSuccess v
          \<and> (case RollbackBlock (reverse_adapter_notify multisig_publish (multisig_observer alias_resolver)) id
                    [sample_modification 1 1 [[2], [9]] []] c' of
               Inl e \<Rightarrow> e = invalid_argument | Inr _ \<Rightarrow> False))"
  by code_simp

text \<open>
  A transaction that removes the only cosignatory of an account but does not lower the thresholds is
  rejected after its cosignatories were observed. Undoing it restores the cosignatory with both
  thresholds at zero, and from then on every operation of the account counts as approved.
\<close>

lemma undo_loses_thresholds:
  "thresholds_of one_of_one [1] = (1, 1)
   \<and> isSatisfied 4 one_of_one {} Operation_Normal [1] = Inr False
   \<and> (case foldM (sub_notify (multisig_validator sample_config 4 id) (multisig_observer id))
              (multisig_publish (sample_modification 0 0 [] [[2]]))
              (enableUndo (make_subscriber Commit one_of_one)) of
        Inl e \<Rightarrow> False
      | Inr sub \<Rightarrow> m_aggregateResult sub = Failure Failure_Multisig_Min_Setting_Out_Of_Range
          \<and> (case undo (multisig_observer id) sub of
               Inl e \<Rightarrow> False
             | Inr sub \<Rightarrow> thresholds_of (m_state sub) [1] = (0, 0)
                 \<and> cosignatories_of (m_state sub) [1] = [[2]]
                 \<and> isSatisfied 4 (m_state sub) {} Operation_Normal [1] = Inr True))"
  by code_simp

end
