(* ===== verification/Chain_Scoring.thy ===== *)
theory Chain_Scoring
  imports Prelude Complex_Main "HOL-Library.Signed_Division"
begin

unbundle bit_operations_syntax

text \<open>
  The weight of a chain: difficulties, scores, hits and targets.

  \<^item> \<^verbatim>\<open>types.h\<close>, \<^verbatim>\<open>utils/ClampedBaseValue.h\<close>: the clamped \<^verbatim>\<open>Difficulty\<close>;
  \<^item> \<^verbatim>\<open>cache_core/BlockStatisticCacheMixins.h\<close>, \<^verbatim>\<open>BlockStatisticCacheDelta.cpp\<close>: the window of block
    statistics from which a difficulty is computed, and the cache that holds them;
  \<^item> \<^verbatim>\<open>chain/BlockDifficultyScorer.cpp\<close>: the retargeting of the difficulty;
  \<^item> \<^verbatim>\<open>chain/BlockScorer.cpp\<close>, \<^verbatim>\<open>utils/IntegerMath.cpp\<close>: block scores, hits and targets;
  \<^item> \<^verbatim>\<open>chain/ChainUtils.cpp\<close>: chain links, the check of the difficulties of a peer chain and the
    partial score of a chain;
  \<^item> \<^verbatim>\<open>model/ChainScore.h\<close>: the checked 128-bit chain score and its deltas.

  The conversion of a Boost 128-bit integer to \<^verbatim>\<open>uint64_t\<close> is an argument \<open>narrow\<close> of the definitions
  that use it; what is documented of it, that it preserves a value in the range of the target, is
  the hypothesis \<open>narrow_ok\<close>.
\<close>

section \<open>Blocks\<close>

type_synonym u128 = "128 word"
type_synonym u256 = "256 word"

text \<open>
  \<^verbatim>\<open>model::Block\<close>: the header fields that the modelled code reads. The footer of an importance block
  is the last field.
\<close>

record Block =
  block_SignerPublicKey :: Key
  block_Type :: u16
  block_Height :: Height
  block_Timestamp :: Timestamp
  block_Difficulty :: u64
  block_PreviousBlockHash :: Hash256
  block_FeeMultiplier :: u32
  block_GenerationHashProof :: bytes
  block_ReceiptsHash :: Hash256
  block_StateHash :: Hash256
  block_PreviousImportanceBlockHash :: Hash256

text \<open>\<^verbatim>\<open>model::BlockchainConfiguration\<close>: the settings that the modelled code reads.\<close>

record BlockchainConfiguration =
  BlockGenerationTargetTime :: u64
  BlockTimeSmoothingFactor :: u32
  MaxDifficultyBlocks :: u32
  TotalChainImportance :: Importance

text \<open>\<^verbatim>\<open>utils::TimeSpan\<close> holds signed milliseconds.\<close>

definition TimeSpan_millis :: "u64 \<Rightarrow> u64" where
  "TimeSpan_millis duration = duration"

definition TimeSpan_seconds :: "u64 \<Rightarrow> u64" where
  "TimeSpan_seconds duration = word_of_int (sint duration sdiv 1000)"

definition TimeSpan_FromDifference :: "Timestamp \<Rightarrow> Timestamp \<Rightarrow> u64" where
  "TimeSpan_FromDifference end_time start_time = end_time - start_time"

section \<open>Difficulty values\<close>

definition Difficulty_Default_Value :: u64 where
  "Difficulty_Default_Value = 100000000000000"

definition Difficulty_Min_Value :: u64 where
  "Difficulty_Min_Value = Difficulty_Default_Value div 10"

definition Difficulty_Max_Value :: u64 where
  "Difficulty_Max_Value = Difficulty_Default_Value * 10"

definition Clamp :: "u64 \<Rightarrow> u64" where
  "Clamp v = (if v < Difficulty_Min_Value then Difficulty_Min_Value
    else if v > Difficulty_Max_Value then Difficulty_Max_Value else v)"

text \<open>The constructors of \<^verbatim>\<open>Difficulty\<close>, and the arithmetic of \<^verbatim>\<open>ClampedBaseValue\<close>.\<close>

definition Difficulty_new :: "u64 \<Rightarrow> u64" where
  "Difficulty_new v = Clamp v"

definition Difficulty_default :: u64 where
  "Difficulty_default = Difficulty_new Difficulty_Default_Value"

definition Difficulty_plus :: "u64 \<Rightarrow> u64 \<Rightarrow> u64" where
  "Difficulty_plus d rhs = Difficulty_new (d + rhs)"

definition Difficulty_minus :: "u64 \<Rightarrow> u64 \<Rightarrow> u64" where
  "Difficulty_minus d rhs = d - rhs"

section \<open>Block statistics\<close>

record BlockStatistic =
  stat_Height :: Height
  stat_Timestamp :: Timestamp
  stat_Difficulty :: u64
  stat_FeeMultiplier :: u32

definition BlockStatistic_new :: "Block \<Rightarrow> BlockStatistic" where
  "BlockStatistic_new b = \<lparr>stat_Height = block_Height b, stat_Timestamp = block_Timestamp b,
     stat_Difficulty = block_Difficulty b, stat_FeeMultiplier = block_FeeMultiplier b\<rparr>"

text \<open>
  The ordered set of statistics (\<^verbatim>\<open>operator<\<close> compares heights) is the list of its elements in
  ascending order. An insertion of an element whose height is present has no effect.
\<close>

fun stat_insert :: "BlockStatistic \<Rightarrow> BlockStatistic list \<Rightarrow> BlockStatistic list" where
  "stat_insert s [] = [s]"
| "stat_insert s (t # ts) =
     (if stat_Height s < stat_Height t then s # t # ts
      else if stat_Height s = stat_Height t then t # ts
      else t # stat_insert s ts)"

text \<open>\<^verbatim>\<open>FindIterator\<close>: the tail of the iteration that starts at the element, or nothing (\<^verbatim>\<open>end()\<close>).\<close>

fun FindIterator :: "BlockStatistic list \<Rightarrow> Height \<Rightarrow> BlockStatistic list" where
  "FindIterator [] h = []"
| "FindIterator (s # ss) h = (if stat_Height s = h then s # ss else FindIterator ss h)"

text \<open>
  \<^verbatim>\<open>statistics(height, count)\<close>: the range from the first element to the one at the height, both
  included. A first iterator that is not found would be \<^verbatim>\<open>end()\<close>, behind the last one.
\<close>

definition statistics :: "BlockStatistic list \<Rightarrow> Height \<Rightarrow> u64 \<Rightarrow> BlockStatistic list result" where
  "statistics ss height count =
    (case ss of [] \<Rightarrow> Inl runtime_error
     | s # _ \<Rightarrow>
       if height = 0 \<or> count = 0 then Inl invalid_argument
       else let lastIter = FindIterator ss height in
         if lastIter = [] then Inl invalid_argument
         else let first = (if height - stat_Height s < count - 1 then stat_Height s
                           else height - (count - 1));
                  firstIter = FindIterator ss first
              in if length firstIter < length lastIter then Inl undefined_behaviour
                 else Inr (take (length firstIter - length lastIter + 1) firstIter))"

section \<open>The retargeting of the difficulty\<close>

text \<open>
  \<^verbatim>\<open>CalculateDifficulty\<close> of a range: the sum of the difficulties is a 64-bit sum, the product is an
  unchecked 128-bit product, and the division of Boost throws for a divisor of zero.
\<close>

definition CalculateDifficulty :: "(u128 \<Rightarrow> u64) \<Rightarrow> BlockStatistic list \<Rightarrow> BlockchainConfiguration \<Rightarrow> u64 result" where
  "CalculateDifficulty narrow ss config =
    (let historySize = length ss;
         sum = fold (\<lambda>s acc. acc + stat_Difficulty s) ss 0
     in if historySize < 2 then Inr Difficulty_default
        else let firstTimestamp = stat_Timestamp (hd ss);
                 lastTimestamp = stat_Timestamp (last ss);
                 lastDifficulty = stat_Difficulty (last ss);
                 timeDiff = lastTimestamp - firstTimestamp;
                 averageDifficulty = sum div of_nat historySize;
                 largeDifficulty = (ucast averageDifficulty :: u128)
                   * ucast (TimeSpan_millis (BlockGenerationTargetTime config)) * (of_nat historySize - 1)
             in if timeDiff = 0 then Inl runtime_error
                else let difficulty = narrow (largeDifficulty div ucast timeDiff)
                     in Inr (Difficulty_new
                          (if 19 * lastDifficulty > 20 * difficulty then (19 * lastDifficulty) div 20
                           else if 21 * lastDifficulty < 20 * difficulty then (21 * lastDifficulty) div 20
                           else difficulty)))"

text \<open>The overloads that read the window from the cache.\<close>

definition CalculateDifficulty_at :: "(u128 \<Rightarrow> u64) \<Rightarrow> BlockStatistic list \<Rightarrow> Height \<Rightarrow> BlockchainConfiguration
    \<Rightarrow> u64 result" where
  "CalculateDifficulty_at narrow cache height config =
    bind_result (statistics cache height (ucast (MaxDifficultyBlocks config)))
      (\<lambda>ss. CalculateDifficulty narrow ss config)"

definition TryCalculateDifficulty :: "(u128 \<Rightarrow> u64) \<Rightarrow> BlockStatistic list \<Rightarrow> Height \<Rightarrow> BlockchainConfiguration
    \<Rightarrow> u64 option result" where
  "TryCalculateDifficulty narrow cache height config =
    (if \<not> (\<exists>s \<in> set cache. stat_Height s = height) then Inr None
     else bind_result (CalculateDifficulty_at narrow cache height config) (\<lambda>d. Inr (Some d)))"

section \<open>Chain links and the check of the difficulties of a peer chain\<close>

definition IsChainLink :: "Block \<Rightarrow> Hash256 \<Rightarrow> Block \<Rightarrow> bool" where
  "IsChainLink parent parentHash child \<longleftrightarrow>
    (if block_Height parent + 1 \<noteq> block_Height child \<or> parentHash \<noteq> block_PreviousBlockHash child then False
     else block_Timestamp parent < block_Timestamp child)"

definition LoadDifficulties :: "BlockStatistic list \<Rightarrow> Height \<Rightarrow> BlockchainConfiguration \<Rightarrow> BlockStatistic list result" where
  "LoadDifficulties cache height config =
    bind_result (statistics cache height (ucast (MaxDifficultyBlocks config)))
      (\<lambda>range. Inr (fold stat_insert range []))"

fun CheckDifficulties_loop :: "(u128 \<Rightarrow> u64) \<Rightarrow> BlockchainConfiguration \<Rightarrow> BlockStatistic list \<Rightarrow> u64 \<Rightarrow> Block list
    \<Rightarrow> nat \<Rightarrow> nat result" where
  "CheckDifficulties_loop narrow config difficulties difficulty [] i = Inr i"
| "CheckDifficulties_loop narrow config difficulties difficulty (b # bs) i =
     (if difficulty \<noteq> block_Difficulty b then Inr i
      else let ds = stat_insert (BlockStatistic_new b) difficulties;
               ds' = (if length ds > unat (MaxDifficultyBlocks config) then tl ds else ds)
           in bind_result (CalculateDifficulty narrow ds' config)
                (\<lambda>d. CheckDifficulties_loop narrow config ds' d bs (i + 1)))"

definition CheckDifficulties :: "(u128 \<Rightarrow> u64) \<Rightarrow> BlockStatistic list \<Rightarrow> Block list \<Rightarrow> BlockchainConfiguration
    \<Rightarrow> nat result" where
  "CheckDifficulties narrow cache blocks config =
    (case blocks of [] \<Rightarrow> Inr 0
     | b # _ \<Rightarrow>
       bind_result (LoadDifficulties cache (block_Height b - 1) config)
         (\<lambda>ds. bind_result (CalculateDifficulty narrow ds config)
           (\<lambda>d. CheckDifficulties_loop narrow config ds d blocks 0)))"

section \<open>Chain scores\<close>

text \<open>
  \<^verbatim>\<open>ChainScore\<close> is a checked 128-bit value: an overflow or a negative result throws. A delta is an
  \<^verbatim>\<open>int64_t\<close>; the negation of its smallest value is undefined.
\<close>

type_synonym ChainScore = u128

definition ChainScore_new :: "u64 \<Rightarrow> u64 \<Rightarrow> ChainScore" where
  "ChainScore_new scoreHigh scoreLow = push_bit 64 (ucast scoreHigh) + ucast scoreLow"

definition ChainScore_toArray :: "ChainScore \<Rightarrow> u64 \<times> u64" where
  "ChainScore_toArray score =
    (ucast (drop_bit 64 score), ucast (score AND ucast (- 1 :: u64)))"

definition ChainScore_plus :: "ChainScore \<Rightarrow> ChainScore \<Rightarrow> ChainScore result" where
  "ChainScore_plus score rhs =
    (if unat score + unat rhs < 2 ^ 128 then Inr (score + rhs) else Inl runtime_error)"

definition ChainScore_plus_delta :: "ChainScore \<Rightarrow> 64 word \<Rightarrow> ChainScore result" where
  "ChainScore_plus_delta score rhs =
    (if sint rhs < 0 then
       if sint rhs = - (2 ^ 63) then Inl undefined_behaviour
       else if unat score < unat (- rhs) then Inl runtime_error
       else Inr (score - ucast (- rhs))
     else ChainScore_plus score (ucast rhs))"

definition ChainScore_minus :: "ChainScore \<Rightarrow> ChainScore \<Rightarrow> 64 word result" where
  "ChainScore_minus score rhs =
    (let res = (if rhs < score then score - rhs else rhs - score)
     in if res > 2 ^ 63 - 1 then Inl runtime_error
        else if rhs < score then Inr (ucast res) else Inr (- ucast res))"

definition CalculateScore :: "Block \<Rightarrow> Block \<Rightarrow> u64" where
  "CalculateScore parentBlock currentBlock =
    (if block_Timestamp currentBlock \<le> block_Timestamp parentBlock then 0
     else block_Difficulty currentBlock
       - TimeSpan_seconds (TimeSpan_FromDifference (block_Timestamp currentBlock) (block_Timestamp parentBlock)))"

fun CalculatePartialChainScore_loop :: "ChainScore \<Rightarrow> Block \<Rightarrow> Block list \<Rightarrow> ChainScore result" where
  "CalculatePartialChainScore_loop score previous [] = Inr score"
| "CalculatePartialChainScore_loop score previous (b # bs) =
     bind_result (ChainScore_plus score (ucast (CalculateScore previous b)))
       (\<lambda>score'. CalculatePartialChainScore_loop score' b bs)"

definition CalculatePartialChainScore :: "Block \<Rightarrow> Block list \<Rightarrow> ChainScore result" where
  "CalculatePartialChainScore parent blocks = CalculatePartialChainScore_loop 0 parent blocks"


section \<open>Words that do not leave their width\<close>

lemma unat_mult_lt: "unat a * unat b < 2 ^ LENGTH('a) \<Longrightarrow> unat (a * b) = unat a * unat b"
  for a b :: "'a :: len word"
  by (simp add: unat_word_ariths)

lemma unat_ucast_128 [simp]: "unat (ucast (a :: u64) :: u128) = unat a"
proof -
  have "unat a < 2 ^ 64" using unsigned_less [of a] by simp
  then have "unat a < 2 ^ 128" by simp
  then show ?thesis by (simp add: unsigned_ucast_eq take_bit_nat_eq_self)
qed

lemma unat_u64_lt: "unat (a :: u64) < 2 ^ 64"
  using unsigned_less [of a] by simp

section \<open>The retargeting formula\<close>

definition narrow_ok :: "(u128 \<Rightarrow> u64) \<Rightarrow> bool" where
  "narrow_ok narrow \<longleftrightarrow> (\<forall>v. unat v < 2 ^ 64 \<longrightarrow> narrow v = ucast v)"

lemma unat_narrow: "narrow_ok narrow \<Longrightarrow> unat v < 2 ^ 64 \<Longrightarrow> unat (narrow v) = unat v"
  by (simp add: narrow_ok_def unsigned_ucast_eq take_bit_nat_eq_self)

text \<open>
  The formula over the natural numbers, without a width: the average difficulty times the ratio of
  the intended and the elapsed time, moved by at most five percent from the last difficulty and
  kept between the smallest and the largest difficulty.
\<close>

definition retarget_raw :: "BlockStatistic list \<Rightarrow> nat \<Rightarrow> nat" where
  "retarget_raw ss target =
    (sum_list (map (unat \<circ> stat_Difficulty) ss) div length ss) * target * (length ss - 1)
      div (unat (stat_Timestamp (last ss)) - unat (stat_Timestamp (hd ss)))"

definition retarget :: "BlockStatistic list \<Rightarrow> nat \<Rightarrow> nat" where
  "retarget ss target =
    (let l = unat (stat_Difficulty (last ss));
         lower = 19 * l div 20; upper = 21 * l div 20
     in max (10 ^ 13) (min (10 ^ 15) (max lower (min upper (retarget_raw ss target)))))"

text \<open>
  A window of a chain whose blocks are at least a second apart: a block with an elapsed time of
  less than a second has a target of zero and cannot be harvested.
\<close>

definition difficulty_ok :: "u64 \<Rightarrow> bool" where
  "difficulty_ok d \<longleftrightarrow> Difficulty_Min_Value \<le> d \<and> d \<le> Difficulty_Max_Value"

definition window_ok :: "BlockStatistic list \<Rightarrow> bool" where
  "window_ok ss \<longleftrightarrow> 2 \<le> length ss \<and> length ss \<le> 10000 \<and> (\<forall>s \<in> set ss. difficulty_ok (stat_Difficulty s))
     \<and> unat (stat_Timestamp (hd ss)) + 1000 * (length ss - 1) \<le> unat (stat_Timestamp (last ss))"

lemma difficulty_ok_unat: "difficulty_ok d \<longleftrightarrow> 10 ^ 13 \<le> unat d \<and> unat d \<le> 10 ^ 15"
  by (simp add: difficulty_ok_def Difficulty_Min_Value_def Difficulty_Max_Value_def
      Difficulty_Default_Value_def word_le_nat_alt)

lemma unat_Clamp: "unat (Clamp v) = max (10 ^ 13) (min (10 ^ 15) (unat v))"
  by (simp add: Clamp_def Difficulty_Min_Value_def Difficulty_Max_Value_def
      Difficulty_Default_Value_def word_less_nat_alt)

lemma difficulty_ok_Clamp: "difficulty_ok (Clamp v)"
  by (simp add: difficulty_ok_unat unat_Clamp)

lemma sum_difficulties_le:
  "\<forall>s \<in> set ss. difficulty_ok (stat_Difficulty s)
    \<Longrightarrow> sum_list (map (unat \<circ> stat_Difficulty) ss) \<le> length ss * 10 ^ 15"
  by (induction ss) (auto simp: difficulty_ok_unat)

lemma unat_fold_plus:
  "unat acc + sum_list (map (unat \<circ> f) ss) < 2 ^ 64
    \<Longrightarrow> unat (fold (\<lambda>s acc. acc + f s) ss acc) = unat acc + sum_list (map (unat \<circ> f) ss)"
  for acc :: u64
proof (induction ss arbitrary: acc)
  case (Cons s ss)
  then have "unat (acc + f s) = unat acc + unat (f s)"
    by (simp add: unat_word_ariths)
  then show ?case using Cons by (simp add: algebra_simps)
qed simp

lemma average_le:
  assumes "window_ok ss"
  shows "unat (fold (\<lambda>s acc. acc + stat_Difficulty s) ss 0 div of_nat (length ss))
      = sum_list (map (unat \<circ> stat_Difficulty) ss) div length ss"
    and "sum_list (map (unat \<circ> stat_Difficulty) ss) div length ss \<le> 10 ^ 15"
proof -
  have sum: "sum_list (map (unat \<circ> stat_Difficulty) ss) \<le> length ss * 10 ^ 15"
    and n: "2 \<le> length ss" "length ss \<le> 10000"
    using assms sum_difficulties_le by (auto simp: window_ok_def)
  have "length ss * 10 ^ 15 < 2 ^ 64" using n by simp
  then have "unat (fold (\<lambda>s acc. acc + stat_Difficulty s) ss (0 :: u64))
      = sum_list (map (unat \<circ> stat_Difficulty) ss)"
    using unat_fold_plus [of 0 stat_Difficulty ss] sum by simp
  moreover have "unat (of_nat (length ss) :: u64) = length ss"
    using n by (simp add: unat_of_nat)
  ultimately show "unat (fold (\<lambda>s acc. acc + stat_Difficulty s) ss 0 div of_nat (length ss))
      = sum_list (map (unat \<circ> stat_Difficulty) ss) div length ss"
    by (simp add: unat_div)
  have "sum_list (map (unat \<circ> stat_Difficulty) ss) div length ss \<le> (length ss * 10 ^ 15) div length ss"
    using sum by (rule div_le_mono)
  then show "sum_list (map (unat \<circ> stat_Difficulty) ss) div length ss \<le> 10 ^ 15"
    using n by (simp split: if_splits)
qed

lemma retarget_raw_le:
  assumes "window_ok ss" and "target \<le> 900000"
  shows "retarget_raw ss target \<le> 900 * 10 ^ 15"
proof -
  define a where "a = sum_list (map (unat \<circ> stat_Difficulty) ss) div length ss"
  define k where "k = length ss - 1"
  define t where "t = unat (stat_Timestamp (last ss)) - unat (stat_Timestamp (hd ss))"
  have a: "a \<le> 10 ^ 15" using average_le(2) [OF assms(1)] by (simp add: a_def)
  have k: "0 < k" "1000 * k \<le> t" using assms(1) by (auto simp: window_ok_def k_def t_def)
  have "a * target * k \<le> 10 ^ 15 * 900000 * k"
    using a assms(2) by (intro mult_le_mono) auto
  then have "a * target * k div t \<le> (10 ^ 15 * 900000 * k) div t" by (rule div_le_mono)
  also have "\<dots> \<le> (10 ^ 15 * 900000 * k) div (1000 * k)" using k by (intro div_le_mono2) auto
  also have "\<dots> = (10 ^ 15 * 900) * (1000 * k) div (1000 * k)"
    by (simp add: mult.commute mult.left_commute)
  also have "\<dots> = 10 ^ 15 * 900" using k by simp
  finally show ?thesis by (simp add: retarget_raw_def a_def k_def t_def)
qed


lemma large_difficulty:
  fixes target :: u64
  assumes "window_ok ss" and "unat target \<le> 900000"
  shows "unat (((ucast (fold (\<lambda>s acc. acc + stat_Difficulty s) ss 0 div of_nat (length ss)) :: u128)
        * ucast target * (of_nat (length ss) - 1))
      div ucast (stat_Timestamp (last ss) - stat_Timestamp (hd ss))) = retarget_raw ss (unat target)"
proof -
  define a where "a = fold (\<lambda>s acc. acc + stat_Difficulty s) ss 0 div (of_nat (length ss) :: u64)"
  have a: "unat a = sum_list (map (unat \<circ> stat_Difficulty) ss) div length ss" "unat a \<le> 10 ^ 15"
    using average_le [OF assms(1)] by (simp_all add: a_def)
  have n: "2 \<le> length ss" "length ss \<le> 10000" using assms(1) by (auto simp: window_ok_def)
  have t: "stat_Timestamp (hd ss) \<le> stat_Timestamp (last ss)"
    using assms(1) by (auto simp: window_ok_def word_le_nat_alt)
  have "(of_nat (length ss) :: u128) - 1 = of_nat (length ss - 1)" using n by (simp add: of_nat_diff)
  then have k: "unat ((of_nat (length ss) :: u128) - 1) = length ss - 1"
    using n by (simp only: unat_of_nat) simp
  have "unat a * unat target \<le> 10 ^ 15 * 900000"
    using a(2) assms(2) by (rule mult_le_mono)
  then have m1: "unat ((ucast a :: u128) * ucast target) = unat a * unat target"
    by (intro trans [OF unat_mult_lt]) auto
  have "unat a * unat target * (length ss - 1) \<le> 10 ^ 15 * 900000 * 10000"
    using a(2) assms(2) n by (intro mult_le_mono) auto
  then have m2: "unat ((ucast a :: u128) * ucast target * (of_nat (length ss) - 1))
      = unat a * unat target * (length ss - 1)"
    by (subst unat_mult_lt) (auto simp: m1 k)
  have d: "unat (stat_Timestamp (last ss) - stat_Timestamp (hd ss))
      = unat (stat_Timestamp (last ss)) - unat (stat_Timestamp (hd ss))"
    using t by (rule unat_sub_le)
  show ?thesis by (simp only: unat_div m2 unat_ucast_128 d a_def [symmetric] retarget_raw_def a(1))
qed

text \<open>The three branches of the five percent rule agree with the formula while twenty times the value fits.\<close>

lemma clamp_nat:
  "(if 20 * d < 19 * l then 19 * l div 20 else if 21 * l < 20 * d then 21 * l div 20 else d)
    = max (19 * l div 20) (min (21 * l div 20) d)" for l d :: nat
proof -
  have "19 * l div 20 \<le> 21 * l div 20" by (rule div_le_mono) simp
  moreover have "20 * d < 19 * l \<Longrightarrow> d \<le> 19 * l div 20"
    and "\<not> 20 * d < 19 * l \<Longrightarrow> 19 * l div 20 \<le> d"
    and "21 * l < 20 * d \<Longrightarrow> 21 * l div 20 \<le> d"
    and "\<not> 21 * l < 20 * d \<Longrightarrow> d \<le> 21 * l div 20" by linarith+
  ultimately show ?thesis by (auto simp: max_def min_def)
qed

lemma five_percent:
  fixes l d :: u64
  assumes "unat l \<le> 10 ^ 15" and "unat d \<le> 900 * 10 ^ 15"
  shows "unat (if 19 * l > 20 * d then (19 * l) div 20
      else if 21 * l < 20 * d then (21 * l) div 20 else d)
    = max (19 * unat l div 20) (min (21 * unat l div 20) (unat d))"
proof -
  have u: "unat (19 * l) = 19 * unat l" "unat (21 * l) = 21 * unat l" "unat (20 * d) = 20 * unat d"
    using assms by (simp_all add: unat_word_ariths)
  show ?thesis
    unfolding clamp_nat [symmetric] by (simp add: word_less_nat_alt unat_div u)
qed

lemma CalculateDifficulty_retarget:
  assumes ok: "window_ok ss" and target: "unat (BlockGenerationTargetTime config) \<le> 900000"
    and narrow: "narrow_ok narrow"
  shows "\<exists>d. CalculateDifficulty narrow ss config = Inr d
    \<and> unat d = retarget ss (unat (BlockGenerationTargetTime config)) \<and> difficulty_ok d"
proof -
  define v where "v = ((ucast (fold (\<lambda>s acc. acc + stat_Difficulty s) ss 0 div of_nat (length ss)) :: u128)
        * ucast (BlockGenerationTargetTime config) * (of_nat (length ss) - 1))
      div ucast (stat_Timestamp (last ss) - stat_Timestamp (hd ss))"
  have v: "unat v = retarget_raw ss (unat (BlockGenerationTargetTime config))"
    unfolding v_def using ok target by (rule large_difficulty)
  have v_le: "unat v \<le> 900 * 10 ^ 15"
    unfolding v using ok target by (rule retarget_raw_le)
  then have nv: "unat (narrow v) = unat v" using narrow by (intro unat_narrow) auto
  have l: "unat (stat_Difficulty (last ss)) \<le> 10 ^ 15"
    using ok by (cases ss) (auto simp: window_ok_def difficulty_ok_unat)
  have ne: "stat_Timestamp (last ss) - stat_Timestamp (hd ss) \<noteq> 0" and n: "\<not> length ss < 2"
    using ok by (auto simp: window_ok_def)
  define e where "e = (if 19 * stat_Difficulty (last ss) > 20 * narrow v then (19 * stat_Difficulty (last ss)) div 20
      else if 21 * stat_Difficulty (last ss) < 20 * narrow v then (21 * stat_Difficulty (last ss)) div 20
      else narrow v)"
  have "CalculateDifficulty narrow ss config = Inr (Clamp e)"
    unfolding CalculateDifficulty_def Let_def TimeSpan_millis_def v_def [symmetric] e_def [symmetric]
      Difficulty_new_def using ne n by simp
  moreover have "unat e = max (19 * unat (stat_Difficulty (last ss)) div 20)
      (min (21 * unat (stat_Difficulty (last ss)) div 20) (unat (narrow v)))"
    unfolding e_def using five_percent [OF l, of "narrow v"] v_le nv by simp
  ultimately have "CalculateDifficulty narrow ss config = Inr (Clamp e)"
    and "unat (Clamp e) = retarget ss (unat (BlockGenerationTargetTime config))"
    by (simp_all only: unat_Clamp retarget_def nv v Let_def)
  then show ?thesis using difficulty_ok_Clamp by blast
qed

lemma clamp_bounds:
  fixes lower upper lo hi r :: nat
  assumes "lower \<le> hi" and "lo \<le> upper" and "lower \<le> upper"
  shows "lower \<le> max lo (min hi (max lower (min upper r)))"
    and "max lo (min hi (max lower (min upper r))) \<le> upper"
  using assms by (simp_all add: le_max_iff_disj min_le_iff_disj)

lemma retarget_five_percent:
  assumes "window_ok ss"
  shows "19 * unat (stat_Difficulty (last ss)) div 20 \<le> retarget ss target"
    and "retarget ss target \<le> 21 * unat (stat_Difficulty (last ss)) div 20"
proof -
  have "10 ^ 13 \<le> unat (stat_Difficulty (last ss))" "unat (stat_Difficulty (last ss)) \<le> 10 ^ 15"
    using assms by (cases ss; auto simp: window_ok_def difficulty_ok_unat)+
  then have "19 * unat (stat_Difficulty (last ss)) div 20 \<le> 10 ^ 15"
    and "10 ^ 13 \<le> 21 * unat (stat_Difficulty (last ss)) div 20"
    and "19 * unat (stat_Difficulty (last ss)) div 20 \<le> 21 * unat (stat_Difficulty (last ss)) div 20"
    by linarith+
  then show "19 * unat (stat_Difficulty (last ss)) div 20 \<le> retarget ss target"
    and "retarget ss target \<le> 21 * unat (stat_Difficulty (last ss)) div 20"
    unfolding retarget_def Let_def by (rule clamp_bounds)+
qed


section \<open>Windows of statistics\<close>

text \<open>The statistics of consecutive heights, starting at \<open>a\<close>; the most recent \<open>n\<close> of a list.\<close>

definition heights_from :: "nat \<Rightarrow> BlockStatistic list \<Rightarrow> bool" where
  "heights_from a ss \<longleftrightarrow> map (unat \<circ> stat_Height) ss = [a..<a + length ss]"

definition recent :: "nat \<Rightarrow> 'a list \<Rightarrow> 'a list" where
  "recent n xs = drop (length xs - n) xs"

lemma heights_from_Nil [simp]: "heights_from a []"
  by (simp add: heights_from_def)

lemma heights_from_Cons:
  "heights_from a (s # ss) \<longleftrightarrow> unat (stat_Height s) = a \<and> heights_from (Suc a) ss"
  by (simp add: heights_from_def upt_conv_Cons del: upt_Suc)

lemma heights_from_append:
  "heights_from a (ss @ ts) \<longleftrightarrow> heights_from a ss \<and> heights_from (a + length ss) ts"
  by (induction ss arbitrary: a) (auto simp: heights_from_Cons)

lemma heights_from_nth: "heights_from a ss \<Longrightarrow> i < length ss \<Longrightarrow> unat (stat_Height (ss ! i)) = a + i"
  by (induction ss arbitrary: a i) (auto simp: heights_from_Cons nth_Cons split: nat.splits)

lemma heights_from_drop: "heights_from a ss \<Longrightarrow> n \<le> length ss \<Longrightarrow> heights_from (a + n) (drop n ss)"
  using heights_from_append [of a "take n ss" "drop n ss"] by simp

lemma heights_from_bound: "heights_from a ss \<Longrightarrow> s \<in> set ss \<Longrightarrow> unat (stat_Height s) < a + length ss"
  using heights_from_nth by (fastforce simp: in_set_conv_nth)

lemma recent_snoc:
  "0 < n \<Longrightarrow> recent n (xs @ [x]) = (if length (recent n xs @ [x]) > n then tl (recent n xs @ [x]) else recent n xs @ [x])"
  by (cases "length xs < n") (auto simp: recent_def Suc_diff_le not_less drop_Suc tl_append tl_drop split: list.splits,
      metis list.sel(3) tl_drop)

lemma FindIterator_drop:
  "heights_from a ss \<Longrightarrow> i < length ss \<Longrightarrow> unat h = a + i \<Longrightarrow> FindIterator ss h = drop i ss"
proof (induction ss arbitrary: a i)
  case (Cons s ss)
  then show ?case
    by (cases i) (auto simp: heights_from_Cons word_unat_eq_iff)
qed simp

lemma stat_insert_append:
  "\<forall>t \<in> set ts. stat_Height t < stat_Height s \<Longrightarrow> stat_insert s ts = ts @ [s]"
  by (induction ts) auto

lemma stat_insert_next:
  "heights_from a ts \<Longrightarrow> unat (stat_Height s) = a + length ts \<Longrightarrow> stat_insert s ts = ts @ [s]"
  using heights_from_bound [of a ts] by (intro stat_insert_append) (auto simp: word_less_nat_alt)

lemma fold_stat_insert:
  "heights_from a (ts @ ss) \<Longrightarrow> fold stat_insert ss ts = ts @ ss"
proof (induction ss arbitrary: ts)
  case (Cons s ss)
  then have "stat_insert s ts = ts @ [s]"
    by (intro stat_insert_next) (auto simp: heights_from_append heights_from_Cons)
  then show ?case using Cons by simp
qed simp

lemma take_between:
  assumes "k \<le> length ys - 1" and "ys \<noteq> []"
  shows "take (length (drop k (ys @ zs)) - length (drop (length ys - 1) (ys @ zs)) + 1) (drop k (ys @ zs))
    = drop k ys"
proof -
  have "length (drop k (ys @ zs)) - length (drop (length ys - 1) (ys @ zs)) + 1 = length (drop k ys)"
    using assms by (cases ys) auto
  moreover have "drop k (ys @ zs) = drop k ys @ zs" using assms by simp
  ultimately show ?thesis by simp
qed

lemma statistics_recent:
  assumes hs: "heights_from a (ys @ zs)" and ne: "ys \<noteq> []" and a: "0 < a"
    and h: "unat h + 1 = a + length ys" and count: "0 < unat count"
  shows "statistics (ys @ zs) h count = Inr (recent (unat count) ys)"
proof -
  obtain s ss where ys: "ys = s # ss" using ne by (cases ys) auto
  have s: "unat (stat_Height s) = a" using hs by (simp add: ys heights_from_Cons)
  have h0: "h \<noteq> 0" and c0: "count \<noteq> 0" using h ne a count by (auto simp: ys)
  have last_it: "FindIterator (ys @ zs) h = drop (length ys - 1) (ys @ zs)"
    using hs h ne by (intro FindIterator_drop) (auto simp: ys)
  have "stat_Height s \<le> h" using s h by (simp add: word_le_nat_alt ys)
  then have d: "unat (h - stat_Height s) = length ys - 1" using s h by (simp add: unat_sub_le ys)
  have "1 \<le> count" using count by (simp add: word_le_nat_alt)
  then have c1: "unat (count - 1) = unat count - 1" by (simp add: unat_sub_le)
  define first where "first = (if h - stat_Height s < count - 1 then stat_Height s else h - (count - 1))"
  have first: "unat first = a + (length ys - unat count)"
  proof (cases "h - stat_Height s < count - 1")
    case True
    then have "length ys < unat count" by (simp add: word_less_nat_alt d c1 ys)
    then show ?thesis using True s by (simp add: first_def)
  next
    case False
    then have le: "unat count \<le> length ys" using count by (simp add: word_less_nat_alt d c1 ys)
    then have "count - 1 \<le> h" using h a by (simp add: word_le_nat_alt c1)
    then have "unat (h - (count - 1)) = unat h - (unat count - 1)" by (simp add: unat_sub_le c1)
    then show ?thesis using False le h count by (simp add: first_def)
  qed
  have first_it: "FindIterator (ys @ zs) first = drop (length ys - unat count) (ys @ zs)"
    using hs first ne count by (intro FindIterator_drop) (auto simp: ys)
  have le: "length ys - unat count \<le> length ys - 1" using count by simp
  have "take (length (drop (length ys - unat count) (ys @ zs)) - length (drop (length ys - 1) (ys @ zs)) + 1)
      (drop (length ys - unat count) (ys @ zs)) = recent (unat count) ys"
    using take_between [OF le ne] by (simp add: recent_def)
  then show ?thesis
    using h0 c0 le by (simp add: statistics_def ys first_def [symmetric] Let_def
        last_it [unfolded ys, simplified] first_it [unfolded ys, simplified] del: take_append drop_append)
qed


section \<open>The check of the difficulties of a peer chain\<close>

text \<open>
  The blocks continue the statistics at a height inside the cache: the heights of both are
  consecutive, and the parent of the first block is in the cache. \<open>history\<close> is what the cache would
  hold after the first \<open>j\<close> blocks, and \<open>expected_difficulty\<close> is the difficulty that every node
  computes from it for the next block.
\<close>

definition chain_extends :: "nat \<Rightarrow> BlockStatistic list \<Rightarrow> Block list \<Rightarrow> bool" where
  "chain_extends a cache blocks \<longleftrightarrow> blocks \<noteq> [] \<and> 0 < a \<and> heights_from a cache
     \<and> a < unat (block_Height (hd blocks)) \<and> unat (block_Height (hd blocks)) \<le> a + length cache
     \<and> heights_from (unat (block_Height (hd blocks))) (map BlockStatistic_new blocks)"

definition history :: "BlockStatistic list \<Rightarrow> Block list \<Rightarrow> nat \<Rightarrow> BlockStatistic list" where
  "history cache blocks j =
    filter (\<lambda>s. stat_Height s < block_Height (hd blocks)) cache @ map BlockStatistic_new (take j blocks)"

definition expected_difficulty :: "(u128 \<Rightarrow> u64) \<Rightarrow> BlockStatistic list \<Rightarrow> Block list \<Rightarrow> BlockchainConfiguration
    \<Rightarrow> nat \<Rightarrow> u64 result" where
  "expected_difficulty narrow cache blocks config j =
    CalculateDifficulty_at narrow (history cache blocks j) (block_Height (hd blocks) - 1 + of_nat j) config"

text \<open>
  The outcome of a loop over the blocks that compares each block with its expected difficulty: the
  index of the first one that differs, or the exception of the first calculation that throws.
\<close>

definition first_divergence :: "(nat \<Rightarrow> u64 result) \<Rightarrow> Block list \<Rightarrow> nat \<Rightarrow> nat result \<Rightarrow> bool" where
  "first_divergence E bs i r \<longleftrightarrow> (\<exists>k \<le> length bs. (\<forall>j < k. E j = Inr (block_Difficulty (bs ! j)))
     \<and> (case r of Inl e \<Rightarrow> E k = Inl e
        | Inr n \<Rightarrow> n = i + k \<and> (\<exists>d. E k = Inr d \<and> (k < length bs \<longrightarrow> d \<noteq> block_Difficulty (bs ! k)))))"

lemma first_divergence_Suc:
  assumes "E 0 = Inr (block_Difficulty b)" and "first_divergence (E \<circ> Suc) bs (i + 1) r"
  shows "first_divergence E (b # bs) i r"
proof -
  obtain k where k: "k \<le> length bs" "\<forall>j < k. E (Suc j) = Inr (block_Difficulty (bs ! j))"
    and r: "case r of Inl e \<Rightarrow> E (Suc k) = Inl e
        | Inr n \<Rightarrow> n = i + 1 + k \<and> (\<exists>d. E (Suc k) = Inr d \<and> (k < length bs \<longrightarrow> d \<noteq> block_Difficulty (bs ! k)))"
    using assms(2) unfolding first_divergence_def comp_def by blast
  have "\<forall>j < Suc k. E j = Inr (block_Difficulty ((b # bs) ! j))"
    using assms(1) k(2) by (simp add: All_less_Suc2)
  then show ?thesis unfolding first_divergence_def
    using k(1) r by (intro exI [of _ "Suc k"]) (auto split: sum.splits)
qed

lemma recent_heights: "heights_from a xs \<Longrightarrow> heights_from (a + (length xs - n)) (recent n xs)"
  unfolding recent_def by (rule heights_from_drop) simp_all

lemma CheckDifficulties_loop_correct:
  assumes "0 < unat (MaxDifficultyBlocks config)"
    and "heights_from a hist" and "heights_from (a + length hist) (map BlockStatistic_new bs)"
    and "CalculateDifficulty narrow (recent (unat (MaxDifficultyBlocks config)) hist) config = Inr d"
  shows "first_divergence
      (\<lambda>j. CalculateDifficulty narrow
        (recent (unat (MaxDifficultyBlocks config)) (hist @ map BlockStatistic_new (take j bs))) config) bs i
      (CheckDifficulties_loop narrow config (recent (unat (MaxDifficultyBlocks config)) hist) d bs i)"
  using assms(2-)
proof (induction bs arbitrary: hist d i)
  case Nil
  then show ?case by (simp add: first_divergence_def)
next
  case (Cons b bs)
  define M where "M = unat (MaxDifficultyBlocks config)"
  define E where "E = (\<lambda>j. CalculateDifficulty narrow (recent M (hist @ map BlockStatistic_new (take j (b # bs)))) config)"
  have E0: "E 0 = Inr d" using Cons.prems(3) by (simp add: E_def M_def)
  let ?hist = "hist @ [BlockStatistic_new b]"
  have "stat_insert (BlockStatistic_new b) (recent M hist) = recent M hist @ [BlockStatistic_new b]"
    using recent_heights [OF Cons.prems(1), of M] Cons.prems(2)
    by (intro stat_insert_next) (auto simp: heights_from_Cons recent_def)
  then have step: "CheckDifficulties_loop narrow config (recent M hist) d (b # bs) i =
      (if d \<noteq> block_Difficulty b then Inr i
       else bind_result (CalculateDifficulty narrow (recent M ?hist) config)
         (\<lambda>d'. CheckDifficulties_loop narrow config (recent M ?hist) d' bs (i + 1)))"
    using recent_snoc [of M hist "BlockStatistic_new b"] assms(1) by (simp add: M_def Let_def)
  have ES: "E \<circ> Suc = (\<lambda>j. CalculateDifficulty narrow (recent M (?hist @ map BlockStatistic_new (take j bs))) config)"
    by (simp add: E_def fun_eq_iff)
  show ?case
  proof (cases "d = block_Difficulty b")
    case False
    then show ?thesis
      using E0 by (auto simp: step [unfolded M_def] first_divergence_def E_def M_def intro!: exI [of _ 0])
  next
    case True
    have E1: "E 1 = CalculateDifficulty narrow (recent M ?hist) config" by (simp add: E_def)
    have "first_divergence E (b # bs) i (CheckDifficulties_loop narrow config (recent M hist) d (b # bs) i)"
    proof (cases "CalculateDifficulty narrow (recent M ?hist) config")
      case (Inl e)
      then show ?thesis
        using E0 E1 True unfolding step first_divergence_def by (intro exI [of _ 1]) simp
    next
      case (Inr d')
      then have "first_divergence (E \<circ> Suc) bs (i + 1) (CheckDifficulties_loop narrow config (recent M ?hist) d' bs (i + 1))"
        unfolding ES unfolding M_def using Cons.prems
        by (intro Cons.IH) (auto simp: heights_from_append heights_from_Cons M_def)
      then show ?thesis
        using E0 True Inr unfolding step by (auto intro!: first_divergence_Suc)
    qed
    then show ?thesis by (simp add: E_def M_def)
  qed
qed


lemma first_divergence_cong:
  "(\<And>j. j \<le> length bs \<Longrightarrow> E j = E' j) \<Longrightarrow> first_divergence E bs i r \<longleftrightarrow> first_divergence E' bs i r"
  unfolding first_divergence_def by (intro ex_cong1 conj_cong refl) (auto split: sum.splits)

lemma filter_heights:
  "heights_from a ss \<Longrightarrow> a \<le> unat h \<Longrightarrow> unat h \<le> a + length ss
    \<Longrightarrow> filter (\<lambda>s. stat_Height s < h) ss = take (unat h - a) ss"
proof (induction ss arbitrary: a)
  case (Cons s ss)
  show ?case
  proof (cases "unat h = a")
    case True
    have "\<forall>t \<in> set (s # ss). \<not> stat_Height t < h"
      using heights_from_nth [OF Cons.prems(1)] True
      by (fastforce simp: in_set_conv_nth word_less_nat_alt simp del: set_simps)
    then show ?thesis using True by (simp add: filter_False)
  next
    case False
    then have "filter (\<lambda>s. stat_Height s < h) ss = take (unat h - Suc a) ss"
      using Cons by (intro Cons.IH) (auto simp: heights_from_Cons)
    then show ?thesis
      using False Cons.prems by (simp add: heights_from_Cons word_less_nat_alt take_Cons' Suc_diff_Suc)
  qed
qed simp

lemma chain_extends_history:
  assumes ext: "chain_extends a cache blocks" and j: "j \<le> length blocks"
  shows "heights_from a (history cache blocks j)"
    and "a + length (history cache blocks j) = unat (block_Height (hd blocks)) + j"
    and "unat (block_Height (hd blocks) - 1 + of_nat j) + 1 = unat (block_Height (hd blocks)) + j"
proof -
  let ?h = "unat (block_Height (hd blocks))"
  have hs: "heights_from a cache" "a < ?h" "?h \<le> a + length cache" "blocks \<noteq> []"
    and bs: "heights_from ?h (map BlockStatistic_new blocks)"
    using ext by (auto simp: chain_extends_def)
  have hist: "history cache blocks j = take (?h - a) cache @ take j (map BlockStatistic_new blocks)"
    using filter_heights [of a cache "block_Height (hd blocks)"] hs by (simp add: history_def take_map)
  have len: "a + length (take (?h - a) cache) = ?h" using hs by simp
  have "heights_from a (take (?h - a) cache)"
    using hs(1) heights_from_append [of a "take (?h - a) cache" "drop (?h - a) cache"] by simp
  moreover have "heights_from ?h (take j (map BlockStatistic_new blocks))"
    using bs heights_from_append [of ?h "take j (map BlockStatistic_new blocks)" "drop j (map BlockStatistic_new blocks)"]
    by simp
  ultimately show "heights_from a (history cache blocks j)"
    by (simp only: hist heights_from_append len)
  show "a + length (history cache blocks j) = ?h + j" using hist len j by simp
  have "?h + (length blocks - 1) < 2 ^ 64"
    using heights_from_nth [OF bs, of "length blocks - 1"] hs(4) unat_u64_lt by (metis diff_less length_greater_0_conv length_map zero_less_one)
  then have b: "?h - 1 + j < 2 ^ 64" using hs j by (cases blocks) auto
  have "unat (block_Height (hd blocks) - 1) = ?h - 1"
    using hs by (simp add: unat_sub_le word_le_nat_alt)
  moreover have "unat (of_nat j :: u64) = j" using b by (simp add: unat_of_nat)
  ultimately have "unat (block_Height (hd blocks) - 1 + of_nat j) = ?h - 1 + j"
    using b by (simp add: unat_word_ariths)
  then show "unat (block_Height (hd blocks) - 1 + of_nat j) + 1 = ?h + j" using hs by simp
qed

lemma unat_widen_32 [simp]: "unat (ucast w :: u64) = unat w" for w :: u32
proof -
  have "unat w < 2 ^ 32" using unsigned_less [of w] by simp
  then have "unat w < 2 ^ 64" by simp
  then show ?thesis by (simp add: unsigned_ucast_eq take_bit_nat_eq_self)
qed

lemma expected_difficulty_recent:
  assumes ext: "chain_extends a cache blocks" and j: "j \<le> length blocks"
    and M: "0 < unat (MaxDifficultyBlocks config)"
  shows "expected_difficulty narrow cache blocks config j
    = CalculateDifficulty narrow (recent (unat (MaxDifficultyBlocks config)) (history cache blocks j)) config"
proof -
  have "history cache blocks j \<noteq> []"
    using chain_extends_history(2) [OF ext j] ext by (auto simp: chain_extends_def)
  then have "statistics (history cache blocks j @ []) (block_Height (hd blocks) - 1 + of_nat j)
      (ucast (MaxDifficultyBlocks config)) = Inr (recent (unat (ucast (MaxDifficultyBlocks config) :: u64)) (history cache blocks j))"
    using chain_extends_history [OF ext j] M ext
    by (intro statistics_recent [of a]) (auto simp: chain_extends_def)
  then show ?thesis by (simp add: expected_difficulty_def CalculateDifficulty_at_def)
qed

lemma CheckDifficulties_first_divergence:
  assumes ext: "chain_extends a cache blocks" and M: "0 < unat (MaxDifficultyBlocks config)"
  shows "first_divergence (expected_difficulty narrow cache blocks config) blocks 0
    (CheckDifficulties narrow cache blocks config)"
proof -
  let ?M = "unat (MaxDifficultyBlocks config)"
  let ?h = "unat (block_Height (hd blocks))"
  define hist where "hist = history cache blocks 0"
  obtain b bs where blocks: "blocks = b # bs" using ext by (auto simp: chain_extends_def neq_Nil_conv)
  have hs: "heights_from a hist" "a + length hist = ?h" and a: "0 < a" "a < ?h" "?h \<le> a + length cache"
    using chain_extends_history [OF ext, of 0] ext by (auto simp: hist_def chain_extends_def)
  have hist: "hist = take (?h - a) cache"
    using ext a filter_heights [of a cache "block_Height (hd blocks)"]
    by (simp add: hist_def history_def chain_extends_def)
  then have split: "cache = hist @ drop (?h - a) cache" by simp
  have h1: "unat (block_Height b - 1) + 1 = a + length hist"
    using chain_extends_history(3) [OF ext, of 0] hs(2) by (simp add: blocks)
  have ne: "hist \<noteq> []" using hs(2) a by auto
  have "statistics cache (block_Height b - 1) (ucast (MaxDifficultyBlocks config))
      = Inr (recent (unat (ucast (MaxDifficultyBlocks config) :: u64)) hist)"
    using ext ne a(1) h1 M by (subst split, intro statistics_recent [of a])
      (auto simp: chain_extends_def split [symmetric])
  then have load: "LoadDifficulties cache (block_Height b - 1) config = Inr (recent ?M hist)"
    using fold_stat_insert [of _ "[]" "recent ?M hist"] recent_heights [OF hs(1), of ?M]
    by (simp add: LoadDifficulties_def)
  define E where "E = (\<lambda>j. CalculateDifficulty narrow (recent ?M (hist @ map BlockStatistic_new (take j blocks))) config)"
  have "expected_difficulty narrow cache blocks config j = E j" if "j \<le> length blocks" for j
    using expected_difficulty_recent [OF ext that M] by (simp add: E_def hist_def history_def)
  moreover have "first_divergence E blocks 0 (CheckDifficulties narrow cache blocks config)"
  proof (cases "CalculateDifficulty narrow (recent ?M hist) config")
    case (Inl e)
    then have "CheckDifficulties narrow cache blocks config = Inl e"
      using load by (simp add: CheckDifficulties_def blocks)
    moreover have "E 0 = Inl e" using Inl by (simp add: E_def)
    ultimately show ?thesis by (auto simp: first_divergence_def)
  next
    case (Inr d)
    then have "CheckDifficulties narrow cache blocks config = CheckDifficulties_loop narrow config (recent ?M hist) d blocks 0"
      using load by (simp add: CheckDifficulties_def blocks)
    then show ?thesis
      unfolding E_def using M hs Inr ext
      by (simp only:) (rule CheckDifficulties_loop_correct [of _ a], simp_all add: chain_extends_def)
  qed
  ultimately show ?thesis by (subst first_divergence_cong [of _ _ E]) auto
qed


section \<open>Chain scores\<close>

lemma sint_small:
  fixes w :: u64
  assumes "unat w < 2 ^ 63"
  shows "sint w = int (unat w)"
proof -
  have "int (unat w) < 2 ^ 63" using assms by (metis of_nat_less_iff of_nat_numeral of_nat_power)
  then have "signed_take_bit 63 (int (unat w)) = int (unat w)"
    by (intro signed_take_bit_int_eq_self) linarith+
  then show ?thesis by (simp add: sint_uint)
qed

lemma unat_ucast_64: "unat (v :: u128) < 2 ^ 64 \<Longrightarrow> unat (ucast v :: u64) = unat v"
  by (simp add: unsigned_ucast_eq take_bit_nat_eq_self)

lemma ucast_ucast_128: "unat (v :: u128) < 2 ^ 64 \<Longrightarrow> ucast (ucast v :: u64) = v"
  by (simp add: word_unat_eq_iff unat_ucast_64)

lemma sint_neg_small:
  fixes w :: u64
  assumes "unat w < 2 ^ 63"
  shows "sint (- w) = - int (unat w)"
proof -
  have "int (unat w) < 2 ^ 63" using assms by (metis of_nat_less_iff of_nat_numeral of_nat_power)
  then have "signed_take_bit 63 (- int (unat w)) = - int (unat w)"
    by (intro signed_take_bit_int_eq_self) linarith+
  then show ?thesis by (simp only: sint_word_minus sint_small [OF assms]) simp
qed

lemma delta_forward:
  assumes "rhs < score" and "unat (score - rhs) < 2 ^ 63"
  shows "ChainScore_plus_delta rhs (ucast (score - rhs)) = Inr score"
proof -
  have d: "unat (score - rhs) = unat score - unat rhs" "unat rhs < unat score"
    using assms(1) by (simp_all add: unat_sub word_less_nat_alt word_le_nat_alt)
  have u: "unat (ucast (score - rhs) :: u64) = unat (score - rhs)"
    using assms(2) by (simp add: unat_ucast_64)
  have "\<not> sint (ucast (score - rhs) :: u64) < 0"
    using assms(2) u by (simp add: sint_small)
  moreover have "unat rhs + unat (ucast (ucast (score - rhs) :: u64) :: u128) < 2 ^ 128"
    using d u unsigned_less [of score] by simp
  ultimately show ?thesis
    using assms(2) u by (simp add: ChainScore_plus_delta_def ChainScore_plus_def ucast_ucast_128)
qed

lemma delta_backward:
  assumes "score \<le> rhs" and "unat (rhs - score) < 2 ^ 63"
  shows "ChainScore_plus_delta rhs (- ucast (rhs - score)) = Inr score"
proof -
  have d: "unat (rhs - score) = unat rhs - unat score" "unat score \<le> unat rhs"
    using assms(1) by (simp_all add: unat_sub word_le_nat_alt)
  have u: "unat (ucast (rhs - score) :: u64) = unat (rhs - score)"
    using assms(2) by (simp add: unat_ucast_64)
  have s: "sint (- ucast (rhs - score) :: u64) = - int (unat (rhs - score))"
    using assms(2) u by (simp add: sint_neg_small)
  show ?thesis
  proof (cases "rhs = score")
    case True
    have "unat rhs < 2 ^ 128" using unsigned_less [of rhs] by simp
    then show ?thesis using True by (simp add: ChainScore_plus_delta_def ChainScore_plus_def)
  next
    case False
    then have "0 < unat (rhs - score)" by (simp add: unat_gt_0)
    moreover have "int (unat (rhs - score)) < 2 ^ 63"
      using assms(2) by (metis of_nat_less_iff of_nat_numeral of_nat_power)
    ultimately have neg: "sint (- ucast (rhs - score) :: u64) < 0" "sint (- ucast (rhs - score) :: u64) \<noteq> - (2 ^ 63)"
      unfolding s by linarith+
    have "\<not> unat rhs < unat (- (- ucast (rhs - score)) :: u64)" using u d by simp
    then show ?thesis
      unfolding ChainScore_plus_delta_def if_P [OF neg(1)] if_not_P [OF neg(2)]
      using assms(2) by (simp add: ucast_ucast_128)
  qed
qed

text \<open>
  A score delta carries a chain from one score to the other: when the difference of two chain
  scores does not throw, adding it to the subtracted score gives the other one back, in both directions and
  without an overflow; and the two 64-bit halves that are sent to peers determine the score.
\<close>

theorem score_delta_roundtrip:
  assumes "ChainScore_minus score rhs = Inr delta"
  shows "ChainScore_plus_delta rhs delta = Inr score
    \<and> (case ChainScore_toArray score of (hi, lo) \<Rightarrow> ChainScore_new hi lo) = score"
proof
  have lt: "v \<le> 2 ^ 63 - 1 \<Longrightarrow> unat v < 2 ^ 63" for v :: u128
    by (simp add: word_le_nat_alt)
  show "ChainScore_plus_delta rhs delta = Inr score"
  proof (cases "rhs < score")
    case True
    then show ?thesis
      using assms delta_forward [OF True] lt [of "score - rhs"]
      by (simp add: ChainScore_minus_def Let_def split: if_splits)
  next
    case False
    then show ?thesis
      using assms delta_backward [of score rhs] lt [of "rhs - score"]
      by (simp add: ChainScore_minus_def Let_def split: if_splits)
  qed
  have "drop_bit 64 score = ucast (ucast (drop_bit 64 score) :: u64)"
    by (rule bit_word_eqI) (auto simp: bit_simps dest: bit_imp_le_length)
  then have "push_bit 64 (ucast (ucast (drop_bit 64 score) :: u64)) OR ucast (ucast (score AND ucast (- 1 :: u64)) :: u64) = score"
    by (intro bit_word_eqI) (auto simp: bit_simps, metis le_add_diff_inverse not_le)
  moreover have "push_bit 64 (ucast (a :: u64)) + ucast (b :: u64) = push_bit 64 (ucast a) OR (ucast b :: u128)" for a b
    by (rule disjunctive_add) (auto simp: bit_simps dest: bit_imp_le_length)
  ultimately show "(case ChainScore_toArray score of (hi, lo) \<Rightarrow> ChainScore_new hi lo) = score"
    by (simp add: ChainScore_toArray_def ChainScore_new_def)
qed


theorem score_delta_roundtrip_witness:
  "ChainScore_plus_delta 1000 (- 400) = Inr 600
    \<and> (case ChainScore_toArray 600 of (hi, lo) \<Rightarrow> ChainScore_new hi lo) = 600"
proof -
  have "ChainScore_minus 600 1000 = Inr (- 400)" by code_simp
  then show ?thesis by (rule score_delta_roundtrip)
qed

section \<open>What the retargeting and its check guarantee\<close>

text \<open>Three blocks in fifteen second intervals and a fourth one.\<close>

definition sample_config :: BlockchainConfiguration where
  "sample_config = \<lparr>BlockGenerationTargetTime = 15000, BlockTimeSmoothingFactor = 0, MaxDifficultyBlocks = 60,
     TotalChainImportance = 9000000000\<rparr>"

definition sample_statistics :: "BlockStatistic list" where
  "sample_statistics = map (\<lambda>(h, t). \<lparr>stat_Height = h, stat_Timestamp = t, stat_Difficulty = 10 ^ 14, stat_FeeMultiplier = 0\<rparr>)
     [(1, 0), (2, 15000), (3, 30000)]"

definition sample_block :: "Height \<Rightarrow> Timestamp \<Rightarrow> Block" where
  "sample_block h t = \<lparr>block_SignerPublicKey = [], block_Type = 0, block_Height = h, block_Timestamp = t,
     block_Difficulty = 10 ^ 14, block_PreviousBlockHash = [], block_FeeMultiplier = 0,
     block_GenerationHashProof = [], block_ReceiptsHash = [], block_StateHash = [], block_PreviousImportanceBlockHash = []\<rparr>"

lemma narrow_ok_ucast: "narrow_ok ucast"
  by (simp add: narrow_ok_def)

text \<open>
  For a window of at most 10000 blocks that are at least a second apart and a target time of at
  most fifteen minutes, \<^verbatim>\<open>CalculateDifficulty\<close> does not throw and is exactly the retargeting formula over the
  natural numbers: neither the 64-bit sum, nor the 128-bit product, nor the factors 19, 20 and 21 of the
  five percent rule overflow. The new difficulty is at most five percent away from the last one and stays
  between the smallest and the largest difficulty.
\<close>

theorem difficulty_retarget:
  assumes "window_ok ss" and "unat (BlockGenerationTargetTime config) \<le> 900000" and "narrow_ok narrow"
  shows "\<exists>d. CalculateDifficulty narrow ss config = Inr d
    \<and> unat d = retarget ss (unat (BlockGenerationTargetTime config))
    \<and> 19 * unat (stat_Difficulty (last ss)) div 20 \<le> unat d
    \<and> unat d \<le> 21 * unat (stat_Difficulty (last ss)) div 20
    \<and> Difficulty_Min_Value \<le> d \<and> d \<le> Difficulty_Max_Value"
proof -
  obtain d where "CalculateDifficulty narrow ss config = Inr d"
    and d: "unat d = retarget ss (unat (BlockGenerationTargetTime config))" "difficulty_ok d"
    using CalculateDifficulty_retarget [OF assms] by blast
  then show ?thesis
    using retarget_five_percent [OF assms(1)] by (intro exI [of _ d]) (simp only: d(1) difficulty_ok_def d(2)) 
qed

theorem difficulty_retarget_witness:
  "\<exists>d. CalculateDifficulty ucast sample_statistics sample_config = Inr d \<and> unat d = 10 ^ 14"
proof -
  have "window_ok sample_statistics"
    by (simp add: window_ok_def sample_statistics_def difficulty_ok_unat)
  moreover have "unat (BlockGenerationTargetTime sample_config) \<le> 900000" by (simp add: sample_config_def)
  moreover have "retarget sample_statistics (unat (BlockGenerationTargetTime sample_config)) = 10 ^ 14"
    by (simp add: retarget_def retarget_raw_def sample_statistics_def sample_config_def)
  ultimately show ?thesis
    using difficulty_retarget [of sample_statistics sample_config ucast] narrow_ok_ucast by auto
qed

text \<open>
  C23. \<^verbatim>\<open>CheckDifficulties\<close> finds the first block whose difficulty is not the one that a node
  computes from the statistics up to its parent: the window that the loop maintains by inserting and
  dropping statistics is at every block the window that the cache would return after the blocks before
  it. When a calculation throws, the check throws at the same block.
\<close>

theorem check_difficulties_correct:
  assumes "chain_extends a cache blocks" and "0 < unat (MaxDifficultyBlocks config)"
  shows "\<exists>k \<le> length blocks.
    (\<forall>j < k. expected_difficulty narrow cache blocks config j = Inr (block_Difficulty (blocks ! j)))
    \<and> (case CheckDifficulties narrow cache blocks config of
         Inl e \<Rightarrow> expected_difficulty narrow cache blocks config k = Inl e
       | Inr n \<Rightarrow> n = k \<and> (\<exists>d. expected_difficulty narrow cache blocks config k = Inr d
           \<and> (k < length blocks \<longrightarrow> d \<noteq> block_Difficulty (blocks ! k))))"
  using CheckDifficulties_first_divergence [OF assms, of narrow] unfolding first_divergence_def add_0 .

theorem check_difficulties_correct_witness:
  "\<exists>k \<le> length [sample_block 4 45000, sample_block 5 60000].
    (\<forall>j < k. expected_difficulty ucast sample_statistics [sample_block 4 45000, sample_block 5 60000] sample_config j
      = Inr (block_Difficulty ([sample_block 4 45000, sample_block 5 60000] ! j)))
    \<and> (case CheckDifficulties ucast sample_statistics [sample_block 4 45000, sample_block 5 60000] sample_config of
         Inl e \<Rightarrow> expected_difficulty ucast sample_statistics [sample_block 4 45000, sample_block 5 60000] sample_config k = Inl e
       | Inr n \<Rightarrow> n = k \<and> (\<exists>d. expected_difficulty ucast sample_statistics
             [sample_block 4 45000, sample_block 5 60000] sample_config k = Inr d
           \<and> (k < length [sample_block 4 45000, sample_block 5 60000]
             \<longrightarrow> d \<noteq> block_Difficulty ([sample_block 4 45000, sample_block 5 60000] ! k))))"
proof (rule check_difficulties_correct [of 1])
  show "chain_extends 1 sample_statistics [sample_block 4 45000, sample_block 5 60000]" by code_simp
  show "0 < unat (MaxDifficultyBlocks sample_config)" by code_simp
qed

text \<open>
  The timestamps of a peer chain are compared with each other before the difficulties are
  checked, but not with the local chain. A block with the expected difficulty whose timestamp equals the
  first timestamp of its window makes the check divide by zero: the exception leaves the consumer, which
  does not handle it.
\<close>

theorem equal_timestamp_throws:
  assumes ext: "chain_extends a cache [b]" and M: "2 \<le> unat (MaxDifficultyBlocks config)"
    and diff: "expected_difficulty narrow cache [b] config 0 = Inr (block_Difficulty b)"
    and time: "block_Timestamp b = stat_Timestamp (hd (recent (unat (MaxDifficultyBlocks config)) (history cache [b] 1)))"
  shows "CheckDifficulties narrow cache [b] config = Inl runtime_error"
proof -
  let ?w = "recent (unat (MaxDifficultyBlocks config)) (history cache [b] 1)"
  have "history cache [b] 0 \<noteq> []"
    using chain_extends_history(2) [OF ext, of 0] ext by (auto simp: chain_extends_def)
  then have len: "2 \<le> length ?w" and lst: "last ?w = BlockStatistic_new b"
    using M by (auto simp: recent_def history_def Suc_le_eq neq_Nil_conv last_append)
  have "expected_difficulty narrow cache [b] config 1 = CalculateDifficulty narrow ?w config"
    using M by (intro expected_difficulty_recent [OF ext]) auto
  also have "\<dots> = Inl runtime_error"
    using len lst time by (simp add: CalculateDifficulty_def Let_def BlockStatistic_new_def)
  finally have "expected_difficulty narrow cache [b] config 1 = Inl runtime_error" .
  then show ?thesis
    using CheckDifficulties_first_divergence [OF ext, of config narrow] M diff
    by (cases "CheckDifficulties narrow cache [b] config") (auto simp: first_divergence_def le_Suc_eq)
qed

theorem equal_timestamp_throws_witness:
  "CheckDifficulties ucast sample_statistics [sample_block 4 0] sample_config = Inl runtime_error"
proof -
  have "chain_extends 1 sample_statistics [sample_block 4 0]" by code_simp
  moreover have "2 \<le> unat (MaxDifficultyBlocks sample_config)" by code_simp
  moreover have "expected_difficulty ucast sample_statistics [sample_block 4 0] sample_config 0
      = Inr (block_Difficulty (sample_block 4 0))" by code_simp
  moreover have "block_Timestamp (sample_block 4 0)
      = stat_Timestamp (hd (recent (unat (MaxDifficultyBlocks sample_config)) (history sample_statistics [sample_block 4 0] 1)))"
    by code_simp
  ultimately show ?thesis by (rule equal_timestamp_throws)
qed

end
