(* ===== verification/Block_Hit.thy ===== *)
theory Block_Hit
  imports Chain_Scoring
begin

unbundle bit_operations_syntax

text \<open>
  The lottery that decides who may harvest a block: the hit of a generation hash
  (\<^verbatim>\<open>chain/BlockScorer.cpp\<close>, \<^verbatim>\<open>CalculateHit\<close>) against the target of the harvester (\<^verbatim>\<open>CalculateTarget\<close>),
  with the fixed point arithmetic below both (\<^verbatim>\<open>utils/IntegerMath.h\<close>, \<^verbatim>\<open>utils/IntegerMath.cpp\<close>).

  The logarithm of the hit is shown to be correct up to a stated relative error, the 256-bit
  computation of the target is shown not to overflow, and an account with more importance is shown
  to win whenever one with less importance wins.
\<close>

section \<open>Integer mathematics\<close>

text \<open>\<^verbatim>\<open>__builtin_clzll\<close> of a positive value is 64 less its number of binary digits.\<close>

fun bit_length :: "nat \<Rightarrow> nat" where
  "bit_length n = (if n = 0 then 0 else Suc (bit_length (n div 2)))"

declare bit_length.simps [simp del]

definition clzll :: "u64 \<Rightarrow> u64" where
  "clzll v = 64 - of_nat (bit_length (unat v))"

definition Log2_u8 :: "u8 \<Rightarrow> u8" where
  "Log2_u8 v = (if v = 0 then - 1 else ucast (63 - clzll (ucast v)))"

text \<open>
  \<^verbatim>\<open>Log2TimesPowerOfTwo\<close>. The first loop is left at zero too, a value for which the function throws
  before it reaches the loop.
\<close>

function (sequential) Log2_normalize :: "u64 \<Rightarrow> u64 \<Rightarrow> u64 \<times> u64" where
  "Log2_normalize x y =
    (if x = 0 \<or> 2 ^ 31 \<le> x then (x, y) else Log2_normalize (push_bit 1 x) (y - 1))"
  by pat_completeness auto

lemma unat_shift: "unat x < 2 ^ 63 \<Longrightarrow> unat (x * 2) = 2 * unat x" for x :: u64
  by (simp add: unat_word_ariths)

termination Log2_normalize
proof (relation "measure (\<lambda>(x, y). 2 ^ 31 - unat x)")
  fix x y :: u64
  assume "\<not> (x = 0 \<or> 2 ^ 31 \<le> x)"
  then have "x < 2 ^ 31" and "0 < unat x" by (auto simp: not_le unat_gt_0)
  then show "((push_bit 1 x, y - 1), x, y) \<in> measure (\<lambda>(x, y). 2 ^ 31 - unat x)"
    by (simp add: unat_shift word_less_nat_alt)
qed simp

declare Log2_normalize.simps [simp del]

fun Log2_square :: "nat \<Rightarrow> u64 \<Rightarrow> u64 \<Rightarrow> u64 \<times> u64" where
  "Log2_square 0 x y = (x, y)"
| "Log2_square (Suc n) x y =
    (let x' = drop_bit 31 (x * x); y' = push_bit 1 y
     in if x' \<ge> 2 * 2 ^ 31 then Log2_square n (drop_bit 1 x') (y' + 1) else Log2_square n x' y')"

definition Log2TimesPowerOfTwo :: "u64 \<Rightarrow> u64 \<Rightarrow> u64 result" where
  "Log2TimesPowerOfTwo v n =
    (if v = 0 then Inl invalid_argument
     else case Log2_normalize v 31 of (x, y) \<Rightarrow> Inr (snd (Log2_square (unat n) x y)))"

text \<open>
  \<^verbatim>\<open>FixedPointPowerOfTwo\<close>: the intermediate values fit into their signed types, so that integers
  with the truncating division of C++ model them.
\<close>

definition FixedPointPowerOfTwo :: "int \<Rightarrow> u32" where
  "FixedPointPowerOfTwo v =
    (let i = (v + 0x8000) AND (NOT 0xFFFF);
         f = v - i;
         s = (15 * 65536 - i) sdiv 65536;
         r = 0xE20;
         r = (r * f + 0x3E1CC333) sdiv 131072;
         r = (r * f + 0x58BD46A6) sdiv 65536;
         r = r * f + 0x7FFDE4A3
     in drop_bit (nat s) (word_of_int r))"

section \<open>The hit\<close>

text \<open>A generation hash is a list of 32 bytes.\<close>

fun NumLeadingZeros_from :: "nat \<Rightarrow> bytes \<Rightarrow> u32" where
  "NumLeadingZeros_from i [] = 256"
| "NumLeadingZeros_from i (b # bs) =
    (if b \<noteq> 0 then 8 * of_nat i + 7 - ucast (Log2_u8 b) else NumLeadingZeros_from (Suc i) bs)"

definition NumLeadingZeros :: "bytes \<Rightarrow> u32" where
  "NumLeadingZeros generationHash = NumLeadingZeros_from 0 generationHash"

text \<open>Four bytes are copied into a little-endian word whose bytes are then swapped: a big-endian read.\<close>

definition ExtractFromHashAtPosition :: "bytes \<Rightarrow> nat \<Rightarrow> u32" where
  "ExtractFromHashAtPosition hash i =
    push_bit 24 (ucast (hash ! i)) OR push_bit 16 (ucast (hash ! (i + 1)))
      OR push_bit 8 (ucast (hash ! (i + 2))) OR ucast (hash ! (i + 3))"

record GenerationHashInfo =
  hash_Value :: u32
  hash_NumLeadingZeros :: u32

definition ExtractGenerationHashInfo :: "bytes \<Rightarrow> GenerationHashInfo" where
  "ExtractGenerationHashInfo generationHash =
    (let numLeadingZeros = NumLeadingZeros generationHash
     in if 224 \<le> numLeadingZeros
        then \<lparr>hash_Value = ExtractFromHashAtPosition generationHash 28, hash_NumLeadingZeros = 224\<rparr>
        else let quotient = unat (numLeadingZeros div 8); remainder = unat (numLeadingZeros mod 8);
                 v = push_bit remainder (ExtractFromHashAtPosition generationHash quotient);
                 v = v + ucast (drop_bit (8 - remainder) (generationHash ! (quotient + 4)))
             in \<lparr>hash_Value = v, hash_NumLeadingZeros = numLeadingZeros\<rparr>)"

definition CalculateHit :: "(u128 \<Rightarrow> u64) \<Rightarrow> bytes \<Rightarrow> u64 result" where
  "CalculateHit narrow generationHash =
    (let hashInfo = ExtractGenerationHashInfo generationHash
     in if hash_Value hashInfo = 0 then Inr (- 1)
        else if hash_Value hashInfo = 0xFFFFFFFF then Inr 0
        else bind_result (Log2TimesPowerOfTwo (ucast (hash_Value hashInfo)) 54)
          (\<lambda>logValue.
            let res = (ucast (ucast (32 + hash_NumLeadingZeros hashInfo) * 2 ^ 54 - logValue :: u64) :: u128)
            in Inr (narrow (res * 10000000000000000 div 14426950408889634))))"

section \<open>The target\<close>

definition GetMultiplier :: "u64 \<Rightarrow> BlockchainConfiguration \<Rightarrow> u256 result" where
  "GetMultiplier timeDiff config =
    (let smoother_result =
      (if BlockTimeSmoothingFactor config = 0 then Inr (push_bit 16 1 :: u32)
       else
         let factor = uint (push_bit 16 (BlockTimeSmoothingFactor config));
             factor = factor * 65536 div (1000 * 65536);
             targetTime = uint (push_bit 16 (TimeSpan_seconds (BlockGenerationTargetTime config)));
             elapsedTime = uint (push_bit 16 timeDiff)
         in if targetTime = 0 then Inl runtime_error
            else let power = (factor * (elapsedTime - targetTime)) sdiv targetTime;
                     power = (power * 14426950408) sdiv 10000000000
                 in Inr (if - (5 * 65536) > power then 0
                         else if 435411 < power then push_bit 16 100
                         else FixedPointPowerOfTwo power))
     in bind_result smoother_result
          (\<lambda>smoother. Inr (push_bit 10 (ucast (push_bit 38 (ucast smoother :: u64))))))"

definition CalculateTarget_span :: "u64 \<Rightarrow> u64 \<Rightarrow> Importance \<Rightarrow> BlockchainConfiguration \<Rightarrow> u256 result" where
  "CalculateTarget_span timeSpan difficulty signerImportance config =
    bind_result (GetMultiplier (TimeSpan_seconds timeSpan) config)
      (\<lambda>multiplier.
        let target = ucast (TimeSpan_seconds timeSpan) * ucast signerImportance * multiplier * 8999999998
        in if TotalChainImportance config = 0 \<or> difficulty = 0 then Inl runtime_error
           else Inr (target div ucast (TotalChainImportance config) div ucast difficulty))"

definition CalculateTarget :: "Block \<Rightarrow> Block \<Rightarrow> Importance \<Rightarrow> BlockchainConfiguration \<Rightarrow> u256 result" where
  "CalculateTarget parentBlock currentBlock signerImportance config =
    (if block_Timestamp currentBlock \<le> block_Timestamp parentBlock then Inr 0
     else CalculateTarget_span
       (TimeSpan_FromDifference (block_Timestamp currentBlock) (block_Timestamp parentBlock))
       (block_Difficulty currentBlock) signerImportance config)"

text \<open>The two call operators of \<^verbatim>\<open>BlockHitPredicate\<close>; the importance lookup is a function argument.\<close>

definition BlockHitPredicate_block :: "(u128 \<Rightarrow> u64) \<Rightarrow> BlockchainConfiguration \<Rightarrow> (Key \<Rightarrow> Height \<Rightarrow> Importance)
    \<Rightarrow> Block \<Rightarrow> Block \<Rightarrow> bytes \<Rightarrow> bool result" where
  "BlockHitPredicate_block narrow config importanceLookup parentBlock block generationHash =
    bind_result (CalculateHit narrow generationHash)
      (\<lambda>hit. bind_result
        (CalculateTarget parentBlock block (importanceLookup (block_SignerPublicKey block) (block_Height block)) config)
        (\<lambda>target. Inr (ucast hit < target)))"

record BlockHitContext =
  hit_GenerationHash :: bytes
  hit_ElapsedTime :: u64
  hit_Signer :: Key
  hit_Difficulty :: u64
  hit_Height :: Height

definition BlockHitPredicate_context :: "(u128 \<Rightarrow> u64) \<Rightarrow> BlockchainConfiguration \<Rightarrow> (Key \<Rightarrow> Height \<Rightarrow> Importance)
    \<Rightarrow> BlockHitContext \<Rightarrow> bool result" where
  "BlockHitPredicate_context narrow config importanceLookup context =
    bind_result (CalculateHit narrow (hit_GenerationHash context))
      (\<lambda>hit. bind_result
        (CalculateTarget_span (hit_ElapsedTime context) (hit_Difficulty context)
          (importanceLookup (hit_Signer context) (hit_Height context)) config)
        (\<lambda>target. Inr (ucast hit < target)))"


section \<open>The logarithm\<close>

lemma Log2_normalize_correct:
  assumes "unat x * 2 ^ unat y = v * 2 ^ 31" and "0 < v" and "unat x < 2 ^ 32" and "unat y \<le> 31"
  shows "case Log2_normalize x y of (x', y') \<Rightarrow>
    unat x' * 2 ^ unat y' = v * 2 ^ 31 \<and> 2 ^ 31 \<le> unat x' \<and> unat x' < 2 ^ 32 \<and> unat y' \<le> 31"
  using assms
proof (induction x y rule: Log2_normalize.induct)
  case (1 x y)
  have x0: "x \<noteq> 0" using "1.prems"(1,2) by auto
  show ?case
  proof (cases "2 ^ 31 \<le> x")
    case True
    then show ?thesis using "1.prems" by (simp add: Log2_normalize.simps [of x y] word_le_nat_alt)
  next
    case False
    then have lt: "unat x < 2 ^ 31" by (simp add: word_le_nat_alt)
    have y0: "0 < unat y"
    proof (rule ccontr)
      assume "\<not> 0 < unat y"
      then have "unat x = v * 2 ^ 31" using "1.prems"(1) by simp
      moreover have "1 * 2 ^ 31 \<le> v * 2 ^ 31" using "1.prems"(2) by (intro mult_le_mono1) simp
      ultimately show False using lt by simp
    qed
    then have y: "unat (y - 1) = unat y - 1" by (simp add: unat_sub_le word_le_nat_alt)
    have "unat (x * 2) * 2 ^ unat (y - 1) = unat x * 2 ^ Suc (unat y - 1)"
      using lt by (simp add: unat_shift y)
    also have "Suc (unat y - 1) = unat y" using y0 by simp
    finally have "unat (x * 2) * 2 ^ unat (y - 1) = v * 2 ^ 31" using "1.prems"(1) by simp
    then show ?thesis
      using "1.IH" "1.prems" False x0 lt y by (simp add: Log2_normalize.simps [of x y] unat_shift)
  qed
qed

definition log_error :: real where
  "log_error = 1 + 1 / 2 ^ 31"

text \<open>
  The invariant of the squaring loop: \<open>2 ^ y * (x / 2 ^ 31)\<close> is \<open>v ^ (2 ^ i)\<close>, up to the truncation of
  the products. Every round squares the error of the rounds before it and adds two truncations.
\<close>

definition log_inv :: "nat \<Rightarrow> nat \<Rightarrow> nat \<Rightarrow> nat \<Rightarrow> bool" where
  "log_inv v i x y \<longleftrightarrow> 2 ^ 31 \<le> x \<and> x < 2 ^ 32 \<and> y < 2 ^ (i + 5)
     \<and> 2 ^ y * x \<le> v ^ (2 ^ i) * 2 ^ 31
     \<and> real (v ^ (2 ^ i) * 2 ^ 31) \<le> real (2 ^ y * x) * log_error ^ (2 ^ (i + 1) - 2)"

lemma log_error_ge: "1 \<le> log_error"
  by (simp add: log_error_def)

lemma truncate_error:
  assumes "2 ^ 31 \<le> x"
  shows "real x + 1 \<le> real x * log_error"
proof -
  have "(2 :: real) ^ 31 \<le> real x" using assms by (metis of_nat_le_iff of_nat_numeral of_nat_power)
  then show ?thesis by (simp add: log_error_def field_simps)
qed

text \<open>One round, over the natural numbers: the square of \<open>x\<close> with its binary point moved, halved when it is 2 or more.\<close>

definition log_round :: "nat \<Rightarrow> nat \<times> nat" where
  "log_round x = (let x' = x * x div 2 ^ 31 in if x' \<ge> 2 ^ 32 then (x' div 2, 1) else (x', 0))"

lemma log_round_bounds:
  assumes "2 ^ 31 \<le> x" and "x < 2 ^ 32" and "log_round x = (x', b)"
  shows "2 ^ 31 \<le> x'" and "x' < 2 ^ 32" and "b \<le> 1"
    and "2 ^ b * x' * 2 ^ 31 \<le> x * x"
    and "real (x * x) \<le> real (2 ^ b * x') * 2 ^ 31 * log_error ^ 2"
proof -
  define z where "z = x * x div 2 ^ 31"
  have lr: "(x', b) = (if z \<ge> 2 ^ 32 then (z div 2, 1) else (z, 0))"
    using assms(3) unfolding log_round_def Let_def z_def by simp
  have zl: "2 ^ 31 \<le> z"
  proof -
    have "2 ^ 31 * 2 ^ 31 \<le> x * x" using assms(1) by (rule mult_le_mono) (rule assms(1))
    then have "2 ^ 31 * 2 ^ 31 div 2 ^ 31 \<le> z" unfolding z_def by (rule div_le_mono)
    then show ?thesis by simp
  qed
  have zu: "z < 2 ^ 33"
  proof -
    have "x * x < 2 ^ 32 * 2 ^ 32" using assms(2) by (intro mult_strict_mono) auto
    then show ?thesis unfolding z_def by (simp add: less_mult_imp_div_less)
  qed
  have z1: "z * 2 ^ 31 \<le> x * x" unfolding z_def by (rule div_times_less_eq_dividend)
  have z2: "x * x \<le> (z + 1) * 2 ^ 31"
    unfolding z_def by (metis add.commute dividend_less_times_div less_imp_le_nat mult.commute plus_1_eq_Suc mult_Suc zero_less_numeral zero_less_power)
  have zr: "real (x * x) \<le> real z * 2 ^ 31 * log_error"
  proof -
    have "real (x * x) \<le> real ((z + 1) * 2 ^ 31)" using z2 by (rule of_nat_mono)
    also have "\<dots> = (real z + 1) * 2 ^ 31" by simp
    also have "\<dots> \<le> (real z * log_error) * 2 ^ 31"
      using truncate_error [OF zl] by (rule mult_right_mono) simp
    finally show ?thesis by (simp add: mult_ac)
  qed
  have e2: "real z * 2 ^ 31 * log_error \<le> real z * 2 ^ 31 * log_error ^ 2"
    using log_error_ge by (intro mult_left_mono) (auto simp: power2_eq_square)
  show "2 ^ 31 \<le> x'" "x' < 2 ^ 32" "b \<le> 1"
    using lr zl zu by (auto split: if_splits)
  show "2 ^ b * x' * 2 ^ 31 \<le> x * x"
    using lr z1 by (auto split: if_splits)
  show "real (x * x) \<le> real (2 ^ b * x') * 2 ^ 31 * log_error ^ 2"
  proof (cases "2 ^ 32 \<le> z")
    case False
    then show ?thesis
      using order_trans [OF zr e2] lr by simp
  next
    case True
    then have x': "x' = z div 2" "b = 1" using lr by auto
    have "2 ^ 31 \<le> x'" using True by (simp add: x')
    then have "real z \<le> 2 * (real x' * log_error)"
      using truncate_error [of x'] x'(1) by linarith
    then have "real z * (2 ^ 31 * log_error) \<le> 2 * (real x' * log_error) * (2 ^ 31 * log_error)"
      using log_error_ge by (intro mult_right_mono) auto
    then show ?thesis using zr by (simp add: x'(2) power2_eq_square mult_ac)
  qed
qed


lemma log_inv_step:
  assumes inv: "log_inv v i x y" and r: "log_round x = (x', b)"
  shows "log_inv v (Suc i) x' (2 * y + b)"
proof -
  have x: "2 ^ 31 \<le> x" "x < 2 ^ 32" and y: "y < 2 ^ (i + 5)"
    and lo: "2 ^ y * x \<le> v ^ (2 ^ i) * 2 ^ 31"
    and hi: "real (v ^ (2 ^ i) * 2 ^ 31) \<le> real (2 ^ y * x) * log_error ^ (2 ^ (i + 1) - 2)"
    using inv by (auto simp: log_inv_def)
  note bounds = log_round_bounds [OF x r]
  have vv: "v ^ (2 ^ Suc i) = v ^ (2 ^ i) * v ^ (2 ^ i)" by (simp add: power_add [symmetric] mult_2)
  have pw: "(2 :: nat) ^ (2 * y + b) = 2 ^ y * 2 ^ y * 2 ^ b" by (simp add: power_add mult_2)
  have "2 ^ (2 * y + b) * x' * 2 ^ 31 = (2 ^ y * 2 ^ y) * (2 ^ b * x' * 2 ^ 31)"
    unfolding pw by (simp only: mult_ac)
  also have "\<dots> \<le> (2 ^ y * 2 ^ y) * (x * x)" using bounds(4) by (rule mult_le_mono2)
  also have "\<dots> = (2 ^ y * x) * (2 ^ y * x)" by (simp add: mult_ac)
  also have "\<dots> \<le> (v ^ (2 ^ i) * 2 ^ 31) * (v ^ (2 ^ i) * 2 ^ 31)" using lo by (rule mult_le_mono) (rule lo)
  also have "\<dots> = v ^ (2 ^ Suc i) * 2 ^ 31 * 2 ^ 31" unfolding vv by (simp add: mult_ac)
  finally have lower: "2 ^ (2 * y + b) * x' \<le> v ^ (2 ^ Suc i) * 2 ^ 31"
    by (rule mult_right_le_imp_le) simp
  let ?e = "log_error ^ (2 ^ (i + 1) - 2)"
  have e0: "0 \<le> ?e" using log_error_ge by (intro zero_le_power) linarith
  have "real (v ^ (2 ^ i) * 2 ^ 31) * real (v ^ (2 ^ i) * 2 ^ 31)
      \<le> (real (2 ^ y * x) * ?e) * (real (2 ^ y * x) * ?e)"
    using hi by (rule mult_mono) (use hi e0 in auto)
  also have "\<dots> = real (2 ^ y * 2 ^ y) * real (x * x) * ?e ^ 2" by (simp add: power2_eq_square mult_ac)
  also have "\<dots> \<le> real (2 ^ y * 2 ^ y) * (real (2 ^ b * x') * 2 ^ 31 * log_error ^ 2) * ?e ^ 2"
    using bounds(5) by (intro mult_right_mono mult_left_mono) auto
  also have "\<dots> = (real (2 ^ (2 * y + b) * x') * (log_error ^ 2 * ?e ^ 2)) * 2 ^ 31"
    unfolding pw by (simp add: mult_ac)
  finally have "real (v ^ (2 ^ Suc i) * 2 ^ 31) * 2 ^ 31
      \<le> (real (2 ^ (2 * y + b) * x') * (log_error ^ 2 * ?e ^ 2)) * 2 ^ 31"
    unfolding vv by (simp add: mult_ac)
  then have "real (v ^ (2 ^ Suc i) * 2 ^ 31) \<le> real (2 ^ (2 * y + b) * x') * (log_error ^ 2 * ?e ^ 2)"
    by (rule mult_right_le_imp_le) simp
  also have "log_error ^ 2 * ?e ^ 2 = log_error ^ (2 + 2 * (2 ^ (i + 1) - 2))"
    by (simp only: power_add power_mult [of _ _ 2] mult.commute [of 2])
  also have "2 + 2 * (2 ^ (i + 1) - 2) = (2 ^ (Suc i + 1) - 2 :: nat)"
  proof -
    have "2 + 2 * (p - 2) = 2 * p - 2" if "2 \<le> p" for p :: nat using that by simp
    from this [of "2 ^ (i + 1)"] show ?thesis by simp
  qed
  finally have "real (v ^ (2 ^ Suc i) * 2 ^ 31)
      \<le> real (2 ^ (2 * y + b) * x') * log_error ^ (2 ^ (Suc i + 1) - 2)" .
  moreover have "2 * y + b < 2 ^ (Suc i + 5)"
  proof -
    have "2 * y + b < 2 * 2 ^ (i + 5)" using y bounds(3) by linarith
    then show ?thesis by (simp only: add_Suc power_Suc)
  qed
  ultimately show ?thesis using bounds(1,2) lower by (simp only: log_inv_def)
qed

lemma Log2_square_Suc:
  assumes "2 ^ 31 \<le> unat x" and "unat x < 2 ^ 32" and "unat y < 2 ^ 63" and "log_round (unat x) = (x', b)"
  obtains x1 y1 where "Log2_square (Suc n) x y = Log2_square n x1 y1" "unat x1 = x'" "unat y1 = 2 * unat y + b"
proof -
  define z where "z = drop_bit 31 (x * x)"
  have "unat x * unat x < 2 ^ 32 * 2 ^ 32" using assms(2) by (intro mult_strict_mono) auto
  then have "unat (x * x) = unat x * unat x" by (intro unat_mult_lt) simp
  then have z: "unat z = unat x * unat x div 2 ^ 31" by (simp add: z_def drop_bit_eq_div unat_div)
  have y: "unat (y * 2) = 2 * unat y" using assms(3) by (rule unat_shift)
  have y1: "unat (y * 2 + 1) = 2 * unat y + 1" using assms(3) y by (simp add: unat_word_ariths)
  have lr: "(x', b) = (if z \<ge> 2 * 2 ^ 31 then (unat z div 2, 1) else (unat z, 0))"
    using assms(4) unfolding log_round_def Let_def z [symmetric] by (simp add: word_le_nat_alt)
  have step: "Log2_square (Suc n) x y =
      (if z \<ge> 2 * 2 ^ 31 then Log2_square n (drop_bit 1 z) (y * 2 + 1) else Log2_square n z (y * 2))"
    unfolding Log2_square.simps Let_def z_def by simp
  show thesis
  proof (cases "z \<ge> 2 * 2 ^ 31")
    case True
    have "unat (drop_bit 1 z) = unat z div 2" by (simp add: unat_div drop_bit_eq_div)
    then show thesis
      using lr y1 True by (intro that [OF trans [OF step if_P]]) auto
  next
    case False
    then show thesis using lr y by (intro that [OF trans [OF step if_not_P]]) auto
  qed
qed

lemma Log2_square_correct:
  assumes "log_inv v i (unat x) (unat y)" and "i + n \<le> 58"
  shows "case Log2_square n x y of (x', y') \<Rightarrow> log_inv v (i + n) (unat x') (unat y')"
  using assms
proof (induction n arbitrary: i x y)
  case (Suc n)
  obtain x' b where r: "log_round (unat x) = (x', b)" by fastforce
  have inv: "2 ^ 31 \<le> unat x" "unat x < 2 ^ 32" "unat y < 2 ^ (i + 5)"
    using Suc.prems(1) by (auto simp: log_inv_def)
  have "(2 :: nat) ^ (i + 5) \<le> 2 ^ 63" using Suc.prems(2) by (intro power_increasing) auto
  then have "unat y < 2 ^ 63" using inv(3) by linarith
  then obtain x1 y1 where "Log2_square (Suc n) x y = Log2_square n x1 y1" "unat x1 = x'" "unat y1 = 2 * unat y + b"
    using Log2_square_Suc [OF inv(1,2) _ r] by metis
  then show ?case using Suc.IH [of "Suc i" x1 y1] log_inv_step [OF Suc.prems(1) r] Suc.prems(2) by simp
qed simp

text \<open>
  C35. \<^verbatim>\<open>Log2TimesPowerOfTwo\<close> is the binary logarithm in fixed point: for a positive 32-bit value and
  up to 58 fractional digits, the 64-bit arithmetic does not overflow, the result \<open>y\<close> is never larger than
  \<open>2 ^ n * log2 v\<close>, and \<open>y + 1\<close> exceeds it up to an error of less than a factor \<open>1 + 2 ^ -31\<close> for every one
  of the \<open>2 ^ (n + 1)\<close> truncations that the comment on the approximation allows for.
\<close>

theorem log2_times_power_of_two_correct:
  assumes "0 < v" and "v < 2 ^ 32" and "n \<le> 58"
  shows "\<exists>y. Log2TimesPowerOfTwo v n = Inr y
    \<and> 2 ^ unat y \<le> unat v ^ (2 ^ unat n)
    \<and> real (unat v ^ (2 ^ unat n)) < 2 ^ (unat y + 1) * (1 + 1 / 2 ^ 31) ^ (2 ^ (unat n + 1) - 2)"
proof -
  have v: "0 < unat v" "unat v < 2 ^ 32" "v \<noteq> 0" and n: "unat n \<le> 58"
    using assms by (auto simp: word_less_nat_alt word_le_nat_alt)
  obtain x0 y0 where norm: "Log2_normalize v 31 = (x0, y0)" by fastforce
  have "unat x0 * 2 ^ unat y0 = unat v * 2 ^ 31" "2 ^ 31 \<le> unat x0" "unat x0 < 2 ^ 32" "unat y0 \<le> 31"
    using Log2_normalize_correct [of v 31 "unat v"] v norm by simp_all
  then have "log_inv (unat v) 0 (unat x0) (unat y0)" by (simp add: log_inv_def mult.commute)
  moreover obtain x y where sq: "Log2_square (unat n) x0 y0 = (x, y)" by fastforce
  ultimately have inv: "log_inv (unat v) (unat n) (unat x) (unat y)"
    using Log2_square_correct [of "unat v" 0 x0 y0 "unat n"] n by simp
  then have x: "2 ^ 31 \<le> unat x" "unat x < 2 ^ 32"
    and lo: "2 ^ unat y * unat x \<le> unat v ^ (2 ^ unat n) * 2 ^ 31"
    and hi: "real (unat v ^ (2 ^ unat n) * 2 ^ 31) \<le> real (2 ^ unat y * unat x) * log_error ^ (2 ^ (unat n + 1) - 2)"
    by (auto simp: log_inv_def)
  have "2 ^ unat y * 2 ^ 31 \<le> 2 ^ unat y * unat x" using x(1) by (rule mult_le_mono2)
  then have "2 ^ unat y * 2 ^ 31 \<le> unat v ^ (2 ^ unat n) * 2 ^ 31" using lo by (rule order_trans)
  then have lower: "2 ^ unat y \<le> unat v ^ (2 ^ unat n)" by (rule mult_right_le_imp_le) simp
  have "real (2 ^ unat y * unat x) < 2 ^ unat y * 2 ^ 32"
    using x(2) by (simp add: of_nat_less_iff [symmetric, where 'a = real] del: of_nat_less_iff)
  moreover have "0 < log_error ^ (2 ^ (unat n + 1) - 2)" using log_error_ge by (intro zero_less_power) linarith
  ultimately have up: "real (2 ^ unat y * unat x) * log_error ^ (2 ^ (unat n + 1) - 2)
      < 2 ^ unat y * 2 ^ 32 * log_error ^ (2 ^ (unat n + 1) - 2)"
    by (rule mult_strict_right_mono)
  have "real (unat v ^ (2 ^ unat n)) * 2 ^ 31 = real (unat v ^ (2 ^ unat n) * 2 ^ 31)" by simp
  also note order_le_less_trans [OF hi up]
  also have "2 ^ unat y * 2 ^ 32 * log_error ^ (2 ^ (unat n + 1) - 2) = 2 ^ (unat y + 1) * log_error ^ (2 ^ (unat n + 1) - 2) * 2 ^ 31"
    by (simp only: power_add power_one_right) simp
  finally have "real (unat v ^ (2 ^ unat n)) < 2 ^ (unat y + 1) * log_error ^ (2 ^ (unat n + 1) - 2)"
    by (rule mult_right_less_imp_less) simp
  then show ?thesis
    using lower v(3) norm sq by (auto simp: Log2TimesPowerOfTwo_def log_error_def)
qed


theorem log2_times_power_of_two_correct_witness:
  "\<exists>y. Log2TimesPowerOfTwo 10 4 = Inr y \<and> 2 ^ unat y \<le> (10 :: nat) ^ 16"
  using log2_times_power_of_two_correct [of 10 4] by auto

section \<open>The lottery\<close>

lemma unat_multiplier:
  assumes "GetMultiplier timeDiff config = Inr m"
  shows "unat m < 2 ^ 74"
proof -
  obtain w :: u64 where m: "m = push_bit 10 (ucast w)"
    using assms by (auto simp: GetMultiplier_def Let_def)
  have "unat (ucast w :: u256) = unat w"
    using unat_u64_lt [of w] by (simp add: unsigned_ucast_eq take_bit_nat_eq_self)
  moreover have "unat (ucast w * 2 ^ 10 :: u256) \<le> unat (ucast w :: u256) * 2 ^ 10"
    by (simp add: unat_word_ariths)
  ultimately show ?thesis using unat_u64_lt [of w] by (simp add: m push_bit_eq_mult)
qed

lemma unat_ucast_256 [simp]: "unat (ucast (a :: u64) :: u256) = unat a"
  using unat_u64_lt [of a] by (simp add: unsigned_ucast_eq take_bit_nat_eq_self)

text \<open>The product of the target needs at most 236 bits.\<close>

lemma unat_target:
  fixes s i :: u64 and m :: u256
  assumes "unat m < 2 ^ 74"
  shows "unat (ucast s * ucast i * m * 8999999998 :: u256) = unat s * unat i * unat m * 8999999998"
proof -
  have s: "unat s \<le> 2 ^ 64" "unat i \<le> 2 ^ 64" using unat_u64_lt less_imp_le_nat by blast+
  have p1: "unat s * unat i \<le> 2 ^ 64 * 2 ^ 64" using s by (rule mult_le_mono)
  then have u1: "unat (ucast s * ucast i :: u256) = unat s * unat i"
    by (subst unat_mult_lt) auto
  have p2: "unat s * unat i * unat m \<le> 2 ^ 64 * 2 ^ 64 * 2 ^ 74"
    using p1 less_imp_le_nat [OF assms] by (rule mult_le_mono)
  then have u2: "unat (ucast s * ucast i * m :: u256) = unat s * unat i * unat m"
    by (subst unat_mult_lt) (auto simp: u1)
  have "unat s * unat i * unat m * 8999999998 \<le> 2 ^ 64 * 2 ^ 64 * 2 ^ 74 * 8999999998"
    using p2 by (rule mult_le_mono) simp
  then show ?thesis by (subst unat_mult_lt) (auto simp: u2)
qed

lemma target_mono:
  assumes "CalculateTarget parent block i config = Inr t" and "i \<le> i'"
  obtains t' where "CalculateTarget parent block i' config = Inr t'" "t \<le> t'"
proof (cases "block_Timestamp block \<le> block_Timestamp parent")
  case True
  then show thesis using assms by (intro that [of 0]) (auto simp: CalculateTarget_def)
next
  case False
  let ?span = "TimeSpan_FromDifference (block_Timestamp block) (block_Timestamp parent)"
  let ?s = "TimeSpan_seconds ?span"
  obtain m where m: "GetMultiplier ?s config = Inr m"
    and nz: "TotalChainImportance config \<noteq> 0" "block_Difficulty block \<noteq> 0"
    and t: "t = ucast ?s * ucast i * m * 8999999998 div ucast (TotalChainImportance config) div ucast (block_Difficulty block)"
    using assms(1) False by (auto simp: CalculateTarget_def CalculateTarget_span_def Let_def split: if_splits)
  let ?t' = "ucast ?s * ucast i' * m * 8999999998 div ucast (TotalChainImportance config) div ucast (block_Difficulty block)"
  have "unat ?s * unat i * unat m * 8999999998 \<le> unat ?s * unat i' * unat m * 8999999998"
    using assms(2) by (intro mult_le_mono) (auto simp: word_le_nat_alt)
  then have "t \<le> ?t'"
    unfolding t using unat_multiplier [OF m] by (simp add: word_le_nat_alt unat_div unat_target div_le_mono)
  moreover have "CalculateTarget parent block i' config = Inr ?t'"
    using False m nz by (simp add: CalculateTarget_def CalculateTarget_span_def Let_def)
  ultimately show thesis by (intro that)
qed

text \<open>
  The lottery is fair in the importance: if a block wins with the importance that one lookup
  reports for its signer, it wins with every lookup that reports at least as much. The 256-bit product of
  the target never overflows, so more importance never turns into a smaller target.
\<close>

theorem block_hit_monotone:
  assumes "BlockHitPredicate_block narrow config lookup parent block generationHash = Inr True"
    and "lookup (block_SignerPublicKey block) (block_Height block)
      \<le> lookup' (block_SignerPublicKey block) (block_Height block)"
  shows "BlockHitPredicate_block narrow config lookup' parent block generationHash = Inr True"
proof -
  obtain hit t where h: "CalculateHit narrow generationHash = Inr hit" "ucast hit < t"
    and t: "CalculateTarget parent block (lookup (block_SignerPublicKey block) (block_Height block)) config = Inr t"
    using assms(1) by (auto simp: BlockHitPredicate_block_def)
  obtain t' where "CalculateTarget parent block (lookup' (block_SignerPublicKey block) (block_Height block)) config = Inr t'" "t \<le> t'"
    using target_mono [OF t assms(2)] .
  then show ?thesis using h by (simp add: BlockHitPredicate_block_def)
qed


text \<open>A chain of a single account that holds all the importance, with a block one minute after its parent.\<close>

definition lottery_config :: BlockchainConfiguration where
  "lottery_config = \<lparr>BlockGenerationTargetTime = 15000, BlockTimeSmoothingFactor = 0, MaxDifficultyBlocks = 60,
     TotalChainImportance = 9000000000\<rparr>"

definition lottery_block :: "Height \<Rightarrow> Timestamp \<Rightarrow> Block" where
  "lottery_block h t = \<lparr>block_SignerPublicKey = [1], block_Type = 0, block_Height = h, block_Timestamp = t,
     block_Difficulty = 10 ^ 14, block_PreviousBlockHash = [], block_FeeMultiplier = 0,
     block_GenerationHashProof = [], block_ReceiptsHash = [], block_StateHash = [], block_PreviousImportanceBlockHash = []\<rparr>"

lemma lottery_wins:
  "BlockHitPredicate_block ucast lottery_config (\<lambda>_ _. 1000000) (lottery_block 1 0) (lottery_block 2 60000)
    (replicate 32 255) = Inr True"
  by code_simp

theorem block_hit_monotone_witness:
  "BlockHitPredicate_block ucast lottery_config (\<lambda>_ _. 2000000) (lottery_block 1 0) (lottery_block 2 60000)
    (replicate 32 255) = Inr True"
  by (rule block_hit_monotone [OF lottery_wins]) simp

end
