(* ===== verification/Chain_Comparison.thy ===== *)
theory Chain_Comparison
  imports Chain_Scoring
begin

unbundle bit_operations_syntax

text \<open>
  How a node finds out where a remote chain branches off its own (\<^verbatim>\<open>chain/CompareChains.cpp\<close>,
  \<^verbatim>\<open>chain/ChainComparisonCode.h\<close>), with the two providers of block hashes: the local chain api over the block
  storage (\<^verbatim>\<open>api/LocalChainApi.cpp\<close>, \<^verbatim>\<open>io/FileBlockStorage.cpp\<close>, \<^verbatim>\<open>io/FixedSizeValueStorage.cpp\<close>) and the
  handler of the remote node behind the remote chain api (\<^verbatim>\<open>handlers/ChainHandlers.cpp\<close>,
  \<^verbatim>\<open>handlers/HeightRequestProcessor.h\<close>, \<^verbatim>\<open>api/RemoteChainApi.cpp\<close>).

  A comparison is a sequence of rounds. A round sends requests to both nodes; the answers of a round are
  a value of type \<open>replies\<close>, so that a run is driven by a list of replies and a node that changes its
  answers from round to round is covered. Futures are complete when a round looks at them.
\<close>

section \<open>Comparison codes\<close>

datatype ChainComparisonCode =
    Remote_Reported_Equal_Chain_Score
  | Remote_Reported_Lower_Chain_Score
  | Local_Score_Updated
  | Remote_Is_Too_Far_Behind
  | Remote_Is_Not_Synced
  | Remote_Returned_Too_Many_Hashes
  | Remote_Is_Forked
  | Remote_Lied_About_Chain_Score
  | Incomplete_Chain_Comparison_Code

definition Remote_Is_Out_Of_Sync_Flag :: u32 where
  "Remote_Is_Out_Of_Sync_Flag = 0x40000000"

definition Remote_Is_Evil_Flag :: u32 where
  "Remote_Is_Evil_Flag = 0x80000000"

fun comparison_code_value :: "ChainComparisonCode \<Rightarrow> u32" where
  "comparison_code_value Remote_Reported_Equal_Chain_Score = 1"
| "comparison_code_value Remote_Reported_Lower_Chain_Score = 2"
| "comparison_code_value Local_Score_Updated = 3"
| "comparison_code_value Remote_Is_Too_Far_Behind = Remote_Is_Out_Of_Sync_Flag OR 1"
| "comparison_code_value Remote_Is_Not_Synced = Remote_Is_Out_Of_Sync_Flag OR 2"
| "comparison_code_value Remote_Returned_Too_Many_Hashes = Remote_Is_Evil_Flag OR 1"
| "comparison_code_value Remote_Is_Forked = Remote_Is_Evil_Flag OR 2"
| "comparison_code_value Remote_Lied_About_Chain_Score = Remote_Is_Evil_Flag OR 3"
| "comparison_code_value Incomplete_Chain_Comparison_Code = - 1"

definition IsRemoteOutOfSync :: "ChainComparisonCode \<Rightarrow> bool" where
  "IsRemoteOutOfSync code \<longleftrightarrow> Remote_Is_Out_Of_Sync_Flag AND comparison_code_value code \<noteq> 0"

definition IsRemoteEvil :: "ChainComparisonCode \<Rightarrow> bool" where
  "IsRemoteEvil code \<longleftrightarrow> Remote_Is_Evil_Flag AND comparison_code_value code \<noteq> 0"

section \<open>Block hashes\<close>

text \<open>
  The part of \<^verbatim>\<open>FileBlockStorage\<close> that answers hash requests: the mode, the index file with the height
  of the chain (absent before the first block) and the hash file, which keeps the hash of every height
  at a fixed position.
\<close>

record hash_storage =
  storage_Hash_Index :: bool
  storage_indexFile :: "Height option"
  storage_hashFile :: "Height \<Rightarrow> Hash256"

definition storage_chainHeight :: "'a hash_storage_scheme \<Rightarrow> Height" where
  "storage_chainHeight s = (case storage_indexFile s of Some h \<Rightarrow> h | None \<Rightarrow> 0)"

definition loadRangeFrom :: "(Height \<Rightarrow> Hash256) \<Rightarrow> Height \<Rightarrow> nat \<Rightarrow> Hash256 list" where
  "loadRangeFrom hashFile key numValues = map (\<lambda>i. hashFile (key + of_nat i)) [0..<numValues]"

definition loadHashesFrom :: "'a hash_storage_scheme \<Rightarrow> Height \<Rightarrow> nat \<Rightarrow> Hash256 list result" where
  "loadHashesFrom s height maxHashes =
    (if \<not> storage_Hash_Index s then Inl invalid_argument
     else let currentHeight = storage_chainHeight s in
       if height = 0 \<or> currentHeight < height then Inr []
       else let numAvailableHashes = unat (currentHeight - height + 1);
                numHashes = min maxHashes numAvailableHashes
            in Inr (loadRangeFrom (storage_hashFile s) height numHashes))"

definition LocalChainApi_hashesFrom :: "'a hash_storage_scheme \<Rightarrow> Height \<Rightarrow> u32 \<Rightarrow> Hash256 list result" where
  "LocalChainApi_hashesFrom s height maxHashes =
    bind_result (loadHashesFrom s height (unat maxHashes))
      (\<lambda>hashes. if hashes = [] then Inl runtime_error else Inr hashes)"

text \<open>
  The handler of a hash request on the remote node: a height above the chain or zero is answered with
  an empty packet; otherwise the number of hashes is clamped, the number of available blocks being
  truncated to 32 bits. The remote api treats an empty answer as a malformed packet.
\<close>

definition numAvailableBlocks :: "Height \<Rightarrow> Height \<Rightarrow> u32" where
  "numAvailableBlocks chainHeight requestHeight = ucast (chainHeight - requestHeight + 1)"

definition BlockHashes_handler :: "'a hash_storage_scheme \<Rightarrow> u32 \<Rightarrow> Height \<Rightarrow> u32 \<Rightarrow> Hash256 list result" where
  "BlockHashes_handler s maxHashes height numHashes =
    (let chainHeight = storage_chainHeight s
     in if chainHeight < height \<or> height = 0 then Inr []
        else loadHashesFrom s height
          (unat (min (min maxHashes numHashes) (numAvailableBlocks chainHeight height))))"

definition RemoteChainApi_hashesFrom :: "'a hash_storage_scheme \<Rightarrow> u32 \<Rightarrow> Height \<Rightarrow> u32 \<Rightarrow> Hash256 list result" where
  "RemoteChainApi_hashesFrom s maxHashes height numHashes =
    bind_result (BlockHashes_handler s maxHashes height numHashes)
      (\<lambda>hashes. if hashes = [] then Inl runtime_error else Inr hashes)"

fun FindFirstDifferenceIndex :: "'h list \<Rightarrow> 'h list \<Rightarrow> nat" where
  "FindFirstDifferenceIndex (x # xs) (y # ys) = (if x \<noteq> y then 0 else Suc (FindFirstDifferenceIndex xs ys))"
| "FindFirstDifferenceIndex xs ys = 0"

section \<open>The comparison\<close>

datatype Stage = Statistics | Hashes_First | Hashes_Next | Score_Local

record CompareChainsContext =
  m_stage :: Stage
  m_lowerBoundHeight :: Height
  m_upperBoundHeight :: Height
  m_startingHashesHeight :: Height
  m_originalLocalScore :: ChainScore
  m_localHeight :: Height
  m_remoteHeight :: Height
  m_commonBlockHeight :: Height

definition CompareChainsContext_new :: CompareChainsContext where
  "CompareChainsContext_new = \<lparr>m_stage = Statistics, m_lowerBoundHeight = 0, m_upperBoundHeight = 0,
     m_startingHashesHeight = 0, m_originalLocalScore = 0, m_localHeight = 0, m_remoteHeight = 0,
     m_commonBlockHeight = 0\<rparr>"

record ChainStatistics =
  chain_Height :: Height
  chain_FinalizedHeight :: Height
  chain_Score :: ChainScore

text \<open>
  What the two nodes answer in a round. The finalized height is asked for twice in the first round,
  before the requests are sent and after the answers have arrived.
\<close>

record 'h replies =
  finalized_before :: Height
  finalized_after :: Height
  local_statistics :: "ChainStatistics result"
  remote_statistics :: "ChainStatistics result"
  local_hashesFrom :: "Height \<Rightarrow> u32 \<Rightarrow> 'h list result"
  remote_hashesFrom :: "Height \<Rightarrow> u32 \<Rightarrow> 'h list result"

definition isRemoteTooFarBehind :: "'h replies \<Rightarrow> Height \<Rightarrow> bool" where
  "isRemoteTooFarBehind w remoteHeight \<longleftrightarrow> remoteHeight \<le> finalized_after w"

definition compareChainStatistics :: "'h replies \<Rightarrow> ChainStatistics \<Rightarrow> ChainStatistics \<Rightarrow> CompareChainsContext
    \<Rightarrow> ChainComparisonCode \<times> CompareChainsContext" where
  "compareChainStatistics w l r c =
    (if isRemoteTooFarBehind w (chain_Height r) then (Remote_Is_Too_Far_Behind, c)
     else if chain_Score r > chain_Score l then
       (Incomplete_Chain_Comparison_Code,
        c\<lparr>m_originalLocalScore := chain_Score l, m_localHeight := chain_Height l,
          m_remoteHeight := chain_Height r, m_upperBoundHeight := chain_Height l, m_stage := Hashes_First\<rparr>)
     else (if chain_Score l = chain_Score r then Remote_Reported_Equal_Chain_Score
           else Remote_Reported_Lower_Chain_Score, c))"

definition isProcessingFirstBatchOfHashes :: "CompareChainsContext \<Rightarrow> bool" where
  "isProcessingFirstBatchOfHashes c \<longleftrightarrow> m_stage c = Hashes_First"

definition tryContinue :: "Height \<Rightarrow> CompareChainsContext \<Rightarrow> ChainComparisonCode \<times> CompareChainsContext" where
  "tryContinue nextStartingHashesHeight c =
    (if m_startingHashesHeight c = nextStartingHashesHeight then (Remote_Lied_About_Chain_Score, c)
     else (Incomplete_Chain_Comparison_Code,
       c\<lparr>m_startingHashesHeight := nextStartingHashesHeight, m_stage := Hashes_Next\<rparr>))"

definition compareHashes :: "u32 \<Rightarrow> 'h list \<Rightarrow> 'h list \<Rightarrow> CompareChainsContext
    \<Rightarrow> ChainComparisonCode \<times> CompareChainsContext" where
  "compareHashes hashesPerBatch localHashes remoteHashes c =
    (if length remoteHashes > unat hashesPerBatch \<or> length remoteHashes = 0
     then (Remote_Returned_Too_Many_Hashes, c)
     else let firstDifferenceIndex = FindFirstDifferenceIndex localHashes remoteHashes in
       if isProcessingFirstBatchOfHashes c \<and> firstDifferenceIndex = 0 then (Remote_Is_Forked, c)
       else let commonBlockHeight = m_startingHashesHeight c + (of_nat firstDifferenceIndex - 1);
                localHeightDerivedFromHashes =
                  m_startingHashesHeight c + (of_nat (min (length localHashes) (length remoteHashes)) - 1)
            in if firstDifferenceIndex = 0 then
                 tryContinue ((m_lowerBoundHeight c + m_startingHashesHeight c) div 2)
                   (c\<lparr>m_upperBoundHeight := m_startingHashesHeight c\<rparr>)
               else if length remoteHashes = firstDifferenceIndex then
                 if localHeightDerivedFromHashes \<ge> m_localHeight c then
                   if localHeightDerivedFromHashes < m_remoteHeight c
                   then tryContinue (localHeightDerivedFromHashes - 1) c
                   else (Incomplete_Chain_Comparison_Code, c\<lparr>m_stage := Score_Local\<rparr>)
                 else tryContinue ((m_startingHashesHeight c + m_upperBoundHeight c) div 2)
                   (c\<lparr>m_lowerBoundHeight := m_startingHashesHeight c\<rparr>)
               else (Remote_Is_Not_Synced,
                 c\<lparr>m_commonBlockHeight := commonBlockHeight,
                   m_localHeight := (if localHeightDerivedFromHashes > m_localHeight c
                     then localHeightDerivedFromHashes else m_localHeight c)\<rparr>))"

definition compareLocalScore :: "ChainStatistics \<Rightarrow> CompareChainsContext \<Rightarrow> ChainComparisonCode \<times> CompareChainsContext" where
  "compareLocalScore l c =
    (if chain_Score l > m_originalLocalScore c then (Local_Score_Updated, c)
     else (Remote_Lied_About_Chain_Score, c))"

text \<open>
  \<^verbatim>\<open>startNextCompare\<close> with the answers of the round. An exception in an answer is the outcome of the
  round.
\<close>

definition startNextCompare :: "u32 \<Rightarrow> 'h replies \<Rightarrow> CompareChainsContext
    \<Rightarrow> (ChainComparisonCode \<times> CompareChainsContext) result" where
  "startNextCompare hashesPerBatch w c =
    (case m_stage c of
       Statistics \<Rightarrow>
         (let c' = c\<lparr>m_lowerBoundHeight := finalized_before w, m_startingHashesHeight := finalized_before w\<rparr>
          in bind_result (local_statistics w) (\<lambda>l. bind_result (remote_statistics w)
               (\<lambda>r. Inr (compareChainStatistics w l r c'))))
     | Score_Local \<Rightarrow> bind_result (local_statistics w) (\<lambda>l. Inr (compareLocalScore l c))
     | _ \<Rightarrow>
         bind_result (local_hashesFrom w (m_startingHashesHeight c) hashesPerBatch)
           (\<lambda>localHashes. bind_result (remote_hashesFrom w (m_startingHashesHeight c) hashesPerBatch)
             (\<lambda>remoteHashes. Inr (compareHashes hashesPerBatch localHashes remoteHashes c))))"

record CompareChainsResult =
  result_Code :: ChainComparisonCode
  result_CommonBlockHeight :: Height
  result_ForkDepth :: u64

text \<open>
  \<^verbatim>\<open>dispatch\<close> and \<^verbatim>\<open>isFutureChainComplete\<close>: rounds are run until one is complete. The outcome is \<^const>\<open>None\<close> while
  the replies are used up before the comparison is complete.
\<close>

fun compare_run :: "u32 \<Rightarrow> 'h replies list \<Rightarrow> CompareChainsContext \<Rightarrow> CompareChainsResult result option" where
  "compare_run hashesPerBatch [] c = None"
| "compare_run hashesPerBatch (w # ws) c =
    (case startNextCompare hashesPerBatch w c of
       Inl e \<Rightarrow> Some (Inl e)
     | Inr (code, c') \<Rightarrow>
         if code = Incomplete_Chain_Comparison_Code then compare_run hashesPerBatch ws c'
         else Some (Inr
           (if code = Remote_Is_Not_Synced
            then \<lparr>result_Code = code, result_CommonBlockHeight = m_commonBlockHeight c',
                  result_ForkDepth = m_localHeight c' - m_commonBlockHeight c'\<rparr>
            else \<lparr>result_Code = code, result_CommonBlockHeight = - 1, result_ForkDepth = 0\<rparr>)))"

definition CompareChains :: "u32 \<Rightarrow> 'h replies list \<Rightarrow> CompareChainsResult result option" where
  "CompareChains hashesPerBatch ws = compare_run hashesPerBatch ws CompareChainsContext_new"


section \<open>Two nodes whose chains do not change\<close>

text \<open>
  The chains agree up to the height \<open>common\<close> and differ above it: a block hash determines the hashes
  of all its ancestors. The remote chain is longer than the common part and not shorter than the local
  one. \<open>static_replies\<close> are the answers of the two nodes in every round.
\<close>

definition fork_at :: "hash_storage \<Rightarrow> hash_storage \<Rightarrow> nat \<Rightarrow> bool" where
  "fork_at l r common \<longleftrightarrow> storage_Hash_Index l \<and> storage_Hash_Index r
     \<and> common \<le> unat (storage_chainHeight l) \<and> common < unat (storage_chainHeight r)
     \<and> storage_chainHeight l \<le> storage_chainHeight r \<and> unat (storage_chainHeight r) < 2 ^ 32 - 1
     \<and> (\<forall>h \<in> {1..common}. storage_hashFile l (of_nat h) = storage_hashFile r (of_nat h))
     \<and> (\<forall>h \<in> {common <.. unat (storage_chainHeight l)}. storage_hashFile l (of_nat h) \<noteq> storage_hashFile r (of_nat h))"

definition static_replies :: "Height \<Rightarrow> hash_storage \<Rightarrow> ChainScore \<Rightarrow> hash_storage \<Rightarrow> ChainScore \<Rightarrow> u32 \<Rightarrow> Hash256 replies" where
  "static_replies finalized l localScore r remoteScore maxHashes =
    \<lparr>finalized_before = finalized, finalized_after = finalized,
     local_statistics = Inr \<lparr>chain_Height = storage_chainHeight l, chain_FinalizedHeight = finalized, chain_Score = localScore\<rparr>,
     remote_statistics = Inr \<lparr>chain_Height = storage_chainHeight r, chain_FinalizedHeight = finalized, chain_Score = remoteScore\<rparr>,
     local_hashesFrom = LocalChainApi_hashesFrom l,
     remote_hashesFrom = RemoteChainApi_hashesFrom r maxHashes\<rparr>"

lemma compare_run_append: "compare_run b ws c = Some r \<Longrightarrow> compare_run b (ws @ vs) c = Some r"
  by (induction ws arbitrary: c) (auto split: sum.splits if_splits)

lemma FindFirstDifferenceIndex_eqI:
  assumes "k \<le> length xs" and "k \<le> length ys" and "take k xs = take k ys"
    and "k < length xs \<Longrightarrow> k < length ys \<Longrightarrow> xs ! k \<noteq> ys ! k"
  shows "FindFirstDifferenceIndex xs ys = k"
  using assms
proof (induction xs ys arbitrary: k rule: FindFirstDifferenceIndex.induct)
  case (1 x xs y ys)
  then show ?case by (cases k) auto
qed auto

lemma length_loadRangeFrom [simp]: "length (loadRangeFrom f k n) = n"
  by (simp add: loadRangeFrom_def)

lemma nth_loadRangeFrom [simp]: "i < n \<Longrightarrow> loadRangeFrom f k n ! i = f (k + of_nat i)"
  by (simp add: loadRangeFrom_def)

lemma unat_available: "h \<le> H \<Longrightarrow> unat H < 2 ^ 64 - 1 \<Longrightarrow> unat (H - h + 1) = unat H - unat h + 1" for h H :: u64
  by (simp add: unat_word_ariths unat_sub_le)

lemma local_hashes:
  assumes "storage_Hash_Index l" and "0 < h" and "h \<le> storage_chainHeight l"
    and "unat (storage_chainHeight l) < 2 ^ 32 - 1" and "0 < b"
  shows "LocalChainApi_hashesFrom l h b
    = Inr (loadRangeFrom (storage_hashFile l) h (min (unat b) (unat (storage_chainHeight l) - unat h + 1)))"
proof -
  have "unat (storage_chainHeight l - h + 1) = unat (storage_chainHeight l) - unat h + 1"
    using assms(3,4) by (intro unat_available) auto
  moreover have "0 < unat b" using assms(5) by (simp add: unat_gt_0)
  ultimately show ?thesis
    using assms by (simp add: LocalChainApi_hashesFrom_def loadHashesFrom_def Let_def loadRangeFrom_def not_less)
qed

lemma remote_hashes:
  assumes "storage_Hash_Index r" and "0 < h" and "h \<le> storage_chainHeight r"
    and "unat (storage_chainHeight r) < 2 ^ 32 - 1" and "0 < b" and "b \<le> m"
  shows "RemoteChainApi_hashesFrom r m h b
    = Inr (loadRangeFrom (storage_hashFile r) h (min (unat b) (unat (storage_chainHeight r) - unat h + 1)))"
proof -
  let ?n = "unat (storage_chainHeight r) - unat h + 1"
  have n: "unat (storage_chainHeight r - h + 1) = ?n"
    using assms(3,4) by (intro unat_available) auto
  have "?n < 2 ^ 32" using assms(4) by simp
  then have a: "unat (numAvailableBlocks (storage_chainHeight r) h) = ?n"
    using n by (simp add: numAvailableBlocks_def unsigned_ucast_eq take_bit_nat_eq_self)
  have "unat (min (min m b) (numAvailableBlocks (storage_chainHeight r) h)) = min (unat b) ?n"
    using assms(6) a by (simp add: min_def word_le_nat_alt)
  moreover have "0 < unat b" using assms(5) by (simp add: unat_gt_0)
  ultimately show ?thesis
    using assms n by (simp add: RemoteChainApi_hashesFrom_def BlockHashes_handler_def loadHashesFrom_def
        Let_def loadRangeFrom_def not_less)
qed

text \<open>The first difference of two batches that start at the same height.\<close>

lemma first_difference:
  assumes fork: "fork_at l r common" and h: "0 < h" "h \<le> storage_chainHeight l"
    and m: "m \<le> unat (storage_chainHeight l) - unat h + 1" and n: "n \<le> unat (storage_chainHeight r) - unat h + 1"
  shows "FindFirstDifferenceIndex (loadRangeFrom (storage_hashFile l) h m) (loadRangeFrom (storage_hashFile r) h n)
    = min (common + 1 - unat h) (min m n)"
proof -
  have eq: "h + of_nat i = of_nat (unat h + i)" for i by simp
  have same: "storage_hashFile l (of_nat k) = storage_hashFile r (of_nat k)" if "0 < k" "k \<le> common" for k
    using fork that by (simp add: fork_at_def)
  have other: "storage_hashFile l (of_nat k) \<noteq> storage_hashFile r (of_nat k)"
    if "common < k" "k \<le> unat (storage_chainHeight l)" for k
    using fork that by (simp add: fork_at_def)
  have h0: "0 < unat h" "unat h \<le> unat (storage_chainHeight l)" using h by (simp_all add: unat_gt_0 word_le_nat_alt)
  show ?thesis
  proof (rule FindFirstDifferenceIndex_eqI)
    let ?k = "min (common + 1 - unat h) (min m n)"
    show "?k \<le> length (loadRangeFrom (storage_hashFile l) h m)" "?k \<le> length (loadRangeFrom (storage_hashFile r) h n)"
      by simp_all
    show "take ?k (loadRangeFrom (storage_hashFile l) h m) = take ?k (loadRangeFrom (storage_hashFile r) h n)"
      using h0 by - (rule nth_equalityI, auto simp: eq simp del: of_nat_add intro!: same)
    show "loadRangeFrom (storage_hashFile l) h m ! ?k \<noteq> loadRangeFrom (storage_hashFile r) h n ! ?k"
      if lt: "?k < length (loadRangeFrom (storage_hashFile l) h m)" "?k < length (loadRangeFrom (storage_hashFile r) h n)"
    proof -
      have k: "?k = common + 1 - unat h" using lt by (simp add: min_def split: if_splits)
      have "common < unat h + ?k" "unat h + ?k \<le> unat (storage_chainHeight l)"
        using lt m h0 unfolding k by auto
      then show ?thesis using other lt by (simp add: eq del: of_nat_add)
    qed
  qed
qed


text \<open>
  One round of hash comparisons over natural numbers: \<open>hash_state c lower start upper\<close> relates the
  context to the bounds of the bisection.
\<close>

definition hash_state :: "hash_storage \<Rightarrow> hash_storage \<Rightarrow> nat \<Rightarrow> nat \<Rightarrow> nat \<Rightarrow> CompareChainsContext \<Rightarrow> bool" where
  "hash_state l r lower start upper c \<longleftrightarrow> m_stage c \<in> {Hashes_First, Hashes_Next}
     \<and> unat (m_lowerBoundHeight c) = lower \<and> unat (m_startingHashesHeight c) = start
     \<and> unat (m_upperBoundHeight c) = upper
     \<and> m_localHeight c = storage_chainHeight l \<and> m_remoteHeight c = storage_chainHeight r"

lemma unat_middle:
  "unat a < 2 ^ 32 \<Longrightarrow> unat b < 2 ^ 32 \<Longrightarrow> unat ((a + b) div 2) = (unat a + unat b) div 2" for a b :: u64
  by (simp add: unat_div unat_word_ariths)

lemma unat_batch_end:
  "0 < n \<Longrightarrow> unat h + n < 2 ^ 64 \<Longrightarrow> unat (h + (of_nat n - 1)) = unat h + n - 1" for h :: u64
proof -
  assume n: "0 < n" "unat h + n < 2 ^ 64"
  then have "(of_nat n - 1 :: u64) = of_nat (n - 1)" by (simp add: of_nat_diff)
  moreover have "unat (of_nat (n - 1) :: u64) = n - 1" using n by (simp only: unat_of_nat) simp
  ultimately show "unat (h + (of_nat n - 1)) = unat h + n - 1" using n by (simp add: unat_word_ariths)
qed

text \<open>A round over the lengths of the two batches and their first difference.\<close>

lemma compareHashes_unfold:
  assumes "0 < length rh" and "length rh \<le> unat b" and "\<not> (m_stage c = Hashes_First \<and> d = 0)"
    and "d = FindFirstDifferenceIndex lh rh" and "n = min (length lh) (length rh)"
  shows "compareHashes b lh rh c =
    (if d = 0 then tryContinue ((m_lowerBoundHeight c + m_startingHashesHeight c) div 2)
       (c\<lparr>m_upperBoundHeight := m_startingHashesHeight c\<rparr>)
     else if length rh = d then
       if m_startingHashesHeight c + (of_nat n - 1) \<ge> m_localHeight c then
         if m_startingHashesHeight c + (of_nat n - 1) < m_remoteHeight c
         then tryContinue (m_startingHashesHeight c + (of_nat n - 1) - 1) c
         else (Incomplete_Chain_Comparison_Code, c\<lparr>m_stage := Score_Local\<rparr>)
       else tryContinue ((m_startingHashesHeight c + m_upperBoundHeight c) div 2)
         (c\<lparr>m_lowerBoundHeight := m_startingHashesHeight c\<rparr>)
     else (Remote_Is_Not_Synced, c\<lparr>m_commonBlockHeight := m_startingHashesHeight c + (of_nat d - 1),
       m_localHeight := (if m_startingHashesHeight c + (of_nat n - 1) > m_localHeight c
         then m_startingHashesHeight c + (of_nat n - 1) else m_localHeight c)\<rparr>))"
  unfolding compareHashes_def Let_def assms(4,5) [symmetric] isProcessingFirstBatchOfHashes_def
  using assms(1-3) by (simp only: not_less if_False simp_thms) auto

lemma min_batches:
  fixes k b L R s :: nat
  assumes "k \<le> L - s + 1" and "k \<le> R - s + 1"
  shows "min k (min (min b (L - s + 1)) (min b (R - s + 1))) = min k b"
  using assms by linarith

lemma static_hash_round:
  assumes fork: "fork_at l r common" and st: "hash_state l r lower start upper c"
    and s: "0 < start" "start \<le> unat (storage_chainHeight l)" and b: "0 < b" "b \<le> m"
    and w: "w = static_replies F l ls r rs m"
  obtains lh rh :: "Hash256 list" where "startNextCompare b w c = Inr (compareHashes b lh rh c)"
    and "length lh = min (unat b) (unat (storage_chainHeight l) - start + 1)"
    and "length rh = min (unat b) (unat (storage_chainHeight r) - start + 1)"
    and "FindFirstDifferenceIndex lh rh = min (common + 1 - start) (unat b)"
    and "0 < length rh" and "length rh \<le> unat b"
proof -
  let ?h = "m_startingHashesHeight c"
  have idx: "storage_Hash_Index l" "storage_Hash_Index r" "storage_chainHeight l \<le> storage_chainHeight r"
    "unat (storage_chainHeight r) < 2 ^ 32 - 1" "common < unat (storage_chainHeight r)" "common \<le> unat (storage_chainHeight l)"
    using fork by (auto simp: fork_at_def)
  have h: "unat ?h = start" "0 < ?h" "?h \<le> storage_chainHeight l" "?h \<le> storage_chainHeight r"
    using st s idx(3) by (auto simp: hash_state_def word_less_nat_alt word_le_nat_alt)
  have L: "unat (storage_chainHeight l) < 2 ^ 32 - 1" using idx(3,4) by (simp add: word_le_nat_alt)
  have b0: "0 < unat b" using b(1) by (simp add: word_less_nat_alt)
  let ?lh = "loadRangeFrom (storage_hashFile l) ?h (min (unat b) (unat (storage_chainHeight l) - start + 1))"
  let ?rh = "loadRangeFrom (storage_hashFile r) ?h (min (unat b) (unat (storage_chainHeight r) - start + 1))"
  have "m_stage c = Hashes_First \<or> m_stage c = Hashes_Next" using st by (auto simp: hash_state_def)
  then have "startNextCompare b w c = Inr (compareHashes b ?lh ?rh c)"
    using local_hashes [OF idx(1) h(2,3) L b(1)] remote_hashes [OF idx(2) h(2,4) idx(4) b]
    by (auto simp: startNextCompare_def w static_replies_def h(1))
  moreover have "FindFirstDifferenceIndex ?lh ?rh = min (common + 1 - start)
      (min (min (unat b) (unat (storage_chainHeight l) - start + 1)) (min (unat b) (unat (storage_chainHeight r) - start + 1)))"
    by (rule first_difference [OF fork h(2,3), unfolded h(1)]) (rule min.cobounded2)+
  then have "FindFirstDifferenceIndex ?lh ?rh = min (common + 1 - start) (unat b)"
    using min_batches [of "common + 1 - start" "unat (storage_chainHeight l)" start "unat (storage_chainHeight r)" "unat b"] idx(5,6)
    by (simp only:)
  ultimately show thesis using b0 by (intro that [of ?lh ?rh]) auto
qed

text \<open>The three outcomes of a round.\<close>

lemma round_above:
  assumes "fork_at l r common" and "hash_state l r lower start upper c" and "m_stage c = Hashes_Next"
    and "common < start" and "start \<le> unat (storage_chainHeight l)" and "0 < b" and "b \<le> m"
    and "w = static_replies F l ls r rs m"
  shows "startNextCompare b w c = Inr (tryContinue ((m_lowerBoundHeight c + m_startingHashesHeight c) div 2)
    (c\<lparr>m_upperBoundHeight := m_startingHashesHeight c\<rparr>))"
proof -
  have "0 < start" using assms(4) by simp
  then obtain lh rh :: "Hash256 list" where "startNextCompare b w c = Inr (compareHashes b lh rh c)"
    and "FindFirstDifferenceIndex lh rh = min (common + 1 - start) (unat b)"
    and "0 < length rh" "length rh \<le> unat b"
    by (rule static_hash_round [OF assms(1,2) _ assms(5-8)])
  then show ?thesis using assms(3,4) by (simp add: compareHashes_unfold [OF _ _ _ refl refl])
qed

lemma round_below:
  assumes fork: "fork_at l r common" and st: "hash_state l r lower start upper c"
    and "0 < start" and "start \<le> common" and "0 < b" and "b \<le> m"
    and "w = static_replies F l ls r rs m"
  obtains lh rh :: "Hash256 list" where "startNextCompare b w c = Inr (compareHashes b lh rh c)"
    and "FindFirstDifferenceIndex lh rh = min (common + 1 - start) (unat b)"
    and "0 < length rh" and "length rh \<le> unat b" and "0 < min (common + 1 - start) (unat b)"
    and "length rh = min (common + 1 - start) (unat b) \<longleftrightarrow> start + unat b \<le> common + 1"
    and "unat (m_startingHashesHeight c + (of_nat (min (common + 1 - start) (unat b)) - 1))
      = min common (start + unat b - 1)"
    and "unat (m_startingHashesHeight c + (of_nat (min (length lh) (length rh)) - 1))
      = min (unat (storage_chainHeight l)) (start + unat b - 1)"
proof -
  have L: "common \<le> unat (storage_chainHeight l)" "unat (storage_chainHeight l) < 2 ^ 32 - 1"
    "common < unat (storage_chainHeight r)" "unat (storage_chainHeight l) \<le> unat (storage_chainHeight r)"
    using fork by (auto simp: fork_at_def word_le_nat_alt)
  obtain lh rh :: "Hash256 list" where run: "startNextCompare b w c = Inr (compareHashes b lh rh c)"
    and lh: "length lh = min (unat b) (unat (storage_chainHeight l) - start + 1)"
    and rh: "length rh = min (unat b) (unat (storage_chainHeight r) - start + 1)"
    and d: "FindFirstDifferenceIndex lh rh = min (common + 1 - start) (unat b)"
    and len: "0 < length rh" "length rh \<le> unat b"
    by (rule static_hash_round [OF assms(1-3) order_trans [OF assms(4) L(1)] assms(5-7)])
  have h: "unat (m_startingHashesHeight c) = start" using st by (simp add: hash_state_def)
  have b0: "0 < unat b" using assms(5) by (simp add: word_less_nat_alt)
  have "unat (m_startingHashesHeight c + (of_nat (min (common + 1 - start) (unat b)) - 1))
      = start + min (common + 1 - start) (unat b) - 1"
    using L assms(4) b0 unfolding h [symmetric] by (intro unat_batch_end) (auto simp: h)
  also have "\<dots> = min common (start + unat b - 1)" using assms(4) b0 by auto
  finally have com: "unat (m_startingHashesHeight c + (of_nat (min (common + 1 - start) (unat b)) - 1))
      = min common (start + unat b - 1)" .
  have "unat (m_startingHashesHeight c + (of_nat (min (length lh) (length rh)) - 1))
      = start + min (length lh) (length rh) - 1"
    using L assms(4) b0 unfolding h [symmetric] by (intro unat_batch_end) (auto simp: h lh rh)
  also have "\<dots> = min (unat (storage_chainHeight l)) (start + unat b - 1)"
    using L assms(3,4) b0 unfolding lh rh by auto
  finally have der: "unat (m_startingHashesHeight c + (of_nat (min (length lh) (length rh)) - 1))
      = min (unat (storage_chainHeight l)) (start + unat b - 1)" .
  have pos: "0 < min (common + 1 - start) (unat b)" using assms(4) b0 by simp
  have all: "length rh = min (common + 1 - start) (unat b) \<longleftrightarrow> start + unat b \<le> common + 1"
    using L assms(4) unfolding rh by auto
  show thesis by (rule that [of lh rh]; fact run d len pos all com der)
qed


lemma round_found:
  assumes fork: "fork_at l r common" and st: "hash_state l r lower start upper c"
    and "0 < start" and "start \<le> common" and near: "common + 1 < start + unat b" and "0 < b" and "b \<le> m"
    and "w = static_replies F l ls r rs m"
  shows "startNextCompare b w c = Inr (Remote_Is_Not_Synced, c\<lparr>m_commonBlockHeight := of_nat common\<rparr>)"
proof -
  obtain lh rh :: "Hash256 list" where run: "startNextCompare b w c = Inr (compareHashes b lh rh c)"
    and d: "FindFirstDifferenceIndex lh rh = min (common + 1 - start) (unat b)"
    and len: "0 < length rh" "length rh \<le> unat b" and pos: "0 < min (common + 1 - start) (unat b)"
    and all: "length rh = min (common + 1 - start) (unat b) \<longleftrightarrow> start + unat b \<le> common + 1"
    and com: "unat (m_startingHashesHeight c + (of_nat (min (common + 1 - start) (unat b)) - 1))
      = min common (start + unat b - 1)"
    and der: "unat (m_startingHashesHeight c + (of_nat (min (length lh) (length rh)) - 1))
      = min (unat (storage_chainHeight l)) (start + unat b - 1)"
    by (rule round_below [OF assms(1-4,6-8)])
  have "common < 2 ^ 64" using fork by (auto simp: fork_at_def word_le_nat_alt)
  then have com': "m_startingHashesHeight c + (of_nat (min (common + 1 - start) (unat b)) - 1) = of_nat common"
    using com near by (simp add: word_unat_eq_iff unat_of_nat)
  have "\<not> m_startingHashesHeight c + (of_nat (min (length lh) (length rh)) - 1) > m_localHeight c"
    using der st by (simp add: word_less_nat_alt hash_state_def)
  then have "compareHashes b lh rh c = (Remote_Is_Not_Synced, c\<lparr>m_commonBlockHeight := of_nat common, m_localHeight := m_localHeight c\<rparr>)"
    using compareHashes_unfold [OF len _ d [symmetric] refl] pos all near com' by simp
  then show ?thesis unfolding run by (simp add: CompareChainsContext.equality)
qed

lemma round_matching:
  assumes fork: "fork_at l r common" and st: "hash_state l r lower start upper c"
    and "0 < start" and "start \<le> common" and far: "start + unat b \<le> common + 1" and "0 < b" and "b \<le> m"
    and "w = static_replies F l ls r rs m"
  shows "startNextCompare b w c = Inr
    (if start + unat b - 1 = unat (storage_chainHeight l) then tryContinue (storage_chainHeight l - 1) c
     else tryContinue ((m_startingHashesHeight c + m_upperBoundHeight c) div 2)
       (c\<lparr>m_lowerBoundHeight := m_startingHashesHeight c\<rparr>))"
proof -
  obtain lh rh :: "Hash256 list" where run: "startNextCompare b w c = Inr (compareHashes b lh rh c)"
    and d: "FindFirstDifferenceIndex lh rh = min (common + 1 - start) (unat b)"
    and len: "0 < length rh" "length rh \<le> unat b" and pos: "0 < min (common + 1 - start) (unat b)"
    and all: "length rh = min (common + 1 - start) (unat b) \<longleftrightarrow> start + unat b \<le> common + 1"
    and der: "unat (m_startingHashesHeight c + (of_nat (min (length lh) (length rh)) - 1))
      = min (unat (storage_chainHeight l)) (start + unat b - 1)"
    by (rule round_below [OF assms(1-4,6-8)])
  let ?e = "m_startingHashesHeight c + (of_nat (min (length lh) (length rh)) - 1)"
  have L: "common \<le> unat (storage_chainHeight l)" "common < unat (storage_chainHeight r)"
    using fork by (auto simp: fork_at_def)
  have e: "unat ?e = start + unat b - 1" using der far L by simp
  have loc: "m_localHeight c = storage_chainHeight l" "m_remoteHeight c = storage_chainHeight r"
    using st by (auto simp: hash_state_def)
  have ge: "m_localHeight c \<le> ?e \<longleftrightarrow> start + unat b - 1 = unat (storage_chainHeight l)"
    using e far L by (auto simp: word_le_nat_alt loc)
  have lt: "?e < m_remoteHeight c" using e far L by (simp add: word_less_nat_alt loc)
  have "compareHashes b lh rh c = (if m_localHeight c \<le> ?e then tryContinue (?e - 1) c
     else tryContinue ((m_startingHashesHeight c + m_upperBoundHeight c) div 2)
       (c\<lparr>m_lowerBoundHeight := m_startingHashesHeight c\<rparr>))"
    using compareHashes_unfold [OF len _ d [symmetric] refl] pos all far lt by simp
  moreover have "?e = storage_chainHeight l" if "m_localHeight c \<le> ?e"
    using that ge e by (simp add: word_unat_eq_iff)
  ultimately show ?thesis unfolding run using ge by auto
qed

text \<open>
  The bisection: the common block is at or above the lower bound, and below the upper bound unless that
  is still the local height. An interval of at most \<open>2 ^ n\<close> blocks takes at most \<open>n + 2\<close> rounds.
\<close>

definition outcome :: "hash_storage \<Rightarrow> nat \<Rightarrow> CompareChainsResult result option" where
  "outcome l common = Some (Inr \<lparr>result_Code = Remote_Is_Not_Synced, result_CommonBlockHeight = of_nat common,
     result_ForkDepth = storage_chainHeight l - of_nat common\<rparr>)"

lemma run_found:
  assumes "fork_at l r common" and st: "hash_state l r lower start upper c"
    and "0 < start" and "start \<le> common" and "common + 1 < start + unat b" and "0 < b" and "b \<le> m"
    and "w = static_replies F l ls r rs m"
  shows "compare_run b (w # ws) c = outcome l common"
  using round_found [OF assms] st by (simp add: outcome_def hash_state_def)

lemma run_matching_tip:
  assumes fork: "fork_at l r common" and st: "hash_state l r lower start upper c"
    and "0 < start" and "start \<le> common" and far: "start + unat b \<le> common + 1"
    and tip: "start + unat b - 1 = unat (storage_chainHeight l)" and b: "3 \<le> unat b" and "b \<le> m"
    and w: "w = static_replies F l ls r rs m"
  shows "compare_run b (w # w # ws) c = outcome l common"
proof -
  have b0: "0 < b" using b by (simp add: word_less_nat_alt)
  have L: "common \<le> unat (storage_chainHeight l)" using fork by (simp add: fork_at_def)
  have "1 \<le> storage_chainHeight l" using tip b assms(3) by (simp add: word_le_nat_alt)
  then have n: "unat (storage_chainHeight l - 1) = unat (storage_chainHeight l) - 1" by (simp add: unat_sub_le)
  then have ne: "m_startingHashesHeight c \<noteq> storage_chainHeight l - 1"
    using st tip b by (auto simp: hash_state_def word_unat_eq_iff)
  define c' where "c' = c\<lparr>m_startingHashesHeight := storage_chainHeight l - 1, m_stage := Hashes_Next\<rparr>"
  have "startNextCompare b w c = Inr (Incomplete_Chain_Comparison_Code, c')"
    using round_matching [OF fork st assms(3,4) far b0 assms(8) w] tip ne by (simp add: tryContinue_def c'_def)
  moreover have st': "hash_state l r lower (unat (storage_chainHeight l) - 1) upper c'"
    using st n by (simp add: hash_state_def c'_def)
  have "compare_run b (w # ws) c' = outcome l common"
    using far tip b L assms(3) by (intro run_found [OF fork st' _ _ _ b0 assms(8) w]) auto
  ultimately show ?thesis by simp
qed

lemma bisection:
  assumes fork: "fork_at l r common" and b: "3 \<le> unat b" "b \<le> m" and w: "w = static_replies F l ls r rs m"
  shows "hash_state l r lower ((lower + upper) div 2) upper c \<Longrightarrow> m_stage c = Hashes_Next \<Longrightarrow> 0 < lower
    \<Longrightarrow> lower \<le> common \<Longrightarrow> common < upper \<or> upper = unat (storage_chainHeight l)
    \<Longrightarrow> lower \<le> upper \<Longrightarrow> upper \<le> unat (storage_chainHeight l) \<Longrightarrow> upper - lower \<le> 2 ^ n
    \<Longrightarrow> compare_run b (replicate (n + 2) w) c = outcome l common"
proof (induction n arbitrary: lower upper c)
  case 0
  have b0: "0 < b" using b by (simp add: word_less_nat_alt)
  have mid: "(lower + upper) div 2 = lower" using 0 by simp
  have L: "common \<le> unat (storage_chainHeight l)" using fork by (simp add: fork_at_def)
  have "compare_run b (w # [w]) c = outcome l common"
    using 0 b(1) L by (intro run_found [OF fork "0.prems"(1) [unfolded mid] _ _ _ b0 b(2) w]) auto
  then show ?case by (simp add: numeral_2_eq_2)
next
  case (Suc n)
  define s where "s = (lower + upper) div 2"
  have b0: "0 < b" using b by (simp add: word_less_nat_alt)
  have L: "common \<le> unat (storage_chainHeight l)" "unat (storage_chainHeight l) < 2 ^ 32"
    using fork by (auto simp: fork_at_def word_le_nat_alt)
  have st: "hash_state l r lower s upper c" using Suc.prems(1) by (simp add: s_def)
  then have u: "unat (m_lowerBoundHeight c) = lower" "unat (m_startingHashesHeight c) = s" "unat (m_upperBoundHeight c) = upper"
    by (auto simp: hash_state_def)
  have s: "lower \<le> s" "s \<le> upper" "s - lower \<le> 2 ^ n" "upper - s \<le> 2 ^ n" using Suc.prems(6,8) by (auto simp: s_def)
  have rep: "replicate (Suc n + 2) w = w # replicate (n + 2) w" by simp
  consider (above) "common < s" | (found) "s \<le> common" "common + 1 < s + unat b"
    | (tip) "s \<le> common" "s + unat b \<le> common + 1" "s + unat b - 1 = unat (storage_chainHeight l)"
    | (matching) "s \<le> common" "s + unat b \<le> common + 1" "s + unat b - 1 \<noteq> unat (storage_chainHeight l)"
    by linarith
  then show ?case
  proof cases
    case above
    define h where "h = (m_lowerBoundHeight c + m_startingHashesHeight c) div 2"
    have h: "unat h = (lower + s) div 2"
      unfolding h_def using u s L Suc.prems(7) by (subst unat_middle) auto
    have ne: "m_startingHashesHeight c \<noteq> h" using above Suc.prems(4) h u by auto
    let ?c = "c\<lparr>m_upperBoundHeight := m_startingHashesHeight c, m_startingHashesHeight := h, m_stage := Hashes_Next\<rparr>"
    have "startNextCompare b w c = Inr (Incomplete_Chain_Comparison_Code, ?c)"
      using round_above [OF fork st Suc.prems(2) above _ b0 b(2) w] s Suc.prems(7) ne
      by (simp add: tryContinue_def h_def [symmetric])
    moreover have "compare_run b (replicate (n + 2) w) ?c = outcome l common"
    proof (rule Suc.IH [of lower s])
      show "hash_state l r lower ((lower + s) div 2) s ?c" using st h u by (simp add: hash_state_def)
      show "common < s \<or> s = unat (storage_chainHeight l)" using above by simp
      show "s \<le> unat (storage_chainHeight l)" using s(2) Suc.prems(7) by simp
    qed (use Suc.prems(3,4) s in simp_all)
    ultimately show ?thesis unfolding rep by simp
  next
    case found
    then show ?thesis unfolding rep
      using s Suc.prems(3) by (intro run_found [OF fork st _ _ _ b0 b(2) w]) auto
  next
    case tip
    have "compare_run b (w # w # replicate (n + 1) w) c = outcome l common"
      using tip s Suc.prems(3) b by (intro run_matching_tip [OF fork st _ _ _ _ _ _ w]) auto
    then show ?thesis by simp
  next
    case matching
    define h where "h = (m_startingHashesHeight c + m_upperBoundHeight c) div 2"
    have h: "unat h = (s + upper) div 2"
      unfolding h_def using u s L Suc.prems(7) by (subst unat_middle) auto
    have "s + 2 \<le> upper" using matching b(1) L Suc.prems(5) by auto
    then have ne: "m_startingHashesHeight c \<noteq> h" using h u by auto
    let ?c = "c\<lparr>m_lowerBoundHeight := m_startingHashesHeight c, m_startingHashesHeight := h, m_stage := Hashes_Next\<rparr>"
    have "0 < s" using s Suc.prems(3) by simp
    then have "startNextCompare b w c = Inr (Incomplete_Chain_Comparison_Code, ?c)"
      using round_matching [OF fork st _ matching(1,2) b0 b(2) w] matching(3) ne
      by (simp add: tryContinue_def h_def [symmetric])
    moreover have "compare_run b (replicate (n + 2) w) ?c = outcome l common"
    proof (rule Suc.IH [of s upper])
      show "hash_state l r s ((s + upper) div 2) upper ?c" using st h u by (simp add: hash_state_def)
    qed (use Suc.prems(5,7) \<open>0 < s\<close> matching(1) s in simp_all)
    ultimately show ?thesis unfolding rep by simp
  qed
qed


section \<open>What a comparison finds\<close>

text \<open>The two rounds before the bisection.\<close>

lemma first_hash_round:
  assumes fork: "fork_at l r common" and st: "hash_state l r lower lower (unat (storage_chainHeight l)) c"
    and "0 < lower" and "lower \<le> common" and b: "3 \<le> unat b" "b \<le> m"
    and w: "w = static_replies F l ls r rs m" and n: "unat (storage_chainHeight l) - lower \<le> 2 ^ n"
  shows "compare_run b (replicate (n + 3) w) c = outcome l common"
proof -
  have b0: "0 < b" using b by (simp add: word_less_nat_alt)
  have L: "common \<le> unat (storage_chainHeight l)" "unat (storage_chainHeight l) < 2 ^ 32"
    using fork by (auto simp: fork_at_def word_le_nat_alt)
  have u: "unat (m_startingHashesHeight c) = lower" "unat (m_upperBoundHeight c) = unat (storage_chainHeight l)"
    using st by (auto simp: hash_state_def)
  have rep: "replicate (n + 3) w = w # replicate (n + 2) w" by (simp add: numeral_3_eq_3)
  consider (found) "common + 1 < lower + unat b"
    | (tip) "lower + unat b \<le> common + 1" "lower + unat b - 1 = unat (storage_chainHeight l)"
    | (matching) "lower + unat b \<le> common + 1" "lower + unat b - 1 \<noteq> unat (storage_chainHeight l)"
    by linarith
  then show ?thesis
  proof cases
    case found
    then show ?thesis unfolding rep by (rule run_found [OF fork st assms(3,4) _ b0 b(2) w])
  next
    case tip
    have "compare_run b (w # w # replicate (n + 1) w) c = outcome l common"
      using tip b by (intro run_matching_tip [OF fork st assms(3,4) _ _ _ _ w]) auto
    then show ?thesis by (simp add: rep)
  next
    case matching
    define h where "h = (m_startingHashesHeight c + m_upperBoundHeight c) div 2"
    have h: "unat h = (lower + unat (storage_chainHeight l)) div 2"
      unfolding h_def using u L assms(4) by (subst unat_middle) auto
    have "lower + 2 \<le> unat (storage_chainHeight l)" using matching b(1) L by auto
    then have ne: "m_startingHashesHeight c \<noteq> h" using h u by auto
    let ?c = "c\<lparr>m_lowerBoundHeight := m_startingHashesHeight c, m_startingHashesHeight := h, m_stage := Hashes_Next\<rparr>"
    have "startNextCompare b w c = Inr (Incomplete_Chain_Comparison_Code, ?c)"
      using round_matching [OF fork st assms(3,4) matching(1) b0 b(2) w] matching(2) ne
      by (simp add: tryContinue_def h_def [symmetric])
    moreover have "compare_run b (replicate (n + 2) w) ?c = outcome l common"
    proof (rule bisection [OF fork b w, of lower "unat (storage_chainHeight l)"])
      show "hash_state l r lower ((lower + unat (storage_chainHeight l)) div 2) (unat (storage_chainHeight l)) ?c"
        using st h u by (simp add: hash_state_def)
    qed (use assms(3,4) L n in simp_all)
    ultimately show ?thesis unfolding rep by simp
  qed
qed

text \<open>
  C9. Consider a remote node whose chain does not change, whose score is higher and whose chain is not shorter than the local one and longer than the common part; let the chains agree exactly
  up to the height \<open>common\<close>, which is not below the finalized height, and let batches hold at least three hashes and no more than the remote node returns. Then
  \<^verbatim>\<open>CompareChains\<close> ends and finds the fork: after at most \<open>n + 4\<close> rounds, where the number of local blocks
  above the finalized one is at most \<open>2 ^ n\<close>, the result is \<^verbatim>\<open>Remote_Is_Not_Synced\<close> with the height of the last
  common block and the number of local blocks above it.
\<close>

theorem compare_chains_finds_fork:
  assumes fork: "fork_at l r common" and F: "0 < F" "unat F \<le> common" and b: "3 \<le> unat b" "b \<le> m"
    and score: "ls < rs" and n: "unat (storage_chainHeight l) - unat F \<le> 2 ^ n"
  shows "CompareChains b (replicate (n + 4) (static_replies F l ls r rs m))
    = Some (Inr \<lparr>result_Code = Remote_Is_Not_Synced, result_CommonBlockHeight = of_nat common,
        result_ForkDepth = storage_chainHeight l - of_nat common\<rparr>)"
proof -
  let ?w = "static_replies F l ls r rs m"
  let ?c = "CompareChainsContext_new\<lparr>m_lowerBoundHeight := F, m_startingHashesHeight := F, m_originalLocalScore := ls,
    m_localHeight := storage_chainHeight l, m_remoteHeight := storage_chainHeight r,
    m_upperBoundHeight := storage_chainHeight l, m_stage := Hashes_First\<rparr>"
  have R: "common < unat (storage_chainHeight r)" using fork by (simp add: fork_at_def)
  then have "\<not> storage_chainHeight r \<le> F" using F(2) by (simp add: word_le_nat_alt)
  then have "startNextCompare b ?w CompareChainsContext_new = Inr (Incomplete_Chain_Comparison_Code, ?c)"
    using score by (simp add: startNextCompare_def CompareChainsContext_new_def static_replies_def
        compareChainStatistics_def isRemoteTooFarBehind_def Let_def)
  moreover have "compare_run b (replicate (n + 3) ?w) ?c = outcome l common"
  proof (rule first_hash_round [OF fork _ _ F(2) b refl n])
    show "hash_state l r (unat F) (unat F) (unat (storage_chainHeight l)) ?c" by (simp add: hash_state_def)
    show "0 < unat F" using F(1) by (simp add: word_less_nat_alt)
  qed
  moreover have "replicate (n + 4) ?w = ?w # replicate (n + 3) ?w" by (simp add: eval_nat_numeral)
  ultimately show ?thesis by (simp add: CompareChains_def outcome_def)
qed

definition numbered_chain :: "Height \<Rightarrow> (Height \<Rightarrow> Hash256) \<Rightarrow> hash_storage" where
  "numbered_chain h f = \<lparr>storage_Hash_Index = True, storage_indexFile = Some h, storage_hashFile = f\<rparr>"

definition height_hash :: "Height \<Rightarrow> Hash256" where
  "height_hash h = [ucast h]"

definition forked_hash :: "Height \<Rightarrow> Height \<Rightarrow> Hash256" where
  "forked_hash k h = (if h \<le> k then height_hash h else 255 # height_hash h)"

theorem compare_chains_finds_fork_witness:
  "CompareChains 4 (replicate 8 (static_replies 2 (numbered_chain 15 height_hash) 100 (numbered_chain 16 (forked_hash 11)) 200 10))
    = Some (Inr \<lparr>result_Code = Remote_Is_Not_Synced, result_CommonBlockHeight = 11, result_ForkDepth = 4\<rparr>)"
proof -
  have "fork_at (numbered_chain 15 height_hash) (numbered_chain 16 (forked_hash 11)) 11"
    by (auto simp: fork_at_def numbered_chain_def storage_chainHeight_def forked_hash_def height_hash_def
        word_le_nat_alt unat_of_nat)
  then have "CompareChains 4 (replicate (4 + 4) (static_replies 2 (numbered_chain 15 height_hash) 100 (numbered_chain 16 (forked_hash 11)) 200 10))
    = Some (Inr \<lparr>result_Code = Remote_Is_Not_Synced, result_CommonBlockHeight = of_nat 11,
        result_ForkDepth = storage_chainHeight (numbered_chain 15 height_hash) - of_nat 11\<rparr>)"
    by (rule compare_chains_finds_fork) (simp_all add: numbered_chain_def storage_chainHeight_def)
  then show ?thesis by (simp add: numbered_chain_def storage_chainHeight_def)
qed

section \<open>A remote node that changes its answers\<close>

text \<open>
  The local chain has nine blocks. The remote node claims twenty; it answers a hash request either with the
  hashes of the local chain or with a single unknown hash.
\<close>

definition agreeing_replies :: "Hash256 replies" where
  "agreeing_replies = (static_replies 1 (numbered_chain 9 height_hash) 100 (numbered_chain 9 height_hash) 200 10)
     \<lparr>remote_statistics := Inr \<lparr>chain_Height = 20, chain_FinalizedHeight = 1, chain_Score = 200\<rparr>\<rparr>"

definition disagreeing_replies :: "Hash256 replies" where
  "disagreeing_replies = agreeing_replies\<lparr>remote_hashesFrom := (\<lambda>_ _. Inr [[255, 255]])\<rparr>"

definition liar_context :: "Height \<Rightarrow> Height \<Rightarrow> CompareChainsContext" where
  "liar_context start upper = \<lparr>m_stage = Hashes_Next, m_lowerBoundHeight = 1, m_upperBoundHeight = upper,
     m_startingHashesHeight = start, m_originalLocalScore = 100, m_localHeight = 9, m_remoteHeight = 20,
     m_commonBlockHeight = 0\<rparr>"

lemmas liar_defs = startNextCompare_def agreeing_replies_def disagreeing_replies_def static_replies_def liar_context_def
  LocalChainApi_hashesFrom_def RemoteChainApi_hashesFrom_def BlockHashes_handler_def loadHashesFrom_def loadRangeFrom_def
  numbered_chain_def height_hash_def storage_chainHeight_def numAvailableBlocks_def compareHashes_def tryContinue_def
  isProcessingFirstBatchOfHashes_def

lemma liar_down: "startNextCompare 10 disagreeing_replies (liar_context 8 upper) = Inr (Incomplete_Chain_Comparison_Code, liar_context 4 8)"
  by (simp add: liar_defs upt_rec Let_def)

lemma liar_up: "startNextCompare 10 agreeing_replies (liar_context 4 8) = Inr (Incomplete_Chain_Comparison_Code, liar_context 8 8)"
  by (simp add: liar_defs upt_rec)


lemma liar_start:
  "compare_run 10 (agreeing_replies # agreeing_replies # ws) CompareChainsContext_new = compare_run 10 ws (liar_context 8 9)"
proof -
  let ?c = "(liar_context 1 9)\<lparr>m_stage := Hashes_First\<rparr>"
  have "startNextCompare 10 agreeing_replies CompareChainsContext_new = Inr (Incomplete_Chain_Comparison_Code, ?c)"
    by (simp add: startNextCompare_def CompareChainsContext_new_def agreeing_replies_def static_replies_def
        compareChainStatistics_def isRemoteTooFarBehind_def liar_context_def numbered_chain_def storage_chainHeight_def Let_def word_le_nat_alt)
  moreover have "startNextCompare 10 agreeing_replies ?c = Inr (Incomplete_Chain_Comparison_Code, liar_context 8 9)"
    by (simp add: liar_defs upt_rec)
  ultimately show ?thesis by simp
qed

definition liar_replies :: "nat \<Rightarrow> Hash256 replies list" where
  "liar_replies n = agreeing_replies # agreeing_replies # concat (replicate n [disagreeing_replies, agreeing_replies])"

text \<open>
  C40. A remote node that changes its answers can keep a comparison going forever. The bisection moves
  the upper bound down when the first hash of a batch is unknown; but when a batch reaches the local height,
  the next one starts just below that height again, without regard to the bounds. A node that alternates
  between the hashes of the local chain and an unknown one makes the comparison return to the same state, so
  that for every \<open>n\<close> it is still incomplete after \<open>2 * n + 2\<close> rounds.
\<close>

theorem comparison_never_ends:
  "length (liar_replies n) = 2 * n + 2 \<and> CompareChains 10 (liar_replies n) = None"
proof -
  have "compare_run 10 (concat (replicate n [disagreeing_replies, agreeing_replies])) (liar_context 8 upper) = None" for upper
    by (induction n arbitrary: upper) (simp_all add: liar_down liar_up)
  then have "CompareChains 10 (liar_replies n) = None"
    by (simp only: CompareChains_def liar_replies_def liar_start)
  moreover have "length (concat (replicate n [a, b])) = 2 * n" for a b :: "Hash256 replies" by (induction n) auto
  ultimately show ?thesis by (simp add: liar_replies_def)
qed

end
