(* ===== verification/Chain_Synchronizer.thy ===== *)
theory Chain_Synchronizer
  imports Chain_Comparison
begin

text \<open>
  The synchronizer that pulls blocks from a remote node (\<^verbatim>\<open>chain/ChainSynchronizer.cpp\<close>): the queue of
  ranges that wait in the disruptor (\<^verbatim>\<open>UnprocessedElements\<close>), the collection of the blocks of one
  synchronization (\<^verbatim>\<open>RangeAggregator\<close>, \<^verbatim>\<open>ChainBlocksFrom\<close>) and the operation that composes them
  (\<^verbatim>\<open>DefaultChainSynchronizer\<close>).

  The scheduler thread that synchronizes and the disruptor thread that completes ranges interleave at the
  acquisitions of the spin lock; \<open>sync_step\<close> is the transition relation of the two threads, with one
  transition per locked section.
\<close>

section \<open>Unprocessed elements\<close>

record ElementInfo =
  info_Id :: u64
  info_EndHeight :: Height
  info_NumBytes :: u64

record UnprocessedElements =
  un_elements :: "ElementInfo list"
  un_maxSize :: u64
  un_numBytes :: u64
  un_hasPendingSync :: bool
  un_dirty :: bool

datatype CompletionStatus = Aborted | Normal | Consumed

definition UnprocessedElements_new :: "u64 \<Rightarrow> UnprocessedElements" where
  "UnprocessedElements_new maxSize = \<lparr>un_elements = [], un_maxSize = maxSize, un_numBytes = 0,
     un_hasPendingSync = False, un_dirty = False\<rparr>"

definition un_empty :: "UnprocessedElements \<Rightarrow> bool" where
  "un_empty u \<longleftrightarrow> un_numBytes u = 0"

definition shouldStartSync :: "UnprocessedElements \<Rightarrow> bool \<times> UnprocessedElements" where
  "shouldStartSync u =
    (if un_numBytes u \<ge> un_maxSize u \<or> un_hasPendingSync u \<or> un_dirty u then (False, u)
     else (True, u\<lparr>un_hasPendingSync := True\<rparr>))"

definition maxHeight :: "UnprocessedElements \<Rightarrow> Height" where
  "maxHeight u = (if un_elements u = [] then 0 else info_EndHeight (last (un_elements u)))"

definition hasPendingOperation :: "UnprocessedElements \<Rightarrow> bool" where
  "hasPendingOperation u \<longleftrightarrow> un_numBytes u \<noteq> 0 \<or> un_hasPendingSync u"

text \<open>\<open>newId\<close> is what the block range consumer returns, zero when the disruptor does not accept the range.\<close>

definition add_range :: "u64 \<Rightarrow> Height \<Rightarrow> u64 \<Rightarrow> UnprocessedElements \<Rightarrow> bool \<times> UnprocessedElements" where
  "add_range newId endHeight bufferSize u =
    (if un_dirty u then (False, u)
     else if newId = 0 then (False, u)
     else (True, u\<lparr>un_numBytes := un_numBytes u + bufferSize,
       un_elements := un_elements u @ [\<lparr>info_Id = newId, info_EndHeight = endHeight, info_NumBytes = bufferSize\<rparr>]\<rparr>))"

definition remove_element :: "u64 \<Rightarrow> CompletionStatus \<Rightarrow> UnprocessedElements \<Rightarrow> UnprocessedElements result" where
  "remove_element i status u =
    (case un_elements u of [] \<Rightarrow> Inl undefined_behaviour
     | info # infos \<Rightarrow>
       if info_Id info \<noteq> i then Inl invalid_argument
       else let u' = u\<lparr>un_numBytes := un_numBytes u - info_NumBytes info, un_elements := infos\<rparr>
            in Inr (u'\<lparr>un_dirty := hasPendingOperation u' \<and> status \<noteq> Normal\<rparr>))"

definition clearPendingSync :: "UnprocessedElements \<Rightarrow> UnprocessedElements" where
  "clearPendingSync u =
    (let u' = u\<lparr>un_hasPendingSync := False\<rparr>
     in if un_dirty u' then u'\<lparr>un_dirty := hasPendingOperation u'\<rparr> else u')"

section \<open>Pulling blocks\<close>

datatype NodeInteractionResultCode = Interaction_None | Interaction_Neutral | Interaction_Success | Interaction_Failure

definition ToNodeInteractionResultCode :: "ChainComparisonCode \<Rightarrow> NodeInteractionResultCode" where
  "ToNodeInteractionResultCode code =
    (if IsRemoteOutOfSync code \<or> IsRemoteEvil code then Interaction_Failure else Interaction_Neutral)"

text \<open>
  \<^verbatim>\<open>ChainBlocksFrom\<close> collects ranges until it holds as many blocks as the fork is deep or the peer
  has none. The answers may differ from request to request, hence the number of the request. The
  result is the list of the merged blocks, or \<^const>\<open>None\<close> when a request failed.
\<close>

function ChainBlocksFrom :: "(nat \<Rightarrow> Height \<Rightarrow> Block list result) \<Rightarrow> nat \<Rightarrow> Height \<Rightarrow> u64 \<Rightarrow> Block list
    \<Rightarrow> Block list option" where
  "ChainBlocksFrom futureSupplier i height forkDepth aggregated =
    (case futureSupplier i height of
       Inl e \<Rightarrow> None
     | Inr blocks \<Rightarrow>
         if blocks = [] then Some aggregated
         else let aggregated' = aggregated @ blocks in
           if unat forkDepth \<le> length aggregated' then Some aggregated'
           else ChainBlocksFrom futureSupplier (Suc i) (block_Height (last blocks) + 1) forkDepth aggregated')"
  by pat_completeness auto

termination
  by (relation "measure (\<lambda>(_, _, _, forkDepth, aggregated). unat forkDepth - length aggregated)")
    (auto simp: not_le intro!: diff_less_mono2)

declare ChainBlocksFrom.simps [simp del]

text \<open>
  \<^verbatim>\<open>CompleteChainBlocksFrom\<close>: the collected blocks are handed to the disruptor. \<open>consume\<close> stands for the
  block range consumer, \<open>totalSize\<close> for the size of the merged range.
\<close>

definition CompleteChainBlocksFrom :: "(Block list \<Rightarrow> u64) \<Rightarrow> (Block list \<Rightarrow> u64) \<Rightarrow> Block list option
    \<Rightarrow> UnprocessedElements \<Rightarrow> NodeInteractionResultCode \<times> UnprocessedElements" where
  "CompleteChainBlocksFrom consume totalSize pulled u =
    (case pulled of None \<Rightarrow> (Interaction_Failure, u)
     | Some blocks \<Rightarrow>
       if blocks = [] then (Interaction_Neutral, u)
       else case add_range (consume blocks) (block_Height (last blocks)) (totalSize blocks) u of
         (added, u') \<Rightarrow> (if added then Interaction_Success else Interaction_Neutral, u'))"

section \<open>The synchronizer\<close>

text \<open>
  A synchronization is started, decides from the emptiness of the queue whether to compare chains or to
  extend the part that is being processed, reads the height from which to extend, pulls blocks, adds
  them and is cleared. \<^const>\<open>Inl\<close> is the outcome of a comparison other than \<^verbatim>\<open>Remote_Is_Not_Synced\<close>.
\<close>

datatype sync_phase =
    Idle
  | Started
  | Extending
  | Compared "NodeInteractionResultCode + Height \<times> u64"
  | Finished NodeInteractionResultCode

text \<open>\<^verbatim>\<open>syncWithPeer\<close>: the outcome of a comparison decides whether, and from which height, blocks are pulled.\<close>

definition syncWithPeer :: "CompareChainsResult result \<Rightarrow> NodeInteractionResultCode + Height \<times> u64" where
  "syncWithPeer r = (case r of Inl e \<Rightarrow> Inl Interaction_Failure
     | Inr res \<Rightarrow> if result_Code res = Remote_Is_Not_Synced
         then Inr (result_CommonBlockHeight res + 1, result_ForkDepth res)
         else Inl (ToNodeInteractionResultCode (result_Code res)))"

text \<open>A range of blocks is a buffer in memory: it is not empty, and all ranges together fit into the address space.\<close>

definition range_in_memory :: "(Block list \<Rightarrow> u64) \<Rightarrow> UnprocessedElements \<Rightarrow> Block list option \<Rightarrow> bool" where
  "range_in_memory totalSize u pulled \<longleftrightarrow> (case pulled of None \<Rightarrow> True
     | Some blocks \<Rightarrow> blocks \<noteq> [] \<longrightarrow> 0 < totalSize blocks \<and> no_wrap (un_numBytes u) (totalSize blocks))"

inductive sync_step :: "sync_phase \<times> UnprocessedElements \<Rightarrow> sync_phase \<times> UnprocessedElements \<Rightarrow> bool" where
  start: "shouldStartSync u = (True, u') \<Longrightarrow> sync_step (Idle, u) (Started, u')"
| compare: "un_empty u \<Longrightarrow> sync_step (Started, u) (Compared (syncWithPeer r), u)"
| extend: "\<not> un_empty u \<Longrightarrow> sync_step (Started, u) (Extending, u)"
| read_height: "sync_step (Extending, u)
    (Compared (syncWithPeer (Inr \<lparr>result_Code = Remote_Is_Not_Synced, result_CommonBlockHeight = maxHeight u, result_ForkDepth = 0\<rparr>)), u)"
| skip: "sync_step (Compared (Inl code), u) (Finished code, u)"
| pull: "pulled = ChainBlocksFrom supplier 0 height forkDepth [] \<Longrightarrow> range_in_memory totalSize u pulled
    \<Longrightarrow> CompleteChainBlocksFrom consume totalSize pulled u = (code, u')
    \<Longrightarrow> sync_step (Compared (Inr (height, forkDepth)), u) (Finished code, u')"
| clear: "sync_step (Finished code, u) (Idle, clearPendingSync u)"
| complete: "un_elements u = info # infos \<Longrightarrow> remove_element (info_Id info) status u = Inr u'
    \<Longrightarrow> sync_step (phase, u) (phase, u')"


inductive_cases sync_stepE: "sync_step s t"

section \<open>Invariant of the synchronizer\<close>

definition total_bytes :: "ElementInfo list \<Rightarrow> nat" where
  "total_bytes infos = sum_list (map (unat \<circ> info_NumBytes) infos)"

definition sync_inv :: "sync_phase \<times> UnprocessedElements \<Rightarrow> bool" where
  "sync_inv s \<longleftrightarrow> (case s of (phase, u) \<Rightarrow>
     unat (un_numBytes u) = total_bytes (un_elements u) \<and> (\<forall>info \<in> set (un_elements u). 0 < info_NumBytes info)
     \<and> (un_hasPendingSync u \<longleftrightarrow> phase \<noteq> Idle) \<and> (un_dirty u \<longrightarrow> hasPendingOperation u))"

lemma total_bytes_Cons [simp]: "total_bytes (i # is) = unat (info_NumBytes i) + total_bytes is"
  by (simp add: total_bytes_def)

lemma total_bytes_Nil [simp]: "total_bytes [] = 0"
  by (simp add: total_bytes_def)

lemma total_bytes_append [simp]: "total_bytes (is @ js) = total_bytes is + total_bytes js"
  by (simp add: total_bytes_def)

lemma sync_inv_new: "sync_inv (Idle, UnprocessedElements_new maxSize)"
  by (simp add: sync_inv_def UnprocessedElements_new_def)

lemma sync_inv_remove:
  assumes "sync_inv (phase, u)" and "un_elements u = info # infos" and "remove_element (info_Id info) status u = Inr u'"
  shows "sync_inv (phase, u')" and "un_elements u' = infos" and "un_maxSize u' = un_maxSize u"
    and "un_hasPendingSync u' = un_hasPendingSync u"
proof -
  have b: "unat (un_numBytes u) = unat (info_NumBytes info) + total_bytes infos"
    using assms(1,2) by (simp add: sync_inv_def)
  then have "unat (un_numBytes u - info_NumBytes info) = total_bytes infos"
    by (simp add: unat_sub_le word_le_nat_alt)
  then show "sync_inv (phase, u')" "un_elements u' = infos" "un_maxSize u' = un_maxSize u"
      "un_hasPendingSync u' = un_hasPendingSync u"
    using assms by (auto simp: sync_inv_def remove_element_def Let_def hasPendingOperation_def)
qed

lemma sync_inv_pull:
  assumes "sync_inv (Compared (Inr hf), u)" and "range_in_memory totalSize u pulled"
    and "CompleteChainBlocksFrom consume totalSize pulled u = (code, u')"
  shows "sync_inv (Finished code, u')"
  using assms
  by (auto simp: sync_inv_def CompleteChainBlocksFrom_def range_in_memory_def add_range_def hasPendingOperation_def
      unat_add_no_wrap split: option.splits if_splits prod.splits)

lemma sync_inv_clear: "sync_inv (Finished code, u) \<Longrightarrow> sync_inv (Idle, clearPendingSync u)"
  by (simp add: sync_inv_def clearPendingSync_def Let_def hasPendingOperation_def)

lemma sync_inv_start: "sync_inv (Idle, u) \<Longrightarrow> shouldStartSync u = (True, u') \<Longrightarrow> sync_inv (Started, u')"
  by (auto simp: sync_inv_def shouldStartSync_def hasPendingOperation_def split: if_splits)

lemma sync_inv_phase: "sync_inv (p, u) \<Longrightarrow> p \<noteq> Idle \<Longrightarrow> q \<noteq> Idle \<Longrightarrow> sync_inv (q, u)"
  by (simp add: sync_inv_def)

lemma sync_inv_step: "sync_step s t \<Longrightarrow> sync_inv s \<Longrightarrow> sync_inv t"
  by (induction s t rule: sync_step.induct)
    (auto intro: sync_inv_start sync_inv_phase sync_inv_pull sync_inv_clear sync_inv_remove)


text \<open>Reachable states, from an empty queue.\<close>

definition sync_reachable :: "u64 \<Rightarrow> sync_phase \<times> UnprocessedElements \<Rightarrow> bool" where
  "sync_reachable maxSize s \<longleftrightarrow> sync_step\<^sup>*\<^sup>* (Idle, UnprocessedElements_new maxSize) s"

lemma sync_inv_star: "sync_step\<^sup>*\<^sup>* s t \<Longrightarrow> sync_inv s \<Longrightarrow> sync_inv t"
  by (induction rule: rtranclp_induct) (auto intro: sync_inv_step)

lemma sync_step_maxSize: "sync_step s t \<Longrightarrow> un_maxSize (snd t) = un_maxSize (snd s)"
  by (induction s t rule: sync_step.induct)
    (auto simp: shouldStartSync_def CompleteChainBlocksFrom_def add_range_def clearPendingSync_def Let_def
      remove_element_def split: if_splits option.splits prod.splits)

lemma sync_reachable_inv:
  assumes "sync_reachable maxSize s"
  shows "sync_inv s" and "un_maxSize (snd s) = maxSize"
proof -
  show "sync_inv s" using assms sync_inv_star sync_inv_new by (auto simp: sync_reachable_def)
  have "sync_step\<^sup>*\<^sup>* (Idle, UnprocessedElements_new maxSize) s" using assms by (simp add: sync_reachable_def)
  then show "un_maxSize (snd s) = maxSize"
    by (induction rule: rtranclp_induct) (auto simp: UnprocessedElements_new_def dest: sync_step_maxSize)
qed

section \<open>Recovery\<close>

lemma drain:
  assumes "sync_inv (phase, u)"
  shows "\<exists>u'. sync_step\<^sup>*\<^sup>* (phase, u) (phase, u') \<and> un_elements u' = []"
  using assms
proof (induction "un_elements u" arbitrary: u)
  case Nil
  then show ?case by (intro exI [of _ u]) auto
next
  case (Cons info infos)
  obtain u1 where u1: "remove_element (info_Id info) Normal u = Inr u1"
    using Cons.hyps(2) [symmetric] by (simp add: remove_element_def Let_def)
  note rem = sync_inv_remove [OF Cons.prems Cons.hyps(2) [symmetric] u1]
  have "sync_step (phase, u) (phase, u1)" using Cons.hyps(2) [symmetric] u1 by (rule sync_step.complete)
  moreover obtain u' where "sync_step\<^sup>*\<^sup>* (phase, u1) (phase, u')" "un_elements u' = []"
    using Cons.hyps(1) [of u1] rem(1,2) by auto
  ultimately show ?case by (meson converse_rtranclp_into_rtranclp)
qed

lemma finish: "un_elements u = [] \<Longrightarrow> sync_inv (phase, u) \<Longrightarrow>
  \<exists>u'. sync_step\<^sup>*\<^sup>* (phase, u) (Idle, u') \<and> un_elements u' = []"
proof -
  assume e: "un_elements u = []" and inv: "sync_inv (phase, u)"
  have clear: "un_elements (clearPendingSync u) = []" using e by (simp add: clearPendingSync_def Let_def)
  have fin: "sync_step\<^sup>*\<^sup>* (Finished code, u) (Idle, clearPendingSync u)" for code
    by (blast intro: sync_step.clear)
  have cmp: "sync_step\<^sup>*\<^sup>* (Compared r, u) (Idle, clearPendingSync u)" for r
  proof (cases r)
    case (Inl code)
    then show ?thesis using sync_step.skip fin by (meson converse_rtranclp_into_rtranclp)
  next
    case (Inr hf)
    obtain h f where hf: "hf = (h, f)" by fastforce
    have "sync_step (Compared (Inr (h, f)), u) (Finished Interaction_Failure, u)"
    proof (rule sync_step.pull [OF refl])
      show "range_in_memory (\<lambda>_. 0) u (ChainBlocksFrom (\<lambda>_ _. Inl runtime_error) 0 h f [])"
        by (simp add: ChainBlocksFrom.simps range_in_memory_def)
      show "CompleteChainBlocksFrom (\<lambda>_. 0) (\<lambda>_. 0) (ChainBlocksFrom (\<lambda>_ _. Inl runtime_error) 0 h f []) u = (Interaction_Failure, u)"
        by (simp add: ChainBlocksFrom.simps CompleteChainBlocksFrom_def)
    qed
    then show ?thesis using fin Inr hf by (meson converse_rtranclp_into_rtranclp)
  qed
  show ?thesis
  proof (cases phase)
    case Idle
    then show ?thesis using e by blast
  next
    case Started
    have "unat (un_numBytes u) = 0" using inv e by (simp add: sync_inv_def)
    then have "un_empty u" by (simp add: un_empty_def word_unat_eq_iff)
    then have "sync_step (Started, u) (Compared (syncWithPeer (Inl runtime_error)), u)" by (rule sync_step.compare)
    then show ?thesis using cmp clear Started by (meson converse_rtranclp_into_rtranclp)
  next
    case Extending
    then show ?thesis using sync_step.read_height cmp clear by (meson converse_rtranclp_into_rtranclp)
  next
    case (Compared r)
    then show ?thesis using cmp clear by blast
  next
    case (Finished code)
    then show ?thesis using fin clear by blast
  qed
qed

text \<open>
  C24. In every interleaving of synchronizations with completions of ranges, the byte count of
  \<^verbatim>\<open>UnprocessedElements\<close> is the sum of the sizes of the queued ranges (it never wraps below zero), the pending
  flag is set exactly while a synchronization is running, and the dirty flag is set only while a range or a
  synchronization is outstanding.
\<close>

theorem synchronizer_invariant:
  assumes "sync_reachable maxSize (phase, u)"
  shows "unat (un_numBytes u) = sum_list (map (unat \<circ> info_NumBytes) (un_elements u))
    \<and> (un_hasPendingSync u \<longleftrightarrow> phase \<noteq> Idle) \<and> (un_dirty u \<longrightarrow> un_elements u \<noteq> [] \<or> phase \<noteq> Idle)"
  using sync_reachable_inv(1) [OF assms]
  by (auto simp: sync_inv_def total_bytes_def hasPendingOperation_def word_unat_eq_iff)

theorem synchronizer_invariant_witness:
  "sync_reachable 100 (Started, (UnprocessedElements_new 100)\<lparr>un_hasPendingSync := True\<rparr>)
    \<and> unat (un_numBytes ((UnprocessedElements_new 100)\<lparr>un_hasPendingSync := True\<rparr>)) = 0"
proof -
  have "sync_step (Idle, UnprocessedElements_new 100) (Started, (UnprocessedElements_new 100)\<lparr>un_hasPendingSync := True\<rparr>)"
    by (rule sync_step.start) (simp add: shouldStartSync_def UnprocessedElements_new_def)
  then have "sync_reachable 100 (Started, (UnprocessedElements_new 100)\<lparr>un_hasPendingSync := True\<rparr>)"
    by (auto simp: sync_reachable_def)
  with synchronizer_invariant [OF this] show ?thesis by (simp add: UnprocessedElements_new_def)
qed

text \<open>
  C25. The synchronizer never locks itself out: from every reachable state, whatever ranges were
  aborted and however the flags were set by then, the two threads can finish what is outstanding, and then a
  new synchronization may start.
\<close>

theorem synchronizer_recovers:
  assumes "sync_reachable maxSize s" and "0 < maxSize"
  shows "\<exists>u. sync_step\<^sup>*\<^sup>* s (Idle, u) \<and> un_elements u = [] \<and> fst (shouldStartSync u)"
proof -
  obtain phase u where s: "s = (phase, u)" by fastforce
  obtain u1 where d: "sync_step\<^sup>*\<^sup>* s (phase, u1)" "un_elements u1 = []"
    using drain sync_reachable_inv(1) [OF assms(1)] s by blast
  have "sync_inv (phase, u1)" using d(1) sync_reachable_inv(1) [OF assms(1)] by (rule sync_inv_star)
  then obtain u2 where f: "sync_step\<^sup>*\<^sup>* (phase, u1) (Idle, u2)" "un_elements u2 = []"
    using finish d(2) by blast
  have run: "sync_step\<^sup>*\<^sup>* s (Idle, u2)" using d(1) f(1) by (rule rtranclp_trans)
  then have "sync_reachable maxSize (Idle, u2)" using assms(1) by (auto simp: sync_reachable_def)
  note inv = sync_reachable_inv [OF this]
  then have "unat (un_numBytes u2) = 0" "\<not> un_dirty u2" "\<not> un_hasPendingSync u2" "un_maxSize u2 = maxSize"
    using f(2) by (auto simp: sync_inv_def hasPendingOperation_def word_unat_eq_iff)
  then have "fst (shouldStartSync u2)" using assms(2) by (simp add: shouldStartSync_def word_le_nat_alt word_less_nat_alt)
  then show ?thesis using run f(2) by blast
qed

theorem synchronizer_recovers_witness:
  "\<exists>u. sync_step\<^sup>*\<^sup>* (Idle, UnprocessedElements_new 100) (Idle, u) \<and> un_elements u = [] \<and> fst (shouldStartSync u)"
  by (rule synchronizer_recovers [of 100]) (simp_all add: sync_reachable_def)


section \<open>The blocks of a synchronization\<close>

text \<open>A peer that answers a request with consecutive blocks that start at the requested height.\<close>

definition serves_in_order :: "(nat \<Rightarrow> Height \<Rightarrow> Block list result) \<Rightarrow> bool" where
  "serves_in_order supplier \<longleftrightarrow> (\<forall>i h blocks. supplier i h = Inr blocks \<longrightarrow>
     unat h + length blocks < 2 ^ 64 \<and> map (unat \<circ> block_Height) blocks = [unat h..<unat h + length blocks])"

lemma serves_in_order_last:
  assumes "serves_in_order supplier" and "supplier i h = Inr blocks" and "blocks \<noteq> []"
  shows "unat (block_Height (last blocks) + 1) = unat h + length blocks"
proof -
  have lt: "unat h + length blocks < 2 ^ 64"
    and hs: "map (unat \<circ> block_Height) blocks = [unat h..<unat h + length blocks]"
    using assms(1,2) by (auto simp: serves_in_order_def)
  have "unat (block_Height (last blocks)) = last (map (unat \<circ> block_Height) blocks)"
    using assms(3) by (simp add: last_map)
  also have "\<dots> = unat h + length blocks - 1" unfolding hs using assms(3) by (cases blocks) auto
  finally show ?thesis using lt assms(3) by (cases blocks) (auto simp: unat_word_ariths)
qed

lemma ChainBlocksFrom_in_order:
  "serves_in_order supplier
    \<Longrightarrow> ChainBlocksFrom supplier i height forkDepth aggregated = Some blocks
    \<Longrightarrow> map (unat \<circ> block_Height) aggregated = [a..<a + length aggregated]
    \<Longrightarrow> unat height = a + length aggregated
    \<Longrightarrow> map (unat \<circ> block_Height) blocks = [a..<a + length blocks]
      \<and> (unat forkDepth \<le> length blocks \<or> (\<exists>j h. unat h = a + length blocks \<and> supplier j h = Inr []))"
proof (induction supplier i height forkDepth aggregated rule: ChainBlocksFrom.induct)
  case (1 supplier i height forkDepth aggregated)
  obtain bs where bs: "supplier i height = Inr bs"
    using "1.prems"(2) by (auto simp: ChainBlocksFrom.simps [of supplier i] split: sum.splits)
  show ?case
  proof (cases "bs = []")
    case True
    then show ?thesis using "1.prems" bs by (auto simp: ChainBlocksFrom.simps [of supplier i])
  next
    case False
    have hs: "map (unat \<circ> block_Height) bs = [unat height..<unat height + length bs]"
      using "1.prems"(1) bs by (auto simp: serves_in_order_def)
    have agg: "map (unat \<circ> block_Height) (aggregated @ bs) = [a..<a + length (aggregated @ bs)]"
      unfolding map_append "1.prems"(3) hs "1.prems"(4) length_append
      using upt_add_eq_append [of a "a + length aggregated" "length bs"] by (simp add: add.assoc)
    show ?thesis
    proof (cases "unat forkDepth \<le> length (aggregated @ bs)")
      case True
      then have "blocks = aggregated @ bs"
        using "1.prems"(2) bs False by (simp add: ChainBlocksFrom.simps [of supplier i] Let_def)
      then show ?thesis using agg True by (simp only:) blast
    next
      case deep: False
      have "ChainBlocksFrom supplier (Suc i) (block_Height (last bs) + 1) forkDepth (aggregated @ bs) = Some blocks"
        using "1.prems"(2) bs False deep by (simp add: ChainBlocksFrom.simps [of supplier i] Let_def)
      moreover have "unat (block_Height (last bs) + 1) = a + length (aggregated @ bs)"
        using serves_in_order_last [OF "1.prems"(1) bs False] "1.prems"(4) by simp
      ultimately show ?thesis using "1.IH" [OF bs False refl deep "1.prems"(1)] agg by blast
    qed
  qed
qed

text \<open>
  When a peer serves consecutive blocks from the requested height, the range that is handed to
  the disruptor is a consecutive run of blocks that starts right above the common block, however the peer
  splits its answers, and it is as long as the fork is deep unless the peer has no block at the height after
  its last one. The number of requests is bounded by the fork depth, since \<^verbatim>\<open>ChainBlocksFrom\<close> is total.
\<close>

theorem pulled_blocks_consecutive:
  assumes "serves_in_order supplier" and "ChainBlocksFrom supplier 0 height forkDepth [] = Some blocks"
  shows "map (unat \<circ> block_Height) blocks = [unat height..<unat height + length blocks]
    \<and> (unat forkDepth \<le> length blocks \<or> (\<exists>j h. unat h = unat height + length blocks \<and> supplier j h = Inr []))"
  using ChainBlocksFrom_in_order [OF assms, of "unat height"] by simp

definition single_supplier :: "nat \<Rightarrow> Height \<Rightarrow> Block list result" where
  "single_supplier i h = (if h < 6 then Inr [sample_block h 0] else Inr [])"

theorem pulled_blocks_consecutive_witness:
  "\<exists>blocks. ChainBlocksFrom single_supplier 0 3 5 [] = Some blocks
    \<and> map (unat \<circ> block_Height) blocks = [unat (3 :: u64)..<unat (3 :: u64) + length blocks]"
proof -
  have "serves_in_order single_supplier"
  proof (unfold serves_in_order_def, intro allI impI)
    fix i h blocks
    assume s: "single_supplier i h = Inr blocks"
    show "unat h + length blocks < 2 ^ 64 \<and> map (unat \<circ> block_Height) blocks = [unat h..<unat h + length blocks]"
      using s unat_u64_lt [of h]
      by (cases "h < 6") (auto simp: single_supplier_def sample_block_def word_less_nat_alt)
  qed
  moreover have "ChainBlocksFrom single_supplier 0 3 5 [] = Some [sample_block 3 0, sample_block 4 0, sample_block 5 0]"
    by (simp add: ChainBlocksFrom.simps single_supplier_def sample_block_def)
  ultimately show ?thesis using pulled_blocks_consecutive [of single_supplier 3 5] by blast
qed

section \<open>A race\<close>

text \<open>
  The queue is inspected twice, and the disruptor thread may run in between: once to decide that
  chains need not be compared because ranges are being processed, and once to read the height of the last
  range. With one range in the queue the synchronizer asks the peer for the blocks after it; but when that range completes in between, the height is zero and it asks for
  blocks from height one, the nemesis block, which every node rejects.
\<close>

lemma extension_races_with_completion:
  assumes "un_elements u = [info]"
  shows "sync_step (Extending, u) (Compared (Inr (info_EndHeight info + 1, 0)), u)"
    and "\<exists>v. sync_step (Extending, u) (Extending, v) \<and> sync_step (Extending, v) (Compared (Inr (1, 0)), v)"
proof -
  show "sync_step (Extending, u) (Compared (Inr (info_EndHeight info + 1, 0)), u)"
    using sync_step.read_height [of u] assms by (simp add: syncWithPeer_def maxHeight_def)
  obtain v where v: "remove_element (info_Id info) Normal u = Inr v" "un_elements v = []"
    using assms by (simp add: remove_element_def Let_def)
  then have "sync_step (Extending, v) (Compared (Inr (1, 0)), v)"
    using sync_step.read_height [of v] by (simp add: syncWithPeer_def maxHeight_def)
  then show "\<exists>v. sync_step (Extending, u) (Extending, v) \<and> sync_step (Extending, v) (Compared (Inr (1, 0)), v)"
    using sync_step.complete [OF _ v(1)] assms by blast
qed

end
