(* ===== verification/File_Database.thy ===== *)
theory File_Database
  imports Prelude
begin

text \<open>
  The database of payloads in batched files of \<^verbatim>\<open>io/FileDatabase.cpp\<close>. The payloads of \<open>batchSize\<close> consecutive ids
  share a file that starts with a header of one 64-bit offset for each id, zero for an id without payload; a
  payload extends to the offset of the next id or, if that is zero, to the end of the file. With a batch size
  of one the file has no header and is the payload.

  A file is modelled by its header cells and its content after the header, a list of items of any type;
  offsets count items and start after the cells. For bytes as items these are the file positions of the code.
  Offsets are natural numbers: a file stays far below two to the sixty-four bytes. Ids are the values of the
  unsigned ids, on which only division and remainder are used. A file error of the code is
  \<^const>\<open>runtime_error\<close>.
\<close>

record 'a DatabaseFile =
  file_header :: "nat list"
  file_body :: "'a list"

type_synonym 'a FileDatabase = "nat \<Rightarrow> 'a DatabaseFile option"

section \<open>Operations\<close>

definition bypassHeader :: "nat \<Rightarrow> bool" where
  "bypassHeader batchSize \<longleftrightarrow> 1 = batchSize"

definition getHeaderOffset :: "nat \<Rightarrow> nat \<Rightarrow> nat" where
  "getHeaderOffset batchSize i = i mod batchSize"

text \<open>\<^verbatim>\<open>getFilePath\<close>: the group of an id determines its file.\<close>

definition getFilePath :: "nat \<Rightarrow> nat \<Rightarrow> nat" where
  "getFilePath batchSize i = (i div batchSize) * batchSize"

definition headerSize :: "nat \<Rightarrow> nat" where
  "headerSize batchSize = batchSize * 8"

definition file_size :: "nat \<Rightarrow> 'a DatabaseFile \<Rightarrow> nat" where
  "file_size batchSize f = (if bypassHeader batchSize then 0 else headerSize batchSize) + length (file_body f)"

definition database_contains :: "nat \<Rightarrow> nat \<Rightarrow> 'a FileDatabase \<Rightarrow> bool" where
  "database_contains batchSize i db =
    (case db (getFilePath batchSize i) of None \<Rightarrow> False
     | Some f \<Rightarrow> bypassHeader batchSize \<or> file_header f ! getHeaderOffset batchSize i \<noteq> 0)"

text \<open>\<^verbatim>\<open>inputStream\<close>, with the slice that it returns read to its end.\<close>

definition inputStream :: "nat \<Rightarrow> nat \<Rightarrow> 'a FileDatabase \<Rightarrow> 'a list result" where
  "inputStream batchSize i db =
    (case db (getFilePath batchSize i) of None \<Rightarrow> Inl runtime_error
     | Some f \<Rightarrow>
         if bypassHeader batchSize then Inr (file_body f)
         else let bodyStartOffset = file_header f ! getHeaderOffset batchSize i in
           if 0 = bodyStartOffset then Inl runtime_error
           else let bodyEndOffset = (if batchSize - 1 \<noteq> i mod batchSize
                    then file_header f ! Suc (getHeaderOffset batchSize i) else 0);
                    bodyEndOffset = (if 0 = bodyEndOffset then file_size batchSize f else bodyEndOffset)
                in Inr (take (bodyEndOffset - bodyStartOffset) (drop (bodyStartOffset - headerSize batchSize) (file_body f))))"

text \<open>\<^verbatim>\<open>outputStream\<close>, with \<open>payload\<close> written to the stream that it returns.\<close>

definition outputStream :: "nat \<Rightarrow> nat \<Rightarrow> 'a list \<Rightarrow> 'a FileDatabase \<Rightarrow> 'a FileDatabase" where
  "outputStream batchSize i payload db =
    (let filePath = getFilePath batchSize i; headerOffset = getHeaderOffset batchSize i in
     if bypassHeader batchSize then db(filePath \<mapsto> \<lparr>file_header = [], file_body = payload\<rparr>)
     else let f = (case db filePath of
             None \<Rightarrow> \<lparr>file_header = replicate batchSize 0, file_body = []\<rparr>
           | Some f \<Rightarrow> let bodyStartOffset = file_header f ! headerOffset in
               if 0 \<noteq> bodyStartOffset
               then f\<lparr>file_header := take headerOffset (file_header f) @ replicate (batchSize - headerOffset) 0,
                      file_body := take (bodyStartOffset - headerSize batchSize) (file_body f)\<rparr>
               else f);
           f = f\<lparr>file_header := (file_header f)[headerOffset := file_size batchSize f]\<rparr>
       in db(filePath \<mapsto> f\<lparr>file_body := file_body f @ payload\<rparr>))"

section \<open>Files of consecutive payloads\<close>

text \<open>
  \<open>file_run batchSize f lo ps\<close>: the file holds exactly the payloads \<open>ps\<close> for the positions from \<open>lo\<close> on, one after
  the other.
\<close>

definition run_offset :: "nat \<Rightarrow> nat \<Rightarrow> 'a list list \<Rightarrow> nat \<Rightarrow> nat" where
  "run_offset batchSize lo ps j =
    (if lo \<le> j \<and> j < lo + length ps then headerSize batchSize + length (concat (take (j - lo) ps)) else 0)"

definition file_run :: "nat \<Rightarrow> 'a DatabaseFile \<Rightarrow> nat \<Rightarrow> 'a list list \<Rightarrow> bool" where
  "file_run batchSize f lo ps \<longleftrightarrow> file_body f = concat ps \<and> ps \<noteq> [] \<and> lo + length ps \<le> batchSize
     \<and> (batchSize \<noteq> 1 \<longrightarrow> file_header f = map (run_offset batchSize lo ps) [0..<batchSize])"

lemma concat_take_slice:
  assumes "j < length ps"
  shows "take (length (concat (take (Suc j) ps)) - length (concat (take j ps)))
      (drop (length (concat (take j ps))) (concat ps)) = ps ! j"
proof -
  have ps: "ps = take j ps @ ps ! j # drop (Suc j) ps" using assms by (simp add: id_take_nth_drop)
  have "concat ps = concat (take j ps) @ ps ! j @ concat (drop (Suc j) ps)"
    by (subst ps) simp
  moreover have "length (concat (take (Suc j) ps)) - length (concat (take j ps)) = length (ps ! j)"
    using assms by (simp add: take_Suc_conv_app_nth)
  ultimately show ?thesis by simp
qed

lemma inputStream_slice:
  assumes "db (getFilePath b i) = Some f" and "b \<noteq> 1" and "file_header f ! (i mod b) = start" and "0 \<noteq> start"
    and "bodyEnd = (if b - 1 \<noteq> i mod b then file_header f ! Suc (i mod b) else 0)"
    and "stop = (if 0 = bodyEnd then file_size b f else bodyEnd)"
  shows "inputStream b i db = Inr (take (stop - start) (drop (start - headerSize b) (file_body f)))"
  using assms(1-4) unfolding assms(5,6) by (simp add: inputStream_def Let_def getHeaderOffset_def bypassHeader_def)

lemma inputStream_run:
  assumes f: "db (getFilePath b i) = Some f" "file_run b f lo ps"
    and i: "lo \<le> i mod b" "i mod b < lo + length ps"
  shows "inputStream b i db = Inr (ps ! (i mod b - lo))"
proof (cases "b = 1")
  case True
  then have "length ps = 1" "lo = 0" using f(2) by (cases ps; auto simp: file_run_def)+
  then obtain p where "ps = [p]" by (cases ps) auto
  then show ?thesis using f True \<open>lo = 0\<close> by (simp add: inputStream_def file_run_def bypassHeader_def)
next
  case False
  let ?j = "i mod b - lo"
  have b: "0 < b" and lt: "i mod b < b" using f(2) i by (auto simp: file_run_def)
  have j: "?j < length ps" using i by simp
  have start: "file_header f ! (i mod b) = headerSize b + length (concat (take ?j ps))"
    using f(2) False i lt by (simp add: file_run_def run_offset_def)
  define bodyEnd where "bodyEnd = (if b - 1 \<noteq> i mod b then file_header f ! Suc (i mod b) else 0)"
  have stop: "headerSize b + length (concat (take (Suc ?j) ps)) = (if 0 = bodyEnd then file_size b f else bodyEnd)"
  proof (cases "Suc (i mod b) < lo + length ps")
    case True
    then have n: "Suc (i mod b) < b" using f(2) by (simp add: file_run_def)
    have "Suc (i mod b) - lo = Suc ?j" using i by simp
    then have "file_header f ! Suc (i mod b) = headerSize b + length (concat (take (Suc ?j) ps))"
      using f(2) False n True i by (simp add: file_run_def run_offset_def)
    then show ?thesis using n b by (auto simp: bodyEnd_def headerSize_def)
  next
    case last: False
    then have "Suc ?j = length ps" using i by simp
    moreover have "bodyEnd = 0" using f(2) False last i lt by (auto simp: bodyEnd_def file_run_def run_offset_def)
    ultimately show ?thesis using f(2) False by (simp add: file_size_def file_run_def bypassHeader_def)
  qed
  have "0 \<noteq> headerSize b + length (concat (take ?j ps))" using b by (simp add: headerSize_def)
  from inputStream_slice [of db b i, OF f(1) False start this bodyEnd_def stop] show ?thesis
    using f(2) concat_take_slice [OF j] by (simp add: file_run_def)
qed

lemma file_run_length:
  assumes "file_run b f lo ps" and "file_run b f lo qs"
  shows "length ps \<le> length qs"
proof (rule ccontr)
  assume less: "\<not> length ps \<le> length qs"
  have lt: "lo + length qs < b" using assms(1) less by (simp add: file_run_def)
  have "0 < length qs" using assms(2) by (simp add: file_run_def)
  then have "b \<noteq> 1" using lt by linarith
  then have "run_offset b lo ps (lo + length qs) = run_offset b lo qs (lo + length qs)"
    using assms lt by (simp add: file_run_def)
  then show False using less lt by (simp add: run_offset_def headerSize_def)
qed

lemma file_run_unique:
  assumes "file_run b f lo ps" and "file_run b f lo qs"
  shows "ps = qs"
proof (rule nth_equalityI)
  show len: "length ps = length qs" using file_run_length assms by (meson le_antisym)
  fix j assume j: "j < length ps"
  then have "(lo + j) mod b = lo + j" using assms(1) by (simp add: file_run_def)
  then have "inputStream b (lo + j) (\<lambda>_. Some f) = Inr (rs ! j)" if "file_run b f lo rs" "j < length rs" for rs
    using inputStream_run [of "\<lambda>_. Some f" b "lo + j" f lo rs] that by simp
  from this [of ps] this [of qs] have "(Inr (ps ! j) :: 'a list result) = Inr (qs ! j)" using assms j len by simp
  then show "ps ! j = qs ! j" by simp
qed

lemma outputStream_new:
  assumes "db (getFilePath b i) = None" and "0 < b"
  shows "\<exists>f. outputStream b i p db = db(getFilePath b i \<mapsto> f) \<and> file_run b f (i mod b) [p]"
proof (cases "b = 1")
  case True
  then show ?thesis
    by (intro exI [of _ "\<lparr>file_header = [], file_body = p\<rparr>"])
      (simp add: outputStream_def Let_def bypassHeader_def file_run_def)
next
  case False
  have "(replicate b 0)[i mod b := headerSize b] = map (run_offset b (i mod b) [p]) [0..<b]"
    by (rule nth_equalityI) (auto simp: run_offset_def nth_list_update)
  moreover have "Suc (i mod b) \<le> b" using assms(2) by (simp add: Suc_le_eq)
  ultimately show ?thesis
    using assms False by (intro exI [of _ "\<lparr>file_header = map (run_offset b (i mod b) [p]) [0..<b], file_body = p\<rparr>"])
      (simp add: outputStream_def Let_def bypassHeader_def file_run_def file_size_def getHeaderOffset_def)
qed

lemma run_offset_take:
  assumes "n \<le> length ps" and "lo + n < b"
  shows "(take (lo + n) (map (run_offset b lo ps) [0..<b]) @ replicate (b - (lo + n)) 0)
      [lo + n := headerSize b + length (concat (take n ps))]
    = map (run_offset b lo (take n ps @ [p])) [0..<b]"
  using assms by (intro nth_equalityI) (auto simp: run_offset_def nth_list_update nth_append min_absorb2)

text \<open>Writing at a position that the run reaches keeps what is before it and drops what was after it.\<close>

lemma outputStream_run:
  assumes f: "db (getFilePath b i) = Some f" "file_run b f lo ps"
    and i: "i mod b = lo + n" "n \<le> length ps"
  shows "\<exists>f'. outputStream b i p db = db(getFilePath b i \<mapsto> f') \<and> file_run b f' lo (take n ps @ [p])"
proof (cases "b = 1")
  case True
  then have "lo = 0" "n = 0" using i(1) by simp_all
  then show ?thesis
    using True f(2) by (intro exI [of _ "\<lparr>file_header = [], file_body = p\<rparr>"])
      (simp add: outputStream_def Let_def bypassHeader_def file_run_def)
next
  case False
  have b: "0 < b" using f(2) by (cases b) (auto simp: file_run_def)
  then have lt: "lo + n < b" using i(1) mod_less_divisor [of b i] by simp
  have hdr: "file_header f = map (run_offset b lo ps) [0..<b]" and body: "file_body f = concat ps"
    using f(2) False by (simp_all add: file_run_def)
  define f1 where "f1 = (if 0 \<noteq> file_header f ! (i mod b)
      then f\<lparr>file_header := take (i mod b) (file_header f) @ replicate (b - i mod b) 0,
             file_body := take (file_header f ! (i mod b) - headerSize b) (file_body f)\<rparr> else f)"
  have f1: "file_header f1 = take (lo + n) (file_header f) @ replicate (b - (lo + n)) 0 \<and> file_body f1 = concat (take n ps)"
  proof (cases "n < length ps")
    case True
    then have "file_header f ! (i mod b) = headerSize b + length (concat (take n ps))"
      using lt i(1) by (simp add: hdr run_offset_def)
    moreover have "take (length (concat (take n ps))) (concat ps) = concat (take n ps)"
      by (metis append_eq_conv_conj append_take_drop_id concat_append)
    ultimately show ?thesis using b i(1) by (simp add: f1_def body headerSize_def)
  next
    case False
    then have n: "n = length ps" using i(2) by simp
    then have "file_header f ! (i mod b) = 0" using lt i(1) by (simp add: hdr run_offset_def)
    moreover have "file_header f = take (lo + n) (file_header f) @ replicate (b - (lo + n)) 0"
      using n lt unfolding hdr by (intro nth_equalityI) (auto simp: nth_append run_offset_def)
    ultimately show ?thesis using n by (simp add: f1_def body)
  qed
  define f2 where "f2 = f1\<lparr>file_header := (file_header f1)[i mod b := file_size b f1]\<rparr>"
  have run: "outputStream b i p db = db(getFilePath b i \<mapsto> f2\<lparr>file_body := file_body f2 @ p\<rparr>)"
    unfolding f2_def f1_def using f(1) False by (simp add: outputStream_def Let_def bypassHeader_def getHeaderOffset_def)
  have "file_size b f1 = headerSize b + length (concat (take n ps))"
    using f1 False by (simp add: file_size_def bypassHeader_def)
  then have "file_header f2 = map (run_offset b lo (take n ps @ [p])) [0..<b]"
    using f1 run_offset_take [OF i(2) lt, of p] by (simp add: f2_def i(1) hdr)
  then have "file_run b (f2\<lparr>file_body := file_body f2 @ p\<rparr>) lo (take n ps @ [p])"
    using f1 i(2) lt by (simp add: file_run_def f2_def min_absorb2)
  then show ?thesis using run by blast
qed

section \<open>Databases of consecutive payloads\<close>

text \<open>
  \<open>database_wf b a db\<close>: every file is a run from its first position, the file of the first id \<open>a\<close> from the position
  of \<open>a\<close>. \<open>database_has b a db i p\<close>: the payload of \<open>i\<close> is \<open>p\<close>.
\<close>

definition run_start :: "nat \<Rightarrow> nat \<Rightarrow> nat \<Rightarrow> nat" where
  "run_start b a i = (if i div b = a div b then a mod b else 0)"

definition database_wf :: "nat \<Rightarrow> nat \<Rightarrow> 'a FileDatabase \<Rightarrow> bool" where
  "database_wf b a db \<longleftrightarrow> 0 < b \<and>
     (\<forall>i f. db (getFilePath b i) = Some f \<longrightarrow> (\<exists>ps. file_run b f (run_start b a i) ps))"

definition database_has :: "nat \<Rightarrow> nat \<Rightarrow> 'a FileDatabase \<Rightarrow> nat \<Rightarrow> 'a list \<Rightarrow> bool" where
  "database_has b a db i p \<longleftrightarrow> a \<le> i \<and> (\<exists>f ps. db (getFilePath b i) = Some f \<and> file_run b f (run_start b a i) ps
     \<and> i mod b < run_start b a i + length ps \<and> p = ps ! (i mod b - run_start b a i))"

lemma getFilePath_eq: "0 < b \<Longrightarrow> getFilePath b i = getFilePath b j \<longleftrightarrow> i div b = j div b"
  by (simp add: getFilePath_def)

lemma run_start_le: "a \<le> i \<Longrightarrow> run_start b a i \<le> i mod b"
  by (auto simp: run_start_def) (metis add_le_cancel_left div_mult_mod_eq)

lemma run_start_group: "i div b = j div b \<Longrightarrow> run_start b a i = run_start b a j"
  by (simp add: run_start_def)

lemma database_has_read:
  assumes "database_has b a db i p"
  shows "inputStream b i db = Inr p"
proof -
  obtain f ps where f: "db (getFilePath b i) = Some f" "file_run b f (run_start b a i) ps"
    "i mod b < run_start b a i + length ps" "p = ps ! (i mod b - run_start b a i)" and "a \<le> i"
    using assms by (auto simp: database_has_def)
  show ?thesis using inputStream_run [of db b i, OF f(1,2) run_start_le [OF \<open>a \<le> i\<close>] f(3)] f(4) by simp
qed

text \<open>The file that a write of the next id of a run leaves.\<close>

lemma outputStream_next:
  assumes wf: "database_wf b a db" and i: "a \<le> i" "i = a \<or> (\<exists>q. database_has b a db (i - 1) q)"
  shows "\<exists>f ps. outputStream b i p db = db(getFilePath b i \<mapsto> f) \<and> file_run b f (run_start b a i) (ps @ [p])
    \<and> i mod b = run_start b a i + length ps
    \<and> (\<forall>g qs. db (getFilePath b i) = Some g \<longrightarrow> file_run b g (run_start b a i) qs \<longrightarrow> (\<exists>n \<le> length qs. ps = take n qs))"
proof -
  have b: "0 < b" using wf by (simp add: database_wf_def)
  define n where "n = i mod b - run_start b a i"
  have n: "i mod b = run_start b a i + n" using run_start_le [OF i(1), of b] by (simp add: n_def)
  have reached: "n = 0 \<or> (\<exists>g qs. db (getFilePath b i) = Some g \<and> file_run b g (run_start b a i) qs \<and> n \<le> length qs)"
  proof (cases "i = a \<or> i mod b = 0")
    case True
    then show ?thesis using run_start_le [OF i(1), of b] by (auto simp: n_def run_start_def)
  next
    case False
    then have same: "(i - 1) div b = i div b" "Suc ((i - 1) mod b) = i mod b"
      using b by (cases i; auto simp: div_Suc mod_Suc split: if_splits)+
    then show ?thesis
      using False i(2) b getFilePath_eq [of b "i - 1" i] run_start_group [OF same(1), of a] n
      by (fastforce simp: database_has_def)
  qed
  show ?thesis
  proof (cases "db (getFilePath b i)")
    case None
    then have "n = 0" using reached by simp
    then show ?thesis using outputStream_new [of db b i p] None b n by fastforce
  next
    case (Some g)
    then obtain qs where qs: "file_run b g (run_start b a i) qs" "n \<le> length qs"
      using reached wf by (fastforce simp: database_wf_def)
    obtain f where "outputStream b i p db = db(getFilePath b i \<mapsto> f)" "file_run b f (run_start b a i) (take n qs @ [p])"
      using outputStream_run [of db b i, OF Some qs(1) n qs(2)] by blast
    moreover have "length (take n qs) = n" using qs(2) by simp
    moreover have "\<exists>m \<le> length qs'. take n qs = take m qs'"
      if "db (getFilePath b i) = Some g'" "file_run b g' (run_start b a i) qs'" for g' qs'
      using that Some qs(2) file_run_unique [OF qs(1), of qs'] by auto
    ultimately show ?thesis using n by (intro exI [of _ f] exI [of _ "take n qs"]) (simp only: simp_thms, blast)
  qed
qed

lemma database_write:
  assumes wf: "database_wf b a db" and i: "a \<le> i" "i = a \<or> (\<exists>q. database_has b a db (i - 1) q)"
  shows "database_wf b a (outputStream b i p db) \<and> database_has b a (outputStream b i p db) i p
    \<and> (\<forall>j < i. \<forall>q. database_has b a db j q \<longrightarrow> database_has b a (outputStream b i p db) j q)"
proof -
  have b: "0 < b" using wf by (simp add: database_wf_def)
  obtain f ps where w: "outputStream b i p db = db(getFilePath b i \<mapsto> f)" "file_run b f (run_start b a i) (ps @ [p])"
    "i mod b = run_start b a i + length ps"
    and old: "\<And>g qs. db (getFilePath b i) = Some g \<Longrightarrow> file_run b g (run_start b a i) qs \<Longrightarrow> \<exists>n \<le> length qs. ps = take n qs"
    using outputStream_next [OF assms, of p] by metis
  have "database_wf b a (db(getFilePath b i \<mapsto> f))"
    unfolding database_wf_def
  proof (intro conjI allI impI)
    fix j g assume g: "(db(getFilePath b i \<mapsto> f)) (getFilePath b j) = Some g"
    show "\<exists>ps. file_run b g (run_start b a j) ps"
    proof (cases "j div b = i div b")
      case True
      then show ?thesis using g w(2) b run_start_group [OF True, of a] by (auto simp: getFilePath_eq)
    next
      case False
      then show ?thesis using g wf b by (auto simp: database_wf_def getFilePath_eq)
    qed
  qed (rule b)
  moreover have "database_has b a (db(getFilePath b i \<mapsto> f)) i p"
    using w(2,3) i(1) by (auto simp: database_has_def)
  moreover have "database_has b a (db(getFilePath b i \<mapsto> f)) j q" if j: "j < i" and has: "database_has b a db j q" for j q
  proof (cases "j div b = i div b")
    case False
    then show ?thesis using has b by (simp add: database_has_def getFilePath_eq)
  next
    case True
    then have paths: "getFilePath b j = getFilePath b i" using b by (simp add: getFilePath_eq)
    have rs: "run_start b a j = run_start b a i" using True by (rule run_start_group)
    obtain g qs where g: "db (getFilePath b i) = Some g" "file_run b g (run_start b a i) qs"
      "q = qs ! (j mod b - run_start b a i)" and aj: "a \<le> j"
      using has unfolding database_has_def paths rs by blast
    obtain n where n: "n \<le> length qs" "ps = take n qs" using old [OF g(1,2)] by blast
    have "j mod b < i mod b" using True j by (metis add_less_cancel_left div_mult_mod_eq)
    moreover have "run_start b a i \<le> j mod b" using run_start_le [OF aj, of b] rs by simp
    ultimately have "j mod b - run_start b a i < length ps" using w(3) by linarith
    then have "(ps @ [p]) ! (j mod b - run_start b a i) = q" "j mod b < run_start b a i + length (ps @ [p])"
      using g(3) n by (simp_all add: nth_append)
    then show ?thesis
      unfolding database_has_def paths rs using w(2) aj
      by (intro conjI exI [of _ f] exI [of _ "ps @ [p]"]) simp_all
  qed
  ultimately show ?thesis unfolding w(1) by blast
qed

lemma database_has_contains:
  assumes "database_has b a db i p"
  shows "database_contains b i db"
proof -
  obtain f ps where f: "db (getFilePath b i) = Some f" "file_run b f (run_start b a i) ps"
    "i mod b < run_start b a i + length ps" and "a \<le> i"
    using assms by (auto simp: database_has_def)
  then have "0 < b" "i mod b < b" by (auto simp: file_run_def)
  then have "b \<noteq> 1 \<longrightarrow> file_header f ! (i mod b) \<noteq> 0"
    using f run_start_le [OF \<open>a \<le> i\<close>, of b] by (simp add: file_run_def run_offset_def headerSize_def)
  then show ?thesis using f(1) by (auto simp: database_contains_def bypassHeader_def getHeaderOffset_def)
qed

lemma database_contains_empty [simp]: "\<not> database_contains b i (\<lambda>_. None)"
  by (simp add: database_contains_def)

lemma database_wf_empty: "0 < b \<Longrightarrow> database_wf b a (\<lambda>_. None)"
  by (simp add: database_wf_def)

end
