(* ===== verification/Block_Storage.thy ===== *)
theory Block_Storage
  imports Chain_Comparison File_Database
begin

text \<open>
  The storage of the blockchain: \<^verbatim>\<open>io/FileBlockStorage.cpp\<close> over the file databases of blocks and statements
  (\<^verbatim>\<open>io/FileDatabase.cpp\<close>), the move of staged blocks (\<^verbatim>\<open>io/MoveBlockFiles.cpp\<close>) and the two-phase commit of
  \<^verbatim>\<open>io/BlockStorageCache.cpp\<close>.

  The item type of the block database is the block element and that of the statement database the
  statement: a payload is the list of the values written to its stream, and reading a value from a stream
  takes the next one. The serialized form of a block element does not contain its statement. The reader-writer
  lock of the storage makes every operation atomic. A staging storage has no hash index.
\<close>

section \<open>Block elements\<close>

record 's BlockElement =
  element_Block :: Block
  element_EntityHash :: Hash256
  element_GenerationHash :: bytes
  element_SubCacheMerkleRoots :: "Hash256 list"
  element_Transactions :: "Hash256 list"
  element_OptionalStatement :: "'s option"

section \<open>File block storage\<close>

record 's FileBlockStorage = hash_storage +
  storage_batchSize :: nat
  storage_blocks :: "'s BlockElement FileDatabase"
  storage_statements :: "'s FileDatabase"

definition storage_saveBlock :: "'s BlockElement \<Rightarrow> 's FileBlockStorage \<Rightarrow> 's FileBlockStorage result" where
  "storage_saveBlock e s =
    (let currentHeight = storage_chainHeight s; height = block_Height (element_Block e)
     in if height \<noteq> currentHeight + 1 then Inl invalid_argument
        else let s = s\<lparr>storage_blocks := outputStream (storage_batchSize s) (unat height)
                   [e\<lparr>element_OptionalStatement := None\<rparr>] (storage_blocks s)\<rparr>;
                 s = (case element_OptionalStatement e of None \<Rightarrow> s
                      | Some st \<Rightarrow> s\<lparr>storage_statements :=
                          outputStream (storage_batchSize s) (unat height) [st] (storage_statements s)\<rparr>);
                 s = (if storage_Hash_Index s
                      then s\<lparr>storage_hashFile := (storage_hashFile s)(height := element_EntityHash e)\<rparr> else s)
             in Inr (if height > currentHeight then s\<lparr>storage_indexFile := Some height\<rparr> else s))"

definition storage_dropBlocksAfter :: "Height \<Rightarrow> 's FileBlockStorage \<Rightarrow> 's FileBlockStorage" where
  "storage_dropBlocksAfter height s = s\<lparr>storage_indexFile := Some height\<rparr>"

definition storage_requireHeight :: "Height \<Rightarrow> 's FileBlockStorage \<Rightarrow> unit result" where
  "storage_requireHeight height s = (if height \<le> storage_chainHeight s then Inr () else Inl invalid_argument)"

text \<open>
  The block and the element are read from the front of the payload; an element has to use it up.
  Statement data are the whole payload.
\<close>

definition storage_loadBlockElement :: "Height \<Rightarrow> 's FileBlockStorage \<Rightarrow> 's BlockElement result" where
  "storage_loadBlockElement height s =
    bind_result (storage_requireHeight height s)
      (\<lambda>_. bind_result (inputStream (storage_batchSize s) (unat height) (storage_blocks s))
        (\<lambda>blockStream. case blockStream of [e] \<Rightarrow> Inr e | _ \<Rightarrow> Inl runtime_error))"

definition storage_loadBlock :: "Height \<Rightarrow> 's FileBlockStorage \<Rightarrow> Block result" where
  "storage_loadBlock height s =
    bind_result (storage_requireHeight height s)
      (\<lambda>_. bind_result (inputStream (storage_batchSize s) (unat height) (storage_blocks s))
        (\<lambda>blockStream. case blockStream of e # _ \<Rightarrow> Inr (element_Block e) | [] \<Rightarrow> Inl runtime_error))"

definition storage_loadBlockStatementData :: "Height \<Rightarrow> 's FileBlockStorage \<Rightarrow> 's list option result" where
  "storage_loadBlockStatementData height s =
    bind_result (storage_requireHeight height s)
      (\<lambda>_. if \<not> database_contains (storage_batchSize s) (unat height) (storage_statements s) then Inr None
           else bind_result (inputStream (storage_batchSize s) (unat height) (storage_statements s))
             (\<lambda>blockStatement. Inr (Some blockStatement)))"

text \<open>\<^verbatim>\<open>purge\<close> removes every file below the data directory.\<close>

definition storage_purge :: "'s FileBlockStorage \<Rightarrow> 's FileBlockStorage" where
  "storage_purge s = s\<lparr>storage_indexFile := None, storage_blocks := (\<lambda>_. None), storage_statements := (\<lambda>_. None)\<rparr>"

section \<open>Moving staged blocks\<close>

definition MoveBlockFiles_step :: "'s FileBlockStorage \<Rightarrow> Height \<Rightarrow> 's FileBlockStorage \<Rightarrow> 's FileBlockStorage result" where
  "MoveBlockFiles_step source height destination =
    bind_result (storage_loadBlockElement height source)
      (\<lambda>e. bind_result (storage_loadBlockStatementData height source)
        (\<lambda>blockStatement. bind_result
          (case blockStatement of None \<Rightarrow> Inr e
            | Some [] \<Rightarrow> Inl runtime_error
            | Some (st # _) \<Rightarrow> Inr (e\<lparr>element_OptionalStatement := Some st\<rparr>))
          (\<lambda>e. storage_saveBlock e destination)))"

definition MoveBlockFiles :: "Height \<Rightarrow> 's FileBlockStorage \<Rightarrow> 's FileBlockStorage
    \<Rightarrow> ('s FileBlockStorage \<times> 's FileBlockStorage) result" where
  "MoveBlockFiles startHeight source destination =
    (if startHeight < 1 then Inl invalid_argument
     else let destination = (if startHeight \<le> storage_chainHeight destination
              then storage_dropBlocksAfter (startHeight - 1) destination else destination);
              sourceHeight = storage_chainHeight source
          in bind_result
               (foldM (MoveBlockFiles_step source) (map of_nat [unat startHeight..<Suc (unat sourceHeight)]) destination)
               (\<lambda>destination. Inr (storage_purge source, destination)))"

section \<open>The storage cache\<close>

record 's BlockStorageCache =
  cache_storage :: "'s FileBlockStorage"
  cache_staging :: "'s FileBlockStorage"
  cache_cachedData :: "'s BlockElement option"

definition BlockStorageCache_new :: "'s FileBlockStorage \<Rightarrow> 's FileBlockStorage \<Rightarrow> 's BlockStorageCache result" where
  "BlockStorageCache_new storage staging =
    bind_result (storage_loadBlockElement (storage_chainHeight storage) storage)
      (\<lambda>e. Inr \<lparr>cache_storage = storage, cache_staging = staging, cache_cachedData = Some e\<rparr>)"

text \<open>The operations of a view. \<^verbatim>\<open>CachedData::contains\<close> dereferences the cached element.\<close>

definition view_chainHeight :: "'s BlockStorageCache \<Rightarrow> Height" where
  "view_chainHeight c = (case cache_cachedData c of None \<Rightarrow> 0 | Some e \<Rightarrow> block_Height (element_Block e))"

definition view_loadHashesFrom :: "Height \<Rightarrow> nat \<Rightarrow> 's BlockStorageCache \<Rightarrow> Hash256 list result" where
  "view_loadHashesFrom height maxHashes c = loadHashesFrom (cache_storage c) height maxHashes"

definition view_loadBlockElement :: "Height \<Rightarrow> 's BlockStorageCache \<Rightarrow> 's BlockElement result" where
  "view_loadBlockElement height c =
    (if \<not> height \<le> view_chainHeight c then Inl invalid_argument
     else case cache_cachedData c of None \<Rightarrow> Inl undefined_behaviour
       | Some e \<Rightarrow> if height = block_Height (element_Block e) then Inr e
           else storage_loadBlockElement height (cache_storage c))"

definition view_loadBlock :: "Height \<Rightarrow> 's BlockStorageCache \<Rightarrow> Block result" where
  "view_loadBlock height c =
    (if \<not> height \<le> view_chainHeight c then Inl invalid_argument
     else case cache_cachedData c of None \<Rightarrow> Inl undefined_behaviour
       | Some e \<Rightarrow> if height = block_Height (element_Block e) then Inr (element_Block e)
           else storage_loadBlock height (cache_storage c))"

definition view_loadBlockStatementData :: "Height \<Rightarrow> 's BlockStorageCache \<Rightarrow> 's list option result" where
  "view_loadBlockStatementData height c =
    (if \<not> height \<le> view_chainHeight c then Inl invalid_argument
     else storage_loadBlockStatementData height (cache_storage c))"

text \<open>A modifier carries the height from which staged blocks are moved.\<close>

type_synonym 's modifier = "'s BlockStorageCache \<times> Height"

definition modifier_dropBlocksAfter :: "Height \<Rightarrow> 's modifier \<Rightarrow> 's modifier" where
  "modifier_dropBlocksAfter height m =
    ((fst m)\<lparr>cache_staging := storage_dropBlocksAfter height (cache_staging (fst m))\<rparr>, height)"

definition modifier_new :: "'s BlockStorageCache \<Rightarrow> 's modifier" where
  "modifier_new c = modifier_dropBlocksAfter (storage_chainHeight (cache_storage c)) (c, 0)"

definition modifier_saveBlock :: "'s BlockElement \<Rightarrow> 's modifier \<Rightarrow> 's modifier result" where
  "modifier_saveBlock e m =
    bind_result (storage_saveBlock e (cache_staging (fst m)))
      (\<lambda>staging. Inr ((fst m)\<lparr>cache_staging := staging\<rparr>, snd m))"

definition modifier_saveBlocks :: "'s BlockElement list \<Rightarrow> 's modifier \<Rightarrow> 's modifier result" where
  "modifier_saveBlocks es m = foldM modifier_saveBlock es m"

definition modifier_commit :: "'s modifier \<Rightarrow> 's BlockStorageCache result" where
  "modifier_commit m =
    bind_result (MoveBlockFiles (snd m + 1) (cache_staging (fst m)) (cache_storage (fst m)))
      (\<lambda>(staging, storage).
        let c = (fst m)\<lparr>cache_storage := storage, cache_staging := staging\<rparr>;
            newChainHeight = storage_chainHeight storage
        in if newChainHeight > 0
           then bind_result (storage_loadBlockElement newChainHeight storage)
             (\<lambda>e. Inr (c\<lparr>cache_cachedData := Some e\<rparr>))
           else Inr (c\<lparr>cache_cachedData := None\<rparr>))"


section \<open>The chain that a storage holds\<close>

text \<open>
  \<open>holds_from k s es\<close>: the storage holds the elements \<open>es\<close> at the heights above \<open>k\<close>, each with its hash when hashes
  are indexed and with its statement when it has one. The primary storage holds a chain from zero,
  the staging storage from the last common block on. Statements are written for all blocks or for none, as the
  configuration of a network says: the statement of a height that is followed by one without is not readable alone.
\<close>

definition stored :: "nat \<Rightarrow> 's FileBlockStorage \<Rightarrow> 's BlockElement \<Rightarrow> bool" where
  "stored k s e \<longleftrightarrow>
     database_has (storage_batchSize s) (Suc k) (storage_blocks s) (unat (block_Height (element_Block e)))
       [e\<lparr>element_OptionalStatement := None\<rparr>]
     \<and> (storage_Hash_Index s \<longrightarrow> storage_hashFile s (block_Height (element_Block e)) = element_EntityHash e)
     \<and> (\<forall>st. element_OptionalStatement e = Some st \<longrightarrow>
          database_has (storage_batchSize s) (Suc k) (storage_statements s) (unat (block_Height (element_Block e))) [st])"

definition heights_above :: "nat \<Rightarrow> 's BlockElement list \<Rightarrow> bool" where
  "heights_above k es \<longleftrightarrow> map (unat \<circ> block_Height \<circ> element_Block) es = [Suc k..<Suc k + length es]"

definition uniform_statements :: "'s BlockElement list \<Rightarrow> bool" where
  "uniform_statements es \<longleftrightarrow>
     (\<forall>e \<in> set es. element_OptionalStatement e \<noteq> None) \<or> (\<forall>e \<in> set es. element_OptionalStatement e = None)"

definition holds_from :: "nat \<Rightarrow> 's FileBlockStorage \<Rightarrow> 's BlockElement list \<Rightarrow> bool" where
  "holds_from k s es \<longleftrightarrow> storage_indexFile s = Some (of_nat (k + length es)) \<and> k + length es < 2 ^ 64 - 1
     \<and> database_wf (storage_batchSize s) (Suc k) (storage_blocks s)
     \<and> database_wf (storage_batchSize s) (Suc k) (storage_statements s)
     \<and> heights_above k es \<and> (\<forall>e \<in> set es. stored k s e)"

definition staged :: "nat \<Rightarrow> 's FileBlockStorage \<Rightarrow> 's BlockElement list \<Rightarrow> bool" where
  "staged k s es \<longleftrightarrow> holds_from k s es \<and> \<not> storage_Hash_Index s \<and> uniform_statements es
     \<and> ((\<forall>e \<in> set es. element_OptionalStatement e = None) \<longrightarrow> storage_statements s = (\<lambda>_. None))"

lemma heights_above_Nil [simp]: "heights_above k []"
  by (simp add: heights_above_def)

lemma heights_above_Cons:
  "heights_above k (e # es) \<longleftrightarrow> unat (block_Height (element_Block e)) = Suc k \<and> heights_above (Suc k) es"
  by (simp add: heights_above_def upt_conv_Cons del: upt_Suc)

lemma heights_above_append:
  "heights_above k (es @ fs) \<longleftrightarrow> heights_above k es \<and> heights_above (k + length es) fs"
  by (induction es arbitrary: k) (auto simp: heights_above_Cons)

lemma heights_above_bounds:
  "heights_above k es \<Longrightarrow> e \<in> set es
    \<Longrightarrow> k < unat (block_Height (element_Block e)) \<and> unat (block_Height (element_Block e)) \<le> k + length es"
  by (induction es arbitrary: k) (fastforce simp: heights_above_Cons)+

lemma uniform_statements_append: "uniform_statements (es @ fs) \<Longrightarrow> uniform_statements es \<and> uniform_statements fs"
  by (auto simp: uniform_statements_def)

lemma storage_chainHeight_of:
  "holds_from k s es \<Longrightarrow> unat (storage_chainHeight s) = k + length es"
  by (simp add: holds_from_def storage_chainHeight_def unat_of_nat del: of_nat_add)

text \<open>The last element of a run makes the next id writable in both databases.\<close>

lemma holds_from_tip:
  assumes "holds_from k s es" and "es \<noteq> []"
  shows "unat (block_Height (element_Block (last es))) = k + length es \<and> stored k s (last es)"
  using assms by (cases es rule: rev_cases) (auto simp: holds_from_def heights_above_append heights_above_Cons)

definition saved_blocks :: "'s BlockElement \<Rightarrow> 's FileBlockStorage \<Rightarrow> 's BlockElement FileDatabase" where
  "saved_blocks e s = outputStream (storage_batchSize s) (unat (block_Height (element_Block e)))
     [e\<lparr>element_OptionalStatement := None\<rparr>] (storage_blocks s)"

definition saved_statements :: "'s BlockElement \<Rightarrow> 's FileBlockStorage \<Rightarrow> 's FileDatabase" where
  "saved_statements e s = (case element_OptionalStatement e of None \<Rightarrow> storage_statements s
     | Some st \<Rightarrow> outputStream (storage_batchSize s) (unat (block_Height (element_Block e))) [st] (storage_statements s))"

definition saved_hashes :: "'s BlockElement \<Rightarrow> 's FileBlockStorage \<Rightarrow> Height \<Rightarrow> Hash256" where
  "saved_hashes e s = (if storage_Hash_Index s
     then (storage_hashFile s)(block_Height (element_Block e) := element_EntityHash e) else storage_hashFile s)"

lemma storage_saveBlock_eq:
  assumes "block_Height (element_Block e) = storage_chainHeight s + 1"
    and "storage_chainHeight s < block_Height (element_Block e)"
  shows "storage_saveBlock e s = Inr (s\<lparr>storage_indexFile := Some (block_Height (element_Block e)),
    storage_hashFile := saved_hashes e s, storage_blocks := saved_blocks e s,
    storage_statements := saved_statements e s\<rparr>)"
  using assms by (simp add: storage_saveBlock_def Let_def saved_blocks_def saved_statements_def saved_hashes_def
      split: option.splits)

lemma saved_blocks_run:
  assumes "holds_from k s es" and "unat (block_Height (element_Block e)) = Suc (k + length es)"
  shows "database_wf (storage_batchSize s) (Suc k) (saved_blocks e s)
    \<and> database_has (storage_batchSize s) (Suc k) (saved_blocks e s) (Suc (k + length es)) [e\<lparr>element_OptionalStatement := None\<rparr>]
    \<and> (\<forall>j < Suc (k + length es). \<forall>q. database_has (storage_batchSize s) (Suc k) (storage_blocks s) j q
        \<longrightarrow> database_has (storage_batchSize s) (Suc k) (saved_blocks e s) j q)"
  unfolding saved_blocks_def assms(2)
proof (rule database_write)
  show "Suc (k + length es) = Suc k \<or> (\<exists>q. database_has (storage_batchSize s) (Suc k) (storage_blocks s) (Suc (k + length es) - 1) q)"
    using holds_from_tip [OF assms(1)] by (cases "es = []") (auto simp: stored_def)
qed (use assms(1) in \<open>simp_all add: holds_from_def\<close>)

lemma saved_statements_run:
  assumes "holds_from k s es" and "unat (block_Height (element_Block e)) = Suc (k + length es)"
    and "uniform_statements (es @ [e])"
  shows "database_wf (storage_batchSize s) (Suc k) (saved_statements e s)
    \<and> (\<forall>st. element_OptionalStatement e = Some st \<longrightarrow>
        database_has (storage_batchSize s) (Suc k) (saved_statements e s) (Suc (k + length es)) [st])
    \<and> (\<forall>j < Suc (k + length es). \<forall>q. database_has (storage_batchSize s) (Suc k) (storage_statements s) j q
        \<longrightarrow> database_has (storage_batchSize s) (Suc k) (saved_statements e s) j q)"
proof (cases "element_OptionalStatement e")
  case None
  then show ?thesis using assms(1) by (simp add: saved_statements_def holds_from_def)
next
  case (Some st)
  have wf: "database_wf (storage_batchSize s) (Suc k) (storage_statements s)" using assms(1) by (simp add: holds_from_def)
  have "Suc (k + length es) = Suc k
      \<or> (\<exists>q. database_has (storage_batchSize s) (Suc k) (storage_statements s) (Suc (k + length es) - 1) q)"
  proof (cases "es = []")
    case False
    then have "element_OptionalStatement (last es) \<noteq> None"
      using assms(3) Some last_in_set [OF False] unfolding uniform_statements_def by (metis Un_iff list.set_intros(1) option.discI set_append)
    then show ?thesis using holds_from_tip [OF assms(1) False] by (auto simp: stored_def)
  qed simp
  from database_write [OF wf _ this, of "[st]"] show ?thesis
    by (simp add: saved_statements_def Some assms(2))
qed

lemma storage_saveBlock_holds:
  assumes "holds_from k s es" and "unat (block_Height (element_Block e)) = Suc (k + length es)"
    and "Suc (k + length es) < 2 ^ 64 - 1" and u: "uniform_statements (es @ [e])"
  shows "\<exists>s'. storage_saveBlock e s = Inr s' \<and> holds_from k s' (es @ [e])
    \<and> (staged k s es \<longrightarrow> staged k s' (es @ [e]))"
proof -
  have n: "unat (storage_chainHeight s) = k + length es" using assms(1) by (rule storage_chainHeight_of)
  then have h: "block_Height (element_Block e) = storage_chainHeight s + 1"
    using assms(2,3) by (simp add: word_unat_eq_iff unat_word_ariths)
  have lt: "storage_chainHeight s < block_Height (element_Block e)"
    using n assms(2) by (simp add: word_less_nat_alt)
  define s' where "s' = s\<lparr>storage_indexFile := Some (block_Height (element_Block e)),
    storage_hashFile := saved_hashes e s, storage_blocks := saved_blocks e s,
    storage_statements := saved_statements e s\<rparr>"
  note runs = saved_blocks_run [OF assms(1,2)] saved_statements_run [OF assms(1,2) u]
  have new: "stored k s' e" using runs assms(2) by (simp add: stored_def s'_def saved_hashes_def)
  have old: "stored k s' f" if f: "f \<in> set es" for f
  proof -
    have "stored k s f" and lt: "unat (block_Height (element_Block f)) < Suc (k + length es)"
      using f assms(1) heights_above_bounds [of k es f] by (auto simp: holds_from_def)
    moreover have "block_Height (element_Block f) \<noteq> block_Height (element_Block e)" using lt assms(2) by auto
    ultimately show ?thesis using runs by (simp add: stored_def s'_def saved_hashes_def)
  qed
  have "block_Height (element_Block e) = of_nat (Suc (k + length es))"
    unfolding assms(2) [symmetric] by simp
  then have "holds_from k s' (es @ [e])"
    using assms(1-3) new old runs by (auto simp: holds_from_def heights_above_append heights_above_Cons s'_def)
  moreover have "staged k s' (es @ [e])" if "staged k s es"
    using that calculation u by (auto simp: staged_def s'_def saved_statements_def split: option.splits)
  ultimately show ?thesis using storage_saveBlock_eq [OF h lt] by (simp add: s'_def)
qed

lemma heights_above_take: "heights_above k es \<Longrightarrow> heights_above k (take n es)"
  using heights_above_append [of k "take n es" "drop n es"] by simp

lemma storage_drop_holds:
  assumes "holds_from 0 s es" and "n \<le> length es"
  shows "holds_from 0 (storage_dropBlocksAfter (of_nat n) s) (take n es)"
  using assms heights_above_take [of 0 es n]
  by (auto simp: holds_from_def storage_dropBlocksAfter_def stored_def min_absorb2 dest: in_set_takeD)

lemma storage_load_holds:
  assumes "holds_from k s es" and "e \<in> set es"
  shows "storage_loadBlockElement (block_Height (element_Block e)) s = Inr (e\<lparr>element_OptionalStatement := None\<rparr>)"
    and "staged k s es \<Longrightarrow> storage_loadBlockStatementData (block_Height (element_Block e)) s
      = Inr (map_option (\<lambda>st. [st]) (element_OptionalStatement e))"
proof -
  have h: "block_Height (element_Block e) \<le> storage_chainHeight s"
    using assms heights_above_bounds [of k es e] storage_chainHeight_of [OF assms(1)]
    by (auto simp: holds_from_def word_le_nat_alt)
  have st: "stored k s e" using assms by (simp add: holds_from_def)
  then have "inputStream (storage_batchSize s) (unat (block_Height (element_Block e))) (storage_blocks s)
      = Inr [e\<lparr>element_OptionalStatement := None\<rparr>]"
    unfolding stored_def by (blast intro: database_has_read)
  then show "storage_loadBlockElement (block_Height (element_Block e)) s = Inr (e\<lparr>element_OptionalStatement := None\<rparr>)"
    using h by (simp add: storage_loadBlockElement_def storage_requireHeight_def)
  show "storage_loadBlockStatementData (block_Height (element_Block e)) s
      = Inr (map_option (\<lambda>st. [st]) (element_OptionalStatement e))" if staged: "staged k s es"
  proof (cases "element_OptionalStatement e")
    case None
    then have "storage_statements s = (\<lambda>_. None)" using staged assms(2) by (auto simp: staged_def uniform_statements_def)
    then show ?thesis using None h by (simp add: storage_loadBlockStatementData_def storage_requireHeight_def)
  next
    case (Some x)
    then have "database_has (storage_batchSize s) (Suc k) (storage_statements s) (unat (block_Height (element_Block e))) [x]"
      using st by (simp add: stored_def)
    from database_has_read [OF this] database_has_contains [OF this] show ?thesis
      using Some h by (simp add: storage_loadBlockStatementData_def storage_requireHeight_def)
  qed
qed

lemma MoveBlockFiles_step_holds:
  assumes "staged k source es" and "e \<in> set es" and "holds_from 0 d ds" and "uniform_statements (ds @ [e])"
    and "unat (block_Height (element_Block e)) = Suc (length ds)" and "Suc (length ds) < 2 ^ 64 - 1"
  shows "\<exists>d'. MoveBlockFiles_step source (block_Height (element_Block e)) d = Inr d' \<and> holds_from 0 d' (ds @ [e])"
proof -
  have h: "holds_from k source es" using assms(1) by (simp add: staged_def)
  have "MoveBlockFiles_step source (block_Height (element_Block e)) d = storage_saveBlock e d"
  proof (cases "element_OptionalStatement e")
    case None
    from None have eq: "e\<lparr>element_OptionalStatement := None\<rparr> = e" by (cases e) simp
    show ?thesis
      using storage_load_holds(1) [OF h assms(2)] storage_load_holds(2) [OF h assms(2) assms(1)]
      by (simp add: MoveBlockFiles_step_def eq None)
  next
    case (Some x)
    from Some have eq: "e\<lparr>element_OptionalStatement := Some x\<rparr> = e" by (cases e) simp
    show ?thesis
      using storage_load_holds(1) [OF h assms(2)] storage_load_holds(2) [OF h assms(2) assms(1)]
      by (simp add: MoveBlockFiles_step_def eq Some)
  qed
  then show ?thesis using storage_saveBlock_holds [OF assms(3) _ _ assms(4)] assms(5,6) by auto
qed

lemma MoveBlockFiles_loop:
  assumes "staged k source es"
  shows "set fs \<subseteq> set es \<Longrightarrow> holds_from 0 d ds \<Longrightarrow> heights_above (length ds) fs \<Longrightarrow> length ds + length fs < 2 ^ 64 - 1
    \<Longrightarrow> uniform_statements (ds @ fs)
    \<Longrightarrow> \<exists>d'. foldM (MoveBlockFiles_step source) (map (block_Height \<circ> element_Block) fs) d = Inr d' \<and> holds_from 0 d' (ds @ fs)"
proof (induction fs arbitrary: d ds)
  case (Cons f fs)
  obtain d1 where "MoveBlockFiles_step source (block_Height (element_Block f)) d = Inr d1" "holds_from 0 d1 (ds @ [f])"
    using MoveBlockFiles_step_holds [OF assms, of f d ds] Cons.prems uniform_statements_append [of "ds @ [f]" fs]
    by (auto simp: heights_above_Cons)
  moreover from Cons.IH [OF _ this(2)] obtain d' where
    "foldM (MoveBlockFiles_step source) (map (block_Height \<circ> element_Block) fs) d1 = Inr d'" "holds_from 0 d' ((ds @ [f]) @ fs)"
    using Cons.prems by (auto simp: heights_above_Cons simp del: comp_apply)
  ultimately show ?case by (simp add: comp_def)
qed simp

lemma heights_as_words:
  assumes "heights_above k es"
  shows "map of_nat [Suc k..<Suc (k + length es)] = map (block_Height \<circ> element_Block) es"
proof -
  have "map of_nat [Suc k..<Suc (k + length es)] = map of_nat (map (unat \<circ> block_Height \<circ> element_Block) es)"
    using assms by (simp add: heights_above_def)
  also have "\<dots> = map (block_Height \<circ> element_Block) es" by (simp add: comp_def)
  finally show ?thesis .
qed

lemma MoveBlockFiles_holds:
  assumes st: "staged k source es" and d: "holds_from 0 d chain" and k: "k \<le> length chain"
    and u: "uniform_statements (chain @ es)"
  shows "\<exists>d'. MoveBlockFiles (of_nat k + 1) source d = Inr (storage_purge source, d') \<and> holds_from 0 d' (take k chain @ es)"
proof -
  have h: "holds_from k source es" using st by (simp add: staged_def)
  then have len: "k + length es < 2 ^ 64 - 1" and ha: "heights_above k es" by (auto simp: holds_from_def)
  have un: "unat (of_nat k + 1 :: u64) = Suc k" using len by (simp add: unat_word_ariths unat_of_nat)
  have u': "uniform_statements (take k chain @ es)" using u by (auto simp: uniform_statements_def dest: in_set_takeD)
  define d1 where "d1 = (if of_nat k + 1 \<le> storage_chainHeight d then storage_dropBlocksAfter (of_nat k) d else d)"
  have "holds_from 0 d1 (take k chain)"
  proof (cases "of_nat k + 1 \<le> storage_chainHeight d")
    case True
    then show ?thesis using storage_drop_holds [OF d k] by (simp add: d1_def)
  next
    case False
    then have "k = length chain" using k un storage_chainHeight_of [OF d] by (simp add: word_le_nat_alt)
    then show ?thesis using d False by (simp add: d1_def)
  qed
  then obtain d' where d': "foldM (MoveBlockFiles_step source) (map (block_Height \<circ> element_Block) es) d1 = Inr d'"
    "holds_from 0 d' (take k chain @ es)"
    using MoveBlockFiles_loop [OF st, of es d1 "take k chain"] ha len k u' by (auto simp: min_absorb2)
  have "\<not> of_nat k + 1 < (1 :: u64)" using un by (simp add: word_less_nat_alt)
  then have "MoveBlockFiles (of_nat k + 1) source d = Inr (storage_purge source, d')"
    using d' heights_as_words [OF ha] un storage_chainHeight_of [OF h]
    by (cases "of_nat k + 1 \<le> storage_chainHeight d") (simp_all add: MoveBlockFiles_def Let_def d1_def del: upt_Suc)
  then show ?thesis using d'(2) by blast
qed

section \<open>Two-phase commit\<close>

text \<open>Between two commits the staging directory has no files.\<close>

definition staging_clean :: "'s BlockStorageCache \<Rightarrow> bool" where
  "staging_clean c \<longleftrightarrow> 0 < storage_batchSize (cache_staging c) \<and> \<not> storage_Hash_Index (cache_staging c)
     \<and> storage_blocks (cache_staging c) = (\<lambda>_. None) \<and> storage_statements (cache_staging c) = (\<lambda>_. None)"

lemma modifier_saveBlocks_staged:
  "staged k (cache_staging (fst m)) es \<Longrightarrow> heights_above (k + length es) fs \<Longrightarrow> k + length es + length fs < 2 ^ 64 - 1
    \<Longrightarrow> uniform_statements (es @ fs)
    \<Longrightarrow> \<exists>staging. modifier_saveBlocks fs m = Inr ((fst m)\<lparr>cache_staging := staging\<rparr>, snd m) \<and> staged k staging (es @ fs)"
proof (induction fs arbitrary: m es)
  case Nil
  then show ?case by (intro exI [of _ "cache_staging (fst m)"]) (simp add: modifier_saveBlocks_def)
next
  case (Cons f fs)
  have u: "uniform_statements (es @ [f])" using Cons.prems(4) uniform_statements_append [of "es @ [f]" fs] by simp
  have hf: "unat (block_Height (element_Block f)) = Suc (k + length es)" using Cons.prems(2) by (simp add: heights_above_Cons)
  obtain s1 where s1: "storage_saveBlock f (cache_staging (fst m)) = Inr s1" "staged k s1 (es @ [f])"
    using storage_saveBlock_holds [OF _ hf _ u] Cons.prems(1,3) by (auto simp: staged_def)
  let ?m = "((fst m)\<lparr>cache_staging := s1\<rparr>, snd m)"
  obtain staging where "modifier_saveBlocks fs ?m = Inr ((fst ?m)\<lparr>cache_staging := staging\<rparr>, snd ?m)"
    "staged k staging ((es @ [f]) @ fs)"
    using Cons.IH [of ?m "es @ [f]"] s1(2) Cons.prems by (auto simp: heights_above_Cons)
  then show ?case using s1(1) by (auto simp: modifier_saveBlocks_def modifier_saveBlock_def)
qed

lemma staged_start:
  assumes "staging_clean c" and "k < 2 ^ 64 - 1"
  shows "staged k (cache_staging (fst (modifier_dropBlocksAfter (of_nat k) (modifier_new c)))) []"
  using assms by (simp add: staged_def holds_from_def modifier_dropBlocksAfter_def modifier_new_def
      storage_dropBlocksAfter_def staging_clean_def uniform_statements_def database_wf_empty)

lemma commit_suffix:
  assumes chain: "holds_from 0 (cache_storage c) chain" and clean: "staging_clean c"
    and k: "common \<le> length chain" and es: "heights_above common es" "es \<noteq> []" "common + length es < 2 ^ 64 - 1"
    and u: "uniform_statements (chain @ es)"
  shows "\<exists>m c'. modifier_saveBlocks es (modifier_dropBlocksAfter (of_nat common) (modifier_new c)) = Inr m
    \<and> cache_storage (fst m) = cache_storage c \<and> cache_cachedData (fst m) = cache_cachedData c
    \<and> modifier_commit m = Inr c' \<and> holds_from 0 (cache_storage c') (take common chain @ es)
    \<and> staging_clean c' \<and> cache_cachedData c' = Some ((last es)\<lparr>element_OptionalStatement := None\<rparr>)"
proof -
  let ?m = "modifier_dropBlocksAfter (of_nat common) (modifier_new c)"
  obtain staging where save: "modifier_saveBlocks es ?m = Inr ((fst ?m)\<lparr>cache_staging := staging\<rparr>, snd ?m)"
    and st: "staged common staging es"
    using modifier_saveBlocks_staged [of common ?m "[]" es] staged_start [OF clean, of common] es uniform_statements_append [OF u] by auto
  obtain d where mv: "MoveBlockFiles (of_nat common + 1) staging (cache_storage c) = Inr (storage_purge staging, d)"
    and d: "holds_from 0 d (take common chain @ es)"
    using MoveBlockFiles_holds [OF st chain k u] by blast
  have len: "unat (storage_chainHeight d) = common + length es" using storage_chainHeight_of [OF d] k by simp
  have tip: "last es \<in> set (take common chain @ es)" using es(2) by simp
  have "unat (block_Height (element_Block (last es))) = common + length es"
    using es(1,2) by (cases es rule: rev_cases) (auto simp: heights_above_append heights_above_Cons)
  then have "storage_chainHeight d = block_Height (element_Block (last es))"
    using len by (simp add: word_unat_eq_iff)
  then have load: "storage_loadBlockElement (storage_chainHeight d) d = Inr ((last es)\<lparr>element_OptionalStatement := None\<rparr>)"
    using storage_load_holds(1) [OF d tip] by simp
  have "0 < storage_batchSize staging \<and> \<not> storage_Hash_Index staging"
    using st by (simp add: staged_def holds_from_def database_wf_def)
  moreover have "0 < storage_chainHeight d" using len es(2) by (simp add: word_less_nat_alt)
  ultimately show ?thesis
    using save mv d load
    by (auto simp: modifier_commit_def modifier_dropBlocksAfter_def modifier_new_def Let_def staging_clean_def storage_purge_def)
qed

text \<open>
  C13. The two-phase commit of the block storage replaces the blocks above a common block by new
  ones and nothing else. While new blocks are dropped and saved through a modifier, the primary storage is
  unchanged; after the commit it holds the blocks up to the common one followed by the new ones, with their
  hashes and statements, the staging area is empty again, and the cached tip is the last new block.
\<close>

theorem commit_replaces_suffix:
  assumes chain: "holds_from 0 (cache_storage c) chain" and clean: "staging_clean c"
    and k: "common \<le> length chain" and es: "heights_above common es" "es \<noteq> []" "common + length es < 2 ^ 64 - 1"
    and u: "uniform_statements (chain @ es)"
  shows "\<exists>m c'. modifier_saveBlocks es (modifier_dropBlocksAfter (of_nat common) (modifier_new c)) = Inr m
    \<and> cache_storage (fst m) = cache_storage c \<and> cache_cachedData (fst m) = cache_cachedData c
    \<and> modifier_commit m = Inr c' \<and> holds_from 0 (cache_storage c') (take common chain @ es)
    \<and> staging_clean c' \<and> cache_cachedData c' = Some ((last es)\<lparr>element_OptionalStatement := None\<rparr>)"
  using assms by (rule commit_suffix)

definition sample_storage :: "bool \<Rightarrow> string FileBlockStorage" where
  "sample_storage index = \<lparr>storage_Hash_Index = index, storage_indexFile = Some 0, storage_hashFile = (\<lambda>_. []),
     storage_batchSize = 2, storage_blocks = (\<lambda>_. None), storage_statements = (\<lambda>_. None)\<rparr>"

definition sample_element :: "Height \<Rightarrow> u32 \<Rightarrow> string BlockElement" where
  "sample_element height fee = \<lparr>element_Block = \<lparr>block_SignerPublicKey = [], block_Type = 0, block_Height = height,
       block_Timestamp = 0, block_Difficulty = 0, block_PreviousBlockHash = [], block_FeeMultiplier = fee,
       block_GenerationHashProof = [], block_ReceiptsHash = [], block_StateHash = [], block_PreviousImportanceBlockHash = []\<rparr>, element_EntityHash = [1], element_GenerationHash = [],
     element_SubCacheMerkleRoots = [], element_Transactions = [], element_OptionalStatement = Some ''receipts''\<rparr>"

definition sample_chain :: "string FileBlockStorage" where
  "sample_chain = projr (foldM storage_saveBlock [sample_element 1 0, sample_element 2 0] (sample_storage True))"

lemma sample_storage_holds: "holds_from 0 (sample_storage index) []"
  by (simp add: holds_from_def sample_storage_def database_wf_empty)

lemma sample_chain_holds: "holds_from 0 sample_chain [sample_element 1 0, sample_element 2 0]"
proof -
  have u: "uniform_statements ([] @ [sample_element 1 0])" "uniform_statements ([sample_element 1 0] @ [sample_element 2 0])"
    by (simp_all add: uniform_statements_def sample_element_def)
  obtain s where s: "storage_saveBlock (sample_element 1 0) (sample_storage True) = Inr s" "holds_from 0 s [sample_element 1 0]"
    using storage_saveBlock_holds [OF sample_storage_holds _ _ u(1)] by (auto simp: sample_element_def)
  obtain t where "storage_saveBlock (sample_element 2 0) s = Inr t" "holds_from 0 t [sample_element 1 0, sample_element 2 0]"
    using storage_saveBlock_holds [OF s(2) _ _ u(2)] by (auto simp: sample_element_def)
  then show ?thesis using s(1) by (simp add: sample_chain_def)
qed

theorem commit_replaces_suffix_witness:
  "\<exists>m c'. modifier_saveBlocks [sample_element 2 7, sample_element 3 8] (modifier_dropBlocksAfter 1 (modifier_new
      \<lparr>cache_storage = sample_chain, cache_staging = sample_storage False, cache_cachedData = None\<rparr>)) = Inr m
    \<and> modifier_commit m = Inr c'
    \<and> holds_from 0 (cache_storage c') [sample_element 1 0, sample_element 2 7, sample_element 3 8]"
proof -
  let ?c = "\<lparr>cache_storage = sample_chain, cache_staging = sample_storage False, cache_cachedData = None\<rparr>"
  have "staging_clean ?c" by (simp add: staging_clean_def sample_storage_def)
  moreover have "heights_above 1 [sample_element 2 7, sample_element 3 8]"
    by (simp add: heights_above_Cons) (simp add: sample_element_def)
  moreover have "uniform_statements ([sample_element 1 0, sample_element 2 0] @ [sample_element 2 7, sample_element 3 8])"
    by (simp add: uniform_statements_def sample_element_def)
  ultimately show ?thesis
    using commit_replaces_suffix [of ?c "[sample_element 1 0, sample_element 2 0]" 1 "[sample_element 2 7, sample_element 3 8]"]
      sample_chain_holds by auto
qed

end
