(* ===== verification/Tree_Path.thy ===== *)
theory Tree_Path
  imports Prelude
begin

unbundle bit_operations_syntax

text \<open>
  The paths of patricia trees (\<^verbatim>\<open>tree/TreeNodePath.cpp\<close>): sequences of nibbles that are stored packed, two in
  a byte, and that may start in the middle of a byte. An access to the byte vector outside of its range is
  undefined in C++ and is the value \<^const>\<open>undefined_behaviour\<close> here; so is the allocation with the wrapped size
  that \<^verbatim>\<open>subpath\<close> asks for when its offset is larger than the path. The lemmas relate every operation to the
  list of nibbles that a path stands for and show that paths in good shape never run into these cases.
\<close>

section \<open>Operations\<close>

record TreeNodePath =
  path_size :: nat
  path_adjustment :: nat
  path_bytes :: bytes

definition CalculateByteSize :: "nat \<Rightarrow> nat \<Rightarrow> nat" where
  "CalculateByteSize offset len = len div 2 + (if 0 = offset mod 2 \<and> 0 = len mod 2 then 0 else 1)"

definition TreeNodePath_empty :: TreeNodePath where
  "TreeNodePath_empty = \<lparr>path_size = 0, path_adjustment = 0, path_bytes = []\<rparr>"

definition TreeNodePath_new :: "bytes \<Rightarrow> nat \<Rightarrow> nat \<Rightarrow> TreeNodePath result" where
  "TreeNodePath_new path offset len =
    (let n = CalculateByteSize offset len; p = \<lparr>path_size = len, path_adjustment = offset mod 2, path_bytes = replicate n 0\<rparr> in
     if 0 = len then Inr p
     else if offset div 2 + n \<le> length path
       then Inr (p\<lparr>path_bytes := take n (drop (offset div 2) path)\<rparr>)
       else Inl undefined_behaviour)"

text \<open>The constructor from a container of bytes takes all of its nibbles.\<close>

definition TreeNodePath_of :: "bytes \<Rightarrow> TreeNodePath" where
  "TreeNodePath_of key = \<lparr>path_size = 2 * length key, path_adjustment = 0, path_bytes = key\<rparr>"

definition path_empty :: "TreeNodePath \<Rightarrow> bool" where
  "path_empty p \<longleftrightarrow> 0 = path_size p"

definition byte_nibble :: "nat \<Rightarrow> u8 \<Rightarrow> u8" where
  "byte_nibble index byte = (if 0 = index mod 2 then drop_bit 4 (byte AND 0xF0) else byte AND 0x0F)"

definition nibbleAt :: "TreeNodePath \<Rightarrow> nat \<Rightarrow> u8 result" where
  "nibbleAt p index =
    (let index = index + path_adjustment p in
     if index div 2 < length (path_bytes p) then Inr (byte_nibble index (path_bytes p ! (index div 2)))
     else Inl undefined_behaviour)"

function FindFirstDifferenceIndex_from :: "TreeNodePath \<Rightarrow> TreeNodePath \<Rightarrow> nat \<Rightarrow> nat result" where
  "FindFirstDifferenceIndex_from lhs rhs index =
    (if index < path_size lhs \<and> index < path_size rhs
     then bind_result (nibbleAt lhs index) (\<lambda>a. bind_result (nibbleAt rhs index) (\<lambda>b.
       if a = b then FindFirstDifferenceIndex_from lhs rhs (index + 1) else Inr index))
     else Inr index)"
  by pat_completeness auto
termination by (relation "measure (\<lambda>(lhs, rhs, index). path_size lhs - index)") auto

declare FindFirstDifferenceIndex_from.simps [simp del]

definition path_difference :: "TreeNodePath \<Rightarrow> TreeNodePath \<Rightarrow> nat result" where
  "path_difference lhs rhs = FindFirstDifferenceIndex_from lhs rhs 0"

definition path_equal :: "TreeNodePath \<Rightarrow> TreeNodePath \<Rightarrow> bool result" where
  "path_equal lhs rhs =
    (if path_size lhs \<noteq> path_size rhs then Inr False
     else bind_result (path_difference lhs rhs) (\<lambda>d. Inr (path_size lhs = d)))"

definition subpath :: "TreeNodePath \<Rightarrow> nat \<Rightarrow> nat \<Rightarrow> TreeNodePath result" where
  "subpath p offset len = TreeNodePath_new (path_bytes p) (offset + path_adjustment p) len"

definition subpath_from :: "TreeNodePath \<Rightarrow> nat \<Rightarrow> TreeNodePath result" where
  "subpath_from p offset =
    (if offset \<le> path_size p then subpath p offset (path_size p - offset) else Inl undefined_behaviour)"

text \<open>\<^verbatim>\<open>JoinBuilder\<close>: the index of the next nibble and the bytes.\<close>

definition addNibble :: "u8 \<Rightarrow> nat \<times> bytes \<Rightarrow> (nat \<times> bytes) result" where
  "addNibble nibble b =
    (let (index, path) = b in
     if index div 2 < length path
     then Inr (index + 1, path[index div 2 := path ! (index div 2)
       OR (if 0 \<noteq> index mod 2 then nibble AND 0x0F else push_bit 4 nibble)])
     else Inl undefined_behaviour)"

definition addNibbles :: "TreeNodePath \<Rightarrow> nat \<times> bytes \<Rightarrow> (nat \<times> bytes) result" where
  "addNibbles p = foldM (\<lambda>i b. bind_result (nibbleAt p i) (\<lambda>nibble. addNibble nibble b)) [0..<path_size p]"

definition path_Join :: "TreeNodePath \<Rightarrow> TreeNodePath \<Rightarrow> TreeNodePath result" where
  "path_Join lhs rhs =
    (let joinedPathSize = path_size lhs + path_size rhs in
     bind_result (addNibbles lhs (0, replicate ((joinedPathSize + 1) div 2) 0)) (\<lambda>b.
     bind_result (addNibbles rhs b) (\<lambda>b.
     TreeNodePath_new (snd b) 0 joinedPathSize)))"

definition path_Join_nibble :: "TreeNodePath \<Rightarrow> u8 \<Rightarrow> TreeNodePath \<Rightarrow> TreeNodePath result" where
  "path_Join_nibble lhs nibble rhs =
    (let joinedPathSize = path_size lhs + 1 + path_size rhs in
     bind_result (addNibbles lhs (0, replicate ((joinedPathSize + 1) div 2) 0)) (\<lambda>b.
     bind_result (addNibble nibble b) (\<lambda>b.
     bind_result (addNibbles rhs b) (\<lambda>b.
     TreeNodePath_new (snd b) 0 joinedPathSize))))"

section \<open>Paths as lists of nibbles\<close>

definition bytes_nibble :: "bytes \<Rightarrow> nat \<Rightarrow> u8" where
  "bytes_nibble bs i = byte_nibble i (bs ! (i div 2))"

definition path_ok :: "TreeNodePath \<Rightarrow> bool" where
  "path_ok p \<longleftrightarrow> path_adjustment p \<le> 1 \<and> path_size p + path_adjustment p \<le> 2 * length (path_bytes p)"

definition nibbles :: "TreeNodePath \<Rightarrow> u8 list" where
  "nibbles p = map (\<lambda>i. bytes_nibble (path_bytes p) (i + path_adjustment p)) [0..<path_size p]"

lemma length_nibbles [simp]: "length (nibbles p) = path_size p"
  by (simp add: nibbles_def)

lemma path_ok_empty [simp]: "path_ok TreeNodePath_empty" "nibbles TreeNodePath_empty = []"
  by (simp_all add: path_ok_def nibbles_def TreeNodePath_empty_def)

lemma path_ok_of [simp]: "path_ok (TreeNodePath_of key)"
  by (simp add: path_ok_def TreeNodePath_of_def)

lemma path_size_of [simp]: "path_size (TreeNodePath_of key) = 2 * length key"
  by (simp add: TreeNodePath_of_def)

lemma nibbleAt_ok:
  assumes "path_ok p" and "i < path_size p"
  shows "nibbleAt p i = Inr (nibbles p ! i)"
proof -
  have "i + path_adjustment p < length (path_bytes p) * 2" using assms by (simp add: path_ok_def)
  then have "(i + path_adjustment p) div 2 < length (path_bytes p)" by (rule less_mult_imp_div_less)
  then show ?thesis using assms(2) by (simp add: nibbleAt_def Let_def nibbles_def bytes_nibble_def)
qed

text \<open>The first index at which two lists differ.\<close>

fun difference :: "'a list \<Rightarrow> 'a list \<Rightarrow> nat" where
  "difference (x # xs) (y # ys) = (if x = y then Suc (difference xs ys) else 0)"
| "difference _ _ = 0"

lemma difference_le: "difference xs ys \<le> length xs" "difference xs ys \<le> length ys"
  by (induction xs ys rule: difference.induct) auto

lemma difference_take: "take (difference xs ys) xs = take (difference xs ys) ys"
  by (induction xs ys rule: difference.induct) auto

lemma difference_nth: "difference xs ys < length xs \<Longrightarrow> difference xs ys < length ys
    \<Longrightarrow> xs ! difference xs ys \<noteq> ys ! difference xs ys"
  by (induction xs ys rule: difference.induct) auto

lemma difference_prefix: "difference xs ys = length xs \<longleftrightarrow> take (length xs) ys = xs"
  by (induction xs ys rule: difference.induct) auto

lemma difference_Nil2 [simp]: "difference xs [] = 0"
  by (cases xs) auto

lemma difference_commute: "difference xs ys = difference ys xs"
  by (induction xs ys rule: difference.induct) auto

lemma difference_drop:
  "i \<le> difference xs ys \<Longrightarrow> difference xs ys = i + difference (drop i xs) (drop i ys)"
proof (induction i arbitrary: xs ys)
  case (Suc i)
  then show ?case by (cases xs; cases ys) (auto split: if_splits)
qed simp

lemma FindFirstDifferenceIndex_from_ok:
  "path_ok lhs \<Longrightarrow> path_ok rhs \<Longrightarrow> FindFirstDifferenceIndex_from lhs rhs index
    = Inr (index + difference (drop index (nibbles lhs)) (drop index (nibbles rhs)))"
proof (induction lhs rhs index rule: FindFirstDifferenceIndex_from.induct)
  case (1 lhs rhs index)
  show ?case
  proof (cases "index < path_size lhs \<and> index < path_size rhs")
    case True
    then have "drop index (nibbles lhs) = nibbles lhs ! index # drop (Suc index) (nibbles lhs)"
      "drop index (nibbles rhs) = nibbles rhs ! index # drop (Suc index) (nibbles rhs)"
      by (simp_all add: Cons_nth_drop_Suc)
    then show ?thesis
      using True 1 by (subst FindFirstDifferenceIndex_from.simps) (simp add: nibbleAt_ok)
  next
    case False
    then show ?thesis
      by (subst FindFirstDifferenceIndex_from.simps) (cases "index < path_size lhs"; simp)
  qed
qed

lemma path_difference_ok [simp]:
  "path_ok lhs \<Longrightarrow> path_ok rhs \<Longrightarrow> path_difference lhs rhs = Inr (difference (nibbles lhs) (nibbles rhs))"
  by (simp add: path_difference_def FindFirstDifferenceIndex_from_ok)

lemma path_equal_ok [simp]:
  assumes "path_ok lhs" and "path_ok rhs"
  shows "path_equal lhs rhs = Inr (nibbles lhs = nibbles rhs)"
proof (cases "path_size lhs = path_size rhs")
  case True
  have "(path_size lhs = difference (nibbles lhs) (nibbles rhs)) = (nibbles lhs = nibbles rhs)"
    using difference_prefix [of "nibbles lhs" "nibbles rhs"] True by (metis length_nibbles order_refl take_all)
  then show ?thesis using True assms by (simp add: path_equal_def)
next
  case False
  then show ?thesis by (auto simp: path_equal_def dest: arg_cong [where f = length])
qed

lemma bytes_nibble_drop:
  assumes "i div 2 + m \<le> length bs" and "(j + i mod 2) div 2 < m"
  shows "bytes_nibble (take m (drop (i div 2) bs)) (j + i mod 2) = bytes_nibble bs (i + j)"
proof -
  have "(i + j) div 2 = i div 2 + (j + i mod 2) div 2" "(i + j) mod 2 = (j + i mod 2) mod 2" by presburger+
  then show ?thesis using assms by (simp add: bytes_nibble_def byte_nibble_def)
qed

lemma CalculateByteSize_bounds:
  "len + offset mod 2 \<le> 2 * CalculateByteSize offset len"
  "0 < len \<Longrightarrow> 2 * CalculateByteSize offset len \<le> len + offset mod 2 + 1"
proof -
  have len: "len = 2 * (len div 2) + len mod 2" by simp
  show "len + offset mod 2 \<le> 2 * CalculateByteSize offset len"
    by (cases "offset mod 2 = 0"; cases "len mod 2 = 0"; simp add: CalculateByteSize_def) (use len in linarith)+
  show "2 * CalculateByteSize offset len \<le> len + offset mod 2 + 1" if "0 < len"
    by (cases "offset mod 2 = 0"; cases "len mod 2 = 0"; simp add: CalculateByteSize_def) (use len in linarith)+
qed

lemma CalculateByteSize_nibbles:
  "j < len \<Longrightarrow> (j + offset mod 2) div 2 < CalculateByteSize offset len"
  "offset + len \<le> 2 * n \<Longrightarrow> 0 < len \<Longrightarrow> offset div 2 + CalculateByteSize offset len \<le> n"
  using CalculateByteSize_bounds [of len offset] mult_div_mod_eq [of 2 offset] by linarith+

lemma TreeNodePath_new_ok:
  assumes "offset + len \<le> 2 * length path"
  shows "\<exists>p. TreeNodePath_new path offset len = Inr p \<and> path_ok p
    \<and> nibbles p = map (bytes_nibble path) [offset..<offset + len]"
proof (cases "len = 0")
  case True
  then show ?thesis
    using CalculateByteSize_bounds(1) [of 0 offset] by (simp add: TreeNodePath_new_def Let_def path_ok_def nibbles_def)
next
  case False
  let ?n = "CalculateByteSize offset len"
  let ?p = "\<lparr>path_size = len, path_adjustment = offset mod 2, path_bytes = take ?n (drop (offset div 2) path)\<rparr>"
  have n: "offset div 2 + ?n \<le> length path" using CalculateByteSize_nibbles(2) [OF assms] False by simp
  then have "TreeNodePath_new path offset len = Inr ?p" using False by (simp add: TreeNodePath_new_def Let_def)
  moreover have "path_ok ?p" using n CalculateByteSize_bounds(1) [of len offset] by (simp add: path_ok_def)
  moreover have "nibbles ?p = map (bytes_nibble path) [offset..<offset + len]"
    using bytes_nibble_drop [OF n] CalculateByteSize_nibbles(1) [of _ len offset]
    by (intro nth_equalityI) (simp_all add: nibbles_def)
  ultimately show ?thesis by blast
qed

lemma subpath_ok:
  assumes "path_ok p" and "offset + len \<le> path_size p"
  shows "\<exists>q. subpath p offset len = Inr q \<and> path_ok q \<and> nibbles q = take len (drop offset (nibbles p))"
proof -
  have "offset + path_adjustment p + len \<le> 2 * length (path_bytes p)" using assms by (simp add: path_ok_def)
  from TreeNodePath_new_ok [OF this] obtain q where q: "subpath p offset len = Inr q" "path_ok q"
    "nibbles q = map (bytes_nibble (path_bytes p)) [offset + path_adjustment p..<offset + path_adjustment p + len]"
    by (auto simp: subpath_def)
  have "nibbles q = take len (drop offset (nibbles p))"
    using assms(2) q(3) by (intro nth_equalityI) (auto simp: nibbles_def ac_simps dest: arg_cong [where f = length])
  then show ?thesis using q by blast
qed

lemma subpath_from_ok:
  assumes "path_ok p" and "offset \<le> path_size p"
  shows "\<exists>q. subpath_from p offset = Inr q \<and> path_ok q \<and> nibbles q = drop offset (nibbles p)"
  using assms subpath_ok [of p offset "path_size p - offset"] by (auto simp: subpath_from_def)

text \<open>The recursion over subpaths ends.\<close>

lemma subpath_from_size: "subpath_from p offset = Inr q \<Longrightarrow> path_size q = path_size p - offset \<and> offset \<le> path_size p"
  by (auto simp: subpath_from_def subpath_def TreeNodePath_new_def Let_def split: if_splits)

section \<open>Joined paths\<close>

text \<open>The two nibbles of a byte are its upper and its lower four bits.\<close>

lemma byte_nibble_eq: "byte_nibble i b = (if even i then drop_bit 4 b else take_bit 4 b)"
proof -
  have "(0x0F :: u8) = mask 4" "(0xF0 :: u8) = push_bit 4 (mask 4)"
    by (simp_all add: mask_eq_exp_minus_1 push_bit_eq_mult)
  moreover have "drop_bit 4 (b AND push_bit 4 (mask 4)) = drop_bit 4 b"
    by (rule bit_word_eqI) (simp add: bit_simps, auto dest: bit_imp_le_length)
  ultimately show ?thesis
    by (simp only: byte_nibble_def take_bit_eq_mask even_iff_mod_2_eq_zero eq_commute [of 0])
qed

lemma byte_nibble_less: "byte_nibble i b < 16"
proof -
  have "unat b < 256" using unsigned_less [of b] by simp
  then have "unat b div 16 < 16" by simp
  then show ?thesis by (simp add: byte_nibble_eq word_less_nat_alt drop_bit_eq_div take_bit_eq_mod unat_div unat_mod)
qed

lemma nibbles_less: "x \<in> set (nibbles p) \<Longrightarrow> x < 16"
  by (auto simp: nibbles_def bytes_nibble_def byte_nibble_less)

lemma take_bit_nibble: "(n :: u8) < 16 \<Longrightarrow> take_bit 4 n = n"
  by (simp add: word_unat_eq_iff take_bit_eq_mod word_less_nat_alt unat_mod)

lemma byte_nibble_add:
  assumes "n < 16"
  shows "even i \<Longrightarrow> byte_nibble j (x OR push_bit 4 n) = (if even j then byte_nibble j x OR n else byte_nibble j x)"
    and "odd i \<Longrightarrow> byte_nibble j (x OR (n AND 0x0F)) = (if even j then byte_nibble j x else byte_nibble j x OR n)"
proof -
  have n: "n = take_bit 4 n" using assms by (simp add: take_bit_nibble)
  have "(n AND 0x0F) = take_bit 4 n" using byte_nibble_eq [of 1 n] by (simp add: byte_nibble_def)
  then have m: "(n AND 0x0F) = n" using n by simp
  have "drop_bit 4 (x OR push_bit 4 (take_bit 4 n)) = drop_bit 4 x OR take_bit 4 n"
    "take_bit 4 (x OR push_bit 4 (take_bit 4 n)) = take_bit 4 x" "drop_bit 4 (x OR take_bit 4 n) = drop_bit 4 x"
    by (rule bit_word_eqI, auto simp: bit_simps)+
  note bits = this [folded n]
  show "byte_nibble j (x OR push_bit 4 n) = (if even j then byte_nibble j x OR n else byte_nibble j x)"
    using bits by (simp add: byte_nibble_eq)
  show "byte_nibble j (x OR (n AND 0x0F)) = (if even j then byte_nibble j x else byte_nibble j x OR n)"
    unfolding m using bits n by (simp add: byte_nibble_eq)
qed

definition built :: "nat \<Rightarrow> u8 list \<Rightarrow> nat \<times> bytes \<Rightarrow> bool" where
  "built m ns b \<longleftrightarrow> fst b = length ns \<and> length (snd b) = m \<and> length ns \<le> 2 * m
     \<and> (\<forall>j < 2 * m. bytes_nibble (snd b) j = (if j < length ns then ns ! j else 0))"

lemma built_start: "built m [] (0, replicate m 0)"
  by (auto simp: built_def bytes_nibble_def byte_nibble_eq)

lemma addNibble_built:
  assumes "built m ns b" and "length ns < 2 * m" and n: "n < 16"
  shows "\<exists>b'. addNibble n b = Inr b' \<and> built m (ns @ [n]) b'"
proof -
  obtain bs where b: "b = (length ns, bs)" "length bs = m"
    and content: "\<And>j. j < 2 * m \<Longrightarrow> bytes_nibble bs j = (if j < length ns then ns ! j else 0)"
    using assms(1) by (cases b) (auto simp: built_def)
  let ?i = "length ns"
  have lt: "?i div 2 < m" using assms(2) by (simp add: less_mult_imp_div_less)
  define x where "x = bs ! (?i div 2) OR (if 0 \<noteq> ?i mod 2 then n AND 0x0F else push_bit 4 n)"
  have add: "addNibble n b = Inr (?i + 1, bs[?i div 2 := x])" using b lt by (simp add: addNibble_def x_def)
  have "bytes_nibble (bs[?i div 2 := x]) j = (if j < Suc ?i then (ns @ [n]) ! j else 0)" if j: "j < 2 * m" for j
  proof (cases "j div 2 = ?i div 2")
    case False
    then have "j \<noteq> ?i" by auto
    then show ?thesis
      using False content [OF j] b(2) by (auto simp: bytes_nibble_def nth_append)
  next
    case True
    then have nib: "bytes_nibble (bs[?i div 2 := x]) j = byte_nibble j x"
      using lt b(2) by (simp add: bytes_nibble_def)
    have old: "byte_nibble j (bs ! (?i div 2)) = (if j < ?i then ns ! j else 0)"
      using content [OF j] True by (simp add: bytes_nibble_def)
    have "byte_nibble j x = (if even j = even ?i then byte_nibble j (bs ! (?i div 2)) OR n else byte_nibble j (bs ! (?i div 2)))"
      using byte_nibble_add [OF n, of ?i j "bs ! (?i div 2)"] by (auto simp: x_def even_iff_mod_2_eq_zero)
    moreover have "even j = even ?i \<longleftrightarrow> j = ?i" "even j \<noteq> even ?i \<Longrightarrow> \<not> ?i < j \<or> j = Suc ?i"
      using True by presburger+
    ultimately show ?thesis using nib old by (auto simp: nth_append)
  qed
  then have "built m (ns @ [n]) (?i + 1, bs[?i div 2 := x])" using assms(2) b(2) by (simp add: built_def)
  then show ?thesis using add by blast
qed

lemma addNibbles_built:
  assumes "path_ok p" and "built m ns b" and "length ns + path_size p \<le> 2 * m"
  shows "\<exists>b'. addNibbles p b = Inr b' \<and> built m (ns @ nibbles p) b'"
proof -
  have "\<exists>b'. foldM (\<lambda>i b. bind_result (nibbleAt p i) (\<lambda>nibble. addNibble nibble b)) [0..<k] b = Inr b'
      \<and> built m (ns @ take k (nibbles p)) b'" if "k \<le> path_size p" for k
    using that
  proof (induction k)
    case 0
    then show ?case using assms(2) by simp
  next
    case (Suc k)
    then obtain b1 where b1: "foldM (\<lambda>i b. bind_result (nibbleAt p i) (\<lambda>nibble. addNibble nibble b)) [0..<k] b = Inr b1"
      "built m (ns @ take k (nibbles p)) b1"
      by auto
    have k: "k < path_size p" using Suc.prems by simp
    then have "nibbles p ! k < 16" using nibbles_less [of "nibbles p ! k" p] by simp
    with addNibble_built [OF b1(2), of "nibbles p ! k"] obtain b2
      where "addNibble (nibbles p ! k) b1 = Inr b2" "built m ((ns @ take k (nibbles p)) @ [nibbles p ! k]) b2"
      using k assms(3) by auto
    then show ?case using b1(1) nibbleAt_ok [OF assms(1) k] k by (simp add: take_Suc_conv_app_nth)
  qed
  from this [of "path_size p"] show ?thesis by (simp add: addNibbles_def)
qed

lemma built_path:
  assumes "built m ns b"
  shows "\<exists>p. TreeNodePath_new (snd b) 0 (length ns) = Inr p \<and> path_ok p \<and> nibbles p = ns"
proof -
  obtain p where "TreeNodePath_new (snd b) 0 (length ns) = Inr p" "path_ok p"
    "nibbles p = map (bytes_nibble (snd b)) [0..<length ns]"
    using TreeNodePath_new_ok [of 0 "length ns" "snd b"] assms by (auto simp: built_def)
  moreover have "map (bytes_nibble (snd b)) [0..<length ns] = ns"
    using assms by (intro nth_equalityI) (auto simp: built_def)
  ultimately show ?thesis by auto
qed

lemma path_Join_ok:
  assumes "path_ok lhs" and "path_ok rhs"
  shows "\<exists>p. path_Join lhs rhs = Inr p \<and> path_ok p \<and> nibbles p = nibbles lhs @ nibbles rhs"
proof -
  define m where "m = (path_size lhs + path_size rhs + 1) div 2"
  have m: "path_size lhs + path_size rhs \<le> 2 * m" unfolding m_def by linarith
  obtain b1 where b1: "addNibbles lhs (0, replicate m 0) = Inr b1" "built m (nibbles lhs) b1"
    using addNibbles_built [OF assms(1) built_start [of m]] m by auto
  obtain b2 where b2: "addNibbles rhs b1 = Inr b2" "built m (nibbles lhs @ nibbles rhs) b2"
    using addNibbles_built [OF assms(2) b1(2)] m by auto
  show ?thesis using built_path [OF b2(2)] b1(1) b2(1) unfolding path_Join_def Let_def m_def [symmetric] by simp
qed

lemma path_Join_nibble_ok:
  assumes "path_ok lhs" and "path_ok rhs" and "n < 16"
  shows "\<exists>p. path_Join_nibble lhs n rhs = Inr p \<and> path_ok p \<and> nibbles p = nibbles lhs @ n # nibbles rhs"
proof -
  define m where "m = (path_size lhs + 1 + path_size rhs + 1) div 2"
  have m: "path_size lhs + 1 + path_size rhs \<le> 2 * m" unfolding m_def by linarith
  obtain b1 where b1: "addNibbles lhs (0, replicate m 0) = Inr b1" "built m (nibbles lhs) b1"
    using addNibbles_built [OF assms(1) built_start [of m]] m by auto
  obtain b2 where b2: "addNibble n b1 = Inr b2" "built m (nibbles lhs @ [n]) b2"
    using addNibble_built [OF b1(2) _ assms(3)] m by auto
  obtain b3 where b3: "addNibbles rhs b2 = Inr b3" "built m ((nibbles lhs @ [n]) @ nibbles rhs) b3"
    using addNibbles_built [OF assms(2) b2(2)] m by auto
  show ?thesis using built_path [OF b3(2)] b1(1) b2(1) b3(1) unfolding path_Join_nibble_def Let_def m_def [symmetric] by simp
qed

end
