(* ===== verification/Patricia_Tree.thy ===== *)
theory Patricia_Tree
  imports Tree_Path
begin

unbundle bit_operations_syntax

text \<open>
  The compact patricia tree that commits a cache to a state hash: \<^verbatim>\<open>tree/TreeNode.cpp\<close>, \<^verbatim>\<open>tree/PatriciaTree.h\<close>,
  \<^verbatim>\<open>tree/MemoryDataSource.cpp\<close>, \<^verbatim>\<open>tree/ReadThroughMemoryDataSource.h\<close>, \<^verbatim>\<open>tree/BasePatriciaTreeDelta.h\<close> and
  \<^verbatim>\<open>tree/BasePatriciaTree.h\<close>.

  The hash function of the third-party library behind \<^verbatim>\<open>Sha3_256_Builder\<close> is the argument \<open>sha3\<close>, applied to
  the bytes given to the builder. A leaf computes its hash when it is created and a branch when it is asked for, both
  remember it; nodes are only shared once they do not change any more, so the remembered hash is the computed one
  and the model computes it. The data source of a tree is the argument \<open>get\<close>, which answers with the empty
  node for an unknown hash. Keys and values are the outputs of the encoder of the tree.
\<close>

section \<open>Nodes\<close>

definition Max_Links :: nat where
  "Max_Links = 16"

definition Hash256_zero :: Hash256 where
  "Hash256_zero = replicate 32 0"

datatype TreeNode =
    EmptyNode
  | LeafNode (leaf_path: TreeNodePath) (leaf_value: Hash256)
  | BranchNode (branch_path: TreeNodePath) (branch_links: "Hash256 list")
      (branch_linkedNodes: "TreeNode option list") (branch_linkSet: "bool list")

text \<open>\<^verbatim>\<open>UpdateEncodedKey\<close>, with the working buffer of eight bytes that is flushed to the builder.\<close>

function UpdateEncodedKey_loop :: "TreeNodePath \<Rightarrow> nat \<Rightarrow> bytes \<times> bytes \<times> nat \<Rightarrow> (bytes \<times> bytes \<times> nat) result" where
  "UpdateEncodedKey_loop path i st =
    (let (builder, buffer, counter) = st in
     if i < path_size path
     then bind_result (nibbleAt path i) (\<lambda>h. bind_result (nibbleAt path (i + 1)) (\<lambda>l.
       let buffer = buffer[counter := push_bit 4 h + l]; counter = counter + 1 in
       if length buffer = counter then UpdateEncodedKey_loop path (i + 2) (builder @ buffer, buffer, 0)
       else UpdateEncodedKey_loop path (i + 2) (builder, buffer, counter)))
     else Inr (builder, buffer, counter))"
  by pat_completeness auto
termination by (relation "measure (\<lambda>(path, i, st). path_size path - i)") auto

declare UpdateEncodedKey_loop.simps [simp del]

definition UpdateEncodedKey :: "bytes \<Rightarrow> TreeNodePath \<Rightarrow> bool \<Rightarrow> bytes result" where
  "UpdateEncodedKey builder path isLeaf =
    (let first = (if isLeaf then 0x20 else 0) in
     bind_result
       (if 1 = path_size path mod 2
        then bind_result (nibbleAt path 0) (\<lambda>n. Inr (1, (first OR 0x10) OR n)) else Inr (0, first))
       (\<lambda>(i, first). bind_result (UpdateEncodedKey_loop path i (builder, (replicate 8 0)[0 := first], 1))
         (\<lambda>(builder, buffer, counter). Inr (if 0 \<noteq> counter then builder @ take counter buffer else builder))))"

definition CalculateLeafTreeNodeHash :: "(bytes \<Rightarrow> Hash256) \<Rightarrow> TreeNodePath \<Rightarrow> Hash256 \<Rightarrow> Hash256 result" where
  "CalculateLeafTreeNodeHash sha3 path value =
    bind_result (UpdateEncodedKey [] path True) (\<lambda>builder. Inr (sha3 (builder @ value)))"

lemma bind_result_cong [fundef_cong]:
  "r = r' \<Longrightarrow> (\<And>x. r' = Inr x \<Longrightarrow> f x = f' x) \<Longrightarrow> bind_result r f = bind_result r' f'"
  by (cases r') auto

lemma foldM_cong [fundef_cong]:
  "xs = ys \<Longrightarrow> s = t \<Longrightarrow> (\<And>x u. x \<in> set ys \<Longrightarrow> f x u = g x u) \<Longrightarrow> foldM f xs s = foldM g ys t"
proof (induction ys arbitrary: xs s t)
  case (Cons y ys)
  then show ?case by (cases "g y t") auto
qed simp

lemma linked_size: "Some nd \<in> set linked \<Longrightarrow> size nd < Suc (size_list (size_option size) linked)"
  by (induction linked) auto

text \<open>\<^verbatim>\<open>hash\<close>: the links of a branch are hashed in order, a linked node in memory with its own hash.\<close>

function node_hash :: "(bytes \<Rightarrow> Hash256) \<Rightarrow> TreeNode \<Rightarrow> Hash256 result" where
  "node_hash sha3 EmptyNode = Inr Hash256_zero"
| "node_hash sha3 (LeafNode path value) = CalculateLeafTreeNodeHash sha3 path value"
| "node_hash sha3 (BranchNode path links linked linkSet) =
    bind_result (UpdateEncodedKey [] path False) (\<lambda>builder. bind_result
      (foldM (\<lambda>(link, node) builder. case node of None \<Rightarrow> Inr (builder @ link)
         | Some nd \<Rightarrow> bind_result (node_hash sha3 nd) (\<lambda>h. Inr (builder @ h))) (zip links linked) builder)
      (\<lambda>builder. Inr (sha3 builder)))"
  by pat_completeness auto
termination by (relation "measure (size \<circ> snd)") (auto dest!: set_zip_rightD intro: linked_size)

definition node_empty :: "TreeNode \<Rightarrow> bool" where
  "node_empty node \<longleftrightarrow> node = EmptyNode"

fun node_path :: "TreeNode \<Rightarrow> TreeNodePath" where
  "node_path (LeafNode path _) = path"
| "node_path (BranchNode path _ _ _) = path"
| "node_path EmptyNode = TreeNodePath_empty"

fun node_setPath :: "TreeNodePath \<Rightarrow> TreeNode \<Rightarrow> TreeNode result" where
  "node_setPath path (LeafNode _ value) = Inr (LeafNode path value)"
| "node_setPath path (BranchNode _ links linked linkSet) = Inr (BranchNode path links linked linkSet)"
| "node_setPath path EmptyNode = Inl runtime_error"

subsection \<open>Branch nodes\<close>

definition BranchTreeNode_new :: "TreeNodePath \<Rightarrow> TreeNode" where
  "BranchTreeNode_new path =
    BranchNode path (replicate Max_Links Hash256_zero) (replicate Max_Links None) (replicate Max_Links False)"

definition numLinks :: "TreeNode \<Rightarrow> nat" where
  "numLinks branch = length (filter (\<lambda>b. b) (branch_linkSet branch))"

definition hasLink :: "TreeNode \<Rightarrow> nat \<Rightarrow> bool" where
  "hasLink branch index \<longleftrightarrow> branch_linkSet branch ! index"

definition hasLinkedNode :: "TreeNode \<Rightarrow> nat \<Rightarrow> bool" where
  "hasLinkedNode branch index \<longleftrightarrow> branch_linkedNodes branch ! index \<noteq> None"

definition branch_link :: "(bytes \<Rightarrow> Hash256) \<Rightarrow> TreeNode \<Rightarrow> nat \<Rightarrow> Hash256 result" where
  "branch_link sha3 branch index =
    (case branch_linkedNodes branch ! index of Some nd \<Rightarrow> node_hash sha3 nd | None \<Rightarrow> Inr (branch_links branch ! index))"

definition linkedNode :: "TreeNode \<Rightarrow> nat \<Rightarrow> TreeNode" where
  "linkedNode branch index = (case branch_linkedNodes branch ! index of Some nd \<Rightarrow> nd | None \<Rightarrow> EmptyNode)"

text \<open>\<^verbatim>\<open>highestLinkIndex\<close>: the logarithm of the link bits is the position of the highest one.\<close>

definition highestLinkIndex :: "TreeNode \<Rightarrow> nat" where
  "highestLinkIndex branch = last (filter (hasLink branch) [0..<Max_Links])"

fun setLink_hash :: "Hash256 \<Rightarrow> nat \<Rightarrow> TreeNode \<Rightarrow> TreeNode" where
  "setLink_hash link index (BranchNode path links linked linkSet) =
    BranchNode path (links[index := link]) (linked[index := None]) (linkSet[index := True])"
| "setLink_hash link index node = node"

fun setLink_node :: "TreeNode \<Rightarrow> nat \<Rightarrow> TreeNode \<Rightarrow> TreeNode" where
  "setLink_node nd index (BranchNode path links linked linkSet) =
    BranchNode path links (linked[index := Some nd]) (linkSet[index := True])"
| "setLink_node nd index node = node"

fun clearLink_set :: "nat \<Rightarrow> TreeNode \<Rightarrow> TreeNode" where
  "clearLink_set index (BranchNode path links linked linkSet) = BranchNode path links linked (linkSet[index := False])"
| "clearLink_set index node = node"

definition clearLink :: "nat \<Rightarrow> TreeNode \<Rightarrow> TreeNode" where
  "clearLink index branch = clearLink_set index (setLink_hash Hash256_zero index branch)"

fun compactLinks :: "(bytes \<Rightarrow> Hash256) \<Rightarrow> TreeNode \<Rightarrow> TreeNode result" where
  "compactLinks sha3 (BranchNode path links linked linkSet) =
    foldM (\<lambda>i branch. case branch_linkedNodes branch ! i of None \<Rightarrow> Inr branch
      | Some nd \<Rightarrow> bind_result (node_hash sha3 nd) (\<lambda>h. Inr
          (BranchNode path ((branch_links branch)[i := h]) ((branch_linkedNodes branch)[i := None]) linkSet)))
      [0..<Max_Links] (BranchNode path links linked linkSet)"
| "compactLinks sha3 node = Inr node"

section \<open>Patricia tree\<close>

definition getLinkedNode :: "(bytes \<Rightarrow> Hash256) \<Rightarrow> (Hash256 \<Rightarrow> TreeNode) \<Rightarrow> TreeNode \<Rightarrow> nat \<Rightarrow> TreeNode result" where
  "getLinkedNode sha3 get branch index =
    (let nd = linkedNode branch index in
     if \<not> node_empty nd then Inr nd else bind_result (branch_link sha3 branch index) (\<lambda>h. Inr (get h)))"

subsection \<open>Setting a value\<close>

definition branchLeafNode :: "TreeNodePath \<Rightarrow> Hash256 \<Rightarrow> TreeNodePath \<Rightarrow> Hash256 \<Rightarrow> TreeNode result" where
  "branchLeafNode leafPath leafValue newPath newValue =
    bind_result (path_difference leafPath newPath) (\<lambda>differenceIndex.
    bind_result (subpath leafPath 0 differenceIndex) (\<lambda>sharedPath.
    bind_result (subpath_from leafPath (differenceIndex + 1)) (\<lambda>path1.
    bind_result (subpath_from newPath (differenceIndex + 1)) (\<lambda>path2.
    bind_result (nibbleAt leafPath differenceIndex) (\<lambda>index1.
    bind_result (nibbleAt newPath differenceIndex) (\<lambda>index2.
    Inr (setLink_node (LeafNode path2 newValue) (unat index2)
      (setLink_node (LeafNode path1 leafValue) (unat index1) (BranchTreeNode_new sharedPath)))))))))"

function tree_set :: "(bytes \<Rightarrow> Hash256) \<Rightarrow> (Hash256 \<Rightarrow> TreeNode) \<Rightarrow> TreeNode \<Rightarrow> TreeNodePath \<Rightarrow> Hash256 \<Rightarrow> TreeNode result"
  and updateBranchLink :: "(bytes \<Rightarrow> Hash256) \<Rightarrow> (Hash256 \<Rightarrow> TreeNode) \<Rightarrow> TreeNode \<Rightarrow> TreeNodePath \<Rightarrow> Hash256 \<Rightarrow> TreeNode result"
  and insertNewPairIntoBranch :: "(bytes \<Rightarrow> Hash256) \<Rightarrow> (Hash256 \<Rightarrow> TreeNode) \<Rightarrow> TreeNode \<Rightarrow> TreeNodePath \<Rightarrow> nat
    \<Rightarrow> TreeNodePath \<Rightarrow> Hash256 \<Rightarrow> TreeNode result" where
  "tree_set sha3 get node newPath newValue =
    (case node of
      EmptyNode \<Rightarrow> Inr (LeafNode newPath newValue)
    | LeafNode leafPath leafValue \<Rightarrow>
        bind_result (path_equal leafPath newPath) (\<lambda>eq.
          if eq then Inr (LeafNode newPath newValue) else branchLeafNode leafPath leafValue newPath newValue)
    | BranchNode _ _ _ _ \<Rightarrow> updateBranchLink sha3 get node newPath newValue)"
| "updateBranchLink sha3 get branch newPath newValue =
    bind_result (path_difference (node_path branch) newPath) (\<lambda>differenceIndex.
      if \<not> path_empty (node_path branch) \<and> differenceIndex = path_size (node_path branch)
      then bind_result (subpath_from newPath differenceIndex) (\<lambda>continuation.
        insertNewPairIntoBranch sha3 get branch TreeNodePath_empty 0 continuation newValue)
      else insertNewPairIntoBranch sha3 get branch (node_path branch) differenceIndex newPath newValue)"
| "insertNewPairIntoBranch sha3 get branch branchPath differenceIndex newPath newValue =
    (let isBranchPathConsumed = path_empty branchPath in
     bind_result (if isBranchPathConsumed
         then bind_result (nibbleAt newPath 0) (\<lambda>n. getLinkedNode sha3 get branch (unat n)) else Inr EmptyNode) (\<lambda>nextNode.
     bind_result (subpath_from newPath (differenceIndex + 1)) (\<lambda>nextPath.
     bind_result (tree_set sha3 get nextNode nextPath newValue) (\<lambda>updatedNextNode.
     if isBranchPathConsumed
     then bind_result (nibbleAt newPath 0) (\<lambda>n. Inr (setLink_node updatedNextNode (unat n) branch))
     else
       bind_result (subpath branchPath 0 differenceIndex) (\<lambda>sharedPath.
       bind_result (nibbleAt newPath differenceIndex) (\<lambda>n.
       bind_result (nibbleAt branchPath differenceIndex) (\<lambda>branchLinkIndex.
       bind_result (subpath_from branchPath (differenceIndex + 1)) (\<lambda>restPath.
       bind_result (node_setPath restPath branch) (\<lambda>branch.
       Inr (setLink_node branch (unat branchLinkIndex)
         (setLink_node updatedNextNode (unat n) (BranchTreeNode_new sharedPath)))))))))))) "
  by pat_completeness auto
termination
  by (relation "measure (\<lambda>x. case x of
       Inl (sha3, get, node, newPath, newValue) \<Rightarrow> 3 * path_size newPath + 2
     | Inr (Inl (sha3, get, branch, newPath, newValue)) \<Rightarrow> 3 * path_size newPath + 1
     | Inr (Inr (sha3, get, branch, branchPath, differenceIndex, newPath, newValue)) \<Rightarrow> 3 * path_size newPath)")
    (auto dest!: subpath_from_size split: if_splits)

declare tree_set.simps [simp del] updateBranchLink.simps [simp del] insertNewPairIntoBranch.simps [simp del]


definition PatriciaTree_set :: "(bytes \<Rightarrow> Hash256) \<Rightarrow> (Hash256 \<Rightarrow> TreeNode) \<Rightarrow> bytes \<Rightarrow> Hash256 \<Rightarrow> TreeNode \<Rightarrow> TreeNode result" where
  "PatriciaTree_set sha3 get key value rootNode = tree_set sha3 get rootNode (TreeNodePath_of key) value"

subsection \<open>Removing a value\<close>

definition unsetBranchLink :: "(bytes \<Rightarrow> Hash256) \<Rightarrow> (Hash256 \<Rightarrow> TreeNode) \<Rightarrow> TreeNode \<Rightarrow> nat \<Rightarrow> TreeNode result" where
  "unsetBranchLink sha3 get branch linkIndex =
    (let branch = clearLink linkIndex branch in
     if 1 \<noteq> numLinks branch then Inr branch
     else let lastLinkIndex = highestLinkIndex branch in
       bind_result (getLinkedNode sha3 get branch lastLinkIndex) (\<lambda>referencedNode.
       bind_result (path_Join_nibble (node_path branch) (of_nat lastLinkIndex) (node_path referencedNode)) (\<lambda>mergedPath.
       node_setPath mergedPath referencedNode)))"

text \<open>
  \<open>None\<close> stands for the return value false; otherwise the updated node and the updated flag \<^verbatim>\<open>canMerge\<close>
  are returned.
\<close>

function tree_unset :: "(bytes \<Rightarrow> Hash256) \<Rightarrow> (Hash256 \<Rightarrow> TreeNode) \<Rightarrow> TreeNode \<Rightarrow> TreeNodePath \<Rightarrow> bool
    \<Rightarrow> (TreeNode \<times> bool) option result" where
  "tree_unset sha3 get node keyPath canMerge =
    (if node_empty node then Inr None
     else bind_result (path_difference (node_path node) keyPath) (\<lambda>differenceIndex.
       if differenceIndex = path_size keyPath then Inr (Some (EmptyNode, canMerge))
       else case node of
         BranchNode _ _ _ _ \<Rightarrow>
           bind_result (nibbleAt keyPath differenceIndex) (\<lambda>nodeLinkIndex.
           bind_result (getLinkedNode sha3 get node (unat nodeLinkIndex)) (\<lambda>nextNode.
           if node_empty nextNode then Inr None
           else bind_result (subpath_from keyPath (differenceIndex + 1)) (\<lambda>nextPath.
             bind_result (tree_unset sha3 get nextNode nextPath canMerge) (\<lambda>result.
             case result of None \<Rightarrow> Inr None
             | Some (updatedNextNode, canMerge) \<Rightarrow>
                 bind_result (if canMerge then unsetBranchLink sha3 get node (unat nodeLinkIndex)
                     else Inr (setLink_node updatedNextNode (unat nodeLinkIndex) node)) (\<lambda>updatedNode.
                 Inr (Some (updatedNode, False)))))))
       | _ \<Rightarrow> Inr None))"
  by pat_completeness auto
termination
  by (relation "measure (\<lambda>(sha3, get, node, keyPath, canMerge). path_size keyPath)") (auto dest!: subpath_from_size)

declare tree_unset.simps [simp del]

definition PatriciaTree_unset :: "(bytes \<Rightarrow> Hash256) \<Rightarrow> (Hash256 \<Rightarrow> TreeNode) \<Rightarrow> bytes \<Rightarrow> TreeNode \<Rightarrow> (TreeNode \<times> bool) result" where
  "PatriciaTree_unset sha3 get key rootNode =
    bind_result (tree_unset sha3 get rootNode (TreeNodePath_of key) True) (\<lambda>result.
      Inr (case result of None \<Rightarrow> (rootNode, False) | Some (updatedNode, _) \<Rightarrow> (updatedNode, True)))"

subsection \<open>Looking up a value\<close>

text \<open>The value, if the key is found, and the nodes on the path to it.\<close>

function tree_lookup :: "(bytes \<Rightarrow> Hash256) \<Rightarrow> (Hash256 \<Rightarrow> TreeNode) \<Rightarrow> TreeNode \<Rightarrow> TreeNodePath \<Rightarrow> TreeNode list
    \<Rightarrow> (Hash256 option \<times> TreeNode list) result" where
  "tree_lookup sha3 get node keyPath nodePath =
    (if node_empty node then Inr (None, nodePath)
     else let nodePath = nodePath @ [node] in
       bind_result (path_difference (node_path node) keyPath) (\<lambda>differenceIndex.
         case node of
           BranchNode _ _ _ _ \<Rightarrow>
             bind_result (nibbleAt keyPath differenceIndex) (\<lambda>nodeLinkIndex.
             bind_result (getLinkedNode sha3 get node (unat nodeLinkIndex)) (\<lambda>nextNode.
             if node_empty nextNode then Inr (None, nodePath)
             else bind_result (subpath_from keyPath (differenceIndex + 1)) (\<lambda>nextPath.
               tree_lookup sha3 get nextNode nextPath nodePath)))
         | LeafNode _ value \<Rightarrow> Inr (if differenceIndex = path_size keyPath then Some value else None, nodePath)
         | EmptyNode \<Rightarrow> Inr (None, nodePath)))"
  by pat_completeness auto
termination
  by (relation "measure (\<lambda>(sha3, get, node, keyPath, nodePath). path_size keyPath)") (auto dest!: subpath_from_size)

declare tree_lookup.simps [simp del]

definition PatriciaTree_lookup :: "(bytes \<Rightarrow> Hash256) \<Rightarrow> (Hash256 \<Rightarrow> TreeNode) \<Rightarrow> bytes \<Rightarrow> TreeNode
    \<Rightarrow> (Hash256 option \<times> TreeNode list) result" where
  "PatriciaTree_lookup sha3 get key rootNode = tree_lookup sha3 get rootNode (TreeNodePath_of key) []"

definition tryLoad :: "(Hash256 \<Rightarrow> TreeNode) \<Rightarrow> Hash256 \<Rightarrow> TreeNode \<Rightarrow> TreeNode \<times> bool" where
  "tryLoad get rootHash rootNode =
    (let node = get rootHash in if node_empty node then (rootNode, False) else (node, True))"

section \<open>Data sources\<close>

record MemoryDataSource =
  m_leafNodes :: "(Hash256 \<times> TreeNode) list"
  m_branchNodes :: "(Hash256 \<times> TreeNode) list"

definition MemoryDataSource_new :: MemoryDataSource where
  "MemoryDataSource_new = \<lparr>m_leafNodes = [], m_branchNodes = []\<rparr>"

definition memory_get :: "MemoryDataSource \<Rightarrow> Hash256 \<Rightarrow> TreeNode" where
  "memory_get ds h =
    (case map_of (m_leafNodes ds) h of Some nd \<Rightarrow> nd
     | None \<Rightarrow> (case map_of (m_branchNodes ds) h of Some nd \<Rightarrow> nd | None \<Rightarrow> EmptyNode))"

text \<open>\<^verbatim>\<open>emplace\<close> does not replace an element that is present.\<close>

definition emplace_node :: "Hash256 \<Rightarrow> TreeNode \<Rightarrow> (Hash256 \<times> TreeNode) list \<Rightarrow> (Hash256 \<times> TreeNode) list" where
  "emplace_node h nd ns = (if map_of ns h = None then (h, nd) # ns else ns)"

fun memory_set :: "(bytes \<Rightarrow> Hash256) \<Rightarrow> TreeNode \<Rightarrow> MemoryDataSource \<Rightarrow> MemoryDataSource result" where
  "memory_set sha3 (LeafNode path value) ds =
    bind_result (node_hash sha3 (LeafNode path value)) (\<lambda>h.
      Inr (ds\<lparr>m_leafNodes := emplace_node h (LeafNode path value) (m_leafNodes ds)\<rparr>))"
| "memory_set sha3 (BranchNode path links linked linkSet) ds =
    bind_result (node_hash sha3 (BranchNode path links linked linkSet)) (\<lambda>h.
      Inr (ds\<lparr>m_branchNodes := emplace_node h (BranchNode path links linked linkSet) (m_branchNodes ds)\<rparr>))"
| "memory_set sha3 EmptyNode ds = Inl runtime_error"

definition memory_forEach :: "(TreeNode \<Rightarrow> 's \<Rightarrow> 's result) \<Rightarrow> MemoryDataSource \<Rightarrow> 's \<Rightarrow> 's result" where
  "memory_forEach consumer ds s =
    bind_result (foldM consumer (map snd (m_leafNodes ds)) s) (foldM consumer (map snd (m_branchNodes ds)))"

definition readthrough_get :: "(Hash256 \<Rightarrow> TreeNode) \<Rightarrow> MemoryDataSource \<Rightarrow> Hash256 \<Rightarrow> TreeNode" where
  "readthrough_get backing ds h = (let nd = memory_get ds h in if \<not> node_empty nd then nd else backing h)"

text \<open>\<^verbatim>\<open>saveAll\<close> descends into the linked nodes in memory and saves every branch with its links compacted.\<close>

function node_saveAll :: "(bytes \<Rightarrow> Hash256) \<Rightarrow> TreeNode \<Rightarrow> MemoryDataSource \<Rightarrow> MemoryDataSource result" where
  "node_saveAll sha3 EmptyNode ds = memory_set sha3 EmptyNode ds"
| "node_saveAll sha3 (LeafNode path value) ds = memory_set sha3 (LeafNode path value) ds"
| "node_saveAll sha3 (BranchNode path links linked linkSet) ds =
    bind_result (foldM (\<lambda>node ds. case node of None \<Rightarrow> Inr ds | Some nd \<Rightarrow> node_saveAll sha3 nd ds) linked ds) (\<lambda>ds.
    bind_result (compactLinks sha3 (BranchNode path links linked linkSet)) (\<lambda>branch. memory_set sha3 branch ds))"
  by pat_completeness auto
termination by (relation "measure (\<lambda>(sha3, node, ds). size node)") (auto intro: linked_size)

definition PatriciaTree_saveAll :: "(bytes \<Rightarrow> Hash256) \<Rightarrow> TreeNode \<Rightarrow> MemoryDataSource \<Rightarrow> MemoryDataSource result" where
  "PatriciaTree_saveAll sha3 rootNode ds = (if \<not> node_empty rootNode then node_saveAll sha3 rootNode ds else Inr ds)"

section \<open>Base tree and delta\<close>

record BasePatriciaTreeDelta =
  delta_dataSource :: MemoryDataSource
  delta_baseRootHash :: Hash256
  delta_rootNode :: TreeNode

record BasePatriciaTree =
  base_dataSource :: MemoryDataSource
  base_rootNode :: TreeNode

definition delta_get :: "MemoryDataSource \<Rightarrow> BasePatriciaTreeDelta \<Rightarrow> Hash256 \<Rightarrow> TreeNode" where
  "delta_get backing d = readthrough_get (memory_get backing) (delta_dataSource d)"

definition BasePatriciaTreeDelta_new :: "MemoryDataSource \<Rightarrow> Hash256 \<Rightarrow> BasePatriciaTreeDelta" where
  "BasePatriciaTreeDelta_new backing rootHash =
    \<lparr>delta_dataSource = MemoryDataSource_new, delta_baseRootHash = rootHash,
     delta_rootNode = fst (tryLoad (readthrough_get (memory_get backing) MemoryDataSource_new) rootHash EmptyNode)\<rparr>"

definition patricia_reset :: "MemoryDataSource \<Rightarrow> Hash256 \<Rightarrow> BasePatriciaTreeDelta \<Rightarrow> BasePatriciaTreeDelta result" where
  "patricia_reset backing rootHash d =
    bind_result (if Hash256_zero = rootHash then Inr EmptyNode
      else let (node, loaded) = tryLoad (delta_get backing d) rootHash (delta_rootNode d)
        in if \<not> loaded then Inl runtime_error else Inr node)
      (\<lambda>node. Inr (d\<lparr>delta_rootNode := node, delta_baseRootHash := rootHash\<rparr>))"

definition patricia_set :: "(bytes \<Rightarrow> Hash256) \<Rightarrow> MemoryDataSource \<Rightarrow> bytes \<Rightarrow> Hash256
    \<Rightarrow> BasePatriciaTreeDelta \<Rightarrow> BasePatriciaTreeDelta result" where
  "patricia_set sha3 backing key value d =
    bind_result (PatriciaTree_set sha3 (delta_get backing d) key value (delta_rootNode d))
      (\<lambda>node. Inr (d\<lparr>delta_rootNode := node\<rparr>))"

definition patricia_unset :: "(bytes \<Rightarrow> Hash256) \<Rightarrow> MemoryDataSource \<Rightarrow> bytes
    \<Rightarrow> BasePatriciaTreeDelta \<Rightarrow> (BasePatriciaTreeDelta \<times> bool) result" where
  "patricia_unset sha3 backing key d =
    bind_result (PatriciaTree_unset sha3 (delta_get backing d) key (delta_rootNode d))
      (\<lambda>(node, found). Inr (d\<lparr>delta_rootNode := node\<rparr>, found))"

definition setCheckpoint :: "(bytes \<Rightarrow> Hash256) \<Rightarrow> BasePatriciaTreeDelta \<Rightarrow> BasePatriciaTreeDelta result" where
  "setCheckpoint sha3 d =
    bind_result (PatriciaTree_saveAll sha3 (delta_rootNode d) (delta_dataSource d))
      (\<lambda>ds. Inr (d\<lparr>delta_dataSource := ds\<rparr>))"

definition copyPendingChangesTo :: "(bytes \<Rightarrow> Hash256) \<Rightarrow> BasePatriciaTreeDelta \<Rightarrow> MemoryDataSource \<Rightarrow> MemoryDataSource result" where
  "copyPendingChangesTo sha3 d ds = memory_forEach (memory_set sha3) (delta_dataSource d) ds"

text \<open>
  \<^verbatim>\<open>commit\<close> of the base tree with its attached delta. \<^verbatim>\<open>copyRootTo\<close> reads the root from the data source of
  the delta, which reads through to the backing data source. The argument \<open>pDelta\<close> is what locking the weak pointer
  to the attached delta gives, \<open>None\<close> when there is none or it has been destroyed.
\<close>

definition copyRootTo :: "(bytes \<Rightarrow> Hash256) \<Rightarrow> MemoryDataSource \<Rightarrow> BasePatriciaTreeDelta \<Rightarrow> TreeNode result" where
  "copyRootTo sha3 backing d =
    bind_result (node_hash sha3 (delta_rootNode d)) (\<lambda>rootHash.
      Inr (if Hash256_zero = rootHash then EmptyNode else delta_get backing d rootHash))"

definition patricia_commit :: "(bytes \<Rightarrow> Hash256) \<Rightarrow> BasePatriciaTree \<Rightarrow> BasePatriciaTreeDelta option
    \<Rightarrow> (BasePatriciaTree \<times> BasePatriciaTreeDelta) result" where
  "patricia_commit sha3 base pDelta =
    bind_result (case pDelta of None \<Rightarrow> Inl runtime_error | Some d \<Rightarrow> Inr d) (\<lambda>d.
    bind_result (setCheckpoint sha3 d) (\<lambda>d.
    bind_result (copyPendingChangesTo sha3 d (base_dataSource base)) (\<lambda>backing.
    bind_result (copyRootTo sha3 backing d) (\<lambda>rootNode.
    bind_result (node_hash sha3 (delta_rootNode d)) (\<lambda>rootHash.
    bind_result (patricia_reset backing rootHash d) (\<lambda>d.
    Inr (base\<lparr>base_dataSource := backing, base_rootNode := rootNode\<rparr>, d)))))))"

definition patricia_rebaseDetached :: "(bytes \<Rightarrow> Hash256) \<Rightarrow> BasePatriciaTree \<Rightarrow> BasePatriciaTreeDelta result" where
  "patricia_rebaseDetached sha3 base =
    bind_result (node_hash sha3 (base_rootNode base)) (\<lambda>root. Inr (BasePatriciaTreeDelta_new (base_dataSource base) root))"

definition patricia_rebase :: "(bytes \<Rightarrow> Hash256) \<Rightarrow> BasePatriciaTree \<Rightarrow> BasePatriciaTreeDelta option \<Rightarrow> BasePatriciaTreeDelta result" where
  "patricia_rebase sha3 base pDelta =
    (if pDelta \<noteq> None then Inl runtime_error
     else bind_result (node_hash sha3 (base_rootNode base)) (\<lambda>root. Inr (BasePatriciaTreeDelta_new (base_dataSource base) root)))"

definition BasePatriciaTree_new :: "MemoryDataSource \<Rightarrow> BasePatriciaTree" where
  "BasePatriciaTree_new dataSource = \<lparr>base_dataSource = dataSource, base_rootNode = EmptyNode\<rparr>"

definition BasePatriciaTree_load :: "MemoryDataSource \<Rightarrow> Hash256 \<Rightarrow> BasePatriciaTree result" where
  "BasePatriciaTree_load dataSource rootHash =
    (let (rootNode, loaded) = tryLoad (memory_get dataSource) rootHash EmptyNode in
     if \<not> loaded then Inl runtime_error else Inr \<lparr>base_dataSource = dataSource, base_rootNode = rootNode\<rparr>)"

end
