(* ===== verification/Patricia_Canonical.thy ===== *)
theory Patricia_Canonical
  imports Patricia_Tree
begin

unbundle bit_operations_syntax

text \<open>
  The trees that patricia nodes stand for, without data sources: a leaf or a branch with up to sixteen
  children, over lists of nibbles. A well-formed tree for keys of \<open>n\<close> nibbles has leaves at that depth only and
  at least two children below every branch. Two well-formed trees with the same content are equal; hence the
  hash of a tree is a function of its content.
\<close>

section \<open>Trees and their content\<close>

datatype ptree = PLeaf "u8 list" Hash256 | PBranch "u8 list" "ptree option list"

fun content :: "ptree \<Rightarrow> u8 list \<Rightarrow> Hash256 option" where
  "content (PLeaf p v) k = (if k = p then Some v else None)"
| "content (PBranch p cs) k =
    (if length p < length k \<and> take (length p) k = p \<and> unat (k ! length p) < length cs
     then case cs ! unat (k ! length p) of None \<Rightarrow> None | Some c \<Rightarrow> content c (drop (Suc (length p)) k)
     else None)"

declare content.simps(2) [simp del]

lemmas content_branch = content.simps(2)

definition occupied :: "'a option list \<Rightarrow> nat set" where
  "occupied cs = {i. i < length cs \<and> cs ! i \<noteq> None}"

inductive wf_tree :: "nat \<Rightarrow> ptree \<Rightarrow> bool" where
  wf_leaf: "length p = n \<Longrightarrow> (\<forall>x \<in> set p. x < 16) \<Longrightarrow> wf_tree n (PLeaf p v)"
| wf_branch: "(\<forall>x \<in> set p. x < 16) \<Longrightarrow> length cs = 16 \<Longrightarrow> 2 \<le> card (occupied cs)
    \<Longrightarrow> (\<forall>i c. i < 16 \<longrightarrow> cs ! i = Some c \<longrightarrow> wf_tree m c) \<Longrightarrow> n = Suc (length p + m) \<Longrightarrow> wf_tree n (PBranch p cs)"

inductive_cases wf_leafE: "wf_tree n (PLeaf p v)"
inductive_cases wf_branchE: "wf_tree n (PBranch p cs)"

lemma content_branch_append:
  assumes "i < 16" and "length cs = 16"
  shows "content (PBranch p cs) (p @ of_nat i # k) = (case cs ! i of None \<Rightarrow> None | Some c \<Rightarrow> content c k)"
proof -
  have "unat (of_nat i :: u8) = i" using assms(1) by (simp add: unat_of_nat)
  moreover have "drop (Suc (length p)) (p @ of_nat i # k) = k" by simp
  ultimately show ?thesis using assms by (cases "cs ! i") (simp_all add: content_branch)
qed

lemma content_branch_SomeD:
  "content (PBranch p cs) k = Some v \<Longrightarrow>
    take (length p) k = p \<and> length p < length k \<and> unat (k ! length p) \<in> occupied cs"
  by (auto simp: occupied_def content_branch split: if_splits option.splits)

lemma content_length: "wf_tree n t \<Longrightarrow> content t k = Some v \<Longrightarrow> length k = n \<and> (\<forall>x \<in> set k. x < 16)"
proof (induction n t arbitrary: k v rule: wf_tree.induct)
  case (wf_branch p cs m n)
  let ?i = "unat (k ! length p)"
  have k: "take (length p) k = p" "length p < length k" "?i < 16" "cs ! ?i \<noteq> None"
    using content_branch_SomeD [OF wf_branch.prems] wf_branch.hyps(2) by (auto simp: occupied_def)
  then obtain c where c: "cs ! ?i = Some c" by auto
  have "content c (drop (Suc (length p)) k) = Some v" using wf_branch.prems k c wf_branch.hyps(2) by (simp add: content_branch)
  then have IH: "length (drop (Suc (length p)) k) = m \<and> (\<forall>x \<in> set (drop (Suc (length p)) k). x < 16)"
    using wf_branch.IH k(3) c by blast
  have "k = p @ k ! length p # drop (Suc (length p)) k" using k(1,2) by (metis id_take_nth_drop)
  moreover have "k ! length p < 16" using k(3) by (simp add: word_less_nat_alt)
  ultimately have "\<forall>x \<in> set k. x < 16" using IH wf_branch.hyps(1) by (metis Un_iff set_ConsD set_append)
  then show ?case using IH k(2) wf_branch.hyps(4) by auto
qed (auto split: if_splits)

lemma occupied_ex: "2 \<le> card (occupied cs) \<Longrightarrow> \<exists>i \<in> occupied cs. \<exists>j \<in> occupied cs. i \<noteq> j"
proof -
  assume two: "2 \<le> card (occupied cs)"
  have "finite (occupied cs)" by (simp add: occupied_def)
  then show ?thesis using two card_le_Suc0_iff_eq [of "occupied cs"] by fastforce
qed

lemma content_nonempty: "wf_tree n t \<Longrightarrow> \<exists>k v. content t k = Some v"
proof (induction n t rule: wf_tree.induct)
  case (wf_branch p cs m n)
  obtain i c where i: "i < 16" "cs ! i = Some c"
    using occupied_ex [OF wf_branch.hyps(3)] wf_branch.hyps(2) by (auto simp: occupied_def)
  then obtain k v where "content c k = Some v" using wf_branch.IH by blast
  then have "content (PBranch p cs) (p @ of_nat i # k) = Some v"
    using content_branch_append [OF i(1) wf_branch.hyps(2)] i(2) by simp
  then show ?case by blast
qed auto

text \<open>A child is determined by the content of its branch.\<close>

lemma child_content:
  assumes "wf_tree n (PBranch p cs)" and "i < 16"
  shows "(cs ! i = None \<longleftrightarrow> (\<forall>k. content (PBranch p cs) (p @ of_nat i # k) = None))
    \<and> (\<forall>c. cs ! i = Some c \<longrightarrow> content c = (\<lambda>k. content (PBranch p cs) (p @ of_nat i # k)))"
proof -
  obtain m where m: "length cs = 16" "\<forall>i c. i < 16 \<longrightarrow> cs ! i = Some c \<longrightarrow> wf_tree m c"
    using assms(1) by (auto elim: wf_branchE)
  note app = content_branch_append [OF assms(2) m(1)]
  show ?thesis
  proof (cases "cs ! i")
    case (Some c)
    then have "wf_tree m c" using m(2) assms(2) by blast
    then obtain k v where "content c k = Some v" using content_nonempty by blast
    then show ?thesis using Some app by (auto simp: fun_eq_iff)
  qed (use app in auto)
qed

text \<open>The path of a branch is the longest common prefix of its keys.\<close>

lemma branch_keys:
  assumes "wf_tree n (PBranch p cs)"
  shows "\<exists>k l v w. content (PBranch p cs) k = Some v \<and> content (PBranch p cs) l = Some w
    \<and> length p < length k \<and> length p < length l \<and> k ! length p \<noteq> l ! length p"
proof -
  obtain m where m: "length cs = 16" "2 \<le> card (occupied cs)" "\<forall>i c. i < 16 \<longrightarrow> cs ! i = Some c \<longrightarrow> wf_tree m c"
    using assms by (auto elim: wf_branchE)
  obtain i j c d where ij: "i < 16" "j < 16" "i \<noteq> j" "cs ! i = Some c" "cs ! j = Some d"
    using occupied_ex [OF m(2)] m(1) by (auto simp: occupied_def)
  obtain k v where "content c k = Some v" using content_nonempty [of m c] m(3) ij(1,4) by blast
  moreover obtain l w where "content d l = Some w" using content_nonempty [of m d] m(3) ij(2,5) by blast
  ultimately have "content (PBranch p cs) (p @ of_nat i # k) = Some v" "content (PBranch p cs) (p @ of_nat j # l) = Some w"
    using content_branch_append [OF ij(1) m(1)] content_branch_append [OF ij(2) m(1)] ij by simp_all
  moreover have "(of_nat i :: u8) \<noteq> of_nat j"
    using ij(1-3) by (auto simp: word_unat_eq_iff unat_of_nat)
  ultimately show ?thesis
    by (intro exI [of _ "p @ of_nat i # k"] exI [of _ "p @ of_nat j # l"] exI [of _ v] exI [of _ w]) simp
qed

lemma branch_prefix: "content (PBranch p cs) k = Some v \<Longrightarrow> length p < length k \<and> take (length p) k = p"
  by (auto dest: content_branch_SomeD)

lemma same_branch_path:
  assumes "wf_tree n (PBranch p cs)" and "content (PBranch p cs) = content (PBranch q ds)" and "wf_tree n (PBranch q ds)"
  shows "length q \<le> length p"
proof (rule ccontr)
  assume "\<not> length q \<le> length p"
  then have lt: "length p < length q" by simp
  obtain k l v w where kl: "content (PBranch p cs) k = Some v" "content (PBranch p cs) l = Some w"
    "k ! length p \<noteq> l ! length p"
    using branch_keys [OF assms(1)] by blast
  then have "take (length q) k = q" "take (length q) l = q" using branch_prefix assms(2) by metis+
  then show False using kl(3) lt by (metis nth_take)
qed

lemma content_leaf_single:
  "content (PLeaf p v) k = Some a \<Longrightarrow> content (PLeaf p v) l = Some b \<Longrightarrow> k = l"
  by (simp split: if_splits)

lemma tree_unique: "wf_tree n s \<Longrightarrow> wf_tree n t \<Longrightarrow> content s = content t \<Longrightarrow> s = t"
proof (induction n s arbitrary: t rule: wf_tree.induct)
  case (wf_leaf p n v)
  show ?case
  proof (cases t)
    case (PLeaf q w)
    have "content (PLeaf q w) q = Some w" by simp
    then show ?thesis using wf_leaf.prems(2) PLeaf by (metis content.simps(1) option.discI option.inject)
  next
    case (PBranch q ds)
    then show ?thesis using branch_keys [of n q ds] wf_leaf.prems content_leaf_single by metis
  qed
next
  case (wf_branch p cs m n)
  have wf: "wf_tree n (PBranch p cs)" by (rule wf_tree.wf_branch) (use wf_branch.hyps wf_branch.IH in auto)
  show ?case
  proof (cases t)
    case (PLeaf q w)
    then show ?thesis using branch_keys [OF wf] wf_branch.prems content_leaf_single by metis
  next
    case (PBranch q ds)
    have same: "content (PBranch p cs) = content (PBranch q ds)" and wf': "wf_tree n (PBranch q ds)"
      using wf_branch.prems PBranch by simp_all
    then have "length p = length q" using same_branch_path [OF wf same wf'] same_branch_path [OF wf' same [symmetric] wf] by simp
    moreover obtain k v where "content (PBranch p cs) k = Some v" using branch_keys [OF wf] by blast
    ultimately have pq: "p = q" using branch_prefix same by metis
    obtain m' where ds: "length ds = 16" "\<forall>i d. i < 16 \<longrightarrow> ds ! i = Some d \<longrightarrow> wf_tree m' d" "n = Suc (length q + m')"
      using wf' by (auto elim: wf_branchE)
    then have m': "m' = m" using wf_branch.hyps(4) pq by simp
    have "cs ! i = ds ! i" if i: "i < 16" for i
    proof (cases "cs ! i")
      case None
      then show ?thesis using child_content [OF wf i] child_content [OF wf' i] same pq by metis
    next
      case (Some c)
      then obtain d where d: "ds ! i = Some d" using child_content [OF wf i] child_content [OF wf' i] same pq by (metis option.exhaust)
      have "content c = content d" using child_content [OF wf i] child_content [OF wf' i] same pq Some d by metis
      then show ?thesis using wf_branch.IH Some d ds(2) m' i by metis
    qed
    then have "cs = ds" using wf_branch.hyps(2) ds(1) by (metis nth_equalityI)
    then show ?thesis using PBranch pq by simp
  qed
qed

section \<open>Content of modified branches\<close>

text \<open>\<open>below p f\<close> moves a content below the prefix \<open>p\<close>.\<close>

definition below :: "u8 list \<Rightarrow> (u8 list \<Rightarrow> Hash256 option) \<Rightarrow> u8 list \<Rightarrow> Hash256 option" where
  "below p f k = (if take (length p) k = p then f (drop (length p) k) else None)"

definition content_opt :: "ptree option \<Rightarrow> u8 list \<Rightarrow> Hash256 option" where
  "content_opt t = (case t of None \<Rightarrow> Map.empty | Some t \<Rightarrow> content t)"

lemma content_opt_simps [simp]: "content_opt None = Map.empty" "content_opt (Some t) = content t"
  by (simp_all add: content_opt_def)

lemma below_append [simp]: "below p f (p @ k) = f k"
  by (simp add: below_def)

lemma below_other: "(\<And>r. k \<noteq> p @ r) \<Longrightarrow> below p f k = None"
  by (metis append_take_drop_id below_def)

lemma content_leaf_below: "content (PLeaf (p @ q) v) = below p (content (PLeaf q v))"
proof
  fix k
  show "content (PLeaf (p @ q) v) k = below p (content (PLeaf q v)) k"
    by (cases "\<exists>r. k = p @ r") (auto simp: below_other split: if_splits)
qed

lemma content_branch_below: "content (PBranch (p @ q) cs) = below p (content (PBranch q cs))"
proof
  fix k
  show "content (PBranch (p @ q) cs) k = below p (content (PBranch q cs)) k"
  proof (cases "\<exists>r. k = p @ r")
    case True
    then obtain r where r: "k = p @ r" by blast
    have "drop (Suc (length (p @ q))) (p @ r) = drop (Suc (length q)) r" by simp
    then show ?thesis unfolding r by (simp add: content_branch nth_append split: option.split)
  next
    case False
    then have "take (length (p @ q)) k \<noteq> p @ q" by (metis append_assoc append_take_drop_id)
    then show ?thesis using False by (simp add: content_branch below_other del: length_append)
  qed
qed

text \<open>Every key of a branch is below one of its slots.\<close>

lemma content_slot: "i < 16 \<Longrightarrow> length cs = 16 \<Longrightarrow> content (PBranch p cs) (p @ of_nat i # k) = content_opt (cs ! i) k"
  by (cases "cs ! i") (simp_all add: content_branch_append)

lemma content_other:
  assumes "\<And>j r. j < 16 \<Longrightarrow> k \<noteq> p @ of_nat j # r" and "length cs = 16"
  shows "content (PBranch p cs) k = None"
proof (rule ccontr)
  assume "content (PBranch p cs) k \<noteq> None"
  then obtain v where "content (PBranch p cs) k = Some v" by auto
  from content_branch_SomeD [OF this] have "unat (k ! length p) < 16" "k = p @ k ! length p # drop (Suc (length p)) k"
    using assms(2) by (auto simp: occupied_def) (metis id_take_nth_drop)
  then show False using assms(1) [of "unat (k ! length p)"] by simp
qed

lemma of_nat_nibble_eq: "i < 16 \<Longrightarrow> j < 16 \<Longrightarrow> (of_nat i :: u8) = of_nat j \<longleftrightarrow> i = j"
  by (auto simp: word_unat_eq_iff unat_of_nat)

lemma content_branch_eqI:
  assumes "length cs = 16" and "\<And>i k. i < 16 \<Longrightarrow> content_opt (cs ! i) k = f (p @ of_nat i # k)"
    and "\<And>k. (\<And>j r. j < 16 \<Longrightarrow> k \<noteq> p @ of_nat j # r) \<Longrightarrow> f k = None"
  shows "content (PBranch p cs) = f"
proof
  fix k
  show "content (PBranch p cs) k = f k"
  proof (cases "\<exists>j r. j < 16 \<and> k = p @ of_nat j # r")
    case True
    then show ?thesis using assms(1,2) by (auto simp: content_slot)
  next
    case False
    then show ?thesis using assms(1,3) by (auto simp: content_other)
  qed
qed

lemma content_update:
  assumes "length cs = 16" and "i < 16" and "content_opt c = (content_opt (cs ! i))(k := v)"
  shows "content (PBranch p (cs[i := c])) = (content (PBranch p cs))(p @ of_nat i # k := v)"
proof (rule content_branch_eqI)
  show "content_opt (cs[i := c] ! j) l = ((content (PBranch p cs))(p @ of_nat i # k := v)) (p @ of_nat j # l)" if "j < 16" for j l
    using that assms by (auto simp: content_slot nth_list_update of_nat_nibble_eq)
  show "((content (PBranch p cs))(p @ of_nat i # k := v)) l = None" if "\<And>j r. j < 16 \<Longrightarrow> l \<noteq> p @ of_nat j # r" for l
    using that assms(1,2) by (simp add: content_other)
qed (use assms in simp)

text \<open>A branch with two occupied slots.\<close>

lemma content_two:
  assumes "i < 16" and "j < 16" and "i \<noteq> j" and "length cs = 16" and "cs ! i = Some a" and "cs ! j = Some b"
    and "\<And>l. l < 16 \<Longrightarrow> l \<noteq> i \<Longrightarrow> l \<noteq> j \<Longrightarrow> cs ! l = None"
  shows "content (PBranch p cs) = below (p @ [of_nat i]) (content a) ++ below (p @ [of_nat j]) (content b)"
proof (rule content_branch_eqI)
  fix l k assume l: "l < (16 :: nat)"
  have "below (p @ [of_nat m]) (content c) (p @ of_nat l # k) = (if l = m then content c k else None)" if "m < 16" for m c
    using that l below_append [of "p @ [of_nat m]" "content c" k]
    by (auto simp: of_nat_nibble_eq intro!: below_other)
  then show "content_opt (cs ! l) k = (below (p @ [of_nat i]) (content a) ++ below (p @ [of_nat j]) (content b)) (p @ of_nat l # k)"
    using assms l by (auto simp: map_add_def split: option.split)
next
  fix k assume "\<And>j r. j < (16 :: nat) \<Longrightarrow> k \<noteq> p @ of_nat j # r"
  then show "(below (p @ [of_nat i]) (content a) ++ below (p @ [of_nat j]) (content b)) k = None"
    using assms(1,2) by (auto simp: map_add_def below_other)
qed (use assms in simp)

lemma wf_branch_update:
  assumes "wf_tree n (PBranch p cs)" and "i < 16" and "wf_tree m c" and "n = Suc (length p + m)"
  shows "wf_tree n (PBranch p (cs[i := Some c]))"
proof -
  obtain m' where cs: "\<forall>x \<in> set p. x < 16" "length cs = 16" "2 \<le> card (occupied cs)"
    "\<forall>i c. i < 16 \<longrightarrow> cs ! i = Some c \<longrightarrow> wf_tree m' c" "n = Suc (length p + m')"
    using assms(1) by (auto elim: wf_branchE)
  have "occupied cs \<subseteq> occupied (cs[i := Some c])" using assms(2) cs(2) by (auto simp: occupied_def nth_list_update)
  then have "card (occupied cs) \<le> card (occupied (cs[i := Some c]))" by (rule card_mono [rotated]) (simp add: occupied_def)
  then show ?thesis
    using cs assms(2-4) by (intro wf_tree.wf_branch [where m = m]) (auto simp: nth_list_update)
qed

lemma wf_branch_two:
  assumes "i < 16" and "j < 16" and "i \<noteq> j" and "wf_tree m a" and "wf_tree m b" and "\<forall>x \<in> set p. x < 16" and "n = Suc (length p + m)"
  shows "wf_tree n (PBranch p ((replicate 16 None)[i := Some a, j := Some b]))"
proof (rule wf_tree.wf_branch [where m = m])
  have "occupied ((replicate 16 None)[i := Some a, j := Some b]) = {i, j}"
    using assms(1-3) by (auto simp: occupied_def nth_list_update split: if_splits)
  then show "2 \<le> card (occupied ((replicate 16 None)[i := Some a, j := Some b]))" using assms(3) by simp
qed (use assms in \<open>auto simp: nth_list_update split: if_splits\<close>)

end
