(* ===== verification/Patricia_Refinement.thy ===== *)
theory Patricia_Refinement
  imports Patricia_Canonical
begin

unbundle bit_operations_syntax

text \<open>
  The operations on nodes refine the trees of \<^verbatim>\<open>Patricia_Canonical\<close>: which tree a node stands for, given a data
  source; its hash; and setting, removing and looking up a key.
\<close>

section \<open>Hashes\<close>

fun pack :: "u8 list \<Rightarrow> bytes" where
  "pack (h # l # ns) = (push_bit 4 h + l) # pack ns"
| "pack _ = []"

definition key_bytes :: "bool \<Rightarrow> u8 list \<Rightarrow> bytes" where
  "key_bytes isLeaf ns =
    (let first = (if isLeaf then 0x20 else 0) in
     if odd (length ns) then (first OR 0x10 OR hd ns) # pack (tl ns) else first # pack ns)"

lemma UpdateEncodedKey_loop_step:
  assumes "path_ok path" and "Suc i < path_size path" and "length buffer = 8"
    and "buffer' = buffer[counter := push_bit 4 (nibbles path ! i) + nibbles path ! Suc i]"
  shows "UpdateEncodedKey_loop path i (builder, buffer, counter) = (if 8 = counter + 1
    then UpdateEncodedKey_loop path (i + 2) (builder @ buffer', buffer', 0)
    else UpdateEncodedKey_loop path (i + 2) (builder, buffer', counter + 1))"
  using assms nibbleAt_ok [of path i] nibbleAt_ok [of path "Suc i"]
  by (subst UpdateEncodedKey_loop.simps) (simp add: Let_def)

lemma UpdateEncodedKey_loop_ok:
  assumes "path_ok path"
  shows "i \<le> path_size path \<Longrightarrow> even (path_size path - i) \<Longrightarrow> length buffer = 8 \<Longrightarrow> counter < 8
    \<Longrightarrow> \<exists>builder' buffer' counter'. UpdateEncodedKey_loop path i (builder, buffer, counter) = Inr (builder', buffer', counter')
      \<and> builder' @ take counter' buffer' = builder @ take counter buffer @ pack (drop i (nibbles path))"
proof (induction "path_size path - i" arbitrary: i builder buffer counter rule: less_induct)
  case less
  show ?case
  proof (cases "i < path_size path")
    case False
    then show ?thesis using less.prems by (subst UpdateEncodedKey_loop.simps) simp
  next
    case True
    then have lt: "Suc i < path_size path" using less.prems(2) by presburger
    let ?h = "nibbles path ! i" and ?l = "nibbles path ! Suc i"
    define buffer' where "buffer' = buffer[counter := push_bit 4 ?h + ?l]"
    have drop: "drop i (nibbles path) = ?h # ?l # drop (i + 2) (nibbles path)"
      using lt by (metis Cons_nth_drop_Suc True add_2_eq_Suc' length_nibbles)
    have take: "take (Suc counter) buffer' = take counter buffer @ [push_bit 4 ?h + ?l]" and len: "length buffer' = 8"
      using less.prems(3,4) by (simp_all add: buffer'_def take_Suc_conv_app_nth)
    note step = UpdateEncodedKey_loop_step [OF assms lt less.prems(3) buffer'_def, of builder]
    have more: "path_size path - (i + 2) < path_size path - i" "i + 2 \<le> path_size path" "even (path_size path - (i + 2))"
      using lt less.prems(2) by simp_all
    show ?thesis
    proof (cases "8 = counter + 1")
      case True
      then have "buffer' = take counter buffer @ [push_bit 4 ?h + ?l]" using take len by simp
      then show ?thesis using less.hyps [OF more len, of 0 "builder @ buffer'"] step True drop by simp
    next
      case False
      then have "counter + 1 < 8" using less.prems(4) by simp
      from less.hyps [OF more len this, of builder] show ?thesis using step False drop take by simp
    qed
  qed
qed

lemma UpdateEncodedKey_ok [simp]:
  assumes "path_ok path"
  shows "UpdateEncodedKey builder path isLeaf = Inr (builder @ key_bytes isLeaf (nibbles path))"
proof -
  let ?first = "(if isLeaf then 0x20 else 0) :: u8"
  let ?odd = "odd (path_size path)"
  let ?i = "if ?odd then 1 else 0" and ?f = "if ?odd then (?first OR 0x10) OR nibbles path ! 0 else ?first"
  have "?i \<le> path_size path" "even (path_size path - ?i)" by (auto simp: Suc_leI odd_pos)
  from UpdateEncodedKey_loop_ok [OF assms this, of "(replicate 8 0)[0 := ?f]" 1 builder]
  obtain builder' buffer' counter' where
    run: "UpdateEncodedKey_loop path ?i (builder, (replicate 8 0)[0 := ?f], 1) = Inr (builder', buffer', counter')"
    and out: "builder' @ take counter' buffer' = builder @ take 1 ((replicate 8 0)[0 := ?f]) @ pack (drop ?i (nibbles path))"
    by auto
  have "key_bytes isLeaf (nibbles path) = ?f # pack (drop ?i (nibbles path))"
  proof (cases ?odd)
    case True
    then have "nibbles path \<noteq> []" by (metis even_zero length_nibbles list.size(3))
    then show ?thesis using True by (simp add: key_bytes_def Let_def hd_conv_nth drop_Suc or.assoc)
  next
    case False
    then show ?thesis by (simp add: key_bytes_def Let_def)
  qed
  moreover have "builder' @ take counter' buffer' = builder @ ?f # pack (drop ?i (nibbles path))"
    unfolding out by (simp add: eval_nat_numeral)
  ultimately show ?thesis
    using run nibbleAt_ok [OF assms, of 0]
    by (cases ?odd) (auto simp: UpdateEncodedKey_def Let_def odd_iff_mod_2_eq_one odd_pos split: if_splits)
qed

fun tree_hash :: "(bytes \<Rightarrow> Hash256) \<Rightarrow> ptree \<Rightarrow> Hash256" where
  "tree_hash sha3 (PLeaf ns v) = sha3 (key_bytes True ns @ v)"
| "tree_hash sha3 (PBranch ns cs) =
    sha3 (key_bytes False ns @ concat (map (\<lambda>c. case c of None \<Rightarrow> Hash256_zero | Some c \<Rightarrow> tree_hash sha3 c) cs))"

section \<open>The tree of a node\<close>

text \<open>
  A slot of a branch is free, holds a node in memory, or holds the hash of a tree under which the data source
  has a node for that tree. The link of a slot with a node in memory is not used.
\<close>

inductive rep :: "(bytes \<Rightarrow> Hash256) \<Rightarrow> (Hash256 \<Rightarrow> TreeNode) \<Rightarrow> TreeNode \<Rightarrow> ptree \<Rightarrow> bool"
  and slot :: "(bytes \<Rightarrow> Hash256) \<Rightarrow> (Hash256 \<Rightarrow> TreeNode) \<Rightarrow> Hash256 \<Rightarrow> TreeNode option \<Rightarrow> bool \<Rightarrow> ptree option \<Rightarrow> bool"
  for sha3 :: "bytes \<Rightarrow> Hash256" and get :: "Hash256 \<Rightarrow> TreeNode" where
  rep_leaf: "path_ok p \<Longrightarrow> rep sha3 get (LeafNode p v) (PLeaf (nibbles p) v)"
| rep_branch: "path_ok p \<Longrightarrow> length links = 16 \<Longrightarrow> length linked = 16 \<Longrightarrow> length linkSet = 16 \<Longrightarrow> length cs = 16
    \<Longrightarrow> (\<forall>i < 16. slot sha3 get (links ! i) (linked ! i) (linkSet ! i) (cs ! i))
    \<Longrightarrow> rep sha3 get (BranchNode p links linked linkSet) (PBranch (nibbles p) cs)"
| slot_free: "slot sha3 get Hash256_zero None False None"
| slot_memory: "rep sha3 get nd c \<Longrightarrow> slot sha3 get link (Some nd) True (Some c)"
| slot_stored: "rep sha3 get (get (tree_hash sha3 c)) c \<Longrightarrow> slot sha3 get (tree_hash sha3 c) None True (Some c)"

inductive_cases rep_leafE: "rep sha3 get (LeafNode p v) t"
inductive_cases rep_branchE: "rep sha3 get (BranchNode p links linked linkSet) t"
inductive_cases rep_PBranchE: "rep sha3 get nd (PBranch ns cs)"
inductive_cases rep_PLeafE: "rep sha3 get nd (PLeaf ns v)"
inductive_simps rep_empty [simp]: "rep sha3 get EmptyNode t"
inductive_cases slotE: "slot sha3 get link linked present c"

lemma rep_path: "rep sha3 get nd t \<Longrightarrow> path_ok (node_path nd)"
  by (cases nd) (auto elim: rep_leafE rep_branchE)

lemma foldM_concat:
  assumes "length xs = length ys" and "\<And>i b. i < length xs \<Longrightarrow> f (xs ! i) b = Inr (b @ ys ! i)"
  shows "foldM f xs b = Inr (b @ concat ys)"
  using assms
proof (induction xs ys arbitrary: b rule: list_induct2)
  case (Cons x xs y ys)
  have "f x b = Inr (b @ y)" using Cons.prems [of 0] by simp
  moreover have "foldM f xs (b @ y) = Inr ((b @ y) @ concat ys)" using Cons.prems [of "Suc i" for i] by (intro Cons.IH) auto
  ultimately show ?case by simp
qed simp

lemma rep_hash:
  "rep sha3 get nd t \<Longrightarrow> node_hash sha3 nd = Inr (tree_hash sha3 t)"
  "slot sha3 get link linked present c \<Longrightarrow>
    (case linked of None \<Rightarrow> Inr link | Some nd \<Rightarrow> node_hash sha3 nd)
      = Inr (case c of None \<Rightarrow> Hash256_zero | Some c \<Rightarrow> tree_hash sha3 c)"
proof (induction rule: rep_slot.inducts)
  case (rep_leaf p v)
  then show ?case by (simp add: CalculateLeafTreeNodeHash_def)
next
  case (rep_branch p links linked linkSet cs)
  let ?hs = "map (\<lambda>c. case c of None \<Rightarrow> Hash256_zero | Some c \<Rightarrow> tree_hash sha3 c) cs"
  have "foldM (\<lambda>(link, node) builder. case node of None \<Rightarrow> Inr (builder @ link)
      | Some nd \<Rightarrow> bind_result (node_hash sha3 nd) (\<lambda>h. Inr (builder @ h))) (zip links linked) b = Inr (b @ concat ?hs)" for b
  proof (rule foldM_concat)
    show "length (zip links linked) = length ?hs" using rep_branch.hyps by simp
    fix i b assume "i < length (zip links linked)"
    then have i: "i < 16" using rep_branch.hyps by simp
    then have "(case linked ! i of None \<Rightarrow> Inr (links ! i) | Some nd \<Rightarrow> node_hash sha3 nd) = Inr (?hs ! i)"
      using rep_branch by simp
    then show "(case zip links linked ! i of (link, node) \<Rightarrow> \<lambda>builder. case node of None \<Rightarrow> Inr (builder @ link)
        | Some nd \<Rightarrow> bind_result (node_hash sha3 nd) (\<lambda>h. Inr (builder @ h))) b = Inr (b @ ?hs ! i)"
      using i rep_branch.hyps by (cases "linked ! i") auto
  qed
  then show ?case using rep_branch.hyps by simp
qed auto

text \<open>Reading a slot.\<close>

lemma getLinkedNode_rep:
  assumes zero: "get Hash256_zero = EmptyNode" and rep: "rep sha3 get (BranchNode p links linked linkSet) (PBranch ns cs)"
    and i: "i < 16"
  shows "case cs ! i of None \<Rightarrow> getLinkedNode sha3 get (BranchNode p links linked linkSet) i = Inr EmptyNode
    | Some c \<Rightarrow> \<exists>nd. getLinkedNode sha3 get (BranchNode p links linked linkSet) i = Inr nd \<and> \<not> node_empty nd \<and> rep sha3 get nd c"
proof -
  have "slot sha3 get (links ! i) (linked ! i) (linkSet ! i) (cs ! i)" using rep i by (auto elim: rep_branchE)
  then show ?thesis
  proof cases
    case (slot_stored c)
    then have "get (tree_hash sha3 c) \<noteq> EmptyNode" by auto
    then show ?thesis using slot_stored by (auto simp: getLinkedNode_def linkedNode_def branch_link_def node_empty_def)
  qed (auto simp: getLinkedNode_def linkedNode_def branch_link_def node_empty_def zero)
qed

lemma rep_branchD:
  assumes "rep sha3 get (BranchNode p links linked linkSet) (PBranch ns cs)"
  shows "path_ok p \<and> ns = nibbles p \<and> length links = 16 \<and> length linked = 16 \<and> length linkSet = 16 \<and> length cs = 16
    \<and> (\<forall>i < 16. slot sha3 get (links ! i) (linked ! i) (linkSet ! i) (cs ! i))"
  using assms by (auto elim: rep_branchE)

lemma rep_setLink:
  assumes "rep sha3 get (BranchNode p links linked linkSet) (PBranch ns cs)" and "i < 16" and "rep sha3 get nd c"
  shows "rep sha3 get (setLink_node nd i (BranchNode p links linked linkSet)) (PBranch ns (cs[i := Some c]))"
proof -
  note b = rep_branchD [OF assms(1)]
  then have "rep sha3 get (BranchNode p links (linked[i := Some nd]) (linkSet[i := True])) (PBranch (nibbles p) (cs[i := Some c]))"
    using assms(2,3) by (intro rep_branch) (auto simp: nth_list_update intro: slot_memory)
  then show ?thesis using b by simp
qed

lemma rep_new:
  assumes "path_ok p"
  shows "rep sha3 get (BranchTreeNode_new p) (PBranch (nibbles p) (replicate 16 None))"
  unfolding BranchTreeNode_new_def Max_Links_def using assms by (intro rep_branch) (auto intro: slot_free)

lemma rep_clearLink:
  assumes "rep sha3 get (BranchNode p links linked linkSet) (PBranch ns cs)" and "i < 16"
  shows "rep sha3 get (clearLink i (BranchNode p links linked linkSet)) (PBranch ns (cs[i := None]))"
proof -
  note b = rep_branchD [OF assms(1)]
  then have "rep sha3 get (BranchNode p (links[i := Hash256_zero]) (linked[i := None]) (linkSet[i := False]))
      (PBranch (nibbles p) (cs[i := None]))"
    using assms(2) by (intro rep_branch) (auto simp: nth_list_update intro: slot_free)
  then show ?thesis using b by (simp add: clearLink_def)
qed

section \<open>Lookup\<close>

lemma wf_path_less: "wf_tree n (PBranch p cs) \<Longrightarrow> length p < n"
  by (auto elim: wf_branchE)

lemma nibble_index: "path_ok k \<Longrightarrow> i < path_size k \<Longrightarrow> unat (nibbles k ! i) < 16"
  using nibbles_less [of "nibbles k ! i" k] by (simp add: word_less_nat_alt)

lemma key_split:
  assumes "path_ok k" and "difference p (nibbles k) = length p" and "length p < path_size k"
  shows "nibbles k = p @ of_nat (unat (nibbles k ! length p)) # drop (Suc (length p)) (nibbles k)"
proof -
  have "take (length p) (nibbles k) = p" using assms(2) by (simp add: difference_prefix)
  then have "nibbles k = p @ nibbles k ! length p # drop (Suc (length p)) (nibbles k)"
    using assms(3) by (metis id_take_nth_drop length_nibbles)
  then show ?thesis by simp
qed

text \<open>
  A key that leaves the path of a branch is looked up below the child at the first different nibble, with a
  rest that is longer than every key of that child; hence it is not found.
\<close>

lemma lookup_rep:
  assumes zero: "get Hash256_zero = EmptyNode"
  shows "wf_tree n t \<Longrightarrow> rep sha3 get nd t \<Longrightarrow> path_ok k \<Longrightarrow> n \<le> path_size k
    \<Longrightarrow> \<exists>ns. tree_lookup sha3 get nd k acc = Inr (content t (nibbles k), acc @ ns)"
proof (induction n t arbitrary: nd k acc rule: wf_tree.induct)
  case (wf_leaf p n v)
  then obtain q where nd: "nd = LeafNode q v" "path_ok q" "p = nibbles q" by (auto elim: rep_PLeafE)
  have "difference p (nibbles k) = path_size k \<longleftrightarrow> nibbles k = p"
    using difference_prefix [of "nibbles k" p] difference_le(1) [of p "nibbles k"] wf_leaf.prems(3) wf_leaf.hyps(1)
    by (auto simp: difference_commute [of p])
  then show ?case
    using nd wf_leaf.prems by (subst tree_lookup.simps) (auto simp: node_empty_def Let_def)
next
  case (wf_branch p cs m n)
  obtain q links linked linkSet where nd: "nd = BranchNode q links linked linkSet" "path_ok q" "p = nibbles q"
    using wf_branch.prems(1) by (auto elim: rep_PBranchE)
  let ?d = "difference p (nibbles k)"
  have d: "?d \<le> length p" by (rule difference_le)
  have lt: "?d < path_size k" using d wf_branch.hyps(4) wf_branch.prems(3) by simp
  define i where "i = unat (nibbles k ! ?d)"
  have i: "i < 16" using nibble_index [OF wf_branch.prems(2) lt] by (simp add: i_def)
  obtain k' where k': "subpath_from k (?d + 1) = Inr k'" "path_ok k'" "nibbles k' = drop (Suc ?d) (nibbles k)"
    using subpath_from_ok [OF wf_branch.prems(2), of "?d + 1"] lt by auto
  have size: "path_size k' = path_size k - Suc ?d" using k'(3) by (metis length_drop length_nibbles)
  have run: "tree_lookup sha3 get nd k acc = bind_result (getLinkedNode sha3 get nd i) (\<lambda>next.
      if node_empty next then Inr (None, acc @ [nd]) else tree_lookup sha3 get next k' (acc @ [nd]))"
    using nd wf_branch.prems(2) k'(1) nibbleAt_ok [OF wf_branch.prems(2) lt]
    by (subst tree_lookup.simps) (simp add: node_empty_def i_def Let_def cong: if_cong)
  have split: "content (PBranch p cs) (nibbles k) = content_opt (cs ! i) (nibbles k')" if "?d = length p"
  proof -
    have "nibbles k = p @ of_nat i # nibbles k'"
      using key_split [OF wf_branch.prems(2) that] lt k'(3) that by (simp add: i_def)
    then show ?thesis using content_slot [OF i wf_branch.hyps(2)] by simp
  qed
  have off: "content (PBranch p cs) (nibbles k) = None" if "?d \<noteq> length p"
    using that by (simp add: content_branch difference_prefix)
  note linked = getLinkedNode_rep [of get sha3 q links linked linkSet p cs i, OF zero]
  show ?case
  proof (cases "cs ! i")
    case None
    then have "getLinkedNode sha3 get nd i = Inr EmptyNode" using linked wf_branch.prems(1) nd i by simp
    moreover have "content (PBranch p cs) (nibbles k) = None" using split off None by (cases "?d = length p") auto
    ultimately show ?thesis using run by (simp add: node_empty_def)
  next
    case (Some c)
    then obtain nd' where nd': "getLinkedNode sha3 get nd i = Inr nd'" "\<not> node_empty nd'" "rep sha3 get nd' c"
      using linked wf_branch.prems(1) nd i by auto
    have "m \<le> path_size k'" using size d wf_branch.hyps(4) wf_branch.prems(3) by simp
    then obtain ns where look: "tree_lookup sha3 get nd' k' (acc @ [nd]) = Inr (content c (nibbles k'), (acc @ [nd]) @ ns)"
      using wf_branch.IH i Some nd'(3) k'(2) by blast
    have "content c (nibbles k') = content (PBranch p cs) (nibbles k)"
    proof (cases "?d = length p")
      case False
      then have "m < path_size k'" using size d wf_branch.hyps(4) wf_branch.prems(3) by simp
      then have "content c (nibbles k') = None"
        using content_length [of m c "nibbles k'"] wf_branch.IH i Some by (metis length_nibbles less_irrefl not_Some_eq)
      then show ?thesis using off [OF False] by simp
    qed (use split Some in simp)
    then show ?thesis using run nd'(1,2) look by simp
  qed
qed

section \<open>Setting a value\<close>

definition set_spec :: "(bytes \<Rightarrow> Hash256) \<Rightarrow> (Hash256 \<Rightarrow> TreeNode) \<Rightarrow> nat \<Rightarrow> (u8 list \<Rightarrow> Hash256 option) \<Rightarrow> TreeNode result \<Rightarrow> bool" where
  "set_spec sha3 get n m r \<longleftrightarrow> (\<exists>nd t. r = Inr nd \<and> rep sha3 get nd t \<and> wf_tree n t \<and> content t = m)"

lemma set_specI: "r = Inr nd \<Longrightarrow> rep sha3 get nd t \<Longrightarrow> wf_tree n t \<Longrightarrow> content t = m \<Longrightarrow> set_spec sha3 get n m r"
  by (auto simp: set_spec_def)

lemma wf_new_leaf: "path_ok k \<Longrightarrow> wf_tree (path_size k) (PLeaf (nibbles k) v)"
  by (rule wf_leaf) (auto dest: nibbles_less)

lemma content_singleton: "content (PLeaf p v) = [p \<mapsto> v]"
  by (auto simp: fun_eq_iff)

text \<open>A node that is split off below the first different nibble.\<close>

lemma split_spec:
  assumes d: "d < length p" "d < path_size k" "p ! d \<noteq> nibbles k ! d" "take d p = take d (nibbles k)" "\<forall>x \<in> set p. x < 16"
    and k: "path_ok k" "path_size k = n" and shared: "path_ok shared" "nibbles shared = take d p"
    and k': "path_ok k'" "nibbles k' = drop (Suc d) (nibbles k)"
    and old: "rep sha3 get nd t" "wf_tree (n - Suc d) t" "m = below (take d p @ [p ! d]) (content t)"
  shows "set_spec sha3 get n (m(nibbles k \<mapsto> v))
    (Inr (setLink_node nd (unat (p ! d)) (setLink_node (LeafNode k' v) (unat (nibbles k ! d)) (BranchTreeNode_new shared))))"
    and "set_spec sha3 get n (m(nibbles k \<mapsto> v))
    (Inr (setLink_node (LeafNode k' v) (unat (nibbles k ! d)) (setLink_node nd (unat (p ! d)) (BranchTreeNode_new shared))))"
proof -
  let ?i = "unat (p ! d)" and ?j = "unat (nibbles k ! d)"
  have ij: "?i < 16" "?j < 16" "?i \<noteq> ?j"
    using d nibble_index [OF k(1) d(2)] by (simp_all add: word_less_nat_alt word_unat_eq_iff)
  have leaf: "rep sha3 get (LeafNode k' v) (PLeaf (nibbles k') v)" using k'(1) by (rule rep_leaf)
  have "path_size k' = n - Suc d" using k'(2) k(2) by (metis length_drop length_nibbles)
  then have wf': "wf_tree (n - Suc d) (PLeaf (nibbles k') v)" using wf_new_leaf [OF k'(1)] by metis
  let ?cs = "(replicate 16 None)[?j := Some (PLeaf (nibbles k') v), ?i := Some t]"
  let ?ds = "(replicate 16 None)[?i := Some t, ?j := Some (PLeaf (nibbles k') v)]"
  have swap: "?ds = ?cs" using ij(3) by (simp add: list_update_swap)
  obtain p0 l0 n0 s0 where new: "BranchTreeNode_new shared = BranchNode p0 l0 n0 s0" by (simp add: BranchTreeNode_new_def)
  note free = rep_new [OF shared(1), of sha3 get, unfolded new]
  have "rep sha3 get (setLink_node nd ?i (setLink_node (LeafNode k' v) ?j (BranchTreeNode_new shared))) (PBranch (nibbles shared) ?cs)"
    using rep_setLink [OF free ij(2) leaf] by (simp add: new rep_setLink [OF _ ij(1) old(1), simplified])
  moreover have "rep sha3 get (setLink_node (LeafNode k' v) ?j (setLink_node nd ?i (BranchTreeNode_new shared))) (PBranch (nibbles shared) ?cs)"
    using rep_setLink [OF free ij(1) old(1)] by (simp add: new rep_setLink [OF _ ij(2) leaf, simplified] swap [symmetric])
  moreover have "wf_tree n (PBranch (nibbles shared) ?cs)"
    using ij old(2) wf' d(1,2,5) k(2) shared(2)
    by (intro wf_branch_two [where m = "n - Suc d"]) (auto dest: in_set_takeD)
  moreover have "content (PBranch (nibbles shared) ?cs) = m(nibbles k \<mapsto> v)"
  proof -
    have "below (take d p @ [nibbles k ! d]) (content (PLeaf (nibbles k') v)) = content (PLeaf (nibbles k) v)"
      using content_leaf_below [of "take d p @ [nibbles k ! d]" "nibbles k'" v] d(2,4) k'(2)
      by (simp add: id_take_nth_drop [symmetric])
    then have "content (PBranch (nibbles shared) ?cs) = m ++ content (PLeaf (nibbles k) v)"
      using content_two [of ?i ?j ?cs t "PLeaf (nibbles k') v" "nibbles shared"] ij shared(2) old(3)
      by (simp add: nth_list_update)
    then show ?thesis by (simp add: content_singleton)
  qed
  ultimately show "set_spec sha3 get n (m(nibbles k \<mapsto> v))
      (Inr (setLink_node nd ?i (setLink_node (LeafNode k' v) ?j (BranchTreeNode_new shared))))"
    and "set_spec sha3 get n (m(nibbles k \<mapsto> v))
      (Inr (setLink_node (LeafNode k' v) ?j (setLink_node nd ?i (BranchTreeNode_new shared))))"
    by (auto simp: set_spec_def)
qed

lemma set_empty:
  assumes "path_ok k"
  shows "set_spec sha3 get (path_size k) [nibbles k \<mapsto> v] (tree_set sha3 get EmptyNode k v)"
  by (rule set_specI [where nd = "LeafNode k v" and t = "PLeaf (nibbles k) v"])
    (use assms in \<open>auto simp: tree_set.simps wf_new_leaf content_singleton intro: rep_leaf\<close>)

lemma set_leaf:
  assumes leaf: "path_ok q" "wf_tree n (PLeaf (nibbles q) w)" and k: "path_ok k" "path_size k = n"
  shows "set_spec sha3 get n ((content (PLeaf (nibbles q) w))(nibbles k \<mapsto> v)) (tree_set sha3 get (LeafNode q w) k v)"
proof (cases "nibbles q = nibbles k")
  case True
  then have "tree_set sha3 get (LeafNode q w) k v = Inr (LeafNode k v)"
    using leaf(1) k(1) by (simp add: tree_set.simps)
  then show ?thesis
    using k wf_new_leaf [OF k(1)] True
    by (intro set_specI [where nd = "LeafNode k v" and t = "PLeaf (nibbles k) v"]) (auto simp: content_singleton intro: rep_leaf)
next
  case False
  let ?d = "difference (nibbles q) (nibbles k)"
  have len: "path_size q = n" and small: "\<forall>x \<in> set (nibbles q). x < 16" using leaf(2) by (auto elim: wf_leafE)
  have "?d \<noteq> path_size q"
    using False len k(2) difference_prefix [of "nibbles q" "nibbles k"] by (metis length_nibbles order_refl take_all)
  then have d: "?d < path_size q" using difference_le(1) [of "nibbles q" "nibbles k"] by simp
  then have d': "?d < path_size k" using len k(2) by simp
  obtain shared where shared: "subpath q 0 ?d = Inr shared" "path_ok shared" "nibbles shared = take ?d (nibbles q)"
    using subpath_ok [OF leaf(1), of 0 ?d] d by auto
  obtain q' where q': "subpath_from q (?d + 1) = Inr q'" "path_ok q'" "nibbles q' = drop (Suc ?d) (nibbles q)"
    using subpath_from_ok [OF leaf(1), of "?d + 1"] d by auto
  obtain k' where k': "subpath_from k (?d + 1) = Inr k'" "path_ok k'" "nibbles k' = drop (Suc ?d) (nibbles k)"
    using subpath_from_ok [OF k(1), of "?d + 1"] d' by auto
  have run: "tree_set sha3 get (LeafNode q w) k v = Inr (setLink_node (LeafNode k' v) (unat (nibbles k ! ?d))
      (setLink_node (LeafNode q' w) (unat (nibbles q ! ?d)) (BranchTreeNode_new shared)))"
    using leaf(1) k(1) False shared(1) q'(1) k'(1) nibbleAt_ok [OF leaf(1) d] nibbleAt_ok [OF k(1) d']
    by (simp add: tree_set.simps branchLeafNode_def)
  have "path_size q' = n - Suc ?d" using q'(3) len by (metis length_drop length_nibbles)
  then have wf': "wf_tree (n - Suc ?d) (PLeaf (nibbles q') w)" using wf_new_leaf [OF q'(2)] by metis
  have "nibbles q = (take ?d (nibbles q) @ [nibbles q ! ?d]) @ nibbles q'"
    using d q'(3) by (simp add: id_take_nth_drop)
  then have m: "content (PLeaf (nibbles q) w) = below (take ?d (nibbles q) @ [nibbles q ! ?d]) (content (PLeaf (nibbles q') w))"
    using content_leaf_below by metis
  show ?thesis
    unfolding run
    using d d' difference_nth [of "nibbles q" "nibbles k"] difference_take [of "nibbles q" "nibbles k"] small
    by (intro split_spec(2) [OF _ _ _ _ _ k shared(2,3) k'(2,3) rep_leaf [OF q'(2)] wf' m]) simp_all
qed

lemma set_consumed:
  assumes q: "path_ok q" and k: "path_ok k" "difference (nibbles q) (nibbles k) = path_size q" "path_size q < path_size k"
  shows "\<exists>k'. path_ok k' \<and> nibbles k' = drop (Suc (path_size q)) (nibbles k)
    \<and> tree_set sha3 get (BranchNode q links linked linkSet) k v
      = bind_result (getLinkedNode sha3 get (BranchNode q links linked linkSet) (unat (nibbles k ! path_size q))) (\<lambda>next.
        bind_result (tree_set sha3 get next k' v) (\<lambda>updated.
        Inr (setLink_node updated (unat (nibbles k ! path_size q)) (BranchNode q links linked linkSet))))"
proof (cases "path_size q = 0")
  case True
  obtain k' where k': "subpath_from k 1 = Inr k'" "path_ok k'" "nibbles k' = drop 1 (nibbles k)"
    using subpath_from_ok [OF k(1), of 1] k(3) by auto
  then show ?thesis
    using True q k nibbleAt_ok [OF k(1), of 0]
    by (intro exI [of _ k']) (simp add: tree_set.simps [of _ _ "BranchNode q links linked linkSet"]
        updateBranchLink.simps insertNewPairIntoBranch.simps path_empty_def Let_def)
next
  case False
  obtain kc where kc: "subpath_from k (path_size q) = Inr kc" "path_ok kc" "nibbles kc = drop (path_size q) (nibbles k)"
    using subpath_from_ok [OF k(1), of "path_size q"] k(3) by auto
  have size: "path_size kc = path_size k - path_size q" using kc(3) by (metis length_drop length_nibbles)
  obtain k' where k': "subpath_from kc 1 = Inr k'" "path_ok k'" "nibbles k' = drop 1 (nibbles kc)"
    using subpath_from_ok [OF kc(2), of 1] size k(3) by (metis Suc_leI One_nat_def zero_less_diff)
  have "nibbleAt kc 0 = Inr (nibbles k ! path_size q)"
    using nibbleAt_ok [OF kc(2), of 0] size kc(3) k(3) by simp
  then show ?thesis
    using False q k kc k'
    by (intro exI [of _ k']) (simp add: tree_set.simps [of _ _ "BranchNode q links linked linkSet"]
        updateBranchLink.simps insertNewPairIntoBranch.simps path_empty_def TreeNodePath_empty_def Let_def)
qed

lemma set_rep:
  assumes zero: "get Hash256_zero = EmptyNode"
  shows "wf_tree n t \<Longrightarrow> rep sha3 get nd t \<Longrightarrow> path_ok k \<Longrightarrow> path_size k = n
    \<Longrightarrow> set_spec sha3 get n ((content t)(nibbles k \<mapsto> v)) (tree_set sha3 get nd k v)"
proof (induction n t arbitrary: nd k rule: wf_tree.induct)
  case (wf_leaf p n w)
  then obtain q where nd: "nd = LeafNode q w" "path_ok q" "p = nibbles q" by (auto elim: rep_PLeafE)
  have "wf_tree n (PLeaf (nibbles q) w)" using wf_leaf.hyps nd(3) by (auto intro: wf_tree.wf_leaf)
  then show ?case unfolding nd(1,3) using set_leaf [OF nd(2)] wf_leaf.prems(2,3) by blast
next
  case (wf_branch p cs m n)
  have wf: "wf_tree n (PBranch p cs)" by (rule wf_tree.wf_branch) (use wf_branch.hyps wf_branch.IH in auto)
  obtain q links linked linkSet where nd: "nd = BranchNode q links linked linkSet" "path_ok q" "p = nibbles q"
    using wf_branch.prems(1) by (auto elim: rep_PBranchE)
  let ?d = "difference p (nibbles k)"
  have d: "?d \<le> length p" by (rule difference_le)
  have lt: "?d < path_size k" using d wf_branch.hyps(4) wf_branch.prems(3) by simp
  obtain k' where k': "subpath_from k (?d + 1) = Inr k'" "path_ok k'" "nibbles k' = drop (Suc ?d) (nibbles k)"
    using subpath_from_ok [OF wf_branch.prems(2), of "?d + 1"] lt by auto
  show ?case
  proof (cases "?d = length p")
    case True
    then obtain kr where kr: "path_ok kr" "nibbles kr = drop (Suc (length p)) (nibbles k)"
      "tree_set sha3 get nd k v = bind_result (getLinkedNode sha3 get nd (unat (nibbles k ! length p))) (\<lambda>next.
        bind_result (tree_set sha3 get next kr v) (\<lambda>updated. Inr (setLink_node updated (unat (nibbles k ! length p)) nd)))"
      using set_consumed [OF nd(2) wf_branch.prems(2), of sha3 get links linked linkSet v] lt nd by auto
    define i where "i = unat (nibbles k ! length p)"
    have i: "i < 16" using nibble_index [OF wf_branch.prems(2)] lt True by (simp add: i_def)
    have key: "nibbles k = p @ of_nat i # nibbles kr" using key_split [OF wf_branch.prems(2) True] lt True kr(2) by (simp add: i_def)
    have size: "path_size kr = m" using kr(2) wf_branch.hyps(4) wf_branch.prems(3)
      by (metis add_diff_cancel_left' length_drop length_nibbles plus_nat.simps(2))
    note linked = getLinkedNode_rep [of get sha3 q links linked linkSet p cs i, OF zero]
    have "\<exists>next. getLinkedNode sha3 get nd i = Inr next
        \<and> set_spec sha3 get m ((content_opt (cs ! i))(nibbles kr \<mapsto> v)) (tree_set sha3 get next kr v)"
    proof (cases "cs ! i")
      case None
      then show ?thesis using linked wf_branch.prems(1) nd i set_empty [OF kr(1), of sha3 get v] size by simp
    next
      case (Some c)
      then obtain nd' where "getLinkedNode sha3 get nd i = Inr nd'" "rep sha3 get nd' c"
        using linked wf_branch.prems(1) nd(1) i by auto
      moreover from this(2) have "set_spec sha3 get m ((content c)(nibbles kr \<mapsto> v)) (tree_set sha3 get nd' kr v)"
        using wf_branch.IH Some i kr(1) size by blast
      ultimately show ?thesis unfolding Some content_opt_simps by blast
    qed
    then obtain nd' c where run: "tree_set sha3 get nd k v = Inr (setLink_node nd' i nd)"
      and c: "rep sha3 get nd' c" "wf_tree m c" "content c = (content_opt (cs ! i))(nibbles kr \<mapsto> v)"
      using kr(3) by (auto simp: set_spec_def i_def)
    have r: "rep sha3 get (setLink_node nd' i nd) (PBranch p (cs[i := Some c]))"
      using rep_setLink [of sha3 get q links linked linkSet p cs i nd' c] wf_branch.prems(1) nd(1) i c(1) by simp
    have "content_opt (Some c) = (content_opt (cs ! i))(nibbles kr \<mapsto> v)" using c(3) by simp
    from content_update [OF wf_branch.hyps(2) i this]
    have "content (PBranch p (cs[i := Some c])) = (content (PBranch p cs))(nibbles k \<mapsto> v)" unfolding key .
    from set_specI [OF run r wf_branch_update [OF wf i c(2) wf_branch.hyps(4)] this] show ?thesis .
  next
    case False
    then have d': "?d < length p" using d by simp
    have small: "\<forall>x \<in> set p. x < 16" using wf_branch.hyps(1) .
    obtain shared where shared: "subpath q 0 ?d = Inr shared" "path_ok shared" "nibbles shared = take ?d p"
      using subpath_ok [OF nd(2), of 0 ?d] d' nd(3) by auto
    obtain q' where q': "subpath_from q (?d + 1) = Inr q'" "path_ok q'" "nibbles q' = drop (Suc ?d) p"
      using subpath_from_ok [OF nd(2), of "?d + 1"] d' nd(3) by auto
    have pq: "path_size q = length p" using nd(3) by simp
    have "p \<noteq> []" using d' by auto
    have run: "tree_set sha3 get nd k v = Inr (setLink_node (BranchNode q' links linked linkSet) (unat (p ! ?d))
        (setLink_node (LeafNode k' v) (unat (nibbles k ! ?d)) (BranchTreeNode_new shared)))"
      unfolding nd(1)
      using nd(2) nd(3) [symmetric] wf_branch.prems(2) False d' pq \<open>p \<noteq> []\<close> shared(1) q'(1) k'(1) nibbleAt_ok [OF wf_branch.prems(2) lt]
        nibbleAt_ok [OF nd(2), of ?d]
      by (simp add: tree_set.simps updateBranchLink.simps insertNewPairIntoBranch.simps path_empty_def Let_def)
    note b = rep_branchD [of sha3 get q links linked linkSet p cs]
    have old: "rep sha3 get (BranchNode q' links linked linkSet) (PBranch (nibbles q') cs)"
      using b wf_branch.prems(1) nd(1) q'(2) by (intro rep_branch) auto
    have wf': "wf_tree (n - Suc ?d) (PBranch (nibbles q') cs)"
      using wf_branch.hyps wf_branch.IH small q'(3) d'
      by (intro wf_tree.wf_branch [where m = m]) (auto dest: in_set_dropD)
    have "p = (take ?d p @ [p ! ?d]) @ nibbles q'" using d' q'(3) by (simp add: id_take_nth_drop)
    then have cont: "content (PBranch p cs) = below (take ?d p @ [p ! ?d]) (content (PBranch (nibbles q') cs))"
      using content_branch_below by metis
    show ?thesis
      unfolding run
      using d' lt difference_nth [of p "nibbles k"] difference_take [of p "nibbles k"] small
      by (intro split_spec(1) [OF _ _ _ _ _ wf_branch.prems(2,3) shared(2,3) k'(2,3) old wf' cont]) simp_all
  qed
qed

section \<open>Removing a value\<close>

fun tree_path :: "ptree \<Rightarrow> u8 list" where
  "tree_path (PLeaf p v) = p"
| "tree_path (PBranch p cs) = p"

fun with_path :: "u8 list \<Rightarrow> ptree \<Rightarrow> ptree" where
  "with_path q (PLeaf p v) = PLeaf q v"
| "with_path q (PBranch p cs) = PBranch q cs"

lemma content_with_path: "content (with_path (q @ tree_path t) t) = below q (content t)"
  by (cases t) (simp_all add: content_leaf_below content_branch_below)

lemma wf_with_path:
  assumes "wf_tree m t" and "\<forall>x \<in> set q. x < 16"
  shows "wf_tree (length q + m) (with_path (q @ tree_path t) t)"
  using assms by (cases t) (auto elim!: wf_leafE wf_branchE intro!: wf_leaf wf_branch)

lemma rep_setPath:
  assumes "rep sha3 get nd t" and "path_ok q"
  shows "tree_path t = nibbles (node_path nd) \<and> (\<exists>nd'. node_setPath q nd = Inr nd' \<and> rep sha3 get nd' (with_path (nibbles q) t))"
  using assms by (cases nd) (auto elim!: rep_leafE rep_branchE intro: rep_leaf rep_branch)

lemma content_one:
  assumes "i < 16" and "length cs = 16" and "cs ! i = Some a" and "\<And>l. l < 16 \<Longrightarrow> l \<noteq> i \<Longrightarrow> cs ! l = None"
  shows "content (PBranch p cs) = below (p @ [of_nat i]) (content a)"
proof (rule content_branch_eqI)
  fix l k assume l: "l < (16 :: nat)"
  show "content_opt (cs ! l) k = below (p @ [of_nat i]) (content a) (p @ of_nat l # k)"
    using assms l below_append [of "p @ [of_nat i]" "content a" k]
    by (cases "l = i") (auto simp: of_nat_nibble_eq below_other)
next
  fix k assume "\<And>j r. j < (16 :: nat) \<Longrightarrow> k \<noteq> p @ of_nat j # r"
  from this [OF assms(1)] show "below (p @ [of_nat i]) (content a) k = None" by (intro below_other) simp
qed (use assms in simp)

lemma rep_linkSet:
  assumes "rep sha3 get (BranchNode q links linked linkSet) (PBranch p cs)"
  shows "numLinks (BranchNode q links linked linkSet) = card (occupied cs)"
    and "i < 16 \<Longrightarrow> hasLink (BranchNode q links linked linkSet) i \<longleftrightarrow> i \<in> occupied cs"
proof -
  note b = rep_branchD [OF assms]
  have set: "linkSet ! i \<longleftrightarrow> cs ! i \<noteq> None" if "i < 16" for i
  proof -
    have "slot sha3 get (links ! i) (linked ! i) (linkSet ! i) (cs ! i)" using b that by simp
    then show ?thesis by cases auto
  qed
  have "{i. i < length linkSet \<and> linkSet ! i} = occupied cs" using b set by (auto simp: occupied_def)
  then show "numLinks (BranchNode q links linked linkSet) = card (occupied cs)"
    by (simp add: numLinks_def length_filter_conv_card)
  show "hasLink (BranchNode q links linked linkSet) i \<longleftrightarrow> i \<in> occupied cs" if "i < 16"
    using that b set by (auto simp: hasLink_def occupied_def)
qed

lemma highestLinkIndex_single:
  assumes "rep sha3 get (BranchNode q links linked linkSet) (PBranch p cs)" and "occupied cs = {j}"
  shows "highestLinkIndex (BranchNode q links linked linkSet) = j"
proof -
  have "j \<in> occupied cs" using assms(2) by simp
  then have j: "j < 16" using rep_branchD [OF assms(1)] by (simp add: occupied_def)
  have "filter (hasLink (BranchNode q links linked linkSet)) [0..<16] = filter (\<lambda>i. i = j) [0..<16]"
    using rep_linkSet(2) [OF assms(1)] assms(2) by (intro filter_cong) auto
  then have "set (filter (hasLink (BranchNode q links linked linkSet)) [0..<16]) = {j}" using j by auto
  then show ?thesis
    unfolding highestLinkIndex_def Max_Links_def
    using last_in_set [of "filter (hasLink (BranchNode q links linked linkSet)) [0..<16]"] by fastforce
qed

lemma unsetBranchLink_rep:
  assumes zero: "get Hash256_zero = EmptyNode" and rep: "rep sha3 get (BranchNode q links linked linkSet) (PBranch p cs)"
    and wf: "wf_tree n (PBranch p cs)" and i: "i < 16" "cs ! i = Some c"
  shows "set_spec sha3 get n (content (PBranch p (cs[i := None]))) (unsetBranchLink sha3 get (BranchNode q links linked linkSet) i)"
proof -
  note b = rep_branchD [OF rep]
  obtain m where w: "\<forall>x \<in> set p. x < 16" "length cs = 16" "2 \<le> card (occupied cs)"
    "\<forall>i c. i < 16 \<longrightarrow> cs ! i = Some c \<longrightarrow> wf_tree m c" "n = Suc (length p + m)"
    using wf by (auto elim: wf_branchE)
  let ?cs = "cs[i := None]"
  obtain q' links' linked' linkSet' where clear: "clearLink i (BranchNode q links linked linkSet) = BranchNode q' links' linked' linkSet'"
    and q': "q' = q" by (simp add: clearLink_def)
  have rep': "rep sha3 get (BranchNode q' links' linked' linkSet') (PBranch p ?cs)"
    using rep_clearLink [OF rep i(1)] clear by simp
  have occ: "occupied ?cs = occupied cs - {i}" using w(2) i(1) by (auto simp: occupied_def nth_list_update)
  have mem: "i \<in> occupied cs" "finite (occupied cs)" using i w(2) by (simp_all add: occupied_def)
  then have card: "card (occupied ?cs) = card (occupied cs) - 1" using occ by simp
  show ?thesis
  proof (cases "card (occupied ?cs) = 1")
    case False
    then have "2 \<le> card (occupied ?cs)" using card w(3) by simp
    then have "wf_tree n (PBranch p ?cs)"
      using w i(1) by (intro wf_branch [where m = m]) (auto simp: nth_list_update split: if_splits)
    moreover have "unsetBranchLink sha3 get (BranchNode q links linked linkSet) i = Inr (BranchNode q' links' linked' linkSet')"
      using False rep_linkSet(1) [OF rep'] by (simp add: unsetBranchLink_def clear)
    ultimately show ?thesis using rep' by (intro set_specI) auto
  next
    case True
    then obtain j where j: "occupied ?cs = {j}" by (auto simp: card_1_singleton_iff)
    then have "j \<in> occupied ?cs" by simp
    then obtain a where j16: "j < 16" and a: "?cs ! j = Some a" using w(2) by (auto simp: occupied_def)
    then have wa: "wf_tree m a" using w(2,4) i by (auto simp: nth_list_update split: if_splits)
    obtain nd where nd: "getLinkedNode sha3 get (BranchNode q' links' linked' linkSet') j = Inr nd" "rep sha3 get nd a"
      using getLinkedNode_rep [of get sha3 q' links' linked' linkSet' p ?cs j, OF zero rep' j16] a by auto
    have oj: "(of_nat j :: u8) < 16" using j16 by (simp add: word_less_nat_alt unat_of_nat)
    obtain merged where merged: "path_Join_nibble q' (of_nat j) (node_path nd) = Inr merged" "path_ok merged"
      "nibbles merged = p @ of_nat j # nibbles (node_path nd)"
      using path_Join_nibble_ok [of q' "node_path nd" "of_nat j"] b q' rep_path [OF nd(2)] oj by auto
    obtain nd' where nd': "node_setPath merged nd = Inr nd'" "rep sha3 get nd' (with_path (nibbles merged) a)"
      and path: "tree_path a = nibbles (node_path nd)"
      using rep_setPath [OF nd(2) merged(2)] by blast
    have pre: "nibbles merged = (p @ [of_nat j]) @ tree_path a" using merged(3) path by simp
    have run: "unsetBranchLink sha3 get (BranchNode q links linked linkSet) i = Inr nd'"
      using True rep_linkSet(1) [OF rep'] highestLinkIndex_single [OF rep' j] nd(1) merged(1) nd'(1)
      by (simp add: unsetBranchLink_def clear Let_def)
    have wf': "wf_tree n (with_path (nibbles merged) a)"
      using wf_with_path [OF wa, of "p @ [of_nat j]"] w(1,5) oj unfolding pre by simp
    have "content (with_path (nibbles merged) a) = content (PBranch p ?cs)"
    proof -
      have "?cs ! l = None" if "l < 16" "l \<noteq> j" for l
      proof -
        have "l \<notin> occupied ?cs" using that(2) j by simp
        then show ?thesis using that(1) w(2) by (simp add: occupied_def)
      qed
      then show ?thesis unfolding pre content_with_path using content_one [OF j16 _ a] w(2) by simp
    qed
    from set_specI [OF run nd'(2) wf' this] show ?thesis .
  qed
qed

definition unset_spec :: "(bytes \<Rightarrow> Hash256) \<Rightarrow> (Hash256 \<Rightarrow> TreeNode) \<Rightarrow> nat \<Rightarrow> (u8 list \<Rightarrow> Hash256 option)
    \<Rightarrow> (TreeNode \<times> bool) option result \<Rightarrow> bool" where
  "unset_spec sha3 get n m r \<longleftrightarrow> (r = Inr (Some (EmptyNode, True)) \<and> m = Map.empty)
     \<or> (\<exists>nd t. r = Inr (Some (nd, False)) \<and> rep sha3 get nd t \<and> wf_tree n t \<and> content t = m)"

lemma unset_rep:
  assumes zero: "get Hash256_zero = EmptyNode"
  shows "wf_tree n t \<Longrightarrow> rep sha3 get nd t \<Longrightarrow> path_ok k \<Longrightarrow> n \<le> path_size k
    \<Longrightarrow> if content t (nibbles k) = None then tree_unset sha3 get nd k True = Inr None
       else unset_spec sha3 get n ((content t)(nibbles k := None)) (tree_unset sha3 get nd k True)"
proof (induction n t arbitrary: nd k rule: wf_tree.induct)
  case (wf_leaf p n v)
  then obtain q where nd: "nd = LeafNode q v" "path_ok q" "p = nibbles q" by (auto elim: rep_PLeafE)
  have "difference p (nibbles k) = path_size k \<longleftrightarrow> nibbles k = p"
    using difference_prefix [of "nibbles k" p] difference_le(1) [of p "nibbles k"] wf_leaf.prems(3) wf_leaf.hyps(1)
    by (auto simp: difference_commute [of p])
  then show ?case
    using nd wf_leaf.prems by (subst (1 2) tree_unset.simps) (auto simp: node_empty_def unset_spec_def fun_eq_iff)
next
  case (wf_branch p cs m n)
  have wf: "wf_tree n (PBranch p cs)" by (rule wf_tree.wf_branch) (use wf_branch.hyps wf_branch.IH in auto)
  obtain q links linked linkSet where nd: "nd = BranchNode q links linked linkSet" "path_ok q" "p = nibbles q"
    using wf_branch.prems(1) by (auto elim: rep_PBranchE)
  have rep: "rep sha3 get (BranchNode q links linked linkSet) (PBranch p cs)" using wf_branch.prems(1) nd(1) by simp
  let ?d = "difference p (nibbles k)"
  have d: "?d \<le> length p" by (rule difference_le)
  have lt: "?d < path_size k" using d wf_branch.hyps(4) wf_branch.prems(3) by simp
  define i where "i = unat (nibbles k ! ?d)"
  have i: "i < 16" using nibble_index [OF wf_branch.prems(2) lt] by (simp add: i_def)
  obtain k' where k': "subpath_from k (?d + 1) = Inr k'" "path_ok k'" "nibbles k' = drop (Suc ?d) (nibbles k)"
    using subpath_from_ok [OF wf_branch.prems(2), of "?d + 1"] lt by auto
  have size: "path_size k' = path_size k - Suc ?d" using k'(3) by (metis length_drop length_nibbles)
  have run: "tree_unset sha3 get nd k True = bind_result (getLinkedNode sha3 get nd i) (\<lambda>next.
      if node_empty next then Inr None else bind_result (tree_unset sha3 get next k' True) (\<lambda>result.
        case result of None \<Rightarrow> Inr None
        | Some (updated, canMerge) \<Rightarrow> bind_result (if canMerge then unsetBranchLink sha3 get nd i
              else Inr (setLink_node updated i nd)) (\<lambda>updated. Inr (Some (updated, False)))))"
    using nd wf_branch.prems(2) k'(1) nibbleAt_ok [OF wf_branch.prems(2) lt] lt
    by (subst tree_unset.simps) (simp add: node_empty_def i_def cong: if_cong)
  note linked = getLinkedNode_rep [of get sha3 q links linked linkSet p cs i, OF zero rep i]
  show ?case
  proof (cases "cs ! i")
    case None
    have "content (PBranch p cs) (nibbles k) = None"
    proof (cases "?d = length p")
      case True
      then show ?thesis
        using key_split [OF wf_branch.prems(2) True] lt content_slot [OF i wf_branch.hyps(2), of p] None by (metis content_opt_simps(1) i_def)
    qed (simp add: content_branch difference_prefix)
    then show ?thesis using run linked None nd(1) by (simp add: node_empty_def)
  next
    case (Some c)
    then obtain nd' where nd': "getLinkedNode sha3 get nd i = Inr nd'" "\<not> node_empty nd'" "rep sha3 get nd' c"
      using linked nd(1) by auto
    have IH: "if content c (nibbles k') = None then tree_unset sha3 get nd' k' True = Inr None
       else unset_spec sha3 get m ((content c)(nibbles k' := None)) (tree_unset sha3 get nd' k' True)"
      using wf_branch.IH i Some nd'(3) k'(2) size d wf_branch.hyps(4) wf_branch.prems(3) by auto
    show ?thesis
    proof (cases "?d = length p")
      case False
      then have off: "content (PBranch p cs) (nibbles k) = None" by (simp add: content_branch difference_prefix)
      have "m < path_size k'" using False size d wf_branch.hyps(4) wf_branch.prems(3) by simp
      then have "content c (nibbles k') = None"
        using content_length [of m c "nibbles k'"] wf_branch.IH i Some by (metis length_nibbles less_irrefl not_Some_eq)
      then have "tree_unset sha3 get nd' k' True = Inr None" using IH by simp
      then show ?thesis using off run nd'(1,2) by simp
    next
      case True
      have key: "nibbles k = p @ of_nat i # nibbles k'"
        using key_split [OF wf_branch.prems(2) True] lt k'(3) True by (simp add: i_def)
      have same: "content (PBranch p cs) (nibbles k) = content c (nibbles k')"
        unfolding key using content_slot [OF i wf_branch.hyps(2)] Some by simp
      show ?thesis
      proof (cases "content c (nibbles k')")
        case None
        then show ?thesis using IH same run nd'(1,2) by simp
      next
        case found: (Some w)
        have upd: "content (PBranch p (cs[i := c'])) = (content (PBranch p cs))(nibbles k := None)"
          if "content_opt c' = (content c)(nibbles k' := None)" for c'
          unfolding key using that Some by (intro content_update [OF wf_branch.hyps(2) i]) simp
        from IH found consider
            (gone) "tree_unset sha3 get nd' k' True = Inr (Some (EmptyNode, True))" "(content c)(nibbles k' := None) = Map.empty"
          | (kept) u c' where "tree_unset sha3 get nd' k' True = Inr (Some (u, False))" "rep sha3 get u c'" "wf_tree m c'"
              "content c' = (content c)(nibbles k' := None)"
          by (auto simp: unset_spec_def)
        then have "unset_spec sha3 get n ((content (PBranch p cs))(nibbles k := None)) (tree_unset sha3 get nd k True)"
        proof cases
          case gone
          have "set_spec sha3 get n ((content (PBranch p cs))(nibbles k := None)) (unsetBranchLink sha3 get nd i)"
            using unsetBranchLink_rep [OF zero rep wf i Some] upd [of None] gone(2) nd(1) by simp
          then obtain nd1 t1 where "unsetBranchLink sha3 get nd i = Inr nd1" "rep sha3 get nd1 t1" "wf_tree n t1"
            "content t1 = (content (PBranch p cs))(nibbles k := None)"
            unfolding set_spec_def by blast
          moreover from this(1) have "tree_unset sha3 get nd k True = Inr (Some (nd1, False))"
            using run nd'(1,2) gone(1) by simp
          ultimately show ?thesis unfolding unset_spec_def by blast
        next
          case kept
          have "tree_unset sha3 get nd k True = Inr (Some (setLink_node u i nd, False))" using run nd'(1,2) kept(1) by simp
          moreover have "rep sha3 get (setLink_node u i nd) (PBranch p (cs[i := Some c']))"
            using rep_setLink [OF rep i kept(2)] nd(1) by simp
          moreover have "wf_tree n (PBranch p (cs[i := Some c']))" by (rule wf_branch_update [OF wf i kept(3) wf_branch.hyps(4)])
          moreover have "content (PBranch p (cs[i := Some c'])) = (content (PBranch p cs))(nibbles k := None)"
            by (rule upd) (simp only: content_opt_simps kept(4))
          ultimately show ?thesis unfolding unset_spec_def by blast
        qed
        then show ?thesis using same found by simp
      qed
    qed
  qed
qed

end
