(* ===== verification/Patricia_State.thy ===== *)
theory Patricia_State
  imports Patricia_Refinement
begin

unbundle bit_operations_syntax

text \<open>
  Patricia trees as maps from keys to values: every operation on a delta acts on the map, the root hash is a
  function of the map, and a commit transfers the map to the data source of the base tree.
\<close>

section \<open>Keys\<close>

definition key_nibbles :: "bytes \<Rightarrow> u8 list" where
  "key_nibbles key = nibbles (TreeNodePath_of key)"

lemma key_nibbles_Cons: "key_nibbles (b # bs) = drop_bit 4 b # take_bit 4 b # key_nibbles bs"
proof -
  have "key_nibbles key = concat (map (\<lambda>b. [drop_bit 4 b, take_bit 4 b]) key)" for key
  proof (induction key rule: rev_induct)
    case (snoc b key)
    have "key_nibbles (key @ [b]) = key_nibbles key @ [drop_bit 4 b, take_bit 4 b]"
      by (simp add: key_nibbles_def nibbles_def TreeNodePath_of_def bytes_nibble_def byte_nibble_eq nth_append
          less_mult_imp_div_less)
    then show ?case using snoc by simp
  qed (simp add: key_nibbles_def nibbles_def TreeNodePath_of_def)
  then show ?thesis by simp
qed

lemma key_nibbles_Nil [simp]: "key_nibbles [] = []"
  by (simp add: key_nibbles_def nibbles_def TreeNodePath_of_def)

lemma length_key_nibbles [simp]: "length (key_nibbles key) = 2 * length key"
  by (simp add: key_nibbles_def)

lemma byte_of_nibbles: "push_bit 4 (drop_bit 4 b) + take_bit 4 b = (b :: u8)"
proof -
  have "push_bit 4 (drop_bit 4 b) + take_bit 4 b = push_bit 4 (drop_bit 4 b) OR take_bit 4 b"
    by (rule disjunctive_add) (auto simp: bit_simps)
  also have "\<dots> = b" by (rule bit_word_eqI) (auto simp: bit_simps)
  finally show ?thesis .
qed

lemma pack_key_nibbles [simp]: "pack (key_nibbles key) = key"
  by (induction key) (simp_all add: key_nibbles_Cons byte_of_nibbles)

lemma key_nibbles_inject [simp]: "key_nibbles k = key_nibbles l \<longleftrightarrow> k = l"
  by (metis pack_key_nibbles)

lemma nibbles_of_byte:
  assumes "(h :: u8) < 16" and "l < 16"
  shows "drop_bit 4 (push_bit 4 h + l) = h" and "take_bit 4 (push_bit 4 h + l) = l"
proof -
  have hl: "take_bit 4 h = h" "take_bit 4 l = l" using assms by (simp_all add: take_bit_nibble)
  have "push_bit 4 h + take_bit 4 l = push_bit 4 h OR take_bit 4 l"
    by (rule disjunctive_add) (auto simp: bit_simps)
  then have eq: "push_bit 4 h + l = push_bit 4 (take_bit 4 h) OR take_bit 4 l" using hl by simp
  have "drop_bit 4 (push_bit 4 (take_bit 4 h) OR take_bit 4 l) = take_bit 4 h"
    "take_bit 4 (push_bit 4 (take_bit 4 h) OR take_bit 4 l) = take_bit 4 l"
    by (rule bit_word_eqI, auto simp: bit_simps)+
  then show "drop_bit 4 (push_bit 4 h + l) = h" and "take_bit 4 (push_bit 4 h + l) = l" using eq hl by simp_all
qed

lemma key_nibbles_pack: "even (length ns) \<Longrightarrow> \<forall>x \<in> set ns. x < 16 \<Longrightarrow> key_nibbles (pack ns) = ns"
  by (induction ns rule: pack.induct) (auto simp: key_nibbles_Cons nibbles_of_byte)

section \<open>Trees as maps\<close>

text \<open>The map that a possibly empty tree stands for, and when it is a tree for keys of a number of bytes.\<close>

definition map_of_tree :: "ptree option \<Rightarrow> bytes \<Rightarrow> Hash256 option" where
  "map_of_tree t key = content_opt t (key_nibbles key)"

definition tree_ok :: "nat \<Rightarrow> ptree option \<Rightarrow> bool" where
  "tree_ok len t \<longleftrightarrow> (\<forall>u. t = Some u \<longrightarrow> wf_tree (2 * len) u)"

definition node_rep :: "(bytes \<Rightarrow> Hash256) \<Rightarrow> (Hash256 \<Rightarrow> TreeNode) \<Rightarrow> TreeNode \<Rightarrow> ptree option \<Rightarrow> bool" where
  "node_rep sha3 get nd t \<longleftrightarrow> (case t of None \<Rightarrow> nd = EmptyNode | Some u \<Rightarrow> rep sha3 get nd u)"

definition root_hash :: "(bytes \<Rightarrow> Hash256) \<Rightarrow> ptree option \<Rightarrow> Hash256" where
  "root_hash sha3 t = (case t of None \<Rightarrow> Hash256_zero | Some u \<Rightarrow> tree_hash sha3 u)"

lemma node_rep_hash: "node_rep sha3 get nd t \<Longrightarrow> node_hash sha3 nd = Inr (root_hash sha3 t)"
  by (auto simp: node_rep_def root_hash_def rep_hash split: option.splits)

lemma tree_of_map_unique:
  assumes "tree_ok len s" and "tree_ok len t" and "map_of_tree s = map_of_tree t"
  shows "s = t"
proof -
  have eq: "content_opt s ns = content_opt t ns" for ns
  proof (cases "length ns = 2 * len \<and> (\<forall>x \<in> set ns. x < 16)")
    case True
    then have "key_nibbles (pack ns) = ns" by (simp add: key_nibbles_pack)
    then show ?thesis using fun_cong [OF assms(3), of "pack ns"] by (simp add: map_of_tree_def)
  next
    case False
    then have "content_opt x ns = None" if "tree_ok len x" for x
      using that content_length [of "2 * len" _ ns] by (cases x; cases "content_opt x ns") (auto simp: tree_ok_def)
    then show ?thesis using assms(1,2) by simp
  qed
  show ?thesis
  proof (cases s)
    case None
    then show ?thesis using eq content_nonempty [of "2 * len"] assms(2)
      by (cases t) (auto simp: tree_ok_def, metis option.discI)
  next
    case (Some u)
    then obtain ns v where "content_opt s ns = Some v" using content_nonempty [of "2 * len" u] assms(1) by (auto simp: tree_ok_def)
    then obtain w where "t = Some w" using eq [of ns] by (cases t) auto
    then show ?thesis using Some eq tree_unique [of "2 * len" u w] assms(1,2) by (auto simp: tree_ok_def fun_eq_iff)
  qed
qed

section \<open>Operations on a delta\<close>

datatype tree_change = SetKey bytes Hash256 | UnsetKey bytes

fun op_key :: "tree_change \<Rightarrow> bytes" where
  "op_key (SetKey key value) = key"
| "op_key (UnsetKey key) = key"

fun op_map :: "tree_change \<Rightarrow> (bytes \<Rightarrow> Hash256 option) \<Rightarrow> bytes \<Rightarrow> Hash256 option" where
  "op_map (SetKey key value) m = m(key \<mapsto> value)"
| "op_map (UnsetKey key) m = m(key := None)"

fun patricia_op :: "(bytes \<Rightarrow> Hash256) \<Rightarrow> MemoryDataSource \<Rightarrow> tree_change \<Rightarrow> BasePatriciaTreeDelta \<Rightarrow> BasePatriciaTreeDelta result" where
  "patricia_op sha3 backing (SetKey key value) d = patricia_set sha3 backing key value d"
| "patricia_op sha3 backing (UnsetKey key) d = bind_result (patricia_unset sha3 backing key d) (\<lambda>(d, found). Inr d)"

definition delta_rep :: "(bytes \<Rightarrow> Hash256) \<Rightarrow> nat \<Rightarrow> MemoryDataSource \<Rightarrow> BasePatriciaTreeDelta \<Rightarrow> ptree option \<Rightarrow> bool" where
  "delta_rep sha3 len backing d t \<longleftrightarrow> delta_get backing d Hash256_zero = EmptyNode \<and> tree_ok len t
     \<and> node_rep sha3 (delta_get backing d) (delta_rootNode d) t"

lemma delta_get_root [simp]: "delta_get backing (d\<lparr>delta_rootNode := nd\<rparr>) = delta_get backing d"
  by (simp add: delta_get_def)

lemma map_of_tree_upd:
  assumes "content_opt t' = (content_opt t)(key_nibbles key := v)"
  shows "map_of_tree t' = (map_of_tree t)(key := v)"
  using assms by (auto simp: map_of_tree_def fun_eq_iff)

lemma patricia_set_rep:
  assumes d: "delta_rep sha3 len backing d t" and key: "length key = len"
  shows "\<exists>d' t'. patricia_set sha3 backing key v d = Inr d' \<and> delta_rep sha3 len backing d' t'
    \<and> map_of_tree t' = (map_of_tree t)(key \<mapsto> v) \<and> delta_dataSource d' = delta_dataSource d"
proof -
  let ?get = "delta_get backing d" and ?k = "TreeNodePath_of key"
  have k: "path_ok ?k" "path_size ?k = 2 * len" using key by simp_all
  have zero: "?get Hash256_zero = EmptyNode" using d by (simp add: delta_rep_def)
  have "set_spec sha3 ?get (2 * len) ((content_opt t)(key_nibbles key \<mapsto> v)) (tree_set sha3 ?get (delta_rootNode d) ?k v)"
  proof (cases t)
    case None
    then show ?thesis using set_empty [OF k(1), of sha3 ?get v] d k(2) by (simp add: delta_rep_def node_rep_def key_nibbles_def)
  next
    case (Some u)
    then have "wf_tree (2 * len) u" "rep sha3 ?get (delta_rootNode d) u"
      using d by (simp_all add: delta_rep_def tree_ok_def node_rep_def)
    from set_rep [OF zero this k, of v] show ?thesis by (simp only: Some content_opt_simps key_nibbles_def)
  qed
  then obtain nd u where nd: "tree_set sha3 ?get (delta_rootNode d) ?k v = Inr nd" "rep sha3 ?get nd u" "wf_tree (2 * len) u"
    and cont: "content u = (content_opt t)(key_nibbles key \<mapsto> v)"
    unfolding set_spec_def by blast
  have "map_of_tree (Some u) = (map_of_tree t)(key \<mapsto> v)" by (rule map_of_tree_upd) (simp only: cont content_opt_simps)
  moreover have "delta_rep sha3 len backing (d\<lparr>delta_rootNode := nd\<rparr>) (Some u)"
    using nd(2,3) zero by (simp add: delta_rep_def tree_ok_def node_rep_def)
  ultimately show ?thesis
    using nd(1) by (intro exI [of _ "d\<lparr>delta_rootNode := nd\<rparr>"] exI [of _ "Some u"]) (simp add: patricia_set_def PatriciaTree_set_def)
qed

lemma patricia_unset_rep:
  assumes d: "delta_rep sha3 len backing d t" and key: "length key = len"
  shows "\<exists>d' t'. patricia_unset sha3 backing key d = Inr (d', map_of_tree t key \<noteq> None) \<and> delta_rep sha3 len backing d' t'
    \<and> map_of_tree t' = (map_of_tree t)(key := None) \<and> delta_dataSource d' = delta_dataSource d"
proof -
  let ?get = "delta_get backing d" and ?k = "TreeNodePath_of key"
  have k: "path_ok ?k" "2 * len \<le> path_size ?k" using key by simp_all
  have zero: "?get Hash256_zero = EmptyNode" using d by (simp add: delta_rep_def)
  have same: "d\<lparr>delta_rootNode := delta_rootNode d\<rparr> = d" by simp
  show ?thesis
  proof (cases "map_of_tree t key")
    case None
    have "tree_unset sha3 ?get (delta_rootNode d) ?k True = Inr None"
    proof (cases t)
      case None
      then show ?thesis using d by (subst tree_unset.simps) (simp add: delta_rep_def node_rep_def node_empty_def)
    next
      case (Some u)
      then have "wf_tree (2 * len) u" "rep sha3 ?get (delta_rootNode d) u"
        using d by (simp_all add: delta_rep_def tree_ok_def node_rep_def)
      from unset_rep [OF zero this k] show ?thesis using None Some by (simp add: map_of_tree_def key_nibbles_def)
    qed
    moreover have "(map_of_tree t)(key := None) = map_of_tree t" using None by auto
    ultimately show ?thesis
      using d None by (intro exI [of _ d] exI [of _ t]) (simp add: patricia_unset_def PatriciaTree_unset_def)
  next
    case found: (Some w)
    then obtain u where u: "t = Some u" by (cases t) (auto simp: map_of_tree_def)
    then have "wf_tree (2 * len) u" "rep sha3 ?get (delta_rootNode d) u"
      using d by (simp_all add: delta_rep_def tree_ok_def node_rep_def)
    from unset_rep [OF zero this k] have
      "unset_spec sha3 ?get (2 * len) ((content u)(key_nibbles key := None)) (tree_unset sha3 ?get (delta_rootNode d) ?k True)"
      using found u by (simp add: map_of_tree_def key_nibbles_def)
    then obtain nd m t' where run: "tree_unset sha3 ?get (delta_rootNode d) ?k True = Inr (Some (nd, m))"
      and t': "node_rep sha3 ?get nd t'" "tree_ok len t'" "content_opt t' = (content u)(key_nibbles key := None)"
    proof (auto simp only: unset_spec_def, goal_cases)
      case 1
      then show ?case by (intro 1(1) [of EmptyNode True None]) (auto simp: node_rep_def tree_ok_def)
    next
      case (2 nd v)
      then show ?case by (intro 2(1) [of nd False "Some v"]) (auto simp: node_rep_def tree_ok_def)
    qed
    have "map_of_tree t' = (map_of_tree t)(key := None)"
      by (rule map_of_tree_upd) (simp only: t'(3) u content_opt_simps)
    moreover have "delta_rep sha3 len backing (d\<lparr>delta_rootNode := nd\<rparr>) t'" using t' zero by (simp add: delta_rep_def)
    ultimately show ?thesis
      using run found by (intro exI [of _ "d\<lparr>delta_rootNode := nd\<rparr>"] exI [of _ t']) (simp add: patricia_unset_def PatriciaTree_unset_def)
  qed
qed

lemma patricia_ops_rep:
  "delta_rep sha3 len backing d t \<Longrightarrow> \<forall>op \<in> set ops. length (op_key op) = len
    \<Longrightarrow> \<exists>d' t'. foldM (patricia_op sha3 backing) ops d = Inr d' \<and> delta_rep sha3 len backing d' t'
      \<and> map_of_tree t' = fold op_map ops (map_of_tree t) \<and> delta_dataSource d' = delta_dataSource d"
proof (induction ops arbitrary: d t)
  case (Cons op ops)
  have key: "length (op_key op) = len" using Cons.prems(2) by simp
  have "\<exists>d' t'. patricia_op sha3 backing op d = Inr d' \<and> delta_rep sha3 len backing d' t'
      \<and> map_of_tree t' = op_map op (map_of_tree t) \<and> delta_dataSource d' = delta_dataSource d"
  proof (cases op)
    case (SetKey k v)
    then show ?thesis using patricia_set_rep [OF Cons.prems(1), of k v] key by simp
  next
    case (UnsetKey k)
    then show ?thesis using patricia_unset_rep [OF Cons.prems(1), of k] key by fastforce
  qed
  then obtain d1 t1 where d1: "patricia_op sha3 backing op d = Inr d1" "delta_rep sha3 len backing d1 t1"
    "map_of_tree t1 = op_map op (map_of_tree t)" "delta_dataSource d1 = delta_dataSource d" by blast
  then show ?case using Cons.IH [OF d1(2)] Cons.prems(2) by auto
qed auto

lemma lookup_delta_rep:
  assumes d: "delta_rep sha3 len backing d t" and key: "length key = len"
  shows "\<exists>ns. PatriciaTree_lookup sha3 (delta_get backing d) key (delta_rootNode d) = Inr (map_of_tree t key, ns)"
proof (cases t)
  case None
  then show ?thesis
    using d unfolding PatriciaTree_lookup_def
    by (subst tree_lookup.simps) (simp add: delta_rep_def node_rep_def node_empty_def map_of_tree_def)
next
  case (Some u)
  then have "wf_tree (2 * len) u" "rep sha3 (delta_get backing d) (delta_rootNode d) u" "delta_get backing d Hash256_zero = EmptyNode"
    using d by (simp_all add: delta_rep_def tree_ok_def node_rep_def)
  from lookup_rep [OF this(3,1,2), of "TreeNodePath_of key" "[]"] show ?thesis
    using key Some by (auto simp: PatriciaTree_lookup_def map_of_tree_def key_nibbles_def)
qed

section \<open>The root hash\<close>

text \<open>
  C7. The state hash commits to the content and to nothing else. Any sequence of changes to a delta
  of a patricia tree over keys of one length succeeds, the delta then answers every lookup as the map that the
  changes produce, and any two deltas, over any data sources and after any changes, that stand for the same map
  have the same root hash.
\<close>

theorem patricia_root_canonical:
  assumes "delta_rep sha3 len b1 d1 t1" and "delta_rep sha3 len b2 d2 t2"
    and "\<forall>op \<in> set ops1 \<union> set ops2. length (op_key op) = len"
    and "fold op_map ops1 (map_of_tree t1) = fold op_map ops2 (map_of_tree t2)"
  shows "\<exists>e1 e2 h. foldM (patricia_op sha3 b1) ops1 d1 = Inr e1 \<and> foldM (patricia_op sha3 b2) ops2 d2 = Inr e2
    \<and> node_hash sha3 (delta_rootNode e1) = Inr h \<and> node_hash sha3 (delta_rootNode e2) = Inr h
    \<and> (\<forall>key. length key = len \<longrightarrow> (\<exists>ns. PatriciaTree_lookup sha3 (delta_get b1 e1) key (delta_rootNode e1)
        = Inr (fold op_map ops1 (map_of_tree t1) key, ns)))"
proof -
  obtain e1 u1 where e1: "foldM (patricia_op sha3 b1) ops1 d1 = Inr e1" "delta_rep sha3 len b1 e1 u1"
    "map_of_tree u1 = fold op_map ops1 (map_of_tree t1)"
    using patricia_ops_rep [OF assms(1), of ops1] assms(3) by auto
  obtain e2 u2 where e2: "foldM (patricia_op sha3 b2) ops2 d2 = Inr e2" "delta_rep sha3 len b2 e2 u2"
    "map_of_tree u2 = fold op_map ops2 (map_of_tree t2)"
    using patricia_ops_rep [OF assms(2), of ops2] assms(3) by auto
  have "u1 = u2"
    using tree_of_map_unique [of len u1 u2] e1(2,3) e2(2,3) assms(4) by (simp add: delta_rep_def)
  then show ?thesis
    using e1 e2 node_rep_hash lookup_delta_rep [OF e1(2)] by (auto simp: delta_rep_def)
qed

lemma empty_delta_rep: "delta_rep sha3 len MemoryDataSource_new (BasePatriciaTreeDelta_new MemoryDataSource_new Hash256_zero) None"
  by (simp add: delta_rep_def delta_get_def BasePatriciaTreeDelta_new_def readthrough_get_def memory_get_def
      MemoryDataSource_new_def tryLoad_def node_empty_def node_rep_def tree_ok_def)

theorem patricia_root_canonical_witness:
  "\<exists>e1 e2 h. foldM (patricia_op (\<lambda>x. x) MemoryDataSource_new) [SetKey [1, 2] [7], SetKey [1, 3] [8], UnsetKey [1, 2]]
      (BasePatriciaTreeDelta_new MemoryDataSource_new Hash256_zero) = Inr e1
    \<and> foldM (patricia_op (\<lambda>x. x) MemoryDataSource_new) [SetKey [1, 3] [8]]
      (BasePatriciaTreeDelta_new MemoryDataSource_new Hash256_zero) = Inr e2
    \<and> node_hash (\<lambda>x. x) (delta_rootNode e1) = Inr h \<and> node_hash (\<lambda>x. x) (delta_rootNode e2) = Inr h"
proof -
  have "fold op_map [SetKey [1, 2] [7], SetKey [1, 3] [8], UnsetKey [1, 2]] (map_of_tree None)
      = fold op_map [SetKey [1, 3] [8]] (map_of_tree None)"
    by (auto simp: map_of_tree_def fun_eq_iff)
  moreover have "\<forall>op \<in> set [SetKey [1, 2] [7], SetKey [1, 3] [8], UnsetKey [1, 2]] \<union> set [SetKey [1, 3] [8]].
      length (op_key op) = 2"
    by simp
  ultimately show ?thesis
    using patricia_root_canonical [OF empty_delta_rep [of "\<lambda>x. x" 2] empty_delta_rep [of "\<lambda>x. x" 2]] by blast
qed

end
