(* ===== verification/Patricia_Commit.thy ===== *)
theory Patricia_Commit
  imports Patricia_State
begin

text \<open>
  Saving and committing patricia trees. A data source is keyed by hashes, so its meaning rests on the hash
  function having no collision among the trees in question: \<open>trees\<close> is a set of trees that contains the children
  of its members and on which the hash is injective and never zero.
\<close>

section \<open>Stores without collisions\<close>

definition hash_trees :: "(bytes \<Rightarrow> Hash256) \<Rightarrow> ptree set \<Rightarrow> bool" where
  "hash_trees sha3 trees \<longleftrightarrow> (\<forall>p cs c. PBranch p cs \<in> trees \<longrightarrow> Some c \<in> set cs \<longrightarrow> c \<in> trees)
     \<and> inj_on (tree_hash sha3) trees \<and> Hash256_zero \<notin> tree_hash sha3 ` trees"

definition store_ok :: "(bytes \<Rightarrow> Hash256) \<Rightarrow> ptree set \<Rightarrow> (Hash256 \<Rightarrow> TreeNode) \<Rightarrow> (Hash256 \<Rightarrow> TreeNode) \<Rightarrow> bool" where
  "store_ok sha3 trees get get' \<longleftrightarrow>
     (\<forall>h. get' h \<noteq> EmptyNode \<longrightarrow> (\<exists>u \<in> trees. tree_hash sha3 u = h \<and> rep sha3 get (get' h) u))"

lemma store_ok_zero: "hash_trees sha3 trees \<Longrightarrow> store_ok sha3 trees get get' \<Longrightarrow> get' Hash256_zero = EmptyNode"
  by (force simp: hash_trees_def store_ok_def)

lemma store_ok_get:
  assumes "hash_trees sha3 trees" and "store_ok sha3 trees get get'" and "u \<in> trees" and "get' (tree_hash sha3 u) \<noteq> EmptyNode"
  shows "rep sha3 get (get' (tree_hash sha3 u)) u"
proof -
  obtain w where "w \<in> trees" "tree_hash sha3 w = tree_hash sha3 u" "rep sha3 get (get' (tree_hash sha3 u)) w"
    using assms(2,4) by (auto simp: store_ok_def)
  moreover from this have "w = u" using assms(1,3) by (auto simp: hash_trees_def dest: inj_onD)
  ultimately show ?thesis by simp
qed

text \<open>A node keeps its meaning when the data source changes to one with at least the same hashes.\<close>

lemma rep_transfer:
  assumes trees: "hash_trees sha3 trees" and more: "\<And>h. get h \<noteq> EmptyNode \<Longrightarrow> get' h \<noteq> EmptyNode"
    and ok: "store_ok sha3 trees get get'"
  shows "rep sha3 get nd u \<Longrightarrow> u \<in> trees \<Longrightarrow> rep sha3 get' nd u"
proof (induction u arbitrary: nd)
  case (PLeaf p v)
  then show ?case by (auto elim!: rep_PLeafE intro: rep_leaf)
next
  case (PBranch p cs)
  from PBranch.prems(1) obtain q links linked linkSet where nd: "nd = BranchNode q links linked linkSet" "path_ok q" "p = nibbles q"
    by (auto elim: rep_PBranchE)
  note b = rep_branchD [of sha3 get q links linked linkSet p cs]
  have "slot sha3 get' (links ! i) (linked ! i) (linkSet ! i) (cs ! i)" if i: "i < 16" for i
  proof -
    have "slot sha3 get (links ! i) (linked ! i) (linkSet ! i) (cs ! i)" "cs ! i \<in> set cs"
      using b PBranch.prems(1) nd(1) i by auto
    then show ?thesis
    proof (cases rule: slot.cases)
      case slot_free
      then show ?thesis by (simp add: rep_slot.intros)
    next
      case (slot_memory x c)
      then have "c \<in> trees" using PBranch.prems(2) trees \<open>cs ! i \<in> set cs\<close> by (auto simp: hash_trees_def)
      then show ?thesis using slot_memory PBranch.IH [of "Some c" c x] \<open>cs ! i \<in> set cs\<close> by (auto intro: rep_slot.intros)
    next
      case (slot_stored c)
      then have c: "c \<in> trees" using PBranch.prems(2) trees \<open>cs ! i \<in> set cs\<close> by (auto simp: hash_trees_def)
      have "get (tree_hash sha3 c) \<noteq> EmptyNode" using slot_stored by auto
      then have "rep sha3 get (get' (tree_hash sha3 c)) c" using store_ok_get [OF trees ok c] more by blast
      then have "rep sha3 get' (get' (tree_hash sha3 c)) c" using PBranch.IH [of "Some c" c] c slot_stored \<open>cs ! i \<in> set cs\<close> by auto
      then show ?thesis using slot_stored by (auto intro: rep_slot.intros)
    qed
  qed
  then show ?case using b PBranch.prems(1) nd by (auto intro!: rep_branch)
qed

section \<open>Memory data sources\<close>

definition memory_ok :: "MemoryDataSource \<Rightarrow> bool" where
  "memory_ok ds \<longleftrightarrow> (\<forall>(h, nd) \<in> set (m_leafNodes ds). is_LeafNode nd) \<and> (\<forall>(h, nd) \<in> set (m_branchNodes ds). is_BranchNode nd)
     \<and> distinct (map fst (m_leafNodes ds) @ map fst (m_branchNodes ds))"

lemma memory_ok_new [simp]: "memory_ok MemoryDataSource_new" "memory_get MemoryDataSource_new h = EmptyNode"
  by (simp_all add: memory_ok_def MemoryDataSource_new_def memory_get_def)

lemma memory_get_kind:
  assumes "memory_ok ds"
  shows "map_of (m_leafNodes ds) h = Some nd \<Longrightarrow> is_LeafNode nd" and "map_of (m_branchNodes ds) h = Some nd \<Longrightarrow> is_BranchNode nd"
  using assms by (auto simp: memory_ok_def dest!: map_of_SomeD)

lemma memory_entry:
  assumes "memory_ok ds" and "(h, nd) \<in> set (m_leafNodes ds @ m_branchNodes ds)"
  shows "memory_get ds h = nd"
proof (cases "(h, nd) \<in> set (m_leafNodes ds)")
  case True
  then show ?thesis using assms(1) by (auto simp: memory_ok_def memory_get_def)
next
  case False
  then have br: "(h, nd) \<in> set (m_branchNodes ds)" using assms(2) by simp
  then have "h \<in> set (map fst (m_branchNodes ds))" by force
  then have "h \<notin> set (map fst (m_leafNodes ds))" using assms(1) unfolding memory_ok_def distinct_append by blast
  then have "map_of (m_leafNodes ds) h = None" by (simp add: map_of_eq_None_iff)
  moreover note br
  ultimately show ?thesis using assms(1) by (auto simp: memory_ok_def memory_get_def)
qed

lemma keys_emplace: "map fst (emplace_node h nd ns) = (if map_of ns h = None then [h] else []) @ map fst ns"
  by (simp add: emplace_node_def)

lemma map_of_emplace: "map_of (emplace_node h nd ns) k = (if k = h \<and> map_of ns h = None then Some nd else map_of ns k)"
  by (auto simp: emplace_node_def)

lemma set_emplace: "set (emplace_node h nd ns) \<subseteq> insert (h, nd) (set ns)"
  by (auto simp: emplace_node_def)

lemma memory_set_get:
  assumes ok: "memory_ok ds" and nd: "nd \<noteq> EmptyNode" "node_hash sha3 nd = Inr h"
    and kind: "memory_get ds h \<noteq> EmptyNode \<Longrightarrow> is_BranchNode (memory_get ds h) \<longleftrightarrow> is_BranchNode nd"
  shows "\<exists>ds'. memory_set sha3 nd ds = Inr ds' \<and> memory_ok ds'
    \<and> memory_get ds' = (memory_get ds)(h := if memory_get ds h = EmptyNode then nd else memory_get ds h)"
proof (cases nd)
  case (LeafNode p v)
  let ?ds = "ds\<lparr>m_leafNodes := emplace_node h nd (m_leafNodes ds)\<rparr>"
  have br: "map_of (m_branchNodes ds) h = None" if "map_of (m_leafNodes ds) h = None"
    using kind LeafNode that memory_get_kind(2) [OF ok, of h] by (cases "map_of (m_branchNodes ds) h") (auto simp: memory_get_def)
  moreover have "x \<noteq> EmptyNode" if "map_of (m_leafNodes ds) h = Some x" for x
    using memory_get_kind(1) [OF ok that] by auto
  ultimately have "memory_get ?ds = (memory_get ds)(h := if memory_get ds h = EmptyNode then nd else memory_get ds h)"
    by (auto simp: memory_get_def map_of_emplace fun_eq_iff split: option.splits)
  moreover have "memory_ok ?ds"
    using ok set_emplace [of h nd "m_leafNodes ds"] LeafNode br by (auto simp: memory_ok_def keys_emplace map_of_eq_None_iff)
  ultimately show ?thesis using nd(2) LeafNode by (intro exI [of _ ?ds]) simp
next
  case (BranchNode p links linked linkSet)
  let ?ds = "ds\<lparr>m_branchNodes := emplace_node h nd (m_branchNodes ds)\<rparr>"
  have lf: "map_of (m_leafNodes ds) h = None"
    using kind BranchNode memory_get_kind(1) [OF ok, of h] by (cases "map_of (m_leafNodes ds) h") (auto simp: memory_get_def)
  moreover have "x \<noteq> EmptyNode" if "map_of (m_branchNodes ds) h = Some x" for x
    using memory_get_kind(2) [OF ok that] by auto
  ultimately have "memory_get ?ds = (memory_get ds)(h := if memory_get ds h = EmptyNode then nd else memory_get ds h)"
    by (auto simp: memory_get_def map_of_emplace fun_eq_iff split: option.splits)
  moreover have "memory_ok ?ds"
    using ok set_emplace [of h nd "m_branchNodes ds"] BranchNode lf by (auto simp: memory_ok_def keys_emplace map_of_eq_None_iff)
  ultimately show ?thesis using nd(2) BranchNode by (intro exI [of _ ?ds]) (simp del: node_hash.simps)
qed (use nd in simp)

lemma rep_kind:
  assumes "rep sha3 get nd u" and "rep sha3 get' nd' u"
  shows "is_BranchNode nd \<longleftrightarrow> is_BranchNode nd'" and "nd \<noteq> EmptyNode"
  using assms by (cases u; auto elim!: rep_PLeafE rep_PBranchE)+

section \<open>Saving a tree\<close>

text \<open>What a step of saving keeps: the store stays free of collisions and every node keeps its meaning.\<close>

definition grows :: "(bytes \<Rightarrow> Hash256) \<Rightarrow> ptree set \<Rightarrow> (Hash256 \<Rightarrow> TreeNode) \<Rightarrow> MemoryDataSource \<Rightarrow> MemoryDataSource \<Rightarrow> bool" where
  "grows sha3 trees backing ds ds' \<longleftrightarrow> memory_ok ds'
     \<and> store_ok sha3 trees (readthrough_get backing ds') (readthrough_get backing ds')
     \<and> (\<forall>h. memory_get ds h \<noteq> EmptyNode \<longrightarrow> memory_get ds' h \<noteq> EmptyNode)
     \<and> (\<forall>nd u. u \<in> trees \<longrightarrow> rep sha3 (readthrough_get backing ds) nd u \<longrightarrow> rep sha3 (readthrough_get backing ds') nd u)"

lemma grows_trans: "grows sha3 trees backing a b \<Longrightarrow> grows sha3 trees backing b c \<Longrightarrow> grows sha3 trees backing a c"
  by (auto simp: grows_def)

lemma memory_set_grows:
  assumes trees: "hash_trees sha3 trees" and mem: "memory_ok ds"
    and store: "store_ok sha3 trees (readthrough_get backing ds) (readthrough_get backing ds)"
    and nd: "rep sha3 (readthrough_get backing ds) nd u" "u \<in> trees"
  shows "\<exists>ds'. memory_set sha3 nd ds = Inr ds' \<and> grows sha3 trees backing ds ds' \<and> memory_get ds' (tree_hash sha3 u) \<noteq> EmptyNode"
proof -
  let ?get = "readthrough_get backing ds" and ?h = "tree_hash sha3 u"
  have ne: "nd \<noteq> EmptyNode" using nd(1) by auto
  have "is_BranchNode (memory_get ds ?h) \<longleftrightarrow> is_BranchNode nd" if "memory_get ds ?h \<noteq> EmptyNode"
  proof -
    have "?get ?h = memory_get ds ?h" using that by (simp add: readthrough_get_def node_empty_def)
    then have "rep sha3 ?get (memory_get ds ?h) u" using store_ok_get [OF trees store nd(2)] that by simp
    then show ?thesis using rep_kind(1) nd(1) by blast
  qed
  then obtain ds' where ds': "memory_set sha3 nd ds = Inr ds'" "memory_ok ds'"
    "memory_get ds' = (memory_get ds)(?h := if memory_get ds ?h = EmptyNode then nd else memory_get ds ?h)"
    using memory_set_get [OF mem ne] rep_hash(1) [OF nd(1)] by blast
  let ?get' = "readthrough_get backing ds'"
  have get': "?get' h = (if h = ?h \<and> memory_get ds ?h = EmptyNode then nd else ?get h)" for h
    using ne by (simp add: readthrough_get_def ds'(3) node_empty_def)
  have more: "?get h \<noteq> EmptyNode \<Longrightarrow> ?get' h \<noteq> EmptyNode" for h using ne by (simp add: get')
  have step: "store_ok sha3 trees ?get ?get'"
    using store nd unfolding store_ok_def get' by auto
  have keep: "rep sha3 ?get' n w" if "rep sha3 ?get n w" "w \<in> trees" for n w
    using rep_transfer [OF trees more step that] .
  then have "store_ok sha3 trees ?get' ?get'" using step unfolding store_ok_def by blast
  then show ?thesis using ds' ne keep by (intro exI [of _ ds']) (auto simp: grows_def)
qed

text \<open>Compacting the links replaces every node in memory by its hash.\<close>

lemma compactLinks_rep:
  assumes rep: "rep sha3 get (BranchNode q links linked linkSet) (PBranch p cs)"
    and stored: "\<And>c. Some c \<in> set cs \<Longrightarrow> rep sha3 get (get (tree_hash sha3 c)) c"
  shows "\<exists>nd. compactLinks sha3 (BranchNode q links linked linkSet) = Inr nd \<and> rep sha3 get nd (PBranch p cs)"
proof -
  note b = rep_branchD [OF rep]
  define hs where "hs i = (case cs ! i of None \<Rightarrow> Hash256_zero | Some c \<Rightarrow> tree_hash sha3 c)" for i
  have hash: "(case linked ! i of None \<Rightarrow> Inr (links ! i) | Some nd \<Rightarrow> node_hash sha3 nd) = Inr (hs i)" if "i < 16" for i
    using rep_hash(2) [of sha3 get] b that by (auto simp: hs_def)
  let ?f = "\<lambda>i branch. case branch_linkedNodes branch ! i of None \<Rightarrow> Inr branch
      | Some nd \<Rightarrow> bind_result (node_hash sha3 nd) (\<lambda>h. Inr
          (BranchNode q ((branch_links branch)[i := h]) ((branch_linkedNodes branch)[i := None]) linkSet))"
  have "foldM ?f [0..<k] (BranchNode q links linked linkSet)
      = Inr (BranchNode q (map hs [0..<k] @ drop k links) (replicate k None @ drop k linked) linkSet)" if "k \<le> 16" for k
    using that
  proof (induction k)
    case (Suc k)
    have k: "k < 16" "drop k links = links ! k # drop (Suc k) links" "drop k linked = linked ! k # drop (Suc k) linked"
      using Suc.prems b by (simp_all add: Cons_nth_drop_Suc)
    have "foldM ?f [0..<Suc k] (BranchNode q links linked linkSet)
        = ?f k (BranchNode q (map hs [0..<k] @ drop k links) (replicate k None @ drop k linked) linkSet)"
      using Suc by (cases "?f k (BranchNode q (map hs [0..<k] @ drop k links) (replicate k None @ drop k linked) linkSet)") auto
    also have "\<dots> = Inr (BranchNode q (map hs [0..<Suc k] @ drop (Suc k) links) (replicate (Suc k) None @ drop (Suc k) linked) linkSet)"
      using hash [OF k(1)] k(2,3) by (cases "linked ! k") (simp_all add: nth_append list_update_append replicate_append_same)
    finally show ?case .
  qed simp
  from this [of 16] have "compactLinks sha3 (BranchNode q links linked linkSet)
      = Inr (BranchNode q (map hs [0..<16]) (replicate 16 None) linkSet)"
    using b by (simp add: Max_Links_def)
  moreover have "slot sha3 get (hs i) None (linkSet ! i) (cs ! i)" if i: "i < 16" for i
  proof -
    have "slot sha3 get (links ! i) (linked ! i) (linkSet ! i) (cs ! i)" using b i by simp
    moreover have "cs ! i \<in> set cs" using b i by simp
    ultimately show ?thesis using stored by (cases rule: slot.cases) (auto simp: hs_def intro: rep_slot.intros)
  qed
  ultimately show ?thesis
    using b by (intro exI [of _ "BranchNode q (map hs [0..<16]) (replicate 16 None) linkSet"]) (auto intro!: rep_branch)
qed

definition saved :: "(bytes \<Rightarrow> Hash256) \<Rightarrow> ptree set \<Rightarrow> (Hash256 \<Rightarrow> TreeNode) \<Rightarrow> TreeNode \<Rightarrow> ptree \<Rightarrow> MemoryDataSource \<Rightarrow> bool" where
  "saved sha3 trees backing nd u ds \<longleftrightarrow>
     (\<exists>ds'. node_saveAll sha3 nd ds = Inr ds' \<and> grows sha3 trees backing ds ds' \<and> memory_get ds' (tree_hash sha3 u) \<noteq> EmptyNode)"

lemma saveAll_links:
  assumes trees: "hash_trees sha3 trees"
  shows "memory_ok ds \<Longrightarrow> store_ok sha3 trees (readthrough_get backing ds) (readthrough_get backing ds)
    \<Longrightarrow> \<forall>(nd, u) \<in> set xs. u \<in> trees \<and> rep sha3 (readthrough_get backing ds) nd u
        \<and> (\<forall>ds. memory_ok ds \<longrightarrow> store_ok sha3 trees (readthrough_get backing ds) (readthrough_get backing ds)
            \<longrightarrow> rep sha3 (readthrough_get backing ds) nd u \<longrightarrow> saved sha3 trees backing nd u ds)
    \<Longrightarrow> \<exists>ds'. foldM (node_saveAll sha3) (map fst xs) ds = Inr ds' \<and> grows sha3 trees backing ds ds'
        \<and> (\<forall>(nd, u) \<in> set xs. memory_get ds' (tree_hash sha3 u) \<noteq> EmptyNode)"
proof (induction xs arbitrary: ds)
  case Nil
  then show ?case by (auto simp: grows_def)
next
  case (Cons x xs)
  obtain nd u where x: "x = (nd, u)" by fastforce
  then obtain ds1 where ds1: "node_saveAll sha3 nd ds = Inr ds1" "grows sha3 trees backing ds ds1"
    "memory_get ds1 (tree_hash sha3 u) \<noteq> EmptyNode"
    using Cons.prems by (auto simp: saved_def)
  have "memory_ok ds1" "store_ok sha3 trees (readthrough_get backing ds1) (readthrough_get backing ds1)"
    "\<forall>(nd, u) \<in> set xs. u \<in> trees \<and> rep sha3 (readthrough_get backing ds1) nd u
        \<and> (\<forall>ds. memory_ok ds \<longrightarrow> store_ok sha3 trees (readthrough_get backing ds) (readthrough_get backing ds)
            \<longrightarrow> rep sha3 (readthrough_get backing ds) nd u \<longrightarrow> saved sha3 trees backing nd u ds)"
    using ds1(2) Cons.prems(3) by (fastforce simp: grows_def)+
  from Cons.IH [OF this] obtain ds2 where "foldM (node_saveAll sha3) (map fst xs) ds1 = Inr ds2" "grows sha3 trees backing ds1 ds2"
    "\<forall>(nd, u) \<in> set xs. memory_get ds2 (tree_hash sha3 u) \<noteq> EmptyNode"
    by blast
  moreover from this have "memory_get ds2 (tree_hash sha3 u) \<noteq> EmptyNode" using ds1(3) by (simp add: grows_def)
  ultimately show ?case using ds1 x grows_trans [OF ds1(2)] by auto
qed

lemma foldM_option:
  "foldM (\<lambda>x s. case x of None \<Rightarrow> Inr s | Some y \<Rightarrow> f y s) xs s = foldM f (map the (filter (\<lambda>x. x \<noteq> None) xs)) s"
proof (induction xs arbitrary: s)
  case (Cons x xs)
  then show ?case by (cases x; cases "f (the x) s") auto
qed simp

lemma grows_get:
  "grows sha3 trees backing ds ds' \<Longrightarrow> readthrough_get backing ds h \<noteq> EmptyNode \<Longrightarrow> readthrough_get backing ds' h \<noteq> EmptyNode"
  by (auto simp: grows_def readthrough_get_def node_empty_def Let_def split: if_splits)

lemma saveAll_rep:
  assumes trees: "hash_trees sha3 trees"
  shows "u \<in> trees \<Longrightarrow> memory_ok ds \<Longrightarrow> store_ok sha3 trees (readthrough_get backing ds) (readthrough_get backing ds)
    \<Longrightarrow> rep sha3 (readthrough_get backing ds) nd u \<Longrightarrow> saved sha3 trees backing nd u ds"
proof (induction u arbitrary: nd ds)
  case (PLeaf p v)
  then obtain q where nd: "nd = LeafNode q v" by (auto elim: rep_PLeafE)
  then have "node_saveAll sha3 nd ds = memory_set sha3 nd ds" by simp
  then show ?case using memory_set_grows [OF trees PLeaf.prems(2-4,1)] by (simp only: saved_def)
next
  case (PBranch p cs)
  let ?get = "readthrough_get backing ds"
  obtain q links linked linkSet where nd: "nd = BranchNode q links linked linkSet"
    using PBranch.prems(4) by (auto elim: rep_PBranchE)
  note rep = PBranch.prems(4) [unfolded nd]
  note b = rep_branchD [OF rep]
  have slot: "slot sha3 ?get (links ! i) (linked ! i) (linkSet ! i) (cs ! i)" if "i < 16" for i using b that by simp
  have child: "c \<in> trees" if "Some c \<in> set cs" for c using that PBranch.prems(1) trees by (auto simp: hash_trees_def)
  define js where "js = filter (\<lambda>i. linked ! i \<noteq> None) [0..<16]"
  define xs where "xs = map (\<lambda>i. (the (linked ! i), the (cs ! i))) js"
  have mem: "rep sha3 ?get (the (linked ! i)) (the (cs ! i)) \<and> Some (the (cs ! i)) \<in> set cs" if "i \<in> set js" for i
  proof -
    have i: "i < 16" "linked ! i \<noteq> None" "cs ! i \<in> set cs" using that b by (auto simp: js_def)
    from slot [OF i(1)] show ?thesis by (cases rule: slot.cases) (use i in auto)
  qed
  have "filter (\<lambda>x. x \<noteq> None) (map ((!) linked) [0..<16]) = map ((!) linked) js"
    by (simp add: js_def filter_map comp_def)
  moreover have "map ((!) linked) [0..<16] = linked" using b map_nth [of linked] by simp
  ultimately have "map the (filter (\<lambda>x. x \<noteq> None) linked) = map fst xs" by (simp add: xs_def comp_def)
  then have links: "foldM (\<lambda>node ds. case node of None \<Rightarrow> Inr ds | Some nd \<Rightarrow> node_saveAll sha3 nd ds) linked ds
      = foldM (node_saveAll sha3) (map fst xs) ds"
    unfolding foldM_option by simp
  have "\<forall>(nd, u) \<in> set xs. u \<in> trees \<and> rep sha3 ?get nd u
      \<and> (\<forall>ds. memory_ok ds \<longrightarrow> store_ok sha3 trees (readthrough_get backing ds) (readthrough_get backing ds)
          \<longrightarrow> rep sha3 (readthrough_get backing ds) nd u \<longrightarrow> saved sha3 trees backing nd u ds)"
    unfolding xs_def using mem child PBranch.IH [of "Some c" c for c] by auto
  from saveAll_links [OF trees PBranch.prems(2,3) this] obtain ds1 where
    ds1: "foldM (node_saveAll sha3) (map fst xs) ds = Inr ds1" "grows sha3 trees backing ds ds1"
    and saved_links: "\<forall>(nd, u) \<in> set xs. memory_get ds1 (tree_hash sha3 u) \<noteq> EmptyNode"
    by blast
  let ?get1 = "readthrough_get backing ds1"
  have g1: "memory_ok ds1" "store_ok sha3 trees ?get1 ?get1" and keep: "\<And>nd u. u \<in> trees \<Longrightarrow> rep sha3 ?get nd u \<Longrightarrow> rep sha3 ?get1 nd u"
    using ds1(2) by (auto simp: grows_def)
  have stored: "rep sha3 ?get1 (?get1 (tree_hash sha3 c)) c" if c: "Some c \<in> set cs" for c
  proof -
    obtain i where i: "i < 16" "cs ! i = Some c" using c b by (metis in_set_conv_nth)
    from slot [OF i(1)] have "?get1 (tree_hash sha3 c) \<noteq> EmptyNode"
    proof (cases rule: slot.cases)
      case (slot_memory x d)
      then have "(x, c) \<in> set xs" using i by (force simp: xs_def js_def)
      then have "memory_get ds1 (tree_hash sha3 c) \<noteq> EmptyNode" using saved_links by auto
      then show ?thesis by (simp add: readthrough_get_def node_empty_def)
    next
      case (slot_stored d)
      then have "?get (tree_hash sha3 c) \<noteq> EmptyNode" using i(2) by auto
      then show ?thesis using grows_get [OF ds1(2)] by blast
    qed (use i in simp)
    then show ?thesis by (rule store_ok_get [OF trees g1(2) child [OF c]])
  qed
  have rep1: "rep sha3 ?get1 (BranchNode q links linked linkSet) (PBranch p cs)" by (rule keep [OF PBranch.prems(1) rep])
  obtain nd1 where nd1: "compactLinks sha3 nd = Inr nd1" "rep sha3 ?get1 nd1 (PBranch p cs)"
    using compactLinks_rep [OF rep1 stored] nd by blast
  obtain ds2 where ds2: "memory_set sha3 nd1 ds1 = Inr ds2" "grows sha3 trees backing ds1 ds2"
    "memory_get ds2 (tree_hash sha3 (PBranch p cs)) \<noteq> EmptyNode"
    using memory_set_grows [OF trees g1 nd1(2) PBranch.prems(1)] by blast
  have "node_saveAll sha3 nd ds = Inr ds2" using links ds1(1) nd1(1) ds2(1) nd by simp
  then show ?case using ds2(3) grows_trans [OF ds1(2) ds2(2)] by (auto simp: saved_def)
qed

section \<open>Committing a delta\<close>

text \<open>
  A base tree whose data source is a store of trees and has the root; a delta of it whose nodes, those of the
  backing data source included, are nodes of these trees.
\<close>

definition base_ok :: "(bytes \<Rightarrow> Hash256) \<Rightarrow> nat \<Rightarrow> ptree set \<Rightarrow> BasePatriciaTree \<Rightarrow> ptree option \<Rightarrow> bool" where
  "base_ok sha3 len trees base t \<longleftrightarrow> memory_ok (base_dataSource base) \<and> tree_ok len t \<and> set_option t \<subseteq> trees
     \<and> store_ok sha3 trees (memory_get (base_dataSource base)) (memory_get (base_dataSource base))
     \<and> node_rep sha3 (memory_get (base_dataSource base)) (base_rootNode base) t
     \<and> (\<forall>u. t = Some u \<longrightarrow> memory_get (base_dataSource base) (tree_hash sha3 u) \<noteq> EmptyNode)"

definition delta_ok :: "(bytes \<Rightarrow> Hash256) \<Rightarrow> ptree set \<Rightarrow> MemoryDataSource \<Rightarrow> BasePatriciaTreeDelta \<Rightarrow> bool" where
  "delta_ok sha3 trees backing d \<longleftrightarrow> memory_ok backing \<and> memory_ok (delta_dataSource d)
     \<and> store_ok sha3 trees (delta_get backing d) (delta_get backing d)
     \<and> store_ok sha3 trees (delta_get backing d) (memory_get backing)"

lemma readthrough_new: "readthrough_get backing MemoryDataSource_new = backing"
  by (rule ext) (simp add: readthrough_get_def node_empty_def)

lemma rebase_ok:
  assumes trees: "hash_trees sha3 trees" and base: "base_ok sha3 len trees base t"
  shows "\<exists>d. patricia_rebase sha3 base None = Inr d \<and> delta_rep sha3 len (base_dataSource base) d t
    \<and> delta_ok sha3 trees (base_dataSource base) d"
proof -
  let ?ds = "base_dataSource base"
  let ?d = "BasePatriciaTreeDelta_new ?ds (root_hash sha3 t)"
  have b: "memory_ok ?ds" "tree_ok len t" "set_option t \<subseteq> trees" "store_ok sha3 trees (memory_get ?ds) (memory_get ?ds)"
    "node_rep sha3 (memory_get ?ds) (base_rootNode base) t"
    "\<And>u. t = Some u \<Longrightarrow> memory_get ?ds (tree_hash sha3 u) \<noteq> EmptyNode"
    using base by (auto simp: base_ok_def)
  have get: "delta_get ?ds ?d = memory_get ?ds" by (simp add: delta_get_def BasePatriciaTreeDelta_new_def readthrough_new)
  have zero: "memory_get ?ds Hash256_zero = EmptyNode" by (rule store_ok_zero [OF trees b(4)])
  have "node_rep sha3 (memory_get ?ds) (delta_rootNode ?d) t"
  proof (cases t)
    case None
    then show ?thesis using zero by (simp add: BasePatriciaTreeDelta_new_def readthrough_new root_hash_def tryLoad_def node_rep_def node_empty_def)
  next
    case (Some u)
    then show ?thesis
      using b(3,6) store_ok_get [OF trees b(4), of u]
      by (simp add: BasePatriciaTreeDelta_new_def readthrough_new root_hash_def tryLoad_def node_rep_def node_empty_def)
  qed
  then have "delta_rep sha3 len ?ds ?d t" using zero b(2) by (simp add: delta_rep_def get)
  moreover have "delta_ok sha3 trees ?ds ?d" using b(1,4) by (simp add: delta_ok_def get) (simp add: BasePatriciaTreeDelta_new_def)
  moreover have "patricia_rebase sha3 base None = Inr ?d" using node_rep_hash [OF b(5)] by (simp add: patricia_rebase_def)
  ultimately show ?thesis by blast
qed

lemma rebase_lookup:
  assumes trees: "hash_trees sha3 trees" and base: "base_ok sha3 len trees base t" and key: "length key = len"
  shows "\<exists>ns. PatriciaTree_lookup sha3 (memory_get (base_dataSource base)) key (base_rootNode base) = Inr (map_of_tree t key, ns)"
proof -
  let ?d = "\<lparr>delta_dataSource = MemoryDataSource_new, delta_baseRootHash = [], delta_rootNode = base_rootNode base\<rparr>"
  have get: "delta_get (base_dataSource base) ?d = memory_get (base_dataSource base)" by (simp add: delta_get_def readthrough_new)
  have "delta_rep sha3 len (base_dataSource base) ?d t"
    using base store_ok_zero [OF trees] by (auto simp: delta_rep_def get base_ok_def)
  from lookup_delta_rep [OF this key] show ?thesis by (simp add: get)
qed

text \<open>Copying nodes of known trees into the backing data source.\<close>

lemma copy_nodes:
  assumes trees: "hash_trees sha3 trees"
  shows "memory_ok ds \<Longrightarrow> store_ok sha3 trees get (memory_get ds) \<Longrightarrow> \<forall>nd \<in> set nds. \<exists>u \<in> trees. rep sha3 get nd u
    \<Longrightarrow> \<exists>ds'. foldM (memory_set sha3) nds ds = Inr ds' \<and> memory_ok ds' \<and> store_ok sha3 trees get (memory_get ds')
      \<and> (\<forall>h. memory_get ds h \<noteq> EmptyNode \<longrightarrow> memory_get ds' h \<noteq> EmptyNode)
      \<and> (\<forall>nd \<in> set nds. \<forall>h. node_hash sha3 nd = Inr h \<longrightarrow> memory_get ds' h \<noteq> EmptyNode)"
proof (induction nds arbitrary: ds)
  case (Cons nd nds)
  obtain u where u: "u \<in> trees" "rep sha3 get nd u" using Cons.prems(3) by auto
  let ?h = "tree_hash sha3 u"
  have ne: "nd \<noteq> EmptyNode" using u(2) by auto
  have "is_BranchNode (memory_get ds ?h) \<longleftrightarrow> is_BranchNode nd" if "memory_get ds ?h \<noteq> EmptyNode"
    using store_ok_get [OF trees Cons.prems(2) u(1) that] rep_kind(1) u(2) by blast
  then obtain ds1 where ds1: "memory_set sha3 nd ds = Inr ds1" "memory_ok ds1"
    "memory_get ds1 = (memory_get ds)(?h := if memory_get ds ?h = EmptyNode then nd else memory_get ds ?h)"
    using memory_set_get [OF Cons.prems(1) ne rep_hash(1) [OF u(2)]] by blast
  have "store_ok sha3 trees get (memory_get ds1)" using Cons.prems(2) u unfolding store_ok_def ds1(3) by auto
  from Cons.IH [OF ds1(2) this] Cons.prems(3) obtain ds2 where ds2: "foldM (memory_set sha3) nds ds1 = Inr ds2" "memory_ok ds2"
    "store_ok sha3 trees get (memory_get ds2)" "\<forall>h. memory_get ds1 h \<noteq> EmptyNode \<longrightarrow> memory_get ds2 h \<noteq> EmptyNode"
    "\<forall>nd \<in> set nds. \<forall>h. node_hash sha3 nd = Inr h \<longrightarrow> memory_get ds2 h \<noteq> EmptyNode"
    by auto
  moreover have "memory_get ds h \<noteq> EmptyNode \<Longrightarrow> memory_get ds1 h \<noteq> EmptyNode" for h using ne by (simp add: ds1(3))
  moreover have "memory_get ds1 ?h \<noteq> EmptyNode" using ne by (simp add: ds1(3))
  ultimately show ?case using ds1(1) rep_hash(1) [OF u(2)] by auto
qed auto

lemma setCheckpoint_ok:
  assumes trees: "hash_trees sha3 trees" and d: "delta_rep sha3 len backing d t" "delta_ok sha3 trees backing d" "set_option t \<subseteq> trees"
  shows "\<exists>d'. setCheckpoint sha3 d = Inr d' \<and> delta_rep sha3 len backing d' t \<and> delta_ok sha3 trees backing d'
    \<and> delta_rootNode d' = delta_rootNode d
    \<and> (\<forall>u. t = Some u \<longrightarrow> memory_get (delta_dataSource d') (tree_hash sha3 u) \<noteq> EmptyNode)"
proof (cases t)
  case None
  then have "setCheckpoint sha3 d = Inr d"
    using d(1) by (simp add: setCheckpoint_def PatriciaTree_saveAll_def delta_rep_def node_rep_def node_empty_def)
  then show ?thesis using d None by simp
next
  case (Some u)
  let ?b = "memory_get backing"
  have u: "u \<in> trees" "rep sha3 (readthrough_get ?b (delta_dataSource d)) (delta_rootNode d) u" "wf_tree (2 * len) u"
    using d(1,3) Some by (auto simp: delta_rep_def node_rep_def tree_ok_def delta_get_def)
  have ok: "memory_ok (delta_dataSource d)" "store_ok sha3 trees (readthrough_get ?b (delta_dataSource d)) (readthrough_get ?b (delta_dataSource d))"
    "store_ok sha3 trees (readthrough_get ?b (delta_dataSource d)) ?b" "memory_ok backing"
    using d(2) by (simp_all add: delta_ok_def delta_get_def)
  obtain ds where ds: "node_saveAll sha3 (delta_rootNode d) (delta_dataSource d) = Inr ds"
    "grows sha3 trees ?b (delta_dataSource d) ds" "memory_get ds (tree_hash sha3 u) \<noteq> EmptyNode"
    using saveAll_rep [OF trees u(1) ok(1,2) u(2)] by (auto simp: saved_def)
  let ?d = "d\<lparr>delta_dataSource := ds\<rparr>"
  have g: "memory_ok ds" "store_ok sha3 trees (readthrough_get ?b ds) (readthrough_get ?b ds)"
    "\<And>nd u. u \<in> trees \<Longrightarrow> rep sha3 (readthrough_get ?b (delta_dataSource d)) nd u \<Longrightarrow> rep sha3 (readthrough_get ?b ds) nd u"
    using ds(2) by (auto simp: grows_def)
  have "store_ok sha3 trees (readthrough_get ?b ds) ?b" using ok(3) g(3) unfolding store_ok_def by blast
  then have "delta_ok sha3 trees backing ?d" using ok(4) g(1,2) by (simp add: delta_ok_def delta_get_def)
  moreover have "delta_rep sha3 len backing ?d t"
    using u g(3) [OF u(1,2)] store_ok_zero [OF trees g(2)] Some by (simp add: delta_rep_def delta_get_def node_rep_def tree_ok_def)
  moreover have "setCheckpoint sha3 d = Inr ?d"
    using ds(1) u(2) by (auto simp: setCheckpoint_def PatriciaTree_saveAll_def node_empty_def)
  ultimately show ?thesis using ds(3) Some by (intro exI [of _ ?d]) simp
qed

lemma copyPendingChanges_ok:
  assumes trees: "hash_trees sha3 trees" and d: "delta_ok sha3 trees backing d"
  shows "\<exists>ds. copyPendingChangesTo sha3 d backing = Inr ds \<and> memory_ok ds
    \<and> store_ok sha3 trees (delta_get backing d) (memory_get ds)
    \<and> (\<forall>h. delta_get backing d h \<noteq> EmptyNode \<longrightarrow> memory_get ds h \<noteq> EmptyNode)"
proof -
  let ?m = "delta_dataSource d" and ?get = "delta_get backing d"
  let ?nds = "map snd (m_leafNodes ?m) @ map snd (m_branchNodes ?m)"
  have ok: "memory_ok ?m" "memory_ok backing" "store_ok sha3 trees ?get ?get" "store_ok sha3 trees ?get (memory_get backing)"
    using d by (simp_all add: delta_ok_def)
  have entry: "\<exists>u \<in> trees. rep sha3 ?get nd u \<and> tree_hash sha3 u = h" if "(h, nd) \<in> set (m_leafNodes ?m @ m_branchNodes ?m)" for h nd
  proof -
    have "nd \<noteq> EmptyNode" using that ok(1) by (auto simp: memory_ok_def)
    then have "?get h = nd" using memory_entry [OF ok(1) that] by (simp add: delta_get_def readthrough_get_def node_empty_def)
    then show ?thesis using ok(3) \<open>nd \<noteq> EmptyNode\<close> unfolding store_ok_def by blast
  qed
  have "\<forall>nd \<in> set ?nds. \<exists>u \<in> trees. rep sha3 ?get nd u" using entry by fastforce
  from copy_nodes [OF trees ok(2,4) this] obtain ds where ds: "foldM (memory_set sha3) ?nds backing = Inr ds" "memory_ok ds"
    "store_ok sha3 trees ?get (memory_get ds)" "\<forall>h. memory_get backing h \<noteq> EmptyNode \<longrightarrow> memory_get ds h \<noteq> EmptyNode"
    "\<forall>nd \<in> set ?nds. \<forall>h. node_hash sha3 nd = Inr h \<longrightarrow> memory_get ds h \<noteq> EmptyNode"
    by blast
  have "memory_get ds h \<noteq> EmptyNode" if h: "?get h \<noteq> EmptyNode" for h
  proof (cases "memory_get ?m h = EmptyNode")
    case True
    then show ?thesis using h ds(4) by (simp add: delta_get_def readthrough_get_def node_empty_def)
  next
    case False
    then obtain nd where nd: "(h, nd) \<in> set (m_leafNodes ?m @ m_branchNodes ?m)"
      by (auto simp: memory_get_def split: option.splits dest!: map_of_SomeD)
    then obtain u where "rep sha3 ?get nd u" "tree_hash sha3 u = h" using entry by blast
    then have "node_hash sha3 nd = Inr h" using rep_hash(1) by blast
    moreover have "nd \<in> set ?nds" using nd by force
    ultimately show ?thesis using ds(5) by blast
  qed
  then show ?thesis using ds(1-3) by (auto simp: copyPendingChangesTo_def memory_forEach_def)
qed

lemma commit_ok:
  assumes trees: "hash_trees sha3 trees" and base: "base_ok sha3 len trees base t0"
    and d: "delta_rep sha3 len (base_dataSource base) d t" "delta_ok sha3 trees (base_dataSource base) d" "set_option t \<subseteq> trees"
  shows "\<exists>base' d'. patricia_commit sha3 base (Some d) = Inr (base', d') \<and> base_ok sha3 len trees base' t
    \<and> delta_baseRootHash d' = root_hash sha3 t"
proof -
  let ?ds = "base_dataSource base"
  obtain d1 where d1: "setCheckpoint sha3 d = Inr d1" "delta_rep sha3 len ?ds d1 t" "delta_ok sha3 trees ?ds d1"
    "\<And>u. t = Some u \<Longrightarrow> memory_get (delta_dataSource d1) (tree_hash sha3 u) \<noteq> EmptyNode"
    using setCheckpoint_ok [OF trees d] by blast
  let ?get = "delta_get ?ds d1"
  obtain ds where ds: "copyPendingChangesTo sha3 d1 ?ds = Inr ds" "memory_ok ds" "store_ok sha3 trees ?get (memory_get ds)"
    "\<And>h. ?get h \<noteq> EmptyNode \<Longrightarrow> memory_get ds h \<noteq> EmptyNode"
    using copyPendingChanges_ok [OF trees d1(3)] by blast
  note keep = rep_transfer [OF trees ds(4,3)]
  have store: "store_ok sha3 trees (memory_get ds) (memory_get ds)" using ds(3) keep unfolding store_ok_def by blast
  have hash: "node_hash sha3 (delta_rootNode d1) = Inr (root_hash sha3 t)"
    using d1(2) node_rep_hash by (auto simp: delta_rep_def)
  define nd where "nd = (if Hash256_zero = root_hash sha3 t then EmptyNode else delta_get ds d1 (root_hash sha3 t))"
  have root: "node_rep sha3 (memory_get ds) nd t \<and> (\<forall>u. t = Some u \<longrightarrow> memory_get ds (tree_hash sha3 u) \<noteq> EmptyNode)
      \<and> (Hash256_zero \<noteq> root_hash sha3 t \<longrightarrow> delta_get ds d1 (root_hash sha3 t) \<noteq> EmptyNode)"
  proof (cases t)
    case None
    then show ?thesis by (simp add: nd_def root_hash_def node_rep_def)
  next
    case (Some u)
    let ?h = "tree_hash sha3 u"
    have u: "u \<in> trees" "Hash256_zero \<noteq> ?h" using d(3) Some trees by (auto simp: hash_trees_def)
    have mem: "delta_get x d1 ?h = memory_get (delta_dataSource d1) ?h" for x
      using d1(4) [OF Some] by (simp add: delta_get_def readthrough_get_def node_empty_def)
    then have ne: "?get ?h \<noteq> EmptyNode" using d1(4) [OF Some] by simp
    then have "rep sha3 ?get (?get ?h) u" using store_ok_get [OF trees _ u(1)] d1(3) by (simp add: delta_ok_def)
    then have "rep sha3 (memory_get ds) (?get ?h) u" using keep u(1) by blast
    then show ?thesis using Some u(2) ds(4) [OF ne] ne mem by (simp add: nd_def root_hash_def node_rep_def)
  qed
  let ?base = "base\<lparr>base_dataSource := ds, base_rootNode := nd\<rparr>"
  have "base_ok sha3 len trees ?base t" using root d1(2) d(3) ds(2) store by (simp add: base_ok_def delta_rep_def)
  moreover obtain d' where "patricia_reset ds (root_hash sha3 t) d1 = Inr d'" "delta_baseRootHash d' = root_hash sha3 t"
    using root by (cases "Hash256_zero = root_hash sha3 t") (auto simp: patricia_reset_def tryLoad_def node_empty_def Let_def)
  ultimately show ?thesis
    using d1(1) ds(1) hash by (auto simp: patricia_commit_def copyRootTo_def nd_def)
qed

text \<open>
  C12. A committed delta carries its map to the base tree. For a base tree whose data source is free of
  collisions, rebasing, changing and committing succeed; the base tree then has the root hash of the delta,
  answers every lookup from its own data source as the changed map, and is again a base tree of this kind.
\<close>

theorem patricia_commit_correct:
  assumes trees: "hash_trees sha3 trees" and base: "base_ok sha3 len trees base t0"
    and keys: "\<forall>op \<in> set ops. length (op_key op) = len"
    and new: "\<And>t. tree_ok len t \<Longrightarrow> map_of_tree t = fold op_map ops (map_of_tree t0) \<Longrightarrow> set_option t \<subseteq> trees"
  shows "\<exists>d d1 base' d' t. patricia_rebase sha3 base None = Inr d \<and> foldM (patricia_op sha3 (base_dataSource base)) ops d = Inr d1
    \<and> patricia_commit sha3 base (Some d1) = Inr (base', d')
    \<and> node_hash sha3 (base_rootNode base') = node_hash sha3 (delta_rootNode d1)
    \<and> (\<forall>key. length key = len \<longrightarrow> (\<exists>ns. PatriciaTree_lookup sha3 (memory_get (base_dataSource base')) key (base_rootNode base')
        = Inr (fold op_map ops (map_of_tree t0) key, ns)))
    \<and> base_ok sha3 len trees base' t \<and> map_of_tree t = fold op_map ops (map_of_tree t0)"
proof -
  let ?ds = "base_dataSource base"
  obtain d where d: "patricia_rebase sha3 base None = Inr d" "delta_rep sha3 len ?ds d t0" "delta_ok sha3 trees ?ds d"
    using rebase_ok [OF trees base] by blast
  obtain d1 t where d1: "foldM (patricia_op sha3 ?ds) ops d = Inr d1" "delta_rep sha3 len ?ds d1 t"
    "map_of_tree t = fold op_map ops (map_of_tree t0)" "delta_dataSource d1 = delta_dataSource d"
    using patricia_ops_rep [OF d(2) keys] by blast
  have t: "set_option t \<subseteq> trees" using new d1(2,3) by (simp add: delta_rep_def)
  have "delta_ok sha3 trees ?ds d1" using d(3) d1(4) by (simp add: delta_ok_def delta_get_def)
  from commit_ok [OF trees base d1(2) this t] obtain base' d' where
    c: "patricia_commit sha3 base (Some d1) = Inr (base', d')" "base_ok sha3 len trees base' t"
    by blast
  have "node_hash sha3 (base_rootNode base') = node_hash sha3 (delta_rootNode d1)"
    using c(2) d1(2) node_rep_hash by (fastforce simp: base_ok_def delta_rep_def)
  moreover have "\<exists>ns. PatriciaTree_lookup sha3 (memory_get (base_dataSource base')) key (base_rootNode base') = Inr (map_of_tree t key, ns)"
    if "length key = len" for key
    using rebase_lookup [OF trees c(2) that] .
  ultimately show ?thesis using d(1) d1(1,3) c by (metis (no_types, lifting))
qed

definition empty_base :: BasePatriciaTree where
  "empty_base = \<lparr>base_dataSource = MemoryDataSource_new, base_rootNode = EmptyNode\<rparr>"

lemma empty_base_ok: "base_ok sha3 len trees empty_base None"
  by (simp add: base_ok_def empty_base_def tree_ok_def store_ok_def node_rep_def)

theorem patricia_commit_correct_witness:
  "\<exists>d d1 base' d'. patricia_rebase (\<lambda>x. x) empty_base None = Inr d
    \<and> foldM (patricia_op (\<lambda>x. x) (base_dataSource empty_base)) [SetKey [5] [7]] d = Inr d1
    \<and> patricia_commit (\<lambda>x. x) empty_base (Some d1) = Inr (base', d')
    \<and> (\<exists>ns. PatriciaTree_lookup (\<lambda>x. x) (memory_get (base_dataSource base')) [5] (base_rootNode base') = Inr (Some [7], ns))"
proof -
  let ?leaf = "PLeaf [0, 5] [7]"
  have hash: "tree_hash (\<lambda>x. x) ?leaf \<noteq> Hash256_zero" by (auto simp: Hash256_zero_def key_bytes_def dest: arg_cong [where f = length])
  have trees: "hash_trees (\<lambda>x. x) {?leaf}" using hash by (simp add: hash_trees_def)
  have "wf_tree 2 ?leaf" by (rule wf_leaf) (auto simp: word_less_nat_alt)
  then have leaf: "tree_ok 1 (Some ?leaf)" by (simp add: tree_ok_def)
  have key: "key_nibbles [5] = [0, 5]" by (simp add: key_nibbles_Cons drop_bit_eq_div take_bit_eq_mod)
  have map: "map_of_tree (Some ?leaf) = fold op_map [SetKey [5] [7]] (map_of_tree None)"
    using key_nibbles_inject [of _ "[5]"] by (auto simp: map_of_tree_def fun_eq_iff key)
  have new: "set_option t \<subseteq> {?leaf}" if "tree_ok 1 t" "map_of_tree t = fold op_map [SetKey [5] [7]] (map_of_tree None)" for t
    using tree_of_map_unique [OF that(1) leaf] that(2) map by simp
  have "fold op_map [SetKey [5] [7]] (map_of_tree None) [5] = Some [7]" by simp
  moreover have "\<forall>op \<in> set [SetKey [5] [7]]. length (op_key op) = 1" by simp
  ultimately show ?thesis using patricia_commit_correct [OF trees empty_base_ok _ new] by fastforce
qed

end
