(* ===== verification/Patricia_Serializer.thy ===== *)
theory Patricia_Serializer
  imports Patricia_State
begin

unbundle bit_operations_syntax

text \<open>
  The binary form of tree nodes (\<^verbatim>\<open>tree/PatriciaTreeSerializer.cpp\<close>). An output stream is the list of bytes
  written to it, an input stream the list of bytes still to be read; reading past its end throws.
\<close>

section \<open>Streams\<close>

definition read_bytes :: "nat \<Rightarrow> bytes \<Rightarrow> (bytes \<times> bytes) result" where
  "read_bytes n input = (if n \<le> length input then Inr (take n input, drop n input) else Inl runtime_error)"

definition Read8 :: "bytes \<Rightarrow> (u8 \<times> bytes) result" where
  "Read8 input = bind_result (read_bytes 1 input) (\<lambda>(b, input). Inr (hd b, input))"

definition Write16 :: "u16 \<Rightarrow> bytes" where
  "Write16 w = [ucast w, ucast (drop_bit 8 w)]"

definition Read16 :: "bytes \<Rightarrow> (u16 \<times> bytes) result" where
  "Read16 input = bind_result (read_bytes 2 input) (\<lambda>(b, input). Inr (ucast (b ! 0) OR push_bit 8 (ucast (b ! 1)), input))"

section \<open>Serialization\<close>

definition SerializePath_step :: "TreeNodePath \<Rightarrow> nat \<Rightarrow> u8 \<times> bytes \<Rightarrow> (u8 \<times> bytes) result" where
  "SerializePath_step path i st =
    (let (byte, out) = st in
     bind_result (nibbleAt path i) (\<lambda>n.
       Inr (if 0 = i mod 2 then (push_bit 4 n, out) else (byte OR n, out @ [byte OR n]))))"

definition SerializePath :: "TreeNodePath \<Rightarrow> bytes result" where
  "SerializePath path =
    bind_result (foldM (SerializePath_step path) [0..<path_size path] (0, [of_nat (path_size path)]))
      (\<lambda>(byte, out). Inr (if 1 = path_size path mod 2 then out @ [byte] else out))"

definition SerializeLeaf :: "TreeNodePath \<Rightarrow> Hash256 \<Rightarrow> bytes result" where
  "SerializeLeaf path value = bind_result (SerializePath path) (\<lambda>p. Inr (0xFF # p @ value))"

definition linksMask :: "TreeNode \<Rightarrow> u16" where
  "linksMask node = fold (\<lambda>i mask. mask OR push_bit i (if hasLink node i then 1 else 0)) [0..<16] 0"

definition SerializeBranch :: "(bytes \<Rightarrow> Hash256) \<Rightarrow> TreeNode \<Rightarrow> bytes result" where
  "SerializeBranch sha3 node =
    bind_result (SerializePath (node_path node)) (\<lambda>p.
    foldM (\<lambda>i out. if hasLink node i then bind_result (branch_link sha3 node i) (\<lambda>h. Inr (out @ h)) else Inr out)
      [0..<16] (0x00 # p @ Write16 (linksMask node)))"

fun SerializeValue :: "(bytes \<Rightarrow> Hash256) \<Rightarrow> TreeNode \<Rightarrow> bytes result" where
  "SerializeValue sha3 EmptyNode = Inl invalid_argument"
| "SerializeValue sha3 (LeafNode path value) = SerializeLeaf path value"
| "SerializeValue sha3 (BranchNode path links linked linkSet) = SerializeBranch sha3 (BranchNode path links linked linkSet)"

section \<open>Deserialization\<close>

definition DeserializePath :: "bytes \<Rightarrow> (TreeNodePath \<times> bytes) result" where
  "DeserializePath input =
    bind_result (Read8 input) (\<lambda>(numNibbles, input).
      let n = unat numNibbles in
      if (n + 1) div 2 = 0 then Inr (TreeNodePath_empty, input)
      else bind_result (read_bytes ((n + 1) div 2) input) (\<lambda>(alignedPath, input).
        let path = TreeNodePath_of alignedPath in
        bind_result (if 1 = n mod 2 then nibbleAt path (path_size path - 1) else Inr 0) (\<lambda>filler.
        if 0 \<noteq> filler then Inl runtime_error
        else bind_result (subpath path 0 n) (\<lambda>path. Inr (path, input)))))"

definition DeserializeLeaf :: "bytes \<Rightarrow> TreeNode result" where
  "DeserializeLeaf input =
    bind_result (DeserializePath input) (\<lambda>(path, input).
    bind_result (read_bytes 32 input) (\<lambda>(value, input). Inr (LeafNode path value)))"

definition DeserializeBranch :: "bytes \<Rightarrow> TreeNode result" where
  "DeserializeBranch input =
    bind_result (DeserializePath input) (\<lambda>(path, input).
    bind_result (Read16 input) (\<lambda>(links, input).
    bind_result (foldM (\<lambda>i (branch, input). if links AND push_bit i 1 \<noteq> 0
        then bind_result (read_bytes 32 input) (\<lambda>(link, input). Inr (setLink_hash link i branch, input))
        else Inr (branch, input)) [0..<16] (BranchTreeNode_new path, input))
      (\<lambda>(branch, input). Inr branch)))"

definition DeserializeValue :: "bytes \<Rightarrow> TreeNode result" where
  "DeserializeValue buffer =
    bind_result (Read8 buffer) (\<lambda>(nodeMarker, input).
      if nodeMarker = 0xFF then DeserializeLeaf input
      else if nodeMarker = 0x00 then DeserializeBranch input
      else Inl invalid_argument)"

section \<open>Round trip\<close>

definition padded :: "u8 list \<Rightarrow> u8 list" where
  "padded ns = (if odd (length ns) then ns @ [0] else ns)"

lemma pack_append: "even (length xs) \<Longrightarrow> pack (xs @ ys) = pack xs @ pack ys"
  by (induction xs rule: pack.induct) auto

lemma length_pack: "length (pack ns) = length ns div 2"
  by (induction ns rule: pack.induct) auto

lemma nibble_or: "(h :: u8) < 16 \<Longrightarrow> l < 16 \<Longrightarrow> push_bit 4 h OR l = push_bit 4 h + l"
proof -
  assume "h < 16" "l < 16"
  then have l: "take_bit 4 l = l" by (simp add: take_bit_nibble)
  have "push_bit 4 h + take_bit 4 l = push_bit 4 h OR take_bit 4 l"
    by (rule disjunctive_add) (auto simp: bit_simps)
  then show ?thesis using l by simp
qed

lemma SerializePath_fold:
  assumes "path_ok p" and "k \<le> path_size p"
  shows "\<exists>byte. foldM (SerializePath_step p) [0..<k] (0, out) = Inr (byte, out @ pack (take (2 * (k div 2)) (nibbles p)))
    \<and> (odd k \<longrightarrow> byte = push_bit 4 (nibbles p ! (k - 1)))"
  using assms(2)
proof (induction k)
  case (Suc k)
  then obtain byte where IH: "foldM (SerializePath_step p) [0..<k] (0, out) = Inr (byte, out @ pack (take (2 * (k div 2)) (nibbles p)))"
    "odd k \<Longrightarrow> byte = push_bit 4 (nibbles p ! (k - 1))"
    by auto
  have k: "k < path_size p" using Suc.prems by simp
  have step: "SerializePath_step p k (byte, x)
      = Inr (if even k then (push_bit 4 (nibbles p ! k), x) else (byte OR nibbles p ! k, x @ [byte OR nibbles p ! k]))" for x
    using nibbleAt_ok [OF assms(1) k] by (simp add: SerializePath_step_def even_iff_mod_2_eq_zero)
  show ?case
  proof (cases "even k")
    case True
    then have "Suc k div 2 = k div 2" by simp
    then show ?thesis using IH step True by simp
  next
    case False
    then obtain j where j: "k = Suc (2 * j)" by (metis oddE Suc_eq_plus1)
    have lt: "nibbles p ! (k - 1) < 16" "nibbles p ! k < 16" using k nibbles_less [of _ p] by simp_all
    have "take (2 * (Suc k div 2)) (nibbles p) = take (2 * (k div 2)) (nibbles p) @ [nibbles p ! (k - 1), nibbles p ! k]"
      using k j by (simp add: take_Suc_conv_app_nth)
    moreover have "even (length (take (2 * (k div 2)) (nibbles p)))" using k by simp
    ultimately have "pack (take (2 * (Suc k div 2)) (nibbles p))
        = pack (take (2 * (k div 2)) (nibbles p)) @ [push_bit 4 (nibbles p ! (k - 1)) + nibbles p ! k]"
      by (simp add: pack_append)
    then show ?thesis
      using IH(1) IH(2) [OF False] step False nibble_or [OF lt] by simp
  qed
qed simp

lemma SerializePath_ok:
  assumes "path_ok p"
  shows "SerializePath p = Inr (of_nat (path_size p) # pack (padded (nibbles p)))"
proof -
  obtain byte where fold: "foldM (SerializePath_step p) [0..<path_size p] (0, [of_nat (path_size p)])
      = Inr (byte, [of_nat (path_size p)] @ pack (take (2 * (path_size p div 2)) (nibbles p)))"
    "odd (path_size p) \<Longrightarrow> byte = push_bit 4 (nibbles p ! (path_size p - 1))"
    using SerializePath_fold [OF assms, of "path_size p" "[of_nat (path_size p)]"] by auto
  show ?thesis
  proof (cases "even (path_size p)")
    case True
    then show ?thesis using fold(1) by (simp add: SerializePath_def padded_def even_iff_mod_2_eq_zero)
  next
    case False
    then obtain j where j: "path_size p = Suc (2 * j)" by (metis oddE Suc_eq_plus1)
    then have ns: "padded (nibbles p) = take (2 * j) (nibbles p) @ [nibbles p ! (2 * j), 0]"
      by (simp add: padded_def) (metis append_Cons append_Nil append_assoc length_nibbles lessI take_Suc_conv_app_nth take_all_iff order_refl)
    have "pack (padded (nibbles p)) = pack (take (2 * j) (nibbles p)) @ [push_bit 4 (nibbles p ! (2 * j))]"
      unfolding ns using j by (simp add: pack_append)
    then show ?thesis using fold j by (simp add: SerializePath_def)
  qed
qed

lemma DeserializePath_ok:
  assumes "path_ok p" and "path_size p < 256"
  shows "\<exists>q. DeserializePath (of_nat (path_size p) # pack (padded (nibbles p)) @ rest) = Inr (q, rest)
    \<and> path_ok q \<and> nibbles q = nibbles p"
proof (cases "path_size p = 0")
  case True
  then have "nibbles p = []" by (metis length_nibbles length_0_conv)
  then show ?thesis using True by (simp add: DeserializePath_def Read8_def read_bytes_def padded_def)
next
  case False
  let ?n = "path_size p" and ?bs = "pack (padded (nibbles p))"
  let ?path = "TreeNodePath_of ?bs"
  have pad: "even (length (padded (nibbles p)))" "\<forall>x \<in> set (padded (nibbles p)). x < 16"
    using nibbles_less by (auto simp: padded_def)
  have un: "unat (of_nat ?n :: u8) = ?n" using assms(2) by (simp add: unat_of_nat)
  have len: "length ?bs = (?n + 1) div 2" by (simp add: length_pack padded_def)
  have ns: "nibbles ?path = padded (nibbles p)" using key_nibbles_pack [OF pad] by (simp add: key_nibbles_def)
  have size: "path_size ?path = length (padded (nibbles p))" using ns by (metis length_nibbles)
  have filler: "(if 1 = ?n mod 2 then nibbleAt ?path (path_size ?path - 1) else Inr 0) = Inr 0"
  proof (cases "odd ?n")
    case True
    then have last: "path_size ?path = Suc ?n" "padded (nibbles p) ! ?n = 0" using size by (simp_all add: padded_def nth_append del: path_size_of)
    have "nibbleAt ?path ?n = Inr 0"
      using nibbleAt_ok [of ?path ?n] ns last by (simp del: path_size_of)
    moreover have "path_size ?path - 1 = ?n" using last(1) by (simp del: path_size_of)
    ultimately show ?thesis by (simp only: if_cancel if_True if_False split: if_split)
  qed (simp add: even_iff_mod_2_eq_zero)
  obtain q where q: "subpath ?path 0 ?n = Inr q" "path_ok q" "nibbles q = take ?n (nibbles ?path)"
    using subpath_ok [of ?path 0 ?n] size by (auto simp: padded_def split: if_splits)
  have "nibbles q = nibbles p" using q(3) ns by (simp add: padded_def)
  moreover have "Suc ?n div 2 \<noteq> 0" using False by simp
  ultimately show ?thesis
    using q(1,2) filler len un by (simp add: DeserializePath_def Read8_def read_bytes_def Let_def)
qed

subsection \<open>Link masks\<close>

lemma bit_linksMask: "i < 16 \<Longrightarrow> bit (linksMask node) i \<longleftrightarrow> hasLink node i"
proof -
  have "bit (fold (\<lambda>i mask. mask OR push_bit i (if hasLink node i then 1 else 0)) [0..<k] (0 :: u16)) i \<longleftrightarrow> i < k \<and> hasLink node i"
    if "i < 16" "k \<le> 16" for i k
    using that(2) by (induction k) (use that(1) in \<open>auto simp: bit_simps less_Suc_eq\<close>)
  from this [of i 16] show "i < 16 \<Longrightarrow> bit (linksMask node) i \<longleftrightarrow> hasLink node i" by (simp add: linksMask_def)
qed

lemma Read16_Write16: "Read16 (Write16 w @ rest) = Inr (w, rest)"
proof -
  have "ucast (ucast w :: u8) OR push_bit 8 (ucast (ucast (drop_bit 8 w) :: u8)) = w"
    by (rule bit_word_eqI) (auto simp: bit_simps not_less dest: bit_imp_le_length)
  then show ?thesis by (simp add: Read16_def Write16_def read_bytes_def)
qed

subsection \<open>Branches\<close>

definition child_hash :: "(bytes \<Rightarrow> Hash256) \<Rightarrow> ptree option \<Rightarrow> Hash256" where
  "child_hash sha3 c = (case c of None \<Rightarrow> Hash256_zero | Some c \<Rightarrow> tree_hash sha3 c)"

lemma slot_link:
  assumes "rep sha3 get (BranchNode p links linked linkSet) (PBranch ns cs)" and "i < 16"
  shows "hasLink (BranchNode p links linked linkSet) i \<longleftrightarrow> cs ! i \<noteq> None"
    and "branch_link sha3 (BranchNode p links linked linkSet) i = Inr (child_hash sha3 (cs ! i))"
proof -
  have "slot sha3 get (links ! i) (linked ! i) (linkSet ! i) (cs ! i)"
    using assms by (auto elim: rep_branchE)
  then show "hasLink (BranchNode p links linked linkSet) i \<longleftrightarrow> cs ! i \<noteq> None"
    and "branch_link sha3 (BranchNode p links linked linkSet) i = Inr (child_hash sha3 (cs ! i))"
    by (auto elim!: slotE simp: hasLink_def branch_link_def child_hash_def rep_hash(1))
qed

definition stored_link :: "(bytes \<Rightarrow> Hash256) \<Rightarrow> ptree option \<Rightarrow> bytes" where
  "stored_link sha3 c = (if c = None then [] else child_hash sha3 c)"

lemma SerializeBranch_ok:
  assumes "rep sha3 get (BranchNode p links linked linkSet) (PBranch ns cs)" and "path_ok p"
  shows "SerializeBranch sha3 (BranchNode p links linked linkSet) = Inr (0 # of_nat (path_size p) # pack (padded (nibbles p))
    @ Write16 (linksMask (BranchNode p links linked linkSet)) @ concat (map (\<lambda>i. stored_link sha3 (cs ! i)) [0..<16]))"
proof -
  let ?nd = "BranchNode p links linked linkSet"
  let ?F = "\<lambda>i out. if hasLink ?nd i then bind_result (branch_link sha3 ?nd i) (\<lambda>h. Inr (out @ h)) else Inr out"
  have fold: "foldM ?F xs out = Inr (out @ concat (map (\<lambda>i. stored_link sha3 (cs ! i)) xs))" if "\<forall>i \<in> set xs. i < 16" for xs out
    using that
  proof (induction xs arbitrary: out)
    case (Cons i xs)
    then have i: "i < 16" by simp
    show ?case using Cons slot_link [OF assms(1) i] by (simp add: stored_link_def)
  qed simp
  then show ?thesis using assms(2) by (simp add: SerializeBranch_def SerializePath_ok)
qed

definition read_branch :: "(bytes \<Rightarrow> Hash256) \<Rightarrow> TreeNodePath \<Rightarrow> ptree option list \<Rightarrow> nat \<Rightarrow> TreeNode" where
  "read_branch sha3 q cs k = BranchNode q (map (\<lambda>i. if i < k then child_hash sha3 (cs ! i) else Hash256_zero) [0..<16])
    (replicate 16 None) (map (\<lambda>i. i < k \<and> cs ! i \<noteq> None) [0..<16])"

lemma read_branch_step:
  "k < 16 \<Longrightarrow> read_branch sha3 q cs (Suc k) =
    (if cs ! k = None then read_branch sha3 q cs k else setLink_hash (child_hash sha3 (cs ! k)) k (read_branch sha3 q cs k))"
  unfolding read_branch_def
  by (cases "cs ! k") (auto intro!: nth_equalityI simp: child_hash_def nth_list_update less_Suc_eq split: if_splits)

lemma DeserializeBranch_fold:
  assumes "\<And>x. length (sha3 x) = 32" and "\<And>i. i < 16 \<Longrightarrow> bit w i \<longleftrightarrow> cs ! i \<noteq> None" and "k \<le> 16"
  shows "foldM (\<lambda>i (branch, input). if (w :: u16) AND push_bit i 1 \<noteq> 0
        then bind_result (read_bytes 32 input) (\<lambda>(link, input). Inr (setLink_hash link i branch, input))
        else Inr (branch, input)) [0..<k] (read_branch sha3 q cs 0, concat (map (\<lambda>i. stored_link sha3 (cs ! i)) [0..<16]))
    = Inr (read_branch sha3 q cs k, concat (map (\<lambda>i. stored_link sha3 (cs ! i)) [k..<16]))"
  using assms(3)
proof (induction k)
  case (Suc k)
  then have k: "k < 16" by simp
  have "[k..<16] = k # [Suc k..<16]" using k by (simp add: upt_conv_Cons)
  then have split: "concat (map (\<lambda>i. stored_link sha3 (cs ! i)) [k..<16])
      = stored_link sha3 (cs ! k) @ concat (map (\<lambda>i. stored_link sha3 (cs ! i)) [Suc k..<16])" by simp
  have IH: "foldM (\<lambda>i (branch, input). if w AND push_bit i 1 \<noteq> 0
        then bind_result (read_bytes 32 input) (\<lambda>(link, input). Inr (setLink_hash link i branch, input))
        else Inr (branch, input)) [0..<k] (read_branch sha3 q cs 0, concat (map (\<lambda>i. stored_link sha3 (cs ! i)) [0..<16]))
    = Inr (read_branch sha3 q cs k, stored_link sha3 (cs ! k) @ concat (map (\<lambda>i. stored_link sha3 (cs ! i)) [Suc k..<16]))"
    using Suc split by simp
  show ?case
  proof (cases "cs ! k")
    case None
    then show ?thesis
      using IH assms(2) [OF k] read_branch_step [OF k, of sha3 q cs] by (simp add: and_exp_eq_0_iff_not_bit stored_link_def)
  next
    case (Some c)
    then have "length (stored_link sha3 (cs ! k)) = 32" using assms(1) by (cases c) (simp_all add: stored_link_def child_hash_def)
    then show ?thesis
      using IH assms(2) [OF k] read_branch_step [OF k, of sha3 q cs] Some
      by (simp add: and_exp_eq_0_iff_not_bit read_bytes_def) (simp add: stored_link_def)
  qed
qed simp

lemma read_branch_hash:
  assumes "path_ok q" and "length cs = 16"
  shows "node_hash sha3 (read_branch sha3 q cs 16) = Inr (tree_hash sha3 (PBranch (nibbles q) cs))"
    and "(\<forall>c. Some c \<in> set cs \<longrightarrow> rep sha3 get (get (tree_hash sha3 c)) c) \<Longrightarrow> rep sha3 get (read_branch sha3 q cs 16) (PBranch (nibbles q) cs)"
proof -
  have fold: "foldM (\<lambda>(link, node) builder. case node of None \<Rightarrow> Inr (builder @ link)
         | Some nd \<Rightarrow> bind_result (node_hash sha3 nd) (\<lambda>h. Inr (builder @ h))) (zip xs (replicate (length xs) None)) b = Inr (b @ concat xs)"
    for xs :: "Hash256 list" and b
    by (induction xs arbitrary: b) auto
  have "map (\<lambda>i. child_hash sha3 (cs ! i)) [0..<16] = map (child_hash sha3) cs"
    using assms(2) by (metis map_nth map_map comp_apply map_ext)
  moreover have "map (\<lambda>i. if i < 16 then child_hash sha3 (cs ! i) else Hash256_zero) [0..<16] = map (\<lambda>i. child_hash sha3 (cs ! i)) [0..<16]"
    by simp
  ultimately have links: "map (\<lambda>i. if i < 16 then child_hash sha3 (cs ! i) else Hash256_zero) [0..<16] = map (child_hash sha3) cs"
    by simp
  have ch: "child_hash sha3 = (\<lambda>c. case c of None \<Rightarrow> Hash256_zero | Some c \<Rightarrow> tree_hash sha3 c)" by (simp add: fun_eq_iff child_hash_def)
  show "node_hash sha3 (read_branch sha3 q cs 16) = Inr (tree_hash sha3 (PBranch (nibbles q) cs))"
    using assms fold [of "map (child_hash sha3) cs"] unfolding read_branch_def links by (simp add: ch)
  show "(\<forall>c. Some c \<in> set cs \<longrightarrow> rep sha3 get (get (tree_hash sha3 c)) c) \<Longrightarrow> rep sha3 get (read_branch sha3 q cs 16) (PBranch (nibbles q) cs)"
    unfolding read_branch_def links
  proof (rule rep_branch, goal_cases)
    case 6
    have "slot sha3 get (child_hash sha3 (cs ! i)) None (cs ! i \<noteq> None) (cs ! i)" if "i < 16" for i
    proof (cases "cs ! i")
      case (Some c)
      then have "Some c \<in> set cs" using that assms(2) by (metis nth_mem)
      then show ?thesis using 6 Some by (simp add: child_hash_def slot_stored)
    qed (simp add: child_hash_def slot_free)
    then show ?case using assms(2) by simp
  qed (use assms in simp_all)
qed

text \<open>
  C34. A node read back from its binary form is the node that was written: it has the same hash, and it stands for
  the same tree over every data source that holds the children. Writing succeeds for every node of a tree over
  keys of at most 255 nibbles, whether its children are in memory or not.
\<close>

theorem serializer_roundtrip:
  assumes "rep sha3 get nd u" and "path_size (node_path nd) < 256"
    and "\<forall>x. length (sha3 x) = 32" and "\<forall>p v. nd = LeafNode p v \<longrightarrow> length v = 32"
  shows "\<exists>bs nd'. SerializeValue sha3 nd = Inr bs \<and> DeserializeValue bs = Inr nd' \<and> node_hash sha3 nd' = node_hash sha3 nd
    \<and> (\<forall>get'. (\<forall>ns cs c. u = PBranch ns cs \<longrightarrow> Some c \<in> set cs \<longrightarrow> rep sha3 get' (get' (tree_hash sha3 c)) c) \<longrightarrow> rep sha3 get' nd' u)"
proof (cases nd)
  case (LeafNode p v)
  then have u: "u = PLeaf (nibbles p) v" "path_ok p" "length v = 32" using assms(1,4) by (auto elim: rep_leafE)
  obtain q where q: "DeserializePath (of_nat (path_size p) # pack (padded (nibbles p)) @ v) = Inr (q, v)"
    "path_ok q" "nibbles q = nibbles p"
    using DeserializePath_ok [OF u(2), of v] assms(2) LeafNode by auto
  have "DeserializeValue (0xFF # of_nat (path_size p) # pack (padded (nibbles p)) @ v) = Inr (LeafNode q v)"
    using q(1) u(3) by (simp add: DeserializeValue_def Read8_def read_bytes_def DeserializeLeaf_def)
  moreover have "rep sha3 get' (LeafNode q v) u" for get' using rep_leaf [OF q(2), of sha3 get' v] q(3) u(1) by simp
  ultimately show ?thesis
    using LeafNode u(2) q(2,3) SerializePath_ok [OF u(2)]
    by (simp add: SerializeLeaf_def CalculateLeafTreeNodeHash_def)
next
  case (BranchNode p links linked linkSet)
  then obtain cs where u: "u = PBranch (nibbles p) cs" "path_ok p" "length cs = 16" using assms(1) by (auto elim: rep_branchE)
  note r = assms(1) [unfolded BranchNode u(1)]
  let ?mask = "linksMask nd" and ?rest = "concat (map (\<lambda>i. stored_link sha3 (cs ! i)) [0..<16])"
  obtain q where q: "DeserializePath (of_nat (path_size p) # pack (padded (nibbles p)) @ Write16 ?mask @ ?rest) = Inr (q, Write16 ?mask @ ?rest)"
    "path_ok q" "nibbles q = nibbles p"
    using DeserializePath_ok [OF u(2), of "Write16 ?mask @ ?rest"] assms(2) BranchNode by auto
  have bits: "bit ?mask i \<longleftrightarrow> cs ! i \<noteq> None" if "i < 16" for i
    using slot_link(1) [OF r that] bit_linksMask [OF that, of nd] BranchNode by simp
  note fold = DeserializeBranch_fold [of sha3 ?mask cs 16 q, OF spec [OF assms(3)] bits order_refl]
  have new: "BranchTreeNode_new q = read_branch sha3 q cs 0"
    by (simp add: BranchTreeNode_new_def read_branch_def Max_Links_def map_replicate_const)
  have "DeserializeBranch (of_nat (path_size p) # pack (padded (nibbles p)) @ Write16 ?mask @ ?rest) = Inr (read_branch sha3 q cs 16)"
    unfolding DeserializeBranch_def
    by (simp only: q(1) bind_result.simps prod.case Read16_Write16 new fold)
  then have de: "DeserializeValue (0 # of_nat (path_size p) # pack (padded (nibbles p)) @ Write16 ?mask @ ?rest) = Inr (read_branch sha3 q cs 16)"
    by (simp add: DeserializeValue_def Read8_def read_bytes_def)
  have se: "SerializeValue sha3 nd = Inr (0 # of_nat (path_size p) # pack (padded (nibbles p)) @ Write16 ?mask @ ?rest)"
    using SerializeBranch_ok [OF r u(2)] BranchNode by simp
  have ha: "node_hash sha3 (read_branch sha3 q cs 16) = node_hash sha3 nd"
    using rep_hash(1) [OF assms(1)] read_branch_hash(1) [OF q(2) u(3), of sha3] q(3) u(1) by simp
  have re: "rep sha3 get' (read_branch sha3 q cs 16) u" if "\<forall>c. Some c \<in> set cs \<longrightarrow> rep sha3 get' (get' (tree_hash sha3 c)) c" for get'
    using read_branch_hash(2) [OF q(2) u(3) that] q(3) u(1) by simp
  have "rep sha3 get' (read_branch sha3 q cs 16) u"
    if "\<forall>ns cs c. u = PBranch ns cs \<longrightarrow> Some c \<in> set cs \<longrightarrow> rep sha3 get' (get' (tree_hash sha3 c)) c" for get'
    by (rule re) (use that u(1) in simp)
  then show ?thesis by (intro exI conjI allI impI) (rule se de ha | assumption)+
qed (use assms(1) in simp)

text \<open>A leaf whose path has an odd number of nibbles, so that the last byte of its path is half filled.\<close>

theorem serializer_roundtrip_witness:
  "\<exists>bs nd'. SerializeValue (\<lambda>x. replicate 32 7) (LeafNode \<lparr>path_size = 1, path_adjustment = 1, path_bytes = [0x35]\<rparr> (replicate 32 9)) = Inr bs
    \<and> DeserializeValue bs = Inr nd'
    \<and> node_hash (\<lambda>x. replicate 32 7) nd' = node_hash (\<lambda>x. replicate 32 7) (LeafNode \<lparr>path_size = 1, path_adjustment = 1, path_bytes = [0x35]\<rparr> (replicate 32 9))"
proof -
  have "rep (\<lambda>x. replicate 32 7) (\<lambda>h. EmptyNode) (LeafNode \<lparr>path_size = 1, path_adjustment = 1, path_bytes = [0x35]\<rparr> (replicate 32 9)) (PLeaf (nibbles \<lparr>path_size = 1, path_adjustment = 1, path_bytes = [0x35]\<rparr>) (replicate 32 9))"
    by (rule rep_leaf) (simp add: path_ok_def)
  from serializer_roundtrip [OF this] show ?thesis by (simp del: SerializeValue.simps node_hash.simps) blast
qed

end
