(* ===== verification/Catapult_Cache.thy ===== *)
theory Catapult_Cache
  imports Prelude
begin

text \<open>
  The cache of a node as a whole (\<^verbatim>\<open>cache/CatapultCache.cpp\<close>, \<^verbatim>\<open>state/CatapultState.h\<close>): a vector of sub caches, some
  of which are not present, and the state that depends on all of them.

  The sub caches are reached through the virtual interface \<^verbatim>\<open>SubCacheView\<close>, whose operations are the record
  \<open>SubCacheView\<close> of functions on the content \<open>'x\<close> of a sub cache. The reader-writer locks make every operation
  on the cache atomic, and only one attached delta is outstanding at a time: it is created from the content of the
  cache and committing replaces the content by that of the delta. The hash function is the argument \<open>sha3\<close>.
\<close>

section \<open>Sub caches\<close>

record 'x SubCacheView =
  sub_supportsMerkleRoot :: "'x \<Rightarrow> bool"
  sub_tryGetMerkleRoot :: "'x \<Rightarrow> Hash256 option"
  sub_trySetMerkleRoot :: "Hash256 \<Rightarrow> 'x \<Rightarrow> 'x \<times> bool"
  sub_updateMerkleRoot :: "Height \<Rightarrow> 'x \<Rightarrow> 'x"
  sub_prune_height :: "Height \<Rightarrow> 'x \<Rightarrow> 'x"
  sub_prune_time :: "Timestamp \<Rightarrow> 'x \<Rightarrow> 'x"

section \<open>Dependent state, cache and delta\<close>

record CatapultState =
  LastRecalculationHeight :: Height
  LastFinalizedHeight :: Height
  DynamicFeeMultiplier :: u32
  NumTotalTransactions :: u64

definition CatapultState_new :: CatapultState where
  "CatapultState_new = \<lparr>LastRecalculationHeight = 0, LastFinalizedHeight = 0, DynamicFeeMultiplier = 0, NumTotalTransactions = 0\<rparr>"

record 'x CatapultCacheDelta =
  delta_dependentState :: CatapultState
  delta_subViews :: "'x option list"

record 'x CatapultCache =
  cache_height :: Height
  cache_dependentState :: CatapultState
  cache_subCaches :: "'x option list"

definition CatapultCache_new :: "'x option list \<Rightarrow> 'x CatapultCache" where
  "CatapultCache_new subCaches = \<lparr>cache_height = 0, cache_dependentState = CatapultState_new, cache_subCaches = subCaches\<rparr>"

definition cache_createDelta :: "'x CatapultCache \<Rightarrow> 'x CatapultCacheDelta" where
  "cache_createDelta c = \<lparr>delta_dependentState = cache_dependentState c, delta_subViews = cache_subCaches c\<rparr>"

definition cache_commit :: "Height \<Rightarrow> 'x CatapultCacheDelta \<Rightarrow> 'x CatapultCache \<Rightarrow> 'x CatapultCache" where
  "cache_commit height d c =
    c\<lparr>cache_subCaches := delta_subViews d, cache_dependentState := delta_dependentState d, cache_height := height\<rparr>"

section \<open>State hashes\<close>

text \<open>The loop over the sub views updates their roots; \<open>updateMerkleRoot\<close> is the argument of the source.\<close>

fun CollectSubCacheMerkleRoots :: "'x SubCacheView \<Rightarrow> ('x \<Rightarrow> 'x) \<Rightarrow> 'x option list \<Rightarrow> Hash256 list \<times> 'x option list" where
  "CollectSubCacheMerkleRoots I updateMerkleRoot [] = ([], [])"
| "CollectSubCacheMerkleRoots I updateMerkleRoot (None # subViews) =
    (let (merkleRoots, subViews) = CollectSubCacheMerkleRoots I updateMerkleRoot subViews in (merkleRoots, None # subViews))"
| "CollectSubCacheMerkleRoots I updateMerkleRoot (Some x # subViews) =
    (let x = updateMerkleRoot x;
         (merkleRoots, subViews) = CollectSubCacheMerkleRoots I updateMerkleRoot subViews
     in ((case sub_tryGetMerkleRoot I x of None \<Rightarrow> merkleRoots | Some r \<Rightarrow> r # merkleRoots), Some x # subViews))"

definition CalculateStateHash :: "(bytes \<Rightarrow> Hash256) \<Rightarrow> Hash256 list \<Rightarrow> Hash256" where
  "CalculateStateHash sha3 subCacheMerkleRoots =
    (if subCacheMerkleRoots = [] then replicate 32 0 else sha3 (concat subCacheMerkleRoots))"

record StateHashInfo =
  info_StateHash :: Hash256
  info_SubCacheMerkleRoots :: "Hash256 list"

definition view_calculateStateHash :: "'x SubCacheView \<Rightarrow> (bytes \<Rightarrow> Hash256) \<Rightarrow> 'x CatapultCache \<Rightarrow> StateHashInfo" where
  "view_calculateStateHash I sha3 c =
    (let roots = fst (CollectSubCacheMerkleRoots I (\<lambda>x. x) (cache_subCaches c))
     in \<lparr>info_StateHash = CalculateStateHash sha3 roots, info_SubCacheMerkleRoots = roots\<rparr>)"

definition delta_calculateStateHash :: "'x SubCacheView \<Rightarrow> (bytes \<Rightarrow> Hash256) \<Rightarrow> Height \<Rightarrow> 'x CatapultCacheDelta
    \<Rightarrow> StateHashInfo \<times> 'x CatapultCacheDelta" where
  "delta_calculateStateHash I sha3 height d =
    (let (roots, subViews) = CollectSubCacheMerkleRoots I (sub_updateMerkleRoot I height) (delta_subViews d)
     in (\<lparr>info_StateHash = CalculateStateHash sha3 roots, info_SubCacheMerkleRoots = roots\<rparr>, d\<lparr>delta_subViews := subViews\<rparr>))"

text \<open>The roots are consumed from the front; both too few and too many roots are refused.\<close>

fun setSubCacheMerkleRoots_loop :: "'x SubCacheView \<Rightarrow> 'x option list \<Rightarrow> Hash256 list \<Rightarrow> 'x option list result" where
  "setSubCacheMerkleRoots_loop I [] roots = (if roots = [] then Inr [] else Inl invalid_argument)"
| "setSubCacheMerkleRoots_loop I (None # subViews) roots =
    bind_result (setSubCacheMerkleRoots_loop I subViews roots) (\<lambda>subViews. Inr (None # subViews))"
| "setSubCacheMerkleRoots_loop I (Some x # subViews) roots =
    (if \<not> sub_supportsMerkleRoot I x
     then bind_result (setSubCacheMerkleRoots_loop I subViews roots) (\<lambda>subViews. Inr (Some x # subViews))
     else case roots of [] \<Rightarrow> Inl invalid_argument
       | r # roots \<Rightarrow> bind_result (setSubCacheMerkleRoots_loop I subViews roots)
           (\<lambda>subViews. Inr (Some (fst (sub_trySetMerkleRoot I r x)) # subViews)))"

definition setSubCacheMerkleRoots :: "'x SubCacheView \<Rightarrow> Hash256 list \<Rightarrow> 'x CatapultCacheDelta \<Rightarrow> 'x CatapultCacheDelta result" where
  "setSubCacheMerkleRoots I subCacheMerkleRoots d =
    bind_result (setSubCacheMerkleRoots_loop I (delta_subViews d) subCacheMerkleRoots) (\<lambda>subViews. Inr (d\<lparr>delta_subViews := subViews\<rparr>))"

section \<open>Pruning\<close>

definition delta_prune_height :: "'x SubCacheView \<Rightarrow> Height \<Rightarrow> 'x CatapultCacheDelta \<Rightarrow> 'x CatapultCacheDelta" where
  "delta_prune_height I height d = d\<lparr>delta_subViews := map (map_option (sub_prune_height I height)) (delta_subViews d)\<rparr>"

definition delta_prune_time :: "'x SubCacheView \<Rightarrow> Timestamp \<Rightarrow> 'x CatapultCacheDelta \<Rightarrow> 'x CatapultCacheDelta" where
  "delta_prune_time I time d = d\<lparr>delta_subViews := map (map_option (sub_prune_time I time)) (delta_subViews d)\<rparr>"

section \<open>Restoring the roots\<close>

text \<open>
  What the undo of blocks relies on: a sub cache that supports a root gives back the root that was set, and
  one that does not support a root has none.
\<close>

definition roots_settable :: "'x SubCacheView \<Rightarrow> bool" where
  "roots_settable I \<longleftrightarrow> (\<forall>x. \<not> sub_supportsMerkleRoot I x \<longrightarrow> sub_tryGetMerkleRoot I x = None)
     \<and> (\<forall>x r. sub_supportsMerkleRoot I x \<longrightarrow> sub_tryGetMerkleRoot I (fst (sub_trySetMerkleRoot I r x)) = Some r)"

definition num_roots :: "'x SubCacheView \<Rightarrow> 'x option list \<Rightarrow> nat" where
  "num_roots I subViews = length (filter (\<lambda>v. case v of None \<Rightarrow> False | Some x \<Rightarrow> sub_supportsMerkleRoot I x) subViews)"

lemma setSubCacheMerkleRoots_loop_ok:
  assumes "roots_settable I"
  shows "if length roots = num_roots I subViews
    then \<exists>subViews'. setSubCacheMerkleRoots_loop I subViews roots = Inr subViews'
      \<and> fst (CollectSubCacheMerkleRoots I (\<lambda>x. x) subViews') = roots
    else setSubCacheMerkleRoots_loop I subViews roots = Inl invalid_argument"
proof (induction subViews arbitrary: roots)
  case Nil
  then show ?case by (simp add: num_roots_def)
next
  case (Cons v subViews)
  show ?case
  proof (cases v)
    case None
    then show ?thesis using Cons.IH [of roots] by (auto simp: num_roots_def case_prod_beta Let_def)
  next
    case (Some x)
    then show ?thesis
      using Cons.IH [of roots] Cons.IH [of "tl roots"] assms
      by (cases roots) (auto simp: num_roots_def roots_settable_def case_prod_beta Let_def)
  qed
qed

end
