(* ===== verification/Blockchain_Processor.thy ===== *)
theory Blockchain_Processor
  imports Block_Hit Block_Storage Catapult_Cache Entity_Processing
begin

unbundle bit_operations_syntax

text \<open>
  The execution of a peer chain on top of the common block: \<^verbatim>\<open>consumers/BlockchainProcessor.cpp\<close>, with the
  factories that its constructor receives, and the undo of a block, \<^verbatim>\<open>consumers/UndoBlock.cpp\<close>.

  The context collects what the processor is given or reads through other components: the operations of the sub
  caches, the hash functions and the verification of VRF proofs (third-party cryptography), the lookups in the
  account state cache, the hit predicate of the factory, the batch processor and the hash of a block
  statement. A block statement \<open>'s\<close> is what the builder yields after the batch processor has run.
\<close>

section \<open>Entity types and heights\<close>

definition MakeEntityType :: "u16 \<Rightarrow> u16 \<Rightarrow> u16 \<Rightarrow> u16" where
  "MakeEntityType basicEntityType facilityCode code =
    push_bit 14 (basicEntityType AND 0x03) OR push_bit 8 (code AND 0xF) OR (facilityCode AND 0xFF)"

definition Entity_Type_Block_Nemesis :: u16 where
  "Entity_Type_Block_Nemesis = MakeEntityType 2 0x43 0"

definition Entity_Type_Block_Importance :: u16 where
  "Entity_Type_Block_Importance = MakeEntityType 2 0x43 2"

definition IsImportanceBlock :: "u16 \<Rightarrow> bool" where
  "IsImportanceBlock type \<longleftrightarrow> Entity_Type_Block_Nemesis = type \<or> Entity_Type_Block_Importance = type"

definition HeightGroupingFacade_checkHeight :: "u64 \<Rightarrow> Height \<Rightarrow> unit result" where
  "HeightGroupingFacade_checkHeight grouping groupedHeight =
    (if groupedHeight = 1 \<or> (groupedHeight \<noteq> 0 \<and> groupedHeight mod grouping = 0) then Inr () else Inl invalid_argument)"

definition HeightGroupingFacade_new :: "Height \<Rightarrow> u64 \<Rightarrow> (Height \<times> u64) result" where
  "HeightGroupingFacade_new groupedHeight grouping =
    (if grouping = 0 then Inl invalid_argument
     else bind_result (HeightGroupingFacade_checkHeight grouping groupedHeight) (\<lambda>_. Inr (groupedHeight, grouping)))"

definition facade_previous :: "Height \<times> u64 \<Rightarrow> u64 \<Rightarrow> Height" where
  "facade_previous facade count =
    (let heightAdjustment = snd facade * count
     in if fst facade > heightAdjustment then fst facade - heightAdjustment else 1)"

section \<open>The processor\<close>

datatype 'f chain_failure =
    Failure_Chain_Unlinked
  | Failure_Chain_Block_Not_Hit
  | Failure_Chain_Block_Inconsistent_State_Hash
  | Failure_Chain_Block_Inconsistent_Receipts_Hash
  | Failure_Chain_Block_Invalid_Vrf_Proof
  | Failure_Chain_Block_Unknown_Signer
  | Failure_Entity 'f

datatype ReceiptValidationMode = Receipts_Disabled | Receipts_Enabled

type_synonym 'f processing_result = "'f chain_failure ValidationResult"

record ('x, 's, 'f) processor_context =
  ctx_SubCacheView :: "'x SubCacheView"
  ctx_sha3 :: "bytes \<Rightarrow> Hash256"
  ctx_findAccountAddress :: "'x CatapultCacheDelta \<Rightarrow> Key \<Rightarrow> bytes option"
  ctx_GetVrfPublicKey :: "'x CatapultCacheDelta \<Rightarrow> bytes \<Rightarrow> Key result"
  ctx_VerifyVrfProof :: "bytes \<Rightarrow> bytes \<Rightarrow> Key \<Rightarrow> bytes"
  ctx_blockHitPredicate :: "'x CatapultCacheDelta \<Rightarrow> Block \<Rightarrow> Block \<Rightarrow> bytes \<Rightarrow> bool result"
  ctx_batchEntityProcessor :: "'s BlockElement \<Rightarrow> 'x CatapultCacheDelta \<Rightarrow> ('f processing_result \<times> 'x CatapultCacheDelta \<times> 's) result"
  ctx_CalculateMerkleHash :: "'s \<Rightarrow> Hash256"
  ctx_receiptValidationMode :: ReceiptValidationMode

definition Hash512_zero :: bytes where
  "Hash512_zero = replicate 64 0"

definition CheckGenerationHash :: "('x, 's, 'f) processor_context \<Rightarrow> 's BlockElement \<Rightarrow> Block \<Rightarrow> bytes \<Rightarrow> 'x CatapultCacheDelta
    \<Rightarrow> ('f processing_result \<times> 's BlockElement) result" where
  "CheckGenerationHash ctx e parentBlock parentGenerationHash d =
    (case ctx_findAccountAddress ctx d (block_SignerPublicKey (element_Block e)) of
      None \<Rightarrow> Inr (Failure Failure_Chain_Block_Unknown_Signer, e)
    | Some address \<Rightarrow>
        bind_result (ctx_GetVrfPublicKey ctx d address) (\<lambda>vrfPublicKey.
        let vrfVerifyResult = ctx_VerifyVrfProof ctx (block_GenerationHashProof (element_Block e)) parentGenerationHash vrfPublicKey in
        if Hash512_zero = vrfVerifyResult then Inr (Failure Failure_Chain_Block_Invalid_Vrf_Proof, e)
        else let e = e\<lparr>element_GenerationHash := take 32 vrfVerifyResult\<rparr> in
          bind_result (ctx_blockHitPredicate ctx d parentBlock (element_Block e) (element_GenerationHash e)) (\<lambda>isHit.
          Inr (if \<not> isHit then Failure Failure_Chain_Block_Not_Hit else Success, e))))"

definition CheckStateHash :: "('x, 's, 'f) processor_context \<Rightarrow> 's BlockElement \<Rightarrow> 'x CatapultCacheDelta
    \<Rightarrow> bool \<times> 's BlockElement \<times> 'x CatapultCacheDelta" where
  "CheckStateHash ctx e d =
    (let (cacheStateHashInfo, d) = delta_calculateStateHash (ctx_SubCacheView ctx) (ctx_sha3 ctx) (block_Height (element_Block e)) d
     in if block_StateHash (element_Block e) \<noteq> info_StateHash cacheStateHashInfo then (False, e, d)
        else (True, e\<lparr>element_SubCacheMerkleRoots := info_SubCacheMerkleRoots cacheStateHashInfo\<rparr>, d))"

definition CheckReceiptsHash :: "('x, 's, 'f) processor_context \<Rightarrow> 's BlockElement \<Rightarrow> 's \<Rightarrow> bool \<times> 's BlockElement" where
  "CheckReceiptsHash ctx e blockStatement =
    (let (calculatedReceiptsHash, e) = (if ctx_receiptValidationMode ctx = Receipts_Enabled
        then (ctx_CalculateMerkleHash ctx blockStatement, e\<lparr>element_OptionalStatement := Some blockStatement\<rparr>)
        else (replicate 32 0, e))
     in (block_ReceiptsHash (element_Block e) = calculatedReceiptsHash, e))"

text \<open>
  The loop over the elements, which are updated in place: the elements before the current one are \<open>processed\<close>.
  The result carries all elements and the delta.
\<close>

fun process_blocks :: "('x, 's, 'f) processor_context \<Rightarrow> Block \<Rightarrow> bytes \<Rightarrow> 's BlockElement list \<Rightarrow> 's BlockElement list
    \<Rightarrow> 'x CatapultCacheDelta \<Rightarrow> ('f processing_result \<times> 's BlockElement list \<times> 'x CatapultCacheDelta) result" where
  "process_blocks ctx parent parentGenerationHash processed [] d = Inr (Success, processed, d)"
| "process_blocks ctx parent parentGenerationHash processed (e # es) d =
    bind_result (CheckGenerationHash ctx e parent parentGenerationHash d) (\<lambda>(result, e).
    if \<not> IsValidationResultSuccess result then Inr (result, processed @ e # es, d)
    else bind_result (ctx_batchEntityProcessor ctx e d) (\<lambda>(result, d, blockStatement).
      if \<not> IsValidationResultSuccess result then Inr (result, processed @ e # es, d)
      else case CheckStateHash ctx e d of (isStateHashOk, e, d) \<Rightarrow>
        if \<not> isStateHashOk then Inr (Failure Failure_Chain_Block_Inconsistent_State_Hash, processed @ e # es, d)
        else case CheckReceiptsHash ctx e blockStatement of (isReceiptsHashOk, e) \<Rightarrow>
          if \<not> isReceiptsHashOk then Inr (Failure Failure_Chain_Block_Inconsistent_Receipts_Hash, processed @ e # es, d)
          else process_blocks ctx (element_Block e) (element_GenerationHash e) (processed @ [e]) es d))"

definition processor_IsLinked :: "'s BlockElement \<Rightarrow> 's BlockElement list \<Rightarrow> bool" where
  "processor_IsLinked parentBlockInfo elements \<longleftrightarrow>
    IsChainLink (element_Block parentBlockInfo) (element_EntityHash parentBlockInfo) (element_Block (hd elements))"

text \<open>The state hash of the parent is calculated for the log; that updates the roots of the sub caches.\<close>

definition BlockchainProcessor :: "('x, 's, 'f) processor_context \<Rightarrow> 's BlockElement \<Rightarrow> 's BlockElement list \<Rightarrow> 'x CatapultCacheDelta
    \<Rightarrow> ('f processing_result \<times> 's BlockElement list \<times> 'x CatapultCacheDelta) result" where
  "BlockchainProcessor ctx parentBlockInfo elements d =
    (if elements = [] then Inr (Neutral, elements, d)
     else if \<not> processor_IsLinked parentBlockInfo elements then Inr (Failure Failure_Chain_Unlinked, elements, d)
     else let d = snd (delta_calculateStateHash (ctx_SubCacheView ctx) (ctx_sha3 ctx) (block_Height (element_Block parentBlockInfo)) d)
       in process_blocks ctx (element_Block parentBlockInfo) (element_GenerationHash parentBlockInfo) [] elements d)"

section \<open>Undoing a block\<close>

datatype UndoBlockType = Undo_Rollback | Undo_Common

definition UndoBlock :: "'x SubCacheView \<Rightarrow> (NotifyMode \<Rightarrow> 'e \<Rightarrow> 'x CatapultCacheDelta \<Rightarrow> 'x CatapultCacheDelta result)
    \<Rightarrow> ('x CatapultCacheDelta \<Rightarrow> 'x CatapultCacheDelta) \<Rightarrow> ('s BlockElement \<Rightarrow> 'e list)
    \<Rightarrow> 's BlockElement \<Rightarrow> UndoBlockType \<Rightarrow> 'x CatapultCacheDelta \<Rightarrow> 'x CatapultCacheDelta result" where
  "UndoBlock I obs commitRemovals entityInfos blockElement undoBlockType d =
    (case undoBlockType of
      Undo_Rollback \<Rightarrow> RollbackBlock obs commitRemovals (entityInfos blockElement) d
    | Undo_Common \<Rightarrow> if element_SubCacheMerkleRoots blockElement \<noteq> []
        then setSubCacheMerkleRoots I (element_SubCacheMerkleRoots blockElement) d else Inr d)"

section \<open>Accepted chains\<close>

text \<open>
  What it means for a block to be accepted in a state: a known signer with a VRF proof of the generation hash
  of its parent, a hit, entities that are valid in the state the previous blocks lead to, and hashes of the resulting
  state and receipts as the block announces. The element then carries the generation hash, the roots and the statement.
\<close>

definition state_hash :: "('x, 's, 'f) processor_context \<Rightarrow> 's BlockElement \<Rightarrow> 'x CatapultCacheDelta \<Rightarrow> StateHashInfo \<times> 'x CatapultCacheDelta" where
  "state_hash ctx e = delta_calculateStateHash (ctx_SubCacheView ctx) (ctx_sha3 ctx) (block_Height (element_Block e))"

inductive block_accepted :: "('x, 's, 'f) processor_context \<Rightarrow> Block \<Rightarrow> bytes \<Rightarrow> 's BlockElement \<Rightarrow> 'x CatapultCacheDelta
    \<Rightarrow> 's BlockElement \<Rightarrow> 'x CatapultCacheDelta \<Rightarrow> bool" for ctx where
  "ctx_findAccountAddress ctx d (block_SignerPublicKey (element_Block e)) = Some address
    \<Longrightarrow> ctx_GetVrfPublicKey ctx d address = Inr key
    \<Longrightarrow> ctx_VerifyVrfProof ctx (block_GenerationHashProof (element_Block e)) parentGenerationHash key = proofHash
    \<Longrightarrow> proofHash \<noteq> Hash512_zero
    \<Longrightarrow> ctx_blockHitPredicate ctx d parent (element_Block e) (take 32 proofHash) = Inr True
    \<Longrightarrow> ctx_batchEntityProcessor ctx (e\<lparr>element_GenerationHash := take 32 proofHash\<rparr>) d = Inr (Success, d1, st)
    \<Longrightarrow> block_StateHash (element_Block e) = info_StateHash (fst (state_hash ctx e d1))
    \<Longrightarrow> block_ReceiptsHash (element_Block e)
      = (if ctx_receiptValidationMode ctx = Receipts_Enabled then ctx_CalculateMerkleHash ctx st else replicate 32 0)
    \<Longrightarrow> e' = e\<lparr>element_GenerationHash := take 32 proofHash, element_SubCacheMerkleRoots := info_SubCacheMerkleRoots (fst (state_hash ctx e d1)),
         element_OptionalStatement := if ctx_receiptValidationMode ctx = Receipts_Enabled then Some st else element_OptionalStatement e\<rparr>
    \<Longrightarrow> block_accepted ctx parent parentGenerationHash e d e' (snd (state_hash ctx e d1))"

inductive chain_accepted :: "('x, 's, 'f) processor_context \<Rightarrow> Block \<Rightarrow> bytes \<Rightarrow> 's BlockElement list \<Rightarrow> 'x CatapultCacheDelta
    \<Rightarrow> 's BlockElement list \<Rightarrow> 'x CatapultCacheDelta \<Rightarrow> bool" for ctx where
  accepted_Nil: "chain_accepted ctx parent parentGenerationHash [] d [] d"
| accepted_Cons: "block_accepted ctx parent parentGenerationHash e d e' d1
    \<Longrightarrow> chain_accepted ctx (element_Block e') (element_GenerationHash e') es d1 es' d'
    \<Longrightarrow> chain_accepted ctx parent parentGenerationHash (e # es) d (e' # es') d'"

inductive_simps chain_accepted_Nil [simp]: "chain_accepted ctx parent pgh [] d es' d'"
inductive_simps chain_accepted_Cons: "chain_accepted ctx parent pgh (e # es) d es' d'"

lemma block_accepted_element:
  "block_accepted ctx parent pgh e d e' d' \<Longrightarrow> element_Block e' = element_Block e \<and> element_EntityHash e' = element_EntityHash e
    \<and> element_Transactions e' = element_Transactions e"
  by (auto elim!: block_accepted.cases)

lemma chain_accepted_elements:
  "chain_accepted ctx parent pgh es d es' d' \<Longrightarrow> map element_Block es' = map element_Block es
    \<and> map element_EntityHash es' = map element_EntityHash es \<and> map element_Transactions es' = map element_Transactions es"
  by (induction rule: chain_accepted.induct) (simp_all add: block_accepted_element)

text \<open>One round of the loop.\<close>

lemma process_blocks_step:
  "process_blocks ctx parent pgh processed (e # es) d = Inr (Success, all, d')
    \<longleftrightarrow> (\<exists>e' d1. block_accepted ctx parent pgh e d e' d1
      \<and> process_blocks ctx (element_Block e') (element_GenerationHash e') (processed @ [e']) es d1 = Inr (Success, all, d'))"
    (is "?run \<longleftrightarrow> ?step")
proof
  assume ?run
  then show ?step
    by (auto simp: CheckGenerationHash_def CheckStateHash_def CheckReceiptsHash_def Let_def case_prod_beta block_accepted.simps
        state_hash_def split: option.splits if_splits)
next
  assume ?step
  then show ?run
    by (auto elim!: block_accepted.cases simp: CheckGenerationHash_def CheckStateHash_def CheckReceiptsHash_def Let_def case_prod_beta state_hash_def
        simp del: bind_result_Inr_iff split: if_splits)
qed

lemma process_blocks_iff:
  "process_blocks ctx parent pgh processed es d = Inr (Success, all, d')
    \<longleftrightarrow> (\<exists>es'. all = processed @ es' \<and> chain_accepted ctx parent pgh es d es' d')"
proof (induction es arbitrary: parent pgh processed d)
  case (Cons e es)
  have "process_blocks ctx parent pgh processed (e # es) d = Inr (Success, all, d')
    \<longleftrightarrow> (\<exists>e' d1. block_accepted ctx parent pgh e d e' d1
      \<and> (\<exists>es'. all = (processed @ [e']) @ es' \<and> chain_accepted ctx (element_Block e') (element_GenerationHash e') es d1 es' d'))"
    by (simp only: process_blocks_step Cons.IH)
  also have "\<dots> \<longleftrightarrow> (\<exists>es'. all = processed @ es' \<and> chain_accepted ctx parent pgh (e # es) d es' d')"
    by (auto simp: chain_accepted_Cons)
  finally show ?case .
qed auto

text \<open>
  The processor accepts a peer chain exactly when its first block is linked to the parent and
  every block is accepted in the state that the blocks before it lead to: no check can be passed by the
  result of another block, and no accepted chain is refused. The elements that it hands on are the given blocks with
  the verified generation hashes, sub cache roots and statements.
\<close>

lemma blockchain_processor_correct:
  "BlockchainProcessor ctx parentBlockInfo elements d = Inr (Success, elements', d')
    \<longleftrightarrow> elements \<noteq> [] \<and> IsChainLink (element_Block parentBlockInfo) (element_EntityHash parentBlockInfo) (element_Block (hd elements))
      \<and> chain_accepted ctx (element_Block parentBlockInfo) (element_GenerationHash parentBlockInfo) elements
        (snd (state_hash ctx parentBlockInfo d)) elements' d'"
  by (simp add: BlockchainProcessor_def Let_def processor_IsLinked_def process_blocks_iff state_hash_def)

end
