(* ===== verification/Blockchain_Sync.thy ===== *)
theory Blockchain_Sync
  imports Blockchain_Processor
begin

text \<open>
  The consumers that decide whether a peer chain replaces the local one: \<^verbatim>\<open>consumers/BlockchainCheckConsumer.cpp\<close>
  checks a chain in itself, \<^verbatim>\<open>consumers/BlockchainSyncConsumer.cpp\<close> unwinds the local chain to the common block,
  compares the scores, executes the peer chain and commits blocks and state.

  The handlers that the sync consumer receives are the record \<open>BlockchainSyncHandlers\<close>; handlers that only notify
  are recorded as events. A transaction info is the hash of its transaction. The cache delta is the working
  copy of the cache: an aborted synchronization drops it. What the consumer changes is the record \<open>sync_node\<close>.
\<close>

section \<open>Results and inputs\<close>

datatype InputSource = Source_Unknown | Source_Local | Remote_Pull | Remote_Push

abbreviation pair_Height :: "HeightHashPair \<Rightarrow> Height" where
  "pair_Height \<equiv> fst"

abbreviation pair_Hash :: "HeightHashPair \<Rightarrow> Hash256" where
  "pair_Hash \<equiv> snd"

datatype 'f consumer_failure =
    Failure_Consumer_Empty_Input
  | Failure_Consumer_Remote_Chain_Improper_Link
  | Failure_Consumer_Remote_Chain_Duplicate_Transactions
  | Failure_Consumer_Remote_Chain_Unlinked
  | Failure_Consumer_Remote_Chain_Difficulties_Mismatch
  | Failure_Consumer_Remote_Chain_Score_Not_Better
  | Failure_Consumer_Remote_Chain_Too_Far_Behind
  | Failure_Consumer_Remote_Chain_Too_Far_In_Future
  | Failure_Consumer_Remote_Chain_Improper_Importance_Link
  | Processing_Failed "'f processing_result"

datatype 'f ConsumerResult = Continue | Abort "'f consumer_failure"

section \<open>The check consumer\<close>

text \<open>
  The loop over the elements with its three local variables. The time supplier and the tolerated
  future time are arguments; both are milliseconds.
\<close>

fun check_transactions :: "Hash256 list \<Rightarrow> Hash256 set \<Rightarrow> Hash256 set option" where
  "check_transactions [] hashes = Some hashes"
| "check_transactions (h # hs) hashes = (if h \<in> hashes then None else check_transactions hs (insert h hashes))"

fun check_elements :: "'s BlockElement list \<Rightarrow> Hash256 set \<Rightarrow> 's BlockElement option \<Rightarrow> Hash256 option \<Rightarrow> 'f ConsumerResult" where
  "check_elements [] hashes previous previousImportanceBlockHash = Continue"
| "check_elements (e # es) hashes previous previousImportanceBlockHash =
    (if (case previous of None \<Rightarrow> False
         | Some p \<Rightarrow> \<not> IsChainLink (element_Block p) (element_EntityHash p) (element_Block e))
     then Abort Failure_Consumer_Remote_Chain_Improper_Link
     else if IsImportanceBlock (block_Type (element_Block e)) \<and> (case previousImportanceBlockHash of None \<Rightarrow> False
         | Some h \<Rightarrow> h \<noteq> block_PreviousImportanceBlockHash (element_Block e))
     then Abort Failure_Consumer_Remote_Chain_Improper_Importance_Link
     else case check_transactions (element_Transactions e) hashes of
         None \<Rightarrow> Abort Failure_Consumer_Remote_Chain_Duplicate_Transactions
       | Some hashes \<Rightarrow> check_elements es hashes (Some e)
           (if IsImportanceBlock (block_Type (element_Block e)) then Some (element_EntityHash e) else previousImportanceBlockHash))"

definition isChainTimestampAllowed :: "Timestamp \<Rightarrow> u64 \<Rightarrow> Timestamp \<Rightarrow> bool" where
  "isChainTimestampAllowed time maxBlockFutureTime chainTimestamp \<longleftrightarrow> chainTimestamp \<le> time + TimeSpan_millis maxBlockFutureTime"

definition BlockchainCheckConsumer :: "Timestamp \<Rightarrow> u64 \<Rightarrow> 's BlockElement list \<Rightarrow> 'f ConsumerResult" where
  "BlockchainCheckConsumer time maxBlockFutureTime elements =
    (if elements = [] then Abort Failure_Consumer_Empty_Input
     else if \<not> isChainTimestampAllowed time maxBlockFutureTime (block_Timestamp (element_Block (last elements)))
     then Abort Failure_Consumer_Remote_Chain_Too_Far_In_Future
     else check_elements elements {} None None)"

section \<open>The sync consumer\<close>

record ('x, 's, 'f) BlockchainSyncHandlers =
  DifficultyChecker :: "Block list \<Rightarrow> 'x CatapultCache \<Rightarrow> bool result"
  LocalFinalizedHeightHashPair :: HeightHashPair
  NetworkFinalizedHeightHashPair :: HeightHashPair
  handler_Processor :: "'s BlockElement \<Rightarrow> 's BlockElement list \<Rightarrow> 'x CatapultCacheDelta
    \<Rightarrow> ('f processing_result \<times> 's BlockElement list \<times> 'x CatapultCacheDelta) result"
  handler_UndoBlock :: "'s BlockElement \<Rightarrow> UndoBlockType \<Rightarrow> 'x CatapultCacheDelta \<Rightarrow> 'x CatapultCacheDelta result"

datatype CommitOperationStep = Blocks_Written | State_Written | All_Updated

datatype 'x sync_event =
    StateChange "'x CatapultCacheDelta" "64 word" Height
  | PreStateWritten "'x CatapultCacheDelta" Height
  | TransactionsChange "Hash256 set" "Hash256 list"
  | CommitStep CommitOperationStep

record ('x, 's) sync_node =
  sync_cache :: "'x CatapultCache"
  sync_storage :: "'s BlockStorageCache"
  sync_events :: "'x sync_event list"

record ('x, 's) SyncState =
  sync_cacheDelta :: "'x CatapultCacheDelta"
  sync_localFinalizedHeight :: Height
  sync_localFinalizedTime :: Timestamp
  sync_commonBlockElement :: "'s BlockElement"
  sync_scoreDelta :: "64 word"
  sync_removedTransactionInfos :: "Hash256 list"

definition ExtractBlocks :: "'s BlockElement list \<Rightarrow> Block list" where
  "ExtractBlocks elements = map element_Block elements"

definition ExtractTransactionHashes :: "'s BlockElement list \<Rightarrow> Hash256 set" where
  "ExtractTransactionHashes elements = set (concat (map element_Transactions elements))"

definition CollectRevertedTransactionInfos :: "Hash256 set \<Rightarrow> Hash256 list \<Rightarrow> Hash256 list" where
  "CollectRevertedTransactionInfos addedTransactionHashes removedTransactionInfos =
    filter (\<lambda>h. h \<notin> addedTransactionHashes) removedTransactionInfos"

definition Contains_storage :: "'s BlockStorageCache \<Rightarrow> HeightHashPair \<Rightarrow> bool result" where
  "Contains_storage storageView p =
    bind_result (view_loadHashesFrom (pair_Height p) 1 storageView) (\<lambda>hashes.
      Inr (hashes \<noteq> [] \<and> pair_Hash p = hd hashes))"

definition Contains_elements :: "'s BlockElement list \<Rightarrow> HeightHashPair \<Rightarrow> bool" where
  "Contains_elements elements p =
    (let peerStartHeight = block_Height (element_Block (hd elements));
         peerEndHeight = peerStartHeight + of_nat (length elements - 1)
     in if peerStartHeight \<le> pair_Height p \<and> pair_Height p \<le> peerEndHeight
        then pair_Hash p = element_EntityHash (elements ! unat (pair_Height p - peerStartHeight)) else False)"

definition IsLinked :: "Height \<Rightarrow> Height \<Rightarrow> InputSource \<Rightarrow> bool" where
  "IsLinked peerStartHeight localChainHeight source \<longleftrightarrow>
    peerStartHeight \<ge> 2 \<and> peerStartHeight \<le> localChainHeight + 1
    \<and> (source = Remote_Pull \<or> localChainHeight \<le> peerStartHeight)"

definition addChild :: "'s BlockElement \<Rightarrow> 's BlockElement option \<Rightarrow> ChainScore \<Rightarrow> Hash256 list \<Rightarrow> (ChainScore \<times> Hash256 list) result" where
  "addChild parent child score infos =
    (case child of None \<Rightarrow> Inr (score, infos)
     | Some c \<Rightarrow> bind_result (ChainScore_plus score (ucast (CalculateScore (element_Block parent) (element_Block c))))
         (\<lambda>score. Inr (score, element_Transactions c @ infos)))"

lemma distance_decreases: "(height :: u64) \<noteq> common \<Longrightarrow> unat (height - 1 - common) < unat (height - common)"
proof -
  assume "height \<noteq> common"
  then have "height - common \<noteq> 0" by simp
  moreover have "height - 1 - common = height - common - 1" by simp
  ultimately show ?thesis by (metis measure_unat)
qed

text \<open>
  The loop of \<^verbatim>\<open>unwindLocalChain\<close>. The height is decremented until it is the common height, with wrap-around
  below zero, so the distance between the two decreases in every round.
\<close>

function unwind_loop :: "('x, 's, 'f) BlockchainSyncHandlers \<Rightarrow> 's BlockStorageCache \<Rightarrow> Height \<Rightarrow> Height \<Rightarrow> 's BlockElement option
    \<Rightarrow> ChainScore \<Rightarrow> Hash256 list \<Rightarrow> 'x CatapultCacheDelta \<Rightarrow> (ChainScore \<times> Hash256 list \<times> 'x CatapultCacheDelta) result" where
  "unwind_loop h storage commonBlockHeight height child score infos d =
    bind_result (view_loadBlockElement height storage) (\<lambda>parent.
    bind_result (addChild parent child score infos) (\<lambda>(score, infos).
    if height = commonBlockHeight
    then bind_result (handler_UndoBlock h parent Undo_Common d) (\<lambda>d. Inr (score, infos, d))
    else bind_result (handler_UndoBlock h parent Undo_Rollback d) (\<lambda>d.
      unwind_loop h storage commonBlockHeight (height - 1) (Some parent) score infos d)))"
  by pat_completeness auto
termination
  by (relation "measure (\<lambda>(h, storage, common, height, child, score, infos, d). unat (height - common))")
    (auto simp: distance_decreases)

declare unwind_loop.simps [simp del]

definition unwindLocalChain :: "('x, 's, 'f) BlockchainSyncHandlers \<Rightarrow> Height \<Rightarrow> Height \<Rightarrow> 's BlockStorageCache \<Rightarrow> 'x CatapultCacheDelta
    \<Rightarrow> (ChainScore \<times> Hash256 list \<times> 'x CatapultCacheDelta) result" where
  "unwindLocalChain h localChainHeight commonBlockHeight storage d =
    (if localChainHeight = commonBlockHeight then Inr (0, [], d)
     else unwind_loop h storage commonBlockHeight localChainHeight None 0 [] d)"

definition sync_preprocess :: "('x, 's, 'f) BlockchainSyncHandlers \<Rightarrow> 's BlockElement list \<Rightarrow> InputSource \<Rightarrow> ('x, 's) sync_node
    \<Rightarrow> ('f consumer_failure + ('x, 's) SyncState) result" where
  "sync_preprocess h elements source node =
    (let storageView = sync_storage node;
         peerStartHeight = block_Height (element_Block (hd elements));
         localChainHeight = view_chainHeight storageView
     in if \<not> IsLinked peerStartHeight localChainHeight source then Inr (Inl Failure_Consumer_Remote_Chain_Unlinked)
        else bind_result (Contains_storage storageView (NetworkFinalizedHeightHashPair h)) (\<lambda>isFinalizedBlockLocal.
          let isFinalizedBlockRemote = Contains_elements elements (NetworkFinalizedHeightHashPair h);
              isFinalizedBlockUpdate = \<not> isFinalizedBlockLocal \<and> isFinalizedBlockRemote;
              localFinalizedHeight = pair_Height (LocalFinalizedHeightHashPair h)
          in if peerStartHeight \<le> localFinalizedHeight \<and> \<not> isFinalizedBlockUpdate
             then Inr (Inl Failure_Consumer_Remote_Chain_Too_Far_Behind)
             else let blocks = ExtractBlocks elements in
               bind_result (DifficultyChecker h blocks (sync_cache node)) (\<lambda>isDifficultyOk.
               if \<not> isDifficultyOk then Inr (Inl Failure_Consumer_Remote_Chain_Difficulties_Mismatch)
               else bind_result (view_loadBlock localFinalizedHeight storageView) (\<lambda>finalizedBlock.
                 let commonBlockHeight = peerStartHeight - 1 in
                 bind_result (unwindLocalChain h localChainHeight commonBlockHeight storageView (cache_createDelta (sync_cache node)))
                   (\<lambda>(localScore, removedTransactionInfos, d).
                 bind_result (view_loadBlockElement commonBlockHeight storageView) (\<lambda>commonBlockElement.
                 bind_result (CalculatePartialChainScore (element_Block commonBlockElement) blocks) (\<lambda>peerScore.
                 if peerScore \<le> localScore \<and> \<not> isFinalizedBlockUpdate
                 then Inr (Inl Failure_Consumer_Remote_Chain_Score_Not_Better)
                 else bind_result (ChainScore_minus peerScore localScore) (\<lambda>scoreDelta.
                   Inr (Inr \<lparr>sync_cacheDelta = d, sync_localFinalizedHeight = localFinalizedHeight,
                     sync_localFinalizedTime = block_Timestamp finalizedBlock, sync_commonBlockElement = commonBlockElement,
                     sync_scoreDelta = scoreDelta, sync_removedTransactionInfos = removedTransactionInfos\<rparr>)))))))))"

text \<open>
  The link of the first importance block of the peer chain, checked against the local storage. Pruning walks
  over the heights that became final; heights stay below the largest 64-bit number.
\<close>

fun check_importance_link :: "u64 \<Rightarrow> 's BlockStorageCache \<Rightarrow> 's BlockElement list \<Rightarrow> bool result" where
  "check_importance_link importanceGrouping storage [] = Inr True"
| "check_importance_link importanceGrouping storage (e # es) =
    (if \<not> IsImportanceBlock (block_Type (element_Block e)) then check_importance_link importanceGrouping storage es
     else bind_result (HeightGroupingFacade_new (block_Height (element_Block e)) importanceGrouping) (\<lambda>groupingFacade.
       bind_result (view_loadBlockElement (facade_previous groupingFacade 1) storage) (\<lambda>p.
         Inr (element_EntityHash p = block_PreviousImportanceBlockHash (element_Block e)))))"

definition sync_process :: "u64 \<Rightarrow> ('x, 's, 'f) BlockchainSyncHandlers \<Rightarrow> 's BlockElement list \<Rightarrow> ('x, 's) SyncState \<Rightarrow> ('x, 's) sync_node
    \<Rightarrow> ('f ConsumerResult \<times> 's BlockElement list \<times> ('x, 's) SyncState) result" where
  "sync_process importanceGrouping h elements syncState node =
    bind_result (handler_Processor h (sync_commonBlockElement syncState) elements (sync_cacheDelta syncState))
      (\<lambda>(processResult, elements, d).
        let syncState = syncState\<lparr>sync_cacheDelta := d\<rparr> in
        if \<not> IsValidationResultSuccess processResult then Inr (Abort (Processing_Failed processResult), elements, syncState)
        else bind_result (check_importance_link importanceGrouping (sync_storage node) elements) (\<lambda>isLinkOk.
          Inr (if isLinkOk then Continue else Abort Failure_Consumer_Remote_Chain_Improper_Importance_Link, elements, syncState)))"

definition pruneRange :: "'x SubCacheView \<Rightarrow> Height \<Rightarrow> Height \<Rightarrow> 'x CatapultCacheDelta \<Rightarrow> 'x CatapultCacheDelta" where
  "pruneRange I startHeight endHeight d =
    fold (\<lambda>height. delta_prune_height I (of_nat height)) [Suc (unat startHeight)..<Suc (unat endHeight)] d"

definition sync_prune :: "'x SubCacheView \<Rightarrow> ('x, 's) SyncState \<Rightarrow> 'x CatapultCacheDelta" where
  "sync_prune I syncState =
    (let d = delta_prune_time I (sync_localFinalizedTime syncState) (sync_cacheDelta syncState)
     in pruneRange I (LastFinalizedHeight (delta_dependentState d)) (sync_localFinalizedHeight syncState) d)"

definition sync_commit :: "Height \<Rightarrow> 'x CatapultCacheDelta \<Rightarrow> Height \<Rightarrow> 'x CatapultCache \<Rightarrow> 'x CatapultCache" where
  "sync_commit localFinalizedHeight d height c =
    cache_commit height (d\<lparr>delta_dependentState := (delta_dependentState d)\<lparr>LastFinalizedHeight := localFinalizedHeight\<rparr>\<rparr>) c"

definition sync_commitAll :: "'x SubCacheView \<Rightarrow> 's BlockElement list \<Rightarrow> ('x, 's) SyncState \<Rightarrow> ('x, 's) sync_node
    \<Rightarrow> ('x, 's) sync_node result" where
  "sync_commitAll I elements syncState node =
    (let modifier = modifier_dropBlocksAfter (block_Height (element_Block (sync_commonBlockElement syncState)))
           (modifier_new (sync_storage node))
     in bind_result (modifier_saveBlocks elements modifier) (\<lambda>modifier.
        let d = sync_prune I syncState;
            newHeight = block_Height (element_Block (last elements));
            events = [CommitStep Blocks_Written, StateChange d (sync_scoreDelta syncState) newHeight, PreStateWritten d newHeight,
              CommitStep State_Written];
            c = sync_commit (sync_localFinalizedHeight syncState) d newHeight (sync_cache node)
        in bind_result (modifier_commit modifier) (\<lambda>storage.
           let peerTransactionHashes = ExtractTransactionHashes elements;
               revertedTransactionInfos = CollectRevertedTransactionInfos peerTransactionHashes (sync_removedTransactionInfos syncState)
           in Inr \<lparr>sync_cache = c, sync_storage = storage,
                sync_events = sync_events node @ events
                  @ [CommitStep All_Updated, TransactionsChange peerTransactionHashes revertedTransactionInfos]\<rparr>)))"

definition BlockchainSyncConsumer :: "'x SubCacheView \<Rightarrow> u64 \<Rightarrow> ('x, 's, 'f) BlockchainSyncHandlers \<Rightarrow> 's BlockElement list \<Rightarrow> InputSource
    \<Rightarrow> ('x, 's) sync_node \<Rightarrow> ('f ConsumerResult \<times> ('x, 's) sync_node) result" where
  "BlockchainSyncConsumer I importanceGrouping h elements source node =
    (if elements = [] then Inr (Abort Failure_Consumer_Empty_Input, node)
     else bind_result (sync_preprocess h elements source node) (\<lambda>r. case r of
         Inl f \<Rightarrow> Inr (Abort f, node)
       | Inr syncState \<Rightarrow> bind_result (sync_process importanceGrouping h elements syncState node) (\<lambda>(result, elements, syncState).
           if result \<noteq> Continue then Inr (result, node)
           else bind_result (sync_commitAll I elements syncState node) (\<lambda>node. Inr (Continue, node)))))"

end
