(* ===== verification/Chain_Switch.thy ===== *)
theory Chain_Switch
  imports Blockchain_Sync
begin

text \<open>
  What a synchronization does to the node: the peer chain replaces the blocks above the common block, the
  cache is the state of the new chain, the score grows and finalized blocks stay.
\<close>

section \<open>Scores\<close>

fun chain_score :: "Block \<Rightarrow> Block list \<Rightarrow> nat" where
  "chain_score p [] = 0"
| "chain_score p (b # bs) = unat (CalculateScore p b) + chain_score b bs"

lemma chain_score_bound: "chain_score p bs \<le> length bs * (2 ^ 64 - 1)"
proof (induction bs arbitrary: p)
  case (Cons b bs)
  have "unat (CalculateScore p b) \<le> 2 ^ 64 - 1" using unsigned_less [where ?'a = nat, of "CalculateScore p b"] by simp
  then show ?case using Cons.IH [of b] by simp
qed simp

lemma chain_score_small: "length bs < 2 ^ 64 \<Longrightarrow> chain_score p bs < 2 ^ 128"
proof -
  assume "length bs < 2 ^ 64"
  then have "length bs * (2 ^ 64 - 1) \<le> (2 ^ 64 - 1) * (2 ^ 64 - 1)" by (intro mult_le_mono1) simp
  then show ?thesis using chain_score_bound [of p bs] by simp
qed

lemma ChainScore_plus_of_nat:
  assumes "m + unat w < 2 ^ 128"
  shows "ChainScore_plus (of_nat m) (ucast (w :: u64)) = Inr (of_nat (m + unat w))"
proof -
  have "unat (of_nat m :: u128) = m" using assms by (simp add: unat_of_nat)
  moreover have "unat (ucast w :: u128) = unat w" by simp
  moreover have "(of_nat (unat w) :: u128) = ucast w" by (simp add: word_unat_eq_iff unat_of_nat less_trans [OF unsigned_less])
  ultimately show ?thesis using assms by (simp add: ChainScore_plus_def)
qed

lemma CalculatePartialChainScore_loop_ok:
  "m + chain_score p bs < 2 ^ 128 \<Longrightarrow> CalculatePartialChainScore_loop (of_nat m) p bs = Inr (of_nat (m + chain_score p bs))"
proof (induction bs arbitrary: m p)
  case (Cons b bs)
  then show ?case using ChainScore_plus_of_nat [of m "CalculateScore p b"] Cons.IH [of "m + unat (CalculateScore p b)" b]
    by (simp add: add.assoc del: of_nat_add)
qed simp

lemma CalculatePartialChainScore_ok:
  "length bs < 2 ^ 64 \<Longrightarrow> CalculatePartialChainScore p bs = Inr (of_nat (chain_score p bs))"
  using CalculatePartialChainScore_loop_ok [of 0 p bs] chain_score_small [of bs p] by (simp add: CalculatePartialChainScore_def)

section \<open>The storage of a node\<close>

text \<open>Elements are loaded without their statement.\<close>

definition strip :: "'s BlockElement \<Rightarrow> 's BlockElement" where
  "strip e = e\<lparr>element_OptionalStatement := None\<rparr>"

lemma strip_simps [simp]:
  "element_Block (strip e) = element_Block e" "element_EntityHash (strip e) = element_EntityHash e"
  "element_GenerationHash (strip e) = element_GenerationHash e" "element_Transactions (strip e) = element_Transactions e"
  "element_SubCacheMerkleRoots (strip e) = element_SubCacheMerkleRoots e"
  by (simp_all add: strip_def)

definition node_chain :: "'s BlockStorageCache \<Rightarrow> 's BlockElement list \<Rightarrow> bool" where
  "node_chain st chain \<longleftrightarrow> chain \<noteq> [] \<and> holds_from 0 (cache_storage st) chain \<and> storage_Hash_Index (cache_storage st)
     \<and> cache_cachedData st = Some (strip (last chain)) \<and> staging_clean st"

lemma node_chain_height:
  assumes "node_chain st chain" and "n < length chain"
  shows "block_Height (element_Block (chain ! n)) = of_nat (Suc n)" and "unat (block_Height (element_Block (chain ! n))) = Suc n"
proof -
  have "map (unat \<circ> block_Height \<circ> element_Block) chain = [Suc 0..<Suc (length chain)]"
    using assms(1) by (simp add: node_chain_def holds_from_def heights_above_def del: upt_Suc)
  then have "map (unat \<circ> block_Height \<circ> element_Block) chain ! n = [Suc 0..<Suc (length chain)] ! n" by (simp only:)
  then show "unat (block_Height (element_Block (chain ! n))) = Suc n" using assms(2) by (simp add: nth_upt del: upt_Suc)
  then have "of_nat (Suc n) = (of_nat (unat (block_Height (element_Block (chain ! n)))) :: u64)" by (simp only:)
  then show "block_Height (element_Block (chain ! n)) = of_nat (Suc n)" by (simp del: of_nat_Suc)
qed

lemma node_chain_length: "node_chain st chain \<Longrightarrow> 0 < length chain \<and> length chain < 2 ^ 64 - 1"
  by (auto simp: node_chain_def holds_from_def)

lemma node_chain_view:
  assumes "node_chain st chain"
  shows "view_chainHeight st = of_nat (length chain)"
  using assms node_chain_height(1) [OF assms, of "length chain - 1"] node_chain_length [OF assms]
  by (simp add: view_chainHeight_def node_chain_def last_conv_nth)

lemma node_chain_load:
  assumes "node_chain st chain" and "0 < n" and "n \<le> length chain"
  shows "view_loadBlockElement (of_nat n) st = Inr (strip (chain ! (n - 1)))"
    and "view_loadBlock (of_nat n) st = Inr (element_Block (chain ! (n - 1)))"
proof -
  have lt: "n - 1 < length chain" using assms(2,3) by simp
  then have mem: "chain ! (n - 1) \<in> set chain" by simp
  have ht: "block_Height (element_Block (chain ! (n - 1))) = of_nat n"
    using node_chain_height(1) [OF assms(1) lt] assms(2) by simp
  have holds: "holds_from 0 (cache_storage st) chain" using assms(1) by (simp add: node_chain_def)
  have load: "storage_loadBlockElement (of_nat n) (cache_storage st) = Inr (strip (chain ! (n - 1)))"
    using storage_load_holds(1) [OF holds mem] ht by (simp add: strip_def)
  then have load': "storage_loadBlock (of_nat n) (cache_storage st) = Inr (element_Block (chain ! (n - 1)))"
    unfolding storage_loadBlock_def storage_loadBlockElement_def
    by (cases "inputStream (storage_batchSize (cache_storage st)) (unat (of_nat n :: u64)) (storage_blocks (cache_storage st))")
      (auto split: list.splits)
  have le: "(of_nat n :: u64) \<le> of_nat (length chain)"
    using assms(3) node_chain_length [OF assms(1)] by (simp add: word_le_nat_alt unat_of_nat)
  have tip: "of_nat n = (of_nat (length chain) :: u64) \<Longrightarrow> chain ! (n - 1) = last chain"
    using assms(3) node_chain_length [OF assms(1)] by (simp add: word_unat_eq_iff unat_of_nat last_conv_nth)
  have last: "block_Height (element_Block (last chain)) = of_nat (length chain)"
    using node_chain_view [OF assms(1)] assms(1) by (simp add: view_chainHeight_def node_chain_def)
  show "view_loadBlockElement (of_nat n) st = Inr (strip (chain ! (n - 1)))"
    using load le tip last assms(1) node_chain_view [OF assms(1)] by (auto simp: view_loadBlockElement_def node_chain_def)
  show "view_loadBlock (of_nat n) st = Inr (element_Block (chain ! (n - 1)))"
    using load' le tip last assms(1) node_chain_view [OF assms(1)] by (auto simp: view_loadBlock_def node_chain_def)
qed

section \<open>Contracts of the handlers\<close>

text \<open>
  \<open>good es d\<close> says that the delta \<open>d\<close> is a state of the chain \<open>es\<close>. The contract of the handlers: rolling the
  last block back leads to a state of the chain without it, undoing the common block and calculating a state hash
  keep the chain, an accepted block extends it, and neither pruning nor the finalized height matter.
\<close>

definition undo_contract :: "('s BlockElement list \<Rightarrow> 'x CatapultCacheDelta \<Rightarrow> bool) \<Rightarrow> ('x, 's, 'f) BlockchainSyncHandlers \<Rightarrow> bool" where
  "undo_contract good h \<longleftrightarrow>
     (\<forall>es e d. es \<noteq> [] \<longrightarrow> good (es @ [e]) d \<longrightarrow> (\<exists>d'. handler_UndoBlock h e Undo_Rollback d = Inr d' \<and> good es d'))
     \<and> (\<forall>es d. es \<noteq> [] \<longrightarrow> good es d \<longrightarrow> (\<exists>d'. handler_UndoBlock h (last es) Undo_Common d = Inr d' \<and> good es d'))"

definition execute_contract :: "('s BlockElement list \<Rightarrow> 'x CatapultCacheDelta \<Rightarrow> bool) \<Rightarrow> ('x, 's, 'f) processor_context \<Rightarrow> bool" where
  "execute_contract good ctx \<longleftrightarrow>
     (\<forall>es d. es \<noteq> [] \<longrightarrow> good es d \<longrightarrow> good es (snd (state_hash ctx (last es) d)))
     \<and> (\<forall>es e e' d d'. es \<noteq> [] \<longrightarrow> good es d
         \<longrightarrow> block_accepted ctx (element_Block (last es)) (element_GenerationHash (last es)) e d e' d' \<longrightarrow> good (es @ [strip e']) d')"

definition prune_contract :: "('s BlockElement list \<Rightarrow> 'x CatapultCacheDelta \<Rightarrow> bool) \<Rightarrow> 'x SubCacheView \<Rightarrow> bool" where
  "prune_contract good I \<longleftrightarrow>
     (\<forall>es d t. good es d \<longrightarrow> good es (delta_prune_time I t d)) \<and> (\<forall>es d h. good es d \<longrightarrow> good es (delta_prune_height I h d))
     \<and> (\<forall>es d h. good es d \<longrightarrow> good es (d\<lparr>delta_dependentState := (delta_dependentState d)\<lparr>LastFinalizedHeight := h\<rparr>\<rparr>))"

section \<open>Unwinding\<close>

definition tail_score :: "Block list \<Rightarrow> nat" where
  "tail_score bs = (case bs of [] \<Rightarrow> 0 | b # bs \<Rightarrow> chain_score b bs)"

lemma tail_score_drop:
  assumes "0 < n" and "n \<le> length bs"
  shows "tail_score (drop (n - 1) bs) = chain_score (bs ! (n - 1)) (drop n bs)"
proof -
  have "drop (n - 1) bs = bs ! (n - 1) # drop n bs" using assms Cons_nth_drop_Suc [of "n - 1" bs] by simp
  then show ?thesis by (simp add: tail_score_def)
qed

text \<open>One round: the score and the transactions of the child are added, if there is one.\<close>

lemma unwind_round:
  assumes chain: "node_chain st chain" and n: "0 < n" "n \<le> length chain"
  shows "addChild (strip (chain ! (n - 1))) (if n < length chain then Some (strip (chain ! n)) else None)
      (of_nat (tail_score (drop n (map element_Block chain)))) (concat (map element_Transactions (drop (Suc n) chain)))
    = Inr (of_nat (tail_score (drop (n - 1) (map element_Block chain))), concat (map element_Transactions (drop n chain)))"
proof (cases "n < length chain")
  case False
  then have "drop n (map element_Block chain) = []" "drop n chain = []" using n by simp_all
  then show ?thesis using False tail_score_drop [of n "map element_Block chain"] n by (simp add: tail_score_def addChild_def)
next
  case True
  let ?bs = "map element_Block chain"
  have drop: "drop n ?bs = ?bs ! n # drop (Suc n) ?bs" "drop n chain = chain ! n # drop (Suc n) chain"
    using True Cons_nth_drop_Suc [of n ?bs] Cons_nth_drop_Suc [of n chain] by simp_all
  have eq: "tail_score (drop (n - 1) ?bs) = tail_score (drop n ?bs) + unat (CalculateScore (?bs ! (n - 1)) (?bs ! n))"
    using tail_score_drop [of n ?bs] n True unfolding drop(1) by (simp add: tail_score_def)
  have "chain_score (?bs ! (n - 1)) (drop n ?bs) < 2 ^ 128"
    using node_chain_length [OF chain] by (intro chain_score_small) auto
  then have "tail_score (drop n ?bs) + unat (CalculateScore (?bs ! (n - 1)) (?bs ! n)) < 2 ^ 128"
    using tail_score_drop [of n ?bs] n eq by simp
  from ChainScore_plus_of_nat [OF this] show ?thesis using True n eq drop(2) by (simp add: addChild_def del: of_nat_add)
qed

lemma unwind_loop_ok:
  assumes chain: "node_chain st chain" and undo: "undo_contract good h" and common: "0 < common"
  shows "common \<le> n \<Longrightarrow> n \<le> length chain \<Longrightarrow> good (map strip (take n chain)) d
    \<Longrightarrow> \<exists>d'. unwind_loop h st (of_nat common) (of_nat n) (if n < length chain then Some (strip (chain ! n)) else None)
        (of_nat (tail_score (drop n (map element_Block chain)))) (concat (map element_Transactions (drop (Suc n) chain))) d
      = Inr (of_nat (chain_score (element_Block (chain ! (common - 1))) (map element_Block (drop common chain))),
          concat (map element_Transactions (drop common chain)), d')
      \<and> good (map strip (take common chain)) d'"
proof (induction n arbitrary: d)
  case 0
  then show ?case using common by simp
next
  case (Suc n)
  let ?n = "Suc n"
  have len: "length chain < 2 ^ 64 - 1" using node_chain_length [OF chain] by simp
  note load = node_chain_load(1) [OF chain, of ?n] and round = unwind_round [OF chain, of ?n]
  have take: "map strip (take ?n chain) = map strip (take n chain) @ [strip (chain ! n)]"
    using Suc.prems(2) by (simp add: take_Suc_conv_app_nth)
  show ?case
  proof (cases "common = ?n")
    case True
    have "map strip (take ?n chain) \<noteq> []" "last (map strip (take ?n chain)) = strip (chain ! n)" using take by simp_all
    then obtain d' where "handler_UndoBlock h (strip (chain ! n)) Undo_Common d = Inr d'" "good (map strip (take ?n chain)) d'"
      using undo Suc.prems(3) unfolding undo_contract_def by metis
    then show ?thesis
      using load round Suc.prems(2) True tail_score_drop [of ?n "map element_Block chain"]
      by (subst unwind_loop.simps) (simp add: drop_map del: of_nat_Suc)
  next
    case False
    then have c: "common \<le> n" "0 < n" using Suc.prems(1) common by simp_all
    have "map strip (take n chain) \<noteq> []" using c Suc.prems(2) by auto
    then obtain d1 where d1: "handler_UndoBlock h (strip (chain ! n)) Undo_Rollback d = Inr d1" "good (map strip (take n chain)) d1"
      using undo Suc.prems(3) unfolding undo_contract_def take by metis
    have ne: "(of_nat ?n :: u64) \<noteq> of_nat common"
      using False Suc.prems(1,2) len by (simp add: word_unat_eq_iff unat_of_nat del: of_nat_Suc)
    have dec: "(of_nat ?n :: u64) - 1 = of_nat n" by simp
    have ih: "\<exists>d'. unwind_loop h st (of_nat common) (of_nat n) (Some (strip (chain ! n)))
        (of_nat (tail_score (drop n (map element_Block chain)))) (concat (map element_Transactions (drop ?n chain))) d1
      = Inr (of_nat (chain_score (element_Block (chain ! (common - 1))) (map element_Block (drop common chain))),
          concat (map element_Transactions (drop common chain)), d')
      \<and> good (map strip (take common chain)) d'"
      using Suc.IH [OF c(1) _ d1(2)] Suc.prems(2) by simp
    have "unwind_loop h st (of_nat common) (of_nat ?n) (if ?n < length chain then Some (strip (chain ! ?n)) else None)
        (of_nat (tail_score (drop ?n (map element_Block chain)))) (concat (map element_Transactions (drop (Suc ?n) chain))) d
      = unwind_loop h st (of_nat common) (of_nat n) (Some (strip (chain ! n)))
        (of_nat (tail_score (drop n (map element_Block chain)))) (concat (map element_Transactions (drop ?n chain))) d1"
      using load round ne d1(1) Suc.prems(2) dec
      by (subst unwind_loop.simps) (simp del: of_nat_Suc)
    then show ?thesis using ih by simp
  qed
qed

lemma unwindLocalChain_ok:
  assumes chain: "node_chain st chain" and undo: "undo_contract good h" and common: "0 < common" "common \<le> length chain"
    and good: "good (map strip chain) d"
  shows "\<exists>d'. unwindLocalChain h (of_nat (length chain)) (of_nat common) st d
      = Inr (of_nat (chain_score (element_Block (chain ! (common - 1))) (map element_Block (drop common chain))),
          concat (map element_Transactions (drop common chain)), d')
      \<and> good (map strip (take common chain)) d'"
proof (cases "common = length chain")
  case True
  then show ?thesis using good by (simp add: unwindLocalChain_def)
next
  case False
  then have "(of_nat (length chain) :: u64) \<noteq> of_nat common"
    using common(2) node_chain_length [OF chain] by (simp add: word_unat_eq_iff unat_of_nat)
  then show ?thesis
    using unwind_loop_ok [OF chain undo common(1) common(2) order_refl, of d] good
    by (simp add: unwindLocalChain_def tail_score_def)
qed

section \<open>Links\<close>

fun linked :: "'s BlockElement list \<Rightarrow> bool" where
  "linked (e # f # es) \<longleftrightarrow> IsChainLink (element_Block e) (element_EntityHash e) (element_Block f) \<and> linked (f # es)"
| "linked _ \<longleftrightarrow> True"

lemma linked_append:
  "linked (es @ f # fs) \<longleftrightarrow> linked es \<and> linked (f # fs)
    \<and> (es = [] \<or> IsChainLink (element_Block (last es)) (element_EntityHash (last es)) (element_Block f))"
  by (induction es rule: linked.induct) auto

lemma linked_take: "linked es \<Longrightarrow> linked (take n es)"
proof (cases "drop n es")
  case (Cons f fs)
  then have "es = take n es @ f # fs" by (metis append_take_drop_id)
  then show "linked es \<Longrightarrow> ?thesis" using linked_append [of "take n es" f fs] by simp
qed simp

lemma linked_cong:
  "map element_Block es = map element_Block fs \<Longrightarrow> map element_EntityHash es = map element_EntityHash fs \<Longrightarrow> linked es \<longleftrightarrow> linked fs"
proof (induction es arbitrary: fs rule: linked.induct)
  case (1 e e2 es)
  obtain f fs' where "fs = f # fs'" using 1(2) by (cases fs) simp_all
  moreover obtain f2 gs where "fs' = f2 # gs" using 1(2) calculation by (cases fs') simp_all
  ultimately have fs: "fs = f # f2 # gs" by simp
  then have "linked (e2 # es) \<longleftrightarrow> linked (f2 # gs)" using 1 by simp
  then show ?case using 1(2,3) fs by simp
qed (auto simp: Cons_eq_map_conv)

lemma linked_heights:
  "linked (e # es) \<Longrightarrow> unat (block_Height (element_Block e)) = Suc k \<Longrightarrow> k + length (e # es) < 2 ^ 64 \<Longrightarrow> heights_above k (e # es)"
proof (induction es arbitrary: e k)
  case (Cons f fs)
  have "block_Height (element_Block e) + 1 = block_Height (element_Block f)"
    using Cons.prems(1) by (simp add: IsChainLink_def split: if_splits)
  then have "unat (block_Height (element_Block f)) = Suc (Suc k)"
    using Cons.prems(2,3) by (auto simp: word_unat_eq_iff unat_word_ariths)
  then show ?case using Cons.IH [of f "Suc k"] Cons.prems by (simp add: heights_above_Cons)
qed (simp add: heights_above_Cons)

lemma check_elements_linked:
  "check_elements es hashes previous ih = (Continue :: 'f ConsumerResult) \<Longrightarrow> linked (case previous of None \<Rightarrow> es | Some p \<Rightarrow> p # es)"
proof (induction es arbitrary: hashes previous ih)
  case (Cons e es)
  let ?ih = "if IsImportanceBlock (block_Type (element_Block e)) then Some (element_EntityHash e) else ih"
  obtain hashes' where "check_elements es hashes' (Some e) ?ih = (Continue :: 'f ConsumerResult)"
    using Cons.prems by (auto split: if_splits option.splits)
  then have "linked (e # es)" using Cons.IH [of hashes' "Some e" ?ih] by simp
  then show ?case using Cons.prems by (cases previous) (simp_all split: if_splits)
qed (simp split: option.splits)

section \<open>Processing and committing\<close>

lemma chain_accepted_good:
  assumes "execute_contract good ctx"
  shows "chain_accepted ctx parent pgh els d els' d' \<Longrightarrow> es \<noteq> [] \<Longrightarrow> parent = element_Block (last es)
    \<Longrightarrow> pgh = element_GenerationHash (last es) \<Longrightarrow> good es d \<Longrightarrow> good (es @ map strip els') d'"
proof (induction arbitrary: es rule: chain_accepted.induct)
  case (accepted_Cons parent pgh e d e' d1 els els' d')
  then have "good (es @ [strip e']) d1" using assms unfolding execute_contract_def by blast
  then show ?case using accepted_Cons.IH [of "es @ [strip e']"] by simp
qed simp

lemma chain_accepted_statements:
  "chain_accepted ctx parent pgh els d els' d' \<Longrightarrow> \<forall>e \<in> set els. element_OptionalStatement e = None
    \<Longrightarrow> \<forall>e \<in> set els'. element_OptionalStatement e \<noteq> None \<longleftrightarrow> ctx_receiptValidationMode ctx = Receipts_Enabled"
proof (induction rule: chain_accepted.induct)
  case (accepted_Cons parent pgh e d e' d1 els els' d')
  then show ?case by (auto elim!: block_accepted.cases split: if_splits)
qed simp

lemma storage_saveBlock_index: "storage_saveBlock e s = Inr s' \<Longrightarrow> storage_Hash_Index s' = storage_Hash_Index s"
  by (auto simp: storage_saveBlock_def Let_def split: if_splits option.splits)

lemma modifier_commit_index:
  assumes "modifier_commit m = Inr c"
  shows "storage_Hash_Index (cache_storage c) = storage_Hash_Index (cache_storage (fst m))"
proof -
  obtain staging storage where mv: "MoveBlockFiles (snd m + 1) (cache_staging (fst m)) (cache_storage (fst m)) = Inr (staging, storage)"
    and c: "cache_storage c = storage"
    using assms by (auto simp: modifier_commit_def Let_def split: if_splits)
  have step: "storage_Hash_Index s' = storage_Hash_Index s" if "MoveBlockFiles_step source height s = Inr s'"
    for source height and s s' :: "'a FileBlockStorage"
    using that by (auto simp: MoveBlockFiles_step_def dest: storage_saveBlock_index)
  obtain xs d where run: "foldM (MoveBlockFiles_step (cache_staging (fst m))) xs d = Inr storage"
    and d: "storage_Hash_Index d = storage_Hash_Index (cache_storage (fst m))"
    using mv by (fastforce simp: MoveBlockFiles_def Let_def storage_dropBlocksAfter_def simp del: upt_Suc split: if_splits)
  have "storage_Hash_Index storage = storage_Hash_Index d"
    by (rule foldM_invariant [OF run]) (auto dest: step)
  then show ?thesis using c d by simp
qed

lemma prune_good: "prune_contract good I \<Longrightarrow> good es (sync_cacheDelta ss) \<Longrightarrow> good es (sync_prune I ss)"
proof -
  assume c: "prune_contract good I" and g: "good es (sync_cacheDelta ss)"
  have "good es (fold (\<lambda>height. delta_prune_height I (of_nat height)) hs d)" if "good es d" for hs d
    using that c by (induction hs arbitrary: d) (auto simp: prune_contract_def)
  then show ?thesis using c g by (simp add: sync_prune_def pruneRange_def Let_def prune_contract_def)
qed

lemma commitAll_ok:
  assumes chain: "node_chain (sync_storage node) chain" and common: "0 < common" "common \<le> length chain"
    and ss: "sync_commonBlockElement ss = strip (chain ! (common - 1))"
    and es: "heights_above common es" "es \<noteq> []" "common + length es < 2 ^ 64 - 1" and u: "uniform_statements (chain @ es)"
    and good: "good (map strip (take common chain @ es)) (sync_cacheDelta ss)" and prune: "prune_contract good I"
  shows "\<exists>node'. sync_commitAll I es ss node = Inr node' \<and> node_chain (sync_storage node') (take common chain @ es)
    \<and> good (map strip (take common chain @ es)) (cache_createDelta (sync_cache node'))
    \<and> cache_height (sync_cache node') = of_nat (common + length es)
    \<and> LastFinalizedHeight (cache_dependentState (sync_cache node')) = sync_localFinalizedHeight ss
    \<and> StateChange (sync_prune I ss) (sync_scoreDelta ss) (of_nat (common + length es)) \<in> set (sync_events node')
    \<and> TransactionsChange (ExtractTransactionHashes es) (CollectRevertedTransactionInfos (ExtractTransactionHashes es)
        (sync_removedTransactionInfos ss)) \<in> set (sync_events node')"
proof -
  let ?new = "take common chain @ es" and ?st = "sync_storage node"
  have holds: "holds_from 0 (cache_storage ?st) chain" "staging_clean ?st" using chain by (auto simp: node_chain_def)
  obtain m c where m: "modifier_saveBlocks es (modifier_dropBlocksAfter (of_nat common) (modifier_new ?st)) = Inr m"
    "cache_storage (fst m) = cache_storage ?st" "modifier_commit m = Inr c" "holds_from 0 (cache_storage c) ?new" "staging_clean c"
    "cache_cachedData c = Some ((last es)\<lparr>element_OptionalStatement := None\<rparr>)"
    using commit_suffix [OF holds common(2) es u] by blast
  have h: "block_Height (element_Block (chain ! (common - 1))) = of_nat common"
    using node_chain_height(1) [OF chain, of "common - 1"] common by simp
  have "node_chain c ?new"
    using m es(2) modifier_commit_index [OF m(3)] chain by (simp add: node_chain_def strip_def)
  moreover have "unat (block_Height (element_Block (last es))) = common + length es"
    using es(1,2) by (cases es rule: rev_cases) (auto simp: heights_above_append heights_above_Cons)
  then have "of_nat (common + length es) = (of_nat (unat (block_Height (element_Block (last es)))) :: u64)" by (simp only:)
  then have new: "block_Height (element_Block (last es)) = of_nat (common + length es)" by (simp del: of_nat_add)
  moreover have "good (map strip ?new) (sync_prune I ss)" using prune_good [OF prune good] .
  then have "good (map strip ?new) (cache_createDelta (sync_commit (sync_localFinalizedHeight ss) (sync_prune I ss) height c0))" for height c0
  proof -
    have "good (map strip ?new) ((sync_prune I ss)\<lparr>delta_dependentState :=
        (delta_dependentState (sync_prune I ss))\<lparr>LastFinalizedHeight := sync_localFinalizedHeight ss\<rparr>\<rparr>)"
      using prune \<open>good (map strip ?new) (sync_prune I ss)\<close> unfolding prune_contract_def by blast
    moreover have "cache_createDelta (sync_commit f d height c0) = d\<lparr>delta_dependentState := (delta_dependentState d)\<lparr>LastFinalizedHeight := f\<rparr>\<rparr>" for f d
      by (cases d) (simp add: sync_commit_def cache_commit_def cache_createDelta_def)
    ultimately show ?thesis by (simp only:)
  qed
  ultimately show ?thesis
    using m h ss by (simp add: sync_commitAll_def Let_def sync_commit_def cache_commit_def del: of_nat_add)
qed

section \<open>Preprocessing\<close>

lemma IsLinked_common:
  assumes "IsLinked start (of_nat n) source" and "n < 2 ^ 64 - 1"
  shows "\<exists>common. unat start = Suc common \<and> 0 < common \<and> common \<le> n \<and> start - 1 = of_nat common"
proof -
  have "unat (of_nat n + 1 :: u64) = Suc n" using assms(2) by (simp add: unat_word_ariths unat_of_nat)
  then have b: "2 \<le> unat start" "unat start \<le> Suc n" using assms(1) by (simp_all add: IsLinked_def word_le_nat_alt)
  then obtain common where c: "unat start = Suc common" "0 < common" "common \<le> n" by (cases "unat start") auto
  have "start = of_nat (unat start)" by simp
  then have "start = of_nat (Suc common)" unfolding c(1) .
  then show ?thesis using c by auto
qed

definition finalized_update :: "('x, 's, 'f) BlockchainSyncHandlers \<Rightarrow> 's BlockElement list \<Rightarrow> 's BlockStorageCache \<Rightarrow> bool" where
  "finalized_update h elements st \<longleftrightarrow> Contains_storage st (NetworkFinalizedHeightHashPair h) = Inr False
     \<and> Contains_elements elements (NetworkFinalizedHeightHashPair h)"

lemma Contains_storage_ok:
  "node_chain st chain \<Longrightarrow> \<exists>b. Contains_storage st p = Inr b"
  by (auto simp: Contains_storage_def view_loadHashesFrom_def loadHashesFrom_def node_chain_def Let_def)

text \<open>The scores of the blocks that would be given up and of the peer chain.\<close>

definition local_score :: "'s BlockElement list \<Rightarrow> nat \<Rightarrow> nat" where
  "local_score chain common = chain_score (element_Block (chain ! (common - 1))) (map element_Block (drop common chain))"

definition peer_score :: "'s BlockElement list \<Rightarrow> nat \<Rightarrow> 's BlockElement list \<Rightarrow> nat" where
  "peer_score chain common elements = chain_score (element_Block (chain ! (common - 1))) (map element_Block elements)"

lemma preprocess_eq:
  assumes chain: "node_chain (sync_storage node) chain" and undo: "undo_contract good h"
    and good: "good (map strip chain) (cache_createDelta (sync_cache node))"
    and start: "unat (block_Height (element_Block (hd elements))) = Suc common" "0 < common" "common \<le> length chain"
    and linked: "IsLinked (block_Height (element_Block (hd elements))) (of_nat (length chain)) source"
    and fin: "block_Height (element_Block (hd elements)) \<le> pair_Height (LocalFinalizedHeightHashPair h)
        \<Longrightarrow> finalized_update h elements (sync_storage node)"
    and diff: "DifficultyChecker h (ExtractBlocks elements) (sync_cache node) = Inr True"
    and fb: "view_loadBlock (pair_Height (LocalFinalizedHeightHashPair h)) (sync_storage node) = Inr fb"
    and len: "length elements < 2 ^ 64"
  shows "\<exists>d. good (map strip (take common chain)) d \<and> sync_preprocess h elements source node
    = (if peer_score chain common elements \<le> local_score chain common \<and> \<not> finalized_update h elements (sync_storage node)
       then Inr (Inl Failure_Consumer_Remote_Chain_Score_Not_Better)
       else bind_result (ChainScore_minus (of_nat (peer_score chain common elements)) (of_nat (local_score chain common))) (\<lambda>scoreDelta.
         Inr (Inr \<lparr>sync_cacheDelta = d, sync_localFinalizedHeight = pair_Height (LocalFinalizedHeightHashPair h),
           sync_localFinalizedTime = block_Timestamp fb, sync_commonBlockElement = strip (chain ! (common - 1)),
           sync_scoreDelta = scoreDelta, sync_removedTransactionInfos = concat (map element_Transactions (drop common chain))\<rparr>)))"
proof -
  let ?st = "sync_storage node" and ?start = "block_Height (element_Block (hd elements))"
  obtain d where unwind: "unwindLocalChain h (of_nat (length chain)) (of_nat common) ?st (cache_createDelta (sync_cache node))
      = Inr (of_nat (local_score chain common), concat (map element_Transactions (drop common chain)), d)"
    "good (map strip (take common chain)) d"
    using unwindLocalChain_ok [OF chain undo start(2,3) good] by (auto simp: local_score_def)
  have c: "?start - 1 = of_nat common"
    using IsLinked_common [OF linked] node_chain_length [OF chain] start(1) by auto
  obtain isLocal where loc: "Contains_storage ?st (NetworkFinalizedHeightHashPair h) = Inr isLocal"
    using Contains_storage_ok [OF chain] by blast
  then have upd: "finalized_update h elements ?st \<longleftrightarrow> \<not> isLocal \<and> Contains_elements elements (NetworkFinalizedHeightHashPair h)"
    by (simp add: finalized_update_def)
  have peer: "CalculatePartialChainScore (element_Block (chain ! (common - 1))) (ExtractBlocks elements) = Inr (of_nat (peer_score chain common elements))"
    using CalculatePartialChainScore_ok [of "map element_Block elements"] len by (simp add: peer_score_def ExtractBlocks_def)
  have "peer_score chain common elements < 2 ^ 128" "local_score chain common < 2 ^ 128"
    using len node_chain_length [OF chain] chain_score_small [of "map element_Block elements"]
      chain_score_small [of "map element_Block (drop common chain)"] by (auto simp: peer_score_def local_score_def)
  then have cmp: "(of_nat (peer_score chain common elements) :: u128) \<le> of_nat (local_score chain common)
      \<longleftrightarrow> peer_score chain common elements \<le> local_score chain common"
    by (simp add: word_le_nat_alt unat_of_nat)
  have "sync_preprocess h elements source node
    = (if peer_score chain common elements \<le> local_score chain common \<and> \<not> finalized_update h elements (sync_storage node)
       then Inr (Inl Failure_Consumer_Remote_Chain_Score_Not_Better)
       else bind_result (ChainScore_minus (of_nat (peer_score chain common elements)) (of_nat (local_score chain common))) (\<lambda>scoreDelta.
         Inr (Inr \<lparr>sync_cacheDelta = d, sync_localFinalizedHeight = pair_Height (LocalFinalizedHeightHashPair h),
           sync_localFinalizedTime = block_Timestamp fb, sync_commonBlockElement = strip (chain ! (common - 1)),
           sync_scoreDelta = scoreDelta, sync_removedTransactionInfos = concat (map element_Transactions (drop common chain))\<rparr>)))"
    unfolding sync_preprocess_def Let_def node_chain_view [OF chain] c
    using linked loc fin upd diff fb unwind(1) node_chain_load(1) [OF chain start(2,3)] peer cmp
    by (auto simp del: bind_result_Inr_iff)
  then show ?thesis using unwind(2) by blast
qed

lemma preprocess_continue:
  assumes chain: "node_chain (sync_storage node) chain" and undo: "undo_contract good h"
    and good: "good (map strip chain) (cache_createDelta (sync_cache node))"
    and len: "length elements < 2 ^ 64"
    and run: "sync_preprocess h elements source node = Inr (Inr ss)"
  shows "\<exists>common. unat (block_Height (element_Block (hd elements))) = Suc common \<and> 0 < common \<and> common \<le> length chain
    \<and> good (map strip (take common chain)) (sync_cacheDelta ss) \<and> sync_commonBlockElement ss = strip (chain ! (common - 1))
    \<and> sync_localFinalizedHeight ss = pair_Height (LocalFinalizedHeightHashPair h)
    \<and> sync_removedTransactionInfos ss = concat (map element_Transactions (drop common chain))
    \<and> ChainScore_minus (of_nat (peer_score chain common elements)) (of_nat (local_score chain common)) = Inr (sync_scoreDelta ss)
    \<and> (finalized_update h elements (sync_storage node)
       \<or> unat (pair_Height (LocalFinalizedHeightHashPair h)) \<le> common \<and> local_score chain common < peer_score chain common elements)"
proof -
  let ?start = "block_Height (element_Block (hd elements))" and ?st = "sync_storage node"
  obtain isLocal where loc: "Contains_storage ?st (NetworkFinalizedHeightHashPair h) = Inr isLocal"
    using Contains_storage_ok [OF chain] by blast
  have linked: "IsLinked ?start (of_nat (length chain)) source"
    using run by (auto simp: sync_preprocess_def Let_def node_chain_view [OF chain] split: if_splits)
  obtain common where common: "unat ?start = Suc common" "0 < common" "common \<le> length chain"
    using IsLinked_common [OF linked] node_chain_length [OF chain] by auto
  have fin: "finalized_update h elements ?st" if "?start \<le> pair_Height (LocalFinalizedHeightHashPair h)"
    using run that loc by (auto simp: sync_preprocess_def Let_def finalized_update_def split: if_splits)
  obtain b where b: "DifficultyChecker h (ExtractBlocks elements) (sync_cache node) = Inr b" "b"
    using run loc by (auto simp: sync_preprocess_def Let_def split: if_splits)
  obtain fb where fb: "view_loadBlock (pair_Height (LocalFinalizedHeightHashPair h)) ?st = Inr fb"
    using run loc b by (auto simp: sync_preprocess_def Let_def split: if_splits)
  have diff: "DifficultyChecker h (ExtractBlocks elements) (sync_cache node) = Inr True" using b by simp
  from preprocess_eq [where good = good, OF chain undo good common linked fin diff fb len]
  obtain d where d: "good (map strip (take common chain)) d" and eq: "sync_preprocess h elements source node
    = (if peer_score chain common elements \<le> local_score chain common \<and> \<not> finalized_update h elements ?st
       then Inr (Inl Failure_Consumer_Remote_Chain_Score_Not_Better)
       else bind_result (ChainScore_minus (of_nat (peer_score chain common elements)) (of_nat (local_score chain common))) (\<lambda>scoreDelta.
         Inr (Inr \<lparr>sync_cacheDelta = d, sync_localFinalizedHeight = pair_Height (LocalFinalizedHeightHashPair h),
           sync_localFinalizedTime = block_Timestamp fb, sync_commonBlockElement = strip (chain ! (common - 1)),
           sync_scoreDelta = scoreDelta, sync_removedTransactionInfos = concat (map element_Transactions (drop common chain))\<rparr>)))"
    by blast
  have "unat (pair_Height (LocalFinalizedHeightHashPair h)) \<le> common \<or> finalized_update h elements ?st"
  proof (cases "?start \<le> pair_Height (LocalFinalizedHeightHashPair h)")
    case False
    then show ?thesis using common(1) by (simp add: word_le_nat_alt)
  qed (use fin in simp)
  then show ?thesis
    using run common d unfolding eq by (intro exI [of _ common]) (auto split: if_splits)
qed

section \<open>The whole synchronization\<close>

definition node_ok :: "('s BlockElement list \<Rightarrow> 'x CatapultCacheDelta \<Rightarrow> bool) \<Rightarrow> bool \<Rightarrow> ('x, 's) sync_node \<Rightarrow> 's BlockElement list \<Rightarrow> bool" where
  "node_ok good receipts node chain \<longleftrightarrow> node_chain (sync_storage node) chain \<and> linked chain
     \<and> (\<forall>e \<in> set chain. element_OptionalStatement e \<noteq> None \<longleftrightarrow> receipts)
     \<and> good (map strip chain) (cache_createDelta (sync_cache node))"

definition sync_contracts :: "('s BlockElement list \<Rightarrow> 'x CatapultCacheDelta \<Rightarrow> bool) \<Rightarrow> 'x SubCacheView
    \<Rightarrow> ('x, 's, 'f) processor_context \<Rightarrow> ('x, 's, 'f) BlockchainSyncHandlers \<Rightarrow> bool" where
  "sync_contracts good I ctx h \<longleftrightarrow> undo_contract good h \<and> execute_contract good ctx \<and> prune_contract good I
     \<and> handler_Processor h = BlockchainProcessor ctx"

lemma peer_heights:
  assumes "BlockchainCheckConsumer time maxFuture elements = (Continue :: 'g ConsumerResult)"
    and "unat (block_Height (element_Block (hd elements))) = Suc common" and "common + length elements < 2 ^ 64"
  shows "linked elements \<and> elements \<noteq> [] \<and> heights_above common elements"
proof -
  have "elements \<noteq> []" "linked elements"
    using assms(1) check_elements_linked [of elements "{}" None None] by (auto simp: BlockchainCheckConsumer_def split: if_splits)
  then show ?thesis using assms(2,3) linked_heights [of "hd elements" "tl elements" common] by simp
qed

text \<open>What a successful processing and the commit make of the node.\<close>

lemma process_commit_ok:
  assumes node: "node_ok good (ctx_receiptValidationMode ctx = Receipts_Enabled) node chain" and con: "sync_contracts good I ctx h"
    and common: "0 < common" "common \<le> length chain" and ss: "sync_commonBlockElement ss = strip (chain ! (common - 1))"
    and good: "good (map strip (take common chain)) (sync_cacheDelta ss)"
    and els: "linked elements" "elements \<noteq> []" "heights_above common elements" "common + length elements < 2 ^ 64 - 1"
      "\<forall>e \<in> set elements. element_OptionalStatement e = None"
    and proc: "BlockchainProcessor ctx (sync_commonBlockElement ss) elements (sync_cacheDelta ss) = Inr (Success, elements', d')"
  shows "\<exists>node'. sync_commitAll I elements' (ss\<lparr>sync_cacheDelta := d'\<rparr>) node = Inr node'
    \<and> node_ok good (ctx_receiptValidationMode ctx = Receipts_Enabled) node' (take common chain @ elements')
    \<and> map element_Block elements' = map element_Block elements \<and> map element_EntityHash elements' = map element_EntityHash elements
    \<and> cache_height (sync_cache node') = of_nat (common + length elements)
    \<and> LastFinalizedHeight (cache_dependentState (sync_cache node')) = sync_localFinalizedHeight ss
    \<and> (\<exists>d. StateChange d (sync_scoreDelta ss) (of_nat (common + length elements)) \<in> set (sync_events node'))"
proof -
  have chain: "node_chain (sync_storage node) chain" using node by (simp add: node_ok_def)
  let ?last = "strip (chain ! (common - 1))"
  have tip: "take common chain \<noteq> []" using common by auto
  have tip_last: "last (take common chain) = chain ! (common - 1)"
    using common tip by (simp add: last_conv_nth min_absorb2)
  have take: "map strip (take common chain) \<noteq> []" "last (map strip (take common chain)) = ?last"
    using tip tip_last by (simp_all add: last_map)
  have acc: "IsChainLink (element_Block ?last) (element_EntityHash ?last) (element_Block (hd elements))"
    "chain_accepted ctx (element_Block ?last) (element_GenerationHash ?last) elements (snd (state_hash ctx ?last (sync_cacheDelta ss))) elements' d'"
    using proc unfolding ss by (simp_all add: BlockchainProcessor_def Let_def processor_IsLinked_def process_blocks_iff state_hash_def split: if_splits)
  have same: "map element_Block elements' = map element_Block elements" "map element_EntityHash elements' = map element_EntityHash elements"
    using chain_accepted_elements [OF acc(2)] by simp_all
  have ne: "elements' \<noteq> []" "length elements' = length elements" using same(1) els(2) by (auto dest: map_eq_imp_length_eq)
  have "good (map strip (take common chain)) (snd (state_hash ctx ?last (sync_cacheDelta ss)))"
    using con good take unfolding sync_contracts_def execute_contract_def by metis
  then have g: "good (map strip (take common chain @ elements')) d'"
    using chain_accepted_good [where good = good, OF _ acc(2) take(1)] take(2) con by (simp add: sync_contracts_def)
  have h: "heights_above common elements'"
    using els(3) same(1) ne(2) unfolding heights_above_def by (metis map_map comp_assoc)
  have st: "\<forall>e \<in> set elements'. element_OptionalStatement e \<noteq> None \<longleftrightarrow> ctx_receiptValidationMode ctx = Receipts_Enabled"
    using chain_accepted_statements [OF acc(2) els(5)] .
  have "\<forall>e \<in> set chain. element_OptionalStatement e \<noteq> None \<longleftrightarrow> ctx_receiptValidationMode ctx = Receipts_Enabled"
    using node by (simp add: node_ok_def)
  with st have u: "uniform_statements (chain @ elements')" unfolding uniform_statements_def set_append by blast
  have linked: "linked (take common chain @ elements')"
  proof -
    obtain f fs where f: "elements' = f # fs" using ne(1) by (cases elements') auto
    have "element_Block f = element_Block (hd elements)" using same(1) f els(2) by (cases elements) auto
    moreover have "linked elements'" using linked_cong [OF same] els(1) by simp
    ultimately show ?thesis
      using f acc(1) tip_last node linked_take [of chain common] linked_append [of "take common chain" f fs] by (simp add: node_ok_def)
  qed
  let ?ss = "ss\<lparr>sync_cacheDelta := d'\<rparr>"
  have prune: "prune_contract good I" using con by (simp add: sync_contracts_def)
  have len: "common + length elements' < 2 ^ 64 - 1" using els(4) ne(2) by simp
  from commitAll_ok [where good = good and ss = ?ss and es = elements', OF chain common _ h ne(1) len u _ prune]
  obtain node' where "sync_commitAll I elements' ?ss node = Inr node'" "node_chain (sync_storage node') (take common chain @ elements')"
    "good (map strip (take common chain @ elements')) (cache_createDelta (sync_cache node'))"
    "cache_height (sync_cache node') = of_nat (common + length elements')"
    "LastFinalizedHeight (cache_dependentState (sync_cache node')) = sync_localFinalizedHeight ?ss"
    "StateChange (sync_prune I ?ss) (sync_scoreDelta ?ss) (of_nat (common + length elements')) \<in> set (sync_events node')"
    using ss g by auto
  moreover have "\<forall>e \<in> set (take common chain @ elements'). element_OptionalStatement e \<noteq> None \<longleftrightarrow> ctx_receiptValidationMode ctx = Receipts_Enabled"
    using st node by (auto simp: node_ok_def dest: in_set_takeD)
  ultimately show ?thesis using linked same ne(2) by (intro exI [of _ node']) (auto simp: node_ok_def simp del: of_nat_add)
qed

lemma sync_run:
  assumes "BlockchainSyncConsumer I importanceGrouping h elements source node = Inr (Continue, node')"
  obtains ss elements' ss' where "sync_preprocess h elements source node = Inr (Inr ss)"
    and "sync_process importanceGrouping h elements ss node = Inr (Continue, elements', ss')"
    and "sync_commitAll I elements' ss' node = Inr node'"
proof -
  obtain r where r: "sync_preprocess h elements source node = Inr r"
    using assms by (auto simp: BlockchainSyncConsumer_def split: if_splits)
  with assms obtain ss where "r = Inr ss" by (cases r) (auto simp: BlockchainSyncConsumer_def split: if_splits)
  with r assms that show thesis by (auto simp: BlockchainSyncConsumer_def split: if_splits)
qed

text \<open>
  C1. A synchronization that goes through replaces the local chain above a common block by the
  checked peer chain and nothing else. Then storage and cache agree again: the storage holds the old
  blocks up to the common one followed by the new ones, the chain is linked, the cache is a state of this chain at its height.
  Blocks that the node regards as final are never given up and the score of the chain grows,
  unless the peer chain contains the block that the network has finalized and the local chain does not.
  Subscribers are told the difference of the two scores.
\<close>

theorem sync_switches_chain:
  assumes node: "node_ok good (ctx_receiptValidationMode ctx = Receipts_Enabled) node chain" and con: "sync_contracts good I ctx h"
    and check: "BlockchainCheckConsumer time maxFuture elements = (Continue :: 'f ConsumerResult)"
    and received: "\<forall>e \<in> set elements. element_OptionalStatement e = None" and len: "length chain + length elements < 2 ^ 64 - 1"
    and run: "BlockchainSyncConsumer I importanceGrouping h elements source node = Inr (Continue, node')"
  shows "\<exists>common elements'. 0 < common \<and> common \<le> length chain
    \<and> node_ok good (ctx_receiptValidationMode ctx = Receipts_Enabled) node' (take common chain @ elements')
    \<and> map element_Block elements' = map element_Block elements \<and> map element_EntityHash elements' = map element_EntityHash elements
    \<and> cache_height (sync_cache node') = of_nat (common + length elements)
    \<and> (unat (pair_Height (LocalFinalizedHeightHashPair h)) \<le> common \<and> local_score chain common < peer_score chain common elements
       \<or> finalized_update h elements (sync_storage node))
    \<and> (\<exists>d scoreDelta. StateChange d scoreDelta (of_nat (common + length elements)) \<in> set (sync_events node')
       \<and> ChainScore_minus (of_nat (peer_score chain common elements)) (of_nat (local_score chain common)) = Inr scoreDelta)"
proof -
  obtain ss elements' ss' where pre: "sync_preprocess h elements source node = Inr (Inr ss)"
    and proc: "sync_process importanceGrouping h elements ss node = Inr (Continue, elements', ss')"
    and com: "sync_commitAll I elements' ss' node = Inr node'"
    by (rule sync_run [OF run])
  have chain: "node_chain (sync_storage node) chain" "good (map strip chain) (cache_createDelta (sync_cache node))"
    using node by (simp_all add: node_ok_def)
  have undo: "undo_contract good h" and P: "handler_Processor h = BlockchainProcessor ctx" using con by (simp_all add: sync_contracts_def)
  have len': "length elements < 2 ^ 64" using len by simp
  obtain common where c: "unat (block_Height (element_Block (hd elements))) = Suc common" "0 < common" "common \<le> length chain"
    "good (map strip (take common chain)) (sync_cacheDelta ss)" "sync_commonBlockElement ss = strip (chain ! (common - 1))"
    "ChainScore_minus (of_nat (peer_score chain common elements)) (of_nat (local_score chain common)) = Inr (sync_scoreDelta ss)"
    "finalized_update h elements (sync_storage node)
       \<or> unat (pair_Height (LocalFinalizedHeightHashPair h)) \<le> common \<and> local_score chain common < peer_score chain common elements"
    using preprocess_continue [where good = good, OF chain(1) undo chain(2) len' pre] by blast
  have small: "common + length elements < 2 ^ 64 - 1" "common + length elements < 2 ^ 64" using len c(3) by simp_all
  obtain d' where d': "BlockchainProcessor ctx (sync_commonBlockElement ss) elements (sync_cacheDelta ss) = Inr (Success, elements', d')"
    "ss' = ss\<lparr>sync_cacheDelta := d'\<rparr>"
    using proc P by (auto simp: sync_process_def Let_def split: if_splits)
  note els = peer_heights [OF check c(1) small(2)]
  obtain node'' where "sync_commitAll I elements' ss' node = Inr node''"
    "node_ok good (ctx_receiptValidationMode ctx = Receipts_Enabled) node'' (take common chain @ elements')"
    "map element_Block elements' = map element_Block elements" "map element_EntityHash elements' = map element_EntityHash elements"
    "cache_height (sync_cache node'') = of_nat (common + length elements)"
    "\<exists>d. StateChange d (sync_scoreDelta ss) (of_nat (common + length elements)) \<in> set (sync_events node'')"
    using process_commit_ok [where good = good, OF node con c(2,3,5,4) _ _ _ small(1) received d'(1)] els d'(2) by auto
  then show ?thesis using com c(2,3,6,7) by (intro exI [of _ common] exI [of _ elements']) (auto simp del: of_nat_add)
qed

lemma better_chain:
  assumes node: "node_ok good (ctx_receiptValidationMode ctx = Receipts_Enabled) node chain" and con: "sync_contracts good I ctx h"
    and check: "BlockchainCheckConsumer time maxFuture elements = (Continue :: 'f ConsumerResult)"
    and received: "\<forall>e \<in> set elements. element_OptionalStatement e = None" and len: "length chain + length elements < 2 ^ 64 - 1"
    and common: "unat (block_Height (element_Block (hd elements))) = Suc common" "0 < common" "common \<le> length chain"
    and source: "source = Remote_Pull \<or> length chain \<le> Suc common"
    and fin: "0 < pair_Height (LocalFinalizedHeightHashPair h)" "unat (pair_Height (LocalFinalizedHeightHashPair h)) \<le> common"
    and diff: "DifficultyChecker h (ExtractBlocks elements) (sync_cache node) = Inr True"
    and score: "local_score chain common < peer_score chain common elements"
      "peer_score chain common elements - local_score chain common < 2 ^ 63"
    and accepted: "\<forall>d. good (map strip (take common chain)) d \<longrightarrow> (\<exists>elements' d'.
        BlockchainProcessor ctx (strip (chain ! (common - 1))) elements d = Inr (Success, elements', d')
        \<and> check_importance_link importanceGrouping (sync_storage node) elements' = Inr True)"
  shows "\<exists>node' elements'. BlockchainSyncConsumer I importanceGrouping h elements source node = Inr (Continue, node')
    \<and> node_ok good (ctx_receiptValidationMode ctx = Receipts_Enabled) node' (take common chain @ elements')
    \<and> map element_Block elements' = map element_Block elements"
proof -
  have chain: "node_chain (sync_storage node) chain" "good (map strip chain) (cache_createDelta (sync_cache node))"
    using node by (simp_all add: node_ok_def)
  have undo: "undo_contract good h" and P: "handler_Processor h = BlockchainProcessor ctx" using con by (simp_all add: sync_contracts_def)
  let ?start = "block_Height (element_Block (hd elements))" and ?F = "pair_Height (LocalFinalizedHeightHashPair h)"
  have n: "unat (of_nat (length chain) :: u64) = length chain" "unat (of_nat (length chain) + 1 :: u64) = Suc (length chain)"
    using node_chain_length [OF chain(1)] by (simp_all add: unat_word_ariths unat_of_nat)
  have linked: "IsLinked ?start (of_nat (length chain)) source"
    using common source n by (auto simp: IsLinked_def word_le_nat_alt)
  have late: "\<not> ?start \<le> ?F" using common(1) fin(2) by (simp add: word_le_nat_alt)
  have "of_nat (unat ?F) = ?F" by simp
  then obtain fb where fb: "view_loadBlock ?F (sync_storage node) = Inr fb"
    using node_chain_load(2) [OF chain(1), of "unat ?F"] fin common(3) by (simp add: word_less_nat_alt)
  have small: "common + length elements < 2 ^ 64 - 1" "common + length elements < 2 ^ 64" "length elements < 2 ^ 64"
    using len common(3) by simp_all
  let ?l = "local_score chain common" and ?p = "peer_score chain common elements"
  have p: "?p < 2 ^ 128" using small(3) chain_score_small [of "map element_Block elements"] by (simp add: peer_score_def)
  then have u: "unat (of_nat ?p :: u128) = ?p" "unat (of_nat ?l :: u128) = ?l" using score(1) by (simp_all add: unat_of_nat)
  then have "(of_nat ?l :: u128) < of_nat ?p" using score(1) by (simp add: word_less_nat_alt)
  moreover have "unat (of_nat ?p - of_nat ?l :: u128) = ?p - ?l" using u score(1) by (simp add: unat_sub word_le_nat_alt)
  ultimately obtain scoreDelta where delta: "ChainScore_minus (of_nat ?p) (of_nat ?l) = Inr scoreDelta"
    using score(2) by (simp add: ChainScore_minus_def word_less_nat_alt)
  obtain d where d: "good (map strip (take common chain)) d" and pre: "sync_preprocess h elements source node
    = Inr (Inr \<lparr>sync_cacheDelta = d, sync_localFinalizedHeight = ?F, sync_localFinalizedTime = block_Timestamp fb,
       sync_commonBlockElement = strip (chain ! (common - 1)), sync_scoreDelta = scoreDelta,
       sync_removedTransactionInfos = concat (map element_Transactions (drop common chain))\<rparr>)" (is "_ = Inr (Inr ?ss)")
    using preprocess_eq [where good = good, OF chain(1) undo chain(2) common linked _ diff fb small(3)] late score(1) delta by auto
  obtain elements' d' where proc: "BlockchainProcessor ctx (strip (chain ! (common - 1))) elements d = Inr (Success, elements', d')"
    "check_importance_link importanceGrouping (sync_storage node) elements' = Inr True"
    using accepted d by blast
  note els = peer_heights [OF check common(1) small(2)]
  obtain node' where "sync_commitAll I elements' (?ss\<lparr>sync_cacheDelta := d'\<rparr>) node = Inr node'"
    "node_ok good (ctx_receiptValidationMode ctx = Receipts_Enabled) node' (take common chain @ elements')"
    "map element_Block elements' = map element_Block elements"
    using process_commit_ok [where good = good and ss = ?ss, OF node con common(2,3) _ _ _ _ _ small(1) received, of elements' d'] els d proc(1) by auto
  then show ?thesis
    using pre proc els P by (auto simp: BlockchainSyncConsumer_def sync_process_def Let_def simp del: bind_result_Inr_iff)
qed

text \<open>
  C15. A better chain is adopted, under the following conditions. The peer chain passes the check consumer and starts above the last final block and at most one block
  above the local tip; a chain that was pushed and not pulled replaces at most the last local block. Its difficulties pass the
  difficulty check, and its score is larger than that of the local blocks it replaces, by less than \<open>2 ^ 63\<close>, as the subtraction of scores throws otherwise. The processor accepts it, with the right link to the importance block, in every
  state that belongs to the common chain. The handlers keep their contracts: rolling back the last block of a chain leads from a state of the chain to a state of the chain without
  it, undoing the common block, calculating a state hash, pruning and the finalized height keep the states of a chain, an accepted block leads to a state of the longer chain, and the processor is the modelled one. Then the synchronization does not throw and
  does not abort: the node has the peer chain afterwards.
\<close>

theorem better_chain_adopted:
  assumes node: "node_ok good (ctx_receiptValidationMode ctx = Receipts_Enabled) node chain" and con: "sync_contracts good I ctx h"
    and check: "BlockchainCheckConsumer time maxFuture elements = (Continue :: 'f ConsumerResult)"
    and received: "\<forall>e \<in> set elements. element_OptionalStatement e = None" and len: "length chain + length elements < 2 ^ 64 - 1"
    and common: "unat (block_Height (element_Block (hd elements))) = Suc common" "0 < common" "common \<le> length chain"
    and source: "source = Remote_Pull \<or> length chain \<le> Suc common"
    and fin: "0 < pair_Height (LocalFinalizedHeightHashPair h)" "unat (pair_Height (LocalFinalizedHeightHashPair h)) \<le> common"
    and diff: "DifficultyChecker h (ExtractBlocks elements) (sync_cache node) = Inr True"
    and score: "local_score chain common < peer_score chain common elements"
      "peer_score chain common elements - local_score chain common < 2 ^ 63"
    and accepted: "\<forall>d. good (map strip (take common chain)) d \<longrightarrow> (\<exists>elements' d'.
        BlockchainProcessor ctx (strip (chain ! (common - 1))) elements d = Inr (Success, elements', d')
        \<and> check_importance_link importanceGrouping (sync_storage node) elements' = Inr True)"
  shows "\<exists>node' elements'. BlockchainSyncConsumer I importanceGrouping h elements source node = Inr (Continue, node')
    \<and> node_ok good (ctx_receiptValidationMode ctx = Receipts_Enabled) node' (take common chain @ elements')
    \<and> map element_Block elements' = map element_Block elements"
  using assms by (rule better_chain)

section \<open>A small network\<close>

text \<open>
  One sub cache counts the blocks of the chain; every signer is known and every proof valid. The local chain has two
  blocks, the peer chain replaces the second one by a block with a larger difficulty.
\<close>

definition counter_view :: "nat SubCacheView" where
  "counter_view = \<lparr>sub_supportsMerkleRoot = (\<lambda>_. False), sub_tryGetMerkleRoot = (\<lambda>_. None), sub_trySetMerkleRoot = (\<lambda>r x. (x, False)),
     sub_updateMerkleRoot = (\<lambda>h x. x), sub_prune_height = (\<lambda>h x. x), sub_prune_time = (\<lambda>t x. x)\<rparr>"

definition counter_context :: "(nat, string, unit) processor_context" where
  "counter_context = \<lparr>ctx_SubCacheView = counter_view, ctx_sha3 = (\<lambda>x. x), ctx_findAccountAddress = (\<lambda>_ _. Some []),
     ctx_GetVrfPublicKey = (\<lambda>_ _. Inr []), ctx_VerifyVrfProof = (\<lambda>_ _ _. replicate 64 1), ctx_blockHitPredicate = (\<lambda>_ _ _ _. Inr True),
     ctx_batchEntityProcessor = (\<lambda>_ d. Inr (Success, d\<lparr>delta_subViews := map (map_option Suc) (delta_subViews d)\<rparr>, ''receipts'')),
     ctx_CalculateMerkleHash = (\<lambda>_. [2]), ctx_receiptValidationMode = Receipts_Enabled\<rparr>"

definition counter_handlers :: "(nat, string, unit) BlockchainSyncHandlers" where
  "counter_handlers = \<lparr>DifficultyChecker = (\<lambda>_ _. Inr True), LocalFinalizedHeightHashPair = (1, [1]),
     NetworkFinalizedHeightHashPair = (1, [1]), handler_Processor = BlockchainProcessor counter_context,
     handler_UndoBlock = (\<lambda>e t d. Inr (case t of Undo_Common \<Rightarrow> d
       | Undo_Rollback \<Rightarrow> d\<lparr>delta_subViews := map (map_option (\<lambda>n. n - 1)) (delta_subViews d)\<rparr>))\<rparr>"

definition counts_blocks :: "string BlockElement list \<Rightarrow> nat CatapultCacheDelta \<Rightarrow> bool" where
  "counts_blocks es d \<longleftrightarrow> delta_subViews d = [Some (length es)]"

definition small_block :: "Height \<Rightarrow> Timestamp \<Rightarrow> u64 \<Rightarrow> Hash256 \<Rightarrow> Hash256 \<Rightarrow> string option \<Rightarrow> string BlockElement" where
  "small_block height time difficulty previous entityHash statement =
    \<lparr>element_Block = \<lparr>block_SignerPublicKey = [], block_Type = 0x8143, block_Height = height, block_Timestamp = time,
       block_Difficulty = difficulty, block_PreviousBlockHash = previous, block_FeeMultiplier = 0, block_GenerationHashProof = [],
       block_ReceiptsHash = [2], block_StateHash = replicate 32 0, block_PreviousImportanceBlockHash = []\<rparr>,
     element_EntityHash = entityHash, element_GenerationHash = [], element_SubCacheMerkleRoots = [], element_Transactions = [],
     element_OptionalStatement = statement\<rparr>"

definition small_chain :: "string BlockElement list" where
  "small_chain = [small_block 1 0 0 [] [1] (Some ''r''), small_block 2 1000 10 [1] [2] (Some ''r'')]"

definition small_peer :: "string BlockElement list" where
  "small_peer = [small_block 2 500 20 [1] [3] None]"

definition small_node :: "(nat, string) sync_node" where
  "small_node = \<lparr>sync_cache = \<lparr>cache_height = 2, cache_dependentState = CatapultState_new, cache_subCaches = [Some 2]\<rparr>,
     sync_storage = \<lparr>cache_storage = projr (foldM storage_saveBlock small_chain (sample_storage True)), cache_staging = sample_storage False,
       cache_cachedData = Some (strip (last small_chain))\<rparr>, sync_events = []\<rparr>"

lemma small_node_ok: "node_ok counts_blocks True small_node small_chain"
proof -
  let ?a = "small_block 1 0 0 [] [1] (Some ''r'')" and ?b = "small_block 2 1000 10 [1] [2] (Some ''r'')"
  have u: "uniform_statements ([] @ [?a])" "uniform_statements ([?a] @ [?b])"
    by (simp_all add: uniform_statements_def small_block_def)
  obtain s where s: "storage_saveBlock ?a (sample_storage True) = Inr s" "holds_from 0 s [?a]"
    using storage_saveBlock_holds [OF sample_storage_holds _ _ u(1)] by (auto simp: small_block_def)
  obtain t where t: "storage_saveBlock ?b s = Inr t" "holds_from 0 t [?a, ?b]"
    using storage_saveBlock_holds [OF s(2) _ _ u(2)] by (auto simp: small_block_def)
  have "storage_Hash_Index t" using storage_saveBlock_index [OF s(1)] storage_saveBlock_index [OF t(1)] by (simp add: sample_storage_def)
  then show ?thesis
    using s t by (simp add: node_ok_def node_chain_def small_node_def small_chain_def staging_clean_def sample_storage_def
        counts_blocks_def cache_createDelta_def IsChainLink_def) (simp add: small_block_def)
qed

lemma counter_contracts: "sync_contracts counts_blocks counter_view counter_context counter_handlers"
proof -
  have hash: "snd (state_hash counter_context e d) = d" if "delta_subViews d = [Some n]" for e d n
    using that by (cases d) (simp add: state_hash_def delta_calculateStateHash_def counter_context_def counter_view_def)
  have batch: "ctx_batchEntityProcessor counter_context e d
      = Inr (Success, d\<lparr>delta_subViews := map (map_option Suc) (delta_subViews d)\<rparr>, ''receipts'')" for e d
    by (simp add: counter_context_def)
  have "undo_contract counts_blocks counter_handlers"
    by (simp add: undo_contract_def counter_handlers_def counts_blocks_def)
  moreover have "execute_contract counts_blocks counter_context"
    unfolding execute_contract_def
  proof (intro conjI allI impI)
    fix es d assume "counts_blocks es d"
    then show "counts_blocks es (snd (state_hash counter_context (last es) d))" using hash [of d] by (simp add: counts_blocks_def)
  next
    fix es e e' and d d' :: "nat CatapultCacheDelta"
    assume "counts_blocks es d"
      "block_accepted counter_context (element_Block (last es)) (element_GenerationHash (last es)) e d e' d'"
    then have "d' = snd (state_hash counter_context e (d\<lparr>delta_subViews := [Some (Suc (length es))]\<rparr>))"
      by (auto elim!: block_accepted.cases simp: batch counts_blocks_def)
    then show "counts_blocks (es @ [strip e']) d'" using hash [of "d\<lparr>delta_subViews := [Some (Suc (length es))]\<rparr>"] by (simp add: counts_blocks_def)
  qed
  moreover have "prune_contract counts_blocks counter_view"
    by (simp add: prune_contract_def counts_blocks_def delta_prune_time_def delta_prune_height_def counter_view_def)
  ultimately show ?thesis by (simp add: sync_contracts_def counter_handlers_def)
qed

lemma counter_accepts:
  assumes "counts_blocks es d"
  shows "\<exists>elements' d'. BlockchainProcessor counter_context (strip (hd small_chain)) small_peer d = Inr (Success, elements', d')
    \<and> check_importance_link grouping st elements' = Inr True"
proof -
  have type: "\<not> IsImportanceBlock 0x8143"
    by (simp add: IsImportanceBlock_def Entity_Type_Block_Nemesis_def Entity_Type_Block_Importance_def MakeEntityType_def)
  have "delta_subViews d = [Some (length es)]" using assms by (simp add: counts_blocks_def)
  then show ?thesis
    by (simp add: BlockchainProcessor_def small_chain_def small_peer_def small_block_def processor_IsLinked_def IsChainLink_def
        counter_context_def counter_view_def delta_calculateStateHash_def CheckGenerationHash_def CheckStateHash_def CheckReceiptsHash_def
        CalculateStateHash_def Hash512_zero_def type)
qed

lemma small_peer_checked: "BlockchainCheckConsumer 2000 0 small_peer = Continue"
  by (simp add: BlockchainCheckConsumer_def small_peer_def small_block_def isChainTimestampAllowed_def TimeSpan_millis_def)

lemma small_scores: "local_score small_chain 1 = 9" "peer_score small_chain 1 small_peer = 20"
  by (simp_all add: local_score_def peer_score_def small_chain_def small_peer_def small_block_def CalculateScore_def
      TimeSpan_seconds_def TimeSpan_FromDifference_def)

lemma counter_mode: "(ctx_receiptValidationMode counter_context = Receipts_Enabled) = True"
  by (simp add: counter_context_def)

lemma small_sync:
  "\<exists>node' elements'. BlockchainSyncConsumer counter_view 4 counter_handlers small_peer Remote_Pull small_node = Inr (Continue, node')
    \<and> node_ok counts_blocks (ctx_receiptValidationMode counter_context = Receipts_Enabled) node' (take 1 small_chain @ elements')
    \<and> map element_Block elements' = map element_Block small_peer"
proof (rule better_chain [OF _ counter_contracts small_peer_checked])
  show "node_ok counts_blocks (ctx_receiptValidationMode counter_context = Receipts_Enabled) small_node small_chain"
    using small_node_ok by (simp only: counter_mode)
  show "\<forall>d. counts_blocks (map strip (take 1 small_chain)) d \<longrightarrow> (\<exists>elements' d'.
      BlockchainProcessor counter_context (strip (small_chain ! (1 - 1))) small_peer d = Inr (Success, elements', d')
      \<and> check_importance_link 4 (sync_storage small_node) elements' = Inr True)"
    using counter_accepts [of "map strip (take 1 small_chain)"] by (simp add: small_chain_def)
qed (simp_all add: small_scores [unfolded One_nat_def], simp_all add: small_peer_def small_chain_def small_block_def counter_handlers_def)

theorem sync_switches_chain_witness:
  "\<exists>node' common elements'. BlockchainSyncConsumer counter_view 4 counter_handlers small_peer Remote_Pull small_node = Inr (Continue, node')
    \<and> node_ok counts_blocks (ctx_receiptValidationMode counter_context = Receipts_Enabled) node' (take common small_chain @ elements')
    \<and> map element_Block elements' = map element_Block small_peer \<and> 0 < common \<and> common \<le> 2"
proof -
  obtain node' where run: "BlockchainSyncConsumer counter_view 4 counter_handlers small_peer Remote_Pull small_node = Inr (Continue, node')"
    using small_sync by blast
  have node: "node_ok counts_blocks (ctx_receiptValidationMode counter_context = Receipts_Enabled) small_node small_chain"
    using small_node_ok by (simp only: counter_mode)
  have received: "\<forall>e \<in> set small_peer. element_OptionalStatement e = None" by (simp add: small_peer_def small_block_def)
  have len: "length small_chain + length small_peer < 2 ^ 64 - 1" "length small_chain = 2" by (simp_all add: small_chain_def small_peer_def)
  show ?thesis
    using sync_switches_chain [OF node counter_contracts small_peer_checked received len(1) run] run unfolding len(2) by blast
qed

theorem better_chain_adopted_witness:
  "\<exists>node' elements'. BlockchainSyncConsumer counter_view 4 counter_handlers small_peer Remote_Pull small_node = Inr (Continue, node')
    \<and> node_ok counts_blocks (ctx_receiptValidationMode counter_context = Receipts_Enabled) node' (take 1 small_chain @ elements')
    \<and> map element_Block elements' = map element_Block small_peer"
proof (rule better_chain_adopted [OF _ counter_contracts small_peer_checked])
  show "node_ok counts_blocks (ctx_receiptValidationMode counter_context = Receipts_Enabled) small_node small_chain"
    using small_node_ok by (simp only: counter_mode)
  show "\<forall>d. counts_blocks (map strip (take 1 small_chain)) d \<longrightarrow> (\<exists>elements' d'.
      BlockchainProcessor counter_context (strip (small_chain ! (1 - 1))) small_peer d = Inr (Success, elements', d')
      \<and> check_importance_link 4 (sync_storage small_node) elements' = Inr True)"
    using counter_accepts [of "map strip (take 1 small_chain)"] by (simp add: small_chain_def)
qed (simp_all add: small_scores [unfolded One_nat_def], simp_all add: small_peer_def small_chain_def small_block_def counter_handlers_def)

end
