(* ===== verification/Account_State.thy ===== *)
theory Account_State
  imports Account_Balances Array_Stack
begin

text \<open>
  The state of an account and its history (\<^verbatim>\<open>catapult/state/AccountPublicKeys.cpp\<close>, \<^verbatim>\<open>AccountState.cpp\<close>,
  \<^verbatim>\<open>HeightIndexedHistoryMap.h\<close>, \<^verbatim>\<open>AccountHistory.cpp\<close>, \<^verbatim>\<open>catapult/model/PinnedVotingKey.cpp\<close>) and the high value accounts
  that the account state cache keeps (\<^verbatim>\<open>catapult/cache_core/HighValueAccounts.cpp\<close>): which accounts may harvest, and the
  balances and voting keys that the finalization takes its voters from.
\<close>

section \<open>Public keys of an account\<close>

type_synonym FinalizationEpoch = u32
type_synonym VotingKey = Key
type_synonym VrfPublicKey = Key

record PinnedVotingKey =
  pvk_VotingKey :: VotingKey
  pvk_StartEpoch :: FinalizationEpoch
  pvk_EndEpoch :: FinalizationEpoch

definition zero_key :: Key where
  "zero_key = replicate 32 0"

definition ContainsEpoch :: "PinnedVotingKey \<Rightarrow> FinalizationEpoch \<Rightarrow> bool" where
  "ContainsEpoch key epoch \<longleftrightarrow> pvk_StartEpoch key \<le> epoch \<and> epoch \<le> pvk_EndEpoch key"

definition FindVotingPublicKeyForEpoch :: "PinnedVotingKey list \<Rightarrow> FinalizationEpoch \<Rightarrow> VotingKey" where
  "FindVotingPublicKeyForEpoch pinnedPublicKeys epoch =
    (case find (\<lambda>key. pvk_StartEpoch key \<le> epoch \<and> epoch \<le> pvk_EndEpoch key) pinnedPublicKeys of
      Some key \<Rightarrow> pvk_VotingKey key | None \<Rightarrow> zero_key)"

text \<open>\<^verbatim>\<open>PublicKeyAccessor\<close>: a key behind a pointer.\<close>

type_synonym PublicKeyAccessor = "Key option"

definition accessor_bool :: "PublicKeyAccessor \<Rightarrow> bool" where
  "accessor_bool a \<longleftrightarrow> (case a of None \<Rightarrow> False | Some key \<Rightarrow> zero_key \<noteq> key)"

definition accessor_get :: "PublicKeyAccessor \<Rightarrow> Key" where
  "accessor_get a = (case a of None \<Rightarrow> zero_key | Some key \<Rightarrow> key)"

definition accessor_set :: "Key \<Rightarrow> PublicKeyAccessor \<Rightarrow> PublicKeyAccessor result" where
  "accessor_set key a = (if a \<noteq> None then Inl invalid_argument else Inr (Some key))"

definition accessor_unset :: "PublicKeyAccessor \<Rightarrow> PublicKeyAccessor" where
  "accessor_unset a = None"

text \<open>\<^verbatim>\<open>PublicKeysAccessor\<close>: the vector of pinned voting keys behind a pointer; \<^verbatim>\<open>back()\<close> of an empty vector is undefined.\<close>

type_synonym PublicKeysAccessor = "PinnedVotingKey list option"

definition accessor_size :: "PublicKeysAccessor \<Rightarrow> nat" where
  "accessor_size a = (case a of None \<Rightarrow> 0 | Some pks \<Rightarrow> length pks)"

definition accessor_upperBound :: "PublicKeysAccessor \<Rightarrow> FinalizationEpoch result" where
  "accessor_upperBound a = (case a of None \<Rightarrow> Inr 0 | Some pks \<Rightarrow>
    if pks = [] then Inl undefined_behaviour else Inr (pvk_EndEpoch (last pks)))"

fun index_of :: "('a \<Rightarrow> bool) \<Rightarrow> 'a list \<Rightarrow> nat option" where
  "index_of P [] = None"
| "index_of P (x # xs) = (if P x then Some 0 else map_option Suc (index_of P xs))"

definition accessor_contains :: "PublicKeysAccessor \<Rightarrow> FinalizationEpoch \<Rightarrow> nat option" where
  "accessor_contains a epoch = (case a of None \<Rightarrow> None | Some pks \<Rightarrow> index_of (\<lambda>key. ContainsEpoch key epoch) pks)"

definition accessor_containsExact :: "PublicKeysAccessor \<Rightarrow> PinnedVotingKey \<Rightarrow> bool" where
  "accessor_containsExact a key = (case a of None \<Rightarrow> False | Some pks \<Rightarrow> index_of (\<lambda>k. k = key) pks \<noteq> None)"

definition accessor_getAll :: "PublicKeysAccessor \<Rightarrow> PinnedVotingKey list" where
  "accessor_getAll a = (case a of None \<Rightarrow> [] | Some pks \<Rightarrow> pks)"

definition EnsureNoOverlap :: "PinnedVotingKey list \<Rightarrow> PinnedVotingKey \<Rightarrow> unit result" where
  "EnsureNoOverlap pks key =
    (if list_ex (\<lambda>existingKey. ContainsEpoch key (pvk_StartEpoch existingKey) \<or> ContainsEpoch key (pvk_EndEpoch existingKey)
        \<or> ContainsEpoch existingKey (pvk_StartEpoch key)) pks
     then Inl invalid_argument else Inr ())"

definition insert_before :: "('a \<Rightarrow> bool) \<Rightarrow> 'a \<Rightarrow> 'a list \<Rightarrow> 'a list" where
  "insert_before P x xs = takeWhile (\<lambda>y. \<not> P y) xs @ x # dropWhile (\<lambda>y. \<not> P y) xs"

definition accessor_add :: "PinnedVotingKey \<Rightarrow> PublicKeysAccessor \<Rightarrow> PublicKeysAccessor result" where
  "accessor_add key a =
    (let pks = accessor_getAll a
     in bind_result (EnsureNoOverlap pks key) (\<lambda>_.
          Inr (Some (insert_before (\<lambda>existingKey. pvk_StartEpoch existingKey > pvk_EndEpoch key) key pks))))"

definition accessor_remove :: "PinnedVotingKey \<Rightarrow> PublicKeysAccessor \<Rightarrow> bool \<times> PublicKeysAccessor" where
  "accessor_remove key a =
    (case a of None \<Rightarrow> (False, a)
     | Some pks \<Rightarrow> (case index_of (\<lambda>k. k = key) pks of None \<Rightarrow> (False, a)
        | Some i \<Rightarrow> (let pks' = take i pks @ drop (Suc i) pks in (True, if pks' = [] then None else Some pks'))))"

record AccountPublicKeys =
  linked :: PublicKeyAccessor
  node_key :: PublicKeyAccessor
  vrf :: PublicKeyAccessor
  voting :: PublicKeysAccessor

definition keys_mask :: "AccountPublicKeys \<Rightarrow> u8" where
  "keys_mask k = or (if accessor_bool (linked k) then 1 else 0)
    (or (if accessor_bool (node_key k) then 2 else 0) (if accessor_bool (vrf k) then 4 else 0))"

section \<open>Grouped heights\<close>

text \<open>\<^verbatim>\<open>catapult/model/HeightGrouping.h\<close>; importance heights are grouped heights.\<close>

definition CalculateGroupedHeight :: "Height \<Rightarrow> u64 \<Rightarrow> Height result" where
  "CalculateGroupedHeight height grouping =
    (if 0 = grouping then Inl invalid_argument
     else let previousHeight = height - 1; groupedHeight = (previousHeight div grouping) * grouping
          in Inr (if groupedHeight < 1 then 1 else groupedHeight))"

section \<open>The account\<close>

datatype AccountType = Unlinked | Main | Remote | Remote_Unlinked

record AccountState =
  as_Address :: Address
  as_AddressHeight :: Height
  as_PublicKey :: Key
  as_PublicKeyHeight :: Height
  as_AccountType :: AccountType
  SupplementalPublicKeys :: AccountPublicKeys
  ImportanceSnapshots :: AccountImportanceSnapshots
  ActivityBuckets :: AccountActivityBuckets
  as_Balances :: AccountBalances

definition AccountState_new :: "Address \<Rightarrow> Height \<Rightarrow> AccountState" where
  "AccountState_new address addressHeight = \<lparr>as_Address = address, as_AddressHeight = addressHeight, as_PublicKey = zero_key,
     as_PublicKeyHeight = 0, as_AccountType = Unlinked,
     SupplementalPublicKeys = \<lparr>linked = None, node_key = None, vrf = None, voting = None\<rparr>,
     ImportanceSnapshots = empty_stack, ActivityBuckets = empty_stack, as_Balances = empty_balances\<rparr>"

fun IsRemote :: "AccountType \<Rightarrow> bool" where
  "IsRemote Remote = True"
| "IsRemote Remote_Unlinked = True"
| "IsRemote _ = False"

definition HasHistoricalInformation :: "AccountState \<Rightarrow> bool" where
  "HasHistoricalInformation accountState \<longleftrightarrow>
    \<not> snapshots_empty (ImportanceSnapshots accountState) \<or> \<not> buckets_empty (ActivityBuckets accountState)"

definition GetLinkedPublicKey :: "AccountState \<Rightarrow> Key" where
  "GetLinkedPublicKey accountState = accessor_get (linked (SupplementalPublicKeys accountState))"

definition RequireAccountType :: "AccountState \<Rightarrow> AccountType \<Rightarrow> unit result" where
  "RequireAccountType accountState requiredAccountType =
    (if requiredAccountType = as_AccountType accountState then Inr () else Inl runtime_error)"

definition AreLinked :: "AccountState \<Rightarrow> AccountState \<Rightarrow> bool" where
  "AreLinked lhs rhs \<longleftrightarrow> GetLinkedPublicKey lhs = as_PublicKey rhs \<and> GetLinkedPublicKey rhs = as_PublicKey lhs"

definition RequireLinkedRemoteAndMainAccounts :: "AccountState \<Rightarrow> AccountState \<Rightarrow> unit result" where
  "RequireLinkedRemoteAndMainAccounts remoteAccountState mainAccountState =
    bind_result (RequireAccountType remoteAccountState Remote) (\<lambda>_.
    bind_result (RequireAccountType mainAccountState Main) (\<lambda>_.
    if AreLinked mainAccountState remoteAccountState then Inr () else Inl runtime_error))"

definition ApplyFeeSurplus :: "MosaicId \<Rightarrow> Amount \<Rightarrow> u64 \<Rightarrow> AccountState \<Rightarrow> AccountState result" where
  "ApplyFeeSurplus mosaicId amount importanceHeight accountState =
    bind_result (credit (as_Balances accountState) mosaicId amount) (\<lambda>balances.
    bind_result (tryUpdate importanceHeight (\<lambda>bucket. bucket\<lparr>TotalFeesPaid := TotalFeesPaid bucket - amount\<rparr>) False
        (ActivityBuckets accountState)) (\<lambda>(_, buckets).
    Inr (accountState\<lparr>as_Balances := balances, ActivityBuckets := buckets\<rparr>)))"

section \<open>Values indexed by height\<close>

text \<open>
  \<^verbatim>\<open>std::map<Height, TValue, std::greater<Height>>\<close>: the entries in descending order of their heights; \<^verbatim>\<open>lower_bound(height)\<close> is the
  first entry at or below the height. \<open>d\<close> is \<^verbatim>\<open>TValue()\<close>.
\<close>

type_synonym 'v history_map = "(Height \<times> 'v) list"

definition history_ok :: "'v history_map \<Rightarrow> bool" where
  "history_ok m \<longleftrightarrow> sorted_wrt (>) (keys m)"

definition history_current :: "'v \<Rightarrow> 'v history_map \<Rightarrow> 'v" where
  "history_current d m = (if m = [] then d else snd (hd m))"

definition history_get :: "'v \<Rightarrow> 'v history_map \<Rightarrow> Height \<Rightarrow> 'v" where
  "history_get d m height = (case dropWhile (\<lambda>(k, _). k > height) m of [] \<Rightarrow> d | (k, v) # _ \<Rightarrow> v)"

definition history_anyOf :: "('v \<Rightarrow> bool) \<Rightarrow> 'v history_map \<Rightarrow> bool" where
  "history_anyOf P m \<longleftrightarrow> list_ex (\<lambda>(_, v). P v) m"

definition history_assign :: "Height \<Rightarrow> 'v \<Rightarrow> 'v history_map \<Rightarrow> 'v history_map" where
  "history_assign height value m = takeWhile (\<lambda>(k, _). k > height) m @ (height, value) # filter (\<lambda>(k, _). k < height) m"

definition history_erase :: "Height \<Rightarrow> 'v history_map \<Rightarrow> 'v history_map" where
  "history_erase height m = filter (\<lambda>(k, _). k \<noteq> height) m"

definition history_add :: "'v \<Rightarrow> Height \<Rightarrow> 'v \<Rightarrow> 'v history_map \<Rightarrow> 'v history_map" where
  "history_add d height value m =
    (let m1 = history_assign height value m;
         larger = takeWhile (\<lambda>(k, _). k > height) m1;
         m2 = (if larger \<noteq> [] \<and> snd (last larger) = value then history_erase (fst (last larger)) m1 else m1)
     in if history_get d m2 (height - 1) = value then history_erase height m2 else m2)"

definition history_pruneLess :: "'v \<Rightarrow> Height \<Rightarrow> 'v history_map \<Rightarrow> 'v history_map" where
  "history_pruneLess d height m =
    (case dropWhile (\<lambda>(k, _). k > height) m of [] \<Rightarrow> m
     | (k, v) # _ \<Rightarrow> history_add d height v (takeWhile (\<lambda>(k, _). k > height) m))"

definition history_pruneGreater :: "Height \<Rightarrow> 'v history_map \<Rightarrow> 'v history_map" where
  "history_pruneGreater height m = dropWhile (\<lambda>(k, _). k > height) m"

subsection \<open>What the map answers\<close>

declare split_paired_All [simp del] split_paired_Ex [simp del]

lemma history_get_simps [simp]:
  "history_get d [] x = d"
  "history_get d ((k, v) # m) x = (if k > x then history_get d m x else v)"
  by (simp_all add: history_get_def)

lemma history_get_skip: "\<forall>k \<in> fst ` set L. k > x \<Longrightarrow> history_get d (L @ R) x = history_get d R x"
  by (induction L) auto

lemma history_get_found: "\<exists>k \<in> fst ` set L. k \<le> x \<Longrightarrow> history_get d (L @ R) x = history_get d (L @ R') x"
  by (induction L) (force simp: not_less)+

lemma history_get_filter: "x < h \<Longrightarrow> history_get d (filter (\<lambda>(k, _). k < h) m) x = history_get d m x"
  by (induction m) auto

lemma history_get_current: "\<forall>k \<in> fst ` set R. k \<le> x \<Longrightarrow> history_get d R x = history_current d R"
  by (cases R) (auto simp: history_current_def not_less)

lemma history_ok_Cons: "history_ok (kv # m) \<longleftrightarrow> history_ok m \<and> (\<forall>k \<in> fst ` set m. k < fst kv)"
  by (auto simp: history_ok_def)

lemma history_ok_append:
  "history_ok (L @ R) \<longleftrightarrow> history_ok L \<and> history_ok R \<and> (\<forall>x \<in> fst ` set L. \<forall>y \<in> fst ` set R. y < x)"
  by (auto simp: history_ok_def sorted_wrt_append)

lemma history_ok_filter: "history_ok m \<Longrightarrow> history_ok (filter P m)"
  by (induction m) (auto simp: history_ok_Cons)

lemma history_take_larger: "history_ok m \<Longrightarrow> takeWhile (\<lambda>(k, _). k > h) m = filter (\<lambda>(k, _). k > h) m"
proof (induction m)
  case (Cons kv m)
  have "filter (\<lambda>(k, _). k > h) m = []" if "\<not> fst kv > h"
    using Cons.prems that by (auto simp: history_ok_Cons filter_empty_conv)
  then show ?case using Cons by (cases kv) (auto simp: history_ok_Cons)
qed simp

text \<open>The entries above the height, the new entry, and the entries below it.\<close>

lemma history_assign_split:
  fixes m :: "'v history_map" and h :: Height
  assumes "history_ok m"
  defines "L \<equiv> filter (\<lambda>(k, _). k > h) m" and "R \<equiv> filter (\<lambda>(k, _). k < h) m"
  shows "history_assign h v m = L @ (h, v) # R" and "history_ok (history_assign h v m)"
    and "takeWhile (\<lambda>(k, _). k > h) (history_assign h v m) = L"
proof -
  show eq: "history_assign h v m = L @ (h, v) # R" using history_take_larger [OF assms(1)] by (simp add: history_assign_def L_def R_def)
  have "history_ok L" "history_ok R" using assms(1) history_ok_filter by (auto simp: L_def R_def)
  then show ok: "history_ok (history_assign h v m)" unfolding eq by (auto simp: history_ok_append history_ok_Cons L_def R_def)
  have "filter (\<lambda>(k, _). k > h) R = []" "filter (\<lambda>(k, _). k > h) L = L" by (auto simp: L_def R_def filter_empty_conv)
  then show "takeWhile (\<lambda>(k, _). k > h) (history_assign h v m) = L"
    unfolding history_take_larger [OF ok] unfolding eq by simp
qed

lemma history_erase_mid: "history_ok (L @ (k, v) # R) \<Longrightarrow> history_erase k (L @ (k, v) # R) = L @ R"
proof -
  assume "history_ok (L @ (k, v) # R)"
  then have "\<forall>p \<in> set L. fst p \<noteq> k" "\<forall>p \<in> set R. fst p \<noteq> k" by (auto simp: history_ok_append history_ok_Cons)
  then have "filter (\<lambda>(k', _). k' \<noteq> k) L = L" "filter (\<lambda>(k', _). k' \<noteq> k) R = R" by (simp_all add: filter_id_conv split_beta)
  then show ?thesis by (simp add: history_erase_def)
qed

text \<open>
  The result of \<^verbatim>\<open>add\<close>: the entry just above the height goes when it has the same value, and the new entry itself when the entry
  below it already has.
\<close>

lemma history_add_split:
  fixes m :: "'v history_map" and h :: Height
  assumes "history_ok m" and "h \<noteq> 0"
  defines "L \<equiv> filter (\<lambda>(k, _). k > h) m" and "R \<equiv> filter (\<lambda>(k, _). k < h) m"
  shows "history_add d h v m
    = (if L \<noteq> [] \<and> snd (last L) = v then butlast L else L) @ (if history_current d R = v then R else (h, v) # R)"
proof -
  note as = history_assign_split [OF assms(1), where h = h and v = v, folded L_def R_def]
  define L' where "L' = (if L \<noteq> [] \<and> snd (last L) = v then butlast L else L)"
  have ok: "history_ok (L @ (h, v) # R)" using as(1,2) by simp
  have ok': "history_ok (L' @ (h, v) # R)"
  proof (cases "L = []")
    case False
    then have "L = butlast L @ [last L]" by simp
    then have "history_ok (butlast L @ [last L] @ (h, v) # R)" using ok by (metis append.assoc)
    then show ?thesis using ok by (auto simp: L'_def history_ok_append)
  qed (use ok in \<open>simp add: L'_def\<close>)
  have er: "history_erase (fst (last L)) (L @ (h, v) # R) = butlast L @ (h, v) # R" if "L \<noteq> []"
  proof -
    have "L @ (h, v) # R = butlast L @ (fst (last L), snd (last L)) # ((h, v) # R)" using that by (simp flip: append_butlast_last_id)
    then show ?thesis using history_erase_mid [of "butlast L" "fst (last L)" "snd (last L)" "(h, v) # R"] ok by metis
  qed
  have m2: "(if L \<noteq> [] \<and> snd (last L) = v then history_erase (fst (last L)) (L @ (h, v) # R) else L @ (h, v) # R) = L' @ (h, v) # R"
    using er by (simp add: L'_def)
  have lt: "h - 1 < h" using assms(2) by (simp add: word_less_nat_alt unat_minus_one unat_gt_0)
  have le: "\<forall>k \<in> fst ` set R. k \<le> h - 1"
  proof
    fix k assume "k \<in> fst ` set R"
    then have "unat k < unat h" by (auto simp: R_def word_less_nat_alt)
    then show "k \<le> h - 1" using assms(2) by (simp add: word_le_nat_alt unat_minus_one)
  qed
  have "\<forall>k \<in> fst ` set L'. k > h - 1" using ok' lt by (auto simp: history_ok_append history_ok_Cons intro: less_trans)
  then have "history_get d (L' @ (h, v) # R) (h - 1) = history_current d R"
    using history_get_skip [of L' "h - 1" d "(h, v) # R"] history_get_current [OF le] lt by simp
  then show ?thesis
    unfolding history_add_def Let_def as(1) as(3) [unfolded as(1)] m2 L'_def [symmetric] using history_erase_mid [OF ok'] by simp
qed

lemma history_ok_butlast: "history_ok m \<Longrightarrow> history_ok (butlast m)"
  by (cases m rule: rev_cases) (simp_all add: history_ok_append)

lemma history_add_ok: "history_ok m \<Longrightarrow> h \<noteq> 0 \<Longrightarrow> history_ok (history_add d h v m)"
proof -
  assume assms: "history_ok m" "h \<noteq> 0"
  define L where "L = filter (\<lambda>(k, _). k > h) m"
  define R where "R = filter (\<lambda>(k, _). k < h) m"
  have "history_ok L" "history_ok R" "\<forall>k \<in> fst ` set L. h < k" "\<forall>k \<in> fst ` set R. k < h"
    using assms history_ok_filter by (auto simp: L_def R_def)
  moreover have "\<forall>k \<in> fst ` set (butlast L). h < k" using calculation(3) by (auto dest: in_set_butlastD)
  ultimately have "history_ok ((if L \<noteq> [] \<and> snd (last L) = v then butlast L else L) @ (if history_current d R = v then R else (h, v) # R))"
    using history_ok_butlast [of L] by (auto simp: history_ok_append history_ok_Cons intro: less_trans)
  then show ?thesis unfolding history_add_split [OF assms] L_def [symmetric] R_def [symmetric] .
qed

lemma history_get_larger:
  assumes "history_ok m" and "\<exists>k \<in> fst ` set m. h < k \<and> k \<le> x"
  shows "history_get d m x = history_get d (filter (\<lambda>(k, _). k > h) m) x"
proof -
  define L where "L = filter (\<lambda>(k, _). k > h) m"
  have "m = L @ dropWhile (\<lambda>(k, _). k > h) m" using history_take_larger [OF assms(1), of h] by (metis L_def takeWhile_dropWhile_id)
  moreover have "\<exists>k \<in> fst ` set L. k \<le> x" using assms(2) by (auto simp: L_def)
  ultimately show ?thesis using history_get_found [of L x d "dropWhile (\<lambda>(k, _). k > h) m" "[]"] by (simp add: L_def)
qed

lemma history_add_get:
  assumes "history_ok m" and "h \<noteq> 0"
  shows "history_get d (history_add d h v m) x
    = (if h \<le> x \<and> \<not> (\<exists>k \<in> fst ` set m. h < k \<and> k \<le> x) then v else history_get d m x)"
proof -
  define L where "L = filter (\<lambda>(k, _). k > h) m"
  define R where "R = filter (\<lambda>(k, _). k < h) m"
  define L' where "L' = (if L \<noteq> [] \<and> snd (last L) = v then butlast L else L)"
  define R' where "R' = (if history_current d R = v then R else (h, v) # R)"
  have add: "history_add d h v m = L' @ R'"
    unfolding history_add_split [OF assms] L_def [symmetric] R_def [symmetric] L'_def [symmetric] R'_def [symmetric] ..
  have okL: "history_ok L" using assms(1) history_ok_filter by (simp add: L_def)
  have gtL: "\<forall>k \<in> fst ` set L'. k > h" by (auto simp: L'_def L_def dest: in_set_butlastD)
  have keyL: "k \<in> fst ` set L \<longleftrightarrow> k \<in> fst ` set m \<and> h < k" for k by (auto simp: L_def)
  have R': "history_get d R' x = v" if "h \<le> x" for x
  proof -
    have "\<forall>k \<in> fst ` set R. k \<le> x" using that by (auto simp: R_def)
    then show ?thesis using history_get_current [of R x d] that by (auto simp: R'_def)
  qed
  show ?thesis
  proof (cases "h \<le> x")
    case False
    then have "\<forall>k \<in> fst ` set L'. k > x" using gtL by auto
    then have "history_get d (history_add d h v m) x = history_get d R' x" using history_get_skip add by metis
    also have "\<dots> = history_get d R x" using False by (auto simp: R'_def)
    also have "\<dots> = history_get d m x" using history_get_filter [of x h d m] False by (simp add: R_def)
    finally show ?thesis using False by simp
  next
    case True
    show ?thesis
    proof (cases "\<exists>k \<in> fst ` set m. h < k \<and> k \<le> x")
      case False
      moreover have "fst ` set L' \<subseteq> fst ` set L" by (auto simp: L'_def dest: in_set_butlastD)
      ultimately have "\<forall>k \<in> fst ` set L'. k > x" using keyL by (meson not_less subsetD)
      then show ?thesis using False True R' history_get_skip [of L' x d R'] by (simp add: add)
    next
      case larger: True
      have m: "history_get d m x = history_get d L x" using history_get_larger [OF assms(1) larger] by (simp add: L_def)
      have ex: "\<exists>k \<in> fst ` set L. k \<le> x" using larger keyL by blast
      have "history_get d (L' @ R') x = history_get d L x"
      proof (cases "\<exists>k \<in> fst ` set L'. k \<le> x")
        case True
        have "history_get d (L' @ R') x = history_get d (L' @ (if L' = L then [] else [last L])) x"
          using history_get_found [OF True] .
        also have "L' @ (if L' = L then [] else [last L]) = L" by (auto simp: L'_def)
        finally show ?thesis .
      next
        case False
        then have L: "L = L' @ [last L]" "snd (last L) = v" using ex by (auto simp: L'_def split: if_splits)
        have "set L = insert (last L) (set L')" by (subst L(1)) simp
        then have "fst (last L) \<le> x" using False ex by auto
        have skip: "\<forall>k \<in> fst ` set L'. k > x" using False by auto
        have "history_get d L x = history_get d [last L] x" using history_get_skip [OF skip, of d "[last L]"] L(1) by metis
        also have "\<dots> = v" using L(2) \<open>fst (last L) \<le> x\<close> by (cases "last L") auto
        finally show ?thesis using history_get_skip [OF skip] R' [OF \<open>h \<le> x\<close>] by simp
      qed
      then show ?thesis using larger add m by simp
    qed
  qed
qed

lemma history_drop_smaller: "history_ok m \<Longrightarrow> dropWhile (\<lambda>(k, _). k > h) m = filter (\<lambda>(k, _). k \<le> h) m"
proof (induction m)
  case (Cons kv m)
  have "filter (\<lambda>(k, _). k \<le> h) m = m" if "\<not> fst kv > h"
    using Cons.prems that by (auto simp: history_ok_Cons filter_id_conv split_beta not_less)
  then show ?case using Cons by (cases kv) (auto simp: history_ok_Cons)
qed simp

lemma history_pruneLess_get:
  assumes "history_ok m" and "h \<noteq> 0" and "h \<le> x"
  shows "history_get d (history_pruneLess d h m) x = history_get d m x"
proof (cases "dropWhile (\<lambda>(k, _). k > h) m")
  case (Cons kv R)
  obtain k v where kv: "kv = (k, v)" by (cases kv)
  define L where "L = takeWhile (\<lambda>(k, _). k > h) m"
  have m: "m = L @ (k, v) # R" using Cons kv by (metis L_def takeWhile_dropWhile_id)
  have k: "k \<le> h" using Cons kv hd_dropWhile [of "\<lambda>(k, _). k > h" m] by auto
  have okL: "history_ok L" using assms(1) m by (simp add: history_ok_append)
  have gt: "\<forall>a \<in> fst ` set L. h < a" by (auto simp: L_def dest: set_takeWhileD)
  have "history_get d (history_pruneLess d h m) x = history_get d (history_add d h v L) x"
    using Cons kv by (simp add: history_pruneLess_def L_def)
  also have "\<dots> = (if \<exists>a \<in> fst ` set L. a \<le> x then history_get d L x else v)"
    using history_add_get [OF okL assms(2), of d v x] assms(3) gt by auto
  also have "\<dots> = history_get d m x"
  proof (cases "\<exists>a \<in> fst ` set L. a \<le> x")
    case True
    then show ?thesis using history_get_found [of L x d "[]" "(k, v) # R"] m by simp
  next
    case False
    then have "\<forall>a \<in> fst ` set L. a > x" by auto
    then show ?thesis using False history_get_skip [of L x d "(k, v) # R"] m k assms(3) by auto
  qed
  finally show ?thesis .
next
  case Nil
  then show ?thesis unfolding history_pruneLess_def Nil by simp
qed

lemma history_pruneLess_ok: "history_ok m \<Longrightarrow> h \<noteq> 0 \<Longrightarrow> history_ok (history_pruneLess d h m)"
  using history_ok_filter [of m] by (auto simp: history_pruneLess_def history_take_larger history_add_ok split: list.splits)

lemma history_pruneGreater_get:
  assumes "history_ok m"
  shows "history_get d (history_pruneGreater h m) x = history_get d m (min x h)"
proof -
  have "history_get d (dropWhile (\<lambda>(k, _). k > h) m) x = history_get d m (min x h)"
  proof (cases "x \<le> h")
    case True
    then show ?thesis by (induction m) (auto simp: min_def)
  next
    case False
    then have "\<forall>k \<in> fst ` set (dropWhile (\<lambda>(k, _). k > h) m). k \<le> x \<and> k \<le> h"
      unfolding history_drop_smaller [OF assms] by auto
    then have "history_get d (dropWhile (\<lambda>(k, _). k > h) m) x = history_get d (dropWhile (\<lambda>(k, _). k > h) m) h"
      using history_get_current [of "dropWhile (\<lambda>(k, _). k > h) m"] by metis
    also have "\<dots> = history_get d m h" by (induction m) auto
    finally show ?thesis using False by (simp add: min_def)
  qed
  then show ?thesis by (simp add: history_pruneGreater_def)
qed

section \<open>The history of an account\<close>

record AccountHistory =
  ah_balance :: "Amount history_map"
  ah_vrfPublicKey :: "VrfPublicKey history_map"
  ah_votingPublicKeys :: "PinnedVotingKey list history_map"

definition AccountHistory_new :: AccountHistory where
  "AccountHistory_new = \<lparr>ah_balance = [], ah_vrfPublicKey = [], ah_votingPublicKeys = []\<rparr>"

definition anyAtLeast :: "Amount \<Rightarrow> AccountHistory \<Rightarrow> bool" where
  "anyAtLeast minAmount h = history_anyOf (\<lambda>amount. minAmount \<le> amount) (ah_balance h)"

definition ah_addBalance :: "Height \<Rightarrow> Amount \<Rightarrow> AccountHistory \<Rightarrow> AccountHistory" where
  "ah_addBalance height balance h = h\<lparr>ah_balance := history_add 0 height balance (ah_balance h)\<rparr>"

definition ah_addVrf :: "Height \<Rightarrow> VrfPublicKey \<Rightarrow> AccountHistory \<Rightarrow> AccountHistory" where
  "ah_addVrf height key h = h\<lparr>ah_vrfPublicKey := history_add zero_key height key (ah_vrfPublicKey h)\<rparr>"

definition ah_addVoting :: "Height \<Rightarrow> PinnedVotingKey list \<Rightarrow> AccountHistory \<Rightarrow> AccountHistory" where
  "ah_addVoting height pks h = h\<lparr>ah_votingPublicKeys := history_add [] height pks (ah_votingPublicKeys h)\<rparr>"

definition ah_pruneLess :: "Height \<Rightarrow> AccountHistory \<Rightarrow> AccountHistory" where
  "ah_pruneLess height h = \<lparr>ah_balance = history_pruneLess 0 height (ah_balance h),
     ah_vrfPublicKey = history_pruneLess zero_key height (ah_vrfPublicKey h),
     ah_votingPublicKeys = history_pruneLess [] height (ah_votingPublicKeys h)\<rparr>"

definition ah_pruneGreater :: "Height \<Rightarrow> AccountHistory \<Rightarrow> AccountHistory" where
  "ah_pruneGreater height h = \<lparr>ah_balance = history_pruneGreater height (ah_balance h),
     ah_vrfPublicKey = history_pruneGreater height (ah_vrfPublicKey h),
     ah_votingPublicKeys = history_pruneGreater height (ah_votingPublicKeys h)\<rparr>"

section \<open>High value accounts\<close>

text \<open>
  The sets of addresses and the map of histories are unordered containers, a set and a map of HOL. The accounts of a delta come as
  lists, in any order.
\<close>

type_synonym AddressAccountHistoryMap = "Address \<rightharpoonup> AccountHistory"

record HighValueAccounts =
  hva_addresses :: "Address set"
  hva_removedAddresses :: "Address set"
  hva_accountHistories :: AddressAccountHistoryMap

record AccountCacheOptions =
  opt_NetworkIdentifier :: u8
  opt_ImportanceGrouping :: u64
  opt_VotingSetGrouping :: u64
  opt_MinHarvesterBalance :: Amount
  opt_MaxHarvesterBalance :: Amount
  opt_MinVoterBalance :: Amount
  opt_CurrencyMosaicId :: MosaicId
  opt_HarvestingMosaicId :: MosaicId

record AccountDeltas =
  delta_Added :: "AccountState list"
  delta_Removed :: "AccountState list"
  delta_Copied :: "AccountState list"

record HighValueAccountsUpdater =
  hvu_options :: AccountCacheOptions
  hvu_original :: "Address set"
  hvu_current :: "Address set"
  hvu_removed :: "Address set"
  hvu_accountHistories :: AddressAccountHistoryMap
  hvu_height :: Height

definition HighValueAccountsUpdater_new :: "AccountCacheOptions \<Rightarrow> HighValueAccounts \<Rightarrow> HighValueAccountsUpdater" where
  "HighValueAccountsUpdater_new options accounts = \<lparr>hvu_options = options, hvu_original = hva_addresses accounts,
     hvu_current = hva_addresses accounts, hvu_removed = hva_removedAddresses accounts,
     hvu_accountHistories = hva_accountHistories accounts, hvu_height = 1\<rparr>"

definition hvu_setHeight :: "Height \<Rightarrow> HighValueAccountsUpdater \<Rightarrow> HighValueAccountsUpdater" where
  "hvu_setHeight height u = u\<lparr>hvu_height := height\<rparr>"

definition hvu_setRemovedAddresses :: "Address set \<Rightarrow> HighValueAccountsUpdater \<Rightarrow> HighValueAccountsUpdater" where
  "hvu_setRemovedAddresses removedAddresses u = u\<lparr>hvu_removed := removedAddresses\<rparr>"

definition map_erase_if :: "('v \<Rightarrow> bool) \<Rightarrow> ('k \<rightharpoonup> 'v) \<Rightarrow> ('k \<rightharpoonup> 'v)" where
  "map_erase_if P m k = (case m k of None \<Rightarrow> None | Some v \<Rightarrow> if P v then None else Some v)"

definition hvu_prune :: "Height \<Rightarrow> HighValueAccountsUpdater \<Rightarrow> HighValueAccountsUpdater" where
  "hvu_prune height u = u\<lparr>hvu_accountHistories :=
     map_erase_if (\<lambda>h. \<not> anyAtLeast (opt_MinVoterBalance (hvu_options u)) h) (\<lambda>a. map_option (ah_pruneLess height) (hvu_accountHistories u a))\<rparr>"

definition hvu_detachAccounts :: "HighValueAccountsUpdater \<Rightarrow> HighValueAccounts \<times> HighValueAccountsUpdater" where
  "hvu_detachAccounts u =
    (\<lparr>hva_addresses = hvu_current u, hva_removedAddresses = hvu_removed u, hva_accountHistories = hvu_accountHistories u\<rparr>,
     u\<lparr>hvu_current := {}, hvu_removed := {}, hvu_accountHistories := (\<lambda>_. None)\<rparr>)"

definition EffectiveBalanceRetriever :: "MosaicId \<Rightarrow> Amount \<Rightarrow> AccountState \<Rightarrow> Amount \<times> bool" where
  "EffectiveBalanceRetriever harvestingMosaicId minBalance accountState =
    (let balance = balance_get (as_Balances accountState) harvestingMosaicId in (balance, balance \<ge> minBalance))"

subsection \<open>Harvesting accounts\<close>

record HighValueAccountDescriptor =
  IsHighValue :: bool
  hvd_HasHistoricalInformation :: bool

definition hv_updateAddress :: "Address \<Rightarrow> HighValueAccountDescriptor \<Rightarrow> HighValueAccountsUpdater \<Rightarrow> HighValueAccountsUpdater" where
  "hv_updateAddress address descriptor u =
    (if IsHighValue descriptor
     then u\<lparr>hvu_current := insert address (hvu_current u), hvu_removed := hvu_removed u - {address}\<rparr>
     else u\<lparr>hvu_current := hvu_current u - {address},
       hvu_removed := (if address \<in> hvu_original u \<or> hvd_HasHistoricalInformation descriptor
         then insert address (hvu_removed u) else hvu_removed u)\<rparr>)"

definition hv_updateAddresses :: "(AccountState \<Rightarrow> HighValueAccountDescriptor) \<Rightarrow> AccountState list \<Rightarrow> HighValueAccountsUpdater \<Rightarrow> HighValueAccountsUpdater" where
  "hv_updateAddresses calculator source u = fold (\<lambda>s. hv_updateAddress (as_Address s) (calculator s)) source u"

definition updateHarvestingAccounts :: "AccountDeltas \<Rightarrow> HighValueAccountsUpdater \<Rightarrow> HighValueAccountsUpdater" where
  "updateHarvestingAccounts deltas u =
    (let hasHighValue = (\<lambda>s. \<lparr>IsHighValue = snd (EffectiveBalanceRetriever (opt_HarvestingMosaicId (hvu_options u))
             (opt_MinHarvesterBalance (hvu_options u)) s), hvd_HasHistoricalInformation = HasHistoricalInformation s\<rparr>)
     in hv_updateAddresses (\<lambda>_. \<lparr>IsHighValue = False, hvd_HasHistoricalInformation = False\<rparr>) (delta_Removed deltas)
          (hv_updateAddresses hasHighValue (delta_Copied deltas) (hv_updateAddresses hasHighValue (delta_Added deltas) u)))"

subsection \<open>Voting accounts\<close>

definition hv_updateBalance :: "Height \<Rightarrow> AccountState \<Rightarrow> Amount \<times> bool \<Rightarrow> AddressAccountHistoryMap \<Rightarrow> AddressAccountHistoryMap" where
  "hv_updateBalance height s effectiveBalancePair m =
    (let m1 = (if m (as_Address s) = None \<and> snd effectiveBalancePair then m(as_Address s \<mapsto> AccountHistory_new) else m)
     in case m1 (as_Address s) of None \<Rightarrow> m1
        | Some h \<Rightarrow> m1(as_Address s \<mapsto>
            ah_addVoting height (accessor_getAll (voting (SupplementalPublicKeys s)))
              (ah_addVrf height (accessor_get (vrf (SupplementalPublicKeys s))) (ah_addBalance height (fst effectiveBalancePair) h))))"

definition hv_updateBalances :: "Height \<Rightarrow> (AccountState \<Rightarrow> Amount \<times> bool) \<Rightarrow> AccountState list \<Rightarrow> AddressAccountHistoryMap \<Rightarrow> AddressAccountHistoryMap" where
  "hv_updateBalances height calculator source m = fold (\<lambda>s. hv_updateBalance height s (calculator s)) source m"

definition voterBalanceCalculator :: "AccountCacheOptions \<Rightarrow> AccountState \<Rightarrow> Amount \<times> bool" where
  "voterBalanceCalculator options s =
    (if 0 \<noteq> accessor_size (voting (SupplementalPublicKeys s))
     then let balancePair = EffectiveBalanceRetriever (opt_HarvestingMosaicId options) (opt_MinVoterBalance options) s
          in if snd balancePair then balancePair else (0, False)
     else (0, False))"

definition updateVotingAccounts :: "AccountDeltas \<Rightarrow> HighValueAccountsUpdater \<Rightarrow> HighValueAccountsUpdater" where
  "updateVotingAccounts deltas u =
    (let calculator = voterBalanceCalculator (hvu_options u);
         m1 = (\<lambda>a. map_option (ah_pruneGreater (hvu_height u)) (hvu_accountHistories u a));
         m2 = hv_updateBalances (hvu_height u) calculator (delta_Added deltas) m1;
         m3 = hv_updateBalances (hvu_height u) calculator (delta_Copied deltas) m2;
         m4 = hv_updateBalances (hvu_height u) (\<lambda>_. (0, False)) (delta_Removed deltas) m3
     in u\<lparr>hvu_accountHistories := map_erase_if (\<lambda>h. \<not> anyAtLeast (opt_MinVoterBalance (hvu_options u)) h) m4\<rparr>)"

definition hvu_update :: "AccountDeltas \<Rightarrow> HighValueAccountsUpdater \<Rightarrow> HighValueAccountsUpdater" where
  "hvu_update deltas u = updateVotingAccounts deltas (updateHarvestingAccounts deltas u)"

section \<open>The voters at a height\<close>

text \<open>The voting balance of an address at a height, as the finalization reads it.\<close>

definition voting_balance :: "AddressAccountHistoryMap \<Rightarrow> Address \<Rightarrow> Height \<Rightarrow> Amount" where
  "voting_balance m a x = (case m a of None \<Rightarrow> 0 | Some h \<Rightarrow> history_get 0 (ah_balance h) x)"

text \<open>The histories keep their order, and a balance that does not suffice to vote is recorded as zero.\<close>

definition voters_ok :: "Amount \<Rightarrow> AddressAccountHistoryMap \<Rightarrow> bool" where
  "voters_ok minBalance m \<longleftrightarrow> (\<forall>a h. m a = Some h \<longrightarrow>
    history_ok (ah_balance h) \<and> (\<forall>v \<in> snd ` set (ah_balance h). v = 0 \<or> minBalance \<le> v))"

lemma history_get_zero: "\<forall>v \<in> snd ` set m. v = d \<Longrightarrow> history_get d m x = d"
  by (induction m) auto

lemma history_add_entries:
  assumes "history_ok m" and "h \<noteq> 0"
  shows "set (history_add d h v m) \<subseteq> insert (h, v) (set m)"
proof -
  have "set (butlast (filter P m)) \<subseteq> set m" for P by (auto dest!: in_set_butlastD)
  then show ?thesis unfolding history_add_split [OF assms] by (auto split: if_splits)
qed

lemma voting_balance_erase:
  assumes "voters_ok minBalance m"
  shows "voting_balance (map_erase_if (\<lambda>h. \<not> anyAtLeast minBalance h) m) a x = voting_balance m a x"
    and "voters_ok minBalance (map_erase_if (\<lambda>h. \<not> anyAtLeast minBalance h) m)"
proof -
  show "voting_balance (map_erase_if (\<lambda>h. \<not> anyAtLeast minBalance h) m) a x = voting_balance m a x"
  proof (cases "m a")
    case (Some h)
    have "\<forall>v \<in> snd ` set (ah_balance h). v = 0" if "\<not> anyAtLeast minBalance h"
      using that assms Some by (fastforce simp: anyAtLeast_def history_anyOf_def list_ex_iff voters_ok_def)
    then show ?thesis using Some history_get_zero [of "ah_balance h" 0 x] by (auto simp: voting_balance_def map_erase_if_def)
  qed (simp add: voting_balance_def map_erase_if_def)
  show "voters_ok minBalance (map_erase_if (\<lambda>h. \<not> anyAtLeast minBalance h) m)"
    using assms by (auto simp: voters_ok_def map_erase_if_def split: option.splits if_splits)
qed

text \<open>All entries at or below a height, as after \<^verbatim>\<open>pruneGreater\<close>.\<close>

definition voters_upto :: "Height \<Rightarrow> AddressAccountHistoryMap \<Rightarrow> bool" where
  "voters_upto height m \<longleftrightarrow> (\<forall>a h. m a = Some h \<longrightarrow> (\<forall>k \<in> fst ` set (ah_balance h). k \<le> height))"

lemma pruneGreater_voters:
  fixes height :: Height
  assumes "voters_ok minBalance m"
  defines "m' \<equiv> \<lambda>a. map_option (ah_pruneGreater height) (m a)"
  shows "voters_ok minBalance m'" and "voters_upto height m'" and "voting_balance m' a x = voting_balance m a (min x height)"
proof -
  have ok: "history_ok (ah_balance h)" if "m a = Some h" for a h using assms(1) that by (auto simp: voters_ok_def)
  have eq: "ah_balance (ah_pruneGreater height h) = filter (\<lambda>(k, _). k \<le> height) (ah_balance h)" if "m a = Some h" for a h
    using history_drop_smaller [OF ok [OF that]] by (simp add: ah_pruneGreater_def history_pruneGreater_def)
  show "voters_ok minBalance m'" using assms(1) history_ok_filter by (fastforce simp: voters_ok_def m'_def eq)
  show "voters_upto height m'" by (auto simp: voters_upto_def m'_def eq)
  show "voting_balance m' a x = voting_balance m a (min x height)"
    using history_pruneGreater_get [OF ok, of a _ 0 height x]
    by (auto simp: voting_balance_def m'_def ah_pruneGreater_def split: option.splits)
qed

lemma updateBalance_voters:
  fixes s :: AccountState
  assumes "voters_ok minBalance m" and "voters_upto height m" and "height \<noteq> 0"
    and pair: "fst p = 0 \<or> minBalance \<le> fst p" "\<not> snd p \<longrightarrow> fst p = 0"
  defines "m' \<equiv> hv_updateBalance height s p m"
  shows "voters_ok minBalance m'" and "voters_upto height m'"
    and "voting_balance m' a x = (if a = as_Address s \<and> height \<le> x then fst p else voting_balance m a x)"
proof -
  have get: "history_get 0 (history_add 0 height v b) x = (if height \<le> x then v else history_get 0 b x)"
    if "history_ok b" "\<forall>k \<in> fst ` set b. k \<le> height" for b and v :: Amount
    using history_add_get [OF that(1) assms(3), of 0 v x] that(2) by (auto simp: not_less [symmetric])
  define h where "h = (case m (as_Address s) of None \<Rightarrow> AccountHistory_new | Some h \<Rightarrow> h)"
  have h: "history_ok (ah_balance h)" "\<forall>v \<in> snd ` set (ah_balance h). v = 0 \<or> minBalance \<le> v" "\<forall>k \<in> fst ` set (ah_balance h). k \<le> height"
    using assms(1,2) by (auto simp: h_def voters_ok_def voters_upto_def AccountHistory_new_def history_ok_def split: option.splits)
  have split: "m' = m \<and> m (as_Address s) = None \<and> fst p = 0
    \<or> (\<exists>h'. m' = m(as_Address s \<mapsto> h') \<and> ah_balance h' = history_add 0 height (fst p) (ah_balance h))"
    using pair(2) by (cases "m (as_Address s)")
      (auto simp: m'_def hv_updateBalance_def Let_def h_def ah_addVoting_def ah_addVrf_def ah_addBalance_def)
  have "\<forall>e \<in> set (history_add 0 height (fst p) (ah_balance h)). fst e \<le> height \<and> (snd e = 0 \<or> minBalance \<le> snd e)"
    using history_add_entries [OF h(1) assms(3), of 0 "fst p"] h(2,3) pair(1) by fastforce
  then have new: "history_ok (history_add 0 height (fst p) (ah_balance h))"
    "\<forall>v \<in> snd ` set (history_add 0 height (fst p) (ah_balance h)). v = 0 \<or> minBalance \<le> v"
    and up: "\<forall>k \<in> fst ` set (history_add 0 height (fst p) (ah_balance h)). k \<le> height"
    using history_add_ok [OF h(1) assms(3)] by auto
  have cur: "history_get 0 (ah_balance h) x = voting_balance m (as_Address s) x"
    by (simp add: voting_balance_def h_def AccountHistory_new_def split: option.splits)
  show "voters_ok minBalance m'" using split assms(1) new by (fastforce simp: voters_ok_def split: if_splits)
  show "voters_upto height m'" using split assms(2) up by (fastforce simp: voters_upto_def split: if_splits)
  show "voting_balance m' a x = (if a = as_Address s \<and> height \<le> x then fst p else voting_balance m a x)"
    using split get [OF h(1) h(3), of "fst p"] cur by (auto simp: voting_balance_def)
qed

lemma updateBalances_voters:
  assumes "voters_ok minBalance m" and "voters_upto height m" and "height \<noteq> 0" and "distinct (map as_Address source)"
    and "\<And>s. fst (calc s) = 0 \<or> minBalance \<le> fst (calc s)" and "\<And>s. \<not> snd (calc s) \<Longrightarrow> fst (calc s) = 0"
  shows "voters_ok minBalance (hv_updateBalances height calc source m) \<and> voters_upto height (hv_updateBalances height calc source m)
    \<and> voting_balance (hv_updateBalances height calc source m) a x
      = (case find (\<lambda>s. as_Address s = a) source of Some s \<Rightarrow> if height \<le> x then fst (calc s) else voting_balance m a x
         | None \<Rightarrow> voting_balance m a x)"
  using assms(1,2,4)
proof (induction source arbitrary: m)
  case (Cons s source)
  note step = updateBalance_voters [OF Cons.prems(1,2) assms(3), of "calc s" s]
  have "find (\<lambda>s'. as_Address s' = a) source = None" if "a = as_Address s"
    using Cons.prems(3) that by (auto simp: find_None_iff rev_image_eqI)
  then show ?case using Cons.IH [of "hv_updateBalance height s (calc s) m"] step(1,2) step(3) [of a x] assms(5,6) Cons.prems(3)
    by (auto simp: hv_updateBalances_def split: option.splits)
qed (simp add: hv_updateBalances_def)

lemma voterBalanceCalculator_cases:
  "fst (voterBalanceCalculator options s) = 0 \<or> opt_MinVoterBalance options \<le> fst (voterBalanceCalculator options s)"
  "\<not> snd (voterBalanceCalculator options s) \<Longrightarrow> fst (voterBalanceCalculator options s) = 0"
  by (auto simp: voterBalanceCalculator_def EffectiveBalanceRetriever_def Let_def split: if_splits)

definition deltas_ok :: "AccountDeltas \<Rightarrow> bool" where
  "deltas_ok deltas \<longleftrightarrow> distinct (map as_Address (delta_Added deltas @ delta_Copied deltas @ delta_Removed deltas))"

lemma updateHarvesting_histories:
  "hvu_accountHistories (updateHarvestingAccounts deltas u) = hvu_accountHistories u"
  "hvu_options (updateHarvestingAccounts deltas u) = hvu_options u" "hvu_height (updateHarvestingAccounts deltas u) = hvu_height u"
proof -
  have "hvu_accountHistories (hv_updateAddresses c l u) = hvu_accountHistories u \<and> hvu_options (hv_updateAddresses c l u) = hvu_options u
    \<and> hvu_height (hv_updateAddresses c l u) = hvu_height u" for c l u
    by (induction l arbitrary: u) (simp_all add: hv_updateAddresses_def hv_updateAddress_def)
  then show "hvu_accountHistories (updateHarvestingAccounts deltas u) = hvu_accountHistories u"
    "hvu_options (updateHarvestingAccounts deltas u) = hvu_options u" "hvu_height (updateHarvestingAccounts deltas u) = hvu_height u"
    by (simp_all add: updateHarvestingAccounts_def Let_def)
qed

text \<open>
  What an address weighs after an update at a height: the amount of the harvesting mosaic of an account in the update, if it has a voting key and at least the
  minimum amount.
\<close>

definition voter_weight :: "AccountCacheOptions \<Rightarrow> AccountState \<Rightarrow> Amount" where
  "voter_weight options s =
    (let amount = balance_get (as_Balances s) (opt_HarvestingMosaicId options)
     in if accessor_getAll (voting (SupplementalPublicKeys s)) \<noteq> [] \<and> opt_MinVoterBalance options \<le> amount then amount else 0)"

lemma voterBalance_weight: "fst (voterBalanceCalculator options s) = voter_weight options s"
  by (simp add: voterBalanceCalculator_def voter_weight_def EffectiveBalanceRetriever_def accessor_size_def accessor_getAll_def Let_def split: option.splits)

definition updated_balance :: "AccountCacheOptions \<Rightarrow> AccountDeltas \<Rightarrow> Address \<Rightarrow> Amount \<Rightarrow> Amount" where
  "updated_balance options deltas a old =
    (case find (\<lambda>s. as_Address s = a) (delta_Added deltas @ delta_Copied deltas) of
      Some s \<Rightarrow> voter_weight options s
    | None \<Rightarrow> if a \<in> as_Address ` set (delta_Removed deltas) then 0 else old)"

lemma find_append: "find P (xs @ ys) = (case find P xs of None \<Rightarrow> find P ys | Some x \<Rightarrow> Some x)"
  by (induction xs) auto

lemma find_Some_mem: "find P xs = Some x \<Longrightarrow> x \<in> set xs \<and> P x"
  by (induction xs) (auto split: if_splits)

lemma update_voters:
  assumes "voters_ok (opt_MinVoterBalance (hvu_options u)) (hvu_accountHistories u)" and "hvu_height u \<noteq> 0" and "deltas_ok deltas"
  shows "voters_ok (opt_MinVoterBalance (hvu_options u)) (hvu_accountHistories (hvu_update deltas u))"
    and "voting_balance (hvu_accountHistories (hvu_update deltas u)) a x
      = (if x < hvu_height u then voting_balance (hvu_accountHistories u) a x
         else updated_balance (hvu_options u) deltas a (voting_balance (hvu_accountHistories u) a (hvu_height u)))"
proof -
  let ?min = "opt_MinVoterBalance (hvu_options u)" and ?h = "hvu_height u" and ?m = "hvu_accountHistories u"
  define m1 where "m1 = (\<lambda>a. map_option (ah_pruneGreater ?h) (?m a))"
  define m2 where "m2 = hv_updateBalances ?h (voterBalanceCalculator (hvu_options u)) (delta_Added deltas) m1"
  define m3 where "m3 = hv_updateBalances ?h (voterBalanceCalculator (hvu_options u)) (delta_Copied deltas) m2"
  define m4 where "m4 = hv_updateBalances ?h (\<lambda>_. (0, False)) (delta_Removed deltas) m3"
  have final: "hvu_accountHistories (hvu_update deltas u) = map_erase_if (\<lambda>h. \<not> anyAtLeast ?min h) m4"
    by (simp add: hvu_update_def updateVotingAccounts_def Let_def updateHarvesting_histories m1_def m2_def m3_def m4_def)
  have d: "distinct (map as_Address (delta_Added deltas))" "distinct (map as_Address (delta_Copied deltas))"
    "distinct (map as_Address (delta_Removed deltas))"
    using assms(3) by (auto simp: deltas_ok_def)
  note p = pruneGreater_voters [OF assms(1), where height = ?h, folded m1_def]
  have u2: "voters_ok ?min m2 \<and> voters_upto ?h m2 \<and> voting_balance m2 a x
      = (case find (\<lambda>s. as_Address s = a) (delta_Added deltas) of
           Some s \<Rightarrow> if ?h \<le> x then fst (voterBalanceCalculator (hvu_options u) s) else voting_balance m1 a x
         | None \<Rightarrow> voting_balance m1 a x)" for a x
    unfolding m2_def by (rule updateBalances_voters [OF p(1,2) assms(2) d(1)]) (use voterBalanceCalculator_cases in blast)+
  then have m2: "voters_ok ?min m2" "voters_upto ?h m2" by simp_all
  have u3: "voters_ok ?min m3 \<and> voters_upto ?h m3 \<and> voting_balance m3 a x
      = (case find (\<lambda>s. as_Address s = a) (delta_Copied deltas) of
           Some s \<Rightarrow> if ?h \<le> x then fst (voterBalanceCalculator (hvu_options u) s) else voting_balance m2 a x
         | None \<Rightarrow> voting_balance m2 a x)" for a x
    unfolding m3_def by (rule updateBalances_voters [OF m2 assms(2) d(2)]) (use voterBalanceCalculator_cases in blast)+
  have u4: "voters_ok ?min m4 \<and> voters_upto ?h m4 \<and> voting_balance m4 a x
      = (case find (\<lambda>s. as_Address s = a) (delta_Removed deltas) of Some s \<Rightarrow> if ?h \<le> x then 0 else voting_balance m3 a x
         | None \<Rightarrow> voting_balance m3 a x)" for a x
    using updateBalances_voters [OF u3 [THEN conjunct1] u3 [THEN conjunct2, THEN conjunct1] assms(2) d(3), where calc = "\<lambda>_. (0, False)"]
    by (auto simp: m4_def split: option.splits)
  show "voters_ok ?min (hvu_accountHistories (hvu_update deltas u))"
    unfolding final using voting_balance_erase(2) u4 by blast
  have rem: "find (\<lambda>s. as_Address s = a) (delta_Removed deltas) = None \<longleftrightarrow> a \<notin> as_Address ` set (delta_Removed deltas)"
    by (auto simp: find_None_iff)
  have dis: "find (\<lambda>s. as_Address s = a) (delta_Removed deltas) = None" if "find (\<lambda>s. as_Address s = a) (delta_Added deltas @ delta_Copied deltas) = Some s" for s
  proof -
    have "a \<in> as_Address ` set (delta_Added deltas @ delta_Copied deltas)" using find_Some_mem [OF that] by blast
    then show ?thesis using assms(3) rem by (auto simp: deltas_ok_def)
  qed
  have "voting_balance m4 a x = (if x < ?h then voting_balance ?m a x else updated_balance (hvu_options u) deltas a (voting_balance ?m a ?h))"
  proof (cases "find (\<lambda>s. as_Address s = a) (delta_Added deltas @ delta_Copied deltas)")
    case None
    then show ?thesis using u2 [of a x] u3 [of a x] u4 [of a x] p(3) [of a x] rem
      by (auto simp: updated_balance_def voterBalance_weight find_append min_def split: option.splits)
  next
    case (Some s)
    have "find (\<lambda>s. as_Address s = a) (delta_Copied deltas) = None" if "find (\<lambda>s. as_Address s = a) (delta_Added deltas) \<noteq> None"
      using assms(3) that by (auto simp: deltas_ok_def find_None_iff find_Some_iff)
    then show ?thesis using Some dis [OF Some] u2 [of a x] u3 [of a x] u4 [of a x] p(3) [of a x]
      by (auto simp: updated_balance_def voterBalance_weight find_append min_def split: option.splits)
  qed
  then show "voting_balance (hvu_accountHistories (hvu_update deltas u)) a x
      = (if x < ?h then voting_balance ?m a x else updated_balance (hvu_options u) deltas a (voting_balance ?m a ?h))"
    unfolding final using voting_balance_erase(1) u4 by metis
qed

lemma pruneLess_voters:
  assumes "voters_ok minBalance m" and "height \<noteq> 0"
  shows "voters_ok minBalance (\<lambda>a. map_option (ah_pruneLess height) (m a))"
    and "height \<le> x \<Longrightarrow> voting_balance (\<lambda>a. map_option (ah_pruneLess height) (m a)) a x = voting_balance m a x"
proof -
  have ok: "history_ok (ah_balance h)" if "m a = Some h" for a h using assms(1) that by (auto simp: voters_ok_def)
  have "snd ` set (history_pruneLess 0 height b) \<subseteq> snd ` set b" if "history_ok b" for b :: "Amount history_map"
  proof (cases "dropWhile (\<lambda>(k, _). k > height) b")
    case (Cons kv R)
    have "history_ok (takeWhile (\<lambda>(k, _). k > height) b)" using that by (metis history_ok_append takeWhile_dropWhile_id)
    then have "set (history_pruneLess 0 height b) \<subseteq> insert (height, snd kv) (set (takeWhile (\<lambda>(k, _). k > height) b))"
      using history_add_entries [OF _ assms(2), of _ 0 "snd kv"] Cons by (cases kv) (simp add: history_pruneLess_def)
    moreover have "kv \<in> set b" using Cons by (metis dropWhile_eq_Cons_conv in_set_conv_decomp)
    moreover have "set (takeWhile (\<lambda>(k, _). k > height) b) \<subseteq> set b" by (auto dest: set_takeWhileD)
    ultimately show ?thesis by fastforce
  qed (simp only: history_pruneLess_def list.simps subset_refl)
  then show "voters_ok minBalance (\<lambda>a. map_option (ah_pruneLess height) (m a))"
    using assms history_pruneLess_ok [OF ok assms(2)] by (fastforce simp: voters_ok_def ah_pruneLess_def)
  show "voting_balance (\<lambda>a. map_option (ah_pruneLess height) (m a)) a x = voting_balance m a x" if "height \<le> x"
    using history_pruneLess_get [OF ok assms(2) that] by (auto simp: voting_balance_def ah_pruneLess_def split: option.splits)
qed

section \<open>Pinned voting keys\<close>

text \<open>The epochs of the keys of an account are disjoint intervals in ascending order.\<close>

definition pinned_ok :: "PinnedVotingKey list \<Rightarrow> bool" where
  "pinned_ok pks \<longleftrightarrow> sorted_wrt (\<lambda>k k'. pvk_EndEpoch k < pvk_StartEpoch k') pks \<and> list_all (\<lambda>k. pvk_StartEpoch k \<le> pvk_EndEpoch k) pks"

lemma EnsureNoOverlap_disjoint:
  assumes "EnsureNoOverlap pks key = Inr ()" and "k \<in> set pks" and "pvk_StartEpoch k \<le> pvk_EndEpoch k" and "pvk_StartEpoch key \<le> pvk_EndEpoch key"
  shows "pvk_EndEpoch k < pvk_StartEpoch key \<or> pvk_EndEpoch key < pvk_StartEpoch k"
  using assms by (auto simp: EnsureNoOverlap_def ContainsEpoch_def list_ex_iff split: if_splits)

lemma pinned_find:
  assumes "pinned_ok pks" and "k \<in> set pks" and "ContainsEpoch k epoch"
  shows "FindVotingPublicKeyForEpoch pks epoch = pvk_VotingKey k"
  using assms
proof (induction pks)
  case (Cons k' pks)
  show ?case
  proof (cases "k = k'")
    case False
    then have "pvk_EndEpoch k' < epoch" using Cons.prems by (auto simp: pinned_ok_def ContainsEpoch_def)
    then show ?thesis using Cons False by (auto simp: pinned_ok_def FindVotingPublicKeyForEpoch_def)
  qed (use Cons.prems in \<open>simp add: FindVotingPublicKeyForEpoch_def ContainsEpoch_def\<close>)
qed simp

lemma pinned_find_none:
  "(\<And>k. k \<in> set pks \<Longrightarrow> \<not> ContainsEpoch k epoch) \<Longrightarrow> FindVotingPublicKeyForEpoch pks epoch = zero_key"
proof -
  assume "\<And>k. k \<in> set pks \<Longrightarrow> \<not> ContainsEpoch k epoch"
  then have "find (\<lambda>key. pvk_StartEpoch key \<le> epoch \<and> epoch \<le> pvk_EndEpoch key) pks = None"
    by (auto simp: find_None_iff ContainsEpoch_def)
  then show ?thesis by (simp add: FindVotingPublicKeyForEpoch_def)
qed

lemma insert_before_set: "set (insert_before P x xs) = insert x (set xs)"
proof -
  have "set xs = set (takeWhile (\<lambda>y. \<not> P y) xs) \<union> set (dropWhile (\<lambda>y. \<not> P y) xs)"
    unfolding set_append [symmetric] takeWhile_dropWhile_id ..
  then show ?thesis by (simp add: insert_before_def)
qed

lemma insert_before_pinned:
  assumes "pinned_ok pks" and "pvk_StartEpoch key \<le> pvk_EndEpoch key" and "EnsureNoOverlap pks key = Inr ()"
  shows "pinned_ok (insert_before (\<lambda>k. pvk_StartEpoch k > pvk_EndEpoch key) key pks)"
  using assms
proof (induction pks)
  case (Cons k pks)
  let ?P = "\<lambda>k. pvk_StartEpoch k > pvk_EndEpoch key"
  have "EnsureNoOverlap pks key = Inr ()" using Cons.prems(3) by (auto simp: EnsureNoOverlap_def split: if_splits)
  then have IH: "pinned_ok (insert_before ?P key pks)" using Cons by (simp add: pinned_ok_def)
  have k: "pvk_StartEpoch k \<le> pvk_EndEpoch k" "\<forall>k' \<in> set pks. pvk_EndEpoch k < pvk_StartEpoch k'" using Cons.prems(1) by (auto simp: pinned_ok_def)
  have mem: "set (insert_before ?P key pks) = insert key (set pks)"
    by (rule insert_before_set)
  show ?case
  proof (cases "?P k")
    case True
    then show ?thesis using Cons.prems(1,2) k by (auto simp: insert_before_def pinned_ok_def)
  next
    case False
    then have "pvk_EndEpoch k < pvk_StartEpoch key" using EnsureNoOverlap_disjoint [OF Cons.prems(3), of k] k(1) Cons.prems(2) by auto
    then have "pinned_ok (k # insert_before ?P key pks)" using IH mem k by (auto simp: pinned_ok_def)
    then show ?thesis using False by (simp add: insert_before_def)
  qed
qed (simp add: insert_before_def pinned_ok_def)

lemma index_of_Some: "index_of P xs = Some i \<Longrightarrow> i < length xs \<and> P (xs ! i) \<and> (\<forall>j < i. \<not> P (xs ! j))"
  by (induction xs arbitrary: i) (auto simp: less_Suc_eq_0_disj split: if_splits)

lemma index_of_None: "index_of P xs = None \<longleftrightarrow> (\<forall>x \<in> set xs. \<not> P x)"
  by (induction xs) auto

lemma accessor_add_remove:
  assumes "accessor_add key a = Inr a'" and "\<not> accessor_containsExact a key" and "a \<noteq> Some []"
  shows "accessor_remove key a' = (True, a)"
proof -
  define pks where "pks = accessor_getAll a"
  define P where "P = (\<lambda>k :: PinnedVotingKey. pvk_StartEpoch k > pvk_EndEpoch key)"
  define L where "L = takeWhile (\<lambda>k. \<not> P k) pks"
  define R where "R = dropWhile (\<lambda>k. \<not> P k) pks"
  have a': "a' = Some (L @ key # R)" using assms(1) by (auto simp: accessor_add_def Let_def insert_before_def pks_def L_def R_def P_def)
  have pks: "L @ R = pks" by (simp add: L_def R_def)
  have "key \<notin> set pks" using assms(2) by (auto simp: accessor_containsExact_def index_of_None pks_def accessor_getAll_def split: option.splits)
  then have "index_of (\<lambda>k. k = key) (L @ key # R) = Some (length L)" using pks
  proof -
    have "index_of (\<lambda>k. k = key) (M @ key # R) = Some (length M)" if "key \<notin> set M" for M
      using that by (induction M) auto
    then show ?thesis using \<open>key \<notin> set pks\<close> pks by auto
  qed
  then show ?thesis using a' pks assms(3)
    by (cases a) (auto simp: accessor_remove_def Let_def pks_def accessor_getAll_def)
qed

section \<open>Properties\<close>

text \<open>
  C29. The high value accounts record the voting balance of every address at every height. After an update at a height, the balance at
  an earlier height is what it was; from that height on it is the amount of the harvesting mosaic of the account in the update if that account has a voting
  key and at least the minimum amount for voters and zero if it has not or was removed, and an address outside the update keeps the balance it had. Dropping the
  histories that never reached the minimum loses nothing, and a later pruning up to a height leaves the balances from that height on
  as they are.
\<close>

theorem voting_balance_recorded:
  assumes "voters_ok (opt_MinVoterBalance (hvu_options u)) (hvu_accountHistories u)" and "hvu_height u \<noteq> 0" and "deltas_ok deltas"
    and "height \<noteq> 0" and "height \<le> x"
  shows "voting_balance (hvu_accountHistories (hvu_prune height (hvu_update deltas u))) a x
      = (if x < hvu_height u then voting_balance (hvu_accountHistories u) a x
         else updated_balance (hvu_options u) deltas a (voting_balance (hvu_accountHistories u) a (hvu_height u)))
    \<and> voters_ok (opt_MinVoterBalance (hvu_options u)) (hvu_accountHistories (hvu_prune height (hvu_update deltas u)))"
proof -
  have opt: "hvu_options (hvu_update deltas u) = hvu_options u"
    by (simp add: hvu_update_def updateVotingAccounts_def Let_def updateHarvesting_histories)
  note up = update_voters [OF assms(1-3)]
  note pr = pruneLess_voters [OF up(1) assms(4)]
  show ?thesis using voting_balance_erase [OF pr(1)] pr(2) [OF assms(5)] up(2) by (simp add: hvu_prune_def opt)
qed

definition sample_voter :: AccountState where
  "sample_voter = (AccountState_new [1] 1)\<lparr>as_Balances := sample_balances,
     SupplementalPublicKeys := \<lparr>linked = None, node_key = None, vrf = None,
       voting = Some [\<lparr>pvk_VotingKey = [9], pvk_StartEpoch = 1, pvk_EndEpoch = 5\<rparr>]\<rparr>\<rparr>"

definition sample_updater :: HighValueAccountsUpdater where
  "sample_updater = \<lparr>hvu_options = \<lparr>opt_NetworkIdentifier = 104, opt_ImportanceGrouping = 4, opt_VotingSetGrouping = 4,
       opt_MinHarvesterBalance = 1, opt_MaxHarvesterBalance = 9, opt_MinVoterBalance = 3, opt_CurrencyMosaicId = 8, opt_HarvestingMosaicId = 9\<rparr>,
     hvu_original = {}, hvu_current = {}, hvu_removed = {},
     hvu_accountHistories = [[1] \<mapsto> \<lparr>ah_balance = [(7, 5), (3, 8)], ah_vrfPublicKey = [], ah_votingPublicKeys = []\<rparr>], hvu_height = 6\<rparr>"

definition sample_deltas :: AccountDeltas where
  "sample_deltas = \<lparr>delta_Added = [], delta_Removed = [], delta_Copied = [sample_voter]\<rparr>"

theorem voting_balance_recorded_witness:
  "voting_balance (hvu_accountHistories (hvu_prune 5 (hvu_update sample_deltas sample_updater))) [1] 5 = 8
    \<and> voting_balance (hvu_accountHistories (hvu_prune 5 (hvu_update sample_deltas sample_updater))) [1] 7 = 4"
proof -
  have ok: "voters_ok (opt_MinVoterBalance (hvu_options sample_updater)) (hvu_accountHistories sample_updater)"
    by (auto simp: voters_ok_def sample_updater_def history_ok_def)
  have b: "balance_get sample_balances 9 = 4" by code_simp
  have "updated_balance (hvu_options sample_updater) sample_deltas [1] y = 4" for y
    using b by (simp add: updated_balance_def sample_deltas_def sample_voter_def AccountState_new_def voter_weight_def accessor_getAll_def sample_updater_def)
  moreover have "voting_balance (hvu_accountHistories sample_updater) [1] 5 = 8" by (simp add: voting_balance_def sample_updater_def)
  moreover have "hvu_height sample_updater = 6" "deltas_ok sample_deltas"
    by (simp_all add: sample_updater_def deltas_ok_def sample_deltas_def)
  ultimately show ?thesis
    using voting_balance_recorded [OF ok, of sample_deltas 5 5 "[1]"] voting_balance_recorded [OF ok, of sample_deltas 5 7 "[1]"] by simp
qed

text \<open>
  The voting keys of an account stay disjoint intervals of epochs in ascending order. A key that does not overlap them is
  accepted; afterwards its epochs have that key, every other epoch the key it had before, and removing it restores the account exactly.
\<close>

theorem pinned_key_add:
  assumes "pinned_ok (accessor_getAll a)" and "a \<noteq> Some []" and "pvk_StartEpoch key \<le> pvk_EndEpoch key"
    and "\<forall>k \<in> set (accessor_getAll a). pvk_EndEpoch k < pvk_StartEpoch key \<or> pvk_EndEpoch key < pvk_StartEpoch k"
  shows "\<exists>a'. accessor_add key a = Inr a' \<and> pinned_ok (accessor_getAll a')
    \<and> (\<forall>epoch. FindVotingPublicKeyForEpoch (accessor_getAll a') epoch
        = (if ContainsEpoch key epoch then pvk_VotingKey key else FindVotingPublicKeyForEpoch (accessor_getAll a) epoch))
    \<and> accessor_remove key a' = (True, a)"
proof -
  let ?pks = "accessor_getAll a"
  define pks' where "pks' = insert_before (\<lambda>k. pvk_StartEpoch k > pvk_EndEpoch key) key ?pks"
  have no: "EnsureNoOverlap ?pks key = Inr ()"
    using assms(1,3,4) by (fastforce simp: EnsureNoOverlap_def list_ex_iff ContainsEpoch_def pinned_ok_def list_all_iff)
  then have add: "accessor_add key a = Inr (Some pks')" by (simp add: accessor_add_def pks'_def)
  have ok: "pinned_ok pks'" using insert_before_pinned [OF assms(1,3) no] by (simp add: pks'_def)
  have set: "set pks' = insert key (set ?pks)" by (simp add: pks'_def insert_before_set)
  have "FindVotingPublicKeyForEpoch pks' epoch = (if ContainsEpoch key epoch then pvk_VotingKey key else FindVotingPublicKeyForEpoch ?pks epoch)" for epoch
  proof (cases "\<exists>k \<in> insert key (set ?pks). ContainsEpoch k epoch")
    case True
    then show ?thesis using pinned_find [OF ok] pinned_find [OF assms(1)] set by auto
  next
    case False
    then show ?thesis using pinned_find_none [of pks' epoch] pinned_find_none [of ?pks epoch] set by auto
  qed
  moreover have "\<not> accessor_containsExact a key"
    using assms(3,4) by (auto simp: accessor_containsExact_def index_of_None accessor_getAll_def split: option.splits)
  ultimately show ?thesis using add ok accessor_add_remove [OF add _ assms(2)] by (simp add: accessor_getAll_def)
qed

theorem pinned_key_add_witness:
  "\<exists>a'. accessor_add \<lparr>pvk_VotingKey = [7], pvk_StartEpoch = 1, pvk_EndEpoch = 3\<rparr>
      (Some [\<lparr>pvk_VotingKey = [8], pvk_StartEpoch = 4, pvk_EndEpoch = 9\<rparr>]) = Inr a'
    \<and> FindVotingPublicKeyForEpoch (accessor_getAll a') 2 = [7] \<and> FindVotingPublicKeyForEpoch (accessor_getAll a') 5 = [8]"
  using pinned_key_add [of "Some [\<lparr>pvk_VotingKey = [8], pvk_StartEpoch = 4, pvk_EndEpoch = 9\<rparr>]"
      "\<lparr>pvk_VotingKey = [7], pvk_StartEpoch = 1, pvk_EndEpoch = 3\<rparr>"]
  by (auto simp: accessor_getAll_def pinned_ok_def ContainsEpoch_def FindVotingPublicKeyForEpoch_def)

end
