(* ===== verification/Account_Cache.thy ===== *)
theory Account_Cache
  imports Account_State
begin

text \<open>
  The cache of accounts (\<^verbatim>\<open>catapult/cache_core/AccountStateCacheDelta.cpp\<close>, \<^verbatim>\<open>AccountStateCacheTypes.h\<close>,
  \<^verbatim>\<open>AccountStateCacheUtils.cpp\<close>) and the observers that add accounts to it (\<^verbatim>\<open>plugins/coresystem/src/observers/AccountObserver.cpp\<close>).

  The two sets of the cache, accounts by address and addresses by public key, are the maps they stand for (\<open>Basic_Caches\<close>). A reference
  into the cache that the code changes is a change of the map at its address. The derivation of an address from a public key is the
  argument \<open>toAddress\<close>. The sets of queued removals are hash sets: lists without repetitions, whose order is an argument where the code iterates over them.
\<close>

section \<open>The cache\<close>

record AccountStateCacheDelta =
  ac_stateByAddress :: "Address \<rightharpoonup> AccountState"
  ac_keyToAddress :: "Key \<rightharpoonup> Address"
  ac_options :: AccountCacheOptions
  ac_highValueAccountsUpdater :: HighValueAccountsUpdater
  ac_queuedRemoveByAddress :: "(Height \<times> Address) list"
  ac_queuedRemoveByPublicKey :: "(Height \<times> Key) list"

definition PrepareMutableIterator :: "AccountCacheOptions \<Rightarrow> AccountState \<Rightarrow> AccountState result" where
  "PrepareMutableIterator options s =
    bind_result (balances_optimize (as_Balances s) (opt_CurrencyMosaicId options)) (\<lambda>b. Inr (s\<lparr>as_Balances := b\<rparr>))"

definition ac_write :: "Address \<Rightarrow> AccountState \<Rightarrow> AccountStateCacheDelta \<Rightarrow> AccountStateCacheDelta" where
  "ac_write address s c = c\<lparr>ac_stateByAddress := (ac_stateByAddress c)(address \<mapsto> s)\<rparr>"

definition ac_find :: "Address \<Rightarrow> AccountStateCacheDelta \<Rightarrow> (AccountState option \<times> AccountStateCacheDelta) result" where
  "ac_find address c = (case ac_stateByAddress c address of None \<Rightarrow> Inr (None, c)
    | Some s \<Rightarrow> bind_result (PrepareMutableIterator (ac_options c) s) (\<lambda>s. Inr (Some s, ac_write address s c)))"

text \<open>\<^verbatim>\<open>ComposedLookupAdapter::find\<close>: the address of a key, then the account of the address.\<close>

definition ac_findKey :: "Key \<Rightarrow> AccountStateCacheDelta \<Rightarrow> (AccountState option \<times> AccountStateCacheDelta) result" where
  "ac_findKey key c = (case ac_keyToAddress c key of None \<Rightarrow> Inr (None, c) | Some address \<Rightarrow> ac_find address c)"

text \<open>The account behind an iterator, or the exception that \<^verbatim>\<open>get\<close> throws when there is none.\<close>

definition ac_get :: "(AccountState option \<times> AccountStateCacheDelta) \<Rightarrow> (AccountState \<times> AccountStateCacheDelta) result" where
  "ac_get r = (case fst r of None \<Rightarrow> Inl invalid_argument | Some s \<Rightarrow> Inr (s, snd r))"

definition ac_addAccountState :: "AccountState \<Rightarrow> AccountStateCacheDelta \<Rightarrow> AccountStateCacheDelta result" where
  "ac_addAccountState s c =
    (if ac_stateByAddress c (as_Address s) \<noteq> None then Inr c
     else bind_result (PrepareMutableIterator (ac_options c) s) (\<lambda>s'.
       Inr (ac_write (as_Address s) s' (c\<lparr>ac_keyToAddress :=
         (if 0 \<noteq> as_PublicKeyHeight s \<and> ac_keyToAddress c (as_PublicKey s) = None
          then (ac_keyToAddress c)(as_PublicKey s \<mapsto> as_Address s) else ac_keyToAddress c)\<rparr>))))"

definition ac_addAddress :: "Address \<Rightarrow> Height \<Rightarrow> AccountStateCacheDelta \<Rightarrow> AccountStateCacheDelta result" where
  "ac_addAddress address height c =
    (if ac_stateByAddress c address \<noteq> None then Inr c else ac_addAccountState (AccountState_new address height) c)"

definition ac_getAddress :: "(Key \<Rightarrow> Address) \<Rightarrow> Key \<Rightarrow> AccountStateCacheDelta \<Rightarrow> Address \<times> AccountStateCacheDelta" where
  "ac_getAddress toAddress publicKey c = (case ac_keyToAddress c publicKey of Some address \<Rightarrow> (address, c)
    | None \<Rightarrow> (toAddress publicKey, c\<lparr>ac_keyToAddress := (ac_keyToAddress c)(publicKey \<mapsto> toAddress publicKey)\<rparr>))"

definition ac_addPublicKey :: "(Key \<Rightarrow> Address) \<Rightarrow> Key \<Rightarrow> Height \<Rightarrow> AccountStateCacheDelta \<Rightarrow> AccountStateCacheDelta result" where
  "ac_addPublicKey toAddress publicKey height c =
    (let (address, c) = ac_getAddress toAddress publicKey c
     in bind_result (ac_addAddress address height c) (\<lambda>c.
        case ac_stateByAddress c address of None \<Rightarrow> Inl invalid_argument
        | Some s \<Rightarrow> if 0 \<noteq> as_PublicKeyHeight s then Inr c
            else bind_result (bind_result (ac_find address c) ac_get) (\<lambda>(s, c).
              Inr (ac_write address (s\<lparr>as_PublicKey := publicKey, as_PublicKeyHeight := height\<rparr>) c))))"

section \<open>Removal\<close>

datatype CommitRemovalsMode = Linked | Unlinked_Removals

definition ac_queueRemoveAddress :: "Address \<Rightarrow> Height \<Rightarrow> AccountStateCacheDelta \<Rightarrow> AccountStateCacheDelta" where
  "ac_queueRemoveAddress address height c = c\<lparr>ac_queuedRemoveByAddress := List.insert (height, address) (ac_queuedRemoveByAddress c)\<rparr>"

definition ac_queueRemovePublicKey :: "Key \<Rightarrow> Height \<Rightarrow> AccountStateCacheDelta \<Rightarrow> AccountStateCacheDelta" where
  "ac_queueRemovePublicKey publicKey height c = c\<lparr>ac_queuedRemoveByPublicKey := List.insert (height, publicKey) (ac_queuedRemoveByPublicKey c)\<rparr>"

definition ac_clearRemoveAddress :: "Address \<Rightarrow> Height \<Rightarrow> AccountStateCacheDelta \<Rightarrow> AccountStateCacheDelta" where
  "ac_clearRemoveAddress address height c = c\<lparr>ac_queuedRemoveByAddress := removeAll (height, address) (ac_queuedRemoveByAddress c)\<rparr>"

definition ac_clearRemovePublicKey :: "Key \<Rightarrow> Height \<Rightarrow> AccountStateCacheDelta \<Rightarrow> AccountStateCacheDelta" where
  "ac_clearRemovePublicKey publicKey height c = c\<lparr>ac_queuedRemoveByPublicKey := removeAll (height, publicKey) (ac_queuedRemoveByPublicKey c)\<rparr>"

definition ac_removeAddress :: "Height \<times> Address \<Rightarrow> AccountStateCacheDelta \<Rightarrow> AccountStateCacheDelta result" where
  "ac_removeAddress ha c =
    bind_result (ac_find (snd ha) c) (\<lambda>(r, c).
      case r of None \<Rightarrow> Inr c
      | Some s \<Rightarrow> Inr (if fst ha \<noteq> as_AddressHeight s then c
          else c\<lparr>ac_keyToAddress := (if 0 \<noteq> as_PublicKeyHeight s then (ac_keyToAddress c)(as_PublicKey s := None) else ac_keyToAddress c),
            ac_stateByAddress := (ac_stateByAddress c)(snd ha := None)\<rparr>))"

definition ac_removePublicKey :: "CommitRemovalsMode \<Rightarrow> Height \<times> Key \<Rightarrow> AccountStateCacheDelta \<Rightarrow> AccountStateCacheDelta result" where
  "ac_removePublicKey mode hk c =
    bind_result (ac_findKey (snd hk) c) (\<lambda>(r, c).
      case r of None \<Rightarrow> Inr c
      | Some s \<Rightarrow> Inr (if fst hk \<noteq> as_PublicKeyHeight s then c
          else let c = c\<lparr>ac_keyToAddress := (ac_keyToAddress c)(as_PublicKey s := None)\<rparr>
               in if mode = Linked \<and> as_PublicKeyHeight s = as_AddressHeight s
                  then c\<lparr>ac_stateByAddress := (ac_stateByAddress c)(as_Address s := None)\<rparr>
                  else ac_write (as_Address s) (s\<lparr>as_PublicKeyHeight := 0, as_PublicKey := zero_key\<rparr>) c))"

definition ac_commitRemovals :: "((Height \<times> Address) list \<Rightarrow> (Height \<times> Address) list) \<Rightarrow> ((Height \<times> Key) list \<Rightarrow> (Height \<times> Key) list)
    \<Rightarrow> CommitRemovalsMode \<Rightarrow> AccountStateCacheDelta \<Rightarrow> AccountStateCacheDelta result" where
  "ac_commitRemovals addressOrder keyOrder mode c =
    bind_result (foldM ac_removeAddress (addressOrder (ac_queuedRemoveByAddress c)) c) (\<lambda>c'.
    bind_result (foldM (ac_removePublicKey mode) (keyOrder (ac_queuedRemoveByPublicKey c)) c') (\<lambda>c''.
      Inr (c''\<lparr>ac_queuedRemoveByAddress := [], ac_queuedRemoveByPublicKey := []\<rparr>)))"

section \<open>High value accounts\<close>

text \<open>The accounts that the delta has added, changed and removed are the argument \<open>deltas\<close>.\<close>

definition ac_updateHighValueAccounts :: "AccountDeltas \<Rightarrow> Height \<Rightarrow> AccountStateCacheDelta \<Rightarrow> AccountStateCacheDelta" where
  "ac_updateHighValueAccounts deltas height c =
    c\<lparr>ac_highValueAccountsUpdater := hvu_update deltas (hvu_setHeight height (ac_highValueAccountsUpdater c))\<rparr>"

definition shift_removed :: "u64 \<Rightarrow> AccountState \<Rightarrow> AccountState result" where
  "shift_removed importanceHeight s =
    bind_result (if StartHeight (buckets_get (ActivityBuckets s) importanceHeight) = importanceHeight
        then buckets_pop (ActivityBuckets s) else Inr (ActivityBuckets s)) (\<lambda>buckets.
      Inr (s\<lparr>ActivityBuckets := buckets_push buckets, ImportanceSnapshots := snapshots_push (ImportanceSnapshots s)\<rparr>))"

definition process_removed :: "u64 \<Rightarrow> Address \<Rightarrow> Address set \<times> AccountStateCacheDelta \<Rightarrow> (Address set \<times> AccountStateCacheDelta) result" where
  "process_removed importanceHeight address fc =
    bind_result (ac_find address (snd fc)) (\<lambda>(r, c).
      case r of None \<Rightarrow> Inr (fst fc, c)
      | Some s \<Rightarrow> bind_result (shift_removed importanceHeight s) (\<lambda>s.
          Inr (if HasHistoricalInformation s then insert address (fst fc) else fst fc, ac_write address s c)))"

definition ac_processHighValueRemovedAccounts :: "(Address set \<Rightarrow> Address list) \<Rightarrow> u64 \<Rightarrow> AccountStateCacheDelta \<Rightarrow> AccountStateCacheDelta result" where
  "ac_processHighValueRemovedAccounts order importanceHeight c =
    bind_result (foldM (process_removed importanceHeight) (order (hvu_removed (ac_highValueAccountsUpdater c))) ({}, c)) (\<lambda>(filtered, c).
      Inr (c\<lparr>ac_highValueAccountsUpdater := hvu_setRemovedAddresses filtered (ac_highValueAccountsUpdater c)\<rparr>))"

definition ac_detachHighValueAccounts :: "AccountStateCacheDelta \<Rightarrow> HighValueAccounts \<times> AccountStateCacheDelta" where
  "ac_detachHighValueAccounts c =
    (let (accounts, u) = hvu_detachAccounts (ac_highValueAccountsUpdater c) in (accounts, c\<lparr>ac_highValueAccountsUpdater := u\<rparr>))"

definition ac_prune :: "Height \<Rightarrow> AccountStateCacheDelta \<Rightarrow> AccountStateCacheDelta result" where
  "ac_prune height c = bind_result (CalculateGroupedHeight height (opt_VotingSetGrouping (ac_options c))) (\<lambda>height.
     Inr (c\<lparr>ac_highValueAccountsUpdater := hvu_prune height (ac_highValueAccountsUpdater c)\<rparr>))"

section \<open>Forwarding to a main account\<close>

text \<open>The action changes the account it is given and may return something, such as a receipt.\<close>

definition ProcessForwardedAccountState ::
  "Address \<Rightarrow> (AccountState \<Rightarrow> ('r \<times> AccountState) result) \<Rightarrow> AccountStateCacheDelta \<Rightarrow> ('r \<times> AccountStateCacheDelta) result" where
  "ProcessForwardedAccountState address action c =
    bind_result (bind_result (ac_find address c) ac_get) (\<lambda>(s, c).
      if Remote \<noteq> as_AccountType s then bind_result (action s) (\<lambda>(r, s'). Inr (r, ac_write address s' c))
      else bind_result (bind_result (ac_findKey (GetLinkedPublicKey s) c) ac_get) (\<lambda>(l, c).
        bind_result (RequireLinkedRemoteAndMainAccounts s l) (\<lambda>_.
        bind_result (action l) (\<lambda>(r, l'). Inr (r, ac_write (as_Address l) l' c)))))"

section \<open>Observers of new accounts\<close>

text \<open>\<^verbatim>\<open>Resolvable\<close>: an address of a notification, resolved or not.\<close>

datatype ResolvableAddress = Resolved Address | Unresolved bytes

fun ra_resolved :: "(bytes \<Rightarrow> Address) \<Rightarrow> ResolvableAddress \<Rightarrow> Address" where
  "ra_resolved resolve (Resolved a) = a"
| "ra_resolved resolve (Unresolved u) = resolve u"

datatype account_notification = AccountAddressNotification ResolvableAddress | AccountPublicKeyNotification Key

fun Account_observer :: "(Key \<Rightarrow> Address) \<Rightarrow> (bytes \<Rightarrow> Address) \<Rightarrow> NotifyMode \<Rightarrow> Height \<Rightarrow> account_notification
    \<Rightarrow> AccountStateCacheDelta \<Rightarrow> AccountStateCacheDelta result" where
  "Account_observer toAddress resolve Commit height (AccountAddressNotification a) c = ac_addAddress (ra_resolved resolve a) height c"
| "Account_observer toAddress resolve Rollback height (AccountAddressNotification a) c = Inr (ac_queueRemoveAddress (ra_resolved resolve a) height c)"
| "Account_observer toAddress resolve Commit height (AccountPublicKeyNotification k) c = ac_addPublicKey toAddress k height c"
| "Account_observer toAddress resolve Rollback height (AccountPublicKeyNotification k) c = Inr (ac_queueRemovePublicKey k height c)"

section \<open>Coherence of the two maps\<close>

lemma balances_optimize_ok:
  assumes "balances_ok b"
  shows "\<exists>b'. balances_optimize b k = Inr b' \<and> balances_ok b' \<and> ab_optimizedMosaicId b' = k \<and> balance_get b' = balance_get b"
proof -
  obtain m where "mosaics_optimize k (m_balances b) = Inr m" "mosaics_ok m" "mosaics_find m = mosaics_find (m_balances b)"
    using cmm.optimize_lookup assms unfolding balances_ok_def by blast
  then show ?thesis
    using assms optimize_sets_id by (auto simp: balances_optimize_def balances_ok_def balance_get_find fun_eq_iff)
qed

text \<open>
  What holds of every account of the cache: it is stored under its address, its balances are well-formed and sorted for the currency, and it
  has a public key exactly from the height on at which its key became known.
\<close>

definition account_ok :: "(Key \<Rightarrow> Address) \<Rightarrow> Key set \<Rightarrow> AccountCacheOptions \<Rightarrow> Address \<Rightarrow> AccountState \<Rightarrow> bool" where
  "account_ok toAddress K options a s \<longleftrightarrow> as_Address s = a \<and> balances_ok (as_Balances s)
    \<and> ab_optimizedMosaicId (as_Balances s) = opt_CurrencyMosaicId options
    \<and> (if as_PublicKeyHeight s = 0 then as_PublicKey s = zero_key else as_PublicKey s \<in> K \<and> toAddress (as_PublicKey s) = a)"

definition states_ok :: "(Key \<Rightarrow> Address) \<Rightarrow> Key set \<Rightarrow> AccountStateCacheDelta \<Rightarrow> bool" where
  "states_ok toAddress K c \<longleftrightarrow> (\<forall>a s. ac_stateByAddress c a = Some s \<longrightarrow> account_ok toAddress K (ac_options c) a s)"

definition keys_ok :: "AccountStateCacheDelta \<Rightarrow> bool" where
  "keys_ok c \<longleftrightarrow> (\<forall>k a. ac_keyToAddress c k = Some a \<longleftrightarrow>
     (\<exists>s. ac_stateByAddress c a = Some s \<and> as_PublicKeyHeight s \<noteq> 0 \<and> as_PublicKey s = k))"

definition accounts_ok :: "(Key \<Rightarrow> Address) \<Rightarrow> Key set \<Rightarrow> AccountStateCacheDelta \<Rightarrow> bool" where
  "accounts_ok toAddress K c \<longleftrightarrow> states_ok toAddress K c \<and> keys_ok c"

lemma states_okD: "states_ok toAddress K c \<Longrightarrow> ac_stateByAddress c a = Some s \<Longrightarrow> account_ok toAddress K (ac_options c) a s"
  by (simp add: states_ok_def)

lemma keys_okD: "keys_ok c \<Longrightarrow> ac_keyToAddress c k = Some a \<Longrightarrow>
    \<exists>s. ac_stateByAddress c a = Some s \<and> as_PublicKeyHeight s \<noteq> 0 \<and> as_PublicKey s = k"
  by (simp add: keys_ok_def)

lemma prepare_id: "account_ok toAddress K options a s \<Longrightarrow> PrepareMutableIterator options s = Inr s"
  by (auto simp: account_ok_def balances_ok_def PrepareMutableIterator_def balances_optimize_def mosaics_optimize_def)

lemma ac_find_ok:
  assumes "states_ok toAddress K c"
  shows "ac_find a c = Inr (ac_stateByAddress c a, c)"
  using prepare_id [OF states_okD [OF assms]] by (auto simp: ac_find_def ac_write_def fun_upd_idem split: option.splits)

lemma ac_findKey_ok:
  assumes "states_ok toAddress K c"
  shows "ac_findKey k c = Inr (case ac_keyToAddress c k of None \<Rightarrow> None | Some a \<Rightarrow> ac_stateByAddress c a, c)"
  by (simp add: ac_findKey_def ac_find_ok [OF assms] split: option.splits)

lemma ProcessForwarded_account:
  assumes "states_ok toAddress K c" and "ProcessForwardedAccountState a action c = Inr (r, c')"
  obtains a' s s' where "ac_stateByAddress c a' = Some s" "action s = Inr (r, s')" "c' = ac_write a' s' c"
proof -
  have addr: "ac_stateByAddress c a' = Some s \<Longrightarrow> as_Address s = a'" for a' s using states_okD [OF assms(1)] by (simp add: account_ok_def)
  show ?thesis
    using assms(2) that addr
    by (auto simp: ProcessForwardedAccountState_def ac_find_ok [OF assms(1)] ac_findKey_ok [OF assms(1)] ac_get_def split: option.splits if_splits)
qed

lemma PrepareMutableIterator_new:
  obtains s where "PrepareMutableIterator options (AccountState_new a h) = Inr s" "account_ok toAddress K options a s"
    "as_AddressHeight s = h" "as_PublicKeyHeight s = 0"
proof -
  obtain b where "balances_optimize empty_balances (opt_CurrencyMosaicId options) = Inr b" "balances_ok b"
    "ab_optimizedMosaicId b = opt_CurrencyMosaicId options"
    using balances_optimize_ok [OF balances_ok_empty(1)] by blast
  then show ?thesis
    using that [of "(AccountState_new a h)\<lparr>as_Balances := b\<rparr>"]
    by (simp add: PrepareMutableIterator_def AccountState_new_def account_ok_def)
qed

section \<open>Accounts added at a height\<close>

definition same_rest :: "AccountStateCacheDelta \<Rightarrow> AccountStateCacheDelta \<Rightarrow> bool" where
  [simp]: "same_rest c c' \<longleftrightarrow> ac_options c' = ac_options c \<and> ac_highValueAccountsUpdater c' = ac_highValueAccountsUpdater c
     \<and> ac_queuedRemoveByAddress c' = ac_queuedRemoveByAddress c \<and> ac_queuedRemoveByPublicKey c' = ac_queuedRemoveByPublicKey c"

text \<open>What is left of the accounts without what has been added at a height.\<close>

definition stripped :: "Height \<Rightarrow> (Address \<rightharpoonup> AccountState) \<Rightarrow> Address \<rightharpoonup> AccountState" where
  "stripped h m a = (case m a of None \<Rightarrow> None | Some s \<Rightarrow> if as_AddressHeight s = h then None
     else Some (if as_PublicKeyHeight s = h then s\<lparr>as_PublicKeyHeight := 0, as_PublicKey := zero_key\<rparr> else s))"

text \<open>The notifications, as sets of addresses and keys, that account for everything added at a height.\<close>

definition tracked :: "Height \<Rightarrow> Address set \<Rightarrow> Key set \<Rightarrow> AccountStateCacheDelta \<Rightarrow> bool" where
  "tracked h A Q c \<longleftrightarrow> (\<forall>a s. ac_stateByAddress c a = Some s \<longrightarrow>
     (as_AddressHeight s = h \<longrightarrow> a \<in> A \<or> as_PublicKeyHeight s = h \<and> as_PublicKey s \<in> Q)
     \<and> (as_PublicKeyHeight s = h \<longrightarrow> as_PublicKey s \<in> Q))"

lemma stripped_untracked: "tracked h {} {} c \<Longrightarrow> stripped h (ac_stateByAddress c) = ac_stateByAddress c"
  by (fastforce simp: tracked_def stripped_def fun_eq_iff split: option.splits)

lemma stripped_upd: "stripped h (m(a := r)) = (stripped h m)(a := stripped h (\<lambda>_. r) a)"
  by (auto simp: stripped_def fun_eq_iff)

lemma addAddress_step:
  assumes "states_ok toAddress K c" and "h \<noteq> 0"
  obtains c' s where "ac_addAddress a h c = Inr c'" "states_ok toAddress K c'" "c' = c\<lparr>ac_stateByAddress := (ac_stateByAddress c)(a \<mapsto> s)\<rparr>"
    "account_ok toAddress K (ac_options c) a s"
    "ac_stateByAddress c a = Some s \<or> ac_stateByAddress c a = None \<and> as_AddressHeight s = h \<and> as_PublicKeyHeight s = 0"
proof (cases "ac_stateByAddress c a")
  case None
  obtain s where s: "PrepareMutableIterator (ac_options c) (AccountState_new a h) = Inr s" "account_ok toAddress K (ac_options c) a s"
    "as_AddressHeight s = h" "as_PublicKeyHeight s = 0"
    by (rule PrepareMutableIterator_new)
  then show ?thesis
    using None assms(1) by (intro that [of "c\<lparr>ac_stateByAddress := (ac_stateByAddress c)(a \<mapsto> s)\<rparr>" s])
      (auto simp: ac_addAddress_def ac_addAccountState_def ac_write_def AccountState_new_def states_ok_def)
next
  case (Some s)
  then show ?thesis
    using assms states_okD [OF assms(1) Some] by (intro that [of c s]) (simp_all add: ac_addAddress_def fun_upd_idem)
qed

lemma addAddress_inv:
  assumes "accounts_ok toAddress K c" and "h \<noteq> 0" and "tracked h A Q c" and "a \<in> A"
  shows "\<exists>c'. ac_addAddress a h c = Inr c' \<and> accounts_ok toAddress K c' \<and> tracked h A Q c'
    \<and> stripped h (ac_stateByAddress c') = stripped h (ac_stateByAddress c)
    \<and> same_rest c c'
    \<and> dom (ac_stateByAddress c') = insert a (dom (ac_stateByAddress c))"
proof -
  have st: "states_ok toAddress K c" and ks: "keys_ok c" using assms(1) by (simp_all add: accounts_ok_def)
  obtain c' s where c': "ac_addAddress a h c = Inr c'" "states_ok toAddress K c'" "c' = c\<lparr>ac_stateByAddress := (ac_stateByAddress c)(a \<mapsto> s)\<rparr>"
    "account_ok toAddress K (ac_options c) a s"
    "ac_stateByAddress c a = Some s \<or> ac_stateByAddress c a = None \<and> as_AddressHeight s = h \<and> as_PublicKeyHeight s = 0"
    by (rule addAddress_step [OF st assms(2)])
  have "keys_ok c'" using ks c'(5) unfolding keys_ok_def c'(3) by auto
  moreover have "tracked h A Q c'" using assms(2-4) c'(5) unfolding tracked_def c'(3) by auto
  moreover have "stripped h (ac_stateByAddress c') = stripped h (ac_stateByAddress c)"
    using c'(5) unfolding c'(3) by (auto simp: stripped_upd stripped_def fun_eq_iff)
  ultimately show ?thesis using c' by (auto simp: accounts_ok_def)
qed

lemma addPublicKey_inv:
  assumes "accounts_ok toAddress K c" and "h \<noteq> 0" and "tracked h A Q c" and "k \<in> Q" and "k \<in> K" and "inj_on toAddress K"
  shows "\<exists>c'. ac_addPublicKey toAddress k h c = Inr c' \<and> accounts_ok toAddress K c' \<and> tracked h A Q c'
    \<and> stripped h (ac_stateByAddress c') = stripped h (ac_stateByAddress c)
    \<and> same_rest c c'
    \<and> dom (ac_stateByAddress c') = insert (toAddress k) (dom (ac_stateByAddress c))"
proof (cases "ac_keyToAddress c k")
  case (Some a)
  then obtain s where s: "ac_stateByAddress c a = Some s" "as_PublicKeyHeight s \<noteq> 0" "as_PublicKey s = k"
    using keys_okD assms(1) unfolding accounts_ok_def by blast
  then have "toAddress k = a" using assms(1) by (auto simp: accounts_ok_def states_ok_def account_ok_def)
  then show ?thesis using assms s Some by (auto simp: ac_addPublicKey_def ac_getAddress_def ac_addAddress_def)
next
  case None
  let ?a = "toAddress k" and ?c = "c\<lparr>ac_keyToAddress := (ac_keyToAddress c)(k \<mapsto> toAddress k)\<rparr>"
  have st: "states_ok toAddress K ?c" and ks: "keys_ok c" using assms(1) by (simp_all add: accounts_ok_def states_ok_def)
  obtain c1 s where c1: "ac_addAddress ?a h ?c = Inr c1" "states_ok toAddress K c1" "c1 = ?c\<lparr>ac_stateByAddress := (ac_stateByAddress ?c)(?a \<mapsto> s)\<rparr>"
    "account_ok toAddress K (ac_options ?c) ?a s"
    "ac_stateByAddress ?c ?a = Some s \<or> ac_stateByAddress ?c ?a = None \<and> as_AddressHeight s = h \<and> as_PublicKeyHeight s = 0"
    by (rule addAddress_step [OF st assms(2)])
  have zero: "as_PublicKeyHeight s = 0"
  proof (rule ccontr)
    assume nz: "as_PublicKeyHeight s \<noteq> 0"
    then have "as_PublicKey s = k" using c1(4) inj_onD [OF assms(6) _ _ assms(5), of "as_PublicKey s"] by (simp add: account_ok_def)
    moreover have "ac_stateByAddress c ?a = Some s" using nz c1(5) by auto
    ultimately have "ac_keyToAddress c k = Some ?a" using nz ks unfolding keys_ok_def by blast
    then show False using None by simp
  qed
  define s' where "s' = s\<lparr>as_PublicKey := k, as_PublicKeyHeight := h\<rparr>"
  define c' where "c' = ?c\<lparr>ac_stateByAddress := (ac_stateByAddress c)(?a \<mapsto> s')\<rparr>"
  have eq: "ac_addPublicKey toAddress k h c = Inr c'"
    using c1(1,3) zero None ac_find_ok [OF c1(2)]
    by (simp add: ac_addPublicKey_def ac_getAddress_def ac_get_def ac_write_def c'_def s'_def del: bind_result_Inr_iff)
  have "account_ok toAddress K (ac_options c) ?a s'" using c1(4) assms(2,5) by (simp add: account_ok_def s'_def)
  then have "states_ok toAddress K c'" using assms(1) by (simp add: accounts_ok_def states_ok_def c'_def)
  moreover have "keys_ok c'"
    unfolding keys_ok_def
  proof (intro allI)
    fix k' a'
    show "ac_keyToAddress c' k' = Some a' \<longleftrightarrow> (\<exists>s. ac_stateByAddress c' a' = Some s \<and> as_PublicKeyHeight s \<noteq> 0 \<and> as_PublicKey s = k')"
      using ks [unfolded keys_ok_def, rule_format, of k' a'] c1(5) zero None assms(2) by (auto simp: c'_def s'_def)
  qed
  moreover have "tracked h A Q c'" using assms(2-4) c1(5) unfolding tracked_def c'_def s'_def by auto
  moreover have "stripped h (ac_stateByAddress c') = stripped h (ac_stateByAddress c)"
    using c1(4,5) zero assms(2) by (auto simp: c'_def s'_def stripped_upd stripped_def fun_eq_iff account_ok_def)
  ultimately show ?thesis using eq by (auto simp: accounts_ok_def c'_def)
qed


lemma removeAddress_inv:
  assumes "accounts_ok toAddress K c" and "tracked h (insert a A) Q c" and "h \<noteq> 0"
  shows "\<exists>c'. ac_removeAddress (h, a) c = Inr c' \<and> accounts_ok toAddress K c' \<and> tracked h A Q c'
    \<and> stripped h (ac_stateByAddress c') = stripped h (ac_stateByAddress c)
    \<and> same_rest c c'"
proof -
  have st: "states_ok toAddress K c" and ks: "keys_ok c" using assms(1) by (simp_all add: accounts_ok_def)
  show ?thesis
  proof (cases "\<exists>s. ac_stateByAddress c a = Some s \<and> as_AddressHeight s = h")
    case False
    then have "tracked h A Q c" using assms(2) unfolding tracked_def by blast
    then show ?thesis using False assms(1) by (auto simp: ac_removeAddress_def ac_find_ok [OF st] split: option.splits)
  next
    case True
    then obtain s where s: "ac_stateByAddress c a = Some s" "as_AddressHeight s = h" by blast
    define c' where "c' = c\<lparr>ac_keyToAddress := (if 0 \<noteq> as_PublicKeyHeight s then (ac_keyToAddress c)(as_PublicKey s := None) else ac_keyToAddress c),
      ac_stateByAddress := (ac_stateByAddress c)(a := None)\<rparr>"
    have unique: "a' = a" if "ac_stateByAddress c a' = Some s'" "as_PublicKeyHeight s' \<noteq> 0" "as_PublicKeyHeight s \<noteq> 0" "as_PublicKey s' = as_PublicKey s" for a' s'
      using states_okD [OF st that(1)] states_okD [OF st s(1)] that by (simp add: account_ok_def)
    have "ac_removeAddress (h, a) c = Inr c'" using s by (simp add: ac_removeAddress_def ac_find_ok [OF st] c'_def)
    moreover have "states_ok toAddress K c'" using st by (simp add: states_ok_def c'_def)
    moreover have "keys_ok c'"
      unfolding keys_ok_def
    proof (intro allI)
      fix k a'
      show "ac_keyToAddress c' k = Some a' \<longleftrightarrow> (\<exists>s'. ac_stateByAddress c' a' = Some s' \<and> as_PublicKeyHeight s' \<noteq> 0 \<and> as_PublicKey s' = k)"
      proof (cases "a' = a")
        case True
        then show ?thesis using ks [unfolded keys_ok_def, rule_format, of k a] s(1) by (auto simp: c'_def)
      next
        case False
        then have "as_PublicKey s' \<noteq> as_PublicKey s" if "ac_stateByAddress c a' = Some s'" "as_PublicKeyHeight s' \<noteq> 0" "as_PublicKeyHeight s \<noteq> 0" for s'
          using unique that by blast
        then show ?thesis using ks [unfolded keys_ok_def, rule_format, of k a'] False by (auto simp: c'_def)
      qed
    qed
    moreover have "tracked h A Q c'" using assms(2) unfolding tracked_def c'_def by auto
    moreover have "stripped h (ac_stateByAddress c') = stripped h (ac_stateByAddress c)"
      using s by (auto simp: c'_def stripped_def fun_eq_iff)
    ultimately show ?thesis by (auto simp: accounts_ok_def c'_def)
  qed
qed

lemma removePublicKey_inv:
  assumes "accounts_ok toAddress K c" and "tracked h {} (insert k Q) c" and "h \<noteq> 0"
  shows "\<exists>c'. ac_removePublicKey Linked (h, k) c = Inr c' \<and> accounts_ok toAddress K c' \<and> tracked h {} Q c'
    \<and> stripped h (ac_stateByAddress c') = stripped h (ac_stateByAddress c)
    \<and> same_rest c c'"
proof -
  have st: "states_ok toAddress K c" and ks: "keys_ok c" using assms(1) by (simp_all add: accounts_ok_def)
  show ?thesis
  proof (cases "\<exists>a s. ac_stateByAddress c a = Some s \<and> as_PublicKeyHeight s = h \<and> as_PublicKey s = k")
    case False
    then have "tracked h {} Q c" using assms(2) unfolding tracked_def by blast
    moreover have "ac_removePublicKey Linked (h, k) c = Inr c"
      using False keys_okD [OF ks] by (fastforce simp: ac_removePublicKey_def ac_findKey_ok [OF st] split: option.splits)
    ultimately show ?thesis using assms(1) by auto
  next
    case True
    then obtain a s where s: "ac_stateByAddress c a = Some s" "as_PublicKeyHeight s = h" "as_PublicKey s = k" by blast
    have ok: "as_Address s = a" "toAddress k = a" using states_okD [OF st s(1)] s(2,3) assms(3) by (simp_all add: account_ok_def)
    have unique: "a' = a" if "ac_stateByAddress c a' = Some s'" "as_PublicKeyHeight s' \<noteq> 0" "as_PublicKey s' = k" for a' s'
      using states_okD [OF st that(1)] that ok(2) by (simp add: account_ok_def)
    have "ac_keyToAddress c k = Some a" using ks s assms(3) unfolding keys_ok_def by blast
    define r where "r = (if as_AddressHeight s = h then None else Some (s\<lparr>as_PublicKeyHeight := 0, as_PublicKey := zero_key\<rparr>))"
    define c' where "c' = c\<lparr>ac_keyToAddress := (ac_keyToAddress c)(k := None), ac_stateByAddress := (ac_stateByAddress c)(a := r)\<rparr>"
    have "ac_removePublicKey Linked (h, k) c = Inr c'"
      using s ok(1) \<open>ac_keyToAddress c k = Some a\<close>
      by (simp add: ac_removePublicKey_def ac_findKey_ok [OF st] c'_def r_def ac_write_def Let_def)
    moreover have "states_ok toAddress K c'"
      using st states_okD [OF st s(1)] by (auto simp: states_ok_def c'_def r_def account_ok_def split: if_splits)
    moreover have "keys_ok c'" using ks s unique unfolding keys_ok_def c'_def r_def by (auto split: if_splits; metis option.inject)
    moreover have "tracked h {} Q c'"
      unfolding tracked_def c'_def
    proof (intro allI impI)
      fix a' s' assume s': "ac_stateByAddress (c\<lparr>ac_keyToAddress := (ac_keyToAddress c)(k := None), ac_stateByAddress := (ac_stateByAddress c)(a := r)\<rparr>) a' = Some s'"
      show "(as_AddressHeight s' = h \<longrightarrow> a' \<in> {} \<or> as_PublicKeyHeight s' = h \<and> as_PublicKey s' \<in> Q) \<and> (as_PublicKeyHeight s' = h \<longrightarrow> as_PublicKey s' \<in> Q)"
      proof (cases "a' = a")
        case True
        then show ?thesis using s' assms(3) by (auto simp: r_def split: if_splits)
      next
        case False
        then have "ac_stateByAddress c a' = Some s'" using s' by simp
        then show ?thesis using assms(2) [unfolded tracked_def, rule_format, of a' s'] assms(3) unique [of a' s'] False by auto
      qed
    qed
    moreover have "stripped h (ac_stateByAddress c') = stripped h (ac_stateByAddress c)"
      using s assms(3) by (auto simp: c'_def r_def stripped_def fun_eq_iff)
    ultimately show ?thesis by (auto simp: accounts_ok_def c'_def)
  qed
qed

section \<open>Blocks of account notifications\<close>

fun notified :: "(Key \<Rightarrow> Address) \<Rightarrow> (bytes \<Rightarrow> Address) \<Rightarrow> account_notification \<Rightarrow> Address" where
  "notified toAddress resolve (AccountAddressNotification a) = ra_resolved resolve a"
| "notified toAddress resolve (AccountPublicKeyNotification k) = toAddress k"

definition notified_addresses :: "(bytes \<Rightarrow> Address) \<Rightarrow> account_notification list \<Rightarrow> Address set" where
  "notified_addresses resolve ns = ra_resolved resolve ` {a. AccountAddressNotification a \<in> set ns}"

definition notified_keys :: "account_notification list \<Rightarrow> Key set" where
  "notified_keys ns = {k. AccountPublicKeyNotification k \<in> set ns}"

lemma notified_Cons:
  "notified_addresses resolve (AccountAddressNotification a # ns) = insert (ra_resolved resolve a) (notified_addresses resolve ns)"
  "notified_addresses resolve (AccountPublicKeyNotification k # ns) = notified_addresses resolve ns"
  "notified_keys (AccountAddressNotification a # ns) = notified_keys ns"
  "notified_keys (AccountPublicKeyNotification k # ns) = insert k (notified_keys ns)"
  by (auto simp: notified_addresses_def notified_keys_def)

lemma commit_accounts:
  assumes "accounts_ok toAddress K c" and "h \<noteq> 0" and "inj_on toAddress K" and "tracked h A Q c"
    and "notified_addresses resolve ns \<subseteq> A" and "notified_keys ns \<subseteq> Q \<inter> K"
  shows "\<exists>c'. foldM (Account_observer toAddress resolve Commit h) ns c = Inr c' \<and> accounts_ok toAddress K c' \<and> tracked h A Q c'
    \<and> stripped h (ac_stateByAddress c') = stripped h (ac_stateByAddress c) \<and> same_rest c c'
    \<and> dom (ac_stateByAddress c') = notified toAddress resolve ` set ns \<union> dom (ac_stateByAddress c)"
  using assms
proof (induction ns arbitrary: c)
  case (Cons n ns)
  have "\<exists>c'. Account_observer toAddress resolve Commit h n c = Inr c' \<and> accounts_ok toAddress K c' \<and> tracked h A Q c'
    \<and> stripped h (ac_stateByAddress c') = stripped h (ac_stateByAddress c) \<and> same_rest c c'
    \<and> dom (ac_stateByAddress c') = insert (notified toAddress resolve n) (dom (ac_stateByAddress c))"
    using Cons.prems addAddress_inv [OF Cons.prems(1,2,4)] addPublicKey_inv [OF Cons.prems(1,2,4) _ _ Cons.prems(3)]
    by (cases n) (auto simp: notified_Cons)
  then obtain c1 where c1: "Account_observer toAddress resolve Commit h n c = Inr c1" "accounts_ok toAddress K c1" "tracked h A Q c1"
    "stripped h (ac_stateByAddress c1) = stripped h (ac_stateByAddress c)" "same_rest c c1"
    "dom (ac_stateByAddress c1) = insert (notified toAddress resolve n) (dom (ac_stateByAddress c))" by blast
  have "notified_addresses resolve ns \<subseteq> A" "notified_keys ns \<subseteq> Q \<inter> K"
    using Cons.prems(5,6) by (cases n; auto simp: notified_Cons)+
  from Cons.IH [OF c1(2) Cons.prems(2,3) c1(3) this] c1 show ?case
    by auto
qed auto

lemma rollback_accounts:
  "\<exists>qa qk. foldM (Account_observer toAddress resolve Rollback h) ns c = Inr (c\<lparr>ac_queuedRemoveByAddress := qa, ac_queuedRemoveByPublicKey := qk\<rparr>)
    \<and> set qa = set (ac_queuedRemoveByAddress c) \<union> Pair h ` notified_addresses resolve ns
    \<and> set qk = set (ac_queuedRemoveByPublicKey c) \<union> Pair h ` notified_keys ns"
proof (induction ns arbitrary: c)
  case (Cons n ns)
  show ?case
  proof (cases n)
    case (AccountAddressNotification a)
    then show ?thesis using Cons.IH [of "ac_queueRemoveAddress (ra_resolved resolve a) h c"]
      by (auto simp: notified_Cons ac_queueRemoveAddress_def)
  next
    case (AccountPublicKeyNotification k)
    then show ?thesis using Cons.IH [of "ac_queueRemovePublicKey k h c"]
      by (auto simp: notified_Cons ac_queueRemovePublicKey_def)
  qed
next
  case Nil
  show ?case
    by (intro exI [of _ "ac_queuedRemoveByAddress c"] exI [of _ "ac_queuedRemoveByPublicKey c"])
      (simp add: notified_addresses_def notified_keys_def)
qed

lemma remove_addresses:
  assumes "accounts_ok toAddress K c" and "h \<noteq> 0" and "tracked h (set as) Q c"
  shows "\<exists>c'. foldM ac_removeAddress (map (Pair h) as) c = Inr c' \<and> accounts_ok toAddress K c' \<and> tracked h {} Q c'
    \<and> stripped h (ac_stateByAddress c') = stripped h (ac_stateByAddress c) \<and> same_rest c c'"
  using assms
proof (induction as arbitrary: c)
  case (Cons a as)
  obtain c1 where c1: "ac_removeAddress (h, a) c = Inr c1" "accounts_ok toAddress K c1" "tracked h (set as) Q c1"
    "stripped h (ac_stateByAddress c1) = stripped h (ac_stateByAddress c)" "same_rest c c1"
    using removeAddress_inv [OF Cons.prems(1) _ Cons.prems(2), of a "set as" Q] Cons.prems(3) by auto
  from Cons.IH [OF c1(2) Cons.prems(2) c1(3)] c1 show ?case by auto
qed auto

lemma remove_keys:
  assumes "accounts_ok toAddress K c" and "h \<noteq> 0" and "tracked h {} (set ks) c"
  shows "\<exists>c'. foldM (ac_removePublicKey Linked) (map (Pair h) ks) c = Inr c' \<and> accounts_ok toAddress K c' \<and> tracked h {} {} c'
    \<and> stripped h (ac_stateByAddress c') = stripped h (ac_stateByAddress c) \<and> same_rest c c'"
  using assms
proof (induction ks arbitrary: c)
  case (Cons k ks)
  obtain c1 where c1: "ac_removePublicKey Linked (h, k) c = Inr c1" "accounts_ok toAddress K c1" "tracked h {} (set ks) c1"
    "stripped h (ac_stateByAddress c1) = stripped h (ac_stateByAddress c)" "same_rest c c1"
    using removePublicKey_inv [OF Cons.prems(1) _ Cons.prems(2), of k "set ks"] Cons.prems(3) by auto
  from Cons.IH [OF c1(2) Cons.prems(2) c1(3)] c1 show ?case by auto
qed auto

lemma keys_determined:
  assumes "keys_ok c" and "keys_ok c'" and "ac_stateByAddress c = ac_stateByAddress c'"
  shows "ac_keyToAddress c = ac_keyToAddress c'"
proof
  fix k
  have "ac_keyToAddress c k = Some a \<longleftrightarrow> ac_keyToAddress c' k = Some a" for a using assms by (simp add: keys_ok_def)
  then show "ac_keyToAddress c k = ac_keyToAddress c' k" by (metis option.exhaust)
qed

lemma queue_order: "set xs = Pair h ` A \<Longrightarrow> xs = map (Pair h) (map snd xs) \<and> set (map snd xs) = A"
  by (auto simp: image_iff intro!: nth_equalityI) (metis imageE nth_mem snd_conv)+

section \<open>Properties\<close>

text \<open>
  C26. Undoing a block takes back exactly the accounts and public keys it has introduced. However many notifications of a block name the same account, by
  its address or by its public key and in any order, all accounts exist afterwards; when the block is undone and the queued removals are
  committed with linked addresses, in whatever order the hash sets are iterated, the cache is what it was, accounts that the block only learned the key of
  included. This is stated for a consistent cache without queued removals in which no account or key has the (non-zero) height of the block already, and
  for public keys of which no two have the same address.
\<close>

theorem account_creation_rollback:
  assumes "accounts_ok toAddress K c" and "inj_on toAddress K" and "notified_keys ns \<subseteq> K" and "h \<noteq> 0"
    and "\<And>a s. ac_stateByAddress c a = Some s \<Longrightarrow> as_AddressHeight s \<noteq> h \<and> as_PublicKeyHeight s \<noteq> h"
    and "ac_queuedRemoveByAddress c = []" and "ac_queuedRemoveByPublicKey c = []"
    and "\<And>l. set (addressOrder l) = set l" and "\<And>l. set (keyOrder l) = set l"
  shows "\<exists>c1 c2. foldM (Account_observer toAddress resolve Commit h) ns c = Inr c1
    \<and> dom (ac_stateByAddress c1) = notified toAddress resolve ` set ns \<union> dom (ac_stateByAddress c)
    \<and> foldM (Account_observer toAddress resolve Rollback h) (rev ns) c1 = Inr c2
    \<and> ac_commitRemovals addressOrder keyOrder Linked c2 = Inr c"
proof -
  let ?A = "notified_addresses resolve ns" and ?Q = "notified_keys ns"
  have "tracked h ?A ?Q c" using assms(5) by (auto simp: tracked_def)
  then obtain c1 where c1: "foldM (Account_observer toAddress resolve Commit h) ns c = Inr c1" "accounts_ok toAddress K c1"
    "tracked h ?A ?Q c1" "stripped h (ac_stateByAddress c1) = stripped h (ac_stateByAddress c)" "same_rest c c1"
    "dom (ac_stateByAddress c1) = notified toAddress resolve ` set ns \<union> dom (ac_stateByAddress c)"
    using commit_accounts [OF assms(1,4,2), of ?A ?Q resolve ns] assms(3) by auto
  have strip: "stripped h (ac_stateByAddress c) = ac_stateByAddress c"
    using assms(5) by (intro stripped_untracked) (auto simp: tracked_def)
  have rev: "notified_addresses resolve (rev ns) = ?A" "notified_keys (rev ns) = ?Q" by (simp_all add: notified_addresses_def notified_keys_def)
  obtain qa qk where q: "foldM (Account_observer toAddress resolve Rollback h) (rev ns) c1
      = Inr (c1\<lparr>ac_queuedRemoveByAddress := qa, ac_queuedRemoveByPublicKey := qk\<rparr>)" "set qa = Pair h ` ?A" "set qk = Pair h ` ?Q"
    using rollback_accounts [of toAddress resolve h "rev ns" c1] c1(5) assms(6,7) rev by auto
  define c2 where "c2 = c1\<lparr>ac_queuedRemoveByAddress := qa, ac_queuedRemoveByPublicKey := qk\<rparr>"
  have c2: "accounts_ok toAddress K c2" "tracked h ?A ?Q c2" "ac_stateByAddress c2 = ac_stateByAddress c1"
    using c1(2,3) by (simp_all add: c2_def accounts_ok_def states_ok_def keys_ok_def tracked_def)
  obtain as where as: "addressOrder qa = map (Pair h) as" "set as = ?A" using queue_order [of "addressOrder qa" h ?A] q(2) assms(8) by metis
  obtain ks where ks: "keyOrder qk = map (Pair h) ks" "set ks = ?Q" using queue_order [of "keyOrder qk" h ?Q] q(3) assms(9) by metis
  obtain c3 where c3: "foldM ac_removeAddress (map (Pair h) as) c2 = Inr c3" "accounts_ok toAddress K c3" "tracked h {} (set ks) c3"
    "stripped h (ac_stateByAddress c3) = stripped h (ac_stateByAddress c2)" "same_rest c2 c3"
    using remove_addresses [OF c2(1) assms(4), of as ?Q] c2(2) as(2) ks(2) by auto
  obtain c4 where c4: "foldM (ac_removePublicKey Linked) (map (Pair h) ks) c3 = Inr c4" "accounts_ok toAddress K c4" "tracked h {} {} c4"
    "stripped h (ac_stateByAddress c4) = stripped h (ac_stateByAddress c3)" "same_rest c3 c4"
    using remove_keys [OF c3(2) assms(4) c3(3)] by blast
  have states: "ac_stateByAddress c4 = ac_stateByAddress c"
    using stripped_untracked [OF c4(3)] c4(4) c3(4) c2(3) c1(4) strip by simp
  moreover have "ac_keyToAddress c4 = ac_keyToAddress c"
    using keys_determined [OF _ _ states] c4(2) assms(1) by (simp add: accounts_ok_def)
  ultimately have "c4\<lparr>ac_queuedRemoveByAddress := [], ac_queuedRemoveByPublicKey := []\<rparr> = c"
    using c4(5) c3(5) c1(5) assms(6,7) by (intro AccountStateCacheDelta.equality) (simp_all add: c2_def)
  then have "ac_commitRemovals addressOrder keyOrder Linked c2 = Inr c"
    using c3(1) c4(1) as(1) ks(1) by (simp add: ac_commitRemovals_def c2_def)
  then show ?thesis using c1(1,6) q(1) by (auto simp: c2_def)
qed

definition sample_options :: AccountCacheOptions where
  "sample_options = \<lparr>opt_NetworkIdentifier = 104, opt_ImportanceGrouping = 4, opt_VotingSetGrouping = 4, opt_MinHarvesterBalance = 10,
     opt_MaxHarvesterBalance = 100, opt_MinVoterBalance = 20, opt_CurrencyMosaicId = 0, opt_HarvestingMosaicId = 5\<rparr>"

definition sample_accounts :: AccountStateCacheDelta where
  "sample_accounts = \<lparr>ac_stateByAddress = [[7] \<mapsto> AccountState_new [7] 1], ac_keyToAddress = Map.empty, ac_options = sample_options,
     ac_highValueAccountsUpdater = HighValueAccountsUpdater_new sample_options \<lparr>hva_addresses = {}, hva_removedAddresses = {}, hva_accountHistories = (\<lambda>_. None)\<rparr>,
     ac_queuedRemoveByAddress = [], ac_queuedRemoveByPublicKey = []\<rparr>"

lemma sample_accounts_ok: "accounts_ok id UNIV sample_accounts"
  using balances_ok_empty(1)
  by (auto simp: accounts_ok_def states_ok_def keys_ok_def sample_accounts_def account_ok_def AccountState_new_def sample_options_def
      empty_balances_def split: if_splits)

definition sample_account_notifications :: "account_notification list" where
  "sample_account_notifications = [AccountPublicKeyNotification [7], AccountAddressNotification (Unresolved [8]), AccountPublicKeyNotification [9],
     AccountAddressNotification (Resolved [9]), AccountPublicKeyNotification [8]]"

theorem account_creation_rollback_witness:
  "\<exists>c1 c2. foldM (Account_observer id id Commit 5) sample_account_notifications sample_accounts = Inr c1
    \<and> dom (ac_stateByAddress c1) = {[7], [8], [9]}
    \<and> foldM (Account_observer id id Rollback 5) (rev sample_account_notifications) c1 = Inr c2
    \<and> ac_commitRemovals rev id Linked c2 = Inr sample_accounts"
proof -
  have "as_AddressHeight s \<noteq> 5 \<and> as_PublicKeyHeight s \<noteq> 5" if "ac_stateByAddress sample_accounts a = Some s" for a s
    using that by (auto simp: sample_accounts_def AccountState_new_def split: if_splits)
  moreover have "ac_queuedRemoveByAddress sample_accounts = []" "ac_queuedRemoveByPublicKey sample_accounts = []"
    by (simp_all add: sample_accounts_def)
  moreover have "notified id id ` set sample_account_notifications \<union> dom (ac_stateByAddress sample_accounts) = {[7], [8], [9]}"
    by (auto simp: sample_account_notifications_def sample_accounts_def)
  ultimately show ?thesis
    using account_creation_rollback [OF sample_accounts_ok, of sample_account_notifications 5 rev id id] by auto
qed

end
