(* ===== verification/Core_Balances.thy ===== *)
theory Core_Balances
  imports Account_Cache
begin

text \<open>
  The money of the chain: inflation (\<^verbatim>\<open>catapult/model/InflationCalculator.cpp\<close>), fees (\<^verbatim>\<open>FeeUtils.cpp\<close>, \<^verbatim>\<open>BlockUtils.cpp\<close>,
  \<^verbatim>\<open>NotificationPublisher.cpp\<close>), and the validators and observers of \<^verbatim>\<open>plugins/coresystem\<close> that check and change balances
  (\<^verbatim>\<open>BalanceValidator.cpp\<close>, \<^verbatim>\<open>BalanceTransferObserver.cpp\<close>, \<^verbatim>\<open>BalanceDebitObserver.cpp\<close>, \<^verbatim>\<open>HarvestFeeObserver.cpp\<close>).

  Resolvers are arguments. Receipts are returned next to the cache. Of the notifications of a transaction only those that
  change balances are modelled; the ones of its plugin are an argument. Of a transaction, a block header and a block notification the
  records hold the fields that fees depend on; the address of the signer of a transaction stands for the key it is computed from.
\<close>

section \<open>Inflation\<close>

type_synonym InflationCalculator = "(Height, Amount) omap"

definition inflation_size :: "InflationCalculator \<Rightarrow> nat" where
  "inflation_size m = length m"

definition inflation_contains :: "Height \<Rightarrow> Amount \<Rightarrow> InflationCalculator \<Rightarrow> bool" where
  "inflation_contains height amount m \<longleftrightarrow> map_of m height = Some amount"

fun spot_loop :: "Height \<Rightarrow> Amount \<Rightarrow> InflationCalculator \<Rightarrow> Amount" where
  "spot_loop height amount [] = amount"
| "spot_loop height amount ((h, a) # m) = (if height < h then amount else spot_loop height a m)"

definition getSpotAmount :: "Height \<Rightarrow> InflationCalculator \<Rightarrow> Amount" where
  "getSpotAmount height m = spot_loop height 0 m"

fun cumulative_loop :: "Height \<Rightarrow> Amount \<Rightarrow> Amount \<Rightarrow> Height \<Rightarrow> InflationCalculator \<Rightarrow> Amount \<times> Amount \<times> Height" where
  "cumulative_loop height totalAmount currentAmount currentHeight [] = (totalAmount, currentAmount, currentHeight)"
| "cumulative_loop height totalAmount currentAmount currentHeight ((h, a) # m) =
    (let numBlocks = (if height < h then height else h) - currentHeight; totalAmount = totalAmount + currentAmount * numBlocks
     in if height \<le> h then (totalAmount, a, h) else cumulative_loop height totalAmount a h m)"

definition getCumulativeAmount :: "Height \<Rightarrow> InflationCalculator \<Rightarrow> Amount" where
  "getCumulativeAmount height m =
    (if 0 = height then 0
     else let (totalAmount, currentAmount, currentHeight) = cumulative_loop height 0 0 1 m
          in if currentHeight < height then totalAmount + currentAmount * (height - currentHeight) else totalAmount)"

fun sumAll_loop :: "Height \<times> Amount \<Rightarrow> u64 \<Rightarrow> InflationCalculator \<Rightarrow> (Amount \<times> Amount) option" where
  "sumAll_loop current totalAmountRaw [] = Some (totalAmountRaw, snd current)"
| "sumAll_loop current totalAmountRaw (p # m) =
    (let numBlocks = fst p - fst current
     in if 0 \<noteq> numBlocks \<and> snd current > (- 1) div numBlocks then None
        else let summand = snd current * numBlocks
             in if totalAmountRaw > (- 1) - summand then None else sumAll_loop p (totalAmountRaw + summand) m)"

definition sumAll :: "InflationCalculator \<Rightarrow> Amount \<times> bool" where
  "sumAll m = (case sumAll_loop (1, 0) 0 m of None \<Rightarrow> (0, False)
    | Some (totalAmountRaw, amount) \<Rightarrow> let isValid = (0 = amount) in (if isValid then totalAmountRaw else 0, isValid))"

definition inflation_add :: "Height \<Rightarrow> Amount \<Rightarrow> InflationCalculator \<Rightarrow> InflationCalculator result" where
  "inflation_add height amount m =
    (if 0 = height \<or> m \<noteq> [] \<and> fst (last m) \<ge> height then Inl invalid_argument else Inr (omap_insert height amount m))"

section \<open>Fees\<close>

type_synonym BlockFeeMultiplier = u32

record Transaction =
  tx_Size :: u32
  tx_Type :: u16
  tx_SignerAddress :: Address
  tx_MaxFee :: Amount

definition CalculateTransactionFee :: "BlockFeeMultiplier \<Rightarrow> Transaction \<Rightarrow> Amount" where
  "CalculateTransactionFee feeMultiplier transaction = ucast feeMultiplier * ucast (tx_Size transaction)"

definition CalculateTransactionMaxFeeMultiplier :: "Transaction \<Rightarrow> BlockFeeMultiplier result" where
  "CalculateTransactionMaxFeeMultiplier transaction =
    (if tx_Size transaction = 0 then Inl undefined_behaviour
     else let rawMultiplier = tx_MaxFee transaction div ucast (tx_Size transaction)
          in Inr (if rawMultiplier < ucast (- 1 :: u32) then ucast rawMultiplier else - 1))"

record ExtendedBlockTransactionsInfo =
  bti_Count :: u32
  bti_DeepCount :: u32
  bti_TotalFee :: Amount

text \<open>The number of embedded transactions is asked from the plugin of the transaction type, when there is one.\<close>

definition add_transaction_info :: "(u16 \<Rightarrow> (Transaction \<Rightarrow> u32) option) \<Rightarrow> BlockFeeMultiplier \<Rightarrow> Transaction \<Rightarrow> ExtendedBlockTransactionsInfo \<Rightarrow> ExtendedBlockTransactionsInfo" where
  "add_transaction_info findPlugin feeMultiplier transaction info =
    info\<lparr>bti_TotalFee := bti_TotalFee info + CalculateTransactionFee feeMultiplier transaction, bti_Count := bti_Count info + 1,
      bti_DeepCount := (case findPlugin (tx_Type transaction) of None \<Rightarrow> bti_DeepCount info
        | Some embeddedCount \<Rightarrow> bti_DeepCount info + (1 + embeddedCount transaction))\<rparr>"

definition CalculateBlockTransactionsInfo :: "(u16 \<Rightarrow> (Transaction \<Rightarrow> u32) option) \<Rightarrow> BlockFeeMultiplier \<Rightarrow> Transaction list \<Rightarrow> ExtendedBlockTransactionsInfo" where
  "CalculateBlockTransactionsInfo findPlugin feeMultiplier transactions =
    fold (add_transaction_info findPlugin feeMultiplier) transactions \<lparr>bti_Count = 0, bti_DeepCount = 0, bti_TotalFee = 0\<rparr>"

section \<open>Balance notifications\<close>

datatype AmountType = Static | Dynamic

datatype balance_notification =
    BalanceTransferNotification ResolvableAddress ResolvableAddress u64 Amount AmountType
  | BalanceDebitNotification ResolvableAddress u64 Amount

record balance_context =
  bc_resolveAddress :: "bytes \<Rightarrow> Address"
  bc_resolveMosaic :: "u64 \<Rightarrow> MosaicId"
  bc_DynamicFeeMultiplier :: BlockFeeMultiplier

definition TryGetEffectiveAmount :: "BlockFeeMultiplier \<Rightarrow> Amount \<Rightarrow> AmountType \<Rightarrow> Amount \<times> bool" where
  "TryGetEffectiveAmount feeMultiplier amount transferAmountType =
    (if transferAmountType = Static then (amount, True)
     else let effectiveAmount = amount * ucast feeMultiplier
          in if 0 = feeMultiplier then (effectiveAmount, True) else (effectiveAmount, (- 1 :: u64) div ucast feeMultiplier \<ge> amount))"

datatype balance_failure = Failure_Core_Insufficient_Balance

definition CheckBalance :: "Address \<Rightarrow> MosaicId \<Rightarrow> Amount \<times> bool \<Rightarrow> AccountStateCacheDelta \<Rightarrow> balance_failure ValidationResult" where
  "CheckBalance sender mosaicId effective c =
    (case ac_stateByAddress c sender of None \<Rightarrow> Failure Failure_Core_Insufficient_Balance
     | Some s \<Rightarrow> if snd effective \<and> balance_get (as_Balances s) mosaicId \<ge> fst effective then Success else Failure Failure_Core_Insufficient_Balance)"

fun Balance_validator :: "balance_context \<Rightarrow> balance_notification \<Rightarrow> AccountStateCacheDelta \<Rightarrow> balance_failure ValidationResult" where
  "Balance_validator ctx (BalanceTransferNotification sender recipient mosaicId amount amountType) c =
    CheckBalance (ra_resolved (bc_resolveAddress ctx) sender) (bc_resolveMosaic ctx mosaicId)
      (TryGetEffectiveAmount (bc_DynamicFeeMultiplier ctx) amount amountType) c"
| "Balance_validator ctx (BalanceDebitNotification sender mosaicId amount) c =
    CheckBalance (ra_resolved (bc_resolveAddress ctx) sender) (bc_resolveMosaic ctx mosaicId) (amount, True) c"

text \<open>A change of the balances of an account that has been found.\<close>

definition change_balances :: "Address \<Rightarrow> (AccountBalances \<Rightarrow> AccountBalances result) \<Rightarrow> AccountStateCacheDelta \<Rightarrow> AccountStateCacheDelta result" where
  "change_balances a f c = (case ac_stateByAddress c a of None \<Rightarrow> Inl invalid_argument
    | Some s \<Rightarrow> bind_result (f (as_Balances s)) (\<lambda>b. Inr (ac_write a (s\<lparr>as_Balances := b\<rparr>) c)))"

definition Transfer :: "Address \<Rightarrow> Address \<Rightarrow> MosaicId \<Rightarrow> Amount \<Rightarrow> AccountStateCacheDelta \<Rightarrow> AccountStateCacheDelta result" where
  "Transfer debitAddress creditAddress mosaicId amount c =
    bind_result (change_balances debitAddress (\<lambda>b. debit b mosaicId amount) c) (change_balances creditAddress (\<lambda>b. credit b mosaicId amount))"

definition BalanceTransfer_observer :: "NotifyMode \<Rightarrow> Address \<Rightarrow> Address \<Rightarrow> MosaicId \<Rightarrow> Amount \<Rightarrow> AccountStateCacheDelta \<Rightarrow> AccountStateCacheDelta result" where
  "BalanceTransfer_observer mode sender recipient mosaicId effectiveAmount c =
    bind_result (ac_find sender c) (\<lambda>(r1, c). bind_result (ac_find recipient c) (\<lambda>(r2, c).
      if r1 = None \<or> r2 = None then Inl invalid_argument
      else if mode = Commit then Transfer sender recipient mosaicId effectiveAmount c
      else Transfer recipient sender mosaicId effectiveAmount c))"

definition BalanceDebit_observer :: "NotifyMode \<Rightarrow> Address \<Rightarrow> MosaicId \<Rightarrow> Amount \<Rightarrow> AccountStateCacheDelta \<Rightarrow> AccountStateCacheDelta result" where
  "BalanceDebit_observer mode sender mosaicId amount c =
    bind_result (ac_find sender c) (\<lambda>(_, c).
      change_balances sender (\<lambda>b. if mode = Commit then debit b mosaicId amount else credit b mosaicId amount) c)"

fun Balance_observer :: "balance_context \<Rightarrow> NotifyMode \<Rightarrow> balance_notification \<Rightarrow> AccountStateCacheDelta \<Rightarrow> AccountStateCacheDelta result" where
  "Balance_observer ctx mode (BalanceTransferNotification sender recipient mosaicId amount amountType) =
    BalanceTransfer_observer mode (ra_resolved (bc_resolveAddress ctx) sender) (ra_resolved (bc_resolveAddress ctx) recipient)
      (bc_resolveMosaic ctx mosaicId) (if amountType = Dynamic then amount * ucast (bc_DynamicFeeMultiplier ctx) else amount)"
| "Balance_observer ctx mode (BalanceDebitNotification sender mosaicId amount) =
    BalanceDebit_observer mode (ra_resolved (bc_resolveAddress ctx) sender) (bc_resolveMosaic ctx mosaicId) amount"

text \<open>Every notification is validated and then observed; a failed validation rejects the block.\<close>

fun execute_balances :: "balance_context \<Rightarrow> balance_notification list \<Rightarrow> AccountStateCacheDelta \<Rightarrow> AccountStateCacheDelta option result" where
  "execute_balances ctx [] c = Inr (Some c)"
| "execute_balances ctx (n # ns) c =
    (if Balance_validator ctx n c = Success then bind_result (Balance_observer ctx Commit n c) (execute_balances ctx ns) else Inr None)"

text \<open>
  The balance notifications of a transaction: those of its plugin (the argument \<open>custom\<close>) before or after the debit of the fee. Without the
  header of a block, or when the harvester has marked it, the fee is the maximal fee.
\<close>

record BlockHeader =
  bh_Reserved1 :: u32
  bh_Height :: Height
  bh_FeeMultiplier :: BlockFeeMultiplier

definition transaction_fee :: "BlockHeader option \<Rightarrow> Transaction \<Rightarrow> Amount" where
  "transaction_fee pBlockHeader transaction =
    (case pBlockHeader of None \<Rightarrow> tx_MaxFee transaction
     | Some header \<Rightarrow> if 0 = bh_Reserved1 header then CalculateTransactionFee (bh_FeeMultiplier header) transaction else tx_MaxFee transaction)"

definition publishTransaction :: "u64 \<Rightarrow> Height \<Rightarrow> bool \<Rightarrow> BlockHeader option \<Rightarrow> Transaction \<times> balance_notification list \<Rightarrow> balance_notification list" where
  "publishTransaction feeMosaicId feeDebitAppliedLastForkHeight includeCustomNotifications pBlockHeader tc =
    (let (transaction, custom) = tc;
         fee = transaction_fee pBlockHeader transaction;
         shouldApplyFeeDebitLast = (case pBlockHeader of None \<Rightarrow> True | Some header \<Rightarrow> bh_Height header \<ge> feeDebitAppliedLastForkHeight)
     in (if includeCustomNotifications \<and> shouldApplyFeeDebitLast then custom else [])
        @ [BalanceDebitNotification (Resolved (tx_SignerAddress transaction)) feeMosaicId fee]
        @ (if includeCustomNotifications \<and> \<not> shouldApplyFeeDebitLast then custom else []))"

section \<open>The harvested fee\<close>

record HeightDependentAddress =
  hda_defaultAddress :: Address
  hda_addresses :: "(Address \<times> Height) list"

definition hda_trySet :: "Address \<Rightarrow> Height \<Rightarrow> HeightDependentAddress \<Rightarrow> (bool \<times> HeightDependentAddress) result" where
  "hda_trySet address endHeight d =
    (if 0 = endHeight then Inr (False, d)
     else if hda_addresses d \<noteq> [] \<and> snd (last (hda_addresses d)) \<ge> endHeight then Inl invalid_argument
     else Inr (True, d\<lparr>hda_addresses := hda_addresses d @ [(address, endHeight)]\<rparr>))"

definition hda_get :: "Height \<Rightarrow> HeightDependentAddress \<Rightarrow> Address" where
  "hda_get height d =
    (case (if height \<ge> 1 then find (\<lambda>p. height < snd p) (hda_addresses d) else None) of
      Some p \<Rightarrow> fst p | None \<Rightarrow> hda_defaultAddress d)"

record HarvestFeeOptions =
  hfo_CurrencyMosaicId :: MosaicId
  hfo_HarvestBeneficiaryPercentage :: u8
  hfo_HarvestNetworkPercentage :: u8
  hfo_HarvestNetworkFeeSinkAddress :: HeightDependentAddress

record BlockNotification =
  bn_Harvester :: Address
  bn_Beneficiary :: Address
  bn_TotalFee :: Amount

datatype receipt = Harvest_Fee_Receipt Address MosaicId Amount | Inflation_Receipt MosaicId Amount

definition ApplyFee :: "NotifyMode \<Rightarrow> MosaicId \<Rightarrow> Amount \<Rightarrow> AccountState \<Rightarrow> (receipt list \<times> AccountState) result" where
  "ApplyFee notifyMode mosaicId amount s =
    (if notifyMode = Rollback then bind_result (debit (as_Balances s) mosaicId amount) (\<lambda>b. Inr ([], s\<lparr>as_Balances := b\<rparr>))
     else bind_result (credit (as_Balances s) mosaicId amount) (\<lambda>b.
       Inr ([Harvest_Fee_Receipt (as_Address s) mosaicId amount], s\<lparr>as_Balances := b\<rparr>)))"

definition FeeApplier_apply :: "NotifyMode \<Rightarrow> MosaicId \<Rightarrow> Address \<Rightarrow> Amount \<Rightarrow> AccountStateCacheDelta \<Rightarrow> (receipt list \<times> AccountStateCacheDelta) result" where
  "FeeApplier_apply mode currencyMosaicId address amount c = ProcessForwardedAccountState address (ApplyFee mode currencyMosaicId amount) c"

definition ShouldShareFees :: "BlockNotification \<Rightarrow> u8 \<Rightarrow> bool" where
  "ShouldShareFees n harvestBeneficiaryPercentage \<longleftrightarrow> 0 < harvestBeneficiaryPercentage \<and> bn_Harvester n \<noteq> bn_Beneficiary n"

text \<open>The shares of the harvester, the network and the beneficiary.\<close>

definition harvest_amounts :: "HarvestFeeOptions \<Rightarrow> BlockNotification \<Rightarrow> Amount \<Rightarrow> Amount \<times> Amount \<times> Amount" where
  "harvest_amounts options n totalAmount =
    (let networkAmount = totalAmount * ucast (hfo_HarvestNetworkPercentage options) div 100;
         beneficiaryAmount = (if ShouldShareFees n (hfo_HarvestBeneficiaryPercentage options)
           then totalAmount * ucast (hfo_HarvestBeneficiaryPercentage options) div 100 else 0)
     in (totalAmount - networkAmount - beneficiaryAmount, networkAmount, beneficiaryAmount))"

definition HarvestFee_observer :: "HarvestFeeOptions \<Rightarrow> InflationCalculator \<Rightarrow> NotifyMode \<Rightarrow> Height \<Rightarrow> BlockNotification
    \<Rightarrow> AccountStateCacheDelta \<Rightarrow> (receipt list \<times> AccountStateCacheDelta) result" where
  "HarvestFee_observer options calculator mode height n c =
    (let inflationAmount = getSpotAmount height calculator; currency = hfo_CurrencyMosaicId options;
         (harvesterAmount, networkAmount, beneficiaryAmount) = harvest_amounts options n (bn_TotalFee n + inflationAmount)
     in bind_result (FeeApplier_apply mode currency (bn_Harvester n) harvesterAmount c) (\<lambda>(r1, c).
        bind_result (if 0 \<noteq> networkAmount
          then FeeApplier_apply mode currency (hda_get height (hfo_HarvestNetworkFeeSinkAddress options)) networkAmount c else Inr ([], c)) (\<lambda>(r2, c).
        bind_result (if 0 \<noteq> beneficiaryAmount then FeeApplier_apply mode currency (bn_Beneficiary n) beneficiaryAmount c else Inr ([], c)) (\<lambda>(r3, c).
          Inr (r1 @ r2 @ r3 @ (if 0 \<noteq> inflationAmount \<and> mode = Commit then [Inflation_Receipt currency inflationAmount] else []), c)))))"

section \<open>Inflation adds up\<close>

definition inflation_ok :: "InflationCalculator \<Rightarrow> bool" where
  "inflation_ok m \<longleftrightarrow> omap_ok m \<and> (\<forall>h \<in> fst ` set m. 1 \<le> h)"

lemma inflation_add_ok:
  assumes "inflation_ok m" and "inflation_add h a m = Inr m'"
  shows "inflation_ok m'"
proof -
  have m': "m' = omap_insert h a m" "1 \<le> h" using assms(2) by (auto simp: inflation_add_def word_le_nat_alt unat_gt_0 Suc_le_eq split: if_splits)
  then have "fst ` set m' = insert h (fst ` set m)" by simp
  then show ?thesis using assms(1) m' unfolding inflation_ok_def by (metis insert_iff omap_ok_insert)
qed

lemma sum_constant_words: "(\<Sum>i \<in> {unat a..<unat b}. (x :: u64)) = x * (b - a)" if "a \<le> b" for a b :: u64
  using that by (simp add: word_le_nat_alt of_nat_diff mult.commute)

text \<open>The loop of \<open>getCumulativeAmount\<close> from a height on: the amounts of all blocks from there to before the height.\<close>

lemma cumulative_loop_sum:
  assumes "omap_ok m" and "\<forall>h \<in> fst ` set m. start \<le> h" and "start \<le> height"
  shows "(let (t, a, h) = cumulative_loop height acc amount start m in if h < height then t + a * (height - h) else t)
    = acc + (\<Sum>i \<in> {unat start..<unat height}. spot_loop (of_nat i) amount m)"
  using assms
proof (induction m arbitrary: acc amount start)
  case Nil
  then show ?case using sum_constant_words [OF Nil(3), of amount] by (auto simp: Let_def order_le_less)
next
  case (Cons p m)
  obtain k a where p: "p = (k, a)" by (cases p)
  have k: "start \<le> k" "omap_ok m" "\<forall>h \<in> fst ` set m. k \<le> h" using Cons.prems p by (auto simp: omap_ok_Cons less_imp_le)
  have spot: "spot_loop (of_nat i) amount (p # m) = (if i < unat k then amount else spot_loop (of_nat i) a m)" if "i < unat height" for i
    using that unsigned_less [of height, where ?'a = nat] by (simp add: p word_less_nat_alt unat_of_nat)
  show ?case
  proof (cases "height \<le> k")
    case True
    have "(\<Sum>i \<in> {unat start..<unat height}. spot_loop (of_nat i) amount (p # m)) = (\<Sum>i \<in> {unat start..<unat height}. amount)"
      using spot True by (intro sum.cong) (auto simp: word_le_nat_alt)
    moreover have "(if height < k then height else k) = height" using True by auto
    moreover have "\<not> k < height" using True by simp
    ultimately show ?thesis using True sum_constant_words [OF Cons.prems(3), of amount] by (simp add: p Let_def)
  next
    case False
    then have lt: "k \<le> height" "\<not> height < k" "unat start \<le> unat k" "unat k \<le> unat height" using k(1) by (auto simp: word_le_nat_alt word_less_nat_alt)
    have "(\<Sum>i \<in> {unat start..<unat height}. spot_loop (of_nat i) amount (p # m))
        = (\<Sum>i \<in> {unat start..<unat k}. spot_loop (of_nat i) amount (p # m)) + (\<Sum>i \<in> {unat k..<unat height}. spot_loop (of_nat i) amount (p # m))"
      using lt(3,4) by (simp add: sum.atLeastLessThan_concat)
    also have "(\<Sum>i \<in> {unat start..<unat k}. spot_loop (of_nat i) amount (p # m)) = (\<Sum>i \<in> {unat start..<unat k}. amount)"
      using spot lt(4) by (intro sum.cong) auto
    also have "(\<Sum>i \<in> {unat k..<unat height}. spot_loop (of_nat i) amount (p # m)) = (\<Sum>i \<in> {unat k..<unat height}. spot_loop (of_nat i) a m)"
      using spot by (intro sum.cong) auto
    finally show ?thesis
      using False lt(2) Cons.IH [OF k(2,3) lt(1), of "acc + amount * (k - start)" a] sum_constant_words [OF k(1), of amount]
      by (simp add: p Let_def add.assoc)
  qed
qed

lemma cumulative_sum:
  assumes "inflation_ok m"
  shows "getCumulativeAmount height m = (\<Sum>i \<in> {1..<unat height}. getSpotAmount (of_nat i) m)"
proof (cases "height = 0")
  case False
  then have "1 \<le> height" by (simp add: word_le_nat_alt unat_gt_0 Suc_le_eq)
  then show ?thesis
    using False cumulative_loop_sum [of m 1 height 0 0] assms
    by (simp add: getCumulativeAmount_def getSpotAmount_def inflation_ok_def)
qed (simp add: getCumulativeAmount_def)

lemma unat_max: "unat (- 1 :: u64) = 2 ^ 64 - 1"
  by (simp add: unsigned_minus_1_eq_mask mask_eq_exp_minus_1)

lemma mult_no_overflow:
  fixes a n :: u64
  assumes "\<not> (n \<noteq> 0 \<and> a > (- 1) div n)"
  shows "unat (a * n) = unat a * unat n"
proof (cases "n = 0")
  case False
  then have "unat a \<le> (2 ^ 64 - 1) div unat n" using assms by (simp add: word_less_nat_alt unat_div unat_max)
  then have "unat a * unat n \<le> 2 ^ 64 - 1" using False by (simp add: less_eq_div_iff_mult_less_eq unat_gt_0)
  then show ?thesis by (simp add: unat_word_ariths)
qed simp

lemma sumAll_loop_sum:
  assumes "omap_ok m" and "\<forall>h \<in> fst ` set m. start \<le> h" and "sumAll_loop (start, amount) acc m = Some (t, a)"
  shows "unat t = unat acc + (\<Sum>i \<in> {unat start..<unat (last (start # keys m))}. unat (spot_loop (of_nat i) amount m))
    \<and> (\<forall>i \<ge> last (start # keys m). spot_loop i amount m = a) \<and> start \<le> last (start # keys m)"
  using assms
proof (induction m arbitrary: start amount acc)
  case (Cons p m)
  obtain k b where p: "p = (k, b)" by (cases p)
  define L where "L = last (k # keys m)"
  have k: "start \<le> k" "omap_ok m" "\<forall>h \<in> fst ` set m. k \<le> h" using Cons.prems p by (auto simp: omap_ok_Cons less_imp_le)
  have ok: "\<not> (k - start \<noteq> 0 \<and> amount > (- 1) div (k - start))" "\<not> acc > (- 1) - amount * (k - start)"
    "sumAll_loop (k, b) (acc + amount * (k - start)) m = Some (t, a)"
    using Cons.prems(3) by (auto simp: p Let_def split: if_splits)
  have prod: "unat (amount * (k - start)) = unat amount * (unat k - unat start)"
    using mult_no_overflow [OF ok(1)] k(1) by (simp add: unat_sub)
  have "unat acc \<le> 2 ^ 64 - 1 - unat (amount * (k - start))"
    using ok(2) by (simp add: word_less_nat_alt unat_sub unat_max)
  then have acc: "unat (acc + amount * (k - start)) = unat acc + unat amount * (unat k - unat start)"
    using prod unsigned_less [of "amount * (k - start)", where ?'a = nat] by (simp add: unat_word_ariths)
  note IH = Cons.IH [OF k(2,3) ok(3), folded L_def]
  have lt: "unat start \<le> unat k" "unat k \<le> unat L" using k(1) IH by (simp_all add: word_le_nat_alt)
  have spot: "spot_loop (of_nat i) amount (p # m) = (if i < unat k then amount else spot_loop (of_nat i) b m)" if "i < unat L" for i
    using that unsigned_less [of L, where ?'a = nat] by (simp add: p word_less_nat_alt unat_of_nat)
  have "(\<Sum>i \<in> {unat start..<unat L}. unat (spot_loop (of_nat i) amount (p # m)))
      = (\<Sum>i \<in> {unat start..<unat k}. unat (spot_loop (of_nat i) amount (p # m))) + (\<Sum>i \<in> {unat k..<unat L}. unat (spot_loop (of_nat i) amount (p # m)))"
    using lt by (simp add: sum.atLeastLessThan_concat)
  also have "(\<Sum>i \<in> {unat start..<unat k}. unat (spot_loop (of_nat i) amount (p # m))) = (\<Sum>i \<in> {unat start..<unat k}. unat amount)"
    using spot lt(2) by (intro sum.cong) auto
  also have "(\<Sum>i \<in> {unat k..<unat L}. unat (spot_loop (of_nat i) amount (p # m))) = (\<Sum>i \<in> {unat k..<unat L}. unat (spot_loop (of_nat i) b m))"
    using spot by (intro sum.cong) auto
  finally have "unat t = unat acc + (\<Sum>i \<in> {unat start..<unat L}. unat (spot_loop (of_nat i) amount (p # m)))"
    using IH acc by (simp add: mult.commute)
  moreover have "spot_loop i amount (p # m) = a" if "L \<le> i" for i
    using that IH p by (auto simp: word_less_nat_alt word_le_nat_alt)
  moreover have "last (start # keys (p # m)) = L" by (simp add: p L_def)
  moreover have "start \<le> L" using k(1) IH by auto
  ultimately show ?case by metis
qed simp

lemma sumAll_sum:
  assumes "inflation_ok m" and "snd (sumAll m)"
  shows "\<exists>H :: Height. \<forall>h \<ge> H. (\<Sum>i \<in> {1..<unat h}. unat (getSpotAmount (of_nat i) m)) = unat (fst (sumAll m))"
proof -
  obtain t where t: "sumAll_loop (1, 0) 0 m = Some (t, 0)" "fst (sumAll m) = t"
    using assms(2) by (auto simp: sumAll_def Let_def split: option.splits)
  define L where "L = last (1 # keys m)"
  note s = sumAll_loop_sum [of m 1 0 0 t 0, OF _ _ t(1), folded L_def]
  have m: "omap_ok m" "\<forall>h \<in> fst ` set m. 1 \<le> h" using assms(1) by (simp_all add: inflation_ok_def)
  have "(\<Sum>i \<in> {1..<unat h}. unat (getSpotAmount (of_nat i) m)) = unat t" if "L \<le> h" for h
  proof -
    have "(\<Sum>i \<in> {1..<unat h}. unat (getSpotAmount (of_nat i) m))
        = (\<Sum>i \<in> {1..<unat L}. unat (getSpotAmount (of_nat i) m)) + (\<Sum>i \<in> {unat L..<unat h}. unat (getSpotAmount (of_nat i) m))"
      using s [OF m] that by (simp add: sum.atLeastLessThan_concat word_le_nat_alt)
    also have "(\<Sum>i \<in> {unat L..<unat h}. unat (getSpotAmount (of_nat i) m)) = 0"
      using s [OF m] unsigned_less [of h, where ?'a = nat] by (intro sum.neutral) (auto simp: getSpotAmount_def word_le_nat_alt unat_of_nat)
    finally show ?thesis using s [OF m] by (simp add: getSpotAmount_def)
  qed
  then have "\<forall>h \<ge> L. (\<Sum>i \<in> {1..<unat h}. unat (getSpotAmount (of_nat i) m)) = unat (fst (sumAll m))" using t(2) by simp
  then show ?thesis by blast
qed

section \<open>The supply of a mosaic\<close>

definition mosaic_supply :: "MosaicId \<Rightarrow> AccountStateCacheDelta \<Rightarrow> nat" where
  "mosaic_supply k c = (\<Sum>a \<in> dom (ac_stateByAddress c). unat (balance_get (as_Balances (the (ac_stateByAddress c a))) k))"

definition ledger_ok :: "(Key \<Rightarrow> Address) \<Rightarrow> Key set \<Rightarrow> AccountStateCacheDelta \<Rightarrow> bool" where
  "ledger_ok toAddress K c \<longleftrightarrow> states_ok toAddress K c \<and> finite (dom (ac_stateByAddress c))"

lemma ledger_balances: "ledger_ok toAddress K c \<Longrightarrow> ac_stateByAddress c a = Some s \<Longrightarrow> balances_ok (as_Balances s)"
  by (auto simp: ledger_ok_def states_ok_def account_ok_def)

lemma supply_write:
  assumes "finite (dom (ac_stateByAddress c))" and "ac_stateByAddress c a = Some s"
  shows "mosaic_supply k (ac_write a s' c) + unat (balance_get (as_Balances s) k) = mosaic_supply k c + unat (balance_get (as_Balances s') k)"
proof -
  let ?D = "dom (ac_stateByAddress c)" and ?f = "\<lambda>m a. unat (balance_get (as_Balances (the (m a))) k)"
  have a: "a \<in> ?D" "dom ((ac_stateByAddress c)(a \<mapsto> s')) = ?D" using assms(2) by auto
  have "sum (?f ((ac_stateByAddress c)(a \<mapsto> s'))) (?D - {a}) = sum (?f (ac_stateByAddress c)) (?D - {a})" by (intro sum.cong) auto
  then show ?thesis
    using sum.remove [OF assms(1) a(1), of "?f (ac_stateByAddress c)"] sum.remove [OF assms(1) a(1), of "?f ((ac_stateByAddress c)(a \<mapsto> s'))"] a(2) assms(2)
    by (simp add: mosaic_supply_def ac_write_def)
qed

lemma balance_le_supply:
  assumes "finite (dom (ac_stateByAddress c))" and "ac_stateByAddress c a = Some s"
  shows "unat (balance_get (as_Balances s) k) \<le> mosaic_supply k c"
  using member_le_sum [of a "dom (ac_stateByAddress c)" "\<lambda>a. unat (balance_get (as_Balances (the (ac_stateByAddress c a))) k)"] assms
  by (auto simp: mosaic_supply_def)

lemma ledger_write:
  assumes "ledger_ok toAddress K c" and "ac_stateByAddress c a = Some s" and "balances_ok b"
    and "ab_optimizedMosaicId b = ab_optimizedMosaicId (as_Balances s)"
  shows "ledger_ok toAddress K (ac_write a (s\<lparr>as_Balances := b\<rparr>) c)"
  using assms by (auto simp: ledger_ok_def states_ok_def account_ok_def ac_write_def)

lemma optimized_balances:
  "credit b k x = Inr b' \<Longrightarrow> ab_optimizedMosaicId b' = ab_optimizedMosaicId b"
  "debit b k x = Inr b' \<Longrightarrow> ab_optimizedMosaicId b' = ab_optimizedMosaicId b"
  by (auto simp: credit_map debit_map Let_def split: if_splits)

text \<open>What a debit and a credit of an account do to the supplies, when they succeed.\<close>

lemma debit_supply:
  assumes "ledger_ok toAddress K c" and "ac_stateByAddress c a = Some s" and "debit (as_Balances s) k x = Inr b"
  shows "ledger_ok toAddress K (ac_write a (s\<lparr>as_Balances := b\<rparr>) c)" and "x \<le> balance_get (as_Balances s) k"
    and "mosaic_supply k' (ac_write a (s\<lparr>as_Balances := b\<rparr>) c) + (if k' = k then unat x else 0) = mosaic_supply k' c"
proof -
  note ok = ledger_balances [OF assms(1,2)]
  show x: "x \<le> balance_get (as_Balances s) k" using balances.sub_uncovered [OF ok, of k x] assms(3) by (metis not_le Inl_Inr_False)
  have b: "balances_ok b" "balance_get b = (balance_get (as_Balances s))(k := balance_get (as_Balances s) k - x)"
    using balances.sub_ok [OF ok x] assms(3) by auto
  show "ledger_ok toAddress K (ac_write a (s\<lparr>as_Balances := b\<rparr>) c)"
    using ledger_write [OF assms(1,2) b(1)] optimized_balances(2) [OF assms(3)] by simp
  have "unat (balance_get (as_Balances s) k - x) + unat x = unat (balance_get (as_Balances s) k)"
    using x by (simp add: unat_sub word_le_nat_alt)
  then show "mosaic_supply k' (ac_write a (s\<lparr>as_Balances := b\<rparr>) c) + (if k' = k then unat x else 0) = mosaic_supply k' c"
    using supply_write [OF _ assms(2), of k' "s\<lparr>as_Balances := b\<rparr>"] assms(1) b(2) by (auto simp: ledger_ok_def split: if_splits)
qed

lemma credit_supply:
  assumes "ledger_ok toAddress K c" and "ac_stateByAddress c a = Some s" and "k \<noteq> 0 \<or> x = 0" and "mosaic_supply k c + unat x < 2 ^ 64"
  obtains b where "credit (as_Balances s) k x = Inr b" "ledger_ok toAddress K (ac_write a (s\<lparr>as_Balances := b\<rparr>) c)"
    "balance_get b = (balance_get (as_Balances s))(k := balance_get (as_Balances s) k + x)"
    "\<And>k'. mosaic_supply k' (ac_write a (s\<lparr>as_Balances := b\<rparr>) c) = mosaic_supply k' c + (if k' = k then unat x else 0)"
proof -
  note ok = ledger_balances [OF assms(1,2)]
  have fin: "finite (dom (ac_stateByAddress c))" using assms(1) by (simp add: ledger_ok_def)
  have nw: "no_wrap (balance_get (as_Balances s) k) x" using balance_le_supply [OF fin assms(2), of k] assms(4) by (simp add: no_wrap_def)
  obtain b where b: "credit (as_Balances s) k x = Inr b" "balances_ok b" "balance_get b = (balance_get (as_Balances s))(k := balance_get (as_Balances s) k + x)"
    using balances.add_ok [OF ok _ nw] balances.add_zero ok assms(3) by (cases "x = 0") (auto simp: fun_upd_idem)
  have "mosaic_supply k' (ac_write a (s\<lparr>as_Balances := b\<rparr>) c) = mosaic_supply k' c + (if k' = k then unat x else 0)" for k'
    using supply_write [OF fin assms(2), of k' "s\<lparr>as_Balances := b\<rparr>"] b(3) unat_add_no_wrap [OF nw] by (auto split: if_splits)
  then show ?thesis
    using that b ledger_write [OF assms(1,2) b(2)] optimized_balances(1) [OF b(1)] by blast
qed

lemma change_balances_Inr:
  assumes "change_balances a f c = Inr c'"
  obtains s b where "ac_stateByAddress c a = Some s" "f (as_Balances s) = Inr b" "c' = ac_write a (s\<lparr>as_Balances := b\<rparr>) c"
  using assms by (auto simp: change_balances_def split: option.splits)

lemma change_balances_dom:
  assumes "change_balances a f c = Inr c'"
  shows "dom (ac_stateByAddress c') = dom (ac_stateByAddress c)" and "a \<in> dom (ac_stateByAddress c)"
  using assms by (auto simp: change_balances_def ac_write_def split: option.splits if_splits)

lemma Transfer_supply:
  assumes "ledger_ok toAddress K c" and "mosaic_supply k c < 2 ^ 64" and "Transfer d r k x c = Inr c'"
  shows "ledger_ok toAddress K c' \<and> mosaic_supply k' c' = mosaic_supply k' c"
proof -
  obtain c1 where c1: "change_balances d (\<lambda>b. debit b k x) c = Inr c1" "change_balances r (\<lambda>b. credit b k x) c1 = Inr c'"
    using assms(3) by (auto simp: Transfer_def)
  obtain s b where s: "ac_stateByAddress c d = Some s" "debit (as_Balances s) k x = Inr b" "c1 = ac_write d (s\<lparr>as_Balances := b\<rparr>) c"
    by (rule change_balances_Inr [OF c1(1)])
  note D = debit_supply [OF assms(1) s(1,2), folded s(3)]
  have zero: "k \<noteq> 0 \<or> x = 0" using D(2) balances.get_zero [OF ledger_balances [OF assms(1) s(1)]] by auto
  have room: "mosaic_supply k c1 + unat x < 2 ^ 64" using D(3) [of k] assms(2) by simp
  obtain s' b' where s': "ac_stateByAddress c1 r = Some s'" "credit (as_Balances s') k x = Inr b'" "c' = ac_write r (s'\<lparr>as_Balances := b'\<rparr>) c1"
    by (rule change_balances_Inr [OF c1(2)])
  show ?thesis
    using credit_supply [OF D(1) s'(1) zero room] s'(2,3) D(3) [of k'] by (metis Inr_inject)
qed

fun debited :: "balance_context \<Rightarrow> MosaicId \<Rightarrow> balance_notification \<Rightarrow> nat" where
  "debited ctx k (BalanceTransferNotification sender recipient mosaicId amount amountType) = 0"
| "debited ctx k (BalanceDebitNotification sender mosaicId amount) = (if bc_resolveMosaic ctx mosaicId = k then unat amount else 0)"

lemma Balance_observer_supply:
  assumes "ledger_ok toAddress K c" and "\<And>k. mosaic_supply k c < 2 ^ 64" and "Balance_observer ctx Commit n c = Inr c'"
  shows "ledger_ok toAddress K c' \<and> mosaic_supply k c' + debited ctx k n = mosaic_supply k c"
proof (cases n)
  case (BalanceTransferNotification sender recipient mosaicId amount amountType)
  have st: "states_ok toAddress K c" using assms(1) by (simp add: ledger_ok_def)
  then show ?thesis
    using assms(3) BalanceTransferNotification Transfer_supply [OF assms(1,2)]
    by (auto simp: BalanceTransfer_observer_def ac_find_ok [OF st] split: if_splits)
next
  case (BalanceDebitNotification sender mosaicId amount)
  have st: "states_ok toAddress K c" using assms(1) by (simp add: ledger_ok_def)
  have "change_balances (ra_resolved (bc_resolveAddress ctx) sender) (\<lambda>b. debit b (bc_resolveMosaic ctx mosaicId) amount) c = Inr c'"
    using assms(3) BalanceDebitNotification by (simp add: BalanceDebit_observer_def ac_find_ok [OF st])
  then obtain s b where s: "ac_stateByAddress c (ra_resolved (bc_resolveAddress ctx) sender) = Some s"
    "debit (as_Balances s) (bc_resolveMosaic ctx mosaicId) amount = Inr b" "c' = ac_write (ra_resolved (bc_resolveAddress ctx) sender) (s\<lparr>as_Balances := b\<rparr>) c"
    by (rule change_balances_Inr)
  show ?thesis
    using debit_supply(1) [OF assms(1) s(1,2)] debit_supply(3) [OF assms(1) s(1,2), of k] BalanceDebitNotification s(3) by (auto split: if_splits)
qed

lemma execute_balances_supply:
  assumes "ledger_ok toAddress K c" and "\<And>k. mosaic_supply k c < 2 ^ 64" and "execute_balances ctx ns c = Inr (Some c')"
  shows "ledger_ok toAddress K c' \<and> (\<forall>k. mosaic_supply k c' + (\<Sum>n\<leftarrow>ns. debited ctx k n) = mosaic_supply k c)"
  using assms
proof (induction ns arbitrary: c)
  case (Cons n ns)
  obtain c1 where c1: "Balance_observer ctx Commit n c = Inr c1" "execute_balances ctx ns c1 = Inr (Some c')"
    using Cons.prems(3) by (auto split: if_splits)
  have s: "ledger_ok toAddress K c1" "\<And>k. mosaic_supply k c1 + debited ctx k n = mosaic_supply k c"
    using Balance_observer_supply [OF Cons.prems(1,2) c1(1)] by auto
  have "mosaic_supply k c1 < 2 ^ 64" for k using Cons.prems(2) [of k] s(2) [of k] by simp
  from Cons.IH [OF s(1) this c1(2)] s(2) show ?case by (simp add: add.assoc [symmetric]) (metis add.commute add.left_commute)
qed simp

lemma FeeApplier_supply:
  assumes "ledger_ok toAddress K c" and "k \<noteq> 0" and "mosaic_supply k c + unat x < 2 ^ 64" and "FeeApplier_apply Commit k a x c = Inr (r, c')"
  shows "ledger_ok toAddress K c' \<and> mosaic_supply k' c' = mosaic_supply k' c + (if k' = k then unat x else 0)"
proof -
  have st: "states_ok toAddress K c" using assms(1) by (simp add: ledger_ok_def)
  obtain a' s s' where s: "ac_stateByAddress c a' = Some s" "ApplyFee Commit k x s = Inr (r, s')" "c' = ac_write a' s' c"
    by (rule ProcessForwarded_account [OF st assms(4) [unfolded FeeApplier_apply_def]])
  obtain b where b: "credit (as_Balances s) k x = Inr b" "ledger_ok toAddress K (ac_write a' (s\<lparr>as_Balances := b\<rparr>) c)"
    "\<And>k'. mosaic_supply k' (ac_write a' (s\<lparr>as_Balances := b\<rparr>) c) = mosaic_supply k' c + (if k' = k then unat x else 0)"
    using credit_supply [OF assms(1) s(1) _ assms(3)] assms(2) by blast
  then show ?thesis using s(2,3) by (auto simp: ApplyFee_def)
qed

text \<open>The shares add up to the harvested amount.\<close>

lemma harvest_amounts_sum:
  assumes "harvest_amounts options n t = (h, w, b)" and "unat t * 100 < 2 ^ 64"
    and "unat (hfo_HarvestNetworkPercentage options) + unat (hfo_HarvestBeneficiaryPercentage options) \<le> 100"
  shows "unat h + unat w + unat b = unat t"
proof -
  let ?n = "unat (hfo_HarvestNetworkPercentage options)" and ?b = "unat (hfo_HarvestBeneficiaryPercentage options)"
  have part: "unat (t * ucast p div 100) = unat t * unat p div 100" if "unat p \<le> 100" for p :: u8
  proof -
    have "unat (ucast p :: u64) = unat p" using unsigned_less [of p, where ?'a = nat] by (simp add: unsigned_ucast_eq take_bit_nat_eq_self)
    moreover have "unat t * unat p \<le> unat t * 100" using that by simp
    moreover from this have "unat t * unat p < 2 ^ 64" using assms(2) by linarith
    ultimately show ?thesis by (simp add: unat_div unat_word_ariths)
  qed
  have w: "unat w = unat t * ?n div 100" and b: "unat b \<le> unat t * ?b div 100" and h: "h = t - w - b"
    using assms(1,3) part [of "hfo_HarvestNetworkPercentage options"] part [of "hfo_HarvestBeneficiaryPercentage options"]
    by (auto simp: harvest_amounts_def Let_def split: if_splits)
  have "unat t * ?n div 100 + unat t * ?b div 100 \<le> (unat t * ?n + unat t * ?b) div 100" by (simp add: div_add1_eq [of "unat t * ?n"])
  also have "\<dots> \<le> unat t * 100 div 100" using assms(3) by (intro div_le_mono) (simp add: add_mult_distrib2 [symmetric])
  finally have le: "unat w + unat b \<le> unat t" using w b by simp
  then have "unat (t - w) = unat t - unat w" by (simp add: unat_sub word_le_nat_alt)
  then show ?thesis using le h by (simp add: unat_sub word_le_nat_alt)
qed

lemma HarvestFee_supply:
  assumes "ledger_ok toAddress K c" and "hfo_CurrencyMosaicId options \<noteq> 0"
    and "unat (hfo_HarvestNetworkPercentage options) + unat (hfo_HarvestBeneficiaryPercentage options) \<le> 100"
    and "t = bn_TotalFee n + getSpotAmount height calculator" and "unat t * 100 < 2 ^ 64" and "mosaic_supply (hfo_CurrencyMosaicId options) c + unat t < 2 ^ 64"
    and "HarvestFee_observer options calculator Commit height n c = Inr (receipts, c')"
  shows "mosaic_supply k c' = mosaic_supply k c + (if k = hfo_CurrencyMosaicId options then unat t else 0)"
proof -
  let ?k = "hfo_CurrencyMosaicId options" and ?sink = "hda_get height (hfo_HarvestNetworkFeeSinkAddress options)"
  obtain h w b where parts: "harvest_amounts options n t = (h, w, b)" by (metis prod_cases3)
  have sum: "unat h + unat w + unat b = unat t" by (rule harvest_amounts_sum [OF parts assms(5,3)])
  obtain r1 c1 r2 c2 r3 where c: "FeeApplier_apply Commit ?k (bn_Harvester n) h c = Inr (r1, c1)"
    "(if 0 \<noteq> w then FeeApplier_apply Commit ?k ?sink w c1 else Inr ([], c1)) = Inr (r2, c2)"
    "(if 0 \<noteq> b then FeeApplier_apply Commit ?k (bn_Beneficiary n) b c2 else Inr ([], c2)) = Inr (r3, c')"
    using assms(7) parts by (auto simp: HarvestFee_observer_def assms(4) [symmetric] Let_def split: prod.splits)
  have "mosaic_supply ?k c + unat h < 2 ^ 64" using assms(6) sum by linarith
  then have s1: "ledger_ok toAddress K c1" "\<And>k. mosaic_supply k c1 = mosaic_supply k c + (if k = ?k then unat h else 0)"
    using FeeApplier_supply [OF assms(1,2) _ c(1)] by auto
  have "mosaic_supply ?k c1 + unat w < 2 ^ 64" using assms(6) sum s1(2) [of ?k] by simp
  then have s2: "ledger_ok toAddress K c2" "\<And>k. mosaic_supply k c2 = mosaic_supply k c1 + (if k = ?k then unat w else 0)"
    using FeeApplier_supply [OF s1(1) assms(2), of w ?sink r2 c2] c(2) s1(1) by (auto split: if_splits)
  have "mosaic_supply ?k c2 + unat b < 2 ^ 64" using assms(6) sum s1(2) [of ?k] s2(2) [of ?k] by simp
  then have "mosaic_supply k c' = mosaic_supply k c2 + (if k = ?k then unat b else 0)"
    using FeeApplier_supply [OF s2(1) assms(2), of b "bn_Beneficiary n" r3 c'] c(3) by (auto split: if_splits)
  then show ?thesis using s1(2) [of k] s2(2) [of k] sum by auto
qed

section \<open>The fees of a block\<close>

lemma total_fee:
  "bti_TotalFee (CalculateBlockTransactionsInfo findPlugin feeMultiplier txs) = (\<Sum>tx\<leftarrow>txs. CalculateTransactionFee feeMultiplier tx)"
proof -
  have "bti_TotalFee (fold (add_transaction_info findPlugin feeMultiplier) txs info)
      = bti_TotalFee info + (\<Sum>tx\<leftarrow>txs. CalculateTransactionFee feeMultiplier tx)" for info
    by (induction txs arbitrary: info) (simp_all add: add_transaction_info_def add.assoc)
  then show ?thesis by (simp add: CalculateBlockTransactionsInfo_def)
qed

lemma published_debits:
  assumes "bh_Reserved1 header = 0"
  shows "(\<Sum>n\<leftarrow>concat (map (publishTransaction feeMosaicId forkHeight True (Some header)) txs). debited ctx k n)
    = (\<Sum>n\<leftarrow>concat (map snd txs). debited ctx k n)
      + (if bc_resolveMosaic ctx feeMosaicId = k then \<Sum>tx\<leftarrow>map fst txs. unat (CalculateTransactionFee (bh_FeeMultiplier header) tx) else 0)"
  using assms by (induction txs) (auto simp: publishTransaction_def transaction_fee_def Let_def split: prod.splits)

lemma sum_list_unat: "(\<Sum>x\<leftarrow>xs. unat (f x)) < 2 ^ 64 \<Longrightarrow> unat (\<Sum>x\<leftarrow>xs. f x) = (\<Sum>x\<leftarrow>xs. unat (f x))" for f :: "'a \<Rightarrow> u64"
  by (induction xs) (simp_all add: unat_word_ariths)

section \<open>Undoing changes of balances\<close>

text \<open>What the accounts of a cache are, without the layout of their balances.\<close>

definition ledger :: "AccountStateCacheDelta \<Rightarrow> Address \<rightharpoonup> (MosaicId \<Rightarrow> Amount) \<times> AccountState" where
  "ledger c a = map_option (\<lambda>s. (balance_get (as_Balances s), s\<lparr>as_Balances := empty_balances\<rparr>)) (ac_stateByAddress c a)"

definition same_ledger :: "AccountStateCacheDelta \<Rightarrow> AccountStateCacheDelta \<Rightarrow> bool" where
  "same_ledger c c' \<longleftrightarrow> ledger c = ledger c' \<and> ac_keyToAddress c = ac_keyToAddress c'"

lemma ledger_write_upd:
  "ac_stateByAddress c a = Some s \<Longrightarrow>
    ledger (ac_write a (s\<lparr>as_Balances := b\<rparr>) c) = (ledger c)(a \<mapsto> (balance_get b, s\<lparr>as_Balances := empty_balances\<rparr>))"
  by (auto simp: ledger_def ac_write_def fun_eq_iff)

lemma ledger_Some: "ledger c a = Some (g, z) \<longleftrightarrow> (\<exists>s. ac_stateByAddress c a = Some s \<and> balance_get (as_Balances s) = g \<and> z = s\<lparr>as_Balances := empty_balances\<rparr>)"
  by (auto simp: ledger_def)

lemma debit_ledger:
  assumes "ledger_ok toAddress K c" and "ledger c a = Some (g, z)" and "x \<le> g k"
  shows "\<exists>c'. change_balances a (\<lambda>b. debit b k x) c = Inr c' \<and> ledger_ok toAddress K c' \<and> ac_keyToAddress c' = ac_keyToAddress c
    \<and> ledger c' = (ledger c)(a \<mapsto> (g(k := g k - x), z))"
proof -
  obtain s where s: "ac_stateByAddress c a = Some s" "balance_get (as_Balances s) = g" "z = s\<lparr>as_Balances := empty_balances\<rparr>"
    using assms(2) by (auto simp: ledger_Some)
  obtain b where b: "debit (as_Balances s) k x = Inr b" "balances_ok b" "balance_get b = g(k := g k - x)"
    using balances.sub_ok [OF ledger_balances [OF assms(1) s(1)], of x k] assms(3) s(2) by auto
  then show ?thesis
    using s debit_supply(1) [OF assms(1) s(1) b(1)] by (auto simp: change_balances_def ledger_write_upd) (simp add: ac_write_def)
qed

lemma credit_ledger:
  assumes "ledger_ok toAddress K c" and "ledger c a = Some (g, z)" and "no_wrap (g k) x" and "k \<noteq> 0 \<or> x = 0"
  shows "\<exists>c'. change_balances a (\<lambda>b. credit b k x) c = Inr c' \<and> ledger_ok toAddress K c' \<and> ac_keyToAddress c' = ac_keyToAddress c
    \<and> ledger c' = (ledger c)(a \<mapsto> (g(k := g k + x), z))"
proof -
  obtain s where s: "ac_stateByAddress c a = Some s" "balance_get (as_Balances s) = g" "z = s\<lparr>as_Balances := empty_balances\<rparr>"
    using assms(2) by (auto simp: ledger_Some)
  note ok = ledger_balances [OF assms(1) s(1)]
  obtain b where b: "credit (as_Balances s) k x = Inr b" "balances_ok b" "balance_get b = g(k := g k + x)"
    using balances.add_ok [OF ok, of k x] balances.add_zero ok assms(3,4) s(2) by (cases "x = 0") auto
  then show ?thesis
    using s ledger_write [OF assms(1) s(1) b(2)] optimized_balances(1) [OF b(1)]
    by (auto simp: change_balances_def ledger_write_upd) (simp add: ac_write_def)
qed

lemma Transfer_undo:
  assumes "ledger_ok toAddress K c" and "mosaic_supply k c < 2 ^ 64" and "Transfer d r k x c = Inr c1"
    and "ledger_ok toAddress K c'" and "same_ledger c1 c'"
  shows "\<exists>c''. Transfer r d k x c' = Inr c'' \<and> ledger_ok toAddress K c'' \<and> same_ledger c c''"
proof -
  obtain m where m: "change_balances d (\<lambda>b. debit b k x) c = Inr m" "change_balances r (\<lambda>b. credit b k x) m = Inr c1"
    using assms(3) by (auto simp: Transfer_def)
  obtain s b where s: "ac_stateByAddress c d = Some s" "debit (as_Balances s) k x = Inr b" "m = ac_write d (s\<lparr>as_Balances := b\<rparr>) c"
    by (rule change_balances_Inr [OF m(1)])
  define gd where "gd = balance_get (as_Balances s)"
  define zd where "zd = s\<lparr>as_Balances := empty_balances\<rparr>"
  note D = debit_supply [OF assms(1) s(1,2), folded s(3) gd_def]
  have L: "ledger c d = Some (gd, zd)" using s(1) by (simp add: ledger_Some gd_def zd_def)
  have zero: "k \<noteq> 0 \<or> x = 0" using D(2) balances.get_zero [OF ledger_balances [OF assms(1) s(1)]] by (auto simp: gd_def)
  have lm: "ledger m = (ledger c)(d \<mapsto> (gd(k := gd k - x), zd))" "ac_keyToAddress m = ac_keyToAddress c"
    using debit_ledger [OF assms(1) L, of x k] D(2) m(1) by auto
  obtain s' where s': "ac_stateByAddress m r = Some s'" by (rule change_balances_Inr [OF m(2)])
  define gr where "gr = balance_get (as_Balances s')"
  define zr where "zr = s'\<lparr>as_Balances := empty_balances\<rparr>"
  have R: "ledger m r = Some (gr, zr)" using s' by (simp add: ledger_Some gr_def zr_def)
  have "mosaic_supply k m + unat x < 2 ^ 64" using D(3) [of k] assms(2) by simp
  then have nw: "no_wrap (gr k) x"
    using balance_le_supply [OF _ s', of k] D(1) by (simp add: no_wrap_def gr_def ledger_ok_def)
  have l1: "ledger c1 = (ledger m)(r \<mapsto> (gr(k := gr k + x), zr))" "ac_keyToAddress c1 = ac_keyToAddress m"
    using credit_ledger [OF D(1) R nw zero] m(2) by auto
  have lc: "ledger c' = (ledger m)(r \<mapsto> (gr(k := gr k + x), zr))" using l1(1) assms(5) by (simp add: same_ledger_def)
  then have "ledger c' r = Some (gr(k := gr k + x), zr)" by simp
  then obtain n where n: "change_balances r (\<lambda>b. debit b k x) c' = Inr n" "ledger_ok toAddress K n" "ac_keyToAddress n = ac_keyToAddress c'"
    "ledger n = ledger m"
    using debit_ledger [OF assms(4), of r _ _ x k] no_wrap_le2 [OF nw] lc R by (fastforce simp: fun_upd_idem)
  have "ledger n d = Some (gd(k := gd k - x), zd)" using n(4) lm(1) by simp
  then obtain c'' where "change_balances d (\<lambda>b. credit b k x) n = Inr c''" "ledger_ok toAddress K c''" "ac_keyToAddress c'' = ac_keyToAddress n"
    "ledger c'' = (ledger n)(d \<mapsto> (gd, zd))"
    using credit_ledger [OF n(2), of d _ _ k x] no_wrap_sub [OF D(2)] zero by fastforce
  then show ?thesis using n lm l1(2) L assms(5) by (auto simp: Transfer_def same_ledger_def fun_upd_idem)
qed

lemma Balance_observer_undo:
  assumes "ledger_ok toAddress K c" and "\<And>k. mosaic_supply k c < 2 ^ 64" and "Balance_observer ctx Commit n c = Inr c1"
    and "ledger_ok toAddress K c'" and "same_ledger c1 c'"
  shows "\<exists>c''. Balance_observer ctx Rollback n c' = Inr c'' \<and> ledger_ok toAddress K c'' \<and> same_ledger c c''"
proof -
  have st: "states_ok toAddress K c" "states_ok toAddress K c'" using assms(1,4) by (simp_all add: ledger_ok_def)
  show ?thesis
  proof (cases n)
    case (BalanceTransferNotification sender recipient mosaicId amount amountType)
    let ?s = "ra_resolved (bc_resolveAddress ctx) sender" and ?r = "ra_resolved (bc_resolveAddress ctx) recipient" and ?k = "bc_resolveMosaic ctx mosaicId"
    define x where "x = (if amountType = Dynamic then amount * ucast (bc_DynamicFeeMultiplier ctx) else amount)"
    have "BalanceTransfer_observer Commit ?s ?r ?k x c = Inr c1" using assms(3) BalanceTransferNotification by (simp add: x_def)
    then have t: "Transfer ?s ?r ?k x c = Inr c1" by (auto simp: BalanceTransfer_observer_def ac_find_ok [OF st(1)] split: if_splits)
    obtain c'' where c'': "Transfer ?r ?s ?k x c' = Inr c''" "ledger_ok toAddress K c''" "same_ledger c c''"
      using Transfer_undo [OF assms(1,2) t assms(4,5)] by blast
    obtain m where m: "change_balances ?r (\<lambda>b. debit b ?k x) c' = Inr m" "change_balances ?s (\<lambda>b. credit b ?k x) m = Inr c''"
      using c''(1) by (auto simp: Transfer_def)
    have "ac_stateByAddress c' ?r \<noteq> None" "ac_stateByAddress c' ?s \<noteq> None"
      using change_balances_dom [OF m(1)] change_balances_dom [OF m(2)] by blast+
    then show ?thesis
      using c'' BalanceTransferNotification by (auto simp: BalanceTransfer_observer_def ac_find_ok [OF st(2)] x_def)
  next
    case (BalanceDebitNotification sender mosaicId amount)
    let ?s = "ra_resolved (bc_resolveAddress ctx) sender" and ?k = "bc_resolveMosaic ctx mosaicId"
    have d: "change_balances ?s (\<lambda>b. debit b ?k amount) c = Inr c1"
      using assms(3) BalanceDebitNotification by (simp add: BalanceDebit_observer_def ac_find_ok [OF st(1)])
    obtain s b where s: "ac_stateByAddress c ?s = Some s" "debit (as_Balances s) ?k amount = Inr b" "c1 = ac_write ?s (s\<lparr>as_Balances := b\<rparr>) c"
      by (rule change_balances_Inr [OF d])
    define g where "g = balance_get (as_Balances s)"
    note D = debit_supply(2) [OF assms(1) s(1,2), folded g_def]
    have L: "ledger c ?s = Some (g, s\<lparr>as_Balances := empty_balances\<rparr>)" using s(1) by (simp add: ledger_Some g_def)
    have zero: "?k \<noteq> 0 \<or> amount = 0" using D balances.get_zero [OF ledger_balances [OF assms(1) s(1)]] by (auto simp: g_def)
    have l1: "ledger c1 = (ledger c)(?s \<mapsto> (g(?k := g ?k - amount), s\<lparr>as_Balances := empty_balances\<rparr>))" "ac_keyToAddress c1 = ac_keyToAddress c"
      using debit_ledger [OF assms(1) L, of amount ?k] D d by auto
    have lc: "ledger c' = (ledger c)(?s \<mapsto> (g(?k := g ?k - amount), s\<lparr>as_Balances := empty_balances\<rparr>))" "ac_keyToAddress c' = ac_keyToAddress c"
      using l1 assms(5) by (simp_all add: same_ledger_def)
    then have "ledger c' ?s = Some (g(?k := g ?k - amount), s\<lparr>as_Balances := empty_balances\<rparr>)" by simp
    then obtain c'' where "change_balances ?s (\<lambda>b. credit b ?k amount) c' = Inr c''" "ledger_ok toAddress K c''" "ac_keyToAddress c'' = ac_keyToAddress c'"
      "ledger c'' = (ledger c')(?s \<mapsto> (g, s\<lparr>as_Balances := empty_balances\<rparr>))"
      using credit_ledger [OF assms(4), of ?s _ _ ?k amount] no_wrap_sub [OF D] zero by fastforce
    then show ?thesis
      using BalanceDebitNotification lc L by (auto simp: BalanceDebit_observer_def ac_find_ok [OF st(2)] same_ledger_def fun_upd_idem)
  qed
qed

lemma execute_balances_undo:
  assumes "ledger_ok toAddress K c" and "\<And>k. mosaic_supply k c < 2 ^ 64" and "execute_balances ctx ns c = Inr (Some c1)"
    and "ledger_ok toAddress K c'" and "same_ledger c1 c'"
  shows "\<exists>c''. foldM (Balance_observer ctx Rollback) (rev ns) c' = Inr c'' \<and> ledger_ok toAddress K c'' \<and> same_ledger c c''"
  using assms(1,2,3)
proof (induction ns arbitrary: c)
  case (Cons n ns)
  obtain m where m: "Balance_observer ctx Commit n c = Inr m" "execute_balances ctx ns m = Inr (Some c1)"
    using Cons.prems(3) by (auto split: if_splits)
  note s = Balance_observer_supply [OF Cons.prems(1,2) m(1)]
  have "mosaic_supply k m < 2 ^ 64" for k using Cons.prems(2) [of k] s [of k] by simp
  then obtain m' where m': "foldM (Balance_observer ctx Rollback) (rev ns) c' = Inr m'" "ledger_ok toAddress K m'" "same_ledger m m'"
    using Cons.IH [OF _ _ m(2)] s by blast
  then show ?case using Balance_observer_undo [OF Cons.prems(1,2) m(1) m'(2,3)] by auto
qed (use assms(4,5) in auto)

section \<open>Properties\<close>

text \<open>
  C28. Inflation adds up. For every calculator that has been filled through its checks, the cumulative amount at a height is the sum of the amounts of
  all blocks before that height (modulo the width of an amount), and when the calculator reports a valid total, the blocks of any
  long enough chain really receive that total, without any overflow.
\<close>

theorem inflation_adds_up:
  assumes "foldM (\<lambda>(h, a). inflation_add h a) added [] = Inr m"
  shows "getCumulativeAmount height m = (\<Sum>i \<in> {1..<unat height}. getSpotAmount (of_nat i) m)
    \<and> (snd (sumAll m) \<longrightarrow> (\<exists>H :: Height. \<forall>h \<ge> H. (\<Sum>i \<in> {1..<unat h}. unat (getSpotAmount (of_nat i) m)) = unat (fst (sumAll m))))"
proof -
  have "inflation_ok m"
  proof (rule foldM_invariant [where P = inflation_ok, OF assms])
    show "inflation_ok t'" if "inflation_ok t" "(case x of (h, a) \<Rightarrow> inflation_add h a) t = Inr t'" for x t t'
      using that inflation_add_ok by (cases x) auto
  qed (simp add: inflation_ok_def)
  then show ?thesis using cumulative_sum sumAll_sum by blast
qed

theorem inflation_adds_up_witness:
  "getCumulativeAmount 6 [(2, 10), (5, 0)] = 30 \<and> fst (sumAll [(2, 10), (5, 0)]) = 30
    \<and> (\<exists>H :: Height. \<forall>h \<ge> H. (\<Sum>i \<in> {1..<unat h}. unat (getSpotAmount (of_nat i) [(2, 10), (5, 0)])) = 30)"
proof -
  have m: "foldM (\<lambda>(h, a). inflation_add h a) [(2, 10), (5, 0)] [] = Inr [(2, 10), (5, 0)]" by code_simp
  have s: "sumAll [(2, 10), (5, 0)] = (30, True)" by code_simp
  have "getCumulativeAmount 6 [(2, 10), (5, 0)] = 30" by code_simp
  then show ?thesis using inflation_adds_up [OF m, of 6] s by simp
qed

text \<open>
  C14. A block creates no money but its inflation. When all balance notifications of the transactions of a block pass their validators and are observed,
  with the fees before or after the notifications of the plugins, and the harvested fee is paid out, possibly to three accounts and through
  linked accounts, then the supply of the currency has grown by exactly the inflation of the block less what the plugins themselves debited, and the
  supply of every other mosaic has changed by what the plugins debited only. This is stated for caches with accounts under their own addresses and
  well-formed balances in which the supply of every mosaic fits into 64 bits, for a currency with a non-zero id that is the mosaic of the fees and
  whose supply with the inflation fits into 64 bits even when multiplied by 100 (the code multiplies by a percentage before it divides), for
  percentages of the network and the beneficiary of at most 100 together, and for a block notification with the total fee of these transactions and the
  multiplier of the header (which is not one of a block under construction).
\<close>

theorem block_conserves_supply:
  assumes "ledger_ok toAddress K c" and "\<And>k. mosaic_supply k c < 2 ^ 64"
    and "(mosaic_supply (hfo_CurrencyMosaicId options) c + unat (getSpotAmount (bh_Height header) calculator)) * 100 < 2 ^ 64"
    and "hfo_CurrencyMosaicId options \<noteq> 0" and "bc_resolveMosaic ctx feeMosaicId = hfo_CurrencyMosaicId options"
    and "unat (hfo_HarvestNetworkPercentage options) + unat (hfo_HarvestBeneficiaryPercentage options) \<le> 100"
    and "bh_Reserved1 header = 0"
    and "execute_balances ctx (concat (map (publishTransaction feeMosaicId forkHeight True (Some header)) txs)) c = Inr (Some c1)"
    and "bn_TotalFee n = bti_TotalFee (CalculateBlockTransactionsInfo findPlugin (bh_FeeMultiplier header) (map fst txs))"
    and "HarvestFee_observer options calculator Commit (bh_Height header) n c1 = Inr (receipts, c2)"
  shows "mosaic_supply k c2 + (\<Sum>n\<leftarrow>concat (map snd txs). debited ctx k n)
    = mosaic_supply k c + (if k = hfo_CurrencyMosaicId options then unat (getSpotAmount (bh_Height header) calculator) else 0)"
proof -
  let ?k = "hfo_CurrencyMosaicId options" and ?fees = "\<Sum>tx\<leftarrow>map fst txs. unat (CalculateTransactionFee (bh_FeeMultiplier header) tx)"
  let ?plugins = "\<lambda>k. \<Sum>n\<leftarrow>concat (map snd txs). debited ctx k n" and ?inflation = "getSpotAmount (bh_Height header) calculator"
  have s1: "ledger_ok toAddress K c1" "\<And>k. mosaic_supply k c1 + (?plugins k + (if ?k = k then ?fees else 0)) = mosaic_supply k c"
    using execute_balances_supply [OF assms(1,2,8)] unfolding published_debits [OF assms(7)] assms(5) by auto
  have fees: "mosaic_supply ?k c1 + ?fees \<le> mosaic_supply ?k c" using s1(2) [of ?k] by simp
  then have "?fees < 2 ^ 64" using assms(2) [of ?k] by linarith
  then have fee: "unat (bn_TotalFee n) = ?fees" unfolding assms(9) total_fee by (rule sum_list_unat)
  define t where "t = bn_TotalFee n + ?inflation"
  have "unat t = ?fees + unat ?inflation" using fee fees assms(3) by (simp add: t_def unat_word_ariths)
  then have t: "unat t = ?fees + unat ?inflation" "unat t * 100 < 2 ^ 64" "mosaic_supply ?k c1 + unat t < 2 ^ 64" using fees assms(3) by simp_all
  have "mosaic_supply k c2 = mosaic_supply k c1 + (if k = ?k then unat t else 0)"
    by (rule HarvestFee_supply [OF s1(1) assms(4,6) t_def t(2,3) assms(10)])
  then show ?thesis using s1(2) [of k] t(1) by auto
qed

text \<open>
  C27. Undoing the balance notifications of a block gives every account its balances back. In a cache with accounts under their own addresses and well-formed
  balances in which the supply of every mosaic fits into 64 bits, when all notifications of a block have passed their validators and
  have been observed, undoing them in reverse order (with the same resolvers and fee multiplier) does not throw, whatever the accounts involved (a transfer to
  its sender included), and leaves every account as it was, up to the layout of its balances.
\<close>

theorem balances_rollback:
  assumes "ledger_ok toAddress K c" and "\<And>k. mosaic_supply k c < 2 ^ 64" and "execute_balances ctx ns c = Inr (Some c1)"
  shows "\<exists>c2. foldM (Balance_observer ctx Rollback) (rev ns) c1 = Inr c2 \<and> ledger c2 = ledger c"
proof -
  have "ledger_ok toAddress K c1" using execute_balances_supply [OF assms] by blast
  then obtain c2 where "foldM (Balance_observer ctx Rollback) (rev ns) c1 = Inr c2" "same_ledger c c2"
    using execute_balances_undo [OF assms, of c1] by (auto simp: same_ledger_def)
  then show ?thesis by (auto simp: same_ledger_def)
qed

definition balance_sample_options :: AccountCacheOptions where
  "balance_sample_options = sample_options\<lparr>opt_CurrencyMosaicId := 7\<rparr>"

definition rich_account :: "u8 \<Rightarrow> Amount \<Rightarrow> AccountState" where
  "rich_account i amount = (AccountState_new [i] 1)\<lparr>as_Balances :=
     projr (bind_result (balances_optimize empty_balances 7) (\<lambda>b. credit b 7 amount))\<rparr>"

definition balance_sample :: AccountStateCacheDelta where
  "balance_sample = sample_accounts\<lparr>ac_options := balance_sample_options,
     ac_stateByAddress := [[1] \<mapsto> rich_account 1 1000, [2] \<mapsto> rich_account 2 500]\<rparr>"

definition balance_sample_context :: balance_context where
  "balance_sample_context = \<lparr>bc_resolveAddress = id, bc_resolveMosaic = id, bc_DynamicFeeMultiplier = 3\<rparr>"

definition sample_block :: "(Transaction \<times> balance_notification list) list" where
  "sample_block =
    [(\<lparr>tx_Size = 20, tx_Type = 1, tx_SignerAddress = [1], tx_MaxFee = 90\<rparr>, [BalanceTransferNotification (Resolved [1]) (Unresolved [2]) 7 100 Dynamic]),
     (\<lparr>tx_Size = 10, tx_Type = 1, tx_SignerAddress = [2], tx_MaxFee = 80\<rparr>, [BalanceTransferNotification (Resolved [2]) (Resolved [2]) 7 50 Static,
       BalanceDebitNotification (Resolved [2]) 7 5])]"

definition sample_header :: BlockHeader where
  "sample_header = \<lparr>bh_Reserved1 = 0, bh_Height = 3, bh_FeeMultiplier = 2\<rparr>"

definition sample_block_notifications :: "balance_notification list" where
  "sample_block_notifications = concat (map (publishTransaction 7 2 True (Some sample_header)) sample_block)"

definition sample_harvest_options :: HarvestFeeOptions where
  "sample_harvest_options = \<lparr>hfo_CurrencyMosaicId = 7, hfo_HarvestBeneficiaryPercentage = 25, hfo_HarvestNetworkPercentage = 5,
     hfo_HarvestNetworkFeeSinkAddress = \<lparr>hda_defaultAddress = [2], hda_addresses = [([1], 4)]\<rparr>\<rparr>"

definition executed_block :: AccountStateCacheDelta where
  "executed_block = the (projr (execute_balances balance_sample_context sample_block_notifications balance_sample))"

lemma rich_account_ok:
  assumes "no_wrap 0 amount"
  shows "account_ok id UNIV balance_sample_options [i] (rich_account i amount)" and "balance_get (as_Balances (rich_account i amount)) = (\<lambda>_. 0)(7 := amount)"
proof -
  obtain b where b: "balances_optimize empty_balances 7 = Inr b" "balances_ok b" "ab_optimizedMosaicId b = 7" "balance_get b = balance_get empty_balances"
    using balances_optimize_ok [OF balances_ok_empty(1), of 7] by blast
  have e: "balance_get b = (\<lambda>_. 0)" using b(4) balances_ok_empty(2) by auto
  obtain b' where b': "credit b 7 amount = Inr b'" "balances_ok b'" "balance_get b' = (\<lambda>_. 0)(7 := amount)"
    using balances.add_ok [OF b(2), of 7 amount] e assms by auto
  show "account_ok id UNIV balance_sample_options [i] (rich_account i amount)"
    using b b' optimized_balances(1) [OF b'(1)]
    by (simp add: rich_account_def account_ok_def AccountState_new_def balance_sample_options_def)
  show "balance_get (as_Balances (rich_account i amount)) = (\<lambda>_. 0)(7 := amount)" using b(1) b'(1,3) by (simp add: rich_account_def)
qed

lemma balance_sample_ok:
  "ledger_ok id UNIV balance_sample" "mosaic_supply k balance_sample = (if k = 7 then 1500 else 0)"
proof -
  have nw: "no_wrap 0 1000" "no_wrap 0 500" by (simp_all add: no_wrap_def)
  note r = rich_account_ok [OF nw(1), of 1] rich_account_ok [OF nw(2), of 2]
  have st: "ac_stateByAddress balance_sample = [[1] \<mapsto> rich_account 1 1000, [2] \<mapsto> rich_account 2 500]" "ac_options balance_sample = balance_sample_options"
    by (simp_all add: balance_sample_def)
  have "states_ok id UNIV balance_sample" using r(1,3) unfolding states_ok_def st by (auto split: if_splits)
  then show "ledger_ok id UNIV balance_sample" by (simp add: ledger_ok_def st(1))
  show "mosaic_supply k balance_sample = (if k = 7 then 1500 else 0)" using r(2,4) by (simp add: mosaic_supply_def st(1))
qed

lemma executed_block: "execute_balances balance_sample_context sample_block_notifications balance_sample = Inr (Some executed_block)"
proof -
  have "(case execute_balances balance_sample_context sample_block_notifications balance_sample of Inr (Some _) \<Rightarrow> True | _ \<Rightarrow> False)" by code_simp
  then show ?thesis unfolding executed_block_def by (auto split: sum.splits option.splits)
qed

theorem block_conserves_supply_witness:
  "\<exists>receipts c2. HarvestFee_observer sample_harvest_options [(2, 40)] Commit 3 \<lparr>bn_Harvester = [1], bn_Beneficiary = [2], bn_TotalFee = 60\<rparr> executed_block = Inr (receipts, c2)
    \<and> mosaic_supply 7 c2 + 5 = 1500 + 40"
proof -
  let ?n = "\<lparr>bn_Harvester = [1], bn_Beneficiary = [2], bn_TotalFee = 60\<rparr>"
  have "(case HarvestFee_observer sample_harvest_options [(2, 40)] Commit 3 ?n executed_block of Inr _ \<Rightarrow> True | _ \<Rightarrow> False)" by code_simp
  then obtain receipts c2 where h: "HarvestFee_observer sample_harvest_options [(2, 40)] Commit 3 ?n executed_block = Inr (receipts, c2)"
    by (auto split: sum.splits)
  have "getSpotAmount 3 [(2, 40)] = 40" "(\<Sum>n\<leftarrow>concat (map snd sample_block). debited balance_sample_context 7 n) = 5"
    "bti_TotalFee (CalculateBlockTransactionsInfo (\<lambda>_. None) 2 (map fst sample_block)) = 60" by code_simp+
  then have "mosaic_supply 7 c2 + 5 = 1500 + 40"
    using block_conserves_supply [OF balance_sample_ok(1), of sample_harvest_options sample_header "[(2, 40)]" balance_sample_context 7 2 sample_block executed_block
        ?n "\<lambda>_. None" receipts c2 7] balance_sample_ok(2) executed_block h
    by (simp add: sample_block_notifications_def sample_harvest_options_def balance_sample_context_def sample_header_def)
  then show ?thesis using h by blast
qed

theorem balances_rollback_witness:
  "\<exists>c2. foldM (Balance_observer balance_sample_context Rollback) (rev sample_block_notifications) executed_block = Inr c2
    \<and> ledger c2 = ledger balance_sample"
  using balances_rollback [OF balance_sample_ok(1) _ executed_block] balance_sample_ok(2) by simp

end
