(* ===== verification/Finalization_Round.thy ===== *)
theory Finalization_Round
  imports Prelude "HOL-Library.Product_Lexorder" "HOL-Library.Multiset"
begin

text \<open>
  One round of the finalization protocol as a node sees it: the tree of hashes that prevotes span
  (\<^verbatim>\<open>extensions/finalization/src/chain/FinalizationHashTree.cpp\<close>) and the weights of its nodes
  (\<^verbatim>\<open>RoundContext.cpp\<close>).

  A node of the tree points to a node that was inserted before it, or to none; the tree is the list of its nodes with
  their parents, the newest first, so that following a pointer leads into the rest of the list. The
  map of candidates is sorted by height and hash. Weights are 64-bit numbers.
\<close>

section \<open>The tree of hashes\<close>

type_synonym hash_tree = "(HeightHashPair \<times> HeightHashPair option) list"

definition tree_contains :: "hash_tree \<Rightarrow> HeightHashPair \<Rightarrow> bool" where
  "tree_contains t key \<longleftrightarrow> key \<in> fst ` set t"

fun tree_isDescendant :: "hash_tree \<Rightarrow> HeightHashPair \<Rightarrow> HeightHashPair \<Rightarrow> bool" where
  "tree_isDescendant [] parentKey childKey = False"
| "tree_isDescendant ((key, parent) # t) parentKey childKey =
    (if key \<noteq> childKey then tree_isDescendant t parentKey childKey
     else if key = parentKey then True
     else case parent of None \<Rightarrow> False | Some p \<Rightarrow> tree_isDescendant t parentKey p)"

fun findAncestors :: "hash_tree \<Rightarrow> HeightHashPair \<Rightarrow> HeightHashPair list" where
  "findAncestors [] key = []"
| "findAncestors ((key', parent) # t) key =
    (if key' \<noteq> key then findAncestors t key
     else key # (case parent of None \<Rightarrow> [] | Some p \<Rightarrow> findAncestors t p))"

definition tree_insert :: "HeightHashPair \<Rightarrow> HeightHashPair option \<Rightarrow> hash_tree \<Rightarrow> hash_tree" where
  "tree_insert key parent t = (if tree_contains t key then t else (key, parent) # t)"

definition branch_keys :: "Height \<Rightarrow> Hash256 list \<Rightarrow> HeightHashPair list" where
  "branch_keys height hashes = map (\<lambda>i. (height + of_nat i, hashes ! i)) [0..<length hashes]"

fun addBranch_loop :: "HeightHashPair option \<Rightarrow> HeightHashPair list \<Rightarrow> hash_tree \<Rightarrow> hash_tree" where
  "addBranch_loop parent [] t = t"
| "addBranch_loop parent (key # ks) t = addBranch_loop (Some key) ks (tree_insert key parent t)"

definition addBranch :: "Height \<Rightarrow> Hash256 list \<Rightarrow> hash_tree \<Rightarrow> hash_tree" where
  "addBranch height hashes t = addBranch_loop None (branch_keys height hashes) t"

section \<open>The round context\<close>

record Weights =
  Prevote :: u64
  Precommit :: u64

definition Weights_new :: Weights where
  "Weights_new = \<lparr>Prevote = 0, Precommit = 0\<rparr>"

record RoundContext =
  rc_totalWeight :: u64
  rc_threshold :: u64
  rc_cumulativePrecommitWeight :: u64
  rc_tree :: hash_tree
  rc_candidates :: "(HeightHashPair, Weights) omap"
  rc_pendingPrecommitWeights :: "HeightHashPair \<rightharpoonup> u64"

definition RoundContext_new :: "u64 \<Rightarrow> u64 \<Rightarrow> RoundContext" where
  "RoundContext_new weight threshold = \<lparr>rc_totalWeight = weight, rc_threshold = threshold, rc_cumulativePrecommitWeight = 0,
     rc_tree = [], rc_candidates = [], rc_pendingPrecommitWeights = (\<lambda>_. None)\<rparr>"

subsection \<open>Queries\<close>

definition tryFindLastMatch :: "(HeightHashPair \<Rightarrow> Weights \<Rightarrow> bool) \<Rightarrow> RoundContext \<Rightarrow> HeightHashPair option" where
  "tryFindLastMatch predicate rc = map_option fst (find (\<lambda>(key, weights). predicate key weights) (rev (rc_candidates rc)))"

definition canReachPrecommitThreshold :: "Weights \<Rightarrow> RoundContext \<Rightarrow> bool" where
  "canReachPrecommitThreshold weights rc \<longleftrightarrow>
    Precommit weights + (rc_totalWeight rc - rc_cumulativePrecommitWeight rc) \<ge> rc_threshold rc"

definition tryFindBestPrevote :: "RoundContext \<Rightarrow> HeightHashPair option" where
  "tryFindBestPrevote rc = tryFindLastMatch (\<lambda>_ weights. Prevote weights \<ge> rc_threshold rc) rc"

definition tryFindBestPrecommit :: "RoundContext \<Rightarrow> HeightHashPair option" where
  "tryFindBestPrecommit rc =
    tryFindLastMatch (\<lambda>_ weights. Prevote weights \<ge> rc_threshold rc \<and> Precommit weights \<ge> rc_threshold rc) rc"

definition tryFindEstimate_for :: "HeightHashPair \<Rightarrow> RoundContext \<Rightarrow> HeightHashPair option" where
  "tryFindEstimate_for bestPrevote rc =
    tryFindLastMatch (\<lambda>key weights. tree_isDescendant (rc_tree rc) key bestPrevote \<and> canReachPrecommitThreshold weights rc) rc"

definition tryFindEstimate :: "RoundContext \<Rightarrow> HeightHashPair option" where
  "tryFindEstimate rc = (case tryFindBestPrevote rc of None \<Rightarrow> None | Some best \<Rightarrow> tryFindEstimate_for best rc)"

definition round_isDescendant :: "RoundContext \<Rightarrow> HeightHashPair \<Rightarrow> HeightHashPair \<Rightarrow> bool" where
  "round_isDescendant rc parentKey childKey = tree_isDescendant (rc_tree rc) parentKey childKey"

definition round_weights :: "RoundContext \<Rightarrow> HeightHashPair \<Rightarrow> Weights" where
  "round_weights rc key = (case map_of (rc_candidates rc) key of None \<Rightarrow> Weights_new | Some w \<Rightarrow> w)"

definition isCompletable :: "RoundContext \<Rightarrow> bool" where
  "isCompletable rc =
    (case tryFindBestPrevote rc of
      None \<Rightarrow> False
    | Some best \<Rightarrow>
        (case tryFindEstimate_for best rc of Some e \<Rightarrow> best \<noteq> e | None \<Rightarrow> False)
        \<or> (\<not> canReachPrecommitThreshold Weights_new rc
           \<and> list_all (\<lambda>(key, weights). best = key
               \<or> \<not> (tree_isDescendant (rc_tree rc) best key \<and> canReachPrecommitThreshold weights rc)) (rev (rc_candidates rc))))"

subsection \<open>Accepting votes\<close>

text \<open>\<^verbatim>\<open>m_candidates.find(ancestorKey)->second.Precommit += weight\<close>; the iterator of a missing key is not dereferenceable.\<close>

definition addPrecommit :: "u64 \<Rightarrow> HeightHashPair \<Rightarrow> (HeightHashPair, Weights) omap \<Rightarrow> (HeightHashPair, Weights) omap result" where
  "addPrecommit weight key candidates =
    (case map_of candidates key of None \<Rightarrow> Inl undefined_behaviour
     | Some w \<Rightarrow> Inr (omap_put key (w\<lparr>Precommit := Precommit w + weight\<rparr>) candidates))"

definition acceptPrevote_step :: "u64 \<Rightarrow> HeightHashPair \<Rightarrow> RoundContext \<Rightarrow> RoundContext result" where
  "acceptPrevote_step weight key rc =
    (let w = (case map_of (rc_candidates rc) key of None \<Rightarrow> Weights_new | Some w \<Rightarrow> w);
         candidates = omap_put key (w\<lparr>Prevote := Prevote w + weight\<rparr>) (rc_candidates rc)
     in case rc_pendingPrecommitWeights rc key of
          None \<Rightarrow> Inr (rc\<lparr>rc_candidates := candidates\<rparr>)
        | Some p \<Rightarrow> bind_result (foldM (addPrecommit p) (findAncestors (rc_tree rc) key) candidates) (\<lambda>candidates.
            Inr (rc\<lparr>rc_candidates := candidates, rc_cumulativePrecommitWeight := rc_cumulativePrecommitWeight rc + p,
              rc_pendingPrecommitWeights := (rc_pendingPrecommitWeights rc)(key := None)\<rparr>)))"

definition acceptPrevote :: "Height \<Rightarrow> Hash256 list \<Rightarrow> u64 \<Rightarrow> RoundContext \<Rightarrow> RoundContext result" where
  "acceptPrevote height hashes weight rc =
    foldM (acceptPrevote_step weight) (branch_keys height hashes) (rc\<lparr>rc_tree := addBranch height hashes (rc_tree rc)\<rparr>)"

definition acceptPrecommit :: "Height \<Rightarrow> Hash256 \<Rightarrow> u64 \<Rightarrow> RoundContext \<Rightarrow> RoundContext result" where
  "acceptPrecommit height hash weight rc =
    (let key = (height, hash); ancestorKeys = findAncestors (rc_tree rc) key
     in if ancestorKeys = []
        then Inr (rc\<lparr>rc_pendingPrecommitWeights := (rc_pendingPrecommitWeights rc)(key \<mapsto>
          (case rc_pendingPrecommitWeights rc key of None \<Rightarrow> 0 | Some p \<Rightarrow> p) + weight)\<rparr>)
        else bind_result (foldM (addPrecommit weight) ancestorKeys (rc_candidates rc)) (\<lambda>candidates.
          Inr (rc\<lparr>rc_candidates := candidates, rc_cumulativePrecommitWeight := rc_cumulativePrecommitWeight rc + weight\<rparr>)))"

section \<open>The tree and the chains behind it\<close>

declare split_paired_All [simp del] split_paired_Ex [simp del]

text \<open>
  Every block has at most one parent: \<open>par\<close> is the parent of a block above the last block that is known to be final, where
  branches start. A branch follows \<open>par\<close> from a block without one.
\<close>

definition par_rel :: "(HeightHashPair \<rightharpoonup> HeightHashPair) \<Rightarrow> (HeightHashPair \<times> HeightHashPair) set" where
  "par_rel par = {(a, k). par k = Some a}"

definition anc :: "(HeightHashPair \<rightharpoonup> HeightHashPair) \<Rightarrow> HeightHashPair \<Rightarrow> HeightHashPair set" where
  "anc par k = {a. (a, k) \<in> (par_rel par)\<^sup>*}"

fun branch_from :: "(HeightHashPair \<rightharpoonup> HeightHashPair) \<Rightarrow> HeightHashPair option \<Rightarrow> HeightHashPair list \<Rightarrow> bool" where
  "branch_from par parent [] \<longleftrightarrow> True"
| "branch_from par parent (key # ks) \<longleftrightarrow> par key = parent \<and> branch_from par (Some key) ks"

definition closed :: "(HeightHashPair \<rightharpoonup> HeightHashPair) \<Rightarrow> HeightHashPair set \<Rightarrow> bool" where
  "closed par K \<longleftrightarrow> (\<forall>k \<in> K. \<forall>a. par k = Some a \<longrightarrow> a \<in> K)"

fun tree_ok :: "(HeightHashPair \<rightharpoonup> HeightHashPair) \<Rightarrow> hash_tree \<Rightarrow> bool" where
  "tree_ok par [] \<longleftrightarrow> True"
| "tree_ok par ((key, parent) # t) \<longleftrightarrow> par key = parent \<and> key \<notin> fst ` set t \<and> set_option parent \<subseteq> fst ` set t \<and> tree_ok par t"

lemma anc_None: "par k = None \<Longrightarrow> anc par k = {k}"
  by (auto simp: anc_def par_rel_def elim: rtranclE)

lemma anc_Some: "par k = Some a \<Longrightarrow> anc par k = insert k (anc par a)"
  by (auto simp: anc_def par_rel_def elim: rtranclE intro: rtrancl_into_rtrancl)

lemma anc_self: "k \<in> anc par k"
  by (simp add: anc_def)

lemma closed_anc: "closed par K \<Longrightarrow> k \<in> K \<Longrightarrow> anc par k \<subseteq> K"
proof
  fix a assume "closed par K" "k \<in> K" "a \<in> anc par k"
  then have "(a, k) \<in> (par_rel par)\<^sup>*" by (simp add: anc_def)
  then show "a \<in> K" using \<open>k \<in> K\<close>
    by (induction rule: rtrancl_induct) (use \<open>closed par K\<close> in \<open>auto simp: closed_def par_rel_def\<close>)
qed

lemma tree_ok_closed: "tree_ok par t \<Longrightarrow> closed par (fst ` set t)"
  by (induction t rule: tree_ok.induct) (auto simp: closed_def)

lemma findAncestors_outside: "key \<notin> fst ` set t \<Longrightarrow> findAncestors t key = []"
  by (induction t key rule: findAncestors.induct) auto

lemma findAncestors_ok:
  "tree_ok par t \<Longrightarrow> key \<in> fst ` set t \<Longrightarrow> set (findAncestors t key) = anc par key \<and> distinct (findAncestors t key)"
proof (induction t key rule: findAncestors.induct)
  case (2 key' parent t key)
  show ?case
  proof (cases "key' = key")
    case False
    then show ?thesis using 2 by auto
  next
    case True
    have sub: "set (findAncestors t p) \<subseteq> fst ` set t" for p
      by (induction t p rule: findAncestors.induct) (auto split: option.splits)
    show ?thesis
    proof (cases parent)
      case None
      then show ?thesis using 2(3) True anc_None [of par key] by simp
    next
      case (Some p)
      then have "set (findAncestors t p) = anc par p \<and> distinct (findAncestors t p)" using 2 True by auto
      then show ?thesis using 2(3) True Some anc_Some [of par key p] sub [of p] by auto
    qed
  qed
qed simp

lemma tree_isDescendant_iff: "tree_isDescendant t p c \<longleftrightarrow> p \<in> set (findAncestors t c)"
  by (induction t p c rule: tree_isDescendant.induct) (auto split: option.splits)

lemma tree_insert_keys: "fst ` set (tree_insert key parent t) = insert key (fst ` set t)"
  by (auto simp: tree_insert_def tree_contains_def)

lemma addBranch_loop_ok:
  "tree_ok par t \<Longrightarrow> branch_from par parent ks \<Longrightarrow> set_option parent \<subseteq> fst ` set t
    \<Longrightarrow> tree_ok par (addBranch_loop parent ks t) \<and> fst ` set (addBranch_loop parent ks t) = set ks \<union> fst ` set t"
proof (induction ks arbitrary: parent t)
  case (Cons key ks)
  have "tree_ok par (tree_insert key parent t)" using Cons.prems by (simp add: tree_insert_def tree_contains_def)
  then show ?case using Cons.IH [of "tree_insert key parent t" "Some key"] Cons.prems by (auto simp: tree_insert_keys)
qed simp

lemma branch_from_nth:
  "branch_from par parent ks \<Longrightarrow> i < length ks \<Longrightarrow> par (ks ! i) = (if i = 0 then parent else Some (ks ! (i - 1)))"
  by (induction par parent ks arbitrary: i rule: branch_from.induct) (auto simp: nth_Cons split: nat.splits)

text \<open>No block is its own ancestor, so a branch that starts at a block without a parent has no block twice.\<close>

lemma branch_from_distinct:
  assumes "branch_from par None ks"
  shows "distinct ks"
proof -
  have ne: "ks ! i \<noteq> ks ! j" if "i < j" "j < length ks" for i j
    using that
  proof (induction i arbitrary: j)
    case 0
    then have "par (ks ! 0) = None" "par (ks ! j) = Some (ks ! (j - 1))"
      using branch_from_nth [OF assms, of 0] branch_from_nth [OF assms, of j] by (cases ks; simp)+
    then show ?case by auto
  next
    case (Suc i)
    then have "par (ks ! Suc i) = Some (ks ! i)" "par (ks ! j) = Some (ks ! (j - 1))"
      using branch_from_nth [OF assms, of "Suc i"] branch_from_nth [OF assms, of j] by simp_all
    moreover have "ks ! i \<noteq> ks ! (j - 1)" using Suc.IH [of "j - 1"] Suc.prems by linarith
    ultimately show ?case by auto
  qed
  then show ?thesis by (metis distinct_conv_nth linorder_neqE_nat)
qed

section \<open>What the weights mean\<close>

text \<open>
  A list of precommits with their weights, and the blocks that prevotes have shown so far: the weight of the precommits
  for a block, for a block and its descendants, and for all known blocks.
\<close>

type_synonym precommits = "(HeightHashPair \<times> u64) list"

definition target_weight :: "precommits \<Rightarrow> HeightHashPair \<Rightarrow> u64" where
  "target_weight C t = (\<Sum>(t', w)\<leftarrow>C. if t' = t then w else 0)"

definition precommit_weight :: "(HeightHashPair \<rightharpoonup> HeightHashPair) \<Rightarrow> precommits \<Rightarrow> HeightHashPair set \<Rightarrow> HeightHashPair \<Rightarrow> u64" where
  "precommit_weight par C K k = (\<Sum>(t, w)\<leftarrow>C. if t \<in> K \<and> k \<in> anc par t then w else 0)"

definition known_weight :: "precommits \<Rightarrow> HeightHashPair set \<Rightarrow> u64" where
  "known_weight C K = (\<Sum>(t, w)\<leftarrow>C. if t \<in> K then w else 0)"

definition pending_weight :: "precommits \<Rightarrow> HeightHashPair set \<Rightarrow> HeightHashPair \<rightharpoonup> u64" where
  "pending_weight C K t = (if t \<notin> K \<and> t \<in> fst ` set C then Some (target_weight C t) else None)"

lemmas weight_defs = target_weight_def precommit_weight_def known_weight_def pending_weight_def

lemma target_weight_none: "t \<notin> fst ` set C \<Longrightarrow> target_weight C t = 0"
  by (induction C) (auto simp: target_weight_def)

lemma precommit_weight_insert:
  "k \<notin> K \<Longrightarrow> precommit_weight par C (insert k K) a = precommit_weight par C K a + (if a \<in> anc par k then target_weight C k else 0)"
  by (induction C) (auto simp: weight_defs)

lemma known_weight_insert: "k \<notin> K \<Longrightarrow> known_weight C (insert k K) = known_weight C K + target_weight C k"
  by (induction C) (auto simp: weight_defs)

lemma precommit_weight_snoc:
  "precommit_weight par (C @ [(t, w)]) K k = precommit_weight par C K k + (if t \<in> K \<and> k \<in> anc par t then w else 0)"
  by (simp add: precommit_weight_def)

lemma known_weight_snoc: "known_weight (C @ [(t, w)]) K = known_weight C K + (if t \<in> K then w else 0)"
  by (simp add: known_weight_def)

lemma precommit_weight_outside: "closed par K \<Longrightarrow> k \<notin> K \<Longrightarrow> precommit_weight par C K k = 0"
proof (induction C)
  case (Cons c C)
  have "\<not> (fst c \<in> K \<and> k \<in> anc par (fst c))" using closed_anc [OF Cons.prems(1)] Cons.prems(2) by blast
  then have "precommit_weight par (c # C) K k = precommit_weight par C K k" by (auto simp: precommit_weight_def split_beta)
  then show ?case using Cons by simp
qed (simp add: precommit_weight_def)

text \<open>
  The state of a round that has seen the precommits \<open>C\<close> and the blocks \<open>K\<close>, with the weights \<open>pv\<close> of the prevotes.
\<close>

definition round_state where
  "round_state par C K pv rc \<longleftrightarrow> omap_ok (rc_candidates rc)
    \<and> map_of (rc_candidates rc) = (\<lambda>k. if k \<in> K then Some \<lparr>Prevote = pv k, Precommit = precommit_weight par C K k\<rparr> else None)
    \<and> rc_cumulativePrecommitWeight rc = known_weight C K
    \<and> rc_pendingPrecommitWeights rc = pending_weight C K
    \<and> (\<forall>k. k \<notin> K \<longrightarrow> pv k = 0)"

lemma round_stateI:
  assumes "omap_ok (rc_candidates rc)"
    and "map_of (rc_candidates rc) = (\<lambda>k. if k \<in> K then Some \<lparr>Prevote = pv k, Precommit = precommit_weight par C K k\<rparr> else None)"
    and "rc_cumulativePrecommitWeight rc = known_weight C K" and "rc_pendingPrecommitWeights rc = pending_weight C K"
    and "\<And>k. k \<notin> K \<Longrightarrow> pv k = 0"
  shows "round_state par C K pv rc"
  using assms by (simp add: round_state_def)

lemma foldM_addPrecommit:
  assumes "omap_ok m" and "distinct ks" and "set ks \<subseteq> dom (map_of m)"
  shows "\<exists>m'. foldM (addPrecommit p) ks m = Inr m' \<and> omap_ok m'
    \<and> map_of m' = (\<lambda>k. map_option (\<lambda>w. if k \<in> set ks then w\<lparr>Precommit := Precommit w + p\<rparr> else w) (map_of m k))"
  using assms
proof (induction ks arbitrary: m)
  case Nil
  then show ?case by (simp add: option.map_ident)
next
  case (Cons k ks)
  then obtain w where w: "map_of m k = Some w" by auto
  define m1 where "m1 = omap_put k (w\<lparr>Precommit := Precommit w + p\<rparr>) m"
  have add: "addPrecommit p k m = Inr m1" using w by (simp add: addPrecommit_def m1_def)
  have m1: "map_of m1 = (map_of m)(k \<mapsto> w\<lparr>Precommit := Precommit w + p\<rparr>)" by (simp add: m1_def map_of_omap_put)
  have "omap_ok m1" "set ks \<subseteq> dom (map_of m1)"
    using Cons.prems by (auto simp: m1_def inv_intros map_of_omap_put)
  then have "\<exists>m'. foldM (addPrecommit p) ks m1 = Inr m' \<and> omap_ok m'
    \<and> map_of m' = (\<lambda>k. map_option (\<lambda>w. if k \<in> set ks then w\<lparr>Precommit := Precommit w + p\<rparr> else w) (map_of m1 k))"
    using Cons.IH [of m1] Cons.prems(2) by simp
  then obtain m' where m': "foldM (addPrecommit p) ks m1 = Inr m'" "omap_ok m'"
    "map_of m' = (\<lambda>k. map_option (\<lambda>w. if k \<in> set ks then w\<lparr>Precommit := Precommit w + p\<rparr> else w) (map_of m1 k))"
    by blast
  have "map_of m' = (\<lambda>k'. map_option (\<lambda>w. if k' \<in> set (k # ks) then w\<lparr>Precommit := Precommit w + p\<rparr> else w) (map_of m k'))"
    using m'(3) m1 w Cons.prems(2) by (auto simp: fun_eq_iff)
  then show ?case using add m'(1,2) by simp
qed

lemma acceptPrevote_step_ok:
  assumes st: "round_state par C K pv rc" and cl: "closed par K"
    and tr: "tree_ok par (rc_tree rc)" "k \<in> fst ` set (rc_tree rc)" and par: "set_option (par k) \<subseteq> K"
  shows "\<exists>rc'. acceptPrevote_step w k rc = Inr rc' \<and> round_state par C (insert k K) (pv(k := pv k + w)) rc'
    \<and> rc_tree rc' = rc_tree rc \<and> rc_totalWeight rc' = rc_totalWeight rc \<and> rc_threshold rc' = rc_threshold rc"
proof (cases "k \<in> K")
  case True
  define m where "m = omap_put k \<lparr>Prevote = pv k + w, Precommit = precommit_weight par C K k\<rparr> (rc_candidates rc)"
  have "acceptPrevote_step w k rc = Inr (rc\<lparr>rc_candidates := m\<rparr>)"
    using st True by (simp add: acceptPrevote_step_def round_state_def pending_weight_def m_def)
  moreover have "round_state par C (insert k K) (pv(k := pv k + w)) (rc\<lparr>rc_candidates := m\<rparr>)"
    using st True by (intro round_stateI) (auto simp: round_state_def insert_absorb m_def map_of_omap_put inv_intros)
  ultimately show ?thesis by simp
next
  case new: False
  define m where "m = omap_put k \<lparr>Prevote = w, Precommit = 0\<rparr> (rc_candidates rc)"
  have none: "map_of (rc_candidates rc) k = None" "pv k = 0" using st new by (simp_all add: round_state_def)
  have m: "omap_ok m" "map_of m = (map_of (rc_candidates rc))(k \<mapsto> \<lparr>Prevote = w, Precommit = 0\<rparr>)"
    using st by (simp_all add: m_def round_state_def inv_intros map_of_omap_put)
  have out: "precommit_weight par C K k = 0" using precommit_weight_outside [OF cl new] .
  show ?thesis
  proof (cases "k \<in> fst ` set C")
    case False
    then have "acceptPrevote_step w k rc = Inr (rc\<lparr>rc_candidates := m\<rparr>)"
      using st none by (simp add: acceptPrevote_step_def Weights_new_def round_state_def pending_weight_def m_def)
    moreover have "round_state par C (insert k K) (pv(k := pv k + w)) (rc\<lparr>rc_candidates := m\<rparr>)"
      using st new none m out False
      by (intro round_stateI) (auto simp: round_state_def precommit_weight_insert known_weight_insert target_weight_none pending_weight_def)
    ultimately show ?thesis by simp
  next
    case True
    then have pend: "rc_pendingPrecommitWeights rc k = Some (target_weight C k)"
      using st new by (simp add: round_state_def pending_weight_def)
    have as: "set (findAncestors (rc_tree rc) k) = anc par k" "distinct (findAncestors (rc_tree rc) k)"
      using findAncestors_ok [OF tr] by simp_all
    have sub: "anc par k \<subseteq> insert k K"
      using closed_anc [OF cl] anc_None [of par k] anc_Some [of par k] par by (cases "par k") auto
    have "dom (map_of m) = insert k K" using st m(2) by (auto simp: round_state_def dom_def)
    then obtain m' where m': "foldM (addPrecommit (target_weight C k)) (findAncestors (rc_tree rc) k) m = Inr m'" "omap_ok m'"
      "map_of m' = (\<lambda>a. map_option (\<lambda>w. if a \<in> anc par k then w\<lparr>Precommit := Precommit w + target_weight C k\<rparr> else w) (map_of m a))"
      using foldM_addPrecommit [OF m(1) as(2), of "target_weight C k"] sub as(1) by auto
    have "map_of m' = (\<lambda>a. if a \<in> insert k K
        then Some \<lparr>Prevote = (pv(k := pv k + w)) a, Precommit = precommit_weight par C (insert k K) a\<rparr> else None)"
      using st m' m(2) new none out by (auto simp: fun_eq_iff round_state_def precommit_weight_insert anc_self)
    moreover have "(pending_weight C K)(k := None) = pending_weight C (insert k K)"
      by (auto simp: pending_weight_def fun_eq_iff)
    moreover define rc' where "rc' = rc\<lparr>rc_candidates := m', rc_cumulativePrecommitWeight := rc_cumulativePrecommitWeight rc + target_weight C k,
      rc_pendingPrecommitWeights := (rc_pendingPrecommitWeights rc)(k := None)\<rparr>"
    ultimately have "round_state par C (insert k K) (pv(k := pv k + w)) rc'"
      using st m'(2) new by (intro round_stateI) (simp_all add: rc'_def round_state_def known_weight_insert)
    moreover have "acceptPrevote_step w k rc = Inr rc'"
      using pend none m'(1) by (simp add: acceptPrevote_step_def Weights_new_def m_def rc'_def del: bind_result_Inr_iff)
    ultimately show ?thesis by (simp add: rc'_def)
  qed
qed

lemma acceptPrevote_loop_ok:
  assumes "round_state par C K pv rc" and "closed par K" and "tree_ok par (rc_tree rc)"
    and "set ks \<subseteq> fst ` set (rc_tree rc)" and "branch_from par parent ks" and "set_option parent \<subseteq> K" and "distinct ks"
  shows "\<exists>rc'. foldM (acceptPrevote_step w) ks rc = Inr rc'
    \<and> round_state par C (K \<union> set ks) (\<lambda>k. pv k + (if k \<in> set ks then w else 0)) rc' \<and> closed par (K \<union> set ks)
    \<and> rc_tree rc' = rc_tree rc \<and> rc_totalWeight rc' = rc_totalWeight rc \<and> rc_threshold rc' = rc_threshold rc"
  using assms
proof (induction ks arbitrary: K pv rc parent)
  case (Cons k ks)
  obtain rc1 where rc1: "acceptPrevote_step w k rc = Inr rc1" "round_state par C (insert k K) (pv(k := pv k + w)) rc1"
    "rc_tree rc1 = rc_tree rc" "rc_totalWeight rc1 = rc_totalWeight rc" "rc_threshold rc1 = rc_threshold rc"
    using acceptPrevote_step_ok [OF Cons.prems(1,2,3), of k w] Cons.prems(4,5,6) by auto
  have "closed par (insert k K)" using Cons.prems(2,5,6) by (auto simp: closed_def)
  moreover have "(\<lambda>a. (pv(k := pv k + w)) a + (if a \<in> set ks then w else 0)) = (\<lambda>a. pv a + (if a \<in> set (k # ks) then w else 0))"
    using Cons.prems(7) by auto
  ultimately show ?case
    using Cons.IH [OF rc1(2), of "Some k"] Cons.prems(3,4,5,7) rc1 by auto
qed simp

section \<open>Votes\<close>

datatype vote = PrevoteFor Height "Hash256 list" u64 | PrecommitFor Height Hash256 u64

fun accept_vote :: "vote \<Rightarrow> RoundContext \<Rightarrow> RoundContext result" where
  "accept_vote (PrevoteFor height hashes weight) rc = acceptPrevote height hashes weight rc"
| "accept_vote (PrecommitFor height hash weight) rc = acceptPrecommit height hash weight rc"

fun vote_keys :: "vote \<Rightarrow> HeightHashPair set" where
  "vote_keys (PrevoteFor height hashes weight) = set (branch_keys height hashes)"
| "vote_keys (PrecommitFor height hash weight) = {}"

fun vote_rooted :: "(HeightHashPair \<rightharpoonup> HeightHashPair) \<Rightarrow> vote \<Rightarrow> bool" where
  "vote_rooted par (PrevoteFor height hashes weight) = branch_from par None (branch_keys height hashes)"
| "vote_rooted par (PrecommitFor height hash weight) = True"

fun vote_prevote :: "HeightHashPair \<Rightarrow> vote \<Rightarrow> u64" where
  "vote_prevote k (PrevoteFor height hashes weight) = (if k \<in> set (branch_keys height hashes) then weight else 0)"
| "vote_prevote k (PrecommitFor height hash weight) = 0"

fun vote_precommits :: "vote \<Rightarrow> precommits" where
  "vote_precommits (PrevoteFor height hashes weight) = []"
| "vote_precommits (PrecommitFor height hash weight) = [((height, hash), weight)]"

definition votes_keys :: "vote list \<Rightarrow> HeightHashPair set" where
  "votes_keys vs = (\<Union>v \<in> set vs. vote_keys v)"

definition votes_prevote :: "vote list \<Rightarrow> HeightHashPair \<Rightarrow> u64" where
  "votes_prevote vs k = (\<Sum>v\<leftarrow>vs. vote_prevote k v)"

definition votes_precommits :: "vote list \<Rightarrow> precommits" where
  "votes_precommits vs = concat (map vote_precommits vs)"

text \<open>The round of a node that has accepted a list of votes.\<close>

definition round_after where
  "round_after par W T vs rc \<longleftrightarrow> rc_totalWeight rc = W \<and> rc_threshold rc = T
    \<and> tree_ok par (rc_tree rc) \<and> fst ` set (rc_tree rc) = votes_keys vs \<and> closed par (votes_keys vs)
    \<and> round_state par (votes_precommits vs) (votes_keys vs) (votes_prevote vs) rc"

lemma acceptPrecommit_ok:
  assumes "round_state par C K pv rc" and "closed par K" and "tree_ok par (rc_tree rc)" and "fst ` set (rc_tree rc) = K"
  shows "\<exists>rc'. acceptPrecommit h hash w rc = Inr rc' \<and> round_state par (C @ [((h, hash), w)]) K pv rc'
    \<and> rc_tree rc' = rc_tree rc \<and> rc_totalWeight rc' = rc_totalWeight rc \<and> rc_threshold rc' = rc_threshold rc"
proof (cases "(h, hash) \<in> K")
  case False
  then have "findAncestors (rc_tree rc) (h, hash) = []" using assms(4) by (simp add: findAncestors_outside)
  moreover define rc' where "rc' = rc\<lparr>rc_pendingPrecommitWeights := (rc_pendingPrecommitWeights rc)((h, hash) \<mapsto> target_weight C (h, hash) + w)\<rparr>"
  ultimately have "acceptPrecommit h hash w rc = Inr rc'"
    using assms(1) False
    by (cases "(h, hash) \<in> fst ` set C") (simp_all add: acceptPrecommit_def Let_def round_state_def pending_weight_def target_weight_none)
  moreover have "(pending_weight C K)((h, hash) \<mapsto> target_weight C (h, hash) + w) = pending_weight (C @ [((h, hash), w)]) K"
    using False by (rule_tac ext) (auto simp: pending_weight_def target_weight_def)
  then have "round_state par (C @ [((h, hash), w)]) K pv rc'"
    using assms(1) False by (intro round_stateI) (simp_all add: rc'_def round_state_def precommit_weight_snoc known_weight_snoc cong: if_cong)
  ultimately show ?thesis by (simp add: rc'_def)
next
  case True
  then have as: "set (findAncestors (rc_tree rc) (h, hash)) = anc par (h, hash)" "distinct (findAncestors (rc_tree rc) (h, hash))"
    using findAncestors_ok [OF assms(3), of "(h, hash)"] assms(4) by simp_all
  have ne: "findAncestors (rc_tree rc) (h, hash) \<noteq> []" using as(1) anc_self [of "(h, hash)" par] by auto
  have "anc par (h, hash) \<subseteq> K" "dom (map_of (rc_candidates rc)) = K"
    using closed_anc [OF assms(2) True] assms(1) by (auto simp: round_state_def dom_def)
  then obtain m' where m': "foldM (addPrecommit w) (findAncestors (rc_tree rc) (h, hash)) (rc_candidates rc) = Inr m'" "omap_ok m'"
    "map_of m' = (\<lambda>a. map_option (\<lambda>v. if a \<in> anc par (h, hash) then v\<lparr>Precommit := Precommit v + w\<rparr> else v) (map_of (rc_candidates rc) a))"
    using foldM_addPrecommit [OF _ as(2), of "rc_candidates rc" w] as(1) assms(1) by (auto simp: round_state_def)
  moreover define rc' where "rc' = rc\<lparr>rc_candidates := m', rc_cumulativePrecommitWeight := rc_cumulativePrecommitWeight rc + w\<rparr>"
  ultimately have "acceptPrecommit h hash w rc = Inr rc'"
    using ne by (simp add: acceptPrecommit_def Let_def del: bind_result_Inr_iff)
  moreover have "round_state par (C @ [((h, hash), w)]) K pv rc'"
  proof (rule round_stateI)
    show "map_of (rc_candidates rc') = (\<lambda>k. if k \<in> K
        then Some \<lparr>Prevote = pv k, Precommit = precommit_weight par (C @ [((h, hash), w)]) K k\<rparr> else None)"
      using assms(1) True m'(3) by (rule_tac ext) (simp add: rc'_def round_state_def precommit_weight_snoc)
    show "rc_pendingPrecommitWeights rc' = pending_weight (C @ [((h, hash), w)]) K"
      using assms(1) True by (rule_tac ext) (auto simp: rc'_def round_state_def pending_weight_def target_weight_def)
  qed (use assms(1) True m'(2) in \<open>simp_all add: rc'_def round_state_def known_weight_snoc\<close>)
  ultimately show ?thesis by (simp add: rc'_def)
qed

lemma accept_vote_ok:
  assumes "round_after par W T vs rc" and "vote_rooted par v"
  shows "\<exists>rc'. accept_vote v rc = Inr rc' \<and> round_after par W T (vs @ [v]) rc'"
proof (cases v)
  case (PrecommitFor h hash w)
  then have "votes_precommits (vs @ [v]) = votes_precommits vs @ [((h, hash), w)]" "votes_keys (vs @ [v]) = votes_keys vs"
    "votes_prevote (vs @ [v]) = votes_prevote vs"
    by (simp_all add: votes_keys_def votes_precommits_def votes_prevote_def fun_eq_iff)
  then show ?thesis using acceptPrecommit_ok [of par "votes_precommits vs" "votes_keys vs" "votes_prevote vs" rc h hash w] assms PrecommitFor
    by (auto simp: round_after_def)
next
  case (PrevoteFor h hashes w)
  define ks where "ks = branch_keys h hashes"
  define t where "t = addBranch h hashes (rc_tree rc)"
  have br: "branch_from par None ks" "distinct ks" using assms(2) PrevoteFor branch_from_distinct by (simp_all add: ks_def)
  have t: "tree_ok par t" "fst ` set t = set ks \<union> votes_keys vs"
    using addBranch_loop_ok [of par "rc_tree rc" None ks] assms(1) br(1) by (simp_all add: t_def addBranch_def ks_def round_after_def)
  have "\<exists>rc'. foldM (acceptPrevote_step w) ks (rc\<lparr>rc_tree := t\<rparr>) = Inr rc'
    \<and> round_state par (votes_precommits vs) (votes_keys vs \<union> set ks) (\<lambda>k. votes_prevote vs k + (if k \<in> set ks then w else 0)) rc'
    \<and> closed par (votes_keys vs \<union> set ks) \<and> rc_tree rc' = t \<and> rc_totalWeight rc' = W \<and> rc_threshold rc' = T"
    using acceptPrevote_loop_ok [of par "votes_precommits vs" "votes_keys vs" "votes_prevote vs" "rc\<lparr>rc_tree := t\<rparr>" ks None w]
      assms(1) t br by (simp add: round_after_def round_state_def)
  moreover have "votes_prevote (vs @ [v]) = (\<lambda>k. votes_prevote vs k + (if k \<in> set ks then w else 0))"
    "votes_keys (vs @ [v]) = votes_keys vs \<union> set ks" "votes_precommits (vs @ [v]) = votes_precommits vs"
    using PrevoteFor by (auto simp: votes_prevote_def votes_keys_def votes_precommits_def ks_def fun_eq_iff)
  ultimately show ?thesis
    using PrevoteFor t by (auto simp: acceptPrevote_def ks_def [symmetric] t_def [symmetric] round_after_def Un_commute)
qed

theorem accept_votes_ok:
  "list_all (vote_rooted par) vs
    \<Longrightarrow> \<exists>rc. foldM accept_vote vs (RoundContext_new W T) = Inr rc \<and> round_after par W T vs rc"
proof (induction vs rule: rev_induct)
  case Nil
  show ?case
    by (simp add: round_after_def RoundContext_new_def votes_keys_def closed_def round_state_def votes_prevote_def
        votes_precommits_def weight_defs fun_eq_iff)
next
  case (snoc v vs)
  then show ?case using accept_vote_ok [of par W T vs] by fastforce
qed

section \<open>What the queries answer\<close>

text \<open>The highest block of a set with a property.\<close>

definition highest :: "HeightHashPair set \<Rightarrow> (HeightHashPair \<Rightarrow> bool) \<Rightarrow> HeightHashPair option" where
  "highest K P = (if \<exists>k \<in> K. P k then Some (Max {k \<in> K. P k}) else None)"

definition reaches :: "u64 \<Rightarrow> u64 \<Rightarrow> u64 \<Rightarrow> u64 \<Rightarrow> bool" where
  "reaches W T known w \<longleftrightarrow> w + (W - known) \<ge> T"

definition votes_precommit :: "(HeightHashPair \<rightharpoonup> HeightHashPair) \<Rightarrow> vote list \<Rightarrow> HeightHashPair \<Rightarrow> u64" where
  "votes_precommit par vs k = precommit_weight par (votes_precommits vs) (votes_keys vs) k"

definition votes_known :: "vote list \<Rightarrow> u64" where
  "votes_known vs = known_weight (votes_precommits vs) (votes_keys vs)"

definition best_prevote :: "u64 \<Rightarrow> vote list \<Rightarrow> HeightHashPair option" where
  "best_prevote T vs = highest (votes_keys vs) (\<lambda>k. votes_prevote vs k \<ge> T)"

definition best_precommit :: "(HeightHashPair \<rightharpoonup> HeightHashPair) \<Rightarrow> u64 \<Rightarrow> vote list \<Rightarrow> HeightHashPair option" where
  "best_precommit par T vs = highest (votes_keys vs) (\<lambda>k. votes_prevote vs k \<ge> T \<and> votes_precommit par vs k \<ge> T)"

definition estimate_of where
  "estimate_of par W T vs best = highest (votes_keys vs) (\<lambda>k. k \<in> anc par best \<and> reaches W T (votes_known vs) (votes_precommit par vs k))"

definition completable where
  "completable par W T vs \<longleftrightarrow>
    (\<exists>best. best_prevote T vs = Some best
      \<and> ((\<exists>e. estimate_of par W T vs best = Some e \<and> e \<noteq> best)
         \<or> (\<not> reaches W T (votes_known vs) 0
            \<and> (\<forall>k \<in> votes_keys vs. best \<in> anc par k \<and> reaches W T (votes_known vs) (votes_precommit par vs k) \<longrightarrow> k = best))))"

lemma find_rev_sorted:
  assumes "omap_ok m"
  shows "map_option fst (find (\<lambda>(k, w). P k w) (rev m)) = highest (dom (map_of m)) (\<lambda>k. P k (the (map_of m k)))"
  using assms
proof (induction m rule: rev_induct)
  case (snoc kw m)
  obtain k w where kw: "kw = (k, w)" by (cases kw)
  have ok: "omap_ok m" "\<forall>a \<in> fst ` set m. a < k" using snoc.prems kw by (auto simp: omap_ok_append)
  have none: "map_of m k = None" using ok(2) by (auto simp: map_of_eq_None_iff)
  have dom: "dom (map_of (m @ [kw])) = insert k (dom (map_of m))" using kw by (auto simp: dom_map_of_conv_image_fst)
  have le: "a \<le> k" if "a \<in> dom (map_of m)" for a using that ok(2) by (auto simp: dom_map_of_conv_image_fst)
  have old: "map_of (m @ [kw]) a = map_of m a" if "a \<in> dom (map_of m)" for a using that kw by auto
  have new: "map_of (m @ [kw]) k = Some w" using none kw by (simp add: map_of_append map_add_def)
  define S where "S = {a \<in> insert k (dom (map_of m)). P a (the (map_of (m @ [kw]) a))}"
  show ?case
  proof (cases "P k w")
    case True
    have "finite S" "k \<in> S" "\<And>a. a \<in> S \<Longrightarrow> a \<le> k" using True new le by (auto simp: S_def finite_dom_map_of)
    then have "Max S = k" by (intro Max_eqI) auto
    then show ?thesis using True kw new dom S_def by (auto simp: highest_def)
  next
    case False
    have "a \<in> S \<longleftrightarrow> a \<in> {a \<in> dom (map_of m). P a (the (map_of m a))}" for a
      using False none new old [of a] by (cases "a = k") (auto simp: S_def domIff)
    then have "S = {a \<in> dom (map_of m). P a (the (map_of m a))}" by blast
    then show ?thesis using False kw snoc.IH [OF ok(1)] dom S_def by (auto simp: highest_def)
  qed
qed (simp add: highest_def)

lemma highest_cong: "K = K' \<Longrightarrow> (\<And>k. k \<in> K \<Longrightarrow> P k = P' k) \<Longrightarrow> highest K P = highest K' P'"
proof -
  assume "K = K'" "\<And>k. k \<in> K \<Longrightarrow> P k = P' k"
  then have "{k \<in> K. P k} = {k \<in> K'. P' k}" "(\<exists>k \<in> K. P k) = (\<exists>k \<in> K'. P' k)" by auto
  then show ?thesis by (simp add: highest_def)
qed

lemma round_after_cands:
  assumes "round_after par W T vs rc"
  shows "omap_ok (rc_candidates rc)" and "dom (map_of (rc_candidates rc)) = votes_keys vs"
    and "k \<in> votes_keys vs \<Longrightarrow> map_of (rc_candidates rc) k = Some \<lparr>Prevote = votes_prevote vs k, Precommit = votes_precommit par vs k\<rparr>"
  using assms by (auto simp: round_after_def round_state_def votes_precommit_def dom_def)

lemma round_after_match:
  assumes "round_after par W T vs rc"
  shows "tryFindLastMatch P rc
    = highest (votes_keys vs) (\<lambda>k. P k \<lparr>Prevote = votes_prevote vs k, Precommit = votes_precommit par vs k\<rparr>)"
  unfolding tryFindLastMatch_def find_rev_sorted [OF round_after_cands(1) [OF assms]]
  by (rule highest_cong) (simp_all add: round_after_cands [OF assms])

lemma round_after_descendant:
  assumes "round_after par W T vs rc" and "c \<in> votes_keys vs"
  shows "tree_isDescendant (rc_tree rc) p c \<longleftrightarrow> p \<in> anc par c"
  using assms findAncestors_ok [of par "rc_tree rc" c] by (simp add: tree_isDescendant_iff round_after_def)

lemma round_after_reach:
  "round_after par W T vs rc \<Longrightarrow> canReachPrecommitThreshold w rc \<longleftrightarrow> reaches W T (votes_known vs) (Precommit w)"
  by (simp add: canReachPrecommitThreshold_def reaches_def round_after_def round_state_def votes_known_def)

lemma votes_keys_finite: "finite (votes_keys vs)"
proof -
  have "finite (vote_keys v)" for v by (cases v) simp_all
  then show ?thesis by (simp add: votes_keys_def)
qed

lemma highest_Some:
  assumes "highest K P = Some k" and "finite K"
  shows "k \<in> K" "P k" "\<And>k'. k' \<in> K \<Longrightarrow> P k' \<Longrightarrow> k' \<le> k"
proof -
  have "Max {k \<in> K. P k} \<in> {k \<in> K. P k}" using assms by (intro Max_in) (auto simp: highest_def split: if_splits)
  then show "k \<in> K" "P k" using assms by (auto simp: highest_def split: if_splits)
  show "k' \<le> k" if "k' \<in> K" "P k'" for k' using assms that by (auto simp: highest_def split: if_splits)
qed

lemma round_best_prevote: "round_after par W T vs rc \<Longrightarrow> tryFindBestPrevote rc = best_prevote T vs"
  by (simp add: tryFindBestPrevote_def round_after_match best_prevote_def) (simp add: round_after_def)

lemma round_best_precommit: "round_after par W T vs rc \<Longrightarrow> tryFindBestPrecommit rc = best_precommit par T vs"
  by (simp add: tryFindBestPrecommit_def round_after_match best_precommit_def) (simp add: round_after_def)

lemma round_estimate:
  "round_after par W T vs rc \<Longrightarrow> best \<in> votes_keys vs \<Longrightarrow> tryFindEstimate_for best rc = estimate_of par W T vs best"
  by (simp add: tryFindEstimate_for_def round_after_match estimate_of_def round_after_descendant round_after_reach)

lemma best_prevote_key: "best_prevote T vs = Some best \<Longrightarrow> best \<in> votes_keys vs"
  using highest_Some(1) [OF _ votes_keys_finite] by (simp add: best_prevote_def)

lemma round_completable:
  assumes "round_after par W T vs rc"
  shows "isCompletable rc \<longleftrightarrow> completable par W T vs"
proof (cases "best_prevote T vs")
  case None
  then show ?thesis by (simp add: isCompletable_def completable_def round_best_prevote [OF assms])
next
  case (Some best)
  have key: "best \<in> votes_keys vs" using best_prevote_key [OF Some] .
  have "list_all (\<lambda>(key, weights). best = key \<or> \<not> (tree_isDescendant (rc_tree rc) best key \<and> canReachPrecommitThreshold weights rc)) (rev (rc_candidates rc))
    \<longleftrightarrow> (\<forall>k \<in> votes_keys vs. best \<in> anc par k \<and> reaches W T (votes_known vs) (votes_precommit par vs k) \<longrightarrow> k = best)" (is "?L \<longleftrightarrow> ?R")
  proof -
    have "?L \<longleftrightarrow> (\<forall>k \<in> votes_keys vs. best = k \<or> \<not> (tree_isDescendant (rc_tree rc) best k
        \<and> canReachPrecommitThreshold (the (map_of (rc_candidates rc) k)) rc))"
      using round_after_cands(2) [OF assms] omap_ok_distinct [OF round_after_cands(1) [OF assms]]
      by (force simp: list_all_iff dom_map_of_conv_image_fst map_of_is_SomeI)
    then show ?thesis by (auto simp: round_after_descendant [OF assms] round_after_reach [OF assms] round_after_cands(3) [OF assms])
  qed
  then show ?thesis
    by (auto simp: isCompletable_def completable_def round_best_prevote [OF assms] Some round_estimate [OF assms key]
        round_after_reach [OF assms] Weights_new_def split: option.splits)
qed

lemma round_estimate_all:
  assumes "round_after par W T vs rc"
  shows "tryFindEstimate rc = Option.bind (best_prevote T vs) (estimate_of par W T vs)"
  using best_prevote_key [of T vs]
  by (auto simp: tryFindEstimate_def round_best_prevote [OF assms] round_estimate [OF assms] split: option.splits bind_splits)

lemma round_weights_after:
  "round_after par W T vs rc \<Longrightarrow> round_weights rc k = \<lparr>Prevote = votes_prevote vs k, Precommit = votes_precommit par vs k\<rparr>"
  using round_after_cands [of par W T vs rc]
  by (cases "k \<in> votes_keys vs")
    (auto simp: round_weights_def Weights_new_def round_after_def round_state_def votes_precommit_def precommit_weight_outside)

text \<open>What the round shows depends on the votes and not on the order in which they arrive.\<close>

lemma votes_mset:
  assumes "mset vs = mset vs'"
  shows "votes_keys vs = votes_keys vs'" and "votes_prevote vs = votes_prevote vs'" and "mset (votes_precommits vs) = mset (votes_precommits vs')"
proof -
  show "votes_keys vs = votes_keys vs'" using mset_eq_setD [OF assms] by (simp add: votes_keys_def)
  show "votes_prevote vs = votes_prevote vs'"
    using assms by (auto simp: votes_prevote_def fun_eq_iff sum_mset_sum_list [symmetric])
  have "mset (votes_precommits l) = (\<Sum>v \<in># mset l. mset (vote_precommits v))" for l
    by (induction l) (simp_all add: votes_precommits_def)
  then show "mset (votes_precommits vs) = mset (votes_precommits vs')" using assms by simp
qed

lemma weights_mset:
  "mset C = mset C' \<Longrightarrow> precommit_weight par C K = precommit_weight par C' K \<and> known_weight C K = known_weight C' K"
  by (auto simp: precommit_weight_def known_weight_def fun_eq_iff sum_mset_sum_list [symmetric])

lemma queries_mset:
  assumes "mset vs = mset vs'"
  shows "best_prevote T vs = best_prevote T vs'" and "best_precommit par T vs = best_precommit par T vs'"
    and "estimate_of par W T vs = estimate_of par W T vs'" and "completable par W T vs = completable par W T vs'"
    and "votes_precommit par vs = votes_precommit par vs'"
proof -
  have pc: "votes_precommit par vs = votes_precommit par vs'" "votes_known vs = votes_known vs'"
    using weights_mset [OF votes_mset(3) [OF assms]] votes_mset(1) [OF assms]
    by (simp_all add: votes_precommit_def votes_known_def fun_eq_iff)
  show "votes_precommit par vs = votes_precommit par vs'" by (rule pc)
  show bp: "best_prevote T vs = best_prevote T vs'" using votes_mset [OF assms] by (simp add: best_prevote_def)
  show "best_precommit par T vs = best_precommit par T vs'" using votes_mset [OF assms] pc by (simp add: best_precommit_def)
  show es: "estimate_of par W T vs = estimate_of par W T vs'" using votes_mset [OF assms] pc by (simp add: estimate_of_def fun_eq_iff)
  show "completable par W T vs = completable par W T vs'"
    unfolding completable_def bp es pc votes_mset(1) [OF assms] by simp
qed

end
