(* ===== verification/Voting_Keys.thy ===== *)
theory Voting_Keys
  imports Account_State
begin

text \<open>
  The keys a voter signs finalization messages with (\<^verbatim>\<open>catapult/crypto_voting/BmPrivateKeyTree.cpp\<close>,
  \<^verbatim>\<open>AggregateBmPrivateKeyTree.cpp\<close>, \<^verbatim>\<open>BmKeyIdentifier.cpp\<close>): a root key signs one key per epoch, a message carries both
  signatures, and the keys of past epochs are wiped from memory and from the file.

  The signature scheme is an argument: \<open>pub\<close> extracts a public key, \<open>signer\<close> signs a buffer with a private and its public key, \<open>vfy\<close>
  verifies. A list of buffers is signed as their concatenation. The file is the list of its bytes; every access of the code to it
  seeks first, so that no position is kept. Private keys for a new tree come from a list of random ones.
\<close>

section \<open>Numbers as bytes\<close>

definition le_bytes :: "nat \<Rightarrow> 'a :: len word \<Rightarrow> bytes" where
  "le_bytes n w = map (\<lambda>i. ucast (drop_bit (8 * i) w)) [0..<n]"

definition le_word :: "bytes \<Rightarrow> 'a :: len word" where
  "le_word bs = foldr (\<lambda>b w. or (push_bit 8 w) (ucast b)) bs 0"

lemma length_le_bytes [simp]: "length (le_bytes n w) = n"
  by (simp add: le_bytes_def)

lemma bit_le_word: "bit (le_word bs :: 'a :: len word) i \<longleftrightarrow> i < LENGTH('a) \<and> i < 8 * length bs \<and> bit (bs ! (i div 8)) (i mod 8)"
proof (induction bs arbitrary: i)
  case (Cons b bs)
  show ?case
  proof (cases "i < 8")
    case True
    then show ?thesis by (auto simp: le_word_def bit_or_iff bit_push_bit_iff bit_ucast_iff)
  next
    case False
    then have "i div 8 = Suc ((i - 8) div 8)" "i mod 8 = (i - 8) mod 8" by (simp_all add: le_div_geq le_mod_geq)
    moreover have "\<not> bit b i" using False bit_imp_le_length [of b i] by auto
    ultimately show ?thesis using False Cons [of "i - 8"]
      by (auto simp: le_word_def bit_or_iff bit_push_bit_iff bit_ucast_iff)
  qed
qed (simp add: le_word_def)

lemma le_word_le_bytes: "LENGTH('a) \<le> 8 * n \<Longrightarrow> le_word (le_bytes n (w :: 'a :: len word)) = w"
proof (rule bit_word_eqI)
  fix i assume "LENGTH('a) \<le> 8 * n" and i: "i < LENGTH('a)"
  then have "i div 8 < n" by simp
  then have "le_bytes n w ! (i div 8) = ucast (drop_bit (8 * (i div 8)) w)" by (simp add: le_bytes_def)
  then show "bit (le_word (le_bytes n w) :: 'a word) i = bit w i"
    using i \<open>LENGTH('a) \<le> 8 * n\<close> by (simp add: bit_le_word bit_ucast_iff bit_drop_bit_eq)
qed

section \<open>Key identifiers\<close>

type_synonym BmKeyIdentifier = u64

definition Invalid_Id :: BmKeyIdentifier where
  "Invalid_Id = - 1"

definition IsIdLessThan :: "u64 \<Rightarrow> u64 \<Rightarrow> bool" where
  "IsIdLessThan lhs rhs = (if lhs = rhs \<or> Invalid_Id = rhs then False else Invalid_Id = lhs \<or> lhs < rhs)"

definition IsIdGreaterThan :: "u64 \<Rightarrow> u64 \<Rightarrow> bool" where
  "IsIdGreaterThan lhs rhs \<longleftrightarrow> \<not> (IsIdLessThan lhs rhs \<or> lhs = rhs)"

section \<open>Signatures\<close>

record BmTreeSignature =
  Root_ParentPublicKey :: VotingKey
  Root_Signature :: bytes
  Bottom_ParentPublicKey :: VotingKey
  Bottom_Signature :: bytes

definition VerifyBoundSignature :: "(Key \<Rightarrow> bytes \<Rightarrow> bytes \<Rightarrow> bool) \<Rightarrow> Key \<Rightarrow> bytes \<Rightarrow> Key \<Rightarrow> u64 \<Rightarrow> bool" where
  "VerifyBoundSignature vfy parentPublicKey signature signedPublicKey boundary =
    vfy parentPublicKey (signedPublicKey @ le_bytes 8 boundary) signature"

definition bm_Verify :: "(Key \<Rightarrow> bytes \<Rightarrow> bytes \<Rightarrow> bool) \<Rightarrow> BmTreeSignature \<Rightarrow> BmKeyIdentifier \<Rightarrow> bytes \<Rightarrow> bool" where
  "bm_Verify vfy signature keyIdentifier buffer =
    (if \<not> VerifyBoundSignature vfy (Root_ParentPublicKey signature) (Root_Signature signature) (Bottom_ParentPublicKey signature) keyIdentifier
     then False
     else if \<not> vfy (Bottom_ParentPublicKey signature) buffer (Bottom_Signature signature) then False else True)"

section \<open>The level of signed keys\<close>

record SignedPrivateKey =
  spk_private :: Key
  spk_public :: Key
  spk_signature :: bytes

definition SignedPrivateKey_CreateRandom where
  "SignedPrivateKey_CreateRandom pub signer parentPrivate parentPublic ident random =
    \<lparr>spk_private = random, spk_public = pub random, spk_signature = signer parentPrivate parentPublic (pub random @ le_bytes 8 ident)\<rparr>"

definition spk_write :: "SignedPrivateKey \<Rightarrow> bytes" where
  "spk_write k = spk_private k @ spk_signature k"

definition ReadSignedPrivateKey :: "(Key \<Rightarrow> Key) \<Rightarrow> bytes \<Rightarrow> SignedPrivateKey" where
  "ReadSignedPrivateKey pub input =
    \<lparr>spk_private = take 32 input, spk_public = pub (take 32 input), spk_signature = take 64 (drop 32 input)\<rparr>"

text \<open>
  \<^verbatim>\<open>detachKeyPair\<close> moves the key pair out: the move constructor of the private key zeroes its source, and the local it was
  moved to zeroes itself; the public key stays.
\<close>

definition detachKeyPair :: "SignedPrivateKey \<Rightarrow> SignedPrivateKey" where
  "detachKeyPair k = k\<lparr>spk_private := zero_key\<rparr>"

record Level =
  lv_parentPublicKey :: Key
  lv_startIdentifier :: u64
  lv_endIdentifier :: u64
  lv_keys :: "SignedPrivateKey list"

text \<open>
  The loops over the identifiers of a level count with 32 bits, so that they do not end by themselves when the range has more: the vector
  they fill cannot grow any further and throws.
\<close>

definition level_count :: "u64 \<Rightarrow> u64 \<Rightarrow> nat result" where
  "level_count startIdentifier endIdentifier =
    (if endIdentifier - startIdentifier \<ge> 0xFFFFFFFF then Inl runtime_error else Inr (unat (endIdentifier - startIdentifier) + 1))"

definition Level_Create where
  "Level_Create pub signer privateKey startIdentifier endIdentifier randoms =
    bind_result (level_count startIdentifier endIdentifier) (\<lambda>n.
      Inr \<lparr>lv_parentPublicKey = pub privateKey, lv_startIdentifier = startIdentifier, lv_endIdentifier = endIdentifier,
        lv_keys = map (\<lambda>i. SignedPrivateKey_CreateRandom pub signer privateKey (pub privateKey) (endIdentifier - of_nat i) (randoms i)) [0..<n]\<rparr>)"

text \<open>A stream that ends before all bytes are read makes the read throw.\<close>

definition Level_FromStream :: "(Key \<Rightarrow> Key) \<Rightarrow> bytes \<Rightarrow> Level result" where
  "Level_FromStream pub input =
    (if length input < 48 then Inl runtime_error
     else let startIdentifier = le_word (take 8 (drop 32 input)); endIdentifier = le_word (take 8 (drop 40 input))
          in bind_result (level_count startIdentifier endIdentifier) (\<lambda>n.
             if length input < 48 + n * 96 then Inl runtime_error
             else Inr \<lparr>lv_parentPublicKey = take 32 input, lv_startIdentifier = startIdentifier, lv_endIdentifier = endIdentifier,
               lv_keys = map (\<lambda>i. ReadSignedPrivateKey pub (drop (48 + i * 96) input)) [0..<n]\<rparr>))"

definition lv_index :: "Level \<Rightarrow> u64 \<Rightarrow> nat" where
  "lv_index level ident = unat (lv_endIdentifier level - ident)"

definition lv_write :: "Level \<Rightarrow> bytes" where
  "lv_write level = lv_parentPublicKey level @ le_bytes 8 (lv_startIdentifier level) @ le_bytes 8 (lv_endIdentifier level)
    @ concat (map spk_write (lv_keys level))"

definition lv_wipe :: "u64 \<Rightarrow> Level \<Rightarrow> Level" where
  "lv_wipe ident level = level\<lparr>lv_keys :=
     fold (\<lambda>i keys'. keys'[unat (lv_endIdentifier level) - i := detachKeyPair (keys' ! (unat (lv_endIdentifier level) - i))])
       [unat (lv_startIdentifier level)..<Suc (unat ident)] (lv_keys level)\<rparr>"

section \<open>The tree\<close>

record BmPrivateKeyTree =
  bt_storage :: bytes
  bt_StartKeyIdentifier :: BmKeyIdentifier
  bt_EndKeyIdentifier :: BmKeyIdentifier
  bt_lastKeyIdentifier :: BmKeyIdentifier
  bt_lastWipeKeyIdentifier :: BmKeyIdentifier
  bt_level :: Level

definition write_at :: "nat \<Rightarrow> bytes \<Rightarrow> bytes \<Rightarrow> bytes" where
  "write_at position bs storage = take position storage @ bs @ drop (position + length bs) storage"

definition Tree_Header_Size :: nat where
  "Tree_Header_Size = 32"

definition IndexToOffset :: "nat \<Rightarrow> nat" where
  "IndexToOffset index = 48 + index * 96"

definition BmPrivateKeyTree_Create where
  "BmPrivateKeyTree_Create pub signer privateKey startKeyIdentifier endKeyIdentifier randoms =
    bind_result (Level_Create pub signer privateKey startKeyIdentifier endKeyIdentifier randoms) (\<lambda>level.
      Inr \<lparr>bt_storage = le_bytes 8 startKeyIdentifier @ le_bytes 8 endKeyIdentifier @ le_bytes 8 Invalid_Id @ le_bytes 8 Invalid_Id @ lv_write level,
        bt_StartKeyIdentifier = startKeyIdentifier, bt_EndKeyIdentifier = endKeyIdentifier,
        bt_lastKeyIdentifier = Invalid_Id, bt_lastWipeKeyIdentifier = Invalid_Id, bt_level = level\<rparr>)"

definition BmPrivateKeyTree_FromStream :: "(Key \<Rightarrow> Key) \<Rightarrow> bytes \<Rightarrow> BmPrivateKeyTree result" where
  "BmPrivateKeyTree_FromStream pub storage =
    (if length storage < Tree_Header_Size then Inl runtime_error
     else bind_result (Level_FromStream pub (drop Tree_Header_Size storage)) (\<lambda>level.
       Inr \<lparr>bt_storage = storage, bt_StartKeyIdentifier = le_word (take 8 storage), bt_EndKeyIdentifier = le_word (take 8 (drop 8 storage)),
         bt_lastKeyIdentifier = le_word (take 8 (drop 16 storage)), bt_lastWipeKeyIdentifier = le_word (take 8 (drop 24 storage)),
         bt_level = level\<rparr>))"

definition bt_check :: "BmPrivateKeyTree \<Rightarrow> BmKeyIdentifier \<Rightarrow> BmKeyIdentifier \<Rightarrow> bool" where
  "bt_check t keyIdentifier referenceKeyIdentifier =
    (if IsIdLessThan keyIdentifier referenceKeyIdentifier then False
     else if IsIdLessThan keyIdentifier (bt_StartKeyIdentifier t) \<or> IsIdGreaterThan keyIdentifier (bt_EndKeyIdentifier t) then False
     else True)"

definition bt_canSign :: "BmPrivateKeyTree \<Rightarrow> BmKeyIdentifier \<Rightarrow> bool" where
  "bt_canSign t keyIdentifier = bt_check t keyIdentifier (bt_lastKeyIdentifier t)"

definition bt_sign where
  "bt_sign signer keyIdentifier dataBuffer t =
    (if \<not> bt_canSign t keyIdentifier then Inl invalid_argument
     else if lv_index (bt_level t) keyIdentifier \<ge> length (lv_keys (bt_level t)) then Inl undefined_behaviour
     else let subKeyPair = lv_keys (bt_level t) ! lv_index (bt_level t) keyIdentifier
          in Inr (\<lparr>Root_ParentPublicKey = lv_parentPublicKey (bt_level t), Root_Signature = spk_signature subKeyPair,
                Bottom_ParentPublicKey = spk_public subKeyPair,
                Bottom_Signature = signer (spk_private subKeyPair) (spk_public subKeyPair) dataBuffer\<rparr>,
              t\<lparr>bt_lastKeyIdentifier := keyIdentifier, bt_storage := write_at 16 (le_bytes 8 keyIdentifier) (bt_storage t)\<rparr>))"

definition WipeSignedPrivateKey :: "nat \<Rightarrow> bytes \<Rightarrow> bytes" where
  "WipeSignedPrivateKey index storage = write_at (Tree_Header_Size + IndexToOffset index) zero_key storage"

definition bt_wipeOne :: "u64 \<Rightarrow> BmPrivateKeyTree \<Rightarrow> BmPrivateKeyTree" where
  "bt_wipeOne ident t =
    (let index = lv_index (bt_level t) ident;
         storage = fold WipeSignedPrivateKey [Suc index..<length (lv_keys (bt_level t))] (bt_storage t)
     in t\<lparr>bt_level := lv_wipe ident (bt_level t), bt_storage := WipeSignedPrivateKey index storage\<rparr>)"

definition bt_wipe :: "BmKeyIdentifier \<Rightarrow> BmPrivateKeyTree \<Rightarrow> BmPrivateKeyTree result" where
  "bt_wipe keyIdentifier t =
    (if \<not> bt_check t keyIdentifier (bt_lastWipeKeyIdentifier t) then Inl invalid_argument
     else let startWipeKeyId = (if Invalid_Id = bt_lastWipeKeyIdentifier t then bt_StartKeyIdentifier t else bt_lastWipeKeyIdentifier t + 1)
          in Inr ((fold (\<lambda>keyId. bt_wipeOne (of_nat keyId)) [unat startWipeKeyId..<Suc (unat keyIdentifier)] t)
               \<lparr>bt_lastWipeKeyIdentifier := keyIdentifier\<rparr>))"

section \<open>A sequence of trees\<close>

text \<open>
  The factory of the aggregate returns one tree after the other, and null when there is none left. A tree that the aggregate leaves behind
  is wiped completely; \<open>at_retired\<close> keeps these trees, for their files.
\<close>

record AggregateBmPrivateKeyTree =
  at_pTree :: "BmPrivateKeyTree option"
  at_factory :: "BmPrivateKeyTree list"
  at_retired :: "BmPrivateKeyTree list"

definition AggregateBmPrivateKeyTree_new :: "BmPrivateKeyTree list \<Rightarrow> AggregateBmPrivateKeyTree" where
  "AggregateBmPrivateKeyTree_new trees =
    (case trees of [] \<Rightarrow> \<lparr>at_pTree = None, at_factory = [], at_retired = []\<rparr> | t # ts \<Rightarrow> \<lparr>at_pTree = Some t, at_factory = ts, at_retired = []\<rparr>)"

fun at_advance :: "BmKeyIdentifier \<Rightarrow> BmPrivateKeyTree \<Rightarrow> BmPrivateKeyTree list \<Rightarrow> BmPrivateKeyTree list \<Rightarrow> AggregateBmPrivateKeyTree result" where
  "at_advance keyIdentifier t [] retired =
    (if IsIdLessThan (bt_EndKeyIdentifier t) keyIdentifier
     then bind_result (bt_wipe (bt_EndKeyIdentifier t) t) (\<lambda>t1. Inr \<lparr>at_pTree = None, at_factory = [], at_retired = t1 # retired\<rparr>)
     else Inr \<lparr>at_pTree = Some t, at_factory = [], at_retired = retired\<rparr>)"
| "at_advance keyIdentifier t (t' # ts) retired =
    (if IsIdLessThan (bt_EndKeyIdentifier t) keyIdentifier
     then bind_result (bt_wipe (bt_EndKeyIdentifier t) t) (\<lambda>t1.
       if \<not> IsIdLessThan (bt_EndKeyIdentifier t) (bt_StartKeyIdentifier t') then Inl runtime_error
       else at_advance keyIdentifier t' ts (t1 # retired))
     else Inr \<lparr>at_pTree = Some t, at_factory = t' # ts, at_retired = retired\<rparr>)"

definition at_canSign :: "BmKeyIdentifier \<Rightarrow> AggregateBmPrivateKeyTree \<Rightarrow> (bool \<times> AggregateBmPrivateKeyTree) result" where
  "at_canSign keyIdentifier a =
    (case at_pTree a of None \<Rightarrow> Inr (False, a)
     | Some t \<Rightarrow> bind_result (at_advance keyIdentifier t (at_factory a) (at_retired a)) (\<lambda>a'.
         Inr (case at_pTree a' of None \<Rightarrow> False | Some t' \<Rightarrow> bt_canSign t' keyIdentifier, a')))"

definition at_sign where
  "at_sign signer keyIdentifier dataBuffer a =
    bind_result (at_canSign keyIdentifier a) (\<lambda>(canSign, a').
      if \<not> canSign then Inl invalid_argument
      else case at_pTree a' of None \<Rightarrow> Inl undefined_behaviour
        | Some t \<Rightarrow> bind_result (bt_sign signer keyIdentifier dataBuffer t) (\<lambda>(signature, t').
            if keyIdentifier \<noteq> bt_StartKeyIdentifier t'
            then bind_result (bt_wipe (keyIdentifier - 1) t') (\<lambda>t''. Inr (signature, a'\<lparr>at_pTree := Some t''\<rparr>))
            else Inr (signature, a'\<lparr>at_pTree := Some t'\<rparr>)))"

section \<open>The tree and its file\<close>

definition level_bytes :: "Key \<Rightarrow> u64 \<Rightarrow> u64 \<Rightarrow> SignedPrivateKey list \<Rightarrow> bytes" where
  "level_bytes parent s e ks = parent @ le_bytes 8 s @ le_bytes 8 e @ concat (map spk_write ks)"

definition tree_bytes :: "u64 \<Rightarrow> u64 \<Rightarrow> u64 \<Rightarrow> Key \<Rightarrow> SignedPrivateKey list \<Rightarrow> bytes" where
  "tree_bytes s e last_key parent ks =
    le_bytes 8 s @ le_bytes 8 e @ le_bytes 8 last_key @ le_bytes 8 Invalid_Id @ level_bytes parent s e ks"

definition sized :: "SignedPrivateKey \<Rightarrow> bool" where
  "sized k \<longleftrightarrow> length (spk_private k) = 32 \<and> length (spk_signature k) = 64"

definition wiped :: "BmPrivateKeyTree \<Rightarrow> u64 \<Rightarrow> bool" where
  "wiped t ident \<longleftrightarrow> bt_lastWipeKeyIdentifier t \<noteq> Invalid_Id \<and> ident \<le> bt_lastWipeKeyIdentifier t"

text \<open>
  The file is the image of the tree, except for the last wiped identifier, which the code never writes again: one key per identifier, and
  every key that has not been zeroed has the public key that belongs to it.
\<close>

definition tree_shape where
  "tree_shape t \<longleftrightarrow>
    (let level = bt_level t; s = bt_StartKeyIdentifier t; e = bt_EndKeyIdentifier t; ks = lv_keys level
     in lv_startIdentifier level = s \<and> lv_endIdentifier level = e \<and> s \<le> e \<and> e \<noteq> Invalid_Id
      \<and> length ks = Suc (unat e - unat s) \<and> list_all sized ks \<and> length (lv_parentPublicKey level) = 32
      \<and> bt_storage t = tree_bytes s e (bt_lastKeyIdentifier t) (lv_parentPublicKey level) ks)"

definition key_of :: "BmPrivateKeyTree \<Rightarrow> u64 \<Rightarrow> SignedPrivateKey" where
  "key_of t ident = lv_keys (bt_level t) ! (unat (bt_EndKeyIdentifier t) - unat ident)"

definition tree_file where
  "tree_file pub t \<longleftrightarrow> tree_shape t \<and> bt_EndKeyIdentifier t - bt_StartKeyIdentifier t < 0xFFFFFFFF
    \<and> (\<forall>ident. bt_StartKeyIdentifier t \<le> ident \<and> ident \<le> bt_EndKeyIdentifier t \<longrightarrow>
        spk_private (key_of t ident) = zero_key \<or> spk_public (key_of t ident) = pub (spk_private (key_of t ident)))
    \<and> (bt_lastKeyIdentifier t = Invalid_Id \<or> bt_StartKeyIdentifier t \<le> bt_lastKeyIdentifier t \<and> bt_lastKeyIdentifier t \<le> bt_EndKeyIdentifier t)
    \<and> (bt_lastWipeKeyIdentifier t = Invalid_Id
       \<or> bt_StartKeyIdentifier t \<le> bt_lastWipeKeyIdentifier t \<and> bt_lastWipeKeyIdentifier t \<le> bt_EndKeyIdentifier t)"

definition live_key where
  "live_key pub vfy t ident \<longleftrightarrow> spk_public (key_of t ident) = pub (spk_private (key_of t ident))
    \<and> VerifyBoundSignature vfy (lv_parentPublicKey (bt_level t)) (spk_signature (key_of t ident)) (spk_public (key_of t ident)) ident"

lemma live_key_cong:
  "key_of t' ident = key_of t ident \<Longrightarrow> lv_parentPublicKey (bt_level t') = lv_parentPublicKey (bt_level t) \<Longrightarrow> live_key pub vfy t' ident = live_key pub vfy t ident"
  by (simp add: live_key_def)

text \<open>
  A tree as the aggregate uses it, be it new or read back from its file: the keys from the last used one on are signed by the root key for their identifiers,
  the keys up to the last wiped one are zeroed, and only keys before the last used one have been wiped.
\<close>

definition tree_ok where
  "tree_ok pub vfy t \<longleftrightarrow> tree_file pub t
    \<and> (\<forall>ident. bt_StartKeyIdentifier t \<le> ident \<and> ident \<le> bt_EndKeyIdentifier t \<longrightarrow>
        (wiped t ident \<longrightarrow> spk_private (key_of t ident) = zero_key)
        \<and> (bt_lastKeyIdentifier t = Invalid_Id \<or> bt_lastKeyIdentifier t \<le> ident \<longrightarrow> live_key pub vfy t ident))
    \<and> (bt_lastWipeKeyIdentifier t = Invalid_Id
       \<or> bt_lastKeyIdentifier t \<noteq> Invalid_Id \<and> bt_StartKeyIdentifier t \<le> bt_lastWipeKeyIdentifier t \<and> bt_lastWipeKeyIdentifier t < bt_lastKeyIdentifier t)"

lemma zero_key_length [simp]: "length zero_key = 32"
  by (simp add: zero_key_def)

lemma sized_detach: "sized k \<Longrightarrow> sized (detachKeyPair k)"
  by (simp add: sized_def detachKeyPair_def)

subsection \<open>Writing into the file\<close>

lemma write_at_append: "length bs = length old \<Longrightarrow> position = length xs \<Longrightarrow> write_at position bs (xs @ old @ ys) = xs @ bs @ ys"
  by (simp add: write_at_def)

lemma write_last_key: "write_at 16 (le_bytes 8 k) (tree_bytes s e l parent ks) = tree_bytes s e k parent ks"
  unfolding tree_bytes_def
  using write_at_append [of "le_bytes 8 k" "le_bytes 8 l" 16 "le_bytes 8 s @ le_bytes 8 e"] by simp

lemma length_concat_spk: "list_all sized ks \<Longrightarrow> length (concat (map spk_write ks)) = 96 * length ks"
  by (induction ks) (auto simp: sized_def spk_write_def)

lemma wipe_entry:
  assumes "list_all sized ks" and "i < length ks" and "length parent = 32"
  shows "WipeSignedPrivateKey i (tree_bytes s e l parent ks) = tree_bytes s e l parent (ks[i := detachKeyPair (ks ! i)])"
proof -
  have ks: "ks = take i ks @ ks ! i # drop (Suc i) ks" using assms(2) by (simp add: id_take_nth_drop)
  have sz: "sized (ks ! i)" "list_all sized (take i ks)" using assms by (auto simp: list_all_length)
  define pre where "pre = le_bytes 8 s @ le_bytes 8 e @ le_bytes 8 l @ le_bytes 8 Invalid_Id @ parent @ le_bytes 8 s @ le_bytes 8 e @ concat (map spk_write (take i ks))"
  define post where "post = spk_signature (ks ! i) @ concat (map spk_write (drop (Suc i) ks))"
  have img: "tree_bytes s e l parent (take i ks @ k # drop (Suc i) ks) = pre @ spk_private k @ post" if "spk_signature k = spk_signature (ks ! i)" for k
    using that by (simp add: tree_bytes_def level_bytes_def pre_def post_def spk_write_def)
  have "length pre = Tree_Header_Size + IndexToOffset i"
    using assms(2,3) length_concat_spk [OF sz(2)] by (simp add: pre_def Tree_Header_Size_def IndexToOffset_def)
  then have "WipeSignedPrivateKey i (pre @ spk_private (ks ! i) @ post) = pre @ zero_key @ post"
    using write_at_append [of zero_key "spk_private (ks ! i)" _ pre post] sz(1) by (simp add: WipeSignedPrivateKey_def sized_def)
  moreover have "ks[i := detachKeyPair (ks ! i)] = take i ks @ detachKeyPair (ks ! i) # drop (Suc i) ks"
    using assms(2) by (simp add: upd_conv_take_nth_drop)
  ultimately show ?thesis
    using img [of "ks ! i"] img [of "detachKeyPair (ks ! i)"] ks by (simp add: detachKeyPair_def)
qed

subsection \<open>Wiping\<close>

definition detach_from :: "nat \<Rightarrow> SignedPrivateKey list \<Rightarrow> SignedPrivateKey list" where
  "detach_from n ks = take n ks @ map detachKeyPair (drop n ks)"

lemma length_detach_from [simp]: "length (detach_from n ks) = length ks"
  by (simp add: detach_from_def)

lemma nth_detach_from: "j < length ks \<Longrightarrow> detach_from n ks ! j = (if n \<le> j then detachKeyPair (ks ! j) else ks ! j)"
  by (auto simp: detach_from_def nth_append)

lemma sized_detach_from: "list_all sized ks \<Longrightarrow> list_all sized (detach_from n ks)"
  by (auto simp: list_all_length nth_detach_from sized_detach)

lemma detach_idem [simp]: "detachKeyPair (detachKeyPair k) = detachKeyPair k"
  by (simp add: detachKeyPair_def)

lemma detach_from_detach: "m \<le> n \<Longrightarrow> detach_from m (detach_from n ks) = detach_from m ks"
  by (rule nth_equalityI) (auto simp: nth_detach_from)

lemma fold_detach:
  assumes "\<forall>i \<in> set js. i < length ks"
  shows "length (fold (\<lambda>i xs. xs[i := detachKeyPair (xs ! i)]) js ks) = length ks"
    and "j < length ks \<Longrightarrow> fold (\<lambda>i xs. xs[i := detachKeyPair (xs ! i)]) js ks ! j = (if j \<in> set js then detachKeyPair (ks ! j) else ks ! j)"
  using assms
proof (induction js arbitrary: ks)
  case (Cons i js)
  { case 1 then show ?case using Cons.IH(1) [of "ks[i := detachKeyPair (ks ! i)]"] by simp }
  { case 2 then show ?case using Cons.IH(2) [of "ks[i := detachKeyPair (ks ! i)]"] by (auto simp: nth_list_update) }
qed simp_all

lemma fold_detach_from:
  assumes "set js = {n..<length ks}"
  shows "fold (\<lambda>i xs. xs[i := detachKeyPair (xs ! i)]) js ks = detach_from n ks"
proof -
  have "\<forall>i \<in> set js. i < length ks" using assms by simp
  note fd = fold_detach [OF this]
  show ?thesis by (rule nth_equalityI) (use assms in \<open>auto simp: fd nth_detach_from\<close>)
qed

lemma lv_wipe_keys:
  assumes "lv_startIdentifier level \<le> ident" and "ident \<le> lv_endIdentifier level"
    and "length (lv_keys level) = Suc (unat (lv_endIdentifier level) - unat (lv_startIdentifier level))"
  shows "lv_wipe ident level = level\<lparr>lv_keys := detach_from (lv_index level ident) (lv_keys level)\<rparr>"
proof -
  let ?s = "unat (lv_startIdentifier level)" and ?e = "unat (lv_endIdentifier level)" and ?i = "unat ident"
  have le: "?s \<le> ?i" "?i \<le> ?e" using assms(1,2) by (simp_all add: word_le_nat_alt)
  have idx: "lv_index level ident = ?e - ?i" using assms(2) by (simp add: lv_index_def unat_sub_le)
  have "fold (\<lambda>i ks. ks[?e - i := detachKeyPair (ks ! (?e - i))]) [?s..<Suc ?i] (lv_keys level)
      = fold (\<lambda>i ks. ks[i := detachKeyPair (ks ! i)]) (map (\<lambda>i. ?e - i) [?s..<Suc ?i]) (lv_keys level)"
    by (simp add: fold_map comp_def)
  moreover have "(\<lambda>i. ?e - i) ` {?s..<Suc ?i} = {?e - ?i..<length (lv_keys level)}"
  proof -
    have "j \<in> (\<lambda>i. ?e - i) ` {?s..<Suc ?i}" if "?e - ?i \<le> j" "j \<le> ?e - ?s" for j
      using that le by (intro image_eqI [of _ _ "?e - j"]) auto
    then show ?thesis using assms(3) le by auto
  qed
  moreover have "fold (\<lambda>i ks. ks[i := detachKeyPair (ks ! i)]) (map (\<lambda>i. ?e - i) [?s..<Suc ?i]) (lv_keys level)
      = detach_from (?e - ?i) (lv_keys level)"
    by (rule fold_detach_from) (simp only: set_map set_upt calculation(2))
  ultimately show ?thesis unfolding lv_wipe_def idx by simp
qed

lemma fold_wipe_storage:
  assumes "\<forall>i \<in> set js. i < length ks" and "list_all sized ks" and "length parent = 32"
  shows "fold WipeSignedPrivateKey js (tree_bytes s e l parent ks)
    = tree_bytes s e l parent (fold (\<lambda>i xs. xs[i := detachKeyPair (xs ! i)]) js ks)"
  using assms
proof (induction js arbitrary: ks)
  case (Cons i js)
  have "list_all sized (ks[i := detachKeyPair (ks ! i)])"
    using Cons.prems by (auto simp: list_all_length nth_list_update sized_detach)
  then show ?case using Cons by (simp add: wipe_entry)
qed simp

definition wiped_tree :: "nat \<Rightarrow> BmPrivateKeyTree \<Rightarrow> BmPrivateKeyTree" where
  "wiped_tree n t = t\<lparr>bt_level := (bt_level t)\<lparr>lv_keys := detach_from n (lv_keys (bt_level t))\<rparr>,
     bt_storage := tree_bytes (bt_StartKeyIdentifier t) (bt_EndKeyIdentifier t) (bt_lastKeyIdentifier t)
       (lv_parentPublicKey (bt_level t)) (detach_from n (lv_keys (bt_level t)))\<rparr>"

lemma wiped_tree_shape: "tree_shape t \<Longrightarrow> tree_shape (wiped_tree n t)"
  by (simp add: tree_shape_def wiped_tree_def Let_def sized_detach_from)

lemma wiped_tree_wiped: "m \<le> n \<Longrightarrow> wiped_tree m (wiped_tree n t) = wiped_tree m t"
  by (simp add: wiped_tree_def detach_from_detach)

lemma bt_wipeOne_eq:
  assumes "tree_shape t" and "bt_StartKeyIdentifier t \<le> ident" and "ident \<le> bt_EndKeyIdentifier t"
  shows "bt_wipeOne ident t = wiped_tree (unat (bt_EndKeyIdentifier t) - unat ident) t"
proof -
  let ?ks = "lv_keys (bt_level t)" and ?n = "unat (bt_EndKeyIdentifier t) - unat ident"
  have sh: "lv_startIdentifier (bt_level t) = bt_StartKeyIdentifier t" "lv_endIdentifier (bt_level t) = bt_EndKeyIdentifier t"
    "length ?ks = Suc (unat (bt_EndKeyIdentifier t) - unat (bt_StartKeyIdentifier t))" "list_all sized ?ks" "length (lv_parentPublicKey (bt_level t)) = 32"
    "bt_storage t = tree_bytes (bt_StartKeyIdentifier t) (bt_EndKeyIdentifier t) (bt_lastKeyIdentifier t) (lv_parentPublicKey (bt_level t)) ?ks"
    using assms(1) by (simp_all add: tree_shape_def Let_def)
  have idx: "lv_index (bt_level t) ident = ?n" using assms(3) sh(2) by (simp add: lv_index_def unat_sub_le)
  have lt: "?n < length ?ks" using assms(2,3) sh(3) by (simp add: word_le_nat_alt)
  have "WipeSignedPrivateKey ?n (fold WipeSignedPrivateKey [Suc ?n..<length ?ks] (bt_storage t))
      = fold WipeSignedPrivateKey ([Suc ?n..<length ?ks] @ [?n]) (bt_storage t)" by simp
  also have "\<dots> = tree_bytes (bt_StartKeyIdentifier t) (bt_EndKeyIdentifier t) (bt_lastKeyIdentifier t) (lv_parentPublicKey (bt_level t)) (detach_from ?n ?ks)"
  proof -
    have js: "set ([Suc ?n..<length ?ks] @ [?n]) = {?n..<length ?ks}" using lt by auto
    then have all: "\<forall>i \<in> set ([Suc ?n..<length ?ks] @ [?n]). i < length ?ks" by auto
    show ?thesis unfolding sh(6) fold_wipe_storage [OF all sh(4,5)] fold_detach_from [OF js] ..
  qed
  finally show ?thesis
    using lv_wipe_keys [of "bt_level t" ident] assms(2,3) sh(1-3) idx by (simp add: bt_wipeOne_def Let_def wiped_tree_def)
qed

lemma word_less_iff_nat: "a < b \<longleftrightarrow> unat a < unat b" "a \<le> b \<longleftrightarrow> unat a \<le> unat b" for a b :: u64
  by (simp_all add: word_less_nat_alt word_le_nat_alt)

lemma unat_of_nat_below: "n \<le> unat (w :: u64) \<Longrightarrow> unat (of_nat n :: u64) = n"
  using unsigned_less [where ?'a = nat, of w] by (simp add: unat_of_nat take_bit_nat_eq_self_iff)

lemma unat_suc: "w \<noteq> - 1 \<Longrightarrow> unat (w + 1) = unat w + 1" for w :: u64
proof -
  assume "w \<noteq> - 1"
  then have "1 + w \<noteq> 0" by (metis add.commute eq_neg_iff_add_eq_0)
  then show ?thesis using unatSuc [of w] by (simp add: add.commute)
qed

lemma fold_wipeOne:
  assumes "tree_shape t" and "unat (bt_StartKeyIdentifier t) \<le> a" and "a \<le> b" and "b \<le> unat (bt_EndKeyIdentifier t)"
  shows "fold (\<lambda>keyId. bt_wipeOne (of_nat keyId)) [a..<Suc b] t = wiped_tree (unat (bt_EndKeyIdentifier t) - b) t"
  using assms(3,4)
proof (induction b rule: dec_induct)
  case base
  have "unat (of_nat a :: u64) = a" using unat_of_nat_below [of a "bt_EndKeyIdentifier t"] base by simp
  then show ?case using bt_wipeOne_eq [OF assms(1), of "of_nat a"] assms(2) base by (simp add: word_less_iff_nat)
next
  case (step b)
  let ?t = "wiped_tree (unat (bt_EndKeyIdentifier t) - b) t"
  have IH: "fold (\<lambda>keyId. bt_wipeOne (of_nat keyId)) [a..<Suc b] t = ?t" using step by simp
  have u: "unat (of_nat (Suc b) :: u64) = Suc b" using unat_of_nat_below [of "Suc b" "bt_EndKeyIdentifier t"] step by simp
  have same: "bt_StartKeyIdentifier ?t = bt_StartKeyIdentifier t" "bt_EndKeyIdentifier ?t = bt_EndKeyIdentifier t"
    by (simp_all add: wiped_tree_def)
  have "bt_wipeOne (of_nat (Suc b)) ?t = wiped_tree (unat (bt_EndKeyIdentifier t) - Suc b) ?t"
    using bt_wipeOne_eq [OF wiped_tree_shape [OF assms(1)], of "unat (bt_EndKeyIdentifier t) - b" "of_nat (Suc b)"] u assms(2) step same
    by (simp add: word_less_iff_nat)
  also have "\<dots> = wiped_tree (unat (bt_EndKeyIdentifier t) - Suc b) t" by (simp add: wiped_tree_wiped)
  finally show ?case using IH step(1) by (simp only: upt_Suc_append [of a "Suc b"] fold_append o_apply fold.simps id_apply le_SucI step)
qed

lemma tree_fileD:
  assumes "tree_file pub t"
  shows "tree_shape t" and "bt_StartKeyIdentifier t \<le> bt_EndKeyIdentifier t" and "bt_EndKeyIdentifier t \<noteq> Invalid_Id"
    and "bt_EndKeyIdentifier t - bt_StartKeyIdentifier t < 0xFFFFFFFF"
    and "bt_lastKeyIdentifier t = Invalid_Id \<or> bt_StartKeyIdentifier t \<le> bt_lastKeyIdentifier t \<and> bt_lastKeyIdentifier t \<le> bt_EndKeyIdentifier t"
    and "bt_lastWipeKeyIdentifier t = Invalid_Id \<or> bt_StartKeyIdentifier t \<le> bt_lastWipeKeyIdentifier t \<and> bt_lastWipeKeyIdentifier t \<le> bt_EndKeyIdentifier t"
  using assms by (simp_all add: tree_file_def tree_shape_def Let_def)

lemma tree_okD:
  assumes "tree_ok pub vfy t"
  shows "tree_file pub t"
    and "bt_lastWipeKeyIdentifier t = Invalid_Id \<or> bt_lastKeyIdentifier t \<noteq> Invalid_Id
      \<and> bt_StartKeyIdentifier t \<le> bt_lastWipeKeyIdentifier t \<and> bt_lastWipeKeyIdentifier t < bt_lastKeyIdentifier t"
  using assms by (simp_all add: tree_ok_def)

lemma tree_ok_key:
  assumes "tree_ok pub vfy t" and "bt_StartKeyIdentifier t \<le> ident" and "ident \<le> bt_EndKeyIdentifier t"
  shows "wiped t ident \<Longrightarrow> spk_private (key_of t ident) = zero_key"
    and "bt_lastKeyIdentifier t = Invalid_Id \<or> bt_lastKeyIdentifier t \<le> ident \<Longrightarrow> live_key pub vfy t ident"
  using assms by (auto simp: tree_ok_def)

lemma id_max: "w \<le> Invalid_Id" "w \<noteq> Invalid_Id \<Longrightarrow> w < Invalid_Id"
  by (simp_all add: Invalid_Id_def word_order.extremum_strict flip: word_order.not_eq_extremum)

lemma id_less: "b \<noteq> Invalid_Id \<Longrightarrow> IsIdLessThan a b \<longleftrightarrow> a = Invalid_Id \<or> a < b"
  "b \<noteq> Invalid_Id \<Longrightarrow> IsIdGreaterThan a b \<longleftrightarrow> a \<noteq> Invalid_Id \<and> b < a" "\<not> IsIdLessThan a Invalid_Id"
  by (auto simp: IsIdLessThan_def IsIdGreaterThan_def)

lemma below_end: "k \<le> e \<Longrightarrow> e \<noteq> Invalid_Id \<Longrightarrow> k \<noteq> Invalid_Id"
  using id_max(2) [of e] by auto

lemma bt_check_iff:
  assumes "bt_StartKeyIdentifier t \<le> bt_EndKeyIdentifier t" and "bt_EndKeyIdentifier t \<noteq> Invalid_Id"
  shows "bt_check t k reference \<longleftrightarrow> bt_StartKeyIdentifier t \<le> k \<and> k \<le> bt_EndKeyIdentifier t \<and> (reference = Invalid_Id \<or> reference \<le> k)"
proof -
  have s: "bt_StartKeyIdentifier t \<noteq> Invalid_Id" using assms below_end by blast
  show ?thesis
  proof (cases "k = Invalid_Id")
    case True
    then show ?thesis using s assms id_max(2) [OF assms(2)] by (auto simp: bt_check_def id_less)
  next
    case False
    then show ?thesis using s assms by (cases "reference = Invalid_Id") (auto simp: bt_check_def id_less not_less)
  qed
qed

lemma canSign_iff:
  assumes "tree_file pub t"
  shows "bt_canSign t k \<longleftrightarrow> bt_StartKeyIdentifier t \<le> k \<and> k \<le> bt_EndKeyIdentifier t
    \<and> (bt_lastKeyIdentifier t = Invalid_Id \<or> bt_lastKeyIdentifier t \<le> k)"
  using bt_check_iff [OF tree_fileD(2,3) [OF assms]] by (simp add: bt_canSign_def)

lemma key_of_index:
  assumes "tree_shape t" and "bt_StartKeyIdentifier t \<le> ident" and "ident \<le> bt_EndKeyIdentifier t"
  shows "unat (bt_EndKeyIdentifier t) - unat ident < length (lv_keys (bt_level t))"
  using assms by (auto simp: tree_shape_def Let_def word_less_iff_nat)

lemma key_of_wiped:
  assumes "tree_shape t" and "bt_StartKeyIdentifier t \<le> ident" and "ident \<le> bt_EndKeyIdentifier t" and "w \<le> bt_EndKeyIdentifier t"
  shows "key_of ((wiped_tree (unat (bt_EndKeyIdentifier t) - unat w) t)\<lparr>bt_lastWipeKeyIdentifier := x\<rparr>) ident
    = (if ident \<le> w then detachKeyPair (key_of t ident) else key_of t ident)"
proof -
  have "unat (bt_EndKeyIdentifier t) - unat w \<le> unat (bt_EndKeyIdentifier t) - unat ident \<longleftrightarrow> ident \<le> w"
    using assms(3,4) by (auto simp: word_less_iff_nat)
  then show ?thesis using nth_detach_from [OF key_of_index [OF assms(1-3)]] by (simp add: key_of_def wiped_tree_def)
qed

text \<open>
  What \<^verbatim>\<open>wipe\<close> does: every key up to the identifier is zeroed in memory and in the file, or nothing changes because it was the last wiped one already.
\<close>

lemma bt_wipe_eq:
  assumes f: "tree_file pub t" and wipe: "bt_wipe w t = Inr t'"
  shows "bt_StartKeyIdentifier t \<le> w" and "w \<le> bt_EndKeyIdentifier t" and "w \<noteq> Invalid_Id"
    and "bt_lastWipeKeyIdentifier t \<noteq> Invalid_Id \<Longrightarrow> bt_lastWipeKeyIdentifier t \<le> w"
    and "t' = (if bt_lastWipeKeyIdentifier t = w then t else (wiped_tree (unat (bt_EndKeyIdentifier t) - unat w) t)\<lparr>bt_lastWipeKeyIdentifier := w\<rparr>)"
proof -
  let ?s = "bt_StartKeyIdentifier t" and ?e = "bt_EndKeyIdentifier t" and ?w = "bt_lastWipeKeyIdentifier t"
  have chk: "bt_check t w ?w" using wipe by (auto simp: bt_wipe_def split: if_splits)
  then show r: "?s \<le> w" "w \<le> ?e" and old: "?w \<noteq> Invalid_Id \<Longrightarrow> ?w \<le> w" using bt_check_iff [OF tree_fileD(2,3) [OF f]] by auto
  show wv: "w \<noteq> Invalid_Id" using below_end [OF r(2) tree_fileD(3) [OF f]] .
  define a where "a = unat (if Invalid_Id = ?w then ?s else ?w + 1)"
  define t1 where "t1 = fold (\<lambda>keyId. bt_wipeOne (of_nat keyId)) [a..<Suc (unat w)] t"
  have t': "t' = t1\<lparr>bt_lastWipeKeyIdentifier := w\<rparr>" using wipe chk by (simp add: bt_wipe_def t1_def a_def del: upt_Suc)
  have suc: "unat (?w + 1) = Suc (unat ?w)" if "?w \<noteq> Invalid_Id" using that by (metis Invalid_Id_def Suc_eq_plus1 unat_suc)
  show "t' = (if ?w = w then t else (wiped_tree (unat ?e - unat w) t)\<lparr>bt_lastWipeKeyIdentifier := w\<rparr>)"
  proof (cases "?w = w")
    case True
    then have "a = Suc (unat w)" using wv suc by (simp add: a_def)
    then show ?thesis using True t' by (simp add: t1_def)
  next
    case False
    have a: "unat ?s \<le> a" "a \<le> unat w"
      using suc r tree_fileD(6) [OF f] old False by (auto simp: a_def word_less_iff_nat word_unat_eq_iff)
    have "t1 = wiped_tree (unat ?e - unat w) t"
      unfolding t1_def by (rule fold_wipeOne [OF tree_fileD(1) [OF f] a]) (use r(2) in \<open>simp add: word_less_iff_nat\<close>)
    then show ?thesis using False t' by simp
  qed
qed

lemma bt_wipe_possible:
  assumes "tree_file pub t" and "bt_StartKeyIdentifier t \<le> w" and "w \<le> bt_EndKeyIdentifier t"
    and "bt_lastWipeKeyIdentifier t = Invalid_Id \<or> bt_lastWipeKeyIdentifier t \<le> w"
  shows "\<exists>t'. bt_wipe w t = Inr t'"
  using assms bt_check_iff [OF tree_fileD(2,3) [OF assms(1)]] by (simp add: bt_wipe_def Let_def)

lemma bt_wipe_file:
  assumes f: "tree_file pub t" and wipe: "bt_wipe w t = Inr t'"
  shows "tree_file pub t'"
proof (cases "bt_lastWipeKeyIdentifier t = w")
  case False
  note e = bt_wipe_eq [OF f wipe]
  let ?t = "wiped_tree (unat (bt_EndKeyIdentifier t) - unat w) t"
  have "tree_shape t'" using wiped_tree_shape [OF tree_fileD(1) [OF f]] e(5) False by (simp add: tree_shape_def Let_def)
  moreover have "spk_private (key_of t' ident) = zero_key \<or> spk_public (key_of t' ident) = pub (spk_private (key_of t' ident))"
    if "bt_StartKeyIdentifier t \<le> ident" "ident \<le> bt_EndKeyIdentifier t" for ident
    using that key_of_wiped [OF tree_fileD(1) [OF f] that e(2)] e(5) False f by (auto simp: tree_file_def detachKeyPair_def)
  ultimately show ?thesis using tree_fileD(4,5) [OF f] e False by (simp add: tree_file_def wiped_tree_def)
qed (use bt_wipe_eq(5) [OF f wipe] f in simp)

lemma wipe_previous:
  assumes ok: "tree_ok pub vfy t" and last: "bt_lastKeyIdentifier t = k" "k \<noteq> Invalid_Id" and k: "k \<noteq> bt_StartKeyIdentifier t"
  shows "\<exists>t'. bt_wipe (k - 1) t = Inr t' \<and> tree_ok pub vfy t' \<and> bt_lastKeyIdentifier t' = k
    \<and> bt_lastWipeKeyIdentifier t' = k - 1 \<and> bt_StartKeyIdentifier t' = bt_StartKeyIdentifier t
    \<and> bt_EndKeyIdentifier t' = bt_EndKeyIdentifier t \<and> lv_parentPublicKey (bt_level t') = lv_parentPublicKey (bt_level t)"
proof -
  let ?s = "bt_StartKeyIdentifier t" and ?e = "bt_EndKeyIdentifier t" and ?w = "bt_lastWipeKeyIdentifier t"
  note f = tree_okD(1) [OF ok]
  have r: "?s < k" "k \<le> ?e" using tree_fileD(5) [OF f] last k by auto
  have u1: "unat (k - 1) = unat k - 1" using r(1) by (intro unat_minus_one) auto
  have r1: "?s \<le> k - 1" "k - 1 \<le> ?e" "k - 1 < k" "?w \<noteq> Invalid_Id \<Longrightarrow> ?w \<le> k - 1"
    using r u1 tree_okD(2) [OF ok] last(1) by (auto simp: word_less_iff_nat)
  obtain t' where t': "bt_wipe (k - 1) t = Inr t'" using bt_wipe_possible [OF f r1(1,2)] r1(4) by blast
  note e = bt_wipe_eq [OF f t']
  show ?thesis
  proof (cases "?w = k - 1")
    case True
    then show ?thesis using t' e(5) ok last by auto
  next
    case False
    have fields: "bt_lastKeyIdentifier t' = k" "bt_lastWipeKeyIdentifier t' = k - 1" "bt_StartKeyIdentifier t' = ?s" "bt_EndKeyIdentifier t' = ?e"
      "lv_parentPublicKey (bt_level t') = lv_parentPublicKey (bt_level t)"
      using e(5) False last(1) by (simp_all add: wiped_tree_def)
    have key: "key_of t' ident = (if ident \<le> k - 1 then detachKeyPair (key_of t ident) else key_of t ident)" if "?s \<le> ident" "ident \<le> ?e" for ident
      using key_of_wiped [OF tree_fileD(1) [OF f] that e(2)] e(5) False by simp
    have "(wiped t' ident \<longrightarrow> spk_private (key_of t' ident) = zero_key)
        \<and> (k \<le> ident \<longrightarrow> live_key pub vfy t' ident)" if "?s \<le> ident" "ident \<le> ?e" for ident
      using key [OF that] tree_ok_key(2) [OF ok that] fields(2,5) r1(3) last live_key_cong [of t' ident t] by (auto simp: wiped_def detachKeyPair_def)
    then have "tree_ok pub vfy t'" using bt_wipe_file [OF f t'] fields last(2) r1 by (auto simp: tree_ok_def)
    then show ?thesis using t' fields by blast
  qed
qed

section \<open>Signing\<close>

text \<open>What the signature scheme promises: a signature made with a key pair verifies under its public key, and the sizes.\<close>

definition scheme_ok where
  "scheme_ok pub signer vfy \<longleftrightarrow> (\<forall>p d. vfy (pub p) d (signer p (pub p) d)) \<and> (\<forall>p. length (pub p) = 32) \<and> (\<forall>p q d. length (signer p q d) = 64)"

lemma bt_sign_file:
  assumes f: "tree_file pub t" and can: "bt_canSign t k"
  shows "\<exists>t'. bt_sign signer k d t = Inr (\<lparr>Root_ParentPublicKey = lv_parentPublicKey (bt_level t), Root_Signature = spk_signature (key_of t k),
        Bottom_ParentPublicKey = spk_public (key_of t k), Bottom_Signature = signer (spk_private (key_of t k)) (spk_public (key_of t k)) d\<rparr>, t')
    \<and> tree_file pub t' \<and> t' = t\<lparr>bt_lastKeyIdentifier := k, bt_storage := bt_storage t'\<rparr>"
proof -
  let ?s = "bt_StartKeyIdentifier t" and ?e = "bt_EndKeyIdentifier t" and ?ks = "lv_keys (bt_level t)"
  have r: "?s \<le> k" "k \<le> ?e" using can canSign_iff [OF f] by auto
  have idx: "lv_index (bt_level t) k = unat ?e - unat k"
    using tree_fileD(1) [OF f] r(2) by (simp add: lv_index_def unat_sub_le tree_shape_def Let_def)
  define t' where "t' = t\<lparr>bt_lastKeyIdentifier := k, bt_storage := write_at 16 (le_bytes 8 k) (bt_storage t)\<rparr>"
  have "bt_storage t' = tree_bytes ?s ?e k (lv_parentPublicKey (bt_level t)) ?ks"
    using tree_fileD(1) [OF f] by (simp add: t'_def tree_shape_def Let_def write_last_key)
  then have "tree_shape t'" using tree_fileD(1) [OF f] by (simp add: tree_shape_def t'_def Let_def)
  then have "tree_file pub t'" using f r by (simp add: tree_file_def t'_def key_of_def)
  then show ?thesis
    using can idx key_of_index [OF tree_fileD(1) [OF f] r] by (simp add: bt_sign_def Let_def key_of_def t'_def [symmetric]) (simp add: t'_def)
qed

lemma bt_sign_ok:
  assumes ok: "tree_ok pub vfy t" and scheme: "scheme_ok pub signer vfy" and can: "bt_canSign t k"
  shows "\<exists>sig t'. bt_sign signer k d t = Inr (sig, t') \<and> tree_ok pub vfy t' \<and> bt_lastKeyIdentifier t' = k
    \<and> bm_Verify vfy sig k d \<and> Root_ParentPublicKey sig = lv_parentPublicKey (bt_level t)
    \<and> bt_StartKeyIdentifier t' = bt_StartKeyIdentifier t \<and> bt_EndKeyIdentifier t' = bt_EndKeyIdentifier t \<and> bt_level t' = bt_level t"
proof -
  note f = tree_okD(1) [OF ok]
  let ?s = "bt_StartKeyIdentifier t" and ?e = "bt_EndKeyIdentifier t" and ?k = "key_of t k"
  have r: "?s \<le> k" "k \<le> ?e" "bt_lastKeyIdentifier t = Invalid_Id \<or> bt_lastKeyIdentifier t \<le> k" using can canSign_iff [OF f] by auto
  have kv: "k \<noteq> Invalid_Id" using below_end [OF r(2) tree_fileD(3) [OF f]] .
  define sig where "sig = \<lparr>Root_ParentPublicKey = lv_parentPublicKey (bt_level t), Root_Signature = spk_signature ?k,
        Bottom_ParentPublicKey = spk_public ?k, Bottom_Signature = signer (spk_private ?k) (spk_public ?k) d\<rparr>"
  obtain t' where t': "bt_sign signer k d t = Inr (sig, t')" "tree_file pub t'" "t' = t\<lparr>bt_lastKeyIdentifier := k, bt_storage := bt_storage t'\<rparr>"
    using bt_sign_file [OF f can, of signer d] unfolding sig_def by blast
  have fields: "bt_lastKeyIdentifier t' = k" "bt_StartKeyIdentifier t' = ?s" "bt_EndKeyIdentifier t' = ?e" "bt_level t' = bt_level t"
    "bt_lastWipeKeyIdentifier t' = bt_lastWipeKeyIdentifier t"
    by (subst t'(3), simp)+
  have key: "key_of t' ident = key_of t ident" "wiped t' ident = wiped t ident" "live_key pub vfy t' ident = live_key pub vfy t ident" for ident
    using fields by (simp_all add: key_of_def wiped_def live_key_def)
  have "tree_ok pub vfy t'"
    unfolding tree_ok_def fields key
    using t'(2) kv r(3) tree_ok_key [OF ok] tree_okD(2) [OF ok] by (auto intro: order_trans)
  moreover have "bm_Verify vfy sig k d" using tree_ok_key(2) [OF ok r] scheme by (auto simp: bm_Verify_def sig_def scheme_ok_def live_key_def)
  ultimately show ?thesis using t'(1) fields by (auto simp: sig_def)
qed

lemma Create_ok:
  assumes "scheme_ok pub signer vfy" and "\<forall>i. length (randoms i) = 32" and "s \<le> e" and "e \<noteq> Invalid_Id" and "e - s < 0xFFFFFFFF"
  shows "\<exists>t. BmPrivateKeyTree_Create pub signer privateKey s e randoms = Inr t \<and> tree_ok pub vfy t
    \<and> bt_StartKeyIdentifier t = s \<and> bt_EndKeyIdentifier t = e \<and> bt_lastKeyIdentifier t = Invalid_Id
    \<and> lv_parentPublicKey (bt_level t) = pub privateKey"
proof -
  let ?key = "\<lambda>i. SignedPrivateKey_CreateRandom pub signer privateKey (pub privateKey) (e - of_nat i) (randoms i)"
  have n: "unat (e - s) = unat e - unat s" using assms(3) by (simp add: unat_sub_le)
  have cnt: "level_count s e = Inr (Suc (unat e - unat s))" using assms(5) n by (simp add: level_count_def not_le)
  define ks where "ks = map ?key [0..<Suc (unat e - unat s)]"
  have key: "VerifyBoundSignature vfy (pub privateKey) (spk_signature (ks ! (unat e - unat ident))) (spk_public (ks ! (unat e - unat ident))) ident
      \<and> spk_public (ks ! (unat e - unat ident)) = pub (spk_private (ks ! (unat e - unat ident)))" if "s \<le> ident \<and> ident \<le> e" for ident
  proof -
    have "e - of_nat (unat e - unat ident) = ident"
      using that by (simp add: word_less_iff_nat of_nat_diff)
    moreover have "unat e - unat ident < Suc (unat e - unat s)" using that by (auto simp: word_less_iff_nat)
    ultimately show ?thesis using assms(1)
      by (simp add: ks_def SignedPrivateKey_CreateRandom_def VerifyBoundSignature_def scheme_ok_def del: upt_Suc)
  qed
  have "list_all sized ks" "length ks = Suc (unat e - unat s)" "length (pub privateKey) = 32"
    using assms(1,2) by (simp_all add: ks_def list_all_iff sized_def SignedPrivateKey_CreateRandom_def scheme_ok_def del: upt_Suc)
  moreover define t where "t = \<lparr>bt_storage = tree_bytes s e Invalid_Id (pub privateKey) ks, bt_StartKeyIdentifier = s, bt_EndKeyIdentifier = e,
    bt_lastKeyIdentifier = Invalid_Id, bt_lastWipeKeyIdentifier = Invalid_Id,
    bt_level = \<lparr>lv_parentPublicKey = pub privateKey, lv_startIdentifier = s, lv_endIdentifier = e, lv_keys = ks\<rparr>\<rparr>"
  ultimately have "tree_shape t" using assms(3,4) by (simp add: tree_shape_def t_def)
  moreover have "live_key pub vfy t ident" if "s \<le> ident \<and> ident \<le> e" for ident using key [OF that] by (auto simp: live_key_def t_def key_of_def)
  moreover have "bt_StartKeyIdentifier t = s" "bt_EndKeyIdentifier t = e" "bt_lastKeyIdentifier t = Invalid_Id" "bt_lastWipeKeyIdentifier t = Invalid_Id"
    by (simp_all add: t_def)
  ultimately have "tree_ok pub vfy t" using assms(5) unfolding tree_ok_def tree_file_def wiped_def live_key_def by metis
  moreover have "BmPrivateKeyTree_Create pub signer privateKey s e randoms = Inr t"
    using cnt by (simp add: BmPrivateKeyTree_Create_def Level_Create_def ks_def [symmetric] t_def tree_bytes_def level_bytes_def lv_write_def
        del: upt_Suc bind_result_Inr_iff)
  ultimately show ?thesis by (simp add: t_def)
qed

lemma entry_bytes:
  assumes "list_all sized ks" and "j < length ks" and "length parent = 32"
  shows "drop (Tree_Header_Size + IndexToOffset j) (tree_bytes s e l parent ks) = concat (map spk_write (drop j ks))"
proof -
  have "concat (map spk_write ks) = concat (map spk_write (take j ks)) @ concat (map spk_write (drop j ks))"
    by (metis append_take_drop_id concat_append map_append)
  moreover have "length (concat (map spk_write (take j ks))) = 96 * j"
    using length_concat_spk [of "take j ks"] assms by (auto simp: list_all_length)
  ultimately show ?thesis using assms(3) by (simp add: tree_bytes_def level_bytes_def Tree_Header_Size_def IndexToOffset_def)
qed

lemma entry_private:
  assumes "list_all sized ks" and "j < length ks" and "length parent = 32"
  shows "take 32 (drop (Tree_Header_Size + IndexToOffset j) (tree_bytes s e l parent ks)) = spk_private (ks ! j)"
proof -
  have "drop j ks = ks ! j # drop (Suc j) ks" using assms(2) by (simp add: Cons_nth_drop_Suc)
  moreover have "length (spk_private (ks ! j)) = 32" using assms(1,2) by (simp add: list_all_length sized_def)
  ultimately show ?thesis using entry_bytes [OF assms] by (simp add: spk_write_def)
qed

text \<open>The private key of an identifier is gone, in memory and in the file.\<close>

definition erased :: "BmPrivateKeyTree \<Rightarrow> u64 \<Rightarrow> bool" where
  "erased t ident \<longleftrightarrow> spk_private (key_of t ident) = zero_key
    \<and> take 32 (drop (Tree_Header_Size + IndexToOffset (unat (bt_EndKeyIdentifier t) - unat ident)) (bt_storage t)) = zero_key"

lemma erasedI:
  assumes "tree_shape t" and "bt_StartKeyIdentifier t \<le> ident" and "ident \<le> bt_EndKeyIdentifier t" and "spk_private (key_of t ident) = zero_key"
  shows "erased t ident"
proof -
  have sh: "list_all sized (lv_keys (bt_level t))" "length (lv_parentPublicKey (bt_level t)) = 32"
    "bt_storage t = tree_bytes (bt_StartKeyIdentifier t) (bt_EndKeyIdentifier t) (bt_lastKeyIdentifier t) (lv_parentPublicKey (bt_level t)) (lv_keys (bt_level t))"
    using assms(1) by (simp_all add: tree_shape_def Let_def)
  show ?thesis
    using entry_private [OF sh(1) key_of_index [OF assms(1-3)] sh(2)] assms(4) by (simp add: erased_def sh(3) key_of_def)
qed

text \<open>Nothing below an identifier is left in a tree in use, and it cannot be signed for; nothing at all is left in a tree that has been left behind.\<close>

definition erased_below :: "u64 \<Rightarrow> BmPrivateKeyTree \<Rightarrow> bool" where
  "erased_below k t \<longleftrightarrow> (\<forall>ident. bt_StartKeyIdentifier t \<le> ident \<and> ident < k \<longrightarrow> \<not> bt_canSign t ident \<and> erased t ident)"

definition erased_tree :: "BmPrivateKeyTree \<Rightarrow> bool" where
  "erased_tree t \<longleftrightarrow> (\<forall>ident. bt_StartKeyIdentifier t \<le> ident \<and> ident \<le> bt_EndKeyIdentifier t \<longrightarrow> erased t ident)"

lemma wipe_end_erases:
  assumes f: "tree_file pub t" and l: "bt_lastWipeKeyIdentifier t \<noteq> bt_EndKeyIdentifier t" and wipe: "bt_wipe (bt_EndKeyIdentifier t) t = Inr t'"
  shows "tree_file pub t' \<and> erased_tree t' \<and> bt_StartKeyIdentifier t' = bt_StartKeyIdentifier t \<and> bt_EndKeyIdentifier t' = bt_EndKeyIdentifier t"
proof -
  note e = bt_wipe_eq [OF f wipe]
  have t': "t' = (wiped_tree (unat (bt_EndKeyIdentifier t) - unat (bt_EndKeyIdentifier t)) t)\<lparr>bt_lastWipeKeyIdentifier := bt_EndKeyIdentifier t\<rparr>"
    using e(5) l by simp
  then have same: "bt_StartKeyIdentifier t' = bt_StartKeyIdentifier t" "bt_EndKeyIdentifier t' = bt_EndKeyIdentifier t" by (simp_all add: wiped_tree_def)
  have "spk_private (key_of t' ident) = zero_key" if "bt_StartKeyIdentifier t \<le> ident" "ident \<le> bt_EndKeyIdentifier t" for ident
    using key_of_wiped [OF tree_fileD(1) [OF f] that e(2), of "bt_EndKeyIdentifier t"] that(2) unfolding t' by (simp add: detachKeyPair_def)
  then show ?thesis using bt_wipe_file [OF f wipe] erasedI [OF tree_fileD(1) [OF bt_wipe_file [OF f wipe]]] same by (auto simp: erased_tree_def)
qed

text \<open>
  The trees of an aggregate that is asked to sign for an identifier. A node that has been restarted also loads the files of the trees it has
  left behind; these end before the identifier. Moving on to another tree takes it from the factory and erases the one before it.
\<close>

definition spent_tree where
  "spent_tree pub k t \<longleftrightarrow> tree_file pub t \<and> erased_tree t \<and> IsIdLessThan (bt_EndKeyIdentifier t) k"

definition tree_for where
  "tree_for pub vfy k t \<longleftrightarrow> tree_ok pub vfy t \<or> spent_tree pub k t \<and> bt_lastWipeKeyIdentifier t = Invalid_Id"

definition trees_ok where
  "trees_ok pub vfy k a \<longleftrightarrow> (\<forall>t. at_pTree a = Some t \<longrightarrow> tree_for pub vfy k t) \<and> list_all (tree_for pub vfy k) (at_factory a)
    \<and> list_all (spent_tree pub k) (at_retired a)"

lemma tree_for_wipe_end:
  assumes t: "tree_for pub vfy k t" and "bt_wipe (bt_EndKeyIdentifier t) t = Inr t'" and "IsIdLessThan (bt_EndKeyIdentifier t) k"
  shows "spent_tree pub k t'"
proof -
  have f: "tree_file pub t" using t tree_okD(1) by (auto simp: tree_for_def spent_tree_def)
  moreover have "bt_lastWipeKeyIdentifier t \<noteq> bt_EndKeyIdentifier t"
  proof (cases "tree_ok pub vfy t")
    case True
    then show ?thesis using tree_okD(2) [OF True] tree_fileD(3,5) [OF f] by auto
  next
    case False
    then show ?thesis using t tree_fileD(3) [OF f] by (simp add: tree_for_def)
  qed
  ultimately show ?thesis using wipe_end_erases [OF _ _ assms(2)] assms(3) by (simp add: spent_tree_def)
qed

lemma tree_for_current: "tree_for pub vfy k t \<Longrightarrow> \<not> IsIdLessThan (bt_EndKeyIdentifier t) k \<Longrightarrow> tree_ok pub vfy t"
  by (auto simp: tree_for_def spent_tree_def)

lemma at_advance_trees:
  "at_advance k t ts rs = Inr a \<Longrightarrow> tree_for pub vfy k t \<Longrightarrow> list_all (tree_for pub vfy k) ts \<Longrightarrow> list_all (spent_tree pub k) rs
    \<Longrightarrow> trees_ok pub vfy k a \<and> (\<forall>t. at_pTree a = Some t \<longrightarrow> tree_ok pub vfy t)"
  by (induction k t ts rs rule: at_advance.induct)
    (auto simp: trees_ok_def dest: tree_for_wipe_end tree_for_current split: if_splits)

lemma erased_belowI:
  assumes ok: "tree_ok pub vfy t" and k: "bt_lastKeyIdentifier t = k" "k \<noteq> Invalid_Id"
    and w: "k = bt_StartKeyIdentifier t \<or> bt_lastWipeKeyIdentifier t = k - 1"
  shows "erased_below k t"
  unfolding erased_below_def
proof (intro allI impI)
  fix ident assume i: "bt_StartKeyIdentifier t \<le> ident \<and> ident < k"
  let ?e = "bt_EndKeyIdentifier t"
  note f = tree_okD(1) [OF ok]
  have ke: "k \<le> ?e" using tree_fileD(5) [OF f] k by auto
  have u1: "unat (k - 1) = unat k - 1" using i by (intro unat_minus_one) auto
  have w1: "bt_lastWipeKeyIdentifier t = k - 1" using w i by auto
  have ie: "ident \<le> ?e" using i ke by auto
  have "k - 1 \<noteq> Invalid_Id" using below_end [of "k - 1" ?e] ke u1 tree_fileD(3) [OF f] by (auto simp: word_less_iff_nat)
  moreover have "ident \<le> k - 1" using i u1 by (auto simp: word_less_iff_nat)
  ultimately have "wiped t ident" using w1 by (simp add: wiped_def)
  then have "erased t ident" using tree_ok_key(1) [OF ok _ ie] erasedI [OF tree_fileD(1) [OF f] _ ie] i by simp
  then show "\<not> bt_canSign t ident \<and> erased t ident" using i k canSign_iff [OF f] by auto
qed

lemma at_sign_ok:
  assumes ok: "trees_ok pub vfy k a" and scheme: "scheme_ok pub signer vfy" and can: "at_canSign k a = Inr (True, a1)"
  shows "\<exists>sig t. at_sign signer k d a = Inr (sig, a1\<lparr>at_pTree := Some t\<rparr>) \<and> trees_ok pub vfy k (a1\<lparr>at_pTree := Some t\<rparr>)
    \<and> bm_Verify vfy sig k d \<and> Root_ParentPublicKey sig = lv_parentPublicKey (bt_level t)
    \<and> bt_StartKeyIdentifier t \<le> k \<and> k \<le> bt_EndKeyIdentifier t \<and> erased_below k t"
proof -
  obtain t0 where t0: "at_pTree a = Some t0" "at_advance k t0 (at_factory a) (at_retired a) = Inr a1"
    "(case at_pTree a1 of None \<Rightarrow> False | Some t' \<Rightarrow> bt_canSign t' k)"
    using can by (auto simp: at_canSign_def split: option.splits)
  then obtain t1 where t1: "at_pTree a1 = Some t1" "bt_canSign t1 k" by (auto split: option.splits)
  have a1: "trees_ok pub vfy k a1" and ok1: "tree_ok pub vfy t1" using at_advance_trees [OF t0(2)] ok t0(1) t1(1) by (auto simp: trees_ok_def)
  obtain sig t2 where t2: "bt_sign signer k d t1 = Inr (sig, t2)" "tree_ok pub vfy t2" "bt_lastKeyIdentifier t2 = k" "bm_Verify vfy sig k d"
    "Root_ParentPublicKey sig = lv_parentPublicKey (bt_level t1)" "bt_StartKeyIdentifier t2 = bt_StartKeyIdentifier t1"
    "bt_EndKeyIdentifier t2 = bt_EndKeyIdentifier t1" "bt_level t2 = bt_level t1"
    using bt_sign_ok [OF ok1 scheme t1(2)] by blast
  note f1 = tree_okD(1) [OF ok1]
  have r: "bt_StartKeyIdentifier t1 \<le> k" "k \<le> bt_EndKeyIdentifier t1" using canSign_iff [OF f1] t1(2) by auto
  have kv: "k \<noteq> Invalid_Id" using below_end [OF r(2) tree_fileD(3) [OF f1]] .
  have trees: "trees_ok pub vfy k (a1\<lparr>at_pTree := Some t\<rparr>)" if "tree_ok pub vfy t" for t using a1 that by (simp add: trees_ok_def tree_for_def)
  show ?thesis
  proof (cases "k = bt_StartKeyIdentifier t2")
    case True
    then have "at_sign signer k d a = Inr (sig, a1\<lparr>at_pTree := Some t2\<rparr>)"
      using can t1 t2(1) by (simp add: at_sign_def del: bind_result_Inr_iff)
    then show ?thesis using trees [OF t2(2)] t2 r erased_belowI [OF t2(2,3) kv] True by auto
  next
    case False
    obtain t3 where t3: "bt_wipe (k - 1) t2 = Inr t3" "tree_ok pub vfy t3" "bt_lastKeyIdentifier t3 = k" "bt_lastWipeKeyIdentifier t3 = k - 1"
      "bt_StartKeyIdentifier t3 = bt_StartKeyIdentifier t2" "bt_EndKeyIdentifier t3 = bt_EndKeyIdentifier t2"
      "lv_parentPublicKey (bt_level t3) = lv_parentPublicKey (bt_level t2)"
      using wipe_previous [OF t2(2,3) kv False] by blast
    have "at_sign signer k d a = Inr (sig, a1\<lparr>at_pTree := Some t3\<rparr>)"
      using can t1 t2(1) False t3(1) by (simp add: at_sign_def del: bind_result_Inr_iff)
    then show ?thesis using trees [OF t3(2)] t2 t3 r erased_belowI [OF t3(2,3) kv] by auto
  qed
qed

section \<open>Reading a tree back\<close>

lemma le_word_u64 [simp]: "le_word (le_bytes 8 w) = (w :: u64)"
  by (rule le_word_le_bytes) simp

lemma FromStream_tree:
  assumes f: "tree_file pub t"
  shows "BmPrivateKeyTree_FromStream pub (bt_storage t) = Inr (t\<lparr>bt_lastWipeKeyIdentifier := Invalid_Id,
    bt_level := (bt_level t)\<lparr>lv_keys := map (\<lambda>k. k\<lparr>spk_public := pub (spk_private k)\<rparr>) (lv_keys (bt_level t))\<rparr>\<rparr>)"
proof -
  let ?s = "bt_StartKeyIdentifier t" and ?e = "bt_EndKeyIdentifier t" and ?ks = "lv_keys (bt_level t)" and ?p = "lv_parentPublicKey (bt_level t)"
  have sh: "lv_startIdentifier (bt_level t) = ?s" "lv_endIdentifier (bt_level t) = ?e" "length ?ks = Suc (unat ?e - unat ?s)"
    "list_all sized ?ks" "length ?p = 32" "bt_storage t = tree_bytes ?s ?e (bt_lastKeyIdentifier t) ?p ?ks"
    using tree_fileD(1) [OF f] by (simp_all add: tree_shape_def Let_def)
  have n: "unat (?e - ?s) = unat ?e - unat ?s" using tree_fileD(2) [OF f] by (simp add: unat_sub_le)
  have cnt: "level_count ?s ?e = Inr (length ?ks)" using tree_fileD(4) [OF f] n sh(3) by (simp add: level_count_def not_le)
  define input where "input = level_bytes ?p ?s ?e ?ks"
  have drop32: "drop Tree_Header_Size (bt_storage t) = input" by (simp add: sh(6) tree_bytes_def Tree_Header_Size_def input_def)
  have fields: "take 32 input = ?p" "le_word (take 8 (drop 32 input)) = ?s" "le_word (take 8 (drop 40 input)) = ?e"
    using sh(5) by (simp_all add: input_def level_bytes_def)
  have len: "length input = 48 + length ?ks * 96" using sh(5) length_concat_spk [OF sh(4)] by (simp add: input_def level_bytes_def)
  have key: "ReadSignedPrivateKey pub (drop (48 + i * 96) input) = (?ks ! i)\<lparr>spk_public := pub (spk_private (?ks ! i))\<rparr>" if i: "i < length ?ks" for i
  proof -
    have "drop (48 + i * 96) input = concat (map spk_write (drop i ?ks))"
      using entry_bytes [OF sh(4) i sh(5), of ?s ?e "bt_lastKeyIdentifier t"] 
      unfolding drop32 [symmetric] sh(6) by (simp add: IndexToOffset_def add.commute)
    also have "drop i ?ks = ?ks ! i # drop (Suc i) ?ks" using i by (simp add: Cons_nth_drop_Suc)
    finally show ?thesis using sh(4) i by (simp add: ReadSignedPrivateKey_def spk_write_def list_all_length sized_def)
  qed
  have keys: "map (\<lambda>i. ReadSignedPrivateKey pub (drop (48 + i * 96) input)) [0..<length ?ks] = map (\<lambda>k. k\<lparr>spk_public := pub (spk_private k)\<rparr>) ?ks"
    by (rule nth_equalityI) (simp_all add: key)
  have "Level_FromStream pub input = Inr ((bt_level t)\<lparr>lv_keys := map (\<lambda>k. k\<lparr>spk_public := pub (spk_private k)\<rparr>) ?ks\<rparr>)"
    using len cnt fields keys sh(1,2) by (simp add: Level_FromStream_def Let_def)
  moreover have "length (bt_storage t) \<ge> Tree_Header_Size" "le_word (take 8 (bt_storage t)) = ?s" "le_word (take 8 (drop 8 (bt_storage t))) = ?e"
    "le_word (take 8 (drop 16 (bt_storage t))) = bt_lastKeyIdentifier t" "le_word (take 8 (drop 24 (bt_storage t))) = Invalid_Id"
    by (simp_all add: sh(6) tree_bytes_def Tree_Header_Size_def)
  ultimately show ?thesis by (simp add: BmPrivateKeyTree_FromStream_def drop32 del: bind_result_Inr_iff)
qed

section \<open>Trees in use\<close>

text \<open>A tree that has been created and since then signed, wiped and read back in any order.\<close>

inductive used_tree :: "(Key \<Rightarrow> Key) \<Rightarrow> (Key \<Rightarrow> Key \<Rightarrow> bytes \<Rightarrow> bytes) \<Rightarrow> BmPrivateKeyTree \<Rightarrow> bool" for pub signer where
  used_create: "BmPrivateKeyTree_Create pub signer privateKey s e randoms = Inr t \<Longrightarrow> s \<le> e \<Longrightarrow> e \<noteq> Invalid_Id \<Longrightarrow> e - s < 0xFFFFFFFF
    \<Longrightarrow> \<forall>i. length (randoms i) = 32 \<Longrightarrow> used_tree pub signer t"
| used_sign: "used_tree pub signer t \<Longrightarrow> bt_sign signer k d t = Inr (sig, t') \<Longrightarrow> used_tree pub signer t'"
| used_wipe: "used_tree pub signer t \<Longrightarrow> bt_wipe k t = Inr t' \<Longrightarrow> used_tree pub signer t'"
| used_reload: "used_tree pub signer t \<Longrightarrow> BmPrivateKeyTree_FromStream pub (bt_storage t) = Inr t' \<Longrightarrow> used_tree pub signer t'"

lemma reload_file:
  assumes f: "tree_file pub t" and r: "BmPrivateKeyTree_FromStream pub (bt_storage t) = Inr t2"
  shows "tree_file pub t2" and "bt_storage t2 = bt_storage t" and "bt_canSign t2 k = bt_canSign t k"
    and "bt_StartKeyIdentifier t \<le> k \<Longrightarrow> k \<le> bt_EndKeyIdentifier t \<Longrightarrow> key_of t2 k = (key_of t k)\<lparr>spk_public := pub (spk_private (key_of t k))\<rparr>"
    and "lv_parentPublicKey (bt_level t2) = lv_parentPublicKey (bt_level t)"
proof -
  have t2: "t2 = t\<lparr>bt_lastWipeKeyIdentifier := Invalid_Id,
    bt_level := (bt_level t)\<lparr>lv_keys := map (\<lambda>k. k\<lparr>spk_public := pub (spk_private k)\<rparr>) (lv_keys (bt_level t))\<rparr>\<rparr>"
    using FromStream_tree [OF f] r by simp
  show key: "key_of t2 k = (key_of t k)\<lparr>spk_public := pub (spk_private (key_of t k))\<rparr>"
    if "bt_StartKeyIdentifier t \<le> k" "k \<le> bt_EndKeyIdentifier t" for k
    using key_of_index [OF tree_fileD(1) [OF f] that] by (simp add: key_of_def t2)
  have "spk_write \<circ> (\<lambda>k. k\<lparr>spk_public := pub (spk_private k)\<rparr>) = spk_write" by (simp add: fun_eq_iff spk_write_def)
  then have "tree_shape t2"
    using tree_fileD(1) [OF f] by (simp add: tree_shape_def t2 Let_def tree_bytes_def level_bytes_def list_all_iff sized_def)
  then show "tree_file pub t2" using key tree_fileD(4,5) [OF f] by (simp add: tree_file_def) (simp add: t2)
  show "bt_storage t2 = bt_storage t" "bt_canSign t2 k = bt_canSign t k" "lv_parentPublicKey (bt_level t2) = lv_parentPublicKey (bt_level t)"
    by (simp_all add: t2 bt_canSign_def bt_check_def)
qed

text \<open>Reading back a tree of an aggregate gives a tree that an aggregate can go on with.\<close>

lemma reload_ok:
  assumes ok: "tree_ok pub vfy t" and r: "BmPrivateKeyTree_FromStream pub (bt_storage t) = Inr t2"
  shows "tree_ok pub vfy t2"
proof -
  note f = tree_okD(1) [OF ok]
  note l = reload_file [OF f r]
  have t2: "bt_StartKeyIdentifier t2 = bt_StartKeyIdentifier t" "bt_EndKeyIdentifier t2 = bt_EndKeyIdentifier t"
    "bt_lastKeyIdentifier t2 = bt_lastKeyIdentifier t" "bt_lastWipeKeyIdentifier t2 = Invalid_Id"
    using FromStream_tree [OF f] r by auto
  have "live_key pub vfy t2 ident" if "live_key pub vfy t ident" "bt_StartKeyIdentifier t \<le> ident" "ident \<le> bt_EndKeyIdentifier t" for ident
    using that(1) l(4) [OF that(2,3)] l(5) by (auto simp: live_key_def)
  then show ?thesis using tree_ok_key(2) [OF ok] l(1) by (simp add: tree_ok_def t2 wiped_def)
qed

lemma reload_tree_for:
  assumes t: "tree_for pub vfy k t \<or> spent_tree pub k t" and r: "BmPrivateKeyTree_FromStream pub (bt_storage t) = Inr t2"
  shows "tree_for pub vfy k t2"
proof (cases "tree_ok pub vfy t")
  case False
  then have s: "tree_file pub t" "erased_tree t" "IsIdLessThan (bt_EndKeyIdentifier t) k" using t by (auto simp: tree_for_def spent_tree_def)
  note l = reload_file [OF s(1) r]
  have t2: "bt_StartKeyIdentifier t2 = bt_StartKeyIdentifier t" "bt_EndKeyIdentifier t2 = bt_EndKeyIdentifier t" "bt_lastWipeKeyIdentifier t2 = Invalid_Id"
    using FromStream_tree [OF s(1)] r by auto
  have "erased_tree t2" using s(2) l(2,4) by (auto simp: erased_tree_def erased_def t2)
  then show ?thesis using l(1) s(3) t2 by (simp add: tree_for_def spent_tree_def)
qed (use reload_ok r in \<open>auto simp: tree_for_def\<close>)

lemma used_tree_file:
  assumes "used_tree pub signer t" and "\<And>p. length (pub p) = 32" and "\<And>p q d. length (signer p q d) = 64"
  shows "tree_file pub t"
  using assms(1)
proof induction
  case (used_create privateKey s e randoms t)
  have "scheme_ok pub signer (\<lambda>_ _ _. True)" using assms(2,3) by (simp add: scheme_ok_def)
  from Create_ok [OF this used_create(5,2-4), of privateKey] obtain u
    where "BmPrivateKeyTree_Create pub signer privateKey s e randoms = Inr u" "tree_ok pub (\<lambda>_ _ _. True) u" by blast
  then show ?case using used_create(1) tree_okD(1) by simp
next
  case (used_sign t k d sig t')
  then have "bt_canSign t k" by (auto simp: bt_sign_def split: if_splits)
  from bt_sign_file [OF used_sign.IH this, of signer d] show ?case using used_sign.hyps by auto
next
  case (used_wipe t k t')
  then show ?case using bt_wipe_file by blast
next
  case (used_reload t t')
  then show ?case using reload_file(1) by blast
qed

section \<open>Properties\<close>

text \<open>
  C2. Signing with the voting keys of a node always works for an epoch it may sign for, and is forward secure. The signature verifies for
  that epoch and message under the root key of the tree in use. Afterwards the private keys of all earlier epochs of the tree in use are
  zero in memory and in its file, and the node cannot sign for those epochs any more; every tree that the node has left behind on the way to
  the epoch is zero altogether, in memory and in its file. The same holds for the next signature, and after a restart for the trees that are read
  back from all these files. The trees are new ones, trees an earlier call of this kind has left or trees read back in this way; the signature scheme is any whose
  signatures verify.
\<close>

theorem voting_signature_forward_secure:
  assumes "trees_ok pub vfy k a" and "scheme_ok pub signer vfy" and "at_canSign k a = Inr (True, a1)"
  shows "\<exists>sig t. at_sign signer k d a = Inr (sig, a1\<lparr>at_pTree := Some t\<rparr>) \<and> trees_ok pub vfy k (a1\<lparr>at_pTree := Some t\<rparr>)
    \<and> bm_Verify vfy sig k d \<and> Root_ParentPublicKey sig = lv_parentPublicKey (bt_level t)
    \<and> bt_StartKeyIdentifier t \<le> k \<and> k \<le> bt_EndKeyIdentifier t \<and> erased_below k t \<and> list_all erased_tree (at_retired a1)
    \<and> (\<forall>t0 \<in> set (at_retired a1) \<union> {t} \<union> set (at_factory a1). \<forall>t2. BmPrivateKeyTree_FromStream pub (bt_storage t0) = Inr t2 \<longrightarrow> tree_for pub vfy k t2)"
proof -
  obtain sig t where t: "at_sign signer k d a = Inr (sig, a1\<lparr>at_pTree := Some t\<rparr>)" "trees_ok pub vfy k (a1\<lparr>at_pTree := Some t\<rparr>)"
    "bm_Verify vfy sig k d" "Root_ParentPublicKey sig = lv_parentPublicKey (bt_level t)" "bt_StartKeyIdentifier t \<le> k" "k \<le> bt_EndKeyIdentifier t" "erased_below k t"
    using at_sign_ok [OF assms, of d] by blast
  then have spent: "list_all (spent_tree pub k) (at_retired a1)" and "list_all (tree_for pub vfy k) (t # at_factory a1)" by (simp_all add: trees_ok_def)
  then have "\<forall>t0 \<in> set (at_retired a1) \<union> {t} \<union> set (at_factory a1). \<forall>t2. BmPrivateKeyTree_FromStream pub (bt_storage t0) = Inr t2 \<longrightarrow> tree_for pub vfy k t2"
    using reload_tree_for unfolding list_all_iff by fastforce
  moreover have "list_all erased_tree (at_retired a1)" using spent by (simp add: list_all_iff spent_tree_def)
  ultimately show ?thesis using t by blast
qed

definition toy_pub :: "Key \<Rightarrow> Key" where
  "toy_pub p = map (\<lambda>b. b + 1) (take 32 (p @ zero_key))"

definition toy_signer :: "Key \<Rightarrow> Key \<Rightarrow> bytes \<Rightarrow> bytes" where
  "toy_signer p q d = take 64 (map (\<lambda>b. b + 1) (take 32 (p @ zero_key)) @ d @ replicate 64 0)"

definition toy_vfy :: "Key \<Rightarrow> bytes \<Rightarrow> bytes \<Rightarrow> bool" where
  "toy_vfy q d sig \<longleftrightarrow> sig = take 64 (q @ d @ replicate 64 0)"

lemma toy_scheme: "scheme_ok toy_pub toy_signer toy_vfy"
  by (auto simp: scheme_ok_def toy_pub_def toy_signer_def toy_vfy_def)

lemma toy_tree:
  "\<exists>t. BmPrivateKeyTree_Create toy_pub toy_signer [7] 3 5 (\<lambda>i. replicate 32 (of_nat i)) = Inr t \<and> tree_ok toy_pub toy_vfy t
    \<and> bt_StartKeyIdentifier t = 3 \<and> bt_EndKeyIdentifier t = 5 \<and> bt_lastKeyIdentifier t = Invalid_Id \<and> lv_parentPublicKey (bt_level t) = toy_pub [7]"
  by (rule Create_ok [OF toy_scheme]) (simp_all add: Invalid_Id_def)

lemma toy_tree2:
  "\<exists>t. BmPrivateKeyTree_Create toy_pub toy_signer [9] 6 8 (\<lambda>i. replicate 32 (of_nat i)) = Inr t \<and> tree_ok toy_pub toy_vfy t
    \<and> bt_StartKeyIdentifier t = 6 \<and> bt_EndKeyIdentifier t = 8 \<and> bt_lastKeyIdentifier t = Invalid_Id \<and> lv_parentPublicKey (bt_level t) = toy_pub [9]"
  by (rule Create_ok [OF toy_scheme]) (simp_all add: Invalid_Id_def)

theorem voting_signature_forward_secure_witness:
  "\<exists>t u sig u' r. BmPrivateKeyTree_Create toy_pub toy_signer [7] 3 5 (\<lambda>i. replicate 32 (of_nat i)) = Inr t
    \<and> BmPrivateKeyTree_Create toy_pub toy_signer [9] 6 8 (\<lambda>i. replicate 32 (of_nat i)) = Inr u
    \<and> at_sign toy_signer 8 [1, 2] (AggregateBmPrivateKeyTree_new [t, u]) = Inr (sig, \<lparr>at_pTree = Some u', at_factory = [], at_retired = [r]\<rparr>)
    \<and> bm_Verify toy_vfy sig 8 [1, 2] \<and> erased_below 8 u' \<and> erased_tree r"
proof -
  obtain t where t: "BmPrivateKeyTree_Create toy_pub toy_signer [7] 3 5 (\<lambda>i. replicate 32 (of_nat i)) = Inr t" "tree_ok toy_pub toy_vfy t"
    "bt_StartKeyIdentifier t = 3" "bt_EndKeyIdentifier t = 5" "bt_lastKeyIdentifier t = Invalid_Id"
    using toy_tree by blast
  obtain u where u: "BmPrivateKeyTree_Create toy_pub toy_signer [9] 6 8 (\<lambda>i. replicate 32 (of_nat i)) = Inr u" "tree_ok toy_pub toy_vfy u"
    "bt_StartKeyIdentifier u = 6" "bt_EndKeyIdentifier u = 8" "bt_lastKeyIdentifier u = Invalid_Id"
    using toy_tree2 by blast
  let ?a = "\<lparr>at_pTree = Some t, at_factory = [u], at_retired = []\<rparr>"
  have new: "AggregateBmPrivateKeyTree_new [t, u] = ?a" by (simp add: AggregateBmPrivateKeyTree_new_def)
  have "bt_lastWipeKeyIdentifier t = Invalid_Id" using tree_okD(2) [OF t(2)] t(5) by auto
  then obtain r where r: "bt_wipe 5 t = Inr r" using bt_wipe_possible [OF tree_okD(1) [OF t(2)], of 5] t(3,4) by auto
  have "bt_canSign u 8" using canSign_iff [OF tree_okD(1) [OF u(2)]] u(3-5) by simp
  then have can: "at_canSign 8 ?a = Inr (True, \<lparr>at_pTree = Some u, at_factory = [], at_retired = [r]\<rparr>)"
    using t(4) u(3,4) r by (simp add: at_canSign_def IsIdLessThan_def Invalid_Id_def del: bind_result_Inr_iff)
  have "trees_ok toy_pub toy_vfy 8 ?a" using t(2) u(2) by (simp add: trees_ok_def tree_for_def)
  from voting_signature_forward_secure [OF this toy_scheme can, of "[1, 2]"] show ?thesis using t(1) u(1) new by auto
qed

text \<open>
  C33. A voting key tree survives a restart. Take a tree that has been created and then used in any way: signed with, wiped and read back in any order. Reading its file succeeds; the tree that is
  read may sign for exactly the identifiers that the tree in memory may sign for, so that a restarted node never signs for an epoch before the last one it signed for; and for every such identifier whose
  key has not been wiped both make the same signature.
\<close>

theorem voting_keys_reload:
  assumes "used_tree pub signer t" and "\<And>p. length (pub p) = 32" and "\<And>p q d. length (signer p q d) = 64"
  shows "\<exists>t2. BmPrivateKeyTree_FromStream pub (bt_storage t) = Inr t2 \<and> bt_storage t2 = bt_storage t
    \<and> (\<forall>k. bt_canSign t2 k = bt_canSign t k)
    \<and> (\<forall>k d. bt_canSign t k \<and> spk_private (key_of t k) \<noteq> zero_key \<longrightarrow>
        (\<exists>sig t' t2'. bt_sign signer k d t = Inr (sig, t') \<and> bt_sign signer k d t2 = Inr (sig, t2')))"
proof -
  have f: "tree_file pub t" by (rule used_tree_file [OF assms])
  obtain t2 where r: "BmPrivateKeyTree_FromStream pub (bt_storage t) = Inr t2" using FromStream_tree [OF f] by blast
  note l = reload_file [OF f r]
  have "\<exists>sig t' t2'. bt_sign signer k d t = Inr (sig, t') \<and> bt_sign signer k d t2 = Inr (sig, t2')"
    if c: "bt_canSign t k" "spk_private (key_of t k) \<noteq> zero_key" for k d
  proof -
    have k: "bt_StartKeyIdentifier t \<le> k" "k \<le> bt_EndKeyIdentifier t" using canSign_iff [OF f] c(1) by auto
    then have "key_of t2 k = key_of t k" using l(4) [OF k] f c(2) by (auto simp: tree_file_def)
    then show ?thesis
      using bt_sign_file [OF f c(1), of signer d] bt_sign_file [OF l(1), of k signer d] l(3,5) c(1) by auto
  qed
  then show ?thesis using r l(2,3) by blast
qed

theorem voting_keys_reload_witness:
  "\<exists>t sig t1 t2 t3. BmPrivateKeyTree_Create toy_pub toy_signer [7] 3 5 (\<lambda>i. replicate 32 (of_nat i + 1)) = Inr t
    \<and> bt_sign toy_signer 4 [1] t = Inr (sig, t1) \<and> bt_wipe 3 t1 = Inr t2
    \<and> BmPrivateKeyTree_FromStream toy_pub (bt_storage t2) = Inr t3 \<and> \<not> bt_canSign t3 3
    \<and> (\<exists>sig' t' t3'. bt_sign toy_signer 5 [2] t2 = Inr (sig', t') \<and> bt_sign toy_signer 5 [2] t3 = Inr (sig', t3'))"
proof -
  define t where "t = projr (BmPrivateKeyTree_Create toy_pub toy_signer [7] 3 5 (\<lambda>i. replicate 32 (of_nat i + 1)))"
  have t: "BmPrivateKeyTree_Create toy_pub toy_signer [7] 3 5 (\<lambda>i. replicate 32 (of_nat i + 1)) = Inr t"
    using Create_ok [OF toy_scheme, of "\<lambda>i. replicate 32 (of_nat i + 1)" 3 5 "[7]"] by (auto simp: t_def Invalid_Id_def)
  define t1 where "t1 = snd (projr (bt_sign toy_signer 4 [1] t))"
  define t2 where "t2 = projr (bt_wipe 3 t1)"
  have "(case bt_sign toy_signer 4 [1] t of Inr _ \<Rightarrow> True | _ \<Rightarrow> False)" "(case bt_wipe 3 t1 of Inr _ \<Rightarrow> True | _ \<Rightarrow> False)"
    unfolding t2_def t1_def t_def by code_simp+
  then obtain sig where s: "bt_sign toy_signer 4 [1] t = Inr (sig, t1)" "bt_wipe 3 t1 = Inr t2"
    by (cases "bt_sign toy_signer 4 [1] t"; cases "bt_wipe 3 t1") (auto simp: t1_def t2_def)
  have c: "bt_canSign t2 5" "\<not> bt_canSign t2 3" "spk_private (key_of t2 5) \<noteq> zero_key" unfolding t2_def t1_def t_def by code_simp+
  have "used_tree toy_pub toy_signer t" by (rule used_create [OF t]) (simp_all add: Invalid_Id_def)
  then have u: "used_tree toy_pub toy_signer t2" using s used_sign used_wipe by blast
  have "length (toy_pub p) = 32" "length (toy_signer p q d) = 64" for p q d using toy_scheme by (simp_all add: scheme_ok_def)
  from voting_keys_reload [OF u this] obtain t3 where "BmPrivateKeyTree_FromStream toy_pub (bt_storage t2) = Inr t3" "\<not> bt_canSign t3 3"
    "\<exists>sig' t' t3'. bt_sign toy_signer 5 [2] t2 = Inr (sig', t') \<and> bt_sign toy_signer 5 [2] t3 = Inr (sig', t3')" using c by blast
  then show ?thesis using t s by blast
qed

end
