(* ===== verification/Finalization_Messages.thy ===== *)
theory Finalization_Messages
  imports Finalization_Round Voting_Keys
begin

text \<open>
  Finalization messages and the aggregation of the messages of a round: rounds and step identifiers
  (\<^verbatim>\<open>catapult/model/FinalizationRound.cpp\<close>, \<^verbatim>\<open>extensions/finalization/src/model/StepIdentifier.cpp\<close>), the heights of the voting sets
  (\<^verbatim>\<open>catapult/model/VotingSet.cpp\<close>), the voters of an epoch (\<^verbatim>\<open>FinalizationContext.cpp\<close>), messages
  (\<^verbatim>\<open>FinalizationMessage.cpp\<close>) and the aggregators (\<^verbatim>\<open>chain/RoundMessageAggregator.cpp\<close>,
  \<^verbatim>\<open>chain/MultiRoundMessageAggregator.cpp\<close>).

  The hash and signature functions are arguments. A message is a record of its fields and the hashes that follow it in memory, of
  which the code reads the first \<^verbatim>\<open>HashesCount\<close>. The unordered map of messages is the list of its entries, and an
  operation that iterates over it takes the iteration order as an argument.
\<close>

section \<open>Rounds\<close>

type_synonym FinalizationPoint = u32

text \<open>A round is the pair of its epoch and point; \<^verbatim>\<open>operator<\<close> is the lexicographic order.\<close>

type_synonym FinalizationRound = "FinalizationEpoch \<times> FinalizationPoint"

definition round_plus :: "FinalizationRound \<Rightarrow> FinalizationPoint \<Rightarrow> FinalizationRound" where
  "round_plus r point = (fst r, snd r + point)"

definition round_minus :: "FinalizationRound \<Rightarrow> FinalizationPoint \<Rightarrow> FinalizationRound" where
  "round_minus r point = (fst r, snd r - point)"

definition IsInRange :: "FinalizationRound \<Rightarrow> FinalizationRound \<Rightarrow> FinalizationRound \<Rightarrow> bool" where
  "IsInRange min_round max_round r \<longleftrightarrow> min_round \<le> r \<and> r \<le> max_round"

text \<open>The stage of a message group is a number from the network; only its lowest bit enters a step identifier.\<close>

type_synonym FinalizationStage = u32

definition Stage_Prevote :: FinalizationStage where
  "Stage_Prevote = 0"

definition Stage_Precommit :: FinalizationStage where
  "Stage_Precommit = 1"

record StepIdentifier =
  step_Epoch :: FinalizationEpoch
  step_PointStage :: u32

definition StepIdentifier_new :: "FinalizationEpoch \<Rightarrow> FinalizationPoint \<Rightarrow> FinalizationStage \<Rightarrow> StepIdentifier" where
  "StepIdentifier_new epoch point stage = \<lparr>step_Epoch = epoch, step_PointStage = or (push_bit 1 point) (and stage 1)\<rparr>"

definition step_Round :: "StepIdentifier \<Rightarrow> FinalizationRound" where
  "step_Round s = (step_Epoch s, drop_bit 1 (step_PointStage s))"

definition step_Stage :: "StepIdentifier \<Rightarrow> FinalizationStage" where
  "step_Stage s = and (step_PointStage s) 1"

definition StepIdentifierToBmKeyIdentifier :: "StepIdentifier \<Rightarrow> BmKeyIdentifier" where
  "StepIdentifierToBmKeyIdentifier s = ucast (step_Epoch s)"

section \<open>Voting sets\<close>

definition CheckParameters_epoch :: "FinalizationEpoch \<Rightarrow> u64 \<Rightarrow> unit result" where
  "CheckParameters_epoch epoch grouping =
    (if 0 = grouping then Inl invalid_argument else if 0 = epoch then Inl invalid_argument else Inr ())"

definition CheckParameters_height :: "Height \<Rightarrow> u64 \<Rightarrow> unit result" where
  "CheckParameters_height height grouping =
    (if 0 = grouping then Inl invalid_argument else if 0 = height then Inl invalid_argument else Inr ())"

definition CalculateVotingSetStartHeight :: "FinalizationEpoch \<Rightarrow> u64 \<Rightarrow> Height result" where
  "CalculateVotingSetStartHeight epoch grouping =
    bind_result (CheckParameters_epoch epoch grouping) (\<lambda>_.
      Inr (if epoch \<le> 2 then ucast epoch else ucast (epoch - 2) * grouping + 1))"

definition CalculateVotingSetEndHeight :: "FinalizationEpoch \<Rightarrow> u64 \<Rightarrow> Height result" where
  "CalculateVotingSetEndHeight epoch grouping =
    bind_result (CheckParameters_epoch epoch grouping) (\<lambda>_.
      Inr (if 1 = epoch then 1 else ucast (epoch - 1) * grouping))"

definition CalculateFinalizationEpochForHeight :: "Height \<Rightarrow> u64 \<Rightarrow> FinalizationEpoch result" where
  "CalculateFinalizationEpochForHeight height grouping =
    bind_result (CheckParameters_height height grouping) (\<lambda>_.
      if height \<le> 1 then Inr 1
      else let adjustment = (if 0 = height mod grouping then 0 else 1) in Inr (1 + adjustment + ucast (height div grouping)))"

section \<open>The voters of an epoch\<close>

record FinalizationConfiguration =
  cfg_EnableVoting :: bool
  cfg_EnableRevoteOnBoot :: bool
  cfg_Size :: u64
  cfg_Threshold :: u64
  cfg_StepDuration :: u64
  cfg_ShortLivedCacheMessageDuration :: u64
  cfg_MessageSynchronizationMaxResponseSize :: u64
  cfg_MaxHashesPerPoint :: u32
  cfg_PrevoteBlocksMultiple :: u16
  cfg_UnfinalizedBlocksDuration :: u64
  cfg_TreasuryReissuanceEpoch :: FinalizationEpoch
  cfg_IneligibleVoterAddresses :: "Address set"
  cfg_VotingSetGrouping :: u64

record FinalizationContext =
  fc_epoch :: FinalizationEpoch
  fc_height :: Height
  fc_generationHash :: Hash256
  fc_config :: FinalizationConfiguration
  fc_weight :: Amount
  fc_accounts :: "VotingKey \<rightharpoonup> Amount"

definition add_voter :: "Address \<times> AccountHistory \<Rightarrow> FinalizationContext \<Rightarrow> FinalizationContext" where
  "add_voter pair c =
    (let balance = history_get 0 (ah_balance (snd pair)) (fc_height c)
     in if 0 = balance then c
        else let effectiveVotingPublicKey = FindVotingPublicKeyForEpoch (history_get [] (ah_votingPublicKeys (snd pair)) (fc_height c)) (fc_epoch c)
          in if zero_key = effectiveVotingPublicKey then c
             else if cfg_TreasuryReissuanceEpoch (fc_config c) \<le> fc_epoch c \<and> fst pair \<in> cfg_IneligibleVoterAddresses (fc_config c) then c
             else c\<lparr>fc_accounts := (if fc_accounts c effectiveVotingPublicKey = None
                    then (fc_accounts c)(effectiveVotingPublicKey \<mapsto> balance) else fc_accounts c),
                  fc_weight := fc_weight c + balance\<rparr>)"

definition FinalizationContext_new where
  "FinalizationContext_new epoch height generationHash config accountHistories =
    fold add_voter accountHistories \<lparr>fc_epoch = epoch, fc_height = height, fc_generationHash = generationHash, fc_config = config,
      fc_weight = 0, fc_accounts = (\<lambda>_. None)\<rparr>"

definition fc_lookup :: "FinalizationContext \<Rightarrow> VotingKey \<Rightarrow> Amount" where
  "fc_lookup c votingPublicKey = (case fc_accounts c votingPublicKey of None \<Rightarrow> 0 | Some w \<Rightarrow> w)"

definition fc_isEligibleVoter :: "FinalizationContext \<Rightarrow> VotingKey \<Rightarrow> bool" where
  "fc_isEligibleVoter c votingPublicKey \<longleftrightarrow> 0 \<noteq> fc_lookup c votingPublicKey"

section \<open>Messages\<close>

record FinalizationMessage =
  fm_Size :: u32
  fm_Reserved1 :: u32
  fm_Signature :: BmTreeSignature
  fm_Version :: u32
  fm_HashesCount :: u32
  fm_StepIdentifier :: StepIdentifier
  fm_Height :: Height
  fm_Hashes :: "Hash256 list"

text \<open>\<^verbatim>\<open>HashesPtr()\<close> with its count.\<close>

definition message_hashes :: "FinalizationMessage \<Rightarrow> Hash256 list" where
  "message_hashes m = take (unat (fm_HashesCount m)) (fm_Hashes m)"

text \<open>The bytes of a message after its header, and all of its bytes.\<close>

definition message_ToBuffer :: "FinalizationMessage \<Rightarrow> bytes" where
  "message_ToBuffer m = le_bytes 4 (fm_Version m) @ le_bytes 4 (fm_HashesCount m) @ le_bytes 4 (step_Epoch (fm_StepIdentifier m))
    @ le_bytes 4 (step_PointStage (fm_StepIdentifier m)) @ le_bytes 8 (fm_Height m) @ concat (fm_Hashes m)"

definition message_bytes :: "FinalizationMessage \<Rightarrow> bytes" where
  "message_bytes m = le_bytes 4 (fm_Size m) @ le_bytes 4 (fm_Reserved1 m)
    @ Root_ParentPublicKey (fm_Signature m) @ Root_Signature (fm_Signature m)
    @ Bottom_ParentPublicKey (fm_Signature m) @ Bottom_Signature (fm_Signature m) @ message_ToBuffer m"

definition CalculateMessageHash :: "(bytes \<Rightarrow> Hash256) \<Rightarrow> FinalizationMessage \<Rightarrow> Hash256" where
  "CalculateMessageHash sha3 m = sha3 (message_bytes m)"

definition Current_Version :: u32 where
  "Current_Version = 1"

definition SizeOf_FinalizationMessage :: u32 where
  "SizeOf_FinalizationMessage = 4 + 4 + 192 + 4 + 4 + 8 + 8"

definition PrepareMessage where
  "PrepareMessage signer stepIdentifier height hashes a =
    (let keyIdentifier = StepIdentifierToBmKeyIdentifier stepIdentifier
     in bind_result (at_canSign keyIdentifier a) (\<lambda>(canSign, a').
          if \<not> canSign then Inr (None, a')
          else let numHashes = of_nat (length hashes);
                   unsigned_message = \<lparr>fm_Size = SizeOf_FinalizationMessage + numHashes * 32, fm_Reserved1 = 0,
                     fm_Signature = \<lparr>Root_ParentPublicKey = [], Root_Signature = [], Bottom_ParentPublicKey = [], Bottom_Signature = []\<rparr>,
                     fm_Version = Current_Version, fm_HashesCount = numHashes, fm_StepIdentifier = stepIdentifier, fm_Height = height,
                     fm_Hashes = hashes\<rparr>
            in bind_result (at_sign signer keyIdentifier (message_ToBuffer unsigned_message) a') (\<lambda>(signature, a'').
                 Inr (Some (unsigned_message\<lparr>fm_Signature := signature\<rparr>), a''))))"

datatype ProcessMessageResult = Process_Failure_Signature | Process_Failure_Padding | Process_Failure_Version | Process_Failure_Voter | Process_Success

definition ProcessMessage where
  "ProcessMessage vfy message context =
    (let weight = fc_lookup context (Root_ParentPublicKey (fm_Signature message))
     in if 0 = weight then (Process_Failure_Voter, 0)
        else if 0 \<noteq> fm_Reserved1 message then (Process_Failure_Padding, 0)
        else if Current_Version \<noteq> fm_Version message then (Process_Failure_Version, 0)
        else if \<not> bm_Verify vfy (fm_Signature message) (StepIdentifierToBmKeyIdentifier (fm_StepIdentifier message)) (message_ToBuffer message)
          then (Process_Failure_Signature, 0)
        else (Process_Success, weight :: u64))"

section \<open>The messages of a round\<close>

datatype RoundMessageAggregatorAddResult =
    Failure_Invalid_Hashes | Failure_Invalid_Point | Failure_Invalid_Height | Failure_Processing | Failure_Conflicting
  | Neutral_Redundant | Success_Prevote | Success_Precommit

definition ToShortHash :: "Hash256 \<Rightarrow> u32" where
  "ToShortHash h = le_word (take 4 h)"

record MessageDescriptor =
  md_pMessage :: FinalizationMessage
  md_Hash :: Hash256
  md_ShortHash :: u32

definition CreateMessageDescriptor :: "(bytes \<Rightarrow> Hash256) \<Rightarrow> FinalizationMessage \<Rightarrow> MessageDescriptor" where
  "CreateMessageDescriptor sha3 m = \<lparr>md_pMessage = m, md_Hash = CalculateMessageHash sha3 m, md_ShortHash = ToShortHash (CalculateMessageHash sha3 m)\<rparr>"

type_synonym MessageKey = "VotingKey \<times> bool"

definition CalculateWeightedThreshold :: "FinalizationContext \<Rightarrow> u64" where
  "CalculateWeightedThreshold c = fc_weight c * cfg_Threshold (fc_config c) div cfg_Size (fc_config c)"

definition IsPrevote :: "FinalizationMessage \<Rightarrow> bool" where
  "IsPrevote m \<longleftrightarrow> Stage_Prevote = step_Stage (fm_StepIdentifier m)"

record RoundMessageAggregator =
  ra_finalizationContext :: FinalizationContext
  ra_maxResponseSize :: u64
  ra_roundContext :: RoundContext
  ra_messages :: "(MessageKey \<times> MessageDescriptor) list"

definition RoundMessageAggregator_new :: "FinalizationContext \<Rightarrow> RoundMessageAggregator" where
  "RoundMessageAggregator_new c = \<lparr>ra_finalizationContext = c,
     ra_maxResponseSize = cfg_MessageSynchronizationMaxResponseSize (fc_config c),
     ra_roundContext = RoundContext_new (fc_weight c) (CalculateWeightedThreshold c), ra_messages = []\<rparr>"

definition ra_shortHashes :: "((MessageKey \<times> MessageDescriptor) list \<Rightarrow> (MessageKey \<times> MessageDescriptor) list) \<Rightarrow> RoundMessageAggregator \<Rightarrow> u32 list" where
  "ra_shortHashes order ra = map (\<lambda>(_, d). md_ShortHash d) (order (ra_messages ra))"

fun collect_unknown :: "u32 set \<Rightarrow> u64 \<Rightarrow> u64 \<Rightarrow> MessageDescriptor list \<Rightarrow> FinalizationMessage list" where
  "collect_unknown known maxSize totalSize [] = []"
| "collect_unknown known maxSize totalSize (d # ds) =
    (if md_ShortHash d \<in> known then collect_unknown known maxSize totalSize ds
     else let totalSize' = totalSize + ucast (fm_Size (md_pMessage d))
          in if totalSize' > maxSize then [] else md_pMessage d # collect_unknown known maxSize totalSize' ds)"

definition ra_unknownMessages where
  "ra_unknownMessages order known ra = collect_unknown known (ra_maxResponseSize ra) 0 (map snd (order (ra_messages ra)))"

text \<open>
  \<^verbatim>\<open>add\<close>: the guards in the order of the code, the rejected message of a voter that has already voted, and the vote that goes into
  the round. The voting set heights of a prevote may throw, and a round context may only be used with an existing candidate.
\<close>

definition check_message :: "RoundMessageAggregator \<Rightarrow> FinalizationMessage \<Rightarrow> RoundMessageAggregatorAddResult option result" where
  "check_message ra m =
    (let c = ra_finalizationContext ra; lastHashHeight = fm_Height m + (ucast (fm_HashesCount m) - 1)
     in if 0 = fm_HashesCount m \<or> fm_HashesCount m > cfg_MaxHashesPerPoint (fc_config c) then Inr (Some Failure_Invalid_Hashes)
        else if fc_height c > lastHashHeight then Inr (Some Failure_Invalid_Height)
        else if IsPrevote m then
          bind_result (CalculateVotingSetEndHeight (step_Epoch (fm_StepIdentifier m) - 1) (cfg_VotingSetGrouping (fc_config c))) (\<lambda>epochMinHeight.
          bind_result (CalculateVotingSetEndHeight (step_Epoch (fm_StepIdentifier m)) (cfg_VotingSetGrouping (fc_config c))) (\<lambda>epochMaxHeight.
            Inr (if fm_Height m < epochMinHeight \<or> lastHashHeight > epochMaxHeight then Some Failure_Invalid_Hashes else None)))
        else Inr (if 1 \<noteq> fm_HashesCount m then Some Failure_Invalid_Hashes else None))"

definition message_vote :: "FinalizationMessage \<Rightarrow> u64 \<Rightarrow> vote" where
  "message_vote m weight = (if IsPrevote m then PrevoteFor (fm_Height m) (message_hashes m) weight
     else PrecommitFor (fm_Height m) (hd (message_hashes m)) weight)"

definition message_key :: "FinalizationMessage \<Rightarrow> MessageKey" where
  "message_key m = (Root_ParentPublicKey (fm_Signature m), IsPrevote m)"

definition ra_add where
  "ra_add sha3 vfy m ra =
    bind_result (check_message ra m) (\<lambda>failure.
      case failure of Some f \<Rightarrow> Inr (f, ra)
      | None \<Rightarrow>
        (case map_of (ra_messages ra) (message_key m) of
          Some d \<Rightarrow> Inr (if md_Hash d = CalculateMessageHash sha3 m then Neutral_Redundant else Failure_Conflicting, ra)
        | None \<Rightarrow>
            (case ProcessMessage vfy m (ra_finalizationContext ra) of (result, weight) \<Rightarrow>
              if result \<noteq> Process_Success then Inr (Failure_Processing, ra)
              else bind_result (accept_vote (message_vote m weight) (ra_roundContext ra)) (\<lambda>roundContext.
                Inr (if IsPrevote m then Success_Prevote else Success_Precommit,
                  ra\<lparr>ra_messages := (message_key m, CreateMessageDescriptor sha3 m) # ra_messages ra, ra_roundContext := roundContext\<rparr>)))))"

section \<open>What an aggregator has accepted\<close>

definition ra_addAll where
  "ra_addAll sha3 vfy ms ra = foldM (\<lambda>m ra. bind_result (ra_add sha3 vfy m ra) (\<lambda>(_, ra'). Inr ra')) ms ra"

text \<open>The messages in the order of their arrival, and the votes they stand for.\<close>

definition ra_accepted :: "RoundMessageAggregator \<Rightarrow> FinalizationMessage list" where
  "ra_accepted ra = map (\<lambda>(_, d). md_pMessage d) (rev (ra_messages ra))"

definition vote_of :: "FinalizationContext \<Rightarrow> FinalizationMessage \<Rightarrow> vote" where
  "vote_of c m = message_vote m (fc_lookup c (Root_ParentPublicKey (fm_Signature m)))"

definition ra_inv where
  "ra_inv sha3 vfy c ra \<longleftrightarrow> ra_finalizationContext ra = c \<and> distinct (map message_key (ra_accepted ra))
    \<and> ra_messages ra = map (\<lambda>m. (message_key m, CreateMessageDescriptor sha3 m)) (rev (ra_accepted ra))
    \<and> (\<forall>m \<in> set (ra_accepted ra). check_message (RoundMessageAggregator_new c) m = Inr None
        \<and> ProcessMessage vfy m c = (Process_Success, fc_lookup c (Root_ParentPublicKey (fm_Signature m))))
    \<and> foldM accept_vote (map (vote_of c) (ra_accepted ra)) (RoundContext_new (fc_weight c) (CalculateWeightedThreshold c)) = Inr (ra_roundContext ra)"

lemma ra_inv_new: "ra_inv sha3 vfy c (RoundMessageAggregator_new c)"
  by (simp add: ra_inv_def ra_accepted_def RoundMessageAggregator_new_def)

lemma ProcessMessage_success:
  "ProcessMessage vfy m c = (Process_Success, w) \<Longrightarrow> w = fc_lookup c (Root_ParentPublicKey (fm_Signature m)) \<and> w \<noteq> 0"
  by (auto simp: ProcessMessage_def Let_def split: if_splits)

lemma check_message_context:
  "ra_finalizationContext ra = ra_finalizationContext ra' \<Longrightarrow> check_message ra m = check_message ra' m"
  by (simp add: check_message_def)

text \<open>\<^verbatim>\<open>add\<close> leaves the aggregator as it is, or takes a new message of a voter that has not voted in the stage.\<close>

lemma ra_add_cases:
  assumes "ra_inv sha3 vfy c ra" and "ra_add sha3 vfy m ra = Inr (result, ra')"
  shows "ra' = ra \<and> result \<notin> {Success_Prevote, Success_Precommit}
    \<or> result = (if IsPrevote m then Success_Prevote else Success_Precommit) \<and> ra_inv sha3 vfy c ra' \<and> ra_accepted ra' = ra_accepted ra @ [m]"
proof -
  have c: "ra_finalizationContext ra = c" using assms(1) by (simp add: ra_inv_def)
  obtain failure where f: "check_message ra m = Inr failure" using assms(2) by (auto simp: ra_add_def)
  show ?thesis
  proof (cases "failure = None \<and> map_of (ra_messages ra) (message_key m) = None \<and> fst (ProcessMessage vfy m c) = Process_Success")
    case False
    have "f \<notin> {Success_Prevote, Success_Precommit}" if "failure = Some f" for f
      using f that by (auto simp: check_message_def Let_def split: if_splits)
    then show ?thesis using False assms(2) f c
      by (auto simp: ra_add_def split: option.splits prod.splits if_splits)
  next
    case True
    define w where "w = fc_lookup c (Root_ParentPublicKey (fm_Signature m))"
    have p: "ProcessMessage vfy m c = (Process_Success, w)"
      using True ProcessMessage_success [of vfy m c "snd (ProcessMessage vfy m c)"] by (cases "ProcessMessage vfy m c") (auto simp: w_def)
    obtain rc where rc: "accept_vote (message_vote m w) (ra_roundContext ra) = Inr rc" "result = (if IsPrevote m then Success_Prevote else Success_Precommit)"
      "ra' = ra\<lparr>ra_messages := (message_key m, CreateMessageDescriptor sha3 m) # ra_messages ra, ra_roundContext := rc\<rparr>"
      using assms(2) True f p c by (auto simp: ra_add_def split: if_splits)
    have acc: "ra_accepted ra' = ra_accepted ra @ [m]" by (simp add: ra_accepted_def rc(3) CreateMessageDescriptor_def)
    have chk: "check_message (RoundMessageAggregator_new c) m = Inr None"
      using f True check_message_context [of "RoundMessageAggregator_new c" ra m] c by (simp add: RoundMessageAggregator_new_def)
    have "message_key m \<notin> message_key ` set (ra_accepted ra)"
    proof -
      have "fst ` set (ra_messages ra) = message_key ` set (ra_accepted ra)"
        using assms(1) by (simp add: ra_inv_def image_image)
      then show ?thesis using True by (auto simp: map_of_eq_None_iff)
    qed
    then have "ra_inv sha3 vfy c ra'" using assms(1) acc rc chk p
      by (auto simp: ra_inv_def vote_of_def w_def simp del: bind_result_Inr_iff)
    then show ?thesis using rc(2) acc by simp
  qed
qed

lemma ra_addAll_inv: "ra_addAll sha3 vfy ms (RoundMessageAggregator_new c) = Inr ra \<Longrightarrow> ra_inv sha3 vfy c ra"
  unfolding ra_addAll_def
proof (rule foldM_invariant [where P = "ra_inv sha3 vfy c"])
  show "ra_inv sha3 vfy c ra'" if "ra_inv sha3 vfy c r" "bind_result (ra_add sha3 vfy m r) (\<lambda>(_, ra'). Inr ra') = Inr ra'" for m r ra'
    using that ra_add_cases [of sha3 vfy c r m] by fastforce
qed (auto simp: ra_inv_new)

section \<open>Prevote weights\<close>

text \<open>
  The weight of the prevotes for a block is the sum of the weights of the prevotes whose branch has the block. This needs no assumption
  on how the branches fit together.
\<close>

lemma foldM_addPrecommit_prevote:
  "foldM (addPrecommit p) ks m = Inr m' \<Longrightarrow> map_option Prevote (map_of m' k) = map_option Prevote (map_of m k)"
proof (induction ks arbitrary: m)
  case (Cons a ks)
  then obtain m1 where m1: "addPrecommit p a m = Inr m1" "foldM (addPrecommit p) ks m1 = Inr m'" by auto
  then have "map_option Prevote (map_of m1 k) = map_option Prevote (map_of m k)"
    by (auto simp: addPrecommit_def map_of_omap_put split: option.splits)
  then show ?case using Cons.IH [OF m1(2)] by simp
qed simp

definition prevote_of :: "RoundContext \<Rightarrow> HeightHashPair \<Rightarrow> u64" where
  "prevote_of rc k = Prevote (round_weights rc k)"

lemma prevote_of_alt: "prevote_of rc k = (case map_option Prevote (map_of (rc_candidates rc) k) of None \<Rightarrow> 0 | Some w \<Rightarrow> w)"
  by (simp add: prevote_of_def round_weights_def Weights_new_def split: option.splits)

lemma acceptPrevote_step_prevote:
  assumes "acceptPrevote_step w key rc = Inr rc'"
  shows "prevote_of rc' k = prevote_of rc k + (if k = key then w else 0)"
proof -
  define v where "v = (case map_of (rc_candidates rc) key of None \<Rightarrow> Weights_new | Some w \<Rightarrow> w)"
  define m where "m = omap_put key (v\<lparr>Prevote := Prevote v + w\<rparr>) (rc_candidates rc)"
  have "map_option Prevote (map_of (rc_candidates rc') k) = map_option Prevote (map_of m k)"
  proof (cases "rc_pendingPrecommitWeights rc key")
    case None
    then show ?thesis using assms by (auto simp: acceptPrevote_step_def Let_def v_def m_def)
  next
    case (Some p)
    then obtain m' where "foldM (addPrecommit p) (findAncestors (rc_tree rc) key) m = Inr m'" "rc_candidates rc' = m'"
      using assms by (auto simp: acceptPrevote_step_def Let_def v_def m_def)
    then show ?thesis using foldM_addPrecommit_prevote by blast
  qed
  then show ?thesis unfolding prevote_of_alt by (auto simp: m_def map_of_omap_put v_def Weights_new_def split: option.splits)
qed

lemma acceptPrevote_prevote:
  assumes "acceptPrevote height hashes w rc = Inr rc'" and "distinct (branch_keys height hashes)"
  shows "prevote_of rc' k = prevote_of rc k + (if k \<in> set (branch_keys height hashes) then w else 0)"
proof -
  have loop: "foldM (acceptPrevote_step w) ks r = Inr r' \<Longrightarrow> distinct ks \<Longrightarrow> prevote_of r' k = prevote_of r k + (if k \<in> set ks then w else 0)" for ks r r'
  proof (induction ks arbitrary: r)
    case (Cons a ks)
    then obtain r1 where r1: "acceptPrevote_step w a r = Inr r1" "foldM (acceptPrevote_step w) ks r1 = Inr r'" by auto
    then show ?case using Cons acceptPrevote_step_prevote [OF r1(1), of k] by auto
  qed simp
  show ?thesis using loop [OF assms(1) [unfolded acceptPrevote_def] assms(2)] by (simp add: prevote_of_def round_weights_def)
qed

lemma acceptPrecommit_prevote: "acceptPrecommit height hash w rc = Inr rc' \<Longrightarrow> prevote_of rc' k = prevote_of rc k"
proof (cases "findAncestors (rc_tree rc) (height, hash) = []")
  case False
  assume "acceptPrecommit height hash w rc = Inr rc'"
  then obtain m' where "foldM (addPrecommit w) (findAncestors (rc_tree rc) (height, hash)) (rc_candidates rc) = Inr m'" "rc_candidates rc' = m'"
    using False by (auto simp: acceptPrecommit_def Let_def)
  then show ?thesis using foldM_addPrecommit_prevote [of w _ "rc_candidates rc" m' k] by (simp add: prevote_of_alt)
qed (auto simp: acceptPrecommit_def Let_def prevote_of_alt)

fun vote_distinct :: "vote \<Rightarrow> bool" where
  "vote_distinct (PrevoteFor height hashes w) = distinct (branch_keys height hashes)"
| "vote_distinct (PrecommitFor height hash w) = True"

lemma accept_votes_prevote:
  "foldM accept_vote vs (RoundContext_new W T) = Inr rc \<Longrightarrow> list_all vote_distinct vs \<Longrightarrow> prevote_of rc k = votes_prevote vs k"
proof (induction vs arbitrary: rc rule: rev_induct)
  case Nil
  then show ?case by (auto simp: prevote_of_def round_weights_def RoundContext_new_def Weights_new_def votes_prevote_def)
next
  case (snoc v vs)
  then obtain r where r: "foldM accept_vote vs (RoundContext_new W T) = Inr r" "accept_vote v r = Inr rc" by auto
  then have "prevote_of r k = votes_prevote vs k" using snoc by simp
  then show ?case using r(2) snoc.prems(2) acceptPrevote_prevote acceptPrecommit_prevote
    by (cases v) (auto simp: votes_prevote_def)
qed

lemma branch_keys_distinct: "length hashes \<le> 2 ^ 32 \<Longrightarrow> distinct (branch_keys height hashes)"
proof -
  assume len: "length hashes \<le> 2 ^ 32"
  have "inj_on (\<lambda>i. (height + of_nat i, hashes ! i)) {0..<length hashes}"
  proof (rule inj_onI)
    fix i j assume "i \<in> {0..<length hashes}" "j \<in> {0..<length hashes}" "(height + of_nat i, hashes ! i) = (height + of_nat j, hashes ! j)"
    then have "i < 2 ^ 64" "j < 2 ^ 64" "(of_nat i :: u64) = of_nat j" using len by simp_all
    then have "unat (of_nat i :: u64) = unat (of_nat j :: u64)" by simp
    then show "i = j" using \<open>i < 2 ^ 64\<close> \<open>j < 2 ^ 64\<close> by (simp add: unat_of_nat take_bit_nat_eq_self_iff)
  qed
  then show ?thesis by (simp add: branch_keys_def distinct_map)
qed

end
