(* ===== verification/Finalization_Safety.thy ===== *)
theory Finalization_Safety
  imports Finalization_Messages
begin

text \<open>
  Two nodes that collect the messages of the same round agree: what one finds to be the best block and what the other finds lie in the
  branch that one honest voter voted for, as long as the honest voters vote once and the others have too little weight.
\<close>

section \<open>The round context of an aggregator\<close>

lemma accept_vote_ok_keys:
  assumes "omap_ok (rc_candidates rc)" and "accept_vote v rc = Inr rc'"
  shows "omap_ok (rc_candidates rc') \<and> rc_threshold rc' = rc_threshold rc \<and> rc_totalWeight rc' = rc_totalWeight rc"
proof -
  have add: "omap_ok m'" if "foldM (addPrecommit p) ks m = Inr m'" "omap_ok m" for p ks m m'
    using that by (rule foldM_invariant) (auto simp: addPrecommit_def inv_intros split: option.splits)
  have step: "omap_ok (rc_candidates r') \<and> rc_threshold r' = rc_threshold r \<and> rc_totalWeight r' = rc_totalWeight r"
    if "acceptPrevote_step w k r = Inr r'" "omap_ok (rc_candidates r)" for w k r r'
    using that by (auto simp: acceptPrevote_step_def Let_def inv_intros split: option.splits dest!: add)
  show ?thesis
  proof (cases v)
    case (PrevoteFor h hs w)
    have "omap_ok (rc_candidates rc') \<and> rc_threshold rc' = rc_threshold (rc\<lparr>rc_tree := addBranch h hs (rc_tree rc)\<rparr>)
        \<and> rc_totalWeight rc' = rc_totalWeight (rc\<lparr>rc_tree := addBranch h hs (rc_tree rc)\<rparr>)"
      using assms(2) [unfolded PrevoteFor accept_vote.simps acceptPrevote_def]
      by (rule foldM_invariant) (use assms(1) step in auto)
    then show ?thesis by simp
  next
    case (PrecommitFor h hash w)
    then show ?thesis using assms by (auto simp: acceptPrecommit_def Let_def split: if_splits dest!: add)
  qed
qed

lemma accept_votes_keys:
  assumes "foldM accept_vote vs (RoundContext_new W T) = Inr rc"
  shows "omap_ok (rc_candidates rc) \<and> rc_threshold rc = T \<and> rc_totalWeight rc = W"
  using assms by (rule foldM_invariant) (use accept_vote_ok_keys in \<open>auto simp: RoundContext_new_def\<close>)

lemma find_key_weight:
  assumes "tryFindLastMatch P rc = Some k" and "omap_ok (rc_candidates rc)"
  shows "P k (round_weights rc k)"
proof -
  obtain w where "find (\<lambda>(key, weights). P key weights) (rev (rc_candidates rc)) = Some (k, w)"
    using assms(1) by (auto simp: tryFindLastMatch_def)
  then have "(k, w) \<in> set (rc_candidates rc)" "P k w" using find_Some_mem by fastforce+
  moreover have "map_of (rc_candidates rc) k = Some w"
    using calculation(1) map_of_is_SomeI [OF omap_ok_distinct [OF assms(2)]] by simp
  ultimately show ?thesis by (simp add: round_weights_def)
qed

section \<open>Weights of voters\<close>

definition prevotes_for :: "RoundMessageAggregator \<Rightarrow> HeightHashPair \<Rightarrow> FinalizationMessage list" where
  "prevotes_for ra k = filter (\<lambda>m. IsPrevote m \<and> k \<in> set (branch_keys (fm_Height m) (message_hashes m))) (ra_accepted ra)"

abbreviation voter :: "FinalizationMessage \<Rightarrow> VotingKey" where
  "voter m \<equiv> Root_ParentPublicKey (fm_Signature m)"

definition weight_of :: "FinalizationContext \<Rightarrow> VotingKey set \<Rightarrow> nat" where
  "weight_of c V = (\<Sum>v \<in> V. unat (fc_lookup c v))"

lemma unat_sum_list_le: "unat (sum_list ws) \<le> sum_list (map unat (ws :: u64 list))"
proof (induction ws)
  case (Cons w ws)
  have "unat (w + sum_list ws) \<le> unat w + unat (sum_list ws)" by (simp add: unat_word_ariths)
  then show ?case using Cons by simp
qed simp

lemma message_hashes_length: "length (message_hashes m) \<le> 2 ^ 32"
proof -
  have "unat (fm_HashesCount m) < 2 ^ 32" using unsigned_less [where ?'a = nat, of "fm_HashesCount m"] by simp
  then show ?thesis by (simp add: message_hashes_def)
qed

lemma prevote_weight_le:
  assumes inv: "ra_inv sha3 vfy c ra"
  shows "unat (prevote_of (ra_roundContext ra) k) \<le> weight_of c (voter ` set (prevotes_for ra k))"
proof -
  let ?ms = "ra_accepted ra"
  have "list_all vote_distinct (map (vote_of c) ?ms)"
    using branch_keys_distinct [OF message_hashes_length] by (auto simp: list_all_iff vote_of_def message_vote_def)
  moreover have "foldM accept_vote (map (vote_of c) ?ms) (RoundContext_new (fc_weight c) (CalculateWeightedThreshold c)) = Inr (ra_roundContext ra)"
    using inv by (simp add: ra_inv_def)
  ultimately have "prevote_of (ra_roundContext ra) k = votes_prevote (map (vote_of c) ?ms) k"
    using accept_votes_prevote by blast
  also have "\<dots> = sum_list (map (\<lambda>m. fc_lookup c (voter m)) (prevotes_for ra k))"
  proof -
    have "votes_prevote (map (vote_of c) ms) k
        = sum_list (map (\<lambda>m. fc_lookup c (voter m)) (filter (\<lambda>m. IsPrevote m \<and> k \<in> set (branch_keys (fm_Height m) (message_hashes m))) ms))" for ms
      by (induction ms) (auto simp: votes_prevote_def vote_of_def message_vote_def)
    then show ?thesis by (simp add: prevotes_for_def)
  qed
  finally have "unat (prevote_of (ra_roundContext ra) k) \<le> (\<Sum>m \<leftarrow> prevotes_for ra k. unat (fc_lookup c (voter m)))"
    using unat_sum_list_le [of "map (\<lambda>m. fc_lookup c (voter m)) (prevotes_for ra k)"] by (simp add: comp_def)
  moreover have "distinct (map voter (prevotes_for ra k))"
  proof -
    have "distinct (map message_key (prevotes_for ra k))" using inv by (simp add: ra_inv_def prevotes_for_def distinct_map_filter)
    moreover have "map message_key (prevotes_for ra k) = map (\<lambda>v. (v, True)) (map voter (prevotes_for ra k))"
      by (auto simp: prevotes_for_def message_key_def)
    ultimately show ?thesis by (metis distinct_map)
  qed
  then have "(\<Sum>m \<leftarrow> prevotes_for ra k. unat (fc_lookup c (voter m))) = weight_of c (voter ` set (prevotes_for ra k))"
    by (simp add: weight_of_def sum_list_distinct_conv_sum_set [of "map voter (prevotes_for ra k)" "\<lambda>v. unat (fc_lookup c v)", simplified comp_def map_map]
        comp_def flip: set_map)
  ultimately show ?thesis by simp
qed

lemma voters_eligible:
  assumes "ra_inv sha3 vfy c ra"
  shows "voter ` set (prevotes_for ra k) \<subseteq> dom (fc_accounts c)"
proof -
  have "fc_accounts c (voter m) \<noteq> None" if "m \<in> set (ra_accepted ra)" for m
  proof -
    have "ProcessMessage vfy m c = (Process_Success, fc_lookup c (voter m))" using assms that by (simp add: ra_inv_def)
    then have "fc_lookup c (voter m) \<noteq> 0" using ProcessMessage_success by blast
    then show ?thesis by (auto simp: fc_lookup_def split: option.splits)
  qed
  then show ?thesis by (auto simp: prevotes_for_def)
qed

text \<open>Two sets of voters that both reach a threshold share an honest one.\<close>

lemma quorum_intersection:
  assumes "finite V" and "A \<subseteq> V" and "B \<subseteq> V" and "t \<le> weight_of c A" and "t \<le> weight_of c B"
    and "weight_of c V + weight_of c (V - H) < 2 * t"
  shows "\<exists>v \<in> A \<inter> B. v \<in> H"
proof (rule ccontr)
  assume "\<not> ?thesis"
  then have sub: "A \<inter> B \<subseteq> V - H" using assms(2) by auto
  have fin: "finite A" "finite B" using assms(1-3) finite_subset by blast+
  have "weight_of c A + weight_of c B = weight_of c (A \<union> B) + weight_of c (A \<inter> B)"
    using sum.union_inter [OF fin, of "\<lambda>v. unat (fc_lookup c v)"] by (simp add: weight_of_def)
  moreover have "weight_of c (A \<union> B) \<le> weight_of c V" "weight_of c (A \<inter> B) \<le> weight_of c (V - H)"
    unfolding weight_of_def using assms(1-3) sub by (auto intro!: sum_mono2)
  ultimately show False using assms(4-6) by linarith
qed

lemma best_prevote_quorum:
  assumes inv: "ra_inv sha3 vfy c ra" and best: "tryFindBestPrevote (ra_roundContext ra) = Some k"
  shows "unat (CalculateWeightedThreshold c) \<le> weight_of c (voter ` set (prevotes_for ra k))"
proof -
  have ok: "omap_ok (rc_candidates (ra_roundContext ra))" "rc_threshold (ra_roundContext ra) = CalculateWeightedThreshold c"
    using accept_votes_keys inv by (auto simp: ra_inv_def)
  have "Prevote (round_weights (ra_roundContext ra) k) \<ge> CalculateWeightedThreshold c"
    using find_key_weight [OF best [unfolded tryFindBestPrevote_def] ok(1)] ok(2) by simp
  then show ?thesis using prevote_weight_le [OF inv, of k] by (simp add: prevote_of_def word_le_nat_alt)
qed

lemma best_precommit_prevote:
  assumes inv: "ra_inv sha3 vfy c ra" and best: "tryFindBestPrecommit (ra_roundContext ra) = Some k"
  shows "unat (CalculateWeightedThreshold c) \<le> weight_of c (voter ` set (prevotes_for ra k))"
proof -
  have ok: "omap_ok (rc_candidates (ra_roundContext ra))" "rc_threshold (ra_roundContext ra) = CalculateWeightedThreshold c"
    using accept_votes_keys inv by (auto simp: ra_inv_def)
  have "Prevote (round_weights (ra_roundContext ra) k) \<ge> CalculateWeightedThreshold c"
    using find_key_weight [OF best [unfolded tryFindBestPrecommit_def] ok(1)] ok(2) by simp
  then show ?thesis using prevote_weight_le [OF inv, of k] by (simp add: prevote_of_def word_le_nat_alt)
qed

lemma quorum_branch:
  assumes inv: "ra_inv sha3 vfy c ra1" "ra_inv sha3 vfy c ra2" and fin: "finite (dom (fc_accounts c))"
    and once: "\<And>m1 m2. m1 \<in> set (ra_accepted ra1) \<Longrightarrow> m2 \<in> set (ra_accepted ra2) \<Longrightarrow> IsPrevote m1 \<Longrightarrow> IsPrevote m2
      \<Longrightarrow> voter m1 = voter m2 \<Longrightarrow> voter m1 \<in> H \<Longrightarrow> m1 = m2"
    and weight: "weight_of c (dom (fc_accounts c)) + weight_of c (dom (fc_accounts c) - H) < 2 * unat (CalculateWeightedThreshold c)"
    and quorum: "unat (CalculateWeightedThreshold c) \<le> weight_of c (voter ` set (prevotes_for ra1 k1))"
      "unat (CalculateWeightedThreshold c) \<le> weight_of c (voter ` set (prevotes_for ra2 k2))"
  shows "\<exists>m \<in> set (ra_accepted ra1) \<inter> set (ra_accepted ra2). voter m \<in> H \<and> {k1, k2} \<subseteq> set (branch_keys (fm_Height m) (message_hashes m))"
proof -
  obtain v where v: "v \<in> voter ` set (prevotes_for ra1 k1)" "v \<in> voter ` set (prevotes_for ra2 k2)" "v \<in> H"
    using quorum_intersection [OF fin voters_eligible [OF inv(1)] voters_eligible [OF inv(2)] quorum weight] by blast
  then obtain m1 m2 where m: "m1 \<in> set (prevotes_for ra1 k1)" "voter m1 = v" "m2 \<in> set (prevotes_for ra2 k2)" "voter m2 = v" by (metis imageE)
  then have "m1 = m2" using once [of m1 m2] v(3) by (auto simp: prevotes_for_def)
  then show ?thesis using m v(3) by (intro bexI [of _ m1]) (auto simp: prevotes_for_def)
qed

section \<open>Properties\<close>

text \<open>
  C4. Finality is consistent within a round. Let two nodes collect messages of the same round with the same voters, in any order and with any
  forged, repeated or conflicting messages among them. If the honest voters prevote once, and the weight of the voters together with
  the weight of the dishonest ones stays below twice the threshold, then the best prevoted or precommitted block of one node and
  that of the other lie on the branch of one prevote, of an honest voter, that both nodes have accepted.
\<close>

theorem finalization_agreement:
  assumes "ra_addAll sha3 vfy ms1 (RoundMessageAggregator_new c) = Inr ra1" and "ra_addAll sha3 vfy ms2 (RoundMessageAggregator_new c) = Inr ra2"
    and "finite (dom (fc_accounts c))"
    and "weight_of c (dom (fc_accounts c)) + weight_of c (dom (fc_accounts c) - H) < 2 * unat (CalculateWeightedThreshold c)"
    and "\<And>m1 m2. m1 \<in> set (ra_accepted ra1) \<Longrightarrow> m2 \<in> set (ra_accepted ra2) \<Longrightarrow> IsPrevote m1 \<Longrightarrow> IsPrevote m2
      \<Longrightarrow> voter m1 = voter m2 \<Longrightarrow> voter m1 \<in> H \<Longrightarrow> m1 = m2"
    and "tryFindBestPrevote (ra_roundContext ra1) = Some k1 \<or> tryFindBestPrecommit (ra_roundContext ra1) = Some k1"
    and "tryFindBestPrevote (ra_roundContext ra2) = Some k2 \<or> tryFindBestPrecommit (ra_roundContext ra2) = Some k2"
  shows "\<exists>m \<in> set (ra_accepted ra1) \<inter> set (ra_accepted ra2). voter m \<in> H \<and> {k1, k2} \<subseteq> set (branch_keys (fm_Height m) (message_hashes m))"
proof (rule quorum_branch [OF ra_addAll_inv [OF assms(1)] ra_addAll_inv [OF assms(2)] assms(3,5,4)])
  show "unat (CalculateWeightedThreshold c) \<le> weight_of c (voter ` set (prevotes_for ra1 k1))"
    using assms(6) best_prevote_quorum [OF ra_addAll_inv [OF assms(1)]] best_precommit_prevote [OF ra_addAll_inv [OF assms(1)]] by blast
  show "unat (CalculateWeightedThreshold c) \<le> weight_of c (voter ` set (prevotes_for ra2 k2))"
    using assms(7) best_prevote_quorum [OF ra_addAll_inv [OF assms(2)]] best_precommit_prevote [OF ra_addAll_inv [OF assms(2)]] by blast
qed

definition sample_config :: FinalizationConfiguration where
  "sample_config = \<lparr>cfg_EnableVoting = True, cfg_EnableRevoteOnBoot = False, cfg_Size = 3, cfg_Threshold = 2, cfg_StepDuration = 10,
     cfg_ShortLivedCacheMessageDuration = 10, cfg_MessageSynchronizationMaxResponseSize = 10000,
     cfg_MaxHashesPerPoint = 8, cfg_PrevoteBlocksMultiple = 2, cfg_UnfinalizedBlocksDuration = 0,
     cfg_TreasuryReissuanceEpoch = 0, cfg_IneligibleVoterAddresses = {},
     cfg_VotingSetGrouping = 4\<rparr>"

definition sample_context :: FinalizationContext where
  "sample_context = \<lparr>fc_epoch = 3, fc_height = 4, fc_generationHash = [], fc_config = sample_config, fc_weight = 3, fc_accounts = [[1] \<mapsto> 3]\<rparr>"

definition sample_message :: "FinalizationStage \<Rightarrow> Height \<Rightarrow> Hash256 list \<Rightarrow> FinalizationMessage" where
  "sample_message stage height hashes = \<lparr>fm_Size = 224 + 32 * of_nat (length hashes), fm_Reserved1 = 0,
     fm_Signature = \<lparr>Root_ParentPublicKey = [1], Root_Signature = [], Bottom_ParentPublicKey = [], Bottom_Signature = []\<rparr>,
     fm_Version = 1, fm_HashesCount = of_nat (length hashes), fm_StepIdentifier = StepIdentifier_new 3 1 stage, fm_Height = height, fm_Hashes = hashes\<rparr>"

definition sample_votes :: "FinalizationMessage list" where
  "sample_votes = [sample_message 0 4 [[7], [8]], sample_message 1 5 [[8]]]"

definition best_of :: "RoundMessageAggregator result \<Rightarrow> HeightHashPair option \<times> HeightHashPair option" where
  "best_of r = (case r of Inl _ \<Rightarrow> (None, None) | Inr ra \<Rightarrow> (tryFindBestPrevote (ra_roundContext ra), tryFindBestPrecommit (ra_roundContext ra)))"

lemma sample_best: "best_of (ra_addAll (\<lambda>_. []) (\<lambda>_ _ _. True) sample_votes (RoundMessageAggregator_new sample_context)) = (Some (5, [8]), Some (5, [8]))"
  by code_simp

theorem finalization_agreement_witness:
  "\<exists>ra m. ra_addAll (\<lambda>_. []) (\<lambda>_ _ _. True) sample_votes (RoundMessageAggregator_new sample_context) = Inr ra
    \<and> m \<in> set (ra_accepted ra) \<and> (5, [8]) \<in> set (branch_keys (fm_Height m) (message_hashes m))"
proof -
  obtain ra where ra: "ra_addAll (\<lambda>_. []) (\<lambda>_ _ _. True) sample_votes (RoundMessageAggregator_new sample_context) = Inr ra"
    "tryFindBestPrevote (ra_roundContext ra) = Some (5, [8])"
    using sample_best by (auto simp: best_of_def split: sum.splits)
  have inv: "ra_inv (\<lambda>_. []) (\<lambda>_ _ _. True) sample_context ra" using ra_addAll_inv [OF ra(1)] .
  have once: "m1 = m2" if "m1 \<in> set (ra_accepted ra)" "m2 \<in> set (ra_accepted ra)" "IsPrevote m1" "IsPrevote m2" "voter m1 = voter m2" for m1 m2
    using inv that by (auto simp: ra_inv_def distinct_map inj_on_def message_key_def)
  have "fc_accounts sample_context = [[1] \<mapsto> 3]" "CalculateWeightedThreshold sample_context = 2"
    by (simp_all add: sample_context_def CalculateWeightedThreshold_def sample_config_def)
  then show ?thesis
    using finalization_agreement [OF ra(1) ra(1), of UNIV "(5, [8])" "(5, [8])"] once ra by (auto simp: weight_of_def fc_lookup_def)
qed

definition sample_history :: "Amount \<Rightarrow> VotingKey \<Rightarrow> AccountHistory" where
  "sample_history balance key = \<lparr>ah_balance = [(1, balance)], ah_vrfPublicKey = [],
     ah_votingPublicKeys = [(1, [\<lparr>pvk_VotingKey = key, pvk_StartEpoch = 1, pvk_EndEpoch = 9\<rparr>])]\<rparr>"

definition shipped_context :: FinalizationContext where
  "shipped_context = FinalizationContext_new 3 4 [] (sample_config\<lparr>cfg_Size := 10000, cfg_Threshold := 6700\<rparr>)
     [([20], sample_history 2753245384135753 [2]), ([21], sample_history 1 [1])]"

lemma div_superadditive: "a div k + b div k \<le> (a + b) div k" for a b k :: nat
  by (metis div_add1_eq le_add1)

text \<open>
  C36. The threshold of a round is the weight of all voters times the configured threshold divided by the configured size exactly as long as the product fits
  64 bits. When it does not, which with the shipped configuration (a threshold of 6700 of 10000) is the case as soon as the voters hold
  2753245384135754 atomic units, less than a third of the supply, the threshold of the round is too small, by at least \<open>2 ^ 64\<close>
  divided by the size.
\<close>

theorem weighted_threshold_exact:
  assumes "0 < cfg_Size (fc_config c)"
  shows "let intended = unat (fc_weight c) * unat (cfg_Threshold (fc_config c)) div unat (cfg_Size (fc_config c))
    in (if unat (fc_weight c) * unat (cfg_Threshold (fc_config c)) < 2 ^ 64 then unat (CalculateWeightedThreshold c) = intended
        else unat (CalculateWeightedThreshold c) + 2 ^ 64 div unat (cfg_Size (fc_config c)) \<le> intended)"
proof -
  let ?p = "unat (fc_weight c) * unat (cfg_Threshold (fc_config c))" and ?s = "unat (cfg_Size (fc_config c))"
  have t: "unat (CalculateWeightedThreshold c) = ?p mod 2 ^ 64 div ?s"
    by (simp add: CalculateWeightedThreshold_def unat_div unat_word_ariths(2))
  have "?p mod 2 ^ 64 div ?s + 2 ^ 64 div ?s \<le> ?p div ?s" if "\<not> ?p < 2 ^ 64"
  proof -
    have "1 \<le> ?p div 2 ^ 64" using div_le_mono [of "2 ^ 64" ?p "2 ^ 64"] that by simp
    then have "2 ^ 64 * 1 \<le> 2 ^ 64 * (?p div 2 ^ 64)" by (rule mult_le_mono2)
    then have "?p mod 2 ^ 64 + 2 ^ 64 \<le> ?p" using mod_mult_div_eq [of ?p "2 ^ 64"] by linarith
    then show ?thesis using div_superadditive [of "?p mod 2 ^ 64" ?s "2 ^ 64"] div_le_mono le_trans by blast
  qed
  then show ?thesis using t by (simp add: Let_def)
qed

theorem weighted_threshold_exact_witness:
  "unat (CalculateWeightedThreshold shipped_context) = 0
    \<and> unat (fc_weight shipped_context) * unat (cfg_Threshold (fc_config shipped_context)) div unat (cfg_Size (fc_config shipped_context)) \<ge> 1844674407370955"
proof -
  have v: "fc_weight shipped_context = 2753245384135754" "cfg_Threshold (fc_config shipped_context) = 6700" "cfg_Size (fc_config shipped_context) = 10000"
    "CalculateWeightedThreshold shipped_context = 0" by code_simp+
  then show ?thesis using weighted_threshold_exact [of shipped_context] by (simp add: Let_def)
qed

text \<open>
  C3. Suppose that all prevotes of a round are rooted: the blocks of every one follow each other in one common tree of blocks, and its first block has no parent there, as when
  all prevotes start at the same last final block. Then what the round shows depends on the votes and not on the order in which they arrive:
  all votes are accepted, every block has exactly the weight of the prevotes whose branch has it and of the precommits for it and its
  known descendants, and the best prevote, the best precommit, the estimate and whether the round can be completed are the ones
  that the set of votes determines; precommits for blocks that no prevote has shown yet wait and count as soon as one does.
\<close>

theorem round_reflects_votes:
  assumes "list_all (vote_rooted par) vs" and "mset vs' = mset vs"
  shows "\<exists>rc. foldM accept_vote vs' (RoundContext_new W T) = Inr rc
    \<and> round_weights rc k = \<lparr>Prevote = votes_prevote vs k, Precommit = votes_precommit par vs k\<rparr>
    \<and> tryFindBestPrevote rc = best_prevote T vs \<and> tryFindBestPrecommit rc = best_precommit par T vs
    \<and> tryFindEstimate rc = Option.bind (best_prevote T vs) (estimate_of par W T vs)
    \<and> isCompletable rc = completable par W T vs"
proof -
  have "list_all (vote_rooted par) vs'" using assms mset_eq_setD [OF assms(2)] by (simp add: list_all_iff)
  then obtain rc where rc: "foldM accept_vote vs' (RoundContext_new W T) = Inr rc" "round_after par W T vs' rc"
    using accept_votes_ok by blast
  note same = queries_mset [OF assms(2)] votes_mset(2) [OF assms(2)]
  show ?thesis
    using rc round_weights_after [OF rc(2)] round_best_prevote [OF rc(2)] round_best_precommit [OF rc(2)] round_estimate_all [OF rc(2)]
      round_completable [OF rc(2)] by (simp add: same)
qed

theorem round_reflects_votes_witness:
  "\<exists>rc. foldM accept_vote [PrecommitFor 5 [8] 3, PrevoteFor 4 [[7], [8]] 3] (RoundContext_new 4 3) = Inr rc
    \<and> round_weights rc (4, [7]) = \<lparr>Prevote = 3, Precommit = 3\<rparr>"
proof -
  let ?par = "[(5, [8]) \<mapsto> (4, [7])] :: HeightHashPair \<rightharpoonup> HeightHashPair"
  let ?vs = "[PrecommitFor 5 [8] 3, PrevoteFor 4 [[7], [8]] 3]"
  have keys: "branch_keys 4 [[7], [8]] = [(4, [7]), (5, [8])]" by (simp add: branch_keys_def)
  have "list_all (vote_rooted ?par) ?vs" by (simp add: keys)
  moreover have "anc ?par (5, [8]) = {(5, [8]), (4, [7])}"
    using anc_Some [of ?par "(5, [8])" "(4, [7])"] anc_None [of ?par "(4, [7])"] by simp
  then have "votes_precommit ?par ?vs (4, [7]) = 3" "votes_prevote ?vs (4, [7]) = 3"
    by (simp_all add: votes_precommit_def precommit_weight_def votes_precommits_def votes_keys_def keys votes_prevote_def)
  ultimately show ?thesis using round_reflects_votes [of ?par ?vs ?vs 4 3 "(4, [7])"] by auto
qed

end
