(* ===== verification/Finalization_Proofs.thy ===== *)
theory Finalization_Proofs
  imports Finalization_Safety
begin

unbundle bit_operations_syntax

text \<open>
  Finalization proofs: the messages of a round are grouped by what they say
  (\<^verbatim>\<open>extensions/finalization/src/model/FinalizationProofUtils.cpp\<close>), and a peer verifies a proof by adding its messages to an
  aggregator of its own (\<^verbatim>\<open>chain/FinalizationProofVerifier.cpp\<close>).

  The verifier reuses one message for all signatures of a group; an aggregator takes the hash of a message when it is added and the
  verifier reads nothing else of it later, so that the model adds a message of its own for every signature.
\<close>

section \<open>Creation of proofs\<close>

record FinalizationMessageGroup =
  fg_Size :: u32
  fg_HashesCount :: u32
  fg_SignaturesCount :: u32
  fg_Stage :: FinalizationStage
  fg_Height :: Height
  fg_Hashes :: "Hash256 list"
  fg_Signatures :: "BmTreeSignature list"

record FinalizationProof =
  fp_Size :: u32
  fp_Version :: u32
  fp_Round :: FinalizationRound
  fp_Height :: Height
  fp_Hash :: Hash256
  fp_MessageGroups :: "FinalizationMessageGroup list"

record FinalizationStatistics =
  fs_Round :: FinalizationRound
  fs_Height :: Height
  fs_Hash :: Hash256

definition SizeOf_FinalizationMessageGroup :: u32 where
  "SizeOf_FinalizationMessageGroup = 4 + 4 + 4 + 4 + 8"

definition SizeOf_FinalizationProofHeader :: u32 where
  "SizeOf_FinalizationProofHeader = 4 + 4 + 8 + 8 + 32"

text \<open>The order of the groups: by size, then by the bytes after the header.\<close>

definition group_key :: "FinalizationMessage \<Rightarrow> u32 \<times> bytes" where
  "group_key m = (fm_Size m, message_ToBuffer m)"

type_synonym MessageSignatureGroups = "(u32 \<times> bytes, FinalizationMessage \<times> BmTreeSignature list) omap"

definition canGroup :: "FinalizationRound \<Rightarrow> FinalizationMessage \<Rightarrow> bool" where
  "canGroup r m \<longleftrightarrow> r = step_Round (fm_StepIdentifier m) \<and> 0 = fm_Reserved1 m \<and> Current_Version = fm_Version m"

definition group_message :: "FinalizationRound \<Rightarrow> FinalizationMessage \<Rightarrow> MessageSignatureGroups \<Rightarrow> MessageSignatureGroups" where
  "group_message r m groups =
    (if \<not> canGroup r m then groups
     else case map_of groups (group_key m) of
       None \<Rightarrow> omap_put (group_key m) (m, [fm_Signature m]) groups
     | Some (t, signatures) \<Rightarrow> omap_put (group_key m) (t, signatures @ [fm_Signature m]) groups)"

definition create_group :: "FinalizationMessage \<times> BmTreeSignature list \<Rightarrow> FinalizationMessageGroup" where
  "create_group pair =
    (let t = fst pair; numSignatures = of_nat (length (snd pair));
         hashesPayloadSize = fm_HashesCount t * 32; signaturesPayloadSize = numSignatures * 192
     in \<lparr>fg_Size = SizeOf_FinalizationMessageGroup + hashesPayloadSize + signaturesPayloadSize, fg_HashesCount = fm_HashesCount t,
          fg_SignaturesCount = numSignatures, fg_Stage = step_Stage (fm_StepIdentifier t), fg_Height = fm_Height t,
          fg_Hashes = message_hashes t, fg_Signatures = snd pair\<rparr>)"

definition GroupMessages :: "FinalizationRound \<Rightarrow> FinalizationMessage list \<Rightarrow> FinalizationMessageGroup list" where
  "GroupMessages r messages = map (\<lambda>(_, pair). create_group pair) (fold (group_message r) messages [])"

definition CalculateTotalSize :: "FinalizationMessageGroup list \<Rightarrow> u32" where
  "CalculateTotalSize groups = fold (\<lambda>g size. size + fg_Size g) groups 0"

definition GenerateProofWithMessageGroups :: "FinalizationMessageGroup list \<Rightarrow> FinalizationProof" where
  "GenerateProofWithMessageGroups groups =
    \<lparr>fp_Size = SizeOf_FinalizationProofHeader + CalculateTotalSize groups, fp_Version = Current_Version, fp_Round = (0, 0),
      fp_Height = 0, fp_Hash = replicate 32 0, fp_MessageGroups = groups\<rparr>"

definition CreateFinalizationProof :: "FinalizationStatistics \<Rightarrow> FinalizationMessage list \<Rightarrow> FinalizationProof" where
  "CreateFinalizationProof statistics messages =
    (GenerateProofWithMessageGroups (GroupMessages (fs_Round statistics) messages))
      \<lparr>fp_Round := fs_Round statistics, fp_Height := fs_Height statistics, fp_Hash := fs_Hash statistics\<rparr>"

section \<open>Verification of proofs\<close>

datatype VerifyFinalizationProofResult =
    Verify_Failure_Invalid_Version | Verify_Failure_Invalid_Epoch | Verify_Failure_Invalid_Height | Verify_Failure_Invalid_Hash
  | Verify_Failure_No_Precommit | Verify_Failure_Invalid_Messsage | Verify_Success

definition CreateTemplateMessage :: "FinalizationRound \<Rightarrow> FinalizationMessageGroup \<Rightarrow> FinalizationMessage" where
  "CreateTemplateMessage r g =
    \<lparr>fm_Size = SizeOf_FinalizationMessage + fg_HashesCount g * 32, fm_Reserved1 = 0,
      fm_Signature = \<lparr>Root_ParentPublicKey = [], Root_Signature = [], Bottom_ParentPublicKey = [], Bottom_Signature = []\<rparr>,
      fm_Version = Current_Version, fm_HashesCount = fg_HashesCount g, fm_StepIdentifier = StepIdentifier_new (fst r) (snd r) (fg_Stage g),
      fm_Height = fg_Height g, fm_Hashes = take (unat (fg_HashesCount g)) (fg_Hashes g)\<rparr>"

text \<open>The messages of the two loops of the verifier, in their order, and the loops: \<open>None\<close> is the early return.\<close>

definition group_messages :: "FinalizationRound \<Rightarrow> FinalizationMessageGroup \<Rightarrow> FinalizationMessage list" where
  "group_messages r g = map (\<lambda>s. (CreateTemplateMessage r g)\<lparr>fm_Signature := s\<rparr>) (take (unat (fg_SignaturesCount g)) (fg_Signatures g))"

fun verify_messages where
  "verify_messages sha3 vfy [] ra = Inr (Some ra)"
| "verify_messages sha3 vfy (m # ms) ra = bind_result (ra_add sha3 vfy m ra) (\<lambda>(addResult, ra').
     if addResult \<notin> {Success_Prevote, Success_Precommit} then Inr None else verify_messages sha3 vfy ms ra')"

definition VerifyFinalizationProof where
  "VerifyFinalizationProof sha3 vfy proof context =
    (if Current_Version \<noteq> fp_Version proof then Inr Verify_Failure_Invalid_Version
     else if fst (fp_Round proof) \<noteq> fc_epoch context then Inr Verify_Failure_Invalid_Epoch
     else bind_result (verify_messages sha3 vfy (concat (map (group_messages (fp_Round proof)) (fp_MessageGroups proof)))
         (RoundMessageAggregator_new context)) (\<lambda>r.
       case r of None \<Rightarrow> Inr Verify_Failure_Invalid_Messsage
       | Some ra \<Rightarrow>
           (case tryFindBestPrecommit (ra_roundContext ra) of
             None \<Rightarrow> Inr Verify_Failure_No_Precommit
           | Some best \<Rightarrow> Inr (if fst best \<noteq> fp_Height proof then Verify_Failure_Invalid_Height
               else if snd best \<noteq> fp_Hash proof then Verify_Failure_Invalid_Hash else Verify_Success))))"

section \<open>What grouping keeps\<close>

text \<open>
  A message as the parser of packets lets it in: its size is the one its count of hashes gives, and it has that many hashes of 32 bytes.
\<close>

definition message_ok :: "FinalizationMessage \<Rightarrow> bool" where
  "message_ok m \<longleftrightarrow> fm_Size m = SizeOf_FinalizationMessage + fm_HashesCount m * 32 \<and> length (fm_Hashes m) = unat (fm_HashesCount m)
    \<and> list_all (\<lambda>h. length h = 32) (fm_Hashes m)"

lemma le_bytes_inj: "LENGTH('a) \<le> 8 * n \<Longrightarrow> le_bytes n w = le_bytes n (v :: 'a :: len word) \<longleftrightarrow> w = v"
  using le_word_le_bytes by metis

lemma concat_inj_32:
  "concat xs = concat ys \<Longrightarrow> length xs = length ys \<Longrightarrow> list_all (\<lambda>h. length h = 32) xs \<Longrightarrow> list_all (\<lambda>h. length h = 32) ys \<Longrightarrow> xs = ys"
  by (rule concat_injective) (auto simp: list_all_iff set_zip)

lemma group_key_inj:
  assumes "group_key m = group_key t" and "message_ok m" and "message_ok t" and "fm_Reserved1 m = fm_Reserved1 t"
  shows "t\<lparr>fm_Signature := fm_Signature m\<rparr> = m"
proof -
  have eq: "message_ToBuffer m = message_ToBuffer t" "fm_Size m = fm_Size t" using assms(1) by (simp_all add: group_key_def)
  then have p: "fm_Version m = fm_Version t" "fm_HashesCount m = fm_HashesCount t"
    "fm_StepIdentifier m = fm_StepIdentifier t" "fm_Height m = fm_Height t" "concat (fm_Hashes m) = concat (fm_Hashes t)"
    by (simp_all add: message_ToBuffer_def le_bytes_inj StepIdentifier.equality)
  then have "fm_Hashes m = fm_Hashes t" using assms(2,3) concat_inj_32 by (metis message_ok_def)
  then show ?thesis using p eq assms(4) by (simp add: FinalizationMessage.equality)
qed

lemma StepIdentifier_new_parts: "StepIdentifier_new (fst (step_Round s)) (snd (step_Round s)) (step_Stage s) = s"
proof -
  have "push_bit 1 (drop_bit 1 w) OR (w AND 1 AND 1) = w" for w :: u32
    by (rule bit_word_eqI) (unfold bit_or_iff bit_push_bit_iff bit_and_iff bit_drop_bit_eq bit_1_iff comp_def, auto)
  then show ?thesis by (cases s) (simp only: StepIdentifier_new_def step_Round_def step_Stage_def StepIdentifier.simps fst_conv snd_conv and.assoc)
qed

text \<open>The messages that a group stands for.\<close>

definition expand_group :: "FinalizationMessage \<times> BmTreeSignature list \<Rightarrow> FinalizationMessage list" where
  "expand_group pair = map (\<lambda>s. (fst pair)\<lparr>fm_Signature := s\<rparr>) (snd pair)"

definition groups_ok :: "FinalizationRound \<Rightarrow> MessageSignatureGroups \<Rightarrow> bool" where
  "groups_ok r groups \<longleftrightarrow> omap_ok groups
    \<and> (\<forall>(k, t, signatures) \<in> set groups. k = group_key t \<and> message_ok t \<and> canGroup r t)"

definition expand_groups :: "MessageSignatureGroups \<Rightarrow> FinalizationMessage multiset" where
  "expand_groups groups = (\<Sum>g \<in># mset groups. mset (expand_group (snd g)))"

lemma mset_omap_put_absent: "map_of m k = None \<Longrightarrow> mset (omap_put k v m) = add_mset (k, v) (mset m)"
  by (induction k v m rule: omap_put.induct) (auto split: if_splits)

lemma mset_omap_put_present:
  "omap_ok m \<Longrightarrow> map_of m k = Some u \<Longrightarrow> add_mset (k, u) (mset (omap_put k v m)) = add_mset (k, v) (mset m)"
proof (induction k v m rule: omap_put.induct)
  case (2 k v k' v' m)
  then show ?case by (auto simp: omap_ok_Cons map_of_eq_Some_iff omap_ok_distinct add_mset_commute split: if_splits)
qed simp

lemma group_message_ok:
  assumes "groups_ok r groups" and "message_ok m" and "canGroup r m"
  shows "groups_ok r (group_message r m groups) \<and> expand_groups (group_message r m groups) = add_mset m (expand_groups groups)"
proof (cases "map_of groups (group_key m)")
  case None
  then have "group_message r m groups = omap_put (group_key m) (m, [fm_Signature m]) groups" using assms(3) by (simp add: group_message_def)
  moreover have "set (omap_put (group_key m) (m, [fm_Signature m]) groups) = insert (group_key m, m, [fm_Signature m]) (set groups)"
    using mset_omap_put_absent [OF None] by (metis set_mset_add_mset_insert set_mset_mset)
  ultimately show ?thesis using assms None
    by (auto simp: groups_ok_def inv_intros expand_groups_def mset_omap_put_absent expand_group_def)
next
  case (Some pair)
  obtain t ss where pair: "pair = (t, ss)" by (cases pair)
  let ?g' = "omap_put (group_key m) (t, ss @ [fm_Signature m]) groups"
  have eq: "group_message r m groups = ?g'" using assms(3) Some pair by (simp add: group_message_def)
  have t: "group_key m = group_key t" "message_ok t" "canGroup r t"
    using assms(1) map_of_SomeD [OF Some] pair by (auto simp: groups_ok_def)
  have put: "add_mset (group_key m, t, ss) (mset ?g') = add_mset (group_key m, t, ss @ [fm_Signature m]) (mset groups)"
    using mset_omap_put_present [of groups "group_key m" "(t, ss)"] assms(1) Some pair by (simp add: groups_ok_def)
  have "insert (group_key m, t, ss) (set ?g') = insert (group_key m, t, ss @ [fm_Signature m]) (set groups)"
    using arg_cong [OF put, of set_mset] by simp
  then have "set ?g' \<subseteq> insert (group_key m, t, ss @ [fm_Signature m]) (set groups)" by blast
  then have ok: "groups_ok r ?g'" using assms(1) t by (auto simp: groups_ok_def inv_intros)
  have "t\<lparr>fm_Signature := fm_Signature m\<rparr> = m"
    using group_key_inj [OF t(1) assms(2) t(2)] assms(3) t(3) by (simp add: canGroup_def)
  moreover have "mset (expand_group (t, ss)) + expand_groups ?g' = mset (expand_group (t, ss @ [fm_Signature m])) + expand_groups groups"
    using arg_cong [OF put, of "\<lambda>M. \<Sum>g \<in># M. mset (expand_group (snd g))"] by (simp add: expand_groups_def)
  ultimately show ?thesis using ok eq by (simp add: expand_group_def)
qed

lemma group_messages_all:
  assumes "list_all (\<lambda>m. message_ok m \<and> canGroup r m) ms" and "groups_ok r groups"
  shows "groups_ok r (fold (group_message r) ms groups) \<and> expand_groups (fold (group_message r) ms groups) = mset ms + expand_groups groups"
  using assms by (induction ms arbitrary: groups) (use group_message_ok in auto)

lemma group_messages_expand:
  assumes "message_ok t" and "canGroup r t" and "length ss < 2 ^ 32"
  shows "group_messages r (create_group (t, ss)) = expand_group (t, ss)"
proof -
  have "CreateTemplateMessage r (create_group (t, ss)) = t\<lparr>fm_Signature := fm_Signature (CreateTemplateMessage r (create_group (t, ss)))\<rparr>"
    using assms(1,2) StepIdentifier_new_parts [of "fm_StepIdentifier t"]
    by (intro FinalizationMessage.equality) (simp_all add: CreateTemplateMessage_def create_group_def Let_def message_ok_def canGroup_def message_hashes_def)
  then have "(CreateTemplateMessage r (create_group (t, ss)))\<lparr>fm_Signature := s\<rparr> = t\<lparr>fm_Signature := s\<rparr>" for s
    by (metis FinalizationMessage.fold_congs(3) FinalizationMessage.surjective FinalizationMessage.update_convs(3))
  moreover have "unat (of_nat (length ss) :: u32) = length ss" using assms(3) by (simp add: unat_of_nat)
  ultimately show ?thesis by (simp add: group_messages_def expand_group_def create_group_def Let_def)
qed

text \<open>The verifier sees the messages that went into the proof, each once.\<close>

lemma proof_messages:
  assumes "list_all (\<lambda>m. message_ok m \<and> canGroup r m) ms" and "length ms < 2 ^ 32"
  shows "mset (concat (map (group_messages r) (GroupMessages r ms))) = mset ms"
proof -
  let ?g = "fold (group_message r) ms []"
  have g: "groups_ok r ?g" "expand_groups ?g = mset ms"
    using group_messages_all [OF assms(1), of "[]"] by (simp_all add: groups_ok_def expand_groups_def)
  have "length ss < 2 ^ 32" if "(k, t, ss) \<in> set ?g" for k t ss
  proof -
    have "mset (expand_group (t, ss)) \<subseteq># expand_groups ?g"
      using that unfolding expand_groups_def by (metis (mono_tags, lifting) image_mset_add_mset in_multiset_in_set insert_DiffM mset_subset_eq_add_left snd_conv sum_mset.insert)
    then have "length ss \<le> length ms" using size_mset_mono g(2) by (fastforce simp: expand_group_def)
    then show ?thesis using assms(2) by simp
  qed
  then have "group_messages r (create_group (snd g)) = expand_group (snd g)" if "g \<in> set ?g" for g
    using g(1) that group_messages_expand [of "fst (snd g)" r "snd (snd g)"] by (cases g) (auto simp: groups_ok_def)
  then have "map (\<lambda>(_, p). group_messages r (create_group p)) ?g = map (\<lambda>g. expand_group (snd g)) ?g"
    by (simp add: case_prod_unfold)
  then have "mset (concat (map (group_messages r) (GroupMessages r ms))) = mset (concat (map (\<lambda>g. expand_group (snd g)) ?g))"
    by (simp add: GroupMessages_def comp_def case_prod_unfold cong: map_cong)
  also have "\<dots> = expand_groups ?g" by (simp add: expand_groups_def mset_concat sum_mset_sum_list [symmetric] comp_def)
  finally show ?thesis using g(2) by simp
qed

section \<open>What verification accepts\<close>

lemma ra_add_accepts:
  assumes "ra_inv sha3 vfy c ra" and "round_after par W T (map (vote_of c) (ra_accepted ra)) (ra_roundContext ra)"
    and "check_message (RoundMessageAggregator_new c) m = Inr None"
    and "ProcessMessage vfy m c = (Process_Success, fc_lookup c (Root_ParentPublicKey (fm_Signature m)))"
    and "message_key m \<notin> message_key ` set (ra_accepted ra)" and "vote_rooted par (vote_of c m)"
  shows "\<exists>ra'. ra_add sha3 vfy m ra = Inr (if IsPrevote m then Success_Prevote else Success_Precommit, ra') \<and> ra_inv sha3 vfy c ra'
    \<and> ra_accepted ra' = ra_accepted ra @ [m] \<and> round_after par W T (map (vote_of c) (ra_accepted ra')) (ra_roundContext ra')"
proof -
  have c: "ra_finalizationContext ra = c" using assms(1) by (simp add: ra_inv_def)
  have "fst ` set (ra_messages ra) = message_key ` set (ra_accepted ra)" using assms(1) by (simp add: ra_inv_def image_image)
  then have new: "map_of (ra_messages ra) (message_key m) = None" using assms(5) by (simp add: map_of_eq_None_iff)
  have chk: "check_message ra m = Inr None"
    using assms(3) check_message_context [of "RoundMessageAggregator_new c" ra m] c by (simp add: RoundMessageAggregator_new_def)
  obtain rc where rc: "accept_vote (vote_of c m) (ra_roundContext ra) = Inr rc" "round_after par W T (map (vote_of c) (ra_accepted ra) @ [vote_of c m]) rc"
    using accept_vote_ok [OF assms(2,6)] by blast
  define ra' where "ra' = ra\<lparr>ra_messages := (message_key m, CreateMessageDescriptor sha3 m) # ra_messages ra, ra_roundContext := rc\<rparr>"
  have add: "ra_add sha3 vfy m ra = Inr (if IsPrevote m then Success_Prevote else Success_Precommit, ra')"
    using chk new assms(4) c rc(1) by (simp add: ra_add_def vote_of_def ra'_def del: bind_result_Inr_iff)
  have "ra_accepted ra' = ra_accepted ra @ [m]" by (simp add: ra'_def ra_accepted_def CreateMessageDescriptor_def)
  then show ?thesis using add ra_add_cases [OF assms(1) add] rc(2) by (auto simp: ra'_def split: if_splits)
qed

lemma verify_messages_accepts:
  assumes "ra_inv sha3 vfy c ra" and "round_after par W T (map (vote_of c) (ra_accepted ra)) (ra_roundContext ra)"
    and "\<And>m. m \<in> set ms \<Longrightarrow> check_message (RoundMessageAggregator_new c) m = Inr None
      \<and> ProcessMessage vfy m c = (Process_Success, fc_lookup c (Root_ParentPublicKey (fm_Signature m))) \<and> vote_rooted par (vote_of c m)"
    and "distinct (map message_key (ra_accepted ra @ ms))"
  shows "\<exists>ra'. verify_messages sha3 vfy ms ra = Inr (Some ra')
    \<and> round_after par W T (map (vote_of c) (ra_accepted ra @ ms)) (ra_roundContext ra')"
  using assms
proof (induction ms arbitrary: ra)
  case (Cons m ms)
  obtain ra' where ra': "ra_add sha3 vfy m ra = Inr (if IsPrevote m then Success_Prevote else Success_Precommit, ra')" "ra_inv sha3 vfy c ra'"
    "ra_accepted ra' = ra_accepted ra @ [m]" "round_after par W T (map (vote_of c) (ra_accepted ra')) (ra_roundContext ra')"
    using ra_add_accepts [OF Cons.prems(1,2), of m] Cons.prems(3) [of m] Cons.prems(4) by auto
  have "\<exists>ra2. verify_messages sha3 vfy ms ra' = Inr (Some ra2) \<and> round_after par W T (map (vote_of c) (ra_accepted ra' @ ms)) (ra_roundContext ra2)"
    by (rule Cons.IH) (use Cons.prems(3,4) ra' in auto)
  then show ?case using ra'(1,3) by (auto simp del: bind_result_Inr_iff)
qed simp

lemma collect_unknown_all:
  assumes "unat sz + (\<Sum>d\<leftarrow>ds. unat (fm_Size (md_pMessage d))) \<le> unat max_size"
  shows "collect_unknown {} max_size sz ds = map md_pMessage ds"
  using assms
proof (induction ds arbitrary: sz)
  case (Cons d ds)
  have up: "unat (ucast w :: u64) = unat w" for w :: u32
    using unsigned_less [of w, where ?'a = nat] by (simp add: unsigned_ucast_eq take_bit_nat_eq_self_iff)
  have "unat (sz + ucast (fm_Size (md_pMessage d))) = unat sz + unat (fm_Size (md_pMessage d))"
    using Cons.prems unsigned_less [of max_size, where ?'a = nat] by (simp add: unat_word_ariths(1) up)
  then show ?case using Cons by (auto simp: Let_def word_less_nat_alt)
qed simp

lemma unknown_all:
  assumes "\<And>l. mset (order l) = mset l" and "(\<Sum>m\<leftarrow>ra_accepted ra. unat (fm_Size m)) \<le> unat (ra_maxResponseSize ra)"
  shows "mset (ra_unknownMessages order {} ra) = mset (ra_accepted ra)"
proof -
  have mm: "mset (map (md_pMessage \<circ> snd) (order (ra_messages ra))) = mset (ra_accepted ra)"
    using assms(1) [of "ra_messages ra"] by (simp add: ra_accepted_def comp_def case_prod_unfold)
  have "(\<Sum>d\<leftarrow>map snd (order (ra_messages ra)). unat (fm_Size (md_pMessage d))) = (\<Sum>m\<leftarrow>ra_accepted ra. unat (fm_Size m))"
    using arg_cong [OF mm, of "\<lambda>M. \<Sum>m \<in># M. unat (fm_Size m)"] by (simp add: sum_mset_sum_list comp_def flip: mset_map)
  then show ?thesis unfolding ra_unknownMessages_def using assms(2) mm by (subst collect_unknown_all) simp_all
qed

section \<open>Properties\<close>

text \<open>
  C6. A finalization proof convinces every peer. When the best precommit of a node's round becomes final, the proof made of all messages of
  the round, whatever order the hash table of messages has, is verified by everybody with the same voters: grouping loses, changes and
  repeats no message, each is accepted again, and the best precommit is the same. This holds when all prevotes start at the last
  final block and the messages of the round fit into one response.
\<close>

theorem finalization_proof_verifies:
  assumes "ra_addAll sha3 vfy ms (RoundMessageAggregator_new c) = Inr ra"
    and "\<And>m. m \<in> set (ra_accepted ra) \<Longrightarrow> message_ok m \<and> step_Round (fm_StepIdentifier m) = fs_Round s \<and> vote_rooted par (vote_of c m)"
    and "fst (fs_Round s) = fc_epoch c" and "tryFindBestPrecommit (ra_roundContext ra) = Some (fs_Height s, fs_Hash s)"
    and "\<And>l. mset (order l) = mset l" and "length (ra_accepted ra) < 2 ^ 32"
    and "(\<Sum>m\<leftarrow>ra_accepted ra. unat (fm_Size m)) \<le> unat (ra_maxResponseSize ra)"
  shows "VerifyFinalizationProof sha3 vfy (CreateFinalizationProof s (ra_unknownMessages order {} ra)) c = Inr Verify_Success"
proof -
  let ?acc = "ra_accepted ra" and ?W = "fc_weight c" and ?T = "CalculateWeightedThreshold c"
  have inv: "ra_inv sha3 vfy c ra" using ra_addAll_inv [OF assms(1)] .
  define sent where "sent = ra_unknownMessages order {} ra"
  have sent: "mset sent = mset ?acc" unfolding sent_def by (rule unknown_all [OF assms(5,7)])
  have each: "check_message (RoundMessageAggregator_new c) m = Inr None
      \<and> ProcessMessage vfy m c = (Process_Success, fc_lookup c (Root_ParentPublicKey (fm_Signature m)))" if "m \<in> set ?acc" for m
    using inv that by (simp add: ra_inv_def)
  have grp: "canGroup (fs_Round s) m" if "m \<in> set ?acc" for m
    using each [OF that] assms(2) [OF that] by (auto simp: canGroup_def ProcessMessage_def Let_def split: if_splits)
  define ms' where "ms' = concat (map (group_messages (fs_Round s)) (GroupMessages (fs_Round s) sent))"
  have "list_all (\<lambda>m. message_ok m \<and> canGroup (fs_Round s) m) sent" "length sent < 2 ^ 32"
    using sent assms(2,6) grp mset_eq_setD [OF sent] mset_eq_length [OF sent] by (auto simp: list_all_iff)
  then have ms': "mset ms' = mset ?acc" unfolding ms'_def using proof_messages sent by metis
  have new: "ra_accepted (RoundMessageAggregator_new c) = []" by (simp add: ra_accepted_def RoundMessageAggregator_new_def)
  have start: "round_after par ?W ?T (map (vote_of c) (ra_accepted (RoundMessageAggregator_new c))) (ra_roundContext (RoundMessageAggregator_new c))"
    using accept_votes_ok [of par "[]" ?W ?T] by (simp add: new) (simp add: RoundMessageAggregator_new_def)
  have "distinct (map message_key ms')"
    using inv ms' by (metis (no_types) mset_eq_imp_distinct_iff mset_map ra_inv_def)
  then have "\<exists>ra'. verify_messages sha3 vfy ms' (RoundMessageAggregator_new c) = Inr (Some ra')
      \<and> round_after par ?W ?T (map (vote_of c) (ra_accepted (RoundMessageAggregator_new c) @ ms')) (ra_roundContext ra')"
    by (intro verify_messages_accepts [OF ra_inv_new start]) (use each assms(2) mset_eq_setD [OF ms'] new in simp_all)
  then obtain ra' where ra': "verify_messages sha3 vfy ms' (RoundMessageAggregator_new c) = Inr (Some ra')"
    "round_after par ?W ?T (map (vote_of c) ms') (ra_roundContext ra')"
    using new by auto
  obtain rc where rc: "foldM accept_vote (map (vote_of c) ?acc) (RoundContext_new ?W ?T) = Inr rc" "round_after par ?W ?T (map (vote_of c) ?acc) rc"
    using accept_votes_ok [of par "map (vote_of c) ?acc" ?W ?T] assms(2) by (auto simp: list_all_iff)
  then have "tryFindBestPrecommit (ra_roundContext ra') = tryFindBestPrecommit (ra_roundContext ra)"
    using inv round_best_precommit [OF rc(2)] round_best_precommit [OF ra'(2)] queries_mset(2) [of "map (vote_of c) ms'" "map (vote_of c) ?acc"] ms'
    by (simp add: ra_inv_def)
  then show ?thesis using ra'(1) assms(3,4)
    by (simp add: VerifyFinalizationProof_def CreateFinalizationProof_def GenerateProofWithMessageGroups_def sent_def [symmetric] ms'_def [symmetric]
        del: bind_result_Inr_iff)
qed

definition proof_votes :: "FinalizationMessage list" where
  "proof_votes = [sample_message 0 4 [replicate 32 7, replicate 32 8], sample_message 1 5 [replicate 32 8]]"

definition verify_own :: "FinalizationContext \<Rightarrow> FinalizationMessage list \<Rightarrow> (HeightHashPair option \<times> VerifyFinalizationProofResult result) result" where
  "verify_own c ms = bind_result (ra_addAll (\<lambda>_. []) (\<lambda>_ _ _. True) ms (RoundMessageAggregator_new c)) (\<lambda>ra.
     case tryFindBestPrecommit (ra_roundContext ra) of
       None \<Rightarrow> Inr (None, Inr Verify_Failure_No_Precommit)
     | Some best \<Rightarrow> Inr (Some best, VerifyFinalizationProof (\<lambda>_. []) (\<lambda>_ _ _. True)
         (CreateFinalizationProof \<lparr>fs_Round = (3, 1), fs_Height = fst best, fs_Hash = snd best\<rparr> (ra_unknownMessages (\<lambda>l. l) {} ra)) c))"

definition voter_message :: "u8 \<Rightarrow> FinalizationStage \<Rightarrow> Height \<Rightarrow> u8 list \<Rightarrow> FinalizationMessage" where
  "voter_message v stage height hashes = (sample_message stage height (map (replicate 32) hashes))
     \<lparr>fm_Signature := \<lparr>Root_ParentPublicKey = [v], Root_Signature = [], Bottom_ParentPublicKey = [], Bottom_Signature = []\<rparr>\<rparr>"

definition three_voters :: FinalizationContext where
  "three_voters = sample_context\<lparr>fc_accounts := [[1] \<mapsto> 1, [2] \<mapsto> 1, [3] \<mapsto> 1]\<rparr>"

lemma proof_votes_best: "best_of (ra_addAll (\<lambda>_. []) (\<lambda>_ _ _. True) proof_votes (RoundMessageAggregator_new sample_context))
    = (Some (5, replicate 32 8), Some (5, replicate 32 8))"
  by code_simp

theorem finalization_proof_verifies_witness:
  "\<exists>ra. ra_addAll (\<lambda>_. []) (\<lambda>_ _ _. True) proof_votes (RoundMessageAggregator_new sample_context) = Inr ra
    \<and> VerifyFinalizationProof (\<lambda>_. []) (\<lambda>_ _ _. True)
        (CreateFinalizationProof \<lparr>fs_Round = (3, 1), fs_Height = 5, fs_Hash = replicate 32 8\<rparr> (ra_unknownMessages rev {} ra)) sample_context
      = Inr Verify_Success"
proof -
  let ?c = sample_context and ?s = "\<lparr>fs_Round = (3, 1), fs_Height = 5, fs_Hash = replicate 32 8\<rparr>"
  obtain ra where ra: "ra_addAll (\<lambda>_. []) (\<lambda>_ _ _. True) proof_votes (RoundMessageAggregator_new ?c) = Inr ra"
    "tryFindBestPrecommit (ra_roundContext ra) = Some (fs_Height ?s, fs_Hash ?s)"
    using proof_votes_best by (auto simp: best_of_def split: sum.splits)
  have "case ra_addAll (\<lambda>_. []) (\<lambda>_ _ _. True) proof_votes (RoundMessageAggregator_new ?c) of Inl _ \<Rightarrow> False
    | Inr ra \<Rightarrow> ra_accepted ra = proof_votes \<and> ra_maxResponseSize ra = 10000" by code_simp
  then have acc: "ra_accepted ra = proof_votes" "ra_maxResponseSize ra = 10000" using ra(1) by simp_all
  let ?par = "[(5, replicate 32 8) \<mapsto> (4, replicate 32 7)] :: HeightHashPair \<rightharpoonup> HeightHashPair"
  have "list_all (\<lambda>m. message_ok m \<and> step_Round (fm_StepIdentifier m) = (3, 1)) proof_votes" by code_simp
  moreover have "list_all (\<lambda>m. vote_rooted ?par (vote_of ?c m)) proof_votes" by code_simp
  ultimately have each: "message_ok m \<and> step_Round (fm_StepIdentifier m) = fs_Round ?s \<and> vote_rooted ?par (vote_of ?c m)"
    if "m \<in> set (ra_accepted ra)" for m using that acc by (simp add: list_all_iff)
  have "(\<Sum>m\<leftarrow>proof_votes. unat (fm_Size m)) = 544" by (simp add: proof_votes_def sample_message_def)
  then show ?thesis
    using finalization_proof_verifies [OF ra(1) each, of rev] ra acc by (simp add: sample_context_def proof_votes_def)
qed

text \<open>
  The hypotheses on the prevotes and on the size of the messages cannot be dropped: a node may announce a final block with a proof
  that everybody rejects, itself included. In the first round below three voters of equal weight have voted, one of them from a later
  final block; the node has seen the longer prevotes first and finds a best precommit, but a proof lists the shorter ones first, so
  that the later block loses its parent and its precommit does not count for that parent. In the second one the messages do not fit into a response, and the
  precommit is missing from the proof.
\<close>

lemma finalization_proof_rejected:
  "verify_own three_voters [voter_message 1 0 4 [4, 5], voter_message 2 0 4 [4, 6], voter_message 3 0 5 [5], voter_message 3 1 5 [5],
      voter_message 1 1 4 [4]] = Inr (Some (4, replicate 32 4), Inr Verify_Failure_No_Precommit)
    \<and> verify_own (sample_context\<lparr>fc_config := sample_config\<lparr>cfg_MessageSynchronizationMaxResponseSize := 300\<rparr>\<rparr>) proof_votes
      = Inr (Some (5, replicate 32 8), Inr Verify_Failure_No_Precommit)"
proof
  show "verify_own three_voters [voter_message 1 0 4 [4, 5], voter_message 2 0 4 [4, 6], voter_message 3 0 5 [5], voter_message 3 1 5 [5],
      voter_message 1 1 4 [4]] = Inr (Some (4, replicate 32 4), Inr Verify_Failure_No_Precommit)" by code_simp
  show "verify_own (sample_context\<lparr>fc_config := sample_config\<lparr>cfg_MessageSynchronizationMaxResponseSize := 300\<rparr>\<rparr>) proof_votes
      = Inr (Some (5, replicate 32 8), Inr Verify_Failure_No_Precommit)" by code_simp
qed

end
