(* ===== verification/Finalization_Storage.thy ===== *)
theory Finalization_Storage
  imports Finalization_Proofs Block_Storage Chain_Synchronizer
begin

text \<open>
  Where a node keeps what is final: the proofs (\<^verbatim>\<open>extensions/finalization/src/io/FileProofStorage.cpp\<close>,
  \<^verbatim>\<open>AggregateProofStorage.cpp\<close>), the chains it has prevoted for (\<^verbatim>\<open>FilePrevoteChainStorage.cpp\<close>), from which it takes a
  final block that it has lost (\<^verbatim>\<open>chain/FinalizationPatchingSubscriber.cpp\<close>), and the synchronization of proofs with a peer
  (\<^verbatim>\<open>chain/FinalizationProofSynchronizer.cpp\<close>).

  A proof is one item of its file database. The directory of a prevote chain is the map of its block files with its index file.
  Operations that change something before they may throw return the error, if there is one, beside the state that they leave behind.
\<close>

section \<open>Proof storage\<close>

record FileProofStorage =
  ps_batchSize :: nat
  ps_database :: "FinalizationProof FileDatabase"
  ps_indexFile :: "FinalizationStatistics option"

definition ps_statistics :: "FileProofStorage \<Rightarrow> FinalizationStatistics" where
  "ps_statistics s = (case ps_indexFile s of None \<Rightarrow> \<lparr>fs_Round = (0, 0), fs_Height = 0, fs_Hash = replicate 32 0\<rparr> | Some st \<Rightarrow> st)"

definition ReadFinalizationProof :: "FinalizationProof list \<Rightarrow> FinalizationProof result" where
  "ReadFinalizationProof proofStream = (case proofStream of p # _ \<Rightarrow> Inr p | [] \<Rightarrow> Inl runtime_error)"

definition ps_loadProof_epoch :: "FinalizationEpoch \<Rightarrow> FileProofStorage \<Rightarrow> FinalizationProof result" where
  "ps_loadProof_epoch epoch s =
    (if 0 = epoch then Inl invalid_argument
     else if fst (fs_Round (ps_statistics s)) < epoch then Inl invalid_argument
     else bind_result (inputStream (ps_batchSize s) (unat epoch) (ps_database s)) ReadFinalizationProof)"

definition ps_loadClosestProof :: "Height \<Rightarrow> FileProofStorage \<Rightarrow> FinalizationProof result" where
  "ps_loadClosestProof height s =
    (if fst (fs_Round (ps_statistics s)) < 2 then ps_loadProof_epoch 1 s
     else bind_result (ps_loadProof_epoch 2 s) (\<lambda>proof.
       let votingSetGrouping = fp_Height proof
       in if votingSetGrouping = 0 then Inl undefined_behaviour
          else ps_loadProof_epoch (ucast (height div votingSetGrouping + 1)) s))"

definition ps_loadProof_height :: "Height \<Rightarrow> FileProofStorage \<Rightarrow> FinalizationProof option result" where
  "ps_loadProof_height height s =
    (if 0 = height then Inl invalid_argument
     else if fs_Height (ps_statistics s) < height then Inl invalid_argument
     else bind_result (ps_loadClosestProof height s) (\<lambda>proof. Inr (if fp_Height proof \<noteq> height then None else Some proof)))"

definition ps_saveProof :: "FinalizationProof \<Rightarrow> FileProofStorage \<Rightarrow> FileProofStorage result" where
  "ps_saveProof proof s =
    (let currentStatistics = ps_statistics s
     in if fs_Round currentStatistics > fp_Round proof \<or> fst (fp_Round proof) > fst (fs_Round currentStatistics) + 1 then Inl invalid_argument
        else if fs_Height currentStatistics > fp_Height proof then Inl invalid_argument
        else Inr (s\<lparr>ps_database := outputStream (ps_batchSize s) (unat (fst (fp_Round proof))) [proof] (ps_database s),
          ps_indexFile := Some \<lparr>fs_Round = fp_Round proof, fs_Height = fp_Height proof, fs_Hash = fp_Hash proof\<rparr>\<rparr>))"

section \<open>Prevote chains\<close>

record 's prevote_directory =
  pd_blocks :: "Height \<rightharpoonup> 's BlockElement"
  pd_index :: "Height option"

type_synonym 's prevote_chains = "FinalizationRound \<rightharpoonup> 's prevote_directory"

record PrevoteChainDescriptor =
  pcd_Round :: FinalizationRound
  pcd_Height :: Height
  pcd_HashesCount :: nat

definition pc_contains :: "FinalizationRound \<Rightarrow> HeightHashPair \<Rightarrow> 's prevote_chains \<Rightarrow> bool" where
  "pc_contains r pair pc =
    (case pc r of None \<Rightarrow> False
     | Some d \<Rightarrow> (case pd_blocks d (fst pair) of None \<Rightarrow> False | Some e \<Rightarrow> element_EntityHash e = snd pair))"

definition pc_load :: "FinalizationRound \<Rightarrow> Height \<Rightarrow> 's prevote_chains \<Rightarrow> Block list result" where
  "pc_load r lastHeight pc =
    (case Option.bind (pc r) pd_index of
      None \<Rightarrow> Inl invalid_argument
    | Some startHeight \<Rightarrow>
        let heights = map (\<lambda>i. startHeight + of_nat i) [0..<Suc (unat lastHeight) - unat startHeight];
            files = map (pd_blocks (the (pc r))) heights
        in Inr (map (\<lambda>f. element_Block (the f)) (takeWhile (\<lambda>f. f \<noteq> None) files)))"

definition pc_remove :: "FinalizationRound \<Rightarrow> 's prevote_chains \<Rightarrow> 's prevote_chains" where
  "pc_remove r pc = pc(r := None)"

text \<open>Saving replaces the directory of the round; the index file is written last, so that a block that cannot be loaded leaves a directory without it.\<close>

fun pc_save_blocks :: "'s BlockStorageCache \<Rightarrow> Height list \<Rightarrow> (Height \<rightharpoonup> 's BlockElement) \<Rightarrow> catapult_error option \<times> (Height \<rightharpoonup> 's BlockElement)" where
  "pc_save_blocks blocks [] files = (None, files)"
| "pc_save_blocks blocks (height # heights) files =
    (case view_loadBlockElement height blocks of
      Inl e \<Rightarrow> (Some e, files)
    | Inr el \<Rightarrow> pc_save_blocks blocks heights (files(height \<mapsto> el\<lparr>element_OptionalStatement := None\<rparr>)))"

definition pc_save :: "'s BlockStorageCache \<Rightarrow> PrevoteChainDescriptor \<Rightarrow> 's prevote_chains \<Rightarrow> catapult_error option \<times> 's prevote_chains" where
  "pc_save blocks descriptor pc =
    (let pc = pc_remove (pcd_Round descriptor) pc;
         (err, files) = pc_save_blocks blocks (map (\<lambda>i. pcd_Height descriptor + of_nat i) [0..<pcd_HashesCount descriptor]) (\<lambda>_. None);
         index = (if err = None then Some (pcd_Height descriptor) else None)
     in (err, pc(pcd_Round descriptor \<mapsto> \<lparr>pd_blocks = files, pd_index = index\<rparr>)))"

section \<open>Notifications of final blocks\<close>

datatype finalization_event = Notified_Finalized FinalizationRound Height Hash256 | Consumed_Blocks "Block list"

definition patching_Contains :: "'s BlockStorageCache \<Rightarrow> Height \<Rightarrow> Hash256 \<Rightarrow> bool result" where
  "patching_Contains blocks height hash =
    (if view_chainHeight blocks \<ge> height
     then bind_result (view_loadBlockElement height blocks) (\<lambda>e. Inr (hash = element_EntityHash e))
     else Inr False)"

definition patching_notifyFinalizedBlock :: "'s BlockStorageCache \<Rightarrow> FinalizationRound \<Rightarrow> Height \<Rightarrow> Hash256 \<Rightarrow> 's prevote_chains
    \<Rightarrow> (finalization_event list \<times> 's prevote_chains) result" where
  "patching_notifyFinalizedBlock blocks r height hash pc =
    bind_result (patching_Contains blocks height hash) (\<lambda>known.
      bind_result (if \<not> known \<and> pc_contains r (height, hash) pc
          then bind_result (pc_load r height pc) (\<lambda>blockRange. Inr [Consumed_Blocks blockRange]) else Inr []) (\<lambda>events.
        Inr (events, pc_remove r pc)))"

text \<open>
  The subscribers of the node come first, any of which may throw; \<open>subscriber\<close> is what they do. The patching subscriber throws before it changes anything.
\<close>

type_synonym finalization_subscriber = "FinalizationRound \<Rightarrow> Height \<Rightarrow> Hash256 \<Rightarrow> catapult_error option"

definition adapter_notifyFinalizedBlock :: "finalization_subscriber \<Rightarrow> 's BlockStorageCache \<Rightarrow> FinalizationRound \<Rightarrow> Height \<Rightarrow> Hash256 \<Rightarrow> 's prevote_chains
    \<Rightarrow> catapult_error option \<times> finalization_event list \<times> 's prevote_chains" where
  "adapter_notifyFinalizedBlock subscriber blocks r height hash pc =
    (case subscriber r height hash of
      Some e \<Rightarrow> (Some e, [Notified_Finalized r height hash], pc)
    | None \<Rightarrow>
        (case patching_notifyFinalizedBlock blocks r height hash pc of
          Inl e \<Rightarrow> (Some e, [Notified_Finalized r height hash], pc)
        | Inr (events, pc') \<Rightarrow> (None, Notified_Finalized r height hash # events, pc')))"

text \<open>The storage that a node uses: it skips older proofs, saves the others and then reports them.\<close>

definition aggregate_saveProof :: "finalization_subscriber \<Rightarrow> 's BlockStorageCache \<Rightarrow> FinalizationProof \<Rightarrow> FileProofStorage \<times> 's prevote_chains
    \<Rightarrow> catapult_error option \<times> finalization_event list \<times> FileProofStorage \<times> 's prevote_chains" where
  "aggregate_saveProof subscriber blocks proof sp =
    (if fs_Round (ps_statistics (fst sp)) > fp_Round proof then (None, [], sp)
     else case ps_saveProof proof (fst sp) of
       Inl e \<Rightarrow> (Some e, [], sp)
     | Inr s' \<Rightarrow> (let (err, events, pc') = adapter_notifyFinalizedBlock subscriber blocks (fp_Round proof) (fp_Height proof) (fp_Hash proof) (snd sp)
                in (err, events, s', pc')))"

section \<open>The last final block of the local chain\<close>

definition LoadHashAtHeight :: "'s BlockStorageCache \<Rightarrow> Height \<Rightarrow> Hash256 result" where
  "LoadHashAtHeight blocks height =
    (if height > view_chainHeight blocks then Inr (replicate 32 0)
     else bind_result (view_loadHashesFrom height 1 blocks) (\<lambda>hashes. case hashes of [] \<Rightarrow> Inl undefined_behaviour | h # _ \<Rightarrow> Inr h))"

text \<open>The search through the epochs below an epoch; it ends with the exception for the epoch zero at the latest.\<close>

fun localFinalized_loop :: "FileProofStorage \<Rightarrow> 's BlockStorageCache \<Rightarrow> nat \<Rightarrow> HeightHashPair result" where
  "localFinalized_loop s blocks 0 = Inl invalid_argument"
| "localFinalized_loop s blocks (Suc epoch) =
    bind_result (ps_loadProof_epoch (of_nat epoch) s) (\<lambda>proof.
    bind_result (LoadHashAtHeight blocks (fp_Height proof)) (\<lambda>hash.
      if fp_Hash proof = hash then Inr (fp_Height proof, fp_Hash proof) else localFinalized_loop s blocks epoch))"

definition localFinalizedHeightHashPair :: "FileProofStorage \<Rightarrow> 's BlockStorageCache \<Rightarrow> HeightHashPair result" where
  "localFinalizedHeightHashPair s blocks =
    bind_result (LoadHashAtHeight blocks (fs_Height (ps_statistics s))) (\<lambda>hash.
      if fs_Hash (ps_statistics s) = hash then Inr (fs_Height (ps_statistics s), fs_Hash (ps_statistics s))
      else localFinalized_loop s blocks (unat (fst (fs_Round (ps_statistics s)))))"

section \<open>Pulling proofs\<close>

definition calculateRequestEpoch :: "u64 \<Rightarrow> u64 \<Rightarrow> Height \<Rightarrow> Height \<Rightarrow> FinalizationEpoch result" where
  "calculateRequestEpoch votingSetGrouping unfinalizedBlocksDuration localChainHeight localFinalizedHeight =
    bind_result (CalculateGroupedHeight (localFinalizedHeight + votingSetGrouping + 1) votingSetGrouping) (\<lambda>nextProofHeight.
      if nextProofHeight < localChainHeight then CalculateFinalizationEpochForHeight nextProofHeight votingSetGrouping
      else if 0 \<noteq> unfinalizedBlocksDuration \<and> localChainHeight - localFinalizedHeight \<ge> unfinalizedBlocksDuration then
        bind_result (CalculateFinalizationEpochForHeight localFinalizedHeight votingSetGrouping) (\<lambda>epoch.
          bind_result (CalculateVotingSetEndHeight epoch votingSetGrouping) (\<lambda>endHeight.
            Inr (if endHeight \<noteq> localFinalizedHeight then epoch else epoch + 1)))
      else Inr 0)"

text \<open>
  One interaction with a peer. The statistics and the proof of the peer may fail to arrive, which throws a runtime error as a packet that
  cannot be read does. From the proof on a runtime error is caught and is a failure, also when it comes from the notification of a proof that has
  already been saved; other errors are passed on. The validator may refuse the proof.
\<close>

definition proof_received where
  "proof_received subscriber proofValidator blocks requestEpoch localFinalizedHeight received sp =
    (case received of
      Inl e \<Rightarrow> (Inl e, [], sp)
    | Inr None \<Rightarrow> (Inr Interaction_Neutral, [], sp)
    | Inr (Some proof) \<Rightarrow>
        if requestEpoch \<noteq> fst (fp_Round proof) \<or> localFinalizedHeight \<ge> fp_Height proof then (Inr Interaction_Failure, [], sp)
        else if \<not> proofValidator proof then (Inr Interaction_Failure, [], sp)
        else let (err, r) = aggregate_saveProof subscriber blocks proof sp
             in (case err of None \<Rightarrow> Inr Interaction_Success | Some e \<Rightarrow> Inl e, r))"

definition ProofSynchronizer where
  "ProofSynchronizer subscriber votingSetGrouping unfinalizedBlocksDuration proofValidator peer_statistics peer_proofAt blocks sp =
    (let localFinalizedHeight = fs_Height (ps_statistics (fst sp))
     in case calculateRequestEpoch votingSetGrouping unfinalizedBlocksDuration (view_chainHeight blocks) localFinalizedHeight of
          Inl e \<Rightarrow> (Inl e, [], sp)
        | Inr requestEpoch \<Rightarrow>
            if 0 = requestEpoch then (Inr Interaction_Neutral, [], sp)
            else let (code, r) = proof_received subscriber proofValidator blocks requestEpoch localFinalizedHeight
                     (bind_result peer_statistics (\<lambda>remoteStatistics.
                       if requestEpoch \<le> fst (fs_Round remoteStatistics) \<and> localFinalizedHeight < fs_Height remoteStatistics
                       then bind_result (peer_proofAt requestEpoch) (\<lambda>proof. Inr (Some proof)) else Inr None)) sp
                 in (if code = Inl runtime_error then Inr Interaction_Failure else code, r))"

section \<open>What the proof storage holds\<close>

definition proofs_ok :: "FileProofStorage \<Rightarrow> bool" where
  "proofs_ok s \<longleftrightarrow> (let st = ps_statistics s in 1 \<le> fst (fs_Round st) \<and> database_wf (ps_batchSize s) 1 (ps_database s)
     \<and> (\<forall>e \<in> {1..unat (fst (fs_Round st))}. \<exists>p. database_has (ps_batchSize s) 1 (ps_database s) e [p] \<and> unat (fst (fp_Round p)) = e
         \<and> (e = unat (fst (fs_Round st)) \<longrightarrow> st = \<lparr>fs_Round = fp_Round p, fs_Height = fp_Height p, fs_Hash = fp_Hash p\<rparr>)))"

text \<open>Writing the proof of the current or the next epoch.\<close>

lemma proofs_write:
  fixes pr :: FinalizationProof
  assumes "proofs_ok s" and "unat e \<le> unat (fst (fs_Round (ps_statistics s))) + 1" and "1 \<le> e"
  defines "db' \<equiv> outputStream (ps_batchSize s) (unat e) [pr] (ps_database s)"
  shows "database_wf (ps_batchSize s) 1 db'" and "database_has (ps_batchSize s) 1 db' (unat e) [pr]"
    and "\<And>i. 1 \<le> i \<Longrightarrow> i < unat e \<Longrightarrow> \<exists>p. database_has (ps_batchSize s) 1 (ps_database s) i [p] \<and> database_has (ps_batchSize s) 1 db' i [p]
      \<and> unat (fst (fp_Round p)) = i"
proof -
  let ?b = "ps_batchSize s" and ?db = "ps_database s"
  have has: "\<exists>p. database_has ?b 1 ?db i [p] \<and> unat (fst (fp_Round p)) = i" if "1 \<le> i" "i < unat e" for i
  proof -
    have "i \<in> {1..unat (fst (fs_Round (ps_statistics s)))}" using that assms(2) by simp
    then show ?thesis using assms(1) unfolding proofs_ok_def Let_def by blast
  qed
  have e: "1 \<le> unat e" using assms(3) by (simp add: word_le_nat_alt)
  have "unat e = 1 \<or> (\<exists>q. database_has ?b 1 ?db (unat e - 1) q)"
  proof (cases "unat e = 1")
    case False
    then have "1 \<le> unat e - 1" "unat e - 1 < unat e" using e by simp_all
    then show ?thesis using has by blast
  qed simp
  moreover have "database_wf ?b 1 ?db" using assms(1) by (simp add: proofs_ok_def Let_def)
  ultimately have w: "database_wf ?b 1 db' \<and> database_has ?b 1 db' (unat e) [pr]
      \<and> (\<forall>j < unat e. \<forall>q. database_has ?b 1 ?db j q \<longrightarrow> database_has ?b 1 db' j q)"
    unfolding db'_def using database_write e by blast
  then show "database_wf ?b 1 db'" "database_has ?b 1 db' (unat e) [pr]" by simp_all
  show "\<exists>p. database_has ?b 1 ?db i [p] \<and> database_has ?b 1 db' i [p] \<and> unat (fst (fp_Round p)) = i" if "1 \<le> i" "i < unat e" for i
    using has [OF that] w that(2) by blast
qed

lemma proof_storage_saves_aux:
  assumes "proofs_ok s" and "fst (fs_Round (ps_statistics s)) < - 1"
  shows "(case ps_saveProof proof s of
      Inl e \<Rightarrow> e = invalid_argument \<and> \<not> (fs_Round (ps_statistics s) \<le> fp_Round proof
        \<and> fst (fp_Round proof) \<le> fst (fs_Round (ps_statistics s)) + 1 \<and> fs_Height (ps_statistics s) \<le> fp_Height proof)
    | Inr s' \<Rightarrow> fs_Round (ps_statistics s) \<le> fp_Round proof \<and> fst (fp_Round proof) \<le> fst (fs_Round (ps_statistics s)) + 1
        \<and> fs_Height (ps_statistics s) \<le> fp_Height proof \<and> proofs_ok s'
        \<and> ps_statistics s' = \<lparr>fs_Round = fp_Round proof, fs_Height = fp_Height proof, fs_Hash = fp_Hash proof\<rparr>
        \<and> ps_loadProof_epoch (fst (fp_Round proof)) s' = Inr proof
        \<and> (\<forall>e < fst (fp_Round proof). ps_loadProof_epoch e s' = ps_loadProof_epoch e s))"
proof (cases "ps_saveProof proof s")
  case (Inl e)
  then show ?thesis by (auto simp: ps_saveProof_def Let_def not_le not_less split: if_splits)
next
  case (Inr s')
  let ?b = "ps_batchSize s" and ?e = "fst (fp_Round proof)" and ?c = "fst (fs_Round (ps_statistics s))" and ?db = "ps_database s"
  have guard: "fs_Round (ps_statistics s) \<le> fp_Round proof" "?e \<le> ?c + 1" "fs_Height (ps_statistics s) \<le> fp_Height proof"
    and s': "s' = s\<lparr>ps_database := outputStream ?b (unat ?e) [proof] ?db,
      ps_indexFile := Some \<lparr>fs_Round = fp_Round proof, fs_Height = fp_Height proof, fs_Hash = fp_Hash proof\<rparr>\<rparr>"
    using Inr by (auto simp: ps_saveProof_def Let_def split: if_splits)
  have st: "ps_statistics s' = \<lparr>fs_Round = fp_Round proof, fs_Height = fp_Height proof, fs_Hash = fp_Hash proof\<rparr>"
    by (simp add: s' ps_statistics_def)
  have e: "unat ?e \<le> unat ?c + 1" "1 \<le> ?e"
    using guard(1,2) assms by (auto simp: less_eq_prod_def word_le_nat_alt unat_word_ariths word_less_nat_alt proofs_ok_def Let_def)
  note w = proofs_write [OF assms(1) e, where pr = "proof"]
  have ok: "proofs_ok s'"
    unfolding proofs_ok_def Let_def
  proof (intro conjI ballI)
    show "1 \<le> fst (fs_Round (ps_statistics s'))" using e(2) st by simp
    show "database_wf (ps_batchSize s') 1 (ps_database s')" using w(1) by (simp add: s')
    fix i assume "i \<in> {1..unat (fst (fs_Round (ps_statistics s')))}"
    then have "1 \<le> i" "i \<le> unat ?e" using st by simp_all
    then show "\<exists>p. database_has (ps_batchSize s') 1 (ps_database s') i [p] \<and> unat (fst (fp_Round p)) = i
        \<and> (i = unat (fst (fs_Round (ps_statistics s')))
          \<longrightarrow> ps_statistics s' = \<lparr>fs_Round = fp_Round p, fs_Height = fp_Height p, fs_Hash = fp_Hash p\<rparr>)"
      using w(2) w(3) [of i] st by (cases "i = unat ?e") (fastforce simp: s')+
  qed
  have load: "ps_loadProof_epoch ?e s' = Inr proof"
    using database_has_read [OF w(2)] e(2) by (auto simp: ps_loadProof_epoch_def ps_statistics_def ReadFinalizationProof_def s')
  have "ps_loadProof_epoch i s' = ps_loadProof_epoch i s" if i: "i < ?e" for i
  proof (cases "i = 0")
    case False
    then obtain p where p: "database_has ?b 1 ?db (unat i) [p]" "database_has ?b 1 (outputStream ?b (unat ?e) [proof] ?db) (unat i) [p]"
      using w(3) [of "unat i"] i by (metis One_nat_def Suc_leI unat_eq_zero word_less_nat_alt gr0I)
    have "i \<le> ?c" using i e(1) by (simp add: word_less_nat_alt word_le_nat_alt)
    then show ?thesis using False i database_has_read [OF p(1)] database_has_read [OF p(2)]
      by (auto simp: ps_loadProof_epoch_def ps_statistics_def s')
  qed (simp add: ps_loadProof_epoch_def)
  then show ?thesis using Inr guard ok st load by simp
qed

section \<open>Properties\<close>

text \<open>
  C31. The proof storage keeps one proof of every epoch. A proof is taken exactly when its round is not before the last one, its epoch is the
  current or the next one and its height is not below the last final height; then it is the last final block, the proof of its
  epoch is read back as it was saved and the proofs of all earlier epochs stay what they were.
\<close>

theorem proof_storage_saves:
  assumes "proofs_ok s" and "fst (fs_Round (ps_statistics s)) < - 1"
  shows "(case ps_saveProof proof s of
      Inl e \<Rightarrow> e = invalid_argument \<and> \<not> (fs_Round (ps_statistics s) \<le> fp_Round proof
        \<and> fst (fp_Round proof) \<le> fst (fs_Round (ps_statistics s)) + 1 \<and> fs_Height (ps_statistics s) \<le> fp_Height proof)
    | Inr s' \<Rightarrow> fs_Round (ps_statistics s) \<le> fp_Round proof \<and> fst (fp_Round proof) \<le> fst (fs_Round (ps_statistics s)) + 1
        \<and> fs_Height (ps_statistics s) \<le> fp_Height proof \<and> proofs_ok s'
        \<and> ps_statistics s' = \<lparr>fs_Round = fp_Round proof, fs_Height = fp_Height proof, fs_Hash = fp_Hash proof\<rparr>
        \<and> ps_loadProof_epoch (fst (fp_Round proof)) s' = Inr proof
        \<and> (\<forall>e < fst (fp_Round proof). ps_loadProof_epoch e s' = ps_loadProof_epoch e s))"
  by (rule proof_storage_saves_aux [OF assms])

definition sample_proof :: "FinalizationEpoch \<Rightarrow> FinalizationPoint \<Rightarrow> Height \<Rightarrow> FinalizationProof" where
  "sample_proof epoch point height = CreateFinalizationProof \<lparr>fs_Round = (epoch, point), fs_Height = height, fs_Hash = [ucast height]\<rparr> []"

definition sample_proofs :: FileProofStorage where
  "sample_proofs = \<lparr>ps_batchSize = 1, ps_database = [1 \<mapsto> \<lparr>file_header = [], file_body = [sample_proof 1 1 1]\<rparr>],
     ps_indexFile = Some \<lparr>fs_Round = (1, 1), fs_Height = 1, fs_Hash = [1]\<rparr>\<rparr>"

lemma sample_proofs_ok: "proofs_ok sample_proofs"
proof -
  have run: "file_run 1 \<lparr>file_header = [], file_body = [sample_proof 1 1 1]\<rparr> 0 [[sample_proof 1 1 1]]"
    by (simp add: file_run_def)
  then have "database_wf 1 1 (ps_database sample_proofs)"
    by (auto simp: database_wf_def sample_proofs_def getFilePath_def run_start_def split: if_splits)
  moreover have "database_has 1 1 (ps_database sample_proofs) 1 [sample_proof 1 1 1]"
    using run by (auto simp: database_has_def sample_proofs_def getFilePath_def run_start_def)
  ultimately show ?thesis
    by (auto simp: proofs_ok_def Let_def ps_statistics_def sample_proofs_def sample_proof_def CreateFinalizationProof_def GenerateProofWithMessageGroups_def)
qed

theorem proof_storage_saves_witness:
  "\<exists>s'. ps_saveProof (sample_proof 2 3 4) sample_proofs = Inr s' \<and> ps_loadProof_epoch 2 s' = Inr (sample_proof 2 3 4)
    \<and> ps_loadProof_epoch 1 s' = Inr (sample_proof 1 1 1)"
proof -
  have st: "ps_statistics sample_proofs = \<lparr>fs_Round = (1, 1), fs_Height = 1, fs_Hash = [1]\<rparr>" "fp_Round (sample_proof 2 3 4) = (2, 3)"
    by (simp_all add: ps_statistics_def sample_proofs_def sample_proof_def CreateFinalizationProof_def)
  obtain s' where "ps_saveProof (sample_proof 2 3 4) sample_proofs = Inr s'"
    by (simp add: ps_saveProof_def st Let_def) (simp add: sample_proof_def CreateFinalizationProof_def)
  moreover have "ps_loadProof_epoch 1 sample_proofs = Inr (sample_proof 1 1 1)" by code_simp
  moreover have "(1 :: FinalizationEpoch) < - 1" by code_simp
  ultimately show ?thesis using proof_storage_saves [OF sample_proofs_ok, of "sample_proof 2 3 4"] st by simp
qed

text \<open>The storage finds a proof for the epochs that it has.\<close>

lemma proofs_ok_load:
  assumes "proofs_ok s" and "0 < e" and "e \<le> fst (fs_Round (ps_statistics s))"
  shows "\<exists>p. ps_loadProof_epoch e s = Inr p \<and> (e = fst (fs_Round (ps_statistics s)) \<longrightarrow> fp_Height p = fs_Height (ps_statistics s))"
proof -
  have "unat e \<in> {1..unat (fst (fs_Round (ps_statistics s)))}" using assms(2,3) by (simp add: word_le_nat_alt word_gt_0 unat_gt_0 Suc_leI)
  then obtain p where p: "database_has (ps_batchSize s) 1 (ps_database s) (unat e) [p]"
    "unat e = unat (fst (fs_Round (ps_statistics s))) \<longrightarrow> ps_statistics s = \<lparr>fs_Round = fp_Round p, fs_Height = fp_Height p, fs_Hash = fp_Hash p\<rparr>"
    using assms(1) unfolding proofs_ok_def Let_def by blast
  then have "ps_loadProof_epoch e s = Inr p"
    using assms(2,3) database_has_read [OF p(1)] by (auto simp: ps_loadProof_epoch_def ReadFinalizationProof_def not_less)
  then show ?thesis using p(2) by (metis FinalizationStatistics.select_convs(2))
qed

text \<open>
  C38. Which proofs are found by their height. Take a storage of at least three epochs in which the proof of every epoch but the last is that of the
  end of the epoch. A proof is found exactly at the first height and at the heights that end an epoch. So the proof of a final block in the middle
  of an epoch, which the storage keeps as its last one, is not found, although the height is not above the last final height.
\<close>

theorem proof_found_by_height:
  assumes "proofs_ok s" and "3 \<le> fst (fs_Round (ps_statistics s))" and "2 \<le> g" and "unat g * unat (fst (fs_Round (ps_statistics s))) < 2 ^ 64"
    and "\<And>e p. 1 \<le> e \<Longrightarrow> e < fst (fs_Round (ps_statistics s)) \<Longrightarrow> ps_loadProof_epoch e s = Inr p \<Longrightarrow> unat (fp_Height p) = (if e = 1 then 1 else (unat e - 1) * unat g)"
    and "unat (fs_Height (ps_statistics s)) \<le> (unat (fst (fs_Round (ps_statistics s))) - 1) * unat g"
    and "0 < x" and "x \<le> fs_Height (ps_statistics s)"
  shows "\<exists>p. ps_loadProof_epoch (ucast (x div g + 1)) s = Inr p
    \<and> ps_loadProof_height x s = Inr (if x = 1 \<or> x mod g = 0 then Some p else None)"
proof -
  let ?E = "fst (fs_Round (ps_statistics s))"
  have g: "2 \<le> unat g" "2 \<le> ?E" "\<not> ?E < 2" "3 \<le> unat ?E" using assms(2,3) by (auto simp: word_le_nat_alt word_less_nat_alt)
  have E2: "(2 :: u32) < ?E" using g(4) by (simp add: word_less_nat_alt)
  obtain p2 where p2: "ps_loadProof_epoch 2 s = Inr p2" using proofs_ok_load [OF assms(1), of 2] g(2) by auto
  then have "unat (fp_Height p2) = unat g" using assms(5) [OF _ E2 p2] by (auto simp: word_le_nat_alt)
  then have h2: "fp_Height p2 = g" by (simp add: word_unat_eq_iff)
  define k where "k = unat x div unat g"
  have x: "unat x \<le> (unat ?E - 1) * unat g" "0 < unat x" using assms(6,8,7) by (auto simp: word_le_nat_alt word_gt_0 unat_gt_0)
  then have kE: "k < unat ?E" using g(1,4) less_mult_imp_div_less [of "unat x" "unat ?E" "unat g"] by (simp add: k_def algebra_simps)
  have "unat (x div g + 1) = Suc k" using unsigned_less [of ?E, where ?'a = nat] kE by (simp add: k_def unat_word_ariths unat_div)
  then have e: "unat (ucast (x div g + 1) :: u32) = Suc k"
    using unsigned_less [of ?E, where ?'a = nat] kE by (simp add: unsigned_ucast_eq take_bit_nat_eq_self_iff)
  define e where "e = (ucast (x div g + 1) :: u32)"
  have eE: "0 < e" "e \<le> ?E" "1 \<le> e" using e kE by (auto simp: e_def word_gt_0 word_le_nat_alt simp flip: unat_gt_0)
  obtain p where p: "ps_loadProof_epoch e s = Inr p" "e = ?E \<longrightarrow> fp_Height p = fs_Height (ps_statistics s)"
    using proofs_ok_load [OF assms(1) eE(1,2)] by blast
  have m: "x mod g = 0 \<longleftrightarrow> unat x = k * unat g"
    using div_mult_mod_eq [of "unat x" "unat g"] unfolding k_def word_unat_eq_iff unat_mod unat_0 by linarith
  have "fp_Height p = x \<longleftrightarrow> x = 1 \<or> x mod g = 0"
  proof (cases "e = ?E")
    case True
    then have "Suc k = unat ?E" using e by (simp add: e_def)
    then have "(unat ?E - 1) * unat g = k * unat g" by auto
    moreover have "k * unat g \<le> unat x" by (simp add: k_def)
    ultimately show ?thesis using x(1) assms(6,8) p(2) True m by (auto simp: word_le_nat_alt word_unat_eq_iff)
  next
    case False
    then have "unat (fp_Height p) = (if e = 1 then 1 else k * unat g)" using assms(5) [OF eE(3) _ p(1)] eE(2) e by (auto simp: e_def)
    moreover have "e = 1 \<longleftrightarrow> k = 0" using e by (auto simp: e_def word_unat_eq_iff)
    moreover have "k = 0 \<Longrightarrow> unat x \<noteq> 0 \<and> x mod g \<noteq> 0" using m x(2) by auto
    moreover have "k \<noteq> 0 \<Longrightarrow> unat x \<noteq> 1" using g(1) by (auto simp: k_def)
    ultimately show ?thesis using m by (auto simp: word_unat_eq_iff)
  qed
  moreover have "ps_loadClosestProof x s = Inr p"
    using g(3) p2 h2 p(1) assms(3) by (auto simp: ps_loadClosestProof_def Let_def e_def)
  ultimately show ?thesis using p(1) assms(7,8) by (auto simp: ps_loadProof_height_def e_def not_less)
qed

definition saved_proofs :: FileProofStorage where
  "saved_proofs = projr (foldM ps_saveProof [sample_proof 2 5 4, sample_proof 3 1 6] sample_proofs)"

lemma saved_proofs_ok: "proofs_ok saved_proofs"
proof -
  define s1 where "s1 = projr (ps_saveProof (sample_proof 2 5 4) sample_proofs)"
  have "case ps_saveProof (sample_proof 2 5 4) sample_proofs of Inr _ \<Rightarrow> True | _ \<Rightarrow> False"
    "case ps_saveProof (sample_proof 3 1 6) s1 of Inr _ \<Rightarrow> True | _ \<Rightarrow> False"
    "fst (fs_Round (ps_statistics sample_proofs)) < - 1" "fst (fs_Round (ps_statistics s1)) < - 1"
    unfolding s1_def by code_simp+
  then obtain s2 where s: "ps_saveProof (sample_proof 2 5 4) sample_proofs = Inr s1" "ps_saveProof (sample_proof 3 1 6) s1 = Inr s2"
    "fst (fs_Round (ps_statistics sample_proofs)) < - 1" "fst (fs_Round (ps_statistics s1)) < - 1"
    by (auto simp: s1_def split: sum.splits)
  have "proofs_ok s1" using proof_storage_saves_aux [OF sample_proofs_ok s(3), of "sample_proof 2 5 4"] s(1) by simp
  then have "proofs_ok s2" using proof_storage_saves_aux [OF _ s(4), of "sample_proof 3 1 6"] s(2) by simp
  then show ?thesis using s(1,2) by (simp add: saved_proofs_def del: bind_result_Inr_iff)
qed

theorem proof_found_by_height_witness:
  "fs_Height (ps_statistics saved_proofs) = 6 \<and> ps_loadProof_epoch 3 saved_proofs = Inr (sample_proof 3 1 6)
    \<and> ps_loadProof_height 6 saved_proofs = Inr None \<and> ps_loadProof_height 4 saved_proofs = Inr (Some (sample_proof 2 5 4))"
proof -
  have st: "fs_Height (ps_statistics saved_proofs) = 6" "fst (fs_Round (ps_statistics saved_proofs)) = 3" by code_simp+
  have l: "ps_loadProof_epoch 1 saved_proofs = Inr (sample_proof 1 1 1)" "ps_loadProof_epoch 2 saved_proofs = Inr (sample_proof 2 5 4)"
    "ps_loadProof_epoch 3 saved_proofs = Inr (sample_proof 3 1 6)" by code_simp+
  have load: "unat (fp_Height p) = (if e = 1 then 1 else (unat e - 1) * unat (4 :: u64))"
    if "1 \<le> e" "e < fst (fs_Round (ps_statistics saved_proofs))" "ps_loadProof_epoch e saved_proofs = Inr p" for e p
  proof -
    have "unat e = 1 \<or> unat e = 2" using that(1,2) st(2) by (auto simp: word_less_nat_alt word_le_nat_alt)
    then have "e = 1 \<or> e = 2" by (auto simp: word_unat_eq_iff)
    then show ?thesis using that(3) l(1,2) by (auto simp: sample_proof_def CreateFinalizationProof_def)
  qed
  have found: "0 < x \<Longrightarrow> x \<le> 6 \<Longrightarrow> \<exists>p. ps_loadProof_epoch (ucast (x div 4 + 1)) saved_proofs = Inr p
      \<and> ps_loadProof_height x saved_proofs = Inr (if x = 1 \<or> x mod 4 = 0 then Some p else None)" for x
    by (rule proof_found_by_height [OF saved_proofs_ok _ _ _ load]) (simp_all add: st)
  have "(6 :: u64) mod 4 \<noteq> 0" "(4 :: u64) mod 4 = 0" "ucast ((4 :: u64) div 4 + 1) = (2 :: u32)" "(0 :: u64) < 6" "(6 :: u64) \<le> 6" "(0 :: u64) < 4" "(4 :: u64) \<le> 6"
    by code_simp+
  then have "ps_loadProof_height 6 saved_proofs = Inr None" "ps_loadProof_height 4 saved_proofs = Inr (Some (sample_proof 2 5 4))"
    using found [of 6] found [of 4] l(2) by auto
  then show ?thesis using st(1) l(3) by simp
qed

section \<open>Epochs and pulled proofs\<close>

text \<open>The epoch of a height, without wrap-around.\<close>

definition epoch_at :: "nat \<Rightarrow> nat \<Rightarrow> nat" where
  "epoch_at g h = (if h \<le> 1 then 1 else 2 + (h - 1) div g)"

lemma div_round_up: "0 < g \<Longrightarrow> 0 < h \<Longrightarrow> (if h mod g = 0 then 0 else 1) + h div g = Suc ((h - 1) div g)" for g h :: nat
  by (cases h) (auto simp: div_Suc)

lemma CalculateFinalizationEpochForHeight_nat:
  assumes "0 < h" and "0 < g" and "epoch_at (unat g) (unat h) < 2 ^ 32"
  shows "\<exists>e. CalculateFinalizationEpochForHeight h g = Inr e \<and> unat e = epoch_at (unat g) (unat h)"
proof (cases "h = 1")
  case True
  then show ?thesis using assms(2) by (auto simp: CalculateFinalizationEpochForHeight_def CheckParameters_height_def epoch_at_def)
next
  case False
  have pos: "0 < unat h" "0 < unat g" using assms(1,2) by (simp_all add: word_gt_0 unat_gt_0)
  then have "unat h \<noteq> 1" using False by (metis unat_1 word_unat_eq_iff)
  then have h: "\<not> h \<le> 1" "epoch_at (unat g) (unat h) = 1 + ((if unat h mod unat g = 0 then 0 else 1) + unat h div unat g)"
    using pos div_round_up [of "unat g" "unat h"] by (auto simp: epoch_at_def word_le_nat_alt)
  have m: "0 = h mod g \<longleftrightarrow> unat h mod unat g = 0" by (metis unat_eq_zero unat_mod)
  have "unat h div unat g < 2 ^ 32" using assms(3) h(2) by (auto split: if_splits)
  then have d: "unat (ucast (h div g) :: u32) = unat h div unat g" by (simp add: unsigned_ucast_eq unat_div take_bit_nat_eq_self_iff)
  show ?thesis using h assms m d
    by (auto simp: CalculateFinalizationEpochForHeight_def CheckParameters_height_def Let_def unat_word_ariths)
qed

lemma CalculateVotingSetEndHeight_nat:
  assumes "0 < e" and "0 < g" and "(unat e - 1) * unat g < 2 ^ 64"
  shows "\<exists>h. CalculateVotingSetEndHeight e g = Inr h \<and> unat h = (if unat e = 1 then 1 else (unat e - 1) * unat g)"
proof -
  have up: "unat (ucast w :: u64) = unat w" for w :: u32
    using unsigned_less [of w, where ?'a = nat] by (simp add: unsigned_ucast_eq take_bit_nat_eq_self_iff)
  have "unat (e - 1) = unat e - 1" using assms(1) by (simp add: unat_sub word_le_nat_alt word_gt_0 unat_gt_0 Suc_leI)
  moreover have "1 = e \<longleftrightarrow> unat e = 1" by (metis unat_1 word_unat_eq_iff)
  ultimately show ?thesis using assms
    by (auto simp: CalculateVotingSetEndHeight_def CheckParameters_epoch_def unat_word_ariths up)
qed

lemma epoch_at_next: "0 < g \<Longrightarrow> epoch_at g (f div g * g + g) = 2 + f div g" if "2 \<le> g" for f g :: nat
proof -
  have "f div g * g + g - 1 = (g - 1) + f div g * g" using that by simp
  then have "(f div g * g + g - 1) div g = f div g" using that div_mult_self1 [of g "g - 1" "f div g"] by simp
  moreover have "1 < f div g * g + g" using that by linarith
  ultimately show ?thesis by (simp add: epoch_at_def)
qed

lemma grouped_next:
  assumes "2 \<le> g" and "unat final + unat g + 1 < 2 ^ 64"
  shows "\<exists>n. CalculateGroupedHeight (final + g + 1) g = Inr n \<and> unat n = unat final div unat g * unat g + unat g"
proof -
  let ?g = "unat g" and ?f = "unat final"
  have g: "2 \<le> ?g" "0 < g" using assms(1) by (auto simp: word_le_nat_alt word_less_nat_alt)
  define n where "n = (final + g) div g * g"
  have "unat (final + g) = ?f + ?g" using assms(2) by (simp add: unat_word_ariths)
  then have "unat ((final + g) div g) = ?f div ?g + 1" using g by (simp add: unat_div)
  then have "unat ((final + g) div g) * unat g = ?f div ?g * ?g + ?g" by simp
  moreover have "?f div ?g * ?g \<le> ?f" by simp
  then have "?f div ?g * ?g + ?g < 2 ^ 64" using assms(2) by linarith
  ultimately have n: "unat n = ?f div ?g * ?g + ?g" by (simp add: n_def unat_word_ariths(2))
  then have "\<not> n < 1" using g(1) by (simp add: word_less_nat_alt)
  then show ?thesis using n g(2) by (simp add: CalculateGroupedHeight_def n_def)
qed

text \<open>The last final block ends its epoch when its height is a multiple of the grouping.\<close>

lemma round_up_exact: "0 < g \<Longrightarrow> 0 < f \<Longrightarrow> Suc ((f - 1) div g) * g = f \<longleftrightarrow> f mod g = 0" for f g :: nat
proof
  show "f mod g = 0" if "Suc ((f - 1) div g) * g = f" using that mod_mult_self2_is_0 [of "Suc ((f - 1) div g)" g] by simp
  show "Suc ((f - 1) div g) * g = f" if "0 < g" "0 < f" "f mod g = 0" using that div_round_up [of g f] div_mult_mod_eq [of f g] by simp
qed

lemma final_next_epoch:
  assumes "0 < final" and "2 \<le> g" and "unat final + unat g + 1 < 2 ^ 64" and "unat final div unat g + 3 < 2 ^ 32"
  shows "\<exists>e h. CalculateFinalizationEpochForHeight final g = Inr e \<and> CalculateVotingSetEndHeight e g = Inr h
    \<and> unat (if h \<noteq> final then e else e + 1) = epoch_at (unat g) (Suc (unat final))"
proof -
  let ?g = "unat g" and ?f = "unat final"
  have g: "2 \<le> ?g" "0 < g" using assms(2) by (auto simp: word_le_nat_alt word_less_nat_alt)
  have f: "0 < ?f" using assms(1) by (simp add: word_gt_0 unat_gt_0)
  have "epoch_at ?g ?f \<le> 2 + ?f div ?g" using f div_le_mono [of "?f - 1" ?f ?g] by (simp add: epoch_at_def)
  then obtain e where e: "CalculateFinalizationEpochForHeight final g = Inr e" "unat e = epoch_at ?g ?f"
    using CalculateFinalizationEpochForHeight_nat [of final g] assms(1,4) g by auto
  then have e0: "0 < e" by (auto simp: epoch_at_def word_gt_0 simp flip: unat_gt_0 split: if_splits)
  have "?g * ((?f - 1) div ?g) \<le> ?f" using times_div_less_eq_dividend [of ?g "?f - 1"] by linarith
  then have "(unat e - 1) * ?g \<le> ?f + ?g" using e(2) by (auto simp: epoch_at_def algebra_simps split: if_splits)
  then obtain h where h: "CalculateVotingSetEndHeight e g = Inr h" "unat h = (if unat e = 1 then 1 else (unat e - 1) * ?g)"
    using CalculateVotingSetEndHeight_nat [OF e0 g(2)] assms(3) by auto
  have "h = final \<longleftrightarrow> (if ?f = 1 then True else ?f mod ?g = 0)"
  proof (cases "?f = 1")
    case False
    then have "h = final \<longleftrightarrow> Suc ((?f - 1) div ?g) * ?g = ?f" using e(2) h(2) f by (simp add: epoch_at_def word_unat_eq_iff)
    then show ?thesis using False round_up_exact [of ?g ?f] g f by simp
  qed (use e(2) h(2) in \<open>simp add: epoch_at_def word_unat_eq_iff\<close>)
  then have "unat (if h \<noteq> final then e else e + 1) = epoch_at ?g (Suc ?f)"
    using div_round_up [of ?g ?f] e(2) assms(4) g f by (auto simp: epoch_at_def unat_word_ariths split: if_splits)
  then show ?thesis using e(1) h(1) by blast
qed

lemma request_epoch:
  assumes "0 < final" and "2 \<le> g" and "unat final + unat g + 1 < 2 ^ 64" and "unat final div unat g + 3 < 2 ^ 32"
  shows "\<exists>e. calculateRequestEpoch g duration chain final = Inr e \<and> (e = 0 \<or> unat e = epoch_at (unat g) (Suc (unat final)))"
proof -
  have g: "2 \<le> unat g" "0 < g" "0 < unat final" using assms(1,2) by (auto simp: word_le_nat_alt word_less_nat_alt word_gt_0 unat_gt_0)
  obtain n where n: "CalculateGroupedHeight (final + g + 1) g = Inr n" "unat n = unat final div unat g * unat g + unat g"
    using grouped_next [OF assms(2,3)] by blast
  then have ep: "epoch_at (unat g) (unat n) = epoch_at (unat g) (Suc (unat final))"
    using epoch_at_next [OF g(1)] g by (simp add: epoch_at_def)
  have "0 < n" using n(2) g by (metis add_gr_0 unat_gt_0 word_gt_0)
  then have "\<exists>e. CalculateFinalizationEpochForHeight n g = Inr e \<and> unat e = epoch_at (unat g) (Suc (unat final))"
    using CalculateFinalizationEpochForHeight_nat [of n g] g assms(4) ep by (simp add: epoch_at_def)
  then show ?thesis using n(1) final_next_epoch [OF assms] by (auto simp: calculateRequestEpoch_def simp del: bind_result_Inr_iff)
qed

text \<open>
  C30. A pull of a proof never moves a node back. It asks for the epoch of the first block that is not final. Either nothing changes; then the pull counts as a success
  only when the peer has returned a valid proof of an earlier round, which can come while the node itself moves on. Or the peer has
  returned a valid proof of that epoch with a higher block, which is now the last final block, the older proofs being kept, and the subscribers
  are notified; then the pull is a success when the notification returns, a failure when it throws a runtime error, and any other error of the notification
  is passed on, the proof being stored in every case.
\<close>

theorem proof_pull_advances:
  assumes "proofs_ok (fst sp)" and "fst (fs_Round (ps_statistics (fst sp))) < - 1"
    and "0 < fs_Height (ps_statistics (fst sp))" and "2 \<le> g"
    and "unat (fs_Height (ps_statistics (fst sp))) + unat g + 1 < 2 ^ 64" and "unat (fs_Height (ps_statistics (fst sp))) div unat g + 3 < 2 ^ 32"
    and "ProofSynchronizer subscriber g duration proofValidator peer_statistics peer_proofAt blocks sp = (code, events, s', pc')"
  shows "(s', pc') = sp \<and> events = [] \<and> (code = Inr Interaction_Success \<longrightarrow> (\<exists>e proof. peer_proofAt e = Inr proof \<and> proofValidator proof
        \<and> fp_Round proof < fs_Round (ps_statistics (fst sp))))
    \<or> (\<exists>e proof err. unat e = epoch_at (unat g) (Suc (unat (fs_Height (ps_statistics (fst sp)))))
        \<and> peer_proofAt e = Inr proof \<and> fst (fp_Round proof) = e \<and> proofValidator proof
        \<and> fs_Round (ps_statistics (fst sp)) \<le> fp_Round proof \<and> fs_Height (ps_statistics (fst sp)) < fp_Height proof
        \<and> proofs_ok s' \<and> ps_loadProof_epoch e s' = Inr proof \<and> fs_Height (ps_statistics s') = fp_Height proof
        \<and> (\<forall>e' < e. ps_loadProof_epoch e' s' = ps_loadProof_epoch e' (fst sp))
        \<and> adapter_notifyFinalizedBlock subscriber blocks (fp_Round proof) (fp_Height proof) (fp_Hash proof) (snd sp) = (err, events, pc')
        \<and> code = (case err of None \<Rightarrow> Inr Interaction_Success | Some er \<Rightarrow> if er = runtime_error then Inr Interaction_Failure else Inl er))"
proof -
  let ?h = "fs_Height (ps_statistics (fst sp))"
  obtain e where e: "calculateRequestEpoch g duration (view_chainHeight blocks) ?h = Inr e"
    "e = 0 \<or> unat e = epoch_at (unat g) (Suc (unat ?h))"
    using request_epoch [OF assms(3-6)] by blast
  show ?thesis
  proof (cases "e \<noteq> 0 \<and> (\<exists>proof. peer_proofAt e = Inr proof \<and> e = fst (fp_Round proof) \<and> ?h < fp_Height proof \<and> proofValidator proof
      \<and> (\<exists>err. aggregate_saveProof subscriber blocks proof sp = (err, events, s', pc')
        \<and> code = (case err of None \<Rightarrow> Inr Interaction_Success | Some er \<Rightarrow> if er = runtime_error then Inr Interaction_Failure else Inl er)))")
    case False
    then have "(s', pc') = sp \<and> events = [] \<and> code \<noteq> Inr Interaction_Success"
      using assms(7) e(1)
      by (auto simp: ProofSynchronizer_def Let_def proof_received_def not_le
          split: if_splits sum.splits option.splits prod.splits)
    then show ?thesis by simp
  next
    case True
    then obtain "proof" err where p: "peer_proofAt e = Inr proof" "e = fst (fp_Round proof)" "?h < fp_Height proof" "proofValidator proof"
      "aggregate_saveProof subscriber blocks proof sp = (err, events, s', pc')"
      "code = (case err of None \<Rightarrow> Inr Interaction_Success | Some er \<Rightarrow> if er = runtime_error then Inr Interaction_Failure else Inl er)" by blast
    show ?thesis
    proof (cases "fs_Round (ps_statistics (fst sp)) > fp_Round proof")
      case True
      then show ?thesis using p by (auto simp: aggregate_saveProof_def)
    next
      case False
      note saves = proof_storage_saves_aux [OF assms(1,2), of "proof"]
      show ?thesis
      proof (cases "ps_saveProof proof (fst sp)")
        case (Inl er)
        then show ?thesis using p False saves by (auto simp: aggregate_saveProof_def split: if_splits)
      next
        case (Inr s1)
        then have "s1 = s'" "adapter_notifyFinalizedBlock subscriber blocks (fp_Round proof) (fp_Height proof) (fp_Hash proof) (snd sp) = (err, events, pc')"
          using p(5) False by (auto simp: aggregate_saveProof_def split: prod.splits)
        then show ?thesis using saves Inr p e(2) True by (intro disjI2 exI [of _ e] exI [of _ "proof"] exI [of _ err]) auto
      qed
    qed
  qed
qed

definition ten_blocks :: "string BlockStorageCache" where
  "ten_blocks = \<lparr>cache_storage = sample_storage True, cache_staging = sample_storage False, cache_cachedData = Some (sample_element 10 1)\<rparr>"

definition sample_pull where
  "sample_pull subscriber = ProofSynchronizer subscriber 4 0 (\<lambda>_. True) (Inr \<lparr>fs_Round = (2, 3), fs_Height = 20, fs_Hash = []\<rparr>) (\<lambda>e. Inr (sample_proof e 3 20))
     ten_blocks (sample_proofs, \<lambda>_. None)"

theorem proof_pull_advances_witness:
  "\<exists>events s' pc'. sample_pull (\<lambda>_ _ _. Some runtime_error) = (Inr Interaction_Failure, events, s', pc')
    \<and> ps_loadProof_epoch 2 s' = Inr (sample_proof 2 3 20) \<and> fs_Height (ps_statistics s') = 20"
proof -
  have st: "fs_Round (ps_statistics sample_proofs) = (1, 1)" "fs_Height (ps_statistics sample_proofs) = 1"
    by (simp_all add: ps_statistics_def sample_proofs_def)
  have "case sample_pull (\<lambda>_ _ _. Some runtime_error) of (code, events, _) \<Rightarrow> code = Inr Interaction_Failure \<and> events \<noteq> []" by code_simp
  then obtain events s' pc' where r: "sample_pull (\<lambda>_ _ _. Some runtime_error) = (Inr Interaction_Failure, events, s', pc')" "events \<noteq> []" by (auto split: prod.splits)
  have lt: "(1 :: FinalizationEpoch) < - 1" by code_simp
  have p: "fp_Round (sample_proof e 3 20) = (e, 3)" "fp_Height (sample_proof e 3 20) = 20" for e
    by (simp_all add: sample_proof_def CreateFinalizationProof_def)
  have "unat e = 2 \<Longrightarrow> e = 2" for e :: FinalizationEpoch by (simp add: word_unat_eq_iff)
  then show ?thesis
    using proof_pull_advances [of "(sample_proofs, \<lambda>_. None)" 4, OF _ _ _ _ _ _ r(1) [unfolded sample_pull_def]] sample_proofs_ok st lt r p
    by (auto simp: epoch_at_def)
qed

end
