(* ===== verification/Finalization_Voting.thy ===== *)
theory Finalization_Voting
  imports Finalization_Storage
begin

text \<open>
  How a node votes: the aggregators of all open rounds (\<^verbatim>\<open>extensions/finalization/src/chain/MultiRoundMessageAggregator.cpp\<close>),
  when a stage of a round may be entered (\<^verbatim>\<open>FinalizationStageAdvancer.cpp\<close>), the votes a node makes
  (\<^verbatim>\<open>FinalizationMessageFactory.cpp\<close>), the orchestrator that sends them and the finalizer (\<^verbatim>\<open>FinalizationOrchestrator.cpp\<close>), and the
  task that runs both (\<^verbatim>\<open>FinalizationOrchestratorService.cpp\<close>, \<^verbatim>\<open>VotingStatusFile.cpp\<close>).

  Messages of other voters, proofs and blocks arrive on other threads while the task runs. Every access of the task to this shared
  state is under a lock; between two accesses the state changes arbitrarily, which is the argument \<open>threads\<close> of the operations that make
  several accesses: the \<open>i\<close>-th of these changes.

  The operations of the orchestrator, the finalizer and the task return the error with which they throw, if they do, beside the votes that are out by then
  and the state they leave: the voting status is changed in place, and the files that have been written stay. Nothing catches an error of the task, so that it
  ends the process. A signature that throws leaves the key trees of the model as they were before it; writing a file never throws.
\<close>

section \<open>The aggregators of all rounds\<close>

record MultiRoundMessageAggregator =
  mr_MaxResponseSize :: u64
  mr_MinFinalizationRound :: FinalizationRound
  mr_MaxFinalizationRound :: FinalizationRound
  mr_PreviousFinalizedHeightHashPair :: HeightHashPair
  mr_RoundMessageAggregators :: "(FinalizationRound, RoundMessageAggregator) omap"

definition MultiRoundMessageAggregator_new :: "u64 \<Rightarrow> FinalizationRound \<Rightarrow> HeightHashPair \<Rightarrow> MultiRoundMessageAggregator" where
  "MultiRoundMessageAggregator_new maxResponseSize r previous = \<lparr>mr_MaxResponseSize = maxResponseSize, mr_MinFinalizationRound = r,
     mr_MaxFinalizationRound = r, mr_PreviousFinalizedHeightHashPair = previous, mr_RoundMessageAggregators = []\<rparr>"

definition mr_tryGetRoundContext :: "FinalizationRound \<Rightarrow> MultiRoundMessageAggregator \<Rightarrow> RoundContext option" where
  "mr_tryGetRoundContext r mr = map_option ra_roundContext (map_of (mr_RoundMessageAggregators mr) r)"

fun findEstimate_loop :: "FinalizationRound \<Rightarrow> HeightHashPair \<Rightarrow> (FinalizationRound \<times> RoundMessageAggregator) list \<Rightarrow> HeightHashPair" where
  "findEstimate_loop r previous [] = previous"
| "findEstimate_loop r previous ((key, ra) # rest) =
    (if key > r then findEstimate_loop r previous rest
     else case tryFindEstimate (ra_roundContext ra) of Some e \<Rightarrow> e | None \<Rightarrow> findEstimate_loop r previous rest)"

definition mr_findEstimate :: "FinalizationRound \<Rightarrow> MultiRoundMessageAggregator \<Rightarrow> HeightHashPair" where
  "mr_findEstimate r mr = findEstimate_loop r (mr_PreviousFinalizedHeightHashPair mr) (rev (mr_RoundMessageAggregators mr))"

record BestPrecommitDescriptor =
  bp_Round :: FinalizationRound
  bp_Target :: HeightHashPair
  bp_Proof :: "FinalizationMessage list"

fun findBestPrecommit_loop where
  "findBestPrecommit_loop order [] = \<lparr>bp_Round = (0, 0), bp_Target = (0, replicate 32 0), bp_Proof = []\<rparr>"
| "findBestPrecommit_loop order ((key, ra) # rest) =
    (case tryFindBestPrecommit (ra_roundContext ra) of
      Some target \<Rightarrow> \<lparr>bp_Round = key, bp_Target = target, bp_Proof = ra_unknownMessages order {} ra\<rparr>
    | None \<Rightarrow> findBestPrecommit_loop order rest)"

type_synonym message_order = "(MessageKey \<times> MessageDescriptor) list \<Rightarrow> (MessageKey \<times> MessageDescriptor) list"

definition mr_tryFindBestPrecommit :: "message_order \<Rightarrow> MultiRoundMessageAggregator \<Rightarrow> BestPrecommitDescriptor" where
  "mr_tryFindBestPrecommit order mr = findBestPrecommit_loop order (rev (mr_RoundMessageAggregators mr))"

definition mr_shortHashes where
  "mr_shortHashes order mr = concat (map (\<lambda>(_, ra). ra_shortHashes order ra) (mr_RoundMessageAggregators mr))"

fun collect_messages :: "u64 \<Rightarrow> u64 \<Rightarrow> FinalizationMessage list \<Rightarrow> FinalizationMessage list" where
  "collect_messages maxSize totalSize [] = []"
| "collect_messages maxSize totalSize (m # ms) =
    (let totalSize' = totalSize + ucast (fm_Size m) in if totalSize' > maxSize then [] else m # collect_messages maxSize totalSize' ms)"

definition mr_unknownMessages where
  "mr_unknownMessages order roundRange known mr =
    collect_messages (mr_MaxResponseSize mr) 0
      (concat (map (\<lambda>(key, ra). if IsInRange (fst roundRange) (snd roundRange) key then ra_unknownMessages order known ra else [])
        (mr_RoundMessageAggregators mr)))"

definition mr_setMaxFinalizationRound :: "FinalizationRound \<Rightarrow> MultiRoundMessageAggregator \<Rightarrow> MultiRoundMessageAggregator result" where
  "mr_setMaxFinalizationRound r mr =
    (if mr_MinFinalizationRound mr > r then Inl invalid_argument else Inr (mr\<lparr>mr_MaxFinalizationRound := r\<rparr>))"

text \<open>The factory makes the aggregator of a round; it throws for an epoch whose voters are not known yet.\<close>

definition mr_add where
  "mr_add sha3 vfy factory m mr =
    (let messageRound = step_Round (fm_StepIdentifier m)
     in if mr_MinFinalizationRound mr > messageRound \<or> mr_MaxFinalizationRound mr < messageRound then Inr (Failure_Invalid_Point, mr)
        else bind_result (case map_of (mr_RoundMessageAggregators mr) messageRound of Some ra \<Rightarrow> Inr ra | None \<Rightarrow> factory messageRound) (\<lambda>ra.
          bind_result (ra_add sha3 vfy m ra) (\<lambda>(addResult, ra').
            Inr (addResult, mr\<lparr>mr_RoundMessageAggregators := omap_put messageRound ra' (mr_RoundMessageAggregators mr)\<rparr>))))"

definition mr_prune :: "FinalizationEpoch \<Rightarrow> MultiRoundMessageAggregator \<Rightarrow> MultiRoundMessageAggregator" where
  "mr_prune epoch mr =
    (let rest = dropWhile (\<lambda>(key, _). key < (epoch, 0)) (mr_RoundMessageAggregators mr)
     in mr\<lparr>mr_RoundMessageAggregators := rest,
          mr_MinFinalizationRound := (case rest of [] \<Rightarrow> mr_MaxFinalizationRound mr | (key, _) # _ \<Rightarrow> key)\<rparr>)"

section \<open>The stages of a round\<close>

type_synonym Timestamp = u64

record FinalizationStageAdvancer =
  sa_round :: FinalizationRound
  sa_startTime :: Timestamp
  sa_stepDuration :: u64

definition isElapsed :: "FinalizationStageAdvancer \<Rightarrow> Timestamp \<Rightarrow> u64 \<Rightarrow> bool" where
  "isElapsed sa time numSteps \<longleftrightarrow> time \<ge> sa_startTime sa + numSteps * sa_stepDuration sa"

definition canSendPrevote :: "FinalizationStageAdvancer \<Rightarrow> Timestamp \<Rightarrow> MultiRoundMessageAggregator \<Rightarrow> bool" where
  "canSendPrevote sa time mr \<longleftrightarrow> isElapsed sa time 1
    \<or> (case mr_tryGetRoundContext (sa_round sa) mr of None \<Rightarrow> False | Some rc \<Rightarrow> isCompletable rc)"

definition canSendPrecommit :: "FinalizationStageAdvancer \<Rightarrow> Timestamp \<Rightarrow> MultiRoundMessageAggregator \<Rightarrow> HeightHashPair option" where
  "canSendPrecommit sa time mr =
    (case mr_tryGetRoundContext (sa_round sa) mr of
      None \<Rightarrow> None
    | Some rc \<Rightarrow>
        (case tryFindBestPrevote rc of
          None \<Rightarrow> None
        | Some best \<Rightarrow>
            if \<not> round_isDescendant rc (mr_findEstimate (round_minus (sa_round sa) 1) mr) best then None
            else if \<not> isElapsed sa time 2 \<and> \<not> isCompletable rc then None
            else Some best))"

definition canStartNextRound :: "FinalizationStageAdvancer \<Rightarrow> MultiRoundMessageAggregator \<Rightarrow> bool" where
  "canStartNextRound sa mr \<longleftrightarrow> (case mr_tryGetRoundContext (sa_round sa) mr of None \<Rightarrow> False | Some rc \<Rightarrow> isCompletable rc)"

section \<open>The votes of a node\<close>

text \<open>\<^verbatim>\<open>Clamp\<close> divides by the configured multiple of blocks.\<close>

definition prevote_Clamp :: "u64 \<Rightarrow> u16 \<Rightarrow> u64 \<Rightarrow> u64 result" where
  "prevote_Clamp v multiple adjustment =
    (if 0 = multiple then Inl undefined_behaviour
     else Inr (if 0 = v mod ucast multiple then v else (v div ucast multiple + adjustment) * ucast multiple))"

definition prevote_numHashes :: "FinalizationConfiguration \<Rightarrow> FinalizationEpoch \<Rightarrow> Height \<Rightarrow> Height \<Rightarrow> u64 result" where
  "prevote_numHashes config epoch chainHeight startHeight =
    (let multiple = cfg_PrevoteBlocksMultiple config;
         maxPrevoteHashHeight = (if chainHeight \<ge> ucast multiple then chainHeight - ucast multiple else chainHeight)
     in bind_result (CalculateVotingSetEndHeight epoch (cfg_VotingSetGrouping config)) (\<lambda>maxVotingSetHeight.
        let maxPrevoteHashHeight = (if maxPrevoteHashHeight > maxVotingSetHeight then maxVotingSetHeight else maxPrevoteHashHeight)
        in bind_result (prevote_Clamp maxPrevoteHashHeight multiple 0) (\<lambda>clampedChainHeight.
           let numHashes = (if clampedChainHeight > startHeight then clampedChainHeight - startHeight + 1 else 1)
           in if numHashes > ucast (cfg_MaxHashesPerPoint config)
              then bind_result (prevote_Clamp (numHashes - ucast (cfg_MaxHashesPerPoint config)) multiple 1) (\<lambda>excess. Inr (numHashes - excess))
              else Inr numHashes)))"

definition loadPrevoteHashChain where
  "loadPrevoteHashChain config r startHeight blocks pc =
    (case bind_result (prevote_numHashes config (fst r) (view_chainHeight blocks) startHeight) (\<lambda>numHashes.
        view_loadHashesFrom startHeight (unat numHashes) blocks) of
      Inl e \<Rightarrow> (Inl e, pc)
    | Inr hashRange \<Rightarrow>
        (let (err, pc') = pc_save blocks \<lparr>pcd_Round = r, pcd_Height = startHeight, pcd_HashesCount = length hashRange\<rparr> pc
         in (case err of None \<Rightarrow> Inr hashRange | Some e \<Rightarrow> Inl e, pc')))"

definition createPrevote where
  "createPrevote config signer r blocks fstats keyTree pc =
    (let (loaded, pc') = loadPrevoteHashChain config r (fs_Height fstats) blocks pc
     in (bind_result loaded (\<lambda>hashRange.
           let hashRange = (if hashRange = [] then [fs_Hash fstats] else hashRange)
           in PrepareMessage signer (StepIdentifier_new (fst r) (snd r) Stage_Prevote) (fs_Height fstats) hashRange keyTree), pc'))"

definition createPrecommit where
  "createPrecommit signer r height hash keyTree =
    PrepareMessage signer (StepIdentifier_new (fst r) (snd r) Stage_Precommit) height [hash] keyTree"

section \<open>The orchestrator\<close>

record VotingStatus =
  vs_Round :: FinalizationRound
  vs_HasSentPrevote :: bool
  vs_HasSentPrecommit :: bool

definition ClearFlags :: "VotingStatus \<Rightarrow> VotingStatus" where
  "ClearFlags v = v\<lparr>vs_HasSentPrevote := False, vs_HasSentPrecommit := False\<rparr>"

text \<open>What the task shares with the other threads of the node.\<close>

record 's finalization_world =
  fw_aggregator :: MultiRoundMessageAggregator
  fw_proofs :: FileProofStorage
  fw_prevoteChains :: "'s prevote_chains"
  fw_blocks :: "'s BlockStorageCache"

record FinalizationOrchestrator =
  fo_votingStatus :: VotingStatus
  fo_pStageAdvancer :: "FinalizationStageAdvancer option"
  fo_bmPrivateKeyTree :: AggregateBmPrivateKeyTree

definition FinalizationOrchestrator_new :: "VotingStatus \<Rightarrow> AggregateBmPrivateKeyTree \<Rightarrow> FinalizationOrchestrator" where
  "FinalizationOrchestrator_new status keyTree = \<lparr>fo_votingStatus = status, fo_pStageAdvancer = None, fo_bmPrivateKeyTree = keyTree\<rparr>"

definition fo_setEpoch :: "FinalizationEpoch \<Rightarrow> FinalizationOrchestrator \<Rightarrow> FinalizationOrchestrator result" where
  "fo_setEpoch epoch fo =
    (if epoch < fst (vs_Round (fo_votingStatus fo)) then Inl invalid_argument
     else if epoch = fst (vs_Round (fo_votingStatus fo)) then Inr fo
     else Inr (fo\<lparr>fo_votingStatus := ClearFlags ((fo_votingStatus fo)\<lparr>vs_Round := (epoch, 1)\<rparr>), fo_pStageAdvancer := None\<rparr>))"

definition fo_startRound :: "u64 \<Rightarrow> Timestamp \<Rightarrow> FinalizationOrchestrator \<Rightarrow> FinalizationOrchestrator" where
  "fo_startRound stepDuration time fo = fo\<lparr>fo_pStageAdvancer :=
     Some \<lparr>sa_round = vs_Round (fo_votingStatus fo), sa_startTime = time, sa_stepDuration = stepDuration\<rparr>\<rparr>"

text \<open>\<^verbatim>\<open>process\<close>: the messages that go to the sink. The predicate looks up the voters of the epoch, which throws when the block that fixes them is missing.\<close>

definition fo_process :: "(FinalizationMessage \<Rightarrow> bool result) \<Rightarrow> FinalizationMessage option \<Rightarrow> catapult_error option \<times> FinalizationMessage list" where
  "fo_process messagePredicate pMessage =
    (case pMessage of None \<Rightarrow> (None, [])
     | Some m \<Rightarrow> (case messagePredicate m of Inl e \<Rightarrow> (Some e, []) | Inr ok \<Rightarrow> (None, if ok then [m] else [])))"

definition poll_prevote where
  "poll_prevote config signer messagePredicate time sa w fo =
    (if \<not> vs_HasSentPrevote (fo_votingStatus fo) \<and> canSendPrevote sa time (fw_aggregator w)
     then (case createPrevote config signer (vs_Round (fo_votingStatus fo)) (fw_blocks w) (ps_statistics (fw_proofs w))
         (fo_bmPrivateKeyTree fo) (fw_prevoteChains w) of
         (Inl e, pc') \<Rightarrow> (Some e, [], w\<lparr>fw_prevoteChains := pc'\<rparr>, fo)
       | (Inr (m, keyTree'), pc') \<Rightarrow>
           (let (err, sent) = fo_process messagePredicate m; fo = fo\<lparr>fo_bmPrivateKeyTree := keyTree'\<rparr>
            in (err, sent, w\<lparr>fw_prevoteChains := pc'\<rparr>,
                if err = None then fo\<lparr>fo_votingStatus := (fo_votingStatus fo)\<lparr>vs_HasSentPrevote := True\<rparr>\<rparr> else fo)))
     else (None, [], w, fo))"

definition poll_precommit where
  "poll_precommit signer messagePredicate time sa w fo =
    (case (if vs_HasSentPrecommit (fo_votingStatus fo) then None else canSendPrecommit sa time (fw_aggregator w)) of
      None \<Rightarrow> (None, [], fo)
    | Some target \<Rightarrow>
        (case createPrecommit signer (vs_Round (fo_votingStatus fo)) (fst target) (snd target) (fo_bmPrivateKeyTree fo) of
          Inl e \<Rightarrow> (Some e, [], fo)
        | Inr (m, keyTree') \<Rightarrow>
            (let (err, sent) = fo_process messagePredicate m; fo = fo\<lparr>fo_bmPrivateKeyTree := keyTree'\<rparr>
             in (err, sent, if err = None then fo\<lparr>fo_votingStatus := (fo_votingStatus fo)\<lparr>vs_HasSentPrecommit := True\<rparr>\<rparr> else fo))))"

definition poll_next :: "FinalizationConfiguration \<Rightarrow> Timestamp \<Rightarrow> FinalizationStageAdvancer \<Rightarrow> MultiRoundMessageAggregator \<Rightarrow> FinalizationOrchestrator \<Rightarrow> FinalizationOrchestrator" where
  "poll_next config time sa mr fo =
    (if vs_HasSentPrecommit (fo_votingStatus fo) \<and> canStartNextRound sa mr
     then fo_startRound (cfg_StepDuration config) time
       (fo\<lparr>fo_votingStatus := ClearFlags ((fo_votingStatus fo)\<lparr>vs_Round := round_plus (vs_Round (fo_votingStatus fo)) 1\<rparr>)\<rparr>)
     else fo)"

definition fo_poll where
  "fo_poll config signer messagePredicate time threads w fo =
    (let fo = (if fo_pStageAdvancer fo = None then fo_startRound (cfg_StepDuration config) time fo else fo);
         sa = the (fo_pStageAdvancer fo);
         (err1, sent1, w, fo) = poll_prevote config signer messagePredicate time sa (threads 0 w) fo
     in if err1 \<noteq> None then (err1, sent1, w, fo)
        else let w = threads 1 w; (err2, sent2, fo) = poll_precommit signer messagePredicate time sa w fo
             in if err2 \<noteq> None then (err2, sent1 @ sent2, w, fo)
                else let w = threads 2 w in (None, sent1 @ sent2, w, poll_next config time sa (fw_aggregator w) fo))"

section \<open>The finalizer\<close>

definition Finalizer where
  "Finalizer subscriber order w =
    (let descriptor = mr_tryFindBestPrecommit order (fw_aggregator w); bestPrecommitRound = bp_Round descriptor
     in if (0, 0) = bestPrecommitRound then (None, [], w)
        else if fs_Height (ps_statistics (fw_proofs w)) = fst (bp_Target descriptor) then (None, [], w)
        else let fstats = \<lparr>fs_Round = bestPrecommitRound, fs_Height = fst (bp_Target descriptor), fs_Hash = snd (bp_Target descriptor)\<rparr>;
                 pProof = CreateFinalizationProof fstats (bp_Proof descriptor);
                 (err, events, s', pc') = aggregate_saveProof subscriber (fw_blocks w) pProof (fw_proofs w, fw_prevoteChains w);
                 w = w\<lparr>fw_proofs := s', fw_prevoteChains := pc'\<rparr>
             in (err, events, if err = None then w\<lparr>fw_aggregator := mr_prune (fst bestPrecommitRound - 1) (fw_aggregator w)\<rparr> else w))"

section \<open>The task\<close>

datatype EpochStatus = Epoch_Continue | Epoch_Wait | Epoch_Advance

definition calculateEpochStatus where
  "calculateEpochStatus votingSetGrouping epoch fstats blocks =
    (let isStorageEpochAhead = fst (fs_Round fstats) > epoch
     in bind_result (CalculateVotingSetEndHeight epoch votingSetGrouping) (\<lambda>votingSetEndHeight.
        if \<not> isStorageEpochAhead \<and> fs_Height fstats \<noteq> votingSetEndHeight then Inr (Epoch_Continue, 0)
        else if view_chainHeight blocks < fs_Height fstats then Inr (Epoch_Wait, 0)
        else bind_result (view_loadHashesFrom (fs_Height fstats) 1 blocks) (\<lambda>hashes.
          case hashes of [] \<Rightarrow> Inl undefined_behaviour
          | localBlockHash # _ \<Rightarrow> Inr (if localBlockHash \<noteq> fs_Hash fstats then (Epoch_Wait, 0)
              else (Epoch_Advance, fst (fs_Round fstats) + 1)))))"

text \<open>The file of the voting status, and the status that a node starts with.\<close>

definition VotingStatusFile_load :: "bytes option \<Rightarrow> VotingStatus result" where
  "VotingStatusFile_load f =
    (case f of
      None \<Rightarrow> Inr \<lparr>vs_Round = (2, 1), vs_HasSentPrevote = False, vs_HasSentPrecommit = False\<rparr>
    | Some bs \<Rightarrow> if length bs < 10 then Inl runtime_error
        else Inr \<lparr>vs_Round = (le_word (take 4 bs), le_word (take 4 (drop 4 bs))), vs_HasSentPrevote = (bs ! 8 \<noteq> 0), vs_HasSentPrecommit = (bs ! 9 \<noteq> 0)\<rparr>)"

definition VotingStatusFile_save :: "VotingStatus \<Rightarrow> bytes option" where
  "VotingStatusFile_save v = Some (le_bytes 4 (fst (vs_Round v)) @ le_bytes 4 (snd (vs_Round v))
     @ [if vs_HasSentPrevote v then 1 else 0] @ [if vs_HasSentPrecommit v then 1 else 0])"

definition LoadVotingStatusFromStorage :: "FileProofStorage \<Rightarrow> VotingStatus" where
  "LoadVotingStatusFromStorage s = \<lparr>vs_Round = (fst (fs_Round (ps_statistics s)), snd (fs_Round (ps_statistics s)) + 1),
     vs_HasSentPrevote = False, vs_HasSentPrecommit = False\<rparr>"

record BootstrapperFacade =
  bf_orchestrator :: FinalizationOrchestrator
  bf_votingStatusFile :: "bytes option"

definition BootstrapperFacade_new :: "FinalizationConfiguration \<Rightarrow> FileProofStorage \<Rightarrow> AggregateBmPrivateKeyTree \<Rightarrow> bytes option \<Rightarrow> BootstrapperFacade result" where
  "BootstrapperFacade_new config s keyTree f =
    bind_result (if cfg_EnableRevoteOnBoot config then Inr (LoadVotingStatusFromStorage s) else VotingStatusFile_load f) (\<lambda>status.
      Inr \<lparr>bf_orchestrator = FinalizationOrchestrator_new status keyTree, bf_votingStatusFile = f\<rparr>)"

definition facade_poll :: "FinalizationConfiguration \<Rightarrow> (Key \<Rightarrow> Key \<Rightarrow> bytes \<Rightarrow> bytes) \<Rightarrow> (FinalizationMessage \<Rightarrow> bool result)
    \<Rightarrow> finalization_subscriber \<Rightarrow> message_order \<Rightarrow> Timestamp \<Rightarrow> (nat \<Rightarrow> 's finalization_world \<Rightarrow> 's finalization_world)
    \<Rightarrow> 's finalization_world \<Rightarrow> BootstrapperFacade
    \<Rightarrow> catapult_error option \<times> FinalizationMessage list \<times> finalization_event list \<times> 's finalization_world \<times> BootstrapperFacade" where
  "facade_poll config signer messagePredicate subscriber order time threads w bf =
    (case calculateEpochStatus (cfg_VotingSetGrouping config) (fst (vs_Round (fo_votingStatus (bf_orchestrator bf))))
        (ps_statistics (fw_proofs w)) (fw_blocks w) of
      Inl e \<Rightarrow> (Some e, [], [], w, bf)
    | Inr (status, newEpoch) \<Rightarrow>
        if status = Epoch_Wait then (None, [], [], w, bf)
        else (case (if status = Epoch_Advance then fo_setEpoch newEpoch (bf_orchestrator bf) else Inr (bf_orchestrator bf)) of
          Inl e \<Rightarrow> (Some e, [], [], w, bf)
        | Inr fo \<Rightarrow>
            (let w = threads 0 w; orchestratorRound = vs_Round (fo_votingStatus fo)
             in case (if orchestratorRound > mr_MaxFinalizationRound (fw_aggregator w)
                   then mr_setMaxFinalizationRound orchestratorRound (fw_aggregator w) else Inr (fw_aggregator w)) of
                  Inl e \<Rightarrow> (Some e, [], [], w, bf\<lparr>bf_orchestrator := fo\<rparr>)
                | Inr mr \<Rightarrow>
                    (let (err, sent, w, fo) = fo_poll config signer messagePredicate time (\<lambda>i. threads (Suc i)) (w\<lparr>fw_aggregator := mr\<rparr>) fo
                     in if err \<noteq> None then (err, sent, [], w, bf\<lparr>bf_orchestrator := fo\<rparr>)
                        else let bf = bf\<lparr>bf_orchestrator := fo, bf_votingStatusFile := VotingStatusFile_save (fo_votingStatus fo)\<rparr>;
                                 (err, events, w) = Finalizer subscriber order (threads 4 w)
                             in (err, sent, events, w, bf)))))"

section \<open>Voting once\<close>

unbundle bit_operations_syntax

lemma StepIdentifier_new_round:
  assumes "unat p < 2 ^ 31" and "stage = Stage_Prevote \<or> stage = Stage_Precommit"
  shows "step_Round (StepIdentifier_new e p stage) = (e, p)" and "step_Stage (StepIdentifier_new e p stage) = stage"
proof -
  have "p div 2 ^ 31 = 0" using assms(1) by (simp add: word_unat_eq_iff unat_div)
  then have p: "\<not> bit p 31" by (simp add: bit_iff_odd)
  have "drop_bit 1 (push_bit 1 p OR (stage AND 1)) = p"
  proof (rule bit_word_eqI)
    fix i assume "i < LENGTH(32)"
    then show "bit (drop_bit 1 (push_bit 1 p OR (stage AND 1))) i = bit p i"
      unfolding bit_drop_bit_eq comp_def bit_or_iff bit_and_iff bit_push_bit_iff bit_1_iff
      using p by (cases "i = 31") auto
  qed
  then show "step_Round (StepIdentifier_new e p stage) = (e, p)" by (simp only: step_Round_def StepIdentifier_new_def StepIdentifier.simps)
  have "(push_bit 1 p OR (stage AND 1)) AND 1 = stage AND 1"
    by (rule bit_word_eqI) (unfold bit_or_iff bit_and_iff bit_push_bit_iff bit_1_iff, auto)
  then show "step_Stage (StepIdentifier_new e p stage) = stage"
    using assms(2) by (auto simp only: step_Stage_def StepIdentifier_new_def StepIdentifier.simps) (auto simp: Stage_Prevote_def Stage_Precommit_def)
qed

definition voted :: "VotingStatus \<Rightarrow> FinalizationMessage \<Rightarrow> bool" where
  "voted v m \<longleftrightarrow> step_Round (fm_StepIdentifier m) < vs_Round v
    \<or> step_Round (fm_StepIdentifier m) = vs_Round v \<and> (if IsPrevote m then vs_HasSentPrevote v else vs_HasSentPrecommit v)"

definition voted_once :: "VotingStatus \<Rightarrow> FinalizationMessage list \<Rightarrow> bool" where
  "voted_once v sent \<longleftrightarrow> distinct (map fm_StepIdentifier sent) \<and> list_all (voted v) sent"

lemma PrepareMessage_step: "PrepareMessage signer si height hashes a = Inr (Some m, a') \<Longrightarrow> fm_StepIdentifier m = si"
  by (auto simp: PrepareMessage_def Let_def split: if_splits prod.splits)

lemma voted_once_snoc:
  assumes "voted_once v sent" and "step_Round (fm_StepIdentifier m) = vs_Round v" and "\<not> (if IsPrevote m then vs_HasSentPrevote v else vs_HasSentPrecommit v)"
    and "vs_Round v' = vs_Round v" and "vs_HasSentPrevote v' \<longleftrightarrow> vs_HasSentPrevote v \<or> IsPrevote m"
    and "vs_HasSentPrecommit v' \<longleftrightarrow> vs_HasSentPrecommit v \<or> \<not> IsPrevote m"
  shows "voted_once v' (sent @ [m])"
proof -
  have "fm_StepIdentifier m \<noteq> fm_StepIdentifier m'" if "m' \<in> set sent" for m'
    using that assms(1-3) by (auto simp: voted_once_def list_all_iff voted_def IsPrevote_def)
  moreover have "voted v' m'" if "m' \<in> set sent" for m'
    using that assms by (auto simp: voted_once_def list_all_iff voted_def split: if_splits)
  ultimately show ?thesis using assms(1-6) by (auto simp: voted_once_def list_all_iff voted_def split: if_splits)
qed

lemma voted_once_flag: "voted_once v sent \<Longrightarrow> vs_Round v' = vs_Round v \<Longrightarrow> vs_HasSentPrevote v \<longrightarrow> vs_HasSentPrevote v'
    \<Longrightarrow> vs_HasSentPrecommit v \<longrightarrow> vs_HasSentPrecommit v' \<Longrightarrow> voted_once v' sent"
  by (auto simp: voted_once_def list_all_iff voted_def split: if_splits)

lemma voted_once_round: "voted_once v sent \<Longrightarrow> vs_Round v < vs_Round v' \<Longrightarrow> voted_once v' sent"
  by (fastforce simp: voted_once_def list_all_iff voted_def)

lemma fo_process_cases:
  "fo_process messagePredicate pMessage = (err, sent) \<Longrightarrow> sent = [] \<or> err = None \<and> (\<exists>m. pMessage = Some m \<and> sent = [m])"
  by (auto simp: fo_process_def split: option.splits sum.splits if_splits)

lemma poll_prevote_once:
  assumes "poll_prevote config signer messagePredicate time sa w fo = (err, new, w', fo')" and "voted_once (fo_votingStatus fo) sent"
    and "unat (snd (vs_Round (fo_votingStatus fo))) < 2 ^ 31"
  shows "voted_once (fo_votingStatus fo') (sent @ new) \<and> vs_Round (fo_votingStatus fo') = vs_Round (fo_votingStatus fo)"
proof (cases "new = []")
  case True
  then show ?thesis using assms(1,2) voted_once_flag [OF assms(2), of "fo_votingStatus fo'"]
    by (auto simp: poll_prevote_def Let_def split: if_splits prod.splits sum.splits)
next
  case False
  then obtain m keyTree' pc' where m: "new = [m]" "\<not> vs_HasSentPrevote (fo_votingStatus fo)"
    "createPrevote config signer (vs_Round (fo_votingStatus fo)) (fw_blocks w) (ps_statistics (fw_proofs w)) (fo_bmPrivateKeyTree fo) (fw_prevoteChains w)
      = (Inr (Some m, keyTree'), pc')" "fo_votingStatus fo' = (fo_votingStatus fo)\<lparr>vs_HasSentPrevote := True\<rparr>"
    using assms(1) by (auto simp: poll_prevote_def Let_def dest: fo_process_cases split: if_splits prod.splits sum.splits)
  then have "fm_StepIdentifier m = StepIdentifier_new (fst (vs_Round (fo_votingStatus fo))) (snd (vs_Round (fo_votingStatus fo))) Stage_Prevote"
    by (auto simp: createPrevote_def Let_def dest: PrepareMessage_step split: prod.splits)
  then have "step_Round (fm_StepIdentifier m) = vs_Round (fo_votingStatus fo)" "IsPrevote m"
    using StepIdentifier_new_round [OF assms(3)] by (simp_all add: IsPrevote_def)
  then show ?thesis using voted_once_snoc [OF assms(2), of m "fo_votingStatus fo'"] m by simp
qed

lemma poll_precommit_once:
  assumes "poll_precommit signer messagePredicate time sa w fo = (err, new, fo')" and "voted_once (fo_votingStatus fo) sent"
    and "unat (snd (vs_Round (fo_votingStatus fo))) < 2 ^ 31"
  shows "voted_once (fo_votingStatus fo') (sent @ new) \<and> vs_Round (fo_votingStatus fo') = vs_Round (fo_votingStatus fo)"
proof (cases "new = []")
  case True
  then show ?thesis using assms(1,2) voted_once_flag [OF assms(2), of "fo_votingStatus fo'"]
    by (auto simp: poll_precommit_def Let_def split: if_splits option.splits prod.splits sum.splits)
next
  case False
  then obtain m target keyTree' where m: "new = [m]" "\<not> vs_HasSentPrecommit (fo_votingStatus fo)"
    "createPrecommit signer (vs_Round (fo_votingStatus fo)) (fst target) (snd target) (fo_bmPrivateKeyTree fo) = Inr (Some m, keyTree')"
    "fo_votingStatus fo' = (fo_votingStatus fo)\<lparr>vs_HasSentPrecommit := True\<rparr>"
    using assms(1) by (auto simp: poll_precommit_def Let_def dest: fo_process_cases split: if_splits option.splits prod.splits sum.splits)
  then have "fm_StepIdentifier m = StepIdentifier_new (fst (vs_Round (fo_votingStatus fo))) (snd (vs_Round (fo_votingStatus fo))) Stage_Precommit"
    by (auto simp: createPrecommit_def dest: PrepareMessage_step)
  then have "step_Round (fm_StepIdentifier m) = vs_Round (fo_votingStatus fo)" "\<not> IsPrevote m"
    using StepIdentifier_new_round [OF assms(3)] by (simp_all add: IsPrevote_def Stage_Prevote_def Stage_Precommit_def)
  then show ?thesis using voted_once_snoc [OF assms(2), of m "fo_votingStatus fo'"] m by simp
qed

lemma round_plus_greater: "unat (snd r) < 2 ^ 31 \<Longrightarrow> r < round_plus r 1 \<and> unat (snd (round_plus r 1)) = Suc (unat (snd r))"
  by (cases r) (simp add: round_plus_def less_prod_def word_less_nat_alt unat_word_ariths)

lemma fo_poll_once:
  assumes "fo_poll config signer messagePredicate time threads w fo = (err, new, w', fo')" and "voted_once (fo_votingStatus fo) sent"
    and "unat (snd (vs_Round (fo_votingStatus fo))) < 2 ^ 31"
  shows "voted_once (fo_votingStatus fo') (sent @ new) \<and> unat (snd (vs_Round (fo_votingStatus fo'))) \<le> Suc (unat (snd (vs_Round (fo_votingStatus fo))))"
proof -
  define fo0 where "fo0 = (if fo_pStageAdvancer fo = None then fo_startRound (cfg_StepDuration config) time fo else fo)"
  have s0: "fo_votingStatus fo0 = fo_votingStatus fo" by (simp add: fo0_def fo_startRound_def)
  let ?sa = "the (fo_pStageAdvancer fo0)"
  obtain err1 sent1 w1 fo1 where p1: "poll_prevote config signer messagePredicate time ?sa (threads 0 w) fo0 = (err1, sent1, w1, fo1)"
    by (metis prod_cases4)
  obtain err2 sent2 fo2 where p2: "poll_precommit signer messagePredicate time ?sa (threads 1 w1) fo1 = (err2, sent2, fo2)"
    by (metis prod_cases3)
  have o1: "voted_once (fo_votingStatus fo1) (sent @ sent1)" "vs_Round (fo_votingStatus fo1) = vs_Round (fo_votingStatus fo)"
    using poll_prevote_once [OF p1] assms(2,3) s0 by auto
  have o2: "voted_once (fo_votingStatus fo2) (sent @ sent1 @ sent2)" "vs_Round (fo_votingStatus fo2) = vs_Round (fo_votingStatus fo)"
    using poll_precommit_once [OF p2 o1(1)] assms(3) o1(2) by auto
  consider "new = sent1" "fo' = fo1" | "new = sent1 @ sent2" "fo' = fo2"
    | "new = sent1 @ sent2" "fo' = poll_next config time ?sa (fw_aggregator (threads 2 (threads 1 w1))) fo2"
    using assms(1) p1 p2 by (auto simp: fo_poll_def Let_def fo0_def [symmetric] split: if_splits)
  then show ?thesis
  proof cases
    case 3
    then show ?thesis
      using o2 round_plus_greater [OF assms(3)] voted_once_round [OF o2(1), of "fo_votingStatus fo'"]
      by (auto simp: poll_next_def fo_startRound_def ClearFlags_def split: if_splits)
  qed (use o1 o2 in simp_all)
qed

lemma VotingStatusFile_save_load: "VotingStatusFile_load (VotingStatusFile_save v) = Inr v"
proof -
  have w: "le_word (le_bytes 4 x) = x" for x :: u32 by (rule le_word_le_bytes) simp
  show ?thesis by (cases v) (simp add: VotingStatusFile_load_def VotingStatusFile_save_def w nth_append)
qed

lemma fo_setEpoch_once:
  assumes "fo_setEpoch epoch fo = Inr fo'" and "voted_once (fo_votingStatus fo) sent"
  shows "voted_once (fo_votingStatus fo') sent
    \<and> (fo_votingStatus fo' = fo_votingStatus fo \<or> snd (vs_Round (fo_votingStatus fo')) = 1)"
proof (cases "epoch = fst (vs_Round (fo_votingStatus fo))")
  case False
  then have "fo_votingStatus fo' = ClearFlags ((fo_votingStatus fo)\<lparr>vs_Round := (epoch, 1)\<rparr>)" "fst (vs_Round (fo_votingStatus fo)) < epoch"
    using assms(1) by (auto simp: fo_setEpoch_def not_less split: if_splits)
  then show ?thesis using voted_once_round [OF assms(2), of "fo_votingStatus fo'"] by (simp add: ClearFlags_def less_prod_def')
qed (use assms in \<open>auto simp: fo_setEpoch_def\<close>)

lemma setEpoch_cases_once:
  assumes "(if b then fo_setEpoch newEpoch fo else Inr fo) = Inr fo'" and "voted_once (fo_votingStatus fo) sent"
  shows "voted_once (fo_votingStatus fo') sent \<and> unat (snd (vs_Round (fo_votingStatus fo'))) \<le> max 1 (unat (snd (vs_Round (fo_votingStatus fo))))"
  using assms fo_setEpoch_once [of newEpoch fo fo' sent] by (auto split: if_splits)

text \<open>What the task keeps: the file has the status of the orchestrator, and every vote that was sent is marked.\<close>

definition facade_inv :: "FinalizationMessage list \<Rightarrow> BootstrapperFacade \<Rightarrow> bool" where
  "facade_inv sent bf \<longleftrightarrow> VotingStatusFile_load (bf_votingStatusFile bf) = Inr (fo_votingStatus (bf_orchestrator bf))
    \<and> voted_once (fo_votingStatus (bf_orchestrator bf)) sent"

abbreviation voting_point :: "BootstrapperFacade \<Rightarrow> nat" where
  "voting_point bf \<equiv> unat (snd (vs_Round (fo_votingStatus (bf_orchestrator bf))))"

lemma facade_poll_cases:
  assumes poll: "facade_poll config signer messagePredicate subscriber order time threads w bf = (err, new, events, w', bf')"
  obtains (idle) "new = []" "bf' = bf"
  | (epoch) b newEpoch fo where "(if b then fo_setEpoch newEpoch (bf_orchestrator bf) else Inr (bf_orchestrator bf)) = Inr fo"
      "err \<noteq> None" "new = []" "bf' = bf\<lparr>bf_orchestrator := fo\<rparr>"
  | (voting) b newEpoch fo w1 err1 w2 fo2 where "(if b then fo_setEpoch newEpoch (bf_orchestrator bf) else Inr (bf_orchestrator bf)) = Inr fo"
      "fo_poll config signer messagePredicate time (\<lambda>i. threads (Suc i)) w1 fo = (err1, new, w2, fo2)"
      "err1 \<noteq> None \<and> err = err1 \<and> bf' = bf\<lparr>bf_orchestrator := fo2\<rparr>
        \<or> bf' = bf\<lparr>bf_orchestrator := fo2, bf_votingStatusFile := VotingStatusFile_save (fo_votingStatus fo2)\<rparr>"
proof -
  let ?status = "calculateEpochStatus (cfg_VotingSetGrouping config) (fst (vs_Round (fo_votingStatus (bf_orchestrator bf)))) (ps_statistics (fw_proofs w)) (fw_blocks w)"
  note unfold = facade_poll_def Let_def
  consider "\<exists>e. ?status = Inl e" | "\<exists>newEpoch. ?status = Inr (Epoch_Wait, newEpoch)"
    | status newEpoch where "?status = Inr (status, newEpoch)" "status \<noteq> Epoch_Wait" by (cases ?status) auto
  then show ?thesis
  proof cases
    case 3
    let ?set = "if status = Epoch_Advance then fo_setEpoch newEpoch (bf_orchestrator bf) else Inr (bf_orchestrator bf)"
    show ?thesis
    proof (cases ?set)
      case (Inr fo)
      let ?max = "if vs_Round (fo_votingStatus fo) > mr_MaxFinalizationRound (fw_aggregator (threads 0 w))
        then mr_setMaxFinalizationRound (vs_Round (fo_votingStatus fo)) (fw_aggregator (threads 0 w)) else Inr (fw_aggregator (threads 0 w))"
      show ?thesis
      proof (cases ?max)
        case (Inl e)
        then show ?thesis using poll 3 Inr epoch [of "status = Epoch_Advance" newEpoch fo] by (auto simp: unfold)
      next
        case max: (Inr mr)
        let ?w = "(threads 0 w)\<lparr>fw_aggregator := mr\<rparr>"
        obtain err1 sent1 w2 fo2 where p: "fo_poll config signer messagePredicate time (\<lambda>i. threads (Suc i)) ?w fo = (err1, sent1, w2, fo2)" by (metis prod_cases4)
        then show ?thesis using poll 3 Inr max voting [of "status = Epoch_Advance" newEpoch fo ?w err1 w2 fo2]
          by (simp add: unfold split: if_splits prod.splits)
      qed
    qed (use poll 3 idle in \<open>simp add: unfold\<close>)
  qed (use poll idle in \<open>auto simp: unfold\<close>)
qed

text \<open>
  A poll marks every vote that it sends, also when it throws. The file has the new status, unless the poll throws before it is saved; then the file is the old
  one.
\<close>

lemma facade_poll_inv:
  assumes poll: "facade_poll config signer messagePredicate subscriber order time threads w bf = (err, new, events, w', bf')"
    and "facade_inv sent bf" and "voting_point bf < 2 ^ 31"
  shows "voted_once (fo_votingStatus (bf_orchestrator bf')) (sent @ new) \<and> voting_point bf' \<le> Suc (max 1 (voting_point bf))
    \<and> (VotingStatusFile_load (bf_votingStatusFile bf') = Inr (fo_votingStatus (bf_orchestrator bf')) \<or> err \<noteq> None \<and> bf_votingStatusFile bf' = bf_votingStatusFile bf)"
proof -
  have inv: "VotingStatusFile_load (bf_votingStatusFile bf) = Inr (fo_votingStatus (bf_orchestrator bf))" "voted_once (fo_votingStatus (bf_orchestrator bf)) sent"
    using assms(2) by (simp_all add: facade_inv_def)
  from poll show ?thesis
  proof (cases rule: facade_poll_cases)
    case idle
    then show ?thesis using inv by simp
  next
    case epoch
    then show ?thesis using setEpoch_cases_once [OF epoch(1) inv(2)] by auto
  next
    case (voting b newEpoch fo w1 err1 w2 fo2)
    note o1 = setEpoch_cases_once [OF voting(1) inv(2)]
    then have "unat (snd (vs_Round (fo_votingStatus fo))) < 2 ^ 31" using assms(3) by auto
    note p = fo_poll_once [OF voting(2) conjunct1 [OF o1] this]
    have "unat (snd (vs_Round (fo_votingStatus fo2))) \<le> Suc (max 1 (voting_point bf))" using p o1 by linarith
    then show ?thesis using p voting(3) VotingStatusFile_save_load by auto
  qed
qed

text \<open>
  The life of a voting node: polls, with anything happening to the shared state between and during them, and restarts, which
  load the status from its file and the keys from theirs. A poll that throws ends the process, so that the node goes on with a restart from the files that it has left.
  The votes are in two lists: those whose poll has saved the status, and those of polls that threw before that.
\<close>

definition status_saved :: "BootstrapperFacade \<Rightarrow> bool" where
  "status_saved bf \<longleftrightarrow> VotingStatusFile_load (bf_votingStatusFile bf) = Inr (fo_votingStatus (bf_orchestrator bf))"

inductive voting_node :: "FinalizationConfiguration \<Rightarrow> (Key \<Rightarrow> Key \<Rightarrow> bytes \<Rightarrow> bytes) \<Rightarrow> BootstrapperFacade \<Rightarrow> nat
    \<Rightarrow> 's finalization_world \<Rightarrow> BootstrapperFacade \<Rightarrow> FinalizationMessage list \<Rightarrow> FinalizationMessage list \<Rightarrow> bool" where
  node_start: "voting_node config signer bf0 0 w bf0 [] []"
| node_poll: "voting_node config signer bf0 n w bf saved unsaved
    \<Longrightarrow> facade_poll config signer messagePredicate subscriber order time threads (change w) bf = (None, new, events, w', bf')
    \<Longrightarrow> voting_node config signer bf0 (Suc n) w' bf' (saved @ new) unsaved"
| node_throw: "voting_node config signer bf0 n w bf saved unsaved
    \<Longrightarrow> facade_poll config signer messagePredicate subscriber order time threads (change w :: 's finalization_world) bf = (Some e, new, events, w', bf')
    \<Longrightarrow> BootstrapperFacade_new config (fw_proofs w'') keyTree (bf_votingStatusFile bf') = Inr bf''
    \<Longrightarrow> voting_node config signer bf0 (Suc n) w'' bf'' (if status_saved bf' then saved @ new else saved) (if status_saved bf' then unsaved else unsaved @ new)"
| node_restart: "voting_node config signer bf0 n w bf saved unsaved
    \<Longrightarrow> BootstrapperFacade_new config (fw_proofs w') keyTree (bf_votingStatusFile bf) = Inr bf'
    \<Longrightarrow> voting_node config signer bf0 (Suc n) w' bf' saved unsaved"

lemma restart_status:
  assumes "BootstrapperFacade_new config s keyTree f = Inr bf" and "\<not> cfg_EnableRevoteOnBoot config"
  shows "VotingStatusFile_load f = Inr (fo_votingStatus (bf_orchestrator bf)) \<and> bf_votingStatusFile bf = f"
  using assms by (auto simp: BootstrapperFacade_new_def FinalizationOrchestrator_new_def)

lemma voting_node_inv:
  assumes "voting_node config signer bf0 n w bf saved unsaved" and "\<not> cfg_EnableRevoteOnBoot config" and "facade_inv [] bf0"
    and "voting_point bf0 + n < 2 ^ 31"
  shows "facade_inv saved bf \<and> voting_point bf \<le> Suc (voting_point bf0 + n)"
  using assms
proof (induction rule: voting_node.induct)
  case (node_poll config signer bf0 n w bf saved unsaved messagePredicate subscriber order time threads change new events w' bf')
  then have ih: "facade_inv saved bf" "voting_point bf \<le> Suc (voting_point bf0 + n)" by simp_all
  then show ?case using facade_poll_inv [OF node_poll.hyps(2) ih(1)] node_poll.prems(3) by (auto simp: facade_inv_def)
next
  case (node_throw config signer bf0 n w bf saved unsaved messagePredicate subscriber order time threads change e new events w' bf' w'' keyTree bf'')
  then have ih: "facade_inv saved bf" "voting_point bf \<le> Suc (voting_point bf0 + n)" by simp_all
  have "voting_point bf < 2 ^ 31" using ih(2) node_throw.prems(3) by simp
  note p = facade_poll_inv [OF node_throw.hyps(2) ih(1) this] and b = restart_status [OF node_throw.hyps(3) node_throw.prems(1)]
  show ?case
  proof (cases "status_saved bf'")
    case True
    then have "fo_votingStatus (bf_orchestrator bf'') = fo_votingStatus (bf_orchestrator bf')" using b by (simp add: status_saved_def)
    then show ?thesis using True b p ih(2) by (auto simp: facade_inv_def)
  next
    case False
    then have "fo_votingStatus (bf_orchestrator bf'') = fo_votingStatus (bf_orchestrator bf)"
      using b p ih(1) by (simp add: status_saved_def facade_inv_def)
    then show ?thesis using False b ih by (auto simp: facade_inv_def)
  qed
next
  case (node_restart config signer bf0 n w bf saved unsaved w' keyTree bf')
  then show ?case using restart_status [OF node_restart.hyps(2) node_restart.prems(1)] by (auto simp: facade_inv_def)
qed simp

section \<open>The size of a prevote\<close>

lemma Clamp_down: "0 < multiple \<Longrightarrow> \<exists>r. prevote_Clamp v multiple 0 = Inr r \<and> r \<le> v"
proof -
  assume "0 < multiple"
  moreover have "unat (v div ucast multiple * ucast multiple) \<le> unat v"
    by (simp add: unat_word_ariths(2) unat_div) (meson div_times_less_eq_dividend le_trans mod_less_eq_dividend)
  ultimately show ?thesis by (auto simp: prevote_Clamp_def word_le_nat_alt)
qed

lemma unat_ucast_16_64 [simp]: "unat (ucast (w :: u16) :: u64) = unat w" and unat_ucast_32_64 [simp]: "unat (ucast (v :: u32) :: u64) = unat v"
  using unsigned_less [of w, where ?'a = nat] unsigned_less [of v, where ?'a = nat] by (simp_all add: unsigned_ucast_eq take_bit_nat_eq_self_iff)

lemma Clamp_up:
  assumes "0 < multiple" and "unat v + unat multiple \<le> 2 ^ 64"
  shows "\<exists>r. prevote_Clamp v multiple 1 = Inr r \<and> unat v \<le> unat r \<and> unat r < unat v + unat multiple"
proof (cases "unat v mod unat multiple = 0")
  case True
  then have "0 = v mod ucast multiple" by (metis unat_eq_zero unat_mod unat_ucast_16_64)
  then show ?thesis using assms(1) by (auto simp: prevote_Clamp_def word_less_nat_alt)
next
  case False
  let ?m = "unat multiple"
  have m: "0 < ?m" using assms(1) by (simp add: word_less_nat_alt)
  have lo: "unat v < (unat v div ?m + 1) * ?m" using m by (metis Suc_eq_plus1 dividend_less_div_times div_mult_mod_eq mult_Suc add.commute mod_less_divisor nat_add_left_cancel_less)
  have "unat v div ?m * ?m < unat v" using False div_mult_mod_eq [of "unat v" ?m] by linarith
  then have hi: "(unat v div ?m + 1) * ?m < unat v + ?m" by (simp add: algebra_simps)
  have "0 \<noteq> v mod ucast multiple" using False by (metis unat_0 unat_mod unat_ucast_16_64)
  moreover have "unat ((v div ucast multiple + 1) * ucast multiple) = (unat v div ?m + 1) * ?m"
  proof -
    have "unat v div ?m + 1 \<le> (unat v div ?m + 1) * ?m" using m mult_le_mono2 [of 1 ?m "unat v div ?m + 1"] by simp
    then have "unat v div ?m + 1 < 2 ^ 64" using hi assms(2) by linarith
    then have "unat (v div ucast multiple + 1) = unat v div ?m + 1" by (simp add: unat_word_ariths(1) unat_div)
    then show ?thesis using hi assms(2) by (simp add: unat_word_ariths(2))
  qed
  ultimately show ?thesis using assms(1) lo hi by (auto simp: prevote_Clamp_def)
qed

text \<open>A prevote has at least one hash, no more than the configured number, and none above the end of the epoch.\<close>

lemma prevote_numHashes_bounds:
  assumes "prevote_numHashes config epoch chainHeight start = Inr n" and "CalculateVotingSetEndHeight epoch (cfg_VotingSetGrouping config) = Inr endHeight"
    and "0 < start" and "start \<le> endHeight" and "0 < cfg_PrevoteBlocksMultiple config"
    and "unat (cfg_PrevoteBlocksMultiple config) \<le> unat (cfg_MaxHashesPerPoint config)"
  shows "1 \<le> unat n \<and> unat n \<le> unat (cfg_MaxHashesPerPoint config) \<and> unat start + (unat n - 1) \<le> unat endHeight"
proof -
  let ?mult = "cfg_PrevoteBlocksMultiple config" and ?max = "cfg_MaxHashesPerPoint config"
  define top0 where "top0 = (if chainHeight \<ge> ucast ?mult then chainHeight - ucast ?mult else chainHeight)"
  define top where "top = (if top0 > endHeight then endHeight else top0)"
  obtain clamped where cl: "prevote_Clamp top ?mult 0 = Inr clamped" "clamped \<le> top" using Clamp_down [OF assms(5)] by blast
  define k where "k = (if clamped > start then clamped - start + 1 else 1)"
  have top: "unat clamped \<le> unat endHeight" using cl(2) by (auto simp: top_def word_le_nat_alt word_less_nat_alt split: if_splits)
  have k: "1 \<le> unat k" "unat start + (unat k - 1) \<le> unat endHeight"
  proof -
    have "unat (clamped - start + 1) = unat clamped - unat start + 1" if "clamped > start"
      using that assms(3) unsigned_less [of clamped, where ?'a = nat]
      by (simp add: unat_word_ariths(1) unat_sub word_less_nat_alt order.strict_implies_order)
    then show "1 \<le> unat k" "unat start + (unat k - 1) \<le> unat endHeight"
      using top assms(4) by (auto simp: k_def word_less_nat_alt word_le_nat_alt)
  qed
  have n: "(if k > ucast ?max then bind_result (prevote_Clamp (k - ucast ?max) ?mult 1) (\<lambda>excess. Inr (k - excess)) else Inr k) = Inr n"
    using assms(1,2) cl(1) unfolding top_def top0_def k_def prevote_numHashes_def Let_def by (simp del: bind_result_Inr_iff)
  show ?thesis
  proof (cases "k > ucast ?max")
    case True
    then have sub: "unat (k - ucast ?max) = unat k - unat ?max" "unat ?max < unat k"
      by (simp_all add: unat_sub word_less_nat_alt order.strict_implies_order)
    have "unat (k - ucast ?max) + unat ?mult \<le> 2 ^ 64" using sub assms(6) unsigned_less [of k, where ?'a = nat] by simp
    then obtain x where x: "prevote_Clamp (k - ucast ?max) ?mult 1 = Inr x" "unat k - unat ?max \<le> unat x" "unat x < unat k - unat ?max + unat ?mult"
      using Clamp_up [OF assms(5)] sub(1) by metis
    then have "unat x < unat k" using sub(2) assms(6) by linarith
    moreover from this have "unat n = unat k - unat x" using n True x(1) by (auto simp: unat_sub word_le_nat_alt)
    ultimately show ?thesis using x(2) k(2) sub(2) by linarith
  next
    case False
    then show ?thesis using n k by (auto simp: word_less_nat_alt)
  qed
qed

lemma createPrevote_message:
  assumes "createPrevote config signer r blocks fstats keyTree pc = (Inr (Some m, keyTree'), pc')"
  shows "\<exists>n hashes. prevote_numHashes config (fst r) (view_chainHeight blocks) (fs_Height fstats) = Inr n
    \<and> fm_Hashes m = hashes \<and> fm_HashesCount m = of_nat (length hashes) \<and> (length hashes = 1 \<or> length hashes \<le> unat n) \<and> hashes \<noteq> []
    \<and> fm_Height m = fs_Height fstats \<and> fm_StepIdentifier m = StepIdentifier_new (fst r) (snd r) Stage_Prevote"
proof -
  obtain n h where n: "prevote_numHashes config (fst r) (view_chainHeight blocks) (fs_Height fstats) = Inr n"
    "view_loadHashesFrom (fs_Height fstats) (unat n) blocks = Inr h"
    "PrepareMessage signer (StepIdentifier_new (fst r) (snd r) Stage_Prevote) (fs_Height fstats) (if h = [] then [fs_Hash fstats] else h) keyTree = Inr (Some m, keyTree')"
    using assms by (auto simp: createPrevote_def loadPrevoteHashChain_def Let_def split: prod.splits sum.splits option.splits)
  have "length h \<le> unat n"
    using n(2) by (auto simp: view_loadHashesFrom_def loadHashesFrom_def loadRangeFrom_def Let_def split: if_splits)
  moreover have "fm_Hashes m = (if h = [] then [fs_Hash fstats] else h)" "fm_HashesCount m = of_nat (length (if h = [] then [fs_Hash fstats] else h))"
    "fm_Height m = fs_Height fstats" "fm_StepIdentifier m = StepIdentifier_new (fst r) (snd r) Stage_Prevote"
    using n(3) by (auto simp: PrepareMessage_def Let_def split: if_splits prod.splits)
  ultimately show ?thesis using n(1) by (auto split: if_splits)
qed

section \<open>Properties\<close>

text \<open>
  C5. A node that does not revote on boot votes at most once in every stage of every round: no two of its votes have the same step identifier. This
  holds for any number of polls and restarts, whatever messages, proofs and blocks arrive in the meantime, and also when polls throw, which ends the process and is followed by
  a restart from the files. It is about all votes whose poll has come to saving the voting status. The votes of a poll that throws between sending them and saving the
  status are not counted, as the node can send votes for the same steps after its restart. The points of an epoch have to fit the step identifier.
\<close>

theorem votes_once:
  assumes "voting_node config signer bf0 n w bf saved unsaved" and "BootstrapperFacade_new config s keyTree f = Inr bf0"
    and "\<not> cfg_EnableRevoteOnBoot config" and "voting_point bf0 + n < 2 ^ 31"
  shows "distinct (map fm_StepIdentifier saved)"
proof -
  have "facade_inv [] bf0" using restart_status [OF assms(2,3)] by (simp add: facade_inv_def voted_once_def)
  then show ?thesis using voting_node_inv [OF assms(1,3) _ assms(4)] by (simp add: facade_inv_def voted_once_def)
qed

text \<open>
  C32. The prevotes of a node are valid, when the last final block lies in the epoch the node votes in or ends the one before, and in a configuration in which the multiple
  of blocks is positive and not larger than the number of hashes: the prevote it
  creates passes every check that the aggregators of that epoch make on the hashes and heights of a message. It has at least one hash and no more
  than the configured number, however far the chain is ahead, and ends within the epoch.
\<close>

theorem own_prevote_accepted:
  assumes "createPrevote config signer r blocks fstats keyTree pc = (Inr (Some m, keyTree'), pc')" and "unat (snd r) < 2 ^ 31"
    and "fc_config c = config" and "CalculateVotingSetEndHeight (fst r - 1) (cfg_VotingSetGrouping config) = Inr (fc_height c)"
    and "CalculateVotingSetEndHeight (fst r) (cfg_VotingSetGrouping config) = Inr endHeight"
    and "0 < fs_Height fstats" and "fc_height c \<le> fs_Height fstats" and "fs_Height fstats \<le> endHeight"
    and "0 < cfg_PrevoteBlocksMultiple config" and "unat (cfg_PrevoteBlocksMultiple config) \<le> unat (cfg_MaxHashesPerPoint config)"
  shows "check_message (RoundMessageAggregator_new c) m = Inr None"
proof -
  obtain n hashes where m: "prevote_numHashes config (fst r) (view_chainHeight blocks) (fs_Height fstats) = Inr n"
    "fm_Hashes m = hashes" "fm_HashesCount m = of_nat (length hashes)" "length hashes = 1 \<or> length hashes \<le> unat n" "hashes \<noteq> []"
    "fm_Height m = fs_Height fstats" "fm_StepIdentifier m = StepIdentifier_new (fst r) (snd r) Stage_Prevote"
    using createPrevote_message [OF assms(1)] by blast
  note b = prevote_numHashes_bounds [OF m(1) assms(5,6,8,9,10)]
  define l where "l = length hashes"
  have l: "1 \<le> l" "l \<le> unat (cfg_MaxHashesPerPoint config)" "unat (fs_Height fstats) + (l - 1) \<le> unat endHeight"
    using m(4,5) b assms(8) by (auto simp: l_def word_le_nat_alt Suc_leI)
  have cnt: "unat (fm_HashesCount m) = l"
    using l(2) unsigned_less [of "cfg_MaxHashesPerPoint config", where ?'a = nat] m(3) by (simp add: l_def unat_of_nat)
  define last_height where "last_height = fs_Height fstats + (ucast (fm_HashesCount m) - 1)"
  have "unat (ucast (fm_HashesCount m) - 1 :: u64) = l - 1" using l(1) cnt by (simp add: unat_sub word_le_nat_alt)
  then have last_height: "unat last_height = unat (fs_Height fstats) + (l - 1)"
    using l(3) unsigned_less [of endHeight, where ?'a = nat] by (simp add: last_height_def unat_word_ariths(1))
  have "\<not> fc_height c > last_height" "\<not> last_height > endHeight" using last_height l(3) assms(7) by (simp_all add: word_less_nat_alt word_le_nat_alt)
  moreover have "fm_HashesCount m \<noteq> 0" "\<not> fm_HashesCount m > cfg_MaxHashesPerPoint config" using cnt l by (auto simp: word_less_nat_alt)
  moreover have "IsPrevote m" "step_Epoch (fm_StepIdentifier m) = fst r"
    using m(7) StepIdentifier_new_round(2) [OF assms(2)] by (simp_all add: IsPrevote_def StepIdentifier_new_def)
  ultimately show ?thesis using assms(3-5,7) m(6)
    by (simp add: check_message_def Let_def RoundMessageAggregator_new_def last_height_def [symmetric] not_less del: bind_result_Inr_iff)
qed

definition sample_blocks :: "u8 \<Rightarrow> string BlockStorageCache" where
  "sample_blocks b = projr (bind_result (foldM storage_saveBlock (map (\<lambda>h. (sample_element (of_nat h) 0)\<lparr>element_EntityHash := [b, of_nat h]\<rparr>) [1..<13]) (sample_storage True))
     (\<lambda>storage. BlockStorageCache_new storage (sample_storage False)))"

definition voting_config :: FinalizationConfiguration where
  "voting_config = Finalization_Safety.sample_config\<lparr>cfg_StepDuration := 0\<rparr>"

definition sample_world :: "u8 \<Rightarrow> string finalization_world" where
  "sample_world b = \<lparr>fw_aggregator = MultiRoundMessageAggregator_new 10000 (1, 1) (1, [1]), fw_proofs = sample_proofs,
     fw_prevoteChains = (\<lambda>_. None), fw_blocks = sample_blocks b\<rparr>"

definition sample_keys :: AggregateBmPrivateKeyTree where
  "sample_keys = AggregateBmPrivateKeyTree_new [projr (BmPrivateKeyTree_Create toy_pub toy_signer [7] 2 4 (\<lambda>i. replicate 32 (of_nat i)))]"

definition sample_node :: "BootstrapperFacade result" where
  "sample_node = BootstrapperFacade_new voting_config sample_proofs sample_keys None"

definition sample_poll where
  "sample_poll messagePredicate w bf = facade_poll voting_config toy_signer messagePredicate (\<lambda>_ _ _. None) (\<lambda>l. l) 5 (\<lambda>_ w. w) w bf"

theorem own_prevote_accepted_witness:
  "\<exists>m keyTree' pc'. createPrevote voting_config toy_signer (2, 1) (sample_blocks 9) (ps_statistics sample_proofs) sample_keys (\<lambda>_. None) = (Inr (Some m, keyTree'), pc')
    \<and> check_message (RoundMessageAggregator_new (sample_context\<lparr>fc_config := voting_config, fc_height := 1\<rparr>)) m = Inr None"
proof -
  let ?create = "createPrevote voting_config toy_signer (2, 1) (sample_blocks 9) (ps_statistics sample_proofs) sample_keys (\<lambda>_. None)"
  have "case ?create of (Inr (Some m, _), _) \<Rightarrow> True | _ \<Rightarrow> False" by code_simp
  then obtain m keyTree' pc' where m: "?create = (Inr (Some m, keyTree'), pc')" by (auto split: prod.splits sum.splits option.splits)
  have st: "fs_Height (ps_statistics sample_proofs) = 1" by (simp add: ps_statistics_def sample_proofs_def)
  have cfg: "cfg_VotingSetGrouping voting_config = 4" "cfg_PrevoteBlocksMultiple voting_config = 2" "cfg_MaxHashesPerPoint voting_config = 8"
    by (simp_all add: voting_config_def Finalization_Safety.sample_config_def)
  show ?thesis
    using own_prevote_accepted [OF m, of "sample_context\<lparr>fc_config := voting_config, fc_height := 1\<rparr>" 4] m st
    by (simp add: CalculateVotingSetEndHeight_def CheckParameters_epoch_def cfg)
qed

theorem votes_once_witness:
  "\<exists>bf0 (w :: string finalization_world) bf m. sample_node = Inr bf0 \<and> voting_node voting_config toy_signer bf0 2 w bf [m] []
    \<and> distinct (map fm_StepIdentifier [m])"
proof -
  obtain bf0 where bf0: "sample_node = Inr bf0" by (simp add: sample_node_def BootstrapperFacade_new_def voting_config_def
      Finalization_Safety.sample_config_def VotingStatusFile_load_def)
  have "case bind_result sample_node (\<lambda>bf. Inr (sample_poll (\<lambda>_. Inr True) (sample_world 9) bf)) of Inr (None, [m], _) \<Rightarrow> True | _ \<Rightarrow> False" by code_simp
  then obtain m events w bf where r: "sample_poll (\<lambda>_. Inr True) (sample_world 9) bf0 = (None, [m], events, w, bf)"
    unfolding bf0 by (auto split: option.splits list.splits prod.splits)
  have one: "voting_node voting_config toy_signer bf0 (Suc 0) w bf ([] @ [m]) []"
    by (rule node_poll [where change = "\<lambda>w. w", OF node_start r [unfolded sample_poll_def]])
  have revote: "\<not> cfg_EnableRevoteOnBoot voting_config" by (simp add: voting_config_def Finalization_Safety.sample_config_def)
  note st = restart_status [OF bf0 [unfolded sample_node_def] revote]
  then have "fo_votingStatus (bf_orchestrator bf0) = \<lparr>vs_Round = (2, 1), vs_HasSentPrevote = False, vs_HasSentPrecommit = False\<rparr>"
    unfolding VotingStatusFile_load_def by simp
  then have v0: "voting_point bf0 = 1" "facade_inv [] bf0" using st by (simp_all add: facade_inv_def voted_once_def)
  then have "facade_inv [m] bf" using voting_node_inv [OF one revote] by simp
  then have "BootstrapperFacade_new voting_config (fw_proofs w) sample_keys (bf_votingStatusFile bf)
      = Inr \<lparr>bf_orchestrator = FinalizationOrchestrator_new (fo_votingStatus (bf_orchestrator bf)) sample_keys, bf_votingStatusFile = bf_votingStatusFile bf\<rparr>"
    using revote by (simp add: BootstrapperFacade_new_def facade_inv_def)
  from node_restart [OF one this] obtain bf2 where two: "voting_node voting_config toy_signer bf0 2 w bf2 [m] []" by (auto simp: numeral_2_eq_2)
  have "distinct (map fm_StepIdentifier [m])" using votes_once [OF two bf0 [unfolded sample_node_def] revote] v0(1) by simp
  then show ?thesis using two bf0 by blast
qed

text \<open>
  C37. A node that learns of a proof in the middle of a later epoch skips the rest of that epoch and wastes a vote. Let the last proof be one of an epoch after the one in which the
  node votes, below the end of that epoch, and let its block be on the local chain. Then the task moves the orchestrator to the first round of the epoch
  after the one of the proof, and whatever prevote the node makes there starts below that epoch and is refused by every aggregator.
\<close>

theorem premature_epoch_vote:
  assumes "fst (fs_Round fstats) = s" and "fst (vs_Round (fo_votingStatus fo)) = epoch" and "0 < epoch" and "epoch < s" and "s < - 1"
    and "fs_Height fstats \<le> view_chainHeight blocks" and "view_loadHashesFrom (fs_Height fstats) 1 blocks = Inr [fs_Hash fstats]"
    and "CalculateVotingSetEndHeight s (cfg_VotingSetGrouping config) = Inr endHeight" and "fs_Height fstats < endHeight"
  shows "calculateEpochStatus (cfg_VotingSetGrouping config) epoch fstats blocks = Inr (Epoch_Advance, s + 1)
    \<and> (\<exists>fo'. fo_setEpoch (s + 1) fo = Inr fo' \<and> vs_Round (fo_votingStatus fo') = (s + 1, 1))
    \<and> (\<forall>m keyTree' pc' ra. createPrevote config signer (s + 1, 1) blocks' fstats keyTree pc = (Inr (Some m, keyTree'), pc')
        \<and> fc_config (ra_finalizationContext ra) = config \<longrightarrow> (\<exists>failure. check_message ra m = Inr (Some failure)))"
proof (intro conjI allI impI)
  have g: "0 < cfg_VotingSetGrouping config" using assms(8) by (auto simp: CalculateVotingSetEndHeight_def CheckParameters_epoch_def word_gt_0 split: if_splits)
  then show "calculateEpochStatus (cfg_VotingSetGrouping config) epoch fstats blocks = Inr (Epoch_Advance, s + 1)"
    using assms(1,3,4,6,7) by (auto simp: calculateEpochStatus_def Let_def CalculateVotingSetEndHeight_def CheckParameters_epoch_def not_less simp del: bind_result_Inr_iff)
  have s1: "s < s + 1" using assms(5) by (simp add: word_less_nat_alt unat_word_ariths unsigned_minus_1_eq_mask mask_eq_exp_minus_1)
  then show "\<exists>fo'. fo_setEpoch (s + 1) fo = Inr fo' \<and> vs_Round (fo_votingStatus fo') = (s + 1, 1)"
    using assms(2,4) by (auto simp: fo_setEpoch_def ClearFlags_def)
  fix m keyTree' pc' and ra :: RoundMessageAggregator
  assume c: "createPrevote config signer (s + 1, 1) blocks' fstats keyTree pc = (Inr (Some m, keyTree'), pc') \<and> fc_config (ra_finalizationContext ra) = config"
  have m: "fm_Height m = fs_Height fstats" "fm_StepIdentifier m = StepIdentifier_new (s + 1) 1 Stage_Prevote"
    using createPrevote_message [OF conjunct1 [OF c]] by auto
  then have p: "IsPrevote m" "step_Epoch (fm_StepIdentifier m) = s + 1"
    using StepIdentifier_new_round(2) [of 1 Stage_Prevote "s + 1"] by (simp_all add: IsPrevote_def StepIdentifier_new_def)
  have "s + 1 \<noteq> 0" using s1 by auto
  then obtain h where "CalculateVotingSetEndHeight (s + 1) (cfg_VotingSetGrouping config) = Inr h"
    using g by (auto simp: CalculateVotingSetEndHeight_def CheckParameters_epoch_def)
  then show "\<exists>failure. check_message ra m = Inr (Some failure)"
    using assms(8,9) c m(1) p by (simp add: check_message_def Let_def del: bind_result_Inr_iff)
qed

definition ahead_statistics :: FinalizationStatistics where
  "ahead_statistics = \<lparr>fs_Round = (3, 1), fs_Height = 6, fs_Hash = [9, 6]\<rparr>"

theorem premature_epoch_vote_witness:
  "calculateEpochStatus 4 2 ahead_statistics (sample_blocks 9) = Inr (Epoch_Advance, 4)
    \<and> (\<exists>m keyTree' pc'. createPrevote voting_config toy_signer (4, 1) (sample_blocks 9) ahead_statistics sample_keys (\<lambda>_. None) = (Inr (Some m, keyTree'), pc')
      \<and> (\<exists>failure. check_message (RoundMessageAggregator_new (sample_context\<lparr>fc_config := voting_config, fc_epoch := 4, fc_height := 8\<rparr>)) m = Inr (Some failure)))"
proof -
  let ?create = "createPrevote voting_config toy_signer (4, 1) (sample_blocks 9) ahead_statistics sample_keys (\<lambda>_. None)"
  have "case ?create of (Inr (Some m, _), _) \<Rightarrow> True | _ \<Rightarrow> False" by code_simp
  then obtain m keyTree' pc' where m: "?create = (Inr (Some m, keyTree'), pc')" by (auto split: prod.splits sum.splits option.splits)
  have st: "fs_Round ahead_statistics = (3, 1)" "fs_Height ahead_statistics = 6" by (simp_all add: ahead_statistics_def)
  have blocks: "6 \<le> view_chainHeight (sample_blocks 9)" "view_loadHashesFrom 6 1 (sample_blocks 9) = Inr [fs_Hash ahead_statistics]" by code_simp+
  have cfg: "cfg_VotingSetGrouping voting_config = 4" by (simp add: voting_config_def Finalization_Safety.sample_config_def)
  let ?fo = "FinalizationOrchestrator_new \<lparr>vs_Round = (2, 1), vs_HasSentPrevote = False, vs_HasSentPrecommit = False\<rparr> sample_keys"
  have r: "fst (vs_Round (fo_votingStatus ?fo)) = 2" by (simp add: FinalizationOrchestrator_new_def)
  have "(0 :: u32) < 2" "(2 :: u32) < 3" "(3 :: u32) < - 1" by code_simp+
  moreover have "CalculateVotingSetEndHeight 3 (cfg_VotingSetGrouping voting_config) = Inr 8"
    by (simp add: CalculateVotingSetEndHeight_def CheckParameters_epoch_def cfg)
  ultimately have "calculateEpochStatus 4 2 ahead_statistics (sample_blocks 9) = Inr (Epoch_Advance, 3 + 1)
    \<and> (\<forall>m keyTree' pc' ra. createPrevote voting_config toy_signer (3 + 1, 1) (sample_blocks 9) ahead_statistics sample_keys (\<lambda>_. None) = (Inr (Some m, keyTree'), pc')
        \<and> fc_config (ra_finalizationContext ra) = voting_config \<longrightarrow> (\<exists>failure. check_message ra m = Inr (Some failure)))"
    using premature_epoch_vote [where fstats = ahead_statistics and s = 3 and fo = ?fo and epoch = 2 and blocks = "sample_blocks 9" and config = voting_config
      and endHeight = 8 and signer = toy_signer and blocks' = "sample_blocks 9" and keyTree = sample_keys and pc = "\<lambda>_. None"] st r blocks cfg by simp
  moreover have "(3 :: u32) + 1 = 4" by simp
  ultimately show ?thesis using m by (auto simp: RoundMessageAggregator_new_def)
qed

end
