(* ===== verification/Spec2Isabelle.thy ===== *)
theory Spec2Isabelle
  imports Account_Balances Array_Stack Namespace_Invariant Hash_Cache Multisig_Invariant Block_Hit Chain_Synchronizer Block_Storage
    Patricia_Commit Patricia_Serializer Chain_Switch Core_Balances Finalization_Voting
begin

text \<open>
  \<^bold>\<open>The Catapult client.\<close> A node of the network keeps a chain of blocks and the state that the chain leads to. The C++ code is below
  \<^verbatim>\<open>src/client/catapult\<close>; this development models the part of it that decides what the state and the chain are. A path without a leading
  directory is relative to \<^verbatim>\<open>src/catapult\<close> there.

  \<^bold>\<open>The parts and how they interact.\<close> Transactions and blocks are published as notifications. Every notification is validated against the state
  and then observed, which changes the state; undoing a block observes its notifications in reverse. The state is a vector of caches, each a copy-on-write set of
  elements with a patricia tree that commits its content to a hash. A node compares its chain with those of its peers, pulls the blocks of a better
  chain, checks and executes them on a copy of the state and, when all is well, replaces its own blocks and state. Beside that, voters finalize
  blocks in rounds of prevotes and precommits, and a final block is never rolled back.

  \<^bold>\<open>Shared vocabulary.\<close> \<open>Prelude\<close> has the machine types (64-bit words for heights and amounts, so that sums wrap as in the code), the type \<open>result\<close> of code that may
  throw, the ordered containers of the standard library as sorted lists, and the lemma collections. An exception is a value \<open>Inl e\<close>; code that would be
  undefined in C++ is the error \<open>undefined_behaviour\<close>. Operations that leave changed state behind when they throw (those of the finalization) return the
  error beside that state.

  \<^bold>\<open>The state of accounts.\<close>
  \<^item> \<open>Compact_Mosaic_Map\<close> (\<^verbatim>\<open>state/CompactMosaicMap\<close>) and \<open>Account_Balances\<close> (\<^verbatim>\<open>state/AccountBalances\<close>): the three-level storage of balances is a finite map, and
    crediting and debiting are exact. The locale \<open>mosaic_map\<close> is what the balances rely on, the locale \<open>balance_store\<close> what observers rely on; both are interpreted on
    the model.
  \<^item> \<open>Array_Stack\<close> (\<^verbatim>\<open>state/CompactArrayStack.h\<close>, \<^verbatim>\<open>AccountImportanceSnapshots\<close>, \<^verbatim>\<open>AccountActivityBuckets\<close>): bounded histories; the locale \<open>history\<close> is
    interpreted on both users.
  \<^item> \<open>Account_State\<close> (\<^verbatim>\<open>state/AccountState.cpp\<close>, \<^verbatim>\<open>AccountPublicKeys.cpp\<close>, \<^verbatim>\<open>AccountHistory.cpp\<close>, \<^verbatim>\<open>cache_core/HighValueAccounts.cpp\<close>): keys of accounts and the balances of
    voters by height.
  \<^item> \<open>Account_Cache\<close> (\<^verbatim>\<open>cache_core/AccountStateCacheDelta.cpp\<close>, \<^verbatim>\<open>plugins/coresystem\<close>): accounts appear when a block first names them and are taken back exactly when it is undone.
  \<^item> \<open>Core_Balances\<close> (\<^verbatim>\<open>model/InflationCalculator.cpp\<close>, \<^verbatim>\<open>FeeUtils.cpp\<close>, \<^verbatim>\<open>NotificationPublisher.cpp\<close>, \<^verbatim>\<open>plugins/coresystem\<close>): a block creates no money but its inflation, and undoing it
    gives all balances back.

  \<^bold>\<open>Caches.\<close>
  \<^item> \<open>Delta_Set\<close> (\<^verbatim>\<open>deltaset/\<close>): a delta is the finite map it stands for. The locale \<open>set_view\<close> is interpreted on the mutable and the immutable variant.
  \<^item> \<open>Identifier_Groups\<close> and \<open>Basic_Caches\<close> (\<^verbatim>\<open>utils/IdentifierGroup.h\<close>, \<^verbatim>\<open>cache/CacheMixins.h\<close>): the mixins that caches are made of. The locales \<open>basic_cache\<close> and \<open>mutable_cache\<close>
    justify that plugin theories take a cache to be a map.
  \<^item> \<open>Tree_Path\<close>, \<open>Patricia_Tree\<close>, \<open>Patricia_Canonical\<close>, \<open>Patricia_Refinement\<close>, \<open>Patricia_State\<close>, \<open>Patricia_Commit\<close>, \<open>Patricia_Serializer\<close> (\<^verbatim>\<open>tree/\<close>): the root hash is a function of the
    content of the tree, commits transfer it to the base, and stored nodes are read back. The abstract trees of \<open>Patricia_Canonical\<close> are the specification that the
    nodes refine.
  \<^item> \<open>Catapult_Cache\<close> (\<^verbatim>\<open>cache/CatapultCache.cpp\<close>): all caches together, with the state hash.

  \<^bold>\<open>Entities and plugins.\<close>
  \<^item> \<open>Entity_Processing\<close> (\<^verbatim>\<open>validators/\<close>, \<^verbatim>\<open>observers/\<close>, \<^verbatim>\<open>chain/ProcessingNotificationSubscriber.cpp\<close>, \<^verbatim>\<open>BatchEntityProcessor.cpp\<close>, \<^verbatim>\<open>BlockExecutor.cpp\<close>): notifications, batches and undo. The
    locales \<open>reversible_entities\<close> and \<open>reversible_notifications\<close> are what a plugin has to promise for blocks to be undone; they are interpreted on the hash cache and the multisig plugin.
  \<^item> \<open>Hash_Cache\<close> (\<^verbatim>\<open>plugins/services/hashcache\<close>): a transaction is included once.
  \<^item> \<open>Multisig\<close>, \<open>Multisig_Graph\<close>, \<open>Multisig_Invariant\<close> (\<^verbatim>\<open>plugins/txes/multisig\<close>): the graph of cosignatories stays acyclic and shallow, an aggregate is approved exactly by the
    signatures that the stored thresholds ask for, and modifications are undone.
  \<^item> \<open>Namespaces\<close>, \<open>Namespace_Cache\<close>, \<open>Namespace_Validators\<close>, \<open>Namespace_Invariant\<close> (\<^verbatim>\<open>plugins/txes/namespace\<close>): histories of root namespaces with shared children, the three sets
    of the cache that have to agree, registrations, aliases and pruning.

  \<^bold>\<open>The chain.\<close>
  \<^item> \<open>Chain_Scoring\<close> and \<open>Block_Hit\<close> (\<^verbatim>\<open>chain/BlockDifficultyScorer.cpp\<close>, \<^verbatim>\<open>BlockScorer.cpp\<close>, \<^verbatim>\<open>ChainUtils.cpp\<close>, \<^verbatim>\<open>model/ChainScore.h\<close>, \<^verbatim>\<open>utils/IntegerMath\<close>): difficulties, scores and the lottery
    of the harvesters.
  \<^item> \<open>Chain_Comparison\<close> (\<^verbatim>\<open>chain/CompareChains.cpp\<close> with the apis and handlers it talks to) and \<open>Chain_Synchronizer\<close> (\<^verbatim>\<open>chain/ChainSynchronizer.cpp\<close>): where two chains fork, and the
    queue of pulled blocks as a transition relation of two threads.
  \<^item> \<open>File_Database\<close> and \<open>Block_Storage\<close> (\<^verbatim>\<open>io/FileDatabase.cpp\<close>, \<^verbatim>\<open>FileBlockStorage.cpp\<close>, \<^verbatim>\<open>MoveBlockFiles.cpp\<close>, \<^verbatim>\<open>BlockStorageCache.cpp\<close>): batched files and the two-phase commit.
  \<^item> \<open>Blockchain_Processor\<close>, \<open>Blockchain_Sync\<close>, \<open>Chain_Switch\<close> (\<^verbatim>\<open>consumers/BlockchainProcessor.cpp\<close>, \<^verbatim>\<open>BlockchainCheckConsumer.cpp\<close>, \<^verbatim>\<open>BlockchainSyncConsumer.cpp\<close>, \<^verbatim>\<open>UndoBlock.cpp\<close>): a better valid
    chain replaces the blocks above the common one, everything else is left alone.

  \<^bold>\<open>Finalization\<close> (\<^verbatim>\<open>crypto_voting/\<close>, \<^verbatim>\<open>extensions/finalization\<close>).
  \<^item> \<open>Voting_Keys\<close>: signatures verify, and after a signature no key of an earlier epoch is left, in memory or in files, current and retired trees included.
  \<^item> \<open>Finalization_Round\<close>, \<open>Finalization_Messages\<close>, \<open>Finalization_Safety\<close>: the tree of prevotes, the weights of a round, the acceptance of messages, and the agreement of two nodes on final
    blocks.
  \<^item> \<open>Finalization_Proofs\<close>, \<open>Finalization_Storage\<close>: proofs are accepted by other nodes, kept and pulled from peers.
  \<^item> \<open>Finalization_Voting\<close>: the orchestrator, its task and its status file as a state machine with polls that throw and restarts; a node votes once.

  \<^bold>\<open>Bounds and fuel.\<close> Traversals of the multisig graph carry fuel, the maximal depth; \<open>Multisig_Graph\<close> shows that it suffices on every graph that the validators admit. The rounds of a
  chain comparison are driven by the list of replies; \<open>Chain_Comparison\<close> shows how many rounds are enough, and that a changing peer can make it go on forever. All other
  recursions end by themselves. Words keep their widths, and theorems state where a sum has to fit.

  \<^bold>\<open>Arguments of the models.\<close> Hash functions, signatures, verifiable random functions, the conversion of Boost integers and the derivation of addresses are not below \<^verbatim>\<open>src\<close> or are
  cryptography; they are arguments, with what is documented of them as hypotheses where a theorem needs it (no collision among the trees in question, signatures
  that verify). Iteration orders of hashed containers are arguments too. Locks make operations atomic; where threads interleave between two locked sections, the model
  has a transition relation or takes the changes of the other threads as an argument.

  \<^bold>\<open>What the proofs revealed.\<close> Some theorems state that the code does not do what it means to: an equal timestamp makes the difficulty throw, a comparison can go on
  forever, the undo of some multisig modifications leaves entries behind or throws, a premature proof makes a voter skip an epoch, a stored proof in the middle of an epoch is not found, and the quorum
  threshold is exact only while the weights stay below a bound. They are stated for all inputs of the kind they describe.

  \<^bold>\<open>What is not modelled.\<close> Networking, threads and the dispatcher between consumers; databases behind the caches; the pools of unconfirmed transactions; the calculation of importances
  and the other observers of the core plugin; the plugins of mosaics, locks, metadata, restrictions, transfers, aggregates and links; harvesting and the other extensions;
  configuration, start-up and tools; the cryptographic primitives; and the programs in other languages. They are input and output, wiring, or further plugins of the same shape as the modelled ones.
\<close>

end
